(* ===== verification/Prelude.thy ===== *)
theory Prelude
  imports Main "HOL-Library.Word" "HOL-Library.Monad_Syntax"
begin

text \<open>
  Shared vocabulary of the libxml2 development.

  \<^item> \<open>'a ptr\<close> is a C pointer: \<open>NULL\<close> or a pointer to the bytes (or object) that the
    program may access through it.  A pointer to characters is modelled by the bytes from the
    pointer to the end of its allocation, so advancing the pointer is \<^const>\<open>drop\<close>.
  \<^item> A computation of type \<open>'a option\<close> is a C computation whose memory accesses are checked:
    \<^const>\<open>None\<close> is an access outside the allocation (undefined behaviour in C).
    Error codes of the library are ordinary values under \<^const>\<open>Some\<close>.
  \<^item> An allocator is a predicate \<open>nat \<Rightarrow> bool\<close>: whether a request for that many bytes
    succeeds.  Every theorem is for an arbitrary allocator, so every out-of-memory path is covered.
\<close>

unbundle bit_operations_syntax

section \<open>Types\<close>

type_synonym byte = "8 word"
type_synonym bytes = "byte list"
type_synonym uint = "32 word"
type_synonym size_t = "64 word"
type_synonym allocator = "nat \<Rightarrow> bool"

datatype 'a ptr = NULL | Ptr 'a

type_synonym xmlString = "bytes ptr"

named_theorems cmem \<open>rewrite rules for checked memory accesses\<close>
named_theorems cstr \<open>facts on zero-terminated strings\<close>

section \<open>C integers\<close>

abbreviation INT_MAX :: int where
  "INT_MAX \<equiv> 2147483647"

abbreviation INT_MAX_nat :: nat where
  "INT_MAX_nat \<equiv> 2147483647"

text \<open>Conversion of a wider integer to a 32-bit \<open>int\<close>.\<close>

definition c_int :: "int \<Rightarrow> int" where
  "c_int x = signed_take_bit 31 x"

lemma c_int_id [simp]: "- 2147483648 \<le> x \<Longrightarrow> x \<le> INT_MAX \<Longrightarrow> c_int x = x"
  by (simp add: c_int_def signed_take_bit_int_eq_self)

lemma c_int_range: "- 2147483648 \<le> c_int x \<and> c_int x \<le> INT_MAX"
  using signed_take_bit_int_greater_eq_minus_exp [of 31 x] signed_take_bit_int_less_exp [of 31 x]
  by (simp add: c_int_def)

section \<open>Checked memory\<close>

definition rd :: "'a list \<Rightarrow> nat \<Rightarrow> 'a option" where
  "rd s i = (if i < length s then Some (s ! i) else None)"

definition wr :: "'a list \<Rightarrow> nat \<Rightarrow> 'a \<Rightarrow> 'a list option" where
  "wr s i v = (if i < length s then Some (s[i := v]) else None)"

text \<open>\<open>copy_in n s\<close>: the \<open>n\<close> bytes that \<open>memcpy\<close> reads from \<open>s\<close>.\<close>

definition copy_in :: "nat \<Rightarrow> 'a list \<Rightarrow> 'a list option" where
  "copy_in n s = (if n \<le> length s then Some (take n s) else None)"

text \<open>\<open>copy_out d i xs\<close>: \<open>memcpy\<close> of the bytes \<open>xs\<close> to offset \<open>i\<close> of \<open>d\<close>.\<close>

definition copy_out :: "'a list \<Rightarrow> nat \<Rightarrow> 'a list \<Rightarrow> 'a list option" where
  "copy_out d i xs =
     (if i + length xs \<le> length d then Some (take i d @ xs @ drop (i + length xs) d) else None)"

lemma rd_Cons_0 [simp, cmem]: "rd (c # s) 0 = Some c"
  by (simp add: rd_def)

lemma rd_Cons_Suc [simp, cmem]: "rd (c # s) (Suc i) = rd s i"
  by (simp add: rd_def)

lemma rd_Cons_numeral [simp, cmem]: "rd (c # s) (numeral k) = rd s (pred_numeral k)"
  by (simp add: numeral_eq_Suc)

lemma rd_Nil [simp, cmem]: "rd [] i = None"
  by (simp add: rd_def)

lemma rd_Some_iff: "rd s i = Some c \<longleftrightarrow> i < length s \<and> s ! i = c"
  by (auto simp: rd_def)

lemma rd_drop [cmem]: "rd (drop k s) i = rd s (k + i)"
  by (auto simp: rd_def)

lemma length_wr: "wr s i v = Some s' \<Longrightarrow> length s' = length s"
  by (auto simp: wr_def split: if_splits)

lemma length_copy_out: "copy_out d i xs = Some d' \<Longrightarrow> length d' = length d"
  by (auto simp: copy_out_def split: if_splits)

lemma copy_in_all [simp]: "copy_in (length s) s = Some s"
  by (simp add: copy_in_def)

section \<open>Zero-terminated strings\<close>

text \<open>\<open>cstring s\<close>: the accessible bytes hold a terminator.  \<open>strval s\<close>: the string itself.\<close>

definition cstring :: "bytes \<Rightarrow> bool" where
  "cstring s \<longleftrightarrow> 0 \<in> set s"

definition strval :: "bytes \<Rightarrow> bytes" where
  "strval s = takeWhile (\<lambda>c. c \<noteq> 0) s"

text \<open>\<open>cstr_of v\<close>: a fresh allocation that holds exactly the string \<open>v\<close>.\<close>

definition cstr_of :: "bytes \<Rightarrow> bytes" where
  "cstr_of v = v @ [0]"

text \<open>\<open>strlen\<close>: walks to the terminator.\<close>

fun strlen :: "bytes \<Rightarrow> nat option" where
  "strlen [] = None"
| "strlen (c # s) = (if c = 0 then Some 0 else map_option Suc (strlen s))"

lemma cstring_Nil [simp, cstr]: "\<not> cstring []"
  by (simp add: cstring_def)

lemma cstring_Cons [simp, cstr]: "cstring (c # s) \<longleftrightarrow> c = 0 \<or> cstring s"
  by (auto simp: cstring_def)

lemma strval_Nil [simp, cstr]: "strval [] = []"
  by (simp add: strval_def)

lemma strval_Cons [simp, cstr]: "strval (c # s) = (if c = 0 then [] else c # strval s)"
  by (simp add: strval_def)

lemma strval_no_zero [cstr]: "0 \<notin> set (strval s)"
  by (induction s) auto

lemma strval_nz: "c \<in> set (strval s) \<Longrightarrow> c \<noteq> 0"
  using strval_no_zero [of s] by auto

lemma cstring_of [simp, cstr]: "cstring (cstr_of v)"
  by (simp add: cstring_def cstr_of_def)

lemma strval_append: "0 \<notin> set v \<Longrightarrow> strval (v @ 0 # r) = v"
  by (induction v) auto

lemma strval_of [simp, cstr]: "0 \<notin> set v \<Longrightarrow> strval (cstr_of v) = v"
  by (simp add: cstr_of_def strval_append)

lemma strval_strval [simp]: "strval (cstr_of (strval s)) = strval s"
  by (simp add: strval_no_zero)

lemma cstring_split: "cstring s \<longleftrightarrow> (\<exists>r. s = strval s @ 0 # r)"
proof (induction s)
  case (Cons c s)
  then show ?case by (auto simp: cstring_def)
qed simp

lemma strlen_cstring [cstr]: "cstring s \<Longrightarrow> strlen s = Some (length (strval s))"
  by (induction s) auto

lemma strlen_eq: "strlen s = (if cstring s then Some (length (strval s)) else None)"
  by (induction s) auto

lemma length_strval_less: "cstring s \<Longrightarrow> length (strval s) < length s"
  by (induction s) auto

lemma take_strval: "cstring s \<Longrightarrow> take (length (strval s)) s = strval s"
  by (induction s) auto

lemma drop_strval: "cstring s \<Longrightarrow> \<exists>r. drop (length (strval s)) s = 0 # r"
  by (induction s) auto

lemma nth_strval: "i < length (strval s) \<Longrightarrow> s ! i = strval s ! i"
  by (simp add: strval_def takeWhile_nth)

lemma nth_strval_end: "cstring s \<Longrightarrow> s ! length (strval s) = 0"
  by (induction s) auto

lemma copy_in_strval: "cstring s \<Longrightarrow> copy_in (length (strval s)) s = Some (strval s)"
  by (simp add: copy_in_def take_strval less_imp_le length_strval_less)

lemma cstring_drop: "cstring s \<Longrightarrow> k \<le> length (strval s) \<Longrightarrow> cstring (drop k s)"
  by (induction s arbitrary: k) (auto split: if_splits simp: drop_Cons' le_diff_conv)

lemma strval_drop: "cstring s \<Longrightarrow> k \<le> length (strval s) \<Longrightarrow> strval (drop k s) = drop k (strval s)"
  by (induction s arbitrary: k) (auto split: if_splits simp: drop_Cons' le_diff_conv)

section \<open>Bytes\<close>

text \<open>ASCII literals: \<open>asc ''abc''\<close>, \<open>ch CHR ''a''\<close>.\<close>

definition ch :: "char \<Rightarrow> byte" where
  "ch c = word_of_nat (of_char c)"

definition asc :: "string \<Rightarrow> bytes" where
  "asc s = map ch s"

lemma asc_simps [simp]: "asc [] = []" "asc (c # s) = ch c # asc s"
  by (simp_all add: asc_def)

lemma ch_Char: "ch (Char b0 b1 b2 b3 b4 b5 b6 b7) =
    of_bool b0 + 2 * of_bool b1 + 4 * of_bool b2 + 8 * of_bool b3
    + 16 * of_bool b4 + 32 * of_bool b5 + 64 * of_bool b6 + 128 * of_bool b7"
  by (simp add: ch_def of_char_def horner_sum_simps del: of_nat_add)

declare ch_Char [simp]

end
