(* ===== verification/Chvalid.thy ===== *)
theory Chvalid
  imports Prelude
begin

text \<open>
  Character classes: \<open>chvalid.c\<close>, the macros of \<open>include/libxml/chvalid.h\<close> and the
  tables of \<open>codegen/ranges.inc\<close>.  A range group is a pair of sorted arrays searched by
  bisection.  The locale \<open>range_table\<close> states what the search relies on (the ranges are
  ordered and disjoint) and proves the search equal to membership; it is interpreted on every table
  of the library.
\<close>

section \<open>Data\<close>

record 'a xmlChRange =
  low :: 'a
  high :: 'a

type_synonym xmlChSRange = "16 word xmlChRange"
type_synonym xmlChLRange = "32 word xmlChRange"

record xmlChRangeGroup =
  nbShortRange :: int
  nbLongRange :: int
  shortRange :: "xmlChSRange list"
  longRange :: "xmlChLRange list"

definition ranges :: "('a \<times> 'a) list \<Rightarrow> 'a xmlChRange list" where
  "ranges = map (\<lambda>(l, h). \<lparr>low = l, high = h\<rparr>)"

definition xmlIsBaseChar_srng :: "xmlChSRange list" where
  "xmlIsBaseChar_srng = ranges [
    (0x100, 0x131), (0x134, 0x13e), (0x141, 0x148), (0x14a, 0x17e), (0x180, 0x1c3),
    (0x1cd, 0x1f0), (0x1f4, 0x1f5), (0x1fa, 0x217), (0x250, 0x2a8), (0x2bb, 0x2c1),
    (0x386, 0x386), (0x388, 0x38a), (0x38c, 0x38c), (0x38e, 0x3a1), (0x3a3, 0x3ce),
    (0x3d0, 0x3d6), (0x3da, 0x3da), (0x3dc, 0x3dc), (0x3de, 0x3de), (0x3e0, 0x3e0),
    (0x3e2, 0x3f3), (0x401, 0x40c), (0x40e, 0x44f), (0x451, 0x45c), (0x45e, 0x481),
    (0x490, 0x4c4), (0x4c7, 0x4c8), (0x4cb, 0x4cc), (0x4d0, 0x4eb), (0x4ee, 0x4f5),
    (0x4f8, 0x4f9), (0x531, 0x556), (0x559, 0x559), (0x561, 0x586), (0x5d0, 0x5ea),
    (0x5f0, 0x5f2), (0x621, 0x63a), (0x641, 0x64a), (0x671, 0x6b7), (0x6ba, 0x6be),
    (0x6c0, 0x6ce), (0x6d0, 0x6d3), (0x6d5, 0x6d5), (0x6e5, 0x6e6), (0x905, 0x939),
    (0x93d, 0x93d), (0x958, 0x961), (0x985, 0x98c), (0x98f, 0x990), (0x993, 0x9a8),
    (0x9aa, 0x9b0), (0x9b2, 0x9b2), (0x9b6, 0x9b9), (0x9dc, 0x9dd), (0x9df, 0x9e1),
    (0x9f0, 0x9f1), (0xa05, 0xa0a), (0xa0f, 0xa10), (0xa13, 0xa28), (0xa2a, 0xa30),
    (0xa32, 0xa33), (0xa35, 0xa36), (0xa38, 0xa39), (0xa59, 0xa5c), (0xa5e, 0xa5e),
    (0xa72, 0xa74), (0xa85, 0xa8b), (0xa8d, 0xa8d), (0xa8f, 0xa91), (0xa93, 0xaa8),
    (0xaaa, 0xab0), (0xab2, 0xab3), (0xab5, 0xab9), (0xabd, 0xabd), (0xae0, 0xae0),
    (0xb05, 0xb0c), (0xb0f, 0xb10), (0xb13, 0xb28), (0xb2a, 0xb30), (0xb32, 0xb33),
    (0xb36, 0xb39), (0xb3d, 0xb3d), (0xb5c, 0xb5d), (0xb5f, 0xb61), (0xb85, 0xb8a),
    (0xb8e, 0xb90), (0xb92, 0xb95), (0xb99, 0xb9a), (0xb9c, 0xb9c), (0xb9e, 0xb9f),
    (0xba3, 0xba4), (0xba8, 0xbaa), (0xbae, 0xbb5), (0xbb7, 0xbb9), (0xc05, 0xc0c),
    (0xc0e, 0xc10), (0xc12, 0xc28), (0xc2a, 0xc33), (0xc35, 0xc39), (0xc60, 0xc61),
    (0xc85, 0xc8c), (0xc8e, 0xc90), (0xc92, 0xca8), (0xcaa, 0xcb3), (0xcb5, 0xcb9),
    (0xcde, 0xcde), (0xce0, 0xce1), (0xd05, 0xd0c), (0xd0e, 0xd10), (0xd12, 0xd28),
    (0xd2a, 0xd39), (0xd60, 0xd61), (0xe01, 0xe2e), (0xe30, 0xe30), (0xe32, 0xe33),
    (0xe40, 0xe45), (0xe81, 0xe82), (0xe84, 0xe84), (0xe87, 0xe88), (0xe8a, 0xe8a),
    (0xe8d, 0xe8d), (0xe94, 0xe97), (0xe99, 0xe9f), (0xea1, 0xea3), (0xea5, 0xea5),
    (0xea7, 0xea7), (0xeaa, 0xeab), (0xead, 0xeae), (0xeb0, 0xeb0), (0xeb2, 0xeb3),
    (0xebd, 0xebd), (0xec0, 0xec4), (0xf40, 0xf47), (0xf49, 0xf69), (0x10a0, 0x10c5),
    (0x10d0, 0x10f6), (0x1100, 0x1100), (0x1102, 0x1103), (0x1105, 0x1107),
    (0x1109, 0x1109), (0x110b, 0x110c), (0x110e, 0x1112), (0x113c, 0x113c),
    (0x113e, 0x113e), (0x1140, 0x1140), (0x114c, 0x114c), (0x114e, 0x114e),
    (0x1150, 0x1150), (0x1154, 0x1155), (0x1159, 0x1159), (0x115f, 0x1161),
    (0x1163, 0x1163), (0x1165, 0x1165), (0x1167, 0x1167), (0x1169, 0x1169),
    (0x116d, 0x116e), (0x1172, 0x1173), (0x1175, 0x1175), (0x119e, 0x119e),
    (0x11a8, 0x11a8), (0x11ab, 0x11ab), (0x11ae, 0x11af), (0x11b7, 0x11b8),
    (0x11ba, 0x11ba), (0x11bc, 0x11c2), (0x11eb, 0x11eb), (0x11f0, 0x11f0),
    (0x11f9, 0x11f9), (0x1e00, 0x1e9b), (0x1ea0, 0x1ef9), (0x1f00, 0x1f15),
    (0x1f18, 0x1f1d), (0x1f20, 0x1f45), (0x1f48, 0x1f4d), (0x1f50, 0x1f57),
    (0x1f59, 0x1f59), (0x1f5b, 0x1f5b), (0x1f5d, 0x1f5d), (0x1f5f, 0x1f7d),
    (0x1f80, 0x1fb4), (0x1fb6, 0x1fbc), (0x1fbe, 0x1fbe), (0x1fc2, 0x1fc4),
    (0x1fc6, 0x1fcc), (0x1fd0, 0x1fd3), (0x1fd6, 0x1fdb), (0x1fe0, 0x1fec),
    (0x1ff2, 0x1ff4), (0x1ff6, 0x1ffc), (0x2126, 0x2126), (0x212a, 0x212b),
    (0x212e, 0x212e), (0x2180, 0x2182), (0x3041, 0x3094), (0x30a1, 0x30fa),
    (0x3105, 0x312c), (0xac00, 0xd7a3)]"

definition xmlIsChar_srng :: "xmlChSRange list" where
  "xmlIsChar_srng = ranges [
    (0x100, 0xd7ff), (0xe000, 0xfffd)]"

definition xmlIsChar_lrng :: "xmlChLRange list" where
  "xmlIsChar_lrng = ranges [
    (0x10000, 0x10ffff)]"

definition xmlIsCombining_srng :: "xmlChSRange list" where
  "xmlIsCombining_srng = ranges [
    (0x300, 0x345), (0x360, 0x361), (0x483, 0x486), (0x591, 0x5a1), (0x5a3, 0x5b9),
    (0x5bb, 0x5bd), (0x5bf, 0x5bf), (0x5c1, 0x5c2), (0x5c4, 0x5c4), (0x64b, 0x652),
    (0x670, 0x670), (0x6d6, 0x6dc), (0x6dd, 0x6df), (0x6e0, 0x6e4), (0x6e7, 0x6e8),
    (0x6ea, 0x6ed), (0x901, 0x903), (0x93c, 0x93c), (0x93e, 0x94c), (0x94d, 0x94d),
    (0x951, 0x954), (0x962, 0x963), (0x981, 0x983), (0x9bc, 0x9bc), (0x9be, 0x9be),
    (0x9bf, 0x9bf), (0x9c0, 0x9c4), (0x9c7, 0x9c8), (0x9cb, 0x9cd), (0x9d7, 0x9d7),
    (0x9e2, 0x9e3), (0xa02, 0xa02), (0xa3c, 0xa3c), (0xa3e, 0xa3e), (0xa3f, 0xa3f),
    (0xa40, 0xa42), (0xa47, 0xa48), (0xa4b, 0xa4d), (0xa70, 0xa71), (0xa81, 0xa83),
    (0xabc, 0xabc), (0xabe, 0xac5), (0xac7, 0xac9), (0xacb, 0xacd), (0xb01, 0xb03),
    (0xb3c, 0xb3c), (0xb3e, 0xb43), (0xb47, 0xb48), (0xb4b, 0xb4d), (0xb56, 0xb57),
    (0xb82, 0xb83), (0xbbe, 0xbc2), (0xbc6, 0xbc8), (0xbca, 0xbcd), (0xbd7, 0xbd7),
    (0xc01, 0xc03), (0xc3e, 0xc44), (0xc46, 0xc48), (0xc4a, 0xc4d), (0xc55, 0xc56),
    (0xc82, 0xc83), (0xcbe, 0xcc4), (0xcc6, 0xcc8), (0xcca, 0xccd), (0xcd5, 0xcd6),
    (0xd02, 0xd03), (0xd3e, 0xd43), (0xd46, 0xd48), (0xd4a, 0xd4d), (0xd57, 0xd57),
    (0xe31, 0xe31), (0xe34, 0xe3a), (0xe47, 0xe4e), (0xeb1, 0xeb1), (0xeb4, 0xeb9),
    (0xebb, 0xebc), (0xec8, 0xecd), (0xf18, 0xf19), (0xf35, 0xf35), (0xf37, 0xf37),
    (0xf39, 0xf39), (0xf3e, 0xf3e), (0xf3f, 0xf3f), (0xf71, 0xf84), (0xf86, 0xf8b),
    (0xf90, 0xf95), (0xf97, 0xf97), (0xf99, 0xfad), (0xfb1, 0xfb7), (0xfb9, 0xfb9),
    (0x20d0, 0x20dc), (0x20e1, 0x20e1), (0x302a, 0x302f), (0x3099, 0x3099),
    (0x309a, 0x309a)]"

definition xmlIsDigit_srng :: "xmlChSRange list" where
  "xmlIsDigit_srng = ranges [
    (0x660, 0x669), (0x6f0, 0x6f9), (0x966, 0x96f), (0x9e6, 0x9ef), (0xa66, 0xa6f),
    (0xae6, 0xaef), (0xb66, 0xb6f), (0xbe7, 0xbef), (0xc66, 0xc6f), (0xce6, 0xcef),
    (0xd66, 0xd6f), (0xe50, 0xe59), (0xed0, 0xed9), (0xf20, 0xf29)]"

definition xmlIsExtender_srng :: "xmlChSRange list" where
  "xmlIsExtender_srng = ranges [
    (0x2d0, 0x2d0), (0x2d1, 0x2d1), (0x387, 0x387), (0x640, 0x640), (0xe46, 0xe46),
    (0xec6, 0xec6), (0x3005, 0x3005), (0x3031, 0x3035), (0x309d, 0x309e), (0x30fc, 0x30fe)]"

definition xmlIsIdeographic_srng :: "xmlChSRange list" where
  "xmlIsIdeographic_srng = ranges [
    (0x3007, 0x3007), (0x3021, 0x3029), (0x4e00, 0x9fa5)]"

definition xmlIsPubidChar_tab :: "byte list" where
  "xmlIsPubidChar_tab = [
    0, 0, 0, 0, 0, 0, 0, 0, 0, 0, 1, 0, 0, 1, 0, 0, 0, 0, 0, 0, 0, 0, 0, 0,
    0, 0, 0, 0, 0, 0, 0, 0, 1, 1, 0, 1, 1, 1, 0, 1, 1, 1, 1, 1, 1, 1, 1, 1,
    1, 1, 1, 1, 1, 1, 1, 1, 1, 1, 1, 1, 0, 1, 0, 1, 1, 1, 1, 1, 1, 1, 1, 1,
    1, 1, 1, 1, 1, 1, 1, 1, 1, 1, 1, 1, 1, 1, 1, 1, 1, 1, 1, 0, 0, 0, 0, 1,
    0, 1, 1, 1, 1, 1, 1, 1, 1, 1, 1, 1, 1, 1, 1, 1, 1, 1, 1, 1, 1, 1, 1, 1,
    1, 1, 1, 0, 0, 0, 0, 0, 0, 0, 0, 0, 0, 0, 0, 0, 0, 0, 0, 0, 0, 0, 0, 0,
    0, 0, 0, 0, 0, 0, 0, 0, 0, 0, 0, 0, 0, 0, 0, 0, 0, 0, 0, 0, 0, 0, 0, 0,
    0, 0, 0, 0, 0, 0, 0, 0, 0, 0, 0, 0, 0, 0, 0, 0, 0, 0, 0, 0, 0, 0, 0, 0,
    0, 0, 0, 0, 0, 0, 0, 0, 0, 0, 0, 0, 0, 0, 0, 0, 0, 0, 0, 0, 0, 0, 0, 0,
    0, 0, 0, 0, 0, 0, 0, 0, 0, 0, 0, 0, 0, 0, 0, 0, 0, 0, 0, 0, 0, 0, 0, 0,
    0, 0, 0, 0, 0, 0, 0, 0, 0, 0, 0, 0, 0, 0, 0, 0]"

definition xmlIsBaseCharGroup :: xmlChRangeGroup where
  "xmlIsBaseCharGroup = \<lparr>nbShortRange = 197, nbLongRange = 0,
     shortRange = xmlIsBaseChar_srng, longRange = []\<rparr>"

definition xmlIsCharGroup :: xmlChRangeGroup where
  "xmlIsCharGroup = \<lparr>nbShortRange = 2, nbLongRange = 1,
     shortRange = xmlIsChar_srng, longRange = xmlIsChar_lrng\<rparr>"

definition xmlIsCombiningGroup :: xmlChRangeGroup where
  "xmlIsCombiningGroup = \<lparr>nbShortRange = 95, nbLongRange = 0,
     shortRange = xmlIsCombining_srng, longRange = []\<rparr>"

definition xmlIsDigitGroup :: xmlChRangeGroup where
  "xmlIsDigitGroup = \<lparr>nbShortRange = 14, nbLongRange = 0,
     shortRange = xmlIsDigit_srng, longRange = []\<rparr>"

definition xmlIsExtenderGroup :: xmlChRangeGroup where
  "xmlIsExtenderGroup = \<lparr>nbShortRange = 10, nbLongRange = 0,
     shortRange = xmlIsExtender_srng, longRange = []\<rparr>"

definition xmlIsIdeographicGroup :: xmlChRangeGroup where
  "xmlIsIdeographicGroup = \<lparr>nbShortRange = 3, nbLongRange = 0,
     shortRange = xmlIsIdeographic_srng, longRange = []\<rparr>"

section \<open>The search\<close>

text \<open>
  The two loops of \<open>xmlCharInRange\<close> are the same code at two widths.  The bounds and the
  midpoint are C integers: \<open>low + high\<close> beyond \<open>INT_MAX\<close> is a signed overflow
  and \<^const>\<open>None\<close>, as is an access outside the array.
\<close>

function range_search :: "('a::linorder) xmlChRange list \<Rightarrow> 'a \<Rightarrow> int \<Rightarrow> int \<Rightarrow> bool option" where
  "range_search ptr val lo hi =
     (if lo \<le> hi
      then let mid = (lo + hi) div 2
           in (if lo + hi > INT_MAX \<or> mid < 0 then None else
               case rd ptr (nat mid) of
                 None \<Rightarrow> None
               | Some r \<Rightarrow>
                   if val < low r then range_search ptr val lo (mid - 1)
                   else if val > high r then range_search ptr val (mid + 1) hi
                   else Some True)
      else Some False)"
  by pat_completeness auto
termination
  by (relation "measure (\<lambda>(ptr, val, lo, hi). nat (hi - lo + 1))") (auto simp: Let_def)

declare range_search.simps [simp del]

definition xmlCharInRange :: "uint \<Rightarrow> xmlChRangeGroup ptr \<Rightarrow> bool option" where
  "xmlCharInRange val rptr =
     (case rptr of
        NULL \<Rightarrow> Some False
      | Ptr g \<Rightarrow>
          if val < 0x10000
          then if nbShortRange g = 0 then Some False
               else range_search (shortRange g) (ucast val) 0 (nbShortRange g - 1)
          else if nbLongRange g = 0 then Some False
               else range_search (longRange g) val 0 (nbLongRange g - 1))"

section \<open>The macros of chvalid.h and the functions of chvalid.c\<close>

definition xmlIsBaseChar_ch :: "uint \<Rightarrow> bool" where
  "xmlIsBaseChar_ch c \<longleftrightarrow>
     (0x41 \<le> c \<and> c \<le> 0x5a) \<or> (0x61 \<le> c \<and> c \<le> 0x7a) \<or> (0xc0 \<le> c \<and> c \<le> 0xd6) \<or>
     (0xd8 \<le> c \<and> c \<le> 0xf6) \<or> 0xf8 \<le> c"

definition xmlIsBaseCharQ :: "uint \<Rightarrow> bool option" where
  "xmlIsBaseCharQ c =
     (if c < 0x100 then Some (xmlIsBaseChar_ch c) else xmlCharInRange c (Ptr xmlIsBaseCharGroup))"

definition xmlIsBlank_ch :: "uint \<Rightarrow> bool" where
  "xmlIsBlank_ch c \<longleftrightarrow> c = 0x20 \<or> (0x9 \<le> c \<and> c \<le> 0xa) \<or> c = 0xd"

definition xmlIsBlankQ :: "uint \<Rightarrow> bool" where
  "xmlIsBlankQ c = (if c < 0x100 then xmlIsBlank_ch c else False)"

definition xmlIsChar_ch :: "uint \<Rightarrow> bool" where
  "xmlIsChar_ch c \<longleftrightarrow> (0x9 \<le> c \<and> c \<le> 0xa) \<or> c = 0xd \<or> 0x20 \<le> c"

definition xmlIsCharQ :: "uint \<Rightarrow> bool" where
  "xmlIsCharQ c =
     (if c < 0x100 then xmlIsChar_ch c
      else (0x100 \<le> c \<and> c \<le> 0xd7ff) \<or> (0xe000 \<le> c \<and> c \<le> 0xfffd) \<or>
           (0x10000 \<le> c \<and> c \<le> 0x10ffff))"

definition xmlIsCombiningQ :: "uint \<Rightarrow> bool option" where
  "xmlIsCombiningQ c =
     (if c < 0x100 then Some False else xmlCharInRange c (Ptr xmlIsCombiningGroup))"

definition xmlIsDigit_ch :: "uint \<Rightarrow> bool" where
  "xmlIsDigit_ch c \<longleftrightarrow> 0x30 \<le> c \<and> c \<le> 0x39"

definition xmlIsDigitQ :: "uint \<Rightarrow> bool option" where
  "xmlIsDigitQ c =
     (if c < 0x100 then Some (xmlIsDigit_ch c) else xmlCharInRange c (Ptr xmlIsDigitGroup))"

definition xmlIsExtender_ch :: "uint \<Rightarrow> bool" where
  "xmlIsExtender_ch c \<longleftrightarrow> c = 0xb7"

definition xmlIsExtenderQ :: "uint \<Rightarrow> bool option" where
  "xmlIsExtenderQ c =
     (if c < 0x100 then Some (xmlIsExtender_ch c) else xmlCharInRange c (Ptr xmlIsExtenderGroup))"

definition xmlIsIdeographicQ :: "uint \<Rightarrow> bool" where
  "xmlIsIdeographicQ c =
     (if c < 0x100 then False
      else (0x4e00 \<le> c \<and> c \<le> 0x9fa5) \<or> c = 0x3007 \<or> (0x3021 \<le> c \<and> c \<le> 0x3029))"

definition xmlIsPubidChar_ch :: "uint \<Rightarrow> bool option" where
  "xmlIsPubidChar_ch c = map_option (\<lambda>b. b \<noteq> 0) (rd xmlIsPubidChar_tab (unat c))"

definition xmlIsPubidCharQ :: "uint \<Rightarrow> bool option" where
  "xmlIsPubidCharQ c = (if c < 0x100 then xmlIsPubidChar_ch c else Some False)"

definition xmlIsBaseChar :: "uint \<Rightarrow> bool option" where
  "xmlIsBaseChar c = xmlIsBaseCharQ c"

definition xmlIsBlank :: "uint \<Rightarrow> bool" where
  "xmlIsBlank c = xmlIsBlankQ c"

definition xmlIsChar :: "uint \<Rightarrow> bool" where
  "xmlIsChar c = xmlIsCharQ c"

definition xmlIsCombining :: "uint \<Rightarrow> bool option" where
  "xmlIsCombining c = xmlIsCombiningQ c"

definition xmlIsDigit :: "uint \<Rightarrow> bool option" where
  "xmlIsDigit c = xmlIsDigitQ c"

definition xmlIsExtender :: "uint \<Rightarrow> bool option" where
  "xmlIsExtender c = xmlIsExtenderQ c"

definition xmlIsIdeographic :: "uint \<Rightarrow> bool" where
  "xmlIsIdeographic c = xmlIsIdeographicQ c"

definition xmlIsPubidChar :: "uint \<Rightarrow> bool option" where
  "xmlIsPubidChar c = xmlIsPubidCharQ c"

section \<open>Specification\<close>

text \<open>What the tables are meant to denote: a set of characters.\<close>

definition in_ranges :: "('a::linorder) xmlChRange list \<Rightarrow> 'a \<Rightarrow> bool" where
  "in_ranges tab v \<longleftrightarrow> list_ex (\<lambda>r. low r \<le> v \<and> v \<le> high r) tab"

fun ordered_ranges :: "('a::linorder) xmlChRange list \<Rightarrow> bool" where
  "ordered_ranges [] = True"
| "ordered_ranges [r] = (low r \<le> high r)"
| "ordered_ranges (r # s # rs) = (low r \<le> high r \<and> high r < low s \<and> ordered_ranges (s # rs))"

text \<open>
  A well-formed group records the lengths of its arrays, which are ordered and have at most
  \<open>2\<^sup>3\<^sup>0\<close> ranges: beyond that the sum of the two bounds of the search leaves a C int.  (A short
  array of disjoint ranges has at most \<open>2\<^sup>1\<^sup>6\<close> of them anyway.)
\<close>

definition group_wf :: "xmlChRangeGroup \<Rightarrow> bool" where
  "group_wf g \<longleftrightarrow>
     nbShortRange g = int (length (shortRange g)) \<and> nbLongRange g = int (length (longRange g)) \<and>
     ordered_ranges (shortRange g) \<and> ordered_ranges (longRange g) \<and>
     length (shortRange g) \<le> 2 ^ 30 \<and> length (longRange g) \<le> 2 ^ 30"

definition in_group :: "xmlChRangeGroup \<Rightarrow> uint \<Rightarrow> bool" where
  "in_group g c \<longleftrightarrow>
     (if c < 0x10000 then in_ranges (shortRange g) (ucast c) else in_ranges (longRange g) c)"

text \<open>The productions of XML 1.0 that the macros stand for.\<close>

definition Char_production :: "uint \<Rightarrow> bool" where
  "Char_production c \<longleftrightarrow>
     c = 0x9 \<or> c = 0xa \<or> c = 0xd \<or> (0x20 \<le> c \<and> c \<le> 0xd7ff) \<or> (0xe000 \<le> c \<and> c \<le> 0xfffd) \<or>
     (0x10000 \<le> c \<and> c \<le> 0x10ffff)"

definition PubidChar_production :: "uint \<Rightarrow> bool" where
  "PubidChar_production c \<longleftrightarrow>
     c = 0x20 \<or> c = 0xd \<or> c = 0xa \<or> (0x61 \<le> c \<and> c \<le> 0x7a) \<or> (0x41 \<le> c \<and> c \<le> 0x5a) \<or>
     (0x30 \<le> c \<and> c \<le> 0x39) \<or> c = 0x27 \<or> c \<in> set (map ucast (asc ''-()+,./:=?;!*#@$_%''))"

text \<open>
  The other classes are the ranges of \<open>codegen/ranges.def\<close>, the file of the productions from
  which the tables and the macros are generated.
\<close>

definition BaseChar_production :: "(nat \<times> nat) list" where
  "BaseChar_production = [
    (0x41, 0x5a), (0x61, 0x7a), (0xc0, 0xd6), (0xd8, 0xf6), (0xf8, 0xff), (0x100, 0x131),
    (0x134, 0x13e), (0x141, 0x148), (0x14a, 0x17e), (0x180, 0x1c3), (0x1cd, 0x1f0),
    (0x1f4, 0x1f5), (0x1fa, 0x217), (0x250, 0x2a8), (0x2bb, 0x2c1), (0x386, 0x386),
    (0x388, 0x38a), (0x38c, 0x38c), (0x38e, 0x3a1), (0x3a3, 0x3ce), (0x3d0, 0x3d6),
    (0x3da, 0x3da), (0x3dc, 0x3dc), (0x3de, 0x3de), (0x3e0, 0x3e0), (0x3e2, 0x3f3),
    (0x401, 0x40c), (0x40e, 0x44f), (0x451, 0x45c), (0x45e, 0x481), (0x490, 0x4c4),
    (0x4c7, 0x4c8), (0x4cb, 0x4cc), (0x4d0, 0x4eb), (0x4ee, 0x4f5), (0x4f8, 0x4f9),
    (0x531, 0x556), (0x559, 0x559), (0x561, 0x586), (0x5d0, 0x5ea), (0x5f0, 0x5f2),
    (0x621, 0x63a), (0x641, 0x64a), (0x671, 0x6b7), (0x6ba, 0x6be), (0x6c0, 0x6ce),
    (0x6d0, 0x6d3), (0x6d5, 0x6d5), (0x6e5, 0x6e6), (0x905, 0x939), (0x93d, 0x93d),
    (0x958, 0x961), (0x985, 0x98c), (0x98f, 0x990), (0x993, 0x9a8), (0x9aa, 0x9b0),
    (0x9b2, 0x9b2), (0x9b6, 0x9b9), (0x9dc, 0x9dd), (0x9df, 0x9e1), (0x9f0, 0x9f1),
    (0xa05, 0xa0a), (0xa0f, 0xa10), (0xa13, 0xa28), (0xa2a, 0xa30), (0xa32, 0xa33),
    (0xa35, 0xa36), (0xa38, 0xa39), (0xa59, 0xa5c), (0xa5e, 0xa5e), (0xa72, 0xa74),
    (0xa85, 0xa8b), (0xa8d, 0xa8d), (0xa8f, 0xa91), (0xa93, 0xaa8), (0xaaa, 0xab0),
    (0xab2, 0xab3), (0xab5, 0xab9), (0xabd, 0xabd), (0xae0, 0xae0), (0xb05, 0xb0c),
    (0xb0f, 0xb10), (0xb13, 0xb28), (0xb2a, 0xb30), (0xb32, 0xb33), (0xb36, 0xb39),
    (0xb3d, 0xb3d), (0xb5c, 0xb5d), (0xb5f, 0xb61), (0xb85, 0xb8a), (0xb8e, 0xb90),
    (0xb92, 0xb95), (0xb99, 0xb9a), (0xb9c, 0xb9c), (0xb9e, 0xb9f), (0xba3, 0xba4),
    (0xba8, 0xbaa), (0xbae, 0xbb5), (0xbb7, 0xbb9), (0xc05, 0xc0c), (0xc0e, 0xc10),
    (0xc12, 0xc28), (0xc2a, 0xc33), (0xc35, 0xc39), (0xc60, 0xc61), (0xc85, 0xc8c),
    (0xc8e, 0xc90), (0xc92, 0xca8), (0xcaa, 0xcb3), (0xcb5, 0xcb9), (0xcde, 0xcde),
    (0xce0, 0xce1), (0xd05, 0xd0c), (0xd0e, 0xd10), (0xd12, 0xd28), (0xd2a, 0xd39),
    (0xd60, 0xd61), (0xe01, 0xe2e), (0xe30, 0xe30), (0xe32, 0xe33), (0xe40, 0xe45),
    (0xe81, 0xe82), (0xe84, 0xe84), (0xe87, 0xe88), (0xe8a, 0xe8a), (0xe8d, 0xe8d),
    (0xe94, 0xe97), (0xe99, 0xe9f), (0xea1, 0xea3), (0xea5, 0xea5), (0xea7, 0xea7),
    (0xeaa, 0xeab), (0xead, 0xeae), (0xeb0, 0xeb0), (0xeb2, 0xeb3), (0xebd, 0xebd),
    (0xec0, 0xec4), (0xf40, 0xf47), (0xf49, 0xf69), (0x10a0, 0x10c5), (0x10d0, 0x10f6),
    (0x1100, 0x1100), (0x1102, 0x1103), (0x1105, 0x1107), (0x1109, 0x1109), (0x110b, 0x110c),
    (0x110e, 0x1112), (0x113c, 0x113c), (0x113e, 0x113e), (0x1140, 0x1140), (0x114c, 0x114c),
    (0x114e, 0x114e), (0x1150, 0x1150), (0x1154, 0x1155), (0x1159, 0x1159), (0x115f, 0x1161),
    (0x1163, 0x1163), (0x1165, 0x1165), (0x1167, 0x1167), (0x1169, 0x1169), (0x116d, 0x116e),
    (0x1172, 0x1173), (0x1175, 0x1175), (0x119e, 0x119e), (0x11a8, 0x11a8), (0x11ab, 0x11ab),
    (0x11ae, 0x11af), (0x11b7, 0x11b8), (0x11ba, 0x11ba), (0x11bc, 0x11c2), (0x11eb, 0x11eb),
    (0x11f0, 0x11f0), (0x11f9, 0x11f9), (0x1e00, 0x1e9b), (0x1ea0, 0x1ef9), (0x1f00, 0x1f15),
    (0x1f18, 0x1f1d), (0x1f20, 0x1f45), (0x1f48, 0x1f4d), (0x1f50, 0x1f57), (0x1f59, 0x1f59),
    (0x1f5b, 0x1f5b), (0x1f5d, 0x1f5d), (0x1f5f, 0x1f7d), (0x1f80, 0x1fb4), (0x1fb6, 0x1fbc),
    (0x1fbe, 0x1fbe), (0x1fc2, 0x1fc4), (0x1fc6, 0x1fcc), (0x1fd0, 0x1fd3), (0x1fd6, 0x1fdb),
    (0x1fe0, 0x1fec), (0x1ff2, 0x1ff4), (0x1ff6, 0x1ffc), (0x2126, 0x2126), (0x212a, 0x212b),
    (0x212e, 0x212e), (0x2180, 0x2182), (0x3041, 0x3094), (0x30a1, 0x30fa), (0x3105, 0x312c),
    (0xac00, 0xd7a3)]"

definition Ideographic_production :: "(nat \<times> nat) list" where
  "Ideographic_production = [
    (0x4e00, 0x9fa5), (0x3007, 0x3007), (0x3021, 0x3029)]"

definition Combining_production :: "(nat \<times> nat) list" where
  "Combining_production = [
    (0x300, 0x345), (0x360, 0x361), (0x483, 0x486), (0x591, 0x5a1), (0x5a3, 0x5b9),
    (0x5bb, 0x5bd), (0x5bf, 0x5bf), (0x5c1, 0x5c2), (0x5c4, 0x5c4), (0x64b, 0x652),
    (0x670, 0x670), (0x6d6, 0x6dc), (0x6dd, 0x6df), (0x6e0, 0x6e4), (0x6e7, 0x6e8),
    (0x6ea, 0x6ed), (0x901, 0x903), (0x93c, 0x93c), (0x93e, 0x94c), (0x94d, 0x94d),
    (0x951, 0x954), (0x962, 0x963), (0x981, 0x983), (0x9bc, 0x9bc), (0x9be, 0x9be),
    (0x9bf, 0x9bf), (0x9c0, 0x9c4), (0x9c7, 0x9c8), (0x9cb, 0x9cd), (0x9d7, 0x9d7),
    (0x9e2, 0x9e3), (0xa02, 0xa02), (0xa3c, 0xa3c), (0xa3e, 0xa3e), (0xa3f, 0xa3f),
    (0xa40, 0xa42), (0xa47, 0xa48), (0xa4b, 0xa4d), (0xa70, 0xa71), (0xa81, 0xa83),
    (0xabc, 0xabc), (0xabe, 0xac5), (0xac7, 0xac9), (0xacb, 0xacd), (0xb01, 0xb03),
    (0xb3c, 0xb3c), (0xb3e, 0xb43), (0xb47, 0xb48), (0xb4b, 0xb4d), (0xb56, 0xb57),
    (0xb82, 0xb83), (0xbbe, 0xbc2), (0xbc6, 0xbc8), (0xbca, 0xbcd), (0xbd7, 0xbd7),
    (0xc01, 0xc03), (0xc3e, 0xc44), (0xc46, 0xc48), (0xc4a, 0xc4d), (0xc55, 0xc56),
    (0xc82, 0xc83), (0xcbe, 0xcc4), (0xcc6, 0xcc8), (0xcca, 0xccd), (0xcd5, 0xcd6),
    (0xd02, 0xd03), (0xd3e, 0xd43), (0xd46, 0xd48), (0xd4a, 0xd4d), (0xd57, 0xd57),
    (0xe31, 0xe31), (0xe34, 0xe3a), (0xe47, 0xe4e), (0xeb1, 0xeb1), (0xeb4, 0xeb9),
    (0xebb, 0xebc), (0xec8, 0xecd), (0xf18, 0xf19), (0xf35, 0xf35), (0xf37, 0xf37),
    (0xf39, 0xf39), (0xf3e, 0xf3e), (0xf3f, 0xf3f), (0xf71, 0xf84), (0xf86, 0xf8b),
    (0xf90, 0xf95), (0xf97, 0xf97), (0xf99, 0xfad), (0xfb1, 0xfb7), (0xfb9, 0xfb9),
    (0x20d0, 0x20dc), (0x20e1, 0x20e1), (0x302a, 0x302f), (0x3099, 0x3099), (0x309a, 0x309a)]"

definition Digit_production :: "(nat \<times> nat) list" where
  "Digit_production = [
    (0x30, 0x39), (0x660, 0x669), (0x6f0, 0x6f9), (0x966, 0x96f), (0x9e6, 0x9ef), (0xa66, 0xa6f),
    (0xae6, 0xaef), (0xb66, 0xb6f), (0xbe7, 0xbef), (0xc66, 0xc6f), (0xce6, 0xcef),
    (0xd66, 0xd6f), (0xe50, 0xe59), (0xed0, 0xed9), (0xf20, 0xf29)]"

definition Extender_production :: "(nat \<times> nat) list" where
  "Extender_production = [
    (0xb7, 0xb7), (0x2d0, 0x2d0), (0x2d1, 0x2d1), (0x387, 0x387), (0x640, 0x640), (0xe46, 0xe46),
    (0xec6, 0xec6), (0x3005, 0x3005), (0x3031, 0x3035), (0x309d, 0x309e), (0x30fc, 0x30fe)]"

definition produced :: "(nat \<times> nat) list \<Rightarrow> uint \<Rightarrow> bool" where
  "produced P c \<longleftrightarrow> list_ex (\<lambda>(l, h). l \<le> unat c \<and> unat c \<le> h) P"

section \<open>Ordered tables\<close>

lemma ordered_ranges_le:
  "ordered_ranges tab \<Longrightarrow> i < length tab \<Longrightarrow> low (tab ! i) \<le> high (tab ! i)"
proof (induction tab arbitrary: i rule: ordered_ranges.induct)
  case (3 r s rs)
  then show ?case by (cases i) auto
qed auto

lemma ordered_ranges_step:
  "ordered_ranges tab \<Longrightarrow> Suc i < length tab \<Longrightarrow> high (tab ! i) < low (tab ! Suc i)"
proof (induction tab arbitrary: i rule: ordered_ranges.induct)
  case (3 r s rs)
  then show ?case by (cases i) auto
qed auto

lemma ordered_ranges_nth:
  assumes "ordered_ranges tab" "i < j" "j < length tab"
  shows "high (tab ! i) < low (tab ! j)"
  using assms(2,3)
proof (induction j)
  case (Suc j)
  have "high (tab ! j) < low (tab ! Suc j)"
    using ordered_ranges_step [OF assms(1)] Suc.prems by simp
  moreover have "high (tab ! i) \<le> high (tab ! j)"
    using Suc ordered_ranges_le [OF assms(1), of j] by (cases "i = j") auto
  ultimately show ?case by (rule order.strict_trans1 [rotated])
qed simp

lemma range_search_step:
  assumes "lo \<le> hi" "int m = (lo + hi) div 2" "m < length tab" "lo + hi \<le> INT_MAX"
  shows "range_search tab v lo hi =
    (if v < low (tab ! m) then range_search tab v lo (int m - 1)
     else if v > high (tab ! m) then range_search tab v (int m + 1) hi else Some True)"
proof -
  have "nat ((lo + hi) div 2) = m" "\<not> (lo + hi) div 2 < 0"
    using assms(2) by linarith+
  then show ?thesis
    using assms by (subst range_search.simps) (simp add: Let_def rd_def)
qed

locale range_table =
  fixes tab :: "('a::linorder) xmlChRange list"
  assumes ordered: "ordered_ranges tab" and small: "length tab \<le> 2 ^ 30"
begin

lemma above: "v < low (tab ! m) \<Longrightarrow> m \<le> i \<Longrightarrow> i < length tab \<Longrightarrow> v < low (tab ! i)"
  using ordered_ranges_nth [OF ordered, of m i] ordered_ranges_le [OF ordered, of m]
  by (cases "m = i") (auto dest: order.strict_trans2)

lemma below: "high (tab ! m) < v \<Longrightarrow> i \<le> m \<Longrightarrow> m < length tab \<Longrightarrow> high (tab ! i) < v"
  using ordered_ranges_nth [OF ordered, of i m] ordered_ranges_le [OF ordered, of m]
  by (cases "i = m") auto

lemma search_correct:
  assumes "0 \<le> lo" "hi < int (length tab)"
  shows "range_search tab v lo hi =
    Some (\<exists>i. lo \<le> int i \<and> int i \<le> hi \<and> low (tab ! i) \<le> v \<and> v \<le> high (tab ! i))"
  using assms
proof (induction "nat (hi - lo + 1)" arbitrary: lo hi rule: less_induct)
  case less
  show ?case
  proof (cases "lo \<le> hi")
    case False
    then show ?thesis by (subst range_search.simps) auto
  next
    case True
    define m where "m = nat ((lo + hi) div 2)"
    have m: "int m = (lo + hi) div 2" "lo \<le> int m" "int m \<le> hi" "m < length tab"
      "lo + hi \<le> INT_MAX"
      using True less.prems small by (auto simp: m_def)
    consider "v < low (tab ! m)" | "high (tab ! m) < v"
      | "low (tab ! m) \<le> v" "v \<le> high (tab ! m)"
      by fastforce
    then show ?thesis
    proof cases
      case 1
      have "range_search tab v lo (int m - 1) = Some (\<exists>i. lo \<le> int i \<and> int i \<le> int m - 1 \<and>
          low (tab ! i) \<le> v \<and> v \<le> high (tab ! i))"
        using m less.prems by (intro less.hyps) auto
      moreover have "int i \<le> int m - 1" if "low (tab ! i) \<le> v" "int i \<le> hi" for i
        using above [OF 1, of i] that less.prems by (cases "m \<le> i") auto
      ultimately show ?thesis using 1 m
        by (subst range_search_step [OF True m(1,4,5)]) force
    next
      case 2
      have "range_search tab v (int m + 1) hi = Some (\<exists>i. int m + 1 \<le> int i \<and> int i \<le> hi \<and>
          low (tab ! i) \<le> v \<and> v \<le> high (tab ! i))"
        using m less.prems by (intro less.hyps) auto
      moreover have "int m + 1 \<le> int i" if "v \<le> high (tab ! i)" for i
        using below [OF 2, of i] that m by (cases "i \<le> m") auto
      moreover have "\<not> v < low (tab ! m)"
        using 2 ordered_ranges_le [OF ordered m(4)] by auto
      ultimately show ?thesis using 2 m
        by (subst range_search_step [OF True m(1,4,5)]) force
    next
      case 3
      then have "lo \<le> int m \<and> int m \<le> hi \<and> low (tab ! m) \<le> v \<and> v \<le> high (tab ! m)"
        using m by simp
      with 3 show ?thesis
        by (subst range_search_step [OF True m(1,4,5)]) (auto simp: not_less)
    qed
  qed
qed

lemma search_member: "range_search tab v 0 (int (length tab) - 1) = Some (in_ranges tab v)"
  by (auto simp: search_correct in_ranges_def list_ex_length)

end

text \<open>Every table of \<open>codegen/ranges.inc\<close> is ordered.\<close>

interpretation base_srng: range_table xmlIsBaseChar_srng
  by unfold_locales (simp_all add: xmlIsBaseChar_srng_def ranges_def)

interpretation char_srng: range_table xmlIsChar_srng
  by unfold_locales (simp_all add: xmlIsChar_srng_def ranges_def)

interpretation char_lrng: range_table xmlIsChar_lrng
  by unfold_locales (simp_all add: xmlIsChar_lrng_def ranges_def)

interpretation combining_srng: range_table xmlIsCombining_srng
  by unfold_locales (simp_all add: xmlIsCombining_srng_def ranges_def)

interpretation digit_srng: range_table xmlIsDigit_srng
  by unfold_locales (simp_all add: xmlIsDigit_srng_def ranges_def)

interpretation extender_srng: range_table xmlIsExtender_srng
  by unfold_locales (simp_all add: xmlIsExtender_srng_def ranges_def)

interpretation ideographic_srng: range_table xmlIsIdeographic_srng
  by unfold_locales (simp_all add: xmlIsIdeographic_srng_def ranges_def)

lemmas group_defs = xmlIsBaseCharGroup_def xmlIsCharGroup_def xmlIsCombiningGroup_def
  xmlIsDigitGroup_def xmlIsExtenderGroup_def xmlIsIdeographicGroup_def

lemma table_lengths [simp]:
  "length xmlIsBaseChar_srng = 197" "length xmlIsChar_srng = 2" "length xmlIsChar_lrng = 1"
  "length xmlIsCombining_srng = 95" "length xmlIsDigit_srng = 14"
  "length xmlIsExtender_srng = 10" "length xmlIsIdeographic_srng = 3"
  by (simp_all add: xmlIsBaseChar_srng_def xmlIsChar_srng_def xmlIsChar_lrng_def
      xmlIsCombining_srng_def xmlIsDigit_srng_def xmlIsExtender_srng_def
      xmlIsIdeographic_srng_def ranges_def)

lemma groups_wf:
  "group_wf xmlIsBaseCharGroup" "group_wf xmlIsCharGroup" "group_wf xmlIsCombiningGroup"
  "group_wf xmlIsDigitGroup" "group_wf xmlIsExtenderGroup" "group_wf xmlIsIdeographicGroup"
  by (simp_all add: group_wf_def group_defs base_srng.ordered char_srng.ordered
      char_lrng.ordered combining_srng.ordered digit_srng.ordered extender_srng.ordered
      ideographic_srng.ordered)

section \<open>Properties\<close>

lemma search_group:
  "group_wf g \<Longrightarrow> xmlCharInRange c (Ptr g) = Some (in_group g c)"
  using range_table.search_member [of "shortRange g"] range_table.search_member [of "longRange g"]
  by (auto simp: xmlCharInRange_def group_wf_def in_group_def range_table_def in_ranges_def)

text \<open>
  A group with short ranges only is the list of its ranges; with the Latin-1 part that the macro
  tests itself it is a production.
\<close>

definition range_values :: "xmlChSRange list \<Rightarrow> (nat \<times> nat) list" where
  "range_values tab = map (\<lambda>r. (unat (low r), unat (high r))) tab"

lemma in_group_short:
  assumes "longRange g = []"
  shows "in_group g c = produced (range_values (shortRange g)) c"
proof (cases "c < 0x10000")
  case True
  then have "unat (ucast c :: 16 word) = unat c"
    by (simp add: unsigned_ucast_eq take_bit_eq_mod word_less_nat_alt)
  then show ?thesis
    using True by (simp add: in_group_def in_ranges_def produced_def range_values_def
        list_ex_iff word_le_nat_alt)
next
  case False
  have "\<not> unat c \<le> unat (high r)" for r :: xmlChSRange
    using unsigned_less [of "high r", where ?'a = nat] False by (simp add: word_less_nat_alt)
  then show ?thesis
    using False assms by (simp add: in_group_def in_ranges_def produced_def range_values_def
        list_ex_iff)
qed

lemma produced_append: "produced (P @ Q) c = (produced P c \<or> produced Q c)"
  by (simp add: produced_def)

lemma produced_split:
  assumes "P = L @ range_values tab"
    and "list_all (\<lambda>(l, h). h < 0x100) L" and "list_all (\<lambda>(l, h). 0x100 \<le> l) (range_values tab)"
  shows "produced P c = (if c < 0x100 then produced L c else produced (range_values tab) c)"
proof (cases "c < 0x100")
  case True
  then have "\<not> produced (range_values tab) c"
    using assms(3) by (auto simp: produced_def list_ex_iff list_all_iff word_less_nat_alt
        dest!: bspec)
  with True show ?thesis by (simp add: assms(1) produced_append)
next
  case False
  then have "\<not> produced L c"
    using assms(2) by (auto simp: produced_def list_ex_iff list_all_iff word_less_nat_alt
        dest!: bspec)
  with False show ?thesis by (simp add: assms(1) produced_append)
qed

text \<open>
  C26. For a range group whose arrays are ordered, disjoint and of the recorded lengths, which are
  at most \<open>2 ^ 30\<close> (beyond that the sum of two indices can leave the C \<open>int\<close>), the
  bisection of \<open>xmlCharInRange\<close> terminates, stays inside the arrays and decides membership in
  the union of the ranges, for every 32-bit value.
\<close>

theorem xmlCharInRange_correct:
  assumes "group_wf g"
  shows "xmlCharInRange c (Ptr g) =
    Some (if c < 0x10000 then list_ex (\<lambda>r. low r \<le> ucast c \<and> ucast c \<le> high r) (shortRange g)
          else list_ex (\<lambda>r. low r \<le> c \<and> c \<le> high r) (longRange g))"
  using search_group [OF assms, of c] by (simp add: in_group_def in_ranges_def)

theorem xmlCharInRange_correct_witness:
  "group_wf xmlIsBaseCharGroup \<and> xmlCharInRange 0x3a5 (Ptr xmlIsBaseCharGroup) = Some True \<and>
   xmlCharInRange 0x3d7 (Ptr xmlIsBaseCharGroup) = Some False"
proof -
  have "list_ex (\<lambda>r. low r \<le> (0x3a5 :: 16 word) \<and> 0x3a5 \<le> high r) xmlIsBaseChar_srng"
    by (simp add: xmlIsBaseChar_srng_def ranges_def)
  moreover have "\<not> list_ex (\<lambda>r. low r \<le> (0x3d7 :: 16 word) \<and> 0x3d7 \<le> high r) xmlIsBaseChar_srng"
    by (simp add: xmlIsBaseChar_srng_def ranges_def)
  ultimately show ?thesis
    using xmlCharInRange_correct [OF groups_wf(1), of "0x3a5"]
      xmlCharInRange_correct [OF groups_wf(1), of "0x3d7"] groups_wf(1)
    by (simp add: xmlIsBaseCharGroup_def)
qed

lemma word_eq_unat: "(c = (numeral k :: uint)) \<longleftrightarrow> unat c = unat (numeral k :: uint)"
  by (simp add: word_unat_eq_iff)

lemmas uint_as_nat = word_le_nat_alt word_less_nat_alt word_eq_unat

lemma xmlIsCharQ_production: "xmlIsCharQ c = Char_production c"
  by (simp add: xmlIsCharQ_def xmlIsChar_ch_def Char_production_def uint_as_nat) presburger

lemma xmlIsIdeographicQ_group:
  "xmlCharInRange c (Ptr xmlIsIdeographicGroup) = Some (xmlIsIdeographicQ c)"
proof -
  have "unat (ucast c :: 16 word) = unat c" if "unat c < 65536"
    using that by (simp add: unsigned_ucast_eq take_bit_eq_mod)
  then have "in_group xmlIsIdeographicGroup c = xmlIsIdeographicQ c"
    by (simp add: in_group_def in_ranges_def xmlIsIdeographicGroup_def
        xmlIsIdeographic_srng_def ranges_def xmlIsIdeographicQ_def word_le_nat_alt
        word_less_nat_alt word_unat_eq_iff) presburger
  then show ?thesis by (simp add: search_group groups_wf)
qed

lemma pubid_table_nat:
  "map (\<lambda>b. b \<noteq> 0) xmlIsPubidChar_tab = map (\<lambda>n. n = 32 \<or> n = 13 \<or> n = 10 \<or>
     (97 \<le> n \<and> n \<le> 122) \<or> (65 \<le> n \<and> n \<le> 90) \<or> (48 \<le> n \<and> n \<le> 57) \<or> n = 39 \<or>
     n \<in> set [45, 40, 41, 43, 44, 46, 47, 58, 61, 63, 59, 33, 42, 35, 64, 36, 95, 37]) [0..<256]"
  unfolding xmlIsPubidChar_tab_def by code_simp

lemma xmlIsPubidCharQ_production: "xmlIsPubidCharQ c = Some (PubidChar_production c)"
proof (cases "c < 0x100")
  case True
  then have n: "unat c < 256" by (simp add: word_less_nat_alt)
  have len: "length xmlIsPubidChar_tab = 256" by (simp add: xmlIsPubidChar_tab_def)
  have "(xmlIsPubidChar_tab ! unat c \<noteq> 0) = map (\<lambda>b. b \<noteq> 0) xmlIsPubidChar_tab ! unat c"
    using n len by simp
  also have "\<dots> = PubidChar_production c"
    using n by (simp add: pubid_table_nat PubidChar_production_def uint_as_nat)
  finally show ?thesis
    using True n len by (simp add: xmlIsPubidCharQ_def xmlIsPubidChar_ch_def rd_def)
next
  case False
  then show ?thesis
    by (simp add: xmlIsPubidCharQ_def PubidChar_production_def uint_as_nat)
qed

lemma class_produced:
  assumes "group_wf g" "longRange g = []" "P = L @ range_values (shortRange g)"
    and "list_all (\<lambda>(l, h). h < 0x100) L"
    and "list_all (\<lambda>(l, h). 0x100 \<le> l) (range_values (shortRange g))"
    and "c < 0x100 \<Longrightarrow> r = Some (produced L c)"
  shows "(if c < 0x100 then r else xmlCharInRange c (Ptr g)) = Some (produced P c)"
  using assms(6) by (simp add: search_group assms(1) in_group_short assms(2)
      produced_split [OF assms(3,4,5)])

lemma range_values_tables:
  "range_values xmlIsBaseChar_srng = drop 5 BaseChar_production"
  "range_values xmlIsCombining_srng = Combining_production"
  "range_values xmlIsDigit_srng = drop 1 Digit_production"
  "range_values xmlIsExtender_srng = drop 1 Extender_production"
  "range_values xmlIsIdeographic_srng = rotate1 Ideographic_production"
  by (simp_all add: range_values_def ranges_def xmlIsBaseChar_srng_def BaseChar_production_def
      xmlIsCombining_srng_def Combining_production_def xmlIsDigit_srng_def Digit_production_def
      xmlIsExtender_srng_def Extender_production_def xmlIsIdeographic_srng_def
      Ideographic_production_def)

lemmas produced_defs = range_values_tables produced_def BaseChar_production_def
  Combining_production_def Digit_production_def Extender_production_def Ideographic_production_def

lemma xmlIsBaseChar_production: "xmlIsBaseChar c = Some (produced BaseChar_production c)"
  unfolding xmlIsBaseChar_def xmlIsBaseCharQ_def
  by (rule class_produced [OF groups_wf(1), where L = "take 5 BaseChar_production"])
    (simp_all add: groups_wf xmlIsBaseCharGroup_def produced_defs xmlIsBaseChar_ch_def uint_as_nat)

lemma xmlIsCombining_production: "xmlIsCombining c = Some (produced Combining_production c)"
  unfolding xmlIsCombining_def xmlIsCombiningQ_def
  by (rule class_produced [OF groups_wf(3), where L = "[]"])
    (simp_all add: groups_wf xmlIsCombiningGroup_def produced_defs)

lemma xmlIsDigit_production: "xmlIsDigit c = Some (produced Digit_production c)"
  unfolding xmlIsDigit_def xmlIsDigitQ_def
  by (rule class_produced [OF groups_wf(4), where L = "take 1 Digit_production"])
    (simp_all add: groups_wf xmlIsDigitGroup_def produced_defs xmlIsDigit_ch_def uint_as_nat)

lemma xmlIsExtender_production: "xmlIsExtender c = Some (produced Extender_production c)"
  unfolding xmlIsExtender_def xmlIsExtenderQ_def
  by (rule class_produced [OF groups_wf(5), where L = "take 1 Extender_production"])
    (auto simp: groups_wf xmlIsExtenderGroup_def produced_defs xmlIsExtender_ch_def uint_as_nat)

lemma xmlIsIdeographic_production: "xmlIsIdeographic c = produced Ideographic_production c"
proof -
  have "in_group xmlIsIdeographicGroup c = produced Ideographic_production c"
    by (simp add: in_group_short xmlIsIdeographicGroup_def range_values_tables produced_def
        list_ex_iff)
  then show ?thesis
    using xmlIsIdeographicQ_group [of c] by (simp add: search_group groups_wf xmlIsIdeographic_def)
qed

lemma xmlIsBlank_production: "xmlIsBlank c = (c = 0x20 \<or> c = 0x9 \<or> c = 0xd \<or> c = 0xa)"
  by (simp add: xmlIsBlank_def xmlIsBlankQ_def xmlIsBlank_ch_def uint_as_nat) presburger

text \<open>
  C37. The character classes are the productions of the XML recommendation, for every 32-bit
  value: \<open>xmlIsChar\<close> accepts exactly the code points of Char, \<open>xmlIsBlank\<close> the white space,
  \<open>xmlIsPubidChar\<close> (a 256-entry table) exactly PubidChar, and \<open>xmlIsBaseChar\<close>,
  \<open>xmlIsCombining\<close>, \<open>xmlIsDigit\<close> and \<open>xmlIsExtender\<close> (a macro for Latin-1 and the bisection
  above it) and \<open>xmlIsIdeographic\<close> (inlined ranges) exactly the ranges that \<open>ranges.def\<close>
  lists; no test leaves its table.  The exported group of the ideographs agrees with the macro.
\<close>

theorem character_classes:
  "xmlIsChar c = Char_production c \<and>
   xmlIsBlank c = (c = 0x20 \<or> c = 0x9 \<or> c = 0xd \<or> c = 0xa) \<and>
   xmlIsPubidChar c = Some (PubidChar_production c) \<and>
   xmlIsBaseChar c = Some (produced BaseChar_production c) \<and>
   xmlIsCombining c = Some (produced Combining_production c) \<and>
   xmlIsDigit c = Some (produced Digit_production c) \<and>
   xmlIsExtender c = Some (produced Extender_production c) \<and>
   xmlIsIdeographic c = produced Ideographic_production c \<and>
   xmlCharInRange c (Ptr xmlIsIdeographicGroup) = Some (xmlIsIdeographic c)"
  by (simp add: xmlIsChar_def xmlIsCharQ_production xmlIsPubidChar_def xmlIsPubidCharQ_production
      xmlIsBlank_production xmlIsBaseChar_production xmlIsCombining_production
      xmlIsDigit_production xmlIsExtender_production)
    (simp add: xmlIsIdeographic_production [symmetric] xmlIsIdeographicQ_group
      xmlIsIdeographic_def)

theorem character_classes_witness:
  "xmlIsBaseChar 0x3d7 = Some False \<and> xmlIsBaseChar 0xf8 = Some True \<and>
   xmlIsDigit 0x665 = Some True \<and> xmlIsExtender 0xb7 = Some True \<and> \<not> xmlIsChar 0xfffe"
  using character_classes [of "0x3d7"] character_classes [of "0xf8"] character_classes [of "0x665"]
    character_classes [of "0xb7"] character_classes [of "0xfffe"]
  by (simp add: produced_defs Char_production_def)

end
