(* ===== verification/Xmlstring.thy ===== *)
theory Xmlstring
  imports Prelude "HOL-Library.Sublist"
begin

text \<open>
  The byte-string functions of \<open>xmlstring.c\<close>.  Strings are checked views of memory
  (theory \<open>Prelude\<close>): a result \<^const>\<open>None\<close> is a read outside the allocation.  The
  pointer test \<open>str1 == str2\<close> of the comparison functions is the argument \<open>same\<close> of
  \<open>ptr_same\<close>: whether two non-\<open>NULL\<close> pointers are the same address.  Functions that
  compare through another one pass \<^const>\<open>False\<close>; \<open>strcmp_loop_same\<close> shows that the
  shortcut never changes a result on terminated strings.  The \<open>printf\<close> wrappers are not
  modelled.
\<close>

section \<open>Copies\<close>

definition xmlStrndup :: "allocator \<Rightarrow> xmlString \<Rightarrow> int \<Rightarrow> xmlString option" where
  "xmlStrndup mem cur len =
     (case cur of
        NULL \<Rightarrow> Some NULL
      | Ptr s \<Rightarrow>
          if len < 0 then Some NULL
          else if \<not> mem (nat len + 1) then Some NULL
          else do { xs \<leftarrow> copy_in (nat len) s; Some (Ptr (xs @ [0])) })"

definition xmlStrdup :: "allocator \<Rightarrow> xmlString \<Rightarrow> xmlString option" where
  "xmlStrdup mem cur =
     (case cur of
        NULL \<Rightarrow> Some NULL
      | Ptr s \<Rightarrow> do { n \<leftarrow> strlen s; xmlStrndup mem cur (c_int (int n)) })"

text \<open>The copy stops at an early terminator; the rest of the allocation stays uninitialised.\<close>

fun char_copy :: "bytes \<Rightarrow> nat \<Rightarrow> bytes option" where
  "char_copy s 0 = Some [0]"
| "char_copy [] (Suc n) = None"
| "char_copy (c # s) (Suc n) = (if c = 0 then Some [0] else map_option (Cons c) (char_copy s n))"

definition xmlCharStrndup :: "allocator \<Rightarrow> xmlString \<Rightarrow> int \<Rightarrow> xmlString option" where
  "xmlCharStrndup mem cur len =
     (case cur of
        NULL \<Rightarrow> Some NULL
      | Ptr s \<Rightarrow>
          if len < 0 then Some NULL
          else if \<not> mem (nat len + 1) then Some NULL
          else map_option Ptr (char_copy s (nat len)))"

definition xmlCharStrdup :: "allocator \<Rightarrow> xmlString \<Rightarrow> xmlString option" where
  "xmlCharStrdup mem cur =
     (case cur of
        NULL \<Rightarrow> Some NULL
      | Ptr s \<Rightarrow> do { n \<leftarrow> strlen s; xmlCharStrndup mem cur (c_int (int n)) })"

section \<open>Comparisons\<close>

fun ptr_same :: "bool \<Rightarrow> 'a ptr \<Rightarrow> 'a ptr \<Rightarrow> bool" where
  "ptr_same same NULL NULL = True"
| "ptr_same same (Ptr a) (Ptr b) = same"
| "ptr_same same _ _ = False"

fun strcmp_loop :: "bytes \<Rightarrow> bytes \<Rightarrow> int option" where
  "strcmp_loop (a # s1) (b # s2) =
     (let tmp = uint a - uint b
      in if tmp \<noteq> 0 then Some tmp else if b \<noteq> 0 then strcmp_loop s1 s2 else Some 0)"
| "strcmp_loop _ _ = None"

definition xmlStrcmp :: "bool \<Rightarrow> xmlString \<Rightarrow> xmlString \<Rightarrow> int option" where
  "xmlStrcmp same str1 str2 =
     (if ptr_same same str1 str2 then Some 0
      else case str1 of
        NULL \<Rightarrow> Some (- 1)
      | Ptr s1 \<Rightarrow> (case str2 of NULL \<Rightarrow> Some 1 | Ptr s2 \<Rightarrow> strcmp_loop s1 s2))"

fun strequal_loop :: "bytes \<Rightarrow> bytes \<Rightarrow> bool option" where
  "strequal_loop (a # s1) (b # s2) =
     (if a \<noteq> b then Some False else if b \<noteq> 0 then strequal_loop s1 s2 else Some True)"
| "strequal_loop _ _ = None"

definition xmlStrEqual :: "bool \<Rightarrow> xmlString \<Rightarrow> xmlString \<Rightarrow> bool option" where
  "xmlStrEqual same str1 str2 =
     (if ptr_same same str1 str2 then Some True
      else case str1 of
        NULL \<Rightarrow> Some False
      | Ptr s1 \<Rightarrow> (case str2 of NULL \<Rightarrow> Some False | Ptr s2 \<Rightarrow> strequal_loop s1 s2))"

text \<open>
  First loop of \<open>xmlStrQEqual\<close>: \<open>Some NULL\<close> is the early \<open>return(0)\<close>, \<open>Some (Ptr str)\<close>
  the loop left with that value of \<open>str\<close>.
\<close>

fun qequal_prefix :: "bytes \<Rightarrow> bytes \<Rightarrow> xmlString option" where
  "qequal_prefix (p # pref) (c # str) =
     (if p \<noteq> c then Some NULL
      else if c = 0 then Some (Ptr str)
      else do { p' \<leftarrow> rd pref 0; if p' = 0 then Some (Ptr str) else qequal_prefix pref str })"
| "qequal_prefix _ _ = None"

definition xmlStrQEqual :: "bool \<Rightarrow> xmlString \<Rightarrow> xmlString \<Rightarrow> xmlString \<Rightarrow> bool option" where
  "xmlStrQEqual same pref name str =
     (case pref of
        NULL \<Rightarrow> xmlStrEqual same name str
      | Ptr p \<Rightarrow>
         (case name of
            NULL \<Rightarrow> Some False
          | Ptr n \<Rightarrow>
             (case str of
                NULL \<Rightarrow> Some False
              | Ptr s \<Rightarrow> do {
                  r \<leftarrow> qequal_prefix p s;
                  case r of
                    NULL \<Rightarrow> Some False
                  | Ptr s' \<Rightarrow> do {
                      c \<leftarrow> rd s' 0;
                      if c \<noteq> ch (CHR '':'') then Some False else strequal_loop n (drop 1 s') } })))"

fun strncmp_loop :: "bytes \<Rightarrow> bytes \<Rightarrow> int \<Rightarrow> int option" where
  "strncmp_loop (a # s1) (b # s2) len =
     (let tmp = uint a - uint b
      in if tmp \<noteq> 0 \<or> len - 1 = 0 then Some tmp
         else if b \<noteq> 0 then strncmp_loop s1 s2 (len - 1) else Some 0)"
| "strncmp_loop _ _ _ = None"

definition xmlStrncmp :: "bool \<Rightarrow> xmlString \<Rightarrow> xmlString \<Rightarrow> int \<Rightarrow> int option" where
  "xmlStrncmp same str1 str2 len =
     (if len \<le> 0 then Some 0
      else if ptr_same same str1 str2 then Some 0
      else case str1 of
        NULL \<Rightarrow> Some (- 1)
      | Ptr s1 \<Rightarrow> (case str2 of NULL \<Rightarrow> Some 1 | Ptr s2 \<Rightarrow> strncmp_loop s1 s2 len))"

definition casemap :: "byte list" where
  "casemap = [
    0x00, 0x01, 0x02, 0x03, 0x04, 0x05, 0x06, 0x07, 0x08, 0x09, 0x0a, 0x0b,
    0x0c, 0x0d, 0x0e, 0x0f, 0x10, 0x11, 0x12, 0x13, 0x14, 0x15, 0x16, 0x17,
    0x18, 0x19, 0x1a, 0x1b, 0x1c, 0x1d, 0x1e, 0x1f, 0x20, 0x21, 0x22, 0x23,
    0x24, 0x25, 0x26, 0x27, 0x28, 0x29, 0x2a, 0x2b, 0x2c, 0x2d, 0x2e, 0x2f,
    0x30, 0x31, 0x32, 0x33, 0x34, 0x35, 0x36, 0x37, 0x38, 0x39, 0x3a, 0x3b,
    0x3c, 0x3d, 0x3e, 0x3f, 0x40, 0x61, 0x62, 0x63, 0x64, 0x65, 0x66, 0x67,
    0x68, 0x69, 0x6a, 0x6b, 0x6c, 0x6d, 0x6e, 0x6f, 0x70, 0x71, 0x72, 0x73,
    0x74, 0x75, 0x76, 0x77, 0x78, 0x79, 0x7a, 0x7b, 0x5c, 0x5d, 0x5e, 0x5f,
    0x60, 0x61, 0x62, 0x63, 0x64, 0x65, 0x66, 0x67, 0x68, 0x69, 0x6a, 0x6b,
    0x6c, 0x6d, 0x6e, 0x6f, 0x70, 0x71, 0x72, 0x73, 0x74, 0x75, 0x76, 0x77,
    0x78, 0x79, 0x7a, 0x7b, 0x7c, 0x7d, 0x7e, 0x7f, 0x80, 0x81, 0x82, 0x83,
    0x84, 0x85, 0x86, 0x87, 0x88, 0x89, 0x8a, 0x8b, 0x8c, 0x8d, 0x8e, 0x8f,
    0x90, 0x91, 0x92, 0x93, 0x94, 0x95, 0x96, 0x97, 0x98, 0x99, 0x9a, 0x9b,
    0x9c, 0x9d, 0x9e, 0x9f, 0xa0, 0xa1, 0xa2, 0xa3, 0xa4, 0xa5, 0xa6, 0xa7,
    0xa8, 0xa9, 0xaa, 0xab, 0xac, 0xad, 0xae, 0xaf, 0xb0, 0xb1, 0xb2, 0xb3,
    0xb4, 0xb5, 0xb6, 0xb7, 0xb8, 0xb9, 0xba, 0xbb, 0xbc, 0xbd, 0xbe, 0xbf,
    0xc0, 0xc1, 0xc2, 0xc3, 0xc4, 0xc5, 0xc6, 0xc7, 0xc8, 0xc9, 0xca, 0xcb,
    0xcc, 0xcd, 0xce, 0xcf, 0xd0, 0xd1, 0xd2, 0xd3, 0xd4, 0xd5, 0xd6, 0xd7,
    0xd8, 0xd9, 0xda, 0xdb, 0xdc, 0xdd, 0xde, 0xdf, 0xe0, 0xe1, 0xe2, 0xe3,
    0xe4, 0xe5, 0xe6, 0xe7, 0xe8, 0xe9, 0xea, 0xeb, 0xec, 0xed, 0xee, 0xef,
    0xf0, 0xf1, 0xf2, 0xf3, 0xf4, 0xf5, 0xf6, 0xf7, 0xf8, 0xf9, 0xfa, 0xfb,
    0xfc, 0xfd, 0xfe, 0xff]"

definition fold_case :: "byte \<Rightarrow> byte option" where
  "fold_case c = rd casemap (unat c)"

fun strcasecmp_loop :: "bytes \<Rightarrow> bytes \<Rightarrow> int option" where
  "strcasecmp_loop (a # s1) (b # s2) =
     do { a' \<leftarrow> fold_case a; b' \<leftarrow> fold_case b;
          let tmp = uint a' - uint b'
          in if tmp \<noteq> 0 then Some tmp else if b \<noteq> 0 then strcasecmp_loop s1 s2 else Some 0 }"
| "strcasecmp_loop _ _ = None"

definition xmlStrcasecmp :: "bool \<Rightarrow> xmlString \<Rightarrow> xmlString \<Rightarrow> int option" where
  "xmlStrcasecmp same str1 str2 =
     (if ptr_same same str1 str2 then Some 0
      else case str1 of
        NULL \<Rightarrow> Some (- 1)
      | Ptr s1 \<Rightarrow> (case str2 of NULL \<Rightarrow> Some 1 | Ptr s2 \<Rightarrow> strcasecmp_loop s1 s2))"

fun strncasecmp_loop :: "bytes \<Rightarrow> bytes \<Rightarrow> int \<Rightarrow> int option" where
  "strncasecmp_loop (a # s1) (b # s2) len =
     do { a' \<leftarrow> fold_case a; b' \<leftarrow> fold_case b;
          let tmp = uint a' - uint b'
          in if tmp \<noteq> 0 \<or> len - 1 = 0 then Some tmp
             else if b \<noteq> 0 then strncasecmp_loop s1 s2 (len - 1) else Some 0 }"
| "strncasecmp_loop _ _ _ = None"

definition xmlStrncasecmp :: "bool \<Rightarrow> xmlString \<Rightarrow> xmlString \<Rightarrow> int \<Rightarrow> int option" where
  "xmlStrncasecmp same str1 str2 len =
     (if len \<le> 0 then Some 0
      else if ptr_same same str1 str2 then Some 0
      else case str1 of
        NULL \<Rightarrow> Some (- 1)
      | Ptr s1 \<Rightarrow> (case str2 of NULL \<Rightarrow> Some 1 | Ptr s2 \<Rightarrow> strncasecmp_loop s1 s2 len))"

section \<open>Searches\<close>

definition xmlStrlen :: "xmlString \<Rightarrow> int option" where
  "xmlStrlen str =
     do { len \<leftarrow> (case str of NULL \<Rightarrow> Some 0 | Ptr s \<Rightarrow> strlen s);
          Some (if int len > INT_MAX then 0 else int len) }"

fun strchr_loop :: "bytes \<Rightarrow> byte \<Rightarrow> xmlString option" where
  "strchr_loop [] val = None"
| "strchr_loop (c # s) val =
     (if c = 0 then Some NULL else if c = val then Some (Ptr (c # s)) else strchr_loop s val)"

definition xmlStrchr :: "xmlString \<Rightarrow> byte \<Rightarrow> xmlString option" where
  "xmlStrchr str val = (case str of NULL \<Rightarrow> Some NULL | Ptr s \<Rightarrow> strchr_loop s val)"

fun strstr_loop :: "bytes \<Rightarrow> bytes \<Rightarrow> int \<Rightarrow> xmlString option" where
  "strstr_loop [] val n = None"
| "strstr_loop (c # s) val n =
     (if c = 0 then Some NULL
      else do {
        v \<leftarrow> rd val 0;
        hit \<leftarrow> (if c = v then map_option (\<lambda>r. r = 0) (xmlStrncmp False (Ptr (c # s)) (Ptr val) n)
                else Some False);
        if hit then Some (Ptr (c # s)) else strstr_loop s val n })"

definition xmlStrstr :: "xmlString \<Rightarrow> xmlString \<Rightarrow> xmlString option" where
  "xmlStrstr str val =
     (case str of
        NULL \<Rightarrow> Some NULL
      | Ptr s \<Rightarrow>
         (case val of
            NULL \<Rightarrow> Some NULL
          | Ptr v \<Rightarrow> do {
              n \<leftarrow> xmlStrlen val;
              if n = 0 then Some str else strstr_loop s v n }))"

fun strcasestr_loop :: "bytes \<Rightarrow> bytes \<Rightarrow> int \<Rightarrow> xmlString option" where
  "strcasestr_loop [] val n = None"
| "strcasestr_loop (c # s) val n =
     (if c = 0 then Some NULL
      else do {
        v \<leftarrow> rd val 0; c' \<leftarrow> fold_case c; v' \<leftarrow> fold_case v;
        hit \<leftarrow> (if c' = v' then map_option (\<lambda>r. r = 0) (xmlStrncasecmp False (Ptr (c # s)) (Ptr val) n)
                else Some False);
        if hit then Some (Ptr (c # s)) else strcasestr_loop s val n })"

definition xmlStrcasestr :: "xmlString \<Rightarrow> xmlString \<Rightarrow> xmlString option" where
  "xmlStrcasestr str val =
     (case str of
        NULL \<Rightarrow> Some NULL
      | Ptr s \<Rightarrow>
         (case val of
            NULL \<Rightarrow> Some NULL
          | Ptr v \<Rightarrow> do {
              n \<leftarrow> xmlStrlen val;
              if n = 0 then Some str else strcasestr_loop s v n }))"

text \<open>Skips \<open>start\<close> bytes: \<open>Some NULL\<close> when the terminator comes first.\<close>

fun skip_bytes :: "nat \<Rightarrow> bytes \<Rightarrow> xmlString option" where
  "skip_bytes 0 s = Some (Ptr s)"
| "skip_bytes (Suc n) [] = None"
| "skip_bytes (Suc n) (c # s) = (if c = 0 then Some NULL else skip_bytes n s)"

definition xmlStrsub :: "allocator \<Rightarrow> xmlString \<Rightarrow> int \<Rightarrow> int \<Rightarrow> xmlString option" where
  "xmlStrsub mem str start len =
     (case str of
        NULL \<Rightarrow> Some NULL
      | Ptr s \<Rightarrow>
          if start < 0 then Some NULL
          else if len < 0 then Some NULL
          else do {
            r \<leftarrow> skip_bytes (nat start) s;
            case r of
              NULL \<Rightarrow> Some NULL
            | Ptr s' \<Rightarrow> do { c \<leftarrow> rd s' 0; if c = 0 then Some NULL else xmlStrndup mem r len } })"

section \<open>Concatenation\<close>

definition xmlStrncat :: "allocator \<Rightarrow> xmlString \<Rightarrow> xmlString \<Rightarrow> int \<Rightarrow> xmlString option" where
  "xmlStrncat mem cur add len =
     (if add = NULL \<or> len = 0 then Some cur
      else if len < 0 then Some NULL
      else case cur of
        NULL \<Rightarrow> xmlStrndup mem add len
      | Ptr c \<Rightarrow> do {
          size \<leftarrow> xmlStrlen cur;
          if size < 0 \<or> size > INT_MAX - len then Some NULL
          else if \<not> mem (nat size + nat len + 1) then Some NULL
          else case add of
            NULL \<Rightarrow> None
          | Ptr a \<Rightarrow> do {
              xs \<leftarrow> copy_in (nat len) a;
              Some (Ptr (take (nat size) c @ xs @ [0])) } })"

definition xmlStrncatNew :: "allocator \<Rightarrow> xmlString \<Rightarrow> xmlString \<Rightarrow> int \<Rightarrow> xmlString option" where
  "xmlStrncatNew mem str1 str2 len0 =
     do {
       len \<leftarrow> (if len0 < 0 then xmlStrlen str2 else Some len0);
       if len < 0 then Some NULL
       else case str1 of
         NULL \<Rightarrow> xmlStrndup mem str2 len
       | Ptr a \<Rightarrow>
          (if str2 = NULL \<or> len = 0 then xmlStrdup mem str1
           else do {
             size \<leftarrow> xmlStrlen str1;
             if size < 0 \<or> size > INT_MAX - len then Some NULL
             else if \<not> mem (nat size + nat len + 1) then Some NULL
             else case str2 of
               NULL \<Rightarrow> None
             | Ptr b \<Rightarrow> do {
                 xs \<leftarrow> copy_in (nat size) a;
                 ys \<leftarrow> copy_in (nat len) b;
                 Some (Ptr (xs @ ys @ [0])) } }) }"

definition xmlStrcat :: "allocator \<Rightarrow> xmlString \<Rightarrow> xmlString \<Rightarrow> xmlString option" where
  "xmlStrcat mem cur add =
     (case add of
        NULL \<Rightarrow> Some cur
      | Ptr a \<Rightarrow>
         (case cur of
            NULL \<Rightarrow> xmlStrdup mem add
          | Ptr c \<Rightarrow> do { n \<leftarrow> strlen a; xmlStrncat mem cur add (c_int (int n)) }))"

section \<open>Escaping of format strings\<close>

fun escape_count :: "bytes \<Rightarrow> (nat \<times> nat) option" where
  "escape_count [] = None"
| "escape_count (c # s) =
     (if c = 0 then Some (0, 0)
      else map_option (\<lambda>(msgLen, count). (Suc msgLen, if c = ch (CHR ''%'') then Suc count else count))
             (escape_count s))"

fun escape_copy :: "bytes \<Rightarrow> bytes option" where
  "escape_copy [] = None"
| "escape_copy (c # s) =
     (if c = 0 then Some []
      else map_option (\<lambda>r. if c = ch (CHR ''%'') then c # ch (CHR ''%'') # r else c # r) (escape_copy s))"

text \<open>
  The result and the new value of \<open>*msg\<close>.  \<open>result\<close> is an allocation of \<open>resultLen\<close>
  bytes whose last byte is set to zero: copying more bytes is a fault, and copying fewer would
  leave a gap of uninitialised bytes, which the model counts as a fault too.
\<close>

definition xmlEscapeFormatString :: "allocator \<Rightarrow> xmlString ptr \<Rightarrow> (xmlString \<times> xmlString ptr) option" where
  "xmlEscapeFormatString mem msg =
     (case msg of
        NULL \<Rightarrow> Some (NULL, msg)
      | Ptr NULL \<Rightarrow> Some (NULL, msg)
      | Ptr (Ptr s) \<Rightarrow> do {
          (msgLen, count) \<leftarrow> escape_count s;
          if count = 0 then Some (Ptr s, msg)
          else if count > INT_MAX_nat \<or> msgLen > INT_MAX_nat - count then Some (NULL, msg)
          else let resultLen = msgLen + count + 1
            in if \<not> mem resultLen then Some (NULL, Ptr NULL)
               else do {
                 xs \<leftarrow> escape_copy s;
                 if length xs + 1 \<noteq> resultLen then None
                 else Some (Ptr (xs @ [0]), Ptr (Ptr (xs @ [0]))) } })"

section \<open>Specifications\<close>

text \<open>The value a byte-wise comparison of two strings must have.\<close>

fun lexdiff :: "bytes \<Rightarrow> bytes \<Rightarrow> int" where
  "lexdiff [] [] = 0"
| "lexdiff [] (b # bs) = - uint b"
| "lexdiff (a # as) [] = uint a"
| "lexdiff (a # as) (b # bs) = (if a = b then lexdiff as bs else uint a - uint b)"

abbreviation byte_less :: "(byte \<times> byte) set" where
  "byte_less \<equiv> {(a, b). a < b}"

definition lower :: "byte \<Rightarrow> byte" where
  "lower c = (if 0x41 \<le> c \<and> c \<le> 0x5b then c + 0x20 else c)"

definition double_percent :: "bytes \<Rightarrow> bytes" where
  "double_percent v = concat (map (\<lambda>c. if c = ch (CHR ''%'') then [c, c] else [c]) v)"

section \<open>Comparisons\<close>

lemma uint_byte_eq [simp]: "uint (a :: byte) = uint b \<longleftrightarrow> a = b"
  by (simp add: word_uint_eq_iff)

lemma uint_byte_0 [simp]: "uint (a :: byte) = 0 \<longleftrightarrow> a = 0"
  by (simp add: word_uint_eq_iff)

lemma uint_pos: "c \<noteq> (0 :: byte) \<Longrightarrow> 0 < uint c"
  by (metis uint_0_eq uint_ge_0 order_le_less word_uint_eq_iff)

lemma lexdiff_0: "0 \<notin> set u \<Longrightarrow> 0 \<notin> set v \<Longrightarrow> lexdiff u v = 0 \<longleftrightarrow> u = v"
  by (induction u v rule: lexdiff.induct) auto

lemma lexdiff_less:
  "0 \<notin> set u \<Longrightarrow> 0 \<notin> set v \<Longrightarrow> lexdiff u v < 0 \<longleftrightarrow> (u, v) \<in> lexord byte_less"
proof (induction u v rule: lexdiff.induct)
  case (2 b bs)
  then show ?case by (simp add: uint_pos)
next
  case (3 a as)
  then show ?case by (simp add: uint_pos less_imp_le not_less)
next
  case (4 a as b bs)
  then show ?case by (auto simp: word_less_def)
qed simp

lemma strcmp_loop_cstring:
  "cstring s1 \<Longrightarrow> cstring s2 \<Longrightarrow> strcmp_loop s1 s2 = Some (lexdiff (strval s1) (strval s2))"
  by (induction s1 s2 rule: strcmp_loop.induct) (auto simp: Let_def)

lemma strcmp_loop_same: "cstring s \<Longrightarrow> strcmp_loop s s = Some 0"
  by (induction s) (auto simp: Let_def)

lemma strequal_loop_cstring:
  "cstring s1 \<Longrightarrow> cstring s2 \<Longrightarrow> strequal_loop s1 s2 = Some (strval s1 = strval s2)"
  by (induction s1 s2 rule: strequal_loop.induct) auto

lemma strncmp_loop_cstring:
  "cstring s1 \<Longrightarrow> cstring s2 \<Longrightarrow> 0 < n \<Longrightarrow>
   strncmp_loop s1 s2 n = Some (lexdiff (take (nat n) (strval s1)) (take (nat n) (strval s2)))"
  by (induction s1 s2 n rule: strncmp_loop.induct)
    (auto simp: Let_def take_Cons' nat_diff_distrib)

lemma xmlStrncmp_cstring:
  assumes "cstring s1" "cstring s2" "same \<longrightarrow> s1 = s2"
  shows "xmlStrncmp same (Ptr s1) (Ptr s2) n =
    Some (lexdiff (take (nat n) (strval s1)) (take (nat n) (strval s2)))"
proof -
  have "lexdiff u u = 0" for u by (induction u) auto
  with assms show ?thesis by (auto simp: xmlStrncmp_def strncmp_loop_cstring)
qed

lemma xmlStrncmp_0:
  assumes "cstring s1" "cstring s2"
  shows "xmlStrncmp False (Ptr s1) (Ptr s2) n = Some r \<Longrightarrow>
    r = 0 \<longleftrightarrow> take (nat n) (strval s1) = take (nat n) (strval s2)"
  using assms lexdiff_0 [of "take (nat n) (strval s1)" "take (nat n) (strval s2)"]
  by (auto simp: xmlStrncmp_cstring dest!: in_set_takeD strval_nz)

subsection \<open>Case folding\<close>

lemma length_casemap [simp]: "length casemap = 256"
  by (simp add: casemap_def)

lemma casemap_lower: "casemap = map (\<lambda>n. lower (word_of_nat n)) [0..<256]"
  unfolding casemap_def lower_def by code_simp

lemma fold_case_lower: "fold_case c = Some (lower c)"
proof -
  have "unat c < 256" using unsigned_less [of c] by simp
  then show ?thesis
    by (simp add: fold_case_def rd_def) (simp add: casemap_lower)
qed

lemma lower_0 [simp]: "lower c = 0 \<longleftrightarrow> c = 0"
proof -
  have "c + 0x20 \<noteq> 0" if "0x41 \<le> c" "c \<le> 0x5b"
    using that by (simp add: word_le_nat_alt word_unat_eq_iff unat_word_ariths)
  then show ?thesis by (auto simp: lower_def)
qed

lemma strcasecmp_loop_fold:
  "strcasecmp_loop s1 s2 = strcmp_loop (map lower s1) (map lower s2)"
  by (induction s1 s2 rule: strcasecmp_loop.induct) (auto simp: fold_case_lower)

lemma strncasecmp_loop_fold:
  "strncasecmp_loop s1 s2 n = strncmp_loop (map lower s1) (map lower s2) n"
  by (induction s1 s2 n rule: strncasecmp_loop.induct) (auto simp: fold_case_lower)

lemma cstring_map_lower [simp]: "cstring (map lower s) \<longleftrightarrow> cstring s"
  by (induction s) auto

lemma strval_map_lower [simp]: "strval (map lower s) = map lower (strval s)"
  by (induction s) auto

subsection \<open>Prefixed names\<close>

lemma qequal_prefix_cstring:
  "cstring p \<Longrightarrow> cstring s \<Longrightarrow> strval p \<noteq> [] \<Longrightarrow>
   qequal_prefix p s = Some (if prefix (strval p) (strval s) then Ptr (drop (length (strval p)) s)
                             else NULL)"
proof (induction p s rule: qequal_prefix.induct)
  case (1 a p c s)
  show ?case
  proof (cases "a = c")
    case True
    with "1.prems" have "cstring p" "cstring s" "c \<noteq> 0" by (auto split: if_splits)
    then obtain a' p' where p: "p = a' # p'" by (cases p) auto
    with True 1 \<open>cstring p\<close> \<open>cstring s\<close> \<open>c \<noteq> 0\<close> show ?thesis
      by (cases "a' = 0") auto
  qed (use 1 in auto)
qed auto

section \<open>Searches\<close>

lemma xmlStrlen_cstring:
  "cstring s \<Longrightarrow> length (strval s) \<le> INT_MAX_nat \<Longrightarrow> xmlStrlen (Ptr s) = Some (int (length (strval s)))"
  by (simp add: xmlStrlen_def strlen_cstring)

lemma strstr_hit:
  assumes "cstring (c # s)" "cstring v" "strval v \<noteq> []" "n = int (length (strval v))" "c \<noteq> 0"
  shows "do { w \<leftarrow> rd v 0;
       if c = w then map_option (\<lambda>r. r = 0) (xmlStrncmp False (Ptr (c # s)) (Ptr v) n) else Some False }
     = Some (prefix (strval v) (strval (c # s)))"
proof -
  obtain w v' where v: "v = w # v'" "w \<noteq> 0" using assms(2,3) by (cases v) (auto split: if_splits)
  have nz: "0 \<notin> set (take k (strval x))" for k x
    by (meson in_set_takeD strval_no_zero)
  have "lexdiff (take (nat n) (strval (c # s))) (take (nat n) (strval v)) = 0 \<longleftrightarrow>
      take (length (strval v)) (strval (c # s)) = strval v"
    using assms(4) by (subst lexdiff_0 [OF nz nz]) simp
  moreover have "take (length (strval v)) (strval (c # s)) = strval v \<longleftrightarrow>
      prefix (strval v) (strval (c # s))"
    by (metis append_eq_conv_conj prefix_def)
  ultimately show ?thesis
    using assms v by (auto simp: xmlStrncmp_cstring)
qed

lemma strstr_loop_cstring:
  assumes "cstring s" "cstring v" "strval v \<noteq> []" "n = int (length (strval v))"
  shows "strstr_loop s v n =
    Some (if sublist (strval v) (strval s)
          then Ptr (drop (LEAST k. prefix (strval v) (drop k (strval s))) s) else NULL)"
  using assms(1)
proof (induction s)
  case (Cons c s)
  show ?case
  proof (cases "c = 0")
    case True
    with assms(3) show ?thesis by simp
  next
    case False
    with Cons have s: "cstring s" by simp
    have step: "strstr_loop (c # s) v n =
        (if prefix (strval v) (strval (c # s)) then Some (Ptr (c # s)) else strstr_loop s v n)"
      using strstr_hit [OF Cons.prems assms(2-4) False] False
      by (auto split: bind_splits if_splits)
    let ?P = "\<lambda>k. prefix (strval v) (drop k (strval (c # s)))"
    show ?thesis
    proof (cases "?P 0")
      case True
      then have "(LEAST k. ?P k) = 0" by (intro Least_equality) auto
      with True False step show ?thesis by (simp add: prefix_imp_sublist)
    next
      case nP: False
      have sub: "sublist (strval v) (strval (c # s)) = sublist (strval v) (strval s)"
        using nP False by (simp add: sublist_Cons_right)
      have "(LEAST k. ?P k) = Suc (LEAST k. prefix (strval v) (drop k (strval s)))"
        if "sublist (strval v) (strval s)"
      proof -
        from that obtain k where k: "prefix (strval v) (drop k (strval s))"
          by (metis append_eq_conv_conj prefixI sublist_def)
        show ?thesis
          using Least_Suc [of ?P "Suc k"] k nP False by simp
      qed
      with nP step sub Cons.IH [OF s] False show ?thesis by simp
    qed
  qed
qed simp

section \<open>Copies and concatenation\<close>

lemma skip_bytes_cstring:
  "cstring s \<Longrightarrow> skip_bytes n s = Some (if n \<le> length (strval s) then Ptr (drop n s) else NULL)"
  by (induction n s rule: skip_bytes.induct) auto

lemma escape_count_cstring:
  "cstring s \<Longrightarrow> escape_count s = Some (length (strval s), count_list (strval s) (ch (CHR ''%'')))"
  by (induction s) auto

lemma escape_copy_cstring: "cstring s \<Longrightarrow> escape_copy s = Some (double_percent (strval s))"
  by (induction s) (auto simp: double_percent_def)

lemma length_double_percent:
  "length (double_percent v) = length v + count_list v (ch (CHR ''%''))"
  by (induction v) (auto simp: double_percent_def)

lemma double_percent_id: "count_list v (ch (CHR ''%'')) = 0 \<Longrightarrow> double_percent v = v"
  by (induction v) (auto simp: double_percent_def split: if_splits)

lemma double_percent_nz: "0 \<notin> set v \<Longrightarrow> 0 \<notin> set (double_percent v)"
  by (auto simp: double_percent_def split: if_splits)

lemma xmlStrdup_cstring:
  assumes "cstring s" "length (strval s) \<le> INT_MAX_nat"
  shows "xmlStrdup mem (Ptr s) =
    Some (if mem (Suc (length (strval s))) then Ptr (cstr_of (strval s)) else NULL)"
  using assms by (auto simp: xmlStrdup_def strlen_cstring xmlStrndup_def copy_in_strval cstr_of_def)

section \<open>Properties\<close>

text \<open>
  C38. On zero-terminated strings \<open>xmlStrcmp\<close> reads nothing outside the strings and returns a
  value whose sign is the lexicographic order of the two strings as unsigned bytes; it is zero, and
  \<open>xmlStrEqual\<close> is true, exactly for equal strings.  NULL equals NULL, comes before every string
  and differs from it, the empty one included, and a pointer equals itself without a byte being read.
\<close>

theorem xmlStrcmp_correct:
  assumes "cstring s1" "cstring s2" "same \<longrightarrow> s1 = s2"
  shows "(\<exists>r. xmlStrcmp same (Ptr s1) (Ptr s2) = Some r \<and>
      (r = 0 \<longleftrightarrow> strval s1 = strval s2) \<and>
      (r < 0 \<longleftrightarrow> (strval s1, strval s2) \<in> lexord byte_less)) \<and>
    xmlStrEqual same (Ptr s1) (Ptr s2) = Some (strval s1 = strval s2) \<and>
    xmlStrcmp True str str = Some 0 \<and> xmlStrEqual True str str = Some True \<and>
    xmlStrcmp same NULL NULL = Some 0 \<and> xmlStrEqual same NULL NULL = Some True \<and>
    xmlStrcmp same NULL (Ptr s2) = Some (- 1) \<and> xmlStrEqual same NULL (Ptr s2) = Some False \<and>
    xmlStrcmp same (Ptr s1) NULL = Some 1 \<and> xmlStrEqual same (Ptr s1) NULL = Some False"
proof -
  have "ptr_same True str str"
    by (cases str) auto
  moreover have "(v, v) \<notin> lexord byte_less" for v
    using lexord_irreflexive [of byte_less v] by auto
  moreover have "strcmp_loop s1 s2 = Some (lexdiff (strval s1) (strval s2))"
    using assms by (simp add: strcmp_loop_cstring)
  ultimately show ?thesis
    using assms lexdiff_0 [OF strval_no_zero strval_no_zero, of s1 s2]
      lexdiff_less [OF strval_no_zero strval_no_zero, of s1 s2]
    by (cases same) (simp_all add: xmlStrcmp_def xmlStrEqual_def strequal_loop_cstring)
qed

theorem xmlStrcmp_correct_witness:
  "\<exists>r. xmlStrcmp False (Ptr (cstr_of (asc ''ab''))) (Ptr (cstr_of (asc ''b''))) = Some r \<and> r < 0"
  using xmlStrcmp_correct [of "cstr_of (asc ''ab'')" "cstr_of (asc ''b'')" False] by auto

text \<open>
  \<open>xmlStrcasecmp\<close> is \<open>xmlStrcmp\<close> on folded bytes: it folds \<open>A\<close> to \<open>Z\<close>, and
  also \<open>[\<close> (0x5B) to \<open>{\<close> (0x7B), so two strings that differ in these two characters compare
  as equal.
\<close>

theorem xmlStrcasecmp_correct:
  assumes "cstring s1" "cstring s2"
  shows "\<exists>r. xmlStrcasecmp False (Ptr s1) (Ptr s2) = Some r \<and>
    (r = 0 \<longleftrightarrow>
      map (\<lambda>c. if 0x41 \<le> c \<and> c \<le> 0x5b then c + 0x20 else c) (strval s1) =
      map (\<lambda>c. if 0x41 \<le> c \<and> c \<le> 0x5b then c + 0x20 else c) (strval s2))"
proof -
  have nz: "0 \<notin> set (map lower (strval s))" for s
    using strval_no_zero [of s] by auto
  have "lower = (\<lambda>c. if 0x41 \<le> c \<and> c \<le> 0x5b then c + 0x20 else c)"
    by (rule ext) (rule lower_def)
  with assms lexdiff_0 [OF nz nz, of s1 s2] show ?thesis
    by (simp add: xmlStrcasecmp_def strcasecmp_loop_fold strcmp_loop_cstring)
qed

theorem xmlStrcasecmp_correct_witness:
  "xmlStrcasecmp False (Ptr (cstr_of (asc ''a[''))) (Ptr (cstr_of [0x41, 0x7b])) = Some 0"
  using xmlStrcasecmp_correct [of "cstr_of (asc ''a['')" "cstr_of [0x41, 0x7b]"] by auto

text \<open>
  \<open>xmlStrstr\<close> stays inside both strings and returns the first occurrence: a pointer to the
  least offset at which the needle is a prefix of the rest of the haystack, or \<open>NULL\<close> when the
  needle does not occur (needle of at most \<open>INT_MAX\<close> bytes).
\<close>

theorem xmlStrstr_first:
  assumes "cstring s" "cstring v" "length (strval v) \<le> INT_MAX_nat"
  shows "xmlStrstr (Ptr s) (Ptr v) =
    Some (if sublist (strval v) (strval s)
          then Ptr (drop (LEAST k. prefix (strval v) (drop k (strval s))) s) else NULL)"
proof (cases "strval v = []")
  case True
  then have "(LEAST k. prefix (strval v) (drop k (strval s))) = 0"
    by (intro Least_equality) auto
  with True assms show ?thesis by (simp add: xmlStrstr_def xmlStrlen_cstring)
next
  case False
  with assms show ?thesis by (simp add: xmlStrstr_def xmlStrlen_cstring strstr_loop_cstring)
qed

theorem xmlStrstr_first_witness:
  "xmlStrstr (Ptr (cstr_of (asc ''aabab''))) (Ptr (cstr_of (asc ''ab''))) =
     Some (Ptr (cstr_of (asc ''abab'')))"
proof -
  let ?v = "strval (cstr_of (asc ''ab''))" and ?s = "strval (cstr_of (asc ''aabab''))"
  have v: "?v = asc ''ab''" and s: "?s = asc ''aabab''" by simp_all
  have least: "(LEAST k. prefix ?v (drop k ?s)) = 1"
  proof (rule Least_equality)
    show "prefix ?v (drop 1 ?s)" unfolding v s by simp
    show "1 \<le> k" if "prefix ?v (drop k ?s)" for k
      using that unfolding v s by (cases k) auto
  qed
  have sub: "sublist ?v ?s"
    unfolding v s by (simp add: sublist_code)
  show ?thesis
    using xmlStrstr_first [of "cstr_of (asc ''aabab'')" "cstr_of (asc ''ab'')"] least sub
    by (simp add: cstr_of_def)
qed

text \<open>
  \<open>xmlStrcat\<close> never accesses memory out of bounds, and when the lengths add up to at most
  \<open>INT_MAX\<close> the result is the concatenation of the two strings in a fresh exact allocation, or
  \<open>NULL\<close> when that allocation fails.
\<close>

theorem xmlStrcat_correct:
  assumes "cstring c" "cstring a" "length (strval c) + length (strval a) \<le> INT_MAX_nat"
  shows "xmlStrcat mem (Ptr c) (Ptr a) =
    Some (if strval a = [] then Ptr c
          else if mem (length (strval c) + length (strval a) + 1)
               then Ptr (cstr_of (strval c @ strval a)) else NULL)"
proof -
  have "nat (int (length (strval c)) + int (length (strval a))) = length (strval c) + length (strval a)"
    by simp
  then show ?thesis
    using assms by (auto simp: xmlStrcat_def strlen_cstring xmlStrncat_def xmlStrlen_cstring
        copy_in_strval take_strval cstr_of_def)
qed

theorem xmlStrcat_correct_witness:
  "xmlStrcat (\<lambda>_. True) (Ptr (cstr_of (asc ''ab''))) (Ptr (cstr_of (asc ''c''))) =
     Some (Ptr (cstr_of (asc ''abc'')))"
  using xmlStrcat_correct [of "cstr_of (asc ''ab'')" "cstr_of (asc ''c'')" "\<lambda>_. True"] by simp

text \<open>
  \<open>xmlStrsub\<close> passes \<open>len\<close> unchecked to \<open>xmlStrndup\<close>: on an allocation that holds
  exactly the string \<open>v\<close> and a start inside it, the copy reads past the terminator exactly when
  \<open>start + len\<close> exceeds the length of the string plus one; otherwise it returns the substring.
\<close>

theorem xmlStrsub_bounds:
  assumes "0 \<notin> set v" "0 \<le> start" "start < int (length v)" "0 \<le> len" "mem (nat len + 1)"
  shows "xmlStrsub mem (Ptr (cstr_of v)) start len =
    (if start + len \<le> int (length v) + 1
     then Some (Ptr (cstr_of (take (nat len) (drop (nat start) (v @ [0]))))) else None)"
proof -
  have "strval (cstr_of v) = v" using assms(1) by simp
  moreover have "rd (drop (nat start) (cstr_of v)) 0 = Some (v ! nat start)"
    using assms by (auto simp: rd_def cstr_of_def nth_append)
  moreover have "v ! nat start \<noteq> 0" using assms nth_mem [of "nat start" v] by force
  moreover have "nat len \<le> length v + 1 - nat start \<longleftrightarrow> start + len \<le> int (length v) + 1"
    using assms by linarith
  moreover have "nat start \<le> length v" using assms by linarith
  ultimately show ?thesis
    using assms by (simp add: xmlStrsub_def skip_bytes_cstring xmlStrndup_def copy_in_def) (simp add: cstr_of_def)
qed

theorem xmlStrsub_bounds_witness:
  "xmlStrsub (\<lambda>_. True) (Ptr (cstr_of (asc ''abc''))) 1 2 = Some (Ptr (cstr_of (asc ''bc''))) \<and>
   xmlStrsub (\<lambda>_. True) (Ptr (cstr_of (asc ''abc''))) 1 10 = None"
  using xmlStrsub_bounds [of "asc ''abc''" 1 2 "\<lambda>_. True"]
    xmlStrsub_bounds [of "asc ''abc''" 1 10 "\<lambda>_. True"] by simp

text \<open>
  \<open>xmlEscapeFormatString\<close> writes exactly the bytes it allocated: every \<open>%\<close> is doubled
  and nothing else changes; \<open>*msg\<close> is the result, and is cleared when the allocation fails.
\<close>

theorem xmlEscapeFormatString_correct:
  assumes "cstring s" "length (strval s) + count_list (strval s) (ch (CHR ''%'')) \<le> INT_MAX_nat"
  shows "\<exists>r msg. xmlEscapeFormatString mem (Ptr (Ptr s)) = Some (r, Ptr msg) \<and>
    (r = msg) \<and>
    (case r of NULL \<Rightarrow> \<not> mem (length (double_percent (strval s)) + 1)
     | Ptr t \<Rightarrow> cstring t \<and> strval t = double_percent (strval s))"
  using assms
  by (auto simp: xmlEscapeFormatString_def escape_count_cstring escape_copy_cstring Let_def
      length_double_percent double_percent_id strval_append double_percent_nz strval_no_zero
      cstring_def)

theorem xmlEscapeFormatString_correct_witness:
  "\<exists>r msg. xmlEscapeFormatString (\<lambda>_. True) (Ptr (Ptr (cstr_of (asc ''5%'')))) = Some (r, Ptr msg) \<and>
     (case r of NULL \<Rightarrow> False | Ptr t \<Rightarrow> strval t = asc ''5%%'')"
proof -
  have "count_list (asc ''5%'') (ch (CHR ''%'')) = 1" by simp
  then show ?thesis
    using xmlEscapeFormatString_correct [of "cstr_of (asc ''5%'')" "\<lambda>_. True"]
    by (fastforce simp: double_percent_def split: ptr.splits)
qed

lemma xmlStrQEqual_cstring:
  assumes "cstring p" "cstring n" "cstring s" "strval p \<noteq> []"
  shows "xmlStrQEqual same (Ptr p) (Ptr n) (Ptr s) =
    Some (strval s = strval p @ ch (CHR '':'') # strval n)"
proof (cases "prefix (strval p) (strval s)")
  case True
  then obtain r where r: "strval s = strval p @ r" by (auto simp: prefix_def)
  let ?s = "drop (length (strval p)) s"
  have s: "cstring ?s" "strval ?s = r"
    using assms(3) r by (simp_all add: cstring_drop strval_drop)
  then obtain c s' where s': "?s = c # s'" by (cases ?s) auto
  have "xmlStrQEqual same (Ptr p) (Ptr n) (Ptr s) =
      (if c \<noteq> ch (CHR '':'') then Some False else strequal_loop n s')"
    using assms True s' by (simp add: xmlStrQEqual_def qequal_prefix_cstring)
  also have "\<dots> = Some (r = ch (CHR '':'') # strval n)"
    using s s' assms(2) by (auto simp: strequal_loop_cstring split: if_splits)
  finally show ?thesis using r by simp
next
  case False
  then show ?thesis
    using assms by (auto simp: xmlStrQEqual_def qequal_prefix_cstring)
qed

text \<open>
  With a non-empty prefix, \<open>xmlStrQEqual\<close> stays inside the three strings and decides whether
  \<open>str\<close> is the prefix, a colon and the name.
\<close>

theorem xmlStrQEqual_correct:
  assumes "cstring p" "cstring n" "cstring s" "strval p \<noteq> []"
  shows "xmlStrQEqual same (Ptr p) (Ptr n) (Ptr s) =
    Some (strval s = strval p @ ch (CHR '':'') # strval n)"
  using assms by (rule xmlStrQEqual_cstring)

theorem xmlStrQEqual_correct_witness:
  "xmlStrQEqual False (Ptr (cstr_of (asc ''a''))) (Ptr (cstr_of (asc ''b'')))
     (Ptr (cstr_of (asc ''a:b''))) = Some True"
  using xmlStrQEqual_correct [of "cstr_of (asc ''a'')" "cstr_of (asc ''b'')" "cstr_of (asc ''a:b'')" False]
  by simp

text \<open>
  With an empty prefix and an empty \<open>str\<close>, \<open>xmlStrQEqual\<close> leaves its first loop with
  \<open>str\<close> behind the terminator and reads past the end of the string.
\<close>

theorem xmlStrQEqual_empty_overread:
  "xmlStrQEqual same (Ptr (cstr_of [])) (Ptr n) (Ptr (cstr_of [])) = None"
  by (simp add: xmlStrQEqual_def cstr_of_def)

end
