(* ===== verification/Words.thy ===== *)
theory Words
  imports Prelude
begin

text \<open>
  Reading the bit operations of the C code as arithmetic.  The collection \<open>bits_arith\<close> turns
  masks, shifts and disjoint disjunctions of words into quotients, remainders and sums of
  their values, so that the encoders and decoders are compared by linear arithmetic.
\<close>

named_theorems bits_arith \<open>values of masked and shifted words\<close>

lemma nat_or_disjoint: "m < 2 ^ k \<Longrightarrow> push_bit k n OR m = 2 ^ k * n + (m :: nat)"
proof -
  assume "m < 2 ^ k"
  then have m: "take_bit k m = m" by (simp add: take_bit_nat_eq_self_iff)
  have "push_bit k n + take_bit k m = push_bit k n OR take_bit k m"
    by (rule disjunctive_add) (auto simp: bit_simps)
  with m show ?thesis by (simp add: push_bit_eq_mult mult.commute)
qed

lemma nat_or_high: "n < 64 \<Longrightarrow> n OR (64 * m) = n + 64 * (m :: nat)"
  using nat_or_disjoint [of n 6 m] by (simp add: push_bit_eq_mult or.commute ac_simps)

lemma word_take_and:
  "x AND 0xFF = take_bit 8 x" "x AND 0x3FF = take_bit 10 x" "x AND 0x3F = take_bit 6 x"
  "x AND 0x1F = take_bit 5 x" "x AND 0xF = take_bit 4 x" "x AND 0x7 = take_bit 3 x"
  for x :: "'a::len word"
  by (simp_all add: take_bit_eq_mask mask_numeral)

lemma unat_take_bit [bits_arith]: "unat (take_bit n x) = unat x mod 2 ^ n"
  by (simp only: unsigned_take_bit_eq take_bit_nat_def)

lemma unat_drop_bit [bits_arith]: "unat (drop_bit n x) = unat x div 2 ^ n"
  by (simp only: unsigned_drop_bit_eq)
    (simp only: drop_bit_nat_def take_bit_nat_def mod_less unsigned_less
      order.strict_trans1 [OF div_le_dividend])

lemma unat_push_bit:
  "unat x * 2 ^ n < 2 ^ LENGTH('a) \<Longrightarrow> unat (push_bit n x) = 2 ^ n * unat (x :: 'a::len word)"
  by (simp only: unsigned_push_bit_eq)
    (simp only: push_bit_eq_mult take_bit_nat_def mod_less mult.commute)

lemma unat_ucast_byte_uint [simp, bits_arith]: "unat (ucast (b :: byte) :: uint) = unat b"
  using unsigned_less [of b, where ?'a = nat]
  by (simp add: unsigned_ucast_eq take_bit_eq_mod)

lemma unat_ucast_uint_byte [bits_arith]: "unat (ucast (x :: uint) :: byte) = unat x mod 256"
  by (simp add: unsigned_ucast_eq take_bit_eq_mod)

lemma unat_byte_less [simp]: "unat (b :: byte) < 256"
  using unsigned_less [of b, where ?'a = nat] by simp

lemma and_shifted_mask: "a AND push_bit k (mask m) = push_bit k (take_bit m (drop_bit k a))"
  for a :: "'a::len word"
  by (rule bit_eqI) (auto simp: bit_simps)

lemma unat_and_shifted_mask:
  fixes a :: "'a::len word"
  assumes "k + m \<le> LENGTH('a)"
  shows "unat (a AND push_bit k (mask m)) = 2 ^ k * (unat a div 2 ^ k mod 2 ^ m)"
proof -
  have "2 ^ k * (unat a div 2 ^ k mod 2 ^ m) < 2 ^ k * 2 ^ m"
    by simp
  also have "\<dots> \<le> 2 ^ LENGTH('a)"
    using assms by (simp flip: power_add)
  finally show ?thesis
    by (simp only: and_shifted_mask) (simp add: unat_push_bit unat_take_bit unat_drop_bit mult.commute)
qed

lemma byte_div_mod: "unat (b :: byte) div 2 ^ k mod 2 ^ (8 - k) = unat b div 2 ^ k" if "k \<le> 8"
proof -
  have "unat b < 2 ^ k * 2 ^ (8 - k)"
    using that by (simp flip: power_add)
  then show ?thesis
    by (simp add: less_mult_imp_div_less mult.commute)
qed

lemma byte_masks [bits_arith]:
  fixes b :: byte
  shows "unat (b AND 0x80) = 128 * (unat b div 128)"
    and "unat (b AND 0xC0) = 64 * (unat b div 64)"
    and "unat (b AND 0xE0) = 32 * (unat b div 32)"
    and "unat (b AND 0xF0) = 16 * (unat b div 16)"
    and "unat (b AND 0xF8) = 8 * (unat b div 8)"
    and "unat (b AND 0x40) = 64 * (unat b div 64 mod 2)"
proof -
  have m: "push_bit 7 (mask 1) = (0x80 :: byte)" "push_bit 6 (mask 2) = (0xC0 :: byte)"
    "push_bit 5 (mask 3) = (0xE0 :: byte)" "push_bit 4 (mask 4) = (0xF0 :: byte)"
    "push_bit 3 (mask 5) = (0xF8 :: byte)" "push_bit 6 (mask 1) = (0x40 :: byte)"
    by code_simp+
  show "unat (b AND 0x80) = 128 * (unat b div 128)"
    using unat_and_shifted_mask [of 7 1 b] byte_div_mod [of 7 b] by (simp add: m)
  show "unat (b AND 0xC0) = 64 * (unat b div 64)"
    using unat_and_shifted_mask [of 6 2 b] byte_div_mod [of 6 b] by (simp add: m)
  show "unat (b AND 0xE0) = 32 * (unat b div 32)"
    using unat_and_shifted_mask [of 5 3 b] byte_div_mod [of 5 b] by (simp add: m)
  show "unat (b AND 0xF0) = 16 * (unat b div 16)"
    using unat_and_shifted_mask [of 4 4 b] byte_div_mod [of 4 b] by (simp add: m)
  show "unat (b AND 0xF8) = 8 * (unat b div 8)"
    using unat_and_shifted_mask [of 3 5 b] byte_div_mod [of 3 b] by (simp add: m)
  show "unat (b AND 0x40) = 64 * (unat b div 64 mod 2)"
    using unat_and_shifted_mask [of 6 1 b] by (simp add: m)
qed

end
