(* ===== verification/Utf8.thy ===== *)
theory Utf8
  imports Xmlstring Words
begin

text \<open>
  The UTF-8 functions: the second half of \<open>xmlstring.c\<close> and the encoder
  \<open>xmlCopyCharMultiByte\<close> of \<open>parserInternals.c\<close>.  Reads are checked, and the bit
  operations are those of the source on 8-bit and 32-bit words.  The specification is the arithmetic
  definition of UTF-8, \<open>utf8_enc\<close>, on Unicode scalar values.
\<close>

section \<open>Sizes and comparisons\<close>

function utf8_size_loop :: "byte \<Rightarrow> byte \<Rightarrow> int \<Rightarrow> int" where
  "utf8_size_loop c msk len =
     (if msk = 0 then - 1
      else if c AND msk = 0 then len else utf8_size_loop c (drop_bit 1 msk) (len + 1))"
  by pat_completeness auto
termination
  by (relation "measure (\<lambda>(c, msk, len). unat msk)")
    (auto simp: unat_drop_bit unat_gt_0)

declare utf8_size_loop.simps [simp del]

definition xmlUTF8Size :: "xmlString \<Rightarrow> int option" where
  "xmlUTF8Size utf =
     (case utf of
        NULL \<Rightarrow> Some (- 1)
      | Ptr s \<Rightarrow> do {
          c \<leftarrow> rd s 0;
          Some (if c < 0x80 then 1
                else if c AND 0x40 = 0 then - 1
                else utf8_size_loop c 0x20 2) })"

definition xmlUTF8Charcmp :: "xmlString \<Rightarrow> xmlString \<Rightarrow> int option" where
  "xmlUTF8Charcmp utf1 utf2 =
     (case utf1 of
        NULL \<Rightarrow> Some (case utf2 of NULL \<Rightarrow> 0 | Ptr _ \<Rightarrow> - 1)
      | Ptr _ \<Rightarrow> do { n \<leftarrow> xmlUTF8Size utf1; xmlStrncmp False utf1 utf2 n })"

fun utf8_strlen_loop :: "bytes \<Rightarrow> nat \<Rightarrow> int option" where
  "utf8_strlen_loop [] ret = None"
| "utf8_strlen_loop (u0 # r) ret =
     (if u0 = 0 then Some (if ret > INT_MAX_nat then 0 else int ret)
      else if u0 AND 0x80 \<noteq> 0 then
        (case rd r 0 of None \<Rightarrow> None | Some u1 \<Rightarrow>
          if u1 AND 0xc0 \<noteq> 0x80 then Some (- 1)
          else if u0 AND 0xe0 = 0xe0 then
            (case rd r 1 of None \<Rightarrow> None | Some u2 \<Rightarrow>
              if u2 AND 0xc0 \<noteq> 0x80 then Some (- 1)
              else if u0 AND 0xf0 = 0xf0 then
                (if u0 AND 0xf8 \<noteq> 0xf0 then Some (- 1)
                 else case rd r 2 of None \<Rightarrow> None | Some u3 \<Rightarrow>
                   if u3 AND 0xc0 \<noteq> 0x80 then Some (- 1)
                   else utf8_strlen_loop (drop 3 r) (Suc ret))
              else utf8_strlen_loop (drop 2 r) (Suc ret))
          else utf8_strlen_loop (drop 1 r) (Suc ret))
      else utf8_strlen_loop r (Suc ret))"

definition xmlUTF8Strlen :: "xmlString \<Rightarrow> int option" where
  "xmlUTF8Strlen utf = (case utf of NULL \<Rightarrow> Some (- 1) | Ptr s \<Rightarrow> utf8_strlen_loop s 0)"

section \<open>Decoding a character\<close>

text \<open>
  The value and the new \<open>*len\<close>; the label \<open>error\<close> sets \<open>*len\<close> to zero (if there is one)
  and returns -1.
\<close>

definition xmlGetUTF8Char :: "xmlString \<Rightarrow> int ptr \<Rightarrow> (int \<times> int ptr) option" where
  "xmlGetUTF8Char utf lenp =
     (case utf of
        NULL \<Rightarrow> Some (- 1, case lenp of NULL \<Rightarrow> NULL | Ptr _ \<Rightarrow> Ptr 0)
      | Ptr s \<Rightarrow>
       (case lenp of
          NULL \<Rightarrow> Some (- 1, NULL)
        | Ptr len \<Rightarrow> do {
            u0 \<leftarrow> rd s 0;
            let c = (ucast u0 :: uint) in
            if c < 0x80 then (if len < 1 then Some (- 1, Ptr 0) else Some (int (unat c), Ptr 1))
            else if len < 2 then Some (- 1, Ptr 0)
            else do {
              u1 \<leftarrow> rd s 1;
              if u1 AND 0xc0 \<noteq> 0x80 then Some (- 1, Ptr 0)
              else if c < 0xe0 then
                (if c < 0xc2 then Some (- 1, Ptr 0)
                 else let c = push_bit 6 (c AND 0x1f) OR ucast (u1 AND 0x3f)
                      in Some (int (unat c), Ptr 2))
              else if len < 3 then Some (- 1, Ptr 0)
              else do {
                u2 \<leftarrow> rd s 2;
                if u2 AND 0xc0 \<noteq> 0x80 then Some (- 1, Ptr 0)
                else if c < 0xf0 then
                  let c = push_bit 12 (c AND 0xf) OR push_bit 6 (ucast (u1 AND 0x3f)) OR
                          ucast (u2 AND 0x3f)
                  in if c < 0x800 \<or> (c \<ge> 0xd800 \<and> c < 0xe000) then Some (- 1, Ptr 0)
                     else Some (int (unat c), Ptr 3)
                else if len < 4 then Some (- 1, Ptr 0)
                else do {
                  u3 \<leftarrow> rd s 3;
                  if u3 AND 0xc0 \<noteq> 0x80 then Some (- 1, Ptr 0)
                  else let c = push_bit 18 (c AND 0x7) OR push_bit 12 (ucast (u1 AND 0x3f)) OR
                               push_bit 6 (ucast (u2 AND 0x3f)) OR ucast (u3 AND 0x3f)
                       in if c < 0x10000 \<or> c \<ge> 0x110000 then Some (- 1, Ptr 0)
                          else Some (int (unat c), Ptr 4) } } } }))"

fun check_utf8_loop :: "bytes \<Rightarrow> bool option" where
  "check_utf8_loop [] = None"
| "check_utf8_loop (c # r) =
     (if c = 0 then Some True
      else if c AND 0x80 = 0 then check_utf8_loop r
      else if c AND 0xe0 = 0xc0 then
        (case rd r 0 of None \<Rightarrow> None | Some u1 \<Rightarrow>
          if u1 AND 0xc0 \<noteq> 0x80 then Some False else check_utf8_loop (drop 1 r))
      else if c AND 0xf0 = 0xe0 then
        (case rd r 0 of None \<Rightarrow> None | Some u1 \<Rightarrow>
          if u1 AND 0xc0 \<noteq> 0x80 then Some False
          else case rd r 1 of None \<Rightarrow> None | Some u2 \<Rightarrow>
            if u2 AND 0xc0 \<noteq> 0x80 then Some False else check_utf8_loop (drop 2 r))
      else if c AND 0xf8 = 0xf0 then
        (case rd r 0 of None \<Rightarrow> None | Some u1 \<Rightarrow>
          if u1 AND 0xc0 \<noteq> 0x80 then Some False
          else case rd r 1 of None \<Rightarrow> None | Some u2 \<Rightarrow>
            if u2 AND 0xc0 \<noteq> 0x80 then Some False
            else case rd r 2 of None \<Rightarrow> None | Some u3 \<Rightarrow>
              if u3 AND 0xc0 \<noteq> 0x80 then Some False else check_utf8_loop (drop 3 r))
      else Some False)"

definition xmlCheckUTF8 :: "xmlString \<Rightarrow> bool option" where
  "xmlCheckUTF8 utf = (case utf of NULL \<Rightarrow> Some False | Ptr s \<Rightarrow> check_utf8_loop s)"

section \<open>Positions\<close>

text \<open>\<open>while ((ch<<=1) & 0x80) { if (*ptr == 0) break; ptr++; }\<close>\<close>

fun skip_cont :: "uint \<Rightarrow> bytes \<Rightarrow> bytes option" where
  "skip_cont cc [] = (if push_bit 1 cc AND 0x80 \<noteq> 0 then None else Some [])"
| "skip_cont cc (c # r) =
     (if push_bit 1 cc AND 0x80 \<noteq> 0
      then if c = 0 then Some (c # r) else skip_cont (push_bit 1 cc) r
      else Some (c # r))"

fun utf8_strsize_loop :: "nat \<Rightarrow> bytes \<Rightarrow> bytes option" where
  "utf8_strsize_loop 0 ptr = Some ptr"
| "utf8_strsize_loop (Suc len) [] = None"
| "utf8_strsize_loop (Suc len) (c # r) =
     (if c = 0 then Some (c # r)
      else do {
        ptr \<leftarrow> (if c AND 0x80 \<noteq> 0 then skip_cont (ucast c) r else Some r);
        utf8_strsize_loop len ptr })"

definition xmlUTF8Strsize :: "xmlString \<Rightarrow> int \<Rightarrow> int option" where
  "xmlUTF8Strsize utf len =
     (case utf of
        NULL \<Rightarrow> Some 0
      | Ptr s \<Rightarrow>
          if len \<le> 0 then Some 0
          else do {
            ptr \<leftarrow> utf8_strsize_loop (nat len) s;
            let ret = length s - length ptr in Some (if ret > INT_MAX_nat then 0 else int ret) })"

definition xmlUTF8Strndup :: "allocator \<Rightarrow> xmlString \<Rightarrow> int \<Rightarrow> xmlString option" where
  "xmlUTF8Strndup mem utf len =
     (case utf of
        NULL \<Rightarrow> Some NULL
      | Ptr s \<Rightarrow>
          if len < 0 then Some NULL
          else do {
            i \<leftarrow> xmlUTF8Strsize utf len;
            if \<not> mem (nat i + 1) then Some NULL
            else do { xs \<leftarrow> copy_in (nat i) s; Some (Ptr (xs @ [0])) } })"

text \<open>\<open>while ((ch <<= 1) & 0x80) if ((*utf++ & 0xc0) != 0x80) return(NULL);\<close>\<close>

fun strict_cont :: "uint \<Rightarrow> bytes \<Rightarrow> xmlString option" where
  "strict_cont cc [] = (if push_bit 1 cc AND 0x80 \<noteq> 0 then None else Some (Ptr []))"
| "strict_cont cc (c # r) =
     (if push_bit 1 cc AND 0x80 \<noteq> 0
      then if c AND 0xc0 \<noteq> 0x80 then Some NULL else strict_cont (push_bit 1 cc) r
      else Some (Ptr (c # r)))"

fun utf8_strpos_loop :: "nat \<Rightarrow> bytes \<Rightarrow> xmlString option" where
  "utf8_strpos_loop 0 utf = Some (Ptr utf)"
| "utf8_strpos_loop (Suc pos) [] = None"
| "utf8_strpos_loop (Suc pos) (c # r) =
     (if c = 0 then Some NULL
      else if c AND 0x80 \<noteq> 0 then
        (if c AND 0xc0 \<noteq> 0xc0 then Some NULL
         else do {
           q \<leftarrow> strict_cont (ucast c) r;
           case q of NULL \<Rightarrow> Some NULL | Ptr r' \<Rightarrow> utf8_strpos_loop pos r' })
      else utf8_strpos_loop pos r)"

definition xmlUTF8Strpos :: "xmlString \<Rightarrow> int \<Rightarrow> xmlString option" where
  "xmlUTF8Strpos utf pos =
     (case utf of
        NULL \<Rightarrow> Some NULL
      | Ptr s \<Rightarrow> if pos < 0 then Some NULL else utf8_strpos_loop (nat pos) s)"

lemma strict_cont_length:
  "strict_cont cc s = Some (Ptr r) \<Longrightarrow> length r \<le> length s"
  by (induction cc s rule: strict_cont.induct) (auto split: if_splits)

function utf8_strloc_loop :: "bytes \<Rightarrow> bytes \<Rightarrow> int \<Rightarrow> nat \<Rightarrow> int option" where
  "utf8_strloc_loop [] utfchar sz i = None"
| "utf8_strloc_loop (c # r) utfchar sz i =
     (if c = 0 then Some (- 1)
      else case xmlStrncmp False (Ptr (c # r)) (Ptr utfchar) sz of
        None \<Rightarrow> None
      | Some d \<Rightarrow>
          if d = 0 then Some (if i > INT_MAX_nat then 0 else int i)
          else if c AND 0x80 \<noteq> 0 then
            (if c AND 0xc0 \<noteq> 0xc0 then Some (- 1)
             else case strict_cont (ucast c) r of
               None \<Rightarrow> None
             | Some NULL \<Rightarrow> Some (- 1)
             | Some (Ptr r') \<Rightarrow> utf8_strloc_loop r' utfchar sz (Suc i))
          else utf8_strloc_loop r utfchar sz (Suc i))"
  by pat_completeness auto
termination
  by (relation "measure (\<lambda>(s, u, z, i). length s)") (auto dest: strict_cont_length)

definition xmlUTF8Strloc :: "xmlString \<Rightarrow> xmlString \<Rightarrow> int option" where
  "xmlUTF8Strloc utf utfchar =
     (case utf of
        NULL \<Rightarrow> Some (- 1)
      | Ptr s \<Rightarrow>
       (case utfchar of
          NULL \<Rightarrow> Some (- 1)
        | Ptr u \<Rightarrow> do { sz \<leftarrow> xmlUTF8Strsize utfchar 1; utf8_strloc_loop s u sz 0 }))"

text \<open>\<open>ch <<= 1; while (ch & 0x80) { if (*utf++ == 0) return(NULL); ch <<= 1; }\<close>\<close>

fun loose_cont :: "uint \<Rightarrow> bytes \<Rightarrow> xmlString option" where
  "loose_cont cc [] = (if cc AND 0x80 \<noteq> 0 then None else Some (Ptr []))"
| "loose_cont cc (c # r) =
     (if cc AND 0x80 \<noteq> 0
      then if c = 0 then Some NULL else loose_cont (push_bit 1 cc) r
      else Some (Ptr (c # r)))"

fun utf8_strsub_skip :: "nat \<Rightarrow> bytes \<Rightarrow> xmlString option" where
  "utf8_strsub_skip 0 utf = Some (Ptr utf)"
| "utf8_strsub_skip (Suc n) [] = None"
| "utf8_strsub_skip (Suc n) (c # r) =
     (if c = 0 then Some NULL
      else if c AND 0x80 \<noteq> 0 then do {
        q \<leftarrow> loose_cont (push_bit 1 (ucast c)) r;
        case q of NULL \<Rightarrow> Some NULL | Ptr r' \<Rightarrow> utf8_strsub_skip n r' }
      else utf8_strsub_skip n r)"

definition xmlUTF8Strsub :: "allocator \<Rightarrow> xmlString \<Rightarrow> int \<Rightarrow> int \<Rightarrow> xmlString option" where
  "xmlUTF8Strsub mem utf start len =
     (case utf of
        NULL \<Rightarrow> Some NULL
      | Ptr s \<Rightarrow>
          if start < 0 then Some NULL
          else if len < 0 then Some NULL
          else do {
            q \<leftarrow> utf8_strsub_skip (nat start) s;
            case q of NULL \<Rightarrow> Some NULL | Ptr _ \<Rightarrow> xmlUTF8Strndup mem q len })"

section \<open>Encoding a character\<close>

text \<open>\<open>for ( ; bits >= 0; bits-= 6) *out++= ((val >> bits) & 0x3F) | 0x80;\<close>\<close>

fun copy_tail :: "uint \<Rightarrow> nat \<Rightarrow> bytes" where
  "copy_tail val bits =
     ucast (drop_bit bits val AND 0x3F OR 0x80) # (if bits < 6 then [] else copy_tail val (bits - 6))"

declare copy_tail.simps [simp del]

definition copy_char_bytes :: "uint \<Rightarrow> bytes" where
  "copy_char_bytes val =
     (if val \<ge> 0x80 then
        (if val < 0x800 then ucast (drop_bit 6 val OR 0xC0) # copy_tail val 0
         else if val < 0x10000 then ucast (drop_bit 12 val OR 0xE0) # copy_tail val 6
         else if val < 0x110000 then ucast (drop_bit 18 val OR 0xF0) # copy_tail val 12
         else [])
      else [ucast val])"

text \<open>The count of bytes written and the buffer afterwards.\<close>

definition xmlCopyCharMultiByte :: "bytes ptr \<Rightarrow> int \<Rightarrow> (nat \<times> bytes ptr) option" where
  "xmlCopyCharMultiByte out val =
     (case out of
        NULL \<Rightarrow> Some (0, out)
      | Ptr o' \<Rightarrow>
          if val < 0 then Some (0, out)
          else let xs = copy_char_bytes (word_of_int val)
               in do { o'' \<leftarrow> copy_out o' 0 xs; Some (length xs, Ptr o'') })"

definition xmlCopyChar :: "int \<Rightarrow> bytes ptr \<Rightarrow> int \<Rightarrow> (nat \<times> bytes ptr) option" where
  "xmlCopyChar len out val =
     (case out of
        NULL \<Rightarrow> Some (0, out)
      | Ptr o' \<Rightarrow>
          if val < 0 then Some (0, out)
          else if val \<ge> 0x80 then xmlCopyCharMultiByte out val
          else do { o'' \<leftarrow> wr o' 0 (word_of_int val); Some (1, Ptr o'') })"

section \<open>Specification\<close>

definition scalar :: "nat \<Rightarrow> bool" where
  "scalar c \<longleftrightarrow> c < 0xD800 \<or> (0xE000 \<le> c \<and> c < 0x110000)"

definition utf8_codes :: "nat \<Rightarrow> nat list" where
  "utf8_codes c =
     (if c < 0x80 then [c]
      else if c < 0x800 then [192 + c div 64, 128 + c mod 64]
      else if c < 0x10000 then [224 + c div 64 div 64, 128 + c div 64 mod 64, 128 + c mod 64]
      else [240 + c div 64 div 64 div 64, 128 + c div 64 div 64 mod 64, 128 + c div 64 mod 64,
            128 + c mod 64])"

definition utf8_enc :: "nat \<Rightarrow> bytes" where
  "utf8_enc c = map word_of_nat (utf8_codes c)"

section \<open>Values of decoded sequences\<close>

lemma unat_or: "unat (x OR y) = unat x OR unat (y :: 'a::len word)"
  by (simp only: unsigned_or_eq)

lemma unat_shift_or:
  fixes x y :: uint
  assumes "unat x < 2 ^ (32 - k)" "k \<le> 32" "unat y < 2 ^ k"
  shows "unat (push_bit k x OR y) = 2 ^ k * unat x + unat y"
proof -
  have "unat x * 2 ^ k < 2 ^ (32 - k) * 2 ^ k" using assms(1) by simp
  also have "\<dots> = 2 ^ 32" using assms(2) by (simp flip: power_add)
  finally have "unat (push_bit k x) = push_bit k (unat x)"
    using unat_push_bit [of x k] by (simp add: push_bit_eq_mult mult.commute)
  then show ?thesis by (simp add: unat_or nat_or_disjoint assms(3))
qed

lemma dec2: "unat (push_bit 6 ((ucast (u0 :: byte) :: uint) AND 0x1f) OR ucast ((u1 :: byte) AND 0x3f)) =
    64 * (unat u0 mod 32) + unat u1 mod 64"
proof -
  have "unat (take_bit 5 (ucast u0 :: uint)) = unat u0 mod 32"
    "unat (ucast (take_bit 6 u1) :: uint) = unat u1 mod 64" by (simp_all add: unat_take_bit)
  then show ?thesis
    using unat_shift_or [of "take_bit 5 (ucast u0)" 6 "ucast (take_bit 6 u1)"]
    by (simp add: word_take_and)
qed

lemma dec3: "unat (push_bit 12 ((ucast (u0 :: byte) :: uint) AND 0xf) OR push_bit 6 (ucast ((u1 :: byte) AND 0x3f)) OR
      ucast ((u2 :: byte) AND 0x3f)) =
    4096 * (unat u0 mod 16) + 64 * (unat u1 mod 64) + unat u2 mod 64"
proof -
  let ?y = "push_bit 6 (ucast (take_bit 6 u1)) OR ucast (take_bit 6 u2) :: uint"
  have v: "unat (take_bit 4 (ucast u0 :: uint)) = unat u0 mod 16"
    "unat (ucast (take_bit 6 b) :: uint) = unat b mod 64" for b :: byte
    by (simp_all add: unat_take_bit)
  have y: "unat ?y = 64 * (unat u1 mod 64) + unat u2 mod 64"
    using unat_shift_or [of "ucast (take_bit 6 u1)" 6 "ucast (take_bit 6 u2)"] v by simp
  have "64 * (unat u1 mod 64) + unat u2 mod 64 < 4096"
    using mod_less_divisor [of 64 "unat u1"] mod_less_divisor [of 64 "unat u2"] by linarith
  then show ?thesis
    using unat_shift_or [of "take_bit 4 (ucast u0)" 12 ?y] v y
    by (simp add: word_take_and or.assoc)
qed

lemma dec4: "unat (push_bit 18 ((ucast (u0 :: byte) :: uint) AND 0x7) OR push_bit 12 (ucast ((u1 :: byte) AND 0x3f)) OR
      push_bit 6 (ucast ((u2 :: byte) AND 0x3f)) OR ucast ((u3 :: byte) AND 0x3f)) =
    262144 * (unat u0 mod 8) + 4096 * (unat u1 mod 64) + 64 * (unat u2 mod 64) + unat u3 mod 64"
proof -
  let ?y = "push_bit 6 (ucast (take_bit 6 u2)) OR ucast (take_bit 6 u3) :: uint"
  let ?z = "push_bit 12 (ucast (take_bit 6 u1)) OR ?y :: uint"
  have v: "unat (take_bit 3 (ucast u0 :: uint)) = unat u0 mod 8"
    "unat (ucast (take_bit 6 b) :: uint) = unat b mod 64" for b :: byte
    by (simp_all add: unat_take_bit)
  have y: "unat ?y = 64 * (unat u2 mod 64) + unat u3 mod 64"
    using unat_shift_or [of "ucast (take_bit 6 u2)" 6 "ucast (take_bit 6 u3)"] v by simp
  note m = mod_less_divisor [of 64 "unat u1"] mod_less_divisor [of 64 "unat u2"]
    mod_less_divisor [of 64 "unat u3"]
  have "64 * (unat u2 mod 64) + unat u3 mod 64 < 4096" using m by linarith
  then have z: "unat ?z = 4096 * (unat u1 mod 64) + 64 * (unat u2 mod 64) + unat u3 mod 64"
    using unat_shift_or [of "ucast (take_bit 6 u1)" 12 ?y] v y by simp
  have "4096 * (unat u1 mod 64) + 64 * (unat u2 mod 64) + unat u3 mod 64 < 262144"
    using m by linarith
  then show ?thesis
    using unat_shift_or [of "take_bit 3 (ucast u0)" 18 ?z] v z
    by (simp add: word_take_and or.assoc)
qed

lemma cont_iff: "(b :: byte) AND 0xc0 = 0x80 \<longleftrightarrow> unat b div 64 = 2"
  by (simp add: word_unat_eq_iff byte_masks) 

lemma ucast_less_iff: "(ucast (b :: byte) :: uint) < numeral k \<longleftrightarrow> unat b < unat (numeral k :: uint)"
  by (simp add: word_less_nat_alt)



lemma base64 [simp]: "(z :: nat) < 64 \<Longrightarrow> (64 * q + z) div 64 = q" "z < 64 \<Longrightarrow> (64 * q + z) mod 64 = z"
  by simp_all

lemma cont_code [simp]: "(q :: nat) < 64 \<Longrightarrow> (128 + q) div 64 = 2" "q < 64 \<Longrightarrow> (128 + q) mod 64 = q"
  using base64 [of q 2] by simp_all

lemma cont_codeE:
  fixes b :: nat
  assumes "b div 64 = 2" obtains y where "y < 64" "b = 128 + y"
  using assms div_mult_mod_eq [of b 64] that [of "b mod 64"] by simp

lemma horner2: "(c :: nat) = 64 * (c div 64) + c mod 64" by simp
lemma horner3: "(c :: nat) = 4096 * (c div 64 div 64) + 64 * (c div 64 mod 64) + c mod 64"
  using horner2 [of c] horner2 [of "c div 64"] by linarith
lemma horner4: "(c :: nat) = 262144 * (c div 64 div 64 div 64) + 4096 * (c div 64 div 64 mod 64) + 64 * (c div 64 mod 64) + c mod 64"
  using horner2 [of c] horner2 [of "c div 64"] horner2 [of "c div 64 div 64"] by linarith

lemma lead_mod: "(q :: nat) < 32 \<Longrightarrow> (192 + q) mod 32 = q" "q < 16 \<Longrightarrow> (224 + q) mod 16 = q" "q < 8 \<Longrightarrow> (240 + q) mod 8 = q"
  by (simp_all add: mod_if)

lemma codes2_iff:
  fixes a b c :: nat
  shows "utf8_codes c = [a, b] \<and> c < 0x110000 \<longleftrightarrow>
    194 \<le> a \<and> a < 224 \<and> b div 64 = 2 \<and> c = 64 * (a mod 32) + b mod 64"
proof
  assume "utf8_codes c = [a, b] \<and> c < 0x110000"
  then have *: "128 \<le> c" "c < 2048" "a = 192 + c div 64" "b = 128 + c mod 64"
    by (auto simp: utf8_codes_def split: if_splits)
  then have "2 \<le> c div 64" "c div 64 < 32" by linarith+
  with * show "194 \<le> a \<and> a < 224 \<and> b div 64 = 2 \<and> c = 64 * (a mod 32) + b mod 64"
    by (simp add: lead_mod)
next
  assume r: "194 \<le> a \<and> a < 224 \<and> b div 64 = 2 \<and> c = 64 * (a mod 32) + b mod 64"
  then obtain y where "y < 64" "b = 128 + y" by (auto elim: cont_codeE)
  moreover obtain x where "a = 192 + x" "2 \<le> x" "x < 32"
    using r le_Suc_ex [of 192 a] by auto
  ultimately show "utf8_codes c = [a, b] \<and> c < 0x110000"
    using r by (simp add: utf8_codes_def lead_mod)
qed

lemma codes3_iff:
  fixes a b d c :: nat
  shows "utf8_codes c = [a, b, d] \<and> c < 0x110000 \<longleftrightarrow>
    224 \<le> a \<and> a < 240 \<and> b div 64 = 2 \<and> d div 64 = 2 \<and>
    c = 4096 * (a mod 16) + 64 * (b mod 64) + d mod 64 \<and> 2048 \<le> c"
proof
  assume "utf8_codes c = [a, b, d] \<and> c < 0x110000"
  then have *: "2048 \<le> c" "c < 65536" "a = 224 + c div 64 div 64" "b = 128 + c div 64 mod 64" "d = 128 + c mod 64"
    by (auto simp: utf8_codes_def split: if_splits)
  have "c div 64 div 64 < 16" using *(2) horner3 [of c] by linarith
  then show "224 \<le> a \<and> a < 240 \<and> b div 64 = 2 \<and> d div 64 = 2 \<and>
    c = 4096 * (a mod 16) + 64 * (b mod 64) + d mod 64 \<and> 2048 \<le> c"
    using * horner3 [of c] by (simp add: lead_mod)
next
  assume r: "224 \<le> a \<and> a < 240 \<and> b div 64 = 2 \<and> d div 64 = 2 \<and>
    c = 4096 * (a mod 16) + 64 * (b mod 64) + d mod 64 \<and> 2048 \<le> c"
  then obtain y z where yz: "y < 64" "b = 128 + y" "z < 64" "d = 128 + z" by (auto elim!: cont_codeE)
  obtain x where x: "a = 224 + x" "x < 16"
    using r le_Suc_ex [of 224 a] by auto
  have c: "c = 64 * (64 * x + y) + z" using r x yz by (simp add: lead_mod)
  have "c < 65536" using c x yz by (simp add: distrib_left)
  moreover have "c div 64 = 64 * x + y" "c mod 64 = z" unfolding c using yz(3) by (rule base64)+
  ultimately show "utf8_codes c = [a, b, d] \<and> c < 0x110000"
    using r x yz by (simp add: utf8_codes_def)
qed

lemma codes4_iff:
  fixes a b d e c :: nat
  shows "utf8_codes c = [a, b, d, e] \<and> c < 0x110000 \<longleftrightarrow>
    240 \<le> a \<and> a < 248 \<and> b div 64 = 2 \<and> d div 64 = 2 \<and> e div 64 = 2 \<and>
    c = 262144 * (a mod 8) + 4096 * (b mod 64) + 64 * (d mod 64) + e mod 64 \<and> 65536 \<le> c \<and> c < 0x110000"
proof
  assume "utf8_codes c = [a, b, d, e] \<and> c < 0x110000"
  then have *: "65536 \<le> c" "c < 0x110000" "a = 240 + c div 64 div 64 div 64" "b = 128 + c div 64 div 64 mod 64"
     "d = 128 + c div 64 mod 64" "e = 128 + c mod 64"
    by (auto simp: utf8_codes_def split: if_splits)
  have "c div 64 div 64 div 64 < 8" using *(2) horner4 [of c] by linarith
  then show "240 \<le> a \<and> a < 248 \<and> b div 64 = 2 \<and> d div 64 = 2 \<and> e div 64 = 2 \<and>
    c = 262144 * (a mod 8) + 4096 * (b mod 64) + 64 * (d mod 64) + e mod 64 \<and> 65536 \<le> c \<and> c < 0x110000"
    using * horner4 [of c] by (simp add: lead_mod)
next
  assume r: "240 \<le> a \<and> a < 248 \<and> b div 64 = 2 \<and> d div 64 = 2 \<and> e div 64 = 2 \<and>
    c = 262144 * (a mod 8) + 4096 * (b mod 64) + 64 * (d mod 64) + e mod 64 \<and> 65536 \<le> c \<and> c < 0x110000"
  then obtain y z w where yz: "y < 64" "b = 128 + y" "z < 64" "d = 128 + z" "w < 64" "e = 128 + w"
    by (auto elim!: cont_codeE)
  obtain x where x: "a = 240 + x" "x < 8"
    using r le_Suc_ex [of 240 a] by auto
  have c: "c = 64 * (64 * (64 * x + y) + z) + w" using r x yz by (simp add: lead_mod)
  have 1: "c div 64 = 64 * (64 * x + y) + z" "c mod 64 = w" unfolding c using yz(5) by (rule base64)+
  have 2: "c div 64 div 64 = 64 * x + y" "c div 64 mod 64 = z" unfolding 1 using yz(3) by (rule base64)+
  have 3: "c div 64 div 64 div 64 = x" "c div 64 div 64 mod 64 = y" unfolding 2 using yz(1) by (rule base64)+
  have "65536 \<le> c" using r by blast
  then have "utf8_codes c = [240 + c div 64 div 64 div 64, 128 + c div 64 div 64 mod 64, 128 + c div 64 mod 64, 128 + c mod 64]"
    by (simp add: utf8_codes_def)
  then show "utf8_codes c = [a, b, d, e] \<and> c < 0x110000"
    unfolding 3 2(2) 1(2) using r x(1) yz(2,4,6) by blast
qed

subsection \<open>The encoder\<close>

lemma length_utf8_codes: "length (utf8_codes c) = (if c < 0x80 then 1 else if c < 0x800 then 2 else if c < 0x10000 then 3 else 4)"
  by (simp add: utf8_codes_def)

lemma codes1_iff: "utf8_codes c = [a] \<longleftrightarrow> a < 128 \<and> c = a"
  by (auto simp: utf8_codes_def)

lemma div64_2_less: "(b :: nat) div 64 = 2 \<Longrightarrow> b < 256"
  by (auto elim: cont_codeE)

lemma utf8_codes_cases:
  obtains (c1) a where "utf8_codes c = [a]" | (c2) a b where "utf8_codes c = [a, b]"
  | (c3) a b d where "utf8_codes c = [a, b, d]" | (c4) a b d e where "utf8_codes c = [a, b, d, e]"
proof -
  have "(\<exists>a. utf8_codes c = [a]) \<or> (\<exists>a b. utf8_codes c = [a, b]) \<or>
    (\<exists>a b d. utf8_codes c = [a, b, d]) \<or> (\<exists>a b d e. utf8_codes c = [a, b, d, e])"
    by (simp add: utf8_codes_def)
  then show ?thesis using that by blast
qed

lemma utf8_codes_bytes:
  assumes "c < 0x110000" "x \<in> set (utf8_codes c)" shows "x < 256"
proof (cases c rule: utf8_codes_cases)
  case (c1 a) with assms show ?thesis by (simp add: codes1_iff)
next
  case (c2 a b) with assms codes2_iff [of c a b] show ?thesis by (auto dest: div64_2_less)
next
  case (c3 a b d) with assms codes3_iff [of c a b d] show ?thesis by (auto dest: div64_2_less)
next
  case (c4 a b d e) with assms codes4_iff [of c a b d e] show ?thesis by (auto dest: div64_2_less)
qed

lemma map_unat_enc: "c < 0x110000 \<Longrightarrow> map unat (utf8_enc c) = utf8_codes c"
  by (auto simp: utf8_enc_def o_def unat_of_nat dest: utf8_codes_bytes intro!: map_idI)

lemma utf8_enc_eq_iff: 
  assumes "c < 0x110000" shows "utf8_enc c = s \<longleftrightarrow> utf8_codes c = map unat s"
proof -
  have "inj (unat :: byte \<Rightarrow> nat)" by (simp add: inj_on_def word_unat_eq_iff)
  then show ?thesis by (metis map_unat_enc [OF assms] inj_map_eq_map)
qed

lemma length_utf8_enc: "length (utf8_enc c) = length (utf8_codes c)"
  by (simp add: utf8_enc_def)

text \<open>A scalar value stands at the front of a byte string.\<close>

definition utf8_front :: "bytes \<Rightarrow> nat \<Rightarrow> bool" where
  "utf8_front s c \<longleftrightarrow> scalar c \<and> take (length (utf8_enc c)) s = utf8_enc c"

lemma scalar_less: "scalar c \<Longrightarrow> c < 0x110000"
  by (auto simp: scalar_def)

lemma utf8_front_alt:
  "utf8_front s c \<longleftrightarrow> scalar c \<and> (\<exists>t r. s = t @ r \<and> utf8_codes c = map unat t)"
  (is "?l = ?r")
proof
  assume l: ?l
  let ?n = "length (utf8_enc c)"
  have t: "utf8_enc c = take ?n s" "scalar c" using l by (simp_all add: utf8_front_def)
  then have "utf8_codes c = map unat (take ?n s)"
    using utf8_enc_eq_iff [OF scalar_less [OF t(2)]] by blast
  then show ?r using t(2) append_take_drop_id [of ?n s] by metis
next
  assume ?r
  then obtain t r where n: "scalar c" "s = t @ r" "utf8_codes c = map unat t" by blast
  then have "utf8_enc c = t" using utf8_enc_eq_iff [OF scalar_less] by blast
  with n show ?l by (simp add: utf8_front_def)
qed

lemma utf8_front_Nil [simp]: "\<not> utf8_front [] c"
  by (simp add: utf8_front_def utf8_enc_def utf8_codes_def)
 


lemma utf8_front_Cons:
  "utf8_front (u0 # r) c \<longleftrightarrow> scalar c \<and>
     (utf8_codes c = [unat u0] \<or>
     (\<exists>u1 r1. r = u1 # r1 \<and> (utf8_codes c = [unat u0, unat u1] \<or>
       (\<exists>u2 r2. r1 = u2 # r2 \<and> (utf8_codes c = [unat u0, unat u1, unat u2] \<or>
         (\<exists>u3 r3. r2 = u3 # r3 \<and> utf8_codes c = [unat u0, unat u1, unat u2, unat u3]))))))"
  (is "?l = ?r")
proof
  assume ?r
  then show ?l
    unfolding utf8_front_alt
    by (elim conjE disjE exE)
      (rule conjI, assumption,
        rule exI [of _ "[u0]"] exI [of _ "take 2 (u0 # r)"] exI [of _ "take 3 (u0 # r)"] exI [of _ "take 4 (u0 # r)"],
        force)+
next
  assume ?l
  then obtain t r' where n: "scalar c" "u0 # r = t @ r'" "utf8_codes c = map unat t"
    unfolding utf8_front_alt by blast
  then show ?r
    by (cases c rule: utf8_codes_cases) (fastforce simp: map_eq_Cons_conv)+
qed


lemma scalar_codes_iff:
  assumes "scalar c"
  shows "utf8_codes c = [a] \<longleftrightarrow> a < 128 \<and> c = a"
    "utf8_codes c = [a, b] \<longleftrightarrow> 194 \<le> a \<and> a < 224 \<and> b div 64 = 2 \<and> c = 64 * (a mod 32) + b mod 64"
    "utf8_codes c = [a, b, d] \<longleftrightarrow> 224 \<le> a \<and> a < 240 \<and> b div 64 = 2 \<and> d div 64 = 2 \<and>
    c = 4096 * (a mod 16) + 64 * (b mod 64) + d mod 64 \<and> 2048 \<le> c"
   "utf8_codes c = [a, b, d, e] \<longleftrightarrow>
    240 \<le> a \<and> a < 248 \<and> b div 64 = 2 \<and> d div 64 = 2 \<and> e div 64 = 2 \<and>
    c = 262144 * (a mod 8) + 4096 * (b mod 64) + 64 * (d mod 64) + e mod 64 \<and> 65536 \<le> c"
  using codes1_iff codes2_iff [of c a b] codes3_iff [of c a b d] codes4_iff [of c a b d e] scalar_less [OF assms]
  by blast+


lemma length_enc_nat: "length (utf8_enc c) = (if c < 0x80 then 1 else if c < 0x800 then 2 else if c < 0x10000 then 3 else 4)"
  by (simp add: length_utf8_enc length_utf8_codes)

lemma uint_bounds:
  "unat (0x80 :: uint) = 128" "unat (0xe0 :: uint) = 224" "unat (0xc2 :: uint) = 194" "unat (0xf0 :: uint) = 240"
  "unat (0x800 :: uint) = 2048" "unat (0xd800 :: uint) = 0xd800" "unat (0xe000 :: uint) = 0xe000"
  "unat (0x10000 :: uint) = 0x10000" "unat (0x110000 :: uint) = 0x110000"
  by simp_all

lemma unat_ucast_byte: "unat (ucast (b :: byte) :: uint) = unat b"
  by (rule unat_ucast_byte_uint)

text \<open>The same decoder over natural numbers.\<close>

lemma xmlGetUTF8Char_nat:
  "xmlGetUTF8Char (Ptr s) (Ptr len) = do {
     u0 \<leftarrow> rd s 0;
     if unat u0 < 128 then (if len < 1 then Some (- 1, Ptr 0) else Some (int (unat u0), Ptr 1))
     else if len < 2 then Some (- 1, Ptr 0)
     else do {
       u1 \<leftarrow> rd s 1;
       if unat u1 div 64 \<noteq> 2 then Some (- 1, Ptr 0)
       else if unat u0 < 224 then
         (if unat u0 < 194 then Some (- 1, Ptr 0)
          else Some (int (64 * (unat u0 mod 32) + unat u1 mod 64), Ptr 2))
       else if len < 3 then Some (- 1, Ptr 0)
       else do {
         u2 \<leftarrow> rd s 2;
         if unat u2 div 64 \<noteq> 2 then Some (- 1, Ptr 0)
         else if unat u0 < 240 then
           (let c = 4096 * (unat u0 mod 16) + 64 * (unat u1 mod 64) + unat u2 mod 64
            in if c < 0x800 \<or> (0xd800 \<le> c \<and> c < 0xe000) then Some (- 1, Ptr 0)
               else Some (int c, Ptr 3))
         else if len < 4 then Some (- 1, Ptr 0)
         else do {
           u3 \<leftarrow> rd s 3;
           if unat u3 div 64 \<noteq> 2 then Some (- 1, Ptr 0)
           else let c = 262144 * (unat u0 mod 8) + 4096 * (unat u1 mod 64) +
                        64 * (unat u2 mod 64) + unat u3 mod 64
                in if c < 0x10000 \<or> 0x110000 \<le> c then Some (- 1, Ptr 0)
                   else Some (int c, Ptr 4) } } } }"
  by (simp only: xmlGetUTF8Char_def ptr.case Let_def word_less_nat_alt word_le_nat_alt cont_iff
      uint_bounds unat_ucast_byte dec2 dec3 dec4)

lemma utf8_front_unique: "utf8_front s c \<Longrightarrow> utf8_front s d \<Longrightarrow> c = d"
  by (cases s) (auto simp: utf8_front_Cons scalar_codes_iff)

text \<open>What the decoder has to answer for the bytes it may look at.\<close>

definition decodes_as :: "bytes \<Rightarrow> (int \<times> int ptr) option \<Rightarrow> bool" where
  "decodes_as t res \<longleftrightarrow>
     (\<forall>c. utf8_front t c \<longrightarrow> res = Some (int c, Ptr (int (length (utf8_enc c))))) \<and>
     ((\<forall>c. \<not> utf8_front t c) \<longrightarrow> res = Some (- 1, Ptr 0))"

lemma decodes_as_fail: "(\<And>c. \<not> utf8_front t c) \<Longrightarrow> decodes_as t (Some (- 1, Ptr 0))"
  by (simp add: decodes_as_def)

lemma decodes_as_char:
  "utf8_front t c \<Longrightarrow> n = length (utf8_codes c) \<Longrightarrow> decodes_as t (Some (int c, Ptr (int n)))"
  by (auto simp: decodes_as_def length_utf8_enc dest: utf8_front_unique)

lemma decodes2:
  assumes "128 \<le> unat u0" "unat u0 < 224" "2 \<le> len" "unat u1 div 64 = 2"
  shows "decodes_as (u0 # u1 # t) (xmlGetUTF8Char (Ptr (u0 # u1 # r)) (Ptr (int len)))"
proof (cases "unat u0 < 194")
  case True
  then show ?thesis
    using assms by (auto simp: xmlGetUTF8Char_nat intro!: decodes_as_fail)
      (auto simp: utf8_front_Cons scalar_codes_iff)
next
  case False
  define c where "c = 64 * (unat u0 mod 32) + unat u1 mod 64"
  have "utf8_codes c = [unat u0, unat u1] \<and> c < 0x110000"
    unfolding codes2_iff using assms False by (simp add: c_def)
  moreover have "c < 0xd800"
    using mod_less_divisor [of 32 "unat u0"] mod_less_divisor [of 64 "unat u1"] unfolding c_def by linarith
  then have "scalar c" by (simp add: scalar_def)
  ultimately have "decodes_as (u0 # u1 # t) (Some (int c, Ptr (int 2)))"
    by (intro decodes_as_char) (auto simp: utf8_front_Cons)
  then show ?thesis using assms False by (simp add: xmlGetUTF8Char_nat c_def)
qed

lemma decodes3:
  assumes "224 \<le> unat u0" "unat u0 < 240" "3 \<le> len" "unat u1 div 64 = 2" "unat u2 div 64 = 2"
  shows "decodes_as (u0 # u1 # u2 # t) (xmlGetUTF8Char (Ptr (u0 # u1 # u2 # r)) (Ptr (int len)))"
proof -
  define c where "c = 4096 * (unat u0 mod 16) + 64 * (unat u1 mod 64) + unat u2 mod 64"
  have g: "xmlGetUTF8Char (Ptr (u0 # u1 # u2 # r)) (Ptr (int len)) =
    (if c < 0x800 \<or> (0xd800 \<le> c \<and> c < 0xe000) then Some (- 1, Ptr 0) else Some (int c, Ptr (int 3)))"
    using assms by (simp add: xmlGetUTF8Char_nat c_def Let_def)
  show ?thesis
  proof (cases "c < 0x800 \<or> (0xd800 \<le> c \<and> c < 0xe000)")
    case True
    have "\<not> utf8_front (u0 # u1 # u2 # t) d" for d
    proof
      assume "utf8_front (u0 # u1 # u2 # t) d"
      then have "d = c \<and> scalar d \<and> 0x800 \<le> d" using assms by (auto simp: utf8_front_Cons scalar_codes_iff c_def)
      with True show False by (auto simp: scalar_def)
    qed
    with True show ?thesis unfolding g by (simp add: decodes_as_fail)
  next
    case False
    have "utf8_codes c = [unat u0, unat u1, unat u2] \<and> c < 0x110000"
      unfolding codes3_iff using assms False by (simp add: c_def)
    moreover from this have "scalar c" using False by (auto simp: scalar_def)
    ultimately have "decodes_as (u0 # u1 # u2 # t) (Some (int c, Ptr (int 3)))"
      by (intro decodes_as_char) (auto simp: utf8_front_Cons)
    then show ?thesis unfolding g using False by (simp only: if_False)
  qed
qed

lemma decodes4:
  assumes "240 \<le> unat u0" "unat u0 < 248" "4 \<le> len" "unat u1 div 64 = 2" "unat u2 div 64 = 2" "unat u3 div 64 = 2"
  shows "decodes_as (u0 # u1 # u2 # u3 # t) (xmlGetUTF8Char (Ptr (u0 # u1 # u2 # u3 # r)) (Ptr (int len)))"
proof -
  define c where "c = 262144 * (unat u0 mod 8) + 4096 * (unat u1 mod 64) + 64 * (unat u2 mod 64) + unat u3 mod 64"
  have g: "xmlGetUTF8Char (Ptr (u0 # u1 # u2 # u3 # r)) (Ptr (int len)) =
    (if c < 0x10000 \<or> 0x110000 \<le> c then Some (- 1, Ptr 0) else Some (int c, Ptr (int 4)))"
    using assms by (simp add: xmlGetUTF8Char_nat c_def Let_def)
  show ?thesis
  proof (cases "c < 0x10000 \<or> 0x110000 \<le> c")
    case True
    have "\<not> utf8_front (u0 # u1 # u2 # u3 # t) d" for d
    proof
      assume "utf8_front (u0 # u1 # u2 # u3 # t) d"
      then have "d = c \<and> scalar d \<and> 0x10000 \<le> d" using assms by (auto simp: utf8_front_Cons scalar_codes_iff c_def)
      with True show False by (auto simp: scalar_def)
    qed
    with True show ?thesis unfolding g by (simp add: decodes_as_fail)
  next
    case False
    have "utf8_codes c = [unat u0, unat u1, unat u2, unat u3] \<and> c < 0x110000"
      unfolding codes4_iff using assms False by (simp add: c_def)
    moreover from this have "scalar c" using False by (auto simp: scalar_def)
    ultimately have "decodes_as (u0 # u1 # u2 # u3 # t) (Some (int c, Ptr (int 4)))"
      by (intro decodes_as_char) (auto simp: utf8_front_Cons)
    then show ?thesis unfolding g using False by simp
  qed
qed

text \<open>Sequences that stop too early or have no continuation byte decode as nothing.\<close>

lemmas no_front = utf8_front_Cons scalar_codes_iff

lemma decodes_long4:
  assumes "len = Suc (Suc (Suc l))" "l \<le> length r" "240 \<le> unat u0" "unat u0 < 248"
    "unat u1 div 64 = 2" "unat u2 div 64 = 2"
  shows "decodes_as (u0 # u1 # u2 # take l r) (xmlGetUTF8Char (Ptr (u0 # u1 # u2 # r)) (Ptr (int len)))"
proof (cases l)
  case 0
  with assms show ?thesis by (auto simp: xmlGetUTF8Char_nat no_front intro!: decodes_as_fail)
next
  case (Suc l3)
  with assms obtain u3 r3 where r: "r = u3 # r3" by (cases r) auto
  show ?thesis
  proof (cases "unat u3 div 64 = 2")
    case True
    then show ?thesis using assms r Suc decodes4 [of u0 len u1 u2 u3 "take l3 r3"] by simp
  next
    case False
    then show ?thesis
      using assms r Suc by (auto simp: xmlGetUTF8Char_nat no_front intro!: decodes_as_fail)
  qed
qed

lemma decodes_long:
  assumes "len = Suc (Suc l)" "l \<le> length r" "224 \<le> unat u0" "unat u0 < 248" "unat u1 div 64 = 2"
  shows "decodes_as (u0 # u1 # take l r) (xmlGetUTF8Char (Ptr (u0 # u1 # r)) (Ptr (int len)))"
proof (cases l)
  case 0
  with assms show ?thesis by (auto simp: xmlGetUTF8Char_nat no_front intro!: decodes_as_fail)
next
  case (Suc l2)
  with assms obtain u2 r2 where r: "r = u2 # r2" by (cases r) auto
  consider "unat u2 div 64 \<noteq> 2" | "unat u2 div 64 = 2" "unat u0 < 240" | "unat u2 div 64 = 2" "240 \<le> unat u0"
    by linarith
  then show ?thesis
  proof cases
    case 1 then show ?thesis
      using assms r Suc by (auto simp: xmlGetUTF8Char_nat no_front intro!: decodes_as_fail)
  next
    case 2 then show ?thesis using assms r Suc decodes3 [of u0 len u1 u2 "take l2 r2"] by simp
  next
    case 3 then show ?thesis using assms r Suc decodes_long4 [of len l2 r2 u0 u1 u2] by simp
  qed
qed

lemma decodes_as_get:
  assumes "len \<le> length (u0 # r)" "unat u0 < 248"
  shows "decodes_as (take len (u0 # r)) (xmlGetUTF8Char (Ptr (u0 # r)) (Ptr (int len)))"
proof (cases "len = 0 \<or> unat u0 < 128")
  case True
  have "scalar (unat u0)" using assms(2) by (simp add: scalar_def)
  then have "decodes_as (u0 # x) (Some (int (unat u0), Ptr (int 1)))" if "unat u0 < 128" for x
    using that by (intro decodes_as_char) (auto simp: no_front length_utf8_codes)
  with True assms show ?thesis
    by (cases len) (auto simp: xmlGetUTF8Char_nat intro!: decodes_as_fail)
next
  case False
  then obtain l1 where l1: "len = Suc l1" "128 \<le> unat u0" by (cases len) auto
  show ?thesis
  proof (cases l1)
    case 0
    then show ?thesis using l1 by (auto simp: xmlGetUTF8Char_nat no_front intro!: decodes_as_fail)
  next
    case (Suc l)
    with assms l1 obtain u1 r1 where r: "r = u1 # r1" by (cases r) auto
    consider "unat u1 div 64 \<noteq> 2" | "unat u1 div 64 = 2" "unat u0 < 224" | "unat u1 div 64 = 2" "224 \<le> unat u0"
      by linarith
    then show ?thesis
    proof cases
      case 1 then show ?thesis
        using l1 r Suc by (auto simp: xmlGetUTF8Char_nat no_front intro!: decodes_as_fail)
    next
      case 2 then show ?thesis using l1 r Suc decodes2 [of u0 len u1 "take l r1"] by simp
    next
      case 3 then show ?thesis using assms l1 r Suc decodes_long [of len l r1 u0 u1] by simp
    qed
  qed
qed

text \<open>
  C39. \<open>xmlGetUTF8Char\<close>, given a pointer to at least \<open>len\<close> readable bytes whose first byte
  is below 0xF8, is the UTF-8 decoder: if the encoding of a Unicode scalar value stands at
  the front of those \<open>len\<close> bytes it returns that value and the length of its encoding, and in
  every other case (truncation, overlong forms, surrogates, values past 0x10FFFF, stray
  continuation bytes) it returns -1 with the length zero.  It reads no byte past \<open>len\<close>.
\<close>

theorem xmlGetUTF8Char_correct:
  assumes "len \<le> length (u0 # r)" "u0 < 0xF8"
  shows "(\<forall>c. utf8_front (take len (u0 # r)) c \<longrightarrow>
           xmlGetUTF8Char (Ptr (u0 # r)) (Ptr (int len)) = Some (int c, Ptr (int (length (utf8_enc c))))) \<and>
         ((\<forall>c. \<not> utf8_front (take len (u0 # r)) c) \<longrightarrow>
           xmlGetUTF8Char (Ptr (u0 # r)) (Ptr (int len)) = Some (- 1, Ptr 0))"
  using decodes_as_get [OF assms(1)] assms(2) by (simp add: decodes_as_def word_less_nat_alt)

theorem xmlGetUTF8Char_correct_witness:
  "xmlGetUTF8Char (Ptr [0xE2, 0x82, 0xAC, 0]) (Ptr 3) = Some (0x20AC, Ptr 3)"
proof -
  have "utf8_front (take 3 [0xE2, 0x82, 0xAC, 0]) 0x20AC"
    by (simp add: utf8_front_def scalar_def utf8_enc_def utf8_codes_def)
  then show ?thesis using xmlGetUTF8Char_correct [of 3 "0xE2" "[0x82, 0xAC, 0]"]
    by (auto simp: length_utf8_enc length_utf8_codes)
qed

text \<open>
  The lead bytes 0xF8 to 0xFF, which never occur in UTF-8, are not rejected by
  \<open>xmlGetUTF8Char\<close>: bit 3 is masked away, so such a byte is read as the lead byte eight
  lower, and for instance F8 90 80 80 is accepted as U+10000.
\<close>

theorem xmlGetUTF8Char_lead:
  assumes "0xF8 \<le> u0" 
  shows "xmlGetUTF8Char (Ptr (u0 # r)) len = xmlGetUTF8Char (Ptr ((u0 - 8) # r)) len"
proof -
  have u: "248 \<le> unat u0" using assms by (simp add: word_le_nat_alt)
  then have "unat (u0 - 8) = unat u0 - 8" by (simp add: unat_sub word_le_nat_alt)
  moreover from u have "(unat u0 - 8) mod 8 = unat u0 mod 8"
    using mod_add_self2 [of "unat u0 - 8" 8] by simp
  moreover have "\<not> unat u0 < 128" "\<not> unat u0 < 224" "\<not> unat u0 < 240"
    "\<not> unat u0 - 8 < 128" "\<not> unat u0 - 8 < 224" "\<not> unat u0 - 8 < 240"
    using u by linarith+
  ultimately show ?thesis
    by (cases len) (simp_all add: xmlGetUTF8Char_nat xmlGetUTF8Char_def [of _ NULL] cong: if_cong)
qed

theorem xmlGetUTF8Char_lead_witness:
  "xmlGetUTF8Char (Ptr [0xF8, 0x90, 0x80, 0x80]) (Ptr 4) = Some (0x10000, Ptr 4)"
  using xmlGetUTF8Char_lead [of "0xF8" "[0x90, 0x80, 0x80]" "Ptr 4"]
  by (simp add: xmlGetUTF8Char_nat)

section \<open>Encoding\<close>

lemma unat_or_const:
  fixes x :: uint
  shows "unat x < 64 \<Longrightarrow> unat (x OR 0x80) = 128 + unat x" "unat x < 64 \<Longrightarrow> unat (x OR 0xC0) = 192 + unat x"
    "unat x < 32 \<Longrightarrow> unat (x OR 0xE0) = 224 + unat x" "unat x < 16 \<Longrightarrow> unat (x OR 0xF0) = 240 + unat x"
  using nat_or_disjoint [of "unat x" 6 2] nat_or_disjoint [of "unat x" 6 3]
    nat_or_disjoint [of "unat x" 5 7] nat_or_disjoint [of "unat x" 4 15]
  by (simp_all add: unat_or push_bit_eq_mult or.commute)

lemma byte_eqI: "unat (x :: uint) = n \<Longrightarrow> ucast x = (word_of_nat n :: byte)"
  by (simp add: word_unat_eq_iff unat_ucast_uint_byte unat_of_nat)

lemma tail_byte: "ucast (drop_bit j (x :: uint) AND 0x3F OR 0x80) = (word_of_nat (128 + unat x div 2 ^ j mod 64) :: byte)"
  by (rule byte_eqI) (simp add: word_take_and unat_or_const unat_take_bit unat_drop_bit)

lemma copy_char_bytes_enc:
  assumes "unat c < 0x110000" shows "copy_char_bytes c = utf8_enc (unat c)"
proof -
  have h: "unat c < 0x800 \<Longrightarrow> unat c div 64 < 32" 
    "unat c < 0x10000 \<Longrightarrow> unat c div 64 div 64 < 16" "unat c div 64 div 64 div 64 < 8"
    using assms horner2 [of "unat c"] horner3 [of "unat c"] horner4 [of "unat c"] by linarith+
  have "unat c div 4096 = unat c div 64 div 64" "unat c div 262144 = unat c div 64 div 64 div 64"
    by (simp_all add: div_mult2_eq [symmetric])
  then have l: "unat c < 0x800 \<Longrightarrow> ucast (drop_bit 6 c OR 0xC0) = (word_of_nat (192 + unat c div 64) :: byte)"
    "unat c < 0x10000 \<Longrightarrow> ucast (drop_bit 12 c OR 0xE0) = (word_of_nat (224 + unat c div 64 div 64) :: byte)"
    "ucast (drop_bit 18 c OR 0xF0) = (word_of_nat (240 + unat c div 64 div 64 div 64) :: byte)"
    using h by (intro byte_eqI; simp add: unat_or_const unat_drop_bit)+
  note t0 = tail_byte [of 0 c, simplified]
  have t: "copy_tail c 0 = [word_of_nat (128 + unat c mod 64)]"
    "copy_tail c 6 = [word_of_nat (128 + unat c div 64 mod 64), word_of_nat (128 + unat c mod 64)]"
    "copy_tail c 12 = [word_of_nat (128 + unat c div 64 div 64 mod 64), word_of_nat (128 + unat c div 64 mod 64), word_of_nat (128 + unat c mod 64)]"
    by (simp_all add: copy_tail.simps [of c 0] copy_tail.simps [of c 6] copy_tail.simps [of c 12] tail_byte t0 div_mult2_eq [symmetric])
  have w: "0x80 \<le> c \<longleftrightarrow> \<not> unat c < 128" "c < 0x800 \<longleftrightarrow> unat c < 2048" "c < 0x10000 \<longleftrightarrow> unat c < 65536"
    "c < 0x110000 \<longleftrightarrow> True" using assms by (auto simp: word_less_nat_alt word_le_nat_alt)
  note d = copy_char_bytes_def utf8_enc_def utf8_codes_def w list.map if_True if_False not_True_eq_False not_False_eq_True
  consider "unat c < 128" | "\<not> unat c < 128" "unat c < 2048" | "\<not> unat c < 128" "\<not> unat c < 2048" "unat c < 65536"
    | "\<not> unat c < 128" "\<not> unat c < 2048" "\<not> unat c < 65536" by blast
  then show ?thesis
  proof cases
    case 1 then show ?thesis by (simp only: d byte_eqI)
  next
    case 2 then show ?thesis by (simp only: d l t)
  next
    case 3 then show ?thesis by (simp only: d l t)
  next
    case 4 then show ?thesis by (simp only: d l t)
  qed
qed

lemma utf8_enc_cases:
  assumes "scalar c"
  obtains (e1) u0 where "utf8_enc c = [u0]" "unat u0 < 128" "c = unat u0"
  | (e2) u0 u1 where "utf8_enc c = [u0, u1]" "194 \<le> unat u0" "unat u0 < 224" "unat u1 div 64 = 2"
  | (e3) u0 u1 u2 where "utf8_enc c = [u0, u1, u2]" "224 \<le> unat u0" "unat u0 < 240" "unat u1 div 64 = 2"
      "unat u2 div 64 = 2"
  | (e4) u0 u1 u2 u3 where "utf8_enc c = [u0, u1, u2, u3]" "240 \<le> unat u0" "unat u0 < 248"
      "unat u1 div 64 = 2" "unat u2 div 64 = 2" "unat u3 div 64 = 2"
proof -
  have m: "utf8_codes c = map unat (utf8_enc c)" using map_unat_enc scalar_less assms by metis
  then show ?thesis
  proof (cases c rule: utf8_codes_cases)
    case c1 with m scalar_codes_iff(1) [OF assms] show ?thesis by (auto simp: map_eq_Cons_conv intro: e1)
  next
    case (c2 a b)
    with m obtain u0 u1 where "utf8_enc c = [u0, u1]" "a = unat u0" "b = unat u1" by (auto simp: map_eq_Cons_conv)
    with c2 scalar_codes_iff(2) [OF assms, of a b] show ?thesis by (intro e2) auto
  next
    case (c3 a b d)
    with m obtain u0 u1 u2 where "utf8_enc c = [u0, u1, u2]" "a = unat u0" "b = unat u1" "d = unat u2"
      by (auto simp: map_eq_Cons_conv)
    with c3 scalar_codes_iff(3) [OF assms, of a b d] show ?thesis by (intro e3) auto
  next
    case (c4 a b d e)
    with m obtain u0 u1 u2 u3 where "utf8_enc c = [u0, u1, u2, u3]"
      "a = unat u0" "b = unat u1" "d = unat u2" "e = unat u3" by (auto simp: map_eq_Cons_conv)
    with c4 scalar_codes_iff(4) [OF assms, of a b d e] show ?thesis by (intro e4) auto
  qed
qed

lemma get_enc:
  assumes "scalar c"
  shows "xmlGetUTF8Char (Ptr (utf8_enc c @ r)) (Ptr (int (length (utf8_enc c @ r)))) = Some (int c, Ptr (int (length (utf8_enc c))))"
proof -
  obtain u0 t where u: "utf8_enc c = u0 # t" "unat u0 < 248" by (rule utf8_enc_cases [OF assms]) auto
  have "utf8_front (utf8_enc c @ r) c" using assms by (simp add: utf8_front_def)
  then show ?thesis
    using decodes_as_get [of "length (utf8_enc c @ r)" u0 "t @ r"] u by (simp add: decodes_as_def)
qed

text \<open>
  Round trip of \<open>xmlCopyChar\<close> and \<open>xmlGetUTF8Char\<close>: for every Unicode scalar value
  and an output buffer of at least four bytes, \<open>xmlCopyChar\<close> writes exactly the UTF-8
  encoding at the front of the buffer, leaves the rest alone, returns its length, and the
  decoder applied to the buffer gives back the value and that length.
\<close>

theorem xmlCopyChar_roundtrip:
  assumes "scalar c" "4 \<le> length out"
  shows "\<exists>n out'. xmlCopyChar 0 (Ptr out) (int c) = Some (n, Ptr out') \<and> n = length (utf8_enc c) \<and>
    out' = utf8_enc c @ drop n out \<and> xmlGetUTF8Char (Ptr out') (Ptr (int (length out'))) = Some (int c, Ptr (int n))"
proof -
  have c: "unat (word_of_nat c :: uint) = c" "c < 0x110000" using scalar_less [OF assms(1)] by (simp_all add: unat_of_nat)
  then have e: "copy_char_bytes (word_of_nat c) = utf8_enc c" using copy_char_bytes_enc [of "word_of_nat c"] by simp
  have n: "length (utf8_enc c) \<le> length out" using assms(2) by (auto simp: length_utf8_enc length_utf8_codes)
  have "xmlCopyChar 0 (Ptr out) (int c) = Some (length (utf8_enc c), Ptr (utf8_enc c @ drop (length (utf8_enc c)) out))"
  proof (cases "c < 0x80")
    case True
    then have "utf8_enc c = [word_of_nat c]" by (simp add: utf8_enc_def utf8_codes_def)
    with True assms(2) show ?thesis by (cases out) (simp_all add: xmlCopyChar_def wr_def)
  next
    case False
    with e n show ?thesis by (simp add: xmlCopyChar_def xmlCopyCharMultiByte_def copy_out_def Let_def)
  qed
  then show ?thesis using get_enc [OF assms(1)] by blast
qed

theorem xmlCopyChar_roundtrip_witness:
  "\<exists>out'. xmlCopyChar 0 (Ptr [9, 9, 9, 9, 9]) 0x20AC = Some (3, Ptr out') \<and>
     xmlGetUTF8Char (Ptr out') (Ptr (int (length out'))) = Some (0x20AC, Ptr 3)"
  using xmlCopyChar_roundtrip [of "0x20AC" "[9, 9, 9, 9, 9]"]
  by (auto simp: scalar_def length_utf8_enc length_utf8_codes)

section \<open>Whole strings\<close>

lemma byte_mask_iffs:
  fixes b :: byte
  shows "b AND 0x80 = 0 \<longleftrightarrow> unat b < 128" "b AND 0xe0 = 0xe0 \<longleftrightarrow> 224 \<le> unat b" "b AND 0xf0 = 0xf0 \<longleftrightarrow> 240 \<le> unat b"
    "b AND 0xf8 = 0xf0 \<longleftrightarrow> 240 \<le> unat b \<and> unat b < 248" "b AND 0xe0 = 0xc0 \<longleftrightarrow> 192 \<le> unat b \<and> unat b < 224"
    "b AND 0xf0 = 0xe0 \<longleftrightarrow> 224 \<le> unat b \<and> unat b < 240" "b AND 0xc0 = 0xc0 \<longleftrightarrow> 192 \<le> unat b"
  using unat_byte_less [of b] by (simp_all add: word_unat_eq_iff byte_masks; linarith)+

declare utf8_strlen_loop.simps [simp del] check_utf8_loop.simps [simp del]

lemma utf8_step:
  assumes "scalar c" "c \<noteq> 0"
  shows "utf8_strlen_loop (utf8_enc c @ s) n = utf8_strlen_loop s (Suc n)"
    and "check_utf8_loop (utf8_enc c @ s) = check_utf8_loop s"
proof -
  have z: "unat b \<noteq> 0 \<Longrightarrow> b \<noteq> 0" for b :: byte by auto
  show "utf8_strlen_loop (utf8_enc c @ s) n = utf8_strlen_loop s (Suc n)"
    by (rule utf8_enc_cases [OF assms(1)])
      (use assms(2) z in \<open>simp_all add: utf8_strlen_loop.simps(2) byte_mask_iffs cont_iff\<close>)
  show "check_utf8_loop (utf8_enc c @ s) = check_utf8_loop s"
    by (rule utf8_enc_cases [OF assms(1)])
      (use assms(2) z in \<open>simp_all add: check_utf8_loop.simps(2) byte_mask_iffs cont_iff\<close>)
qed

definition utf8_string :: "nat list \<Rightarrow> bytes" where
  "utf8_string cs = concat (map utf8_enc cs) @ [0]"

text \<open>
  On the null-terminated UTF-8 text of a list of non-zero scalar values,
  \<open>xmlUTF8Strlen\<close> is the number of characters and \<open>xmlCheckUTF8\<close> accepts, whatever
  follows the terminator.
\<close>

theorem utf8_string_measured:
  assumes "\<forall>c \<in> set cs. scalar c \<and> c \<noteq> 0" "length cs \<le> INT_MAX_nat"
  shows "xmlUTF8Strlen (Ptr (utf8_string cs @ r)) = Some (int (length cs)) \<and> xmlCheckUTF8 (Ptr (utf8_string cs @ r)) = Some True"
proof -
  have "utf8_strlen_loop (utf8_string cs @ r) n = Some (if n + length cs > INT_MAX_nat then 0 else int (n + length cs))" for n
    using assms(1) by (induction cs arbitrary: n)
      (simp_all add: utf8_string_def utf8_step utf8_strlen_loop.simps(2))
  moreover have "check_utf8_loop (utf8_string cs @ r) = Some True"
    using assms(1) by (induction cs) (simp_all add: utf8_string_def utf8_step check_utf8_loop.simps(2))
  ultimately show ?thesis using assms(2) by (simp add: xmlUTF8Strlen_def xmlCheckUTF8_def)
qed

theorem utf8_string_measured_witness:
  "xmlUTF8Strlen (Ptr (utf8_string [0x41, 0xE9, 0x20AC, 0x1F600] @ [])) = Some 4 \<and>
   xmlCheckUTF8 (Ptr (utf8_string [0x41, 0xE9, 0x20AC, 0x1F600] @ [])) = Some True"
  using utf8_string_measured [of "[0x41, 0xE9, 0x20AC, 0x1F600]" "[]"]
  by (simp add: scalar_def)

text \<open>No scan passes the terminator: a byte that passes for a continuation byte is not zero.\<close>

lemma cont_before_nul:
  fixes r :: bytes
  assumes "0 \<in> set r"
  shows "\<exists>u r'. r = u # r' \<and> (u AND 0xc0 = 0x80 \<longrightarrow> 0 \<in> set r')"
proof -
  have "(0 :: byte) AND 0xc0 \<noteq> 0x80" by simp
  then show ?thesis using assms by (cases r) auto
qed

lemma cstring_cont:
  assumes "cstring r"
  obtains u r' where "r = u # r'" "u AND 0xc0 \<noteq> 0x80" | u r' where "r = u # r'" "u AND 0xc0 = 0x80" "cstring r'"
  using cont_before_nul [of r] assms by (auto simp: cstring_def)

lemma utf8_scans_safe: "cstring s \<Longrightarrow> check_utf8_loop s \<noteq> None \<and> utf8_strlen_loop s n \<noteq> None"
proof (induction "length s" arbitrary: s n rule: less_induct)
  case less
  then obtain c r where s: "s = c # r" by (cases s) auto
  have IH: "check_utf8_loop t \<noteq> None" "utf8_strlen_loop t m \<noteq> None" if "length t \<le> length r" "cstring t" for t m
    using less(1) [of t m] s that by auto
  note unf = s check_utf8_loop.simps(2) [of c] utf8_strlen_loop.simps(2) [of c]
  show ?case
  proof (cases "c = 0")
    case True then show ?thesis by (simp add: s check_utf8_loop.simps(2) utf8_strlen_loop.simps(2))
  next
    case False
    with less(2) s have r: "cstring r" by simp
    then show ?thesis
    proof (cases rule: cstring_cont)
      case (1 u1 r1) with False IH [OF order_refl r] show ?thesis by (simp add: unf del: not_None_eq)
    next
      case u1: (2 u1 r1)
      from this(3) show ?thesis
      proof (cases rule: cstring_cont)
        case (1 u2 r2)
        with False u1 IH [OF order_refl r] IH [OF _ u1(3)] show ?thesis by (simp add: unf del: not_None_eq)
      next
        case u2: (2 u2 r2)
        from this(3) show ?thesis
          by (cases rule: cstring_cont)
            (use False u1 u2 IH [OF order_refl r] IH [OF _ u1(3)] IH [OF _ u2(3)] IH in \<open>simp_all add: unf del: not_None_eq\<close>)
      qed
    qed
  qed
qed

text \<open>
  C40. Memory safety of the two scanning loops on arbitrary, also malformed, input: on any
  buffer that holds a zero byte, \<open>xmlCheckUTF8\<close> and \<open>xmlUTF8Strlen\<close> return without
  reading past the accessible bytes.
\<close>

theorem utf8_scans_stop:
  assumes "cstring s"
  shows "xmlCheckUTF8 (Ptr s) \<noteq> None \<and> xmlUTF8Strlen (Ptr s) \<noteq> None"
  using utf8_scans_safe [OF assms, of 0]
  by (simp add: xmlCheckUTF8_def xmlUTF8Strlen_def)

theorem utf8_scans_stop_witness:
  "xmlCheckUTF8 (Ptr [0xE2, 0x82, 0]) \<noteq> None \<and> xmlUTF8Strlen (Ptr [0xE2, 0x82, 0]) \<noteq> None"
  using utf8_scans_stop [of "[0xE2, 0x82, 0]"] by simp

end
