(* ===== verification/RobinHood.thy ===== *)
theory RobinHood
  imports Words "HOL-Library.Multiset"
begin

text \<open>
  Open addressing with linear probing and Robin Hood reordering: the table machinery that
  \<open>hash.c\<close> and \<open>dict.c\<close> share line by line.  An entry type comes with its field
  \<open>hashValue\<close>, here the parameter \<open>hv\<close> (zero in an unoccupied slot); an entry pointer is an
  index into the table, and every access is checked.  The probing loops take fuel; the lemmas
  show that the fuel the callers pass is enough.
\<close>

section \<open>The table operations\<close>

definition memmove :: "'e list \<Rightarrow> nat \<Rightarrow> nat \<Rightarrow> nat \<Rightarrow> 'e list option" where
  "memmove t d s n =
     (if d + n \<le> length t \<and> s + n \<le> length t
      then Some (take d t @ take n (drop s t) @ drop (d + n) t) else None)"

text \<open>
  The probing loop of \<open>xmlHashFindEntry\<close>: the entry under consideration is compared first;
  the search goes on while the next slot is occupied by an entry that is displaced at least as
  far as the key looked for.
\<close>

fun rh_find ::
  "('e \<Rightarrow> uint) \<Rightarrow> ('e \<Rightarrow> bool option) \<Rightarrow> 'e list \<Rightarrow> uint \<Rightarrow> nat \<Rightarrow> nat \<Rightarrow> uint \<Rightarrow> uint \<Rightarrow>
   (nat \<times> bool) option" where
  "rh_find hv match t msk 0 entry pos displ = None"
| "rh_find hv match t msk (Suc fuel) entry pos displ = do {
     x \<leftarrow> rd t entry;
     found \<leftarrow> match x;
     if found then Some (entry, True)
     else do {
       let displ' = displ + 1;
       let pos' = pos + 1;
       let entry' = (if pos' AND msk = 0 then 0 else entry + 1);
       y \<leftarrow> rd t entry';
       if hv y \<noteq> 0 \<and> (pos' - hv y) AND msk \<ge> displ'
       then rh_find hv match t msk fuel entry' pos' displ'
       else Some (entry', False) } }"

text \<open>The search from the home position of a hash value.\<close>

definition rh_lookup ::
  "('e \<Rightarrow> uint) \<Rightarrow> ('e \<Rightarrow> bool option) \<Rightarrow> 'e list \<Rightarrow> uint \<Rightarrow> uint \<Rightarrow> (nat \<times> bool) option" where
  "rh_lookup hv match t size' hashValue' = do {
     let msk = size' - 1;
     let pos = hashValue' AND msk;
     x \<leftarrow> rd t (unat pos);
     if hv x \<noteq> 0 then rh_find hv match t msk (Suc (unat size')) (unat pos) pos 0
     else Some (unat pos, False) }"

text \<open>\<open>do { cur++; if (cur >= end) cur = table; } while (cur->hashValue != 0);\<close>\<close>

fun rh_next_free :: "('e \<Rightarrow> uint) \<Rightarrow> 'e list \<Rightarrow> nat \<Rightarrow> nat \<Rightarrow> nat \<Rightarrow> nat option" where
  "rh_next_free hv t sz 0 cur = None"
| "rh_next_free hv t sz (Suc fuel) cur = do {
     let cur' = (if cur + 1 \<ge> sz then 0 else cur + 1);
     x \<leftarrow> rd t cur';
     if hv x \<noteq> 0 then rh_next_free hv t sz fuel cur' else Some cur' }"

text \<open>Making room at \<open>entry\<close>: shift the rest of the probe sequence to the right.\<close>

definition rh_shift_right :: "('e \<Rightarrow> uint) \<Rightarrow> 'e list \<Rightarrow> nat \<Rightarrow> nat \<Rightarrow> 'e list option" where
  "rh_shift_right hv t sz entry = do {
     x \<leftarrow> rd t entry;
     if hv x \<noteq> 0 then do {
       cur \<leftarrow> rh_next_free hv t sz sz entry;
       if cur < entry then do {
         t1 \<leftarrow> memmove t 1 0 cur;
         let cur' = sz - 1;
         y \<leftarrow> rd t1 cur';
         t2 \<leftarrow> wr t1 0 y;
         memmove t2 (entry + 1) entry (cur' - entry) }
       else memmove t (entry + 1) entry (cur - entry) }
     else Some t }"

text \<open>The end of the run that starts at \<open>entry\<close>: the next slot is free or starts a new run.\<close>

fun rh_run_end :: "('e \<Rightarrow> uint) \<Rightarrow> 'e list \<Rightarrow> uint \<Rightarrow> nat \<Rightarrow> nat \<Rightarrow> uint \<Rightarrow> nat option" where
  "rh_run_end hv t msk 0 cur pos = None"
| "rh_run_end hv t msk (Suc fuel) cur pos = do {
     let nextpos = pos + 1;
     let next = (if nextpos AND msk = 0 then 0 else cur + 1);
     x \<leftarrow> rd t next;
     if hv x = 0 \<or> (hv x - nextpos) AND msk = 0 then Some cur
     else rh_run_end hv t msk fuel next nextpos }"

text \<open>Closing the gap at \<open>entry\<close>: backward shift of the run; \<open>clear\<close> zeroes \<open>hashValue\<close>.\<close>

definition rh_remove ::
  "('e \<Rightarrow> uint) \<Rightarrow> ('e \<Rightarrow> 'e) \<Rightarrow> 'e list \<Rightarrow> uint \<Rightarrow> nat \<Rightarrow> 'e list option" where
  "rh_remove hv clear t size' entry = do {
     let sz = unat size';
     cur \<leftarrow> rh_run_end hv t (size' - 1) sz entry (word_of_nat entry);
     t' \<leftarrow> (if cur < entry then do {
              t1 \<leftarrow> memmove t entry (entry + 1) (sz - (entry + 1));
              y \<leftarrow> rd t1 0;
              t2 \<leftarrow> wr t1 (sz - 1) y;
              memmove t2 0 1 cur }
            else memmove t entry (entry + 1) (cur - entry));
     z \<leftarrow> rd t' cur;
     wr t' cur (clear z) }"

text \<open>\<open>while (e->hashValue != 0) { if (++e >= end) e = table; }\<close>\<close>

fun rh_first_free :: "('e \<Rightarrow> uint) \<Rightarrow> 'e list \<Rightarrow> nat \<Rightarrow> nat \<Rightarrow> nat \<Rightarrow> nat option" where
  "rh_first_free hv t sz 0 e = None"
| "rh_first_free hv t sz (Suc fuel) e = do {
     x \<leftarrow> rd t e;
     if hv x \<noteq> 0 then rh_first_free hv t sz fuel (if e + 1 \<ge> sz then 0 else e + 1)
     else Some e }"

text \<open>The copying loop of \<open>xmlHashGrow\<close>, with \<open>n\<close> slots of the old table left.\<close>

fun rh_copy ::
  "('e \<Rightarrow> uint) \<Rightarrow> 'e list \<Rightarrow> nat \<Rightarrow> uint \<Rightarrow> nat \<Rightarrow> nat \<Rightarrow> 'e list \<Rightarrow> 'e list option" where
  "rh_copy hv old oldsize size' 0 oldentry tab = Some tab"
| "rh_copy hv old oldsize size' (Suc n) oldentry tab = do {
     x \<leftarrow> rd old oldentry;
     tab' \<leftarrow> (if hv x \<noteq> 0 then do {
                i \<leftarrow> rh_first_free hv tab (unat size') (Suc (unat size'))
                       (unat (hv x AND (size' - 1)));
                wr tab i x }
              else Some tab);
     rh_copy hv old oldsize size' n (if oldentry + 1 \<ge> oldsize then 0 else oldentry + 1) tab' }"

definition rh_grow :: "('e \<Rightarrow> uint) \<Rightarrow> 'e \<Rightarrow> 'e list \<Rightarrow> nat \<Rightarrow> uint \<Rightarrow> 'e list option" where
  "rh_grow hv blank old oldsize size' =
     (let tab = replicate (unat size') blank
      in if oldsize = 0 then Some tab
         else do {
           oldentry \<leftarrow> rh_first_free hv old oldsize (Suc oldsize) 0;
           rh_copy hv old oldsize size' oldsize oldentry tab })"

section \<open>Displacements\<close>

definition disp :: "nat \<Rightarrow> nat \<Rightarrow> nat \<Rightarrow> nat" where
  "disp n x h = (x + (n - h mod n)) mod n"

lemma disp_less [simp]: "0 < n \<Longrightarrow> disp n x h < n"
  by (simp add: disp_def)

lemma disp_int: "0 < n \<Longrightarrow> int (disp n x h) = (int x - int h) mod int n"
proof -
  assume n: "0 < n"
  have "int (n - h mod n) = int n - int h mod int n" using n by (simp add: of_nat_diff zmod_int)
  then have "int (disp n x h) = (int x - int h mod int n + int n) mod int n"
    by (simp only: disp_def zmod_int of_nat_add) (simp only: diff_add_eq add_diff_eq add.commute)
  also have "\<dots> = (int x - int h) mod int n" by (simp add: mod_diff_right_eq)
  finally show ?thesis .
qed

lemma disp_eqI: "d < n \<Longrightarrow> (h + d) mod n = x mod n \<Longrightarrow> disp n x h = d"
proof -
  assume d: "d < n" "(h + d) mod n = x mod n"
  then have "(int h + int d) mod int n = int x mod int n" by (metis of_nat_add zmod_int)
  then have "(int x - int h) mod int n = (int h + int d - int h) mod int n"
    by (metis mod_diff_left_eq)
  also have "\<dots> = int d" using d by simp
  finally show ?thesis using d disp_int [of n x h] by simp
qed

lemma disp_add: "0 < n \<Longrightarrow> (h + disp n x h) mod n = x mod n"
proof -
  assume n: "0 < n"
  have "int ((h + disp n x h) mod n) = (int h + (int x - int h) mod int n) mod int n"
    using n by (simp add: zmod_int disp_int)
  also have "\<dots> = int (x mod n)" by (simp add: mod_add_right_eq zmod_int)
  finally show ?thesis by simp
qed

lemma disp_home [simp]: "j < n \<Longrightarrow> disp n (h + j) h = j"
  by (rule disp_eqI) auto

lemma disp_cong: "x mod n = y mod n \<Longrightarrow> g mod n = h mod n \<Longrightarrow> disp n x g = disp n y h"
proof (cases "n = 0")
  case False
  assume "x mod n = y mod n" "g mod n = h mod n"
  then have "(int x - int g) mod int n = (int y - int h) mod int n"
    by (intro mod_diff_cong) (metis zmod_int)+
  with False disp_int [of n x g] disp_int [of n y h] show ?thesis by simp
qed (simp add: disp_def)

lemma disp_Suc: "0 < n \<Longrightarrow> disp n (Suc x) h = (if Suc (disp n x h) = n then 0 else Suc (disp n x h))"
proof -
  assume n: "0 < n"
  have "(h + Suc (disp n x h)) mod n = Suc x mod n"
    using disp_add [OF n, of h x] by (metis add_Suc_right mod_Suc_eq)
  then show ?thesis
  proof (cases "Suc (disp n x h) = n")
    case True
    with \<open>(h + Suc _) mod n = _\<close> n show ?thesis by (auto intro!: disp_eqI)
  next
    case False
    with \<open>(h + Suc _) mod n = _\<close> n disp_less [OF n, of x h] show ?thesis by (auto intro!: disp_eqI)
  qed
qed

text \<open>The machine computation of a displacement.\<close>

lemma unat_and_mask: "unat (w AND (2 ^ k - 1 :: uint)) = unat w mod 2 ^ k"
proof -
  have "w AND (2 ^ k - 1) = take_bit k w" by (simp add: take_bit_eq_mask mask_eq_exp_minus_1)
  then show ?thesis by (simp only: unat_take_bit)
qed

lemma unat_disp:
  assumes "k \<le> 31"
  shows "unat ((p - v) AND (2 ^ k - 1 :: uint)) = disp (2 ^ k) (unat p) (unat v)"
proof -
  have d: "(2::int) ^ k dvd 2 ^ 32" using assms by (intro le_imp_power_dvd) simp
  have "int (unat ((p - v) AND (2 ^ k - 1))) = uint (p - v) mod 2 ^ k"
    by (simp only: unat_and_mask) (simp add: zmod_int)
  also have "\<dots> = (uint p - uint v) mod 2 ^ 32 mod 2 ^ k" by (simp add: uint_word_ariths)
  also have "\<dots> = (uint p - uint v) mod 2 ^ k" using d by (rule mod_mod_cancel)
  also have "\<dots> = int (disp (2 ^ k) (unat p) (unat v))" using disp_int [of "2 ^ k" "unat p" "unat v"] by simp
  finally show ?thesis by (simp only: of_nat_eq_iff)
qed

section \<open>The Robin Hood order\<close>

text \<open>
  Positions are unwrapped: \<open>x\<close> stands for the slot \<open>x mod n\<close>.  The rank of a slot is zero
  when it is free and one more than the displacement of its entry otherwise.
\<close>

definition slot :: "'e list \<Rightarrow> nat \<Rightarrow> 'e" where
  "slot t x = t ! (x mod length t)"

definition rank :: "('e \<Rightarrow> uint) \<Rightarrow> 'e list \<Rightarrow> nat \<Rightarrow> nat" where
  "rank hv t x = (if hv (slot t x) = 0 then 0 else Suc (disp (length t) x (unat (hv (slot t x)))))"

definition rh_sorted :: "('e \<Rightarrow> uint) \<Rightarrow> 'e list \<Rightarrow> bool" where
  "rh_sorted hv t \<longleftrightarrow> (\<forall>x. rank hv t (Suc x) \<le> Suc (rank hv t x))"

lemma slot_mod [simp]: "slot t (x mod length t) = slot t x"
  by (simp add: slot_def)

lemma slot_cong: "x mod length t = y mod length t \<Longrightarrow> slot t x = slot t y"
  by (simp add: slot_def)

lemma rank_cong: "x mod length t = y mod length t \<Longrightarrow> rank hv t x = rank hv t y"
  by (auto simp: rank_def slot_def intro: disp_cong)

lemma rank_le: "t \<noteq> [] \<Longrightarrow> rank hv t x \<le> length t"
  by (simp add: rank_def Suc_leI)

lemma rank_0_iff: "rank hv t x = 0 \<longleftrightarrow> hv (slot t x) = 0"
  by (simp add: rank_def)

lemma slot_in_set: "t \<noteq> [] \<Longrightarrow> slot t x \<in> set t"
  by (simp add: slot_def)

lemma in_set_slot: "e \<in> set t \<Longrightarrow> \<exists>x < length t. slot t x = e"
  by (auto simp: in_set_conv_nth slot_def)

lemma rank_step: "rh_sorted hv t \<Longrightarrow> rank hv t (x + k) \<le> rank hv t x + k"
proof (induction k)
  case (Suc k)
  then show ?case using le_trans [of "rank hv t (Suc (x + k))" "Suc (rank hv t (x + k))"]
    by (auto simp: rh_sorted_def)
qed simp

text \<open>On the way from its home to an entry, every slot outranks the displacement reached.\<close>

lemma rank_on_path:
  assumes "rh_sorted hv t" "x < length t" "hv (slot t x) \<noteq> 0"
    "h mod length t = unat (hv (slot t x)) mod length t" "j \<le> disp (length t) x h"
  shows "j < rank hv t (h + j)"
proof -
  let ?n = "length t" let ?d = "disp ?n x h"
  have n: "0 < ?n" using assms(2) by linarith
  have x: "(h + ?d) mod ?n = x mod ?n" by (rule disp_add [OF n])
  have "?d = disp ?n x (unat (hv (slot t x)))" by (rule disp_cong) (use assms(4) in auto)
  then have "rank hv t (h + ?d) = Suc ?d"
    using assms(3) rank_cong [OF x, of hv] by (simp add: rank_def)
  moreover have "rank hv t (h + j + (?d - j)) \<le> rank hv t (h + j) + (?d - j)"
    by (rule rank_step [OF assms(1)])
  ultimately show ?thesis using assms(5) by simp
qed

section \<open>Searching\<close>

text \<open>A table of the size of a power of two that fits the 31 bits of a hash value.\<close>

definition table_size :: "'e list \<Rightarrow> uint \<Rightarrow> bool" where
  "table_size t size' \<longleftrightarrow> (\<exists>k \<le> 31. size' = 2 ^ k) \<and> length t = unat size'"

lemma table_sizeE:
  assumes "table_size t size'"
  obtains k where "k \<le> 31" "size' = 2 ^ k" "length t = 2 ^ k" "unat size' = 2 ^ k"
proof -
  obtain k where k: "k \<le> 31" "size' = 2 ^ k" "length t = unat size'"
    using assms by (auto simp: table_size_def)
  have "(2::nat) ^ k < 2 ^ 32" using k(1) by (intro power_strict_increasing) auto
  then have "unat (2 ^ k :: uint) = 2 ^ k"
    using unat_of_nat [of "2 ^ k", where ?'a = 32] by simp
  with k that show ?thesis by simp
qed

lemma table_size_le: "table_size t size' \<Longrightarrow> 0 < length t \<and> length t \<le> 2147483648"
proof (elim table_sizeE)
  fix k :: nat
  assume "k \<le> 31" "length t = 2 ^ k"
  moreover from this have "(2::nat) ^ k \<le> 2 ^ 31" by (intro power_increasing) auto
  ultimately show "0 < length t \<and> length t \<le> 2147483648" by simp
qed

lemma size_mask:
  assumes "table_size t size'"
  shows "unat (w AND (size' - 1)) = unat w mod length t"
    and "unat ((p - v) AND (size' - 1)) = disp (length t) (unat p) (unat v)"
proof -
  from assms obtain k where k: "k \<le> 31" "size' = 2 ^ k" "length t = 2 ^ k" by (rule table_sizeE)
  show "unat (w AND (size' - 1)) = unat w mod length t" by (simp only: k unat_and_mask)
  show "unat ((p - v) AND (size' - 1)) = disp (length t) (unat p) (unat v)"
    by (simp only: k(2,3) unat_disp [OF k(1)])
qed

lemma next_slot:
  assumes "table_size t size'" "entry = unat pos mod length t" "unat pos + 1 < 2 ^ 32"
  shows "(if (pos + 1) AND (size' - 1) = 0 then 0 else entry + 1) = Suc (unat pos) mod length t"
proof -
  have "unat (pos + 1) = Suc (unat pos)"
    using assms(3) by (simp add: unat_add_lem [THEN iffD1])
  then have "(pos + 1) AND (size' - 1) = 0 \<longleftrightarrow> Suc (unat pos) mod length t = 0"
    using size_mask(1) [OF assms(1), of "pos + 1"] by (simp add: word_unat_eq_iff)
  then show ?thesis using assms(2) by (auto simp: mod_Suc)
qed

lemma rh_find_spec:
  assumes "table_size t size'" "h < length t"
    and m: "\<And>x. x \<in> set t \<Longrightarrow> hv x \<noteq> 0 \<Longrightarrow> match x = Some (M x)"
    and "unat pos = h + j" "entry = (h + j) mod length t" "unat displ = j" "j < rank hv t (h + j)"
    and "length t < fuel + j"
  shows "\<exists>j' \<ge> j. (\<forall>i. j \<le> i \<and> i < j' \<longrightarrow> i < rank hv t (h + i) \<and> \<not> M (slot t (h + i))) \<and>
    (rh_find hv match t (size' - 1) fuel entry pos displ = Some ((h + j') mod length t, True) \<and>
       j' < rank hv t (h + j') \<and> M (slot t (h + j')) \<or>
     rh_find hv match t (size' - 1) fuel entry pos displ = Some ((h + j') mod length t, False) \<and>
       rank hv t (h + j') \<le> j')"
  using assms(4-)
proof (induction fuel arbitrary: pos entry displ j)
  case 0
  have "t \<noteq> []" using assms(2) by auto
  with 0 rank_le [of t hv "h + j"] show ?case by simp
next
  case (Suc fuel)
  let ?n = "length t" and ?x = "slot t (h + j)" and ?y = "slot t (h + Suc j)"
  note ts = table_size_le [OF assms(1)]
  have t: "t \<noteq> []" using assms(2) by auto
  have jn: "j < ?n" using Suc.prems(4) rank_le [OF t, of hv "h + j"] by linarith
  have rd: "rd t ((h + i) mod ?n) = Some (slot t (h + i))" for i using t by (simp add: rd_def slot_def)
  have "hv ?x \<noteq> 0" using Suc.prems(4) by (auto simp: rank_def split: if_splits)
  then have mx: "match ?x = Some (M ?x)" using m slot_in_set [OF t] by blast
  have p1: "unat (pos + 1) = h + Suc j"
    using Suc.prems(1) assms(2) jn ts by (simp add: unat_add_lem [THEN iffD1])
  have d1: "unat (displ + 1) = Suc j"
    using Suc.prems(3) jn ts by (simp add: unat_add_lem [THEN iffD1])
  have e1: "(if (pos + 1) AND (size' - 1) = 0 then 0 else entry + 1) = (h + Suc j) mod ?n"
    using next_slot [OF assms(1), of entry pos] Suc.prems(1,2) assms(2) jn ts by simp
  have c: "hv ?y \<noteq> 0 \<and> (pos + 1 - hv ?y) AND (size' - 1) \<ge> displ + 1 \<longleftrightarrow> Suc j < rank hv t (h + Suc j)"
    by (simp add: word_le_nat_alt size_mask(2) [OF assms(1)] p1 d1 rank_def Suc_le_eq less_Suc_eq_le)
  have re: "rd t entry = Some ?x" using rd [of j] Suc.prems(2) by (simp only:)
  have unf: "rh_find hv match t (size' - 1) (Suc fuel) entry pos displ =
    (if M ?x then Some ((h + j) mod ?n, True)
     else if Suc j < rank hv t (h + Suc j)
       then rh_find hv match t (size' - 1) fuel ((h + Suc j) mod ?n) (pos + 1) (displ + 1)
     else Some ((h + Suc j) mod ?n, False))"
    by (simp only: rh_find.simps Let_def e1 rd re Option.bind.simps mx c) (simp only: Suc.prems(2))
  consider "M ?x" | "\<not> M ?x" "rank hv t (h + Suc j) \<le> Suc j" | "\<not> M ?x" "Suc j < rank hv t (h + Suc j)"
    by linarith
  then show ?case
  proof cases
    case 1 then show ?thesis using Suc.prems(4) unf by (intro exI [of _ j]) auto
  next
    case 2 then show ?thesis using Suc.prems(4) unf
      by (intro exI [of _ "Suc j"]) (auto simp: less_Suc_eq)
  next
    case 3
    have "?n < fuel + Suc j" using Suc.prems(5) by simp
    from Suc.IH [OF p1 refl d1 3(2) this] obtain j' where j': "Suc j \<le> j'"
      "\<forall>i. Suc j \<le> i \<and> i < j' \<longrightarrow> i < rank hv t (h + i) \<and> \<not> M (slot t (h + i))"
      "rh_find hv match t (size' - 1) fuel ((h + Suc j) mod ?n) (pos + 1) (displ + 1) = Some ((h + j') mod ?n, True) \<and>
       j' < rank hv t (h + j') \<and> M (slot t (h + j')) \<or>
       rh_find hv match t (size' - 1) fuel ((h + Suc j) mod ?n) (pos + 1) (displ + 1) = Some ((h + j') mod ?n, False) \<and>
       rank hv t (h + j') \<le> j'" by blast
    have "i < rank hv t (h + i) \<and> \<not> M (slot t (h + i))" if "j \<le> i" "i < j'" for i
      using that j'(2) Suc.prems(4) 3(1) by (cases "i = j") auto
    moreover have "rh_find hv match t (size' - 1) (Suc fuel) entry pos displ =
      rh_find hv match t (size' - 1) fuel ((h + Suc j) mod ?n) (pos + 1) (displ + 1)"
      using unf 3 by simp
    ultimately show ?thesis using j'(1,3) by (intro exI [of _ j']) (simp only:, auto)
  qed
qed

text \<open>
  Searching from home: it ends at a matching entry or at the first slot whose rank does not
  exceed the displacement reached, which is where a new entry belongs.
\<close>

definition insertion_point :: "('e \<Rightarrow> uint) \<Rightarrow> 'e list \<Rightarrow> nat \<Rightarrow> nat \<Rightarrow> bool" where
  "insertion_point hv t h j \<longleftrightarrow> (\<forall>i < j. i < rank hv t (h + i)) \<and> rank hv t (h + j) \<le> j"

lemma rh_lookup_spec:
  assumes ts: "table_size t size'"
    and m: "\<And>x. x \<in> set t \<Longrightarrow> hv x \<noteq> 0 \<Longrightarrow> match x = Some (M x)"
    and h: "h = unat v mod length t"
  shows "\<exists>j. (\<forall>i < j. \<not> M (slot t (h + i))) \<and>
    (rh_lookup hv match t size' v = Some ((h + j) mod length t, True) \<and>
       hv (slot t (h + j)) \<noteq> 0 \<and> M (slot t (h + j)) \<or>
     rh_lookup hv match t size' v = Some ((h + j) mod length t, False) \<and> insertion_point hv t h j)"
proof -
  let ?n = "length t"
  have n: "0 < ?n" using table_size_le [OF ts] by simp
  then have t: "t \<noteq> []" by auto
  have p: "unat (v AND (size' - 1)) = h" unfolding h by (rule size_mask(1) [OF ts])
  have hn: "h < ?n" using n by (simp add: h)
  have rd: "rd t h = Some (slot t h)" using hn by (simp add: rd_def slot_def)
  have sz: "unat size' = ?n" using ts by (simp add: table_size_def)
  show ?thesis
  proof (cases "hv (slot t h) = 0")
    case True
    then have "rh_lookup hv match t size' v = Some ((h + 0) mod ?n, False)"
      by (simp add: rh_lookup_def Let_def p rd hn)
    moreover have "insertion_point hv t h 0" using True by (simp add: insertion_point_def rank_def)
    ultimately show ?thesis by blast
  next
    case False
    then have r: "0 < rank hv t (h + 0)" by (simp add: rank_def)
    have l: "rh_lookup hv match t size' v =
      rh_find hv match t (size' - 1) (Suc ?n) h (v AND (size' - 1)) 0"
      using False by (simp add: rh_lookup_def Let_def p rd sz)
    obtain j where j: "\<forall>i < j. i < rank hv t (h + i) \<and> \<not> M (slot t (h + i))"
      "rh_lookup hv match t size' v = Some ((h + j) mod ?n, True) \<and>
         j < rank hv t (h + j) \<and> M (slot t (h + j)) \<or>
       rh_lookup hv match t size' v = Some ((h + j) mod ?n, False) \<and> rank hv t (h + j) \<le> j"
      unfolding l
      using rh_find_spec [OF ts hn, where hv = hv and match = match and M = M and
          pos = "v AND (size' - 1)" and j = 0 and entry = h and displ = 0 and fuel = "Suc ?n", OF m] p r hn by auto
    moreover have "hv (slot t (h + j)) \<noteq> 0" if "j < rank hv t (h + j)"
      using that by (auto simp: rank_def split: if_splits)
    ultimately show ?thesis unfolding insertion_point_def by blast
  qed
qed

text \<open>An entry that matches is found, whatever else collides with it.\<close>

lemma rh_lookup_present:
  assumes ts: "table_size t size'" and s: "rh_sorted hv t"
    and m: "\<And>x. x \<in> set t \<Longrightarrow> hv x \<noteq> 0 \<Longrightarrow> match x = Some (M x)"
    and e: "e \<in> set t" "hv e \<noteq> 0" "M e" "unat (hv e) mod length t = unat v mod length t"
  shows "\<exists>i < length t. rh_lookup hv match t size' v = Some (i, True) \<and> hv (t ! i) \<noteq> 0 \<and> M (t ! i)"
proof -
  let ?n = "length t" define h where "h = unat v mod ?n"
  have n: "0 < ?n" using table_size_le [OF ts] by simp
  obtain x where x: "x < ?n" "slot t x = e" using in_set_slot [OF e(1)] by blast
  let ?d = "disp ?n x h"
  have "h mod ?n = unat (hv (slot t x)) mod ?n" using e(4) x(2) by (simp add: h_def)
  note path = rank_on_path [OF s x(1) _ this]
  have M: "M (slot t (h + ?d))" using slot_cong [of "h + ?d" t x] disp_add [OF n, of h x] x e(3) by simp
  obtain j where j: "\<forall>i < j. \<not> M (slot t (h + i))"
    "rh_lookup hv match t size' v = Some ((h + j) mod ?n, True) \<and> hv (slot t (h + j)) \<noteq> 0 \<and> M (slot t (h + j)) \<or>
     rh_lookup hv match t size' v = Some ((h + j) mod ?n, False) \<and> insertion_point hv t h j"
    using rh_lookup_spec [OF ts, where hv = hv and match = match and M = M, OF m h_def] by auto
  have jd: "j \<le> ?d" using j(1) M by (meson not_less)
  have "\<not> insertion_point hv t h j"
    using path [of j] jd e(2) x(2) by (auto simp: insertion_point_def)
  with j(2) n show ?thesis by (auto simp: slot_def)
qed

lemma rh_lookup_absent:
  assumes ts: "table_size t size'"
    and m: "\<And>x. x \<in> set t \<Longrightarrow> hv x \<noteq> 0 \<Longrightarrow> match x = Some (M x)"
    and a: "\<And>x. x \<in> set t \<Longrightarrow> hv x \<noteq> 0 \<Longrightarrow> \<not> M x"
  shows "\<exists>j. rh_lookup hv match t size' v = Some ((unat v mod length t + j) mod length t, False) \<and>
    insertion_point hv t (unat v mod length t) j"
proof -
  have "t \<noteq> []" using table_size_le [OF ts] by auto
  then show ?thesis using rh_lookup_spec [OF ts, where hv = hv and match = match and M = M and v = v, OF m refl] a slot_in_set by meson
qed

section \<open>Insertion\<close>

text \<open>The table seen from position \<open>p\<close>: \<open>rotate p t\<close> lists the slots \<open>p, p + 1, ...\<close>.\<close>

definition entry_rank :: "('e \<Rightarrow> uint) \<Rightarrow> nat \<Rightarrow> 'e \<Rightarrow> nat \<Rightarrow> nat" where
  "entry_rank hv n e x = (if hv e = 0 then 0 else Suc (disp n x (unat (hv e))))"

lemma slot_rotate: "i < length t \<Longrightarrow> slot t (p + i) = rotate p t ! i"
  by (simp add: slot_def nth_rotate)

lemma rank_rotate: "i < length t \<Longrightarrow> rank hv t (p + i) = entry_rank hv (length t) (rotate p t ! i) (p + i)"
  by (simp add: rank_def entry_rank_def slot_rotate)

lemma rh_sorted_from:
  assumes "\<And>i. i < length t \<Longrightarrow> rank hv t (Suc (p + i)) \<le> Suc (rank hv t (p + i))" "t \<noteq> []"
  shows "rh_sorted hv t"
  unfolding rh_sorted_def
proof
  fix x
  let ?i = "disp (length t) x p"
  have n: "0 < length t" using assms(2) by simp
  have e: "(p + ?i) mod length t = x mod length t" by (rule disp_add [OF n])
  then have "Suc (p + ?i) mod length t = Suc x mod length t" by (metis mod_Suc_eq)
  with assms(1) [of ?i] disp_less [OF n] rank_cong [OF e] rank_cong [of "Suc (p + ?i)" t "Suc x"]
  show "rank hv t (Suc x) \<le> Suc (rank hv t x)" by metis
qed

lemma rank_less:
  assumes "rh_sorted hv t" "y < length t" "hv (t ! y) = 0"
  shows "rank hv t x < length t"
proof -
  have n: "0 < length t" using assms(2) by linarith
  let ?k = "disp (length t) x y"
  have "rank hv t x = rank hv t (y + ?k)" using rank_cong disp_add [OF n] by metis
  also have "\<dots> \<le> rank hv t y + ?k" by (rule rank_step [OF assms(1)])
  also have "rank hv t y = 0" using assms(2,3) by (simp add: rank_def slot_def)
  finally show ?thesis using disp_less [OF n, of x y] by simp
qed

lemma wrap_Suc: "0 < sz \<Longrightarrow> (if x mod sz + 1 \<ge> sz then 0 else x mod sz + 1) = Suc x mod sz"
  using mod_less_divisor [of sz x] by (auto simp: mod_Suc simp del: mod_less_divisor)

lemma rh_next_free_spec:
  assumes "length t = sz" "0 < sz" "hv (slot t (x + Suc k)) = 0" "\<And>i. i < k \<Longrightarrow> hv (slot t (x + Suc i)) \<noteq> 0" "k < fuel"
  shows "rh_next_free hv t sz fuel (x mod sz) = Some ((x + Suc k) mod sz)"
  using assms(3-)
proof (induction fuel arbitrary: x k)
  case (Suc fuel)
  have rd: "rd t (y mod sz) = Some (slot t y)" for y using assms(1,2) by (simp add: rd_def slot_def)
  have u: "rh_next_free hv t sz (Suc fuel) (x mod sz) =
    (if hv (slot t (Suc x)) \<noteq> 0 then rh_next_free hv t sz fuel (Suc x mod sz) else Some (Suc x mod sz))"
    by (simp only: rh_next_free.simps Let_def wrap_Suc [OF assms(2)] rd Option.bind.simps)
  show ?case
  proof (cases k)
    case 0 with Suc.prems(1) u show ?thesis by simp
  next
    case (Suc l)
    then have "hv (slot t (Suc x)) \<noteq> 0" using Suc.prems(2) [of 0] by simp
    moreover have "rh_next_free hv t sz fuel (Suc x mod sz) = Some ((Suc x + Suc l) mod sz)"
      using Suc.prems Suc.prems(2) [of "Suc i" for i] by (intro Suc.IH) (auto simp: Suc)
    ultimately show ?thesis using u Suc by simp
  qed
qed simp

lemma rotate_split: "p < length t \<Longrightarrow> rotate p t = drop p t @ take p t"
  by (simp add: rotate_drop_take)

lemma rh_shift_right_spec:
  assumes "p < length t" "rotate p t = A @ e0 # B" "\<forall>a \<in> set A. hv a \<noteq> 0" "hv e0 = 0"
  shows "\<exists>t1. rh_shift_right hv t (length t) p = Some t1 \<and> length t1 = length t \<and>
    rotate p (t1[p := new]) = new # A @ B"
proof -
  define X Y where "X = take p t" and "Y = drop p t"
  have t: "t = X @ Y" "length X = p" "Y \<noteq> []" using assms(1) by (auto simp: X_def Y_def)
  have r: "Y @ X = A @ e0 # B" using assms(1,2) by (simp add: rotate_split X_def Y_def)
  have rot: "rotate p (X' @ Y') = Y' @ X'" if "length X' = p" for X' Y' :: "'a list"
    using rotate_append [of X' Y'] that by simp
  show ?thesis
  proof (cases A)
    case Nil
    then obtain Y1 where "Y = e0 # Y1" "B = Y1 @ X" using r t(3) by (cases Y) auto
    then show ?thesis using Nil t assms(4) rot [of X "new # Y1"]
      by (simp add: rh_shift_right_def rd_def nth_append list_update_append)
  next
    case (Cons a A1)
    have occ: "hv (t ! p) \<noteq> 0" using Cons assms(3) r t by (cases Y) (auto simp: nth_append)
    have sl: "slot t (p + i) = (A @ e0 # B) ! i" if "i < length t" for i
      using slot_rotate [OF that] assms(2) by simp
    have len: "length A < length t" using arg_cong [OF r, of length] t(1) by simp
    have nf: "rh_next_free hv t (length t) (length t) (p mod length t) = Some ((p + Suc (length A1)) mod length t)"
    proof (rule rh_next_free_spec)
      show "hv (slot t (p + Suc (length A1))) = 0" using sl [of "length A"] len Cons assms(4) by (simp add: nth_append)
      show "hv (slot t (p + Suc i)) \<noteq> 0" if "i < length A1" for i
        using sl [of "Suc i"] that len Cons assms(3) by (auto simp: nth_append)
    qed (use len Cons in auto)
    then have nf: "rh_next_free hv t (length t) (length t) p = Some ((p + length A) mod length t)"
      using assms(1) Cons by simp
    from r consider (straight) B1 where "Y = A @ e0 # B1" "B = B1 @ X"
      | (wrapped) A2 where "A = Y @ A2" "X = A2 @ e0 # B"
      unfolding append_eq_append_conv2 by (auto simp: append_eq_Cons_conv)
    then show ?thesis
    proof cases
      case straight
      then have "rh_shift_right hv t (length t) p = Some (X @ a # A @ B1)"
        using occ nf assms(1) t Cons by (simp add: rh_shift_right_def rd_def memmove_def)
      then show ?thesis using straight t rot [of X "new # A @ B1"] by (simp add: list_update_append)
    next
      case wrapped
      obtain y Y1 where Y: "Y = Y1 @ [y]" using t(3) by (cases Y rule: rev_cases) auto
      have p: "p = Suc (length A2 + length B)" "length t = p + length Y" using t wrapped by auto
      have "p + length A = length A2 + length t" "length A2 < length t" using p wrapped by simp_all
      then have cur: "(p + length A) mod length t = length A2" by (simp only: mod_add_self2 mod_less)
      have r0: "rd t p = Some (t ! p)" using assms(1) by (simp add: rd_def)
      have lt: "length A2 < p" using p(1) by simp
      have tt: "t = A2 @ e0 # B @ Y" using t wrapped by simp
      have "take 1 t = [t ! 0]" by (cases A2) (simp_all add: tt)
      then have m1: "memmove t 1 0 (length A2) = Some (t ! 0 # A2 @ B @ Y)"
        unfolding memmove_def by (simp add: tt)
      have r1: "rd (t ! 0 # A2 @ B @ Y) (length t - 1) = Some y"
        using p Y by (simp add: rd_def nth_append)
      have w1: "wr (t ! 0 # A2 @ B @ Y) 0 y = Some (y # A2 @ B @ Y)" by (simp add: wr_def)
      have m2: "memmove (y # A2 @ B @ Y) (p + 1) p (length t - 1 - p) = Some (y # A2 @ B @ hd Y # Y1)"
        using p Y by (cases Y1) (simp_all add: memmove_def)
      have "rh_shift_right hv t (length t) p = Some (y # A2 @ B @ hd Y # Y1)"
        using occ lt
        by (simp only: rh_shift_right_def r0 Option.bind.simps nf cur Let_def m1 r1 w1 m2) simp
      then show ?thesis using wrapped t Y p rot [of "y # A2 @ B" "new # Y1"] by (simp add: list_update_append)
    qed
  qed
qed

lemma entry_rank_Suc:
  assumes "0 < n" "entry_rank hv n e x < n" "hv e \<noteq> 0"
  shows "entry_rank hv n e (Suc x) = Suc (entry_rank hv n e x)"
  using assms by (simp add: entry_rank_def disp_Suc)

lemma mod_Suc_inject: "Suc a mod n = Suc b mod n \<Longrightarrow> 0 < n \<Longrightarrow> a mod n = b mod n"
proof -
  assume a: "Suc a mod n = Suc b mod n" "0 < n"
  then have "(Suc a + (n - 1)) mod n = (Suc b + (n - 1)) mod n" by (metis mod_add_left_eq)
  with a(2) show ?thesis by simp
qed

lemma sorted_insert:
  assumes s: "rh_sorted hv t" and p: "p < length t" "p = (h + j) mod length t"
    and r: "rotate p t = A @ free # B" "\<forall>a \<in> set A. hv a \<noteq> 0" "hv free = 0"
    and t': "rotate p t' = new # A @ B" "length t' = length t"
    and new: "hv new \<noteq> 0" "unat (hv new) mod length t = h mod length t"
    and ip: "insertion_point hv t h j" and j: "j < length t"
  shows "rh_sorted hv t'"
proof (rule rh_sorted_from)
  let ?n = "length t"
  have n: "0 < ?n" using p by linarith
  then show "t' \<noteq> []" using t'(2) by auto
  have len: "?n = Suc (length A + length B)" using arg_cong [OF r(1), of length] by simp
  note rk = rank_rotate [of _ t hv p, unfolded r(1)]
  note rk' = rank_rotate [of _ t' hv p, unfolded t']
  obtain y where y: "y < ?n" "hv (t ! y) = 0"
  proof -
    have "free \<in> set (rotate p t)" by (simp add: r(1))
    then show ?thesis using that r(3) by (auto simp: in_set_conv_nth)
  qed
  have home: "rank hv t' p = Suc j"
  proof -
    have "disp ?n p (unat (hv new)) = disp ?n (h + j) h" using p(2) new(2) by (intro disp_cong) auto
    then show ?thesis using rk' [of 0] n new(1) j by (simp add: entry_rank_def)
  qed
  have front: "rank hv t' (Suc (p + i)) = Suc (rank hv t (p + i))" if "i < length A" for i
  proof -
    have "rank hv t (p + i) < ?n" by (rule rank_less [OF s y])
    then have "entry_rank hv ?n (A ! i) (p + i) < ?n" using rk [of i] that len by (simp add: nth_append)
    then have "entry_rank hv ?n (A ! i) (Suc (p + i)) = Suc (entry_rank hv ?n (A ! i) (p + i))"
      using that r(2) n by (intro entry_rank_Suc) auto
    then show ?thesis using rk [of i] rk' [of "Suc i"] that len by (simp add: nth_append)
  qed
  have rest: "rank hv t' (p + i) = rank hv t (p + i)" if ii: "length A < i" "i < ?n" for i
  proof -
    obtain m where "i = Suc (length A + m)" using ii(1) by (auto simp: less_iff_Suc_add)
    then have "(new # A @ B) ! i = (A @ free # B) ! i" by (simp add: nth_append)
    then show ?thesis using rk [OF ii(2)] rk' [OF ii(2)] by (simp only:)
  qed
  have free: "rank hv t (p + length A) = 0" using rk [of "length A"] len r(3) by (simp add: entry_rank_def)
  have st: "rank hv t (Suc x) \<le> Suc (rank hv t x)" for x using s by (simp add: rh_sorted_def)
  fix i assume i: "i < length t'"
  show "rank hv t' (Suc (p + i)) \<le> Suc (rank hv t' (p + i))"
  proof -
    consider "i = 0" "Suc i < ?n" | "0 < i" "i < length A" | "0 < i" "i = length A" "Suc i < ?n"
      | "length A < i" "Suc i < ?n" | "Suc i = ?n" using i t'(2) by linarith
    then show ?thesis
    proof cases
      case 1
      have "rank hv t p \<le> j" using ip rank_cong [of p t "h + j" hv] p(2) by (simp add: insertion_point_def)
      with 1 front [of 0] rest [of 1] free st [of p] home show ?thesis by (cases "A = []") simp_all
    next
      case 2
      then obtain l where l: "i = Suc l" by (cases i) auto
      with 2 front [of l] front [of i] st [of "p + l"] show ?thesis by simp
    next
      case 3 with rest [of "Suc i"] st [of "p + i"] free show ?thesis by simp
    next
      case 4 with rest [of "Suc i"] rest [of i] st [of "p + i"] show ?thesis by simp
    next
      case 5
      have e: "Suc (p + i) = p + ?n" using 5 by simp
      have "rank hv t' (Suc (p + i)) = Suc j"
        unfolding e using home t'(2) rank_cong [of "p + ?n" t' p hv] by simp
      moreover have "j \<le> rank hv t' (p + i)"
      proof (cases j)
        case (Suc l)
        have "Suc (p + i) mod ?n = Suc (h + l) mod ?n" unfolding e using p(2) Suc by simp
        then have "rank hv t (p + i) = rank hv t (h + l)" using mod_Suc_inject [OF _ n] rank_cong by metis
        moreover have "l < rank hv t (h + l)" using ip Suc by (simp add: insertion_point_def)
        ultimately have "Suc l \<le> rank hv t (p + i)" by simp
        moreover from this have "length A \<noteq> i" using free by auto
        ultimately show ?thesis using rest [of i] 5 len Suc by simp
      qed simp
      ultimately show ?thesis by simp
    qed
  qed
qed

section \<open>Removal\<close>

lemma rh_run_end_spec:
  assumes "table_size t size'" "p < length t"
    and "unat pos = p + i" "cur = (p + i) mod length t" 
    and "i \<le> k" "\<And>l. i < l \<Longrightarrow> l \<le> k \<Longrightarrow> 1 < rank hv t (p + l)" "rank hv t (p + Suc k) \<le> 1"
    and "k < fuel + i" "k < length t"
  shows "rh_run_end hv t (size' - 1) fuel cur pos = Some ((p + k) mod length t)"
  using assms(3-8)
proof (induction fuel arbitrary: i cur pos)
  case (Suc fuel)
  let ?n = "length t" and ?y = "slot t (p + Suc i)"
  note ts = table_size_le [OF assms(1)]
  have n: "0 < ?n" using assms(2) by linarith
  have lt: "p + i + 1 < 2 ^ 32" using assms(2,9) Suc.prems(3) ts by simp
  have p1: "unat (pos + 1) = p + Suc i" using lt Suc.prems(1) by (simp add: unat_add_lem [THEN iffD1])
  have e1: "(if (pos + 1) AND (size' - 1) = 0 then 0 else cur + 1) = (p + Suc i) mod ?n"
    using next_slot [OF assms(1), of cur pos] Suc.prems(1,2) lt by simp
  have rd: "rd t ((p + Suc i) mod ?n) = Some ?y" using n by (simp add: rd_def slot_def)
  have "unat ((hv ?y - (pos + 1)) AND (size' - 1)) = disp ?n (unat (hv ?y)) (p + Suc i)"
    using size_mask(2) [OF assms(1)] p1 by simp
  moreover have "disp ?n (unat (hv ?y)) (p + Suc i) = 0 \<longleftrightarrow> disp ?n (p + Suc i) (unat (hv ?y)) = 0"
    using disp_add [OF n, of "p + Suc i" "unat (hv ?y)"] disp_add [OF n, of "unat (hv ?y)" "p + Suc i"]
      disp_eqI [of 0 ?n "p + Suc i" "unat (hv ?y)"] disp_eqI [of 0 ?n "unat (hv ?y)" "p + Suc i"] n by auto
  ultimately have c: "(hv ?y = 0 \<or> (hv ?y - (pos + 1)) AND (size' - 1) = 0) \<longleftrightarrow> rank hv t (p + Suc i) \<le> 1"
    by (auto simp: rank_def word_unat_eq_iff)
  have unf: "rh_run_end hv t (size' - 1) (Suc fuel) cur pos =
    (if rank hv t (p + Suc i) \<le> 1 then Some cur
     else rh_run_end hv t (size' - 1) fuel ((p + Suc i) mod ?n) (pos + 1))"
    by (simp only: rh_run_end.simps Let_def e1 rd Option.bind.simps c)
  show ?case
  proof (cases "i = k")
    case True then show ?thesis using unf Suc.prems by simp
  next
    case False
    then have "\<not> rank hv t (p + Suc i) \<le> 1" using Suc.prems(3) Suc.prems(4) [of "Suc i"] by simp
    moreover have "rh_run_end hv t (size' - 1) fuel ((p + Suc i) mod ?n) (pos + 1) = Some ((p + k) mod ?n)"
      using False Suc.prems by (intro Suc.IH [OF p1]) auto
    ultimately show ?thesis using unf by simp
  qed
qed simp


lemma rh_remove_spec:
  assumes ts: "table_size t size'" and p: "p < length t"
    and r: "rotate p t = x # A @ B" and k: "k = length A"
    and run: "\<And>l. 0 < l \<Longrightarrow> l \<le> k \<Longrightarrow> 1 < rank hv t (p + l)" "rank hv t (p + Suc k) \<le> 1"
  shows "\<exists>t'. rh_remove hv clear t size' p = Some t' \<and> length t' = length t \<and>
    rotate p t' = A @ clear (last (x # A)) # B"
proof -
  let ?n = "length t"
  have sz: "unat size' = ?n" using ts by (simp add: table_size_def)
  have len: "?n = Suc (length A + length B)" using arg_cong [OF r, of length] by simp
  have "unat (word_of_nat p :: uint) = p" using p table_size_le [OF ts] by (simp add: unat_of_nat)
  moreover have kn: "k < ?n" using len k by simp
  ultimately have re: "rh_run_end hv t (size' - 1) ?n p (word_of_nat p) = Some ((p + k) mod ?n)"
    using kn p run by (intro rh_run_end_spec [OF ts p, where i = 0]) auto
  define X Y where "X = take p t" and "Y = drop p t"
  have t: "t = X @ Y" "length X = p" "Y \<noteq> []" using p by (auto simp: X_def Y_def)
  have r: "Y @ X = x # A @ B" using p r by (simp add: rotate_split X_def Y_def)
  have rot: "rotate p (X' @ Y') = Y' @ X'" if "length X' = p" for X' Y' :: "'a list"
    using rotate_append [of X' Y'] that by simp
  from r consider (straight) B1 where "Y = x # A @ B1" "B = B1 @ X"
    | (wrapped) A1 A2 where "A = A1 @ A2" "A2 \<noteq> []" "Y = x # A1" "X = A2 @ B"
  proof -
    obtain Y1 where Y1: "Y = x # Y1" "Y1 @ X = A @ B" using r t(3) by (cases Y) auto
    then show ?thesis unfolding append_eq_append_conv2
      using straight wrapped [of Y1 _] wrapped by fastforce
  qed
  then show ?thesis
  proof cases
    case straight
    then have c: "(p + k) mod ?n = p + k" using t k by simp
    have "memmove t p (p + 1) (p + k - p) = Some (X @ A @ last (x # A) # B1)"
      using straight t k by (cases A rule: rev_cases) (simp_all add: memmove_def)
    then have "rh_remove hv clear t size' p = Some (X @ A @ clear (last (x # A)) # B1)"
      using re c t k by (simp add: rh_remove_def sz Let_def rd_def wr_def nth_append list_update_append)
    then show ?thesis using straight t k rot [of X "A @ clear (last (x # A)) # B1"] by simp
  next
    case wrapped
    obtain a A3 where A2: "A2 = a # A3" using wrapped(2) by (cases A2) auto
    have n: "?n = p + Suc (length A1)" "p = length A2 + length B" using t wrapped by simp_all
    have "p + k = length A3 + ?n" "length A3 < ?n" using k wrapped A2 n by simp_all
    then have c: "(p + k) mod ?n = length A3" by (simp only: mod_add_self2 mod_less)
    have lt: "length A3 < p" using n A2 by simp
    obtain z where z: "memmove t p (p + 1) (?n - (p + 1)) = Some (A2 @ B @ A1 @ [z])"
      using t wrapped n by (cases A1 rule: rev_cases) (auto simp: memmove_def)
    have r1: "rd (A2 @ B @ A1 @ [z]) 0 = Some a" by (simp add: A2)
    have w1: "wr (A2 @ B @ A1 @ [z]) (?n - 1) a = Some (A2 @ B @ A1 @ [a])"
      using n by (simp add: wr_def list_update_append)
    have m2: "memmove (A2 @ B @ A1 @ [a]) 0 1 (length A3) = Some (A3 @ last A2 # B @ A1 @ [a])"
      using A2 by (cases A3 rule: rev_cases) (simp_all add: memmove_def)
    have r2: "rd (A3 @ last A2 # B @ A1 @ [a]) (length A3) = Some (last A2)" by (simp add: rd_def)
    have w2: "wr (A3 @ last A2 # B @ A1 @ [a]) (length A3) (clear (last A2)) = Some (A3 @ clear (last A2) # B @ A1 @ [a])"
      by (simp add: wr_def list_update_append)
    have "rh_remove hv clear t size' p = Some (A3 @ clear (last A2) # B @ A1 @ [a])"
      using lt by (simp only: rh_remove_def Let_def sz re c Option.bind.simps if_True z r1 w1 m2 r2 w2)
    moreover have "rotate p (A3 @ clear (last A2) # B @ A1 @ [a]) = A1 @ a # A3 @ clear (last A2) # B"
      using rot [of "A3 @ clear (last A2) # B" "A1 @ [a]"] n A2 by simp
    ultimately show ?thesis using wrapped A2 t by simp
  qed
qed

lemma sorted_remove:
  assumes s: "rh_sorted hv t" and p: "p < length t"
    and r: "rotate p t = x # A @ B" and k: "k = length A"
    and run: "\<And>l. 0 < l \<Longrightarrow> l \<le> k \<Longrightarrow> 1 < rank hv t (p + l)" "rank hv t (p + Suc k) \<le> 1"
    and t': "rotate p t' = A @ e # B" "length t' = length t" "hv e = 0"
  shows "rh_sorted hv t'"
proof (rule rh_sorted_from)
  let ?n = "length t"
  have n: "0 < ?n" using p by linarith
  then show "t' \<noteq> []" using t'(2) by auto
  have len: "?n = Suc (k + length B)" using arg_cong [OF r, of length] k by simp
  note rk = rank_rotate [of _ t hv p, unfolded r]
  note rk' = rank_rotate [of _ t' hv p, unfolded t']
  have front: "Suc (rank hv t' (p + i)) = rank hv t (Suc (p + i))" if "i < k" for i
  proof -
    have "1 < entry_rank hv ?n (A ! i) (Suc (p + i))"
      using run(1) [of "Suc i"] rk [of "Suc i"] that k len by (simp add: nth_append)
    then have "entry_rank hv ?n (A ! i) (Suc (p + i)) = Suc (entry_rank hv ?n (A ! i) (p + i))"
      using n by (auto simp: entry_rank_def disp_Suc split: if_splits)
    then show ?thesis using rk [of "Suc i"] rk' [of i] that k len by (simp add: nth_append)
  qed
  have run2: "rank hv t (Suc (p + k)) \<le> 1" using run(2) by simp
  have gap: "rank hv t' (p + k) = 0" using rk' [of k] len k t'(3) by (simp add: entry_rank_def)
  have rest: "rank hv t' (p + i) = rank hv t (p + i)" if ii: "k < i" "i < ?n" for i
  proof -
    obtain m where "i = Suc (length A + m)" using ii(1) k by (auto simp: less_iff_Suc_add)
    then have "(A @ e # B) ! i = (x # A @ B) ! i" by (simp add: nth_append)
    then show ?thesis using rk [OF ii(2)] rk' [OF ii(2)] by (simp only:)
  qed
  have st: "rank hv t (Suc y) \<le> Suc (rank hv t y)" for y using s by (simp add: rh_sorted_def)
  have turn: "rank hv t (Suc (p + i)) = rank hv t p" "rank hv t' (Suc (p + i)) = rank hv t' p" if "Suc i = ?n" for i
  proof -
    have e: "Suc (p + i) = p + ?n" using that by simp
    show "rank hv t (Suc (p + i)) = rank hv t p" "rank hv t' (Suc (p + i)) = rank hv t' p"
      unfolding e using rank_cong [of "p + ?n" t p hv] rank_cong [of "p + ?n" t' p hv] t'(2) by simp_all
  qed
  fix i assume "i < length t'"
  then have "i < ?n" using t'(2) by simp
  then consider "Suc i < k" | "Suc i = k" | "i = k" "Suc i < ?n" | "k < i" "Suc i < ?n" | "Suc i = ?n" "k = 0" | "Suc i = ?n" "0 < k" "k \<le> i"
    using len by linarith
  then show "rank hv t' (Suc (p + i)) \<le> Suc (rank hv t' (p + i))"
  proof cases
    case 1 then show ?thesis using front [of i] front [of "Suc i"] st [of "Suc (p + i)"] by simp
  next
    case 2 then show ?thesis using gap by (metis add_Suc_right le0)
  next
    case 3 then show ?thesis using rest [of "Suc i"] run(2) by simp
  next
    case 4 then show ?thesis using rest [of "Suc i"] rest [of i] st [of "p + i"] by simp
  next
    case 5 then show ?thesis using turn(2) [of i] gap by simp
  next
    case 6
    have "rank hv t' p \<le> rank hv t p" using front [of 0] st [of p] 6 by simp
    moreover have "rank hv t p \<le> Suc (rank hv t' (p + i))"
      using turn(1) [of i] st [of "p + i"] rest [of i] 6 run2 \<open>i < ?n\<close> by (cases "i = k") auto
    ultimately show ?thesis using turn(2) [of i] 6 by simp
  qed
qed

text \<open>The run that \<open>rh_remove\<close> closes always exists: a probe sequence ends before it meets itself.\<close>

lemma removal_run:
  assumes s: "rh_sorted hv t" and p: "p < length t" and y: "y < length t" "hv (t ! y) = 0"
  shows "\<exists>k x A B. rotate p t = x # A @ B \<and> k = length A \<and>
    (\<forall>l. 0 < l \<longrightarrow> l \<le> k \<longrightarrow> 1 < rank hv t (p + l)) \<and> rank hv t (p + Suc k) \<le> 1"
proof -
  let ?n = "length t" and ?P = "\<lambda>k. rank hv t (p + Suc k) \<le> 1"
  have n: "0 < ?n" using p by linarith
  obtain k0 where k0: "k0 < ?n" "?P k0"
  proof -
    let ?d = "disp ?n y p"
    have "rank hv t (p + ?d) = 0"
      using rank_cong [OF disp_add [OF n, of p y], of hv] y by (simp add: rank_def slot_def)
    moreover from this have "rank hv t (Suc (p + ?d)) \<le> 1" using s by (metis One_nat_def rh_sorted_def)
    ultimately show ?thesis using that [of ?d] disp_less [OF n, of y p] by simp
  qed
  define k where "k = (LEAST k. ?P k)"
  have k: "?P k" "k < ?n" using LeastI [of ?P, OF k0(2)] Least_le [of ?P, OF k0(2)] k0(1) by (auto simp: k_def)
  have min: "1 < rank hv t (p + l)" if "0 < l" "l \<le> k" for l
    using not_less_Least [of "l - 1" ?P] that by (simp add: k_def not_le)
  obtain x L where L: "rotate p t = x # L" "length L = ?n - 1"
    using n by (cases "rotate p t") (auto dest: arg_cong [of _ _ length])
  have "rotate p t = x # take k L @ drop k L" "k = length (take k L)" using L k(2) by simp_all
  with k(1) min show ?thesis by blast
qed

section \<open>Growing\<close>

lemma rh_first_free_spec:
  assumes "length t = sz" "0 < sz" "hv (slot t (x + k)) = 0" "\<And>i. i < k \<Longrightarrow> hv (slot t (x + i)) \<noteq> 0" "k < fuel"
  shows "rh_first_free hv t sz fuel (x mod sz) = Some ((x + k) mod sz)"
  using assms(3-)
proof (induction fuel arbitrary: x k)
  case (Suc fuel)
  have rd: "rd t (x mod sz) = Some (slot t x)" using assms(1,2) by (simp add: rd_def slot_def)
  have u: "rh_first_free hv t sz (Suc fuel) (x mod sz) =
    (if hv (slot t x) \<noteq> 0 then rh_first_free hv t sz fuel (Suc x mod sz) else Some (x mod sz))"
    by (simp only: rh_first_free.simps wrap_Suc [OF assms(2)] rd Option.bind.simps)
  show ?case
  proof (cases k)
    case 0 with Suc.prems(1) u show ?thesis by simp
  next
    case (Suc l)
    then have "hv (slot t x) \<noteq> 0" using Suc.prems(2) [of 0] by simp
    moreover have "rh_first_free hv t sz fuel (Suc x mod sz) = Some ((Suc x + l) mod sz)"
      using Suc.prems Suc.prems(2) [of "Suc i" for i] by (intro Suc.IH) (auto simp: Suc)
    ultimately show ?thesis using u Suc by simp
  qed
qed simp

lemma first_free_exists:
  assumes "hv (slot t (x + d)) = 0"
  shows "\<exists>k \<le> d. hv (slot t (x + k)) = 0 \<and> (\<forall>i < k. hv (slot t (x + i)) \<noteq> 0)"
proof -
  let ?P = "\<lambda>k. hv (slot t (x + k)) = 0"
  have "?P (LEAST k. ?P k)" using assms by (rule LeastI)
  moreover have "(LEAST k. ?P k) \<le> d" using assms by (rule Least_le)
  moreover have "\<forall>i < (LEAST k. ?P k). \<not> ?P i" using not_less_Least [of _ ?P] by blast
  ultimately show ?thesis by blast
qed

lemma mod_double:
  fixes n :: nat
  assumes "x mod n = y mod n" "0 < n"
  shows "\<exists>b < 2. x mod (2 * n) = (y + b * n) mod (2 * n)"
proof -
  have e: "z mod (2 * n) = z mod n + n * (z div n mod 2)" for z :: nat
    by (metis add.commute mod_mult2_eq mult.commute)
  obtain b where b: "b < 2" "x div n mod 2 = (y div n + b) mod 2"
  proof (cases "x div n mod 2 = y div n mod 2")
    case True then show ?thesis using that [of 0] by simp
  next
    case False
    moreover have "a mod 2 \<noteq> c mod 2 \<Longrightarrow> a mod 2 = (c + 1) mod 2" for a c :: nat by presburger
    ultimately have "x div n mod 2 = (y div n + 1) mod 2" by blast
    then show ?thesis using that [of 1] by simp
  qed
  have "(y + b * n) mod n = y mod n" "(y + b * n) div n = y div n + b" using assms(2) by simp_all
  then have "x mod (2 * n) = (y + b * n) mod (2 * n)" using e [of x] e [of "y + b * n"] assms(1) b(2) by simp
  then show ?thesis using b(1) by blast
qed

lemma slot_update: "p < length t \<Longrightarrow> slot (t[p := e]) x = (if x mod length t = p then e else slot t x)"
  by (cases "x mod length t = p") (auto simp: slot_def)

lemma rank_update: "p < length t \<Longrightarrow> x mod length t \<noteq> p \<Longrightarrow> rank hv (t[p := e]) x = rank hv t x"
  by (simp add: rank_def slot_update)

definition occ :: "('e \<Rightarrow> uint) \<Rightarrow> 'e list \<Rightarrow> 'e multiset" where
  "occ hv t = mset (filter (\<lambda>e. hv e \<noteq> 0) t)"

lemma occ_update:
  assumes "p < length t" "hv (t ! p) = 0" "hv e \<noteq> 0"
  shows "occ hv (t[p := e]) = add_mset e (occ hv t)"
proof -
  have "occ hv (t[p := e]) = occ hv (take p t) + add_mset e (occ hv (drop (Suc p) t))"
    using assms(1,3) by (simp add: upd_conv_take_nth_drop occ_def)
  moreover have "occ hv t = occ hv (take p t) + occ hv (drop (Suc p) t)"
    using assms(2) by (subst id_take_nth_drop [OF assms(1)]) (simp add: occ_def)
  ultimately show ?thesis by simp
qed

text \<open>
  The state of the copying loop after \<open>i\<close> slots of the old table \<open>t\<close>, seen from its free
  slot \<open>s\<close>: the two halves of the new table are filled at most up to offset \<open>i\<close>, its order is
  the Robin Hood order, and no entry placed so far has its home beyond the home of an entry still to come.
\<close>

definition grow_inv :: "('e \<Rightarrow> uint) \<Rightarrow> 'e list \<Rightarrow> nat \<Rightarrow> nat \<Rightarrow> 'e list \<Rightarrow> bool" where
  "grow_inv hv t s i tab \<longleftrightarrow> length tab = 2 * length t \<and> rh_sorted hv tab \<and>
     occ hv tab = occ hv (take i (rotate s t)) \<and>
     (\<forall>b < 2. \<forall>q. i \<le> q \<longrightarrow> q < length t \<longrightarrow> hv (slot tab (s + b * length t + q)) = 0) \<and>
     (\<forall>b < 2. \<forall>r i'. r < i \<longrightarrow> i \<le> i' \<longrightarrow> i' < length t \<longrightarrow> hv (slot tab (s + b * length t + r)) \<noteq> 0 \<longrightarrow>
        hv (slot t (s + i')) \<noteq> 0 \<longrightarrow> r + rank hv t (s + i') \<le> i' + rank hv tab (s + b * length t + r))"

lemma grow_skip:
  assumes "grow_inv hv t s i tab" "i < length t" "hv (slot t (s + i)) = 0"
  shows "grow_inv hv t s (Suc i) tab"
proof -
  have "occ hv (take (Suc i) (rotate s t)) = occ hv (take i (rotate s t))"
    using assms(2,3) by (simp add: take_Suc_conv_app_nth occ_def slot_rotate [symmetric])
  moreover have "i \<le> i'" if "Suc i \<le> i'" for i' using that by simp
  ultimately show ?thesis using assms unfolding grow_inv_def
    by (auto simp: less_Suc_eq Suc_le_eq)
qed

lemma mod_add_inject: "(s + a) mod n = (s + b) mod n \<Longrightarrow> 0 < n \<Longrightarrow> a mod n = b mod (n :: nat)"
  by (induction s) (auto dest: mod_Suc_inject)

lemma slot_offset_inj:
  fixes n :: nat
  assumes "(s + b * n + q) mod (2 * n) = (s + b' * n + r) mod (2 * n)" "b < 2" "b' < 2" "q < n" "r < n"
  shows "b = b' \<and> q = r"
proof -
  have "b * n + q < 2 * n" "b' * n + r < 2 * n" using assms(2-5) by (auto simp: less_2_cases_iff)
  moreover have "(b * n + q) mod (2 * n) = (b' * n + r) mod (2 * n)"
  proof (rule mod_add_inject [where s = s])
    show "(s + (b * n + q)) mod (2 * n) = (s + (b' * n + r)) mod (2 * n)"
      using assms(1) by (simp only: add.assoc)
  qed (use assms(4) in simp)
  ultimately have "b * n + q = b' * n + r" by simp
  then show ?thesis using assms(2-5) by (auto simp: less_2_cases_iff)
qed

lemma grow_place:
  assumes t: "rh_sorted hv t" "s < length t" "hv (slot t s) = 0"
    and inv: "grow_inv hv t s i tab" and i: "i < length t" and x: "x = slot t (s + i)" "hv x \<noteq> 0"
    and h: "h = unat (hv x) mod (2 * length t)"
  shows "\<exists>p. rh_first_free hv tab (2 * length t) (Suc (2 * length t)) h = Some p \<and> p < 2 * length t \<and>
    grow_inv hv t s (Suc i) (tab[p := x])"
proof -
  let ?n = "length t" let ?N = "2 * ?n"
  have n: "0 < ?n" using t(2) by linarith
  have inv': "length tab = ?N" "rh_sorted hv tab" "occ hv tab = occ hv (take i (rotate s t))"
    "\<And>b q. b < 2 \<Longrightarrow> i \<le> q \<Longrightarrow> q < ?n \<Longrightarrow> hv (slot tab (s + b * ?n + q)) = 0"
    "\<And>b r i'. b < 2 \<Longrightarrow> r < i \<Longrightarrow> i \<le> i' \<Longrightarrow> i' < ?n \<Longrightarrow> hv (slot tab (s + b * ?n + r)) \<noteq> 0 \<Longrightarrow>
       hv (slot t (s + i')) \<noteq> 0 \<Longrightarrow> r + rank hv t (s + i') \<le> i' + rank hv tab (s + b * ?n + r)"
    using inv unfolding grow_inv_def by blast+
  define d where "d = disp ?n (s + i) (unat (hv x))"
  have rx: "rank hv t (s + i) = Suc d" using x by (simp add: rank_def d_def)
  have "rank hv t (s + i) \<le> rank hv t s + i" by (rule rank_step [OF t(1)])
  then have di: "d < i" using rx t(3) by (simp add: rank_def)
  have "(unat (hv x) + d) mod ?n = (s + i) mod ?n" unfolding d_def by (rule disp_add [OF n])
  then obtain b where b: "b < 2" "(unat (hv x) + d) mod ?N = (s + i + b * ?n) mod ?N"
    using mod_double [OF _ n] by blast
  then have hd: "(h + d) mod ?N = (s + b * ?n + i) mod ?N"
    using mod_add_left_eq [of "unat (hv x)" ?N d] unfolding h by (simp only: add_ac)
  have free: "hv (slot tab (h + d)) = 0"
    using slot_cong [of "h + d" tab "s + b * ?n + i"] hd inv'(1) inv'(4) [of b i] b(1) i by simp
  then obtain k where k: "k \<le> d" "hv (slot tab (h + k)) = 0" "\<And>l. l < k \<Longrightarrow> hv (slot tab (h + l)) \<noteq> 0"
    using first_free_exists by metis
  have off: "(h + l) mod ?N = (s + b * ?n + (i - d + l)) mod ?N" if "l \<le> d" for l
  proof (rule mod_add_inject [where s = "d - l"])
    show "(d - l + (h + l)) mod ?N = (d - l + (s + b * ?n + (i - d + l))) mod ?N"
      using that di hd by (simp add: add_ac)
  qed (use n in simp)
  define p where "p = (h + k) mod ?N"
  have p: "p < ?N" using n by (simp add: p_def)
  have ff: "rh_first_free hv tab ?N (Suc ?N) h = Some p"
  proof -
    have "h = h mod ?N" by (simp add: h)
    moreover have "d < ?N" using di i by simp
    ultimately show ?thesis
      using rh_first_free_spec [of tab ?N hv h k "Suc ?N"] inv'(1) k n by (simp add: p_def)
  qed
  have ip: "insertion_point hv tab h k"
  proof -
    have "l < rank hv tab (h + l)" if "l < k" for l
    proof -
      let ?r = "i - d + (k - 1)"
      have o: "(h + (k - 1)) mod ?N = (s + b * ?n + ?r) mod ?N" using k(1) by (intro off) simp
      have "rank hv tab (h + (k - 1)) = rank hv tab (s + b * ?n + ?r)"
        "slot tab (h + (k - 1)) = slot tab (s + b * ?n + ?r)"
        using rank_cong slot_cong o inv'(1) by metis+
      moreover have "hv (slot tab (h + (k - 1))) \<noteq> 0" using k(3) [of "k - 1"] that by simp
      moreover have "?r < i" using k(1) di that by simp
      ultimately have "?r + Suc d \<le> i + rank hv tab (h + (k - 1))"
        using inv'(5) [of b ?r i] b(1) i x rx by simp
      then have "k \<le> rank hv tab (h + (k - 1))" using di that by simp
      moreover have "rank hv tab (h + l + (k - 1 - l)) \<le> rank hv tab (h + l) + (k - 1 - l)"
        by (rule rank_step [OF inv'(2)])
      ultimately show ?thesis using that by simp
    qed
    then show ?thesis using k(2) by (simp add: insertion_point_def rank_def)
  qed
  have sl: "slot tab (h + k) = tab ! p" using inv'(1) by (simp add: slot_def p_def)
  have srt: "rh_sorted hv (tab[p := x])"
  proof (rule sorted_insert [where A = "[]" and free = "tab ! p" and B = "tl (rotate p tab)" and h = h and j = k])
    have q: "p < length tab" using p inv'(1) by simp
    have "rotate p tab = tab ! p # drop (Suc p) tab @ take p tab"
      using q Cons_nth_drop_Suc [OF q] by (simp add: rotate_drop_take)
    moreover have "rotate p (tab[p := x]) = x # drop (Suc p) tab @ take p tab"
      using q Cons_nth_drop_Suc [of p "tab[p := x]"] by (simp add: rotate_drop_take)
    ultimately show "rotate p tab = [] @ tab ! p # tl (rotate p tab)"
      "rotate p (tab[p := x]) = x # [] @ tl (rotate p tab)" by simp_all
  qed (use inv' p p_def sl k di i x h ip in simp_all)
  have off_k: "p = (s + b * ?n + (i - d + k)) mod ?N" using off [OF k(1)] by (simp add: p_def)
  have other: "(s + b' * ?n + q) mod ?N = p \<longleftrightarrow> b' = b \<and> q = i - d + k" if "b' < 2" "q < ?n" for b' q
    unfolding off_k using slot_offset_inj [of s b' ?n q b "i - d + k"] that b(1) k(1) di i by auto
  have "grow_inv hv t s (Suc i) (tab[p := x])"
    unfolding grow_inv_def
  proof (intro conjI allI impI)
    show "length (tab[p := x]) = ?N" "rh_sorted hv (tab[p := x])" using inv'(1) srt by simp_all
    show "occ hv (tab[p := x]) = occ hv (take (Suc i) (rotate s t))"
      using occ_update [of p tab hv x] p inv'(1,3) k(2) sl x i
      by (simp add: take_Suc_conv_app_nth occ_def slot_rotate [symmetric])
  next
    fix b' q :: nat assume a: "b' < 2" "Suc i \<le> q" "q < ?n"
    then have "(s + b' * ?n + q) mod ?N \<noteq> p" using other [of b' q] k(1) di by linarith
    then show "hv (slot (tab[p := x]) (s + b' * ?n + q)) = 0"
      using a inv'(4) [of b' q] p inv'(1) by (simp add: slot_update)
  next
    fix b' r i' :: nat assume a: "b' < 2" "r < Suc i" "Suc i \<le> i'" "i' < ?n"
      "hv (slot (tab[p := x]) (s + b' * ?n + r)) \<noteq> 0" "hv (slot t (s + i')) \<noteq> 0"
    show "r + rank hv t (s + i') \<le> i' + rank hv (tab[p := x]) (s + b' * ?n + r)"
    proof (cases "b' = b \<and> r = i - d + k")
      case True
      have "rank hv (tab[p := x]) (s + b' * ?n + r) = rank hv (tab[p := x]) (h + k)"
        using True off [OF k(1)] inv'(1) by (intro rank_cong) simp
      also have "\<dots> = Suc (disp ?N (h + k) (unat (hv x)))"
        using x(2) p inv'(1) by (simp add: rank_def slot_update p_def)
      also have "disp ?N (h + k) (unat (hv x)) = disp ?N (h + k) h" by (intro disp_cong) (simp_all add: h)
      also have "\<dots> = k" using k(1) di i by (intro disp_home) simp
      finally have "rank hv (tab[p := x]) (s + b' * ?n + r) = Suc k" .
      moreover have "rank hv t (s + i + (i' - i)) \<le> rank hv t (s + i) + (i' - i)" by (rule rank_step [OF t(1)])
      ultimately show ?thesis using rx a True di by simp
    next
      case False
      then have "(s + b' * ?n + r) mod ?N \<noteq> p" using other [of b' r] a by simp
      then show ?thesis using a inv'(5) [of b' r i'] inv'(4) [of b' r] p inv'(1) rank_update [of p tab]
        by (cases "r = i") (simp_all add: slot_update)
    qed
  qed
  with ff p show ?thesis by blast
qed

lemma rh_copy_spec:
  assumes t: "rh_sorted hv t" "s < length t" "hv (slot t s) = 0"
    and ts: "table_size tab size'" and len: "unat size' = 2 * length t"
    and inv: "grow_inv hv t s i tab" and i: "i + m = length t"
  shows "\<exists>tab'. rh_copy hv t (length t) size' m ((s + i) mod length t) tab = Some tab' \<and>
    grow_inv hv t s (length t) tab'"
  using ts inv i
proof (induction m arbitrary: i tab)
  case (Suc m)
  let ?n = "length t" and ?x = "slot t (s + i)"
  have n: "0 < ?n" using t(2) by linarith
  have rd: "rd t ((s + i) mod ?n) = Some ?x" using n by (simp add: rd_def slot_def)
  have w: "(if (s + i) mod ?n + 1 \<ge> ?n then 0 else (s + i) mod ?n + 1) = (s + Suc i) mod ?n"
    using wrap_Suc [OF n, of "s + i"] by simp
  show ?case
  proof (cases "hv ?x = 0")
    case True
    have "grow_inv hv t s (Suc i) tab" using Suc.prems True by (intro grow_skip) auto
    then show ?thesis using Suc.IH [OF Suc.prems(1), of "Suc i"] Suc.prems(3) rd w True by simp
  next
    case False
    have h: "unat (hv ?x AND (size' - 1)) = unat (hv ?x) mod (2 * ?n)"
      using size_mask(1) [OF Suc.prems(1), of "hv ?x"] Suc.prems(1) len by (simp add: table_size_def)
    obtain p where p: "rh_first_free hv tab (2 * ?n) (Suc (2 * ?n)) (unat (hv ?x) mod (2 * ?n)) = Some p"
      "p < 2 * ?n" "grow_inv hv t s (Suc i) (tab[p := ?x])"
      using grow_place [OF t Suc.prems(2) _ refl False refl] Suc.prems(3) by auto
    have "table_size (tab[p := ?x]) size'" using Suc.prems(1) by (simp add: table_size_def)
    moreover have "wr tab p ?x = Some (tab[p := ?x])"
      using p(2) Suc.prems(1) len by (simp add: wr_def table_size_def)
    ultimately show ?thesis
      using Suc.IH [of "tab[p := ?x]" "Suc i"] Suc.prems(3) p rd w False h len by simp
  qed
qed simp

lemma slot_replicate: "0 < n \<Longrightarrow> slot (replicate n b) x = b"
  by (simp add: slot_def)

lemma occ_rotate: "occ hv (rotate p t) = occ hv t"
proof -
  have "mset (rotate1 l) = mset l" for l :: "'a list" by (cases l) simp_all
  then have "mset (rotate p t) = mset t" by (induction p) (simp_all add: rotate_def)
  then show ?thesis by (simp add: occ_def)
qed

lemma rh_grow_spec:
  assumes t: "rh_sorted hv t" "y < length t" "hv (t ! y) = 0"
    and ts: "table_size t size0" "table_size (replicate (unat size') blank) size'" "unat size' = 2 * length t"
    and bl: "hv blank = 0"
  shows "\<exists>t'. rh_grow hv blank t (length t) size' = Some t' \<and> table_size t' size' \<and> rh_sorted hv t' \<and>
    occ hv t' = occ hv t"
proof -
  let ?n = "length t" let ?tab = "replicate (unat size') blank"
  have n: "0 < ?n" using t(2) by linarith
  have "hv (slot t (0 + y)) = 0" using t(2,3) by (simp add: slot_def)
  then obtain k where k: "k \<le> y" "hv (slot t (0 + k)) = 0" "\<And>l. l < k \<Longrightarrow> hv (slot t (0 + l)) \<noteq> 0"
    using first_free_exists by metis
  have kn: "k < ?n" using k(1) t(2) by simp
  have ff: "rh_first_free hv t ?n (Suc ?n) 0 = Some k"
    using rh_first_free_spec [of t ?n hv 0 k "Suc ?n"] k kn n by simp
  have "grow_inv hv t k 0 ?tab"
    using n bl ts(3) by (simp add: grow_inv_def rh_sorted_def rank_def slot_replicate occ_def)
  then obtain t' where t': "rh_copy hv t ?n size' ?n k ?tab = Some t'" "grow_inv hv t k ?n t'"
    using rh_copy_spec [OF t(1) kn _ ts(2,3), of 0 ?n] k(2) kn by auto
  have "occ hv t' = occ hv (rotate k t)" "rh_sorted hv t'" "length t' = 2 * ?n"
    using t'(2) by (simp_all add: grow_inv_def)
  then show ?thesis
    using t'(1) ff n ts(2,3) by (simp add: rh_grow_def table_size_def occ_rotate)
qed

section \<open>The operations as a whole\<close>

text \<open>A table in use: its size, the Robin Hood order, and at least one free slot.\<close>

definition rh_table :: "('e \<Rightarrow> uint) \<Rightarrow> 'e list \<Rightarrow> uint \<Rightarrow> bool" where
  "rh_table hv t size' \<longleftrightarrow> table_size t size' \<and> rh_sorted hv t \<and> (\<exists>e \<in> set t. hv e = 0)"

lemma occ_set: "e \<in># occ hv t \<longleftrightarrow> e \<in> set t \<and> hv e \<noteq> 0"
  by (auto simp: occ_def)


lemma rh_insert:
  assumes tb: "rh_table hv t size'" and ip: "insertion_point hv t h j" and p: "p = (h + j) mod length t"
    and new: "hv new \<noteq> 0" "unat (hv new) mod length t = h mod length t"
  shows "\<exists>t1. rh_shift_right hv t (length t) p = Some t1 \<and> p < length t1 \<and> table_size (t1[p := new]) size' \<and>
    rh_sorted hv (t1[p := new]) \<and> occ hv (t1[p := new]) = add_mset new (occ hv t)"
proof -
  have ts: "table_size t size'" "rh_sorted hv t" using tb by (simp_all add: rh_table_def)
  obtain y where y: "y < length t" "hv (t ! y) = 0" using tb by (auto simp: rh_table_def in_set_conv_nth)
  have n: "0 < length t" using y(1) by linarith
  have pn: "p < length t" using n by (simp add: p)
  have jn: "j < length t"
  proof (rule ccontr)
    assume "\<not> j < length t"
    then have "length t - 1 < j" using n by linarith
    then have "length t - 1 < rank hv t (h + (length t - 1))" using ip unfolding insertion_point_def by blast
    with rank_less [OF ts(2) y, of "h + (length t - 1)"] n show False by linarith
  qed
  have "\<exists>x \<in> set (rotate p t). hv x = 0" using tb by (simp add: rh_table_def)
  then obtain A f B where r: "rotate p t = A @ f # B" "hv f = 0" "\<forall>a \<in> set A. hv a \<noteq> 0"
    using split_list_first_prop [of "rotate p t" "\<lambda>x. hv x = 0"] by blast
  obtain t1 where t1: "rh_shift_right hv t (length t) p = Some t1" "length t1 = length t"
    "rotate p (t1[p := new]) = new # A @ B"
    using rh_shift_right_spec [where hv = hv, OF pn r(1,3,2)] by blast
  have "rh_sorted hv (t1[p := new])"
    using t1 by (intro sorted_insert [OF ts(2) pn p r(1,3,2) _ _ new ip jn]) auto
  moreover have "occ hv (t1[p := new]) = add_mset new (occ hv t)"
    using occ_rotate [of hv p t] occ_rotate [of hv p "t1[p := new]"] t1(3) r new(1) by (simp add: occ_def)
  ultimately show ?thesis using t1 ts pn by (auto simp: table_size_def)
qed

lemma rh_delete:
  assumes tb: "rh_table hv t size'" and p: "p < length t" "hv (t ! p) \<noteq> 0"
    and cl: "\<And>e. hv (clear e) = 0"
  shows "\<exists>t'. rh_remove hv clear t size' p = Some t' \<and> rh_table hv t' size' \<and>
    occ hv t = add_mset (t ! p) (occ hv t')"
proof -
  have ts: "table_size t size'" "rh_sorted hv t" using tb by (simp_all add: rh_table_def)
  obtain y where y: "y < length t" "hv (t ! y) = 0" using tb by (auto simp: rh_table_def in_set_conv_nth)
  obtain k x A B where r: "rotate p t = x # A @ B" "k = length A"
    "\<And>l. 0 < l \<Longrightarrow> l \<le> k \<Longrightarrow> 1 < rank hv t (p + l)" "rank hv t (p + Suc k) \<le> 1"
    using removal_run [OF ts(2) p(1) y] by blast
  obtain t' where t': "rh_remove hv clear t size' p = Some t'" "length t' = length t"
    "rotate p t' = A @ clear (last (x # A)) # B"
    using rh_remove_spec [OF ts(1) p(1) r, of clear] by blast
  have x: "x = t ! p" using r(1) p(1) nth_rotate [of 0 t p] by (cases t) auto
  have "rh_sorted hv t'" using sorted_remove [OF ts(2) p(1) r t'(3,2) cl] .
  moreover have "occ hv t = add_mset x (occ hv t')"
    using occ_rotate [of hv p t] occ_rotate [of hv p t'] t'(3) r(1) p(2) x cl by (simp add: occ_def)
  moreover have "\<exists>e \<in> set t'. hv e = 0"
    using t'(3) cl set_rotate [of p t'] by (metis in_set_conv_decomp)
  ultimately show ?thesis using t' ts x by (auto simp: table_size_def rh_table_def)
qed

lemma rh_table_grow:
  assumes tb: "rh_table hv t size0" and ts: "table_size (replicate (unat size') blank) size'" "unat size' = 2 * length t"
    and bl: "hv blank = 0"
  shows "\<exists>t'. rh_grow hv blank t (length t) size' = Some t' \<and> rh_table hv t' size' \<and> occ hv t' = occ hv t"
proof -
  obtain y where y: "y < length t" "hv (t ! y) = 0" using tb by (auto simp: rh_table_def in_set_conv_nth)
  obtain t' where t': "rh_grow hv blank t (length t) size' = Some t'" "table_size t' size'" "rh_sorted hv t'"
    "occ hv t' = occ hv t"
    using rh_grow_spec [where hv = hv and t = t and y = y and blank = blank and size' = size'] y ts tb bl
    by (auto simp: rh_table_def)
  have "\<exists>e \<in> set t'. hv e = 0"
  proof (rule ccontr)
    assume "\<not> ?thesis"
    then have "filter (\<lambda>e. hv e \<noteq> 0) t' = t'" by (auto simp: filter_id_conv)
    then have "size (occ hv t') = length t'" by (simp add: occ_def)
    moreover have "size (occ hv t) \<le> length t" unfolding occ_def by (metis length_filter_le size_mset)
    ultimately show False using t' ts y(1) by (auto simp: table_size_def)
  qed
  with t' show ?thesis by (auto simp: rh_table_def)
qed

text \<open>A table with fewer entries than slots has a free one.\<close>

lemma free_slot_exists: "size (occ hv t) < length t \<Longrightarrow> \<exists>e \<in> set t. hv e = 0"
proof (rule ccontr)
  assume a: "size (occ hv t) < length t" "\<not> (\<exists>e \<in> set t. hv e = 0)"
  then have "filter (\<lambda>e. hv e \<noteq> 0) t = t" by (auto simp: filter_id_conv)
  with a(1) show False by (simp add: occ_def)
qed

lemma rh_table_blank:
  assumes "table_size (replicate (unat size') blank) size'" "hv blank = 0"
  shows "rh_table hv (replicate (unat size') blank) size'" "occ hv (replicate (unat size') blank) = {#}"
proof -
  have "0 < unat size'" using table_size_le [OF assms(1)] by simp
  then show "rh_table hv (replicate (unat size') blank) size'"
    using assms by (auto simp: rh_table_def rh_sorted_def rank_def slot_replicate)
  show "occ hv (replicate (unat size') blank) = {#}" using assms(2) by (simp add: occ_def)
qed

end
