(* ===== verification/Hash.thy ===== *)
theory Hash
  imports Xmlstring RobinHood
begin

text \<open>
  The hash tables of \<open>hash.c\<close>: up to three string keys, open addressing with Robin Hood
  reordering (theory \<open>RobinHood\<close>), lazily allocated and grown by doubling.

  Strings are values, so a test of two pointers for identity, which the code uses as a short cut
  before comparing the strings, does not appear.  The table pointer is the list of slots, empty
  for NULL.  A deallocator is a flag (is it NULL?) and the list of its calls is part of the result.
  \<open>mem i n\<close> says whether the \<open>i\<close>-th allocation of a call, of \<open>n\<close> bytes, succeeds.
  The dictionary of a table is given by what \<open>hash.c\<close> uses of it, \<open>xmlDictOwns\<close> and
  \<open>xmlDictLookup\<close>.
\<close>

section \<open>Data\<close>

abbreviation MAX_FILL_NUM :: uint where "MAX_FILL_NUM \<equiv> 7"
abbreviation MAX_FILL_DENOM :: uint where "MAX_FILL_DENOM \<equiv> 8"
abbreviation MIN_HASH_SIZE :: uint where "MIN_HASH_SIZE \<equiv> 8"
abbreviation MAX_HASH_SIZE :: uint where "MAX_HASH_SIZE \<equiv> 0x80000000"

record 'p xmlHashEntry =
  hashValue :: uint
  key :: xmlString
  key2 :: xmlString
  key3 :: xmlString
  payload :: "'p ptr"

record xmlDictOps =
  dict_owns :: "xmlString \<Rightarrow> bool"
  dict_lookup :: "xmlString \<Rightarrow> xmlString"

record 'p xmlHashTable =
  table :: "'p xmlHashEntry list"
  tsize :: uint
  nbElems :: uint
  dict :: "xmlDictOps ptr"
  randomSeed :: uint

definition blank_entry :: "'p xmlHashEntry" where
  "blank_entry = \<lparr>hashValue = 0, key = NULL, key2 = NULL, key3 = NULL, payload = NULL\<rparr>"

section \<open>Hash values\<close>

definition HASH_ROL :: "uint \<Rightarrow> nat \<Rightarrow> uint" where
  "HASH_ROL x n = push_bit n x OR drop_bit (32 - n) (x AND 0xFFFFFFFF)"

definition HASH_ROR :: "uint \<Rightarrow> nat \<Rightarrow> uint" where
  "HASH_ROR x n = drop_bit n (x AND 0xFFFFFFFF) OR push_bit (32 - n) x"

definition HASH_INIT :: "uint \<Rightarrow> uint \<times> uint" where
  "HASH_INIT seed = (seed XOR 0x3b00, HASH_ROL seed 15)"

definition HASH_UPDATE :: "uint \<times> uint \<Rightarrow> uint \<Rightarrow> uint \<times> uint" where
  "HASH_UPDATE h c =
     (let h1 = fst h + c;
          h1 = h1 + push_bit 3 h1;
          h2 = snd h + h1;
          h2 = HASH_ROL h2 7;
          h2 = h2 + push_bit 2 h2
      in (h1, h2))"

definition HASH_FINISH :: "uint \<times> uint \<Rightarrow> uint" where
  "HASH_FINISH h =
     (let (h1, h2) = h;
          h1 = h1 XOR h2;
          h1 = h1 + HASH_ROL h2 14;
          h2 = h2 XOR h1;
          h2 = h2 + HASH_ROR h1 6;
          h1 = h1 XOR h2;
          h1 = h1 + HASH_ROL h2 5;
          h2 = h2 XOR h1;
          h2 = h2 + HASH_ROR h1 8
      in h2 AND 0xFFFFFFFF)"

text \<open>\<open>for (i = 0; key[i] != 0; i++) HASH_UPDATE(h1, h2, key[i]);\<close>\<close>

fun hash_string :: "uint \<times> uint \<Rightarrow> bytes \<Rightarrow> nat \<Rightarrow> ((uint \<times> uint) \<times> nat) option" where
  "hash_string h [] i = None"
| "hash_string h (c # s) i =
     (if c = 0 then Some (h, i) else hash_string (HASH_UPDATE h (ucast c)) s (Suc i))"

definition hash_opt :: "uint \<times> uint \<Rightarrow> xmlString \<Rightarrow> ((uint \<times> uint) \<times> nat) option" where
  "hash_opt h k = (case k of NULL \<Rightarrow> Some (h, 0) | Ptr s \<Rightarrow> hash_string h s 0)"

definition xmlHashValue ::
  "uint \<Rightarrow> xmlString \<Rightarrow> xmlString \<Rightarrow> xmlString \<Rightarrow> (uint \<times> nat \<times> nat \<times> nat) option" where
  "xmlHashValue seed k k2 k3 =
     (case k of
        NULL \<Rightarrow> None
      | Ptr s \<Rightarrow> do {
          (h, l) \<leftarrow> hash_string (HASH_INIT seed) s 0;
          (h, l2) \<leftarrow> hash_opt (HASH_UPDATE h 0) k2;
          (h, l3) \<leftarrow> hash_opt (HASH_UPDATE h 0) k3;
          Some (HASH_FINISH h, l, l2, l3) })"

text \<open>\<open>if (prefix != NULL) { ... ':' } if (name != NULL) { ... }\<close>\<close>

definition hash_qname :: "uint \<times> uint \<Rightarrow> xmlString \<Rightarrow> xmlString \<Rightarrow> (uint \<times> uint) option" where
  "hash_qname h prefix' name = do {
     h \<leftarrow> (case prefix' of
             NULL \<Rightarrow> Some h
           | Ptr p \<Rightarrow> do {
               (h, _) \<leftarrow> hash_string h p 0;
               Some (HASH_UPDATE h (ucast (ch (CHR '':'')))) });
     (h, _) \<leftarrow> hash_opt h name;
     Some h }"

definition xmlHashQNameValue ::
  "uint \<Rightarrow> xmlString \<Rightarrow> xmlString \<Rightarrow> xmlString \<Rightarrow> xmlString \<Rightarrow> xmlString \<Rightarrow> xmlString \<Rightarrow> uint option" where
  "xmlHashQNameValue seed prefix1 name1 prefix2 name2 prefix3 name3 = do {
     h \<leftarrow> hash_qname (HASH_INIT seed) prefix1 name1;
     h \<leftarrow> hash_qname (HASH_UPDATE h 0) prefix2 name2;
     h \<leftarrow> hash_qname (HASH_UPDATE h 0) prefix3 name3;
     Some (HASH_FINISH h) }"

section \<open>Searching and growing\<close>

definition xmlFastStrEqual :: "xmlString \<Rightarrow> xmlString \<Rightarrow> bool option" where
  "xmlFastStrEqual s1 s2 =
     (case s1 of
        NULL \<Rightarrow> Some (s2 = NULL)
      | Ptr a \<Rightarrow> (case s2 of NULL \<Rightarrow> Some False | Ptr b \<Rightarrow> map_option (\<lambda>d. d = 0) (strcmp_loop a b)))"

text \<open>The comparison inside the loop of \<open>xmlHashFindEntry\<close>; \<open>hashValue'\<close> has the top bit set.\<close>

definition entry_matches ::
  "uint \<Rightarrow> xmlString \<Rightarrow> xmlString \<Rightarrow> xmlString \<Rightarrow> 'p xmlHashEntry \<Rightarrow> bool option" where
  "entry_matches hashValue' k k2 k3 e =
     (if hashValue e = hashValue' then do {
        b \<leftarrow> (case (key e, k) of (Ptr a, Ptr c) \<Rightarrow> map_option (\<lambda>d. d = 0) (strcmp_loop a c) | _ \<Rightarrow> None);
        if \<not> b then Some False
        else do {
          b2 \<leftarrow> xmlFastStrEqual (key2 e) k2;
          if \<not> b2 then Some False else xmlFastStrEqual (key3 e) k3 } }
      else Some False)"

definition xmlHashFindEntry ::
  "'p xmlHashTable \<Rightarrow> xmlString \<Rightarrow> xmlString \<Rightarrow> xmlString \<Rightarrow> uint \<Rightarrow> (nat \<times> bool) option" where
  "xmlHashFindEntry hash k k2 k3 hashValue' =
     rh_lookup hashValue (entry_matches (hashValue' OR MAX_HASH_SIZE) k k2 k3)
       (table hash) (tsize hash) hashValue'"

abbreviation sizeof_xmlHashEntry :: nat where "sizeof_xmlHashEntry \<equiv> 40"
abbreviation sizeof_xmlHashTable :: nat where "sizeof_xmlHashTable \<equiv> 32"
abbreviation SIZE_MAX_nat :: nat where "SIZE_MAX_nat \<equiv> 2 ^ 64 - 1"

definition xmlHashGrow :: "allocator \<Rightarrow> 'p xmlHashTable \<Rightarrow> uint \<Rightarrow> (int \<times> 'p xmlHashTable) option" where
  "xmlHashGrow mem hash newSize =
     (if unat newSize > SIZE_MAX_nat div sizeof_xmlHashEntry then Some (- 1, hash)
      else if \<not> mem (unat newSize * sizeof_xmlHashEntry) then Some (- 1, hash)
      else do {
        tab \<leftarrow> rh_grow hashValue blank_entry (table hash) (unat (tsize hash)) newSize;
        Some (0, hash\<lparr>table := tab, tsize := newSize\<rparr>) })"

text \<open>\<open>while ((newSize < size) && (newSize < MAX_HASH_SIZE)) newSize *= 2;\<close>\<close>

fun create_size :: "nat \<Rightarrow> uint \<Rightarrow> uint \<Rightarrow> uint option" where
  "create_size 0 newSize sz = None"
| "create_size (Suc fuel) newSize sz =
     (if newSize < sz \<and> newSize < MAX_HASH_SIZE then create_size fuel (newSize * 2) sz else Some newSize)"

definition xmlHashCreate :: "(nat \<Rightarrow> allocator) \<Rightarrow> uint \<Rightarrow> int \<Rightarrow> 'p xmlHashTable ptr option" where
  "xmlHashCreate mem seed sz =
     (if \<not> mem 0 sizeof_xmlHashTable then Some NULL
      else let hash = \<lparr>table = [], tsize = 0, nbElems = 0, dict = NULL, randomSeed = seed\<rparr>
           in if sz > 8 then do {
                newSize \<leftarrow> create_size 32 (MIN_HASH_SIZE * 2) (word_of_int sz);
                (r, hash') \<leftarrow> xmlHashGrow (mem 1) hash newSize;
                Some (if r \<noteq> 0 then NULL else Ptr hash') }
              else Some (Ptr hash))"

definition xmlHashCreateDict ::
  "(nat \<Rightarrow> allocator) \<Rightarrow> uint \<Rightarrow> int \<Rightarrow> xmlDictOps ptr \<Rightarrow> 'p xmlHashTable ptr option" where
  "xmlHashCreateDict mem seed sz d = do {
     hash \<leftarrow> xmlHashCreate mem seed sz;
     Some (case hash of NULL \<Rightarrow> NULL | Ptr h \<Rightarrow> Ptr (h\<lparr>dict := d\<rparr>)) }"

text \<open>The calls of the deallocator in \<open>xmlHashFree\<close>, in order.\<close>

definition xmlHashFree :: "'p xmlHashTable ptr \<Rightarrow> bool \<Rightarrow> ('p ptr \<times> xmlString) list" where
  "xmlHashFree hash dealloc =
     (case hash of
        NULL \<Rightarrow> []
      | Ptr h \<Rightarrow>
          concat (map (\<lambda>entry. if hashValue entry = 0 then []
                               else if dealloc \<and> payload entry \<noteq> NULL then [(payload entry, key entry)]
                               else []) (table h)))"

section \<open>Adding and updating\<close>

text \<open>Copying the keys: \<open>Some None\<close> is the failure path \<open>return(-1)\<close>.\<close>

definition dict_copy :: "xmlDictOps \<Rightarrow> xmlString \<Rightarrow> xmlString option" where
  "dict_copy d k =
     (if k = NULL \<or> dict_owns d k then Some k
      else case dict_lookup d k of NULL \<Rightarrow> None | Ptr s \<Rightarrow> Some (Ptr s))"

definition mem_copy :: "allocator \<Rightarrow> xmlString \<Rightarrow> nat \<Rightarrow> xmlString option option" where
  "mem_copy mem k l =
     (case k of
        NULL \<Rightarrow> Some (Some NULL)
      | Ptr s \<Rightarrow>
          if \<not> mem (l + 1) then Some None
          else do { c \<leftarrow> copy_in (l + 1) s; Some (Some (Ptr c)) })"

definition copy_keys ::
  "(nat \<Rightarrow> allocator) \<Rightarrow> xmlDictOps ptr \<Rightarrow> xmlString \<Rightarrow> xmlString \<Rightarrow> xmlString \<Rightarrow> nat \<times> nat \<times> nat \<Rightarrow>
   (xmlString \<times> xmlString \<times> xmlString) option option" where
  "copy_keys mem d k k2 k3 lengths =
     (case d of
        Ptr ops \<Rightarrow>
          Some (do {
            copy \<leftarrow> dict_copy ops k;
            copy2 \<leftarrow> dict_copy ops k2;
            copy3 \<leftarrow> dict_copy ops k3;
            Some (copy, copy2, copy3) })
      | NULL \<Rightarrow>
          (let (l, l2, l3) = lengths
           in do {
             r \<leftarrow> mem_copy (mem 1) k l;
             case r of
               None \<Rightarrow> Some None
             | Some copy \<Rightarrow> do {
                 r2 \<leftarrow> mem_copy (mem 2) k2 l2;
                 case r2 of
                   None \<Rightarrow> Some None
                 | Some copy2 \<Rightarrow> do {
                     r3 \<leftarrow> mem_copy (mem 3) k3 l3;
                     Some (map_option (\<lambda>copy3. (copy, copy2, copy3)) r3) } } }))"

text \<open>The tail of \<open>xmlHashUpdateInternal\<close>: copy the keys, make room, populate the entry.\<close>

definition hash_insert_at ::
  "(nat \<Rightarrow> allocator) \<Rightarrow> 'p xmlHashTable \<Rightarrow> xmlString \<Rightarrow> xmlString \<Rightarrow> xmlString \<Rightarrow> nat \<times> nat \<times> nat \<Rightarrow>
   'p ptr \<Rightarrow> uint \<Rightarrow> nat \<Rightarrow> (int \<times> 'p xmlHashTable) option" where
  "hash_insert_at mem hash k k2 k3 lengths pl hashValue' entry = do {
     copies \<leftarrow> copy_keys mem (dict hash) k k2 k3 lengths;
     case copies of
       None \<Rightarrow> Some (- 1, hash)
     | Some (copy, copy2, copy3) \<Rightarrow> do {
         t1 \<leftarrow> rh_shift_right hashValue (table hash) (unat (tsize hash)) entry;
         t2 \<leftarrow> wr t1 entry \<lparr>hashValue = hashValue' OR MAX_HASH_SIZE, key = copy, key2 = copy2,
                            key3 = copy3, payload = pl\<rparr>;
         Some (1, hash\<lparr>table := t2, nbElems := nbElems hash + 1\<rparr>) } }"

text \<open>\<open>newSize > 0\<close>: grow the table, then find the new entry position.\<close>

definition hash_grow_find ::
  "allocator \<Rightarrow> 'p xmlHashTable \<Rightarrow> uint \<Rightarrow> uint \<Rightarrow> ('p xmlHashTable \<times> nat) option option" where
  "hash_grow_find mem hash newSize hashValue' = do {
     (r, hash') \<leftarrow> xmlHashGrow mem hash newSize;
     if r \<noteq> 0 then Some None
     else do {
       (entry, _) \<leftarrow> rh_lookup hashValue (\<lambda>_. Some False) (table hash') (tsize hash') hashValue';
       Some (Some (hash', entry)) } }"

definition xmlHashUpdateInternal ::
  "(nat \<Rightarrow> allocator) \<Rightarrow> 'p xmlHashTable ptr \<Rightarrow> xmlString \<Rightarrow> xmlString \<Rightarrow> xmlString \<Rightarrow> 'p ptr \<Rightarrow>
   bool \<Rightarrow> bool \<Rightarrow> (int \<times> 'p xmlHashTable ptr \<times> ('p ptr \<times> xmlString) list) option" where
  "xmlHashUpdateInternal mem hashp k k2 k3 pl dealloc update =
     (case hashp of
        NULL \<Rightarrow> Some (- 1, hashp, [])
      | Ptr hash \<Rightarrow>
        if k = NULL then Some (- 1, hashp, [])
        else do {
          (hv, lengths) \<leftarrow> xmlHashValue (randomSeed hash) k k2 k3;
          let ins = (\<lambda>hash entry. do {
                (r, hash') \<leftarrow> hash_insert_at mem hash k k2 k3 lengths pl hv entry;
                Some (r, Ptr hash', []) });
          let grow = (\<lambda>newSize. do {
                g \<leftarrow> hash_grow_find (mem 0) hash newSize hv;
                case g of
                  None \<Rightarrow> Some (- 1, hashp, [])
                | Some (hash', entry) \<Rightarrow> ins hash' entry });
          if tsize hash = 0 then grow MIN_HASH_SIZE
          else do {
            (entry, found) \<leftarrow> xmlHashFindEntry hash k k2 k3 hv;
            if found then
              (if update then do {
                 e \<leftarrow> rd (table hash) entry;
                 t \<leftarrow> wr (table hash) entry (e\<lparr>payload := pl\<rparr>);
                 Some (0, Ptr (hash\<lparr>table := t\<rparr>), if dealloc then [(payload e, key e)] else []) }
               else Some (0, hashp, []))
            else if nbElems hash + 1 > tsize hash div MAX_FILL_DENOM * MAX_FILL_NUM then
              (if tsize hash \<ge> MAX_HASH_SIZE then Some (- 1, hashp, [])
               else grow (tsize hash * 2))
            else ins hash entry } })"

definition xmlHashAdd where
  "xmlHashAdd mem hash k pl = xmlHashUpdateInternal mem hash k NULL NULL pl False False"

definition xmlHashAdd2 where
  "xmlHashAdd2 mem hash k k2 pl = xmlHashUpdateInternal mem hash k k2 NULL pl False False"

definition xmlHashAdd3 where
  "xmlHashAdd3 mem hash k k2 k3 pl = xmlHashUpdateInternal mem hash k k2 k3 pl False False"

definition xmlHashAddEntry3 where
  "xmlHashAddEntry3 mem hash k k2 k3 pl = do {
     (res, hash', freed) \<leftarrow> xmlHashUpdateInternal mem hash k k2 k3 pl False False;
     Some (if res = 0 then - 1 else if res = 1 then 0 else res, hash', freed) }"

definition xmlHashAddEntry2 where
  "xmlHashAddEntry2 mem hash k k2 pl = do {
     (res, hash', freed) \<leftarrow> xmlHashUpdateInternal mem hash k k2 NULL pl False False;
     Some (if res = 0 then - 1 else if res = 1 then 0 else res, hash', freed) }"

definition xmlHashAddEntry where
  "xmlHashAddEntry mem hash k pl = do {
     (res, hash', freed) \<leftarrow> xmlHashUpdateInternal mem hash k NULL NULL pl False False;
     Some (if res = 0 then - 1 else if res = 1 then 0 else res, hash', freed) }"

definition xmlHashUpdateEntry3 where
  "xmlHashUpdateEntry3 mem hash k k2 k3 pl dealloc = do {
     (res, hash', freed) \<leftarrow> xmlHashUpdateInternal mem hash k k2 k3 pl dealloc True;
     Some (if res = 1 then 0 else res, hash', freed) }"

definition xmlHashUpdateEntry2 where
  "xmlHashUpdateEntry2 mem hash k k2 pl dealloc = do {
     (res, hash', freed) \<leftarrow> xmlHashUpdateInternal mem hash k k2 NULL pl dealloc True;
     Some (if res = 1 then 0 else res, hash', freed) }"

definition xmlHashUpdateEntry where
  "xmlHashUpdateEntry mem hash k pl dealloc = do {
     (res, hash', freed) \<leftarrow> xmlHashUpdateInternal mem hash k NULL NULL pl dealloc True;
     Some (if res = 1 then 0 else res, hash', freed) }"

section \<open>Lookup\<close>

definition xmlHashLookup3 ::
  "'p xmlHashTable ptr \<Rightarrow> xmlString \<Rightarrow> xmlString \<Rightarrow> xmlString \<Rightarrow> 'p ptr option" where
  "xmlHashLookup3 hashp k k2 k3 =
     (case hashp of
        NULL \<Rightarrow> Some NULL
      | Ptr hash \<Rightarrow>
        if tsize hash = 0 \<or> k = NULL then Some NULL
        else do {
          (hv, _) \<leftarrow> xmlHashValue (randomSeed hash) k k2 k3;
          (entry, found) \<leftarrow> xmlHashFindEntry hash k k2 k3 hv;
          if found then do { e \<leftarrow> rd (table hash) entry; Some (payload e) } else Some NULL })"

definition xmlHashLookup where
  "xmlHashLookup hash k = xmlHashLookup3 hash k NULL NULL"

definition xmlHashLookup2 where
  "xmlHashLookup2 hash k k2 = xmlHashLookup3 hash k k2 NULL"

text \<open>The comparison inside the loop of \<open>xmlHashQLookup3\<close>.\<close>

definition qentry_matches ::
  "uint \<Rightarrow> xmlString \<times> xmlString \<Rightarrow> xmlString \<times> xmlString \<Rightarrow> xmlString \<times> xmlString \<Rightarrow>
   'p xmlHashEntry \<Rightarrow> bool option" where
  "qentry_matches hashValue' q1 q2 q3 e =
     (if hashValue' = hashValue e then do {
        b \<leftarrow> xmlStrQEqual False (fst q1) (snd q1) (key e);
        if \<not> b then Some False
        else do {
          b2 \<leftarrow> xmlStrQEqual False (fst q2) (snd q2) (key2 e);
          if \<not> b2 then Some False else xmlStrQEqual False (fst q3) (snd q3) (key3 e) } }
      else Some False)"

definition xmlHashQLookup3 ::
  "'p xmlHashTable ptr \<Rightarrow> xmlString \<Rightarrow> xmlString \<Rightarrow> xmlString \<Rightarrow> xmlString \<Rightarrow> xmlString \<Rightarrow> xmlString \<Rightarrow>
   'p ptr option" where
  "xmlHashQLookup3 hashp prefix1 name1 prefix2 name2 prefix3 name3 =
     (case hashp of
        NULL \<Rightarrow> Some NULL
      | Ptr hash \<Rightarrow>
        if tsize hash = 0 \<or> name1 = NULL then Some NULL
        else do {
          hv \<leftarrow> xmlHashQNameValue (randomSeed hash) prefix1 name1 prefix2 name2 prefix3 name3;
          (entry, found) \<leftarrow> rh_lookup hashValue
             (qentry_matches (hv OR MAX_HASH_SIZE) (prefix1, name1) (prefix2, name2) (prefix3, name3))
             (table hash) (tsize hash) hv;
          if found then do { e \<leftarrow> rd (table hash) entry; Some (payload e) } else Some NULL })"

definition xmlHashQLookup where
  "xmlHashQLookup hash prefix1 name1 = xmlHashQLookup3 hash prefix1 name1 NULL NULL NULL NULL"

definition xmlHashQLookup2 where
  "xmlHashQLookup2 hash prefix1 name1 prefix2 name2 =
     xmlHashQLookup3 hash prefix1 name1 prefix2 name2 NULL NULL"

definition xmlHashSize :: "'p xmlHashTable ptr \<Rightarrow> int" where
  "xmlHashSize hashp = (case hashp of NULL \<Rightarrow> - 1 | Ptr hash \<Rightarrow> sint (nbElems hash))"

section \<open>Removal\<close>

definition xmlHashRemoveEntry3 ::
  "'p xmlHashTable ptr \<Rightarrow> xmlString \<Rightarrow> xmlString \<Rightarrow> xmlString \<Rightarrow> bool \<Rightarrow>
   (int \<times> 'p xmlHashTable ptr \<times> ('p ptr \<times> xmlString) list) option" where
  "xmlHashRemoveEntry3 hashp k k2 k3 dealloc =
     (case hashp of
        NULL \<Rightarrow> Some (- 1, hashp, [])
      | Ptr hash \<Rightarrow>
        if tsize hash = 0 \<or> k = NULL then Some (- 1, hashp, [])
        else do {
          (hv, _) \<leftarrow> xmlHashValue (randomSeed hash) k k2 k3;
          (entry, found) \<leftarrow> xmlHashFindEntry hash k k2 k3 hv;
          if \<not> found then Some (- 1, hashp, [])
          else do {
            e \<leftarrow> rd (table hash) entry;
            t \<leftarrow> rh_remove hashValue (\<lambda>x. x\<lparr>hashValue := 0\<rparr>) (table hash) (tsize hash) entry;
            Some (0, Ptr (hash\<lparr>table := t, nbElems := nbElems hash - 1\<rparr>),
                  if dealloc \<and> payload e \<noteq> NULL then [(payload e, key e)] else []) } })"

definition xmlHashRemoveEntry where
  "xmlHashRemoveEntry hash k dealloc = xmlHashRemoveEntry3 hash k NULL NULL dealloc"

definition xmlHashRemoveEntry2 where
  "xmlHashRemoveEntry2 hash k k2 dealloc = xmlHashRemoveEntry3 hash k k2 NULL dealloc"

section \<open>Copying\<close>

text \<open>
  The loop of \<open>xmlHashCopySafe\<close> over the slots.  \<open>copyFunc\<close> copies a payload; the result is
  the copied table, or NULL with the deallocator calls of the error path.
\<close>

fun hash_copy_loop ::
  "(nat \<Rightarrow> nat \<Rightarrow> allocator) \<Rightarrow> ('p ptr \<Rightarrow> xmlString \<Rightarrow> 'q ptr) \<Rightarrow> bool \<Rightarrow> 'p xmlHashEntry list \<Rightarrow>
   'q xmlHashTable ptr \<Rightarrow> ('q xmlHashTable ptr \<times> ('q ptr \<times> xmlString) list) option" where
  "hash_copy_loop mem copyFunc dealloc [] ret = Some (ret, [])"
| "hash_copy_loop mem copyFunc dealloc (e # es) ret =
     (if hashValue e = 0 then hash_copy_loop (\<lambda>i. mem (Suc i)) copyFunc dealloc es ret
      else let copy = copyFunc (payload e) (key e)
           in if copy = NULL then Some (NULL, xmlHashFree ret dealloc)
              else do {
                (r, ret', _) \<leftarrow> xmlHashAdd3 (mem 0) ret (key e) (key2 e) (key3 e) copy;
                if r \<le> 0 then
                  Some (NULL, (if dealloc then [(copy, key e)] else []) @ xmlHashFree ret' dealloc)
                else hash_copy_loop (\<lambda>i. mem (Suc i)) copyFunc dealloc es ret' })"

definition xmlHashCopySafe ::
  "(nat \<Rightarrow> nat \<Rightarrow> allocator) \<Rightarrow> uint \<Rightarrow> 'p xmlHashTable ptr \<Rightarrow> ('p ptr \<Rightarrow> xmlString \<Rightarrow> 'q ptr) ptr \<Rightarrow>
   bool \<Rightarrow> ('q xmlHashTable ptr \<times> ('q ptr \<times> xmlString) list) option" where
  "xmlHashCopySafe mem seed hashp copyp dealloc =
     (case (hashp, copyp) of
        (Ptr hash, Ptr copyFunc) \<Rightarrow> do {
          ret \<leftarrow> xmlHashCreate (mem 0) seed (sint (tsize hash));
          if ret = NULL \<or> tsize hash = 0 then Some (ret, [])
          else hash_copy_loop (\<lambda>i. mem (Suc i)) copyFunc dealloc (table hash) ret }
      | _ \<Rightarrow> Some (NULL, []))"

definition xmlHashCopy where
  "xmlHashCopy mem seed hashp copyp = xmlHashCopySafe mem seed hashp copyp False"

end
