(* ===== verification/Refinement.thy ===== *)
theory Refinement
  imports Prelude
begin

text \<open>
  What it means for a component to implement an abstract data type: every operation, applied to
  a state that satisfies the invariant, returns (no out-of-bounds access, no exhausted fuel),
  keeps the invariant, and its result and new state are allowed by the specification of the
  operation on the abstract state.  The locale lifts this to arbitrary sequences of operations;
  it is interpreted on the hash tables, the dictionaries, the lists and the buffers.
\<close>

primrec run_ops :: "('op \<Rightarrow> 's \<Rightarrow> ('r \<times> 's) option) \<Rightarrow> 'op list \<Rightarrow> 's \<Rightarrow> ('r list \<times> 's) option" where
  "run_ops step [] s = Some ([], s)"
| "run_ops step (op # ops) s = do {
     (r, s') \<leftarrow> step op s;
     (rs, s'') \<leftarrow> run_ops step ops s';
     Some (r # rs, s'') }"

primrec spec_ops :: "('op \<Rightarrow> 'a \<Rightarrow> 'r \<Rightarrow> 'a \<Rightarrow> bool) \<Rightarrow> 'op list \<Rightarrow> 'a \<Rightarrow> 'r list \<Rightarrow> 'a \<Rightarrow> bool" where
  "spec_ops spec [] a rs a' \<longleftrightarrow> rs = [] \<and> a' = a"
| "spec_ops spec (op # ops) a rs a' \<longleftrightarrow>
     (\<exists>r rs' b. rs = r # rs' \<and> spec op a r b \<and> spec_ops spec ops b rs' a')"

locale implementation =
  fixes step :: "'op \<Rightarrow> 's \<Rightarrow> ('r \<times> 's) option"
    and spec :: "'op \<Rightarrow> 'a \<Rightarrow> 'r \<Rightarrow> 'a \<Rightarrow> bool"
    and inv :: "'s \<Rightarrow> bool"
    and abs :: "'s \<Rightarrow> 'a"
    and legal :: "'op \<Rightarrow> bool"
  assumes step_refines:
    "inv s \<Longrightarrow> legal op \<Longrightarrow> \<exists>r s'. step op s = Some (r, s') \<and> inv s' \<and> spec op (abs s) r (abs s')"
begin

lemma run_refines:
  assumes "inv s" "\<forall>op \<in> set ops. legal op"
  shows "\<exists>rs s'. run_ops step ops s = Some (rs, s') \<and> inv s' \<and> spec_ops spec ops (abs s) rs (abs s')"
  using assms
proof (induction ops arbitrary: s)
  case (Cons op ops)
  then obtain r s1 where 1: "step op s = Some (r, s1)" "inv s1" "spec op (abs s) r (abs s1)"
    using step_refines by fastforce
  with Cons obtain rs s2 where "run_ops step ops s1 = Some (rs, s2)" "inv s2"
    "spec_ops spec ops (abs s1) rs (abs s2)" by fastforce
  with 1 show ?case by auto
qed simp

lemma run_prefix_inv:
  assumes "inv s" "\<forall>op \<in> set (ops @ ops'). legal op"
  shows "\<exists>rs s'. run_ops step ops s = Some (rs, s') \<and> inv s' \<and>
    (\<exists>rs' s''. run_ops step ops' s' = Some (rs', s'') \<and> inv s'')"
proof -
  obtain rs s' where "run_ops step ops s = Some (rs, s')" "inv s'"
    using run_refines [OF assms(1), of ops] assms(2) by auto
  moreover from this(2) obtain rs' s'' where "run_ops step ops' s' = Some (rs', s'')" "inv s''"
    using run_refines [of s' ops'] assms(2) by auto
  ultimately show ?thesis by blast
qed

end

end
