(* ===== verification/KeyedTable.thy ===== *)
theory KeyedTable
  imports RobinHood
begin

text \<open>
  Robin Hood tables whose entries carry a key: the layer between the table machinery of theory
  \<open>RobinHood\<close> and the two clients, the hash tables of \<open>hash.c\<close> and the dictionaries of
  \<open>dict.c\<close>.  An entry is stored under the hash of its key with the top bit set, so that it is
  never taken for a free slot.
\<close>

section \<open>Sizes and hash values\<close>

lemma top_bit_nonzero: "x OR 0x80000000 \<noteq> (0 :: uint)"
proof
  assume "x OR 0x80000000 = 0"
  then have "bit (x OR 0x80000000) 31 = bit (0 :: uint) 31" by simp
  moreover have "bit (0x80000000 :: uint) 31" by code_simp
  ultimately show False by (simp add: bit_or_iff)
qed

lemma top_bit_mod:
  assumes "table_size t sz"
  shows "unat (x OR 0x80000000 :: uint) mod length t = unat x mod length t"
proof -
  from assms obtain k where k: "k \<le> 31" "sz = 2 ^ k" by (rule table_sizeE)
  have "(x OR 0x80000000) AND (sz - 1) = take_bit k (x OR 0x80000000)"
    by (simp add: k take_bit_eq_mask mask_eq_exp_minus_1)
  also have "\<dots> = take_bit k x OR take_bit k 0x80000000" by (rule take_bit_or)
  also have "take_bit k (0x80000000 :: uint) = take_bit k (push_bit 31 1)" by simp
  also have "\<dots> = 0" using k(1) by (simp only: take_bit_push_bit) simp
  also have "take_bit k x OR 0 = x AND (sz - 1)" by (simp add: k take_bit_eq_mask mask_eq_exp_minus_1)
  finally show ?thesis using size_mask(1) [OF assms] by metis
qed

lemma unat_double: "x < 0x80000000 \<Longrightarrow> unat (x * 2 :: uint) = 2 * unat x"
  by (simp add: word_less_nat_alt unat_mult_lem [THEN iffD1])

lemma table_size_double:
  assumes "table_size t sz" "sz < 0x80000000"
  shows "table_size (replicate (unat (sz * 2)) b) (sz * 2)" "unat (sz * 2) = 2 * length t"
proof -
  from assms(1) obtain k where k: "k \<le> 31" "sz = 2 ^ k" "length t = 2 ^ k" "unat sz = 2 ^ k" by (rule table_sizeE)
  have "k \<noteq> 31" using assms(2) k(2) by auto
  with k show "table_size (replicate (unat (sz * 2)) b) (sz * 2)"
    by (auto simp: table_size_def mult.commute intro!: exI [of _ "Suc k"])
  show "unat (sz * 2) = 2 * length t" using unat_double [OF assms(2)] k by simp
qed

lemma table_size_min: "table_size (replicate 8 b) 8"
  by (auto simp: table_size_def intro!: exI [of _ 3])

lemma unat_fill: "unat sz \<le> 2147483648 \<Longrightarrow> unat (sz div 8 * 7 :: uint) = unat sz div 8 * 7"
proof -
  assume "unat sz \<le> 2147483648"
  moreover have "unat (sz div 8) = unat sz div 8" by (simp add: unat_div)
  ultimately show ?thesis by (simp add: unat_mult_lem [THEN iffD1])
qed

section \<open>Entries with distinct keys\<close>

definition keyed :: "('e \<Rightarrow> 'k) \<Rightarrow> ('e \<Rightarrow> bool) \<Rightarrow> 'e multiset \<Rightarrow> bool" where
  "keyed kf ok M \<longleftrightarrow> (\<forall>e \<in># M. ok e) \<and> (\<forall>K. count (image_mset kf M) K \<le> 1)"

lemma distinct_count: "distinct xs \<longleftrightarrow> (\<forall>x. count (mset xs) x \<le> 1)"
proof
  assume "distinct xs" then show "\<forall>x. count (mset xs) x \<le> 1" by (simp add: distinct_count_atmost_1)
next
  assume *: "\<forall>x. count (mset xs) x \<le> 1"
  have "count (mset xs) x = 1" if "x \<in> set xs" for x
  proof -
    have "0 < count (mset xs) x" using that by (simp add: count_greater_zero_iff)
    with *[rule_format, of x] show ?thesis by linarith
  qed
  then show "distinct xs" by (auto simp: distinct_count_atmost_1 not_in_iff [symmetric])
qed

lemma keyed_occ:
  "keyed kf ok (occ hv t) \<longleftrightarrow> (\<forall>e \<in> set t. hv e \<noteq> 0 \<longrightarrow> ok e) \<and> distinct (map kf (filter (\<lambda>e. hv e \<noteq> 0) t))"
  unfolding keyed_def distinct_count by (auto simp: occ_def)

lemma keyed_empty [simp]: "keyed kf ok {#}"
  by (simp add: keyed_def)

lemma keyed_add:
  assumes "keyed kf ok M" "ok e" "\<forall>f \<in># M. kf f \<noteq> kf e"
  shows "keyed kf ok (add_mset e M)"
proof -
  have "count (image_mset kf M) (kf e) = 0"
    using assms(3) by (auto simp: not_in_iff [symmetric])
  then show ?thesis using assms(1,2) by (auto simp: keyed_def)
qed

lemma keyed_remove:
  assumes "keyed kf ok (add_mset e M)" shows "keyed kf ok M"
proof -
  have "count (image_mset kf M) K \<le> count (image_mset kf (add_mset e M)) K" for K by simp
  moreover have "count (image_mset kf (add_mset e M)) K \<le> 1" for K
    using assms unfolding keyed_def by blast
  ultimately have "count (image_mset kf M) K \<le> 1" for K by (rule le_trans)
  then show ?thesis using assms by (simp add: keyed_def)
qed

lemma keyed_removed:
  assumes "keyed kf ok (add_mset e M)" "f \<in># M" shows "kf f \<noteq> kf e"
proof
  assume "kf f = kf e"
  then have "kf e \<in># image_mset kf M" using assms(2) by (metis image_eqI set_image_mset)
  then have "0 < count (image_mset kf M) (kf e)" by (simp only: count_greater_zero_iff)
  then have "1 < count (image_mset kf (add_mset e M)) (kf e)" by simp
  moreover have "count (image_mset kf (add_mset e M)) (kf e) \<le> 1"
    using assms(1) unfolding keyed_def by blast
  ultimately show False by linarith
qed

lemma keyed_unique:
  assumes "keyed kf ok M" "e \<in># M" "f \<in># M" "kf e = kf f"
  shows "e = f"
proof (rule ccontr)
  assume "e \<noteq> f"
  with assms(2,3) obtain N where "M = add_mset e (add_mset f N)" by (metis insert_noteq_member multi_member_split)
  with assms(1,4) keyed_removed [of kf ok e "add_mset f N" f] show False by simp
qed

section \<open>The table as a map\<close>

definition key_map :: "('e \<Rightarrow> uint) \<Rightarrow> ('e \<Rightarrow> 'k) \<Rightarrow> ('e \<Rightarrow> 'v) \<Rightarrow> 'e list \<Rightarrow> 'k \<Rightarrow> 'v option" where
  "key_map hv kf vf t = map_of (map (\<lambda>e. (kf e, vf e)) (filter (\<lambda>e. hv e \<noteq> 0) t))"

lemma key_map_Nil [simp]: "key_map hv kf vf [] = Map.empty"
  by (simp add: key_map_def)

lemma key_map_Some_iff:
  assumes "keyed kf ok (occ hv t)"
  shows "key_map hv kf vf t K = Some p \<longleftrightarrow> (\<exists>e \<in># occ hv t. kf e = K \<and> vf e = p)"
proof -
  have "map fst (map (\<lambda>e. (kf e, vf e)) (filter (\<lambda>e. hv e \<noteq> 0) t)) = map kf (filter (\<lambda>e. hv e \<noteq> 0) t)" by simp
  with assms show ?thesis
    unfolding key_map_def keyed_occ by (subst map_of_eq_Some_iff) (auto simp: occ_def image_iff comp_def)
qed

lemma key_map_dom: "K \<in> dom (key_map hv kf vf t) \<longleftrightarrow> (\<exists>e \<in># occ hv t. kf e = K)"
proof -
  have "dom (key_map hv kf vf t) = fst ` set (map (\<lambda>e. (kf e, vf e)) (filter (\<lambda>e. hv e \<noteq> 0) t))"
    unfolding key_map_def by (rule dom_map_of_conv_image_fst)
  then show ?thesis by (auto simp: occ_def image_iff)
qed

lemma key_map_None: "key_map hv kf vf t K = None \<longleftrightarrow> (\<forall>e \<in># occ hv t. kf e \<noteq> K)"
  using key_map_dom [of K hv kf vf t] by blast

lemma key_map_insert:
  assumes k: "keyed kf ok (occ hv t')" and o: "occ hv t' = add_mset e (occ hv t)"
  shows "key_map hv kf vf t' = (key_map hv kf vf t)(kf e \<mapsto> vf e)"
proof -
  have k0: "keyed kf ok (occ hv t)" and ne: "\<And>f. f \<in># occ hv t \<Longrightarrow> kf f \<noteq> kf e"
    using keyed_remove keyed_removed k o by metis+
  have "key_map hv kf vf t' K = Some p \<longleftrightarrow> ((key_map hv kf vf t)(kf e \<mapsto> vf e)) K = Some p" for K p
  proof -
    have 1: "key_map hv kf vf t' K = Some p \<longleftrightarrow> (kf e = K \<and> vf e = p) \<or> (\<exists>f \<in># occ hv t. kf f = K \<and> vf f = p)"
      using key_map_Some_iff [OF k, of vf K p] by (simp add: o)
    show ?thesis
    proof (cases "K = kf e")
      case True with 1 ne show ?thesis by auto
    next
      case False with 1 key_map_Some_iff [OF k0, of vf K p] show ?thesis by simp
    qed
  qed
  then show ?thesis by (intro ext) (metis not_None_eq)
qed

lemma key_map_delete:
  assumes k: "keyed kf ok (occ hv t)" and o: "occ hv t = add_mset e (occ hv t')"
  shows "key_map hv kf vf t' = (key_map hv kf vf t)(kf e := None)"
proof -
  have "key_map hv kf vf t = (key_map hv kf vf t')(kf e \<mapsto> vf e)" by (rule key_map_insert [OF k o])
  moreover have "key_map hv kf vf t' (kf e) = None" using keyed_removed k o by (metis key_map_None)
  ultimately show ?thesis by auto
qed

section \<open>Clients\<close>

text \<open>
  What a client promises: entries that satisfy its invariant \<open>ok\<close> are stored under the hash of
  their key.  What it gets: a search with any faithful comparison finds the key or the place to
  insert it, and inserting there keeps the table.
\<close>

locale keyed_table =
  fixes hv :: "'e \<Rightarrow> uint" and kf :: "'e \<Rightarrow> 'k" and ok :: "'e \<Rightarrow> bool" and H :: "'k \<Rightarrow> uint"
  assumes stored: "ok e \<Longrightarrow> hv e = H (kf e) OR 0x80000000"
begin

lemma search:
  assumes tb: "rh_table hv t sz" and k: "keyed kf ok (occ hv t)"
    and m: "\<And>e. e \<in># occ hv t \<Longrightarrow> match e = Some (kf e = K)"
    and v: "v = H K \<or> v = H K OR 0x80000000"
  obtains (found) i where "rh_lookup hv match t sz v = Some (i, True)" "i < length t" "hv (t ! i) \<noteq> 0"
      "kf (t ! i) = K" "t ! i \<in># occ hv t"
  | (absent) h j where "rh_lookup hv match t sz v = Some ((h + j) mod length t, False)"
      "insertion_point hv t h j" "h = unat v mod length t" "\<forall>e \<in># occ hv t. kf e \<noteq> K"
proof -
  let ?M = "\<lambda>e. kf e = K"
  have ts: "table_size t sz" "rh_sorted hv t" using tb by (simp_all add: rh_table_def)
  have vm: "unat v mod length t = unat (H K) mod length t" using v top_bit_mod [OF ts(1)] by auto
  have m': "match e = Some (?M e)" if "e \<in> set t" "hv e \<noteq> 0" for e using that m by (simp add: occ_set)
  show ?thesis
  proof (cases "\<exists>e \<in># occ hv t. ?M e")
    case True
    then obtain e where e: "e \<in> set t" "hv e \<noteq> 0" "?M e" by (auto simp: occ_set)
    have "ok e" using k e(1,2) by (simp add: keyed_occ)
    then have "unat (hv e) mod length t = unat v mod length t"
      using stored e(3) vm top_bit_mod [OF ts(1)] by simp
    from rh_lookup_present [OF ts, where match = match and M = ?M, OF m' e this]
    show ?thesis using found by (auto simp: occ_set)
  next
    case False
    then have "\<not> ?M e" if "e \<in> set t" "hv e \<noteq> 0" for e using that by (auto simp: occ_set)
    from rh_lookup_absent [OF ts(1), where match = match and M = ?M and v = v, OF m' this]
    show ?thesis using absent False by auto
  qed
qed

lemma insert:
  assumes tb: "rh_table hv t sz" and k: "keyed kf ok (occ hv t)"
    and ip: "insertion_point hv t h j" "h = unat v mod length t" "p = (h + j) mod length t"
    and v: "v = H (kf new) \<or> v = H (kf new) OR 0x80000000"
    and new: "ok new" "\<forall>e \<in># occ hv t. kf e \<noteq> kf new" and room: "Suc (size (occ hv t)) < length t"
  shows "\<exists>t1. rh_shift_right hv t (length t) p = Some t1 \<and> p < length t1 \<and> rh_table hv (t1[p := new]) sz \<and>
    occ hv (t1[p := new]) = add_mset new (occ hv t) \<and> keyed kf ok (occ hv (t1[p := new]))"
proof -
  have ts: "table_size t sz" using tb by (simp add: rh_table_def)
  have nz: "hv new \<noteq> 0" using stored [OF new(1)] top_bit_nonzero by simp
  have hm: "unat (hv new) mod length t = h mod length t"
    using v ip(2) stored [OF new(1)] top_bit_mod [OF ts] by auto
  obtain t1 where t1: "rh_shift_right hv t (length t) p = Some t1" "p < length t1"
    "table_size (t1[p := new]) sz" "rh_sorted hv (t1[p := new])"
    "occ hv (t1[p := new]) = add_mset new (occ hv t)"
    using rh_insert [OF tb ip(1,3) nz hm] by blast
  have "length (t1[p := new]) = length t" using t1(3) ts by (simp add: table_size_def)
  then have "size (occ hv (t1[p := new])) < length (t1[p := new])" using t1(5) room by simp
  then have "rh_table hv (t1[p := new]) sz"
    using t1(3,4) free_slot_exists unfolding rh_table_def by blast
  then show ?thesis using t1 keyed_add [OF k new] by auto
qed

lemma insertion_search:
  assumes tb: "rh_table hv t sz" and k: "keyed kf ok (occ hv t)"
  obtains h j where "rh_lookup hv (\<lambda>_. Some False) t sz v = Some ((h + j) mod length t, False)"
    "insertion_point hv t h j" "h = unat v mod length t"
proof -
  have "table_size t sz" using tb by (simp add: rh_table_def)
  from rh_lookup_absent [OF this, where match = "\<lambda>_. Some False" and M = "\<lambda>_. False" and v = v and hv = hv]
  show ?thesis using that by auto
qed

end

text \<open>Growing keeps the entries.\<close>

lemma grow_min:
  "hv blank = 0 \<Longrightarrow> rh_grow hv blank t 0 8 = Some (replicate 8 blank) \<and>
     rh_table hv (replicate 8 blank) 8 \<and> occ hv (replicate 8 blank) = {#}"
  using rh_table_blank [of 8 blank hv] table_size_min [of blank] by (simp add: rh_grow_def)

lemma grow_double:
  assumes "rh_table hv t sz" "hv blank = 0" "sz < 0x80000000"
  shows "\<exists>t'. rh_grow hv blank t (length t) (sz * 2) = Some t' \<and> rh_table hv t' (sz * 2) \<and>
    occ hv t' = occ hv t \<and> length t' = 2 * length t"
proof -
  have ts: "table_size t sz" using assms(1) by (simp add: rh_table_def)
  note d = table_size_double(1) [OF ts assms(3), where b = blank] table_size_double(2) [OF ts assms(3)]
  obtain t' where "rh_grow hv blank t (length t) (sz * 2) = Some t'" "rh_table hv t' (sz * 2)" "occ hv t' = occ hv t"
    using rh_table_grow [OF assms(1) d assms(2)] by blast
  then show ?thesis using d(2) by (auto simp: rh_table_def table_size_def)
qed

end
