(* ===== verification/HashMap.thy ===== *)
theory HashMap
  imports Hash Refinement KeyedTable
begin

text \<open>
  Correctness of the hash tables of theory \<open>Hash\<close>: the invariant of a table, the finite map it
  stands for, what every operation does to that map, and the refinement of the map by arbitrary
  sequences of operations.
\<close>

section \<open>Specification\<close>

text \<open>A key is the triple of its strings; the hash of a key depends on the strings only.\<close>

type_synonym hkey = "bytes option \<times> bytes option \<times> bytes option"

definition kval :: "xmlString \<Rightarrow> bytes option" where
  "kval k = (case k of NULL \<Rightarrow> None | Ptr s \<Rightarrow> Some (strval s))"

definition keyval :: "xmlString \<Rightarrow> xmlString \<Rightarrow> xmlString \<Rightarrow> hkey" where
  "keyval k k2 k3 = (kval k, kval k2, kval k3)"

definition entry_key :: "'p xmlHashEntry \<Rightarrow> hkey" where
  "entry_key e = keyval (key e) (key2 e) (key3 e)"

definition good :: "xmlString \<Rightarrow> bool" where
  "good k \<longleftrightarrow> (case k of NULL \<Rightarrow> True | Ptr s \<Rightarrow> cstring s)"

definition klen :: "xmlString \<Rightarrow> nat" where
  "klen k = (case kval k of None \<Rightarrow> 0 | Some v \<Rightarrow> length v)"

definition hash_opt_bytes :: "uint \<times> uint \<Rightarrow> bytes option \<Rightarrow> uint \<times> uint" where
  "hash_opt_bytes h v = fold (\<lambda>c h. HASH_UPDATE h (ucast c)) (case v of None \<Rightarrow> [] | Some v \<Rightarrow> v) h"

definition hash_key :: "uint \<Rightarrow> hkey \<Rightarrow> uint" where
  "hash_key seed K =
     (let h = hash_opt_bytes (HASH_INIT seed) (fst K);
          h = hash_opt_bytes (HASH_UPDATE h 0) (fst (snd K));
          h = hash_opt_bytes (HASH_UPDATE h 0) (snd (snd K))
      in HASH_FINISH h)"

definition hash_map :: "'p xmlHashTable \<Rightarrow> hkey \<Rightarrow> 'p ptr option" where
  "hash_map hash = key_map hashValue entry_key payload (table hash)"

definition entry_ok :: "uint \<Rightarrow> 'p xmlHashEntry \<Rightarrow> bool" where
  "entry_ok seed e \<longleftrightarrow> key e \<noteq> NULL \<and> good (key e) \<and> good (key2 e) \<and> good (key3 e) \<and>
     hashValue e = hash_key seed (entry_key e) OR MAX_HASH_SIZE"

definition hash_inv :: "'p xmlHashTable \<Rightarrow> bool" where
  "hash_inv hash \<longleftrightarrow>
     (\<forall>e \<in> set (table hash). hashValue e \<noteq> 0 \<longrightarrow> entry_ok (randomSeed hash) e) \<and>
     distinct (map entry_key (filter (\<lambda>e. hashValue e \<noteq> 0) (table hash))) \<and>
     unat (nbElems hash) = length (filter (\<lambda>e. hashValue e \<noteq> 0) (table hash)) \<and>
     (tsize hash = 0 \<and> table hash = [] \<or>
      rh_table hashValue (table hash) (tsize hash) \<and> MIN_HASH_SIZE \<le> tsize hash \<and>
      nbElems hash \<le> tsize hash div MAX_FILL_DENOM * MAX_FILL_NUM)"

section \<open>Keys and hash values\<close>

lemma good_simps [simp]: "good NULL" "good (Ptr s) \<longleftrightarrow> cstring s"
  by (simp_all add: good_def)

lemma kval_simps [simp]: "kval NULL = None" "kval (Ptr s) = Some (strval s)"
  by (simp_all add: kval_def)

lemma kval_None [simp]: "kval k = None \<longleftrightarrow> k = NULL"
  by (cases k) simp_all

lemma hash_string_cstring:
  "cstring s \<Longrightarrow> hash_string h s i = Some (hash_opt_bytes h (Some (strval s)), i + length (strval s))"
proof (induction s arbitrary: h i)
  case (Cons c s)
  then show ?case by (cases "c = 0") (simp_all add: hash_opt_bytes_def)
qed simp

lemma hash_opt_good: "good k \<Longrightarrow> hash_opt h k = Some (hash_opt_bytes h (kval k), klen k)"
  by (cases k) (simp_all add: hash_opt_def hash_string_cstring klen_def hash_opt_bytes_def)

lemma xmlHashValue_good:
  assumes "good k" "good k2" "good k3" "k \<noteq> NULL"
  shows "xmlHashValue seed k k2 k3 = Some (hash_key seed (keyval k k2 k3), klen k, klen k2, klen k3)"
  using assms by (cases k) (simp_all add: xmlHashValue_def hash_string_cstring hash_opt_good hash_key_def
      keyval_def Let_def klen_def)

lemma xmlFastStrEqual_good:
  "good a \<Longrightarrow> good b \<Longrightarrow> xmlFastStrEqual a b = Some (kval a = kval b)"
  by (cases a; cases b) (auto simp: xmlFastStrEqual_def strcmp_loop_cstring lexdiff_0 strval_no_zero)

lemma entry_matches_good:
  assumes "key e \<noteq> NULL" "good (key e)" "good (key2 e)" "good (key3 e)"
    "k \<noteq> NULL" "good k" "good k2" "good k3"
  shows "entry_matches v k k2 k3 e = Some (hashValue e = v \<and> entry_key e = keyval k k2 k3)"
  using assms
  by (cases "key e"; cases k) (auto simp: entry_matches_def xmlFastStrEqual_good strcmp_loop_cstring lexdiff_0
      strval_no_zero entry_key_def keyval_def)

section \<open>The table as a map\<close>

lemma hash_map_Some_iff:
  assumes "distinct (map entry_key (filter (\<lambda>e. hashValue e \<noteq> 0) (table hash)))"
  shows "hash_map hash K = Some p \<longleftrightarrow> (\<exists>e \<in># occ hashValue (table hash). entry_key e = K \<and> payload e = p)"
  unfolding hash_map_def by (rule key_map_Some_iff [where ok = "\<lambda>_. True"]) (use assms in \<open>simp add: keyed_occ\<close>)

lemma hash_map_dom: "K \<in> dom (hash_map hash) \<longleftrightarrow> (\<exists>e \<in># occ hashValue (table hash). entry_key e = K)"
  unfolding hash_map_def by (rule key_map_dom)

text \<open>The invariant in terms of the multiset of entries, which is what the table operations preserve.\<close>

abbreviation entries_ok :: "uint \<Rightarrow> 'p xmlHashEntry multiset \<Rightarrow> bool" where
  "entries_ok sd \<equiv> keyed entry_key (entry_ok sd)"

interpretation hash_keys: keyed_table hashValue entry_key "entry_ok sd" "hash_key sd" for sd
  by unfold_locales (simp add: entry_ok_def)

lemma hash_inv_alt:
  "hash_inv hash \<longleftrightarrow> entries_ok (randomSeed hash) (occ hashValue (table hash)) \<and>
     unat (nbElems hash) = size (occ hashValue (table hash)) \<and>
     (tsize hash = 0 \<and> table hash = [] \<or>
      rh_table hashValue (table hash) (tsize hash) \<and> MIN_HASH_SIZE \<le> tsize hash \<and>
      nbElems hash \<le> tsize hash div MAX_FILL_DENOM * MAX_FILL_NUM)"
proof -
  have "size (occ hashValue (table hash)) = length (filter (\<lambda>e. hashValue e \<noteq> 0) (table hash))"
    unfolding occ_def by (rule size_mset)
  then show ?thesis unfolding hash_inv_def keyed_occ by auto
qed

lemma hash_inv_distinct:
  "hash_inv hash \<Longrightarrow> distinct (map entry_key (filter (\<lambda>e. hashValue e \<noteq> 0) (table hash)))"
  by (simp add: hash_inv_def)

section \<open>Finding an entry\<close>

lemma rh_lookup_key:
  assumes inv: "hash_inv hash" "tsize hash \<noteq> 0"
    and m: "\<And>e. entry_ok (randomSeed hash) e \<Longrightarrow> match e = Some (entry_key e = K)"
    and v: "v = hash_key (randomSeed hash) K"
  obtains (found) i where "rh_lookup hashValue match (table hash) (tsize hash) v = Some (i, True)"
      "i < length (table hash)" "hashValue (table hash ! i) \<noteq> 0" "entry_key (table hash ! i) = K"
  | (absent) h j where
      "rh_lookup hashValue match (table hash) (tsize hash) v = Some ((h + j) mod length (table hash), False)"
      "insertion_point hashValue (table hash) h j" "h = unat v mod length (table hash)"
      "\<forall>e \<in># occ hashValue (table hash). entry_key e \<noteq> K"
proof -
  have tb: "rh_table hashValue (table hash) (tsize hash)" and k: "entries_ok (randomSeed hash) (occ hashValue (table hash))"
    using inv by (auto simp: hash_inv_alt)
  have m': "match e = Some (entry_key e = K)" if "e \<in># occ hashValue (table hash)" for e
    using k m that by (simp add: keyed_def)
  show ?thesis by (rule hash_keys.search [OF tb k m', where v = v]) (use v found absent in auto)
qed

lemma find_cases:
  assumes inv: "hash_inv hash" "tsize hash \<noteq> 0" and k: "good k" "good k2" "good k3" "k \<noteq> NULL"
    and K: "K = keyval k k2 k3" "v = hash_key (randomSeed hash) K"
  obtains (found) i where "xmlHashFindEntry hash k k2 k3 v = Some (i, True)" "i < length (table hash)"
      "hashValue (table hash ! i) \<noteq> 0" "entry_key (table hash ! i) = K"
  | (absent) h j where "xmlHashFindEntry hash k k2 k3 v = Some ((h + j) mod length (table hash), False)"
      "insertion_point hashValue (table hash) h j" "h = unat v mod length (table hash)"
      "\<forall>e \<in># occ hashValue (table hash). entry_key e \<noteq> K"
proof (rule rh_lookup_key [OF inv _ K(2), where match = "entry_matches (v OR MAX_HASH_SIZE) k k2 k3"])
  show "entry_matches (v OR MAX_HASH_SIZE) k k2 k3 e = Some (entry_key e = K)"
    if "entry_ok (randomSeed hash) e" for e using that k K by (auto simp: entry_ok_def entry_matches_good)
qed (auto simp: xmlHashFindEntry_def intro: found absent)

lemma xmlHashLookup3_map:
  assumes inv: "hash_inv hash" and k: "good k" "good k2" "good k3" "k \<noteq> NULL"
  shows "xmlHashLookup3 (Ptr hash) k k2 k3 =
    Some (case hash_map hash (keyval k k2 k3) of None \<Rightarrow> NULL | Some p \<Rightarrow> p)"
proof (cases "tsize hash = 0")
  case True
  then have "table hash = []" using inv table_size_le [of "table hash" "tsize hash"]
    by (auto simp: hash_inv_def rh_table_def table_size_def)
  with True show ?thesis by (simp add: xmlHashLookup3_def hash_map_def)
next
  case False
  let ?K = "keyval k k2 k3" and ?v = "hash_key (randomSeed hash) (keyval k k2 k3)"
  note val = xmlHashValue_good [OF k]
  show ?thesis
  proof (cases rule: find_cases [OF inv False k refl refl, case_names found absent])
    case (found i)
    then have "table hash ! i \<in># occ hashValue (table hash)" by (simp add: occ_set)
    then have "hash_map hash ?K = Some (payload (table hash ! i))"
      using found hash_map_Some_iff [OF hash_inv_distinct [OF inv]] by blast
    with found False k val show ?thesis by (simp add: xmlHashLookup3_def rd_def)
  next
    case (absent h j)
    then have "hash_map hash ?K = None" using hash_map_dom [of ?K hash] by blast
    with absent False k val show ?thesis by (simp add: xmlHashLookup3_def)
  qed
qed

section \<open>Growing\<close>

lemma grow_ok:
  assumes inv: "hash_inv hash"
    and sz: "newSize = (if tsize hash = 0 then MIN_HASH_SIZE else tsize hash * 2)" "tsize hash < MAX_HASH_SIZE"
  shows "(\<exists>t'. xmlHashGrow mem hash newSize = Some (0, hash\<lparr>table := t', tsize := newSize\<rparr>) \<and>
      rh_table hashValue t' newSize \<and> occ hashValue t' = occ hashValue (table hash) \<and> MIN_HASH_SIZE \<le> newSize \<and>
      unat (nbElems hash) + 1 \<le> unat newSize div 8 * 7)
    \<or> xmlHashGrow mem hash newSize = Some (- 1, hash) \<and> \<not> mem (unat newSize * sizeof_xmlHashEntry)"
proof (cases "mem (unat newSize * sizeof_xmlHashEntry)")
  case False
  then show ?thesis by (simp add: xmlHashGrow_def)
next
  case True
  have le: "\<not> unat newSize > SIZE_MAX_nat div sizeof_xmlHashEntry"
    using unsigned_less [of newSize, where ?'a = nat] by simp
  have bl: "hashValue blank_entry = 0" by (simp add: blank_entry_def)
  show ?thesis
  proof (cases "tsize hash = 0")
    case z: True
    then have t: "table hash = []" "nbElems hash = 0" using inv table_size_le [of "table hash" "tsize hash"]
      by (auto simp: hash_inv_alt rh_table_def table_size_def occ_def unat_eq_0)
    then show ?thesis using True z sz grow_min [where hv = hashValue and t = "table hash", OF bl]
      by (auto simp: xmlHashGrow_def occ_def [of _ "[]"])
  next
    case nz: False
    then have tb: "rh_table hashValue (table hash) (tsize hash)" "MIN_HASH_SIZE \<le> tsize hash"
      "nbElems hash \<le> tsize hash div 8 * 7"
      using inv by (auto simp: hash_inv_alt)
    then have l: "length (table hash) = unat (tsize hash)" by (simp add: rh_table_def table_size_def)
    have ns: "newSize = tsize hash * 2" using nz sz by simp
    obtain t' where t': "rh_grow hashValue blank_entry (table hash) (length (table hash)) newSize = Some t'"
      "rh_table hashValue t' newSize" "occ hashValue t' = occ hashValue (table hash)"
      using grow_double [OF tb(1) bl sz(2)] ns by auto
    have "8 \<le> unat (tsize hash)" using tb(2) by (simp add: word_le_nat_alt)
    moreover have "unat (nbElems hash) \<le> unat (tsize hash) div 8 * 7"
      using tb(3) sz(2) unat_fill [of "tsize hash"] by (simp add: word_le_nat_alt word_less_nat_alt)
    ultimately have "unat (nbElems hash) + 1 \<le> unat newSize div 8 * 7" "MIN_HASH_SIZE \<le> newSize"
      using unat_double [OF sz(2)] ns by (auto simp: word_le_nat_alt)
    then show ?thesis using t' True le l by (auto simp: xmlHashGrow_def)
  qed
qed

section \<open>Insertion\<close>

text \<open>What the table relies on of its dictionary: interning gives back an equal string or fails.\<close>

definition dict_law :: "xmlDictOps ptr \<Rightarrow> bool" where
  "dict_law d \<longleftrightarrow> (case d of NULL \<Rightarrow> True | Ptr ops \<Rightarrow>
     \<forall>s. cstring s \<longrightarrow> (case dict_lookup ops (Ptr s) of NULL \<Rightarrow> True | Ptr s' \<Rightarrow> cstring s' \<and> strval s' = strval s))"

text \<open>
  Why an absent key cannot be added: the table must grow and the request for the larger one is
  refused, or a key cannot be copied, for want of memory or because the dictionary refuses it.
\<close>

definition key_refused :: "(nat \<Rightarrow> allocator) \<Rightarrow> xmlDictOps ptr \<Rightarrow> nat \<Rightarrow> xmlString \<Rightarrow> bool" where
  "key_refused mem d i k \<longleftrightarrow>
     k \<noteq> NULL \<and>
     (case d of
        NULL \<Rightarrow> \<not> mem i (klen k + 1)
      | Ptr ops \<Rightarrow> \<not> dict_owns ops k \<and> dict_lookup ops k = NULL)"

definition keys_refused :: "(nat \<Rightarrow> allocator) \<Rightarrow> xmlDictOps ptr \<Rightarrow> xmlString \<Rightarrow> xmlString \<Rightarrow> xmlString \<Rightarrow> bool" where
  "keys_refused mem d k k2 k3 \<longleftrightarrow> key_refused mem d 1 k \<or> key_refused mem d 2 k2 \<or> key_refused mem d 3 k3"

definition update_refused ::
  "(nat \<Rightarrow> allocator) \<Rightarrow> 'p xmlHashTable \<Rightarrow> xmlString \<Rightarrow> xmlString \<Rightarrow> xmlString \<Rightarrow> bool" where
  "update_refused mem hash k k2 k3 \<longleftrightarrow>
     (tsize hash = 0 \<or> nbElems hash + 1 > tsize hash div MAX_FILL_DENOM * MAX_FILL_NUM) \<and>
       \<not> mem 0 (unat (if tsize hash = 0 then MIN_HASH_SIZE else tsize hash * 2) * sizeof_xmlHashEntry) \<or>
     keys_refused mem (dict hash) k k2 k3"

lemma update_refused_no_dict: "update_refused mem hash k k2 k3 \<Longrightarrow> dict hash = NULL \<Longrightarrow> \<not> (\<forall>i n. mem i n)"
  by (auto simp: update_refused_def keys_refused_def key_refused_def)

lemma dict_copy_good:
  assumes "dict_law (Ptr ops)" "good k" "dict_copy ops k = Some c"
  shows "good c \<and> kval c = kval k"
proof (cases k)
  case NULL then show ?thesis using assms(3) by (simp add: dict_copy_def)
next
  case (Ptr s)
  then have "case dict_lookup ops k of NULL \<Rightarrow> True | Ptr s' \<Rightarrow> cstring s' \<and> strval s' = strval s"
    using assms(1,2) by (simp add: dict_law_def)
  then show ?thesis using assms(2,3) Ptr by (auto simp: dict_copy_def split: if_splits ptr.splits)
qed

lemma mem_copy_good:
  assumes "good k"
  shows "mem_copy mem k (klen k) = Some (if k = NULL then Some NULL else if mem (klen k + 1)
      then Some (Ptr (cstr_of (the (kval k)))) else None)"
proof (cases k)
  case NULL then show ?thesis by (simp add: mem_copy_def)
next
  case (Ptr s)
  then have "copy_in (length (strval s) + 1) s = Some (cstr_of (strval s))"
    using assms by (auto simp: copy_in_def cstr_of_def take_Suc_conv_app_nth length_strval_less take_strval
        nth_strval_end Suc_le_eq)
  then show ?thesis using Ptr by (simp add: mem_copy_def klen_def)
qed

lemma good_copy: "good (if k = NULL then NULL else Ptr (cstr_of (the (kval k))))"
    "kval (if k = NULL then NULL else Ptr (cstr_of (the (kval k)))) = kval k"
  by (cases k; simp)+

lemma copy_keys_cases:
  assumes "dict_law d" "good k" "good k2" "good k3"
  shows "copy_keys mem d k k2 k3 (klen k, klen k2, klen k3) = Some None \<and>
      keys_refused mem d k k2 k3 \<or>
    (\<exists>c c2 c3. copy_keys mem d k k2 k3 (klen k, klen k2, klen k3) = Some (Some (c, c2, c3)) \<and>
      good c \<and> good c2 \<and> good c3 \<and> keyval c c2 c3 = keyval k k2 k3)"
proof (cases d)
  case (Ptr ops)
  show ?thesis
  proof (cases "dict_copy ops k = None \<or> dict_copy ops k2 = None \<or> dict_copy ops k3 = None")
    case True
    then have "copy_keys mem d k k2 k3 (klen k, klen k2, klen k3) = Some None"
      using Ptr by (auto simp: copy_keys_def Option.bind_eq_None_conv)
    moreover have "keys_refused mem d k k2 k3"
      using True Ptr by (auto simp: keys_refused_def key_refused_def dict_copy_def split: ptr.splits if_splits)
    ultimately show ?thesis by simp
  next
    case False
    then obtain c c2 c3 where "dict_copy ops k = Some c" "dict_copy ops k2 = Some c2" "dict_copy ops k3 = Some c3"
      by auto
    moreover from this have "good c \<and> kval c = kval k" "good c2 \<and> kval c2 = kval k2" "good c3 \<and> kval c3 = kval k3"
      using dict_copy_good assms Ptr by blast+
    ultimately show ?thesis using Ptr by (simp add: copy_keys_def keyval_def)
  qed
next
  case NULL
  define c where "c k = (if k = NULL then NULL else Ptr (cstr_of (the (kval k))))" for k
  have "mem_copy m k (klen k) = Some (if k \<noteq> NULL \<and> \<not> m (klen k + 1) then None else Some (c k))" if "good k" for m k
    using mem_copy_good [OF that, of m] by (auto simp: c_def)
  moreover have "good (c k)" "kval (c k) = kval k" for k using good_copy [of k] by (simp_all add: c_def)
  moreover have "c NULL = NULL" by (simp add: c_def)
  ultimately show ?thesis using assms NULL
    by (auto simp: copy_keys_def keyval_def keys_refused_def key_refused_def)
qed

lemma insert_ok:
  fixes hash :: "'p xmlHashTable"
  defines "t \<equiv> table hash" and "n \<equiv> unat (tsize hash)"
  assumes ok: "entries_ok (randomSeed hash) (occ hashValue t)" "unat (nbElems hash) = size (occ hashValue t)"
    and tb: "rh_table hashValue t (tsize hash)" "MIN_HASH_SIZE \<le> tsize hash" "unat (nbElems hash) + 1 \<le> n div 8 * 7"
    and ip: "insertion_point hashValue t h j" "h = unat v mod length t" "p = (h + j) mod length t"
    and K: "v = hash_key (randomSeed hash) (keyval k k2 k3)" "\<forall>e \<in># occ hashValue t. entry_key e \<noteq> keyval k k2 k3"
    and k: "good k" "good k2" "good k3" "k \<noteq> NULL" "dict_law (dict hash)"
  shows "hash_insert_at mem hash k k2 k3 (klen k, klen k2, klen k3) pl v p = Some (- 1, hash) \<and>
      keys_refused mem (dict hash) k k2 k3 \<or>
    (\<exists>hash'. hash_insert_at mem hash k k2 k3 (klen k, klen k2, klen k3) pl v p = Some (1, hash') \<and>
      hash_inv hash' \<and> hash_map hash' = (hash_map hash)(keyval k k2 k3 \<mapsto> pl) \<and>
      unat (nbElems hash') = unat (nbElems hash) + 1 \<and> randomSeed hash' = randomSeed hash \<and> dict hash' = dict hash)"
  using copy_keys_cases [OF k(5,1-3), of mem]
proof (elim disjE exE conjE)
  fix c c2 c3
  assume c: "copy_keys mem (dict hash) k k2 k3 (klen k, klen k2, klen k3) = Some (Some (c, c2, c3))"
    "good c" "good c2" "good c3" "keyval c c2 c3 = keyval k k2 k3"
  define new where "new = \<lparr>hashValue = v OR MAX_HASH_SIZE, key = c, key2 = c2, key3 = c3, payload = pl\<rparr>"
  have ts: "table_size t (tsize hash)" using tb(1) by (simp add: rh_table_def)
  then have n: "length t = n" by (simp add: table_size_def n_def)
  have nk: "entry_key new = keyval k k2 k3" "payload new = pl" using c(5) by (simp_all add: new_def entry_key_def)
  have "kval c = kval k" using c(5) by (simp add: keyval_def)
  then have "c \<noteq> NULL" using k(4) by (metis kval_None)
  then have eok: "entry_ok (randomSeed hash) new" using c nk K(1) by (simp add: entry_ok_def new_def)
  have room: "Suc (size (occ hashValue t)) < length t" using tb(2,3) ok(2) n by (simp add: n_def word_le_nat_alt)
  obtain t1 where t1: "rh_shift_right hashValue t (length t) p = Some t1" "p < length t1"
    "rh_table hashValue (t1[p := new]) (tsize hash)" "occ hashValue (t1[p := new]) = add_mset new (occ hashValue t)"
    "entries_ok (randomSeed hash) (occ hashValue (t1[p := new]))"
    using hash_keys.insert [OF tb(1) ok(1) ip _ eok _ room] K nk(1) by auto
  define hash' where "hash' = hash\<lparr>table := t1[p := new], nbElems := nbElems hash + 1\<rparr>"
  have res: "hash_insert_at mem hash k k2 k3 (klen k, klen k2, klen k3) pl v p = Some (1, hash')"
    using c(1) t1(1,2) n by (simp add: hash_insert_at_def wr_def hash'_def new_def t_def n_def)
  have n31: "n \<le> 2147483648" using table_size_le [OF ts] n by simp
  have nb: "unat (nbElems hash + 1) = unat (nbElems hash) + 1"
    using tb(3) n31 by (simp add: unat_add_lem [THEN iffD1])
  have lim: "unat (tsize hash div 8 * 7) = n div 8 * 7" using n31 by (simp add: unat_fill n_def)
  have inv': "hash_inv hash'"
    using t1(3,4,5) nb ok(2) tb(2,3) lim by (simp add: hash_inv_alt hash'_def word_le_nat_alt)
  have "hash_map hash' = (hash_map hash)(keyval k k2 k3 \<mapsto> pl)"
    using key_map_insert [OF t1(5,4), where vf = payload] nk by (simp add: hash_map_def hash'_def t_def)
  then show ?thesis using res inv' nb by (intro disjI2 exI [of _ hash']) (simp add: hash'_def)
qed (simp add: hash_insert_at_def)

lemma rank_cong_hv:
  assumes "map hv t' = map hv t" shows "rank hv t' = rank hv t"
proof -
  have l: "length t' = length t" using assms map_eq_imp_length_eq by blast
  have "hv (slot t' x) = hv (slot t x)" for x
  proof (cases "t = []")
    case True then show ?thesis using l by (simp add: slot_def)
  next
    case False
    then have "x mod length t < length t" by simp
    then show ?thesis using assms l by (metis nth_map slot_def)
  qed
  then show ?thesis by (intro ext) (simp add: rank_def l)
qed

lemma rh_table_cong_hv:
  assumes "map hv t' = map hv t" "rh_table hv t sz" shows "rh_table hv t' sz"
proof -
  have l: "length t' = length t" using assms(1) map_eq_imp_length_eq by blast
  have "hv ` set t' = hv ` set t" using assms(1) by (metis list.set_map)
  then have "\<exists>e \<in> set t'. hv e = 0" using assms(2) by (metis image_iff rh_table_def)
  then show ?thesis using assms l rank_cong_hv [OF assms(1)] by (simp add: rh_table_def table_size_def rh_sorted_def)
qed

lemma payload_update_ok:
  fixes hash :: "'p xmlHashTable" and pl :: "'p ptr"
  assumes inv: "hash_inv hash" and i: "i < length (table hash)" "hashValue (table hash ! i) \<noteq> 0"
  defines "hash' \<equiv> hash\<lparr>table := (table hash)[i := (table hash ! i)\<lparr>payload := pl\<rparr>]\<rparr>"
  shows "hash_inv hash'" "hash_map hash' = (hash_map hash)(entry_key (table hash ! i) \<mapsto> pl)"
proof -
  let ?t = "table hash" let ?e = "?t ! i" let ?e' = "?e\<lparr>payload := pl\<rparr>" let ?t' = "?t[i := ?e']"
  have e': "hashValue ?e' = hashValue ?e" "entry_key ?e' = entry_key ?e" "entry_ok s ?e' \<longleftrightarrow> entry_ok s ?e" for s
    by (simp_all add: entry_key_def entry_ok_def)
  let ?f = "\<lambda>e :: 'p xmlHashEntry. (hashValue e, entry_key e)"
  have f: "map ?f ?t' = map ?f ?t" using i(1) e'(1,2) by (simp add: map_update list_update_same_conv)
  have h: "map hashValue ?t' = map hashValue ?t" using i(1) e'(1) by (simp add: map_update list_update_same_conv)
  have k: "map entry_key (filter (\<lambda>e. hashValue e \<noteq> 0) t) = map snd (filter (\<lambda>p. fst p \<noteq> 0) (map ?f t))" for t
    by (simp add: filter_map comp_def)
  have kk: "map entry_key (filter (\<lambda>e. hashValue e \<noteq> 0) ?t') = map entry_key (filter (\<lambda>e. hashValue e \<noteq> 0) ?t)"
    unfolding k f ..
  have ok: "entry_ok (randomSeed hash) e" if "e \<in> set ?t'" "hashValue e \<noteq> 0" for e
    using that set_update_subset_insert [of ?t i ?e'] e'(3) i inv by (auto simp: hash_inv_def)
  have len: "length (filter (\<lambda>e. hashValue e \<noteq> 0) ?t') = length (filter (\<lambda>e. hashValue e \<noteq> 0) ?t)"
    using arg_cong [OF kk, of length] by simp
  show inv': "hash_inv hash'"
    using inv ok kk len rh_table_cong_hv [OF h] by (auto simp: hash_inv_def hash'_def)
  have mem: "f \<in># occ hashValue ?t' \<longleftrightarrow> (\<exists>l < length ?t. f = (if l = i then ?e' else ?t ! l) \<and> hashValue f \<noteq> 0)" for f
    by (auto simp: occ_set in_set_conv_nth nth_list_update)
  have "hash_map hash' K = Some p \<longleftrightarrow> ((hash_map hash)(entry_key ?e \<mapsto> pl)) K = Some p" for K p
  proof (cases "K = entry_key ?e")
    case True
    have "?e' \<in># occ hashValue ?t'" using mem [of ?e'] i e'(1) by auto
    then have "hash_map hash' K = Some pl"
      using hash_map_Some_iff [OF hash_inv_distinct [OF inv'], of K pl] True e'(2) by (auto simp: hash'_def)
    with True show ?thesis by simp
  next
    case False
    have "(\<exists>f \<in># occ hashValue ?t'. entry_key f = K \<and> payload f = p) \<longleftrightarrow>
      (\<exists>f \<in># occ hashValue ?t. entry_key f = K \<and> payload f = p)"
    proof (intro iffI; elim bexE conjE)
      fix f assume f: "f \<in># occ hashValue ?t'" "entry_key f = K" "payload f = p"
      then obtain l where "l < length ?t" "f = (if l = i then ?e' else ?t ! l)" "hashValue f \<noteq> 0" using mem by blast
      moreover from this have "l \<noteq> i" using f(2) False e'(2) by auto
      ultimately have "f \<in># occ hashValue ?t" by (simp add: occ_set)
      with f show "\<exists>f \<in># occ hashValue ?t. entry_key f = K \<and> payload f = p" by blast
    next
      fix f assume f: "f \<in># occ hashValue ?t" "entry_key f = K" "payload f = p"
      then obtain l where "l < length ?t" "f = ?t ! l" "hashValue f \<noteq> 0" by (auto simp: occ_set in_set_conv_nth)
      moreover from this have "l \<noteq> i" using f(2) False by auto
      ultimately have "f \<in># occ hashValue ?t'" using mem by auto
      with f show "\<exists>f \<in># occ hashValue ?t'. entry_key f = K \<and> payload f = p" by blast
    qed
    then show ?thesis
      using False hash_map_Some_iff [OF hash_inv_distinct [OF inv'], of K p] hash_map_Some_iff [OF hash_inv_distinct [OF inv], of K p]
      by (simp add: hash'_def)
  qed
  then show "hash_map hash' = (hash_map hash)(entry_key ?e \<mapsto> pl)" by (intro ext) (metis not_None_eq)
qed

section \<open>The operations implement a finite map\<close>

lemma hash_inv_zero:
  assumes "hash_inv hash" "tsize hash = 0" shows "table hash = []" "nbElems hash = 0"
  using assms table_size_le [of "table hash" "tsize hash"]
  by (auto simp: hash_inv_alt rh_table_def table_size_def occ_def unat_eq_0)

lemma grow_insert_ok:
  fixes hash :: "'p xmlHashTable"
  assumes inv: "hash_inv hash"
    and sz: "newSize = (if tsize hash = 0 then MIN_HASH_SIZE else tsize hash * 2)" "tsize hash < MAX_HASH_SIZE"
    and K: "v = hash_key (randomSeed hash) K" "\<forall>e \<in># occ hashValue (table hash). entry_key e \<noteq> K"
    and k: "good k" "good k2" "good k3" "k \<noteq> NULL" "dict_law (dict hash)" "K = keyval k k2 k3"
  shows "hash_grow_find (mem 0) hash newSize v = Some None \<and> \<not> mem 0 (unat newSize * sizeof_xmlHashEntry) \<or>
    (\<exists>hash1 entry. hash_grow_find (mem 0) hash newSize v = Some (Some (hash1, entry)) \<and>
      hash_inv hash1 \<and> hash_map hash1 = hash_map hash \<and> randomSeed hash1 = randomSeed hash \<and>
      dict hash1 = dict hash \<and> nbElems hash1 = nbElems hash \<and>
      (hash_insert_at mem hash1 k k2 k3 (klen k, klen k2, klen k3) pl v entry = Some (- 1, hash1) \<and>
         keys_refused mem (dict hash) k k2 k3 \<or>
       (\<exists>hash'. hash_insert_at mem hash1 k k2 k3 (klen k, klen k2, klen k3) pl v entry = Some (1, hash') \<and>
         hash_inv hash' \<and> hash_map hash' = (hash_map hash)(K \<mapsto> pl) \<and>
         unat (nbElems hash') = unat (nbElems hash) + 1 \<and> randomSeed hash' = randomSeed hash \<and> dict hash' = dict hash)))"
  using grow_ok [OF inv sz, of "mem 0"]
proof (elim disjE exE conjE)
  fix t'
  assume g: "xmlHashGrow (mem 0) hash newSize = Some (0, hash\<lparr>table := t', tsize := newSize\<rparr>)"
    "rh_table hashValue t' newSize" "occ hashValue t' = occ hashValue (table hash)" "MIN_HASH_SIZE \<le> newSize"
    "unat (nbElems hash) + 1 \<le> unat newSize div 8 * 7"
  define hash1 where "hash1 = hash\<lparr>table := t', tsize := newSize\<rparr>"
  have ts: "table_size t' newSize" using g(2) by (simp add: rh_table_def)
  obtain j where j: "rh_lookup hashValue (\<lambda>_. Some False) t' newSize v = Some ((unat v mod length t' + j) mod length t', False)"
    "insertion_point hashValue t' (unat v mod length t') j"
    using rh_lookup_absent [OF ts, where hv = hashValue and match = "\<lambda>_. Some False" and M = "\<lambda>_. False" and v = v] by auto
  have gf: "hash_grow_find (mem 0) hash newSize v = Some (Some (hash1, (unat v mod length t' + j) mod length t'))"
    using g(1) j(1) by (simp add: hash_grow_find_def hash1_def)
  have n31: "unat newSize \<le> 2147483648" using table_size_le [OF ts] ts by (simp add: table_size_def)
  have ok: "entries_ok (randomSeed hash1) (occ hashValue (table hash1))" "unat (nbElems hash1) = size (occ hashValue (table hash1))"
    using inv g(3) by (simp_all add: hash_inv_alt hash1_def)
  have inv1: "hash_inv hash1"
    using ok g(2,4,5) unat_fill [OF n31] by (simp add: hash_inv_alt hash1_def word_le_nat_alt)
  have "hash_map hash1 K' = Some p \<longleftrightarrow> hash_map hash K' = Some p" for K' p
    using hash_map_Some_iff [OF hash_inv_distinct [OF inv1], of K' p] hash_map_Some_iff [OF hash_inv_distinct [OF inv], of K' p] g(3)
    by (simp add: hash1_def)
  then have m1: "hash_map hash1 = hash_map hash" by (intro ext) (metis not_None_eq)
  have "hash_insert_at mem hash1 k k2 k3 (klen k, klen k2, klen k3) pl v ((unat v mod length t' + j) mod length t') = Some (- 1, hash1) \<and>
      keys_refused mem (dict hash1) k k2 k3 \<or>
    (\<exists>hash'. hash_insert_at mem hash1 k k2 k3 (klen k, klen k2, klen k3) pl v ((unat v mod length t' + j) mod length t') = Some (1, hash') \<and>
      hash_inv hash' \<and> hash_map hash' = (hash_map hash1)(keyval k k2 k3 \<mapsto> pl) \<and>
      unat (nbElems hash') = unat (nbElems hash1) + 1 \<and> randomSeed hash' = randomSeed hash1 \<and> dict hash' = dict hash1)"
    using ok g j(2) K k by (intro insert_ok [where h = "unat v mod length t'" and j = j]) (simp_all add: hash1_def)
  then show ?thesis using gf inv1 m1 k(6)
    by (intro disjI2 exI [of _ hash1] exI [of _ "(unat v mod length t' + j) mod length t'"]) (simp add: hash1_def)
next
  assume "xmlHashGrow (mem 0) hash newSize = Some (- 1, hash)" "\<not> mem 0 (unat newSize * sizeof_xmlHashEntry)"
  then show ?thesis by (auto simp: hash_grow_find_def)
qed

definition update_spec :: "'p xmlHashTable \<Rightarrow> hkey \<Rightarrow> 'p ptr \<Rightarrow> bool \<Rightarrow> bool \<Rightarrow> bool \<Rightarrow> int \<Rightarrow> 'p xmlHashTable \<Rightarrow> 'p ptr list \<Rightarrow> bool" where
  "update_spec hash K pl dealloc update alloc_ok ret hash' freed \<longleftrightarrow>
     (case hash_map hash K of
        Some old \<Rightarrow> ret = 0 \<and> hash_map hash' = (if update then (hash_map hash)(K \<mapsto> pl) else hash_map hash) \<and>
          nbElems hash' = nbElems hash \<and> freed = (if update \<and> dealloc then [old] else [])
      | None \<Rightarrow> freed = [] \<and>
          (ret = 1 \<and> hash_map hash' = (hash_map hash)(K \<mapsto> pl) \<and> unat (nbElems hash') = unat (nbElems hash) + 1 \<or>
           ret = - 1 \<and> hash_map hash' = hash_map hash \<and> nbElems hash' = nbElems hash \<and>
           (alloc_ok \<longrightarrow> tsize hash = MAX_HASH_SIZE \<and> nbElems hash = tsize hash div MAX_FILL_DENOM * MAX_FILL_NUM)))"

lemma tsize_max: "hash_inv hash \<Longrightarrow> MAX_HASH_SIZE \<le> tsize hash \<Longrightarrow> tsize hash = MAX_HASH_SIZE"
  using table_size_le [of "table hash" "tsize hash"]
  by (auto simp: hash_inv_def rh_table_def table_size_def word_unat_eq_iff word_le_nat_alt)

lemma update_ok:
  assumes inv: "hash_inv hash" and k: "good k" "good k2" "good k3" "k \<noteq> NULL" "dict_law (dict hash)"
    and K_def: "K = keyval k k2 k3"
  shows "\<exists>ret hash' freed. xmlHashUpdateInternal mem (Ptr hash) k k2 k3 pl dealloc update = Some (ret, Ptr hash', freed) \<and>
    hash_inv hash' \<and> randomSeed hash' = randomSeed hash \<and> dict hash' = dict hash \<and>
    update_spec hash K pl dealloc update (\<not> update_refused mem hash k k2 k3) ret hash' (map fst freed)"
proof -
  define v where "v = hash_key (randomSeed hash) K"
  have val: "xmlHashValue (randomSeed hash) k k2 k3 = Some (v, klen k, klen k2, klen k3)"
    using xmlHashValue_good [OF k(1-4)] by (simp add: K_def v_def)
  let ?ins = "\<lambda>h e. hash_insert_at mem h k k2 k3 (klen k, klen k2, klen k3) pl v e"
  let ?grow = "\<lambda>newSize. do {
    g \<leftarrow> hash_grow_find (mem 0) hash newSize v;
    case g of None \<Rightarrow> Some (- 1, Ptr hash, [])
    | Some (hash', entry) \<Rightarrow> do { (r, hash'') \<leftarrow> ?ins hash' entry; Some (r, Ptr hash'', []) } }"
  have U: "xmlHashUpdateInternal mem (Ptr hash) k k2 k3 pl dealloc update =
    (if tsize hash = 0 then ?grow MIN_HASH_SIZE
     else do {
       (entry, found) \<leftarrow> xmlHashFindEntry hash k k2 k3 v;
       if found then
         (if update then do {
            e \<leftarrow> rd (table hash) entry;
            t \<leftarrow> wr (table hash) entry (e\<lparr>payload := pl\<rparr>);
            Some (0, Ptr (hash\<lparr>table := t\<rparr>), if dealloc then [(payload e, key e)] else []) }
          else Some (0, Ptr hash, []))
       else if nbElems hash + 1 > tsize hash div MAX_FILL_DENOM * MAX_FILL_NUM then
         (if tsize hash \<ge> MAX_HASH_SIZE then Some (- 1, Ptr hash, []) else ?grow (tsize hash * 2))
       else do { (r, hash'') \<leftarrow> ?ins hash entry; Some (r, Ptr hash'', []) } })"
    using k(4) val by (simp add: xmlHashUpdateInternal_def Let_def)
  have none: "hash_map hash K = None" if "\<forall>e \<in># occ hashValue (table hash). entry_key e \<noteq> K"
    using that hash_map_dom [of K hash] by blast
  have grow: "\<exists>ret hash' freed. ?grow newSize = Some (ret, Ptr hash', freed) \<and>
      hash_inv hash' \<and> randomSeed hash' = randomSeed hash \<and> dict hash' = dict hash \<and>
      update_spec hash K pl dealloc update (\<not> update_refused mem hash k k2 k3) ret hash' (map fst freed)"
    if "newSize = (if tsize hash = 0 then MIN_HASH_SIZE else tsize hash * 2)" "tsize hash < MAX_HASH_SIZE"
      and a: "\<forall>e \<in># occ hashValue (table hash). entry_key e \<noteq> K"
      and f: "tsize hash = 0 \<or> nbElems hash + 1 > tsize hash div 8 * 7" for newSize
    using grow_insert_ok [OF inv that(1,2) v_def a k K_def, of mem pl]
  proof (elim disjE exE conjE)
    assume "hash_grow_find (mem 0) hash newSize v = Some None" "\<not> mem 0 (unat newSize * sizeof_xmlHashEntry)"
    then show ?thesis using none [OF a] inv f that(1) by (simp add: update_spec_def update_refused_def)
  next
    fix hash1 entry
    assume h: "hash_grow_find (mem 0) hash newSize v = Some (Some (hash1, entry))" "hash_inv hash1" "hash_map hash1 = hash_map hash"
      "randomSeed hash1 = randomSeed hash" "dict hash1 = dict hash" "nbElems hash1 = nbElems hash"
      "?ins hash1 entry = Some (- 1, hash1)" "keys_refused mem (dict hash) k k2 k3"
    then show ?thesis using none [OF a] by (simp add: update_spec_def update_refused_def)
  next
    fix hash1 entry hash'
    assume h: "hash_grow_find (mem 0) hash newSize v = Some (Some (hash1, entry))"
      "?ins hash1 entry = Some (1, hash')" "hash_inv hash'" "hash_map hash' = (hash_map hash)(K \<mapsto> pl)"
      "unat (nbElems hash') = unat (nbElems hash) + 1" "randomSeed hash' = randomSeed hash" "dict hash' = dict hash"
    then show ?thesis using none [OF a] by (simp add: update_spec_def)
  qed
  show ?thesis
  proof (cases "tsize hash = 0")
    case True
    then have "\<forall>e \<in># occ hashValue (table hash). entry_key e \<noteq> K" using hash_inv_zero [OF inv] by (simp add: occ_def)
    with True U grow [of MIN_HASH_SIZE] show ?thesis by simp
  next
    case nz: False
    show ?thesis
    proof (cases rule: find_cases [OF inv nz k(1-4) K_def v_def, case_names found absent])
      case (found i)
      let ?e = "table hash ! i"
      have m: "hash_map hash K = Some (payload ?e)"
        using found hash_map_Some_iff [OF hash_inv_distinct [OF inv]] by (auto simp: occ_set)
      show ?thesis
      proof (cases update)
        case True
        with U nz found m payload_update_ok [OF inv found(2,3), of pl] show ?thesis
          by (simp add: rd_def wr_def update_spec_def)
      next
        case False
        with U nz found m inv show ?thesis by (simp add: update_spec_def)
      qed
    next
      case (absent h j)
      let ?full = "nbElems hash + 1 > tsize hash div 8 * 7"
      have tb: "rh_table hashValue (table hash) (tsize hash)" "MIN_HASH_SIZE \<le> tsize hash"
        using inv nz by (auto simp: hash_inv_alt)
      have n31: "unat (tsize hash) \<le> 2147483648" using table_size_le [of "table hash"] tb(1) by (simp add: rh_table_def table_size_def)
      have nb0: "unat (nbElems hash) \<le> unat (tsize hash) div 8 * 7" "unat (nbElems hash + 1) = unat (nbElems hash) + 1"
      proof -
        have "nbElems hash \<le> tsize hash div 8 * 7" using inv nz by (auto simp: hash_inv_def)
        then show 1: "unat (nbElems hash) \<le> unat (tsize hash) div 8 * 7"
          by (simp add: word_le_nat_alt unat_fill [OF n31])
        then show "unat (nbElems hash + 1) = unat (nbElems hash) + 1"
          using n31 by (simp add: unat_add_lem [THEN iffD1])
      qed
      consider "?full" "MAX_HASH_SIZE \<le> tsize hash" | "?full" "tsize hash < MAX_HASH_SIZE" | "\<not> ?full" by force
      then show ?thesis
      proof cases
        case 1
        have "xmlHashUpdateInternal mem (Ptr hash) k k2 k3 pl dealloc update = Some (- 1, Ptr hash, [])"
          unfolding U using nz absent(1) 1 by simp
        moreover have "nbElems hash = tsize hash div 8 * 7"
          using 1(1) nb0 by (simp add: word_less_nat_alt unat_fill [OF n31] word_unat_eq_iff)
        ultimately show ?thesis using none [OF absent(4)] inv tsize_max [OF inv 1(2)] by (simp add: update_spec_def)
      next
        case 2
        have "xmlHashUpdateInternal mem (Ptr hash) k k2 k3 pl dealloc update = ?grow (tsize hash * 2)"
          unfolding U using nz absent(1) 2 by (simp add: not_le [symmetric])
        with grow [of "tsize hash * 2"] nz 2 absent(4) show ?thesis by (simp only:) simp
      next
        case 3
        have nb: "unat (nbElems hash) + 1 \<le> unat (tsize hash) div 8 * 7"
          using 3 nb0 by (simp add: not_less word_le_nat_alt unat_fill [OF n31])
        have "?ins hash ((h + j) mod length (table hash)) = Some (- 1, hash) \<and> keys_refused mem (dict hash) k k2 k3 \<or>
          (\<exists>hash'. ?ins hash ((h + j) mod length (table hash)) = Some (1, hash') \<and>
            hash_inv hash' \<and> hash_map hash' = (hash_map hash)(keyval k k2 k3 \<mapsto> pl) \<and>
            unat (nbElems hash') = unat (nbElems hash) + 1 \<and> randomSeed hash' = randomSeed hash \<and> dict hash' = dict hash)"
          using inv tb nb absent k v_def K_def by (intro insert_ok [OF _ _ tb nb]) (auto simp: hash_inv_alt)
        moreover have "xmlHashUpdateInternal mem (Ptr hash) k k2 k3 pl dealloc update =
          do { (r, hash'') \<leftarrow> ?ins hash ((h + j) mod length (table hash)); Some (r, Ptr hash'', []) }"
          unfolding U using nz absent(1) 3 by simp
        ultimately show ?thesis using none [OF absent(4)] inv K_def
          by (elim disjE exE conjE) (simp_all add: update_spec_def update_refused_def)
      qed
    qed
  qed
qed

lemma remove_ok:
  assumes inv: "hash_inv hash" and k: "good k" "good k2" "good k3" "k \<noteq> NULL"
  shows "\<exists>ret hash' freed. xmlHashRemoveEntry3 (Ptr hash) k k2 k3 dealloc = Some (ret, Ptr hash', freed) \<and>
    hash_inv hash' \<and> randomSeed hash' = randomSeed hash \<and> dict hash' = dict hash \<and>
    hash_map hash' = (hash_map hash)(keyval k k2 k3 := None) \<and>
    (case hash_map hash (keyval k k2 k3) of
       None \<Rightarrow> ret = - 1 \<and> hash' = hash \<and> freed = []
     | Some old \<Rightarrow> ret = 0 \<and> unat (nbElems hash) = unat (nbElems hash') + 1 \<and>
         map fst freed = (if dealloc \<and> old \<noteq> NULL then [old] else []))"
proof (cases "tsize hash = 0")
  case True
  then have "hash_map hash = Map.empty" using hash_inv_zero [OF inv] by (simp add: hash_map_def)
  with True inv show ?thesis by (simp add: xmlHashRemoveEntry3_def)
next
  case nz: False
  note val = xmlHashValue_good [OF k]
  have tb: "rh_table hashValue (table hash) (tsize hash)" "MIN_HASH_SIZE \<le> tsize hash"
    "nbElems hash \<le> tsize hash div 8 * 7" using inv nz by (auto simp: hash_inv_alt)
  show ?thesis
  proof (cases rule: find_cases [OF inv nz k refl refl, case_names found absent])
    case (found i)
    let ?e = "table hash ! i" and ?K = "keyval k k2 k3"
    obtain t' where t': "rh_remove hashValue (\<lambda>x. x\<lparr>hashValue := 0\<rparr>) (table hash) (tsize hash) i = Some t'"
      "rh_table hashValue t' (tsize hash)" "occ hashValue (table hash) = add_mset ?e (occ hashValue t')"
      using rh_delete [OF tb(1) found(2,3), where clear = "\<lambda>x. x\<lparr>hashValue := 0\<rparr>"] by auto
    define hash' where "hash' = hash\<lparr>table := t', nbElems := nbElems hash - 1\<rparr>"
    have m: "hash_map hash ?K = Some (payload ?e)"
      using found hash_map_Some_iff [OF hash_inv_distinct [OF inv]] by (auto simp: occ_set)
    have "unat (nbElems hash) = Suc (size (occ hashValue t'))" using inv t'(3) by (simp add: hash_inv_alt)
    then have nb: "unat (nbElems hash - 1) = size (occ hashValue t')" "unat (nbElems hash) = unat (nbElems hash - 1) + 1"
      by (simp_all add: unat_sub word_le_nat_alt)
    have ok: "entries_ok (randomSeed hash) (add_mset ?e (occ hashValue t'))" using inv t'(3) by (simp add: hash_inv_alt)
    have "nbElems hash - 1 \<le> tsize hash div 8 * 7" using nb(2) tb(3) by (simp add: word_le_nat_alt)
    then have inv': "hash_inv hash'"
      using keyed_remove [OF ok] nb t'(2) tb(2) by (simp add: hash_inv_alt hash'_def)
    have "hash_map hash' = (hash_map hash)(?K := None)"
      using key_map_delete [OF ok [folded t'(3)] t'(3)] found(4) by (simp add: hash_map_def hash'_def)
    with found nz k val t'(1) m inv' nb(2) show ?thesis
      by (simp add: xmlHashRemoveEntry3_def rd_def hash'_def)
  next
    case (absent h j)
    have "hash_map hash (keyval k k2 k3) = None" using absent hash_map_dom [of "keyval k k2 k3" hash] by blast
    moreover from this have "(hash_map hash)(keyval k k2 k3 := None) = hash_map hash" by auto
    ultimately show ?thesis using absent nz k val inv by (simp add: xmlHashRemoveEntry3_def)
  qed
qed

section \<open>Creation\<close>

lemma create_size_ok:
  assumes "k \<le> 31" "31 < fuel + k"
  shows "\<exists>k' \<ge> k. k' \<le> 31 \<and> create_size fuel (2 ^ k) sz = Some (2 ^ k') \<and> (sz \<le> 2 ^ k' \<or> k' = 31)"
  using assms
proof (induction fuel arbitrary: k)
  case (Suc fuel)
  show ?case
  proof (cases "(2 :: uint) ^ k < sz \<and> (2 :: uint) ^ k < MAX_HASH_SIZE")
    case True
    then have "k \<noteq> 31" by auto
    then have "\<exists>k' \<ge> Suc k. k' \<le> 31 \<and> create_size fuel (2 ^ Suc k) sz = Some (2 ^ k') \<and> (sz \<le> 2 ^ k' \<or> k' = 31)"
      using Suc.prems by (intro Suc.IH) auto
    then obtain k' where k': "Suc k \<le> k'" "k' \<le> 31" "create_size fuel (2 ^ Suc k) sz = Some (2 ^ k')"
      "sz \<le> 2 ^ k' \<or> k' = 31" by blast
    have "create_size (Suc fuel) (2 ^ k) sz = Some (2 ^ k')"
      using True k'(3) by (simp add: mult.commute)
    then show ?thesis using k' by (intro exI [of _ k']) auto
  next
    case False
    have "(2 :: uint) ^ k < MAX_HASH_SIZE \<or> k = 31"
    proof (cases "k = 31")
      case False
      then have "(2::nat) ^ k < 2 ^ 31" using Suc.prems(1) by (intro power_strict_increasing) auto
      then show ?thesis using unat_of_nat [of "2 ^ k", where ?'a = 32] by (simp add: word_less_nat_alt)
    qed simp
    then show ?thesis using False Suc.prems by (intro exI [of _ k]) auto
  qed
qed simp

lemma create_ok:
  "\<exists>hash :: 'p xmlHashTable ptr. xmlHashCreate mem seed sz = Some hash \<and>
    (case hash of NULL \<Rightarrow> \<not> (\<forall>i n. mem i n)
     | Ptr h \<Rightarrow> hash_inv h \<and> hash_map h = Map.empty \<and> dict h = NULL \<and> randomSeed h = seed \<and>
         (sz > 8 \<and> sz \<le> INT_MAX \<longrightarrow> nat sz \<le> unat (tsize h)))"
proof (cases "mem 0 sizeof_xmlHashTable \<and> sz > 8")
  case False
  then show ?thesis
    by (auto simp: xmlHashCreate_def Let_def hash_inv_def hash_map_def)
next
  case True
  obtain k where k: "4 \<le> k" "k \<le> 31" "create_size 32 16 (word_of_int sz) = Some (2 ^ k)"
    "word_of_int sz \<le> (2 ^ k :: uint) \<or> k = 31"
    using create_size_ok [of 4 32 "word_of_int sz"] by auto
  let ?n = "2 ^ k :: uint"
  have p: "(2::nat) ^ k < 2 ^ 32" "(2::nat) ^ 4 \<le> 2 ^ k"
    using k(1,2) by (intro power_strict_increasing power_increasing; simp)+
  then have un: "unat ?n = 2 ^ k" using unat_of_nat [of "2 ^ k", where ?'a = 32] by simp
  have ts: "table_size (replicate (unat ?n) (blank_entry :: 'p xmlHashEntry)) ?n" using k(2) by (auto simp: table_size_def)
  have bl: "hashValue (blank_entry :: 'p xmlHashEntry) = 0" by (simp add: blank_entry_def)
  note tb = rh_table_blank [where hv = hashValue, OF ts bl]
  define h :: "'p xmlHashTable" where "h = \<lparr>table = replicate (unat ?n) blank_entry, tsize = ?n, nbElems = 0, dict = NULL, randomSeed = seed\<rparr>"
  have g: "xmlHashGrow (mem 1) \<lparr>table = [], tsize = 0, nbElems = 0, dict = NULL, randomSeed = seed\<rparr> ?n =
    (if mem 1 (unat ?n * sizeof_xmlHashEntry) then Some (0, h)
     else Some (- 1, \<lparr>table = [], tsize = 0, nbElems = 0, dict = NULL, randomSeed = seed\<rparr>))"
    using p un by (simp add: xmlHashGrow_def rh_grow_def h_def)
  have inv: "hash_inv h" using tb p un by (simp add: hash_inv_alt h_def keyed_def word_le_nat_alt)
  have m: "hash_map h = Map.empty" by (simp add: hash_map_def key_map_def h_def bl)
  have "nat sz \<le> unat (tsize h)" if "sz \<le> INT_MAX"
  proof -
    have "unat (word_of_int sz :: uint) = nat sz"
      using True that by (simp add: unsigned_of_int nat_take_bit_eq take_bit_nat_eq_self_iff take_bit_int_eq_self)
    then show ?thesis using k(4) un that by (auto simp: h_def word_le_nat_alt)
  qed
  then show ?thesis using True k(3) g inv m
    by (cases "mem 1 (unat ?n * sizeof_xmlHashEntry)") (auto simp: xmlHashCreate_def Let_def h_def)
qed

section \<open>Qualified lookup\<close>

definition qval :: "xmlString \<Rightarrow> xmlString \<Rightarrow> bytes option" where
  "qval p n = (case p of NULL \<Rightarrow> kval n | Ptr s \<Rightarrow> map_option (\<lambda>v. strval s @ ch (CHR '':'') # v) (kval n))"

text \<open>A prefix is absent, or not empty and has a name after it.\<close>

definition good_qname :: "xmlString \<Rightarrow> xmlString \<Rightarrow> bool" where
  "good_qname p n \<longleftrightarrow> good p \<and> good n \<and> (case p of NULL \<Rightarrow> True | Ptr s \<Rightarrow> strval s \<noteq> [] \<and> n \<noteq> NULL)"

lemma hash_qname_good: "good_qname p n \<Longrightarrow> hash_qname h p n = Some (hash_opt_bytes h (qval p n))"
  by (cases p; cases n)
    (simp_all add: hash_qname_def good_qname_def hash_opt_good hash_string_cstring qval_def hash_opt_bytes_def)

lemma xmlStrEqual_good: "good a \<Longrightarrow> good b \<Longrightarrow> xmlStrEqual False a b = Some (kval a = kval b)"
  by (cases a; cases b) (auto simp: xmlStrEqual_def strequal_loop_cstring)

lemma xmlStrQEqual_good:
  assumes "good_qname p n" "good s"
  shows "xmlStrQEqual False p n s = Some (kval s = qval p n)"
proof (cases p)
  case NULL
  then show ?thesis using assms xmlStrEqual_good [of n s] by (auto simp: xmlStrQEqual_def good_qname_def qval_def)
next
  case (Ptr pp)
  then obtain nn where n: "n = Ptr nn" "cstring pp" "cstring nn" "strval pp \<noteq> []"
    using assms by (cases n) (auto simp: good_qname_def)
  show ?thesis
  proof (cases s)
    case NULL then show ?thesis using Ptr n by (simp add: xmlStrQEqual_def qval_def)
  next
    case (Ptr ss)
    then show ?thesis using \<open>p = Ptr pp\<close> n assms(2) xmlStrQEqual_cstring [of pp nn ss False] by (simp add: qval_def)
  qed
qed

lemma qlookup_ok:
  assumes inv: "hash_inv hash" and q: "good_qname p1 n1" "good_qname p2 n2" "good_qname p3 n3" "n1 \<noteq> NULL"
  shows "xmlHashQLookup3 (Ptr hash) p1 n1 p2 n2 p3 n3 =
    Some (case hash_map hash (qval p1 n1, qval p2 n2, qval p3 n3) of None \<Rightarrow> NULL | Some p \<Rightarrow> p)"
proof (cases "tsize hash = 0")
  case True
  then show ?thesis using hash_inv_zero [OF inv] by (simp add: xmlHashQLookup3_def hash_map_def)
next
  case nz: False
  let ?K = "(qval p1 n1, qval p2 n2, qval p3 n3)"
  define v where "v = hash_key (randomSeed hash) ?K"
  have val: "xmlHashQNameValue (randomSeed hash) p1 n1 p2 n2 p3 n3 = Some v"
    using q by (simp add: xmlHashQNameValue_def hash_qname_good v_def hash_key_def Let_def)
  let ?match = "qentry_matches (v OR MAX_HASH_SIZE) (p1, n1) (p2, n2) (p3, n3)"
  have m: "?match e = Some (entry_key e = ?K)" if "entry_ok (randomSeed hash) e" for e
    using that q by (auto simp: entry_ok_def qentry_matches_def xmlStrQEqual_good entry_key_def keyval_def v_def)
  consider (found) i where "rh_lookup hashValue ?match (table hash) (tsize hash) v = Some (i, True)"
      "i < length (table hash)" "hashValue (table hash ! i) \<noteq> 0" "entry_key (table hash ! i) = ?K"
    | (absent) e where "rh_lookup hashValue ?match (table hash) (tsize hash) v = Some (e, False)"
      "\<forall>e \<in># occ hashValue (table hash). entry_key e \<noteq> ?K"
    by (rule rh_lookup_key [OF inv nz, where match = ?match and K = ?K and v = v]) (use m v_def in auto)
  then show ?thesis
  proof cases
    case (found i)
    then have "hash_map hash ?K = Some (payload (table hash ! i))"
      using hash_map_Some_iff [OF hash_inv_distinct [OF inv]] by (auto simp: occ_set)
    with found nz q(4) val show ?thesis by (simp add: xmlHashQLookup3_def rd_def)
  next
    case (absent e)
    then have "hash_map hash ?K = None" using hash_map_dom [of ?K hash] by blast
    with absent nz q(4) val show ?thesis by (simp add: xmlHashQLookup3_def)
  qed
qed

section \<open>Freeing and copying\<close>

lemma free_payloads:
  "mset (map fst (xmlHashFree (Ptr hash) dealloc)) =
    (if dealloc then {# p \<in># image_mset payload (occ hashValue (table hash)). p \<noteq> NULL #} else {#})"
proof -
  have "mset (map fst (concat (map (\<lambda>entry. if hashValue entry = 0 then []
      else if dealloc \<and> payload entry \<noteq> NULL then [(payload entry, key entry)] else []) t))) =
    (if dealloc then {# p \<in># image_mset payload (occ hashValue t). p \<noteq> NULL #} else {#})" for t :: "'a xmlHashEntry list"
    by (induction t) (auto simp: occ_def)
  then show ?thesis by (simp add: xmlHashFree_def)
qed

definition copied :: "bool \<Rightarrow> 'q xmlHashTable ptr \<Rightarrow> ('q ptr \<times> xmlString) list \<Rightarrow> (hkey \<Rightarrow> 'q ptr option) \<Rightarrow> bool" where
  "copied ok res freed M \<longleftrightarrow>
     (case res of NULL \<Rightarrow> \<not> ok | Ptr ret \<Rightarrow> freed = [] \<and> hash_inv ret \<and> hash_map ret = M)"

lemma copied_weaken: "copied ok res freed M \<Longrightarrow> (ok' \<Longrightarrow> ok) \<Longrightarrow> copied ok' res freed M"
  by (auto simp: copied_def split: ptr.splits)

definition entry_copies :: "('p ptr \<Rightarrow> xmlString \<Rightarrow> 'q ptr) \<Rightarrow> 'p xmlHashEntry list \<Rightarrow> (hkey \<times> 'q ptr) list" where
  "entry_copies copyFunc es =
     map (\<lambda>e. (entry_key e, copyFunc (payload e) (key e))) (filter (\<lambda>e. hashValue e \<noteq> 0) es)"

lemma entry_copies_simps [simp]:
  "entry_copies f [] = []"
  "entry_copies f (e # es) =
     (if hashValue e = 0 then entry_copies f es else (entry_key e, f (payload e) (key e)) # entry_copies f es)"
  by (simp_all add: entry_copies_def)

lemma dom_entry_copies: "fst ` set (entry_copies f es) = entry_key ` set (filter (\<lambda>e. hashValue e \<noteq> 0) es)"
  by (simp add: entry_copies_def image_image)

lemma copy_loop_ok:
  fixes copyFunc :: "'p ptr \<Rightarrow> xmlString \<Rightarrow> 'q ptr"
  assumes "\<forall>e \<in> set es. hashValue e \<noteq> 0 \<longrightarrow> entry_ok s e"
    and "distinct (map entry_key (filter (\<lambda>e. hashValue e \<noteq> 0) es))"
    and "hash_inv ret" "dict ret = NULL"
    and "\<forall>e \<in> set es. hashValue e \<noteq> 0 \<longrightarrow> entry_key e \<notin> dom (hash_map ret)"
    and "unat (nbElems ret) + length (filter (\<lambda>e. hashValue e \<noteq> 0) es) \<le> 1879048192"
  shows "\<exists>res freed. hash_copy_loop mem copyFunc dealloc es (Ptr ret) = Some (res, freed) \<and>
    copied ((\<forall>i j n. mem i j n) \<and> (\<forall>p k. copyFunc p k \<noteq> NULL)) res freed (hash_map ret ++ map_of (entry_copies copyFunc es))"
  using assms
proof (induction es arbitrary: ret mem)
  case Nil
  then show ?case by (simp add: copied_def)
next
  case (Cons e es)
  let ?ok = "\<lambda>mem :: nat \<Rightarrow> nat \<Rightarrow> allocator. (\<forall>i j n. mem i j n) \<and> (\<forall>p k. copyFunc p k \<noteq> NULL)"
  have IH: "\<exists>res freed. hash_copy_loop (\<lambda>i. mem (Suc i)) copyFunc dealloc es (Ptr ret') = Some (res, freed) \<and>
      copied (?ok mem) res freed (hash_map ret' ++ map_of (entry_copies copyFunc es))"
    if ret': "hash_inv ret'" "dict ret' = NULL" "\<forall>e \<in> set es. hashValue e \<noteq> 0 \<longrightarrow> entry_key e \<notin> dom (hash_map ret')"
      "unat (nbElems ret') + length (filter (\<lambda>e. hashValue e \<noteq> 0) es) \<le> 1879048192" for ret'
  proof -
    obtain res freed where "hash_copy_loop (\<lambda>i. mem (Suc i)) copyFunc dealloc es (Ptr ret') = Some (res, freed)"
      "copied (?ok (\<lambda>i. mem (Suc i))) res freed (hash_map ret' ++ map_of (entry_copies copyFunc es))"
      using Cons.IH [of ret' "\<lambda>i. mem (Suc i)"] Cons.prems(1,2) ret' by (auto split: if_splits)
    then show ?thesis by (intro exI conjI) (assumption, auto elim: copied_weaken)
  qed
  show ?case
  proof (cases "hashValue e = 0")
    case True
    then show ?thesis using IH [of ret] Cons.prems by simp
  next
    case False
    let ?c = "copyFunc (payload e) (key e)"
    have ok: "entry_ok s e" using Cons.prems(1) False by simp
    then have k: "good (key e)" "good (key2 e)" "good (key3 e)" "key e \<noteq> NULL" "dict_law (dict ret)"
      using Cons.prems(4) by (auto simp: entry_ok_def dict_law_def)
    obtain r ret' fr where u: "xmlHashUpdateInternal (mem 0) (Ptr ret) (key e) (key2 e) (key3 e) ?c False False = Some (r, Ptr ret', fr)"
      "hash_inv ret'" "dict ret' = dict ret"
      "update_spec ret (entry_key e) ?c False False (\<not> update_refused (mem 0) ret (key e) (key2 e) (key3 e)) r ret' (map fst fr)"
      using update_ok [OF Cons.prems(3) k, of "entry_key e" "mem 0" ?c False False] by (auto simp: entry_key_def)
    have none: "hash_map ret (entry_key e) = None" using Cons.prems(5) False by auto
    have loop: "hash_copy_loop mem copyFunc dealloc (e # es) (Ptr ret) =
      (if ?c = NULL then Some (NULL, xmlHashFree (Ptr ret) dealloc)
       else if r \<le> 0 then Some (NULL, (if dealloc then [(?c, key e)] else []) @ xmlHashFree (Ptr ret') dealloc)
       else hash_copy_loop (\<lambda>i. mem (Suc i)) copyFunc dealloc es (Ptr ret'))"
      using False u(1) by (simp add: Let_def xmlHashAdd3_def)
    consider "?c = NULL" | "?c \<noteq> NULL" "r \<le> 0" | "?c \<noteq> NULL" "r > 0" by force
    then show ?thesis
    proof cases
      case 1
      then show ?thesis unfolding loop by (auto simp: copied_def)
    next
      case 2
      have "nbElems ret \<noteq> 0x70000000" using Cons.prems(6) False by auto
      then have "update_refused (mem 0) ret (key e) (key2 e) (key3 e)" using u(4) none 2(2) by (auto simp: update_spec_def)
      from update_refused_no_dict [OF this Cons.prems(4)] have "\<not> (\<forall>i n. mem 0 i n)" .
      then show ?thesis unfolding loop using 2 by (auto simp: copied_def)
    next
      case 3
      then have m: "hash_map ret' = (hash_map ret)(entry_key e \<mapsto> ?c)" "unat (nbElems ret') = unat (nbElems ret) + 1"
        using u(4) none by (auto simp: update_spec_def)
      have nin: "entry_key e \<notin> entry_key ` set (filter (\<lambda>e. hashValue e \<noteq> 0) es)" using Cons.prems(2) False by simp
      have "\<forall>f \<in> set es. hashValue f \<noteq> 0 \<longrightarrow> entry_key f \<notin> dom (hash_map ret')"
      proof (intro ballI impI)
        fix f assume f: "f \<in> set es" "hashValue f \<noteq> 0"
        then have "entry_key f \<in> entry_key ` set (filter (\<lambda>e. hashValue e \<noteq> 0) es)" by simp
        then have "entry_key f \<noteq> entry_key e" using nin by metis
        then show "entry_key f \<notin> dom (hash_map ret')" using f Cons.prems(5) m by (simp add: domIff)
      qed
      with IH [of ret'] u(2,3) m(2) Cons.prems(4,6) False
      have l: "\<exists>res freed. hash_copy_loop (\<lambda>i. mem (Suc i)) copyFunc dealloc es (Ptr ret') = Some (res, freed) \<and>
        copied (?ok mem) res freed (hash_map ret' ++ map_of (entry_copies copyFunc es))" by simp
      have "entry_key e \<notin> dom (map_of (entry_copies copyFunc es))"
        using nin by (simp add: dom_map_of_conv_image_fst dom_entry_copies)
      then have "hash_map ret ++ map_of (entry_copies copyFunc (e # es)) = hash_map ret' ++ map_of (entry_copies copyFunc es)"
        using False by (simp add: m map_add_upd_left)
      with l 3 show ?thesis unfolding loop by simp
    qed
  qed
qed

lemma hash_map_empty_elems:
  assumes "hash_inv hash" "hash_map hash = Map.empty"
  shows "nbElems hash = 0"
proof -
  have "filter (\<lambda>e. hashValue e \<noteq> 0) (table hash) = []"
    using assms(2) by (simp add: hash_map_def key_map_def del: filter_empty_conv)
  then have "unat (nbElems hash) = 0" using assms(1) by (simp add: hash_inv_def del: filter_empty_conv)
  then show ?thesis by (simp add: unsigned_eq_0_iff)
qed

lemma hash_inv_elems:
  assumes "hash_inv hash"
  shows "unat (nbElems hash) \<le> 1879048192"
proof (cases "tsize hash = 0")
  case True
  then show ?thesis using hash_inv_zero [OF assms] assms by (simp add: hash_inv_def)
next
  case False
  then have "table_size (table hash) (tsize hash)" "nbElems hash \<le> tsize hash div 8 * 7"
    using assms by (auto simp: hash_inv_def rh_table_def)
  moreover from this(1) have "unat (tsize hash) \<le> 2147483648" using table_size_le [of "table hash"] by (simp add: table_size_def)
  ultimately show ?thesis using unat_fill [of "tsize hash"] by (simp add: word_le_nat_alt)
qed

lemma copy_ok:
  fixes hash :: "'p xmlHashTable" and copyFunc :: "'p ptr \<Rightarrow> xmlString \<Rightarrow> 'q ptr"
  assumes inv: "hash_inv hash"
  shows "\<exists>res freed. xmlHashCopySafe mem seed (Ptr hash) (Ptr copyFunc) dealloc = Some (res, freed) \<and>
    (case res of NULL \<Rightarrow> \<not> ((\<forall>i j n. mem i j n) \<and> (\<forall>p k. copyFunc p k \<noteq> NULL))
     | Ptr ret \<Rightarrow> freed = [] \<and> hash_inv ret \<and> dom (hash_map ret) = dom (hash_map hash) \<and>
         (\<forall>e \<in># occ hashValue (table hash). hash_map ret (entry_key e) = Some (copyFunc (payload e) (key e))))"
proof -
  obtain r :: "'q xmlHashTable ptr" where r: "xmlHashCreate (mem 0) seed (sint (tsize hash)) = Some r"
    "case r of NULL \<Rightarrow> \<not> (\<forall>i n. mem 0 i n) | Ptr h \<Rightarrow> hash_inv h \<and> hash_map h = Map.empty \<and> dict h = NULL"
  proof -
    obtain r :: "'q xmlHashTable ptr" where "xmlHashCreate (mem 0) seed (sint (tsize hash)) = Some r"
      "case r of NULL \<Rightarrow> \<not> (\<forall>i n. mem 0 i n) | Ptr h \<Rightarrow> hash_inv h \<and> hash_map h = Map.empty \<and> dict h = NULL \<and>
         randomSeed h = seed \<and> (sint (tsize hash) > 8 \<and> sint (tsize hash) \<le> INT_MAX \<longrightarrow> nat (sint (tsize hash)) \<le> unat (tsize h))"
      using create_ok [of "mem 0" seed "sint (tsize hash)"] by blast
    then show ?thesis using that [of r] by (cases r) simp_all
  qed
  show ?thesis
  proof (cases "r = NULL \<or> tsize hash = 0")
    case True
    then show ?thesis using r hash_inv_zero [OF inv] by (auto simp: xmlHashCopySafe_def hash_map_def occ_def split: ptr.splits)
  next
    case False
    then obtain h where h: "r = Ptr h" "hash_inv h" "hash_map h = Map.empty" "dict h = NULL" using r by (cases r) auto
    let ?L = "filter (\<lambda>e. hashValue e \<noteq> 0) (table hash)"
    have "length ?L \<le> 1879048192" using hash_inv_elems [OF inv] inv by (simp add: hash_inv_def)
    then obtain res freed where l: "hash_copy_loop (\<lambda>i. mem (Suc i)) copyFunc dealloc (table hash) (Ptr h) = Some (res, freed)"
      "copied ((\<forall>i j n. mem (Suc i) j n) \<and> (\<forall>p k. copyFunc p k \<noteq> NULL)) res freed (map_of (entry_copies copyFunc (table hash)))"
      using copy_loop_ok [of "table hash" "randomSeed hash" h "\<lambda>i. mem (Suc i)" copyFunc dealloc] inv h
        hash_map_empty_elems [OF h(2,3)] by (auto simp: hash_inv_def)
    have d: "distinct (map fst (entry_copies copyFunc (table hash)))"
      using hash_inv_distinct [OF inv] by (simp add: entry_copies_def comp_def)
    have "map_of (entry_copies copyFunc (table hash)) (entry_key e) = Some (copyFunc (payload e) (key e))"
      if "e \<in># occ hashValue (table hash)" for e
      using that d by (intro map_of_is_SomeI) (auto simp: occ_def entry_copies_def)
    moreover have "dom (map_of (entry_copies copyFunc (table hash))) = dom (hash_map hash)"
      by (simp add: hash_map_def key_map_def dom_map_of_conv_image_fst image_image dom_entry_copies)
    ultimately show ?thesis using False r(1) h l by (auto simp: xmlHashCopySafe_def copied_def split: ptr.splits)
  qed
qed

section \<open>Refinement\<close>

datatype 'p hash_op =
    HashAdd "nat \<Rightarrow> allocator" xmlString xmlString xmlString "'p ptr"
  | HashUpdate "nat \<Rightarrow> allocator" xmlString xmlString xmlString "'p ptr" bool
  | HashRemove xmlString xmlString xmlString bool
  | HashLookup xmlString xmlString xmlString

text \<open>The result of an operation: return code, payload found, payloads handed to the deallocator.\<close>

type_synonym 'p hash_res = "int \<times> 'p ptr \<times> 'p ptr list"

definition hash_step :: "'p hash_op \<Rightarrow> 'p xmlHashTable \<Rightarrow> ('p hash_res \<times> 'p xmlHashTable) option" where
  "hash_step op hash =
     (let result = (\<lambda>(r, h, freed). case h of NULL \<Rightarrow> None | Ptr h' \<Rightarrow> Some ((r, NULL, map fst freed), h'))
      in case op of
           HashAdd mem k k2 k3 pl \<Rightarrow> Option.bind (xmlHashAdd3 mem (Ptr hash) k k2 k3 pl) result
         | HashUpdate mem k k2 k3 pl dealloc \<Rightarrow>
             Option.bind (xmlHashUpdateEntry3 mem (Ptr hash) k k2 k3 pl dealloc) result
         | HashRemove k k2 k3 dealloc \<Rightarrow> Option.bind (xmlHashRemoveEntry3 (Ptr hash) k k2 k3 dealloc) result
         | HashLookup k k2 k3 \<Rightarrow> do { p \<leftarrow> xmlHashLookup3 (Ptr hash) k k2 k3; Some ((0, p, []), hash) })"

fun hash_spec :: "'p hash_op \<Rightarrow> (hkey \<Rightarrow> 'p ptr option) \<Rightarrow> 'p hash_res \<Rightarrow> (hkey \<Rightarrow> 'p ptr option) \<Rightarrow> bool" where
  "hash_spec (HashAdd mem k k2 k3 pl) m (r, p, freed) m' \<longleftrightarrow>
     freed = [] \<and> p = NULL \<and>
     (if keyval k k2 k3 \<in> dom m then r = 0 \<and> m' = m
      else r = 1 \<and> m' = m(keyval k k2 k3 \<mapsto> pl) \<or> r = - 1 \<and> m' = m)"
| "hash_spec (HashUpdate mem k k2 k3 pl dealloc) m (r, p, freed) m' \<longleftrightarrow>
     p = NULL \<and>
     (case m (keyval k k2 k3) of
        Some old \<Rightarrow> r = 0 \<and> m' = m(keyval k k2 k3 \<mapsto> pl) \<and> freed = (if dealloc then [old] else [])
      | None \<Rightarrow> freed = [] \<and> (r = 0 \<and> m' = m(keyval k k2 k3 \<mapsto> pl) \<or> r = - 1 \<and> m' = m))"
| "hash_spec (HashRemove k k2 k3 dealloc) m (r, p, freed) m' \<longleftrightarrow>
     p = NULL \<and> m' = m(keyval k k2 k3 := None) \<and>
     (case m (keyval k k2 k3) of
        Some old \<Rightarrow> r = 0 \<and> freed = (if dealloc \<and> old \<noteq> NULL then [old] else [])
      | None \<Rightarrow> r = - 1 \<and> freed = [])"
| "hash_spec (HashLookup k k2 k3) m (r, p, freed) m' \<longleftrightarrow>
     r = 0 \<and> freed = [] \<and> m' = m \<and> p = (case m (keyval k k2 k3) of None \<Rightarrow> NULL | Some pl \<Rightarrow> pl)"

fun hash_legal :: "'p hash_op \<Rightarrow> bool" where
  "hash_legal (HashAdd mem k k2 k3 pl) \<longleftrightarrow> good k \<and> good k2 \<and> good k3 \<and> k \<noteq> NULL"
| "hash_legal (HashUpdate mem k k2 k3 pl dealloc) \<longleftrightarrow> good k \<and> good k2 \<and> good k3 \<and> k \<noteq> NULL"
| "hash_legal (HashRemove k k2 k3 dealloc) \<longleftrightarrow> good k \<and> good k2 \<and> good k3 \<and> k \<noteq> NULL"
| "hash_legal (HashLookup k k2 k3) \<longleftrightarrow> good k \<and> good k2 \<and> good k3 \<and> k \<noteq> NULL"

definition hash_state :: "'p xmlHashTable \<Rightarrow> bool" where
  "hash_state hash \<longleftrightarrow> hash_inv hash \<and> dict_law (dict hash)"

lemma hash_step_refines:
  assumes st: "hash_state hash" and op: "hash_legal op"
  shows "\<exists>r hash'. hash_step op hash = Some (r, hash') \<and> hash_state hash' \<and> hash_spec op (hash_map hash) r (hash_map hash')"
proof -
  have inv: "hash_inv hash" and dl: "dict_law (dict hash)" using st by (simp_all add: hash_state_def)
  show ?thesis
  proof (cases op)
    case (HashAdd mem k k2 k3 pl)
    then have k: "good k" "good k2" "good k3" "k \<noteq> NULL" using op by simp_all
    obtain r h' fr where "xmlHashUpdateInternal mem (Ptr hash) k k2 k3 pl False False = Some (r, Ptr h', fr)" "hash_inv h'"
      "dict h' = dict hash" "update_spec hash (keyval k k2 k3) pl False False (\<not> update_refused mem hash k k2 k3) r h' (map fst fr)"
      using update_ok [OF inv k dl refl] by blast
    then show ?thesis using HashAdd dl
      by (auto simp: hash_step_def xmlHashAdd3_def hash_state_def update_spec_def split: option.splits)
  next
    case (HashUpdate mem k k2 k3 pl dealloc)
    then have k: "good k" "good k2" "good k3" "k \<noteq> NULL" using op by simp_all
    obtain r h' fr where "xmlHashUpdateInternal mem (Ptr hash) k k2 k3 pl dealloc True = Some (r, Ptr h', fr)" "hash_inv h'"
      "dict h' = dict hash" "update_spec hash (keyval k k2 k3) pl dealloc True (\<not> update_refused mem hash k k2 k3) r h' (map fst fr)"
      using update_ok [OF inv k dl refl] by blast
    then show ?thesis using HashUpdate dl
      by (auto simp: hash_step_def xmlHashUpdateEntry3_def hash_state_def update_spec_def split: option.splits)
  next
    case (HashRemove k k2 k3 dealloc)
    then have k: "good k" "good k2" "good k3" "k \<noteq> NULL" using op by simp_all
    obtain r h' fr where "xmlHashRemoveEntry3 (Ptr hash) k k2 k3 dealloc = Some (r, Ptr h', fr)" "hash_inv h'"
      "dict h' = dict hash" "hash_map h' = (hash_map hash)(keyval k k2 k3 := None)"
      "case hash_map hash (keyval k k2 k3) of None \<Rightarrow> r = - 1 \<and> h' = hash \<and> fr = []
       | Some old \<Rightarrow> r = 0 \<and> unat (nbElems hash) = unat (nbElems h') + 1 \<and>
           map fst fr = (if dealloc \<and> old \<noteq> NULL then [old] else [])"
      using remove_ok [OF inv k, of dealloc] by blast
    then show ?thesis using HashRemove dl
      by (cases "hash_map hash (keyval k k2 k3)") (auto simp: hash_step_def hash_state_def)
  next
    case (HashLookup k k2 k3)
    then have k: "good k" "good k2" "good k3" "k \<noteq> NULL" using op by simp_all
    show ?thesis using xmlHashLookup3_map [OF inv k] HashLookup st by (simp add: hash_step_def)
  qed
qed

interpretation hash_tables: implementation hash_step hash_spec hash_state hash_map hash_legal
  by unfold_locales (rule hash_step_refines)

section \<open>Properties\<close>

text \<open>
  C1. The hash tables implement finite maps.  Any sequence of additions, updates, removals and
  lookups, started in a table that satisfies the invariant, runs without an out-of-bounds access
  and without a probe that fails to end, whatever allocations fail; it keeps the invariant, and
  every result (return code, payload, deallocator calls) is the one the map prescribes.
\<close>

theorem hash_refines_map:
  assumes "hash_state hash" "\<forall>op \<in> set ops. hash_legal op"
  shows "\<exists>rs hash'. run_ops hash_step ops hash = Some (rs, hash') \<and> hash_state hash' \<and>
    spec_ops hash_spec ops (hash_map hash) rs (hash_map hash')"
  using assms by (rule hash_tables.run_refines)

definition empty_table :: "uint \<Rightarrow> 'p xmlHashTable" where
  "empty_table seed = \<lparr>table = [], tsize = 0, nbElems = 0, dict = NULL, randomSeed = seed\<rparr>"

lemma empty_table_inv [simp]: "hash_inv (empty_table seed)" "hash_map (empty_table seed) = Map.empty"
  "dict (empty_table seed) = NULL" "tsize (empty_table seed) = 0" "dict_law NULL" "hash_state (empty_table seed)"
  by (simp_all add: empty_table_def hash_inv_def hash_map_def hash_state_def dict_law_def)

theorem hash_refines_map_witness:
  "\<exists>rs hash'. run_ops hash_step
      [HashAdd (\<lambda>_ _. True) (Ptr [97, 0]) NULL NULL (Ptr (1 :: int)),
       HashRemove (Ptr [97, 0]) NULL NULL True, HashLookup (Ptr [97, 0]) NULL NULL] (empty_table 7) = Some (rs, hash') \<and>
    hash_state hash' \<and>
    spec_ops hash_spec
      [HashAdd (\<lambda>_ _. True) (Ptr [97, 0]) NULL NULL (Ptr (1 :: int)),
       HashRemove (Ptr [97, 0]) NULL NULL True, HashLookup (Ptr [97, 0]) NULL NULL] Map.empty rs (hash_map hash')"
  using hash_refines_map [of "empty_table 7" "[HashAdd (\<lambda>_ _. True) (Ptr [97, 0]) NULL NULL (Ptr (1 :: int)),
       HashRemove (Ptr [97, 0]) NULL NULL True, HashLookup (Ptr [97, 0]) NULL NULL]"] by simp

text \<open>
  C20. \<open>xmlHashUpdateInternal\<close> on every branch.  A present key returns 0, keeps the number of
  elements and, when updating, replaces the payload and hands the old one to the deallocator.
  An absent key is inserted and returns 1, or the call returns \<open>-1\<close> and leaves the map alone, with
  or without a dictionary only for one of these reasons: the table already has the maximal size
  and is filled to seven eighths; or (\<open>update_refused\<close>) the table is empty or filled to seven
  eighths and the request for a larger one is refused, or one of the keys cannot be copied, because
  the memory for it is refused or the dictionary neither owns nor accepts it.  A NULL table and a
  NULL key return \<open>-1\<close> and change nothing.
\<close>

theorem xmlHashUpdateInternal_correct:
  assumes "hash_inv hash" "good k" "good k2" "good k3" "k \<noteq> NULL" "dict_law (dict hash)"
  shows "(\<exists>ret hash' freed. xmlHashUpdateInternal mem (Ptr hash) k k2 k3 pl dealloc update = Some (ret, Ptr hash', freed) \<and>
    hash_inv hash' \<and> dict hash' = dict hash \<and>
    (case hash_map hash (keyval k k2 k3) of
       Some old \<Rightarrow> ret = 0 \<and> nbElems hash' = nbElems hash \<and>
         hash_map hash' = (if update then (hash_map hash)(keyval k k2 k3 \<mapsto> pl) else hash_map hash) \<and>
         map fst freed = (if update \<and> dealloc then [old] else [])
     | None \<Rightarrow> freed = [] \<and>
         (ret = 1 \<and> hash_map hash' = (hash_map hash)(keyval k k2 k3 \<mapsto> pl) \<and>
            unat (nbElems hash') = unat (nbElems hash) + 1 \<or>
          ret = - 1 \<and> hash_map hash' = hash_map hash \<and> nbElems hash' = nbElems hash \<and>
            (tsize hash = MAX_HASH_SIZE \<and> nbElems hash = tsize hash div MAX_FILL_DENOM * MAX_FILL_NUM \<or>
             update_refused mem hash k k2 k3)))) \<and>
    xmlHashUpdateInternal mem NULL k k2 k3 pl dealloc update = Some (- 1, NULL, []) \<and>
    xmlHashUpdateInternal mem (Ptr hash) NULL k2 k3 pl dealloc update = Some (- 1, Ptr hash, [])"
proof (intro conjI)
  obtain ret hash' freed where "xmlHashUpdateInternal mem (Ptr hash) k k2 k3 pl dealloc update = Some (ret, Ptr hash', freed)"
    "hash_inv hash'" "dict hash' = dict hash"
    "update_spec hash (keyval k k2 k3) pl dealloc update (\<not> update_refused mem hash k k2 k3) ret hash' (map fst freed)"
    using update_ok [OF assms refl] by blast
  then show "\<exists>ret hash' freed. xmlHashUpdateInternal mem (Ptr hash) k k2 k3 pl dealloc update = Some (ret, Ptr hash', freed) \<and>
    hash_inv hash' \<and> dict hash' = dict hash \<and>
    (case hash_map hash (keyval k k2 k3) of
       Some old \<Rightarrow> ret = 0 \<and> nbElems hash' = nbElems hash \<and>
         hash_map hash' = (if update then (hash_map hash)(keyval k k2 k3 \<mapsto> pl) else hash_map hash) \<and>
         map fst freed = (if update \<and> dealloc then [old] else [])
     | None \<Rightarrow> freed = [] \<and>
         (ret = 1 \<and> hash_map hash' = (hash_map hash)(keyval k k2 k3 \<mapsto> pl) \<and>
            unat (nbElems hash') = unat (nbElems hash) + 1 \<or>
          ret = - 1 \<and> hash_map hash' = hash_map hash \<and> nbElems hash' = nbElems hash \<and>
            (tsize hash = MAX_HASH_SIZE \<and> nbElems hash = tsize hash div MAX_FILL_DENOM * MAX_FILL_NUM \<or>
             update_refused mem hash k k2 k3)))"
    unfolding update_spec_def by (intro exI conjI) (assumption, auto split: option.splits)
qed (simp_all add: xmlHashUpdateInternal_def)

definition sample_ops :: xmlDictOps where
  "sample_ops = \<lparr>dict_owns = (\<lambda>_. False), dict_lookup = (\<lambda>k. if k = Ptr [98, 0] then k else NULL)\<rparr>"

theorem xmlHashUpdateInternal_correct_witness:
  "(\<exists>ret hash' freed. xmlHashUpdateInternal (\<lambda>_ _. True) (Ptr (empty_table 3)) (Ptr [98, 0]) NULL (Ptr [0]) (Ptr True) True True =
      Some (ret, Ptr hash', freed) \<and> hash_inv hash' \<and> ret = 1 \<and>
      hash_map hash' = [(Some [98], None, Some []) \<mapsto> Ptr True]) \<and>
   (\<exists>ret hash' freed. xmlHashUpdateInternal (\<lambda>_ _. True) (Ptr (empty_table 3\<lparr>dict := Ptr sample_ops\<rparr>)) (Ptr [98, 0]) NULL NULL (Ptr True) True True =
      Some (ret, Ptr hash', freed) \<and> ret = 1 \<and> hash_map hash' = [(Some [98], None, None) \<mapsto> Ptr True])"
proof
  show "\<exists>ret hash' freed. xmlHashUpdateInternal (\<lambda>_ _. True) (Ptr (empty_table 3)) (Ptr [98, 0]) NULL (Ptr [0]) (Ptr True) True True =
      Some (ret, Ptr hash', freed) \<and> hash_inv hash' \<and> ret = 1 \<and>
      hash_map hash' = [(Some [98], None, Some []) \<mapsto> Ptr True]"
    using xmlHashUpdateInternal_correct [of "empty_table 3" "Ptr [98, 0]" NULL "Ptr [0]" "\<lambda>_ _. True" "Ptr True" True True]
    by (auto simp: keyval_def update_refused_def keys_refused_def key_refused_def)
  let ?h = "empty_table 3\<lparr>dict := Ptr sample_ops\<rparr> :: bool xmlHashTable"
  have h: "hash_inv ?h" "hash_map ?h = Map.empty" "dict_law (dict ?h)"
    by (simp_all add: empty_table_def hash_inv_def hash_map_def dict_law_def sample_ops_def)
  have "\<not> update_refused (\<lambda>_ _. True) ?h (Ptr [98, 0]) NULL NULL"
    by (simp add: update_refused_def keys_refused_def key_refused_def sample_ops_def)
  moreover have "tsize ?h = 0" by simp
  ultimately show "\<exists>ret hash' freed. xmlHashUpdateInternal (\<lambda>_ _. True) (Ptr ?h) (Ptr [98, 0]) NULL NULL (Ptr True) True True =
      Some (ret, Ptr hash', freed) \<and> ret = 1 \<and> hash_map hash' = [(Some [98], None, None) \<mapsto> Ptr True]"
    using xmlHashUpdateInternal_correct [OF h(1) _ _ _ _ h(3), of "Ptr [98, 0]" NULL NULL "\<lambda>_ _. True" "Ptr True" True True] h(2)
    by (auto simp: keyval_def)
qed

text \<open>A table with one entry.\<close>

lemma one_entry:
  obtains hash freed where "xmlHashUpdateInternal (\<lambda>_ _. True) (Ptr (empty_table 5)) (Ptr [112, 58, 113, 0]) NULL NULL (Ptr True) False False =
      Some (1, Ptr hash, freed)" "hash_inv hash" "hash_map hash = [keyval (Ptr [112, 58, 113, 0]) NULL NULL \<mapsto> Ptr True]"
proof -
  have k: "good (Ptr [112, 58, 113, 0])" "dict_law (dict (empty_table 5 :: bool xmlHashTable))" by simp_all
  obtain ret hash freed where u: "xmlHashUpdateInternal (\<lambda>_ _. True) (Ptr (empty_table 5)) (Ptr [112, 58, 113, 0]) NULL NULL (Ptr True) False False =
      Some (ret, Ptr hash, freed)" "hash_inv hash"
    "update_spec (empty_table 5) (keyval (Ptr [112, 58, 113, 0]) NULL NULL) (Ptr True) False False
       (\<not> update_refused (\<lambda>_ _. True) (empty_table 5 :: bool xmlHashTable) (Ptr [112, 58, 113, 0]) NULL NULL) ret hash (map fst freed)"
    using update_ok [where hash = "empty_table 5" and mem = "\<lambda>_ _. True" and pl = "Ptr True" and dealloc = False and update = False,
        OF empty_table_inv(1) k(1) good_simps(1) good_simps(1) _ k(2) refl] by auto
  have "\<not> update_refused (\<lambda>_ _. True) (empty_table 5 :: bool xmlHashTable) (Ptr [112, 58, 113, 0]) NULL NULL"
    by (simp add: update_refused_def keys_refused_def key_refused_def)
  then have "ret = 1" "hash_map hash = [keyval (Ptr [112, 58, 113, 0]) NULL NULL \<mapsto> Ptr True]"
    using u(3) by (auto simp: update_spec_def)
  then show ?thesis using that u(1,2) by blast
qed

text \<open>
  C21. \<open>xmlHashRemoveEntry3\<close> removes exactly the given key: it returns 0 and hands the payload
  to the deallocator once (when there is one and the payload is not NULL), or returns \<open>-1\<close> and
  leaves the table as it was when the key is absent.  The backward shift keeps the invariant.
\<close>

theorem xmlHashRemoveEntry3_correct:
  assumes "hash_inv hash" "good k" "good k2" "good k3" "k \<noteq> NULL"
  shows "\<exists>ret hash' freed. xmlHashRemoveEntry3 (Ptr hash) k k2 k3 dealloc = Some (ret, Ptr hash', freed) \<and>
    hash_inv hash' \<and> hash_map hash' = (hash_map hash)(keyval k k2 k3 := None) \<and>
    (case hash_map hash (keyval k k2 k3) of
       None \<Rightarrow> ret = - 1 \<and> hash' = hash \<and> freed = []
     | Some old \<Rightarrow> ret = 0 \<and> unat (nbElems hash) = unat (nbElems hash') + 1 \<and>
         map fst freed = (if dealloc \<and> old \<noteq> NULL then [old] else []))"
  using remove_ok [OF assms] by blast

theorem xmlHashRemoveEntry3_correct_witness:
  "\<exists>hash. (\<exists>freed. xmlHashUpdateInternal (\<lambda>_ _. True) (Ptr (empty_table 5)) (Ptr [112, 58, 113, 0]) NULL NULL (Ptr True) False False =
      Some (1, Ptr hash, freed)) \<and>
    (\<exists>hash' freed. xmlHashRemoveEntry3 (Ptr hash) (Ptr [112, 58, 113, 0]) NULL NULL True = Some (0, Ptr hash', freed) \<and>
       hash_map hash' = Map.empty \<and> map fst freed = [Ptr True]) \<and>
    xmlHashRemoveEntry3 (Ptr hash) (Ptr [112, 0]) NULL NULL True = Some (- 1, Ptr hash, [])"
proof -
  obtain hash freed where h: "xmlHashUpdateInternal (\<lambda>_ _. True) (Ptr (empty_table 5)) (Ptr [112, 58, 113, 0]) NULL NULL (Ptr True) False False =
      Some (1, Ptr hash, freed)" "hash_inv hash" "hash_map hash = [keyval (Ptr [112, 58, 113, 0]) NULL NULL \<mapsto> Ptr True]"
    by (rule one_entry)
  have "good (Ptr [112, 58, 113, 0])" "good (Ptr [112, 0])" by simp_all
  then show ?thesis
    using xmlHashRemoveEntry3_correct [OF h(2), of "Ptr [112, 58, 113, 0]" NULL NULL True] h(1,3)
      xmlHashRemoveEntry3_correct [OF h(2), of "Ptr [112, 0]" NULL NULL True]
    by (fastforce simp: keyval_def)
qed

text \<open>
  C22. \<open>xmlHashLookup3\<close> returns the payload of the key, NULL when there is none, and
  \<open>xmlHashQLookup3\<close>, which hashes and compares \<open>prefix:name\<close> without building the
  string, agrees with looking up the concatenated names, for names whose prefixes are absent or
  not the empty string: \<open>xmlStrQEqual\<close> matches an empty prefix with nothing.
\<close>

theorem xmlHashQLookup3_equiv:
  assumes "hash_inv hash" "good k" "good k2" "good k3" "k \<noteq> NULL"
    and "good_qname p1 n1" "good_qname p2 n2" "good_qname p3 n3" "n1 \<noteq> NULL"
    and "kval k = qval p1 n1" "kval k2 = qval p2 n2" "kval k3 = qval p3 n3"
  shows "xmlHashQLookup3 (Ptr hash) p1 n1 p2 n2 p3 n3 = xmlHashLookup3 (Ptr hash) k k2 k3 \<and>
    xmlHashLookup3 (Ptr hash) k k2 k3 = Some (case hash_map hash (keyval k k2 k3) of None \<Rightarrow> NULL | Some p \<Rightarrow> p)"
  using xmlHashLookup3_map [OF assms(1-5)] qlookup_ok [OF assms(1,6-9)] assms(10-12) by (simp add: keyval_def)

theorem xmlHashQLookup3_equiv_witness:
  "\<exists>hash. (\<exists>freed. xmlHashUpdateInternal (\<lambda>_ _. True) (Ptr (empty_table 5)) (Ptr [112, 58, 113, 0]) NULL NULL (Ptr True) False False =
      Some (1, Ptr hash, freed)) \<and>
    xmlHashQLookup3 (Ptr hash) (Ptr [112, 0]) (Ptr [113, 0]) NULL NULL NULL NULL = Some (Ptr True) \<and>
    xmlHashLookup3 (Ptr hash) (Ptr [112, 58, 113, 0]) NULL NULL = Some (Ptr True) \<and>
    xmlHashQLookup3 (Ptr hash) (Ptr [112, 0]) (Ptr [114, 0]) NULL NULL NULL NULL = Some NULL"
proof -
  obtain hash freed where u: "xmlHashUpdateInternal (\<lambda>_ _. True) (Ptr (empty_table 5)) (Ptr [112, 58, 113, 0]) NULL NULL (Ptr True) False False =
      Some (1, Ptr hash, freed)" "hash_inv hash" and m: "hash_map hash = [keyval (Ptr [112, 58, 113, 0]) NULL NULL \<mapsto> Ptr True]"
    by (rule one_entry)
  have q: "qval (Ptr [112, 0]) (Ptr [c, 0]) = Some [112, 58, c]" if "c \<noteq> 0" for c
    using that by (simp add: qval_def ch_def of_char_def)
  have 1: "xmlHashQLookup3 (Ptr hash) (Ptr [112, 0]) (Ptr [113, 0]) NULL NULL NULL NULL = Some (Ptr True)"
    "xmlHashLookup3 (Ptr hash) (Ptr [112, 58, 113, 0]) NULL NULL = Some (Ptr True)"
    using xmlHashQLookup3_equiv [OF u(2), of "Ptr [112, 58, 113, 0]" NULL NULL "Ptr [112, 0]" "Ptr [113, 0]" NULL NULL NULL NULL]
      q [of 113] m by (simp_all add: good_qname_def qval_def [of NULL])
  have 2: "xmlHashQLookup3 (Ptr hash) (Ptr [112, 0]) (Ptr [114, 0]) NULL NULL NULL NULL = Some NULL"
    using xmlHashQLookup3_equiv [OF u(2), of "Ptr [112, 58, 114, 0]" NULL NULL "Ptr [112, 0]" "Ptr [114, 0]" NULL NULL NULL NULL]
      q [of 114] m by (simp add: good_qname_def qval_def [of NULL] keyval_def)
  show ?thesis using u(1) 1 2 by blast
qed

text \<open>
  C23. \<open>xmlHashCreate\<close> returns: the doubling loop ends within the 32 rounds given to it, for
  every size.  The table is empty and satisfies the invariant, and a size above 8 is met.  NULL is
  returned only when an allocation fails.
\<close>

theorem xmlHashCreate_correct:
  "\<exists>hash :: 'p xmlHashTable ptr. xmlHashCreate mem seed sz = Some hash \<and>
    (case hash of NULL \<Rightarrow> \<not> (\<forall>i n. mem i n)
     | Ptr h \<Rightarrow> hash_inv h \<and> hash_map h = Map.empty \<and> dict h = NULL \<and> randomSeed h = seed \<and>
         (8 < sz \<and> sz \<le> INT_MAX \<longrightarrow> nat sz \<le> unat (tsize h)))"
  by (rule create_ok)

theorem xmlHashCreate_correct_witness:
  "\<exists>hash :: int xmlHashTable ptr. xmlHashCreate (\<lambda>_ _. True) 1 100 = Some hash \<and>
     (\<exists>h. hash = Ptr h \<and> hash_inv h \<and> 100 \<le> unat (tsize h))"
  using xmlHashCreate_correct [of "\<lambda>_ _. True" 1 100, where ?'p = int] by (auto split: ptr.splits) (metis ptr.exhaust)

text \<open>
  \<open>xmlHashCopySafe\<close> returns a table with exactly the keys of the original, each with
  the copy of its payload, and no deallocator call.  NULL is returned only when an allocation or
  the copy of a payload fails: the copy of a full table fits.
\<close>

theorem xmlHashCopySafe_correct:
  fixes hash :: "'p xmlHashTable" and copyFunc :: "'p ptr \<Rightarrow> xmlString \<Rightarrow> 'q ptr"
  assumes "hash_inv hash"
  shows "\<exists>res freed. xmlHashCopySafe mem seed (Ptr hash) (Ptr copyFunc) dealloc = Some (res, freed) \<and>
    (case res of NULL \<Rightarrow> \<not> ((\<forall>i j n. mem i j n) \<and> (\<forall>p k. copyFunc p k \<noteq> NULL))
     | Ptr ret \<Rightarrow> freed = [] \<and> hash_inv ret \<and> dom (hash_map ret) = dom (hash_map hash) \<and>
         (\<forall>e \<in># occ hashValue (table hash). hash_map ret (entry_key e) = Some (copyFunc (payload e) (key e))))"
  using assms by (rule copy_ok)

theorem xmlHashCopySafe_correct_witness:
  "\<exists>res freed. xmlHashCopySafe (\<lambda>_ _ _. True) 0 (Ptr (empty_table 5 :: int xmlHashTable)) (Ptr (\<lambda>p k. p)) True = Some (res, freed)"
  using xmlHashCopySafe_correct [of "empty_table 5 :: int xmlHashTable" "\<lambda>_ _ _. True" 0 "\<lambda>p k. p" True] by auto

end
