(* ===== verification/Dict.thy ===== *)
theory Dict
  imports HashMap
begin

text \<open>
  The string dictionaries of \<open>dict.c\<close>: a Robin Hood table of interned strings (theory
  \<open>RobinHood\<close>) whose characters live in a list of pools.

  Interning is about addresses, so they are explicit here.  A pool is the bytes written to it so
  far (\<open>free - array\<close> is their number; reading beyond them is an access to uninitialised
  memory) and its capacity.  \<open>dict->strings\<close> lists the pools, newest first; the address
  \<open>(k, i)\<close> is offset \<open>i\<close> of the \<open>k\<close>-th pool allocated.  A dictionary with its
  \<open>subdict\<close> links is the list of dictionaries, empty for NULL.  \<open>size_t\<close> values are
  natural numbers with the reduction modulo \<open>2 ^ 64\<close> written out where the code does not
  exclude it.
\<close>

section \<open>Data\<close>

type_synonym dict_addr = "nat \<times> nat"

record xmlDictStrings =
  pool_array :: bytes
  pool_size :: nat
  nbStrings :: nat

record xmlDictEntry =
  dhash :: uint
  dname :: "dict_addr ptr"

record xmlDict =
  ref_counter :: uint
  dtable :: "xmlDictEntry list"
  dsize :: nat
  dnbElems :: uint
  strings :: "xmlDictStrings list"
  seed :: uint
  limit :: nat

definition blank_dict_entry :: xmlDictEntry where
  "blank_dict_entry = \<lparr>dhash = 0, dname = NULL\<rparr>"

text \<open>The bytes a dictionary address points to.\<close>

definition dict_bytes :: "xmlDictStrings list \<Rightarrow> dict_addr ptr \<Rightarrow> bytes option" where
  "dict_bytes pools p =
     (case p of
        NULL \<Rightarrow> None
      | Ptr (k, i) \<Rightarrow> if k < length pools then Some (drop i (pool_array (rev pools ! k))) else None)"

section \<open>The string pools\<close>

abbreviation sizeof_xmlDictStrings :: nat where "sizeof_xmlDictStrings \<equiv> 48"
abbreviation size_mod :: nat where "size_mod \<equiv> 2 ^ 64"
abbreviation uint_mod :: nat where "uint_mod \<equiv> 2 ^ 32"

text \<open>
  \<open>while (pool != NULL) \<dots>\<close>: \<open>Inl i\<close> is \<open>goto found_pool\<close> with \<open>i\<close> pools skipped,
  \<open>Inr (size, limit)\<close> the fall-through.
\<close>

fun find_pool :: "xmlDictStrings list \<Rightarrow> nat \<Rightarrow> nat \<Rightarrow> nat \<Rightarrow> nat \<Rightarrow> nat + (nat \<times> nat)" where
  "find_pool [] namelen i sz lim = Inr (sz, lim)"
| "find_pool (pool # pools) namelen i sz lim =
     (if pool_size pool - length (pool_array pool) > namelen then Inl i
      else find_pool pools namelen (Suc i) (if pool_size pool > sz then pool_size pool else sz)
             ((lim + pool_size pool) mod size_mod))"

text \<open>Writing at \<open>pool->free\<close>; every write is checked against the end of the pool.\<close>

definition pool_append :: "xmlDictStrings \<Rightarrow> bytes \<Rightarrow> xmlDictStrings option" where
  "pool_append pool bs =
     (if length (pool_array pool) + length bs \<le> pool_size pool
      then Some (pool\<lparr>pool_array := pool_array pool @ bs\<rparr>) else None)"

text \<open>\<open>pools\<close> with the \<open>i\<close>-th one extended, and the address of the string.\<close>

definition found_pool ::
  "xmlDictStrings list \<Rightarrow> nat \<Rightarrow> bytes list \<Rightarrow> (dict_addr ptr \<times> xmlDictStrings list) option" where
  "found_pool pools i parts = do {
     pool \<leftarrow> rd pools i;
     pool' \<leftarrow> pool_append pool (concat parts);
     Some (Ptr (length pools - 1 - i, length (pool_array pool)),
           pools[i := pool'\<lparr>nbStrings := (nbStrings pool' + 1) mod size_mod\<rparr>]) }"

definition new_pool :: "nat \<Rightarrow> xmlDictStrings" where
  "new_pool sz = \<lparr>pool_array = [], pool_size = sz, nbStrings = 0\<rparr>"

text \<open>The size of a new pool for \<open>xmlDictAddString\<close>; None is \<open>return(NULL)\<close>.\<close>

definition add_size :: "nat \<Rightarrow> nat \<Rightarrow> nat option" where
  "add_size sz namelen =
     (let sz = (if sz = 0 then 1000
                else if sz < (size_mod - 1 - sizeof_xmlDictStrings) div 4 then sz * 4
                else size_mod - 1 - sizeof_xmlDictStrings)
      in if sz div 4 < namelen then
           (if namelen < (size_mod - 1 - sizeof_xmlDictStrings) div 4 then Some (4 * namelen) else None)
         else Some sz)"

definition xmlDictAddString ::
  "allocator \<Rightarrow> xmlDict \<Rightarrow> bytes \<Rightarrow> nat \<Rightarrow> (dict_addr ptr \<times> xmlDict) option" where
  "xmlDictAddString mem d name namelen =
     (let add = (\<lambda>pools i. do {
            bs \<leftarrow> copy_in namelen name;
            (p, pools') \<leftarrow> found_pool pools i [bs, [0]];
            Some (p, d\<lparr>strings := pools'\<rparr>) })
      in case find_pool (strings d) namelen 0 0 0 of
           Inl i \<Rightarrow> add (strings d) i
         | Inr (sz, lim) \<Rightarrow>
             if limit d > 0 \<and> lim > limit d then Some (NULL, d)
             else (case add_size sz namelen of
                     None \<Rightarrow> Some (NULL, d)
                   | Some sz' \<Rightarrow>
                       if \<not> mem ((sizeof_xmlDictStrings + sz') mod size_mod) then Some (NULL, d)
                       else add (new_pool sz' # strings d) 0))"

definition add_qsize :: "nat \<Rightarrow> nat \<Rightarrow> nat" where
  "add_qsize sz tot =
     (let sz = (if sz = 0 then 1000 else (sz * 4) mod size_mod)
      in if sz < (4 * tot) mod uint_mod then (4 * tot) mod uint_mod else sz)"

definition xmlDictAddQString ::
  "allocator \<Rightarrow> xmlDict \<Rightarrow> bytes \<Rightarrow> nat \<Rightarrow> bytes \<Rightarrow> nat \<Rightarrow> (dict_addr ptr \<times> xmlDict) option" where
  "xmlDictAddQString mem d prefix' plen name namelen =
     (let tot = (namelen + plen + 1) mod uint_mod;
          add = (\<lambda>pools i. do {
            ps \<leftarrow> copy_in plen prefix';
            bs \<leftarrow> copy_in namelen name;
            (p, pools') \<leftarrow> found_pool pools i [ps, [ch (CHR '':'')], bs, [0]];
            Some (p, d\<lparr>strings := pools'\<rparr>) })
      in case find_pool (strings d) tot 0 0 0 of
           Inl i \<Rightarrow> add (strings d) i
         | Inr (sz, lim) \<Rightarrow>
             if limit d > 0 \<and> lim > limit d then Some (NULL, d)
             else let sz' = add_qsize sz tot
                  in if \<not> mem ((sizeof_xmlDictStrings + sz') mod size_mod) then Some (NULL, d)
                     else add (new_pool sz' # strings d) 0)"

section \<open>Creation, ownership, sizes\<close>

abbreviation sizeof_xmlDict :: nat where "sizeof_xmlDict \<equiv> 64"

text \<open>\<open>defaultLimit\<close> and \<open>rnd\<close> are the results of \<open>xmlDictGetDefaultLimit\<close> and \<open>xmlRandom\<close>.\<close>

definition xmlDictCreate :: "allocator \<Rightarrow> nat \<Rightarrow> uint \<Rightarrow> xmlDict list" where
  "xmlDictCreate mem defaultLimit rnd =
     (if \<not> mem sizeof_xmlDict then []
      else [\<lparr>ref_counter = 1, dtable = [], dsize = 0, dnbElems = 0, strings = [], seed = rnd,
             limit = defaultLimit\<rparr>])"

text \<open>The counter is a C \<open>int\<close>, kept as its 32 bits and read with \<open>sint\<close>.\<close>

definition xmlDictReference :: "xmlDict list \<Rightarrow> int \<times> xmlDict list" where
  "xmlDictReference ds =
     (case ds of
        [] \<Rightarrow> (- 1, [])
      | d # sub \<Rightarrow> (0, d\<lparr>ref_counter := ref_counter d + 1\<rparr> # sub))"

definition xmlDictCreateSub :: "allocator \<Rightarrow> nat \<Rightarrow> uint \<Rightarrow> xmlDict list \<Rightarrow> xmlDict list" where
  "xmlDictCreateSub mem defaultLimit rnd sub =
     (case (xmlDictCreate mem defaultLimit rnd, sub) of
        ([d], s # _) \<Rightarrow> d\<lparr>seed := seed s\<rparr> # snd (xmlDictReference sub)
      | (ds, _) \<Rightarrow> ds)"

text \<open>\<open>xmlDictFree\<close>: the dictionaries of the chain that were freed, and what is left of it.\<close>

fun xmlDictFree :: "xmlDict list \<Rightarrow> nat \<times> xmlDict list" where
  "xmlDictFree [] = (0, [])"
| "xmlDictFree (d # sub) =
     (let d' = d\<lparr>ref_counter := ref_counter d - 1\<rparr>
      in if sint (ref_counter d') > 0 then (0, d' # sub)
         else let (n, rest) = xmlDictFree sub in (Suc n, rest))"

text \<open>
  An address of a chain names the dictionary by the number of its subdictionaries.
  Note the inclusive comparison with \<open>pool->free\<close>.
\<close>

type_synonym chain_addr = "nat \<times> dict_addr"

definition pool_owns :: "xmlDictStrings list \<Rightarrow> dict_addr \<Rightarrow> bool" where
  "pool_owns pools p = (fst p < length pools \<and> snd p \<le> length (pool_array (rev pools ! fst p)))"

fun xmlDictOwns :: "xmlDict list \<Rightarrow> chain_addr ptr \<Rightarrow> int" where
  "xmlDictOwns [] str = - 1"
| "xmlDictOwns (d # sub) str =
     (case str of
        NULL \<Rightarrow> - 1
      | Ptr (l, p) \<Rightarrow>
          if l = length sub \<and> pool_owns (strings d) p then 1
          else if sub \<noteq> [] then xmlDictOwns sub str
          else 0)"

definition xmlDictSize :: "xmlDict list \<Rightarrow> int" where
  "xmlDictSize ds =
     (case ds of
        [] \<Rightarrow> - 1
      | [d] \<Rightarrow> sint (dnbElems d)
      | d # s # _ \<Rightarrow> sint (dnbElems d + dnbElems s))"

definition xmlDictSetLimit :: "xmlDict list \<Rightarrow> nat \<Rightarrow> nat \<times> xmlDict list" where
  "xmlDictSetLimit ds lim =
     (case ds of [] \<Rightarrow> (0, []) | d # sub \<Rightarrow> (limit d, d\<lparr>limit := lim\<rparr> # sub))"

definition xmlDictGetUsage :: "xmlDict list \<Rightarrow> nat" where
  "xmlDictGetUsage ds =
     (case ds of [] \<Rightarrow> 0 | d # sub \<Rightarrow> fold (\<lambda>pool lim. (lim + pool_size pool) mod size_mod) (strings d) 0)"

section \<open>Hash values\<close>

text \<open>\<open>for (i = 0; i < maxLen && data[i]; i++) HASH_UPDATE(h1, h2, data[i]);\<close>\<close>

fun dict_hash_loop :: "uint \<times> uint \<Rightarrow> bytes \<Rightarrow> nat \<Rightarrow> nat \<Rightarrow> ((uint \<times> uint) \<times> nat) option" where
  "dict_hash_loop h [] maxLen i = (if i < maxLen then None else Some (h, i))"
| "dict_hash_loop h (c # s) maxLen i =
     (if i < maxLen \<and> c \<noteq> 0 then dict_hash_loop (HASH_UPDATE h (ucast c)) s maxLen (Suc i) else Some (h, i))"

definition xmlDictHashName :: "uint \<Rightarrow> bytes \<Rightarrow> nat \<Rightarrow> (uint \<times> nat) option" where
  "xmlDictHashName sd data maxLen = do {
     (h, i) \<leftarrow> dict_hash_loop (HASH_INIT sd) data maxLen 0;
     Some (HASH_FINISH h OR MAX_HASH_SIZE, i) }"

definition xmlDictHashQName :: "uint \<Rightarrow> bytes \<Rightarrow> bytes \<Rightarrow> (uint \<times> nat \<times> nat) option" where
  "xmlDictHashQName sd prefix' name = do {
     (h, plen) \<leftarrow> hash_string (HASH_INIT sd) prefix' 0;
     (h, len) \<leftarrow> hash_string (HASH_UPDATE h (ucast (ch (CHR '':'')))) name 0;
     Some (HASH_FINISH h OR MAX_HASH_SIZE, plen, len) }"

definition xmlDictComputeHash :: "xmlDict \<Rightarrow> bytes \<Rightarrow> uint option" where
  "xmlDictComputeHash d str = map_option fst (xmlDictHashName (seed d) str (size_mod - 1))"

definition HASH_ROL31 :: "uint \<Rightarrow> nat \<Rightarrow> uint" where
  "HASH_ROL31 x n = push_bit n x OR drop_bit (31 - n) (x AND 0x7FFFFFFF)"

definition xmlDictCombineHash :: "uint \<Rightarrow> uint \<Rightarrow> uint" where
  "xmlDictCombineHash v1 v2 =
     (let v1 = v1 XOR v2;
          v1 = v1 + HASH_ROL31 v2 5
      in (v1 AND 0xFFFFFFFF) OR 0x80000000)"

section \<open>Searching and growing\<close>

text \<open>\<open>strncmp\<close> of the C library, as far as its sign: the comparison ends at a difference, at a
  common terminator or after \<open>n\<close> bytes.\<close>

fun strncmp_eq :: "bytes \<Rightarrow> bytes \<Rightarrow> nat \<Rightarrow> bool option" where
  "strncmp_eq s1 s2 0 = Some True"
| "strncmp_eq (a # s1) (b # s2) (Suc n) =
     (if a \<noteq> b then Some False else if a = 0 then Some True else strncmp_eq s1 s2 n)"
| "strncmp_eq _ _ (Suc n) = None"

definition dict_entry_matches ::
  "xmlDictStrings list \<Rightarrow> xmlString \<Rightarrow> bytes \<Rightarrow> nat \<Rightarrow> uint \<Rightarrow> xmlDictEntry \<Rightarrow> bool option" where
  "dict_entry_matches pools prefix' name len hashValue' e =
     (if dhash e = hashValue' then do {
        s \<leftarrow> dict_bytes pools (dname e);
        case prefix' of
          NULL \<Rightarrow> do {
            eq \<leftarrow> strncmp_eq s name len;
            if \<not> eq then Some False else do { c \<leftarrow> rd s len; Some (c = 0) } }
        | Ptr p \<Rightarrow> xmlStrQEqual False (Ptr p) (Ptr name) (Ptr s) }
      else Some False)"

definition xmlDictFindEntry ::
  "xmlDict \<Rightarrow> xmlString \<Rightarrow> bytes \<Rightarrow> nat \<Rightarrow> uint \<Rightarrow> (nat \<times> bool) option" where
  "xmlDictFindEntry d prefix' name len hashValue' =
     rh_lookup dhash (dict_entry_matches (strings d) prefix' name len hashValue')
       (dtable d) (word_of_nat (dsize d)) hashValue'"

abbreviation sizeof_xmlDictEntry :: nat where "sizeof_xmlDictEntry \<equiv> 16"

definition xmlDictGrow :: "allocator \<Rightarrow> xmlDict \<Rightarrow> uint \<Rightarrow> (int \<times> xmlDict) option" where
  "xmlDictGrow mem d newSize =
     (if unat newSize > SIZE_MAX_nat div sizeof_xmlDictEntry then Some (- 1, d)
      else if \<not> mem (unat newSize * sizeof_xmlDictEntry) then Some (- 1, d)
      else do {
        tab \<leftarrow> rh_grow dhash blank_dict_entry (dtable d) (dsize d) newSize;
        Some (0, d\<lparr>dtable := tab, dsize := unat newSize\<rparr>) })"

section \<open>Lookup\<close>

text \<open>Hashing the name and its length: \<open>(hashValue, plen, len, klen)\<close>; \<open>Some None\<close> is too long.\<close>

definition dict_key ::
  "uint \<Rightarrow> xmlString \<Rightarrow> bytes \<Rightarrow> nat \<Rightarrow> (uint \<times> nat \<times> nat \<times> nat) option option" where
  "dict_key sd prefix' name maxLen =
     (case prefix' of
        NULL \<Rightarrow> do {
          (hv, len) \<leftarrow> xmlDictHashName sd name maxLen;
          Some (if len > INT_MAX_nat div 2 then None else Some (hv, 0, len, len)) }
      | Ptr p \<Rightarrow> do {
          (hv, plen, len) \<leftarrow> xmlDictHashQName sd p name;
          Some (if len > INT_MAX_nat div 2 \<or> plen \<ge> INT_MAX_nat div 2 - len then None
                else Some (hv, plen, len, plen + 1 + len)) })"

text \<open>The search in \<open>dict->subdict\<close>: \<open>Some (Some e)\<close> when the entry is found there.\<close>

definition dict_sub_find ::
  "xmlDict list \<Rightarrow> xmlString \<Rightarrow> bytes \<Rightarrow> nat \<Rightarrow> nat \<Rightarrow> xmlDictEntry option option" where
  "dict_sub_find sub prefix' name len klen' =
     (case sub of
        [] \<Rightarrow> Some None
      | s # _ \<Rightarrow>
          if dsize s = 0 then Some None
          else do {
            hv \<leftarrow> (case prefix' of
                    NULL \<Rightarrow> map_option fst (xmlDictHashName (seed s) name len)
                  | Ptr p \<Rightarrow> map_option fst (xmlDictHashQName (seed s) p name));
            (i, found) \<leftarrow> xmlDictFindEntry s prefix' name klen' hv;
            if found then do { e \<leftarrow> rd (dtable s) i; Some (Some e) } else Some None })"

text \<open>The tail of \<open>xmlDictLookupInternal\<close>: store the string, make room, populate the entry.\<close>

definition dict_insert_at ::
  "allocator \<Rightarrow> xmlDict \<Rightarrow> xmlString \<Rightarrow> nat \<Rightarrow> bytes \<Rightarrow> nat \<Rightarrow> uint \<Rightarrow> nat \<Rightarrow>
   (xmlDictEntry ptr \<times> xmlDict) option" where
  "dict_insert_at mem d prefix' plen name len hashValue' entry = do {
     (ret, d') \<leftarrow> (case prefix' of
                     NULL \<Rightarrow> xmlDictAddString mem d name len
                   | Ptr p \<Rightarrow> xmlDictAddQString mem d p plen name len);
     if ret = NULL then Some (NULL, d')
     else do {
       t1 \<leftarrow> rh_shift_right dhash (dtable d') (dsize d') entry;
       let e = \<lparr>dhash = hashValue', dname = ret\<rparr>;
       t2 \<leftarrow> wr t1 entry e;
       Some (Ptr e, d'\<lparr>dtable := t2, dnbElems := dnbElems d' + 1\<rparr>) } }"

definition dict_add ::
  "(nat \<Rightarrow> allocator) \<Rightarrow> xmlDict \<Rightarrow> xmlString \<Rightarrow> nat \<Rightarrow> bytes \<Rightarrow> nat \<Rightarrow> uint \<Rightarrow> nat \<Rightarrow> nat \<Rightarrow>
   (xmlDictEntry ptr \<times> xmlDict) option" where
  "dict_add mem d prefix' plen name len hashValue' newSize entry =
     (if newSize > 0 then do {
        (r, d') \<leftarrow> xmlDictGrow (mem 0) d (word_of_nat newSize);
        if r \<noteq> 0 then Some (NULL, d')
        else do {
          (entry', _) \<leftarrow> rh_lookup dhash (\<lambda>_. Some False) (dtable d') (word_of_nat (dsize d')) hashValue';
          dict_insert_at (mem 1) d' prefix' plen name len hashValue' entry' } }
      else dict_insert_at (mem 1) d prefix' plen name len hashValue' entry)"

text \<open>
  The entry returned comes with the dictionary that holds its string, so that its address in the
  chain is known.  First the part of \<open>xmlDictLookupInternal\<close> after a search in the
  dictionary itself that found nothing.
\<close>

definition dict_miss ::
  "(nat \<Rightarrow> allocator) \<Rightarrow> xmlDict \<Rightarrow> xmlDict list \<Rightarrow> xmlString \<Rightarrow> nat \<Rightarrow> bytes \<Rightarrow> nat \<Rightarrow> nat \<Rightarrow> uint \<Rightarrow> bool \<Rightarrow> nat \<Rightarrow>
   ((nat \<times> xmlDictEntry) ptr \<times> xmlDict list) option" where
  "dict_miss mem d sub prefix' plen name len klen' hv update entry =
     (let full = (unat (dnbElems d + 1) > dsize d div 8 * 7);
          newSize = (if dsize d = 0 then unat MIN_HASH_SIZE else if full then dsize d * 2 else 0)
      in if dsize d \<noteq> 0 \<and> full \<and> dsize d \<ge> unat MAX_HASH_SIZE then Some (NULL, d # sub)
         else do {
           subEntry \<leftarrow> dict_sub_find sub prefix' name len klen';
           case subEntry of
             Some e \<Rightarrow> Some (Ptr (length sub - 1, e), d # sub)
           | None \<Rightarrow>
               if \<not> update then Some (NULL, d # sub)
               else do {
                 (e, d') \<leftarrow> dict_add mem d prefix' plen name len hv newSize entry;
                 Some (case e of NULL \<Rightarrow> NULL | Ptr e \<Rightarrow> Ptr (length sub, e), d' # sub) } })"

definition xmlDictLookupInternal ::
  "(nat \<Rightarrow> allocator) \<Rightarrow> xmlDict list \<Rightarrow> xmlString \<Rightarrow> xmlString \<Rightarrow> int \<Rightarrow> bool \<Rightarrow>
   ((nat \<times> xmlDictEntry) ptr \<times> xmlDict list) option" where
  "xmlDictLookupInternal mem ds prefix' namep maybeLen update =
     (case (ds, namep) of
        (d # sub, Ptr name) \<Rightarrow> do {
          key \<leftarrow> dict_key (seed d) prefix' name (if maybeLen < 0 then size_mod - 1 else nat maybeLen);
          case key of
            None \<Rightarrow> Some (NULL, ds)
          | Some (hv, plen, len, klen') \<Rightarrow>
              if limit d > 0 \<and> klen' \<ge> limit d then Some (NULL, ds)
              else if dsize d = 0 then dict_miss mem d sub prefix' plen name len klen' hv update 0
              else do {
                (entry, found) \<leftarrow> xmlDictFindEntry d prefix' name klen' hv;
                if found then do {
                  e \<leftarrow> rd (dtable d) entry;
                  Some (Ptr (length sub, e), ds) }
                else dict_miss mem d sub prefix' plen name len klen' hv update entry } }
      | _ \<Rightarrow> Some (NULL, ds))"

definition entry_addr :: "(nat \<times> xmlDictEntry) ptr \<Rightarrow> chain_addr ptr" where
  "entry_addr e =
     (case e of NULL \<Rightarrow> NULL | Ptr (l, e) \<Rightarrow> (case dname e of NULL \<Rightarrow> NULL | Ptr p \<Rightarrow> Ptr (l, p)))"

definition xmlDictLookup where
  "xmlDictLookup mem ds name len = do {
     (e, ds') \<leftarrow> xmlDictLookupInternal mem ds NULL name len True;
     Some (entry_addr e, ds') }"

definition xmlDictLookupHashed where
  "xmlDictLookupHashed mem ds name len = do {
     (e, ds') \<leftarrow> xmlDictLookupInternal mem ds NULL name len True;
     Some ((entry_addr e, case e of NULL \<Rightarrow> 0 | Ptr (_, e) \<Rightarrow> dhash e), ds') }"

definition xmlDictExists where
  "xmlDictExists mem ds name len = do {
     (e, ds') \<leftarrow> xmlDictLookupInternal mem ds NULL name len False;
     Some (entry_addr e) }"

definition xmlDictQLookup where
  "xmlDictQLookup mem ds prefix' name = do {
     (e, ds') \<leftarrow> xmlDictLookupInternal mem ds prefix' name (- 1) True;
     Some (entry_addr e, ds') }"

section \<open>The pseudo-random generator\<close>

definition xoroshiro64ss :: "uint \<times> uint \<Rightarrow> uint \<times> (uint \<times> uint)" where
  "xoroshiro64ss s =
     (let (s0, s1) = s;
          result = HASH_ROL (s0 * 0x9E3779BB) 5 * 5;
          s1 = s1 XOR s0
      in (result AND 0xFFFFFFFF, (HASH_ROL s0 26 XOR s1 XOR push_bit 9 s1, HASH_ROL s1 13)))"

end
