(* ===== verification/Interning.thy ===== *)
theory Interning
  imports Dict
begin

text \<open>
  Correctness of the dictionaries of theory \<open>Dict\<close>: the pools keep what was written to them,
  the invariant of a dictionary, the map from strings to addresses that it stands for, and that
  interned strings can be compared by address.
\<close>

section \<open>The pools\<close>

definition pools_ok :: "xmlDictStrings list \<Rightarrow> bool" where
  "pools_ok pools \<longleftrightarrow> (\<forall>pool \<in> set pools. length (pool_array pool) \<le> pool_size pool \<and> pool_size pool < 2 ^ 57)"

text \<open>No allocation exceeds the address space (57 bits with five-level paging).\<close>

definition address_space :: "allocator \<Rightarrow> bool" where
  "address_space mem \<longleftrightarrow> (\<forall>n. mem n \<longrightarrow> n < 2 ^ 57)"

text \<open>What was written stays where it is: addresses stay valid and keep their strings.\<close>

definition pools_extend :: "xmlDictStrings list \<Rightarrow> xmlDictStrings list \<Rightarrow> bool" where
  "pools_extend pools pools' \<longleftrightarrow> (\<forall>p s. dict_bytes pools p = Some s \<longrightarrow> (\<exists>r. dict_bytes pools' p = Some (s @ r)))"

lemma pools_extend_refl [simp]: "pools_extend pools pools"
  by (auto simp: pools_extend_def intro: exI [of _ "[]"])

lemma pools_extend_trans: "pools_extend a b \<Longrightarrow> pools_extend b c \<Longrightarrow> pools_extend a c"
  unfolding pools_extend_def by (metis append_assoc)

lemma cstring_append [simp]: "cstring s \<Longrightarrow> cstring (s @ r)"
  by (simp add: cstring_def)

lemma strval_append_cstring [simp]: "cstring s \<Longrightarrow> strval (s @ r) = strval s"
  by (induction s) auto

lemma pools_extend_new: "pools_extend pools (new_pool sz # pools)"
  by (auto simp: pools_extend_def dict_bytes_def nth_append split: ptr.splits intro: exI [of _ "[]"])

lemma rev_update_other:
  assumes "i < length xs"
  shows "rev (xs[i := x]) = (rev xs)[length xs - 1 - i := x]"
  using assms by (simp add: rev_update)

lemma found_pool_ok:
  assumes ok: "pools_ok pools" and i: "i < length pools" "pool_size (pools ! i) - length (pool_array (pools ! i)) > n"
    and len: "length (concat parts) = Suc n"
  shows "\<exists>p pools'. found_pool pools i parts = Some (Ptr p, pools') \<and> pools_ok pools' \<and> pools_extend pools pools' \<and>
    dict_bytes pools' (Ptr p) = Some (concat parts)"
proof -
  let ?pool = "pools ! i" and ?k = "length pools - 1 - i"
  define pool' where "pool' = ?pool\<lparr>pool_array := pool_array ?pool @ concat parts,
    nbStrings := (nbStrings ?pool + 1) mod size_mod\<rparr>"
  have room: "length (pool_array ?pool) + length (concat parts) \<le> pool_size ?pool" using i(2) len by simp
  have f: "found_pool pools i parts = Some (Ptr (?k, length (pool_array ?pool)), pools[i := pool'])"
    using i(1) room by (simp add: found_pool_def rd_def pool_append_def pool'_def)
  have "pools_ok (pools[i := pool'])"
    using ok i(1) room set_update_subset_insert [of pools i pool'] by (auto simp: pools_ok_def pool'_def)
  moreover have rv: "rev (pools[i := pool']) = (rev pools)[?k := pool']" using i(1) by (simp add: rev_update)
  have rk: "rev pools ! ?k = ?pool" using i(1) by (simp add: rev_nth)
  have "pools_extend pools (pools[i := pool'])"
    unfolding pools_extend_def
  proof (intro allI impI)
    fix p s assume "dict_bytes pools p = Some s"
    then obtain k l where p: "p = Ptr (k, l)" "k < length pools" "s = drop l (pool_array (rev pools ! k))"
      by (auto simp: dict_bytes_def split: ptr.splits if_splits)
    show "\<exists>r. dict_bytes (pools[i := pool']) p = Some (s @ r)"
    proof (cases "k = ?k")
      case True
      then show ?thesis using p rv rk i(1) by (auto simp: dict_bytes_def pool'_def)
    next
      case False
      then show ?thesis using p rv by (auto simp: dict_bytes_def intro: exI [of _ "[]"])
    qed
  qed
  moreover have "dict_bytes (pools[i := pool']) (Ptr (?k, length (pool_array ?pool))) = Some (concat parts)"
    using i(1) rv by (simp add: dict_bytes_def pool'_def)
  ultimately show ?thesis using f by blast
qed

lemma find_pool_spec:
  assumes "pools_ok pools" "sz < 2 ^ 57"
  shows "case find_pool pools n i0 sz lim of
      Inl i \<Rightarrow> i0 \<le> i \<and> i - i0 < length pools \<and>
        pool_size (pools ! (i - i0)) - length (pool_array (pools ! (i - i0))) > n
    | Inr (sz', lim') \<Rightarrow> sz' < 2 ^ 57 \<and> sz' = fold (\<lambda>pool. max (pool_size pool)) pools sz \<and>
        lim' = fold (\<lambda>pool lim. (lim + pool_size pool) mod size_mod) pools lim \<and>
        (\<forall>pool \<in> set pools. pool_size pool - length (pool_array pool) \<le> n)"
  using assms
proof (induction pools arbitrary: i0 sz lim)
  case (Cons pool pools)
  show ?case
  proof (cases "pool_size pool - length (pool_array pool) > n")
    case False
    define sz1 where "sz1 = (if pool_size pool > sz then pool_size pool else sz)"
    have "pools_ok pools" "sz1 < 2 ^ 57" using Cons.prems by (auto simp: pools_ok_def sz1_def)
    note IH = Cons.IH [OF this, of "Suc i0" "(lim + pool_size pool) mod size_mod"]
    have e: "find_pool (pool # pools) n i0 sz lim = find_pool pools n (Suc i0) sz1 ((lim + pool_size pool) mod size_mod)"
      using False by (simp add: sz1_def)
    have "i - i0 = Suc (i - Suc i0)" if "Suc i0 \<le> i" for i using that by simp
    moreover have "sz1 = max (pool_size pool) sz" by (simp add: sz1_def)
    ultimately show ?thesis unfolding e using IH False by (auto split: sum.splits)
  qed simp
qed simp

text \<open>
  A new pool is needed when no pool has room for the string; it is four times as large as the largest
  one, or as the string.  It is not made above the limit of the dictionary or without memory.
\<close>

definition pool_request :: "xmlDict \<Rightarrow> bytes \<Rightarrow> nat" where
  "pool_request d v =
     (let m = fold (\<lambda>pool. max (pool_size pool)) (strings d) 0
      in max (if m = 0 then 1000 else 4 * m) (4 * length v))"

definition no_pool :: "allocator \<Rightarrow> xmlDict \<Rightarrow> bytes \<Rightarrow> bool" where
  "no_pool mem d v \<longleftrightarrow>
     (\<forall>pool \<in> set (strings d). pool_size pool - length (pool_array pool) \<le> length v) \<and>
     (limit d > 0 \<and> xmlDictGetUsage [d] > limit d \<or> \<not> mem (sizeof_xmlDictStrings + pool_request d v))"

lemma add_size_request:
  assumes "n \<le> INT_MAX_nat div 2" "sz < 2 ^ 57"
  shows "add_size sz n = Some (max (if sz = 0 then 1000 else 4 * sz) (4 * n))"
  using assms by (auto simp: add_size_def Let_def max_def)

lemma add_qsize_request:
  assumes "n \<le> INT_MAX_nat div 2" "sz < 2 ^ 57"
  shows "add_qsize sz n = max (if sz = 0 then 1000 else 4 * sz) (4 * n)"
  using assms by (auto simp: add_qsize_def Let_def max_def)

lemma add_size_ok: "add_size sz n = Some sz' \<Longrightarrow> n < sz' \<and> sz' < 2 ^ 64 - 48"
  unfolding add_size_def Let_def by (auto split: if_splits)

lemma add_qsize_ok: "sz < 2 ^ 57 \<Longrightarrow> 0 < n \<Longrightarrow> n \<le> INT_MAX_nat div 2 \<Longrightarrow> n < add_qsize sz n \<and> add_qsize sz n < 2 ^ 64 - 48"
  unfolding add_qsize_def Let_def by auto

text \<open>
  The outcome of storing the string \<open>v\<close>: NULL with the dictionary as it was, when there is no pool
  for it, or its address.
\<close>

definition stored_in :: "allocator \<Rightarrow> xmlDict \<Rightarrow> bytes \<Rightarrow> dict_addr ptr \<times> xmlDict \<Rightarrow> bool" where
  "stored_in mem d v res \<longleftrightarrow>
     (case res of
        (NULL, d') \<Rightarrow> d' = d \<and> no_pool mem d v
      | (Ptr p, d') \<Rightarrow> \<exists>pools'. d' = d\<lparr>strings := pools'\<rparr> \<and> pools_ok pools' \<and> pools_extend (strings d) pools' \<and>
          dict_bytes pools' (Ptr p) = Some (v @ [0]))"

lemma stored_found:
  assumes "pools_ok pools" "pools_extend (strings d) pools" "i < length pools"
    "pool_size (pools ! i) - length (pool_array (pools ! i)) > length v" "concat parts = v @ [0]"
  shows "\<exists>p pools'. found_pool pools i parts = Some (Ptr p, pools') \<and> stored_in mem d v (Ptr p, d\<lparr>strings := pools'\<rparr>)"
proof -
  have "length (concat parts) = Suc (length v)" using assms(5) by simp
  from found_pool_ok [OF assms(1,3,4) this] obtain p pools' where
    "found_pool pools i parts = Some (Ptr p, pools')" "pools_ok pools'" "pools_extend pools pools'"
    "dict_bytes pools' (Ptr p) = Some (concat parts)" by blast
  then show ?thesis using pools_extend_trans [OF assms(2)] assms(5) by (auto simp: stored_in_def)
qed

lemma new_pool_ok:
  assumes "pools_ok pools" "address_space mem" "mem ((sizeof_xmlDictStrings + sz) mod size_mod)" "sz < 2 ^ 64 - 48"
  shows "pools_ok (new_pool sz # pools)"
proof -
  have "(48 + sz) mod size_mod = 48 + sz" using assms(4) by simp
  then show ?thesis using assms(1-3) by (fastforce simp: pools_ok_def address_space_def new_pool_def)
qed

lemma xmlDictAddString_ok:
  assumes ok: "pools_ok (strings d)" and mem: "address_space mem" and n: "n \<le> length name" "n \<le> INT_MAX_nat div 2"
  shows "\<exists>res. xmlDictAddString mem d name n = Some res \<and> stored_in mem d (take n name) res"
proof -
  have ci: "copy_in n name = Some (take n name)" and l: "length (take n name) = n" using n by (simp_all add: copy_in_def)
  have cc: "concat [take n name, [0]] = take n name @ [0]" by simp
  show ?thesis
  proof (cases "find_pool (strings d) n 0 0 0")
    case (Inl i)
    then have "i < length (strings d)" "pool_size (strings d ! i) - length (pool_array (strings d ! i)) > length (take n name)"
      using find_pool_spec [OF ok, where sz = 0 and n = n and ?i0.0 = 0 and lim = 0] l by simp_all
    from stored_found [where mem = mem, OF ok pools_extend_refl this cc] show ?thesis
      using Inl ci by (auto simp: xmlDictAddString_def)
  next
    case (Inr r)
    obtain sz lim where r: "r = (sz, lim)" by (cases r)
    note full = find_pool_spec [OF ok, where sz = 0 and n = n and ?i0.0 = 0 and lim = 0, unfolded Inr r, simplified]
    have req: "add_size sz n = Some (pool_request d (take n name))" "pool_request d (take n name) < 2 ^ 59 + 2 ^ 32"
      using add_size_request [OF n(2), of sz] full l n(2) by (auto simp: pool_request_def Let_def)
    show ?thesis
    proof (cases "limit d > 0 \<and> lim > limit d \<or> add_size sz n = None")
      case True
      then show ?thesis using Inr r full l req by (auto simp: xmlDictAddString_def stored_in_def no_pool_def xmlDictGetUsage_def)
    next
      case False
      then obtain sz' where sz': "add_size sz n = Some sz'" by auto
      show ?thesis
      proof (cases "mem ((sizeof_xmlDictStrings + sz') mod size_mod)")
        case m: True
        have pok: "pools_ok (new_pool sz' # strings d)"
          using new_pool_ok [OF ok mem m] add_size_ok [OF sz'] by simp
        have "pool_size ((new_pool sz' # strings d) ! 0) - length (pool_array ((new_pool sz' # strings d) ! 0)) > length (take n name)"
          using add_size_ok [OF sz'] l by (simp add: new_pool_def)
        from stored_found [where mem = mem, OF pok pools_extend_new _ this cc] show ?thesis
          using Inr r sz' m ci False by (auto simp: xmlDictAddString_def)
      qed (use False Inr r sz' full l req in \<open>auto simp: xmlDictAddString_def stored_in_def no_pool_def\<close>)
    qed
  qed
qed

lemma xmlDictAddQString_ok:
  assumes ok: "pools_ok (strings d)" and mem: "address_space mem" and n: "plen \<le> length p" "n \<le> length name"
    and sm: "plen + 1 + n \<le> INT_MAX_nat div 2"
  shows "\<exists>res. xmlDictAddQString mem d p plen name n = Some res \<and>
    stored_in mem d (take plen p @ ch (CHR '':'') # take n name) res"
proof -
  let ?v = "take plen p @ ch (CHR '':'') # take n name" and ?n = "n + plen + 1"
  have ci: "copy_in plen p = Some (take plen p)" "copy_in n name = Some (take n name)" and l: "length ?v = ?n"
    using n by (simp_all add: copy_in_def)
  have tn: "?n mod uint_mod = ?n" using sm by simp
  have cc: "concat [take plen p, [ch (CHR '':'')], take n name, [0]] = ?v @ [0]" by simp
  show ?thesis
  proof (cases "find_pool (strings d) ?n 0 0 0")
    case (Inl i)
    then have "i < length (strings d)" "pool_size (strings d ! i) - length (pool_array (strings d ! i)) > length ?v"
      using find_pool_spec [OF ok, where sz = 0 and n = ?n and ?i0.0 = 0 and lim = 0] unfolding l by simp_all
    from stored_found [where mem = mem, OF ok pools_extend_refl this cc] show ?thesis
      using Inl ci tn by (auto simp: xmlDictAddQString_def Let_def)
  next
    case (Inr r)
    obtain sz lim where r: "r = (sz, lim)" by (cases r)
    note full = find_pool_spec [OF ok, where sz = 0 and n = ?n and ?i0.0 = 0 and lim = 0, unfolded Inr r, simplified]
    then have sz: "sz < 2 ^ 57" by simp
    define sz' where "sz' = add_qsize sz ?n"
    have req: "sz' = pool_request d ?v" "pool_request d ?v < 2 ^ 59 + 2 ^ 32"
      using add_qsize_request [of ?n sz] full l sm by (auto simp: pool_request_def Let_def sz'_def)
    have sz': "?n < sz'" "sz' < 2 ^ 64 - 48" using add_qsize_ok [OF sz, of ?n] sm by (simp_all add: sz'_def)
    show ?thesis
    proof (cases "limit d > 0 \<and> lim > limit d \<or> \<not> mem ((sizeof_xmlDictStrings + sz') mod size_mod)")
      case True
      then have "no_pool mem d ?v"
        using full l req by (auto simp: no_pool_def xmlDictGetUsage_def)
      then show ?thesis using True Inr r tn by (auto simp: xmlDictAddQString_def Let_def stored_in_def sz'_def)
    next
      case False
      have pok: "pools_ok (new_pool sz' # strings d)" using new_pool_ok [OF ok mem _ sz'(2)] False by simp
      have "pool_size ((new_pool sz' # strings d) ! 0) - length (pool_array ((new_pool sz' # strings d) ! 0)) > length ?v"
        using sz' unfolding l by (simp add: new_pool_def)
      from stored_found [where mem = mem, OF pok pools_extend_new _ this cc] show ?thesis
        using Inr r ci tn False by (auto simp: xmlDictAddQString_def Let_def sz'_def)
    qed
  qed
qed

section \<open>Names and hash values\<close>

text \<open>The name a call refers to, and what its arguments must point to.\<close>

definition dict_name :: "xmlString \<Rightarrow> bytes \<Rightarrow> int \<Rightarrow> bytes" where
  "dict_name prefix' name maybeLen =
     (case prefix' of
        NULL \<Rightarrow> strval (if maybeLen < 0 then name else take (nat maybeLen) name)
      | Ptr p \<Rightarrow> strval p @ ch (CHR '':'') # strval name)"

definition dict_name_ok :: "xmlString \<Rightarrow> bytes \<Rightarrow> int \<Rightarrow> bool" where
  "dict_name_ok prefix' name maybeLen \<longleftrightarrow>
     (case prefix' of
        NULL \<Rightarrow> cstring name \<or> 0 \<le> maybeLen \<and> nat maybeLen \<le> length name
      | Ptr p \<Rightarrow> cstring p \<and> strval p \<noteq> [] \<and> cstring name)"

definition dict_hash :: "uint \<Rightarrow> bytes \<Rightarrow> uint" where
  "dict_hash sd v = HASH_FINISH (hash_opt_bytes (HASH_INIT sd) (Some v))"

lemma dict_hash_loop_ok:
  assumes "cstring s \<or> m - i \<le> length s"
  shows "dict_hash_loop h s m i =
    Some (hash_opt_bytes h (Some (strval (take (m - i) s))), i + length (strval (take (m - i) s)))"
  using assms
proof (induction s arbitrary: h i)
  case Nil
  then show ?case by (simp add: hash_opt_bytes_def)
next
  case (Cons c s)
  show ?case
  proof (cases "i < m \<and> c \<noteq> 0")
    case True
    then have e: "take (m - i) (c # s) = c # take (m - Suc i) s" by (simp add: take_Cons')
    have "cstring s \<or> m - Suc i \<le> length s" using Cons.prems True by auto
    from Cons.IH [OF this, of "HASH_UPDATE h (ucast c)"] show ?thesis using True unfolding e
      by (simp add: hash_opt_bytes_def)
  next
    case False
    then show ?thesis by (auto simp: hash_opt_bytes_def take_Cons')
  qed
qed


lemma strval_take: "strval (take m s) = take m (strval s)"
  by (induction s arbitrary: m) (auto simp: take_Cons')

lemma strval_take_prefix: "take (length (strval s)) s = strval s"
  by (simp add: strval_def takeWhile_eq_take [symmetric])

text \<open>
  \<open>dict_key\<close> returns the hash and the lengths of the name, or rejects it as too long.  A name of
  \<open>2 ^ 64 - 1\<close> bytes or more does not fit in memory and is too long in any case.
\<close>

lemma dict_key_ok:
  fixes name :: bytes
  assumes ok: "dict_name_ok prefix' name maybeLen"
    and K: "K = dict_name prefix' name maybeLen" and m: "m = (if maybeLen < 0 then size_mod - 1 else nat maybeLen)"
  shows "if length K > INT_MAX_nat div 2 then dict_key sd prefix' name m = Some None
    else \<exists>plen len. dict_key sd prefix' name m = Some (Some (dict_hash sd K OR MAX_HASH_SIZE, plen, len, length K)) \<and>
      (case prefix' of NULL \<Rightarrow> len = length K \<and> len \<le> length name \<and> take len name = K
       | Ptr p \<Rightarrow> plen \<le> length p \<and> len \<le> length name \<and> K = take plen p @ ch (CHR '':'') # take len name)"
proof (cases prefix')
  case NULL
  let ?v = "strval (take m name)"
  have c: "cstring name \<or> m - 0 \<le> length name" using ok NULL m by (auto simp: dict_name_ok_def split: if_splits)
  have h: "xmlDictHashName sd name m = Some (dict_hash sd ?v OR MAX_HASH_SIZE, length ?v)"
    by (simp add: xmlDictHashName_def dict_hash_loop_ok [OF c] dict_hash_def)
  have pre: "take (length ?v) name = ?v" "length ?v \<le> length name"
  proof -
    show 1: "take (length ?v) name = ?v"
      using strval_take_prefix [of "take m name"] by (simp add: strval_take min_def split: if_splits)
    show "length ?v \<le> length name" using arg_cong [OF 1, of length] by simp
  qed
  have Kv: "K = (if maybeLen < 0 then strval name else ?v)" "maybeLen < 0 \<longrightarrow> m = size_mod - 1"
    using K NULL m by (auto simp: dict_name_def)
  show ?thesis
  proof (cases "maybeLen < 0 \<and> length (strval name) > size_mod - 1")
    case False
    then have "?v = K" using Kv by (auto simp: strval_take)
    then show ?thesis using h pre NULL by (auto simp: dict_key_def)
  next
    case True
    then have "length K > size_mod - 1" "length ?v = size_mod - 1" using Kv by (auto simp: strval_take)
    then show ?thesis using h NULL by (auto simp: dict_key_def)
  qed
next
  case (Ptr p)
  then have c: "cstring p" "cstring name" using ok by (simp_all add: dict_name_ok_def)
  have Kv: "K = strval p @ ch (CHR '':'') # strval name" using K Ptr by (simp add: dict_name_def)
  have h: "xmlDictHashQName sd p name = Some (dict_hash sd K OR MAX_HASH_SIZE, length (strval p), length (strval name))"
    using c by (simp add: xmlDictHashQName_def hash_string_cstring dict_hash_def Kv hash_opt_bytes_def)
  have "take (length (strval p)) p = strval p" "take (length (strval name)) name = strval name"
    "length (strval p) \<le> length p" "length (strval name) \<le> length name"
    using c take_strval length_strval_less less_imp_le by blast+
  then show ?thesis using h Ptr Kv by (auto simp: dict_key_def)
qed

lemma strncmp_eq_ok:
  assumes "cstring s" "n \<le> length name" "0 \<notin> set (take n name)"
  shows "strncmp_eq s name n = Some (take n (strval s) = take n name)"
  using assms
proof (induction s name n rule: strncmp_eq.induct)
  case (2 a s1 b s2 n)
  then show ?case by (cases "a = 0") auto
qed auto

section \<open>The invariant of a dictionary\<close>

definition entry_str :: "xmlDictStrings list \<Rightarrow> xmlDictEntry \<Rightarrow> bytes option" where
  "entry_str pools e = map_option strval (dict_bytes pools (dname e))"

definition dentry_ok :: "uint \<Rightarrow> xmlDictStrings list \<Rightarrow> xmlDictEntry \<Rightarrow> bool" where
  "dentry_ok sd pools e \<longleftrightarrow> (\<exists>s. dict_bytes pools (dname e) = Some s \<and> cstring s \<and>
     dhash e = dict_hash sd (strval s) OR MAX_HASH_SIZE)"

definition dict_inv :: "xmlDict \<Rightarrow> bool" where
  "dict_inv d \<longleftrightarrow>
     pools_ok (strings d) \<and>
     keyed (entry_str (strings d)) (dentry_ok (seed d) (strings d)) (occ dhash (dtable d)) \<and>
     unat (dnbElems d) = size (occ dhash (dtable d)) \<and>
     (dsize d = 0 \<and> dtable d = [] \<or>
      rh_table dhash (dtable d) (word_of_nat (dsize d)) \<and> 8 \<le> dsize d \<and> dsize d \<le> 2147483648 \<and>
      unat (dnbElems d) \<le> dsize d div 8 * 7)"

definition dict_map :: "xmlDict \<Rightarrow> bytes \<Rightarrow> dict_addr option" where
  "dict_map d v = Option.bind (key_map dhash (entry_str (strings d)) dname (dtable d) (Some v))
     (\<lambda>p. case p of NULL \<Rightarrow> None | Ptr a \<Rightarrow> Some a)"

interpretation dict_keys: keyed_table dhash "entry_str pools" "dentry_ok sd pools" "\<lambda>k. dict_hash sd (the k)" for sd pools
  by unfold_locales (auto simp: dentry_ok_def entry_str_def)

lemma dict_map_Some:
  assumes "dict_inv d"
  shows "dict_map d v = Some a \<longleftrightarrow> (\<exists>e \<in># occ dhash (dtable d). entry_str (strings d) e = Some v \<and> dname e = Ptr a)"
proof -
  have "keyed (entry_str (strings d)) (dentry_ok (seed d) (strings d)) (occ dhash (dtable d))" using assms by (simp add: dict_inv_def)
  note key_map_Some_iff [OF this, where vf = dname and K = "Some v" and p = "Ptr a"]
  moreover have "dict_map d v = Some a \<longleftrightarrow> key_map dhash (entry_str (strings d)) dname (dtable d) (Some v) = Some (Ptr a)"
    unfolding dict_map_def by (cases "key_map dhash (entry_str (strings d)) dname (dtable d) (Some v)") (auto split: ptr.split)
  ultimately show ?thesis by simp
qed

lemma dict_map_None:
  assumes "dict_inv d"
  shows "dict_map d v = None \<longleftrightarrow> (\<forall>e \<in># occ dhash (dtable d). entry_str (strings d) e \<noteq> Some v)"
proof
  assume n: "dict_map d v = None"
  show "\<forall>e \<in># occ dhash (dtable d). entry_str (strings d) e \<noteq> Some v"
  proof (intro ballI notI)
    fix e assume e: "e \<in># occ dhash (dtable d)" "entry_str (strings d) e = Some v"
    then have "dentry_ok (seed d) (strings d) e" using assms by (auto simp: dict_inv_def keyed_def)
    then obtain a where "dname e = Ptr a" by (auto simp: dentry_ok_def dict_bytes_def split: ptr.splits)
    then have "dict_map d v = Some a" using e dict_map_Some [OF assms] by blast
    with n show False by simp
  qed
next
  assume "\<forall>e \<in># occ dhash (dtable d). entry_str (strings d) e \<noteq> Some v"
  then show "dict_map d v = None" using dict_map_Some [OF assms, of v] by (cases "dict_map d v") auto
qed

text \<open>An address in the map holds its string.\<close>

lemma dict_map_bytes:
  assumes "dict_inv d" "dict_map d v = Some a"
  shows "\<exists>s. dict_bytes (strings d) (Ptr a) = Some s \<and> cstring s \<and> strval s = v"
proof -
  obtain e where e: "e \<in># occ dhash (dtable d)" "entry_str (strings d) e = Some v" "dname e = Ptr a"
    using dict_map_Some [OF assms(1)] assms(2) by blast
  then have "dentry_ok (seed d) (strings d) e" using assms(1) by (auto simp: dict_inv_def keyed_def)
  then show ?thesis using e by (auto simp: dentry_ok_def entry_str_def)
qed

lemma dict_map_inj:
  assumes "dict_inv d" "dict_map d v = Some a" "dict_map d w = Some a"
  shows "v = w"
  using dict_map_bytes [OF assms(1,2)] dict_map_bytes [OF assms(1,3)] by auto

section \<open>Searching\<close>

text \<open>How a call describes the name \<open>K\<close> to \<open>xmlDictFindEntry\<close>.\<close>

definition names :: "xmlString \<Rightarrow> bytes \<Rightarrow> bytes \<Rightarrow> bool" where
  "names prefix' name K \<longleftrightarrow>
     (case prefix' of
        NULL \<Rightarrow> length K \<le> length name \<and> take (length K) name = K \<and> 0 \<notin> set K
      | Ptr p \<Rightarrow> cstring p \<and> strval p \<noteq> [] \<and> cstring name \<and> K = strval p @ ch (CHR '':'') # strval name)"

lemma dict_entry_matches_ok:
  assumes e: "dentry_ok sd pools e" and n: "names prefix' name K"
  shows "dict_entry_matches pools prefix' name (length K) (dict_hash sd K OR MAX_HASH_SIZE) e =
    Some (entry_str pools e = Some K)"
proof -
  obtain s where s: "dict_bytes pools (dname e) = Some s" "cstring s" "dhash e = dict_hash sd (strval s) OR MAX_HASH_SIZE"
    using e by (auto simp: dentry_ok_def)
  have es: "entry_str pools e = Some (strval s)" using s(1) by (simp add: entry_str_def)
  show ?thesis
  proof (cases "dhash e = dict_hash sd K OR MAX_HASH_SIZE")
    case False
    then show ?thesis using s es by (auto simp: dict_entry_matches_def)
  next
    case True
    show ?thesis
    proof (cases prefix')
      case NULL
      let ?n = "length K" and ?v = "strval s"
      have K: "?n \<le> length name" "take ?n name = K" "0 \<notin> set K" using n NULL by (simp_all add: names_def)
      have c: "strncmp_eq s name ?n = Some (take ?n ?v = K)" using strncmp_eq_ok [OF s(2) K(1)] K(2,3) by simp
      have "\<exists>c. rd s ?n = Some c \<and> (c = 0 \<longleftrightarrow> ?v = K)" if tk: "take ?n ?v = K"
      proof -
        have le: "?n \<le> length ?v" using arg_cong [OF tk, of length] by simp
        then have lt: "?n < length s" using length_strval_less [OF s(2)] by linarith
        have "s ! ?n = 0 \<longleftrightarrow> ?n = length ?v"
        proof (cases "?n = length ?v")
          case True
          then show ?thesis using nth_strval_end [OF s(2)] by simp
        next
          case False
          then have "?n < length ?v" using le by simp
          then show ?thesis using nth_strval [of ?n s] strval_nz [of "?v ! ?n" s] nth_mem [of ?n ?v] by simp
        qed
        moreover have "?v = K \<longleftrightarrow> ?n = length ?v" using tk by (metis take_all_iff order_refl)
        ultimately show ?thesis using lt by (simp add: rd_def)
      qed
      then show ?thesis using True s(1) NULL c es by (auto simp: dict_entry_matches_def)
    next
      case (Ptr p)
      then show ?thesis using True s n es xmlStrQEqual_cstring [of p name s False]
        by (auto simp: dict_entry_matches_def names_def)
    qed
  qed
qed

lemma word_size [simp]: "n \<le> 2147483648 \<Longrightarrow> unat (word_of_nat n :: uint) = n"
  by (simp add: unat_of_nat)

lemma dict_find_cases:
  assumes inv: "dict_inv d" "dsize d \<noteq> 0" and n: "names prefix' name K"
  defines "hv \<equiv> dict_hash (seed d) K OR MAX_HASH_SIZE"
  obtains (found) i e where "xmlDictFindEntry d prefix' name (length K) hv = Some (i, True)" "rd (dtable d) i = Some e"
      "\<exists>a. dname e = Ptr a \<and> dict_map d K = Some a"
  | (absent) h j where "xmlDictFindEntry d prefix' name (length K) hv = Some ((h + j) mod length (dtable d), False)"
      "insertion_point dhash (dtable d) h j" "h = unat hv mod length (dtable d)" "dict_map d K = None"
proof -
  have tb: "rh_table dhash (dtable d) (word_of_nat (dsize d))"
    and k: "keyed (entry_str (strings d)) (dentry_ok (seed d) (strings d)) (occ dhash (dtable d))"
    using inv by (auto simp: dict_inv_def)
  have m: "dict_entry_matches (strings d) prefix' name (length K) hv e = Some (entry_str (strings d) e = Some K)"
    if "e \<in># occ dhash (dtable d)" for e
    using that k dict_entry_matches_ok [OF _ n] by (simp add: keyed_def hv_def)
  show ?thesis
  proof (rule dict_keys.search [OF tb k m, where v = hv])
    fix i assume i: "rh_lookup dhash (dict_entry_matches (strings d) prefix' name (length K) hv) (dtable d)
        (word_of_nat (dsize d)) hv = Some (i, True)" "i < length (dtable d)" "entry_str (strings d) (dtable d ! i) = Some K"
      "dtable d ! i \<in># occ dhash (dtable d)"
    have "dentry_ok (seed d) (strings d) (dtable d ! i)" using k i(4) by (simp add: keyed_def)
    then obtain a where "dname (dtable d ! i) = Ptr a" by (auto simp: dentry_ok_def dict_bytes_def split: ptr.splits)
    then show thesis using i dict_map_Some [OF inv(1)] found [of i "dtable d ! i"] by (auto simp: xmlDictFindEntry_def rd_def)
  next
    fix h j assume "rh_lookup dhash (dict_entry_matches (strings d) prefix' name (length K) hv) (dtable d)
        (word_of_nat (dsize d)) hv = Some ((h + j) mod length (dtable d), False)"
      "insertion_point dhash (dtable d) h j" "h = unat hv mod length (dtable d)"
      "\<forall>e \<in># occ dhash (dtable d). entry_str (strings d) e \<noteq> Some K"
    then show thesis using absent dict_map_None [OF inv(1)] by (auto simp: xmlDictFindEntry_def)
  qed (simp_all add: hv_def)
qed

section \<open>Insertion\<close>

lemma entry_extend:
  assumes "pools_extend pools pools'" "dentry_ok sd pools e"
  shows "dentry_ok sd pools' e" "entry_str pools' e = entry_str pools e"
proof -
  obtain s where s: "dict_bytes pools (dname e) = Some s" "cstring s" "dhash e = dict_hash sd (strval s) OR MAX_HASH_SIZE"
    using assms(2) by (auto simp: dentry_ok_def)
  then obtain r where "dict_bytes pools' (dname e) = Some (s @ r)" using assms(1) by (auto simp: pools_extend_def)
  then show "dentry_ok sd pools' e" "entry_str pools' e = entry_str pools e"
    using s by (auto simp: dentry_ok_def entry_str_def)
qed

lemma keyed_extend:
  assumes "pools_extend pools pools'" "keyed (entry_str pools) (dentry_ok sd pools) M"
  shows "keyed (entry_str pools') (dentry_ok sd pools') M"
proof -
  have ok: "\<And>e. e \<in># M \<Longrightarrow> dentry_ok sd pools e" using assms(2) by (simp add: keyed_def)
  then have "image_mset (entry_str pools') M = image_mset (entry_str pools) M"
    using entry_extend(2) [OF assms(1)] by (intro image_mset_cong) blast
  then show ?thesis using assms ok entry_extend(1) by (auto simp: keyed_def)
qed

lemma dict_map_extend:
  assumes inv: "dict_inv d" and pe: "pools_extend (strings d) pools'" and ok: "pools_ok pools'"
  shows "dict_inv (d\<lparr>strings := pools'\<rparr>)" "dict_map (d\<lparr>strings := pools'\<rparr>) = dict_map d"
proof -
  show inv': "dict_inv (d\<lparr>strings := pools'\<rparr>)" using inv ok keyed_extend [OF pe] by (auto simp: dict_inv_def)
  have k: "\<And>e. e \<in># occ dhash (dtable d) \<Longrightarrow> entry_str pools' e = entry_str (strings d) e"
    using inv entry_extend(2) [OF pe] by (auto simp: dict_inv_def keyed_def)
  have "dict_map (d\<lparr>strings := pools'\<rparr>) v = Some a \<longleftrightarrow> dict_map d v = Some a" for v a
    using dict_map_Some [OF inv', of v a] dict_map_Some [OF inv, of v a] k by auto
  then show "dict_map (d\<lparr>strings := pools'\<rparr>) = dict_map d" by (intro ext) (metis not_None_eq)
qed

text \<open>The arguments with which the tail of \<open>xmlDictLookupInternal\<close> stores the name \<open>K\<close>.\<close>

definition name_args :: "xmlString \<Rightarrow> nat \<Rightarrow> bytes \<Rightarrow> nat \<Rightarrow> bytes \<Rightarrow> bool" where
  "name_args prefix' plen name len K \<longleftrightarrow>
     length K \<le> INT_MAX_nat div 2 \<and> 0 \<notin> set K \<and>
     (case prefix' of
        NULL \<Rightarrow> len \<le> length name \<and> K = take len name
      | Ptr p \<Rightarrow> plen \<le> length p \<and> len \<le> length name \<and> K = take plen p @ ch (CHR '':'') # take len name)"

lemma add_string_ok:
  assumes "pools_ok (strings d)" "address_space mem" "name_args prefix' plen name len K"
  shows "\<exists>res. (case prefix' of NULL \<Rightarrow> xmlDictAddString mem d name len
      | Ptr p \<Rightarrow> xmlDictAddQString mem d p plen name len) = Some res \<and> stored_in mem d K res"
proof (cases prefix')
  case NULL
  then show ?thesis using assms xmlDictAddString_ok [of d mem len name] by (auto simp: name_args_def)
next
  case (Ptr p)
  then have "plen + 1 + len \<le> INT_MAX_nat div 2" using assms(3) by (auto simp: name_args_def)
  then show ?thesis using Ptr assms xmlDictAddQString_ok [of d mem plen p len name] by (auto simp: name_args_def)
qed

lemma dict_insert_ok:
  assumes inv: "dict_inv d" "dsize d \<noteq> 0" "unat (dnbElems d) + 1 \<le> dsize d div 8 * 7"
    and mem: "address_space mem" and args: "name_args prefix' plen name len K"
    and hv: "hv = dict_hash (seed d) K OR MAX_HASH_SIZE"
    and ip: "insertion_point dhash (dtable d) h j" "h = unat hv mod length (dtable d)" "p = (h + j) mod length (dtable d)"
    and new: "dict_map d K = None"
  shows "dict_insert_at mem d prefix' plen name len hv p = Some (NULL, d) \<and> no_pool mem d K \<or>
    (\<exists>e a d'. dict_insert_at mem d prefix' plen name len hv p = Some (Ptr e, d') \<and> dname e = Ptr a \<and> dhash e = hv \<and>
      dict_inv d' \<and> dict_map d' = (dict_map d)(K \<mapsto> a) \<and> seed d' = seed d \<and> limit d' = limit d)"
proof -
  have pok: "pools_ok (strings d)" and tb: "rh_table dhash (dtable d) (word_of_nat (dsize d))"
    and sz: "8 \<le> dsize d" "dsize d \<le> 2147483648" and nb: "unat (dnbElems d) = size (occ dhash (dtable d))"
    using inv by (auto simp: dict_inv_def)
  have len: "length (dtable d) = dsize d" using tb sz(2) by (simp add: rh_table_def table_size_def)
  obtain res where res: "(case prefix' of NULL \<Rightarrow> xmlDictAddString mem d name len
      | Ptr p \<Rightarrow> xmlDictAddQString mem d p plen name len) = Some res" "stored_in mem d K res"
    using add_string_ok [OF pok mem args] by blast
  show ?thesis
  proof (cases "fst res")
    case NULL
    then have "dict_insert_at mem d prefix' plen name len hv p = Some (NULL, d) \<and> no_pool mem d K"
      using res by (cases res) (auto simp: dict_insert_at_def stored_in_def)
    then show ?thesis by blast
  next
    case (Ptr a)
    then obtain pools' where r: "res = (Ptr a, d\<lparr>strings := pools'\<rparr>)" and p: "pools_ok pools'" "pools_extend (strings d) pools'"
      "dict_bytes pools' (Ptr a) = Some (K @ [0])"
      using res(2) by (cases res) (auto simp: stored_in_def)
    define e where "e = \<lparr>dhash = hv, dname = Ptr a\<rparr>"
    define d1 where "d1 = d\<lparr>strings := pools'\<rparr>"
    note d1 = dict_map_extend [OF inv(1) p(2,1), folded d1_def]
    have d1s: "dtable d1 = dtable d" "dsize d1 = dsize d" "seed d1 = seed d" "dnbElems d1 = dnbElems d" "strings d1 = pools'" "limit d1 = limit d"
      by (simp_all add: d1_def)
    have z: "0 \<notin> set K" using args by (simp add: name_args_def)
    have es: "entry_str pools' e = Some K" using p(3) z by (simp add: e_def entry_str_def strval_append)
    have eok: "dentry_ok (seed d) pools' e" using p(3) hv z by (simp add: dentry_ok_def e_def strval_append cstring_def)
    have k: "keyed (entry_str pools') (dentry_ok (seed d) pools') (occ dhash (dtable d))"
      using d1(1) d1s by (simp add: dict_inv_def)
    have new': "\<forall>f \<in># occ dhash (dtable d). entry_str pools' f \<noteq> entry_str pools' e"
      using new d1(2) dict_map_None [OF d1(1), of K] d1s es by simp
    have room: "Suc (size (occ dhash (dtable d))) < length (dtable d)" using inv(3) nb len sz(1) by simp
    obtain t1 where t1: "rh_shift_right dhash (dtable d) (length (dtable d)) p = Some t1" "p < length t1"
      "rh_table dhash (t1[p := e]) (word_of_nat (dsize d))" "occ dhash (t1[p := e]) = add_mset e (occ dhash (dtable d))"
      "keyed (entry_str pools') (dentry_ok (seed d) pools') (occ dhash (t1[p := e]))"
      using dict_keys.insert [OF tb k ip _ eok new' room] es hv by auto
    define d' where "d' = d1\<lparr>dtable := t1[p := e], dnbElems := dnbElems d + 1\<rparr>"
    have eq: "dict_insert_at mem d prefix' plen name len hv p = Some (Ptr e, d')"
      using res(1) r t1(1,2) len by (simp add: dict_insert_at_def d1_def [symmetric] d1s d'_def wr_def e_def [symmetric] Let_def)
    have nb': "unat (dnbElems d + 1) = unat (dnbElems d) + 1"
      using inv(3) sz(2) by (simp add: unat_add_lem [THEN iffD1])
    have inv': "dict_inv d'"
      using p(1) t1(3-5) nb nb' inv(3) sz by (simp add: dict_inv_def d'_def d1s)
    have nm: "dname e = Ptr a" "dhash e = hv" by (simp_all add: e_def)
    have "dict_map d' v = ((dict_map d)(K \<mapsto> a)) v" for v
    proof -
      have "key_map dhash (entry_str pools') dname (t1[p := e]) = (key_map dhash (entry_str pools') dname (dtable d))(Some K \<mapsto> Ptr a)"
        using key_map_insert [OF t1(5,4), where vf = dname] es nm(1) by simp
      then have "dict_map d' v = (if v = K then Some a else dict_map d1 v)"
        by (simp add: dict_map_def d'_def d1s)
      then show ?thesis using d1(2) by simp
    qed
    then have "dict_map d' = (dict_map d)(K \<mapsto> a)" by blast
    then show ?thesis using eq inv' nm by (intro disjI2 exI [of _ e] exI [of _ a] exI [of _ d']) (simp add: d'_def d1s)
  qed
qed

lemma dict_grow_ok:
  assumes inv: "dict_inv d" and n: "newSize = (if dsize d = 0 then 8 else dsize d * 2)" "dsize d < 2147483648"
  shows "xmlDictGrow mem d (word_of_nat newSize) = Some (- 1, d) \<and> \<not> mem (newSize * sizeof_xmlDictEntry) \<or>
    (\<exists>d'. xmlDictGrow mem d (word_of_nat newSize) = Some (0, d') \<and> dict_inv d' \<and> dict_map d' = dict_map d \<and>
      seed d' = seed d \<and> limit d' = limit d \<and> strings d' = strings d \<and> dsize d' = newSize \<and> newSize \<noteq> 0 \<and>
      unat (dnbElems d') + 1 \<le> dsize d' div 8 * 7)"
proof (cases "mem (unat (word_of_nat newSize :: uint) * sizeof_xmlDictEntry)")
  case False
  moreover have "unat (word_of_nat newSize :: uint) = newSize" using n by (simp add: unat_of_nat)
  ultimately show ?thesis by (auto simp: xmlDictGrow_def)
next
  case True
  have bl: "dhash blank_dict_entry = 0" by (simp add: blank_dict_entry_def)
  have w: "unat (word_of_nat newSize :: uint) = newSize" using n by (simp add: unat_of_nat)
  then have le: "\<not> unat (word_of_nat newSize :: uint) > SIZE_MAX_nat div sizeof_xmlDictEntry" using n by simp
  have pok: "pools_ok (strings d)" using inv by (simp add: dict_inv_def)
  have "\<exists>t'. rh_grow dhash blank_dict_entry (dtable d) (dsize d) (word_of_nat newSize) = Some t' \<and>
      rh_table dhash t' (word_of_nat newSize) \<and> occ dhash t' = occ dhash (dtable d)"
  proof (cases "dsize d = 0")
    case True
    then have "dtable d = []" using inv by (auto simp: dict_inv_def)
    with True n grow_min [where hv = dhash and t = "dtable d", OF bl] show ?thesis by (auto simp: occ_def)
  next
    case False
    then have tb: "rh_table dhash (dtable d) (word_of_nat (dsize d))" using inv by (auto simp: dict_inv_def)
    then have l: "length (dtable d) = dsize d" using n(2) by (simp add: rh_table_def table_size_def)
    have "(word_of_nat (dsize d) :: uint) < 0x80000000" using n(2) by (simp add: word_less_nat_alt)
    from grow_double [OF tb bl this] show ?thesis using l n False by (auto simp: mult.commute)
  qed
  then obtain t' where t': "rh_grow dhash blank_dict_entry (dtable d) (dsize d) (word_of_nat newSize) = Some t'"
    "rh_table dhash t' (word_of_nat newSize)" "occ dhash t' = occ dhash (dtable d)" by blast
  define d' where "d' = d\<lparr>dtable := t', dsize := newSize\<rparr>"
  have fill: "unat (dnbElems d) + 1 \<le> newSize div 8 * 7"
    using inv n by (auto simp: dict_inv_def occ_def)
  have "newSize \<le> 2147483648"
    using t'(2) w table_size_le [of t' "word_of_nat newSize"] by (simp add: rh_table_def table_size_def)
  then have inv': "dict_inv d'" using inv t'(2,3) n fill by (auto simp: dict_inv_def d'_def)
  have "dict_map d' v = Some a \<longleftrightarrow> dict_map d v = Some a" for v a
    using dict_map_Some [OF inv', of v a] dict_map_Some [OF inv, of v a] t'(3) by (simp add: d'_def)
  then have "dict_map d' = dict_map d" by (intro ext) (metis not_None_eq)
  moreover have "xmlDictGrow mem d (word_of_nat newSize) = Some (0, d')"
    using True le t'(1) w by (simp add: xmlDictGrow_def d'_def)
  ultimately show ?thesis using inv' fill n by (intro disjI2 exI [of _ d']) (auto simp: d'_def)
qed

definition dict_full :: "xmlDict \<Rightarrow> bool" where
  "dict_full d \<longleftrightarrow> dsize d = 2147483648 \<and> unat (dnbElems d) = dsize d div 8 * 7"

text \<open>
  Why a new string cannot be added: the table must grow and there is no memory for that (the
  first request of a lookup), or there is no pool for the string (the second).
\<close>

definition no_room :: "(nat \<Rightarrow> allocator) \<Rightarrow> xmlDict \<Rightarrow> bytes \<Rightarrow> bool" where
  "no_room mem d K \<longleftrightarrow>
     (dsize d = 0 \<or> unat (dnbElems d) + 1 > dsize d div 8 * 7) \<and>
       \<not> mem 0 ((if dsize d = 0 then 8 else dsize d * 2) * sizeof_xmlDictEntry) \<or>
     no_pool (mem 1) d K"

lemma dict_add_ok:
  assumes inv: "dict_inv d" and mem: "\<forall>i. address_space (mem i)" and args: "name_args prefix' plen name len K"
    and hv: "hv = dict_hash (seed d) K OR MAX_HASH_SIZE" and new: "dict_map d K = None"
    and sz: "newSize = 0 \<and> dsize d \<noteq> 0 \<and> unat (dnbElems d) + 1 \<le> dsize d div 8 * 7 \<and>
        insertion_point dhash (dtable d) h j \<and> h = unat hv mod length (dtable d) \<and> p = (h + j) mod length (dtable d)
      \<or> newSize = (if dsize d = 0 then 8 else dsize d * 2) \<and> dsize d < 2147483648 \<and>
        (dsize d = 0 \<or> unat (dnbElems d) + 1 > dsize d div 8 * 7)"
  shows "\<exists>r d'. dict_add mem d prefix' plen name len hv newSize p = Some (r, d') \<and> dict_inv d' \<and>
    seed d' = seed d \<and> limit d' = limit d \<and>
    (r = NULL \<and> dict_map d' = dict_map d \<and> no_room mem d K \<or>
     (\<exists>e a. r = Ptr e \<and> dname e = Ptr a \<and> dhash e = hv \<and> dict_map d' = (dict_map d)(K \<mapsto> a)))"
  using sz
proof
  assume a: "newSize = 0 \<and> dsize d \<noteq> 0 \<and> unat (dnbElems d) + 1 \<le> dsize d div 8 * 7 \<and>
        insertion_point dhash (dtable d) h j \<and> h = unat hv mod length (dtable d) \<and> p = (h + j) mod length (dtable d)"
  then have "dict_add mem d prefix' plen name len hv newSize p = dict_insert_at (mem 1) d prefix' plen name len hv p"
    by (simp add: dict_add_def)
  then show ?thesis using dict_insert_ok [OF inv _ _ _ args hv _ _ _ new, of "mem 1" h j p] a mem inv
    unfolding no_room_def by fastforce
next
  assume n: "newSize = (if dsize d = 0 then 8 else dsize d * 2) \<and> dsize d < 2147483648 \<and>
    (dsize d = 0 \<or> unat (dnbElems d) + 1 > dsize d div 8 * 7)"
  then have pos: "newSize > 0" by auto
  have "xmlDictGrow (mem 0) d (word_of_nat newSize) = Some (- 1, d) \<and> \<not> mem 0 (newSize * sizeof_xmlDictEntry) \<or>
    (\<exists>d'. xmlDictGrow (mem 0) d (word_of_nat newSize) = Some (0, d') \<and> dict_inv d' \<and> dict_map d' = dict_map d \<and>
      seed d' = seed d \<and> limit d' = limit d \<and> strings d' = strings d \<and> dsize d' = newSize \<and> newSize \<noteq> 0 \<and>
      unat (dnbElems d') + 1 \<le> dsize d' div 8 * 7)" using dict_grow_ok [OF inv] n by blast
  then show ?thesis
  proof
    assume "xmlDictGrow (mem 0) d (word_of_nat newSize) = Some (- 1, d) \<and> \<not> mem 0 (newSize * sizeof_xmlDictEntry)"
    then show ?thesis using pos inv n by (simp add: dict_add_def no_room_def)
  next
    assume "\<exists>d'. xmlDictGrow (mem 0) d (word_of_nat newSize) = Some (0, d') \<and> dict_inv d' \<and> dict_map d' = dict_map d \<and>
      seed d' = seed d \<and> limit d' = limit d \<and> strings d' = strings d \<and> dsize d' = newSize \<and> newSize \<noteq> 0 \<and>
      unat (dnbElems d') + 1 \<le> dsize d' div 8 * 7"
    then obtain d1 where d1: "xmlDictGrow (mem 0) d (word_of_nat newSize) = Some (0, d1)" "dict_inv d1" "dict_map d1 = dict_map d"
      "seed d1 = seed d" "limit d1 = limit d" "dsize d1 \<noteq> 0" "unat (dnbElems d1) + 1 \<le> dsize d1 div 8 * 7" "strings d1 = strings d" by blast
    have np: "no_pool (mem 1) d1 K \<longleftrightarrow> no_pool (mem 1) d K"
      using d1(5,8) by (simp add: no_pool_def pool_request_def xmlDictGetUsage_def)
    have tb: "rh_table dhash (dtable d1) (word_of_nat (dsize d1))"
      and k: "keyed (entry_str (strings d1)) (dentry_ok (seed d1) (strings d1)) (occ dhash (dtable d1))"
      using d1(2,6) by (auto simp: dict_inv_def)
    obtain h' j' where l: "rh_lookup dhash (\<lambda>_. Some False) (dtable d1) (word_of_nat (dsize d1)) hv = Some ((h' + j') mod length (dtable d1), False)"
      "insertion_point dhash (dtable d1) h' j'" "h' = unat hv mod length (dtable d1)"
      by (rule dict_keys.insertion_search [OF tb k])
    have "dict_add mem d prefix' plen name len hv newSize p =
      dict_insert_at (mem 1) d1 prefix' plen name len hv ((h' + j') mod length (dtable d1))"
      using pos d1(1) l(1) by (simp add: dict_add_def)
    moreover have "dict_insert_at (mem 1) d1 prefix' plen name len hv ((h' + j') mod length (dtable d1)) = Some (NULL, d1) \<and> no_pool (mem 1) d1 K \<or>
    (\<exists>e a d'. dict_insert_at (mem 1) d1 prefix' plen name len hv ((h' + j') mod length (dtable d1)) = Some (Ptr e, d') \<and> dname e = Ptr a \<and> dhash e = hv \<and>
      dict_inv d' \<and> dict_map d' = (dict_map d1)(K \<mapsto> a) \<and> seed d' = seed d1 \<and> limit d' = limit d1)"
      using mem hv d1 new by (intro dict_insert_ok [OF d1(2,6,7) _ args _ l(2,3) refl]) simp_all
    ultimately show ?thesis using d1(2-5) np unfolding no_room_def by fastforce
  qed
qed

section \<open>Chains of dictionaries\<close>

definition chain_inv :: "xmlDict list \<Rightarrow> bool" where
  "chain_inv ds \<longleftrightarrow> ds \<noteq> [] \<and> (\<forall>d \<in> set ds. dict_inv d)"

text \<open>The strings a lookup can find, with their addresses: those of the dictionary, then those of
  its subdictionary.\<close>

definition chain_map :: "xmlDict list \<Rightarrow> bytes \<Rightarrow> chain_addr option" where
  "chain_map ds v =
     (case ds of
        [] \<Rightarrow> None
      | d # sub \<Rightarrow>
          (case dict_map d v of
             Some a \<Rightarrow> Some (length sub, a)
           | None \<Rightarrow> (case sub of [] \<Rightarrow> None | s # _ \<Rightarrow> map_option (Pair (length sub - 1)) (dict_map s v))))"

definition chain_bytes :: "xmlDict list \<Rightarrow> chain_addr \<Rightarrow> bytes option" where
  "chain_bytes ds a =
     (if fst a < length ds then dict_bytes (strings (rev ds ! fst a)) (Ptr (snd a)) else None)"

lemma chain_map_bytes:
  assumes inv: "chain_inv ds" and m: "chain_map ds v = Some a"
  shows "\<exists>s. chain_bytes ds a = Some s \<and> cstring s \<and> strval s = v"
proof (cases ds)
  case Nil
  then show ?thesis using m by (simp add: chain_map_def)
next
  case (Cons d sub)
  show ?thesis
  proof (cases "dict_map d v")
    case (Some b)
    then have "a = (length sub, b)" using m Cons by (simp add: chain_map_def)
    then show ?thesis using dict_map_bytes [OF _ Some] inv Cons by (simp add: chain_inv_def chain_bytes_def nth_append)
  next
    case None
    then obtain s rest b where s: "sub = s # rest" "dict_map s v = Some b" "a = (length rest, b)"
      using m Cons by (cases sub) (auto simp: chain_map_def)
    then show ?thesis using dict_map_bytes [OF _ s(2)] inv Cons by (simp add: chain_inv_def chain_bytes_def nth_append)
  qed
qed

lemma chain_map_inj:
  "chain_inv ds \<Longrightarrow> chain_map ds v = Some a \<Longrightarrow> chain_map ds w = Some a \<Longrightarrow> v = w"
  using chain_map_bytes [of ds v a] chain_map_bytes [of ds w a] by auto

section \<open>Lookup\<close>

lemma dict_name_nz: "0 \<notin> set (dict_name prefix' name maybeLen)"
  by (simp add: dict_name_def strval_no_zero split: ptr.splits)

lemma dict_name_names:
  assumes "dict_name_ok prefix' name maybeLen" "K = dict_name prefix' name maybeLen"
    "case prefix' of NULL \<Rightarrow> len = length K \<and> len \<le> length name \<and> take len name = K | Ptr p \<Rightarrow> True"
  shows "names prefix' name K"
  using assms dict_name_nz [of prefix' name maybeLen]
  by (cases prefix') (auto simp: names_def dict_name_ok_def dict_name_def)

lemma dict_sub_find_ok:
  assumes inv: "\<forall>d \<in> set sub. dict_inv d" and n: "names prefix' name K"
    and len: "prefix' = NULL \<Longrightarrow> len = length K"
  shows "\<exists>r. dict_sub_find sub prefix' name len (length K) = Some r \<and>
    (case sub of [] \<Rightarrow> r = None
     | s # _ \<Rightarrow> (case r of None \<Rightarrow> dict_map s K = None | Some e \<Rightarrow> \<exists>a. dname e = Ptr a \<and> dict_map s K = Some a))"
proof (cases sub)
  case Nil
  then show ?thesis by (simp add: dict_sub_find_def)
next
  case (Cons s rest)
  then have s: "dict_inv s" using inv by simp
  show ?thesis
  proof (cases "dsize s = 0")
    case True
    then have "dtable s = []" using s by (auto simp: dict_inv_def)
    then show ?thesis using True Cons by (simp add: dict_sub_find_def dict_map_def)
  next
    case False
    let ?hv = "dict_hash (seed s) K OR MAX_HASH_SIZE"
    have hv: "(case prefix' of NULL \<Rightarrow> map_option fst (xmlDictHashName (seed s) name len)
        | Ptr p \<Rightarrow> map_option fst (xmlDictHashQName (seed s) p name)) = Some ?hv"
    proof (cases prefix')
      case NULL
      then have K: "len \<le> length name" "take len name = K" "0 \<notin> set K" using n len by (auto simp: names_def)
      then have "strval K = K" by (simp add: strval_def) (metis takeWhile_eq_all_conv)
      then show ?thesis using NULL K dict_hash_loop_ok [of name len 0 "HASH_INIT (seed s)"]
        by (simp add: xmlDictHashName_def dict_hash_def)
    next
      case (Ptr p)
      then show ?thesis using n
        by (simp add: names_def xmlDictHashQName_def hash_string_cstring dict_hash_def hash_opt_bytes_def)
    qed
    show ?thesis
    proof (cases rule: dict_find_cases [OF s False n, case_names found absent])
      case (found i e)
      then show ?thesis using Cons False hv by (auto simp: dict_sub_find_def)
    next
      case (absent h j)
      then show ?thesis using Cons False hv by (simp add: dict_sub_find_def)
    qed
  qed
qed

definition dict_rejects :: "xmlDict \<Rightarrow> bytes \<Rightarrow> bool" where
  "dict_rejects d K \<longleftrightarrow> length K > INT_MAX_nat div 2 \<or> limit d > 0 \<and> length K \<ge> limit d"

text \<open>The specification of a lookup: what may be returned and how the map changes.\<close>

definition lookup_spec ::
  "(nat \<Rightarrow> allocator) \<Rightarrow> xmlDict list \<Rightarrow> bytes \<Rightarrow> bool \<Rightarrow> (nat \<times> xmlDictEntry) ptr \<Rightarrow> xmlDict list \<Rightarrow> bool" where
  "lookup_spec mem ds K update r ds' \<longleftrightarrow>
     chain_inv ds' \<and>
     (case entry_addr r of
        NULL \<Rightarrow> r = NULL \<and> chain_map ds' = chain_map ds \<and>
          (dict_rejects (hd ds) K \<or> dict_map (hd ds) K = None \<and> dict_full (hd ds) \<or>
           chain_map ds K = None \<and> (update \<longrightarrow> no_room mem (hd ds) K))
      | Ptr a \<Rightarrow> \<not> dict_rejects (hd ds) K \<and>
          (chain_map ds K = Some a \<and> ds' = ds \<or>
           update \<and> chain_map ds K = None \<and> chain_map ds' = (chain_map ds)(K \<mapsto> a)))"

lemma lookup_spec_NULL:
  "chain_inv ds \<Longrightarrow> dict_rejects (hd ds) K \<or> dict_map (hd ds) K = None \<and> dict_full (hd ds) \<or>
     chain_map ds K = None \<and> \<not> update \<Longrightarrow> lookup_spec mem ds K update NULL ds"
  by (auto simp: lookup_spec_def entry_addr_def)

lemma unat_nb_Suc:
  assumes "dict_inv d"
  shows "unat (dnbElems d + 1) = unat (dnbElems d) + 1"
proof -
  have "unat (dnbElems d) < 2147483648" using assms by (auto simp: dict_inv_def occ_def)
  then show ?thesis by (simp add: unat_add_lem [THEN iffD1])
qed

lemma lookup_spec_add:
  assumes inv: "chain_inv (d # sub)" "dict_inv d'" and new: "chain_map (d # sub) K = None" "\<not> dict_rejects d K" "update"
    and e: "e = NULL \<and> dict_map d' = dict_map d \<and> no_room mem d K \<or> (\<exists>e' a. e = Ptr e' \<and> dname e' = Ptr a \<and> dict_map d' = (dict_map d)(K \<mapsto> a))"
  shows "lookup_spec mem (d # sub) K update (case e of NULL \<Rightarrow> NULL | Ptr e \<Rightarrow> Ptr (length sub, e)) (d' # sub)"
proof -
  have ci: "chain_inv (d' # sub)" using inv by (simp add: chain_inv_def)
  from e show ?thesis
  proof (elim disjE exE conjE)
    assume "e = NULL" "dict_map d' = dict_map d" "no_room mem d K"
    then show ?thesis using ci new by (simp add: lookup_spec_def entry_addr_def chain_map_def [abs_def])
  next
    fix e' b assume e: "e = Ptr e'" "dname e' = Ptr b" "dict_map d' = (dict_map d)(K \<mapsto> b)"
    have "chain_map (d' # sub) = (chain_map (d # sub))(K \<mapsto> (length sub, b))"
      by (intro ext) (simp add: chain_map_def e(3))
    then show ?thesis using e ci new by (simp add: lookup_spec_def entry_addr_def)
  qed
qed

text \<open>When the dictionary itself does not hold the name.\<close>

lemma dict_miss_ok:
  assumes inv: "chain_inv (d # sub)" and mem: "\<forall>i. address_space (mem i)"
    and nm: "names prefix' name K" "prefix' = NULL \<longrightarrow> len = length K" "name_args prefix' plen name len K"
    and hv: "hv = dict_hash (seed d) K OR MAX_HASH_SIZE"
    and no: "\<not> dict_rejects d K" "dict_map d K = None"
    and at: "dsize d \<noteq> 0 \<Longrightarrow> insertion_point dhash (dtable d) h j \<and>
      h = unat hv mod length (dtable d) \<and> entry = (h + j) mod length (dtable d)"
  shows "\<exists>r ds'. dict_miss mem d sub prefix' plen name len (length K) hv update entry = Some (r, ds') \<and>
    lookup_spec mem (d # sub) K update r ds'"
proof -
  let ?ds = "d # sub"
  define full where "full \<longleftrightarrow> unat (dnbElems d + 1) > dsize d div 8 * 7"
  define newSize where "newSize = (if dsize d = 0 then unat MIN_HASH_SIZE else if full then dsize d * 2 else 0)"
  have dinv: "dict_inv d" and sinv: "\<forall>d \<in> set sub. dict_inv d" using inv by (simp_all add: chain_inv_def)
  have fl: "full \<longleftrightarrow> unat (dnbElems d) + 1 > dsize d div 8 * 7" unfolding full_def unat_nb_Suc [OF dinv] ..
  have le: "dsize d \<le> 2147483648" "dsize d \<noteq> 0 \<longrightarrow> unat (dnbElems d) \<le> dsize d div 8 * 7" using dinv by (auto simp: dict_inv_def)
  have M: "dict_miss mem d sub prefix' plen name len (length K) hv update entry =
    (if dsize d \<noteq> 0 \<and> full \<and> dsize d \<ge> 2147483648 then Some (NULL, ?ds)
     else do {
       subEntry \<leftarrow> dict_sub_find sub prefix' name len (length K);
       case subEntry of
         Some e \<Rightarrow> Some (Ptr (length sub - 1, e), ?ds)
       | None \<Rightarrow>
           if \<not> update then Some (NULL, ?ds)
           else do {
             (e, d') \<leftarrow> dict_add mem d prefix' plen name len hv newSize entry;
             Some (case e of NULL \<Rightarrow> NULL | Ptr e \<Rightarrow> Ptr (length sub, e), d' # sub) } })"
    unfolding dict_miss_def Let_def full_def newSize_def by simp
  show ?thesis
  proof (cases "dsize d \<noteq> 0 \<and> full \<and> dsize d \<ge> 2147483648")
    case True
    then have "dict_full d" using le fl by (auto simp: dict_full_def)
    then show ?thesis unfolding M using True no lookup_spec_NULL [OF inv, of K update mem] by auto
  next
    case room: False
    obtain r where r: "dict_sub_find sub prefix' name len (length K) = Some r"
      "case sub of [] \<Rightarrow> r = None
       | s # _ \<Rightarrow> (case r of None \<Rightarrow> dict_map s K = None | Some e \<Rightarrow> \<exists>a. dname e = Ptr a \<and> dict_map s K = Some a)"
      using dict_sub_find_ok [OF sinv nm(1), of len] nm(2) by auto
    show ?thesis
    proof (cases r)
      case (Some e)
      then obtain s rest' a where s: "sub = s # rest'" "dname e = Ptr a" "dict_map s K = Some a"
        using r(2) by (cases sub) auto
      then have "chain_map ?ds K = Some (length sub - 1, a)" using no by (simp add: chain_map_def)
      then have "lookup_spec mem ?ds K update (Ptr (length sub - 1, e)) ?ds"
        using s inv no by (simp add: lookup_spec_def entry_addr_def)
      moreover have "dict_miss mem d sub prefix' plen name len (length K) hv update entry = Some (Ptr (length sub - 1, e), ?ds)"
        unfolding M using room r(1) Some by simp
      ultimately show ?thesis by blast
    next
      case None
      then have cn: "chain_map ?ds K = None" using no r(2) by (cases sub) (simp_all add: chain_map_def)
      show ?thesis
      proof (cases update)
        case False
        then show ?thesis unfolding M using room r(1) None lookup_spec_NULL [OF inv, of K update mem] cn by auto
      next
        case True
        have sz: "newSize = 0 \<and> dsize d \<noteq> 0 \<and> unat (dnbElems d) + 1 \<le> dsize d div 8 * 7 \<and>
          insertion_point dhash (dtable d) h j \<and> h = unat hv mod length (dtable d) \<and> entry = (h + j) mod length (dtable d)
          \<or> newSize = (if dsize d = 0 then 8 else dsize d * 2) \<and> dsize d < 2147483648 \<and>
            (dsize d = 0 \<or> unat (dnbElems d) + 1 > dsize d div 8 * 7)"
          using fl at room by (cases "dsize d = 0"; cases full) (auto simp: newSize_def)
        obtain e d' where a: "dict_add mem d prefix' plen name len hv newSize entry = Some (e, d')" "dict_inv d'"
          "e = NULL \<and> dict_map d' = dict_map d \<and> no_room mem d K \<or>
           (\<exists>e' a. e = Ptr e' \<and> dname e' = Ptr a \<and> dict_map d' = (dict_map d)(K \<mapsto> a))"
          using dict_add_ok [OF dinv mem nm(3) hv no(2) sz] by blast
        then have "dict_miss mem d sub prefix' plen name len (length K) hv update entry =
            Some (case e of NULL \<Rightarrow> NULL | Ptr e \<Rightarrow> Ptr (length sub, e), d' # sub)"
          unfolding M using room r(1) None True by auto
        then show ?thesis using lookup_spec_add [OF inv a(2) cn no(1) True a(3)] by blast
      qed
    qed
  qed
qed

lemma lookup_ok:
  assumes inv: "chain_inv (d # sub)" and mem: "\<forall>i. address_space (mem i)" and ok: "dict_name_ok prefix' name maybeLen"
    and K: "K = dict_name prefix' name maybeLen"
  shows "\<exists>r ds'. xmlDictLookupInternal mem (d # sub) prefix' (Ptr name) maybeLen update = Some (r, ds') \<and>
    lookup_spec mem (d # sub) K update r ds'"
proof -
  let ?ds = "d # sub"
  have dinv: "dict_inv d" using inv by (simp add: chain_inv_def)
  note key = dict_key_ok [OF ok K refl, of "seed d"]
  show ?thesis
  proof (cases "length K > INT_MAX_nat div 2")
    case True
    then have "xmlDictLookupInternal mem ?ds prefix' (Ptr name) maybeLen update = Some (NULL, ?ds)"
      using key by (simp add: xmlDictLookupInternal_def)
    then show ?thesis using lookup_spec_NULL [OF inv, of K update mem] True by (auto simp: dict_rejects_def)
  next
    case short: False
    let ?hv = "dict_hash (seed d) K OR MAX_HASH_SIZE"
    obtain plen len where k: "dict_key (seed d) prefix' name (if maybeLen < 0 then size_mod - 1 else nat maybeLen) =
        Some (Some (?hv, plen, len, length K))"
      and kl: "case prefix' of NULL \<Rightarrow> len = length K \<and> len \<le> length name \<and> take len name = K
        | Ptr p \<Rightarrow> plen \<le> length p \<and> len \<le> length name \<and> K = take plen p @ ch (CHR '':'') # take len name"
      using key short by auto
    have nm: "names prefix' name K" by (rule dict_name_names [OF ok K, of len]) (use kl in \<open>cases prefix'; simp\<close>)
    have nz: "0 \<notin> set K" using K dict_name_nz by simp
    have args: "name_args prefix' plen name len K" "prefix' = NULL \<longrightarrow> len = length K"
      using kl nz short by (cases prefix'; force simp: name_args_def)+
    note miss = dict_miss_ok [OF inv mem nm args(2,1) refl, where update = update]
    have L: "xmlDictLookupInternal mem ?ds prefix' (Ptr name) maybeLen update =
      (if limit d > 0 \<and> length K \<ge> limit d then Some (NULL, ?ds)
       else if dsize d = 0 then dict_miss mem d sub prefix' plen name len (length K) ?hv update 0
       else do {
         (entry, found) \<leftarrow> xmlDictFindEntry d prefix' name (length K) ?hv;
         if found then do { e \<leftarrow> rd (dtable d) entry; Some (Ptr (length sub, e), ?ds) }
         else dict_miss mem d sub prefix' plen name len (length K) ?hv update entry })"
      using k by (simp add: xmlDictLookupInternal_def)
    show ?thesis
    proof (cases "limit d > 0 \<and> length K \<ge> limit d")
      case True
      then show ?thesis unfolding L using lookup_spec_NULL [OF inv, of K update mem] by (auto simp: dict_rejects_def)
    next
      case False
      then have nr: "\<not> dict_rejects d K" using short by (simp add: dict_rejects_def)
      show ?thesis
      proof (cases "dsize d = 0")
        case True
        then have "dtable d = []" using dinv by (auto simp: dict_inv_def)
        then have "dict_map d K = None" by (simp add: dict_map_def)
        from miss [OF nr this, of 0 0 0] show ?thesis unfolding L using False True by auto
      next
        case nzd: False
        show ?thesis
        proof (cases rule: dict_find_cases [OF dinv nzd nm, case_names found absent])
          case (found i e)
          then obtain a where a: "dname e = Ptr a" "dict_map d K = Some a" by blast
          then have "chain_map ?ds K = Some (length sub, a)" by (simp add: chain_map_def)
          then show ?thesis unfolding L using False nzd found(1,2) a inv nr by (auto simp: lookup_spec_def entry_addr_def)
        next
          case (absent h j)
          from miss [OF nr absent(4), of h j "(h + j) mod length (dtable d)"] absent
          show ?thesis unfolding L using False nzd by auto
        qed
      qed
    qed
  qed
qed

section \<open>Refinement\<close>

datatype dict_op =
    DictLookup "nat \<Rightarrow> allocator" bytes int
  | DictQLookup "nat \<Rightarrow> allocator" bytes bytes
  | DictExists bytes int

definition dict_step :: "dict_op \<Rightarrow> xmlDict list \<Rightarrow> (chain_addr ptr \<times> xmlDict list) option" where
  "dict_step op ds =
     (case op of
        DictLookup mem name len \<Rightarrow> xmlDictLookup mem ds (Ptr name) len
      | DictQLookup mem prefix' name \<Rightarrow> xmlDictQLookup mem ds (Ptr prefix') (Ptr name)
      | DictExists name len \<Rightarrow> map_option (\<lambda>r. (r, ds)) (xmlDictExists (\<lambda>_ _. False) ds (Ptr name) len))"

text \<open>The name an operation is about.\<close>

fun op_name :: "dict_op \<Rightarrow> bytes" where
  "op_name (DictLookup mem name len) = dict_name NULL name len"
| "op_name (DictQLookup mem prefix' name) = dict_name (Ptr prefix') name (- 1)"
| "op_name (DictExists name len) = dict_name NULL name len"

fun op_adds :: "dict_op \<Rightarrow> bool" where
  "op_adds (DictExists name len) = False"
| "op_adds _ = True"

definition dict_spec ::
  "dict_op \<Rightarrow> (bytes \<Rightarrow> chain_addr option) \<Rightarrow> chain_addr ptr \<Rightarrow> (bytes \<Rightarrow> chain_addr option) \<Rightarrow> bool" where
  "dict_spec op m r m' \<longleftrightarrow>
     (case r of
        NULL \<Rightarrow> m' = m
      | Ptr a \<Rightarrow> m (op_name op) = Some a \<and> m' = m \<or>
                 op_adds op \<and> m (op_name op) = None \<and> m' = m(op_name op \<mapsto> a))"

fun dict_legal :: "dict_op \<Rightarrow> bool" where
  "dict_legal (DictLookup mem name len) \<longleftrightarrow> dict_name_ok NULL name len \<and> (\<forall>i. address_space (mem i))"
| "dict_legal (DictQLookup mem prefix' name) \<longleftrightarrow> dict_name_ok (Ptr prefix') name (- 1) \<and> (\<forall>i. address_space (mem i))"
| "dict_legal (DictExists name len) \<longleftrightarrow> dict_name_ok NULL name len"

lemma address_space_False [simp]: "address_space (\<lambda>_. False)"
  by (simp add: address_space_def)

lemma lookup_spec_map:
  assumes "lookup_spec mem ds K update r ds'"
  shows "chain_inv ds' \<and> (case entry_addr r of NULL \<Rightarrow> chain_map ds' = chain_map ds
    | Ptr a \<Rightarrow> chain_map ds K = Some a \<and> chain_map ds' = chain_map ds \<or>
        update \<and> chain_map ds K = None \<and> chain_map ds' = (chain_map ds)(K \<mapsto> a))"
  using assms unfolding lookup_spec_def by (cases "entry_addr r") auto

lemma lookup_spec_exists:
  assumes "lookup_spec mem ds K False r ds'"
  shows "case entry_addr r of NULL \<Rightarrow> dict_rejects (hd ds) K \<or> dict_full (hd ds) \<or> chain_map ds K = None
    | Ptr a \<Rightarrow> chain_map ds K = Some a"
  using assms unfolding lookup_spec_def by (cases "entry_addr r") auto

lemma dict_step_refines:
  assumes inv: "chain_inv ds" and op: "dict_legal op"
  shows "\<exists>r ds'. dict_step op ds = Some (r, ds') \<and> chain_inv ds' \<and> dict_spec op (chain_map ds) r (chain_map ds')"
proof -
  obtain d sub where ds: "ds = d # sub" using inv by (cases ds) (auto simp: chain_inv_def)
  show ?thesis
  proof (cases op)
    case (DictLookup mem name len)
    then obtain r ds' where "xmlDictLookupInternal mem ds NULL (Ptr name) len True = Some (r, ds')"
      "lookup_spec mem ds (op_name op) True r ds'"
      using lookup_ok [of d sub mem NULL name len "op_name op" True] inv op ds by auto
    then show ?thesis using lookup_spec_map DictLookup by (fastforce simp: dict_step_def xmlDictLookup_def dict_spec_def)
  next
    case (DictQLookup mem prefix' name)
    then obtain r ds' where "xmlDictLookupInternal mem ds (Ptr prefix') (Ptr name) (- 1) True = Some (r, ds')"
      "lookup_spec mem ds (op_name op) True r ds'"
      using lookup_ok [of d sub mem "Ptr prefix'" name "- 1" "op_name op" True] inv op ds by auto
    then show ?thesis using lookup_spec_map DictQLookup by (fastforce simp: dict_step_def xmlDictQLookup_def dict_spec_def)
  next
    case (DictExists name len)
    then obtain r ds' where "xmlDictLookupInternal (\<lambda>_ _. False) ds NULL (Ptr name) len False = Some (r, ds')"
      "lookup_spec (\<lambda>_ _. False) ds (op_name op) False r ds'"
      using lookup_ok [of d sub "\<lambda>_ _. False" NULL name len "op_name op" False] inv op ds by auto
    then show ?thesis using lookup_spec_exists [of "\<lambda>_ _. False" ds "op_name op" r ds'] DictExists inv
      by (auto simp: dict_step_def xmlDictExists_def dict_spec_def split: ptr.splits)
  qed
qed

interpretation dictionaries: implementation dict_step dict_spec chain_inv chain_map dict_legal
  by unfold_locales (rule dict_step_refines)

text \<open>Runs only add to the map.\<close>

lemma spec_ops_mono: "spec_ops dict_spec ops m rs m' \<Longrightarrow> m K = Some a \<Longrightarrow> m' K = Some a"
proof (induction ops arbitrary: m rs)
  case (Cons op ops)
  then obtain r rs' m1 where s: "dict_spec op m r m1" "spec_ops dict_spec ops m1 rs' m'" by auto
  have "m1 K = Some a" using s(1) Cons.prems(2) by (auto simp: dict_spec_def split: ptr.splits)
  then show ?case using Cons.IH [OF s(2)] by blast
qed simp

lemma step_addr:
  assumes "chain_inv ds" "dict_legal op" "dict_step op ds = Some (Ptr a, ds')"
  shows "chain_inv ds' \<and> chain_map ds' (op_name op) = Some a"
  using dict_step_refines [OF assms(1,2)] assms(3) by (auto simp: dict_spec_def)

text \<open>An empty prefix finds nothing: not even the entry that a qualified lookup with it has stored.\<close>

lemma empty_prefix_not_interned:
  assumes "entry_str pools e = Some (ch (CHR '':'') # strval name)"
  shows "dict_entry_matches pools (Ptr (0 # p)) name len hv e = Some False"
proof -
  obtain s where "dict_bytes pools (dname e) = Some s" "strval s = ch (CHR '':'') # strval name"
    using assms by (auto simp: entry_str_def)
  then show ?thesis
    by (cases s) (auto simp: dict_entry_matches_def xmlStrQEqual_def split: if_splits)
qed

section \<open>Properties\<close>

text \<open>
  C18. Interning.  Two lookups that succeed, with any sequence of operations on the dictionary in
  between, return the same address if and only if they are about the same string: strings from a
  dictionary can be compared by comparing pointers.  This holds across plain and qualified
  lookups, across growing tables and pools, and whether the string comes from the dictionary or
  from its subdictionary.  The operations are legal (\<open>dict_legal\<close>): plain names are terminated or as
  long as the given length, and a qualified lookup has a prefix that is not the empty string.  With
  an empty prefix the statement fails: \<open>xmlStrQEqual\<close> never matches one, so that every
  \<open>xmlDictQLookup (d, "", name)\<close> stores \<open>:name\<close> anew, see \<open>empty_prefix_not_interned\<close>.
\<close>

theorem dict_interning:
  assumes "chain_inv ds" "dict_legal op1" "dict_legal op2" "\<forall>op \<in> set ops. dict_legal op"
    and "dict_step op1 ds = Some (Ptr a1, ds1)" "run_ops dict_step ops ds1 = Some (rs, ds2)"
    and "dict_step op2 ds2 = Some (Ptr a2, ds3)"
  shows "a1 = a2 \<longleftrightarrow> op_name op1 = op_name op2"
proof -
  have 1: "chain_inv ds1" "chain_map ds1 (op_name op1) = Some a1" using step_addr [OF assms(1,2,5)] by simp_all
  have 2: "chain_inv ds2" "spec_ops dict_spec ops (chain_map ds1) rs (chain_map ds2)"
    using dictionaries.run_refines [OF 1(1) assms(4)] assms(6) by auto
  have m2: "chain_map ds2 (op_name op1) = Some a1" by (rule spec_ops_mono [OF 2(2) 1(2)])
  obtain r ds' where "dict_step op2 ds2 = Some (r, ds')" "dict_spec op2 (chain_map ds2) r (chain_map ds')"
    using dict_step_refines [OF 2(1) assms(3)] by blast
  then have "dict_spec op2 (chain_map ds2) (Ptr a2) (chain_map ds3)" using assms(7) by auto
  then have "chain_map ds3 (op_name op1) = Some a1"
    using m2 by (auto simp: dict_spec_def)
  moreover have "chain_inv ds3" "chain_map ds3 (op_name op2) = Some a2" using step_addr [OF 2(1) assms(3,7)] by simp_all
  ultimately show ?thesis using chain_map_inj [of ds3 "op_name op1" a1 "op_name op2"] by auto
qed

definition empty_dict :: "uint \<Rightarrow> xmlDict" where
  "empty_dict sd = \<lparr>ref_counter = 1, dtable = [], dsize = 0, dnbElems = 0, strings = [], seed = sd, limit = 0\<rparr>"

lemma empty_dict_inv [simp]: "dict_inv (empty_dict sd)" "dict_map (empty_dict sd) = Map.empty"
  by (simp_all add: empty_dict_def dict_inv_def pools_ok_def occ_def dict_map_def fun_eq_iff)


definition small_mem :: "nat \<Rightarrow> allocator" where
  "small_mem i n \<longleftrightarrow> n < 2 ^ 57"

lemma small_mem_space [simp]: "address_space (small_mem i)"
  by (simp add: small_mem_def address_space_def)

lemmas dict_eval = dict_step_def xmlDictLookup_def xmlDictLookupInternal_def empty_dict_def dict_key_def
  xmlDictHashName_def HASH_FINISH_def HASH_INIT_def HASH_UPDATE_def HASH_ROL_def HASH_ROR_def Let_def dict_miss_def
  dict_sub_find_def dict_add_def xmlDictGrow_def small_mem_def rh_grow_def rh_lookup_def dict_insert_at_def
  xmlDictAddString_def rd_def wr_def blank_dict_entry_def add_size_def copy_in_def found_pool_def pool_append_def
  new_pool_def rh_shift_right_def entry_addr_def xmlDictFindEntry_def dict_entry_matches_def dict_bytes_def

definition dict_ab :: xmlDict where
  "dict_ab = \<lparr>ref_counter = 1,
     dtable = (replicate 8 blank_dict_entry)[3 := \<lparr>dhash = 4244369739, dname = Ptr (0, 0)\<rparr>],
     dsize = 8, dnbElems = 1, strings = [\<lparr>pool_array = [97, 98, 0], pool_size = 1000, nbStrings = 1\<rparr>],
     seed = 1, limit = 0\<rparr>"

lemma rh_find_9:
  "rh_find hv match t msk 9 entry pos displ = rh_find hv match t msk (Suc 8) entry pos displ"
  by simp

lemma dict_ab_lookup:
  "dict_step (DictLookup small_mem [97, 98, 0] (- 1)) [empty_dict 1] = Some (Ptr (0, 0, 0), [dict_ab])"
  "dict_step (DictLookup small_mem [97, 98, 99] 2) [dict_ab] = Some (Ptr (0, 0, 0), [dict_ab])"
  by (simp_all add: dict_eval dict_ab_def rh_find_9 [unfolded rh_find.simps(2)])

lemma dict_ab_inv [simp]: "chain_inv [empty_dict 1]" "chain_inv [dict_ab]" "chain_map [dict_ab] [97, 98] = Some (0, 0, 0)"
proof -
  show 1: "chain_inv [empty_dict 1]" by (simp add: chain_inv_def)
  have "dict_legal (DictLookup small_mem [97, 98, 0] (- 1))" by (simp add: dict_name_ok_def)
  from step_addr [OF 1 this dict_ab_lookup(1)]
  show "chain_inv [dict_ab]" "chain_map [dict_ab] [97, 98] = Some (0, 0, 0)" by (simp_all add: dict_name_def)
qed

theorem dict_interning_witness:
  "dict_step (DictLookup small_mem [97, 98, 0] (- 1)) [empty_dict 1] = Some (Ptr (0, 0, 0), [dict_ab]) \<and>
   dict_step (DictLookup small_mem [97, 98, 99] 2) [dict_ab] = Some (Ptr (0, 0, 0), [dict_ab]) \<and>
   op_name (DictLookup small_mem [97, 98, 0] (- 1)) = op_name (DictLookup small_mem [97, 98, 99] 2)"
  using dict_interning [of "[empty_dict 1]" "DictLookup small_mem [97, 98, 0] (- 1)"
      "DictLookup small_mem [97, 98, 99] 2" "[]" "(0, 0, 0)" "[dict_ab]" "[]" "[dict_ab]" "(0, 0, 0)" "[dict_ab]"] dict_ab_lookup
  by (simp add: dict_name_ok_def)

text \<open>
  C24. \<open>xmlDictLookup\<close> on every branch: it never reads or writes outside the name, the table
  and the pools; it keeps the invariant; a result points to a zero-terminated copy of the string,
  the existing one if there is one; every string interned before keeps its address.  NULL leaves
  the strings as they were, and means one of these: the name is longer than allowed; the
  dictionary itself does not hold it and has reached its maximal size; or neither the dictionary nor
  its subdictionary holds it and it cannot be added (\<open>no_room\<close>): the table is full and the
  request for one of twice the size is refused, or no pool has room for it and the dictionary
  is over its limit or the request for a new pool is refused.
\<close>

theorem xmlDictLookup_correct:
  assumes "chain_inv ds" "dict_name_ok NULL name len" "\<forall>i. address_space (mem i)"
  shows "\<exists>r ds'. xmlDictLookup mem ds (Ptr name) len = Some (r, ds') \<and> chain_inv ds' \<and>
    (case r of
       NULL \<Rightarrow> chain_map ds' = chain_map ds \<and>
         (dict_rejects (hd ds) (dict_name NULL name len) \<or>
          dict_map (hd ds) (dict_name NULL name len) = None \<and> dict_full (hd ds) \<or>
          chain_map ds (dict_name NULL name len) = None \<and> no_room mem (hd ds) (dict_name NULL name len))
     | Ptr a \<Rightarrow> \<not> dict_rejects (hd ds) (dict_name NULL name len) \<and>
         (\<exists>s. chain_bytes ds' a = Some s \<and> cstring s \<and> strval s = dict_name NULL name len) \<and>
         (chain_map ds (dict_name NULL name len) = Some a \<and> ds' = ds \<or>
          chain_map ds (dict_name NULL name len) = None \<and>
          chain_map ds' = (chain_map ds)(dict_name NULL name len \<mapsto> a)))"
proof -
  obtain d sub where ds: "ds = d # sub" using assms(1) by (cases ds) (auto simp: chain_inv_def)
  obtain r ds' where r: "xmlDictLookupInternal mem ds NULL (Ptr name) len True = Some (r, ds')"
    "lookup_spec mem ds (dict_name NULL name len) True r ds'"
    using lookup_ok [of d sub mem NULL name len _ True] assms ds by auto
  have "\<exists>s. chain_bytes ds' a = Some s \<and> cstring s \<and> strval s = dict_name NULL name len" if "entry_addr r = Ptr a" for a
    using that r(2) chain_map_bytes [of ds' "dict_name NULL name len" a] by (auto simp: lookup_spec_def)
  then show ?thesis using r by (auto simp: xmlDictLookup_def lookup_spec_def split: ptr.splits)
qed

theorem xmlDictLookup_correct_witness:
  "(\<exists>a ds' s. xmlDictLookup small_mem [dict_ab] (Ptr [99, 0]) (- 1) = Some (Ptr a, ds') \<and>
      chain_bytes ds' a = Some s \<and> strval s = [99] \<and> chain_map ds' [97, 98] = Some (0, 0, 0)) \<and>
   (\<exists>ds'. xmlDictLookup (\<lambda>_ _. False) [empty_dict 1] (Ptr [99, 0]) (- 1) = Some (NULL, ds') \<and>
      chain_map ds' [99] = None)"
proof
  have nm: "dict_name NULL [99, 0] (- 1) = [99]" "dict_name_ok NULL [99, 0] (- 1)"
    by (simp_all add: dict_name_def dict_name_ok_def)
  have rj: "\<not> dict_rejects dict_ab [99]" "\<not> dict_full dict_ab" "\<not> no_room small_mem dict_ab [99]"
    by (simp_all add: dict_rejects_def dict_full_def no_room_def no_pool_def dict_ab_def small_mem_def)
  show "\<exists>a ds' s. xmlDictLookup small_mem [dict_ab] (Ptr [99, 0]) (- 1) = Some (Ptr a, ds') \<and>
      chain_bytes ds' a = Some s \<and> strval s = [99] \<and> chain_map ds' [97, 98] = Some (0, 0, 0)"
  proof -
    have "\<forall>i. address_space (small_mem i)" by simp
    note L = xmlDictLookup_correct [OF dict_ab_inv(2) nm(2) this, unfolded nm(1) list.sel(1)]
    from L obtain r ds' where r: "xmlDictLookup small_mem [dict_ab] (Ptr [99, 0]) (- 1) = Some (r, ds')"
      and "r \<noteq> NULL"
      and "\<And>a. r = Ptr a \<Longrightarrow> (\<exists>s. chain_bytes ds' a = Some s \<and> strval s = [99]) \<and>
        (ds' = [dict_ab] \<or> chain_map ds' = (chain_map [dict_ab])([99] \<mapsto> a))"
      using rj by (elim exE conjE) (rule that, assumption, auto)
    moreover obtain a where "r = Ptr a" using calculation(2) by (cases r) auto
    ultimately show ?thesis using dict_ab_inv(3) by fastforce
  qed
  have e: "chain_map [empty_dict 1] = Map.empty" by (simp add: chain_map_def fun_eq_iff)
  have "dsize (empty_dict 1) = 0" by (simp add: empty_dict_def)
  then have "xmlDictLookup (\<lambda>_ _. False) [empty_dict 1] (Ptr [99, 0]) (- 1) = Some (NULL, [empty_dict 1])"
    by (simp add: dict_eval)
  then show "\<exists>ds'. xmlDictLookup (\<lambda>_ _. False) [empty_dict 1] (Ptr [99, 0]) (- 1) = Some (NULL, ds') \<and>
      chain_map ds' [99] = None"
    using e by simp
qed

lemma dict_map_owned:
  assumes "dict_inv d" "dict_map d v = Some p" shows "pool_owns (strings d) p"
proof -
  obtain s where "dict_bytes (strings d) (Ptr p) = Some s" "cstring s" using dict_map_bytes [OF assms] by blast
  then have "fst p < length (strings d)" "drop (snd p) (pool_array (rev (strings d) ! fst p)) \<noteq> []"
    by (cases p; auto simp: dict_bytes_def split: if_splits)+
  then show ?thesis by (simp add: pool_owns_def)
qed

text \<open>
  \<open>xmlDictOwns\<close> accepts every interned string of the dictionary and of its
  subdictionary.  It also accepts the address just past the last string of a pool, which is no
  string of the dictionary.
\<close>

theorem xmlDictOwns_interned:
  assumes "chain_inv ds"
  shows "(\<forall>v a. chain_map ds v = Some a \<longrightarrow> xmlDictOwns ds (Ptr a) = 1) \<and>
    (\<forall>pool pools. strings (hd ds) = pool # pools \<longrightarrow>
       xmlDictOwns ds (Ptr (length (tl ds), length pools, length (pool_array pool))) = 1)"
proof (cases ds)
  case Nil
  then show ?thesis using assms by (simp add: chain_inv_def)
next
  case (Cons d sub)
  have "xmlDictOwns ds (Ptr a) = 1" if m: "chain_map ds v = Some a" for v a
  proof (cases "dict_map d v")
    case (Some p)
    then have "a = (length sub, p)" using m Cons by (simp add: chain_map_def)
    then show ?thesis using dict_map_owned [OF _ Some] assms Cons by (simp add: chain_inv_def)
  next
    case None
    then obtain s rest p where s: "sub = s # rest" "dict_map s v = Some p" "a = (length rest, p)"
      using m Cons by (cases sub) (auto simp: chain_map_def)
    then show ?thesis using dict_map_owned [OF _ s(2)] assms Cons by (simp add: chain_inv_def)
  qed
  then show ?thesis using Cons by (auto simp: pool_owns_def nth_append)
qed

theorem xmlDictOwns_interned_witness:
  "xmlDictOwns [dict_ab] (Ptr (0, 0, 0)) = 1 \<and> xmlDictOwns [dict_ab] (Ptr (0, 0, 3)) = 1"
proof
  note o = xmlDictOwns_interned [OF dict_ab_inv(2)]
  show "xmlDictOwns [dict_ab] (Ptr (0, 0, 0)) = 1" using o dict_ab_inv(3) by blast
  show "xmlDictOwns [dict_ab] (Ptr (0, 0, 3)) = 1"
    using o [THEN conjunct2, rule_format, of "\<lparr>pool_array = [97, 98, 0], pool_size = 1000, nbStrings = 1\<rparr>" "[]"]
    by (simp add: dict_ab_def numeral_3_eq_3 del: xmlDictOwns.simps)
qed

text \<open>
  C25. Reference counting: creating a dictionary on top of another and freeing it frees exactly the
  new one and gives back the other as it was; releasing an extra reference frees nothing.
\<close>

theorem dict_references:
  assumes "sint (ref_counter s) \<ge> 1" "mem sizeof_xmlDict"
  shows "xmlDictFree (xmlDictCreateSub mem lim rnd (s # rest)) = (1, s # rest) \<and>
    xmlDictFree (snd (xmlDictReference (s # rest))) = (0, s # rest) \<and>
    (ref_counter s = 1 \<longrightarrow> xmlDictFree (s # rest) = (Suc (fst (xmlDictFree rest)), snd (xmlDictFree rest)))"
  using assms by (auto simp: xmlDictCreateSub_def xmlDictCreate_def xmlDictReference_def Let_def split: prod.splits)

theorem dict_references_witness:
  "xmlDictFree (xmlDictCreateSub (\<lambda>_. True) 0 5 [dict_ab]) = (1, [dict_ab])"
  using dict_references [of dict_ab "\<lambda>_. True" 0 5 "[]"] by (simp add: dict_ab_def)

end
