(* ===== verification/Encoding.thy ===== *)
theory Encoding
  imports Utf8
begin

text \<open>
  The built-in character converters of \<open>encoding.c\<close>: ASCII, ISO Latin 1, UTF-8, UTF-16 in both
  byte orders and the table-driven 8-bit encodings.

  Every converter is a loop over the input that stops in one of three ways: \<open>goto done\<close> with an
  error code, \<open>break\<close> because a character is incomplete, or the end of the input.  The loop
  bodies are definitions of their own; \<open>conv_loop\<close> runs a body.  A body sees the bytes from
  \<open>in\<close> to \<open>inend\<close> and the number of bytes from \<open>out\<close> to \<open>outend\<close>; writing more than
  that, or reading beyond \<open>inend\<close>, is None.
\<close>

section \<open>The converters\<close>

abbreviation XML_ENC_ERR_SUCCESS :: int where "XML_ENC_ERR_SUCCESS \<equiv> 0"
abbreviation XML_ENC_ERR_INTERNAL :: int where "XML_ENC_ERR_INTERNAL \<equiv> - 1"
abbreviation XML_ENC_ERR_INPUT :: int where "XML_ENC_ERR_INPUT \<equiv> - 2"
abbreviation XML_ENC_ERR_SPACE :: int where "XML_ENC_ERR_SPACE \<equiv> - 3"

text \<open>\<open>ConvNext n bs\<close>: the bytes \<open>bs\<close> are written and \<open>in\<close> advances by \<open>n\<close>.\<close>

datatype conv_step = ConvStop int | ConvBreak | ConvNext nat bytes

type_synonym conv_body = "bytes \<Rightarrow> nat \<Rightarrow> conv_step option"

fun conv_loop :: "conv_body \<Rightarrow> nat \<Rightarrow> bytes \<Rightarrow> bytes \<Rightarrow> nat \<Rightarrow> (int \<times> bytes \<times> bytes) option" where
  "conv_loop body fuel [] out sp = Some (int (length out), out, [])"
| "conv_loop body 0 inp out sp = None"
| "conv_loop body (Suc fuel) inp out sp = do {
     r \<leftarrow> body inp sp;
     case r of
       ConvStop ret \<Rightarrow> Some (ret, out, inp)
     | ConvBreak \<Rightarrow> Some (int (length out), out, inp)
     | ConvNext n bs \<Rightarrow>
         if length bs \<le> sp \<and> n \<le> length inp
         then conv_loop body fuel (drop n inp) (out @ bs) (sp - length bs) else None }"

text \<open>
  A call with an input block of \<open>n\<close> bytes and \<open>lim\<close> bytes of output: the return value, the
  output buffer, \<open>*outlen\<close> and \<open>*inlen\<close> afterwards.
\<close>

definition run_conv :: "conv_body \<Rightarrow> bytes \<Rightarrow> nat \<Rightarrow> bytes \<Rightarrow> nat \<Rightarrow> (int \<times> bytes \<times> nat \<times> nat) option" where
  "run_conv body out lim inp n = do {
     block \<leftarrow> copy_in n inp;
     (ret, bs, rest) \<leftarrow> conv_loop body n block [] lim;
     out' \<leftarrow> copy_out out 0 bs;
     Some (ret, out', length bs, n - length rest) }"

fun ascii_loop :: "bytes \<Rightarrow> bytes \<Rightarrow> bytes + bytes" where
  "ascii_loop [] out = Inr out"
| "ascii_loop (c # inp) out = (if c \<ge> 0x80 then Inl out else ascii_loop inp (out @ [c]))"

definition asciiToAscii ::
  "bytes \<Rightarrow> nat \<Rightarrow> bytes ptr \<Rightarrow> nat \<Rightarrow> (int \<times> bytes \<times> nat \<times> nat) option" where
  "asciiToAscii out outlen inp inlen =
     (case inp of
        NULL \<Rightarrow> Some (XML_ENC_ERR_SUCCESS, out, 0, 0)
      | Ptr i \<Rightarrow> do {
          let (n, ret) = (if outlen < inlen then (outlen, XML_ENC_ERR_SPACE) else (inlen, int inlen));
          block \<leftarrow> copy_in n i;
          case ascii_loop block [] of
            Inl bs \<Rightarrow> do { out' \<leftarrow> copy_out out 0 bs; Some (XML_ENC_ERR_INPUT, out', length bs, length bs) }
          | Inr bs \<Rightarrow> do { out' \<leftarrow> copy_out out 0 bs; Some (ret, out', n, n) } })"

definition latin1_body :: conv_body where
  "latin1_body inp sp = do {
     b \<leftarrow> rd inp 0;
     let c = (ucast b :: uint);
     if c < 0x80 then Some (if sp < 1 then ConvStop XML_ENC_ERR_SPACE else ConvNext 1 [ucast c])
     else Some (if sp < 2 then ConvStop XML_ENC_ERR_SPACE
                else ConvNext 1 [ucast (drop_bit 6 c OR 0xC0), ucast (c AND 0x3F OR 0x80)]) }"

definition latin1ToUTF8 ::
  "bytes ptr \<Rightarrow> nat \<Rightarrow> bytes ptr \<Rightarrow> nat \<Rightarrow> (int \<times> bytes ptr \<times> nat \<times> nat) option" where
  "latin1ToUTF8 out outlen inp inlen =
     (case (out, inp) of
        (Ptr ob, Ptr ib) \<Rightarrow> do {
          (ret, ob', m, n) \<leftarrow> run_conv latin1_body ob outlen ib inlen;
          Some (ret, Ptr ob', m, n) }
      | _ \<Rightarrow> Some (XML_ENC_ERR_INTERNAL, out, outlen, inlen))"

definition UTF8ToUTF8 ::
  "bytes \<Rightarrow> nat \<Rightarrow> bytes ptr \<Rightarrow> nat \<Rightarrow> (int \<times> bytes \<times> nat \<times> nat) option" where
  "UTF8ToUTF8 out outlen inp inlen =
     (case inp of
        NULL \<Rightarrow> Some (XML_ENC_ERR_SUCCESS, out, 0, 0)
      | Ptr ib \<Rightarrow> do {
          let (len, ret) = (if outlen < inlen then (outlen, XML_ENC_ERR_SPACE) else (inlen, int inlen));
          bs \<leftarrow> copy_in len ib;
          out' \<leftarrow> copy_out out 0 bs;
          Some (ret, out', len, len) })"

definition to_latin1_body :: conv_body where
  "to_latin1_body inp sp =
     (if sp < 1 then Some (ConvStop XML_ENC_ERR_SPACE)
      else do {
        b \<leftarrow> rd inp 0;
        let c = (ucast b :: uint);
        if c < 0x80 then Some (ConvNext 1 [ucast c])
        else if c \<ge> 0xC2 \<and> c \<le> 0xC3 then
          (if length inp < 2 then Some ConvBreak
           else do {
             b1 \<leftarrow> rd inp 1;
             Some (ConvNext 2 [ucast (push_bit 6 c OR (ucast b1 AND 0x3F))]) })
        else Some (ConvStop XML_ENC_ERR_INPUT) })"

definition UTF8ToLatin1 ::
  "bytes ptr \<Rightarrow> nat \<Rightarrow> bytes ptr \<Rightarrow> nat \<Rightarrow> (int \<times> bytes ptr \<times> nat \<times> nat) option" where
  "UTF8ToLatin1 out outlen inp inlen =
     (case out of
        NULL \<Rightarrow> Some (XML_ENC_ERR_INTERNAL, out, outlen, inlen)
      | Ptr ob \<Rightarrow>
          (case inp of
             NULL \<Rightarrow> Some (XML_ENC_ERR_SUCCESS, out, 0, 0)
           | Ptr ib \<Rightarrow> do {
               (ret, ob', m, n) \<leftarrow> run_conv to_latin1_body ob outlen ib inlen;
               Some (ret, Ptr ob', m, n) }))"

definition xmlIsolat1ToUTF8 where
  "xmlIsolat1ToUTF8 = latin1ToUTF8"

definition xmlUTF8ToIsolat1 where
  "xmlUTF8ToIsolat1 out outlen inp inlen =
     (if out = NULL \<or> inp = NULL then Some (XML_ENC_ERR_INTERNAL, out, outlen, inlen)
      else UTF8ToLatin1 out outlen inp inlen)"

subsection \<open>UTF-16\<close>

text \<open>The two byte orders differ in how a 16-bit unit is read and written, and in nothing else.\<close>

definition le16 :: "byte \<Rightarrow> byte \<Rightarrow> uint" where
  "le16 b0 b1 = ucast b0 OR push_bit 8 (ucast b1)"

definition be16 :: "byte \<Rightarrow> byte \<Rightarrow> uint" where
  "be16 b0 b1 = push_bit 8 (ucast b0) OR ucast b1"

definition put_le16 :: "uint \<Rightarrow> bytes" where
  "put_le16 c = [ucast (c AND 0xFF), ucast (drop_bit 8 c)]"

definition put_be16 :: "uint \<Rightarrow> bytes" where
  "put_be16 c = [ucast (drop_bit 8 c), ucast (c AND 0xFF)]"

definition utf16_body :: "(byte \<Rightarrow> byte \<Rightarrow> uint) \<Rightarrow> conv_body" where
  "utf16_body get16 inp sp = do {
     b0 \<leftarrow> rd inp 0;
     b1 \<leftarrow> rd inp 1;
     let c = get16 b0 b1;
     if c < 0x80 then
       Some (if sp < 1 then ConvStop XML_ENC_ERR_SPACE else ConvNext 2 [ucast c])
     else if c < 0x800 then
       Some (if sp < 2 then ConvStop XML_ENC_ERR_SPACE
             else ConvNext 2 [ucast (drop_bit 6 c OR 0xC0), ucast (c AND 0x3F OR 0x80)])
     else if c AND 0xF800 \<noteq> 0xD800 then
       Some (if sp < 3 then ConvStop XML_ENC_ERR_SPACE
             else ConvNext 2 [ucast (drop_bit 12 c OR 0xE0), ucast (drop_bit 6 c AND 0x3F OR 0x80),
                              ucast (c AND 0x3F OR 0x80)])
     else if c AND 0xFC00 \<noteq> 0xD800 then Some (ConvStop XML_ENC_ERR_INPUT)
     else if length inp < 4 then Some ConvBreak
     else do {
       b2 \<leftarrow> rd inp 2;
       b3 \<leftarrow> rd inp 3;
       let d = get16 b2 b3;
       if d AND 0xFC00 \<noteq> 0xDC00 then Some (ConvStop XML_ENC_ERR_INPUT)
       else if sp < 4 then Some (ConvStop XML_ENC_ERR_SPACE)
       else
         let c = push_bit 10 c + d - (push_bit 10 0xD800 + 0xDC00 - 0x10000)
         in Some (ConvNext 4 [ucast (drop_bit 18 c OR 0xF0), ucast (drop_bit 12 c AND 0x3F OR 0x80),
                              ucast (drop_bit 6 c AND 0x3F OR 0x80), ucast (c AND 0x3F OR 0x80)]) } }"

definition UTF16LEToUTF8 :: "bytes \<Rightarrow> nat \<Rightarrow> bytes \<Rightarrow> nat \<Rightarrow> (int \<times> bytes \<times> nat \<times> nat) option" where
  "UTF16LEToUTF8 out outlen inp inlen = run_conv (utf16_body le16) out outlen inp (inlen - inlen mod 2)"

definition UTF16BEToUTF8 :: "bytes \<Rightarrow> nat \<Rightarrow> bytes \<Rightarrow> nat \<Rightarrow> (int \<times> bytes \<times> nat \<times> nat) option" where
  "UTF16BEToUTF8 out outlen inp inlen = run_conv (utf16_body be16) out outlen inp (inlen - inlen mod 2)"

text \<open>\<open>for (i = 1; i < len; i++) \<dots>\<close>: None is an invalid continuation byte.\<close>

fun cont_loop :: "uint \<Rightarrow> bytes \<Rightarrow> uint option" where
  "cont_loop c [] = Some c"
| "cont_loop c (b # bs) =
     (if b AND 0xC0 \<noteq> 0x80 then None else cont_loop (push_bit 6 c OR (ucast b AND 0x3F)) bs)"

text \<open>The lead byte: \<open>(c, len, min)\<close>, or None for an invalid one.\<close>

definition lead_byte :: "uint \<Rightarrow> (uint \<times> nat \<times> uint) option" where
  "lead_byte c =
     (if c < 0xE0 then (if c < 0xC2 then None else Some (c AND 0x1F, 2, 0x80))
      else if c < 0xF0 then Some (c AND 0x0F, 3, 0x800)
      else Some (c AND 0x0F, 4, 0x10000))"

definition to_utf16_body :: "(uint \<Rightarrow> bytes) \<Rightarrow> conv_body" where
  "to_utf16_body put16 inp sp = do {
     b \<leftarrow> rd inp 0;
     let c = (ucast b :: uint);
     if c < 0x80 then Some (if sp < 1 then ConvStop XML_ENC_ERR_SPACE else ConvNext 1 (put16 c))
     else
       (case lead_byte c of
          None \<Rightarrow> Some (ConvStop XML_ENC_ERR_INPUT)
        | Some (c, len, min') \<Rightarrow>
            if length inp < len then Some ConvBreak
            else do {
              bs \<leftarrow> copy_in len inp;
              case cont_loop c (drop 1 bs) of
                None \<Rightarrow> Some (ConvStop XML_ENC_ERR_INPUT)
              | Some c \<Rightarrow>
                  if c < min' \<or> (c \<ge> 0xD800 \<and> c \<le> 0xDFFF) \<or> c > 0x10FFFF then
                    Some (ConvStop XML_ENC_ERR_INPUT)
                  else if c < 0x10000 then
                    Some (if sp < 1 then ConvStop XML_ENC_ERR_SPACE else ConvNext len (put16 c))
                  else if sp < 4 then Some (ConvStop XML_ENC_ERR_SPACE)
                  else
                    let c = c - 0x10000;
                        d = c AND 0x03FF OR 0xDC00;
                        c = drop_bit 10 c OR 0xD800
                    in Some (ConvNext len (put16 c @ put16 d)) }) }"

definition UTF8ToUTF16LE ::
  "bytes ptr \<Rightarrow> nat \<Rightarrow> bytes ptr \<Rightarrow> nat \<Rightarrow> (int \<times> bytes ptr \<times> nat \<times> nat) option" where
  "UTF8ToUTF16LE out outlen inp inlen =
     (case out of
        NULL \<Rightarrow> Some (XML_ENC_ERR_INTERNAL, out, outlen, inlen)
      | Ptr ob \<Rightarrow>
          (case inp of
             NULL \<Rightarrow> Some (0, out, 0, 0)
           | Ptr ib \<Rightarrow> do {
               (ret, ob', m, n) \<leftarrow> run_conv (to_utf16_body put_le16) ob (outlen - outlen mod 2) ib inlen;
               Some (ret, Ptr ob', m, n) }))"

definition UTF8ToUTF16BE ::
  "bytes ptr \<Rightarrow> nat \<Rightarrow> bytes ptr \<Rightarrow> nat \<Rightarrow> (int \<times> bytes ptr \<times> nat \<times> nat) option" where
  "UTF8ToUTF16BE out outlen inp inlen =
     (case out of
        NULL \<Rightarrow> Some (- 1, out, outlen, inlen)
      | Ptr ob \<Rightarrow>
          (case inp of
             NULL \<Rightarrow> Some (0, out, 0, 0)
           | Ptr ib \<Rightarrow> do {
               (ret, ob', m, n) \<leftarrow> run_conv (to_utf16_body put_be16) ob (outlen - outlen mod 2) ib inlen;
               Some (ret, Ptr ob', m, n) }))"

definition UTF8ToUTF16 ::
  "bytes ptr \<Rightarrow> nat \<Rightarrow> bytes ptr \<Rightarrow> nat \<Rightarrow> (int \<times> bytes ptr \<times> nat \<times> nat) option" where
  "UTF8ToUTF16 out outlen inp inlen =
     (if inp = NULL then
        (if outlen \<ge> 2 then
           (case out of
              NULL \<Rightarrow> None
            | Ptr ob \<Rightarrow> do { ob' \<leftarrow> copy_out ob 0 [0xFF, 0xFE]; Some (2, Ptr ob', 2, 0) })
         else Some (0, out, 0, 0))
      else UTF8ToUTF16LE out outlen inp inlen)"

subsection \<open>Table-driven encodings\<close>

text \<open>Values of the 8-bit table are indices into it; an access outside the table is None.\<close>

definition to_eight_bit_body :: "byte list \<Rightarrow> conv_body" where
  "to_eight_bit_body xlattable inp sp = do {
     b \<leftarrow> rd inp 0;
     let d = (ucast b :: uint);
     if d < 0x80 then Some (if sp < 1 then ConvStop XML_ENC_ERR_SPACE else ConvNext 1 [ucast d])
     else if d < 0xE0 then
       (if length inp < 2 then Some ConvBreak
        else do {
          b1 \<leftarrow> rd inp 1;
          let c = unat b1 mod 64;
          x \<leftarrow> rd xlattable (unat (d AND 0x1F));
          y \<leftarrow> rd xlattable (48 + c + unat x * 64);
          if y = 0 then Some (ConvStop XML_ENC_ERR_INPUT)
          else Some (if sp < 1 then ConvStop XML_ENC_ERR_SPACE else ConvNext 2 [y]) })
     else if d < 0xF0 then
       (if length inp < 3 then Some ConvBreak
        else do {
          b1 \<leftarrow> rd inp 1;
          b2 \<leftarrow> rd inp 2;
          let c1 = unat b1 mod 64;
          let c2 = unat b2 mod 64;
          x \<leftarrow> rd xlattable (32 + unat (d AND 0x0F));
          y \<leftarrow> rd xlattable (48 + c1 + unat x * 64);
          z \<leftarrow> rd xlattable (48 + c2 + unat y * 64);
          if z = 0 then Some (ConvStop XML_ENC_ERR_INPUT)
          else Some (if sp < 1 then ConvStop XML_ENC_ERR_SPACE else ConvNext 3 [z]) })
     else Some (ConvStop XML_ENC_ERR_INPUT) }"

definition Utf8ToEightBit ::
  "byte list \<Rightarrow> bytes \<Rightarrow> nat \<Rightarrow> bytes ptr \<Rightarrow> nat \<Rightarrow> (int \<times> bytes \<times> nat \<times> nat) option" where
  "Utf8ToEightBit xlattable out outlen inp inlen =
     (case inp of
        NULL \<Rightarrow> Some (XML_ENC_ERR_SUCCESS, out, 0, 0)
      | Ptr ib \<Rightarrow> run_conv (to_eight_bit_body xlattable) out outlen ib inlen)"

definition eight_bit_body :: "16 word list \<Rightarrow> conv_body" where
  "eight_bit_body unicodetable inp sp = do {
     b \<leftarrow> rd inp 0;
     let c = (ucast b :: uint);
     if c < 0x80 then Some (if sp < 1 then ConvStop XML_ENC_ERR_SPACE else ConvNext 1 [ucast c])
     else do {
       u \<leftarrow> rd unicodetable (unat (c - 0x80));
       let c = (ucast u :: uint);
       if c = 0 then Some (ConvStop XML_ENC_ERR_INPUT)
       else if c < 0x800 then
         Some (if sp < 2 then ConvStop XML_ENC_ERR_SPACE
               else ConvNext 1 [ucast (drop_bit 6 c AND 0x1F OR 0xC0), ucast (c AND 0x3F OR 0x80)])
       else
         Some (if sp < 3 then ConvStop XML_ENC_ERR_SPACE
               else ConvNext 1 [ucast (drop_bit 12 c AND 0x0F OR 0xE0),
                                ucast (drop_bit 6 c AND 0x3F OR 0x80), ucast (c AND 0x3F OR 0x80)]) } }"

definition EightBitToUtf8 ::
  "16 word list \<Rightarrow> bytes \<Rightarrow> nat \<Rightarrow> bytes \<Rightarrow> nat \<Rightarrow> (int \<times> bytes \<times> nat \<times> nat) option" where
  "EightBitToUtf8 unicodetable out outlen inp inlen = run_conv (eight_bit_body unicodetable) out outlen inp inlen"

section \<open>Transcoders\<close>

text \<open>
  The contract of a loop body: on the encoding \<open>src c\<close> of a character it writes \<open>dst c\<close>,
  or reports that there is no room.  \<open>iunit\<close> and \<open>ounit\<close> are the sizes of the code units.
\<close>

fun fits :: "('c \<Rightarrow> bytes) \<Rightarrow> nat \<Rightarrow> 'c list \<Rightarrow> nat" where
  "fits dst sp [] = 0"
| "fits dst sp (c # cs) = (if length (dst c) \<le> sp then Suc (fits dst (sp - length (dst c)) cs) else 0)"

definition text_of :: "('c \<Rightarrow> bytes) \<Rightarrow> 'c list \<Rightarrow> bytes" where
  "text_of f cs = concat (map f cs)"

lemma text_of_simps [simp]: "text_of f [] = []" "text_of f (c # cs) = f c @ text_of f cs"
  "text_of f (cs @ cs') = text_of f cs @ text_of f cs'"
  by (simp_all add: text_of_def)

locale transcoder =
  fixes body :: conv_body and legal :: "'c \<Rightarrow> bool" and src dst :: "'c \<Rightarrow> bytes" and ounit :: nat
  assumes src_nonempty: "legal c \<Longrightarrow> src c \<noteq> []"
    and dst_units: "legal c \<Longrightarrow> ounit dvd length (dst c)"
    and accept: "legal c \<Longrightarrow> ounit dvd sp \<Longrightarrow> body (src c @ rest) sp =
      Some (if length (dst c) \<le> sp then ConvNext (length (src c)) (dst c) else ConvStop XML_ENC_ERR_SPACE)"
begin

lemma conv_loop_char:
  assumes "legal c" "ounit dvd sp" "fuel \<noteq> 0"
  shows "conv_loop body fuel (src c @ rest) out sp =
    (if length (dst c) \<le> sp then conv_loop body (fuel - 1) rest (out @ dst c) (sp - length (dst c))
     else Some (XML_ENC_ERR_SPACE, out, src c @ rest))"
proof -
  obtain f where f: "fuel = Suc f" using assms(3) by (cases fuel) auto
  obtain x xs where x: "src c @ rest = x # xs" using src_nonempty [OF assms(1)] by (cases "src c") auto
  have "conv_loop body fuel (src c @ rest) out sp = do {
     r \<leftarrow> body (src c @ rest) sp;
     case r of
       ConvStop ret \<Rightarrow> Some (ret, out, src c @ rest)
     | ConvBreak \<Rightarrow> Some (int (length out), out, src c @ rest)
     | ConvNext n bs \<Rightarrow>
         if length bs \<le> sp \<and> n \<le> length (src c @ rest)
         then conv_loop body f (drop n (src c @ rest)) (out @ bs) (sp - length bs) else None }"
    unfolding f x by (rule conv_loop.simps(3))
  then show ?thesis using accept [OF assms(1,2), of rest] f by simp
qed

lemma conv_text:
  assumes "\<forall>c \<in> set cs. legal c" "ounit dvd sp" "length (text_of src cs) \<le> fuel"
  shows "conv_loop body fuel (text_of src cs) out sp =
    Some (if fits dst sp cs = length cs then int (length (out @ text_of dst cs)) else XML_ENC_ERR_SPACE,
      out @ text_of dst (take (fits dst sp cs) cs), text_of src (drop (fits dst sp cs) cs))"
  using assms
proof (induction cs arbitrary: fuel out sp)
  case (Cons c cs)
  have c: "legal c" using Cons.prems(1) by simp
  have n: "0 < length (src c)" using src_nonempty [OF c] by simp
  have f: "fuel \<noteq> 0" and "length (text_of src cs) \<le> fuel - 1" using n Cons.prems(3) unfolding text_of_simps length_append by linarith+
  moreover have "ounit dvd sp - length (dst c)" using dst_units [OF c] Cons.prems(2) by (rule dvd_diff_nat [rotated])
  ultimately show ?case
    using conv_loop_char [OF c Cons.prems(2) f, of "text_of src cs" out] Cons.IH [of "sp - length (dst c)" "fuel - 1" "out @ dst c"] Cons.prems(1)
    by simp
qed simp

end

text \<open>
  The stricter contract: input that does not start with a character is refused with
  XML\_ENC\_ERR\_INPUT, unless it is \<open>short\<close>, the beginning of a character that the block cuts off:
  then the loop breaks off without an error.
\<close>

locale strict_transcoder = transcoder +
  fixes iunit :: nat and short :: "bytes \<Rightarrow> bool"
  assumes src_units: "legal c \<Longrightarrow> iunit dvd length (src c)"
    and refuse: "inp \<noteq> [] \<Longrightarrow> iunit dvd length inp \<Longrightarrow> ounit dvd sp \<Longrightarrow> (\<And>c rest. legal c \<Longrightarrow> inp \<noteq> src c @ rest) \<Longrightarrow>
      body inp sp = Some (if short inp then ConvBreak else ConvStop XML_ENC_ERR_INPUT)"
begin

text \<open>
  Why a run over \<open>rest\<close> with \<open>sp\<close> bytes of room, \<open>m\<close> bytes written, stops with \<open>ret\<close>.
\<close>

definition stopped :: "bytes \<Rightarrow> nat \<Rightarrow> nat \<Rightarrow> int \<Rightarrow> bool" where
  "stopped rest sp m ret \<longleftrightarrow>
     (if rest = [] then ret = int m
      else if \<exists>c r. legal c \<and> rest = src c @ r
      then ret = XML_ENC_ERR_SPACE \<and> (\<exists>c r. legal c \<and> rest = src c @ r \<and> sp < length (dst c))
      else ret = (if short rest then int m else XML_ENC_ERR_INPUT))"

lemma conv_any:
  assumes "iunit dvd length inp" "ounit dvd sp" "length inp \<le> fuel"
  shows "\<exists>ret cs rest. conv_loop body fuel inp out sp = Some (ret, out @ text_of dst cs, rest) \<and>
    inp = text_of src cs @ rest \<and> (\<forall>c \<in> set cs. legal c) \<and> length (text_of dst cs) \<le> sp \<and>
    stopped rest (sp - length (text_of dst cs)) (length (out @ text_of dst cs)) ret"
  using assms
proof (induction fuel arbitrary: inp out sp)
  case 0
  then show ?case by (intro exI [of _ "int (length out)"] exI [of _ "[]"]) (auto simp: stopped_def)
next
  case (Suc fuel)
  consider "inp = []" | c r where "legal c" "inp = src c @ r" "length (dst c) \<le> sp"
    | c r where "legal c" "inp = src c @ r" "\<not> length (dst c) \<le> sp" "inp \<noteq> []"
    | "inp \<noteq> []" "\<nexists>c r. legal c \<and> inp = src c @ r"
    by blast
  then show ?case
  proof cases
    case 1
    then show ?thesis by (intro exI [of _ "int (length out)"] exI [of _ "[]"]) (auto simp: stopped_def)
  next
    case (2 c r)
    have "iunit dvd length r" using src_units [OF 2(1)] Suc.prems(1) 2(2) by (simp add: dvd_add_right_iff)
    moreover have "ounit dvd sp - length (dst c)" using dst_units [OF 2(1)] Suc.prems(2) by (rule dvd_diff_nat [rotated])
    moreover have "length r \<le> fuel" using src_nonempty [OF 2(1)] Suc.prems(3) 2(2) by (cases "src c") auto
    ultimately obtain ret cs rest where r: "conv_loop body fuel r (out @ dst c) (sp - length (dst c)) =
        Some (ret, (out @ dst c) @ text_of dst cs, rest)" "r = text_of src cs @ rest" "\<forall>c \<in> set cs. legal c"
      "length (text_of dst cs) \<le> sp - length (dst c)"
      "stopped rest (sp - length (dst c) - length (text_of dst cs)) (length ((out @ dst c) @ text_of dst cs)) ret"
      using Suc.IH [of r "sp - length (dst c)" "out @ dst c"] by blast
    then show ?thesis using 2 conv_loop_char [OF 2(1) Suc.prems(2), of "Suc fuel" r out]
      by (intro exI [of _ ret] exI [of _ "c # cs"] exI [of _ rest]) (auto simp: add_ac)
  next
    case (3 c r)
    then have "stopped inp (sp - length (text_of dst [])) (length (out @ text_of dst [])) XML_ENC_ERR_SPACE"
      by (auto simp: stopped_def not_le)
    then show ?thesis using 3 conv_loop_char [OF 3(1) Suc.prems(2), of "Suc fuel" r out]
      by (intro exI [of _ XML_ENC_ERR_SPACE] exI [of _ "[]"] exI [of _ inp]) auto
  next
    case 4
    let ?ret = "if short inp then int (length out) else XML_ENC_ERR_INPUT"
    have "body inp sp = Some (if short inp then ConvBreak else ConvStop XML_ENC_ERR_INPUT)"
      using refuse [OF 4(1) Suc.prems(1,2)] 4(2) by blast
    moreover obtain x xs where "inp = x # xs" using 4(1) by (cases inp) auto
    ultimately have "conv_loop body (Suc fuel) inp out sp = Some (?ret, out, inp)" by auto
    moreover have "stopped inp sp (length out) ?ret" using 4 by (auto simp: stopped_def)
    ultimately show ?thesis by (intro exI [of _ ?ret] exI [of _ "[]"] exI [of _ inp]) simp
  qed
qed

end

end
