(* ===== verification/Transcode.thy ===== *)
theory Transcode
  imports Encoding
begin

text \<open>
  The converters of \<open>encoding.c\<close> against the definitions of the encodings: UTF-16 as code units
  (\<open>utf16_units\<close>) written in either byte order, UTF-8 as in \<open>Utf8\<close>, and 8-bit encodings
  given by tables.  The locale \<open>byte_order\<close> states what the two byte orders share; its
  sublocales are the decoder and the encoder as strict transcoders.
\<close>

section \<open>UTF-16\<close>

text \<open>
  The code units of a scalar value, serialised by \<open>ser\<close>.  A block ends in a cut-off character
  when what is left is the beginning of one: for UTF-16 that is a single high surrogate.  For UTF-8
  the encoder of the library looks at the lead byte only: a lead byte that announces more bytes than
  are left, whatever these are.
\<close>

definition utf16_units :: "nat \<Rightarrow> nat list" where
  "utf16_units c =
     (if c < 0x10000 then [c]
      else [0xD800 + (c - 0x10000) div 1024, 0xDC00 + (c - 0x10000) mod 1024])"

definition utf16_enc :: "(nat \<Rightarrow> bytes) \<Rightarrow> nat \<Rightarrow> bytes" where
  "utf16_enc ser c = concat (map ser (utf16_units c))"

definition utf16_cut :: "(nat \<Rightarrow> bytes) \<Rightarrow> bytes \<Rightarrow> bool" where
  "utf16_cut ser rest \<longleftrightarrow> (\<exists>c more. scalar c \<and> more \<noteq> [] \<and> utf16_enc ser c = rest @ more)"

fun utf8_cut :: "bytes \<Rightarrow> bool" where
  "utf8_cut [] = False"
| "utf8_cut (b # bs) = (194 \<le> unat b \<and>
     length (b # bs) < (if unat b < 224 then 2 else if unat b < 240 then 3 else 4))"

definition le_unit :: "nat \<Rightarrow> bytes" where
  "le_unit u = [word_of_nat (u mod 256), word_of_nat (u div 256)]"

definition be_unit :: "nat \<Rightarrow> bytes" where
  "be_unit u = [word_of_nat (u div 256), word_of_nat (u mod 256)]"

lemma unat_and_F800: "unat (x AND 0xF800 :: uint) = 2048 * (unat x div 2048 mod 32)"
  using unat_and_shifted_mask [of 11 5 x] by (simp add: mask_numeral push_bit_eq_mult)

lemma unat_and_FC00: "unat (x AND 0xFC00 :: uint) = 1024 * (unat x div 1024 mod 64)"
  using unat_and_shifted_mask [of 10 6 x] by (simp add: mask_numeral push_bit_eq_mult)

lemma div_eq_bounds: "0 < d \<Longrightarrow> n div d = k \<longleftrightarrow> k * d \<le> n \<and> n < Suc k * d" for n d k :: nat
  using less_eq_div_iff_mult_less_eq [of d k n] div_less_iff_less_mult [of d n "Suc k"] by auto

lemma mult_eq_const:
  "2048 * k = 55296 \<longleftrightarrow> k = 27" "1024 * k = 55296 \<longleftrightarrow> k = 54" "1024 * k = 56320 \<longleftrightarrow> k = 55" for k :: nat
  by auto

lemma surrogate_tests:
  assumes "unat (x :: uint) < 65536"
  shows "x AND 0xF800 = 0xD800 \<longleftrightarrow> 0xD800 \<le> unat x \<and> unat x < 0xE000"
    "x AND 0xFC00 = 0xD800 \<longleftrightarrow> 0xD800 \<le> unat x \<and> unat x < 0xDC00"
    "x AND 0xFC00 = 0xDC00 \<longleftrightarrow> 0xDC00 \<le> unat x \<and> unat x < 0xE000"
proof -
  have "unat x div 2048 mod 32 = unat x div 2048" "unat x div 1024 mod 64 = unat x div 1024" using assms by simp_all
  then show "x AND 0xF800 = 0xD800 \<longleftrightarrow> 0xD800 \<le> unat x \<and> unat x < 0xE000"
    "x AND 0xFC00 = 0xD800 \<longleftrightarrow> 0xD800 \<le> unat x \<and> unat x < 0xDC00"
    "x AND 0xFC00 = 0xDC00 \<longleftrightarrow> 0xDC00 \<le> unat x \<and> unat x < 0xE000"
    by (simp_all add: word_unat_eq_iff unat_and_F800 unat_and_FC00 div_eq_bounds mult_eq_const)
qed

lemma unat_word_of_nat_id: "word_of_nat (unat x) = x"
  by simp

lemma surrogate_value:
  assumes "unat hi = 0xD800 + p" "unat lo = 0xDC00 + q" "p < 1024" "q < 1024"
  shows "unat (push_bit 10 hi + lo - (push_bit 10 0xD800 + 0xDC00 - 0x10000) :: uint) = 0x10000 + 1024 * p + q"
proof -
  have h: "hi = word_of_nat (0xD800 + p)" "lo = word_of_nat (0xDC00 + q)"
    by (simp_all only: assms(1,2) [symmetric] unat_word_of_nat_id)
  have "push_bit 10 hi + lo - (push_bit 10 0xD800 + 0xDC00 - 0x10000) = (word_of_nat (0x10000 + 1024 * p + q) :: uint)"
    unfolding h by (simp add: push_bit_eq_mult algebra_simps)
  moreover have "unat (word_of_nat (0x10000 + 1024 * p + q) :: uint) = 0x10000 + 1024 * p + q"
    using assms(3,4) by (simp only: unat_of_nat) simp
  ultimately show ?thesis by (simp only:)
qed

lemma surrogate_split:
  assumes "unat c = 0x10000 + n" "n < 0x100000"
  shows "unat (drop_bit 10 (c - 0x10000 :: uint) OR 0xD800) = 0xD800 + n div 1024"
    "unat ((c - 0x10000 :: uint) AND 0x03FF OR 0xDC00) = 0xDC00 + n mod 1024"
proof -
  have c: "unat (c - 0x10000) = n" using assms by (simp add: unat_sub word_le_nat_alt)
  have 1: "unat (drop_bit 10 (c - 0x10000)) = n div 1024" "n div 1024 < 1024" using c assms(2) by (simp_all add: unat_drop_bit)
  have 2: "unat ((c - 0x10000) AND 0x03FF) = n mod 1024" using c by (simp add: word_take_and unat_take_bit)
  have "0xD800 OR m = 0xD800 + m" "0xDC00 OR m = 0xDC00 + m" if "m < 1024" for m :: nat
    using nat_or_disjoint [of m 10 54] nat_or_disjoint [of m 10 55] that by (simp_all add: push_bit_eq_mult)
  then show "unat (drop_bit 10 (c - 0x10000 :: uint) OR 0xD800) = 0xD800 + n div 1024"
    "unat ((c - 0x10000 :: uint) AND 0x03FF OR 0xDC00) = 0xDC00 + n mod 1024"
    using 1 2 by (simp_all add: unat_or or.commute)
qed

lemma enc_bytes:
  assumes "unat (c :: uint) < 0x110000"
  shows "unat c < 0x80 \<Longrightarrow> utf8_enc (unat c) = [ucast c]"
    "0x80 \<le> unat c \<Longrightarrow> unat c < 0x800 \<Longrightarrow> utf8_enc (unat c) = [ucast (drop_bit 6 c OR 0xC0), ucast (c AND 0x3F OR 0x80)]"
    "0x800 \<le> unat c \<Longrightarrow> unat c < 0x10000 \<Longrightarrow> utf8_enc (unat c) =
      [ucast (drop_bit 12 c OR 0xE0), ucast (drop_bit 6 c AND 0x3F OR 0x80), ucast (c AND 0x3F OR 0x80)]"
    "0x10000 \<le> unat c \<Longrightarrow> utf8_enc (unat c) =
      [ucast (drop_bit 18 c OR 0xF0), ucast (drop_bit 12 c AND 0x3F OR 0x80), ucast (drop_bit 6 c AND 0x3F OR 0x80),
       ucast (c AND 0x3F OR 0x80)]"
  using copy_char_bytes_enc [OF assms, symmetric] assms
  by (simp_all add: copy_char_bytes_def word_le_nat_alt word_less_nat_alt copy_tail.simps [of c 0] copy_tail.simps [of c 6]
      copy_tail.simps [of c 12] not_le)

lemma cont_step: "unat (x :: uint) < 2 ^ 26 \<Longrightarrow> unat (push_bit 6 x OR (ucast (b :: byte) AND 0x3F)) = 64 * unat x + unat b mod 64"
  using unat_shift_or [of x 6 "ucast b AND 0x3F"] by (simp add: word_take_and unat_take_bit)

lemma cont_loop_ok:
  assumes "unat x < 2 ^ (26 - 6 * length us)" "length us \<le> 3"
  shows "case cont_loop x us of None \<Rightarrow> \<exists>b \<in> set us. unat b div 64 \<noteq> 2
    | Some y \<Rightarrow> (\<forall>b \<in> set us. unat b div 64 = 2) \<and> unat y = foldl (\<lambda>c b. 64 * c + unat b mod 64) (unat x) us"
  using assms
proof (induction us arbitrary: x)
  case (Cons b us)
  have "(2 :: nat) ^ (26 - 6 * length (b # us)) \<le> 2 ^ 26" by (intro power_increasing) simp_all
  then have v: "unat (push_bit 6 x OR (ucast b AND 0x3F)) = 64 * unat x + unat b mod 64"
    using Cons.prems(1) by (intro cont_step) linarith
  have "26 - 6 * length us = 6 + (26 - 6 * length (b # us))" using Cons.prems(2) by simp
  then have "(2 :: nat) ^ (26 - 6 * length us) = 64 * 2 ^ (26 - 6 * length (b # us))" by (simp only: power_add) simp
  moreover have "unat b mod 64 < 64" by simp
  ultimately have "unat (push_bit 6 x OR (ucast b AND 0x3F)) < 2 ^ (26 - 6 * length us)"
    using Cons.prems(1) unfolding v by linarith
  then show ?case using Cons.IH [of "push_bit 6 x OR (ucast b AND 0x3F)"] Cons.prems(2) v
    by (auto simp: cont_iff split: option.splits)
qed simp

locale byte_order =
  fixes get16 :: "byte \<Rightarrow> byte \<Rightarrow> uint" and put16 :: "uint \<Rightarrow> bytes" and ser :: "nat \<Rightarrow> bytes"
  assumes get_ser: "u < 65536 \<Longrightarrow> \<exists>a b. ser u = [a, b] \<and> unat (get16 a b) = u"
    and ser_get: "unat (get16 a b) < 65536 \<and> ser (unat (get16 a b)) = [a, b]"
    and put_ser: "unat x < 65536 \<Longrightarrow> put16 x = ser (unat x)"
begin

lemma ser_length [simp]: "u < 65536 \<Longrightarrow> length (ser u) = 2"
  using get_ser [of u] by auto

lemma utf16_length: "scalar c \<Longrightarrow> length (utf16_enc ser c) = (if c < 0x10000 then 2 else 4)"
  by (auto simp: utf16_enc_def utf16_units_def scalar_def)

lemma dec_unit:
  assumes u: "unat (get16 a b) = u" "u < 0xD800 \<or> 0xE000 \<le> u"
  shows "utf16_body get16 (a # b # rest) sp =
    Some (if length (utf8_enc u) \<le> sp then ConvNext 2 (utf8_enc u) else ConvStop XML_ENC_ERR_SPACE)"
proof -
  let ?c = "get16 a b"
  have l: "unat ?c < 65536" using ser_get by blast
  have t: "?c AND 0xF800 \<noteq> 0xD800" using surrogate_tests(1) [OF l] u by auto
  have e: "unat ?c < 0x110000" using l by simp
  consider "u < 0x80" | "0x80 \<le> u" "u < 0x800" | "0x800 \<le> u" by linarith
  then show ?thesis
  proof cases
    case 1
    then show ?thesis using enc_bytes(1) [OF e] u by (auto simp: utf16_body_def Let_def word_less_nat_alt)
  next
    case 2
    then show ?thesis using enc_bytes(2) [OF e] u by (simp add: utf16_body_def Let_def word_less_nat_alt)
  next
    case 3
    then show ?thesis using enc_bytes(3) [OF e _ l] u t by (simp add: utf16_body_def Let_def word_less_nat_alt)
  qed
qed

lemma dec_pair:
  assumes u: "unat (get16 a b) = 0xD800 + p" "unat (get16 a' b') = 0xDC00 + q" "p < 1024" "q < 1024"
  shows "utf16_body get16 (a # b # a' # b' # rest) sp =
    Some (if length (utf8_enc (0x10000 + 1024 * p + q)) \<le> sp then ConvNext 4 (utf8_enc (0x10000 + 1024 * p + q))
      else ConvStop XML_ENC_ERR_SPACE)"
proof -
  let ?c = "get16 a b" and ?d = "get16 a' b'"
  have l: "unat ?c < 65536" "unat ?d < 65536" using ser_get by blast+
  have t: "?c AND 0xF800 = 0xD800" "?c AND 0xFC00 = 0xD800" "?d AND 0xFC00 = 0xDC00"
    using surrogate_tests [OF l(1)] surrogate_tests [OF l(2)] u by auto
  define x :: uint where "x = push_bit 10 ?c + ?d - (push_bit 10 0xD800 + 0xDC00 - 0x10000)"
  have x: "unat x = 0x10000 + 1024 * p + q" unfolding x_def by (rule surrogate_value [OF u])
  then have xl: "unat x < 0x110000" using u by simp
  have e: "utf8_enc (0x10000 + 1024 * p + q) = [ucast (drop_bit 18 x OR 0xF0), ucast (drop_bit 12 x AND 0x3F OR 0x80),
     ucast (drop_bit 6 x AND 0x3F OR 0x80), ucast (x AND 0x3F OR 0x80)]"
    using enc_bytes(4) [OF xl] x by simp
  have c: "\<not> ?c < 0x80" "\<not> ?c < 0x800" using u(1) by (simp_all add: word_less_nat_alt)
  show ?thesis unfolding e using t c by (simp add: utf16_body_def x_def Let_def)
qed

lemma ser_inject: "u < 65536 \<Longrightarrow> v < 65536 \<Longrightarrow> ser u = ser v \<Longrightarrow> u = v"
  using get_ser [of u] get_ser [of v] by auto

lemma utf16_cut_iff:
  assumes "even (length r)"
  shows "utf16_cut ser (a # b # r) \<longleftrightarrow>
    r = [] \<and> 0xD800 \<le> unat (get16 a b) \<and> unat (get16 a b) < 0xDC00"
proof
  assume "utf16_cut ser (a # b # r)"
  then obtain c more where c: "scalar c" "more \<noteq> []" "utf16_enc ser c = a # b # r @ more"
    by (auto simp: utf16_cut_def)
  have len: "length r + length more = (if c < 0x10000 then 0 else 2)"
    using utf16_length [OF c(1)] arg_cong [OF c(3), of length] by (simp split: if_splits)
  have m: "0 < length more" using c(2) by simp
  with len have r1: "\<not> c < 0x10000" by (auto split: if_splits)
  then have "length r < 2" using len m unfolding if_not_P [OF r1] by linarith
  then have "length r = 0" using assms by (cases "length r") (auto simp: less_Suc_eq numeral_2_eq_2)
  then have r: "\<not> c < 0x10000" "r = []" using r1 by simp_all
  define p where "p = (c - 0x10000) div 1024"
  have p: "p < 1024" using c(1) r(1) by (auto simp: p_def scalar_def div_less_iff_less_mult)
  then obtain x y where "ser (0xD800 + p) = [x, y]" using get_ser [of "0xD800 + p"] by auto
  then have "ser (0xD800 + p) = [a, b]"
    using c(3) r by (simp add: utf16_enc_def utf16_units_def p_def)
  then have "0xD800 + p = unat (get16 a b)"
    using ser_inject [of "0xD800 + p" "unat (get16 a b)"] ser_get [of a b] p by simp
  then show "r = [] \<and> 0xD800 \<le> unat (get16 a b) \<and> unat (get16 a b) < 0xDC00" using r p by simp
next
  assume r: "r = [] \<and> 0xD800 \<le> unat (get16 a b) \<and> unat (get16 a b) < 0xDC00"
  define p where "p = unat (get16 a b) - 0xD800"
  have p: "unat (get16 a b) = 0xD800 + p" "p < 1024" using r by (auto simp: p_def)
  have "utf16_enc ser (0x10000 + 1024 * p) = (a # b # r) @ ser 0xDC00"
    using ser_get [of a b] p r by (simp add: utf16_enc_def utf16_units_def)
  moreover have "scalar (0x10000 + 1024 * p)" using p by (simp add: scalar_def)
  moreover have "ser 0xDC00 \<noteq> []" using get_ser [of "0xDC00"] by auto
  ultimately show "utf16_cut ser (a # b # r)" unfolding utf16_cut_def by blast
qed

lemma dec_strict:
  "strict_transcoder (utf16_body get16) scalar (utf16_enc ser) utf8_enc 1 2 (utf16_cut ser)"
proof
  fix c :: nat and rest :: bytes and sp :: nat
  assume s: "scalar c"
  show "utf16_enc ser c \<noteq> []" using utf16_length [OF s] by (cases "c < 0x10000") auto
  show "2 dvd length (utf16_enc ser c)" using utf16_length [OF s] by simp
  show "utf16_body get16 (utf16_enc ser c @ rest) sp =
    Some (if length (utf8_enc c) \<le> sp then ConvNext (length (utf16_enc ser c)) (utf8_enc c) else ConvStop XML_ENC_ERR_SPACE)"
  proof (cases "c < 0x10000")
    case True
    then obtain a b where ab: "ser c = [a, b]" "unat (get16 a b) = c" using get_ser [of c] by auto
    then show ?thesis using True s dec_unit [OF ab(2), of rest sp]
      by (auto simp: utf16_enc_def utf16_units_def scalar_def)
  next
    case False
    define n where "n = c - 0x10000"
    have c: "c = 0x10000 + n" "n < 0x100000" using False s by (auto simp: n_def scalar_def)
    obtain a b where ab: "ser (0xD800 + n div 1024) = [a, b]" "unat (get16 a b) = 0xD800 + n div 1024"
      using get_ser [of "0xD800 + n div 1024"] c(2) div_less_iff_less_mult [of 1024 n 1024] by auto
    have "n mod 1024 < 9216" by (rule less_trans [OF mod_less_divisor]) simp_all
    then obtain a' b' where ab': "ser (0xDC00 + n mod 1024) = [a', b']" "unat (get16 a' b') = 0xDC00 + n mod 1024"
      using get_ser [of "0xDC00 + n mod 1024"] by auto
    have "0x10000 + 1024 * (n div 1024) + n mod 1024 = c" using c(1) by simp
    moreover have "n div 1024 < 1024" using c(2) by simp
    moreover have "utf16_enc ser c = [a, b, a', b']" using ab(1) ab'(1) c by (simp add: utf16_enc_def utf16_units_def)
    ultimately show ?thesis using dec_pair [OF ab(2) ab'(2), of rest sp] by simp
  qed
next
  fix inp :: bytes and sp :: nat
  assume inp: "inp \<noteq> []" "2 dvd length inp" and no: "\<And>c rest. scalar c \<Longrightarrow> inp \<noteq> utf16_enc ser c @ rest"
  obtain a b r where i: "inp = a # b # r" using inp by (cases inp; cases "tl inp") auto
  let ?c = "get16 a b"
  have l: "unat ?c < 65536" "ser (unat ?c) = [a, b]" using ser_get [of a b] by auto
  have "\<not> scalar (unat ?c)" using no [of "unat ?c" r] l i by (auto simp: utf16_enc_def utf16_units_def)
  then have sur: "0xD800 \<le> unat ?c" "unat ?c < 0xE000" using l(1) by (auto simp: scalar_def)
  have c: "\<not> ?c < 0x80" "\<not> ?c < 0x800" using sur by (simp_all add: word_less_nat_alt)
  have t: "?c AND 0xF800 = 0xD800" "?c AND 0xFC00 = 0xD800 \<longleftrightarrow> unat ?c < 0xDC00" using surrogate_tests [OF l(1)] sur by auto
  have ev: "even (length r)" using inp(2) i by simp
  then have short: "length inp < 4 \<longleftrightarrow> r = []" using i by (cases r; cases "tl r") auto
  note cut = utf16_cut_iff [OF ev, of a b]
  show "utf16_body get16 inp sp = Some (if utf16_cut ser inp then ConvBreak else ConvStop XML_ENC_ERR_INPUT)"
  proof (cases "unat ?c < 0xDC00 \<and> \<not> length inp < 4")
    case False
    then show ?thesis using i c t cut sur short by (auto simp: utf16_body_def Let_def)
  next
    case True
    then obtain a' b' r' where r: "r = a' # b' # r'" using i by (cases r; cases "tl r") auto
    let ?d = "get16 a' b'"
    have l': "unat ?d < 65536" "ser (unat ?d) = [a', b']" using ser_get [of a' b'] by auto
    have "\<not> (0xDC00 \<le> unat ?d \<and> unat ?d < 0xE000)"
    proof
      assume d: "0xDC00 \<le> unat ?d \<and> unat ?d < 0xE000"
      define p q where "p = unat ?c - 0xD800" and "q = unat ?d - 0xDC00"
      have pq: "unat ?c = 0xD800 + p" "unat ?d = 0xDC00 + q" "p < 1024" "q < 1024"
        using True sur d by (auto simp: p_def q_def)
      let ?x = "0x10000 + (1024 * p + q)"
      have "(1024 * p + q) div 1024 = p" "(1024 * p + q) mod 1024 = q" using pq(4) by simp_all
      then have "utf16_enc ser ?x = [a, b, a', b']" using l(2) l'(2) pq(1,2) by (simp add: utf16_enc_def utf16_units_def)
      moreover have "scalar ?x" using pq(3,4) by (simp add: scalar_def)
      ultimately show False using no [of ?x r'] i r by simp
    qed
    then have "?d AND 0xFC00 \<noteq> 0xDC00" using surrogate_tests(3) [OF l'(1)] by simp
    then show ?thesis using i r c t True cut by (simp add: utf16_body_def Let_def)
  qed
qed simp

text \<open>The value that the encoder computes for a multi-byte sequence.\<close>

lemma enc_char:
  assumes c: "scalar c" "unat (x :: uint) = c" "even sp"
  shows "(if x < 0x10000 then Some (if sp < 1 then ConvStop XML_ENC_ERR_SPACE else ConvNext n (put16 x))
    else if sp < 4 then Some (ConvStop XML_ENC_ERR_SPACE)
    else let c = x - 0x10000; d = c AND 0x03FF OR 0xDC00; c = drop_bit 10 c OR 0xD800
         in Some (ConvNext n (put16 c @ put16 d))) =
   Some (if length (utf16_enc ser c) \<le> sp then ConvNext n (utf16_enc ser c) else ConvStop XML_ENC_ERR_SPACE)"
proof (cases "c < 0x10000")
  case True
  then have "put16 x = utf16_enc ser c" using put_ser [of x] c(2) by (simp add: utf16_enc_def utf16_units_def)
  moreover have "sp < 1 \<longleftrightarrow> \<not> 2 \<le> sp" using c(3) by (cases sp) (auto elim!: oddE)
  ultimately show ?thesis using True c utf16_length [OF c(1)] by (simp add: word_less_nat_alt)
next
  case False
  define n' where "n' = c - 0x10000"
  have n': "unat x = 0x10000 + n'" "n' < 0x100000" using False c by (auto simp: n'_def scalar_def)
  note s = surrogate_split [OF n']
  have "n' div 1024 < 1024" using n'(2) div_less_iff_less_mult [of 1024 n' 1024] by simp
  moreover have "n' mod 1024 < 9216" by (rule less_trans [OF mod_less_divisor]) simp_all
  ultimately have "put16 (drop_bit 10 (x - 0x10000) OR 0xD800) @ put16 ((x - 0x10000) AND 0x03FF OR 0xDC00) = utf16_enc ser c"
    using put_ser [of "drop_bit 10 (x - 0x10000) OR 0xD800"] put_ser [of "(x - 0x10000) AND 0x03FF OR 0xDC00"] s False
    by (simp add: utf16_enc_def utf16_units_def n'_def [symmetric])
  then show ?thesis using False c utf16_length [OF c(1)] by (simp add: word_less_nat_alt Let_def)
qed

lemma enc_multi:
  assumes lead: "lead_byte (ucast u0) = Some (x, Suc (length us), mn)" "\<not> unat u0 < 128"
    and us: "length us \<le> 3" "even sp"
  defines "c \<equiv> foldl (\<lambda>c b. 64 * c + unat b mod 64) (unat x) us"
  shows "to_utf16_body put16 (u0 # us @ rest) sp = Some
    (if (\<forall>b \<in> set us. unat b div 64 = 2) \<and> scalar c \<and> unat mn \<le> c
     then (if length (utf16_enc ser c) \<le> sp then ConvNext (Suc (length us)) (utf16_enc ser c) else ConvStop XML_ENC_ERR_SPACE)
     else ConvStop XML_ENC_ERR_INPUT)"
proof -
  have "unat x < 32" using lead(1) by (auto simp: lead_byte_def word_take_and unat_take_bit split: if_splits)
  moreover have "5 \<le> 26 - 6 * length us" using us(1) by linarith
  ultimately have xl: "unat x < 2 ^ (26 - 6 * length us)"
    using power_increasing [of 5 "26 - 6 * length us" "2 :: nat"] by simp
  have B: "to_utf16_body put16 (u0 # us @ rest) sp =
    (case cont_loop x us of
       None \<Rightarrow> Some (ConvStop XML_ENC_ERR_INPUT)
     | Some y \<Rightarrow>
         if y < mn \<or> (y \<ge> 0xD800 \<and> y \<le> 0xDFFF) \<or> y > 0x10FFFF then Some (ConvStop XML_ENC_ERR_INPUT)
         else (if y < 0x10000 then Some (if sp < 1 then ConvStop XML_ENC_ERR_SPACE else ConvNext (Suc (length us)) (put16 y))
           else if sp < 4 then Some (ConvStop XML_ENC_ERR_SPACE)
           else let c = y - 0x10000; d = c AND 0x03FF OR 0xDC00; c = drop_bit 10 c OR 0xD800
                in Some (ConvNext (Suc (length us)) (put16 c @ put16 d))))"
    using lead by (simp add: to_utf16_body_def word_less_nat_alt copy_in_def cong: option.case_cong if_cong)
  show ?thesis
  proof (cases "cont_loop x us")
    case None
    then show ?thesis using cont_loop_ok [OF xl us(1)] unfolding B by auto
  next
    case (Some y)
    then have y: "\<forall>b \<in> set us. unat b div 64 = 2" "unat y = c" using cont_loop_ok [OF xl us(1)] by (simp_all add: c_def)
    have chk: "y < mn \<or> (y \<ge> 0xD800 \<and> y \<le> 0xDFFF) \<or> y > 0x10FFFF \<longleftrightarrow> \<not> (scalar c \<and> unat mn \<le> c)"
      unfolding word_less_nat_alt word_le_nat_alt y(2) scalar_def by auto
    show ?thesis
    proof (cases "scalar c \<and> unat mn \<le> c")
      case True
      then show ?thesis unfolding B Some using chk y enc_char [of c y sp "Suc (length us)"] us(2) by simp
    next
      case False
      then show ?thesis unfolding B Some using chk by simp
    qed
  qed
qed

lemma lead_values:
  fixes u0 :: byte
  shows "194 \<le> unat u0 \<Longrightarrow> unat u0 < 224 \<Longrightarrow> lead_byte (ucast u0) = Some (ucast u0 AND 0x1F, 2, 0x80)"
    "224 \<le> unat u0 \<Longrightarrow> unat u0 < 240 \<Longrightarrow> lead_byte (ucast u0) = Some (ucast u0 AND 0x0F, 3, 0x800)"
    "240 \<le> unat u0 \<Longrightarrow> lead_byte (ucast u0) = Some (ucast u0 AND 0x0F, 4, 0x10000)"
    "unat u0 < 194 \<Longrightarrow> lead_byte (ucast u0) = None"
    "unat (ucast u0 AND 0x1F :: uint) = unat u0 mod 32" "unat (ucast u0 AND 0x0F :: uint) = unat u0 mod 16"
  by (simp_all add: lead_byte_def word_less_nat_alt word_take_and unat_take_bit)

lemma enc_accept:
  assumes s: "scalar c" and sp: "even sp"
  shows "to_utf16_body put16 (utf8_enc c @ rest) sp =
    Some (if length (utf16_enc ser c) \<le> sp then ConvNext (length (utf8_enc c)) (utf16_enc ser c) else ConvStop XML_ENC_ERR_SPACE)"
proof -
  note codes = scalar_codes_iff [OF s]
  have m: "utf8_codes c = map unat (utf8_enc c)" using map_unat_enc scalar_less s by metis
  show ?thesis
  proof (rule utf8_enc_cases [OF s])
    fix u0 assume u: "utf8_enc c = [u0]" "unat u0 < 128" "c = unat u0"
    have "put16 (ucast u0) = utf16_enc ser c" using put_ser [of "ucast u0"] u by (simp add: utf16_enc_def utf16_units_def)
    moreover have "sp < 1 \<longleftrightarrow> \<not> 2 \<le> sp" using sp by (cases sp) (auto elim!: oddE)
    ultimately show ?thesis using u utf16_length [OF s] by (simp add: to_utf16_body_def word_less_nat_alt)
  next
    fix u0 u1 assume u: "utf8_enc c = [u0, u1]" "194 \<le> unat u0" "unat u0 < 224" "unat u1 div 64 = 2"
    then have "c = 64 * (unat u0 mod 32) + unat u1 mod 64" "128 \<le> c"
      using codes(2) [of "unat u0" "unat u1"] m length_enc_nat [of c] by (auto split: if_splits)
    then show ?thesis using enc_multi [of u0 _ "[u1]" _ sp rest] lead_values u sp s by simp
  next
    fix u0 u1 u2 assume u: "utf8_enc c = [u0, u1, u2]" "224 \<le> unat u0" "unat u0 < 240" "unat u1 div 64 = 2" "unat u2 div 64 = 2"
    then have c: "c = 4096 * (unat u0 mod 16) + 64 * (unat u1 mod 64) + unat u2 mod 64" "2048 \<le> c"
      using codes(3) [of "unat u0" "unat u1" "unat u2"] m by auto
    have "64 * (64 * (unat u0 mod 16) + unat u1 mod 64) + unat u2 mod 64 = c" unfolding c by simp
    then show ?thesis using enc_multi [of u0 _ "[u1, u2]" _ sp rest] lead_values u sp s c(2) by simp
  next
    fix u0 u1 u2 u3 assume u: "utf8_enc c = [u0, u1, u2, u3]" "240 \<le> unat u0" "unat u0 < 248"
      "unat u1 div 64 = 2" "unat u2 div 64 = 2" "unat u3 div 64 = 2"
    then have c: "c = 262144 * (unat u0 mod 8) + 4096 * (unat u1 mod 64) + 64 * (unat u2 mod 64) + unat u3 mod 64" "65536 \<le> c"
      using codes(4) [of "unat u0" "unat u1" "unat u2" "unat u3"] m by auto
    define k where "k = unat u0 - 240"
    have "unat u0 = 240 + k" "k < 8" using u(2,3) by (simp_all add: k_def)
    then have "unat u0 mod 16 = unat u0 mod 8" by (simp add: mod_add_eq [symmetric])
    then have f: "foldl (\<lambda>c b. 64 * c + unat b mod 64) (unat (ucast u0 AND 0x0F :: uint)) [u1, u2, u3] = c"
      unfolding lead_values(6) c(1) by simp
    have "lead_byte (ucast u0) = Some (ucast u0 AND 0x0F, Suc (length [u1, u2, u3]), 0x10000)"
      using lead_values(3) [OF u(2)] by simp
    from enc_multi [OF this, where sp = sp and rest = rest, unfolded f] show ?thesis using u sp s c(2) by simp
  qed
qed

lemma enc_refuse:
  assumes inp: "inp \<noteq> []" and sp: "even sp" and no: "\<And>c rest. scalar c \<Longrightarrow> inp \<noteq> utf8_enc c @ rest"
  shows "to_utf16_body put16 inp sp = Some (if utf8_cut inp then ConvBreak else ConvStop XML_ENC_ERR_INPUT)"
proof -
  obtain u0 r where i: "inp = u0 # r" using inp by (cases inp) auto
  have nf: "\<not> utf8_front inp c" for c
  proof
    assume f: "utf8_front inp c"
    then have "inp = utf8_enc c @ drop (length (utf8_enc c)) inp"
      by (metis utf8_front_def append_take_drop_id)
    then show False using no f by (auto simp: utf8_front_def)
  qed
  have u0: "\<not> unat u0 < 128"
    using nf [of "unat u0"] i by (auto simp: utf8_front_Cons scalar_def codes1_iff)
  show ?thesis
  proof (cases "lead_byte (ucast u0)")
    case None
    then have "\<not> utf8_cut inp" using i lead_values(1-3) [of u0] by (fastforce simp: not_less)
    then show ?thesis using None i u0 by (simp add: to_utf16_body_def word_less_nat_alt)
  next
    case (Some l)
    obtain x len mn where l: "l = (x, len, mn)" by (cases l)
    have cut: "utf8_cut inp \<longleftrightarrow> length inp < len"
    proof -
      have "194 \<le> unat u0" using Some lead_values(4) [of u0] by (cases "unat u0 < 194") auto
      then show ?thesis using Some l i lead_values(1-3) [of u0] by (auto simp: not_less)
    qed
    show ?thesis
    proof (cases "length inp < len")
      case True
      then show ?thesis using i u0 Some l cut by (simp add: to_utf16_body_def word_less_nat_alt)
    next
      case False
      have len: "1 < len" "len \<le> 4" using Some l by (auto simp: lead_byte_def split: if_splits)
      define us rest where "us = take (len - 1) r" and "rest = drop (len - 1) r"
      have r: "r = us @ rest" "len = Suc (length us)" "length us \<le> 3" using False len i by (auto simp: us_def rest_def)
      define c where "c = foldl (\<lambda>c b. 64 * c + unat b mod 64) (unat x) us"
      have "\<not> ((\<forall>b \<in> set us. unat b div 64 = 2) \<and> scalar c \<and> unat mn \<le> c)"
      proof
        assume a: "(\<forall>b \<in> set us. unat b div 64 = 2) \<and> scalar c \<and> unat mn \<le> c"
        consider "194 \<le> unat u0" "unat u0 < 224" | "224 \<le> unat u0" "unat u0 < 240" | "240 \<le> unat u0"
          using Some lead_values(4) [of u0] by force
        then show False
        proof cases
          case 1
          then obtain u1 where us: "us = [u1]" using Some l r(2) lead_values(1) [OF 1] by (cases us) auto
          have x: "unat x = unat u0 mod 32" using Some l lead_values(1) [OF 1] lead_values(5) [of u0] by auto
          have "c = 64 * (unat u0 mod 32) + unat u1 mod 64" unfolding c_def us by (simp add: x)
          then have "utf8_front inp c" using a 1 i r(1) us scalar_codes_iff(2) by (auto simp: utf8_front_Cons)
          then show False using nf by blast
        next
          case 2
          then have "length us = Suc (Suc 0)" using Some l r(2) lead_values(2) [OF 2] by simp
          then obtain u1 u2 where us: "us = [u1, u2]" unfolding length_Suc_conv by blast
          have "c = 4096 * (unat u0 mod 16) + 64 * (unat u1 mod 64) + unat u2 mod 64" "2048 \<le> c"
          proof -
            have x: "unat x = unat u0 mod 16" "unat mn = 2048" using Some l lead_values(2) [OF 2] lead_values(6) [of u0] by auto
            show "c = 4096 * (unat u0 mod 16) + 64 * (unat u1 mod 64) + unat u2 mod 64" unfolding c_def us by (simp add: x)
            show "2048 \<le> c" using a x(2) by simp
          qed
          then have "utf8_front inp c" using a 2 i r(1) us scalar_codes_iff(3) by (auto simp: utf8_front_Cons)
          then show False using nf by blast
        next
          case 3
          then have "length us = Suc (Suc (Suc 0))" using Some l r(2) lead_values(3) [OF 3] by simp
          then obtain u1 u2 u3 where us: "us = [u1, u2, u3]" unfolding length_Suc_conv by blast
          have c: "c = 262144 * (unat u0 mod 16) + 4096 * (unat u1 mod 64) + 64 * (unat u2 mod 64) + unat u3 mod 64" "65536 \<le> c"
          proof -
            have x: "unat x = unat u0 mod 16" "unat mn = 65536" using Some l lead_values(3) [OF 3] lead_values(6) [of u0] by auto
            show "c = 262144 * (unat u0 mod 16) + 4096 * (unat u1 mod 64) + 64 * (unat u2 mod 64) + unat u3 mod 64"
              unfolding c_def us by (simp add: x)
            show "65536 \<le> c" using a x(2) by simp
          qed
          define k where "k = unat u0 - 240"
          have "unat u0 < 256" by (rule unat_byte_less)
          then have k: "unat u0 = 240 + k" "k < 16" using 3 unfolding k_def by linarith+
          then have "unat u0 mod 16 = k" using mod_mult_self4 [of 16 15 k] by simp
          moreover have "c < 0x110000" using a scalar_less by blast
          ultimately have "k < 8" using c(1) by linarith
          then have "unat u0 mod 16 = unat u0 mod 8" "unat u0 < 248" using k by (simp_all add: mod_add_eq [symmetric])
          then have "utf8_front inp c" using a 3 i r(1) us c scalar_codes_iff(4) by (auto simp: utf8_front_Cons)
          then show False using nf by blast
        qed
      qed
      then show ?thesis using enc_multi [of u0 x us mn sp rest] Some l r u0 i sp cut False by (simp add: c_def)
    qed
  qed
qed

lemma enc_strict:
  "strict_transcoder (to_utf16_body put16) scalar utf8_enc (utf16_enc ser) 2 1 utf8_cut"
proof
  fix c :: nat and rest :: bytes and sp :: nat
  assume s: "scalar c"
  show "utf8_enc c \<noteq> []" using length_enc_nat [of c] by (cases "utf8_enc c") (simp_all split: if_splits)
  show "2 dvd length (utf16_enc ser c)" using utf16_length [OF s] by simp
  show "to_utf16_body put16 (utf8_enc c @ rest) sp =
    Some (if length (utf16_enc ser c) \<le> sp then ConvNext (length (utf8_enc c)) (utf16_enc ser c) else ConvStop XML_ENC_ERR_SPACE)"
    if "2 dvd sp" using enc_accept [OF s that] .
qed (use enc_refuse in auto)

end

section \<open>Calls\<close>

lemma unat_byte_less_num [simp]: "256 \<le> n \<Longrightarrow> unat (b :: byte) < n"
  by (rule less_le_trans [OF unat_byte_less])

lemma copy_out_front:
  "length bs \<le> length out \<Longrightarrow> copy_out out 0 bs = Some (bs @ drop (length bs) out)"
  by (simp add: copy_out_def)

context transcoder begin

lemma fits_length: "fits dst sp cs \<le> length cs"
  by (induction cs arbitrary: sp) auto

lemma fits_room: "length (text_of dst (take (fits dst sp cs) cs)) \<le> sp"
proof (induction cs arbitrary: sp)
  case (Cons c cs)
  show ?case
  proof (cases "length (dst c) \<le> sp")
    case True
    then have "length (dst c) + length (text_of dst (take (fits dst (sp - length (dst c)) cs) cs)) \<le> sp"
      using Cons.IH [of "sp - length (dst c)"] by linarith
    then show ?thesis using True by simp
  qed simp
qed simp

lemma fits_all: "length (text_of dst cs) \<le> sp \<Longrightarrow> fits dst sp cs = length cs"
  by (induction cs arbitrary: sp) auto

lemma run_text:
  assumes "\<forall>c \<in> set cs. legal c" "ounit dvd lim" "lim \<le> length out" "n = length (text_of src cs)"
  shows "run_conv body out lim (text_of src cs @ more) n =
    (let k = fits dst lim cs; bs = text_of dst (take k cs)
     in Some (if k = length cs then int (length bs) else XML_ENC_ERR_SPACE,
          bs @ drop (length bs) out, length bs, length (text_of src (take k cs))))"
proof -
  let ?k = "fits dst lim cs" let ?bs = "text_of dst (take ?k cs)"
  have "length (text_of src cs) - length (text_of src (drop ?k cs)) = length (text_of src (take ?k cs))"
    by (metis add_diff_cancel_right' append_take_drop_id length_append text_of_simps(3))
  moreover have "copy_out out 0 ?bs = Some (?bs @ drop (length ?bs) out)"
    using fits_room [of lim cs] assms(3) by (intro copy_out_front) linarith
  moreover have "conv_loop body n (text_of src cs) [] lim =
      Some (if ?k = length cs then int (length (text_of dst cs)) else XML_ENC_ERR_SPACE, ?bs, text_of src (drop ?k cs))"
    using conv_text [OF assms(1,2), of n "[]"] assms(4) by simp
  moreover have "?k = length cs \<longrightarrow> text_of dst cs = ?bs" by simp
  ultimately show ?thesis using assms(4) by (auto simp: run_conv_def copy_in_def Let_def)
qed

end

text \<open>The outcome of a call on arbitrary input, in terms of the characters converted.\<close>

definition converted ::
  "('c \<Rightarrow> bool) \<Rightarrow> ('c \<Rightarrow> bytes) \<Rightarrow> (bytes \<Rightarrow> bool) \<Rightarrow> ('c \<Rightarrow> bytes) \<Rightarrow> bytes \<Rightarrow> bytes \<Rightarrow> nat \<Rightarrow>
     int \<times> bytes \<times> nat \<times> nat \<Rightarrow> bool" where
  "converted legal src short dst out block lim res \<longleftrightarrow>
     (\<exists>ret cs rest. res = (ret, text_of dst cs @ drop (length (text_of dst cs)) out,
          length (text_of dst cs), length (text_of src cs)) \<and>
       block = text_of src cs @ rest \<and> (\<forall>c \<in> set cs. legal c) \<and> length (text_of dst cs) \<le> lim \<and>
       (if rest = [] then ret = int (length (text_of dst cs))
        else if \<exists>c r. legal c \<and> rest = src c @ r
        then ret = XML_ENC_ERR_SPACE \<and>
          (\<exists>c r. legal c \<and> rest = src c @ r \<and> lim < length (text_of dst (cs @ [c])))
        else ret = (if short rest then int (length (text_of dst cs)) else XML_ENC_ERR_INPUT)))"

context strict_transcoder begin

lemma run_any:
  assumes "iunit dvd n" "ounit dvd lim" "n \<le> length inp" "lim \<le> length out"
  shows "\<exists>res. run_conv body out lim inp n = Some res \<and> converted legal src short dst out (take n inp) lim res"
proof -
  have "iunit dvd length (take n inp)" "length (take n inp) \<le> n" using assms(1,3) by (simp_all add: min_absorb2)
  from conv_any [OF this(1) assms(2) this(2), of "[]"] obtain ret cs rest where
    c: "conv_loop body n (take n inp) [] lim = Some (ret, text_of dst cs, rest)" "take n inp = text_of src cs @ rest"
      "\<forall>c \<in> set cs. legal c" "length (text_of dst cs) \<le> lim"
      "stopped rest (lim - length (text_of dst cs)) (length (text_of dst cs)) ret" unfolding append_Nil by blast
  have "length (text_of dst cs) \<le> length out" using c(4) assms(4) by linarith
  then have o: "copy_out out 0 (text_of dst cs) = Some (text_of dst cs @ drop (length (text_of dst cs)) out)" by (rule copy_out_front)
  have "n = length (text_of src cs) + length rest" using arg_cong [OF c(2), of length] assms(3) by simp
  then have run: "run_conv body out lim inp n =
    Some (ret, text_of dst cs @ drop (length (text_of dst cs)) out, length (text_of dst cs), length (text_of src cs))"
    using c(1) o assms(3) by (simp add: run_conv_def copy_in_def)
  have "lim < length (text_of dst (cs @ [c])) \<longleftrightarrow> lim - length (text_of dst cs) < length (dst c)" for c
    using c(4) by auto
  then have "converted legal src short dst out (take n inp) lim
      (ret, text_of dst cs @ drop (length (text_of dst cs)) out, length (text_of dst cs), length (text_of src cs))"
    unfolding converted_def using c(2-5)
    by (intro exI [of _ ret] exI [of _ cs] exI [of _ rest]) (auto simp: stopped_def split: if_splits)
  with run show ?thesis by blast
qed

end

sublocale byte_order \<subseteq> dec: strict_transcoder "utf16_body get16" scalar "utf16_enc ser" utf8_enc 1 2 "utf16_cut ser"
  by (rule dec_strict)

sublocale byte_order \<subseteq> enc: strict_transcoder "to_utf16_body put16" scalar utf8_enc "utf16_enc ser" 2 1 utf8_cut
  by (rule enc_strict)

lemma unat_le16: "unat (le16 a b) = unat a + 256 * unat b" "unat (be16 a b) = 256 * unat a + unat b"
proof -
  have *: "unat (push_bit 8 (ucast y :: uint) OR ucast x) = 256 * unat y + unat x" for x y :: byte
    using unat_shift_or [of "ucast y" 8 "ucast x"] unat_byte_less [of x] unat_byte_less [of y] by simp
  then show "unat (le16 a b) = unat a + 256 * unat b" "unat (be16 a b) = 256 * unat a + unat b"
    by (simp_all add: le16_def be16_def or.commute)
qed

lemma unat_word_byte: "n < 256 \<Longrightarrow> unat (word_of_nat n :: byte) = n"
  by (simp add: unat_of_nat)

lemma byte_pair:
  fixes a b :: byte
  shows "(unat a + 256 * unat b) mod 256 = unat a" "(unat a + 256 * unat b) div 256 = unat b" "unat a + 256 * unat b < 65536"
proof -
  have "unat a < 256" "unat b < 256" by simp_all
  then show "(unat a + 256 * unat b) mod 256 = unat a" "(unat a + 256 * unat b) div 256 = unat b" "unat a + 256 * unat b < 65536"
    by (simp, simp, linarith)
qed

interpretation le: byte_order le16 put_le16 le_unit
proof
  fix u :: nat assume u: "u < 65536"
  then have "unat (word_of_nat (u mod 256) :: byte) = u mod 256" "unat (word_of_nat (u div 256) :: byte) = u div 256"
    by (simp_all add: unat_of_nat div_less_iff_less_mult)
  then show "\<exists>a b. le_unit u = [a, b] \<and> unat (le16 a b) = u" by (simp add: le_unit_def unat_le16)
next
  fix a b show "unat (le16 a b) < 65536 \<and> le_unit (unat (le16 a b)) = [a, b]"
    using byte_pair [of a b] by (simp add: unat_le16 le_unit_def)
next
  fix x :: uint assume "unat x < 65536"
  then show "put_le16 x = le_unit (unat x)"
    by (simp add: put_le16_def le_unit_def byte_eqI word_take_and unat_take_bit unat_drop_bit)
qed

interpretation be: byte_order be16 put_be16 be_unit
proof
  fix u :: nat assume u: "u < 65536"
  then have "unat (word_of_nat (u mod 256) :: byte) = u mod 256" "unat (word_of_nat (u div 256) :: byte) = u div 256"
    by (simp_all add: unat_of_nat div_less_iff_less_mult)
  then show "\<exists>a b. be_unit u = [a, b] \<and> unat (be16 a b) = u" by (simp add: be_unit_def unat_le16)
next
  fix a b show "unat (be16 a b) < 65536 \<and> be_unit (unat (be16 a b)) = [a, b]"
    using byte_pair [of b a] by (simp add: unat_le16 be_unit_def add.commute)
next
  fix x :: uint assume "unat x < 65536"
  then show "put_be16 x = be_unit (unat x)"
    by (simp add: put_be16_def be_unit_def byte_eqI word_take_and unat_take_bit unat_drop_bit)
qed

section \<open>8-bit encodings\<close>

interpretation latin1: strict_transcoder latin1_body "\<lambda>b :: byte. True" "\<lambda>b. [b]" "\<lambda>b. utf8_enc (unat b)" 1 1 "\<lambda>_. False"
proof
  fix b :: byte and rest :: bytes and sp :: nat
  let ?c = "ucast b :: uint"
  have l: "unat ?c < 0x110000" by simp
  show "latin1_body ([b] @ rest) sp =
    Some (if length (utf8_enc (unat b)) \<le> sp then ConvNext (length [b]) (utf8_enc (unat b)) else ConvStop XML_ENC_ERR_SPACE)"
  proof (cases "unat b < 128")
    case True
    then show ?thesis using enc_bytes(1) [OF l] by (auto simp: latin1_body_def word_less_nat_alt)
  next
    case False
    have "unat ?c < 0x800" by simp
    then show ?thesis using False enc_bytes(2) [OF l] by (simp add: latin1_body_def word_less_nat_alt Let_def)
  qed
next
  fix inp :: bytes and sp :: nat
  assume "inp \<noteq> []" "\<And>c rest. True \<Longrightarrow> inp \<noteq> [c] @ rest"
  then show "latin1_body inp sp = Some (if False then ConvBreak else ConvStop XML_ENC_ERR_INPUT)"
    by (cases inp) auto
qed simp_all

lemma ucast_ucast_byte: "ucast (ucast (b :: byte) :: uint) = b"
  by (simp add: word_unat_eq_iff unat_ucast_uint_byte)

interpretation to_latin1: transcoder to_latin1_body "\<lambda>b :: byte. True" "\<lambda>b. utf8_enc (unat b)" "\<lambda>b. [b]" 1
proof
  fix b :: byte and rest :: bytes and sp :: nat
  have s: "scalar (unat b)" using unat_byte_less [of b] unfolding scalar_def by linarith
  show "utf8_enc (unat b) \<noteq> []" using length_enc_nat [of "unat b"] by (cases "utf8_enc (unat b)") (simp_all split: if_splits)
  show "to_latin1_body (utf8_enc (unat b) @ rest) sp =
    Some (if length [b] \<le> sp then ConvNext (length (utf8_enc (unat b))) [b] else ConvStop XML_ENC_ERR_SPACE)"
  proof (cases "unat b < 128")
    case True
    then have "utf8_enc (unat b) = [b]" by (simp add: utf8_enc_def utf8_codes_def)
    then show ?thesis using True by (simp add: to_latin1_body_def word_less_nat_alt ucast_ucast_byte)
  next
    case False
    define q r where "q = unat b div 64" and "r = unat b mod 64"
    have b: "unat b = 64 * q + r" "r < 64" "2 \<le> q" "q < 4"
      using False unat_byte_less [of b] by (simp_all add: q_def r_def div_less_iff_less_mult less_eq_div_iff_mult_less_eq)
    have e: "utf8_enc (unat b) = [word_of_nat (192 + q), word_of_nat (128 + r)]"
      using False unat_byte_less [of b] by (simp add: utf8_enc_def utf8_codes_def q_def r_def)
    let ?u = "word_of_nat (192 + q) :: byte" and ?v = "word_of_nat (128 + r) :: byte"
    have u: "unat ?u = 192 + q" "unat ?v = 128 + r" using b by (simp_all only: unat_of_nat) simp_all
    have "unat (push_bit 6 (ucast ?u :: uint) OR (ucast ?v AND 0x3F)) = 64 * (192 + q) + r"
      using cont_step [of "ucast ?u" ?v] u b(2,4) by simp
    moreover have "(64 * (192 + q) + r) mod 256 = 64 * q + r"
      using mod_mult_self4 [of 256 48 "64 * q + r"] b by (simp add: add.assoc)
    ultimately have "ucast (push_bit 6 (ucast ?u :: uint) OR (ucast ?v AND 0x3F)) = b"
      unfolding word_unat_eq_iff unat_ucast_uint_byte using b(1) by metis
    then show ?thesis using e u b(3,4) by (simp add: to_latin1_body_def word_less_nat_alt word_le_nat_alt)
  qed
qed simp_all

text \<open>An 8-bit encoding given by its table of 128 code points; the entry 0 is undefined.\<close>

definition table_code :: "16 word list \<Rightarrow> byte \<Rightarrow> nat" where
  "table_code tab b = (if unat b < 128 then unat b else unat (tab ! (unat b - 128)))"

definition table_ok :: "16 word list \<Rightarrow> bool" where
  "table_ok tab \<longleftrightarrow> length tab = 128 \<and> (\<forall>u \<in> set tab. u = 0 \<or> 128 \<le> unat u)"

lemma eight_bit_step:
  assumes tab: "table_ok tab"
  shows "eight_bit_body tab (b # rest) sp =
    Some (if 128 \<le> unat b \<and> table_code tab b = 0 then ConvStop XML_ENC_ERR_INPUT
      else if length (utf8_enc (table_code tab b)) \<le> sp then ConvNext 1 (utf8_enc (table_code tab b))
      else ConvStop XML_ENC_ERR_SPACE)"
proof (cases "unat b < 128")
  case True
  have "unat (ucast b :: uint) < 0x110000" by simp
  then show ?thesis using True enc_bytes(1) [of "ucast b"] by (auto simp: eight_bit_body_def word_less_nat_alt table_code_def)
next
  case False
  define u where "u = tab ! (unat b - 128)"
  have "unat b < 256" by (rule unat_byte_less)
  then have i: "unat b - 128 < length tab" using tab False unfolding table_ok_def by linarith
  have rd: "rd tab (unat b - 128) = Some u" using i by (simp add: rd_def u_def)
  have w: "unat ((ucast b :: uint) - 0x80) = unat b - 128" using False by (simp add: unat_sub word_le_nat_alt)
  let ?c = "ucast u :: uint"
  have uc: "unat ?c = unat u" using unsigned_less [of u, where ?'a = nat] by (simp add: unsigned_ucast_eq take_bit_eq_mod)
  have ul: "unat u < 65536" using unsigned_less [of u, where ?'a = nat] by simp
  then have l: "unat ?c < 0x110000" using uc by simp
  have tc: "table_code tab b = unat u" using False by (simp add: table_code_def u_def)
  have u128: "u = 0 \<or> 128 \<le> unat u" using tab i nth_mem by (auto simp: table_ok_def u_def)
  have m5: "drop_bit 6 ?c AND 0x1F = drop_bit 6 ?c" if "unat u < 0x800"
    using that uc by (simp add: word_unat_eq_iff word_take_and unat_take_bit unat_drop_bit div_less_iff_less_mult)
  have m4: "drop_bit 12 ?c AND 0x0F = drop_bit 12 ?c"
    using ul uc by (simp add: word_unat_eq_iff word_take_and unat_take_bit unat_drop_bit div_less_iff_less_mult)
  have z: "?c = 0 \<longleftrightarrow> unat u = 0" using uc by (simp add: word_unat_eq_iff)
  have bz: "\<not> (ucast b :: uint) < 0x80" using False by (simp add: word_less_nat_alt)
  have B: "eight_bit_body tab (b # rest) sp = (
     if ?c = 0 then Some (ConvStop XML_ENC_ERR_INPUT)
     else if ?c < 0x800 then
         Some (if sp < 2 then ConvStop XML_ENC_ERR_SPACE
               else ConvNext 1 [ucast (drop_bit 6 ?c AND 0x1F OR 0xC0), ucast (?c AND 0x3F OR 0x80)])
     else Some (if sp < 3 then ConvStop XML_ENC_ERR_SPACE
               else ConvNext 1 [ucast (drop_bit 12 ?c AND 0x0F OR 0xE0),
                                ucast (drop_bit 6 ?c AND 0x3F OR 0x80), ucast (?c AND 0x3F OR 0x80)]))"
    using bz rd w by (simp add: eight_bit_body_def Let_def)
  consider "unat u = 0" | "unat u \<noteq> 0" "unat u < 0x800" | "0x800 \<le> unat u" by linarith
  then show ?thesis
  proof cases
    case 1
    then show ?thesis unfolding B using z tc False by simp
  next
    case 2
    then have "128 \<le> unat u" using u128 by auto
    then show ?thesis unfolding B using 2 z uc tc False m5 enc_bytes(2) [OF l] by (simp add: word_less_nat_alt)
  next
    case 3
    then show ?thesis unfolding B using z uc ul tc False m4 enc_bytes(3) [OF l] by (simp add: word_less_nat_alt)
  qed
qed

lemma eight_bit_strict:
  assumes "table_ok tab"
  shows "strict_transcoder (eight_bit_body tab) (\<lambda>b. unat b < 128 \<or> table_code tab b \<noteq> 0) (\<lambda>b. [b])
    (\<lambda>b. utf8_enc (table_code tab b)) 1 1 (\<lambda>_. False)"
proof
  fix b :: byte and rest :: bytes and sp :: nat
  assume "unat b < 128 \<or> table_code tab b \<noteq> 0"
  then show "eight_bit_body tab ([b] @ rest) sp = Some (if length (utf8_enc (table_code tab b)) \<le> sp
    then ConvNext (length [b]) (utf8_enc (table_code tab b)) else ConvStop XML_ENC_ERR_SPACE)"
    using eight_bit_step [OF assms, of b rest sp] by auto
next
  fix inp :: bytes and sp :: nat
  assume i: "inp \<noteq> []" and no: "\<And>c rest. unat c < 128 \<or> table_code tab c \<noteq> 0 \<Longrightarrow> inp \<noteq> [c] @ rest"
  then obtain b rest where b: "inp = b # rest" by (cases inp) auto
  have "\<not> (unat b < 128 \<or> table_code tab b \<noteq> 0)" 
  proof
    assume "unat b < 128 \<or> table_code tab b \<noteq> 0"
    from no [OF this, of rest] b show False by simp
  qed
  then have "128 \<le> unat b \<and> table_code tab b = 0" by simp
  then show "eight_bit_body tab inp sp = Some (if False then ConvBreak else ConvStop XML_ENC_ERR_INPUT)"
    using eight_bit_step [OF assms, of b rest sp] b by simp
qed simp_all


section \<open>Properties\<close>

text \<open>
  C34. UTF-8 and UTF-16 round trip: for every text of Unicode scalar values and large enough
  buffers, \<open>UTF8ToUTF16LE\<close> and \<open>UTF8ToUTF16BE\<close> turn the UTF-8 encoding into the UTF-16
  encoding, surrogate pairs included, and \<open>UTF16LEToUTF8\<close> and \<open>UTF16BEToUTF8\<close> turn it back.
  Each consumes all of its input and returns the number of bytes written.
\<close>

theorem utf16_roundtrip:
  fixes cs :: "nat list"
  defines "u8 \<equiv> text_of utf8_enc cs" and "u16l \<equiv> text_of (utf16_enc le_unit) cs" and "u16b \<equiv> text_of (utf16_enc be_unit) cs"
  assumes "\<forall>c \<in> set cs. scalar c" "length u16l \<le> m" "length u16b \<le> m" "even m" "length out = m"
    "length u8 \<le> n" "length buf = n"
  shows "UTF8ToUTF16LE (Ptr out) m (Ptr u8) (length u8) = Some (int (length u16l), Ptr (u16l @ drop (length u16l) out), length u16l, length u8) \<and>
    UTF16LEToUTF8 buf n u16l (length u16l) = Some (int (length u8), u8 @ drop (length u8) buf, length u8, length u16l) \<and>
    UTF8ToUTF16BE (Ptr out) m (Ptr u8) (length u8) = Some (int (length u16b), Ptr (u16b @ drop (length u16b) out), length u16b, length u8) \<and>
    UTF16BEToUTF8 buf n u16b (length u16b) = Some (int (length u8), u8 @ drop (length u8) buf, length u8, length u16b)"
proof -
  have ev: "even (length u16l)" "even (length u16b)"
    using assms(4) le.utf16_length be.utf16_length unfolding u16l_def u16b_def by (induction cs) auto
  have "run_conv (to_utf16_body put_le16) out m (u8 @ []) (length u8) = Some (int (length u16l), u16l @ drop (length u16l) out, length u16l, length u8)"
    using le.enc.run_text [of cs m out "length u8" "[]"] le.enc.fits_all [of cs m] assms by (simp add: Let_def)
  moreover have "run_conv (to_utf16_body put_be16) out m (u8 @ []) (length u8) = Some (int (length u16b), u16b @ drop (length u16b) out, length u16b, length u8)"
    using be.enc.run_text [of cs m out "length u8" "[]"] be.enc.fits_all [of cs m] assms by (simp add: Let_def)
  moreover have "run_conv (utf16_body le16) buf n (u16l @ []) (length u16l) = Some (int (length u8), u8 @ drop (length u8) buf, length u8, length u16l)"
    using le.dec.run_text [of cs n buf "length u16l" "[]"] le.dec.fits_all [of cs n] assms by (simp add: Let_def)
  moreover have "run_conv (utf16_body be16) buf n (u16b @ []) (length u16b) = Some (int (length u8), u8 @ drop (length u8) buf, length u8, length u16b)"
    using be.dec.run_text [of cs n buf "length u16b" "[]"] be.dec.fits_all [of cs n] assms by (simp add: Let_def)
  ultimately show ?thesis using assms(7) ev
    by (simp add: UTF8ToUTF16LE_def UTF8ToUTF16BE_def UTF16LEToUTF8_def UTF16BEToUTF8_def)
qed

theorem utf16_roundtrip_witness:
  "UTF16LEToUTF8 [0, 0, 0, 0] 4 (utf16_enc le_unit 0x1F600) 4 = Some (4, utf8_enc 0x1F600, 4, 4)"
  using utf16_roundtrip [of "[0x1F600]" 4 "[0, 0, 0, 0]" 4 "[0, 0, 0, 0]"]
  by (simp add: scalar_def le.utf16_length be.utf16_length length_enc_nat)

text \<open>
  C35. The UTF-16 converters on arbitrary input and any output limit.  They return, never read
  outside the input block nor write outside the output buffer; what they have consumed is a
  sequence of encoded scalar values and what they have written is its encoding in the other form.
  The result is the number of bytes written when all is consumed, XML\_ENC\_ERR\_SPACE exactly when
  the next character is there and does not fit, and when the rest of the input does not start with
  a character XML\_ENC\_ERR\_INPUT, except for a character cut off by the end of the block (a high
  surrogate alone; a UTF-8 lead byte that announces more bytes than are left), where it is the
  number of bytes written and the cut-off character is left unconsumed.
\<close>

theorem utf16_converters_sound:
  assumes "n \<le> length inp" "lim \<le> length out"
  shows "(\<exists>res. UTF16LEToUTF8 out lim inp n = Some res \<and>
      converted scalar (utf16_enc le_unit) (utf16_cut le_unit) utf8_enc out (take (n - n mod 2) inp) lim res) \<and>
    (\<exists>res. UTF16BEToUTF8 out lim inp n = Some res \<and>
      converted scalar (utf16_enc be_unit) (utf16_cut be_unit) utf8_enc out (take (n - n mod 2) inp) lim res) \<and>
    (\<exists>ret ob a b. UTF8ToUTF16LE (Ptr out) lim (Ptr inp) n = Some (ret, Ptr ob, a, b) \<and>
      converted scalar utf8_enc utf8_cut (utf16_enc le_unit) out (take n inp) (lim - lim mod 2) (ret, ob, a, b)) \<and>
    (\<exists>ret ob a b. UTF8ToUTF16BE (Ptr out) lim (Ptr inp) n = Some (ret, Ptr ob, a, b) \<and>
      converted scalar utf8_enc utf8_cut (utf16_enc be_unit) out (take n inp) (lim - lim mod 2) (ret, ob, a, b))"
proof (intro conjI)
  have ev: "2 dvd k - k mod 2" for k :: nat by (simp add: dvd_minus_mod)
  have n: "n - n mod 2 \<le> length inp" "lim - lim mod 2 \<le> length out" using assms by simp_all
  show "\<exists>res. UTF16LEToUTF8 out lim inp n = Some res \<and>
      converted scalar (utf16_enc le_unit) (utf16_cut le_unit) utf8_enc out (take (n - n mod 2) inp) lim res"
    unfolding UTF16LEToUTF8_def by (rule le.dec.run_any) (use ev n assms in auto)
  show "\<exists>res. UTF16BEToUTF8 out lim inp n = Some res \<and>
      converted scalar (utf16_enc be_unit) (utf16_cut be_unit) utf8_enc out (take (n - n mod 2) inp) lim res"
    unfolding UTF16BEToUTF8_def by (rule be.dec.run_any) (use ev n assms in auto)
  show "\<exists>ret ob a b. UTF8ToUTF16LE (Ptr out) lim (Ptr inp) n = Some (ret, Ptr ob, a, b) \<and>
      converted scalar utf8_enc utf8_cut (utf16_enc le_unit) out (take n inp) (lim - lim mod 2) (ret, ob, a, b)"
    using le.enc.run_any [of n "lim - lim mod 2" inp out] ev n assms by (fastforce simp: UTF8ToUTF16LE_def)
  show "\<exists>ret ob a b. UTF8ToUTF16BE (Ptr out) lim (Ptr inp) n = Some (ret, Ptr ob, a, b) \<and>
      converted scalar utf8_enc utf8_cut (utf16_enc be_unit) out (take n inp) (lim - lim mod 2) (ret, ob, a, b)"
    using be.enc.run_any [of n "lim - lim mod 2" inp out] ev n assms by (fastforce simp: UTF8ToUTF16BE_def)
qed

theorem utf16_converters_sound_witness:
  "\<exists>res. UTF16LEToUTF8 [9, 9] 2 [0, 0xD8, 65, 0, 7] 5 = Some res \<and>
     converted scalar (utf16_enc le_unit) (utf16_cut le_unit) utf8_enc [9, 9] [0, 0xD8, 65, 0] 2 res"
  using utf16_converters_sound [of 5 "[0, 0xD8, 65, 0, 7]" 2 "[9, 9]"] by simp

text \<open>
  C36. ISO Latin 1: \<open>latin1ToUTF8\<close> and \<open>UTF8ToLatin1\<close> are inverse on every text when there
  is room, and with a smaller output buffer \<open>latin1ToUTF8\<close> stops at a character boundary with
  XML\_ENC\_ERR\_SPACE after the longest prefix that fits.  \<open>UTF8ToLatin1\<close> does not look
  at the top bits of a continuation byte: any byte is taken for one.
\<close>

theorem latin1_roundtrip:
  fixes bs :: bytes
  defines "u8 \<equiv> text_of (\<lambda>b. utf8_enc (unat b)) bs"
  assumes "length u8 = length out" "length buf = length bs" "k \<le> length out"
  shows "latin1ToUTF8 (Ptr out) (length out) (Ptr bs) (length bs) = Some (int (length u8), Ptr u8, length u8, length bs) \<and>
    UTF8ToLatin1 (Ptr buf) (length bs) (Ptr u8) (length u8) = Some (int (length bs), Ptr bs, length bs, length u8) \<and>
    (\<exists>ret ob a b. latin1ToUTF8 (Ptr out) k (Ptr bs) (length bs) = Some (ret, Ptr ob, a, b) \<and>
      take a ob = text_of (\<lambda>b. utf8_enc (unat b)) (take b bs) \<and> a \<le> k \<and>
      (ret = (if b = length bs then int a else XML_ENC_ERR_SPACE))) \<and>
    UTF8ToLatin1 (Ptr [0]) 1 (Ptr [0xC3, x]) 2 = Some (1, Ptr [0xC0 OR (x AND 0x3F)], 1, 2)"
proof -
  let ?e = "\<lambda>b :: byte. utf8_enc (unat b)"
  have s: "text_of (\<lambda>b. [b]) bs = bs" for bs :: bytes by (induction bs) auto
  have run: "run_conv latin1_body out m (bs @ []) (length bs) =
    (let k = fits ?e m bs; ts = text_of ?e (take k bs)
     in Some (if k = length bs then int (length ts) else XML_ENC_ERR_SPACE, ts @ drop (length ts) out, length ts, length (take k bs)))"
    if "m \<le> length out" for m
    using latin1.run_text [of bs m out "length bs" "[]"] that unfolding s by simp
  have f: "fits ?e (length out) bs = length bs" using latin1.fits_all [of bs "length out"] assms(2) by (simp add: u8_def)
  have 2: "run_conv to_latin1_body buf (length bs) (u8 @ []) (length u8) = Some (int (length bs), bs, length bs, length u8)"
    using to_latin1.run_text [of bs "length bs" buf "length u8" "[]"] to_latin1.fits_all [of bs "length bs"] assms(3)
    unfolding s u8_def by (simp add: Let_def)
  have fl: "length (take (fits ?e k bs) bs) = fits ?e k bs" using latin1.fits_length [of k bs] by simp
  have x: "run_conv to_latin1_body [0] 1 [0xC3, x] 2 = Some (1, [0xC0 OR (x AND 0x3F)], 1, 2)"
  proof -
    have e: "(12480 :: byte) = 0xC0" by simp
    have "ucast (push_bit 6 (0xC3 :: uint) OR (ucast x AND 0x3F)) = 0xC0 OR (x AND 0x3F)"
      by (simp add: unsigned_or_eq unsigned_and_eq ucast_ucast_byte) (simp only: e)
    then have b: "to_latin1_body [0xC3, x] 1 = Some (ConvNext 2 [0xC0 OR (x AND 0x3F)])"
      by (simp add: to_latin1_body_def Let_def rd_def)
    have "conv_loop to_latin1_body (Suc 1) [0xC3, x] [] 1 = Some (1, [0xC0 OR (x AND 0x3F)], [])"
      unfolding conv_loop.simps b by simp
    then have "conv_loop to_latin1_body 2 [0xC3, x] [] 1 = Some (1, [0xC0 OR (x AND 0x3F)], [])"
      by (simp only: Suc_1)
    then show ?thesis by (simp add: run_conv_def copy_in_def copy_out_def)
  qed
  show ?thesis
  proof (intro conjI)
    show "latin1ToUTF8 (Ptr out) (length out) (Ptr bs) (length bs) = Some (int (length u8), Ptr u8, length u8, length bs)"
      using run [of "length out"] f assms(2) by (simp add: latin1ToUTF8_def u8_def Let_def)
    show "UTF8ToLatin1 (Ptr buf) (length bs) (Ptr u8) (length u8) = Some (int (length bs), Ptr bs, length bs, length u8)"
      using 2 by (simp add: UTF8ToLatin1_def)
    show "\<exists>ret ob a b. latin1ToUTF8 (Ptr out) k (Ptr bs) (length bs) = Some (ret, Ptr ob, a, b) \<and>
      take a ob = text_of ?e (take b bs) \<and> a \<le> k \<and> (ret = (if b = length bs then int a else XML_ENC_ERR_SPACE))"
      using run [OF assms(4)] fl latin1.fits_room [of k bs] by (simp add: latin1ToUTF8_def Let_def)
    show "UTF8ToLatin1 (Ptr [0]) 1 (Ptr [0xC3, x]) 2 = Some (1, Ptr [0xC0 OR (x AND 0x3F)], 1, 2)"
      using x by (simp add: UTF8ToLatin1_def)
  qed
qed

theorem latin1_roundtrip_witness:
  "UTF8ToLatin1 (Ptr [0, 0]) 2 (Ptr [0x61, 0xC3, 0xA9]) 3 = Some (2, Ptr [0x61, 0xE9], 2, 3)"
  using latin1_roundtrip [of "[0x61, 0xE9]" "[0, 0, 0]" "[0, 0]" 0 0] by (simp add: utf8_enc_def utf8_codes_def) (simp add: numeral_2_eq_2 numeral_3_eq_3)

text \<open>
  The table-driven 8-bit decoder, for every table of 128 code points in which an entry is 0 or
  at least 128: \<open>EightBitToUtf8\<close> on any input and output limit returns, stays inside both
  buffers, and what it has written is the UTF-8 encoding of the code points that the table gives for the
  bytes it has consumed.  It stops with XML\_ENC\_ERR\_SPACE when the next character does not fit, and
  with XML\_ENC\_ERR\_INPUT at a byte that has no code point.
\<close>

theorem EightBitToUtf8_correct:
  assumes "table_ok tab" "n \<le> length inp" "lim \<le> length out"
  shows "\<exists>res. EightBitToUtf8 tab out lim inp n = Some res \<and>
    converted (\<lambda>b. unat b < 128 \<or> table_code tab b \<noteq> 0) (\<lambda>b. [b]) (\<lambda>_. False)
      (\<lambda>b. utf8_enc (table_code tab b)) out (take n inp) lim res"
  unfolding EightBitToUtf8_def
  by (rule strict_transcoder.run_any [OF eight_bit_strict [OF assms(1)]]) (use assms in simp_all)

theorem EightBitToUtf8_correct_witness:
  "\<exists>res. EightBitToUtf8 (replicate 128 0x20AC) [0, 0, 0, 0] 4 [0x41, 0x80] 2 = Some res \<and>
     converted (\<lambda>b. unat b < 128 \<or> table_code (replicate 128 0x20AC) b \<noteq> 0) (\<lambda>b. [b]) (\<lambda>_. False)
       (\<lambda>b. utf8_enc (table_code (replicate 128 0x20AC) b)) [0, 0, 0, 0] [0x41, 0x80] 4 res"
  using EightBitToUtf8_correct [of "replicate 128 0x20AC" 2 "[0x41, 0x80]" 4 "[0, 0, 0, 0]"] by (simp add: table_ok_def)

end
