(* ===== verification/Buf.thy ===== *)
theory Buf
  imports Xmlstring RobinHood
begin

text \<open>
  The memory buffers of \<open>buf.c\<close>: the structure \<open>xmlBuf\<close> with 64-bit sizes and the public
  structure \<open>xmlBuffer\<close> with 32-bit sizes.  A buffer holds its allocation as a block of bytes;
  \<open>content\<close>, which points into the allocation, is the offset \<open>content - mem\<close>.  Requests to
  the allocator return NULL or a block with arbitrary bytes, so a byte that is read before it was
  written is visible as such.
\<close>

section \<open>Allocation\<close>

type_synonym heap = "nat \<Rightarrow> (nat \<Rightarrow> byte) ptr"

definition malloc :: "heap \<Rightarrow> nat \<Rightarrow> xmlString" where
  "malloc mem n = (case mem n of NULL \<Rightarrow> NULL | Ptr f \<Rightarrow> Ptr (map f [0..<n]))"

definition realloc :: "heap \<Rightarrow> xmlString \<Rightarrow> nat \<Rightarrow> xmlString" where
  "realloc mem p n =
     (case malloc mem n of
        NULL \<Rightarrow> NULL
      | Ptr new \<Rightarrow> (case p of NULL \<Rightarrow> Ptr new | Ptr m \<Rightarrow> Ptr (take n m @ drop (length m) new)))"

abbreviation sizeof_xmlBuf :: nat where "sizeof_xmlBuf \<equiv> 48"
abbreviation sizeof_xmlBuffer :: nat where "sizeof_xmlBuffer \<equiv> 32"

section \<open>The structure xmlBuf\<close>

abbreviation SIZE_MAX :: size_t where "SIZE_MAX \<equiv> - 1"

abbreviation BUF_FLAG_OOM :: uint where "BUF_FLAG_OOM \<equiv> 1"
abbreviation BUF_FLAG_OVERFLOW :: uint where "BUF_FLAG_OVERFLOW \<equiv> 2"
abbreviation BUF_FLAG_STATIC :: uint where "BUF_FLAG_STATIC \<equiv> 4"

text \<open>After \<open>xmlBufDetach\<close> both \<open>mem\<close> and \<open>content\<close> are NULL; the offset is then 0.\<close>

record xmlBuf =
  bmem :: xmlString
  boffset :: nat
  buse :: size_t
  bsize :: size_t
  bmaxSize :: size_t
  bflags :: uint

definition BUF_ERROR :: "xmlBuf \<Rightarrow> bool" where
  "BUF_ERROR buf \<longleftrightarrow> bflags buf AND (BUF_FLAG_OOM OR BUF_FLAG_OVERFLOW) \<noteq> 0"

definition BUF_STATIC :: "xmlBuf \<Rightarrow> bool" where
  "BUF_STATIC buf \<longleftrightarrow> bflags buf AND BUF_FLAG_STATIC \<noteq> 0"

definition xmlBufMemoryError :: "xmlBuf \<Rightarrow> xmlBuf" where
  "xmlBufMemoryError buf = (if \<not> BUF_ERROR buf then buf\<lparr>bflags := bflags buf OR BUF_FLAG_OOM\<rparr> else buf)"

definition xmlBufOverflowError :: "xmlBuf \<Rightarrow> xmlBuf" where
  "xmlBufOverflowError buf =
     (if \<not> BUF_ERROR buf then buf\<lparr>bflags := bflags buf OR BUF_FLAG_OVERFLOW\<rparr> else buf)"

definition xmlBufCreate :: "(nat \<Rightarrow> heap) \<Rightarrow> size_t \<Rightarrow> xmlBuf ptr option" where
  "xmlBufCreate mem sz =
     (if sz = SIZE_MAX then Some NULL
      else if mem 0 sizeof_xmlBuf = NULL then Some NULL
      else case malloc (mem 1) (unat (sz + 1)) of
        NULL \<Rightarrow> Some NULL
      | Ptr m \<Rightarrow> do {
          m' \<leftarrow> wr m 0 0;
          Some (Ptr \<lparr>bmem = Ptr m', boffset = 0, buse = 0, bsize = sz, bmaxSize = SIZE_MAX - 1, bflags = 0\<rparr>) })"

definition xmlBufCreateMem :: "(nat \<Rightarrow> heap) \<Rightarrow> xmlString \<Rightarrow> size_t \<Rightarrow> bool \<Rightarrow> xmlBuf ptr option" where
  "xmlBufCreateMem mem src sz isStatic =
     (case src of
        NULL \<Rightarrow> Some NULL
      | Ptr s \<Rightarrow>
        if mem 0 sizeof_xmlBuf = NULL then Some NULL
        else if isStatic then do {
          c \<leftarrow> rd s (unat sz);
          if c \<noteq> 0 then Some NULL
          else Some (Ptr \<lparr>bmem = Ptr s, boffset = 0, buse = sz, bsize = sz, bmaxSize = SIZE_MAX - 1,
                          bflags = BUF_FLAG_STATIC\<rparr>) }
        else
          (case malloc (mem 1) (unat (sz + 1)) of
             NULL \<Rightarrow> Some NULL
           | Ptr m \<Rightarrow> do {
               xs \<leftarrow> copy_in (unat sz) s;
               m1 \<leftarrow> copy_out m 0 xs;
               m2 \<leftarrow> wr m1 (unat sz) 0;
               Some (Ptr \<lparr>bmem = Ptr m2, boffset = 0, buse = sz, bsize = sz, bmaxSize = SIZE_MAX - 1,
                          bflags = 0\<rparr>) }))"

text \<open>
  The string returned by \<open>xmlBufDetach\<close>.  \<open>xmlStrndup\<close> takes an \<open>int\<close>, so the 64-bit
  length is truncated.
\<close>

definition xmlBufDetach :: "allocator \<Rightarrow> xmlBuf ptr \<Rightarrow> (xmlString \<times> xmlBuf ptr) option" where
  "xmlBufDetach mem bufp =
     (case bufp of
        NULL \<Rightarrow> Some (NULL, bufp)
      | Ptr buf \<Rightarrow>
        if BUF_ERROR buf \<or> BUF_STATIC buf then Some (NULL, bufp)
        else do {
          ret \<leftarrow> (case bmem buf of
                    NULL \<Rightarrow> Some NULL
                  | Ptr m \<Rightarrow>
                      if boffset buf \<noteq> 0 then xmlStrndup mem (Ptr (drop (boffset buf) m)) (c_int (uint (buse buf)))
                      else Some (Ptr m));
          Some (ret, Ptr (buf\<lparr>bmem := NULL, boffset := 0, bsize := 0, buse := 0\<rparr>)) })"

text \<open>The block that \<open>xmlBufFree\<close> gives back.\<close>

definition xmlBufFree :: "xmlBuf ptr \<Rightarrow> xmlString" where
  "xmlBufFree bufp =
     (case bufp of NULL \<Rightarrow> NULL | Ptr buf \<Rightarrow> if \<not> BUF_STATIC buf then bmem buf else NULL)"

definition xmlBufEmpty :: "xmlBuf ptr \<Rightarrow> xmlBuf ptr option" where
  "xmlBufEmpty bufp =
     (case bufp of
        NULL \<Rightarrow> Some bufp
      | Ptr buf \<Rightarrow>
        if BUF_ERROR buf \<or> BUF_STATIC buf then Some bufp
        else case bmem buf of
          NULL \<Rightarrow> Some bufp
        | Ptr m \<Rightarrow> do {
            m' \<leftarrow> wr m 0 0;
            Some (Ptr (buf\<lparr>bmem := Ptr m', buse := 0, bsize := bsize buf + word_of_nat (boffset buf), boffset := 0\<rparr>)) })"

definition xmlBufShrink :: "xmlBuf ptr \<Rightarrow> size_t \<Rightarrow> size_t \<times> xmlBuf ptr" where
  "xmlBufShrink bufp len =
     (case bufp of
        NULL \<Rightarrow> (0, bufp)
      | Ptr buf \<Rightarrow>
        if BUF_ERROR buf then (0, bufp)
        else if len = 0 then (0, bufp)
        else if len > buse buf then (0, bufp)
        else (len, Ptr (buf\<lparr>buse := buse buf - len, boffset := boffset buf + unat len, bsize := bsize buf - len\<rparr>)))"

text \<open>The new capacity chosen by \<open>xmlBufGrowInternal\<close>.\<close>

definition buf_new_size :: "xmlBuf \<Rightarrow> size_t \<Rightarrow> size_t" where
  "buf_new_size buf len =
     (if bsize buf > len then
        (if bsize buf \<le> bmaxSize buf div 2 then bsize buf * 2 else bmaxSize buf)
      else
        let sz = buse buf + len
        in if sz \<le> bmaxSize buf - 100 then sz + 100 else sz)"

definition xmlBufGrowInternal :: "heap \<Rightarrow> xmlBuf \<Rightarrow> size_t \<Rightarrow> (int \<times> xmlBuf) option" where
  "xmlBufGrowInternal mem buf len =
     (let start = word_of_nat (boffset buf) in
      if len \<le> start + bsize buf - buse buf then
        (case bmem buf of
           NULL \<Rightarrow> None
         | Ptr m \<Rightarrow> do {
             m' \<leftarrow> memmove m 0 (boffset buf) (unat (buse buf + 1));
             Some (0, buf\<lparr>bmem := Ptr m', bsize := bsize buf + start, boffset := 0\<rparr>) })
      else if len > bmaxSize buf - buse buf then Some (- 1, xmlBufOverflowError buf)
      else
        let sz = buf_new_size buf len in
        if boffset buf = 0 then
          (case realloc mem (bmem buf) (unat (sz + 1)) of
             NULL \<Rightarrow> Some (- 1, xmlBufMemoryError buf)
           | Ptr newbuf \<Rightarrow> Some (0, buf\<lparr>bmem := Ptr newbuf, boffset := 0, bsize := sz\<rparr>))
        else
          (case malloc mem (unat (sz + 1)) of
             NULL \<Rightarrow> Some (- 1, xmlBufMemoryError buf)
           | Ptr newbuf \<Rightarrow> do {
               newbuf' \<leftarrow> (case bmem buf of
                             NULL \<Rightarrow> Some newbuf
                           | Ptr m \<Rightarrow> do {
                               xs \<leftarrow> copy_in (unat (buse buf + 1)) (drop (boffset buf) m);
                               copy_out newbuf 0 xs });
               Some (0, buf\<lparr>bmem := Ptr newbuf', boffset := 0, bsize := sz\<rparr>) }))"

definition xmlBufGrow :: "heap \<Rightarrow> xmlBuf ptr \<Rightarrow> size_t \<Rightarrow> (int \<times> xmlBuf ptr) option" where
  "xmlBufGrow mem bufp len =
     (case bufp of
        NULL \<Rightarrow> Some (- 1, bufp)
      | Ptr buf \<Rightarrow>
        if BUF_ERROR buf \<or> BUF_STATIC buf then Some (- 1, bufp)
        else if len \<le> bsize buf - buse buf then Some (0, bufp)
        else do {
          (r, buf') \<leftarrow> xmlBufGrowInternal mem buf len;
          Some (if r < 0 then - 1 else 0, Ptr buf') })"

text \<open>Pointers into the buffer: NULL or the bytes from there to the end of the allocation.\<close>

definition buf_content :: "xmlBuf \<Rightarrow> xmlString" where
  "buf_content buf = (case bmem buf of NULL \<Rightarrow> NULL | Ptr m \<Rightarrow> Ptr (drop (boffset buf) m))"

definition xmlBufContent :: "xmlBuf ptr \<Rightarrow> xmlString" where
  "xmlBufContent bufp =
     (case bufp of NULL \<Rightarrow> NULL | Ptr buf \<Rightarrow> if BUF_ERROR buf then NULL else buf_content buf)"

definition xmlBufEnd :: "xmlBuf ptr \<Rightarrow> xmlString" where
  "xmlBufEnd bufp =
     (case bufp of
        NULL \<Rightarrow> NULL
      | Ptr buf \<Rightarrow>
        if BUF_ERROR buf then NULL
        else case buf_content buf of NULL \<Rightarrow> NULL | Ptr s \<Rightarrow> Ptr (drop (unat (buse buf)) s))"

definition xmlBufAddLen :: "xmlBuf ptr \<Rightarrow> size_t \<Rightarrow> (int \<times> xmlBuf ptr) option" where
  "xmlBufAddLen bufp len =
     (case bufp of
        NULL \<Rightarrow> Some (- 1, bufp)
      | Ptr buf \<Rightarrow>
        if BUF_ERROR buf \<or> BUF_STATIC buf then Some (- 1, bufp)
        else if len > bsize buf - buse buf then Some (- 1, bufp)
        else case bmem buf of
          NULL \<Rightarrow> None
        | Ptr m \<Rightarrow> do {
            let u = buse buf + len;
            m' \<leftarrow> wr m (boffset buf + unat u) 0;
            Some (0, Ptr (buf\<lparr>bmem := Ptr m', buse := u\<rparr>)) })"

definition xmlBufUse :: "xmlBuf ptr \<Rightarrow> size_t" where
  "xmlBufUse bufp = (case bufp of NULL \<Rightarrow> 0 | Ptr buf \<Rightarrow> if BUF_ERROR buf then 0 else buse buf)"

definition xmlBufAvail :: "xmlBuf ptr \<Rightarrow> size_t" where
  "xmlBufAvail bufp = (case bufp of NULL \<Rightarrow> 0 | Ptr buf \<Rightarrow> if BUF_ERROR buf then 0 else bsize buf - buse buf)"

definition xmlBufIsEmpty :: "xmlBuf ptr \<Rightarrow> int" where
  "xmlBufIsEmpty bufp =
     (case bufp of NULL \<Rightarrow> - 1 | Ptr buf \<Rightarrow> if BUF_ERROR buf then - 1 else of_bool (buse buf = 0))"

definition xmlBufAdd :: "heap \<Rightarrow> xmlBuf ptr \<Rightarrow> xmlString \<Rightarrow> size_t \<Rightarrow> (int \<times> xmlBuf ptr) option" where
  "xmlBufAdd mem bufp str len =
     (case bufp of
        NULL \<Rightarrow> Some (- 1, bufp)
      | Ptr buf \<Rightarrow>
        if BUF_ERROR buf \<or> BUF_STATIC buf then Some (- 1, bufp)
        else if len = 0 then Some (0, bufp)
        else case str of
          NULL \<Rightarrow> Some (- 1, bufp)
        | Ptr s \<Rightarrow> do {
            (r, buf1) \<leftarrow> (if len > bsize buf - buse buf then xmlBufGrowInternal mem buf len else Some (0, buf));
            if r < 0 then Some (- 1, Ptr buf1)
            else case bmem buf1 of
              NULL \<Rightarrow> None
            | Ptr m \<Rightarrow> do {
                xs \<leftarrow> copy_in (unat len) s;
                m1 \<leftarrow> copy_out m (boffset buf1 + unat (buse buf1)) xs;
                let u = buse buf1 + len;
                m2 \<leftarrow> wr m1 (boffset buf1 + unat u) 0;
                Some (0, Ptr (buf1\<lparr>bmem := Ptr m2, buse := u\<rparr>)) } })"

definition xmlBufCat :: "heap \<Rightarrow> xmlBuf ptr \<Rightarrow> xmlString \<Rightarrow> (int \<times> xmlBuf ptr) option" where
  "xmlBufCat mem bufp str =
     (case str of
        NULL \<Rightarrow> Some (0, bufp)
      | Ptr s \<Rightarrow> do { n \<leftarrow> strlen s; xmlBufAdd mem bufp str (word_of_nat n) })"

text \<open>The pointers \<open>base\<close>, \<open>cur\<close> and \<open>end\<close> of a parser input.\<close>

definition xmlBufUpdateInput ::
  "xmlBuf ptr \<Rightarrow> (xmlString \<times> xmlString \<times> xmlString) ptr \<Rightarrow> size_t \<Rightarrow>
   (int \<times> (xmlString \<times> xmlString \<times> xmlString) ptr) option" where
  "xmlBufUpdateInput bufp input pos =
     (case (bufp, input) of
        (Ptr buf, Ptr _) \<Rightarrow>
          (case buf_content buf of
             NULL \<Rightarrow> if pos = 0 then Some (0, Ptr (NULL, NULL, NULL)) else None
           | Ptr s \<Rightarrow> do {
               cur \<leftarrow> (if unat pos \<le> length s then Some (drop (unat pos) s) else None);
               Some (0, Ptr (Ptr s, Ptr cur, Ptr (drop (unat (buse buf)) s))) })
      | _ \<Rightarrow> Some (- 1, input))"

definition xmlBufResetInput where
  "xmlBufResetInput bufp input = xmlBufUpdateInput bufp input 0"

section \<open>The structure xmlBuffer\<close>

datatype xmlBufferAllocationScheme =
  XML_BUFFER_ALLOC_DOUBLEIT | XML_BUFFER_ALLOC_EXACT | XML_BUFFER_ALLOC_IMMUTABLE
| XML_BUFFER_ALLOC_IO | XML_BUFFER_ALLOC_HYBRID | XML_BUFFER_ALLOC_BOUNDED

text \<open>
  \<open>xblock\<close> is the allocation: \<open>contentIO\<close> under XML\_BUFFER\_ALLOC\_IO, where \<open>content\<close>
  points \<open>xoffset\<close> bytes into it, and \<open>content\<close> under the other schemes, where
  \<open>contentIO\<close> is not used and \<open>xoffset\<close> is 0.
\<close>

record xmlBuffer =
  xblock :: xmlString
  xoffset :: nat
  xuse :: uint
  xsize :: uint
  xalloc :: xmlBufferAllocationScheme

abbreviation XML_ERR_OK :: int where "XML_ERR_OK \<equiv> 0"
abbreviation XML_ERR_NO_MEMORY :: int where "XML_ERR_NO_MEMORY \<equiv> 2"
abbreviation XML_ERR_ARGUMENT :: int where "XML_ERR_ARGUMENT \<equiv> 115"
abbreviation INT_MAX_u :: uint where "INT_MAX_u \<equiv> 0x7FFFFFFF"

definition xmlBufFromBuffer :: "(nat \<Rightarrow> heap) \<Rightarrow> xmlBuffer ptr \<Rightarrow> xmlBuf ptr option" where
  "xmlBufFromBuffer mem bufferp =
     (case bufferp of
        NULL \<Rightarrow> Some NULL
      | Ptr buffer \<Rightarrow>
        if mem 0 sizeof_xmlBuf = NULL then Some NULL
        else
          let ret = \<lparr>bmem = NULL, boffset = 0, buse = ucast (xuse buffer), bsize = 0,
                     bmaxSize = SIZE_MAX - 1, bflags = 0\<rparr>
          in case xblock buffer of
            NULL \<Rightarrow>
              (case malloc (mem 1) 51 of
                 NULL \<Rightarrow> Some (Ptr (xmlBufMemoryError (ret\<lparr>bsize := 50\<rparr>)))
               | Ptr m \<Rightarrow> do { m' \<leftarrow> wr m 0 0; Some (Ptr (ret\<lparr>bsize := 50, bmem := Ptr m'\<rparr>)) })
          | Ptr m \<Rightarrow> Some (Ptr (ret\<lparr>bsize := ucast (xsize buffer - 1), bmem := Ptr m, boffset := xoffset buffer\<rparr>)))"

definition xmlBufBackToBuffer :: "xmlBuf ptr \<Rightarrow> xmlBuffer ptr \<Rightarrow> int \<times> xmlBuffer ptr" where
  "xmlBufBackToBuffer bufp retp =
     (case (bufp, retp) of
        (Ptr buf, Ptr ret) \<Rightarrow>
          if BUF_ERROR buf \<or> BUF_STATIC buf \<or> buse buf \<ge> 0x7FFFFFFF then
            (- 1, Ptr (ret\<lparr>xblock := NULL, xoffset := 0, xuse := 0, xsize := 0\<rparr>))
          else
            (0, Ptr (ret\<lparr>xuse := ucast (buse buf),
                         xsize := if bsize buf \<ge> 0x7FFFFFFF then INT_MAX_u else ucast (bsize buf + 1),
                         xalloc := XML_BUFFER_ALLOC_IO, xblock := bmem buf, xoffset := boffset buf\<rparr>))
      | _ \<Rightarrow> (- 1, retp))"

definition xmlBufferCreate :: "(nat \<Rightarrow> heap) \<Rightarrow> xmlBuffer ptr option" where
  "xmlBufferCreate mem =
     (if mem 0 sizeof_xmlBuffer = NULL then Some NULL
      else case malloc (mem 1) 256 of
        NULL \<Rightarrow> Some NULL
      | Ptr m \<Rightarrow> do {
          m' \<leftarrow> wr m 0 0;
          Some (Ptr \<lparr>xblock = Ptr m', xoffset = 0, xuse = 0, xsize = 256, xalloc = XML_BUFFER_ALLOC_IO\<rparr>) })"

definition xmlBufferCreateSize :: "(nat \<Rightarrow> heap) \<Rightarrow> size_t \<Rightarrow> xmlBuffer ptr option" where
  "xmlBufferCreateSize mem sz =
     (if sz \<ge> 0x7FFFFFFF then Some NULL
      else if mem 0 sizeof_xmlBuffer = NULL then Some NULL
      else
        let size' = (if sz \<noteq> 0 then ucast (sz + 1) else 0) :: uint
        in if size' \<noteq> 0 then
             (case malloc (mem 1) (unat size') of
                NULL \<Rightarrow> Some NULL
              | Ptr m \<Rightarrow> do {
                  m' \<leftarrow> wr m 0 0;
                  Some (Ptr \<lparr>xblock = Ptr m', xoffset = 0, xuse = 0, xsize = size', xalloc = XML_BUFFER_ALLOC_IO\<rparr>) })
           else Some (Ptr \<lparr>xblock = NULL, xoffset = 0, xuse = 0, xsize = 0, xalloc = XML_BUFFER_ALLOC_IO\<rparr>))"

definition xmlBufferDetach :: "allocator \<Rightarrow> xmlBuffer ptr \<Rightarrow> (xmlString \<times> xmlBuffer ptr) option" where
  "xmlBufferDetach mem bufp =
     (case bufp of
        NULL \<Rightarrow> Some (NULL, bufp)
      | Ptr buf \<Rightarrow> do {
          ret \<leftarrow> (case xblock buf of
                    NULL \<Rightarrow> Some NULL
                  | Ptr m \<Rightarrow>
                      if xalloc buf = XML_BUFFER_ALLOC_IO \<and> xoffset buf \<noteq> 0
                      then xmlStrndup mem (Ptr (drop (xoffset buf) m)) (sint (xuse buf))
                      else Some (Ptr (drop (xoffset buf) m)));
          Some (ret, Ptr (buf\<lparr>xblock := NULL, xoffset := 0, xsize := 0, xuse := 0\<rparr>)) })"

definition xmlBufferFree :: "xmlBuffer ptr \<Rightarrow> xmlString" where
  "xmlBufferFree bufp = (case bufp of NULL \<Rightarrow> NULL | Ptr buf \<Rightarrow> xblock buf)"

definition xmlBufferEmpty :: "xmlBuffer ptr \<Rightarrow> xmlBuffer ptr option" where
  "xmlBufferEmpty bufp =
     (case bufp of
        NULL \<Rightarrow> Some bufp
      | Ptr buf \<Rightarrow>
        (case xblock buf of
           NULL \<Rightarrow> Some bufp
         | Ptr m \<Rightarrow>
           if xalloc buf = XML_BUFFER_ALLOC_IO then do {
             m' \<leftarrow> wr m 0 0;
             Some (Ptr (buf\<lparr>xuse := 0, xsize := xsize buf + word_of_nat (xoffset buf), xoffset := 0, xblock := Ptr m'\<rparr>)) }
           else do {
             m' \<leftarrow> wr m (xoffset buf) 0;
             Some (Ptr (buf\<lparr>xuse := 0, xblock := Ptr m'\<rparr>)) }))"

definition xmlBufferShrink :: "xmlBuffer ptr \<Rightarrow> uint \<Rightarrow> (int \<times> xmlBuffer ptr) option" where
  "xmlBufferShrink bufp len =
     (case bufp of
        NULL \<Rightarrow> Some (- 1, bufp)
      | Ptr buf \<Rightarrow>
        if len = 0 then Some (0, bufp)
        else if len > xuse buf then Some (- 1, bufp)
        else
          let u = xuse buf - len
          in if xalloc buf = XML_BUFFER_ALLOC_IO then
               Some (sint len, Ptr (buf\<lparr>xuse := u, xoffset := xoffset buf + unat len, xsize := xsize buf - len\<rparr>))
             else
               (case xblock buf of
                  NULL \<Rightarrow> None
                | Ptr m \<Rightarrow> do {
                    m' \<leftarrow> memmove m (xoffset buf) (xoffset buf + unat len) (unat (u + 1));
                    Some (sint len, Ptr (buf\<lparr>xuse := u, xblock := Ptr m'\<rparr>)) }))"

definition buffer_new_size :: "xmlBuffer \<Rightarrow> uint \<Rightarrow> uint" where
  "buffer_new_size buf len =
     (if xsize buf > len then
        (if xsize buf \<le> INT_MAX_u div 2 then xsize buf * 2 else INT_MAX_u)
      else
        let sz = xuse buf + len + 1
        in if sz \<le> INT_MAX_u - 100 then sz + 100 else sz)"

definition xmlBufferGrow :: "heap \<Rightarrow> xmlBuffer ptr \<Rightarrow> uint \<Rightarrow> (int \<times> xmlBuffer ptr) option" where
  "xmlBufferGrow mem bufp len =
     (case bufp of
        NULL \<Rightarrow> Some (- 1, bufp)
      | Ptr buf \<Rightarrow>
        if len < xsize buf - xuse buf then Some (0, bufp)
        else if len \<ge> INT_MAX_u - xuse buf then Some (- 1, bufp)
        else
          let sz = buffer_new_size buf len in do {
          r \<leftarrow> (if xalloc buf = XML_BUFFER_ALLOC_IO \<and> xoffset buf \<noteq> 0 then
                  (case malloc mem (unat sz) of
                     NULL \<Rightarrow> Some NULL
                   | Ptr newbuf \<Rightarrow>
                     (case xblock buf of
                        NULL \<Rightarrow> Some (Ptr newbuf)
                      | Ptr m \<Rightarrow> do {
                          xs \<leftarrow> copy_in (unat (xuse buf + 1)) (drop (xoffset buf) m);
                          newbuf' \<leftarrow> copy_out newbuf 0 xs;
                          Some (Ptr newbuf') }))
                else Some (realloc mem (xblock buf) (unat sz)));
          case r of
            NULL \<Rightarrow> Some (- 1, bufp)
          | Ptr newbuf \<Rightarrow>
              Some (sint (sz - xuse buf - 1), Ptr (buf\<lparr>xblock := Ptr newbuf, xoffset := 0, xsize := sz\<rparr>)) })"

definition xmlBufferContent :: "xmlBuffer ptr \<Rightarrow> xmlString" where
  "xmlBufferContent bufp =
     (case bufp of
        NULL \<Rightarrow> NULL
      | Ptr buf \<Rightarrow> (case xblock buf of NULL \<Rightarrow> NULL | Ptr m \<Rightarrow> Ptr (drop (xoffset buf) m)))"

definition xmlBufferLength :: "xmlBuffer ptr \<Rightarrow> int" where
  "xmlBufferLength bufp = (case bufp of NULL \<Rightarrow> 0 | Ptr buf \<Rightarrow> sint (xuse buf))"

definition xmlBufferResize :: "heap \<Rightarrow> xmlBuffer ptr \<Rightarrow> uint \<Rightarrow> (int \<times> xmlBuffer ptr) option" where
  "xmlBufferResize mem bufp sz =
     (case bufp of
        NULL \<Rightarrow> Some (0, bufp)
      | Ptr buf \<Rightarrow>
        if sz < xsize buf then Some (1, bufp)
        else do {
          (res, buf') \<leftarrow> xmlBufferGrow mem bufp (sz - xuse buf);
          Some (if res < 0 then 0 else 1, buf') })"

text \<open>\<open>if (len < 0) len = xmlStrlen(str);\<close>\<close>

definition arg_length :: "bytes \<Rightarrow> int \<Rightarrow> int option" where
  "arg_length s len = (if len < 0 then xmlStrlen (Ptr s) else Some len)"

definition xmlBufferAdd :: "heap \<Rightarrow> xmlBuffer ptr \<Rightarrow> xmlString \<Rightarrow> int \<Rightarrow> (int \<times> xmlBuffer ptr) option" where
  "xmlBufferAdd mem bufp str len0 =
     (case (bufp, str) of
        (Ptr buf, Ptr s) \<Rightarrow> do {
          len \<leftarrow> arg_length s len0;
          if len = 0 then Some (XML_ERR_OK, bufp)
          else do {
            (r, bufp1) \<leftarrow> (if word_of_int len \<ge> xsize buf - xuse buf
                            then xmlBufferGrow mem bufp (word_of_int len) else Some (0, bufp));
            if r < 0 then Some (XML_ERR_NO_MEMORY, bufp1)
            else case bufp1 of
              NULL \<Rightarrow> None
            | Ptr buf1 \<Rightarrow>
              (case xblock buf1 of
                 NULL \<Rightarrow> None
               | Ptr m \<Rightarrow> do {
                   xs \<leftarrow> copy_in (nat len) s;
                   m1 \<leftarrow> copy_out m (xoffset buf1 + unat (xuse buf1)) xs;
                   let u = xuse buf1 + word_of_int len;
                   m2 \<leftarrow> wr m1 (xoffset buf1 + unat u) 0;
                   Some (XML_ERR_OK, Ptr (buf1\<lparr>xblock := Ptr m2, xuse := u\<rparr>)) }) } }
      | _ \<Rightarrow> Some (XML_ERR_ARGUMENT, bufp))"

text \<open>The general case of \<open>xmlBufferAddHead\<close>, after the attempts to use the space in front.\<close>

definition add_head_grow :: "heap \<Rightarrow> xmlBuffer \<Rightarrow> bytes \<Rightarrow> int \<Rightarrow> (int \<times> xmlBuffer ptr) option" where
  "add_head_grow mem buf s len = do {
     (r, bufp1) \<leftarrow> (if word_of_int len \<ge> xsize buf - xuse buf
                     then xmlBufferGrow mem (Ptr buf) (word_of_int len) else Some (0, Ptr buf));
     if r < 0 then Some (- 1, bufp1)
     else case bufp1 of
       NULL \<Rightarrow> None
     | Ptr buf1 \<Rightarrow>
       (case xblock buf1 of
          NULL \<Rightarrow> None
        | Ptr m \<Rightarrow> do {
            m1 \<leftarrow> memmove m (xoffset buf1 + nat len) (xoffset buf1) (unat (xuse buf1 + 1));
            xs \<leftarrow> copy_in (nat len) s;
            m2 \<leftarrow> copy_out m1 (xoffset buf1) xs;
            Some (0, Ptr (buf1\<lparr>xblock := Ptr m2, xuse := xuse buf1 + word_of_int len\<rparr>)) }) }"

definition xmlBufferAddHead :: "heap \<Rightarrow> xmlBuffer ptr \<Rightarrow> xmlString \<Rightarrow> int \<Rightarrow> (int \<times> xmlBuffer ptr) option" where
  "xmlBufferAddHead mem bufp str len0 =
     (case (bufp, str) of
        (Ptr buf, Ptr s) \<Rightarrow> do {
          len \<leftarrow> arg_length s len0;
          if len = 0 then Some (XML_ERR_OK, bufp)
          else
            let start = (word_of_nat (xoffset buf) :: uint);
                l = (word_of_int len :: uint)
            in if xalloc buf = XML_BUFFER_ALLOC_IO \<and> l \<le> start then
                 (case xblock buf of
                    NULL \<Rightarrow> None
                  | Ptr m \<Rightarrow> do {
                      xs \<leftarrow> copy_in (nat len) s;
                      m1 \<leftarrow> copy_out m (xoffset buf - nat len) xs;
                      Some (0, Ptr (buf\<lparr>xblock := Ptr m1, xoffset := xoffset buf - nat len,
                                        xuse := xuse buf + l, xsize := xsize buf + l\<rparr>)) })
               else if xalloc buf = XML_BUFFER_ALLOC_IO \<and> l < xsize buf + start - xuse buf then
                 (case xblock buf of
                    NULL \<Rightarrow> None
                  | Ptr m \<Rightarrow> do {
                      m1 \<leftarrow> memmove m (nat len) (xoffset buf) (unat (xuse buf + 1));
                      xs \<leftarrow> copy_in (nat len) s;
                      m2 \<leftarrow> copy_out m1 0 xs;
                      Some (0, Ptr (buf\<lparr>xblock := Ptr m2, xoffset := 0, xuse := xuse buf + l,
                                        xsize := xsize buf + start\<rparr>)) })
               else add_head_grow mem buf s len }
      | _ \<Rightarrow> Some (XML_ERR_ARGUMENT, bufp))"

definition xmlBufferCreateStatic :: "(nat \<Rightarrow> heap) \<Rightarrow> xmlString \<Rightarrow> size_t \<Rightarrow> xmlBuffer ptr option" where
  "xmlBufferCreateStatic mem src sz = do {
     buf \<leftarrow> xmlBufferCreateSize mem sz;
     (_, buf') \<leftarrow> xmlBufferAdd (mem 2) buf src (c_int (uint sz));
     Some buf' }"

definition xmlBufferCat where
  "xmlBufferCat mem buf str = xmlBufferAdd mem buf str (- 1)"

definition xmlBufferCCat where
  "xmlBufferCCat mem buf str = xmlBufferAdd mem buf str (- 1)"

definition xmlBufferWriteCHAR where
  "xmlBufferWriteCHAR mem buf str = map_option snd (xmlBufferAdd mem buf str (- 1))"

definition xmlBufferWriteChar where
  "xmlBufferWriteChar mem buf str = map_option snd (xmlBufferAdd mem buf str (- 1))"

subsection \<open>Quoted strings\<close>

text \<open>
  The loop of \<open>xmlBufferWriteQuotedString\<close>: \<open>base\<close> are the bytes from \<open>base\<close>, \<open>n\<close> is
  \<open>cur - base\<close> and the last argument are the bytes from \<open>cur\<close>.
\<close>

definition add_run :: "heap \<Rightarrow> xmlBuffer ptr \<Rightarrow> bytes \<Rightarrow> nat \<Rightarrow> xmlBuffer ptr option" where
  "add_run mem buf base n =
     (if n \<noteq> 0 then map_option snd (xmlBufferAdd mem buf (Ptr base) (c_int (int n))) else Some buf)"

fun quote_loop ::
  "(nat \<Rightarrow> heap) \<Rightarrow> xmlBuffer ptr \<Rightarrow> bytes \<Rightarrow> nat \<Rightarrow> bytes \<Rightarrow> xmlBuffer ptr option" where
  "quote_loop mem buf base n [] = None"
| "quote_loop mem buf base n (c # cur) =
     (if c = 0 then add_run (mem 0) buf base n
      else if c = 0x22 then do {
        buf1 \<leftarrow> add_run (mem 0) buf base n;
        (_, buf2) \<leftarrow> xmlBufferAdd (mem 1) buf1 (Ptr (asc ''&quot;'' @ [0])) 6;
        quote_loop (\<lambda>i. mem (i + 2)) buf2 cur 0 cur }
      else quote_loop mem buf base (n + 1) cur)"

definition quote_with :: "(nat \<Rightarrow> heap) \<Rightarrow> xmlBuffer ptr \<Rightarrow> byte \<Rightarrow> xmlString \<Rightarrow> xmlBuffer ptr option" where
  "quote_with mem buf q string = do {
     (_, buf1) \<leftarrow> xmlBufferCCat (mem 0) buf (Ptr [q, 0]);
     (_, buf2) \<leftarrow> xmlBufferCat (mem 1) buf1 string;
     (_, buf3) \<leftarrow> xmlBufferCCat (mem 2) buf2 (Ptr [q, 0]);
     Some buf3 }"

definition xmlBufferWriteQuotedString :: "(nat \<Rightarrow> heap) \<Rightarrow> xmlBuffer ptr \<Rightarrow> xmlString \<Rightarrow> xmlBuffer ptr option" where
  "xmlBufferWriteQuotedString mem buf string =
     (if buf = NULL then Some buf
      else do {
        dq \<leftarrow> xmlStrchr string 0x22;
        if dq \<noteq> NULL then do {
          sq \<leftarrow> xmlStrchr string 0x27;
          if sq \<noteq> NULL then
            (case string of
               NULL \<Rightarrow> None
             | Ptr s \<Rightarrow> do {
                 (_, buf1) \<leftarrow> xmlBufferCCat (mem 0) buf (Ptr [0x22, 0]);
                 buf2 \<leftarrow> quote_loop (\<lambda>i. mem (i + 2)) buf1 s 0 s;
                 (_, buf3) \<leftarrow> xmlBufferCCat (mem 1) buf2 (Ptr [0x22, 0]);
                 Some buf3 })
          else quote_with mem buf 0x27 string }
        else quote_with mem buf 0x22 string })"

end
