(* ===== verification/Buffers.thy ===== *)
theory Buffers
  imports Buf Refinement
begin

text \<open>
  The buffers of \<open>buf.c\<close> as byte strings.  The first part is about blocks of bytes: a block holds a zero-terminated
  string at an offset, and \<open>memmove\<close>, \<open>memcpy\<close> and a stored terminator change it in the expected way.  Then, for each of the two
  structures, the invariant, the effect of every operation, and the interpretation of the locale \<open>implementation\<close>.
\<close>

section \<open>Blocks\<close>

definition seg :: "bytes \<Rightarrow> nat \<Rightarrow> nat \<Rightarrow> bytes" where
  "seg m off n = take n (drop off m)"

lemma seg_nth: "i < n \<Longrightarrow> off + i < length m \<Longrightarrow> seg m off n ! i = m ! (off + i)"
  by (simp add: seg_def)

lemma length_seg: "off + n \<le> length m \<Longrightarrow> length (seg m off n) = n"
  by (simp add: seg_def)

lemma seg_Suc: "off + n < length m \<Longrightarrow> seg m off (Suc n) = seg m off n @ [m ! (off + n)]"
  by (simp add: seg_def take_Suc_conv_app_nth)

lemma seg_drop: "k \<le> n \<Longrightarrow> seg m (off + k) (n - k) = drop k (seg m off n)"
  by (simp add: seg_def drop_take add.commute)

text \<open>A block that holds the bytes \<open>bs\<close> and a terminator at offset \<open>off\<close>.\<close>

definition holds :: "bytes \<Rightarrow> nat \<Rightarrow> bytes \<Rightarrow> bool" where
  "holds m off bs \<longleftrightarrow> off + length bs < length m \<and> seg m off (Suc (length bs)) = bs @ [0]"

lemma holds_iff:
  "off + n < length m \<Longrightarrow> m ! (off + n) = 0 \<longleftrightarrow> holds m off (seg m off n)"
  by (simp add: holds_def length_seg seg_Suc)

lemma holdsD: "holds m off bs \<Longrightarrow> seg m off (length bs) = bs \<and> m ! (off + length bs) = 0 \<and> off + length bs < length m"
  by (auto simp: holds_def seg_Suc)

lemma memmove_front:
  assumes "off + n \<le> length m"
  obtains m' where "memmove m 0 off n = Some m'" "length m' = length m" "take n m' = seg m off n"
  by (rule that [of "take n (drop off m) @ drop n m"]) (use assms in \<open>simp_all add: memmove_def seg_def\<close>)

lemma append_at:
  assumes "off + u + length xs < length m"
  obtains m1 m2 where "copy_out m (off + u) xs = Some m1" "wr m1 (off + u + length xs) 0 = Some m2"
    "length m2 = length m" "holds m2 off (seg m off u @ xs)"
proof -
  let ?m1 = "take (off + u) m @ xs @ drop (off + u + length xs) m"
  let ?m2 = "?m1[off + u + length xs := 0]"
  have 1: "copy_out m (off + u) xs = Some ?m1" using assms by (simp add: copy_out_def)
  have 2: "wr ?m1 (off + u + length xs) 0 = Some ?m2" using assms by (simp add: wr_def)
  have l: "length ?m2 = length m" using assms by simp
  have s: "seg ?m2 off (u + length xs) = seg m off u @ xs"
    using assms by (simp add: seg_def drop_update_swap take_drop min_def add.commute [of u])
  have "?m2 ! (off + (u + length xs)) = 0" using assms l by (simp add: add.assoc)
  then have "holds ?m2 off (seg ?m2 off (u + length xs))" using assms l by (subst holds_iff [symmetric]) simp_all
  then show thesis using 1 2 l s that by metis
qed

lemma malloc_cases:
  obtains "malloc mem n = NULL" "mem n = NULL" | new where "malloc mem n = Ptr new" "length new = n"
  by (cases "mem n") (auto simp: malloc_def)

lemma realloc_cases:
  obtains "realloc mem p n = NULL" "mem n = NULL"
  | new where "realloc mem p n = Ptr new" "length new = n" "\<And>m. p = Ptr m \<Longrightarrow> take (min n (length m)) new = take (min n (length m)) m"
proof (cases rule: malloc_cases [of mem n])
  case 1
  then show thesis using that(1) by (simp add: realloc_def)
next
  case (2 new)
  show thesis
  proof (cases p)
    case NULL
    show thesis by (rule that(2) [of new]) (simp_all add: realloc_def 2 NULL)
  next
    case (Ptr m)
    show thesis by (rule that(2) [of "take n m @ drop (length m) new"]) (auto simp: realloc_def 2 Ptr)
  qed
qed

section \<open>64-bit buffers\<close>

lemma unat_plus64: "unat a + unat b < 2 ^ 64 \<Longrightarrow> unat (a + b) = unat a + unat b" for a b :: size_t
  by (simp add: unat_add_lem [THEN iffD1])

lemma unat_minus64: "unat b \<le> unat a \<Longrightarrow> unat (a - b) = unat a - unat b" for a b :: size_t
  by (simp add: unat_sub word_le_nat_alt)

lemma unat_of_nat64: "n < 2 ^ 64 \<Longrightarrow> unat (word_of_nat n :: size_t) = n"
  by (simp add: unat_of_nat)

lemma unat_max_size: "unat (SIZE_MAX - 1) = 2 ^ 64 - 2"
  by (simp add: unat_minus64)

text \<open>
  The shape of a buffer: the used bytes and a terminator fit into the capacity, and the capacity into the
  allocation.  After \<open>xmlBufDetach\<close> there is no allocation.
\<close>

definition buf_shape :: "xmlBuf \<Rightarrow> bool" where
  "buf_shape buf \<longleftrightarrow> bmaxSize buf = SIZE_MAX - 1 \<and> unat (buse buf) \<le> unat (bsize buf) \<and>
     (case bmem buf of
        NULL \<Rightarrow> bsize buf = 0 \<and> boffset buf = 0
      | Ptr m \<Rightarrow> boffset buf + unat (bsize buf) < length m \<and> length m < 2 ^ 64)"

definition buf_bytes :: "xmlBuf \<Rightarrow> bytes" where
  "buf_bytes buf = (case bmem buf of NULL \<Rightarrow> [] | Ptr m \<Rightarrow> seg m (boffset buf) (unat (buse buf)))"

text \<open>The content is zero-terminated.\<close>

definition buf_term :: "xmlBuf \<Rightarrow> bool" where
  "buf_term buf \<longleftrightarrow> (case bmem buf of NULL \<Rightarrow> False | Ptr m \<Rightarrow> holds m (boffset buf) (buf_bytes buf))"

definition buf_inv :: "xmlBuf \<Rightarrow> bool" where
  "buf_inv buf \<longleftrightarrow> buf_shape buf \<and> buf_term buf"

lemma length_buf_bytes: "buf_shape buf \<Longrightarrow> length (buf_bytes buf) = unat (buse buf)"
  by (auto simp: buf_shape_def buf_bytes_def length_seg split: ptr.splits)

lemma buf_flags:
  "BUF_ERROR (xmlBufMemoryError buf)" "BUF_ERROR (xmlBufOverflowError buf)"
  "BUF_STATIC (xmlBufMemoryError buf) = BUF_STATIC buf" "BUF_STATIC (xmlBufOverflowError buf) = BUF_STATIC buf"
  "buf_shape (xmlBufMemoryError buf) = buf_shape buf" "buf_shape (xmlBufOverflowError buf) = buf_shape buf"
  "buf_bytes (xmlBufMemoryError buf) = buf_bytes buf" "buf_bytes (xmlBufOverflowError buf) = buf_bytes buf"
  "buf_term (xmlBufMemoryError buf) = buf_term buf" "buf_term (xmlBufOverflowError buf) = buf_term buf"
proof -
  have "(w OR 1) AND 3 \<noteq> 0" "(w OR 2) AND 3 \<noteq> 0" for w :: uint
    by (simp_all add: bit.conj_disj_distrib2 or_eq_0_iff)
  then show "BUF_ERROR (xmlBufMemoryError buf)" "BUF_ERROR (xmlBufOverflowError buf)"
    by (auto simp: BUF_ERROR_def xmlBufMemoryError_def xmlBufOverflowError_def)
  have "(w OR 1) AND 4 = w AND 4" "(w OR 2) AND 4 = w AND (4 :: uint)" for w
    by (simp_all add: bit.conj_disj_distrib2)
  then show "BUF_STATIC (xmlBufMemoryError buf) = BUF_STATIC buf" "BUF_STATIC (xmlBufOverflowError buf) = BUF_STATIC buf"
    by (simp_all add: BUF_STATIC_def xmlBufMemoryError_def xmlBufOverflowError_def)
qed (simp_all add: xmlBufMemoryError_def xmlBufOverflowError_def buf_shape_def buf_bytes_def buf_term_def split: ptr.splits)

lemma buf_shapeD:
  assumes "buf_shape buf"
  shows "bmaxSize buf = - 2" "unat (buse buf) \<le> unat (bsize buf)" "unat (bsize buf) \<le> 2 ^ 64 - 2"
  using assms by (auto simp: buf_shape_def split: ptr.splits)

lemma buf_new_size:
  assumes "buf_shape buf" "\<not> len > bmaxSize buf - buse buf"
  shows "unat (buse buf) + unat len \<le> unat (buf_new_size buf len) \<and> unat (buf_new_size buf len) < 2 ^ 64 - 1"
proof -
  note sh = buf_shapeD [OF assms(1)]
  have m: "unat (- 2 :: size_t) = 2 ^ 64 - 2" using unat_max_size by simp
  have r: "unat (buse buf) + unat len \<le> 2 ^ 64 - 2"
    using assms(2) sh m by (simp add: word_less_nat_alt unat_minus64)
  consider (double) "bsize buf > len" "bsize buf \<le> - 2 div 2" | (max) "bsize buf > len" "\<not> bsize buf \<le> - 2 div 2"
    | (sum) "\<not> bsize buf > len" by blast
  then show ?thesis
  proof cases
    case double
    then have 1: "unat len < unat (bsize buf)" "unat (bsize buf) \<le> (2 ^ 64 - 2) div 2"
      by (simp_all only: word_less_nat_alt word_le_nat_alt unat_div m unat_numeral) simp
    have "unat (bsize buf * 2) = unat (bsize buf) + unat (bsize buf)"
      using 1(2) unat_plus64 [of "bsize buf" "bsize buf"] by (simp add: mult_2_right)
    then show ?thesis using double 1 sh by (simp add: buf_new_size_def)
  next
    case max
    then show ?thesis using sh m r by (simp add: buf_new_size_def)
  next
    case sum
    have 1: "unat (buse buf + len) = unat (buse buf) + unat len" using r by (intro unat_plus64) simp
    have 2: "unat (- 2 - 100 :: size_t) = 2 ^ 64 - 102" using m by (subst unat_minus64) simp_all
    have 3: "unat (buse buf + len + 100) = unat (buse buf) + unat len + 100" if "buse buf + len \<le> - 2 - 100"
      using that unfolding word_le_nat_alt 1 2 by (subst unat_plus64) (simp_all add: 1)
    then show ?thesis using sum sh r 1 2 by (auto simp: buf_new_size_def Let_def word_le_nat_alt)
  qed
qed

lemma take_less_eq: "n \<le> k \<Longrightarrow> take k xs = take k ys \<Longrightarrow> take n xs = take n ys"
  by (metis min.absorb1 take_take)

lemma buf_term_Ptr: "buf_term buf \<Longrightarrow> \<exists>m. bmem buf = Ptr m \<and> holds m (boffset buf) (buf_bytes buf)"
  by (auto simp: buf_term_def split: ptr.splits)

text \<open>A buffer whose content has been moved to the start of a block.\<close>

lemma buf_moved:
  assumes "buf_shape buf" "take (Suc (unat (buse buf))) new = seg m (boffset buf) (Suc (unat (buse buf)))"
    "bmem buf = Ptr m" "unat (buse buf) \<le> unat sz" "unat sz < length new" "length new < 2 ^ 64"
  defines "buf' \<equiv> buf\<lparr>bmem := Ptr new, bsize := sz, boffset := 0\<rparr>"
  shows "buf_shape buf'" "buf_bytes buf' = buf_bytes buf" "buf_term buf' = buf_term buf"
proof -
  show 1: "buf_shape buf'" using assms by (simp add: buf_shape_def)
  let ?u = "unat (buse buf)"
  have n: "seg m (boffset buf) (Suc ?u) = seg m (boffset buf) ?u @ [m ! (boffset buf + ?u)]"
    using assms(1,3) by (intro seg_Suc) (simp add: buf_shape_def)
  have "take ?u new @ [new ! ?u] = take (Suc ?u) new" using assms(4,5) by (simp add: take_Suc_conv_app_nth)
  also note assms(2)
  also note n
  finally have e: "take ?u new = seg m (boffset buf) ?u" "new ! ?u = m ! (boffset buf + ?u)" by simp_all
  show 2: "buf_bytes buf' = buf_bytes buf" using assms(3) e(1) by (simp add: buf_bytes_def buf'_def seg_def)
  have "holds m (boffset buf) (buf_bytes buf) \<longleftrightarrow> m ! (boffset buf + ?u) = 0"
    using assms(1,3) by (subst holds_iff) (auto simp: buf_shape_def buf_bytes_def)
  moreover have "holds new 0 (buf_bytes buf') \<longleftrightarrow> new ! (0 + ?u) = 0"
    using assms(4,5) by (subst holds_iff) (auto simp: buf_bytes_def buf'_def)
  ultimately show "buf_term buf' = buf_term buf" using assms(3) e(2) 2 by (simp add: buf_term_def buf'_def)
qed

lemma xmlBufGrowInternal_ok:
  assumes sh: "buf_shape buf" and len: "unat (bsize buf) - unat (buse buf) < unat len"
  shows "\<exists>r buf'. xmlBufGrowInternal mem buf len = Some (r, buf') \<and> buf_shape buf' \<and> buf_bytes buf' = buf_bytes buf \<and>
    (buf_term buf \<longrightarrow> buf_term buf') \<and> BUF_STATIC buf' = BUF_STATIC buf \<and>
    (r = 0 \<and> bmem buf' \<noteq> NULL \<and> BUF_ERROR buf' = BUF_ERROR buf \<and> buse buf' = buse buf \<and>
        unat (buse buf) + unat len \<le> unat (bsize buf') \<or>
     r = - 1 \<and> BUF_ERROR buf' \<and> (2 ^ 64 - 2 < unat (buse buf) + unat len \<or> (\<exists>n. mem n = NULL)))"
proof -
  let ?u = "unat (buse buf)"
  note shD = buf_shapeD [OF sh]
  have u1: "unat (buse buf + 1) = Suc ?u" using shD by (subst unat_plus64) simp_all
  show ?thesis
  proof (cases "len \<le> word_of_nat (boffset buf) + bsize buf - buse buf")
    case True
    obtain m where m: "bmem buf = Ptr m"
      using sh True len by (cases "bmem buf") (auto simp: buf_shape_def word_le_nat_alt unsigned_eq_0_iff)
    have b: "boffset buf + unat (bsize buf) < length m" "length m < 2 ^ 64" using sh m by (simp_all add: buf_shape_def)
    have o: "unat (word_of_nat (boffset buf) :: size_t) = boffset buf" using b by (intro unat_of_nat64) linarith
    have os: "unat (word_of_nat (boffset buf) + bsize buf) = boffset buf + unat (bsize buf)"
      using b by (subst unat_plus64) (simp_all add: o)
    have so: "unat (bsize buf + word_of_nat (boffset buf)) = boffset buf + unat (bsize buf)"
      using os by (simp add: add.commute)
    have "boffset buf + Suc ?u \<le> length m" using b shD(2) by linarith
    from memmove_front [OF this] obtain m' where m': "memmove m 0 (boffset buf) (Suc ?u) = Some m'" "length m' = length m" "take (Suc ?u) m' = seg m (boffset buf) (Suc ?u)"
      by blast
    have l: "unat len \<le> boffset buf + unat (bsize buf) - ?u"
      using True shD(2) unfolding word_le_nat_alt by (simp add: unat_minus64 os)
    have "?u \<le> unat (bsize buf + word_of_nat (boffset buf))" "unat (bsize buf + word_of_nat (boffset buf)) < length m'" "length m' < 2 ^ 64"
      using so shD(2) b m'(2) by linarith+
    note mv = buf_moved [OF sh m'(3) m this]
    show ?thesis using mv True m m' l so shD(2)
      by (simp add: xmlBufGrowInternal_def Let_def u1 BUF_STATIC_def BUF_ERROR_def)
  next
    case False
    show ?thesis
    proof (cases "len > bmaxSize buf - buse buf")
      case True
      have "2 ^ 64 - 2 < ?u + unat len"
        using True shD unat_max_size by (simp add: word_less_nat_alt unat_minus64)
      then show ?thesis using False True sh by (simp add: xmlBufGrowInternal_def buf_flags)
    next
      case room: False
      let ?sz = "buf_new_size buf len"
      have sz: "?u + unat len \<le> unat ?sz" "unat ?sz < 2 ^ 64 - 1" using buf_new_size [OF sh room] by simp_all
      have sz1: "unat (?sz + 1) = Suc (unat ?sz)" using sz by (subst unat_plus64) simp_all
      show ?thesis
      proof (cases "boffset buf = 0")
        case True
        show ?thesis
        proof (cases rule: realloc_cases [of mem "bmem buf" "unat (?sz + 1)"])
          case 1
          then show ?thesis using False room True sh by (auto simp: xmlBufGrowInternal_def Let_def buf_flags)
        next
          case (2 new)
          let ?b = "buf\<lparr>bmem := Ptr new, bsize := ?sz, boffset := 0\<rparr>"
          have G: "xmlBufGrowInternal mem buf len = Some (0, ?b)" using False room True 2(1) by (simp add: xmlBufGrowInternal_def Let_def)
          have "buf_shape ?b \<and> buf_bytes ?b = buf_bytes buf \<and> (buf_term buf \<longrightarrow> buf_term ?b)"
          proof (cases "bmem buf")
            case NULL
            then show ?thesis using sh 2(2) sz sz1 by (auto simp: buf_shape_def buf_bytes_def buf_term_def seg_def)
          next
            case (Ptr m)
            have "Suc ?u \<le> min (unat (?sz + 1)) (length m)" using sh Ptr sz1 sz by (simp add: buf_shape_def)
            moreover note 2(3) [OF Ptr]
            ultimately have t: "take (Suc ?u) new = seg m (boffset buf) (Suc ?u)"
              unfolding True seg_def drop_0 by (rule take_less_eq)
            have "?u \<le> unat ?sz" "unat ?sz < length new" "length new < 2 ^ 64" using 2(2) sz sz1 by linarith+
            then show ?thesis using buf_moved [OF sh t Ptr, of ?sz] by simp
          qed
          then show ?thesis using G sz by (simp add: BUF_STATIC_def BUF_ERROR_def)
        qed
      next
        case off: False
        then obtain m where m: "bmem buf = Ptr m" using sh by (auto simp: buf_shape_def split: ptr.splits)
        show ?thesis
        proof (cases rule: malloc_cases [of mem "unat (?sz + 1)"])
          case 1
          then show ?thesis using False room off sh by (auto simp: xmlBufGrowInternal_def Let_def buf_flags)
        next
          case (2 new)
          have b: "boffset buf + ?u < length m" using sh m by (auto simp: buf_shape_def)
          let ?xs = "seg m (boffset buf) (Suc ?u)"
          have xs: "copy_in (Suc ?u) (drop (boffset buf) m) = Some ?xs" "length ?xs = Suc ?u"
            using b by (simp_all add: copy_in_def seg_def)
          let ?new = "?xs @ drop (Suc ?u) new"
          have new: "copy_out new 0 ?xs = Some ?new" "length ?new = length new"
            using xs(2) 2(2) sz1 sz by (simp_all add: copy_out_def)
          let ?b = "buf\<lparr>bmem := Ptr ?new, bsize := ?sz, boffset := 0\<rparr>"
          have G: "xmlBufGrowInternal mem buf len = Some (0, ?b)"
            using False room off 2(1) m xs(1) new(1) by (simp add: xmlBufGrowInternal_def Let_def u1)
          have "?u \<le> unat ?sz" "unat ?sz < length ?new" "length ?new < 2 ^ 64" using new(2) 2(2) sz sz1 by linarith+
          then have "buf_shape ?b \<and> buf_bytes ?b = buf_bytes buf \<and> (buf_term buf \<longrightarrow> buf_term ?b)"
            using buf_moved [OF sh _ m, of ?new ?sz] xs(2) by simp
          then show ?thesis using G sz by (simp add: BUF_STATIC_def BUF_ERROR_def)
        qed
      qed
    qed
  qed
qed

lemma buf_append:
  assumes "buf_shape buf" "bmem buf = Ptr m" "length xs = unat len" "unat (buse buf) + unat len \<le> unat (bsize buf)"
  shows "\<exists>m1 m2. copy_out m (boffset buf + unat (buse buf)) xs = Some m1 \<and>
    wr m1 (boffset buf + unat (buse buf + len)) 0 = Some m2 \<and>
    (let buf' = buf\<lparr>bmem := Ptr m2, buse := buse buf + len\<rparr> in buf_inv buf' \<and> buf_bytes buf' = buf_bytes buf @ xs)"
proof -
  let ?u = "unat (buse buf)" let ?o = "boffset buf"
  have b: "?o + unat (bsize buf) < length m" "length m < 2 ^ 64" "bmaxSize buf = - 2" using assms(1,2) by (simp_all add: buf_shape_def)
  have ul: "unat (buse buf + len) = ?u + unat len" using assms(4) b by (intro unat_plus64) linarith
  have "?o + ?u + length xs < length m" using b assms(3,4) by linarith
  from append_at [OF this] obtain m1 m2 where m: "copy_out m (?o + ?u) xs = Some m1" "wr m1 (?o + ?u + length xs) 0 = Some m2"
    "length m2 = length m" "holds m2 ?o (seg m ?o ?u @ xs)" by blast
  let ?b = "buf\<lparr>bmem := Ptr m2, buse := buse buf + len\<rparr>"
  have "length (seg m ?o ?u) = ?u" using b assms(4) by (intro length_seg) linarith
  then have "seg m2 ?o (?u + unat len) = seg m ?o ?u @ xs" using holdsD [OF m(4)] assms(3) by simp
  then have "buf_bytes ?b = buf_bytes buf @ xs" using assms(2) ul by (simp add: buf_bytes_def)
  moreover from this have "buf_inv ?b"
    using m(3,4) b assms(2,4) ul by (simp add: buf_inv_def buf_shape_def buf_term_def buf_bytes_def)
  ultimately show ?thesis using m(1,2) assms(3) ul by (simp add: add.assoc Let_def)
qed

text \<open>Why a buffer of \<open>n\<close> bytes may fail to grow by \<open>k\<close>.\<close>

definition may_fail :: "heap \<Rightarrow> nat \<Rightarrow> nat \<Rightarrow> bool" where
  "may_fail mem n k \<longleftrightarrow> 2 ^ 64 - 2 < n + k \<or> (\<exists>i. mem i = NULL)"

lemma xmlBufAdd_ok:
  assumes sh: "buf_shape buf" and ok: "\<not> BUF_ERROR buf" "\<not> BUF_STATIC buf" and len: "len \<noteq> 0" "unat len \<le> length s"
  shows "\<exists>r buf'. xmlBufAdd mem (Ptr buf) (Ptr s) len = Some (r, Ptr buf') \<and> buf_shape buf' \<and> \<not> BUF_STATIC buf' \<and>
    (r = 0 \<and> buf_inv buf' \<and> \<not> BUF_ERROR buf' \<and> buf_bytes buf' = buf_bytes buf @ take (unat len) s \<or>
     r = - 1 \<and> BUF_ERROR buf' \<and> buf_bytes buf' = buf_bytes buf \<and> (buf_term buf \<longrightarrow> buf_term buf') \<and>
       may_fail mem (length (buf_bytes buf)) (unat len))"
proof -
  note shD = buf_shapeD [OF sh]
  have add: "\<exists>m2. copy_out m (boffset buf1 + unat (buse buf1)) (take (unat len) s) \<bind>
        (\<lambda>m1. wr m1 (boffset buf1 + unat (buse buf1 + len)) 0) = Some m2 \<and>
      (let b = buf1\<lparr>bmem := Ptr m2, buse := buse buf1 + len\<rparr> in buf_inv b \<and> buf_bytes b = buf_bytes buf1 @ take (unat len) s)"
    if "buf_shape buf1" "bmem buf1 = Ptr m" "unat (buse buf1) + unat len \<le> unat (bsize buf1)" for buf1 m
    using buf_append [OF that(1,2) _ that(3), of "take (unat len) s"] len(2) by (auto simp: Let_def)
  show ?thesis
  proof (cases "len > bsize buf - buse buf")
    case grow: True
    then have "unat (bsize buf) - unat (buse buf) < unat len" using shD(2) by (simp add: word_less_nat_alt unat_minus64)
    from xmlBufGrowInternal_ok [OF sh this, of mem] obtain r buf1 where
      g: "xmlBufGrowInternal mem buf len = Some (r, buf1)" "buf_shape buf1" "buf_bytes buf1 = buf_bytes buf"
        "buf_term buf \<longrightarrow> buf_term buf1" "BUF_STATIC buf1 = BUF_STATIC buf" and
      r: "r = 0 \<and> bmem buf1 \<noteq> NULL \<and> BUF_ERROR buf1 = BUF_ERROR buf \<and> buse buf1 = buse buf \<and>
          unat (buse buf) + unat len \<le> unat (bsize buf1) \<or>
        r = - 1 \<and> BUF_ERROR buf1 \<and> (2 ^ 64 - 2 < unat (buse buf) + unat len \<or> (\<exists>n. mem n = NULL))" by blast
    from r show ?thesis
    proof
      assume 0: "r = 0 \<and> bmem buf1 \<noteq> NULL \<and> BUF_ERROR buf1 = BUF_ERROR buf \<and> buse buf1 = buse buf \<and>
          unat (buse buf) + unat len \<le> unat (bsize buf1)"
      then obtain m where m: "bmem buf1 = Ptr m" by (cases "bmem buf1") auto
      have "unat (buse buf1) + unat len \<le> unat (bsize buf1)" using 0 by simp
      from add [OF g(2) m this] obtain m1 m2 where m2:
        "copy_out m (boffset buf1 + unat (buse buf1)) (take (unat len) s) = Some m1"
        "wr m1 (boffset buf1 + unat (buse buf1 + len)) 0 = Some m2"
        "buf_inv (buf1\<lparr>bmem := Ptr m2, buse := buse buf1 + len\<rparr>)"
        "buf_bytes (buf1\<lparr>bmem := Ptr m2, buse := buse buf1 + len\<rparr>) = buf_bytes buf1 @ take (unat len) s"
        by (auto simp: Let_def split: Option.bind_splits)
      then have "xmlBufAdd mem (Ptr buf) (Ptr s) len = Some (0, Ptr (buf1\<lparr>bmem := Ptr m2, buse := buse buf1 + len\<rparr>))"
        using ok len grow g(1) 0 m by (simp add: xmlBufAdd_def copy_in_def Let_def)
      then show ?thesis using m2(3,4) g(3,5) ok 0 by (auto simp: buf_inv_def BUF_STATIC_def BUF_ERROR_def)
    next
      assume 0: "r = - 1 \<and> BUF_ERROR buf1 \<and> (2 ^ 64 - 2 < unat (buse buf) + unat len \<or> (\<exists>n. mem n = NULL))"
      then have "xmlBufAdd mem (Ptr buf) (Ptr s) len = Some (- 1, Ptr buf1)"
        using ok len grow g(1) by (simp add: xmlBufAdd_def)
      then show ?thesis using g 0 ok by (auto simp: may_fail_def length_buf_bytes [OF sh])
    qed
  next
    case False
    then have le: "unat (buse buf) + unat len \<le> unat (bsize buf)" using shD(2) by (simp add: word_less_nat_alt unat_minus64)
    obtain m where m: "bmem buf = Ptr m"
      using sh le len by (cases "bmem buf") (auto simp: buf_shape_def unsigned_eq_0_iff)
    from add [OF sh m le] obtain m1 m2 where m2:
        "copy_out m (boffset buf + unat (buse buf)) (take (unat len) s) = Some m1"
        "wr m1 (boffset buf + unat (buse buf + len)) 0 = Some m2"
        "buf_inv (buf\<lparr>bmem := Ptr m2, buse := buse buf + len\<rparr>)"
        "buf_bytes (buf\<lparr>bmem := Ptr m2, buse := buse buf + len\<rparr>) = buf_bytes buf @ take (unat len) s"
        by (auto simp: Let_def split: Option.bind_splits)
    then have "xmlBufAdd mem (Ptr buf) (Ptr s) len = Some (0, Ptr (buf\<lparr>bmem := Ptr m2, buse := buse buf + len\<rparr>))"
        using ok len False m by (simp add: xmlBufAdd_def copy_in_def Let_def)
    then show ?thesis using m2(3,4) ok by (auto simp: buf_inv_def BUF_STATIC_def BUF_ERROR_def)
  qed
qed

lemma xmlBufShrink_ok:
  assumes "buf_inv buf" "\<not> BUF_ERROR buf" "len \<noteq> 0" "unat len \<le> length (buf_bytes buf)"
  shows "\<exists>buf'. xmlBufShrink (Ptr buf) len = (len, Ptr buf') \<and> buf_inv buf' \<and> buf_bytes buf' = drop (unat len) (buf_bytes buf) \<and>
    BUF_ERROR buf' = BUF_ERROR buf \<and> BUF_STATIC buf' = BUF_STATIC buf"
proof -
  let ?u = "unat (buse buf)" let ?o = "boffset buf" let ?l = "unat len"
  have sh: "buf_shape buf" using assms(1) by (simp add: buf_inv_def)
  obtain m where m: "bmem buf = Ptr m" "holds m ?o (buf_bytes buf)" using assms(1) buf_term_Ptr by (auto simp: buf_inv_def)
  have l: "?l \<le> ?u" using assms(4) length_buf_bytes [OF sh] by simp
  let ?b = "buf\<lparr>buse := buse buf - len, boffset := ?o + ?l, bsize := bsize buf - len\<rparr>"
  have w: "unat (buse buf - len) = ?u - ?l" "unat (bsize buf - len) = unat (bsize buf) - ?l"
    using l buf_shapeD(2) [OF sh] by (simp_all add: unat_minus64)
  have bb: "buf_bytes ?b = drop ?l (buf_bytes buf)" using m(1) w(1) seg_drop [OF l, of m ?o] by (simp add: buf_bytes_def)
  have h: "m ! (?o + ?u) = 0" "?o + ?u < length m" using holdsD [OF m(2)] length_buf_bytes [OF sh] by simp_all
  then have "holds m (?o + ?l) (seg m (?o + ?l) (?u - ?l))" using l by (subst holds_iff [symmetric]) simp_all
  then have "buf_inv ?b" using sh m(1) w l by (auto simp: buf_inv_def buf_shape_def buf_term_def buf_bytes_def)
  moreover have "xmlBufShrink (Ptr buf) len = (len, Ptr ?b)"
    using assms(2,3) l by (simp add: xmlBufShrink_def word_less_nat_alt)
  ultimately show ?thesis using bb by (simp add: BUF_ERROR_def BUF_STATIC_def)
qed

lemma xmlBufEmpty_ok:
  assumes "buf_inv buf" "\<not> BUF_ERROR buf" "\<not> BUF_STATIC buf"
  shows "\<exists>buf'. xmlBufEmpty (Ptr buf) = Some (Ptr buf') \<and> buf_inv buf' \<and> buf_bytes buf' = [] \<and> \<not> BUF_ERROR buf' \<and> \<not> BUF_STATIC buf'"
proof -
  have sh: "buf_shape buf" using assms(1) by (simp add: buf_inv_def)
  obtain m where m: "bmem buf = Ptr m" using assms(1) buf_term_Ptr by (auto simp: buf_inv_def)
  have b: "boffset buf + unat (bsize buf) < length m" "length m < 2 ^ 64" "bmaxSize buf = - 2" using sh m by (simp_all add: buf_shape_def)
  have o: "unat (word_of_nat (boffset buf) :: size_t) = boffset buf" using b by (intro unat_of_nat64) linarith
  have so: "unat (bsize buf + word_of_nat (boffset buf)) = unat (bsize buf) + boffset buf"
    using b by (subst unat_plus64) (simp_all add: o)
  let ?b = "buf\<lparr>bmem := Ptr (m[0 := 0]), buse := 0, bsize := bsize buf + word_of_nat (boffset buf), boffset := 0\<rparr>"
  have "xmlBufEmpty (Ptr buf) = Some (Ptr ?b)" using assms m b by (auto simp: xmlBufEmpty_def wr_def)
  moreover have "buf_bytes ?b = []" by (simp add: buf_bytes_def seg_def)
  moreover have "holds (m[0 := 0]) 0 []" using b by (cases m) (auto simp: holds_def seg_def)
  then have "buf_inv ?b" using b so by (simp add: buf_inv_def buf_shape_def buf_term_def buf_bytes_def seg_def)
  ultimately show ?thesis using assms by (simp add: BUF_ERROR_def BUF_STATIC_def)
qed

lemma xmlBufAddLen_ok:
  assumes "buf_inv buf" "\<not> BUF_ERROR buf" "\<not> BUF_STATIC buf" "len \<le> bsize buf - buse buf"
  shows "\<exists>buf' xs. xmlBufAddLen (Ptr buf) len = Some (0, Ptr buf') \<and> buf_inv buf' \<and> buf_bytes buf' = buf_bytes buf @ xs \<and>
    length xs = unat len \<and> \<not> BUF_ERROR buf' \<and> \<not> BUF_STATIC buf'"
proof -
  let ?u = "unat (buse buf)" let ?o = "boffset buf"
  have sh: "buf_shape buf" using assms(1) by (simp add: buf_inv_def)
  obtain m where m: "bmem buf = Ptr m" using assms(1) buf_term_Ptr by (auto simp: buf_inv_def)
  have b: "?o + unat (bsize buf) < length m" using sh m by (simp add: buf_shape_def)
  have le: "?u + unat len \<le> unat (bsize buf)" using assms(4) buf_shapeD(2) [OF sh] by (simp add: word_le_nat_alt unat_minus64)
  define xs where "xs = seg m (?o + ?u) (unat len)"
  have l: "length xs = unat len" unfolding xs_def using le b by (intro length_seg) linarith
  have "copy_out m (?o + ?u) xs = Some m"
  proof -
    have "take k m @ take n (drop k m) @ drop (k + n) m = m" for k n
      by (simp add: drop_drop [symmetric] add.commute [of k] del: drop_drop)
    from this [of "?o + ?u" "unat len"] have "take (?o + ?u) m @ xs @ drop (?o + ?u + length xs) m = m"
      by (simp only: xs_def [symmetric] seg_def [symmetric] l)
    moreover have "?o + ?u + length xs \<le> length m" using l le b by linarith
    ultimately show ?thesis by (simp only: copy_out_def if_True)
  qed
  then obtain m2 where "wr m (?o + unat (buse buf + len)) 0 = Some m2"
    "buf_inv (buf\<lparr>bmem := Ptr m2, buse := buse buf + len\<rparr>)" "buf_bytes (buf\<lparr>bmem := Ptr m2, buse := buse buf + len\<rparr>) = buf_bytes buf @ xs"
    using buf_append [OF sh m l le] by (auto simp: Let_def)
  then show ?thesis using assms(2-4) m l
    by (intro exI [of _ "buf\<lparr>bmem := Ptr m2, buse := buse buf + len\<rparr>"] exI [of _ xs])
      (simp add: xmlBufAddLen_def Let_def BUF_ERROR_def BUF_STATIC_def)
qed

subsection \<open>The byte queue\<close>

datatype buf_op =
    BufAdd heap xmlString size_t
  | BufCat heap xmlString
  | BufGrow heap size_t
  | BufAddLen size_t
  | BufShrink size_t
  | BufEmpty
  | BufRead

definition buf_result :: "(int \<times> xmlBuf ptr) option \<Rightarrow> ((int \<times> bytes) \<times> xmlBuf) option" where
  "buf_result x = do { (r, p) \<leftarrow> x; case p of NULL \<Rightarrow> None | Ptr buf \<Rightarrow> Some ((r, []), buf) }"

text \<open>\<open>BufRead\<close> reads \<open>xmlBufUse\<close> bytes from \<open>xmlBufContent\<close> and the byte after them.\<close>

primrec buf_step :: "buf_op \<Rightarrow> xmlBuf \<Rightarrow> ((int \<times> bytes) \<times> xmlBuf) option" where
  "buf_step (BufAdd mem str len) buf = buf_result (xmlBufAdd mem (Ptr buf) str len)"
| "buf_step (BufCat mem str) buf = buf_result (xmlBufCat mem (Ptr buf) str)"
| "buf_step (BufGrow mem len) buf = buf_result (xmlBufGrow mem (Ptr buf) len)"
| "buf_step (BufAddLen len) buf = buf_result (xmlBufAddLen (Ptr buf) len)"
| "buf_step (BufShrink len) buf =
     buf_result (let (n, p) = xmlBufShrink (Ptr buf) len in Some (uint n, p))"
| "buf_step BufEmpty buf = buf_result (do { p \<leftarrow> xmlBufEmpty (Ptr buf); Some (0, p) })"
| "buf_step BufRead buf =
     (case xmlBufContent (Ptr buf) of
        NULL \<Rightarrow> Some ((- 1, []), buf)
      | Ptr s \<Rightarrow> do { xs \<leftarrow> copy_in (unat (xmlBufUse (Ptr buf)) + 1) s; Some ((0, xs), buf) })"

text \<open>
  The abstract state: the bytes, whether an error was recorded and whether the memory is static.
\<close>

definition buf_abs :: "xmlBuf \<Rightarrow> bytes \<times> bool \<times> bool" where
  "buf_abs buf = (buf_bytes buf, BUF_ERROR buf, BUF_STATIC buf)"

definition add_spec :: "heap \<Rightarrow> bytes \<Rightarrow> bytes \<times> bool \<times> bool \<Rightarrow> int \<Rightarrow> bytes \<times> bool \<times> bool \<Rightarrow> bool" where
  "add_spec mem xs a r a' \<longleftrightarrow>
     (let (bs, err, st) = a in
      if err \<or> st then r = - 1 \<and> a' = a
      else r = 0 \<and> a' = (bs @ xs, False, False) \<or>
           r = - 1 \<and> a' = (bs, True, False) \<and> may_fail mem (length bs) (length xs))"

fun buf_spec :: "buf_op \<Rightarrow> bytes \<times> bool \<times> bool \<Rightarrow> int \<times> bytes \<Rightarrow> bytes \<times> bool \<times> bool \<Rightarrow> bool" where
  "buf_spec (BufAdd mem str len) a (r, out) a' \<longleftrightarrow> out = [] \<and>
     (case str of
        NULL \<Rightarrow> a' = a \<and> r = (if len = 0 \<and> \<not> fst (snd a) \<and> \<not> snd (snd a) then 0 else - 1)
      | Ptr s \<Rightarrow> add_spec mem (take (unat len) s) a r a')"
| "buf_spec (BufCat mem str) a (r, out) a' \<longleftrightarrow> out = [] \<and>
     (case str of NULL \<Rightarrow> a' = a \<and> r = 0 | Ptr s \<Rightarrow> add_spec mem (strval s) a r a')"
| "buf_spec (BufGrow mem len) (bs, err, st) (r, out) a' \<longleftrightarrow> out = [] \<and>
     (if err \<or> st then r = - 1 \<and> a' = (bs, err, st)
      else r = 0 \<and> a' = (bs, err, st) \<or> r = - 1 \<and> a' = (bs, True, st) \<and> may_fail mem (length bs) (unat len))"
| "buf_spec (BufAddLen len) (bs, err, st) (r, out) a' \<longleftrightarrow> out = [] \<and>
     (r = - 1 \<and> a' = (bs, err, st) \<or>
      r = 0 \<and> \<not> err \<and> \<not> st \<and> (\<exists>xs. length xs = unat len \<and> a' = (bs @ xs, err, st)))"
| "buf_spec (BufShrink len) (bs, err, st) (r, out) a' \<longleftrightarrow> out = [] \<and>
     (if err \<or> unat len > length bs then r = 0 \<and> a' = (bs, err, st)
      else r = uint len \<and> a' = (drop (unat len) bs, err, st))"
| "buf_spec BufEmpty (bs, err, st) (r, out) a' \<longleftrightarrow> out = [] \<and> r = 0 \<and>
     a' = (if err \<or> st then (bs, err, st) else ([], err, st))"
| "buf_spec BufRead (bs, err, st) (r, out) a' \<longleftrightarrow> a' = (bs, err, st) \<and>
     (if err then r = - 1 \<and> out = [] else r = 0 \<and> out = bs @ [0])"

fun buf_legal :: "buf_op \<Rightarrow> bool" where
  "buf_legal (BufAdd mem str len) \<longleftrightarrow> (case str of NULL \<Rightarrow> True | Ptr s \<Rightarrow> unat len \<le> length s)"
| "buf_legal (BufCat mem str) \<longleftrightarrow> (case str of NULL \<Rightarrow> True | Ptr s \<Rightarrow> cstring s \<and> length s < 2 ^ 64)"
| "buf_legal op \<longleftrightarrow> True"

lemma buf_add_refines:
  assumes inv: "buf_inv buf" and len: "unat len \<le> length s"
  shows "\<exists>r buf'. xmlBufAdd mem (Ptr buf) (Ptr s) len = Some (r, Ptr buf') \<and> buf_inv buf' \<and>
    add_spec mem (take (unat len) s) (buf_abs buf) r (buf_abs buf')"
proof -
  consider (bad) "BUF_ERROR buf \<or> BUF_STATIC buf" | (zero) "\<not> BUF_ERROR buf" "\<not> BUF_STATIC buf" "len = 0"
    | (add) "\<not> BUF_ERROR buf" "\<not> BUF_STATIC buf" "len \<noteq> 0" by blast
  then show ?thesis
  proof cases
    case bad
    then show ?thesis using inv by (auto simp: xmlBufAdd_def add_spec_def buf_abs_def)
  next
    case zero
    then show ?thesis using inv by (simp add: xmlBufAdd_def add_spec_def buf_abs_def)
  next
    case add
    have "buf_shape buf" "buf_term buf" using inv by (simp_all add: buf_inv_def)
    with xmlBufAdd_ok [OF this(1) add len, of mem] show ?thesis using add len
      by (auto simp: add_spec_def buf_abs_def buf_inv_def)
  qed
qed

lemma xmlBufGrow_refines:
  assumes inv: "buf_inv buf"
  shows "\<exists>r buf'. xmlBufGrow mem (Ptr buf) len = Some (r, Ptr buf') \<and> buf_inv buf' \<and> buf_bytes buf' = buf_bytes buf \<and>
    BUF_STATIC buf' = BUF_STATIC buf \<and>
    (if BUF_ERROR buf \<or> BUF_STATIC buf then r = - 1 \<and> buf' = buf
     else r = 0 \<and> \<not> BUF_ERROR buf' \<and> unat len \<le> unat (xmlBufAvail (Ptr buf')) \<or>
          r = - 1 \<and> BUF_ERROR buf' \<and> may_fail mem (length (buf_bytes buf)) (unat len))"
proof -
  have sh: "buf_shape buf" "buf_term buf" using inv by (simp_all add: buf_inv_def)
  consider (bad) "BUF_ERROR buf \<or> BUF_STATIC buf" | (fits) "\<not> BUF_ERROR buf" "\<not> BUF_STATIC buf" "len \<le> bsize buf - buse buf"
    | (grow) "\<not> BUF_ERROR buf" "\<not> BUF_STATIC buf" "\<not> len \<le> bsize buf - buse buf" by blast
  then show ?thesis
  proof cases
    case bad
    then show ?thesis using inv by (simp add: xmlBufGrow_def)
  next
    case fits
    then show ?thesis using inv by (simp add: xmlBufGrow_def xmlBufAvail_def word_le_nat_alt)
  next
    case grow
    then have l: "unat (bsize buf) - unat (buse buf) < unat len" using buf_shapeD(2) [OF sh(1)] by (simp add: word_le_nat_alt unat_minus64)
    from xmlBufGrowInternal_ok [OF sh(1) this, of mem] obtain r buf' where
      g: "xmlBufGrowInternal mem buf len = Some (r, buf')" "buf_shape buf'" "buf_bytes buf' = buf_bytes buf"
        "buf_term buf'" "BUF_STATIC buf' = BUF_STATIC buf" and
      r: "r = 0 \<and> bmem buf' \<noteq> NULL \<and> BUF_ERROR buf' = BUF_ERROR buf \<and> buse buf' = buse buf \<and>
          unat (buse buf) + unat len \<le> unat (bsize buf') \<or>
        r = - 1 \<and> BUF_ERROR buf' \<and> (2 ^ 64 - 2 < unat (buse buf) + unat len \<or> (\<exists>n. mem n = NULL))" using sh(2) by blast
    have G: "xmlBufGrow mem (Ptr buf) len = Some (if r < 0 then - 1 else 0, Ptr buf')" using grow g(1) by (simp add: xmlBufGrow_def)
    have "unat len \<le> unat (bsize buf' - buse buf')" if "r = 0"
      using r that buf_shapeD(2) [OF g(2)] by (auto simp: unat_minus64)
    then show ?thesis using G g r grow length_buf_bytes [OF sh(1)]
      by (auto simp: buf_inv_def may_fail_def xmlBufAvail_def)
  qed
qed

lemma buf_read_refines:
  assumes "buf_inv buf"
  shows "buf_step BufRead buf = Some (if BUF_ERROR buf then (- 1, []) else (0, buf_bytes buf @ [0]), buf)"
proof -
  obtain m where m: "bmem buf = Ptr m" "holds m (boffset buf) (buf_bytes buf)"
    using assms buf_term_Ptr by (auto simp: buf_inv_def)
  have "length (buf_bytes buf) = unat (buse buf)" using assms by (simp add: buf_inv_def length_buf_bytes)
  then show ?thesis using m
    by (auto simp: xmlBufContent_def buf_content_def xmlBufUse_def copy_in_def holds_def seg_def)
qed

lemma buf_step_refines:
  assumes "buf_inv buf" "buf_legal op"
  shows "\<exists>r buf'. buf_step op buf = Some (r, buf') \<and> buf_inv buf' \<and> buf_spec op (buf_abs buf) r (buf_abs buf')"
proof (cases op)
  case (BufAdd mem str len)
  show ?thesis
  proof (cases str)
    case NULL
    then show ?thesis using BufAdd assms by (auto simp: xmlBufAdd_def buf_result_def buf_abs_def)
  next
    case (Ptr s)
    then show ?thesis using buf_add_refines [OF assms(1), of len s mem] assms(2) BufAdd by (auto simp: buf_result_def)
  qed
next
  case (BufCat mem str)
  show ?thesis
  proof (cases str)
    case NULL
    then show ?thesis using BufCat assms by (simp add: xmlBufCat_def buf_result_def)
  next
    case (Ptr s)
    then have s: "cstring s" "length s < 2 ^ 64" using assms(2) BufCat by simp_all
    then have l: "length (strval s) < length s" by (simp add: length_strval_less)
    then have "unat (word_of_nat (length (strval s)) :: size_t) = length (strval s)" using s(2) by (intro unat_of_nat64) linarith
    then show ?thesis using buf_add_refines [OF assms(1), of "word_of_nat (length (strval s))" s mem] s l Ptr BufCat
      by (auto simp: buf_result_def xmlBufCat_def strlen_cstring take_strval)
  qed
next
  case (BufGrow mem len)
  from xmlBufGrow_refines [OF assms(1), of mem len] BufGrow show ?thesis
    by (auto simp: buf_result_def buf_abs_def split: if_splits)
next
  case (BufAddLen len)
  show ?thesis
  proof (cases "BUF_ERROR buf \<or> BUF_STATIC buf \<or> \<not> len \<le> bsize buf - buse buf")
    case True
    then show ?thesis using BufAddLen assms by (auto simp: buf_result_def buf_abs_def xmlBufAddLen_def)
  next
    case False
    then show ?thesis using xmlBufAddLen_ok [OF assms(1), of len] BufAddLen by (auto simp: buf_result_def buf_abs_def)
  qed
next
  case (BufShrink len)
  have l: "length (buf_bytes buf) = unat (buse buf)" using assms(1) by (simp add: buf_inv_def length_buf_bytes)
  show ?thesis
  proof (cases "BUF_ERROR buf \<or> len = 0 \<or> unat len > length (buf_bytes buf)")
    case True
    then show ?thesis using BufShrink assms l by (auto simp: buf_result_def buf_abs_def xmlBufShrink_def word_less_nat_alt)
  next
    case False
    then show ?thesis using xmlBufShrink_ok [OF assms(1), of len] BufShrink by (auto simp: buf_result_def buf_abs_def)
  qed
next
  case BufEmpty
  show ?thesis
  proof (cases "BUF_ERROR buf \<or> BUF_STATIC buf")
    case True
    then show ?thesis using BufEmpty assms by (auto simp: buf_result_def buf_abs_def xmlBufEmpty_def)
  next
    case False
    then show ?thesis using xmlBufEmpty_ok [OF assms(1)] BufEmpty by (auto simp: buf_result_def buf_abs_def)
  qed
next
  case BufRead
  then show ?thesis using buf_read_refines [OF assms(1)] assms(1) by (auto simp: buf_abs_def)
qed

interpretation buffers: implementation buf_step buf_spec buf_inv buf_abs buf_legal
  by unfold_locales (rule buf_step_refines)

section \<open>32-bit buffers\<close>

lemma unat_plus32: "unat a + unat b < 2 ^ 32 \<Longrightarrow> unat (a + b) = unat a + unat b" for a b :: uint
  by (simp add: unat_add_lem [THEN iffD1])

lemma unat_minus32: "unat b \<le> unat a \<Longrightarrow> unat (a - b) = unat a - unat b" for a b :: uint
  by (simp add: unat_sub word_le_nat_alt)

lemma unat_of_nat32: "n < 2 ^ 32 \<Longrightarrow> unat (word_of_nat n :: uint) = n"
  by (simp add: unat_of_nat)

lemma unat_of_int32: "0 \<le> i \<Longrightarrow> i \<le> INT_MAX \<Longrightarrow> unat (word_of_int i :: uint) = nat i"
  by (simp add: unsigned_of_int take_bit_int_eq_self)

lemma sint32: "unat (w :: uint) < 2 ^ 31 \<Longrightarrow> sint w = int (unat w)"
proof -
  assume "unat w < 2 ^ 31"
  then have "uint w < 2 ^ 31" by (simp add: uint_nat [of w] del: of_nat_unat)
  moreover have "0 \<le> uint w" by simp
  ultimately have "signed_take_bit 31 (uint w) = uint w" by (intro signed_take_bit_int_eq_self) linarith+
  then show ?thesis by (simp add: sint_uint)
qed

definition buffer_shape :: "xmlBuffer \<Rightarrow> bool" where
  "buffer_shape buf \<longleftrightarrow> (xalloc buf \<noteq> XML_BUFFER_ALLOC_IO \<longrightarrow> xoffset buf = 0) \<and>
     (case xblock buf of
        NULL \<Rightarrow> xoffset buf = 0 \<and> xuse buf = 0 \<and> xsize buf = 0
      | Ptr m \<Rightarrow> unat (xuse buf) < unat (xsize buf) \<and> xoffset buf + unat (xsize buf) \<le> length m \<and>
                 xoffset buf + unat (xsize buf) \<le> INT_MAX_nat)"

definition buffer_bytes :: "xmlBuffer \<Rightarrow> bytes" where
  "buffer_bytes buf = (case xblock buf of NULL \<Rightarrow> [] | Ptr m \<Rightarrow> seg m (xoffset buf) (unat (xuse buf)))"

definition buffer_inv :: "xmlBuffer \<Rightarrow> bool" where
  "buffer_inv buf \<longleftrightarrow> buffer_shape buf \<and>
     (case xblock buf of NULL \<Rightarrow> False | Ptr m \<Rightarrow> holds m (xoffset buf) (buffer_bytes buf))"

definition buffer_fails :: "heap \<Rightarrow> nat \<Rightarrow> nat \<Rightarrow> bool" where
  "buffer_fails mem n k \<longleftrightarrow> INT_MAX_nat \<le> n + k \<or> (\<exists>i. mem i = NULL)"

lemma buffer_shapeD:
  assumes "buffer_shape buf"
  shows "unat (xuse buf) \<le> unat (xsize buf)" "xoffset buf + unat (xsize buf) \<le> INT_MAX_nat"
    "length (buffer_bytes buf) = unat (xuse buf)"
  using assms by (auto simp: buffer_shape_def buffer_bytes_def length_seg split: ptr.splits)

lemma buffer_invD:
  assumes "buffer_inv buf"
  obtains m where "xblock buf = Ptr m" "holds m (xoffset buf) (buffer_bytes buf)" "unat (xuse buf) < unat (xsize buf)"
    "xoffset buf + unat (xsize buf) \<le> length m" "xoffset buf + unat (xsize buf) \<le> INT_MAX_nat"
    "length (buffer_bytes buf) = unat (xuse buf)" "xalloc buf \<noteq> XML_BUFFER_ALLOC_IO \<longrightarrow> xoffset buf = 0"
  using assms buffer_shapeD(3) [of buf] by (auto simp: buffer_inv_def buffer_shape_def split: ptr.splits)

lemma buffer_invI:
  assumes "xblock buf = Ptr m" "holds m (xoffset buf) bs" "unat (xuse buf) = length bs" "length bs < unat (xsize buf)"
    "xoffset buf + unat (xsize buf) \<le> length m" "xoffset buf + unat (xsize buf) \<le> INT_MAX_nat"
    "xalloc buf \<noteq> XML_BUFFER_ALLOC_IO \<longrightarrow> xoffset buf = 0"
  shows "buffer_inv buf \<and> buffer_bytes buf = bs"
proof -
  have "buffer_bytes buf = bs" using holdsD [OF assms(2)] assms(1,3) by (simp add: buffer_bytes_def)
  then show ?thesis using assms by (simp add: buffer_inv_def buffer_shape_def)
qed

lemma buffer_new_size:
  assumes "buffer_shape buf" "\<not> len \<ge> INT_MAX_u - xuse buf"
  shows "unat (xuse buf) + unat len < unat (buffer_new_size buf len) \<and> unat (buffer_new_size buf len) \<le> INT_MAX_nat"
proof -
  note sh = buffer_shapeD [OF assms(1)]
  have r: "unat (xuse buf) + unat len < INT_MAX_nat"
    using assms(2) sh by (simp add: word_le_nat_alt unat_minus32)
  consider (double) "xsize buf > len" "xsize buf \<le> INT_MAX_u div 2" | (max) "xsize buf > len" "\<not> xsize buf \<le> INT_MAX_u div 2"
    | (sum) "\<not> xsize buf > len" by blast
  then show ?thesis
  proof cases
    case double
    then have 1: "unat len < unat (xsize buf)" "unat (xsize buf) \<le> INT_MAX_nat div 2"
      by (simp_all add: word_less_nat_alt word_le_nat_alt unat_div)
    have "unat (xsize buf * 2) = unat (xsize buf) + unat (xsize buf)"
      using 1(2) unat_plus32 [of "xsize buf" "xsize buf"] by (simp add: mult_2_right)
    then show ?thesis using double 1 sh by (simp add: buffer_new_size_def)
  next
    case max
    then show ?thesis using sh r by (simp add: buffer_new_size_def)
  next
    case sum
    have 0: "unat (xuse buf + len) = unat (xuse buf) + unat len" using r by (intro unat_plus32) simp
    have 1: "unat (xuse buf + len + 1) = unat (xuse buf) + unat len + 1" using r by (subst unat_plus32) (simp_all add: 0)
    have 2: "unat (INT_MAX_u - 100) = INT_MAX_nat - 100" by simp
    have 3: "unat (xuse buf + len + 1 + 100) = unat (xuse buf) + unat len + 1 + 100" if "xuse buf + len + 1 \<le> INT_MAX_u - 100"
      using that unfolding word_le_nat_alt 1 2 by (subst unat_plus32) (simp_all add: 1)
    show ?thesis
    proof (cases "xuse buf + len + 1 \<le> INT_MAX_u - 100")
      case True
      then have "buffer_new_size buf len = xuse buf + len + 1 + 100" using sum by (simp add: buffer_new_size_def)
      then show ?thesis using 3 [OF True] True r unfolding word_le_nat_alt 1 2 by simp
    next
      case False
      then have "buffer_new_size buf len = xuse buf + len + 1" using sum by (simp add: buffer_new_size_def)
      then show ?thesis using 1 r by simp
    qed
  qed
qed

lemma xmlBufferGrow_ok:
  assumes sh: "buffer_shape buf" and len: "\<not> len < xsize buf - xuse buf"
  shows "\<exists>r buf'. xmlBufferGrow mem (Ptr buf) len = Some (r, Ptr buf') \<and>
    (0 \<le> r \<and> buffer_shape buf' \<and> xblock buf' \<noteq> NULL \<and> buffer_bytes buf' = buffer_bytes buf \<and> xoffset buf' = 0 \<and>
       xalloc buf' = xalloc buf \<and> xuse buf' = xuse buf \<and> (buffer_inv buf \<longrightarrow> buffer_inv buf') \<and>
       unat (xuse buf) + unat len < unat (xsize buf') \<and> r = int (unat (xsize buf') - unat (xuse buf) - 1) \<or>
     r = - 1 \<and> buf' = buf \<and> buffer_fails mem (length (buffer_bytes buf)) (unat len))"
proof -
  let ?u = "unat (xuse buf)" let ?sz = "buffer_new_size buf len"
  note shD = buffer_shapeD [OF sh]
  show ?thesis
  proof (cases "len \<ge> INT_MAX_u - xuse buf")
    case True
    then have "INT_MAX_nat \<le> ?u + unat len" using shD by (simp add: word_le_nat_alt unat_minus32)
    then show ?thesis using True len shD(3) by (simp add: xmlBufferGrow_def buffer_fails_def)
  next
    case room: False
    have sz: "?u + unat len < unat ?sz" "unat ?sz \<le> INT_MAX_nat" using buffer_new_size [OF sh room] by simp_all
    have "unat (?sz - xuse buf - 1) = unat ?sz - ?u - 1"
      using sz by (subst unat_minus32; simp add: unat_minus32)
    then have rv: "sint (?sz - xuse buf - 1) = int (unat ?sz - ?u - 1)" using sz by (subst sint32) simp_all
    have done_: ?thesis if "xmlBufferGrow mem (Ptr buf) len = Some (sint (?sz - xuse buf - 1), Ptr (buf\<lparr>xblock := Ptr new, xoffset := 0, xsize := ?sz\<rparr>))"
      "length new = unat ?sz" "take ?u new = buffer_bytes buf" "buffer_inv buf \<longrightarrow> new ! ?u = 0" for new
    proof -
      let ?b = "buf\<lparr>xblock := Ptr new, xoffset := 0, xsize := ?sz\<rparr>"
      have b: "buffer_bytes ?b = buffer_bytes buf" using that(3) by (simp add: buffer_bytes_def seg_def)
      have s: "buffer_shape ?b" using sz that(2) by (simp add: buffer_shape_def)
      have "holds new 0 (seg new 0 ?u)" if "buffer_inv buf"
        using \<open>buffer_inv buf \<longrightarrow> new ! ?u = 0\<close> that sz \<open>length new = unat ?sz\<close> by (subst holds_iff [symmetric]) simp_all
      then have "buffer_inv buf \<longrightarrow> buffer_inv ?b" using s b \<open>take ?u new = buffer_bytes buf\<close> by (simp add: buffer_inv_def seg_def)
      moreover define k where "k = unat ?sz - ?u - 1"
      ultimately have "xmlBufferGrow mem (Ptr buf) len = Some (int k, Ptr ?b) \<and> (0 \<le> int k \<and> buffer_shape ?b \<and> xblock ?b \<noteq> NULL \<and>
          buffer_bytes ?b = buffer_bytes buf \<and> xoffset ?b = 0 \<and> xalloc ?b = xalloc buf \<and> xuse ?b = xuse buf \<and>
          (buffer_inv buf \<longrightarrow> buffer_inv ?b) \<and> ?u + unat len < unat (xsize ?b) \<and> int k = int (unat (xsize ?b) - ?u - 1))"
        using that(1) [unfolded rv] b s sz by (simp del: of_nat_diff)
      then show ?thesis by blast
    qed
    show ?thesis
    proof (cases "xalloc buf = XML_BUFFER_ALLOC_IO \<and> xoffset buf \<noteq> 0")
      case off: True
      then obtain m where m: "xblock buf = Ptr m" using sh by (auto simp: buffer_shape_def split: ptr.splits)
      show ?thesis
      proof (cases rule: malloc_cases [of mem "unat ?sz"])
        case 1
        then show ?thesis using room len off by (auto simp: xmlBufferGrow_def buffer_fails_def Let_def)
      next
        case (2 new)
        have b: "?u < unat (xsize buf)" "xoffset buf + unat (xsize buf) \<le> length m" using sh m by (simp_all add: buffer_shape_def)
        have u1: "unat (xuse buf + 1) = Suc ?u" using shD b by (subst unat_plus32) simp_all
        let ?xs = "seg m (xoffset buf) (Suc ?u)"
        have xs: "copy_in (Suc ?u) (drop (xoffset buf) m) = Some ?xs" "length ?xs = Suc ?u"
          using b by (simp_all add: copy_in_def seg_def)
        let ?new = "?xs @ drop (Suc ?u) new"
        have new: "copy_out new 0 ?xs = Some ?new" "length ?new = unat ?sz" using xs(2) 2(2) sz by (simp_all add: copy_out_def)
        have e: "?xs = buffer_bytes buf @ [m ! (xoffset buf + ?u)]" using b m by (simp add: seg_Suc buffer_bytes_def)
        show ?thesis
        proof (rule done_)
          show "xmlBufferGrow mem (Ptr buf) len = Some (sint (?sz - xuse buf - 1), Ptr (buf\<lparr>xblock := Ptr ?new, xoffset := 0, xsize := ?sz\<rparr>))"
            using room len off m 2(1) xs(1) new(1) by (simp add: xmlBufferGrow_def Let_def u1)
          show "take ?u ?new = buffer_bytes buf" unfolding e using shD(3) by simp
          have "?new ! ?u = m ! (xoffset buf + ?u)" unfolding e using shD(3) by (simp add: nth_append)
          then show "buffer_inv buf \<longrightarrow> ?new ! ?u = 0" using holdsD [of m "xoffset buf" "buffer_bytes buf"] shD(3) m
            by (auto simp: buffer_inv_def)
        qed (rule new(2))
      qed
    next
      case on: False
      have o: "xoffset buf = 0" using on sh by (auto simp: buffer_shape_def)
      show ?thesis
      proof (cases rule: realloc_cases [of mem "xblock buf" "unat ?sz"])
        case 1
        then show ?thesis using room len on by (auto simp: xmlBufferGrow_def buffer_fails_def Let_def)
      next
        case (2 new)
        have G: "xmlBufferGrow mem (Ptr buf) len = Some (sint (?sz - xuse buf - 1), Ptr (buf\<lparr>xblock := Ptr new, xoffset := 0, xsize := ?sz\<rparr>))"
          using room len o 2(1) by (simp add: xmlBufferGrow_def Let_def)
        show ?thesis
        proof (cases "xblock buf")
          case NULL
          then show ?thesis using done_ [OF G 2(2)] sh by (simp add: buffer_shape_def buffer_bytes_def buffer_inv_def)
        next
          case (Ptr m)
          have "Suc ?u \<le> min (unat ?sz) (length m)" using sh Ptr sz by (simp add: buffer_shape_def)
          from take_less_eq [OF this 2(3) [OF Ptr]] have t: "take (Suc ?u) new = take (Suc ?u) m" .
          then have "take ?u new = buffer_bytes buf"
            using take_less_eq [of ?u "Suc ?u" new m] Ptr o by (simp add: buffer_bytes_def seg_def)
          moreover have "new ! ?u = m ! ?u" using t by (metis lessI nth_take)
          moreover have "m ! ?u = 0" if "buffer_inv buf"
            using that holdsD [of m 0 "buffer_bytes buf"] shD(3) Ptr o by (auto simp: buffer_inv_def)
          ultimately show ?thesis using done_ [OF G 2(2)] by simp
        qed
      qed
    qed
  qed
qed

text \<open>The bytes meant by a string argument and its length, where a negative length is that of the string.\<close>

definition arg_bytes :: "bytes \<Rightarrow> int \<Rightarrow> bytes" where
  "arg_bytes s len = (if len < 0 then strval s else take (nat len) s)"

definition arg_ok :: "bytes \<Rightarrow> int \<Rightarrow> bool" where
  "arg_ok s len \<longleftrightarrow> (if len < 0 then cstring s \<and> length s \<le> INT_MAX_nat else nat len \<le> length s \<and> len \<le> INT_MAX)"

lemma arg_length_ok:
  assumes "arg_ok s len"
  shows "arg_length s len = Some (int (length (arg_bytes s len)))" "length (arg_bytes s len) \<le> INT_MAX_nat"
    "copy_in (length (arg_bytes s len)) s = Some (arg_bytes s len)"
  using assms length_strval_less [of s]
  by (auto simp: arg_length_def arg_ok_def arg_bytes_def xmlStrlen_def strlen_cstring copy_in_def take_strval split: if_splits)

lemma xmlBufferAdd_ok:
  assumes sh: "buffer_shape buf" and arg: "arg_ok s len" and ne: "arg_bytes s len \<noteq> []"
  shows "\<exists>r buf'. xmlBufferAdd mem (Ptr buf) (Ptr s) len = Some (r, Ptr buf') \<and>
    (r = XML_ERR_OK \<and> buffer_inv buf' \<and> buffer_bytes buf' = buffer_bytes buf @ arg_bytes s len \<and> xalloc buf' = xalloc buf \<or>
     r = XML_ERR_NO_MEMORY \<and> buf' = buf \<and> buffer_fails mem (length (buffer_bytes buf)) (length (arg_bytes s len)))"
proof -
  let ?xs = "arg_bytes s len" let ?l = "word_of_nat (length ?xs) :: uint"
  note a = arg_length_ok [OF arg]
  note shD = buffer_shapeD [OF sh]
  have l: "unat ?l = length ?xs" using a(2) by (subst unat_of_nat32) simp_all
  have store: "\<exists>m1 m2. copy_out m (xoffset b + unat (xuse b)) ?xs = Some m1 \<and>
      wr m1 (xoffset b + unat (xuse b + ?l)) 0 = Some m2 \<and>
      (let b' = b\<lparr>xblock := Ptr m2, xuse := xuse b + ?l\<rparr> in buffer_inv b' \<and> buffer_bytes b' = buffer_bytes b @ ?xs)"
    if b: "buffer_shape b" "xblock b = Ptr m" "unat (xuse b) + length ?xs < unat (xsize b)" for b m
  proof -
    have bb: "xoffset b + unat (xsize b) \<le> length m" "xoffset b + unat (xsize b) \<le> INT_MAX_nat" "xalloc b \<noteq> XML_BUFFER_ALLOC_IO \<longrightarrow> xoffset b = 0"
      using b(1,2) by (simp_all add: buffer_shape_def)
    have ul: "unat (xuse b + ?l) = unat (xuse b) + length ?xs" using b(3) bb(2) by (subst unat_plus32) (simp_all add: l)
    have "xoffset b + unat (xuse b) + length ?xs < length m" using b(3) bb(1) by linarith
    from append_at [OF this] obtain m1 m2 where m: "copy_out m (xoffset b + unat (xuse b)) ?xs = Some m1"
      "wr m1 (xoffset b + unat (xuse b) + length ?xs) 0 = Some m2" "length m2 = length m"
      "holds m2 (xoffset b) (seg m (xoffset b) (unat (xuse b)) @ ?xs)" by blast
    have e: "seg m (xoffset b) (unat (xuse b)) = buffer_bytes b" using b(2) by (simp add: buffer_bytes_def)
    have "buffer_inv (b\<lparr>xblock := Ptr m2, xuse := xuse b + ?l\<rparr>) \<and> buffer_bytes (b\<lparr>xblock := Ptr m2, xuse := xuse b + ?l\<rparr>) = buffer_bytes b @ ?xs"
      by (rule buffer_invI [where m = m2]) (use m e ul b bb buffer_shapeD(3) [OF b(1)] in auto)
    then show ?thesis using m(1,2) ul by (simp add: add.assoc)
  qed
  have res: "xmlBufferAdd mem (Ptr buf) (Ptr s) len = Some (XML_ERR_OK, Ptr (b\<lparr>xblock := Ptr m2, xuse := xuse b + ?l\<rparr>))"
    if "(if ?l \<ge> xsize buf - xuse buf then xmlBufferGrow mem (Ptr buf) ?l else Some (0, Ptr buf)) = Some (r, Ptr b)" "0 \<le> r"
      "xblock b = Ptr m" "copy_out m (xoffset b + unat (xuse b)) ?xs = Some m1"
      "wr m1 (xoffset b + unat (xuse b + ?l)) 0 = Some m2" for r b m m1 m2
    using that a ne by (simp add: xmlBufferAdd_def Let_def split: if_splits)
  show ?thesis
  proof (cases "?l \<ge> xsize buf - xuse buf")
    case True
    then have "\<not> ?l < xsize buf - xuse buf" by simp
    from xmlBufferGrow_ok [OF sh this, of mem] obtain r b where g: "xmlBufferGrow mem (Ptr buf) ?l = Some (r, Ptr b)" and
      r: "0 \<le> r \<and> buffer_shape b \<and> xblock b \<noteq> NULL \<and> buffer_bytes b = buffer_bytes buf \<and> xoffset b = 0 \<and>
       xalloc b = xalloc buf \<and> xuse b = xuse buf \<and> (buffer_inv buf \<longrightarrow> buffer_inv b) \<and>
       unat (xuse buf) + unat ?l < unat (xsize b) \<and> r = int (unat (xsize b) - unat (xuse buf) - 1) \<or>
       r = - 1 \<and> b = buf \<and> buffer_fails mem (length (buffer_bytes buf)) (unat ?l)" by blast
    from r show ?thesis
    proof
      assume 0: "0 \<le> r \<and> buffer_shape b \<and> xblock b \<noteq> NULL \<and> buffer_bytes b = buffer_bytes buf \<and> xoffset b = 0 \<and>
       xalloc b = xalloc buf \<and> xuse b = xuse buf \<and> (buffer_inv buf \<longrightarrow> buffer_inv b) \<and>
       unat (xuse buf) + unat ?l < unat (xsize b) \<and> r = int (unat (xsize b) - unat (xuse buf) - 1)"
      then obtain m where m: "xblock b = Ptr m" by (cases "xblock b") auto
      have sb: "buffer_shape b" "unat (xuse b) + length ?xs < unat (xsize b)" "0 \<le> r"
        using 0 unfolding l by (blast, metis, blast)
      from store [OF sb(1) m sb(2)] obtain m1 m2 where m2: "copy_out m (xoffset b + unat (xuse b)) ?xs = Some m1"
        "wr m1 (xoffset b + unat (xuse b + ?l)) 0 = Some m2"
        "buffer_inv (b\<lparr>xblock := Ptr m2, xuse := xuse b + ?l\<rparr>)"
        "buffer_bytes (b\<lparr>xblock := Ptr m2, xuse := xuse b + ?l\<rparr>) = buffer_bytes b @ ?xs" by (auto simp: Let_def)
      have "xmlBufferAdd mem (Ptr buf) (Ptr s) len = Some (XML_ERR_OK, Ptr (b\<lparr>xblock := Ptr m2, xuse := xuse b + ?l\<rparr>))"
        using g True sb m m2 by (intro res) simp_all
      then show ?thesis using m2(3,4) 0 by auto
    next
      assume "r = - 1 \<and> b = buf \<and> buffer_fails mem (length (buffer_bytes buf)) (unat ?l)"
      then show ?thesis using g True a ne l by (simp add: xmlBufferAdd_def)
    qed
  next
    case False
    then have "?l < xsize buf - xuse buf" by simp
    then have sb: "unat (xuse buf) + length ?xs < unat (xsize buf)"
      using shD(1) l by (simp add: word_less_nat_alt unat_minus32)
    then obtain m where m: "xblock buf = Ptr m" using sh by (cases "xblock buf") (auto simp: buffer_shape_def)
    from store [OF sh m sb] obtain m1 m2 where m2: "copy_out m (xoffset buf + unat (xuse buf)) ?xs = Some m1"
        "wr m1 (xoffset buf + unat (xuse buf + ?l)) 0 = Some m2"
        "buffer_inv (buf\<lparr>xblock := Ptr m2, xuse := xuse buf + ?l\<rparr>)"
        "buffer_bytes (buf\<lparr>xblock := Ptr m2, xuse := xuse buf + ?l\<rparr>) = buffer_bytes buf @ ?xs" by (auto simp: Let_def)
    have "xmlBufferAdd mem (Ptr buf) (Ptr s) len = Some (XML_ERR_OK, Ptr (buf\<lparr>xblock := Ptr m2, xuse := xuse buf + ?l\<rparr>))"
      using False m m2 by (intro res [where r = 0]) simp_all
    then show ?thesis using m2(3,4) by auto
  qed
qed

text \<open>Moving the content up and writing the new bytes in front of it.\<close>

lemma prepend_at:
  assumes "holds m off bs" "d + length xs + length bs < length m"
  obtains m1 m2 where "memmove m (d + length xs) off (Suc (length bs)) = Some m1" "copy_out m1 d xs = Some m2"
    "length m2 = length m" "holds m2 d (xs @ bs)"
proof -
  let ?m1 = "take (d + length xs) m @ (bs @ [0]) @ drop (d + length xs + Suc (length bs)) m"
  have h: "off + length bs < length m" "seg m off (Suc (length bs)) = bs @ [0]" using assms(1) by (simp_all add: holds_def)
  have 1: "memmove m (d + length xs) off (Suc (length bs)) = Some ?m1"
    using h assms(2) by (simp add: memmove_def seg_def)
  let ?m2 = "take d m @ xs @ bs @ [0] @ drop (d + length xs + Suc (length bs)) m"
  have 2: "copy_out ?m1 d xs = Some ?m2" using assms(2) by (simp add: copy_out_def min_def)
  have "length ?m2 = length m" "holds ?m2 d (xs @ bs)" using assms(2) by (simp_all add: holds_def seg_def min_def)
  then show thesis using 1 2 that by blast
qed

lemma write_before:
  assumes "holds m off bs" "length xs \<le> off"
  obtains m1 where "copy_out m (off - length xs) xs = Some m1" "length m1 = length m" "holds m1 (off - length xs) (xs @ bs)"
proof -
  have h: "off + length bs < length m" "seg m off (Suc (length bs)) = bs @ [0]" using assms(1) by (simp_all add: holds_def)
  let ?m1 = "take (off - length xs) m @ xs @ drop off m"
  have "copy_out m (off - length xs) xs = Some ?m1" using h assms(2) by (simp add: copy_out_def)
  moreover have "length ?m1 = length m" using h assms(2) by simp
  moreover have "holds ?m1 (off - length xs) (xs @ bs)" using h assms(2) by (simp add: holds_def seg_def min_def)
  ultimately show thesis using that by blast
qed

lemma add_head_grow_ok:
  assumes inv: "buffer_inv buf" and arg: "arg_ok s len" and ne: "arg_bytes s len \<noteq> []"
    and off: "xoffset buf = 0 \<or> length (arg_bytes s len) \<ge> unat (xsize buf) - unat (xuse buf)"
  shows "\<exists>r buf'. add_head_grow mem buf s (int (length (arg_bytes s len))) = Some (r, Ptr buf') \<and>
    (r = 0 \<and> buffer_inv buf' \<and> buffer_bytes buf' = arg_bytes s len @ buffer_bytes buf \<or>
     r = - 1 \<and> buf' = buf \<and> buffer_fails mem (length (buffer_bytes buf)) (length (arg_bytes s len)))"
proof -
  let ?xs = "arg_bytes s len" let ?l = "word_of_nat (length ?xs) :: uint"
  note a = arg_length_ok [OF arg]
  have sh: "buffer_shape buf" using inv by (simp add: buffer_inv_def)
  note shD = buffer_shapeD [OF sh]
  have l: "unat ?l = length ?xs" using a(2) by (subst unat_of_nat32) simp_all
  have store: "\<exists>m1 m2. memmove m (xoffset b + length ?xs) (xoffset b) (unat (xuse b + 1)) = Some m1 \<and> copy_out m1 (xoffset b) ?xs = Some m2 \<and>
      (let b' = b\<lparr>xblock := Ptr m2, xuse := xuse b + ?l\<rparr> in buffer_inv b' \<and> buffer_bytes b' = ?xs @ buffer_bytes b)"
    if b: "buffer_inv b" "xblock b = Ptr m" "unat (xuse b) + length ?xs < unat (xsize b)" for b m
  proof (rule buffer_invD [OF b(1)])
    fix m' assume m': "xblock b = Ptr m'" "holds m' (xoffset b) (buffer_bytes b)" "unat (xuse b) < unat (xsize b)"
      "xoffset b + unat (xsize b) \<le> length m'" "xoffset b + unat (xsize b) \<le> INT_MAX_nat"
      "length (buffer_bytes b) = unat (xuse b)" "xalloc b \<noteq> XML_BUFFER_ALLOC_IO \<longrightarrow> xoffset b = 0"
    then have [simp]: "m' = m" using b(2) by simp
    have u1: "unat (xuse b + 1) = Suc (length (buffer_bytes b))" using m' by (subst unat_plus32) simp_all
    have ul: "unat (xuse b + ?l) = unat (xuse b) + length ?xs" using b(3) m' by (subst unat_plus32) (simp_all add: l)
    have "xoffset b + length ?xs + length (buffer_bytes b) < length m" using m' b(3) by simp
    from prepend_at [OF m'(2) [simplified] this] obtain m1 m2 where
      m: "memmove m (xoffset b + length ?xs) (xoffset b) (Suc (length (buffer_bytes b))) = Some m1" "copy_out m1 (xoffset b) ?xs = Some m2"
      "length m2 = length m" "holds m2 (xoffset b) (?xs @ buffer_bytes b)" by blast
    have "buffer_inv (b\<lparr>xblock := Ptr m2, xuse := xuse b + ?l\<rparr>) \<and> buffer_bytes (b\<lparr>xblock := Ptr m2, xuse := xuse b + ?l\<rparr>) = ?xs @ buffer_bytes b"
      by (rule buffer_invI [where m = m2]) (use m ul m' b(3) in auto)
    then show ?thesis using m(1,2) u1 by simp
  qed
  have res: "add_head_grow mem buf s (int (length ?xs)) = Some (0, Ptr (b\<lparr>xblock := Ptr m2, xuse := xuse b + ?l\<rparr>))"
    if "(if ?l \<ge> xsize buf - xuse buf then xmlBufferGrow mem (Ptr buf) ?l else Some (0, Ptr buf)) = Some (r, Ptr b)" "0 \<le> r"
      "xblock b = Ptr m" "memmove m (xoffset b + length ?xs) (xoffset b) (unat (xuse b + 1)) = Some m1"
      "copy_out m1 (xoffset b) ?xs = Some m2" for r b m m1 m2
    using that a by (simp add: add_head_grow_def Let_def split: if_splits)
  show ?thesis
  proof (cases "?l \<ge> xsize buf - xuse buf")
    case True
    then have "\<not> ?l < xsize buf - xuse buf" by simp
    from xmlBufferGrow_ok [OF sh this, of mem] obtain r b where g: "xmlBufferGrow mem (Ptr buf) ?l = Some (r, Ptr b)" and
      r: "0 \<le> r \<and> buffer_inv b \<and> buffer_bytes b = buffer_bytes buf \<and>
       xuse b = xuse buf \<and> unat (xuse buf) + unat ?l < unat (xsize b) \<or>
       r = - 1 \<and> b = buf \<and> buffer_fails mem (length (buffer_bytes buf)) (unat ?l)" using inv by blast
    from r show ?thesis
    proof
      assume 0: "0 \<le> r \<and> buffer_inv b \<and> buffer_bytes b = buffer_bytes buf \<and>
       xuse b = xuse buf \<and> unat (xuse buf) + unat ?l < unat (xsize b)"
      then obtain m where m: "xblock b = Ptr m" using buffer_invD by blast
      have sb: "buffer_inv b" "unat (xuse b) + length ?xs < unat (xsize b)" "0 \<le> r"
        using 0 unfolding l by (blast, metis, blast)
      from store [OF sb(1) m sb(2)] obtain m1 m2 where m2: "memmove m (xoffset b + length ?xs) (xoffset b) (unat (xuse b + 1)) = Some m1"
        "copy_out m1 (xoffset b) ?xs = Some m2"
        "buffer_inv (b\<lparr>xblock := Ptr m2, xuse := xuse b + ?l\<rparr>)"
        "buffer_bytes (b\<lparr>xblock := Ptr m2, xuse := xuse b + ?l\<rparr>) = ?xs @ buffer_bytes b" by (auto simp: Let_def)
      have "add_head_grow mem buf s (int (length ?xs)) = Some (0, Ptr (b\<lparr>xblock := Ptr m2, xuse := xuse b + ?l\<rparr>))"
        using g True sb m m2 by (intro res) simp_all
      then show ?thesis using m2(3,4) 0 by auto
    next
      assume "r = - 1 \<and> b = buf \<and> buffer_fails mem (length (buffer_bytes buf)) (unat ?l)"
      then show ?thesis using g True l by (simp add: add_head_grow_def)
    qed
  next
    case False
    then have "?l < xsize buf - xuse buf" by simp
    then have sb: "unat (xuse buf) + length ?xs < unat (xsize buf)"
      using shD(1) l by (simp add: word_less_nat_alt unat_minus32)
    obtain m where m: "xblock buf = Ptr m" using inv buffer_invD by blast
    from store [OF inv m sb] obtain m1 m2 where m2: "memmove m (xoffset buf + length ?xs) (xoffset buf) (unat (xuse buf + 1)) = Some m1"
        "copy_out m1 (xoffset buf) ?xs = Some m2"
        "buffer_inv (buf\<lparr>xblock := Ptr m2, xuse := xuse buf + ?l\<rparr>)"
        "buffer_bytes (buf\<lparr>xblock := Ptr m2, xuse := xuse buf + ?l\<rparr>) = ?xs @ buffer_bytes buf" by (auto simp: Let_def)
    have "add_head_grow mem buf s (int (length ?xs)) = Some (0, Ptr (buf\<lparr>xblock := Ptr m2, xuse := xuse buf + ?l\<rparr>))"
      using False m m2 by (intro res [where r = 0]) simp_all
    then show ?thesis using m2(3,4) by auto
  qed
qed

lemma xmlBufferAddHead_ok:
  assumes inv: "buffer_inv buf" and arg: "arg_ok s len" and ne: "arg_bytes s len \<noteq> []"
  shows "\<exists>r buf'. xmlBufferAddHead mem (Ptr buf) (Ptr s) len = Some (r, Ptr buf') \<and>
    (r = 0 \<and> buffer_inv buf' \<and> buffer_bytes buf' = arg_bytes s len @ buffer_bytes buf \<or>
     r = - 1 \<and> buf' = buf \<and> buffer_fails mem (length (buffer_bytes buf)) (length (arg_bytes s len)))"
proof -
  let ?xs = "arg_bytes s len" let ?l = "word_of_nat (length ?xs) :: uint" let ?st = "word_of_nat (xoffset buf) :: uint"
  let ?bs = "buffer_bytes buf"
  note a = arg_length_ok [OF arg]
  from inv obtain m where m: "xblock buf = Ptr m" "holds m (xoffset buf) ?bs" "unat (xuse buf) < unat (xsize buf)"
    "xoffset buf + unat (xsize buf) \<le> length m" "xoffset buf + unat (xsize buf) \<le> INT_MAX_nat"
    "length ?bs = unat (xuse buf)" "xalloc buf \<noteq> XML_BUFFER_ALLOC_IO \<longrightarrow> xoffset buf = 0" by (rule buffer_invD)
  have l: "unat ?l = length ?xs" using a(2) by (subst unat_of_nat32) simp_all
  have st: "unat ?st = xoffset buf" using m(5) by (subst unat_of_nat32) simp_all
  consider (front) "xalloc buf = XML_BUFFER_ALLOC_IO" "?l \<le> ?st"
    | (move) "xalloc buf = XML_BUFFER_ALLOC_IO" "\<not> ?l \<le> ?st" "?l < xsize buf + ?st - xuse buf"
    | (grow) "\<not> (xalloc buf = XML_BUFFER_ALLOC_IO \<and> ?l \<le> ?st)" "\<not> (xalloc buf = XML_BUFFER_ALLOC_IO \<and> ?l < xsize buf + ?st - xuse buf)" by blast
  then show ?thesis
  proof cases
    case front
    have le: "length ?xs \<le> xoffset buf" using front(2) by (simp add: word_le_nat_alt l st)
    from write_before [OF m(2) this] obtain m1 where m1: "copy_out m (xoffset buf - length ?xs) ?xs = Some m1" "length m1 = length m"
      "holds m1 (xoffset buf - length ?xs) (?xs @ ?bs)" by blast
    let ?b = "buf\<lparr>xblock := Ptr m1, xoffset := xoffset buf - length ?xs, xuse := xuse buf + ?l, xsize := xsize buf + ?l\<rparr>"
    have w: "unat (xuse buf + ?l) = unat (xuse buf) + length ?xs" "unat (xsize buf + ?l) = unat (xsize buf) + length ?xs"
      using m le by (subst unat_plus32; simp add: l)+
    have "buffer_inv ?b \<and> buffer_bytes ?b = ?xs @ ?bs"
      by (rule buffer_invI [where m = m1]) (use m m1 w le front in auto)
    moreover have "xmlBufferAddHead mem (Ptr buf) (Ptr s) len = Some (0, Ptr ?b)"
      using front m(1) m1(1) a ne by (simp add: xmlBufferAddHead_def Let_def)
    ultimately show ?thesis by blast
  next
    case move
    have so: "unat (xsize buf + ?st) = unat (xsize buf) + xoffset buf" using m by (subst unat_plus32) (simp_all add: st)
    have "unat (xsize buf + ?st - xuse buf) = unat (xsize buf) + xoffset buf - unat (xuse buf)"
      using m so by (subst unat_minus32) simp_all
    then have le: "length ?xs < unat (xsize buf) + xoffset buf - unat (xuse buf)" using move(3) by (simp add: word_less_nat_alt l)
    have "0 + length ?xs + length ?bs < length m" using le m by linarith
    from prepend_at [OF m(2) this] obtain m1 m2 where m1: "memmove m (0 + length ?xs) (xoffset buf) (Suc (length ?bs)) = Some m1"
      "copy_out m1 0 ?xs = Some m2" "length m2 = length m" "holds m2 0 (?xs @ ?bs)" by blast
    have u1: "unat (xuse buf + 1) = Suc (length ?bs)" using m by (subst unat_plus32) simp_all
    let ?b = "buf\<lparr>xblock := Ptr m2, xoffset := 0, xuse := xuse buf + ?l, xsize := xsize buf + ?st\<rparr>"
    have w: "unat (xuse buf + ?l) = unat (xuse buf) + length ?xs" using m le by (subst unat_plus32) (simp_all add: l)
    have "buffer_inv ?b \<and> buffer_bytes ?b = ?xs @ ?bs"
      by (rule buffer_invI [where m = m2]) (use m m1 w so le in auto)
    moreover have "xmlBufferAddHead mem (Ptr buf) (Ptr s) len = Some (0, Ptr ?b)"
      using move m(1) m1(1,2) a ne u1 by (simp add: xmlBufferAddHead_def Let_def)
    ultimately show ?thesis by blast
  next
    case grow
    have "xoffset buf = 0 \<or> length ?xs \<ge> unat (xsize buf) - unat (xuse buf)"
    proof (cases "xalloc buf = XML_BUFFER_ALLOC_IO")
      case True
      have so: "unat (xsize buf + ?st) = unat (xsize buf) + xoffset buf" using m by (subst unat_plus32) (simp_all add: st)
      have "unat (xsize buf + ?st - xuse buf) = unat (xsize buf) + xoffset buf - unat (xuse buf)"
        using m so by (subst unat_minus32) simp_all
      then have "unat (xsize buf) + xoffset buf - unat (xuse buf) \<le> length ?xs"
        using True grow(2) by (simp add: word_less_nat_alt l)
      then show ?thesis by linarith
    qed (use m in simp)
    moreover have "xmlBufferAddHead mem (Ptr buf) (Ptr s) len = add_head_grow mem buf s (int (length ?xs))"
      using grow a ne by (auto simp: xmlBufferAddHead_def Let_def)
    ultimately show ?thesis using add_head_grow_ok [OF inv arg ne, of mem] by simp
  qed
qed

lemma xmlBufferShrink_ok:
  assumes inv: "buffer_inv buf" and len: "len \<noteq> 0" "unat len \<le> length (buffer_bytes buf)"
  shows "\<exists>buf'. xmlBufferShrink (Ptr buf) len = Some (int (unat len), Ptr buf') \<and> buffer_inv buf' \<and>
    buffer_bytes buf' = drop (unat len) (buffer_bytes buf)"
proof -
  let ?bs = "buffer_bytes buf"
  from inv obtain m where m: "xblock buf = Ptr m" "holds m (xoffset buf) ?bs" "unat (xuse buf) < unat (xsize buf)"
    "xoffset buf + unat (xsize buf) \<le> length m" "xoffset buf + unat (xsize buf) \<le> INT_MAX_nat"
    "length ?bs = unat (xuse buf)" "xalloc buf \<noteq> XML_BUFFER_ALLOC_IO \<longrightarrow> xoffset buf = 0" by (rule buffer_invD)
  have s: "sint len = int (unat len)" using len m by (intro sint32) simp
  have w: "unat (xuse buf - len) = unat (xuse buf) - unat len" "unat (xsize buf - len) = unat (xsize buf) - unat len"
    using len m by (simp_all add: unat_minus32)
  have ng: "\<not> len > xuse buf" using len m by (simp add: word_less_nat_alt)
  have h: "seg m (xoffset buf) (Suc (length ?bs)) = ?bs @ [0]" "xoffset buf + length ?bs < length m" using m(2) by (simp_all add: holds_def)
  have "Suc (length ?bs) - unat len = Suc (length ?bs - unat len)" using len(2) by simp
  then have d: "seg m (xoffset buf + unat len) (Suc (length ?bs - unat len)) = drop (unat len) ?bs @ [0]"
    using seg_drop [of "unat len" "Suc (length ?bs)" m "xoffset buf"] h len(2) by simp
  show ?thesis
  proof (cases "xalloc buf = XML_BUFFER_ALLOC_IO")
    case True
    let ?b = "buf\<lparr>xuse := xuse buf - len, xoffset := xoffset buf + unat len, xsize := xsize buf - len\<rparr>"
    have "holds m (xoffset buf + unat len) (drop (unat len) ?bs)" using d h len(2) by (simp add: holds_def)
    then have "buffer_inv ?b \<and> buffer_bytes ?b = drop (unat len) ?bs"
      by (intro buffer_invI [where m = m]) (use m w len True in auto)
    moreover have "xmlBufferShrink (Ptr buf) len = Some (int (unat len), Ptr ?b)"
      using True len ng s by (simp add: xmlBufferShrink_def Let_def)
    ultimately show ?thesis by blast
  next
    case False
    have u1: "unat (xuse buf - len + 1) = Suc (length ?bs - unat len)" using m w len by (subst unat_plus32) simp_all
    let ?xs = "drop (unat len) ?bs @ [0]"
    have o: "xoffset buf = 0" using m(7) False by simp
    have l: "Suc (length ?bs - unat len) \<le> length m" "unat len + Suc (length ?bs - unat len) \<le> length m" using h len by simp_all
    let ?m1 = "?xs @ drop (Suc (length ?bs - unat len)) m"
    have mv: "memmove m 0 (unat len) (Suc (length ?bs - unat len)) = Some ?m1"
      using d o l by (simp add: memmove_def seg_def)
    have m1: "length ?m1 = length m" "holds ?m1 0 (drop (unat len) ?bs)" using l len by (simp_all add: holds_def seg_def)
    let ?b = "buf\<lparr>xuse := xuse buf - len, xblock := Ptr ?m1\<rparr>"
    have "xmlBufferShrink (Ptr buf) len = Some (int (unat len), Ptr ?b)"
      using False len ng s m(1) u1 o mv by (simp add: xmlBufferShrink_def Let_def)
    moreover have "buffer_inv ?b \<and> buffer_bytes ?b = drop (unat len) ?bs"
      by (rule buffer_invI [where m = ?m1]) (use m w len o m1 in auto)
    ultimately show ?thesis by blast
  qed
qed

lemma xmlBufferEmpty_ok:
  assumes inv: "buffer_inv buf"
  shows "\<exists>buf'. xmlBufferEmpty (Ptr buf) = Some (Ptr buf') \<and> buffer_inv buf' \<and> buffer_bytes buf' = []"
proof -
  from inv obtain m where m: "xblock buf = Ptr m" "unat (xuse buf) < unat (xsize buf)"
    "xoffset buf + unat (xsize buf) \<le> length m" "xoffset buf + unat (xsize buf) \<le> INT_MAX_nat"
    "xalloc buf \<noteq> XML_BUFFER_ALLOC_IO \<longrightarrow> xoffset buf = 0" by (rule buffer_invD)
  have st: "unat (word_of_nat (xoffset buf) :: uint) = xoffset buf" using m by (subst unat_of_nat32) simp_all
  have so: "unat (xsize buf + word_of_nat (xoffset buf)) = unat (xsize buf) + xoffset buf" using m by (subst unat_plus32) (simp_all add: st)
  have h: "holds (m[0 := 0]) 0 []" using m by (cases m) (auto simp: holds_def seg_def)
  let ?b = "if xalloc buf = XML_BUFFER_ALLOC_IO then
      buf\<lparr>xuse := 0, xsize := xsize buf + word_of_nat (xoffset buf), xoffset := 0, xblock := Ptr (m[0 := 0])\<rparr>
    else buf\<lparr>xuse := 0, xblock := Ptr (m[0 := 0])\<rparr>"
  have "xmlBufferEmpty (Ptr buf) = Some (Ptr ?b)" using m by (auto simp: xmlBufferEmpty_def wr_def)
  moreover have "buffer_inv ?b \<and> buffer_bytes ?b = []"
    by (rule buffer_invI [where m = "m[0 := 0]"]) (use m h so in auto)
  ultimately show ?thesis by blast
qed

subsection \<open>The byte string\<close>

datatype buffer_op =
    BufferAdd heap xmlString int
  | BufferAddHead heap xmlString int
  | BufferShrink uint
  | BufferEmpty
  | BufferGrow heap uint
  | BufferResize heap uint
  | BufferRead

definition buffer_result :: "(int \<times> xmlBuffer ptr) option \<Rightarrow> ((int \<times> bytes) \<times> xmlBuffer) option" where
  "buffer_result x = do { (r, p) \<leftarrow> x; case p of NULL \<Rightarrow> None | Ptr buf \<Rightarrow> Some ((r, []), buf) }"

primrec buffer_step :: "buffer_op \<Rightarrow> xmlBuffer \<Rightarrow> ((int \<times> bytes) \<times> xmlBuffer) option" where
  "buffer_step (BufferAdd mem str len) buf = buffer_result (xmlBufferAdd mem (Ptr buf) str len)"
| "buffer_step (BufferAddHead mem str len) buf = buffer_result (xmlBufferAddHead mem (Ptr buf) str len)"
| "buffer_step (BufferShrink len) buf = buffer_result (xmlBufferShrink (Ptr buf) len)"
| "buffer_step BufferEmpty buf = buffer_result (do { p \<leftarrow> xmlBufferEmpty (Ptr buf); Some (0, p) })"
| "buffer_step (BufferGrow mem len) buf = buffer_result (xmlBufferGrow mem (Ptr buf) len)"
| "buffer_step (BufferResize mem sz) buf = buffer_result (xmlBufferResize mem (Ptr buf) sz)"
| "buffer_step BufferRead buf =
     (case xmlBufferContent (Ptr buf) of
        NULL \<Rightarrow> Some ((- 1, []), buf)
      | Ptr s \<Rightarrow> do { xs \<leftarrow> copy_in (nat (xmlBufferLength (Ptr buf)) + 1) s; Some ((0, xs), buf) })"

fun buffer_spec :: "buffer_op \<Rightarrow> bytes \<Rightarrow> int \<times> bytes \<Rightarrow> bytes \<Rightarrow> bool" where
  "buffer_spec (BufferAdd mem str len) bs (r, out) bs' \<longleftrightarrow> out = [] \<and>
     (case str of
        NULL \<Rightarrow> r = XML_ERR_ARGUMENT \<and> bs' = bs
      | Ptr s \<Rightarrow> r = XML_ERR_OK \<and> bs' = bs @ arg_bytes s len \<or>
                 r = XML_ERR_NO_MEMORY \<and> bs' = bs \<and> buffer_fails mem (length bs) (length (arg_bytes s len)))"
| "buffer_spec (BufferAddHead mem str len) bs (r, out) bs' \<longleftrightarrow> out = [] \<and>
     (case str of
        NULL \<Rightarrow> r = XML_ERR_ARGUMENT \<and> bs' = bs
      | Ptr s \<Rightarrow> r = 0 \<and> bs' = arg_bytes s len @ bs \<or>
                 r = - 1 \<and> bs' = bs \<and> buffer_fails mem (length bs) (length (arg_bytes s len)))"
| "buffer_spec (BufferShrink len) bs (r, out) bs' \<longleftrightarrow> out = [] \<and>
     (if unat len \<le> length bs then r = int (unat len) \<and> bs' = drop (unat len) bs else r = - 1 \<and> bs' = bs)"
| "buffer_spec BufferEmpty bs (r, out) bs' \<longleftrightarrow> out = [] \<and> r = 0 \<and> bs' = []"
| "buffer_spec (BufferGrow mem len) bs (r, out) bs' \<longleftrightarrow> out = [] \<and> bs' = bs \<and>
     (0 \<le> r \<or> r = - 1 \<and> buffer_fails mem (length bs) (unat len))"
| "buffer_spec (BufferResize mem sz) bs (r, out) bs' \<longleftrightarrow> out = [] \<and> bs' = bs \<and>
     (r = 1 \<or> r = 0 \<and> buffer_fails mem (length bs) (unat sz - length bs))"
| "buffer_spec BufferRead bs (r, out) bs' \<longleftrightarrow> bs' = bs \<and> r = 0 \<and> out = bs @ [0]"

fun buffer_legal :: "buffer_op \<Rightarrow> bool" where
  "buffer_legal (BufferAdd mem str len) \<longleftrightarrow> (case str of NULL \<Rightarrow> True | Ptr s \<Rightarrow> arg_ok s len)"
| "buffer_legal (BufferAddHead mem str len) \<longleftrightarrow> (case str of NULL \<Rightarrow> True | Ptr s \<Rightarrow> arg_ok s len)"
| "buffer_legal op \<longleftrightarrow> True"

lemma xmlBufferAdd_inv:
  assumes "buffer_inv buf" "arg_ok s len"
  shows "\<exists>r buf'. xmlBufferAdd mem (Ptr buf) (Ptr s) len = Some (r, Ptr buf') \<and> buffer_inv buf' \<and>
    (r = XML_ERR_OK \<and> buffer_bytes buf' = buffer_bytes buf @ arg_bytes s len \<or>
     r = XML_ERR_NO_MEMORY \<and> buf' = buf \<and> buffer_fails mem (length (buffer_bytes buf)) (length (arg_bytes s len)))"
proof (cases "arg_bytes s len = []")
  case True
  then show ?thesis using arg_length_ok [OF assms(2)] assms(1) by (simp add: xmlBufferAdd_def)
next
  case False
  have "buffer_shape buf" using assms(1) by (simp add: buffer_inv_def)
  from xmlBufferAdd_ok [OF this assms(2) False, of mem] assms(1) show ?thesis by blast
qed

lemma xmlBufferGrow_inv:
  assumes "buffer_inv buf"
  shows "\<exists>r buf'. xmlBufferGrow mem (Ptr buf) len = Some (r, Ptr buf') \<and> buffer_inv buf' \<and> buffer_bytes buf' = buffer_bytes buf \<and>
    (0 \<le> r \<or> r = - 1 \<and> buffer_fails mem (length (buffer_bytes buf)) (unat len))"
proof (cases "len < xsize buf - xuse buf")
  case True
  then show ?thesis using assms by (simp add: xmlBufferGrow_def)
next
  case False
  have "buffer_shape buf" using assms(1) by (simp add: buffer_inv_def)
  from xmlBufferGrow_ok [OF this False, of mem] assms show ?thesis by blast
qed

lemma buffer_step_refines:
  assumes "buffer_inv buf" "buffer_legal op"
  shows "\<exists>r buf'. buffer_step op buf = Some (r, buf') \<and> buffer_inv buf' \<and> buffer_spec op (buffer_bytes buf) r (buffer_bytes buf')"
proof -
  from assms(1) obtain m where m: "xblock buf = Ptr m" "holds m (xoffset buf) (buffer_bytes buf)" "unat (xuse buf) < unat (xsize buf)"
    "xoffset buf + unat (xsize buf) \<le> INT_MAX_nat" "length (buffer_bytes buf) = unat (xuse buf)" by (rule buffer_invD)
  show ?thesis
  proof (cases op)
    case (BufferAdd mem str len)
    show ?thesis
    proof (cases str)
      case NULL
      then show ?thesis using BufferAdd assms by (simp add: xmlBufferAdd_def buffer_result_def)
    next
      case (Ptr s)
      then show ?thesis using xmlBufferAdd_inv [OF assms(1), of s len mem] assms(2) BufferAdd by (auto simp: buffer_result_def)
    qed
  next
    case (BufferAddHead mem str len)
    show ?thesis
    proof (cases str)
      case NULL
      then show ?thesis using BufferAddHead assms by (simp add: xmlBufferAddHead_def buffer_result_def)
    next
      case (Ptr s)
      then have a: "arg_ok s len" using assms(2) BufferAddHead by simp
      show ?thesis
      proof (cases "arg_bytes s len = []")
        case True
        then show ?thesis using arg_length_ok [OF a] assms(1) BufferAddHead Ptr by (simp add: xmlBufferAddHead_def buffer_result_def)
      next
        case False
        then show ?thesis using xmlBufferAddHead_ok [OF assms(1) a False, of mem] assms(1) BufferAddHead Ptr by (auto simp: buffer_result_def)
      qed
    qed
  next
    case (BufferShrink len)
    consider "len = 0" | "unat len > length (buffer_bytes buf)" | "len \<noteq> 0" "unat len \<le> length (buffer_bytes buf)" by linarith
    then show ?thesis
    proof cases
      case 1
      then show ?thesis using BufferShrink assms by (simp add: xmlBufferShrink_def buffer_result_def)
    next
      case 2
      then have "len \<noteq> 0" by auto
      then show ?thesis using 2 BufferShrink assms m by (simp add: xmlBufferShrink_def buffer_result_def word_less_nat_alt)
    next
      case 3
      then show ?thesis using BufferShrink xmlBufferShrink_ok [OF assms(1) 3] by (auto simp: buffer_result_def)
    qed
  next
    case BufferEmpty
    then show ?thesis using xmlBufferEmpty_ok [OF assms(1)] by (auto simp: buffer_result_def)
  next
    case (BufferGrow mem len)
    then show ?thesis using xmlBufferGrow_inv [OF assms(1), of mem len] by (auto simp: buffer_result_def)
  next
    case (BufferResize mem sz)
    show ?thesis
    proof (cases "sz < xsize buf")
      case True
      then show ?thesis using BufferResize assms by (simp add: buffer_result_def xmlBufferResize_def)
    next
      case False
      then have "unat (sz - xuse buf) = unat sz - length (buffer_bytes buf)" using m by (simp add: unat_minus32 word_less_nat_alt)
      then show ?thesis using False BufferResize xmlBufferGrow_inv [OF assms(1), of mem "sz - xuse buf"]
        by (auto simp: buffer_result_def xmlBufferResize_def)
    qed
  next
    case BufferRead
    have "sint (xuse buf) = int (unat (xuse buf))" using m by (intro sint32) simp
    then have "nat (xmlBufferLength (Ptr buf)) = length (buffer_bytes buf)" using m(5) by (simp add: xmlBufferLength_def)
    then show ?thesis using BufferRead m(1,2) assms(1) by (auto simp: xmlBufferContent_def copy_in_def holds_def seg_def)
  qed
qed

interpretation old_buffers: implementation buffer_step buffer_spec buffer_inv buffer_bytes buffer_legal
  by unfold_locales (rule buffer_step_refines)

section \<open>Quoted strings\<close>

text \<open>What \<open>xmlBufferWriteQuotedString\<close> appends.\<close>

definition escape_quotes :: "bytes \<Rightarrow> bytes" where
  "escape_quotes v = concat (map (\<lambda>c. if c = 0x22 then asc ''&quot;'' else [c]) v)"

definition quoted :: "bytes \<Rightarrow> bytes" where
  "quoted v =
     (if 0x22 \<in> set v then
        if 0x27 \<in> set v then [0x22] @ escape_quotes v @ [0x22] else [0x27] @ v @ [0x27]
      else [0x22] @ v @ [0x22])"

lemma escape_quotes_simps [simp]:
  "escape_quotes [] = []" "escape_quotes (c # v) = (if c = 0x22 then asc ''&quot;'' else [c]) @ escape_quotes v"
  by (simp_all add: escape_quotes_def)

text \<open>
  \<open>appends mem buf p xs\<close>: the call returned \<open>p\<close>, a buffer with the bytes of \<open>buf\<close> and \<open>xs\<close> if
  there is room and no request is refused.
\<close>

definition appends :: "(nat \<Rightarrow> heap) \<Rightarrow> xmlBuffer \<Rightarrow> xmlBuffer ptr option \<Rightarrow> bytes \<Rightarrow> bool" where
  "appends mem buf p xs \<longleftrightarrow> (\<exists>buf'. p = Some (Ptr buf') \<and> buffer_inv buf' \<and>
     ((\<forall>i n. mem i n \<noteq> NULL) \<and> length (buffer_bytes buf) + length xs < INT_MAX_nat \<longrightarrow>
      buffer_bytes buf' = buffer_bytes buf @ xs))"

lemma appends_add:
  assumes "buffer_inv buf" "arg_ok s len"
  shows "\<exists>r buf'. xmlBufferAdd (mem i) (Ptr buf) (Ptr s) len = Some (r, Ptr buf') \<and> buffer_inv buf' \<and>
    ((\<forall>i n. mem i n \<noteq> NULL) \<and> length (buffer_bytes buf) + length (arg_bytes s len) < INT_MAX_nat \<longrightarrow>
      buffer_bytes buf' = buffer_bytes buf @ arg_bytes s len)"
  using xmlBufferAdd_inv [OF assms, of "mem i"] by (auto simp: buffer_fails_def)

lemma appends_trans:
  assumes "buffer_inv b1" "(\<forall>i n. mem i n \<noteq> NULL) \<and> length (buffer_bytes buf) + length xs < INT_MAX_nat \<longrightarrow>
      buffer_bytes b1 = buffer_bytes buf @ xs" "appends mem' b1 p ys" "\<And>i. \<exists>j. mem' i = mem j"
  shows "appends mem buf p (xs @ ys)"
proof -
  have "(\<forall>i n. mem i n \<noteq> NULL) \<Longrightarrow> (\<forall>i n. mem' i n \<noteq> NULL)" using assms(4) by metis
  then show ?thesis using assms(1-3) by (auto simp: appends_def)
qed

lemma appends_run:
  assumes "buffer_inv buf" "n \<le> length base" "length base \<le> INT_MAX_nat"
  shows "appends mem buf (add_run (mem i) (Ptr buf) base n) (take n base)"
proof (cases "n = 0")
  case False
  have c: "c_int (int n) = int n" using assms(2,3) by (intro c_int_id) simp_all
  have "arg_ok base (int n)" "arg_bytes base (int n) = take n base" using assms(2,3) by (simp_all add: arg_ok_def arg_bytes_def)
  then show ?thesis using appends_add [OF assms(1), of base "int n" mem i] False by (auto simp: add_run_def c appends_def)
qed (use assms(1) in \<open>simp add: add_run_def appends_def\<close>)

lemma quote_loop_ok:
  assumes "buffer_inv buf" "cstring cur" "drop n base = cur" "n \<le> length base" "length base \<le> INT_MAX_nat"
  shows "appends mem buf (quote_loop mem (Ptr buf) base n cur) (take n base @ escape_quotes (strval cur))"
  using assms
proof (induction cur arbitrary: buf mem base n)
  case (Cons c cur)
  have d: "drop (Suc n) base = cur" using Cons.prems(3) by (metis drop_Suc list.sel(3) tl_drop)
  have ln: "Suc n \<le> length base" using Cons.prems(3,4) by (metis Suc_leI drop_all le_neq_implies_less list.distinct(1) order_refl)
  have t: "take (Suc n) base = take n base @ [c]"
    using Cons.prems(3) ln by (metis Suc_le_lessD hd_drop_conv_nth list.sel(1) take_Suc_conv_app_nth)
  consider "c = 0" | "c = 0x22" | "c \<noteq> 0" "c \<noteq> 0x22" by blast
  then show ?case
  proof cases
    case 1
    then show ?thesis using appends_run [OF Cons.prems(1,4,5), of mem 0] by simp
  next
    case 2
    obtain b1 where b1: "add_run (mem 0) (Ptr buf) base n = Some (Ptr b1)" "buffer_inv b1"
      "(\<forall>i n. mem i n \<noteq> NULL) \<and> length (buffer_bytes buf) + length (take n base) < INT_MAX_nat \<longrightarrow> buffer_bytes b1 = buffer_bytes buf @ take n base"
      using appends_run [OF Cons.prems(1,4,5), of mem 0] by (auto simp: appends_def)
    let ?q = "asc ''&quot;'' @ [0]"
    have q: "arg_ok ?q 6" "arg_bytes ?q 6 = asc ''&quot;''" by (simp_all add: arg_ok_def arg_bytes_def)
    from appends_add [OF b1(2) q(1), of mem 1] obtain r b2 where b2: "xmlBufferAdd (mem 1) (Ptr b1) (Ptr ?q) 6 = Some (r, Ptr b2)" "buffer_inv b2"
      "(\<forall>i n. mem i n \<noteq> NULL) \<and> length (buffer_bytes b1) + length (asc ''&quot;'') < INT_MAX_nat \<longrightarrow> buffer_bytes b2 = buffer_bytes b1 @ asc ''&quot;''"
      unfolding q(2) by blast
    have cs: "cstring cur" using Cons.prems(2) 2 by simp
    have "length cur \<le> INT_MAX_nat" using d Cons.prems(5) by auto
    then have "appends (\<lambda>i. mem (i + 2)) b2 (quote_loop (\<lambda>i. mem (i + 2)) (Ptr b2) cur 0 cur) (take 0 cur @ escape_quotes (strval cur))"
      using Cons.IH [OF b2(2) cs, of 0 cur "\<lambda>i. mem (i + 2)"] by simp
    then have "appends (\<lambda>i. mem (i + 2)) b2 (quote_loop (\<lambda>i. mem (i + 2)) (Ptr b2) cur 0 cur) (escape_quotes (strval cur))" by simp
    from appends_trans [OF b2(2,3) this] have "appends mem b1 (quote_loop (\<lambda>i. mem (i + 2)) (Ptr b2) cur 0 cur) (asc ''&quot;'' @ escape_quotes (strval cur))"
      by blast
    from appends_trans [OF b1(2,3) this] have "appends mem buf (quote_loop (\<lambda>i. mem (i + 2)) (Ptr b2) cur 0 cur)
      (take n base @ asc ''&quot;'' @ escape_quotes (strval cur))" by blast
    moreover have "quote_loop mem (Ptr buf) base n (c # cur) = quote_loop (\<lambda>i. mem (i + 2)) (Ptr b2) cur 0 cur"
      using 2 b1(1) b2(1) by (simp del: asc_simps)
    ultimately show ?thesis using 2 by (simp del: asc_simps)
  next
    case 3
    have "cstring cur" using Cons.prems(2) 3 by simp
    from Cons.IH [OF Cons.prems(1) this d ln Cons.prems(5)] show ?thesis using 3 t by simp
  qed
qed simp

lemma strchr_found:
  assumes "cstring s" "c \<noteq> 0"
  shows "\<exists>p. xmlStrchr (Ptr s) c = Some p \<and> (p \<noteq> NULL \<longleftrightarrow> c \<in> set (strval s))"
proof -
  have "\<exists>p. strchr_loop s c = Some p \<and> (p \<noteq> NULL \<longleftrightarrow> c \<in> set (strval s))"
    using assms by (induction s) auto
  then show ?thesis by (simp add: xmlStrchr_def)
qed

lemma arg_string: "cstring s \<Longrightarrow> length s \<le> INT_MAX_nat \<Longrightarrow> arg_ok s (- 1) \<and> arg_bytes s (- 1) = strval s"
  by (simp add: arg_ok_def arg_bytes_def)

lemma appends_cat:
  assumes "buffer_inv buf" "cstring s" "length s \<le> INT_MAX_nat"
  shows "\<exists>r buf'. xmlBufferAdd (mem i) (Ptr buf) (Ptr s) (- 1) = Some (r, Ptr buf') \<and> buffer_inv buf' \<and>
    ((\<forall>i n. mem i n \<noteq> NULL) \<and> length (buffer_bytes buf) + length (strval s) < INT_MAX_nat \<longrightarrow>
      buffer_bytes buf' = buffer_bytes buf @ strval s)"
  using appends_add [OF assms(1), of s "- 1" mem i] arg_string [OF assms(2,3)] by simp

lemma quote_with_ok:
  assumes "buffer_inv buf" "cstring s" "length s \<le> INT_MAX_nat" "q \<noteq> 0"
  shows "appends mem buf (quote_with mem (Ptr buf) q (Ptr s)) ([q] @ strval s @ [q])"
proof -
  have q: "cstring [q, 0]" "length [q, 0] \<le> INT_MAX_nat" "strval [q, 0] = [q]" using assms(4) by simp_all
  obtain r1 b1 where b1: "xmlBufferAdd (mem 0) (Ptr buf) (Ptr [q, 0]) (- 1) = Some (r1, Ptr b1)" "buffer_inv b1"
    "(\<forall>i n. mem i n \<noteq> NULL) \<and> length (buffer_bytes buf) + length [q] < INT_MAX_nat \<longrightarrow> buffer_bytes b1 = buffer_bytes buf @ [q]"
    using appends_cat [OF assms(1) q(1,2), of mem 0] unfolding q(3) by blast
  obtain r2 b2 where b2: "xmlBufferAdd (mem 1) (Ptr b1) (Ptr s) (- 1) = Some (r2, Ptr b2)" "buffer_inv b2"
    "(\<forall>i n. mem i n \<noteq> NULL) \<and> length (buffer_bytes b1) + length (strval s) < INT_MAX_nat \<longrightarrow> buffer_bytes b2 = buffer_bytes b1 @ strval s"
    using appends_cat [OF b1(2) assms(2,3), of mem 1] by blast
  obtain r3 b3 where b3: "xmlBufferAdd (mem 2) (Ptr b2) (Ptr [q, 0]) (- 1) = Some (r3, Ptr b3)" "buffer_inv b3"
    "(\<forall>i n. mem i n \<noteq> NULL) \<and> length (buffer_bytes b2) + length [q] < INT_MAX_nat \<longrightarrow> buffer_bytes b3 = buffer_bytes b2 @ [q]"
    using appends_cat [OF b2(2) q(1,2), of mem 2] unfolding q(3) by blast
  have "appends mem b2 (Some (Ptr b3)) [q]" using b3 by (auto simp: appends_def)
  from appends_trans [OF b2(2,3) this] have "appends mem b1 (Some (Ptr b3)) (strval s @ [q])" by blast
  from appends_trans [OF b1(2,3) this] have "appends mem buf (Some (Ptr b3)) ([q] @ strval s @ [q])" by blast
  then show ?thesis using b1(1) b2(1) b3(1) by (simp add: quote_with_def xmlBufferCCat_def xmlBufferCat_def)
qed

lemma xmlBufferWriteQuotedString_ok:
  assumes "buffer_inv buf" "cstring s" "length s \<le> INT_MAX_nat"
  shows "appends mem buf (xmlBufferWriteQuotedString mem (Ptr buf) (Ptr s)) (quoted (strval s))"
proof -
  have nz: "(0x22 :: byte) \<noteq> 0" "(0x27 :: byte) \<noteq> 0" by simp_all
  obtain p1 where p1: "xmlStrchr (Ptr s) 0x22 = Some p1" "p1 \<noteq> NULL \<longleftrightarrow> 0x22 \<in> set (strval s)"
    using strchr_found [OF assms(2) nz(1)] by blast
  obtain p2 where p2: "xmlStrchr (Ptr s) 0x27 = Some p2" "p2 \<noteq> NULL \<longleftrightarrow> 0x27 \<in> set (strval s)"
    using strchr_found [OF assms(2) nz(2)] by blast
  note p = p1 p2
  show ?thesis
  proof (cases "0x22 \<in> set (strval s) \<and> 0x27 \<in> set (strval s)")
    case False
    then show ?thesis using p quote_with_ok [OF assms]
      by (cases "0x22 \<in> set (strval s)") (simp_all add: xmlBufferWriteQuotedString_def quoted_def)
  next
    case True
    have q: "cstring [0x22, 0]" "length [0x22 :: byte, 0] \<le> INT_MAX_nat" "strval [0x22, 0] = [0x22]" by simp_all
    obtain r1 b1 where b1: "xmlBufferAdd (mem 0) (Ptr buf) (Ptr [0x22, 0]) (- 1) = Some (r1, Ptr b1)" "buffer_inv b1"
      "(\<forall>i n. mem i n \<noteq> NULL) \<and> length (buffer_bytes buf) + length [0x22 :: byte] < INT_MAX_nat \<longrightarrow> buffer_bytes b1 = buffer_bytes buf @ [0x22]"
      using appends_cat [OF assms(1) q(1,2), of mem 0] unfolding q(3) by blast
    have "appends (\<lambda>i. mem (i + 2)) b1 (quote_loop (\<lambda>i. mem (i + 2)) (Ptr b1) s 0 s) (escape_quotes (strval s))"
      using quote_loop_ok [OF b1(2) assms(2), of 0 s] assms(3) by simp
    then obtain b2 where b2: "quote_loop (\<lambda>i. mem (i + 2)) (Ptr b1) s 0 s = Some (Ptr b2)" "buffer_inv b2"
      "(\<forall>i n. mem (i + 2) n \<noteq> NULL) \<and> length (buffer_bytes b1) + length (escape_quotes (strval s)) < INT_MAX_nat \<longrightarrow>
        buffer_bytes b2 = buffer_bytes b1 @ escape_quotes (strval s)" by (auto simp: appends_def)
    then have b2': "(\<forall>i n. mem i n \<noteq> NULL) \<and> length (buffer_bytes b1) + length (escape_quotes (strval s)) < INT_MAX_nat \<longrightarrow>
        buffer_bytes b2 = buffer_bytes b1 @ escape_quotes (strval s)" by blast
    obtain r3 b3 where b3: "xmlBufferAdd (mem 1) (Ptr b2) (Ptr [0x22, 0]) (- 1) = Some (r3, Ptr b3)" "buffer_inv b3"
      "(\<forall>i n. mem i n \<noteq> NULL) \<and> length (buffer_bytes b2) + length [0x22 :: byte] < INT_MAX_nat \<longrightarrow> buffer_bytes b3 = buffer_bytes b2 @ [0x22]"
      using appends_cat [OF b2(2) q(1,2), of mem 1] unfolding q(3) by blast
    have "appends mem b2 (Some (Ptr b3)) [0x22]" using b3 by (auto simp: appends_def)
    from appends_trans [OF b2(2) b2' this] have "appends mem b1 (Some (Ptr b3)) (escape_quotes (strval s) @ [0x22])" by blast
    from appends_trans [OF b1(2,3) this] have "appends mem buf (Some (Ptr b3)) ([0x22] @ escape_quotes (strval s) @ [0x22])" by blast
    moreover have "xmlBufferWriteQuotedString mem (Ptr buf) (Ptr s) = Some (Ptr b3)"
      using True p b1(1) b2(1) b3(1) by (simp add: xmlBufferWriteQuotedString_def xmlBufferCCat_def)
    ultimately show ?thesis using True by (simp add: quoted_def)
  qed
qed

lemma quoted_delimited: "\<exists>q body. quoted v = q # body @ [q] \<and> q \<in> {0x22, 0x27} \<and> q \<notin> set body"
proof -
  have "0x22 \<notin> set (escape_quotes v)" by (induction v) auto
  then show ?thesis by (auto simp: quoted_def)
qed

definition buf_of :: "bytes \<Rightarrow> nat \<Rightarrow> xmlBuf" where
  "buf_of bs off = \<lparr>bmem = Ptr (replicate off 0 @ bs @ [0]), boffset = off, buse = word_of_nat (length bs),
     bsize = word_of_nat (length bs), bmaxSize = - 2, bflags = 0\<rparr>"

lemma buf_of_inv:
  assumes "off + length bs + 1 < 2 ^ 64"
  shows "buf_inv (buf_of bs off)" "buf_bytes (buf_of bs off) = bs" "\<not> BUF_ERROR (buf_of bs off)" "\<not> BUF_STATIC (buf_of bs off)"
proof -
  have u: "unat (word_of_nat (length bs) :: size_t) = length bs" using assms by (intro unat_of_nat64) linarith
  show "buf_bytes (buf_of bs off) = bs" "\<not> BUF_ERROR (buf_of bs off)" "\<not> BUF_STATIC (buf_of bs off)"
    by (simp_all add: buf_bytes_def buf_of_def seg_def u BUF_ERROR_def BUF_STATIC_def)
  then show "buf_inv (buf_of bs off)" using assms by (simp add: buf_inv_def buf_shape_def buf_term_def buf_of_def u holds_def seg_def)
qed

lemma xmlBufCreate_ok:
  "\<exists>p. xmlBufCreate mem sz = Some p \<and>
     (case p of
        NULL \<Rightarrow> sz = SIZE_MAX \<or> mem 0 sizeof_xmlBuf = NULL \<or> mem 1 (unat sz + 1) = NULL
      | Ptr buf \<Rightarrow> buf_inv buf \<and> buf_abs buf = ([], False, False) \<and> xmlBufAvail p = sz)"
proof (cases "sz = SIZE_MAX \<or> mem 0 sizeof_xmlBuf = NULL")
  case True
  then show ?thesis by (auto simp: xmlBufCreate_def)
next
  case False
  have "unat sz \<noteq> unat SIZE_MAX" using False by (metis word_unat_eq_iff)
  moreover have "unat SIZE_MAX = 2 ^ 64 - 1" by (simp add: unsigned_minus_1_eq_mask mask_eq_exp_minus_1)
  ultimately have "unat sz + 1 < 2 ^ 64" using unsigned_less [of sz, where ?'a = nat] by simp
  then have s: "unat (sz + 1) = unat sz + 1" by (subst unat_plus64) simp_all
  show ?thesis
  proof (cases rule: malloc_cases [of "mem 1" "unat (sz + 1)"])
    case 1
    then show ?thesis using False s by (auto simp: xmlBufCreate_def)
  next
    case (2 m)
    then obtain x xs where m: "m = x # xs" "length xs = unat sz" using s by (cases m) auto
    then show ?thesis using False 2 \<open>unat sz + 1 < 2 ^ 64\<close>
      by (auto simp: xmlBufCreate_def wr_def buf_inv_def buf_shape_def buf_term_def buf_bytes_def buf_abs_def holds_def seg_def
          BUF_ERROR_def BUF_STATIC_def xmlBufAvail_def)
  qed
qed

section \<open>Properties\<close>

text \<open>
  C29. The 64-bit buffers are byte queues.  Any sequence of \<open>xmlBufAdd\<close>, \<open>xmlBufCat\<close>, \<open>xmlBufGrow\<close>,
  \<open>xmlBufAddLen\<close>, \<open>xmlBufShrink\<close>, \<open>xmlBufEmpty\<close> and reads, on a buffer that satisfies the
  invariant, runs without an out-of-bounds access whatever allocations fail, and has the results of appending to
  and removing from a byte string: additions append, \<open>xmlBufShrink\<close> removes from the front, and the content
  that is read is always zero-terminated.  A failure is recorded, keeps the bytes, and needs a refused request or
  a size beyond the maximum; static buffers and buffers with a recorded error are never modified.
\<close>

theorem buf_refines_bytes:
  assumes "buf_inv buf" "\<forall>op \<in> set ops. buf_legal op"
  shows "\<exists>rs buf'. run_ops buf_step ops buf = Some (rs, buf') \<and> buf_inv buf' \<and>
    spec_ops buf_spec ops (buf_abs buf) rs (buf_abs buf')"
  using assms by (rule buffers.run_refines)

theorem buf_refines_bytes_witness:
  "\<exists>rs buf'. run_ops buf_step [BufAdd (\<lambda>n. Ptr (\<lambda>i. 7)) (Ptr [98, 99]) 2, BufShrink 1, BufRead] (buf_of [97] 0) = Some (rs, buf') \<and>
    buf_inv buf' \<and> spec_ops buf_spec [BufAdd (\<lambda>n. Ptr (\<lambda>i. 7)) (Ptr [98, 99]) 2, BufShrink 1, BufRead]
      ([97], False, False) rs (buf_abs buf')"
  using buf_refines_bytes [of "buf_of [97] 0" "[BufAdd (\<lambda>n. Ptr (\<lambda>i. 7)) (Ptr [98, 99]) 2, BufShrink 1, BufRead]"]
    buf_of_inv [of 0 "[97]"] by (simp add: buf_abs_def)

text \<open>
  C32. \<open>xmlBufGrow\<close> and \<open>xmlBufGrowInternal\<close>: when 0 is returned there is room for at least \<open>len\<close> more
  bytes, and in every case the content is unchanged and the invariant holds; no size computation wraps around.
  Minus one is returned with the error recorded, only if the size limit is exceeded or memory was refused.
\<close>

theorem xmlBufGrow_correct:
  assumes "buf_inv buf"
  shows "\<exists>r buf'. xmlBufGrow mem (Ptr buf) len = Some (r, Ptr buf') \<and> buf_inv buf' \<and> buf_bytes buf' = buf_bytes buf \<and>
    BUF_STATIC buf' = BUF_STATIC buf \<and>
    (if BUF_ERROR buf \<or> BUF_STATIC buf then r = - 1 \<and> buf' = buf
     else r = 0 \<and> \<not> BUF_ERROR buf' \<and> unat len \<le> unat (xmlBufAvail (Ptr buf')) \<or>
          r = - 1 \<and> BUF_ERROR buf' \<and> may_fail mem (length (buf_bytes buf)) (unat len))"
  using assms by (rule xmlBufGrow_refines)

theorem xmlBufGrow_correct_witness:
  "\<exists>buf'. xmlBufGrow (\<lambda>n. Ptr (\<lambda>i. 7)) (Ptr (buf_of [97, 98] 1)) 5 = Some (0, Ptr buf') \<and> buf_bytes buf' = [97, 98] \<and>
     5 \<le> unat (xmlBufAvail (Ptr buf'))"
  using xmlBufGrow_correct [of "buf_of [97, 98] 1" "\<lambda>n. Ptr (\<lambda>i. 7)" 5] buf_of_inv [of 1 "[97, 98]"]
  by (auto simp: may_fail_def)

text \<open>
  C33. \<open>xmlBufDetach\<close> returns the content as a zero-terminated string and leaves an empty buffer without an
  allocation, to which \<open>xmlBufAdd\<close> can append again.  After a shrink the string is a copy made by
  \<open>xmlStrndup\<close>, whose length is an \<open>int\<close>: a content of 2 GB up to 4 GB is lost and NULL is returned.
  \<open>xmlBufAddLen\<close> with length 0 on a detached buffer dereferences NULL.
\<close>

theorem xmlBufDetach_correct:
  assumes "buf_inv buf" "\<not> BUF_ERROR buf" "\<not> BUF_STATIC buf"
  shows "\<exists>s buf'. xmlBufDetach mem (Ptr buf) = Some (s, Ptr buf') \<and> xmlBufIsEmpty (Ptr buf') = 1 \<and> xmlBufContent (Ptr buf') = NULL \<and>
    (boffset buf = 0 \<or> length (buf_bytes buf) < 2 ^ 31 \<and> mem (length (buf_bytes buf) + 1) \<longrightarrow>
      (\<exists>t. s = Ptr t \<and> take (length (buf_bytes buf) + 1) t = buf_bytes buf @ [0])) \<and>
    (boffset buf \<noteq> 0 \<and> 2 ^ 31 \<le> length (buf_bytes buf) \<and> length (buf_bytes buf) < 2 ^ 32 \<longrightarrow> s = NULL) \<and>
    (\<forall>heap str len. len \<noteq> 0 \<and> unat len \<le> length str \<longrightarrow>
      (\<exists>r buf2. xmlBufAdd heap (Ptr buf') (Ptr str) len = Some (r, Ptr buf2) \<and>
        (r = 0 \<and> buf_inv buf2 \<and> buf_bytes buf2 = take (unat len) str \<or> r = - 1 \<and> may_fail heap 0 (unat len)))) \<and>
    xmlBufAddLen (Ptr buf') 0 = None"
proof -
  let ?b = "buf\<lparr>bmem := NULL, boffset := 0, bsize := 0, buse := 0\<rparr>"
  let ?n = "length (buf_bytes buf)"
  obtain m where m: "bmem buf = Ptr m" "holds m (boffset buf) (buf_bytes buf)"
    using assms buf_term_Ptr by (auto simp: buf_inv_def)
  have n: "?n = unat (buse buf)" using assms by (simp add: buf_inv_def length_buf_bytes)
  have t: "take (Suc ?n) (drop (boffset buf) m) = buf_bytes buf @ [0]" "?n < length (drop (boffset buf) m)"
    using m(2) by (auto simp: holds_def seg_def)
  then have t1: "take ?n (drop (boffset buf) m) = buf_bytes buf" using take_less_eq [of ?n "Suc ?n" "drop (boffset buf) m" "buf_bytes buf @ [0]"] by simp
  define s where "s = (if boffset buf = 0 then Ptr m else the (xmlStrndup mem (Ptr (drop (boffset buf) m)) (c_int (uint (buse buf)))))"
  have u: "uint (buse buf) = int ?n" unfolding n by (rule uint_nat)
  have dup: "xmlStrndup mem (Ptr (drop (boffset buf) m)) (c_int (int ?n)) \<noteq> None"
  proof -
    have "nat (c_int (int ?n)) \<le> ?n"
    proof (cases "?n < 2 ^ 31")
      case False
      then have "2147483648 \<le> ?n" by simp
      then show ?thesis using c_int_range [of "int ?n"] by linarith
    qed simp
    then show ?thesis using t(2) by (auto simp: xmlStrndup_def copy_in_def)
  qed
  have "xmlBufDetach mem (Ptr buf) = Some (s, Ptr ?b)"
    using assms m(1) dup u by (auto simp: xmlBufDetach_def s_def)
  moreover have "boffset buf = 0 \<or> ?n < 2 ^ 31 \<and> mem (?n + 1) \<longrightarrow> (\<exists>t. s = Ptr t \<and> take (?n + 1) t = buf_bytes buf @ [0])"
    using t t1 u by (auto simp: s_def xmlStrndup_def copy_in_def)
  moreover have "boffset buf \<noteq> 0 \<and> 2 ^ 31 \<le> ?n \<and> ?n < 2 ^ 32 \<longrightarrow> s = NULL"
  proof (intro impI, elim conjE)
    assume a: "boffset buf \<noteq> 0" "2 ^ 31 \<le> ?n" "?n < 2 ^ 32"
    have "((int ?n - 2147483648) + 4294967296) mod 4294967296 = int ?n - 2147483648"
      using a(2,3) unfolding mod_add_self2 by (intro mod_pos_pos_trivial) simp_all
    then have "signed_take_bit 31 (int ?n) = int ?n - 2 ^ 32"
      by (simp add: signed_take_bit_eq_take_bit_shift take_bit_eq_mod add.commute)
    then have "c_int (int ?n) < 0" using a(3) by (simp add: c_int_def)
    then show "s = NULL" using a(1) u by (simp add: s_def xmlStrndup_def)
  qed
  moreover have "\<exists>r buf2. xmlBufAdd heap (Ptr ?b) (Ptr str) len = Some (r, Ptr buf2) \<and>
        (r = 0 \<and> buf_inv buf2 \<and> buf_bytes buf2 = take (unat len) str \<or> r = - 1 \<and> may_fail heap 0 (unat len))"
    if "len \<noteq> 0" "unat len \<le> length str" for heap str len
  proof -
    have "buf_shape ?b" "buf_bytes ?b = []" "\<not> BUF_ERROR ?b" "\<not> BUF_STATIC ?b"
      using assms by (simp_all add: buf_shape_def buf_inv_def buf_bytes_def BUF_ERROR_def BUF_STATIC_def)
    then show ?thesis using xmlBufAdd_ok [of ?b len str heap] that by auto
  qed
  moreover have "xmlBufIsEmpty (Ptr ?b) = 1" "xmlBufContent (Ptr ?b) = NULL" "xmlBufAddLen (Ptr ?b) 0 = None"
    using assms by (simp_all add: xmlBufIsEmpty_def xmlBufContent_def buf_content_def xmlBufAddLen_def BUF_ERROR_def BUF_STATIC_def)
  ultimately show ?thesis by (intro exI [of _ s] exI [of _ ?b]) blast
qed

theorem xmlBufDetach_correct_witness:
  "\<exists>t buf'. xmlBufDetach (\<lambda>n. True) (Ptr (buf_of [97, 98] 1)) = Some (Ptr t, Ptr buf') \<and> take 3 t = [97, 98, 0]"
  using xmlBufDetach_correct [of "buf_of [97, 98] 1" "\<lambda>n. True"] buf_of_inv [of 1 "[97, 98]"]
  by (auto simp: numeral_3_eq_3)



text \<open>
  C30. The 32-bit buffers are byte strings.  Any sequence of \<open>xmlBufferAdd\<close>, \<open>xmlBufferAddHead\<close>,
  \<open>xmlBufferShrink\<close>, \<open>xmlBufferEmpty\<close>, \<open>xmlBufferGrow\<close>, \<open>xmlBufferResize\<close> and reads, on a buffer that
  satisfies the invariant, under every allocation scheme and whatever allocations fail, stays in bounds, keeps the invariant
  (the content is zero-terminated, all sizes at most INT\_MAX) and acts on the content as append, prepend, removal
  from the front and clearing do.  A failed addition changes nothing and needs a refused request or a total size of
  INT\_MAX.
\<close>

theorem buffer_refines_bytes:
  assumes "buffer_inv buf" "\<forall>op \<in> set ops. buffer_legal op"
  shows "\<exists>rs buf'. run_ops buffer_step ops buf = Some (rs, buf') \<and> buffer_inv buf' \<and>
    spec_ops buffer_spec ops (buffer_bytes buf) rs (buffer_bytes buf')"
  using assms by (rule old_buffers.run_refines)

definition buffer_of :: "xmlBufferAllocationScheme \<Rightarrow> bytes \<Rightarrow> xmlBuffer" where
  "buffer_of scheme bs = \<lparr>xblock = Ptr (bs @ [0]), xoffset = 0, xuse = word_of_nat (length bs),
     xsize = word_of_nat (length bs + 1), xalloc = scheme\<rparr>"

lemma buffer_of_inv:
  assumes "length bs < INT_MAX_nat"
  shows "buffer_inv (buffer_of scheme bs)" "buffer_bytes (buffer_of scheme bs) = bs"
proof -
  have u: "unat (word_of_nat (length bs) :: uint) = length bs" "unat (word_of_nat (length bs + 1) :: uint) = length bs + 1"
    using assms by (subst unat_of_nat32; simp)+
  have "buffer_inv (buffer_of scheme bs) \<and> buffer_bytes (buffer_of scheme bs) = bs"
    by (rule buffer_invI [where m = "bs @ [0]"]) (use u assms in \<open>simp_all add: buffer_of_def holds_def seg_def\<close>)
  then show "buffer_inv (buffer_of scheme bs)" "buffer_bytes (buffer_of scheme bs) = bs" by simp_all
qed

theorem buffer_refines_bytes_witness:
  "\<exists>rs buf'. run_ops buffer_step [BufferAddHead (\<lambda>n. Ptr (\<lambda>i. 7)) (Ptr [98, 99]) 2, BufferShrink 1, BufferRead]
      (buffer_of XML_BUFFER_ALLOC_EXACT [97]) = Some (rs, buf') \<and> buffer_inv buf' \<and>
    spec_ops buffer_spec [BufferAddHead (\<lambda>n. Ptr (\<lambda>i. 7)) (Ptr [98, 99]) 2, BufferShrink 1, BufferRead] [97] rs (buffer_bytes buf')"
  using buffer_refines_bytes [of "buffer_of XML_BUFFER_ALLOC_EXACT [97]"
      "[BufferAddHead (\<lambda>n. Ptr (\<lambda>i. 7)) (Ptr [98, 99]) 2, BufferShrink 1, BufferRead]"]
    buffer_of_inv [of "[97]" XML_BUFFER_ALLOC_EXACT] by (simp add: arg_ok_def)



text \<open>
  \<open>xmlBufferWriteQuotedString\<close> appends the string between quotes that do not occur inside: double quotes, single
  quotes when the string has double quotes only, and double quotes with every double quote escaped when it has both.  It
  stays in bounds and keeps the invariant whatever allocations fail, and appends everything when none fails.
\<close>

theorem xmlBufferWriteQuotedString_correct:
  assumes "buffer_inv buf" "cstring s" "length s \<le> INT_MAX_nat"
  shows "(\<exists>buf'. xmlBufferWriteQuotedString mem (Ptr buf) (Ptr s) = Some (Ptr buf') \<and> buffer_inv buf' \<and>
      ((\<forall>i n. mem i n \<noteq> NULL) \<and> length (buffer_bytes buf) + length (quoted (strval s)) < INT_MAX_nat \<longrightarrow>
        buffer_bytes buf' = buffer_bytes buf @ quoted (strval s))) \<and>
    (\<exists>q body. quoted (strval s) = q # body @ [q] \<and> q \<in> {0x22, 0x27} \<and> q \<notin> set body)"
  using xmlBufferWriteQuotedString_ok [OF assms, of mem] quoted_delimited [of "strval s"] by (simp add: appends_def)

theorem xmlBufferWriteQuotedString_correct_witness:
  "\<exists>buf'. xmlBufferWriteQuotedString (\<lambda>i n. Ptr (\<lambda>j. 7)) (Ptr (buffer_of XML_BUFFER_ALLOC_IO [])) (Ptr [0x22, 97, 0]) = Some (Ptr buf') \<and>
     buffer_bytes buf' = [0x27, 0x22, 97, 0x27]"
  using xmlBufferWriteQuotedString_correct [of "buffer_of XML_BUFFER_ALLOC_IO []" "[0x22, 97, 0]" "\<lambda>i n. Ptr (\<lambda>j. 7)"]
    buffer_of_inv [of "[]" XML_BUFFER_ALLOC_IO] by (auto simp: quoted_def)

text \<open>
  On a buffer without an allocation (made by \<open>xmlBufferCreateSize(0)\<close>, or detached) \<open>xmlBufferAddHead\<close> moves a byte of the
  fresh allocation, which nobody has written, to the place of the terminator.
\<close>

lemma xmlBufferAddHead_unterminated:
  "xmlBufferCreateSize (\<lambda>i n. Ptr (\<lambda>j. 7)) 0 = Some (Ptr \<lparr>xblock = NULL, xoffset = 0, xuse = 0, xsize = 0, xalloc = XML_BUFFER_ALLOC_IO\<rparr>) \<and>
   (\<exists>buf' m. xmlBufferAddHead (\<lambda>n. Ptr (\<lambda>j. 7)) (Ptr \<lparr>xblock = NULL, xoffset = 0, xuse = 0, xsize = 0, xalloc = XML_BUFFER_ALLOC_IO\<rparr>)
      (Ptr [97, 0]) 1 = Some (0, Ptr buf') \<and> xblock buf' = Ptr m \<and> take 2 m = [97, 7] \<and> xuse buf' = 1)"
proof -
  have "\<not> (0x7FFFFFFF :: uint) \<le> 1" by (simp add: word_le_nat_alt)
  moreover have "take (Suc 0) (map (\<lambda>j. 7 :: byte) [0..<102]) = [7]" by (simp add: take_map take_upt upt_conv_Cons)
  ultimately show ?thesis
    by (simp add: xmlBufferCreateSize_def xmlBufferAddHead_def arg_length_def add_head_grow_def xmlBufferGrow_def buffer_new_size_def
      realloc_def malloc_def memmove_def copy_in_def copy_out_def Let_def)
qed

end
