(* ===== verification/Xmllist.thy ===== *)
theory Xmllist
  imports Prelude
begin

text \<open>
  The doubly linked lists of \<open>list.c\<close>.  Links and list headers live in a heap; an access to a link or header
  that is not allocated, in particular one that was freed, is None.  A list is a ring of links through its
  sentinel.  The walks over a ring are partial functions: a walk that does not end is None as well.
\<close>

section \<open>The heap\<close>

record 'd xmlLink =
  lnext :: nat
  lprev :: nat
  ldata :: 'd

record 'd xmlList =
  sentinel :: nat
  linkDeallocator :: bool
  linkCompare :: "'d \<Rightarrow> 'd \<Rightarrow> int"

text \<open>
  \<open>brk\<close> is an address above every block allocated so far; \<open>xmlMalloc\<close> returns it when it succeeds.  \<open>dealloc\<close> is
  the log of the data handed to a link deallocator.
\<close>

record 'd lheap =
  links :: "nat \<Rightarrow> 'd xmlLink option"
  headers :: "nat \<Rightarrow> 'd xmlList option"
  brk :: nat
  dealloc :: "'d list"

definition set_next :: "nat \<Rightarrow> nat \<Rightarrow> 'd lheap \<Rightarrow> 'd lheap option" where
  "set_next lk v h = do { k \<leftarrow> links h lk; Some (h\<lparr>links := (links h)(lk \<mapsto> k\<lparr>lnext := v\<rparr>)\<rparr>) }"

definition set_prev :: "nat \<Rightarrow> nat \<Rightarrow> 'd lheap \<Rightarrow> 'd lheap option" where
  "set_prev lk v h = do { k \<leftarrow> links h lk; Some (h\<lparr>links := (links h)(lk \<mapsto> k\<lparr>lprev := v\<rparr>)\<rparr>) }"

definition new_link :: "'d xmlLink \<Rightarrow> 'd lheap \<Rightarrow> nat \<times> 'd lheap" where
  "new_link k h = (brk h, h\<lparr>links := (links h)(brk h \<mapsto> k), brk := brk h + 1\<rparr>)"

definition free_link :: "nat \<Rightarrow> 'd lheap \<Rightarrow> 'd lheap option" where
  "free_link lk h = do { _ \<leftarrow> links h lk; Some (h\<lparr>links := (links h)(lk := None)\<rparr>) }"

section \<open>Searching\<close>

definition xmlLinkDeallocator :: "'d xmlList \<Rightarrow> nat \<Rightarrow> 'd lheap \<Rightarrow> 'd lheap option" where
  "xmlLinkDeallocator l lk h = do {
     k \<leftarrow> links h lk;
     h1 \<leftarrow> set_next (lprev k) (lnext k) h;
     k1 \<leftarrow> links h1 lk;
     h2 \<leftarrow> set_prev (lnext k1) (lprev k1) h1;
     k2 \<leftarrow> links h2 lk;
     let h3 = (if linkDeallocator l then h2\<lparr>dealloc := dealloc h2 @ [ldata k2]\<rparr> else h2);
     free_link lk h3 }"

definition xmlLinkCompare :: "'d::linorder \<Rightarrow> 'd \<Rightarrow> int" where
  "xmlLinkCompare data0 data1 = (if data0 < data1 then - 1 else if data0 = data1 then 0 else 1)"

text \<open>\<open>for (lk = \<dots>; lk != l->sentinel && l->linkCompare(lk->data, data) < 0; lk = lk->next);\<close>\<close>

partial_function (option) lower_loop :: "'d lheap \<Rightarrow> 'd xmlList \<Rightarrow> 'd \<Rightarrow> nat \<Rightarrow> nat option" where
  "lower_loop h l d lk =
     (if lk = sentinel l then Some lk
      else Option.bind (links h lk) (\<lambda>k.
        if linkCompare l (ldata k) d < 0 then lower_loop h l d (lnext k) else Some lk))"

partial_function (option) higher_loop :: "'d lheap \<Rightarrow> 'd xmlList \<Rightarrow> 'd \<Rightarrow> nat \<Rightarrow> nat option" where
  "higher_loop h l d lk =
     (if lk = sentinel l then Some lk
      else Option.bind (links h lk) (\<lambda>k.
        if linkCompare l (ldata k) d > 0 then higher_loop h l d (lprev k) else Some lk))"

definition xmlListLowerSearch :: "'d lheap \<Rightarrow> nat ptr \<Rightarrow> 'd \<Rightarrow> nat ptr option" where
  "xmlListLowerSearch h lp d =
     (case lp of
        NULL \<Rightarrow> Some NULL
      | Ptr a \<Rightarrow> do {
          l \<leftarrow> headers h a;
          s \<leftarrow> links h (sentinel l);
          lk \<leftarrow> lower_loop h l d (lnext s);
          Some (Ptr lk) })"

definition xmlListHigherSearch :: "'d lheap \<Rightarrow> nat ptr \<Rightarrow> 'd \<Rightarrow> nat ptr option" where
  "xmlListHigherSearch h lp d =
     (case lp of
        NULL \<Rightarrow> Some NULL
      | Ptr a \<Rightarrow> do {
          l \<leftarrow> headers h a;
          s \<leftarrow> links h (sentinel l);
          lk \<leftarrow> higher_loop h l d (lprev s);
          Some (Ptr lk) })"

text \<open>The tail of both link searches: is the link found one with the data looked for?\<close>

definition link_equal :: "'d lheap \<Rightarrow> 'd xmlList \<Rightarrow> 'd \<Rightarrow> nat ptr \<Rightarrow> nat ptr option" where
  "link_equal h l d p =
     (case p of
        NULL \<Rightarrow> None
      | Ptr lk \<Rightarrow>
          if lk = sentinel l then Some NULL
          else do { k \<leftarrow> links h lk; Some (if linkCompare l (ldata k) d = 0 then Ptr lk else NULL) })"

definition xmlListLinkSearch :: "'d lheap \<Rightarrow> nat ptr \<Rightarrow> 'd \<Rightarrow> nat ptr option" where
  "xmlListLinkSearch h lp d =
     (case lp of
        NULL \<Rightarrow> Some NULL
      | Ptr a \<Rightarrow> do { p \<leftarrow> xmlListLowerSearch h lp d; l \<leftarrow> headers h a; link_equal h l d p })"

definition xmlListLinkReverseSearch :: "'d lheap \<Rightarrow> nat ptr \<Rightarrow> 'd \<Rightarrow> nat ptr option" where
  "xmlListLinkReverseSearch h lp d =
     (case lp of
        NULL \<Rightarrow> Some NULL
      | Ptr a \<Rightarrow> do { p \<leftarrow> xmlListHigherSearch h lp d; l \<leftarrow> headers h a; link_equal h l d p })"

definition xmlLinkGetData :: "'d lheap \<Rightarrow> nat ptr \<Rightarrow> 'd ptr option" where
  "xmlLinkGetData h p = (case p of NULL \<Rightarrow> Some NULL | Ptr lk \<Rightarrow> do { k \<leftarrow> links h lk; Some (Ptr (ldata k)) })"

definition xmlListSearch :: "'d lheap \<Rightarrow> nat ptr \<Rightarrow> 'd \<Rightarrow> 'd ptr option" where
  "xmlListSearch h lp d =
     (case lp of NULL \<Rightarrow> Some NULL | Ptr _ \<Rightarrow> do { p \<leftarrow> xmlListLinkSearch h lp d; xmlLinkGetData h p })"

definition xmlListReverseSearch :: "'d lheap \<Rightarrow> nat ptr \<Rightarrow> 'd \<Rightarrow> 'd ptr option" where
  "xmlListReverseSearch h lp d =
     (case lp of NULL \<Rightarrow> Some NULL | Ptr _ \<Rightarrow> do { p \<leftarrow> xmlListLinkReverseSearch h lp d; xmlLinkGetData h p })"

section \<open>Creating, inserting, removing\<close>

text \<open>\<open>ok 0\<close> and \<open>ok 1\<close>: whether the allocations of the header and of the sentinel succeed.\<close>

definition xmlListCreate ::
  "(nat \<Rightarrow> bool) \<Rightarrow> bool \<Rightarrow> ('d::linorder \<Rightarrow> 'd \<Rightarrow> int) ptr \<Rightarrow> 'd \<Rightarrow> 'd lheap \<Rightarrow> nat ptr \<times> 'd lheap" where
  "xmlListCreate ok deallocator compare null h =
     (if \<not> ok 0 then (NULL, h)
      else
        let a = brk h; h1 = h\<lparr>brk := brk h + 1\<rparr>
        in if \<not> ok 1 then (NULL, h1)
           else
             let (s, h2) = new_link \<lparr>lnext = brk h1, lprev = brk h1, ldata = null\<rparr> h1;
                 l = \<lparr>sentinel = s, linkDeallocator = deallocator,
                      linkCompare = (case compare of NULL \<Rightarrow> xmlLinkCompare | Ptr c \<Rightarrow> c)\<rparr>
             in (Ptr a, h2\<lparr>headers := (headers h2)(a \<mapsto> l)\<rparr>))"

text \<open>
  The common tail of the insertions: \<open>lkNew\<close> with \<open>data\<close> is linked in after \<open>lkPlace\<close>.  The order of the four
  assignments is that of the code.
\<close>

definition link_after :: "'d \<Rightarrow> nat \<Rightarrow> 'd lheap \<Rightarrow> 'd lheap option" where
  "link_after d lkPlace h = do {
     let (lkNew, h1) = new_link \<lparr>lnext = 0, lprev = 0, ldata = d\<rparr> h;
     p \<leftarrow> links h1 lkPlace;
     h2 \<leftarrow> set_next lkNew (lnext p) h1;
     p2 \<leftarrow> links h2 lkPlace;
     h3 \<leftarrow> set_prev (lnext p2) lkNew h2;
     h4 \<leftarrow> set_next lkPlace lkNew h3;
     set_prev lkNew lkPlace h4 }"

definition xmlListInsert :: "bool \<Rightarrow> nat ptr \<Rightarrow> 'd \<Rightarrow> 'd lheap \<Rightarrow> (int \<times> 'd lheap) option" where
  "xmlListInsert ok lp d h =
     (case lp of
        NULL \<Rightarrow> Some (1, h)
      | Ptr _ \<Rightarrow> do {
          place \<leftarrow> xmlListLowerSearch h lp d;
          if \<not> ok then Some (1, h)
          else case place of
            NULL \<Rightarrow> None
          | Ptr lk \<Rightarrow> do {
              k \<leftarrow> links h lk;
              h' \<leftarrow> link_after d (lprev k) h;
              Some (0, h') } })"

definition xmlListAppend :: "bool \<Rightarrow> nat ptr \<Rightarrow> 'd \<Rightarrow> 'd lheap \<Rightarrow> (int \<times> 'd lheap) option" where
  "xmlListAppend ok lp d h =
     (case lp of
        NULL \<Rightarrow> Some (1, h)
      | Ptr _ \<Rightarrow> do {
          place \<leftarrow> xmlListHigherSearch h lp d;
          if \<not> ok then Some (1, h)
          else case place of
            NULL \<Rightarrow> None
          | Ptr lk \<Rightarrow> do { h' \<leftarrow> link_after d lk h; Some (0, h') } })"

partial_function (option) clear_loop :: "'d xmlList \<Rightarrow> nat \<Rightarrow> 'd lheap \<Rightarrow> 'd lheap option" where
  "clear_loop l lk h =
     (if lk = sentinel l then Some h
      else Option.bind (links h lk) (\<lambda>k.
        Option.bind (xmlLinkDeallocator l lk h) (\<lambda>h'. clear_loop l (lnext k) h')))"

definition xmlListClear :: "nat ptr \<Rightarrow> 'd lheap \<Rightarrow> 'd lheap option" where
  "xmlListClear lp h =
     (case lp of
        NULL \<Rightarrow> Some h
      | Ptr a \<Rightarrow> do { l \<leftarrow> headers h a; s \<leftarrow> links h (sentinel l); clear_loop l (lnext s) h })"

definition xmlListDelete :: "nat ptr \<Rightarrow> 'd lheap \<Rightarrow> 'd lheap option" where
  "xmlListDelete lp h =
     (case lp of
        NULL \<Rightarrow> Some h
      | Ptr a \<Rightarrow> do {
          h1 \<leftarrow> xmlListClear lp h;
          l \<leftarrow> headers h1 a;
          h2 \<leftarrow> free_link (sentinel l) h1;
          Some (h2\<lparr>headers := (headers h2)(a := None)\<rparr>) })"

definition remove_found :: "nat ptr \<Rightarrow> 'd xmlList \<Rightarrow> 'd lheap \<Rightarrow> (int \<times> 'd lheap) option" where
  "remove_found p l h =
     (case p of NULL \<Rightarrow> Some (0, h) | Ptr lk \<Rightarrow> do { h' \<leftarrow> xmlLinkDeallocator l lk h; Some (1, h') })"

definition xmlListRemoveFirst :: "nat ptr \<Rightarrow> 'd \<Rightarrow> 'd lheap \<Rightarrow> (int \<times> 'd lheap) option" where
  "xmlListRemoveFirst lp d h =
     (case lp of
        NULL \<Rightarrow> Some (0, h)
      | Ptr a \<Rightarrow> do { p \<leftarrow> xmlListLinkSearch h lp d; l \<leftarrow> headers h a; remove_found p l h })"

definition xmlListRemoveLast :: "nat ptr \<Rightarrow> 'd \<Rightarrow> 'd lheap \<Rightarrow> (int \<times> 'd lheap) option" where
  "xmlListRemoveLast lp d h =
     (case lp of
        NULL \<Rightarrow> Some (0, h)
      | Ptr a \<Rightarrow> do { p \<leftarrow> xmlListLinkReverseSearch h lp d; l \<leftarrow> headers h a; remove_found p l h })"

text \<open>\<open>count++\<close> on an \<open>int\<close>.\<close>

definition c_incr :: "int \<Rightarrow> int option" where
  "c_incr n = (if n < INT_MAX then Some (n + 1) else None)"

partial_function (option) remove_all_loop :: "nat ptr \<Rightarrow> 'd \<Rightarrow> int \<Rightarrow> 'd lheap \<Rightarrow> (int \<times> 'd lheap) option" where
  "remove_all_loop lp d count h =
     Option.bind (xmlListRemoveFirst lp d h) (\<lambda>(r, h').
       if r \<noteq> 0 then Option.bind (c_incr count) (\<lambda>n. remove_all_loop lp d n h') else Some (count, h'))"

definition xmlListRemoveAll :: "nat ptr \<Rightarrow> 'd \<Rightarrow> 'd lheap \<Rightarrow> (int \<times> 'd lheap) option" where
  "xmlListRemoveAll lp d h = (if lp = NULL then Some (0, h) else remove_all_loop lp d 0 h)"

definition xmlListEmpty :: "'d lheap \<Rightarrow> nat ptr \<Rightarrow> int option" where
  "xmlListEmpty h lp =
     (case lp of
        NULL \<Rightarrow> Some (- 1)
      | Ptr a \<Rightarrow> do { l \<leftarrow> headers h a; s \<leftarrow> links h (sentinel l); Some (of_bool (lnext s = sentinel l)) })"

definition xmlListFront :: "'d lheap \<Rightarrow> nat ptr \<Rightarrow> nat ptr option" where
  "xmlListFront h lp =
     (case lp of
        NULL \<Rightarrow> Some NULL
      | Ptr a \<Rightarrow> do { l \<leftarrow> headers h a; s \<leftarrow> links h (sentinel l); Some (Ptr (lnext s)) })"

definition xmlListEnd :: "'d lheap \<Rightarrow> nat ptr \<Rightarrow> nat ptr option" where
  "xmlListEnd h lp =
     (case lp of
        NULL \<Rightarrow> Some NULL
      | Ptr a \<Rightarrow> do { l \<leftarrow> headers h a; s \<leftarrow> links h (sentinel l); Some (Ptr (lprev s)) })"

partial_function (option) size_loop :: "'d lheap \<Rightarrow> nat \<Rightarrow> nat \<Rightarrow> int \<Rightarrow> int option" where
  "size_loop h s lk count =
     (if lk = s then Some count
      else Option.bind (links h lk) (\<lambda>k. Option.bind (c_incr count) (\<lambda>n. size_loop h s (lnext k) n)))"

definition xmlListSize :: "'d lheap \<Rightarrow> nat ptr \<Rightarrow> int option" where
  "xmlListSize h lp =
     (case lp of
        NULL \<Rightarrow> Some (- 1)
      | Ptr a \<Rightarrow> do { l \<leftarrow> headers h a; s \<leftarrow> links h (sentinel l); size_loop h (sentinel l) (lnext s) 0 })"

definition xmlListPopFront :: "nat ptr \<Rightarrow> 'd lheap \<Rightarrow> 'd lheap option" where
  "xmlListPopFront lp h = do {
     e \<leftarrow> xmlListEmpty h lp;
     if e = 0 then
       (case lp of
          NULL \<Rightarrow> None
        | Ptr a \<Rightarrow> do { l \<leftarrow> headers h a; s \<leftarrow> links h (sentinel l); xmlLinkDeallocator l (lnext s) h })
     else Some h }"

definition xmlListPopBack :: "nat ptr \<Rightarrow> 'd lheap \<Rightarrow> 'd lheap option" where
  "xmlListPopBack lp h = do {
     e \<leftarrow> xmlListEmpty h lp;
     if e = 0 then
       (case lp of
          NULL \<Rightarrow> None
        | Ptr a \<Rightarrow> do { l \<leftarrow> headers h a; s \<leftarrow> links h (sentinel l); xmlLinkDeallocator l (lprev s) h })
     else Some h }"

definition xmlListPushFront :: "bool \<Rightarrow> nat ptr \<Rightarrow> 'd \<Rightarrow> 'd lheap \<Rightarrow> (int \<times> 'd lheap) option" where
  "xmlListPushFront ok lp d h =
     (case lp of
        NULL \<Rightarrow> Some (0, h)
      | Ptr a \<Rightarrow> do {
          l \<leftarrow> headers h a;
          if \<not> ok then Some (0, h)
          else do { h' \<leftarrow> link_after d (sentinel l) h; Some (1, h') } })"

definition xmlListPushBack :: "bool \<Rightarrow> nat ptr \<Rightarrow> 'd \<Rightarrow> 'd lheap \<Rightarrow> (int \<times> 'd lheap) option" where
  "xmlListPushBack ok lp d h =
     (case lp of
        NULL \<Rightarrow> Some (0, h)
      | Ptr a \<Rightarrow> do {
          l \<leftarrow> headers h a;
          s \<leftarrow> links h (sentinel l);
          if \<not> ok then Some (0, h)
          else do { h' \<leftarrow> link_after d (lprev s) h; Some (1, h') } })"

section \<open>Whole lists\<close>

text \<open>The loop of \<open>xmlListReverse\<close>; it returns \<open>lkPrev\<close> and \<open>lk\<close> after the loop.\<close>

partial_function (option) reverse_loop :: "nat \<Rightarrow> nat \<Rightarrow> nat \<Rightarrow> 'd lheap \<Rightarrow> (nat \<times> nat \<times> 'd lheap) option" where
  "reverse_loop s lkPrev lk h =
     (if lk = s then Some (lkPrev, lk, h)
      else
        Option.bind (links h lkPrev) (\<lambda>p.
        Option.bind (set_next lkPrev (lprev p) h) (\<lambda>h1.
        Option.bind (set_prev lkPrev lk h1) (\<lambda>h2.
        Option.bind (links h2 lk) (\<lambda>k. reverse_loop s lk (lnext k) h2)))))"

definition xmlListReverse :: "nat ptr \<Rightarrow> 'd lheap \<Rightarrow> 'd lheap option" where
  "xmlListReverse lp h =
     (case lp of
        NULL \<Rightarrow> Some h
      | Ptr a \<Rightarrow> do {
          l \<leftarrow> headers h a;
          s \<leftarrow> links h (sentinel l);
          (lkPrev, lk, h1) \<leftarrow> reverse_loop (sentinel l) (sentinel l) (lnext s) h;
          p \<leftarrow> links h1 lkPrev;
          h2 \<leftarrow> set_next lkPrev (lprev p) h1;
          set_prev lkPrev lk h2 })"

text \<open>A walker gets the data and the user state and returns the new user state and its return value.\<close>

partial_function (option) walk_loop :: "'d lheap \<Rightarrow> ('d \<Rightarrow> 'u \<Rightarrow> 'u \<times> int) \<Rightarrow> nat \<Rightarrow> nat \<Rightarrow> 'u \<Rightarrow> 'u option" where
  "walk_loop h walker s lk u =
     (if lk = s then Some u
      else Option.bind (links h lk) (\<lambda>k.
        let (u', r) = walker (ldata k) u in if r = 0 then Some u' else walk_loop h walker s (lnext k) u'))"

partial_function (option) reverse_walk_loop :: "'d lheap \<Rightarrow> ('d \<Rightarrow> 'u \<Rightarrow> 'u \<times> int) \<Rightarrow> nat \<Rightarrow> nat \<Rightarrow> 'u \<Rightarrow> 'u option" where
  "reverse_walk_loop h walker s lk u =
     (if lk = s then Some u
      else Option.bind (links h lk) (\<lambda>k.
        let (u', r) = walker (ldata k) u in if r = 0 then Some u' else reverse_walk_loop h walker s (lprev k) u'))"

definition xmlListWalk :: "'d lheap \<Rightarrow> nat ptr \<Rightarrow> ('d \<Rightarrow> 'u \<Rightarrow> 'u \<times> int) ptr \<Rightarrow> 'u \<Rightarrow> 'u option" where
  "xmlListWalk h lp wp u =
     (case (lp, wp) of
        (Ptr a, Ptr walker) \<Rightarrow> do {
          l \<leftarrow> headers h a; s \<leftarrow> links h (sentinel l); walk_loop h walker (sentinel l) (lnext s) u }
      | _ \<Rightarrow> Some u)"

definition xmlListReverseWalk :: "'d lheap \<Rightarrow> nat ptr \<Rightarrow> ('d \<Rightarrow> 'u \<Rightarrow> 'u \<times> int) ptr \<Rightarrow> 'u \<Rightarrow> 'u option" where
  "xmlListReverseWalk h lp wp u =
     (case (lp, wp) of
        (Ptr a, Ptr walker) \<Rightarrow> do {
          l \<leftarrow> headers h a; s \<leftarrow> links h (sentinel l); reverse_walk_loop h walker (sentinel l) (lprev s) u }
      | _ \<Rightarrow> Some u)"

text \<open>\<open>ok i\<close>: whether the \<open>i\<close>-th allocation succeeds.  On a failure the new list is deleted.\<close>

partial_function (option) copy_loop ::
  "(nat \<Rightarrow> bool) \<Rightarrow> nat \<Rightarrow> nat ptr \<Rightarrow> nat \<Rightarrow> nat \<Rightarrow> 'd lheap \<Rightarrow> (int \<times> 'd lheap) option" where
  "copy_loop ok i cur s lk h =
     (if lk = s then Some (0, h)
      else Option.bind (links h lk) (\<lambda>k.
        Option.bind (xmlListInsert (ok i) cur (ldata k) h) (\<lambda>(r, h1).
          if r \<noteq> 0 then Option.bind (xmlListDelete cur h1) (\<lambda>h2. Some (1, h2))
          else Option.bind (links h1 lk) (\<lambda>k1. copy_loop ok (Suc i) cur s (lnext k1) h1))))"

definition xmlListCopy :: "(nat \<Rightarrow> bool) \<Rightarrow> nat ptr \<Rightarrow> nat ptr \<Rightarrow> 'd lheap \<Rightarrow> (int \<times> 'd lheap) option" where
  "xmlListCopy ok cur old h =
     (case (old, cur) of
        (Ptr a, Ptr _) \<Rightarrow> do {
          l \<leftarrow> headers h a; s \<leftarrow> links h (sentinel l); copy_loop ok 0 cur (sentinel l) (lnext s) h }
      | _ \<Rightarrow> Some (1, h))"

definition xmlListMerge :: "(nat \<Rightarrow> bool) \<Rightarrow> nat ptr \<Rightarrow> nat ptr \<Rightarrow> 'd lheap \<Rightarrow> 'd lheap option" where
  "xmlListMerge ok l1 l2 h = do { (_, h1) \<leftarrow> xmlListCopy ok l1 l2 h; xmlListClear l2 h1 }"

definition xmlListDup :: "(nat \<Rightarrow> nat \<Rightarrow> bool) \<Rightarrow> 'd \<Rightarrow> nat ptr \<Rightarrow> ('d::linorder) lheap \<Rightarrow> (nat ptr \<times> 'd lheap) option" where
  "xmlListDup ok null old h =
     (case old of
        NULL \<Rightarrow> Some (NULL, h)
      | Ptr a \<Rightarrow> do {
          l \<leftarrow> headers h a;
          let (cur, h1) = xmlListCreate (ok 0) False (Ptr (linkCompare l)) null h;
          if cur = NULL then Some (NULL, h1)
          else do {
            (r, h2) \<leftarrow> xmlListCopy (ok 1) cur old h1;
            Some (if r \<noteq> 0 then NULL else cur, h2) } })"

definition xmlListSort :: "(nat \<Rightarrow> nat \<Rightarrow> bool) \<Rightarrow> 'd \<Rightarrow> nat ptr \<Rightarrow> ('d::linorder) lheap \<Rightarrow> 'd lheap option" where
  "xmlListSort ok null lp h =
     (case lp of
        NULL \<Rightarrow> Some h
      | Ptr _ \<Rightarrow> do {
          e \<leftarrow> xmlListEmpty h lp;
          if e \<noteq> 0 then Some h
          else do {
            (lTemp, h1) \<leftarrow> xmlListDup ok null lp h;
            if lTemp = NULL then Some h1
            else do {
              h2 \<leftarrow> xmlListClear lp h1;
              h3 \<leftarrow> xmlListMerge (ok 2) lp lTemp h2;
              xmlListDelete lTemp h3 } } })"

end
