(* ===== verification/ListRings.thy ===== *)
theory ListRings
  imports Xmllist
begin

text \<open>
  The invariant of the lists: every header has a ring of links through its sentinel, linked consistently in both
  directions, and the rings are disjoint.  Linking in, unlinking and reversing keep it (\<open>link_after_ok\<close>,
  \<open>xmlLinkDeallocator_ok\<close>, \<open>ring_swap\<close>); from it every operation on one list is shown to compute a function of the
  sequence of its data and to leave the other lists alone (\<open>puts\<close>).
\<close>

section \<open>Rings\<close>

abbreviation nx :: "'d lheap \<Rightarrow> nat \<Rightarrow> nat" where "nx h x \<equiv> lnext (the (links h x))"
abbreviation pv :: "'d lheap \<Rightarrow> nat \<Rightarrow> nat" where "pv h x \<equiv> lprev (the (links h x))"
abbreviation dat :: "'d lheap \<Rightarrow> nat \<Rightarrow> 'd" where "dat h x \<equiv> ldata (the (links h x))"

text \<open>The ring of the sentinel \<open>s\<close> and the links \<open>xs\<close>, in both directions.\<close>

definition ring :: "'d lheap \<Rightarrow> nat \<Rightarrow> nat list \<Rightarrow> bool" where
  "ring h s xs \<longleftrightarrow> distinct (s # xs) \<and> set (s # xs) \<subseteq> dom (links h) \<and>
     map (nx h) (s # xs) = xs @ [s] \<and> map (pv h) (xs @ [s]) = s # xs"

lemma ring_cong: "\<forall>x \<in> set (s # xs). links h' x = links h x \<Longrightarrow> ring h s xs \<Longrightarrow> ring h' s xs"
  by (auto simp: ring_def domIff subset_iff cong: map_cong)

lemma cut_lists:
  assumes "s # us = us' @ [x]" "vs @ [s] = y # vs'"
  shows "us' @ x # vs = s # us @ vs" "us @ y # vs' = us @ vs @ [s]"
proof -
  have "us' @ x # vs = (us' @ [x]) @ vs" by simp
  also have "\<dots> = s # us @ vs" unfolding assms(1) [symmetric] by simp
  finally show "us' @ x # vs = s # us @ vs" .
  show "us @ y # vs' = us @ vs @ [s]" unfolding assms(2) ..
qed

text \<open>
  A ring cut between two neighbours: \<open>x\<close> is the last of \<open>s # us\<close> and \<open>y\<close> the first of \<open>vs @ [s]\<close>.
\<close>

lemma ring_cut:
  assumes "s # us = us' @ [x]" "vs @ [s] = y # vs'"
  shows "ring h s (us @ vs) \<longleftrightarrow> distinct (s # us @ vs) \<and> set (s # us @ vs) \<subseteq> dom (links h) \<and>
    map (nx h) us' = us \<and> nx h x = y \<and> map (nx h) vs = vs' \<and> map (pv h) us = us' \<and> pv h y = x \<and> map (pv h) vs' = vs"
proof -
  have l: "length us' = length us" using arg_cong [OF assms(1), of length] by simp
  note c = cut_lists [OF assms]
  have "map (nx h) (s # us @ vs) = (us @ vs) @ [s] \<longleftrightarrow> map (nx h) us' @ nx h x # map (nx h) vs = us @ y # vs'"
    unfolding append_assoc c [symmetric] by simp
  moreover have "map (pv h) ((us @ vs) @ [s]) = s # us @ vs \<longleftrightarrow> map (pv h) us @ pv h y # map (pv h) vs' = us' @ x # vs"
    unfolding append_assoc c [symmetric] by simp
  ultimately show ?thesis using l unfolding ring_def by (auto simp del: list.map)
qed

lemma cut_exists:
  obtains us' y vs' where "s # us = us' @ [last (s # us)]" "vs @ [s] = y # vs'" "y = hd (vs @ [s])"
proof -
  have "s # us = butlast (s # us) @ [last (s # us)]" by simp
  moreover obtain y vs' where "vs @ [s] = y # vs'" by (cases "vs @ [s]") auto
  ultimately show thesis using that by (metis list.sel(1))
qed

lemma ring_cutD:
  assumes "ring h s (us @ vs)"
  shows "nx h (last (s # us)) = hd (vs @ [s])" "pv h (hd (vs @ [s])) = last (s # us)"
    "last (s # us) \<in> dom (links h)" "hd (vs @ [s]) \<in> dom (links h)"
proof -
  obtain us' y vs' where c: "s # us = us' @ [last (s # us)]" "vs @ [s] = y # vs'" "y = hd (vs @ [s])" by (rule cut_exists)
  show "nx h (last (s # us)) = hd (vs @ [s])" "pv h (hd (vs @ [s])) = last (s # us)"
    using assms unfolding ring_cut [OF c(1,2)] c(3) by simp_all
  have "last (s # us) \<in> set (s # us @ vs)" "hd (vs @ [s]) \<in> set (s # us @ vs)" by (cases vs; auto)+
  then show "last (s # us) \<in> dom (links h)" "hd (vs @ [s]) \<in> dom (links h)" using assms by (auto simp: ring_def)
qed

lemma map_upd_notin: "x \<notin> set xs \<Longrightarrow> map (f(x := y)) xs = map f xs"
  by (induction xs) auto

lemma ring_insert:
  assumes r: "ring h s (us @ vs)" and n: "n \<notin> set (s # us @ vs)"
    and d: "set (s # us @ n # vs) \<subseteq> dom (links h')"
    and nx': "\<forall>z. nx h' z = ((nx h)(last (s # us) := n, n := hd (vs @ [s]))) z"
    and pv': "\<forall>z. pv h' z = ((pv h)(hd (vs @ [s]) := n, n := last (s # us))) z"
  shows "ring h' s (us @ n # vs)"
proof -
  obtain us' y vs' where c: "s # us = us' @ [last (s # us)]" "vs @ [s] = y # vs'" "y = hd (vs @ [s])" by (rule cut_exists)
  let ?x = "last (s # us)"
  note R = r [unfolded ring_cut [OF c(1,2)]]
  note cl = cut_lists [OF c(1,2)]
  have ds: "distinct (us' @ ?x # vs)" "distinct (us @ y # vs')" unfolding cl using R by auto
  have "n \<notin> set (us' @ ?x # vs)" "n \<notin> set (us @ y # vs')" unfolding cl using n by auto
  then have nn: "n \<notin> set us'" "n \<notin> set vs" "n \<noteq> ?x" "n \<notin> set us" "n \<noteq> y" "n \<notin> set vs'" by simp_all
  have e: "map (nx h') zs = map ((nx h)(?x := n, n := y)) zs" "map (pv h') zs = map ((pv h)(y := n, n := ?x)) zs" for zs
    unfolding c(3) by (rule map_cong [OF refl], use nx' in blast) (rule map_cong [OF refl], use pv' in blast)
  have "nx h' ?x = n" "nx h' n = y" "pv h' y = n" "pv h' n = ?x" using nx' pv' nn(3,5) unfolding c(3) by simp_all
  moreover have "map (nx h') us' = us" "map (nx h') vs = vs'" "map (pv h') us = us'" "map (pv h') vs' = vs"
    unfolding e using R ds nn by (simp_all add: map_upd_notin)
  ultimately have "distinct (s # us @ n # vs) \<and> set (s # us @ n # vs) \<subseteq> dom (links h') \<and>
    map (nx h') us' = us \<and> nx h' ?x = n \<and> map (nx h') (n # vs) = y # vs' \<and> map (pv h') us = us' \<and> pv h' n = ?x \<and> map (pv h') (y # vs') = n # vs"
    using R n d by auto
  then show ?thesis using c(2) by (subst ring_cut [OF c(1), of "n # vs" n "y # vs'"]) simp_all
qed

lemma ring_remove:
  assumes r: "ring h s (us @ n # vs)"
    and d: "set (s # us @ vs) \<subseteq> dom (links h')"
    and nx': "\<forall>z \<in> set (s # us @ vs). nx h' z = ((nx h)(last (s # us) := hd (vs @ [s]))) z"
    and pv': "\<forall>z \<in> set (s # us @ vs). pv h' z = ((pv h)(hd (vs @ [s]) := last (s # us))) z"
  shows "ring h' s (us @ vs)"
proof -
  obtain us' y vs' where c: "s # us = us' @ [last (s # us)]" "vs @ [s] = y # vs'" "y = hd (vs @ [s])" by (rule cut_exists)
  let ?x = "last (s # us)"
  have "(n # vs) @ [s] = n # y # vs'" using c(2) by simp
  note R = r [unfolded ring_cut [OF c(1) this]]
  note cl = cut_lists [OF c(1,2)]
  have ds: "distinct (us' @ ?x # vs)" "distinct (us @ y # vs')" unfolding cl using R by auto
  have "set (us' @ ?x # vs) = set (s # us @ vs)" "set (us @ y # vs') = set (s # us @ vs)" unfolding cl by auto
  then have sub: "set us' \<subseteq> set (s # us @ vs)" "?x \<in> set (s # us @ vs)" "set vs' \<subseteq> set (s # us @ vs)" "y \<in> set (s # us @ vs)"
    unfolding set_append list.set by blast+
  have m: "map (nx h') us' = us" "nx h' ?x = y" "map (nx h') vs = vs'" "map (pv h') us = us'" "pv h' y = ?x" "map (pv h') vs' = vs"
  proof -
    have e: "map (nx h') us' = map ((nx h)(?x := y)) us'" "map (nx h') vs = map ((nx h)(?x := y)) vs"
      using nx' sub c(3) by (auto intro!: map_cong)
    show "map (nx h') us' = us" "map (nx h') vs = vs'" unfolding e using R ds by (simp_all add: map_upd_notin)
    have e': "map (pv h') us = map ((pv h)(y := ?x)) us" "map (pv h') vs' = map ((pv h)(y := ?x)) vs'"
      using pv' sub c(3) by (auto intro!: map_cong)
    show "map (pv h') us = us'" "map (pv h') vs' = vs" unfolding e' using R ds by (simp_all add: map_upd_notin)
    show "nx h' ?x = y" "pv h' y = ?x" using nx' pv' sub c(3) by auto
  qed
  then show ?thesis using R d by (subst ring_cut [OF c(1,2)]) auto
qed

section \<open>Linking and unlinking\<close>

text \<open>What a change of the ring of \<open>s\<close> from \<open>xs\<close> to \<open>xs'\<close> leaves alone.\<close>

definition frame :: "nat \<Rightarrow> nat list \<Rightarrow> nat list \<Rightarrow> 'd lheap \<Rightarrow> 'd lheap \<Rightarrow> bool" where
  "frame s xs xs' h h' \<longleftrightarrow> headers h' = headers h \<and> brk h \<le> brk h' \<and> ring h' s xs' \<and>
     set xs' \<subseteq> set xs \<union> {brk h ..< brk h'} \<and>
     (\<forall>x. x \<notin> set (s # xs) \<longrightarrow> x \<notin> {brk h ..< brk h'} \<longrightarrow> links h' x = links h x)"

lemma frame_refl: "ring h s xs \<Longrightarrow> frame s xs xs h h"
  by (simp add: frame_def)

lemma frame_trans: "frame s xs ys h1 h2 \<Longrightarrow> frame s ys zs h2 h3 \<Longrightarrow> frame s xs zs h1 h3"
  unfolding frame_def by (elim conjE, intro conjI; (force | auto simp: subset_iff))

definition set_data :: "'d lheap \<Rightarrow> nat list \<Rightarrow> 'd list" where
  "set_data h xs = map (dat h) xs"

lemma set_link:
  assumes "x \<in> dom (links h)"
  shows "set_next x v h = Some (h\<lparr>links := (links h)(x \<mapsto> (the (links h x))\<lparr>lnext := v\<rparr>)\<rparr>)"
    "set_prev x v h = Some (h\<lparr>links := (links h)(x \<mapsto> (the (links h x))\<lparr>lprev := v\<rparr>)\<rparr>)"
  using assms by (auto simp: set_next_def set_prev_def)

lemma link_after_ok:
  assumes r: "ring h s (us @ vs)" and n: "links h (brk h) = None"
  shows "\<exists>h'. link_after d (last (s # us)) h = Some h' \<and> frame s (us @ vs) (us @ brk h # vs) h h' \<and>
    brk h' = Suc (brk h) \<and> dealloc h' = dealloc h \<and> dat h' (brk h) = d \<and> (\<forall>x. x \<noteq> brk h \<longrightarrow> dat h' x = dat h x)"
proof -
  let ?x = "last (s # us)" let ?y = "hd (vs @ [s])" let ?n = "brk h"
  note c = ring_cutD [OF r]
  obtain kx where kx: "links h ?x = Some kx" using c(3) by blast
  obtain ky where ky: "links h ?y = Some ky" using c(4) by blast
  have nn: "?n \<noteq> ?x" "?n \<noteq> ?y" using n kx ky by auto
  have ln: "lnext kx = ?y" using c(1) kx by simp
  let ?h1 = "h\<lparr>links := (links h)(?n \<mapsto> \<lparr>lnext = 0, lprev = 0, ldata = d\<rparr>), brk := ?n + 1\<rparr>"
  let ?h2 = "h\<lparr>links := (links h)(?n \<mapsto> \<lparr>lnext = ?y, lprev = 0, ldata = d\<rparr>), brk := ?n + 1\<rparr>"
  let ?L3 = "(links h)(?n \<mapsto> \<lparr>lnext = ?y, lprev = 0, ldata = d\<rparr>, ?y \<mapsto> ky\<lparr>lprev := ?n\<rparr>)"
  let ?L4 = "?L3(?x \<mapsto> (the (?L3 ?x))\<lparr>lnext := ?n\<rparr>)"
  let ?L5 = "?L4(?n \<mapsto> \<lparr>lnext = ?y, lprev = ?x, ldata = d\<rparr>)"
  let ?h' = "h\<lparr>links := ?L5, brk := ?n + 1\<rparr>"
  have 2: "set_next ?n ?y ?h1 = Some ?h2" using nn by (simp add: set_next_def)
  have 3: "set_prev ?y ?n ?h2 = Some (h\<lparr>links := ?L3, brk := ?n + 1\<rparr>)" using nn ky by (simp add: set_prev_def)
  have 4: "set_next ?x ?n (h\<lparr>links := ?L3, brk := ?n + 1\<rparr>) = Some (h\<lparr>links := ?L4, brk := ?n + 1\<rparr>)"
    using kx by (subst set_link) auto
  have 5: "set_prev ?n ?x (h\<lparr>links := ?L4, brk := ?n + 1\<rparr>) = Some ?h'" using nn by (simp add: set_prev_def)
  have "link_after d ?x h = Some ?h'"
    unfolding link_after_def new_link_def Let_def prod.case using kx ln nn 2 3 4 5 by simp
  moreover have nxpv: "nx ?h' z = ((nx h)(?x := ?n, ?n := ?y)) z" "pv ?h' z = ((pv h)(?y := ?n, ?n := ?x)) z" "z \<noteq> ?n \<Longrightarrow> dat ?h' z = dat h z" for z
    using nn kx ky by auto
  moreover have "ring ?h' s (us @ ?n # vs)"
  proof (rule ring_insert [OF r])
    show "?n \<notin> set (s # us @ vs)" using n r by (auto simp: ring_def)
    show "set (s # us @ ?n # vs) \<subseteq> dom (links ?h')" using r by (auto simp: ring_def)
  qed (use nxpv(1,2) in blast)+
  moreover have "z \<notin> set (s # us @ vs) \<Longrightarrow> z \<notin> {?n ..< ?n + 1} \<Longrightarrow> links ?h' z = links h z" for z
  proof -
    assume "z \<notin> set (s # us @ vs)" "z \<notin> {?n ..< ?n + 1}"
    moreover have "?x \<in> set (s # us @ vs)" "?y \<in> set (s # us @ vs)" by (cases vs; auto)+
    ultimately have "z \<noteq> ?x" "z \<noteq> ?y" "z \<noteq> ?n" by auto
    then show ?thesis by simp
  qed
  ultimately show ?thesis by (intro exI [of _ ?h']) (auto simp: frame_def)
qed

lemma xmlLinkDeallocator_ok:
  assumes r: "ring h (sentinel l) (us @ n # vs)"
  shows "\<exists>h'. xmlLinkDeallocator l n h = Some h' \<and> frame (sentinel l) (us @ n # vs) (us @ vs) h h' \<and> brk h' = brk h \<and>
    dealloc h' = dealloc h @ (if linkDeallocator l then [dat h n] else []) \<and> links h' n = None \<and>
    (\<forall>x. x \<noteq> n \<longrightarrow> dat h' x = dat h x \<and> (x \<in> dom (links h') \<longleftrightarrow> x \<in> dom (links h)))"
proof -
  let ?s = "sentinel l"
  let ?x = "last (?s # us)" let ?y = "hd (vs @ [?s])"
  have c: "nx h ?x = n" "pv h n = ?x" "?x \<in> dom (links h)" "n \<in> dom (links h)" using ring_cutD [OF r] by simp_all
  have "ring h ?s ((us @ [n]) @ vs)" using r by simp
  from ring_cutD [OF this] have c2: "nx h n = ?y" "pv h ?y = n" "?y \<in> dom (links h)" by simp_all
  obtain kx kn ky where k: "links h ?x = Some kx" "links h n = Some kn" "links h ?y = Some ky" using c c2 by blast
  have ds: "distinct (?s # us @ n # vs)" using r by (simp add: ring_def)
  then have nn: "n \<noteq> ?x" "n \<noteq> ?y" by (cases us rule: rev_cases; cases vs; auto)+
  have ln: "lprev kn = ?x" "lnext kn = ?y" using c(2) c2(1) k by simp_all
  let ?L1 = "(links h)(?x \<mapsto> kx\<lparr>lnext := ?y\<rparr>)"
  let ?L2 = "?L1(?y \<mapsto> (the (?L1 ?y))\<lparr>lprev := ?x\<rparr>)"
  let ?fr = "if linkDeallocator l then [ldata kn] else []"
  let ?h' = "h\<lparr>links := ?L2(n := None), dealloc := dealloc h @ ?fr\<rparr>"
  have 1: "set_next ?x ?y h = Some (h\<lparr>links := ?L1\<rparr>)" using k by (simp add: set_next_def)
  have 2: "set_prev ?y ?x (h\<lparr>links := ?L1\<rparr>) = Some (h\<lparr>links := ?L2\<rparr>)"
    using k by (subst set_link) auto
  have L2n: "?L2 n = Some kn" using nn k by simp
  have "xmlLinkDeallocator l n h = Some ?h'"
    unfolding xmlLinkDeallocator_def Let_def using k ln nn 1 2 L2n by (simp add: free_link_def)
  moreover have nxpv: "z \<noteq> n \<Longrightarrow> nx ?h' z = ((nx h)(?x := ?y)) z" "z \<noteq> n \<Longrightarrow> pv ?h' z = ((pv h)(?y := ?x)) z" "z \<noteq> n \<Longrightarrow> dat ?h' z = dat h z"
    "z \<noteq> n \<Longrightarrow> z \<in> dom (links ?h') \<longleftrightarrow> z \<in> dom (links h)" for z using k by auto
  moreover have "ring ?h' ?s (us @ vs)"
  proof (rule ring_remove [OF r])
    show "set (?s # us @ vs) \<subseteq> dom (links ?h')" using r nxpv(4) ds unfolding ring_def by auto
    have "n \<notin> set (?s # us @ vs)" using ds by auto
    then show "\<forall>z \<in> set (?s # us @ vs). nx ?h' z = ((nx h)(?x := ?y)) z" "\<forall>z \<in> set (?s # us @ vs). pv ?h' z = ((pv h)(?y := ?x)) z"
      using nxpv(1,2) by metis+
  qed
  moreover have "links ?h' z = links h z" if "z \<notin> set (?s # us @ n # vs)" for z
  proof -
    have "?x \<in> set (?s # us @ n # vs)" "?y \<in> set (?s # us @ n # vs)" by (cases vs; auto)+
    then have "z \<noteq> ?x" "z \<noteq> ?y" "z \<noteq> n" using that by auto
    then show ?thesis by simp
  qed
  ultimately show ?thesis using k by (intro exI [of _ ?h']) (auto simp: frame_def)
qed

section \<open>Well-formed heaps\<close>

definition heap_ok :: "'d lheap \<Rightarrow> bool" where
  "heap_ok h \<longleftrightarrow> (\<forall>x \<in> dom (links h) \<union> dom (headers h). x < brk h) \<and>
     (\<forall>a l. headers h a = Some l \<longrightarrow> (\<exists>xs. ring h (sentinel l) xs)) \<and>
     (\<forall>a b l m xs ys. headers h a = Some l \<longrightarrow> headers h b = Some m \<longrightarrow> a \<noteq> b \<longrightarrow>
        ring h (sentinel l) xs \<longrightarrow> ring h (sentinel m) ys \<longrightarrow> set (sentinel l # xs) \<inter> set (sentinel m # ys) = {})"

lemma heap_fresh: "heap_ok h \<Longrightarrow> links h (brk h) = None \<and> headers h (brk h) = None"
  by (metis Un_iff domIff less_irrefl heap_ok_def)

text \<open>The links of a ring, computed by walking from the sentinel; \<open>brk\<close> bounds the number of links.\<close>

fun chain :: "'d lheap \<Rightarrow> nat \<Rightarrow> nat \<Rightarrow> nat \<Rightarrow> nat list" where
  "chain h s 0 x = []"
| "chain h s (Suc n) x = (if x = s then [] else x # chain h s n (nx h x))"

lemma ring_chain:
  assumes "ring h s (us @ vs)" "length vs < n"
  shows "chain h s n (hd (vs @ [s])) = vs"
  using assms
proof (induction vs arbitrary: us n)
  case Nil
  then show ?case by (cases n) auto
next
  case (Cons v vs)
  obtain m where m: "n = Suc m" "length vs < m" using Cons.prems(2) by (cases n) auto
  have r: "ring h s ((us @ [v]) @ vs)" using Cons.prems(1) by simp
  have "v \<noteq> s" using r by (auto simp: ring_def)
  moreover have "nx h v = hd (vs @ [s])" using ring_cutD(1) [OF r] by simp
  ultimately show ?case using Cons.IH [OF r m(2)] m(1) by simp
qed

lemma ring_hd: "ring h s xs \<Longrightarrow> nx h s = hd (xs @ [s])"
  using ring_cutD(1) [of h s "[]" xs] by (simp only: append_Nil last.simps if_True simp_thms)

lemma ring_last: "ring h s xs \<Longrightarrow> pv h s = last (s # xs)"
  using ring_cutD(2) [of h s xs "[]"] by (simp only: append_Nil append_Nil2 list.sel simp_thms)

lemma ring_unique: "ring h s xs \<Longrightarrow> ring h s ys \<Longrightarrow> xs = ys"
proof -
  assume r: "ring h s xs" "ring h s ys"
  define n where "n = Suc (length xs + length ys)"
  have "chain h s n (hd (xs @ [s])) = xs" "chain h s n (hd (ys @ [s])) = ys"
    using ring_chain [of h s "[]" xs n] ring_chain [of h s "[]" ys n] r by (simp_all add: n_def del: chain.simps)
  moreover have "hd (xs @ [s]) = hd (ys @ [s])" using ring_hd [OF r(1)] ring_hd [OF r(2)] by (rule box_equals [rotated]) (rule refl)
  ultimately show ?thesis by metis
qed

definition nodes :: "'d lheap \<Rightarrow> nat \<Rightarrow> nat list" where
  "nodes h s = chain h s (brk h) (nx h s)"

lemma ring_nodes:
  assumes "heap_ok h" "ring h s xs"
  shows "nodes h s = xs"
proof -
  have "set (s # xs) \<subseteq> {..<brk h}" using assms by (auto simp: heap_ok_def ring_def)
  then have "card (set (s # xs)) \<le> brk h" using card_mono [of "{..<brk h}"] by fastforce
  moreover have "card (set (s # xs)) = Suc (length xs)" using assms(2) distinct_card [of "s # xs"] by (simp add: ring_def)
  ultimately have "length xs < brk h" by simp
  then show ?thesis using ring_chain [of h s "[]" xs "brk h"] ring_hd [OF assms(2)] assms(2) by (simp only: nodes_def append_Nil)
qed

text \<open>The abstract value: every list with its settings and its data.\<close>

definition seqs :: "'d lheap \<Rightarrow> nat \<Rightarrow> (bool \<times> ('d \<Rightarrow> 'd \<Rightarrow> int) \<times> 'd list) option" where
  "seqs h a = map_option (\<lambda>l. (linkDeallocator l, linkCompare l, map (dat h) (nodes h (sentinel l)))) (headers h a)"

lemma heap_seqs:
  assumes "heap_ok h" "seqs h a = Some (f, c, ds)"
  obtains l xs where "headers h a = Some l" "linkDeallocator l = f" "linkCompare l = c" "ring h (sentinel l) xs" "map (dat h) xs = ds"
proof -
  obtain l where l: "headers h a = Some l" "(linkDeallocator l, linkCompare l, map (dat h) (nodes h (sentinel l))) = (f, c, ds)"
    using assms(2) by (auto simp: seqs_def)
  obtain xs where "ring h (sentinel l) xs" using assms(1) l(1) unfolding heap_ok_def by blast
  then show thesis using that [OF l(1), of xs] l(2) ring_nodes [OF assms(1), of "sentinel l" xs] by simp
qed

lemma frame_other:
  assumes w: "heap_ok h" and a: "headers h a = Some l" and r: "ring h (sentinel l) xs" and f: "frame (sentinel l) xs xs' h h'"
    and b: "headers h b = Some m" "b \<noteq> a" "ring h (sentinel m) ys"
  shows "set (sentinel m # ys) \<inter> set (sentinel l # xs) = {}" "set (sentinel m # ys) \<inter> {brk h ..< brk h'} = {}"
    "\<forall>x \<in> set (sentinel m # ys). links h' x = links h x" "ring h' (sentinel m) ys"
proof -
  have "set (sentinel m # ys) \<subseteq> dom (links h)" using b by (simp add: ring_def)
  moreover have "x < brk h" if "x \<in> dom (links h)" for x using w that by (auto simp: heap_ok_def)
  ultimately show 1: "set (sentinel m # ys) \<inter> {brk h ..< brk h'} = {}" by fastforce
  show 2: "set (sentinel m # ys) \<inter> set (sentinel l # xs) = {}" using w b a r unfolding heap_ok_def by blast
  show 3: "\<forall>x \<in> set (sentinel m # ys). links h' x = links h x" using 1 2 f unfolding frame_def by blast
  show "ring h' (sentinel m) ys" using 3 b(3) by (rule ring_cong)
qed

lemma frame_heap_ok:
  assumes w: "heap_ok h" and a: "headers h a = Some l" and r: "ring h (sentinel l) xs" and f: "frame (sentinel l) xs xs' h h'"
    and d: "\<forall>x. x \<in> dom (links h') \<longrightarrow> x \<in> dom (links h) \<or> x \<in> {brk h ..< brk h'}"
  shows "heap_ok h' \<and> seqs h' = (seqs h)(a \<mapsto> (linkDeallocator l, linkCompare l, map (dat h') xs'))"
proof -
  let ?s = "sentinel l"
  have F: "headers h' = headers h" "brk h \<le> brk h'" "ring h' ?s xs'" "set xs' \<subseteq> set xs \<union> {brk h ..< brk h'}"
    "\<And>x. x \<notin> set (?s # xs) \<Longrightarrow> x \<notin> {brk h ..< brk h'} \<Longrightarrow> links h' x = links h x" using f by (auto simp: frame_def)
  note other = frame_other [OF w a r f]
  have same: "links h' x = links h x" if "headers h b = Some m" "b \<noteq> a" "ring h (sentinel m) ys" "x \<in> set (sentinel m # ys)" for b m ys x
    using other(3) [OF that(1-3)] that(4) by blast
  note keep = other(4)
  have rings: "\<exists>ys. ring h (sentinel m) ys" if "headers h b = Some m" for b m using w that by (auto simp: heap_ok_def)
  have bk: "ring h (sentinel m) ys" if "headers h b = Some m" "b \<noteq> a" "ring h' (sentinel m) ys" for b m ys
    using rings [OF that(1)] keep [OF that(1,2)] ring_unique that(3) by metis
  have "set (?s # xs') \<subseteq> set (?s # xs) \<union> {brk h ..< brk h'}" using F(4) by auto
  then have dis: "set (?s # xs') \<inter> set (sentinel m # ys) = {}" if "headers h b = Some m" "b \<noteq> a" "ring h (sentinel m) ys" for b m ys
    using other(1,2) [OF that] by blast
  have W: "heap_ok h'"
    unfolding heap_ok_def
  proof (intro conjI allI impI)
    show "\<forall>x \<in> dom (links h') \<union> dom (headers h'). x < brk h'"
    proof
      fix x assume "x \<in> dom (links h') \<union> dom (headers h')"
      then have "x \<in> dom (links h) \<union> dom (headers h) \<or> x < brk h'" using d F(1) by auto
      moreover have "\<forall>x \<in> dom (links h) \<union> dom (headers h). x < brk h" using w by (simp add: heap_ok_def)
      ultimately show "x < brk h'" using F(2) order.strict_trans2 by blast
    qed
    fix b m assume "headers h' b = Some m"
    then show "\<exists>ys. ring h' (sentinel m) ys" using keep rings F(1,3) a by (cases "b = a") (auto, metis)
  next
    fix b c m p ys zs
    assume bc: "headers h' b = Some m" "headers h' c = Some p" "b \<noteq> c" "ring h' (sentinel m) ys" "ring h' (sentinel p) zs"
    then have bc': "headers h b = Some m" "headers h c = Some p" using F(1) by simp_all
    consider "b = a" | "c = a" | "b \<noteq> a" "c \<noteq> a" by blast
    then show "set (sentinel m # ys) \<inter> set (sentinel p # zs) = {}"
    proof cases
      case 1
      then have "m = l" "ys = xs'" using a bc' bc(4) F(3) ring_unique by auto
      then show ?thesis using dis [OF bc'(2)] bk [OF bc'(2)] 1 bc by metis
    next
      case 2
      then have "p = l" "zs = xs'" using a bc' bc(5) F(3) ring_unique by auto
      then show ?thesis using dis [OF bc'(1)] bk [OF bc'(1)] 2 bc by (metis Int_commute)
    next
      case 3
      then show ?thesis using w bk bc bc' unfolding heap_ok_def by metis
    qed
  qed
  moreover have "seqs h' b = ((seqs h)(a \<mapsto> (linkDeallocator l, linkCompare l, map (dat h') xs'))) b" for b
  proof (cases "b = a")
    case True
    then show ?thesis using a F(1) ring_nodes [OF W F(3)] by (simp add: seqs_def)
  next
    case False
    show ?thesis
    proof (cases "headers h b")
      case (Some m)
      obtain ys where ys: "ring h (sentinel m) ys" using rings [OF Some] by blast
      have "nodes h' (sentinel m) = ys" "nodes h (sentinel m) = ys"
        using ring_nodes [OF W] ring_nodes [OF w] keep [OF Some False ys] ys by blast+
      moreover have "map (dat h') ys = map (dat h) ys" using same [OF Some False ys] by simp
      ultimately show ?thesis using Some False F(1) by (simp add: seqs_def)
    qed (use False F(1) in \<open>simp add: seqs_def\<close>)
  qed
  ultimately show ?thesis by blast
qed

section \<open>The operations on one list\<close>

text \<open>The sequences that the ordered operations compute, for a comparison \<open>c\<close>.\<close>

definition insert_first :: "('d \<Rightarrow> 'd \<Rightarrow> int) \<Rightarrow> 'd \<Rightarrow> 'd list \<Rightarrow> 'd list" where
  "insert_first c d ds = takeWhile (\<lambda>x. c x d < 0) ds @ d # dropWhile (\<lambda>x. c x d < 0) ds"

definition insert_last :: "('d \<Rightarrow> 'd \<Rightarrow> int) \<Rightarrow> 'd \<Rightarrow> 'd list \<Rightarrow> 'd list" where
  "insert_last c d ds = rev (takeWhile (\<lambda>x. c x d > 0) (rev ds) @ d # dropWhile (\<lambda>x. c x d > 0) (rev ds))"

definition equal_head :: "('d \<Rightarrow> 'd \<Rightarrow> int) \<Rightarrow> 'd \<Rightarrow> 'd list \<Rightarrow> 'd option" where
  "equal_head c d ds = (case ds of [] \<Rightarrow> None | x # _ \<Rightarrow> if c x d = 0 then Some x else None)"

definition find_first :: "('d \<Rightarrow> 'd \<Rightarrow> int) \<Rightarrow> 'd \<Rightarrow> 'd list \<Rightarrow> 'd option" where
  "find_first c d ds = equal_head c d (dropWhile (\<lambda>x. c x d < 0) ds)"

definition find_last :: "('d \<Rightarrow> 'd \<Rightarrow> int) \<Rightarrow> 'd \<Rightarrow> 'd list \<Rightarrow> 'd option" where
  "find_last c d ds = equal_head c d (dropWhile (\<lambda>x. c x d > 0) (rev ds))"

definition remove_first :: "('d \<Rightarrow> 'd \<Rightarrow> int) \<Rightarrow> 'd \<Rightarrow> 'd list \<Rightarrow> 'd list" where
  "remove_first c d ds =
     (if find_first c d ds = None then ds
      else takeWhile (\<lambda>x. c x d < 0) ds @ tl (dropWhile (\<lambda>x. c x d < 0) ds))"

definition remove_last :: "('d \<Rightarrow> 'd \<Rightarrow> int) \<Rightarrow> 'd \<Rightarrow> 'd list \<Rightarrow> 'd list" where
  "remove_last c d ds =
     (if find_last c d ds = None then ds
      else rev (takeWhile (\<lambda>x. c x d > 0) (rev ds) @ tl (dropWhile (\<lambda>x. c x d > 0) (rev ds))))"

text \<open>\<open>list_at h a l xs\<close>: the list at \<open>a\<close> has the header \<open>l\<close> and the links \<open>xs\<close>.\<close>

definition list_at :: "'d lheap \<Rightarrow> nat \<Rightarrow> 'd xmlList \<Rightarrow> nat list \<Rightarrow> bool" where
  "list_at h a l xs \<longleftrightarrow> heap_ok h \<and> headers h a = Some l \<and> ring h (sentinel l) xs"

lemma at_seqs: "list_at h a l xs \<Longrightarrow> seqs h a = Some (linkDeallocator l, linkCompare l, map (dat h) xs)"
  using ring_nodes by (auto simp: list_at_def seqs_def)

lemma seqs_at:
  assumes "heap_ok h" "seqs h a = Some (f, c, ds)"
  obtains l xs where "list_at h a l xs" "linkDeallocator l = f" "linkCompare l = c" "map (dat h) xs = ds"
  using assms by (auto simp: list_at_def elim: heap_seqs)

lemma at_sentinel:
  assumes "list_at h a l xs"
  obtains k where "links h (sentinel l) = Some k" "lnext k = hd (xs @ [sentinel l])" "lprev k = last (sentinel l # xs)"
proof -
  have r: "ring h (sentinel l) xs" using assms by (simp add: list_at_def)
  then obtain k where k: "links h (sentinel l) = Some k" by (auto simp: ring_def)
  show thesis using that [OF k] ring_hd [OF r] ring_last [OF r] unfolding k option.sel by blast
qed

text \<open>\<open>puts h h' a ds\<close>: the list at \<open>a\<close> now holds \<open>ds\<close>; the others are as before.\<close>

definition puts :: "'d lheap \<Rightarrow> 'd lheap \<Rightarrow> nat \<Rightarrow> 'd xmlList \<Rightarrow> 'd list \<Rightarrow> bool" where
  "puts h h' a l ds \<longleftrightarrow> heap_ok h' \<and> headers h' = headers h \<and> seqs h' = (seqs h)(a \<mapsto> (linkDeallocator l, linkCompare l, ds))"

lemma puts_refl: "list_at h a l xs \<Longrightarrow> puts h h a l (map (dat h) xs)"
  using at_seqs [of h a l xs] by (auto simp: puts_def list_at_def fun_upd_idem)

lemma link_after_puts:
  assumes "list_at h a l (us @ vs)"
  shows "\<exists>h'. link_after d (last (sentinel l # us)) h = Some h' \<and> dealloc h' = dealloc h \<and> brk h' = Suc (brk h) \<and>
    puts h h' a l (map (dat h) us @ d # map (dat h) vs) \<and> list_at h' a l (us @ brk h # vs) \<and> (\<forall>x. x \<noteq> brk h \<longrightarrow> dat h' x = dat h x) \<and>
    (\<forall>b m ys. b \<noteq> a \<longrightarrow> list_at h b m ys \<longrightarrow> list_at h' b m ys)"
proof -
  have w: "heap_ok h" "headers h a = Some l" "ring h (sentinel l) (us @ vs)" using assms by (simp_all add: list_at_def)
  have n: "links h (brk h) = None" using heap_fresh [OF w(1)] by simp
  obtain h' where h': "link_after d (last (sentinel l # us)) h = Some h'"
    "frame (sentinel l) (us @ vs) (us @ brk h # vs) h h'" "brk h' = Suc (brk h)" "dealloc h' = dealloc h" "dat h' (brk h) = d"
    "\<forall>x. x \<noteq> brk h \<longrightarrow> dat h' x = dat h x"
    using link_after_ok [OF w(3) n, of d] by blast
  have "x \<in> dom (links h) \<or> x \<in> {brk h..<brk h'}" if "x \<in> dom (links h')" for x
  proof (rule ccontr)
    assume no: "\<not> ?thesis"
    then have "x \<notin> set (sentinel l # us @ vs)" "x \<notin> {brk h..<brk h'}" using w(3) by (auto simp: ring_def)
    then have "links h' x = links h x" using h'(2) unfolding frame_def by blast
    then show False using that no by (metis domIff)
  qed
  then have p: "heap_ok h' \<and> seqs h' = (seqs h)(a \<mapsto> (linkDeallocator l, linkCompare l, map (dat h') (us @ brk h # vs)))"
    using frame_heap_ok [OF w h'(2)] by blast
  have "brk h \<notin> set (us @ vs)" using n w(3) by (auto simp: ring_def)
  then have "dat h' x = dat h x" if "x \<in> set (us @ vs)" for x using h'(6) that by metis
  then have "map (dat h') us = map (dat h) us" "map (dat h') vs = map (dat h) vs" by simp_all
  then have e: "map (dat h') (us @ brk h # vs) = map (dat h) us @ d # map (dat h) vs" using h'(5) by simp
  have "headers h' = headers h" "ring h' (sentinel l) (us @ brk h # vs)" using h'(2) by (simp_all add: frame_def)
  moreover have "ring h' (sentinel m) ys" if "b \<noteq> a" "list_at h b m ys" for b m ys
    using frame_other(4) [OF w h'(2)] that by (auto simp: list_at_def)
  ultimately show ?thesis using h' p w(2) unfolding e puts_def by (intro exI [of _ h']) (simp add: list_at_def)
qed

lemma dealloc_puts:
  assumes "list_at h a l (us @ n # vs)"
  shows "\<exists>h'. xmlLinkDeallocator l n h = Some h' \<and> brk h' = brk h \<and>
    dealloc h' = dealloc h @ (if linkDeallocator l then [dat h n] else []) \<and>
    puts h h' a l (map (dat h) us @ map (dat h) vs) \<and> list_at h' a l (us @ vs) \<and> (\<forall>x. x \<noteq> n \<longrightarrow> dat h' x = dat h x)"
proof -
  have w: "heap_ok h" "headers h a = Some l" "ring h (sentinel l) (us @ n # vs)" using assms by (simp_all add: list_at_def)
  obtain h' where h': "xmlLinkDeallocator l n h = Some h'" "frame (sentinel l) (us @ n # vs) (us @ vs) h h'" "brk h' = brk h"
    "dealloc h' = dealloc h @ (if linkDeallocator l then [dat h n] else [])" "links h' n = None"
    "\<forall>x. x \<noteq> n \<longrightarrow> dat h' x = dat h x \<and> (x \<in> dom (links h') \<longleftrightarrow> x \<in> dom (links h))"
    using xmlLinkDeallocator_ok [OF w(3)] by blast
  have "x \<in> dom (links h) \<or> x \<in> {brk h..<brk h'}" if "x \<in> dom (links h')" for x
    using h'(5,6) that by (cases "x = n") auto
  then have p: "heap_ok h' \<and> seqs h' = (seqs h)(a \<mapsto> (linkDeallocator l, linkCompare l, map (dat h') (us @ vs)))"
    using frame_heap_ok [OF w h'(2)] by blast
  have "n \<notin> set (us @ vs)" using w(3) by (auto simp: ring_def)
  then have "dat h' x = dat h x" if "x \<in> set (us @ vs)" for x using h'(6) that by metis
  then have e: "map (dat h') (us @ vs) = map (dat h) us @ map (dat h) vs" by simp
  have "headers h' = headers h" "ring h' (sentinel l) (us @ vs)" using h'(2) by (simp_all add: frame_def)
  then show ?thesis using h' p w(2) unfolding e puts_def list_at_def by (intro exI [of _ h']) simp
qed

section \<open>Searches\<close>

lemma lower_loop_ok:
  assumes "ring h (sentinel l) (us @ vs)"
  shows "lower_loop h l d (hd (vs @ [sentinel l])) =
    Some (hd (dropWhile (\<lambda>x. linkCompare l (dat h x) d < 0) vs @ [sentinel l]))"
  using assms
proof (induction vs arbitrary: us)
  case Nil
  then show ?case by (simp add: lower_loop.simps)
next
  case (Cons v vs)
  have r: "ring h (sentinel l) ((us @ [v]) @ vs)" using Cons.prems by simp
  obtain k where k: "links h v = Some k" "v \<noteq> sentinel l" using Cons.prems by (auto simp: ring_def)
  have "lnext k = hd (vs @ [sentinel l])" using ring_cutD(1) [OF r] k by simp
  then show ?case using k Cons.IH [OF r] by (simp add: lower_loop.simps [of h l d v])
qed

lemma higher_loop_ok:
  assumes "ring h (sentinel l) (us @ vs)"
  shows "higher_loop h l d (last (sentinel l # us)) =
    Some (last (sentinel l # rev (dropWhile (\<lambda>x. linkCompare l (dat h x) d > 0) (rev us))))"
  using assms
proof (induction us arbitrary: vs rule: rev_induct)
  case Nil
  then show ?case by (simp add: higher_loop.simps)
next
  case (snoc u us)
  have r: "ring h (sentinel l) (us @ u # vs)" using snoc.prems by simp
  obtain k where k: "links h u = Some k" "u \<noteq> sentinel l" using snoc.prems by (auto simp: ring_def)
  have "lprev k = last (sentinel l # us)" using ring_cutD(2) [OF r] k by simp
  then show ?case using k snoc.IH [OF r] by (simp add: higher_loop.simps [of h l d u])
qed

text \<open>Where the searches cut the list.\<close>

definition lower :: "'d lheap \<Rightarrow> 'd xmlList \<Rightarrow> 'd \<Rightarrow> nat list \<Rightarrow> nat list" where
  "lower h l d xs = takeWhile (\<lambda>x. linkCompare l (dat h x) d < 0) xs"

definition upper :: "'d lheap \<Rightarrow> 'd xmlList \<Rightarrow> 'd \<Rightarrow> nat list \<Rightarrow> nat list" where
  "upper h l d xs = dropWhile (\<lambda>x. linkCompare l (dat h x) d < 0) xs"

definition before :: "'d lheap \<Rightarrow> 'd xmlList \<Rightarrow> 'd \<Rightarrow> nat list \<Rightarrow> nat list" where
  "before h l d xs = rev (dropWhile (\<lambda>x. linkCompare l (dat h x) d > 0) (rev xs))"

definition after :: "'d lheap \<Rightarrow> 'd xmlList \<Rightarrow> 'd \<Rightarrow> nat list \<Rightarrow> nat list" where
  "after h l d xs = rev (takeWhile (\<lambda>x. linkCompare l (dat h x) d > 0) (rev xs))"

lemma cuts: "xs = lower h l d xs @ upper h l d xs" "xs = before h l d xs @ after h l d xs"
  by (simp_all add: lower_def upper_def before_def after_def flip: rev_append)

lemma cut_data:
  "map (dat h) (lower h l d xs) = takeWhile (\<lambda>x. linkCompare l x d < 0) (map (dat h) xs)"
  "map (dat h) (upper h l d xs) = dropWhile (\<lambda>x. linkCompare l x d < 0) (map (dat h) xs)"
  "map (dat h) (before h l d xs) = rev (dropWhile (\<lambda>x. linkCompare l x d > 0) (rev (map (dat h) xs)))"
  "map (dat h) (after h l d xs) = rev (takeWhile (\<lambda>x. linkCompare l x d > 0) (rev (map (dat h) xs)))"
  by (simp_all add: lower_def upper_def before_def after_def takeWhile_map dropWhile_map o_def rev_map)

lemma searches_ok:
  assumes "list_at h a l xs"
  shows "xmlListLowerSearch h (Ptr a) d = Some (Ptr (hd (upper h l d xs @ [sentinel l])))"
    "xmlListHigherSearch h (Ptr a) d = Some (Ptr (last (sentinel l # before h l d xs)))"
proof -
  obtain k where k: "links h (sentinel l) = Some k" "lnext k = hd (xs @ [sentinel l])" "lprev k = last (sentinel l # xs)"
    using assms by (rule at_sentinel)
  have r: "ring h (sentinel l) xs" "headers h a = Some l" using assms by (simp_all add: list_at_def)
  show "xmlListLowerSearch h (Ptr a) d = Some (Ptr (hd (upper h l d xs @ [sentinel l])))"
    using lower_loop_ok [of h l "[]" xs d] r k(1,2) by (simp add: xmlListLowerSearch_def upper_def)
  show "xmlListHigherSearch h (Ptr a) d = Some (Ptr (last (sentinel l # before h l d xs)))"
    using higher_loop_ok [of h l xs "[]" d] r k(1) unfolding k(3) [symmetric] by (simp add: xmlListHigherSearch_def before_def)
qed

definition ptr_of :: "'a option \<Rightarrow> 'a ptr" where
  "ptr_of x = (case x of None \<Rightarrow> NULL | Some y \<Rightarrow> Ptr y)"

text \<open>The link found by the searches, if any: the head of the upper part or the last of the lower.\<close>

lemma link_searches_ok:
  assumes "list_at h a l xs"
  shows "xmlListLinkSearch h (Ptr a) d = Some (case upper h l d xs of [] \<Rightarrow> NULL | n # _ \<Rightarrow> if linkCompare l (dat h n) d = 0 then Ptr n else NULL)"
    "xmlListLinkReverseSearch h (Ptr a) d =
      Some (case rev (before h l d xs) of [] \<Rightarrow> NULL | n # _ \<Rightarrow> if linkCompare l (dat h n) d = 0 then Ptr n else NULL)"
proof -
  have r: "ring h (sentinel l) xs" "headers h a = Some l" using assms by (simp_all add: list_at_def)
  have in_xs: "links h n = Some (the (links h n)) \<and> n \<noteq> sentinel l" if "n \<in> set xs" for n using r(1) that by (auto simp: ring_def)
  have u: "set (upper h l d xs) \<subseteq> set xs" "set (before h l d xs) \<subseteq> set xs" using cuts [of xs h l d] by (metis Un_upper2 set_append, metis Un_upper1 set_append)
  show "xmlListLinkSearch h (Ptr a) d = Some (case upper h l d xs of [] \<Rightarrow> NULL | n # _ \<Rightarrow> if linkCompare l (dat h n) d = 0 then Ptr n else NULL)"
  proof (cases "upper h l d xs")
    case Nil
    then show ?thesis using searches_ok(1) [OF assms, of d] r(2) by (simp add: xmlListLinkSearch_def link_equal_def)
  next
    case (Cons n ns)
    have n: "links h n = Some (the (links h n)) \<and> n \<noteq> sentinel l" using Cons u(1) by (intro in_xs) auto
    then show ?thesis using searches_ok(1) [OF assms, of d] r(2) Cons
      by (cases "links h n") (simp_all add: xmlListLinkSearch_def link_equal_def)
  qed
  show "xmlListLinkReverseSearch h (Ptr a) d =
      Some (case rev (before h l d xs) of [] \<Rightarrow> NULL | n # _ \<Rightarrow> if linkCompare l (dat h n) d = 0 then Ptr n else NULL)"
  proof (cases "before h l d xs" rule: rev_cases)
    case Nil
    then show ?thesis using searches_ok(2) [OF assms, of d] r(2) by (simp add: xmlListLinkReverseSearch_def link_equal_def)
  next
    case (snoc ns n)
    have n: "links h n = Some (the (links h n)) \<and> n \<noteq> sentinel l" using snoc u(2) by (intro in_xs) auto
    then show ?thesis using searches_ok(2) [OF assms, of d] r(2) snoc
      by (cases "links h n") (simp_all add: xmlListLinkReverseSearch_def link_equal_def)
  qed
qed

lemma xmlListInsert_ok:
  assumes "list_at h a l xs"
  shows "xmlListInsert False (Ptr a) d h = Some (1, h)"
    "\<exists>h'. xmlListInsert True (Ptr a) d h = Some (0, h') \<and> dealloc h' = dealloc h \<and> brk h' = Suc (brk h) \<and>
      puts h h' a l (insert_first (linkCompare l) d (map (dat h) xs)) \<and>
      list_at h' a l (lower h l d xs @ brk h # upper h l d xs) \<and> (\<forall>x. x \<noteq> brk h \<longrightarrow> dat h' x = dat h x) \<and>
      (\<forall>b m ys. b \<noteq> a \<longrightarrow> list_at h b m ys \<longrightarrow> list_at h' b m ys)"
proof -
  let ?us = "lower h l d xs" let ?vs = "upper h l d xs"
  have c: "list_at h a l (?us @ ?vs)" using assms cuts(1) [of xs h l d] by simp
  have r: "ring h (sentinel l) (?us @ ?vs)" using c by (simp add: list_at_def)
  obtain k where k: "links h (hd (?vs @ [sentinel l])) = Some k" "lprev k = last (sentinel l # ?us)"
    using ring_cutD(2,4) [OF r] by auto
  show "xmlListInsert False (Ptr a) d h = Some (1, h)" using searches_ok(1) [OF assms, of d] by (simp add: xmlListInsert_def)
  show "\<exists>h'. xmlListInsert True (Ptr a) d h = Some (0, h') \<and> dealloc h' = dealloc h \<and> brk h' = Suc (brk h) \<and>
      puts h h' a l (insert_first (linkCompare l) d (map (dat h) xs)) \<and>
      list_at h' a l (?us @ brk h # ?vs) \<and> (\<forall>x. x \<noteq> brk h \<longrightarrow> dat h' x = dat h x) \<and>
      (\<forall>b m ys. b \<noteq> a \<longrightarrow> list_at h b m ys \<longrightarrow> list_at h' b m ys)"
    using link_after_puts [OF c, of d] searches_ok(1) [OF assms, of d] k unfolding cut_data insert_first_def
    by (auto simp: xmlListInsert_def simp del: last.simps)
qed

lemma xmlListAppend_ok:
  assumes "list_at h a l xs"
  shows "xmlListAppend False (Ptr a) d h = Some (1, h)"
    "\<exists>h'. xmlListAppend True (Ptr a) d h = Some (0, h') \<and> dealloc h' = dealloc h \<and>
      puts h h' a l (insert_last (linkCompare l) d (map (dat h) xs))"
proof -
  let ?us = "before h l d xs" let ?vs = "after h l d xs"
  have c: "list_at h a l (?us @ ?vs)" using assms cuts(2) [of xs h l d] by simp
  show "xmlListAppend False (Ptr a) d h = Some (1, h)" using searches_ok(2) [OF assms, of d] by (simp add: xmlListAppend_def)
  have "insert_last (linkCompare l) d (map (dat h) xs) = map (dat h) ?us @ d # map (dat h) ?vs"
    unfolding cut_data by (simp add: insert_last_def)
  then show "\<exists>h'. xmlListAppend True (Ptr a) d h = Some (0, h') \<and> dealloc h' = dealloc h \<and>
      puts h h' a l (insert_last (linkCompare l) d (map (dat h) xs))"
    using link_after_puts [OF c, of d] searches_ok(2) [OF assms, of d]
    by (auto simp: xmlListAppend_def simp del: last.simps)
qed

lemma pushes_ok:
  assumes "list_at h a l xs"
  shows "xmlListPushFront False (Ptr a) d h = Some (0, h)" "xmlListPushBack False (Ptr a) d h = Some (0, h)"
    "\<exists>h'. xmlListPushFront True (Ptr a) d h = Some (1, h') \<and> dealloc h' = dealloc h \<and> puts h h' a l (d # map (dat h) xs)"
    "\<exists>h'. xmlListPushBack True (Ptr a) d h = Some (1, h') \<and> dealloc h' = dealloc h \<and> puts h h' a l (map (dat h) xs @ [d])"
proof -
  have a: "headers h a = Some l" using assms by (simp add: list_at_def)
  obtain k where k: "links h (sentinel l) = Some k" "lprev k = last (sentinel l # xs)" using assms by (rule at_sentinel)
  show "xmlListPushFront False (Ptr a) d h = Some (0, h)" "xmlListPushBack False (Ptr a) d h = Some (0, h)"
    using a k by (simp_all add: xmlListPushFront_def xmlListPushBack_def)
  show "\<exists>h'. xmlListPushFront True (Ptr a) d h = Some (1, h') \<and> dealloc h' = dealloc h \<and> puts h h' a l (d # map (dat h) xs)"
    using link_after_puts [of h a l "[]" xs d] assms a by (auto simp: xmlListPushFront_def)
  show "\<exists>h'. xmlListPushBack True (Ptr a) d h = Some (1, h') \<and> dealloc h' = dealloc h \<and> puts h h' a l (map (dat h) xs @ [d])"
    using link_after_puts [of h a l xs "[]" d] assms a k(1) unfolding k(2) [symmetric] by (auto simp: xmlListPushBack_def)
qed

section \<open>Removing\<close>

lemma remove_first_ok:
  assumes "list_at h a l xs"
  shows "\<exists>h' xs'. xmlListRemoveFirst (Ptr a) d h =
      Some (if find_first (linkCompare l) d (map (dat h) xs) = None then 0 else 1, h') \<and>
    puts h h' a l (remove_first (linkCompare l) d (map (dat h) xs)) \<and> list_at h' a l xs' \<and>
    map (dat h') xs' = remove_first (linkCompare l) d (map (dat h) xs) \<and>
    dealloc h' = dealloc h @ (case find_first (linkCompare l) d (map (dat h) xs) of None \<Rightarrow> [] | Some x \<Rightarrow> if linkDeallocator l then [x] else [])"
proof -
  let ?us = "lower h l d xs" let ?vs = "upper h l d xs"
  have a: "headers h a = Some l" using assms by (simp add: list_at_def)
  have ff: "find_first (linkCompare l) d (map (dat h) xs) = equal_head (linkCompare l) d (map (dat h) ?vs)"
    by (simp add: find_first_def cut_data)
  note S = link_searches_ok(1) [OF assms, of d]
  consider (none) "?vs = []" | (other) n ns where "?vs = n # ns" "linkCompare l (dat h n) d \<noteq> 0"
    | (found) n ns where "?vs = n # ns" "linkCompare l (dat h n) d = 0" by (cases ?vs) auto
  then show ?thesis
  proof cases
    case found
    have c: "list_at h a l (?us @ n # ns)" using assms cuts(1) [of xs h l d] found(1) by simp
    obtain h' where h': "xmlLinkDeallocator l n h = Some h'"
      "dealloc h' = dealloc h @ (if linkDeallocator l then [dat h n] else [])"
      "puts h h' a l (map (dat h) ?us @ map (dat h) ns)" "list_at h' a l (?us @ ns)" "\<forall>x. x \<noteq> n \<longrightarrow> dat h' x = dat h x"
      using dealloc_puts [OF c] by blast
    have "tl (dropWhile (\<lambda>x. linkCompare l x d < 0) (map (dat h) xs)) = map (dat h) ns"
      unfolding cut_data(2) [symmetric] found(1) by simp
    moreover have "find_first (linkCompare l) d (map (dat h) xs) = Some (dat h n)" unfolding ff found(1) using found(2) by (simp add: equal_head_def)
    ultimately have e: "remove_first (linkCompare l) d (map (dat h) xs) = map (dat h) (?us @ ns)" "find_first (linkCompare l) d (map (dat h) xs) = Some (dat h n)"
      by (simp_all add: remove_first_def cut_data)
    have "n \<notin> set (?us @ ns)" using c by (auto simp: list_at_def ring_def)
    then have "dat h' x = dat h x" if "x \<in> set (?us @ ns)" for x using h'(5) that by metis
    then have e2: "map (dat h') (?us @ ns) = map (dat h) (?us @ ns)" by (intro map_cong) simp_all
    have "xmlListRemoveFirst (Ptr a) d h = Some (1, h')" using S found a h'(1) by (simp add: xmlListRemoveFirst_def remove_found_def)
    then show ?thesis using h'(2-4) e e2 by (intro exI [of _ h'] exI [of _ "?us @ ns"]) simp
  next
    case none
    then have f: "find_first (linkCompare l) d (map (dat h) xs) = None" unfolding ff by (simp add: equal_head_def)
    have "xmlListRemoveFirst (Ptr a) d h = Some (0, h)" using S none a by (simp add: xmlListRemoveFirst_def remove_found_def)
    then show ?thesis using puts_refl [OF assms] assms f by (intro exI [of _ h] exI [of _ xs]) (simp add: remove_first_def)
  next
    case other
    then have f: "find_first (linkCompare l) d (map (dat h) xs) = None" unfolding ff by (simp add: equal_head_def)
    have "xmlListRemoveFirst (Ptr a) d h = Some (0, h)" using S other a by (simp add: xmlListRemoveFirst_def remove_found_def)
    then show ?thesis using puts_refl [OF assms] assms f by (intro exI [of _ h] exI [of _ xs]) (simp add: remove_first_def)
  qed
qed

lemma remove_last_ok:
  assumes "list_at h a l xs"
  shows "\<exists>h'. xmlListRemoveLast (Ptr a) d h =
      Some (if find_last (linkCompare l) d (map (dat h) xs) = None then 0 else 1, h') \<and>
    puts h h' a l (remove_last (linkCompare l) d (map (dat h) xs)) \<and>
    dealloc h' = dealloc h @ (case find_last (linkCompare l) d (map (dat h) xs) of None \<Rightarrow> [] | Some x \<Rightarrow> if linkDeallocator l then [x] else [])"
proof -
  let ?us = "before h l d xs" let ?vs = "after h l d xs"
  have a: "headers h a = Some l" using assms by (simp add: list_at_def)
  have dw: "dropWhile (\<lambda>x. linkCompare l x d > 0) (rev (map (dat h) xs)) = rev (map (dat h) ?us)"
    "takeWhile (\<lambda>x. linkCompare l x d > 0) (rev (map (dat h) xs)) = rev (map (dat h) ?vs)" unfolding cut_data by simp_all
  have ff: "find_last (linkCompare l) d (map (dat h) xs) = equal_head (linkCompare l) d (rev (map (dat h) ?us))"
    unfolding find_last_def dw ..
  note S = link_searches_ok(2) [OF assms, of d]
  consider (none) "?us = []" | (other) n ns where "?us = ns @ [n]" "linkCompare l (dat h n) d \<noteq> 0"
    | (found) n ns where "?us = ns @ [n]" "linkCompare l (dat h n) d = 0" by (cases ?us rule: rev_cases) auto
  then show ?thesis
  proof cases
    case found
    have c: "list_at h a l (ns @ n # ?vs)" using assms cuts(2) [of xs h l d] found(1) by simp
    obtain h' where h': "xmlLinkDeallocator l n h = Some h'"
      "dealloc h' = dealloc h @ (if linkDeallocator l then [dat h n] else [])"
      "puts h h' a l (map (dat h) ns @ map (dat h) ?vs)" using dealloc_puts [OF c] by blast
    have f: "find_last (linkCompare l) d (map (dat h) xs) = Some (dat h n)" unfolding ff found(1) using found(2) by (simp add: equal_head_def)
    have "remove_last (linkCompare l) d (map (dat h) xs) = map (dat h) ns @ map (dat h) ?vs"
      unfolding remove_last_def dw using f found(1) by simp
    moreover have "xmlListRemoveLast (Ptr a) d h = Some (1, h')" using S found a h'(1) by (simp add: xmlListRemoveLast_def remove_found_def)
    ultimately show ?thesis using h'(2,3) f by simp
  next
    case none
    then have f: "find_last (linkCompare l) d (map (dat h) xs) = None" unfolding ff by (simp add: equal_head_def)
    have "xmlListRemoveLast (Ptr a) d h = Some (0, h)" using S none a by (simp add: xmlListRemoveLast_def remove_found_def)
    then show ?thesis using puts_refl [OF assms] f by (simp add: remove_last_def)
  next
    case other
    then have f: "find_last (linkCompare l) d (map (dat h) xs) = None" unfolding ff by (simp add: equal_head_def)
    have "xmlListRemoveLast (Ptr a) d h = Some (0, h)" using S other a by (simp add: xmlListRemoveLast_def remove_found_def)
    then show ?thesis using puts_refl [OF assms] f by (simp add: remove_last_def)
  qed
qed

lemma empty_ok:
  assumes "list_at h a l xs"
  shows "xmlListEmpty h (Ptr a) = Some (of_bool (xs = []))"
proof -
  obtain k where k: "links h (sentinel l) = Some k" "lnext k = hd (xs @ [sentinel l])" using assms by (rule at_sentinel)
  have "sentinel l \<notin> set xs" using assms by (simp add: list_at_def ring_def)
  then have "hd (xs @ [sentinel l]) = sentinel l \<longleftrightarrow> xs = []" by (cases xs) auto
  then show ?thesis using k assms by (simp add: xmlListEmpty_def list_at_def)
qed

lemma pops_ok:
  assumes "list_at h a l xs"
  shows "\<exists>h'. xmlListPopFront (Ptr a) h = Some h' \<and> puts h h' a l (tl (map (dat h) xs)) \<and>
      dealloc h' = dealloc h @ (if linkDeallocator l then take 1 (map (dat h) xs) else [])"
    "\<exists>h'. xmlListPopBack (Ptr a) h = Some h' \<and> puts h h' a l (butlast (map (dat h) xs)) \<and>
      dealloc h' = dealloc h @ (if linkDeallocator l then take 1 (rev (map (dat h) xs)) else [])"
proof -
  have a: "headers h a = Some l" using assms by (simp add: list_at_def)
  obtain k where k: "links h (sentinel l) = Some k" "lnext k = hd (xs @ [sentinel l])" "lprev k = last (sentinel l # xs)"
    using assms by (rule at_sentinel)
  show "\<exists>h'. xmlListPopFront (Ptr a) h = Some h' \<and> puts h h' a l (tl (map (dat h) xs)) \<and>
      dealloc h' = dealloc h @ (if linkDeallocator l then take 1 (map (dat h) xs) else [])"
  proof (cases xs)
    case Nil
    then show ?thesis using empty_ok [OF assms] puts_refl [OF assms] by (simp add: xmlListPopFront_def)
  next
    case (Cons n ns)
    then show ?thesis using empty_ok [OF assms] dealloc_puts [of h a l "[]" n ns] assms a k(1,2) by (auto simp: xmlListPopFront_def)
  qed
  show "\<exists>h'. xmlListPopBack (Ptr a) h = Some h' \<and> puts h h' a l (butlast (map (dat h) xs)) \<and>
      dealloc h' = dealloc h @ (if linkDeallocator l then take 1 (rev (map (dat h) xs)) else [])"
  proof (cases xs rule: rev_cases)
    case Nil
    then show ?thesis using empty_ok [OF assms] puts_refl [OF assms] by (simp add: xmlListPopBack_def)
  next
    case (snoc ns n)
    then show ?thesis using empty_ok [OF assms] dealloc_puts [of h a l ns n "[]"] assms a k(1,3) by (auto simp: xmlListPopBack_def)
  qed
qed

lemma puts_trans: "puts h h1 a l ds \<Longrightarrow> puts h1 h2 a l es \<Longrightarrow> puts h h2 a l es"
  by (simp add: puts_def)

lemma clear_loop_ok:
  assumes "list_at h a l xs"
  shows "\<exists>h'. clear_loop l (hd (xs @ [sentinel l])) h = Some h' \<and> puts h h' a l [] \<and> list_at h' a l [] \<and>
    dealloc h' = dealloc h @ (if linkDeallocator l then map (dat h) xs else [])"
  using assms
proof (induction xs arbitrary: h)
  case Nil
  then show ?case using puts_refl [OF Nil] by (simp add: clear_loop.simps)
next
  case (Cons n ns)
  have r: "ring h (sentinel l) ([n] @ ns)" "n \<noteq> sentinel l" "n \<notin> set ns" using Cons.prems by (auto simp: list_at_def ring_def)
  have nxt: "nx h n = hd (ns @ [sentinel l])" "n \<in> dom (links h)" using ring_cutD(1,3) [OF r(1)] by simp_all
  obtain h1 where h1: "xmlLinkDeallocator l n h = Some h1" "dealloc h1 = dealloc h @ (if linkDeallocator l then [dat h n] else [])"
    "puts h h1 a l (map (dat h) ns)" "list_at h1 a l ns" "\<forall>x. x \<noteq> n \<longrightarrow> dat h1 x = dat h x"
    using dealloc_puts [of h a l "[]" n ns] Cons.prems by auto
  obtain h' where h': "clear_loop l (hd (ns @ [sentinel l])) h1 = Some h'" "puts h1 h' a l []" "list_at h' a l []"
    "dealloc h' = dealloc h1 @ (if linkDeallocator l then map (dat h1) ns else [])" using Cons.IH [OF h1(4)] by blast
  have "dat h1 x = dat h x" if "x \<in> set ns" for x using h1(5) that r(3) by metis
  then have "map (dat h1) ns = map (dat h) ns" by simp
  then have "dealloc h' = dealloc h @ (if linkDeallocator l then map (dat h) (n # ns) else [])" using h'(4) h1(2) by simp
  moreover have "clear_loop l n h = Some h'" using nxt r(2) h1(1) h'(1) by (subst clear_loop.simps) auto
  ultimately show ?case using puts_trans [OF h1(3) h'(2)] h'(3) by simp
qed

lemma clear_ok:
  assumes "list_at h a l xs"
  shows "\<exists>h'. xmlListClear (Ptr a) h = Some h' \<and> puts h h' a l [] \<and> list_at h' a l [] \<and>
    dealloc h' = dealloc h @ (if linkDeallocator l then map (dat h) xs else [])"
proof -
  obtain k where k: "links h (sentinel l) = Some k" "lnext k = hd (xs @ [sentinel l])" using assms by (rule at_sentinel)
  then show ?thesis using clear_loop_ok [OF assms] assms by (simp add: xmlListClear_def list_at_def)
qed

section \<open>Searching, creating and deleting\<close>

lemma search_ok:
  assumes "list_at h a l xs"
  shows "xmlListSearch h (Ptr a) d = Some (ptr_of (find_first (linkCompare l) d (map (dat h) xs)))"
    "xmlListReverseSearch h (Ptr a) d = Some (ptr_of (find_last (linkCompare l) d (map (dat h) xs)))"
proof -
  have in_xs: "\<exists>k. links h n = Some k" if "n \<in> set xs" for n using assms that by (auto simp: list_at_def ring_def)
  have u: "set (upper h l d xs) \<subseteq> set xs" "set (before h l d xs) \<subseteq> set xs" using cuts [of xs h l d] by (metis Un_upper2 set_append, metis Un_upper1 set_append)
  have 1: "find_first (linkCompare l) d (map (dat h) xs) = equal_head (linkCompare l) d (map (dat h) (upper h l d xs))"
    by (simp add: find_first_def cut_data)
  have 2: "find_last (linkCompare l) d (map (dat h) xs) = equal_head (linkCompare l) d (map (dat h) (rev (before h l d xs)))"
    unfolding rev_map [symmetric] cut_data find_last_def by simp
  show "xmlListSearch h (Ptr a) d = Some (ptr_of (find_first (linkCompare l) d (map (dat h) xs)))"
    unfolding 1 using link_searches_ok(1) [OF assms, of d] u(1) in_xs [of "hd (upper h l d xs)"]
    by (cases "upper h l d xs") (auto simp: xmlListSearch_def equal_head_def ptr_of_def xmlLinkGetData_def)
  show "xmlListReverseSearch h (Ptr a) d = Some (ptr_of (find_last (linkCompare l) d (map (dat h) xs)))"
    unfolding 2 using link_searches_ok(2) [OF assms, of d] u(2) in_xs [of "last (before h l d xs)"]
    by (cases "before h l d xs" rule: rev_cases) (auto simp: xmlListReverseSearch_def equal_head_def ptr_of_def xmlLinkGetData_def)
qed

lemma delete_ok:
  assumes "list_at h a l xs"
  shows "\<exists>h'. xmlListDelete (Ptr a) h = Some h' \<and> heap_ok h' \<and> seqs h' = (seqs h)(a := None) \<and>
    dealloc h' = dealloc h @ (if linkDeallocator l then map (dat h) xs else [])"
proof -
  obtain h1 where h1: "xmlListClear (Ptr a) h = Some h1" "puts h h1 a l []" "list_at h1 a l []"
    "dealloc h1 = dealloc h @ (if linkDeallocator l then map (dat h) xs else [])" using clear_ok [OF assms] by blast
  let ?s = "sentinel l"
  have w: "heap_ok h1" "headers h1 a = Some l" "ring h1 ?s []" using h1(3) by (simp_all add: list_at_def)
  then obtain k where k: "links h1 ?s = Some k" by (auto simp: ring_def)
  let ?h = "h1\<lparr>links := (links h1)(?s := None), headers := (headers h1)(a := None)\<rparr>"
  have d: "xmlListDelete (Ptr a) h = Some ?h" using h1(1) w(2) k by (simp add: xmlListDelete_def free_link_def)
  have nin: "?s \<notin> set (sentinel m # ys)" if "headers h1 b = Some m" "b \<noteq> a" "ring h1 (sentinel m) ys" for b m ys
    using w that unfolding heap_ok_def by (metis disjoint_iff list.set_intros(1))
  have same: "\<forall>x \<in> set (sentinel m # ys). links ?h x = links h1 x" if "headers h1 b = Some m" "b \<noteq> a" "ring h1 (sentinel m) ys" for b m ys
    using nin [OF that] by auto
  have keep: "ring ?h (sentinel m) ys" if "headers h1 b = Some m" "b \<noteq> a" "ring h1 (sentinel m) ys" for b m ys
    using same [OF that] that(3) by (rule ring_cong)
  have rings: "\<exists>ys. ring h1 (sentinel m) ys" if "headers h1 b = Some m" for b m using w that by (auto simp: heap_ok_def)
  have bk: "ring h1 (sentinel m) ys" if "headers h1 b = Some m" "b \<noteq> a" "ring ?h (sentinel m) ys" for b m ys
    using rings [OF that(1)] keep [OF that(1,2)] ring_unique that(3) by metis
  have W: "heap_ok ?h"
    unfolding heap_ok_def
  proof (intro conjI allI impI)
    show "\<forall>x \<in> dom (links ?h) \<union> dom (headers ?h). x < brk ?h" using w(1) by (auto simp: heap_ok_def split: if_splits)
    fix b m assume "headers ?h b = Some m"
    then show "\<exists>ys. ring ?h (sentinel m) ys" using keep rings by (metis fun_upd_apply lheap.select_convs(2) lheap.surjective lheap.update_convs(2) option.distinct(1))
  next
    fix b c m p ys zs
    assume bc: "headers ?h b = Some m" "headers ?h c = Some p" "b \<noteq> c" "ring ?h (sentinel m) ys" "ring ?h (sentinel p) zs"
    then have "headers h1 b = Some m" "headers h1 c = Some p" "b \<noteq> a" "c \<noteq> a" by (auto split: if_splits)
    moreover from this have "ring h1 (sentinel m) ys" "ring h1 (sentinel p) zs" using bk bc(4,5) by blast+
    ultimately show "set (sentinel m # ys) \<inter> set (sentinel p # zs) = {}" using w(1) bc(3) unfolding heap_ok_def by metis
  qed
  have "seqs ?h b = ((seqs h1)(a := None)) b" for b
  proof (cases "b = a \<or> headers h1 b = None")
    case True
    then show ?thesis by (auto simp: seqs_def)
  next
    case False
    then obtain m where m: "headers h1 b = Some m" "b \<noteq> a" by auto
    obtain ys where ys: "ring h1 (sentinel m) ys" using rings [OF m(1)] by blast
    have "nodes ?h (sentinel m) = ys" "nodes h1 (sentinel m) = ys"
      using ring_nodes [OF W keep [OF m ys]] ring_nodes [OF w(1) ys] by simp_all
    moreover have "map (dat ?h) ys = map (dat h1) ys" using same [OF m ys] by simp
    ultimately show ?thesis using m by (simp add: seqs_def)
  qed
  then have "seqs ?h = (seqs h)(a := None)" using h1(2) by (auto simp: puts_def)
  then show ?thesis using d W h1(4) by (intro exI [of _ ?h]) simp
qed

lemma list_create_ok:
  assumes "heap_ok h"
  shows "\<exists>h'. xmlListCreate ok f cp d h = (if ok 0 \<and> ok 1 then Ptr (brk h) else NULL, h') \<and> heap_ok h' \<and> dealloc h' = dealloc h \<and>
    seqs h (brk h) = None \<and>
    seqs h' = (if ok 0 \<and> ok 1 then (seqs h)(brk h \<mapsto> (f, case cp of NULL \<Rightarrow> xmlLinkCompare | Ptr c \<Rightarrow> c, [])) else seqs h)"
proof -
  let ?a = "brk h" let ?s = "Suc (brk h)"
  note fresh = heap_fresh [OF assms]
  have na: "seqs h ?a = None" using fresh by (simp add: seqs_def)
  have lt: "x < brk h" if "x \<in> dom (links h) \<union> dom (headers h)" for x using assms that unfolding heap_ok_def by blast
  have rings: "\<exists>ys. ring h (sentinel m) ys" if "headers h b = Some m" for b m using assms that by (auto simp: heap_ok_def)
  let ?c = "case cp of NULL \<Rightarrow> xmlLinkCompare | Ptr c \<Rightarrow> c"
  let ?l = "\<lparr>sentinel = ?s, linkDeallocator = f, linkCompare = ?c\<rparr>"
  let ?h1 = "h\<lparr>brk := brk h + 1\<rparr>"
  let ?h2 = "h\<lparr>links := (links h)(?s \<mapsto> \<lparr>lnext = ?s, lprev = ?s, ldata = d\<rparr>), brk := Suc ?s, headers := (headers h)(?a \<mapsto> ?l)\<rparr>"
  have r1: "ring ?h1 x ys \<longleftrightarrow> ring h x ys" for x ys using ring_cong [of x ys ?h1 h] ring_cong [of x ys h ?h1] by auto
  have W1: "heap_ok ?h1" using assms lt unfolding heap_ok_def r1 by (auto simp: less_Suc_eq)
  have q1: "seqs ?h1 = seqs h"
  proof
    fix b show "seqs ?h1 b = seqs h b"
    proof (cases "headers h b")
      case (Some m)
      obtain ys where ys: "ring h (sentinel m) ys" using rings [OF Some] by blast
      have "ring ?h1 (sentinel m) ys" using ys by (simp only: r1)
      then have "nodes ?h1 (sentinel m) = ys" "nodes h (sentinel m) = ys" using ring_nodes [OF W1] ring_nodes [OF assms ys] by blast+
      then show ?thesis using Some by (simp add: seqs_def)
    qed (simp add: seqs_def)
  qed
  have same: "links ?h2 x = links h x" if "x \<in> dom (links h)" for x using lt [of x] that by auto
  have ss: "set (x # ys) \<subseteq> dom (links h)" if "ring h x ys" for x ys using that by (simp add: ring_def)
  have keep: "ring ?h2 x ys" if "ring h x ys" for x ys
    using that by (intro ring_cong [of x ys ?h2 h]) (use same ss [OF that] in blast)+
  have rs: "ring ?h2 ?s ys \<longleftrightarrow> ys = []" for ys
  proof -
    have "ring ?h2 ?s []" by (simp add: ring_def)
    then show ?thesis using ring_unique by metis
  qed
  have bk: "ring h (sentinel m) ys" if "headers h b = Some m" "ring ?h2 (sentinel m) ys" for b m ys
    using rings [OF that(1)] keep ring_unique that(2) by metis
  have hd2: "headers ?h2 b = Some m \<longleftrightarrow> (if b = ?a then m = ?l else headers h b = Some m)" for b m by auto
  have W2: "heap_ok ?h2"
    unfolding heap_ok_def
  proof (intro conjI allI impI)
    show "\<forall>x \<in> dom (links ?h2) \<union> dom (headers ?h2). x < brk ?h2"
    proof
      fix x assume "x \<in> dom (links ?h2) \<union> dom (headers ?h2)"
      then have "x = ?s \<or> x = ?a \<or> x \<in> dom (links h) \<union> dom (headers h)" by auto
      then show "x < brk ?h2" using lt [of x] by (elim disjE) (simp_all add: less_SucI)
    qed
    fix b m assume "headers ?h2 b = Some m"
    then show "\<exists>ys. ring ?h2 (sentinel m) ys" unfolding hd2 using keep rings rs by (cases "b = ?a") (auto, blast)
  next
    have sep: "set (sentinel ?l # ys) \<inter> set (sentinel p # zs) = {}"
      if "headers h c = Some p" "ring ?h2 (sentinel ?l) ys" "ring ?h2 (sentinel p) zs" for c p ys zs
    proof -
      have "set (sentinel p # zs) \<subseteq> dom (links h)" using bk [OF that(1,3)] by (simp add: ring_def)
      then have "x < brk h" if "x \<in> set (sentinel p # zs)" for x using lt [of x] that by (meson UnI1 subsetD)
      then have "?s \<notin> set (sentinel p # zs)" by (metis Suc_n_not_le_n less_imp_le_nat)
      then show ?thesis using that(2) rs by auto
    qed
    fix b c m p ys zs
    assume bc: "headers ?h2 b = Some m" "headers ?h2 c = Some p" "b \<noteq> c" "ring ?h2 (sentinel m) ys" "ring ?h2 (sentinel p) zs"
    consider "b = ?a" | "c = ?a" | "b \<noteq> ?a" "c \<noteq> ?a" by blast
    then show "set (sentinel m # ys) \<inter> set (sentinel p # zs) = {}"
    proof cases
      case 1
      then show ?thesis using bc sep [of c p ys zs] unfolding hd2 by (simp only: if_True if_False simp_thms not_sym)
    next
      case 2
      then show ?thesis using bc sep [of b m zs ys] unfolding hd2 by (simp only: if_True if_False simp_thms not_sym Int_commute)
    next
      case 3
      then have "headers h b = Some m" "headers h c = Some p" using bc(1,2) unfolding hd2 by simp_all
      then show ?thesis using bk bc assms unfolding heap_ok_def by metis
    qed
  qed
  have q2: "seqs ?h2 = (seqs h)(?a \<mapsto> (f, ?c, []))"
  proof
    fix b show "seqs ?h2 b = ((seqs h)(?a \<mapsto> (f, ?c, []))) b"
    proof (cases "b = ?a \<or> headers h b = None")
      case True
      have "nodes ?h2 ?s = []" using ring_nodes [OF W2] rs by blast
      then show ?thesis using True by (auto simp: seqs_def)
    next
      case False
      then obtain m where m: "headers h b = Some m" "b \<noteq> ?a" by auto
      obtain ys where ys: "ring h (sentinel m) ys" using rings [OF m(1)] by blast
      have "nodes ?h2 (sentinel m) = ys" "nodes h (sentinel m) = ys" using ring_nodes [OF W2 keep [OF ys]] ring_nodes [OF assms ys] by simp_all
      moreover have "dat ?h2 x = dat h x" if "x \<in> set ys" for x
        using same [of x] subsetD [OF ss [OF ys], of x] that by (simp only: list.set insert_iff simp_thms)
      then have "map (dat ?h2) ys = map (dat h) ys" by (simp only: map_eq_conv) blast
      ultimately show ?thesis using m by (simp add: seqs_def)
    qed
  qed
  show ?thesis using assms W1 W2 q1 q2 na by (auto simp: xmlListCreate_def new_link_def Let_def)
qed

section \<open>Reversing\<close>

text \<open>The links in \<open>A\<close> have their two pointers exchanged.\<close>

definition swap_links :: "'d lheap \<Rightarrow> nat set \<Rightarrow> 'd lheap" where
  "swap_links h A = h\<lparr>links := (\<lambda>x. if x \<in> A then map_option (\<lambda>k. k\<lparr>lnext := lprev k, lprev := lnext k\<rparr>) (links h x) else links h x)\<rparr>"

lemma swap_links_simps [simp]:
  "swap_links h {} = h" "headers (swap_links h A) = headers h" "brk (swap_links h A) = brk h"
  "dealloc (swap_links h A) = dealloc h" "dom (links (swap_links h A)) = dom (links h)"
  by (auto simp: swap_links_def dom_def split: if_splits)

lemma swap_links_at:
  "x \<in> dom (links h) \<Longrightarrow> nx (swap_links h A) x = (if x \<in> A then pv h x else nx h x)"
  "x \<in> dom (links h) \<Longrightarrow> pv (swap_links h A) x = (if x \<in> A then nx h x else pv h x)"
  "x \<in> dom (links h) \<Longrightarrow> dat (swap_links h A) x = dat h x"
  "x \<notin> A \<Longrightarrow> links (swap_links h A) x = links h x"
  by (auto simp: swap_links_def)

lemma swap_one:
  assumes "x \<in> dom (links h)" "x \<notin> A"
  shows "\<exists>k h1. links (swap_links h A) x = Some k \<and> set_next x (lprev k) (swap_links h A) = Some h1 \<and>
    set_prev x (nx h x) h1 = Some (swap_links h (insert x A))"
proof -
  obtain k where k: "links h x = Some k" using assms(1) by blast
  let ?h = "swap_links h A"
  have lk: "links ?h x = Some k" using swap_links_at(4) [OF assms(2), of h] k by simp
  let ?h1 = "?h\<lparr>links := (links ?h)(x \<mapsto> k\<lparr>lnext := lprev k\<rparr>)\<rparr>"
  have 1: "set_next x (lprev k) ?h = Some ?h1" using lk by (simp add: set_next_def)
  have e: "nx h x = lnext k" using k by simp
  have "set_prev x (lnext k) ?h1 = Some (?h\<lparr>links := (links ?h)(x \<mapsto> k\<lparr>lnext := lprev k, lprev := lnext k\<rparr>)\<rparr>)"
    by (simp add: set_prev_def)
  also have "?h\<lparr>links := (links ?h)(x \<mapsto> k\<lparr>lnext := lprev k, lprev := lnext k\<rparr>)\<rparr> = swap_links h (insert x A)"
    using k assms(2) by (auto simp: swap_links_def fun_eq_iff)
  finally show ?thesis using lk 1 unfolding e by blast
qed

lemma reverse_loop_ok:
  assumes "ring h s (us @ vs)"
  shows "reverse_loop s (last (s # us)) (hd (vs @ [s])) (swap_links h (set (butlast (s # us)))) =
    Some (last (s # us @ vs), s, swap_links h (set (butlast (s # us @ vs))))"
  using assms
proof (induction vs arbitrary: us)
  case Nil
  then show ?case by (simp add: reverse_loop.simps)
next
  case (Cons v vs)
  let ?x = "last (s # us)" let ?A = "set (butlast (s # us))"
  have r: "ring h s ((us @ [v]) @ vs)" using Cons.prems by simp
  have ds: "distinct (s # us @ v # vs)" "v \<in> dom (links h)" using Cons.prems by (auto simp: ring_def)
  have "distinct (butlast (s # us) @ [?x])" unfolding append_butlast_last_id [OF list.discI [OF refl]] using ds(1) by simp
  then have x: "?x \<notin> ?A" "insert ?x ?A = set (s # us)"
    using arg_cong [OF append_butlast_last_id [of "s # us"], of set] by auto
  note c = ring_cutD [OF Cons.prems]
  have nxx: "nx h ?x = v" using c(1) by simp
  obtain k h1 where k: "links (swap_links h ?A) ?x = Some k" "set_next ?x (lprev k) (swap_links h ?A) = Some h1"
    "set_prev ?x v h1 = Some (swap_links h (set (s # us)))"
    using swap_one [OF c(3) x(1)] unfolding nxx x(2) by blast
  have "v \<notin> set (s # us)" using ds(1) by auto
  from swap_links_at(4) [OF this, of h] obtain kv where kv: "links (swap_links h (set (s # us))) v = Some kv" "links h v = Some kv" using ds(2) by auto
  have "lnext kv = hd (vs @ [s])" using ring_cutD(1) [OF r] kv(2) by simp
  moreover have "last (s # us @ [v]) = v" "butlast (s # us @ [v]) = s # us" by (simp_all add: butlast_append)
  moreover have "v \<noteq> s" using ds(1) by auto
  ultimately show ?case using Cons.IH [OF r] k kv(1) by (simp add: reverse_loop.simps [of s "last _" v] del: last.simps butlast.simps)
qed

lemma ring_swap:
  assumes "ring h s xs"
  shows "ring (swap_links h (set (s # xs))) s (rev xs)"
proof -
  let ?h = "swap_links h (set (s # xs))"
  have d: "set (s # xs) \<subseteq> dom (links h)" using assms by (simp add: ring_def)
  have "map (nx ?h) (s # rev xs) = map (pv h) (s # rev xs)" "map (pv ?h) (rev xs @ [s]) = map (nx h) (rev xs @ [s])"
    by (intro map_cong refl; use d in \<open>auto simp: swap_links_at(1,2) subset_iff\<close>)+
  moreover have "map (pv h) (s # rev xs) = rev (map (pv h) (xs @ [s]))" "map (nx h) (rev xs @ [s]) = rev (map (nx h) (s # xs))"
    by (simp_all add: rev_map)
  moreover have "rev (map (pv h) (xs @ [s])) = rev xs @ [s]" "rev (map (nx h) (s # xs)) = s # rev xs"
    using assms unfolding ring_def by (metis rev.simps(2), metis rev_append rev_singleton_conv append_Cons append_Nil)
  ultimately have "map (nx ?h) (s # rev xs) = rev xs @ [s]" "map (pv ?h) (rev xs @ [s]) = s # rev xs" by (simp_all only:)
  then show ?thesis using assms unfolding ring_def by simp
qed

lemma reverse_ok:
  assumes "list_at h a l xs"
  shows "\<exists>h'. xmlListReverse (Ptr a) h = Some h' \<and> puts h h' a l (rev (map (dat h) xs)) \<and> dealloc h' = dealloc h"
proof -
  let ?s = "sentinel l" let ?x = "last (sentinel l # xs)"
  let ?h' = "swap_links h (set (?s # xs))"
  have w: "heap_ok h" "headers h a = Some l" "ring h ?s xs" using assms by (simp_all add: list_at_def)
  obtain k where k: "links h ?s = Some k" "lnext k = hd (xs @ [?s])" using assms by (rule at_sentinel)
  have loop: "reverse_loop ?s ?s (lnext k) h = Some (?x, ?s, swap_links h (set (butlast (?s # xs))))"
    using reverse_loop_ok [of h ?s "[]" xs] w(3) unfolding k(2) by simp
  have "distinct (butlast (?s # xs) @ [?x])" unfolding append_butlast_last_id [OF list.discI [OF refl]] using w(3) by (simp add: ring_def)
  then have x: "?x \<notin> set (butlast (?s # xs))" "insert ?x (set (butlast (?s # xs))) = set (?s # xs)"
    using arg_cong [OF append_butlast_last_id [of "?s # xs"], of set] by auto
  have c: "nx h ?x = ?s" "?x \<in> dom (links h)" using ring_cutD(1,3) [of h ?s xs "[]"] w(3) by simp_all
  obtain kx h1 where "links (swap_links h (set (butlast (?s # xs)))) ?x = Some kx"
    "set_next ?x (lprev kx) (swap_links h (set (butlast (?s # xs)))) = Some h1" "set_prev ?x ?s h1 = Some ?h'"
    using swap_one [OF c(2) x(1)] unfolding c(1) x(2) by blast
  then have 1: "xmlListReverse (Ptr a) h = Some ?h'" using w(2) k(1) loop by (simp add: xmlListReverse_def del: last.simps butlast.simps)
  have f: "frame ?s xs (rev xs) h ?h'" using ring_swap [OF w(3)] by (auto simp: frame_def swap_links_at(4))
  have "\<forall>x. x \<in> dom (links ?h') \<longrightarrow> x \<in> dom (links h) \<or> x \<in> {brk h..<brk ?h'}" by simp
  from frame_heap_ok [OF w f this] have 2: "heap_ok ?h'" "seqs ?h' = (seqs h)(a \<mapsto> (linkDeallocator l, linkCompare l, map (dat ?h') (rev xs)))" by blast+
  have "map (dat ?h') (rev xs) = map (dat h) (rev xs)"
    by (intro map_cong refl) (use w(3) in \<open>auto simp: ring_def subset_iff swap_links_at(3)\<close>)
  then show ?thesis using 1 2 by (intro exI [of _ ?h']) (simp only: puts_def rev_map swap_links_simps simp_thms)
qed

section \<open>Counting and walking\<close>

lemma size_loop_ok:
  assumes "ring h s (us @ vs)"
  shows "size_loop h s (hd (vs @ [s])) n = (if vs = [] \<or> n + int (length vs) \<le> INT_MAX then Some (n + int (length vs)) else None)"
  using assms
proof (induction vs arbitrary: us n)
  case Nil
  then show ?case by (simp add: size_loop.simps)
next
  case (Cons v vs)
  have r: "ring h s ((us @ [v]) @ vs)" using Cons.prems by simp
  obtain k where k: "links h v = Some k" "v \<noteq> s" using Cons.prems by (auto simp: ring_def)
  have "lnext k = hd (vs @ [s])" using ring_cutD(1) [OF r] k by simp
  then show ?case using k Cons.IH [OF r, of "n + 1"] by (auto simp: size_loop.simps [of h s v] c_incr_def)
qed

lemma size_ok:
  assumes "list_at h a l xs"
  shows "xmlListSize h (Ptr a) = (if int (length xs) \<le> INT_MAX then Some (int (length xs)) else None)"
proof -
  obtain k where k: "links h (sentinel l) = Some k" "lnext k = hd (xs @ [sentinel l])" using assms by (rule at_sentinel)
  have r: "ring h (sentinel l) ([] @ xs)" "headers h a = Some l" using assms by (simp_all add: list_at_def)
  have "(0::int) \<le> INT_MAX" by simp
  then show ?thesis using size_loop_ok [OF r(1), of 0] r(2) k by (cases "xs = []") (simp_all add: xmlListSize_def)
qed

text \<open>What a walk computes from the data: the walker is applied to each, in order, until it returns 0.\<close>

fun walk_data :: "('d \<Rightarrow> 'u \<Rightarrow> 'u \<times> int) \<Rightarrow> 'd list \<Rightarrow> 'u \<Rightarrow> 'u" where
  "walk_data walker [] u = u"
| "walk_data walker (d # ds) u = (if snd (walker d u) = 0 then fst (walker d u) else walk_data walker ds (fst (walker d u)))"

lemma walk_loop_ok:
  assumes "ring h s (us @ vs)"
  shows "walk_loop h walker s (hd (vs @ [s])) u = Some (walk_data walker (map (dat h) vs) u)"
  using assms
proof (induction vs arbitrary: us u)
  case Nil
  then show ?case by (simp add: walk_loop.simps)
next
  case (Cons v vs)
  have r: "ring h s ((us @ [v]) @ vs)" using Cons.prems by simp
  obtain k where k: "links h v = Some k" "v \<noteq> s" using Cons.prems by (auto simp: ring_def)
  have "lnext k = hd (vs @ [s])" using ring_cutD(1) [OF r] k by simp
  then show ?case using k Cons.IH [OF r] by (simp add: walk_loop.simps [of h walker s v] split: prod.split)
qed

lemma reverse_walk_loop_ok:
  assumes "ring h s (us @ vs)"
  shows "reverse_walk_loop h walker s (last (s # us)) u = Some (walk_data walker (rev (map (dat h) us)) u)"
  using assms
proof (induction us arbitrary: vs u rule: rev_induct)
  case Nil
  then show ?case by (simp add: reverse_walk_loop.simps)
next
  case (snoc v us)
  have r: "ring h s (us @ v # vs)" using snoc.prems by simp
  obtain k where k: "links h v = Some k" "v \<noteq> s" using snoc.prems by (auto simp: ring_def)
  have "lprev k = last (s # us)" using ring_cutD(2) [OF r] k by simp
  then show ?case using k snoc.IH [OF r] by (simp add: reverse_walk_loop.simps [of h walker s v] split: prod.split)
qed

lemma walks_ok:
  assumes "list_at h a l xs"
  shows "xmlListWalk h (Ptr a) (Ptr walker) u = Some (walk_data walker (map (dat h) xs) u)"
    "xmlListReverseWalk h (Ptr a) (Ptr walker) u = Some (walk_data walker (rev (map (dat h) xs)) u)"
proof -
  obtain k where k: "links h (sentinel l) = Some k" "lnext k = hd (xs @ [sentinel l])" "lprev k = last (sentinel l # xs)"
    using assms by (rule at_sentinel)
  have r: "ring h (sentinel l) xs" "headers h a = Some l" using assms by (simp_all add: list_at_def)
  show "xmlListWalk h (Ptr a) (Ptr walker) u = Some (walk_data walker (map (dat h) xs) u)"
    using walk_loop_ok [of h "sentinel l" "[]" xs] r k(1,2) by (simp add: xmlListWalk_def)
  show "xmlListReverseWalk h (Ptr a) (Ptr walker) u = Some (walk_data walker (rev (map (dat h) xs)) u)"
    using reverse_walk_loop_ok [of h "sentinel l" xs "[]"] r k(1) unfolding k(3) [symmetric] by (simp add: xmlListReverseWalk_def)
qed

text \<open>The first and the last link: its data, or the sentinel (the code never returns NULL for an empty list).\<close>

lemma ends_ok:
  assumes "list_at h a l xs"
  shows "xmlListFront h (Ptr a) = Some (Ptr (hd (xs @ [sentinel l])))" "xmlListEnd h (Ptr a) = Some (Ptr (last (sentinel l # xs)))"
proof -
  obtain k where k: "links h (sentinel l) = Some k" "lnext k = hd (xs @ [sentinel l])" "lprev k = last (sentinel l # xs)"
    using assms by (rule at_sentinel)
  show "xmlListFront h (Ptr a) = Some (Ptr (hd (xs @ [sentinel l])))" "xmlListEnd h (Ptr a) = Some (Ptr (last (sentinel l # xs)))"
    using assms k(1) unfolding k(2,3) [symmetric] by (simp_all add: xmlListFront_def xmlListEnd_def list_at_def)
qed

end
