(* ===== verification/Sequences.thy ===== *)
theory Sequences
  imports ListRings Refinement
begin

text \<open>
  The abstract view of a heap of lists: a finite number of independent sequences.  Copying, merging, duplicating and
  sorting are composed on sequences as the code composes them; every operation refines its counterpart.
\<close>

section \<open>Whole lists on sequences\<close>

text \<open>The abstract state: the live lists by address, and the data handed to a deallocator so far.\<close>

type_synonym 'd sequences = "(nat \<Rightarrow> (bool \<times> ('d \<Rightarrow> 'd \<Rightarrow> int) \<times> 'd list) option) \<times> 'd list"

definition list_abs :: "'d lheap \<Rightarrow> 'd sequences" where
  "list_abs h = (seqs h, dealloc h)"

definition yields :: "('r \<times> 'd lheap) option \<Rightarrow> 'r \<Rightarrow> 'd sequences \<Rightarrow> bool" where
  "yields x r A \<longleftrightarrow> (\<exists>h'. x = Some (r, h') \<and> heap_ok h' \<and> list_abs h' = A)"

lemma yieldsI: "x = Some (r, h') \<Longrightarrow> heap_ok h' \<Longrightarrow> seqs h' = m \<Longrightarrow> dealloc h' = g \<Longrightarrow> yields x r (m, g)"
  by (auto simp: yields_def list_abs_def)

definition freed :: "bool \<Rightarrow> 'd list \<Rightarrow> 'd list" where
  "freed f ds = (if f then ds else [])"

text \<open>The result of copying: the flag is False when an allocation failed on the way.\<close>

fun copy_data :: "(nat \<Rightarrow> bool) \<Rightarrow> nat \<Rightarrow> ('d \<Rightarrow> 'd \<Rightarrow> int) \<Rightarrow> 'd list \<Rightarrow> 'd list \<Rightarrow> bool \<times> 'd list" where
  "copy_data ok i c [] es = (True, es)"
| "copy_data ok i c (d # ds) es = (if ok i then copy_data ok (Suc i) c ds (insert_first c d es) else (False, es))"

fun seq_create :: "nat \<Rightarrow> (nat \<Rightarrow> bool) \<Rightarrow> bool \<Rightarrow> ('d::linorder \<Rightarrow> 'd \<Rightarrow> int) ptr \<Rightarrow> 'd sequences \<Rightarrow> nat ptr \<times> 'd sequences" where
  "seq_create n ok f cp (m, g) =
     (if ok 0 \<and> ok 1 then (Ptr n, m(n \<mapsto> (f, case cp of NULL \<Rightarrow> xmlLinkCompare | Ptr c \<Rightarrow> c, [])), g) else (NULL, m, g))"

fun seq_clear :: "nat ptr \<Rightarrow> 'd sequences \<Rightarrow> 'd sequences" where
  "seq_clear NULL A = A"
| "seq_clear (Ptr a) (m, g) = (case m a of None \<Rightarrow> (m, g) | Some (f, c, ds) \<Rightarrow> (m(a \<mapsto> (f, c, [])), g @ freed f ds))"

fun seq_delete :: "nat ptr \<Rightarrow> 'd sequences \<Rightarrow> 'd sequences" where
  "seq_delete NULL A = A"
| "seq_delete (Ptr a) (m, g) = (case m a of None \<Rightarrow> (m, g) | Some (f, c, ds) \<Rightarrow> (m(a := None), g @ freed f ds))"

fun seq_copy :: "(nat \<Rightarrow> bool) \<Rightarrow> nat ptr \<Rightarrow> nat ptr \<Rightarrow> 'd sequences \<Rightarrow> int \<times> 'd sequences" where
  "seq_copy ok (Ptr a) (Ptr b) (m, g) =
     (case (m a, m b) of
        (Some (f, c, es), Some (_, _, ds)) \<Rightarrow>
          (case copy_data ok 0 c ds es of
             (True, es') \<Rightarrow> (0, m(a \<mapsto> (f, c, es')), g)
           | (False, es') \<Rightarrow> (1, m(a := None), g @ freed f es'))
      | _ \<Rightarrow> (1, m, g))"
| "seq_copy ok p q A = (1, A)"

definition seq_merge :: "(nat \<Rightarrow> bool) \<Rightarrow> nat ptr \<Rightarrow> nat ptr \<Rightarrow> 'd sequences \<Rightarrow> 'd sequences" where
  "seq_merge ok p q A = seq_clear q (snd (seq_copy ok p q A))"

fun seq_dup :: "nat \<Rightarrow> (nat \<Rightarrow> nat \<Rightarrow> bool) \<Rightarrow> nat ptr \<Rightarrow> ('d::linorder) sequences \<Rightarrow> nat ptr \<times> 'd sequences" where
  "seq_dup n ok NULL A = (NULL, A)"
| "seq_dup n ok (Ptr a) (m, g) =
     (case m a of
        None \<Rightarrow> (NULL, m, g)
      | Some (f, c, ds) \<Rightarrow>
          (case seq_create n (ok 0) False (Ptr c) (m, g) of
             (NULL, A1) \<Rightarrow> (NULL, A1)
           | (cur, A1) \<Rightarrow> (case seq_copy (ok 1) cur (Ptr a) A1 of (r, A2) \<Rightarrow> (if r \<noteq> 0 then NULL else cur, A2))))"

fun seq_sort :: "nat \<Rightarrow> (nat \<Rightarrow> nat \<Rightarrow> bool) \<Rightarrow> nat ptr \<Rightarrow> ('d::linorder) sequences \<Rightarrow> 'd sequences" where
  "seq_sort n ok NULL A = A"
| "seq_sort n ok (Ptr a) (m, g) =
     (case m a of
        None \<Rightarrow> (m, g)
      | Some (f, c, ds) \<Rightarrow>
          if ds = [] then (m, g)
          else (case seq_dup n ok (Ptr a) (m, g) of
            (NULL, A1) \<Rightarrow> A1
          | (t, A1) \<Rightarrow> seq_delete t (seq_merge (ok 2) (Ptr a) t (seq_clear (Ptr a) A1))))"

text \<open>A pointer argument is legal when it is NULL or points to a live list.\<close>

definition live :: "'d lheap \<Rightarrow> nat ptr \<Rightarrow> bool" where
  "live h p \<longleftrightarrow> (case p of NULL \<Rightarrow> True | Ptr a \<Rightarrow> headers h a \<noteq> None)"

lemma live_at:
  assumes "heap_ok h" "live h (Ptr a)"
  obtains l xs where "list_at h a l xs" "headers h a = Some l"
    "seqs h a = Some (linkDeallocator l, linkCompare l, map (dat h) xs)"
proof -
  obtain l where l: "headers h a = Some l" using assms(2) by (auto simp: live_def)
  then obtain xs where "ring h (sentinel l) xs" using assms(1) unfolding heap_ok_def by blast
  then have "list_at h a l xs" using assms(1) l by (simp add: list_at_def)
  then show thesis using that l at_seqs by blast
qed

lemma live_seqs: "live h (Ptr a) \<longleftrightarrow> seqs h a \<noteq> None"
  by (simp add: live_def seqs_def)

lemma create_yields:
  assumes "heap_ok h"
  obtains n h' p where "seqs h n = None" "xmlListCreate ok f cp d h = (p, h')" "heap_ok h'" "(p, list_abs h') = seq_create n ok f cp (list_abs h)"
  using list_create_ok [OF assms, of ok f cp d] that [of "brk h"] by (fastforce simp: list_abs_def split: if_splits)

lemma clear_yields:
  assumes "heap_ok h" "live h p"
  shows "\<exists>h'. xmlListClear p h = Some h' \<and> heap_ok h' \<and> list_abs h' = seq_clear p (list_abs h)"
proof (cases p)
  case (Ptr a)
  obtain l xs where l: "list_at h a l xs" "seqs h a = Some (linkDeallocator l, linkCompare l, map (dat h) xs)"
    using live_at [of h a] assms Ptr by metis
  then show ?thesis using clear_ok [OF l(1)] Ptr by (fastforce simp: freed_def list_abs_def puts_def)
qed (use assms in \<open>simp add: xmlListClear_def\<close>)

lemma delete_yields:
  assumes "heap_ok h" "live h p"
  shows "\<exists>h'. xmlListDelete p h = Some h' \<and> heap_ok h' \<and> list_abs h' = seq_delete p (list_abs h)"
proof (cases p)
  case (Ptr a)
  obtain l xs where l: "list_at h a l xs" "seqs h a = Some (linkDeallocator l, linkCompare l, map (dat h) xs)"
    using live_at [of h a] assms Ptr by metis
  then show ?thesis using delete_ok [OF l(1)] Ptr by (fastforce simp: freed_def list_abs_def)
qed (use assms in \<open>simp add: xmlListDelete_def\<close>)

lemma list_copy_loop_ok:
  assumes "list_at h b m (us @ vs)" "list_at h a l xs" "a \<noteq> b"
  shows "case copy_data ok i (linkCompare l) (map (dat h) vs) (map (dat h) xs) of
      (True, es) \<Rightarrow> yields (copy_loop ok i (Ptr a) (sentinel m) (hd (vs @ [sentinel m])) h) 0
        ((seqs h)(a \<mapsto> (linkDeallocator l, linkCompare l, es)), dealloc h)
    | (False, es) \<Rightarrow> yields (copy_loop ok i (Ptr a) (sentinel m) (hd (vs @ [sentinel m])) h) 1
        ((seqs h)(a := None), dealloc h @ freed (linkDeallocator l) es)"
  using assms
proof (induction vs arbitrary: us xs h i)
  case Nil
  have "heap_ok h" "seqs h a = Some (linkDeallocator l, linkCompare l, map (dat h) xs)"
    using Nil.prems(2) at_seqs [OF Nil.prems(2)] by (simp_all add: list_at_def)
  then show ?case by (auto simp: copy_loop.simps yields_def list_abs_def fun_upd_idem)
next
  case (Cons v vs)
  let ?s = "sentinel m" let ?c = "linkCompare l"
  obtain k where k: "links h v = Some k" "v \<noteq> ?s" using Cons.prems(1) by (auto simp: list_at_def ring_def)
  have step: "copy_loop ok i (Ptr a) ?s v h = Option.bind (xmlListInsert (ok i) (Ptr a) (ldata k) h) (\<lambda>(r, h1).
          if r \<noteq> 0 then Option.bind (xmlListDelete (Ptr a) h1) (\<lambda>h2. Some (1, h2))
          else Option.bind (links h1 v) (\<lambda>k1. copy_loop ok (Suc i) (Ptr a) ?s (lnext k1) h1))"
    using k by (simp add: copy_loop.simps [of ok i "Ptr a" ?s v])
  show ?case
  proof (cases "ok i")
    case False
    obtain h' where h': "xmlListDelete (Ptr a) h = Some h'" "heap_ok h'" "seqs h' = (seqs h)(a := None)"
      "dealloc h' = dealloc h @ freed (linkDeallocator l) (map (dat h) xs)" using delete_ok [OF Cons.prems(2), folded freed_def] by blast
    have "copy_loop ok i (Ptr a) ?s v h = Some (1, h')"
      using step xmlListInsert_ok(1) [OF Cons.prems(2), of "ldata k"] False h'(1) by simp
    then show ?thesis using False h'(2-4) by (simp add: yields_def list_abs_def)
  next
    case True
    obtain h1 xs1 where h1: "xmlListInsert True (Ptr a) (ldata k) h = Some (0, h1)" "dealloc h1 = dealloc h"
      "puts h h1 a l (insert_first ?c (ldata k) (map (dat h) xs))" "list_at h1 a l xs1"
      "\<forall>x. x \<noteq> brk h \<longrightarrow> dat h1 x = dat h x" "\<forall>b m ys. b \<noteq> a \<longrightarrow> list_at h b m ys \<longrightarrow> list_at h1 b m ys"
      using xmlListInsert_ok(2) [OF Cons.prems(2), of "ldata k"] by blast
    have o1: "list_at h1 b m ((us @ [v]) @ vs)" using h1(6) Cons.prems(1,3) by simp
    then have r1: "ring h1 ?s ((us @ [v]) @ vs)" by (simp add: list_at_def)
    then obtain k1 where k1: "links h1 v = Some k1" by (auto simp: ring_def)
    have n1: "lnext k1 = hd (vs @ [?s])" using ring_cutD(1) [OF r1] k1 by simp
    have "brk h \<notin> set vs" using heap_fresh [of h] Cons.prems(1) by (auto simp: list_at_def ring_def)
    then have dv: "map (dat h1) vs = map (dat h) vs" using h1(5) by (simp only: map_eq_conv) metis
    have dx: "map (dat h1) xs1 = insert_first ?c (ldata k) (map (dat h) xs)"
      using at_seqs [OF h1(4)] h1(3) unfolding puts_def by simp
    have "copy_loop ok i (Ptr a) ?s v h = copy_loop ok (Suc i) (Ptr a) ?s (hd (vs @ [?s])) h1"
      using step True h1(1) k1 n1 by simp
    moreover have upd: "(seqs h1)(a := z) = (seqs h)(a := z)" for z using h1(3) by (simp add: puts_def)
    moreover note Cons.IH [OF o1 h1(4) Cons.prems(3), of "Suc i", unfolded dv dx h1(2) upd]
    moreover have "hd ((v # vs) @ [?s]) = v" by simp
    ultimately show ?thesis using True k(1)
      by (cases "copy_data ok (Suc i) ?c (map (dat h) vs) (insert_first ?c (ldata k) (map (dat h) xs))")
        (simp del: fun_upd_apply append_Cons split: bool.splits)
  qed
qed

lemma copy_yields:
  assumes "heap_ok h" "live h p" "live h q" "p = q \<longrightarrow> p = NULL"
  shows "\<exists>h'. xmlListCopy ok p q h = Some (fst (seq_copy ok p q (list_abs h)), h') \<and> heap_ok h' \<and>
    list_abs h' = snd (seq_copy ok p q (list_abs h))"
proof -
  consider "p = NULL \<or> q = NULL" | a b where "p = Ptr a" "q = Ptr b" by (cases p; cases q) auto
  then show ?thesis
  proof cases
    case 1
    then show ?thesis using assms(1) by (auto simp: xmlListCopy_def split: ptr.splits)
  next
    case 2
    obtain l xs where l: "list_at h a l xs" "seqs h a = Some (linkDeallocator l, linkCompare l, map (dat h) xs)"
      using live_at [of h a] assms(1,2) 2(1) by metis
    obtain m ys where m: "list_at h b m ys" "headers h b = Some m" "seqs h b = Some (linkDeallocator m, linkCompare m, map (dat h) ys)"
      using live_at [of h b] assms(1,3) 2(2) by metis
    obtain k where k: "links h (sentinel m) = Some k" "lnext k = hd (ys @ [sentinel m])" using m(1) by (rule at_sentinel)
    have "xmlListCopy ok p q h = copy_loop ok 0 (Ptr a) (sentinel m) (hd ([] @ ys @ [sentinel m])) h"
      using 2 m(2) k by (simp add: xmlListCopy_def)
    then show ?thesis using list_copy_loop_ok [of h b m "[]" ys a l xs ok 0] m(1,3) l 2 assms(4)
      by (auto simp: list_abs_def yields_def split: prod.splits bool.splits)
  qed
qed

lemma live_after:
  assumes "list_abs h' = (m, g)"
  shows "live h' (Ptr a) \<longleftrightarrow> m a \<noteq> None"
  using assms by (simp add: live_seqs list_abs_def)

lemma merge_yields:
  assumes "heap_ok h" "live h p" "live h q" "p = q \<longrightarrow> p = NULL"
  shows "\<exists>h'. xmlListMerge ok p q h = Some h' \<and> heap_ok h' \<and> list_abs h' = seq_merge ok p q (list_abs h)"
proof -
  obtain h1 where h1: "xmlListCopy ok p q h = Some (fst (seq_copy ok p q (list_abs h)), h1)" "heap_ok h1"
    "list_abs h1 = snd (seq_copy ok p q (list_abs h))" using copy_yields [OF assms] by blast
  have "live h1 q"
  proof (cases q)
    case (Ptr b)
    have "seqs h b \<noteq> None" using assms(3) Ptr by (simp add: live_seqs)
    then have "fst (snd (seq_copy ok p q (list_abs h))) b \<noteq> None"
      using assms(4) Ptr by (cases p) (auto simp: list_abs_def split: option.splits prod.splits bool.splits)
    then show ?thesis using Ptr h1(3) by (simp add: live_after [of h1 "fst (list_abs h1)" "snd (list_abs h1)"])
  qed (simp add: live_def)
  from clear_yields [OF h1(2) this] show ?thesis using h1(1,3) by (auto simp: xmlListMerge_def seq_merge_def)
qed

lemma dup_yields:
  fixes h :: "'d::linorder lheap"
  assumes "heap_ok h" "live h p"
  shows "\<exists>n h'. seqs h n = None \<and> xmlListDup ok d p h = Some (fst (seq_dup n ok p (list_abs h)), h') \<and> heap_ok h' \<and>
    list_abs h' = snd (seq_dup n ok p (list_abs h))"
proof (cases p)
  case NULL
  then show ?thesis using assms(1) heap_fresh [OF assms(1)] by (auto simp: xmlListDup_def seqs_def)
next
  case (Ptr a)
  obtain l xs where l: "headers h a = Some l" "seqs h a = Some (linkDeallocator l, linkCompare l, map (dat h) xs)"
    using live_at [of h a] assms Ptr by metis
  obtain n h1 cur where c: "seqs h n = None" "xmlListCreate (ok 0) False (Ptr (linkCompare l)) d h = (cur, h1)" "heap_ok h1"
    "(cur, list_abs h1) = seq_create n (ok 0) False (Ptr (linkCompare l)) (list_abs h)" by (rule create_yields [OF assms(1)])
  have na: "n \<noteq> a" using c(1) l(2) by auto
  show ?thesis
  proof (cases "ok 0 0 \<and> ok 0 1")
    case False
    then have sc: "seq_create n (ok 0) False (Ptr (linkCompare l)) (list_abs h) = (NULL, list_abs h)" unfolding list_abs_def seq_create.simps by (simp only: if_False)
    then have "cur = NULL" "list_abs h1 = list_abs h" using c(4) by simp_all
    then show ?thesis using c(1-3) l sc Ptr by (intro exI [of _ n] exI [of _ h1]) (simp add: xmlListDup_def list_abs_def del: seq_create.simps)
  next
    case True
    then have cur: "cur = Ptr n" "seqs h1 = (seqs h)(n \<mapsto> (False, linkCompare l, []))" using c(4) by (simp_all add: list_abs_def)
    then have lv: "live h1 cur" "live h1 p" using l(2) Ptr na by (simp_all add: live_seqs)
    obtain h2 where h2: "xmlListCopy (ok 1) cur p h1 = Some (fst (seq_copy (ok 1) cur p (list_abs h1)), h2)" "heap_ok h2"
      "list_abs h2 = snd (seq_copy (ok 1) cur p (list_abs h1))" using copy_yields [OF c(3) lv] na cur(1) Ptr by auto
    have "seq_create n (ok 0) False (Ptr (linkCompare l)) (list_abs h) = (Ptr n, list_abs h1)" using c(4) cur(1) by simp
    then show ?thesis using c(1,2) l cur(1) h2 Ptr
      by (intro exI [of _ n] exI [of _ h2]) (simp add: xmlListDup_def list_abs_def split: prod.splits)
  qed
qed

lemma delete_live: "live h p \<Longrightarrow> list_abs h' = seq_clear q (list_abs h) \<Longrightarrow> live h' p"
  by (cases p; cases q) (auto simp: list_abs_def live_seqs split: option.splits prod.splits if_splits, auto simp: live_def)

lemma sort_yields:
  fixes h :: "'d::linorder lheap"
  assumes "heap_ok h" "live h p"
  shows "\<exists>n h'. seqs h n = None \<and> xmlListSort ok d p h = Some h' \<and> heap_ok h' \<and> list_abs h' = seq_sort n ok p (list_abs h)"
proof (cases p)
  case NULL
  then show ?thesis using assms(1) heap_fresh [OF assms(1)] by (auto simp: xmlListSort_def seqs_def)
next
  case (Ptr a)
  obtain l xs where l: "list_at h a l xs" "seqs h a = Some (linkDeallocator l, linkCompare l, map (dat h) xs)"
    using live_at [of h a] assms Ptr by metis
  have e: "xmlListEmpty h p = Some (of_bool (xs = []))" using empty_ok [OF l(1)] Ptr by simp
  obtain n h1 where d: "seqs h n = None" "xmlListDup ok d p h = Some (fst (seq_dup n ok p (list_abs h)), h1)" "heap_ok h1"
    "list_abs h1 = snd (seq_dup n ok p (list_abs h))" using dup_yields [OF assms] by blast
  have na: "n \<noteq> a" using d(1) l(2) by auto
  show ?thesis
  proof (cases "xs = []")
    case True
    then show ?thesis using e l Ptr d(1) assms(1) by (intro exI [of _ n] exI [of _ h]) (simp add: xmlListSort_def list_abs_def)
  next
    case ne: False
    obtain t A1 where t: "seq_dup n ok p (list_abs h) = (t, A1)" by (cases "seq_dup n ok p (list_abs h)") auto
    show ?thesis
    proof (cases t)
      case NULL
      then show ?thesis using e l Ptr d t ne by (intro exI [of _ n] exI [of _ h1]) (simp add: xmlListSort_def list_abs_def)
    next
      case (Ptr b)
      have "seqs h1 = fst A1" using arg_cong [OF d(4), of fst] t by (simp add: list_abs_def)
      moreover have "b = n \<and> fst A1 b \<noteq> None \<and> fst A1 a \<noteq> None"
        using t Ptr \<open>p = Ptr a\<close> l(2) na unfolding list_abs_def
        by (auto simp: ex_bool_eq split: option.splits prod.splits bool.splits if_splits)
      ultimately have b: "b = n" "live h1 (Ptr b)" "live h1 p" using \<open>p = Ptr a\<close> by (metis live_seqs)+
      obtain h2 where h2: "xmlListClear p h1 = Some h2" "heap_ok h2" "list_abs h2 = seq_clear p (list_abs h1)"
        using clear_yields [OF d(3) b(3)] by blast
      have lv2: "live h2 p" "live h2 t" using delete_live [OF _ h2(3)] b(2,3) Ptr by simp_all
      obtain h3 where h3: "xmlListMerge (ok 2) p t h2 = Some h3" "heap_ok h3" "list_abs h3 = seq_merge (ok 2) p t (list_abs h2)"
        using merge_yields [OF h2(2) lv2] Ptr b(1) na \<open>p = Ptr a\<close> by fastforce
      have "live h3 t"
      proof -
        have "seqs h2 b \<noteq> None" using lv2(2) Ptr by (simp add: live_seqs)
        then have "fst (seq_merge (ok 2) p t (list_abs h2)) b \<noteq> None"
          using Ptr b(1) na \<open>p = Ptr a\<close> by (auto simp: seq_merge_def list_abs_def split: option.splits prod.splits bool.splits)
        then show ?thesis using h3(3) Ptr by (simp add: live_after [of h3 "fst (list_abs h3)" "snd (list_abs h3)"])
      qed
      from delete_yields [OF h3(2) this]
      obtain h4 where h4: "xmlListDelete t h3 = Some h4" "heap_ok h4" "list_abs h4 = seq_delete t (list_abs h3)" by blast
      have "xmlListSort ok d p h = Some h4" using e ne d(2) t Ptr h2(1) h3(1) h4(1) \<open>p = Ptr a\<close> by (simp add: xmlListSort_def)
      moreover have "list_abs h1 = A1" using d(4) t by simp
      then have "list_abs h4 = seq_delete t (seq_merge (ok 2) p t (seq_clear p A1))" using h4(3) h3(3) h2(3) by (simp only:)
      then have "seq_sort n ok p (list_abs h) = list_abs h4" using t l(2) ne Ptr \<open>p = Ptr a\<close>
        by (simp add: list_abs_def del: seq_dup.simps seq_clear.simps seq_delete.simps)
      ultimately show ?thesis using d(1) h4(2) by auto
    qed
  qed
qed

section \<open>Any use of any number of lists\<close>

datatype ('d, 'u) list_op =
    LCreate "nat \<Rightarrow> bool" bool "('d \<Rightarrow> 'd \<Rightarrow> int) ptr" 'd
  | LDelete "nat ptr"
  | LClear "nat ptr"
  | LEmpty "nat ptr"
  | LSearch "nat ptr" 'd
  | LReverseSearch "nat ptr" 'd
  | LInsert bool "nat ptr" 'd
  | LAppend bool "nat ptr" 'd
  | LPushFront bool "nat ptr" 'd
  | LPushBack bool "nat ptr" 'd
  | LPopFront "nat ptr"
  | LPopBack "nat ptr"
  | LRemoveFirst "nat ptr" 'd
  | LRemoveLast "nat ptr" 'd
  | LReverse "nat ptr"
  | LWalk "nat ptr" "('d \<Rightarrow> 'u \<Rightarrow> 'u \<times> int) ptr" 'u
  | LReverseWalk "nat ptr" "('d \<Rightarrow> 'u \<Rightarrow> 'u \<times> int) ptr" 'u
  | LCopy "nat \<Rightarrow> bool" "nat ptr" "nat ptr"
  | LMerge "nat \<Rightarrow> bool" "nat ptr" "nat ptr"
  | LDup "nat \<Rightarrow> nat \<Rightarrow> bool" 'd "nat ptr"
  | LSort "nat \<Rightarrow> nat \<Rightarrow> bool" 'd "nat ptr"

datatype ('d, 'u) list_result = LDone | LCode int | LData "'d ptr" | LHandle "nat ptr" | LUser 'u

definition plain_result :: "'s option \<Rightarrow> (('d, 'u) list_result \<times> 's) option" where
  "plain_result x = map_option (Pair LDone) x"

definition code_result :: "(int \<times> 's) option \<Rightarrow> (('d, 'u) list_result \<times> 's) option" where
  "code_result x = map_option (map_prod LCode id) x"

fun run_list_op :: "('d::linorder, 'u) list_op \<Rightarrow> 'd lheap \<Rightarrow> (('d, 'u) list_result \<times> 'd lheap) option" where
  "run_list_op (LCreate ok f cp d) h = Some (map_prod LHandle id (xmlListCreate ok f cp d h))"
| "run_list_op (LDelete p) h = plain_result (xmlListDelete p h)"
| "run_list_op (LClear p) h = plain_result (xmlListClear p h)"
| "run_list_op (LEmpty p) h = code_result (map_option (\<lambda>r. (r, h)) (xmlListEmpty h p))"
| "run_list_op (LSearch p d) h = map_option (\<lambda>r. (LData r, h)) (xmlListSearch h p d)"
| "run_list_op (LReverseSearch p d) h = map_option (\<lambda>r. (LData r, h)) (xmlListReverseSearch h p d)"
| "run_list_op (LInsert ok p d) h = code_result (xmlListInsert ok p d h)"
| "run_list_op (LAppend ok p d) h = code_result (xmlListAppend ok p d h)"
| "run_list_op (LPushFront ok p d) h = code_result (xmlListPushFront ok p d h)"
| "run_list_op (LPushBack ok p d) h = code_result (xmlListPushBack ok p d h)"
| "run_list_op (LPopFront p) h = plain_result (xmlListPopFront p h)"
| "run_list_op (LPopBack p) h = plain_result (xmlListPopBack p h)"
| "run_list_op (LRemoveFirst p d) h = code_result (xmlListRemoveFirst p d h)"
| "run_list_op (LRemoveLast p d) h = code_result (xmlListRemoveLast p d h)"
| "run_list_op (LReverse p) h = plain_result (xmlListReverse p h)"
| "run_list_op (LWalk p w u) h = map_option (\<lambda>r. (LUser r, h)) (xmlListWalk h p w u)"
| "run_list_op (LReverseWalk p w u) h = map_option (\<lambda>r. (LUser r, h)) (xmlListReverseWalk h p w u)"
| "run_list_op (LCopy ok p q) h = code_result (xmlListCopy ok p q h)"
| "run_list_op (LMerge ok p q) h = plain_result (xmlListMerge ok p q h)"
| "run_list_op (LDup ok d p) h = map_option (map_prod LHandle id) (xmlListDup ok d p h)"
| "run_list_op (LSort ok d p) h = plain_result (xmlListSort ok d p h)"

fun handles :: "('d, 'u) list_op \<Rightarrow> nat ptr list" where
  "handles (LCreate _ _ _ _) = []"
| "handles (LDelete p) = [p]" | "handles (LClear p) = [p]" | "handles (LEmpty p) = [p]"
| "handles (LSearch p _) = [p]" | "handles (LReverseSearch p _) = [p]"
| "handles (LInsert _ p _) = [p]" | "handles (LAppend _ p _) = [p]"
| "handles (LPushFront _ p _) = [p]" | "handles (LPushBack _ p _) = [p]"
| "handles (LPopFront p) = [p]" | "handles (LPopBack p) = [p]"
| "handles (LRemoveFirst p _) = [p]" | "handles (LRemoveLast p _) = [p]" | "handles (LReverse p) = [p]"
| "handles (LWalk p _ _) = [p]" | "handles (LReverseWalk p _ _) = [p]"
| "handles (LCopy _ p q) = [p, q]" | "handles (LMerge _ p q) = [p, q]"
| "handles (LDup _ _ p) = [p]" | "handles (LSort _ _ p) = [p]"

text \<open>
  A client may only pass NULL or lists it has created and not deleted, and may not copy a list into itself.  An
  operation that does otherwise is skipped, in the model and in the specification.
\<close>

definition valid_handles :: "(nat \<Rightarrow> bool) \<Rightarrow> ('d, 'u) list_op \<Rightarrow> bool" where
  "valid_handles alive op \<longleftrightarrow> (\<forall>p \<in> set (handles op). case p of NULL \<Rightarrow> True | Ptr a \<Rightarrow> alive a) \<and>
     (case handles op of [p, q] \<Rightarrow> p = q \<longrightarrow> p = NULL | _ \<Rightarrow> True)"

definition list_step :: "('d::linorder, 'u) list_op \<Rightarrow> 'd lheap \<Rightarrow> (('d, 'u) list_result \<times> 'd lheap) option" where
  "list_step op h = (if valid_handles (\<lambda>a. headers h a \<noteq> None) op then run_list_op op h else Some (LDone, h))"

text \<open>The specification: \<open>on p r k A\<close> gives \<open>r\<close> for NULL and otherwise what \<open>k\<close> makes of the list's settings and data.\<close>

fun on :: "nat ptr \<Rightarrow> 'r \<Rightarrow> (bool \<Rightarrow> ('d \<Rightarrow> 'd \<Rightarrow> int) \<Rightarrow> 'd list \<Rightarrow> 'r \<times> 'd list \<times> 'd list) \<Rightarrow> 'd sequences \<Rightarrow> 'r \<times> 'd sequences" where
  "on NULL r k A = (r, A)"
| "on (Ptr a) r k (m, g) =
     (case m a of
        None \<Rightarrow> (r, m, g)
      | Some (f, c, ds) \<Rightarrow> (case k f c ds of (r', ds', fr) \<Rightarrow> (r', m(a \<mapsto> (f, c, ds')), g @ freed f fr)))"

fun run_seq_op :: "nat \<Rightarrow> ('d::linorder, 'u) list_op \<Rightarrow> 'd sequences \<Rightarrow> ('d, 'u) list_result \<times> 'd sequences" where
  "run_seq_op n (LCreate ok f cp d) A = map_prod LHandle id (seq_create n ok f cp A)"
| "run_seq_op n (LDelete p) A = (LDone, seq_delete p A)"
| "run_seq_op n (LClear p) A = (LDone, seq_clear p A)"
| "run_seq_op n (LEmpty p) A = on p (LCode (- 1)) (\<lambda>f c ds. (LCode (of_bool (ds = [])), ds, [])) A"
| "run_seq_op n (LSearch p d) A = on p (LData NULL) (\<lambda>f c ds. (LData (ptr_of (find_first c d ds)), ds, [])) A"
| "run_seq_op n (LReverseSearch p d) A = on p (LData NULL) (\<lambda>f c ds. (LData (ptr_of (find_last c d ds)), ds, [])) A"
| "run_seq_op n (LInsert ok p d) A = on p (LCode 1) (\<lambda>f c ds. if ok then (LCode 0, insert_first c d ds, []) else (LCode 1, ds, [])) A"
| "run_seq_op n (LAppend ok p d) A = on p (LCode 1) (\<lambda>f c ds. if ok then (LCode 0, insert_last c d ds, []) else (LCode 1, ds, [])) A"
| "run_seq_op n (LPushFront ok p d) A = on p (LCode 0) (\<lambda>f c ds. if ok then (LCode 1, d # ds, []) else (LCode 0, ds, [])) A"
| "run_seq_op n (LPushBack ok p d) A = on p (LCode 0) (\<lambda>f c ds. if ok then (LCode 1, ds @ [d], []) else (LCode 0, ds, [])) A"
| "run_seq_op n (LPopFront p) A = on p LDone (\<lambda>f c ds. (LDone, tl ds, take 1 ds)) A"
| "run_seq_op n (LPopBack p) A = on p LDone (\<lambda>f c ds. (LDone, butlast ds, take 1 (rev ds))) A"
| "run_seq_op n (LRemoveFirst p d) A = on p (LCode 0) (\<lambda>f c ds.
     case find_first c d ds of None \<Rightarrow> (LCode 0, ds, []) | Some x \<Rightarrow> (LCode 1, remove_first c d ds, [x])) A"
| "run_seq_op n (LRemoveLast p d) A = on p (LCode 0) (\<lambda>f c ds.
     case find_last c d ds of None \<Rightarrow> (LCode 0, ds, []) | Some x \<Rightarrow> (LCode 1, remove_last c d ds, [x])) A"
| "run_seq_op n (LReverse p) A = on p LDone (\<lambda>f c ds. (LDone, rev ds, [])) A"
| "run_seq_op n (LWalk p w u) A = on p (LUser u) (\<lambda>f c ds.
     (LUser (case w of NULL \<Rightarrow> u | Ptr walker \<Rightarrow> walk_data walker ds u), ds, [])) A"
| "run_seq_op n (LReverseWalk p w u) A = on p (LUser u) (\<lambda>f c ds.
     (LUser (case w of NULL \<Rightarrow> u | Ptr walker \<Rightarrow> walk_data walker (rev ds) u), ds, [])) A"
| "run_seq_op n (LCopy ok p q) A = map_prod LCode id (seq_copy ok p q A)"
| "run_seq_op n (LMerge ok p q) A = (LDone, seq_merge ok p q A)"
| "run_seq_op n (LDup ok d p) A = map_prod LHandle id (seq_dup n ok p A)"
| "run_seq_op n (LSort ok d p) A = (LDone, seq_sort n ok p A)"

text \<open>The address of a new list is any that is not in use.\<close>

definition list_spec :: "('d::linorder, 'u) list_op \<Rightarrow> 'd sequences \<Rightarrow> ('d, 'u) list_result \<Rightarrow> 'd sequences \<Rightarrow> bool" where
  "list_spec op A r A' \<longleftrightarrow>
     (if valid_handles (\<lambda>a. fst A a \<noteq> None) op then \<exists>n. fst A n = None \<and> run_seq_op n op A = (r, A') else r = LDone \<and> A' = A)"

definition fresh_run :: "('d::linorder, 'u) list_op \<Rightarrow> 'd lheap \<Rightarrow> bool" where
  "fresh_run op h \<longleftrightarrow> (\<exists>n h'. seqs h n = None \<and> run_list_op op h = Some (fst (run_seq_op n op (list_abs h)), h') \<and>
     heap_ok h' \<and> list_abs h' = snd (run_seq_op n op (list_abs h)))"

lemma on_fresh:
  assumes "heap_ok h" "live h p"
    and run: "\<And>n A. run_seq_op n op A = on p r k A"
    and null: "p = NULL \<Longrightarrow> run_list_op op h = Some (r, h)"
    and ptr: "\<And>a l xs. p = Ptr a \<Longrightarrow> list_at h a l xs \<Longrightarrow>
      case k (linkDeallocator l) (linkCompare l) (map (dat h) xs) of (r', ds', fr) \<Rightarrow>
        \<exists>h'. run_list_op op h = Some (r', h') \<and> puts h h' a l ds' \<and> dealloc h' = dealloc h @ freed (linkDeallocator l) fr"
  shows "fresh_run op h"
proof -
  have n: "seqs h (brk h) = None" using heap_fresh [OF assms(1)] by (simp add: seqs_def)
  show ?thesis
  proof (cases p)
    case NULL
    then show ?thesis using null n assms(1) unfolding fresh_run_def run by (intro exI [of _ "brk h"] exI [of _ h]) simp
  next
    case (Ptr a)
    obtain l xs where l: "list_at h a l xs" "seqs h a = Some (linkDeallocator l, linkCompare l, map (dat h) xs)"
      using live_at [of h a] assms(1,2) Ptr by metis
    show ?thesis using ptr [OF Ptr l(1)] l(2) n Ptr unfolding fresh_run_def run
      by (intro exI [of _ "brk h"]) (auto simp: list_abs_def puts_def split: prod.splits)
  qed
qed

lemma freed_Nil [simp]: "freed f [] = []" "freed False ds = []" "freed True ds = ds"
  by (simp_all add: freed_def)

lemma valid_live:
  "valid_handles (\<lambda>a. headers h a \<noteq> None) op \<longleftrightarrow> (\<forall>p \<in> set (handles op). live h p) \<and>
     (case handles op of [p, q] \<Rightarrow> p = q \<longrightarrow> p = NULL | _ \<Rightarrow> True)"
  by (simp only: valid_handles_def live_def)

lemma one_op_ok:
  fixes h :: "'d::linorder lheap" and op :: "('d, 'u) list_op"
  assumes "heap_ok h" "\<forall>p \<in> set (handles op). live h p" "length (handles op) = 1" "\<forall>ok d p. op \<noteq> LDup ok d p \<and> op \<noteq> LSort ok d p"
  shows "fresh_run op h"
  using assms(2-)
proof (cases op)
  case (LDelete p)
  then show ?thesis using delete_yields [OF assms(1), of p] assms(2) heap_fresh [OF assms(1)]
    by (auto simp: fresh_run_def plain_result_def seqs_def)
next
  case (LClear p)
  then show ?thesis using clear_yields [OF assms(1), of p] assms(2) heap_fresh [OF assms(1)]
    by (auto simp: fresh_run_def plain_result_def seqs_def)
next
  case (LEmpty p)
  show ?thesis unfolding LEmpty
    by (rule on_fresh [OF assms(1) _ run_seq_op.simps(4)])
      (use assms(2) LEmpty in \<open>auto simp: code_result_def xmlListEmpty_def [of h NULL] empty_ok intro!: puts_refl\<close>)
next
  case (LSearch p d)
  show ?thesis unfolding LSearch
    by (rule on_fresh [OF assms(1) _ run_seq_op.simps(5)])
      (use assms(2) LSearch in \<open>auto simp: xmlListSearch_def [of h NULL] search_ok intro!: puts_refl\<close>)
next
  case (LReverseSearch p d)
  show ?thesis unfolding LReverseSearch
    by (rule on_fresh [OF assms(1) _ run_seq_op.simps(6)])
      (use assms(2) LReverseSearch in \<open>auto simp: xmlListReverseSearch_def [of h NULL] search_ok intro!: puts_refl\<close>)
next
  case (LInsert ok p d)
  show ?thesis unfolding LInsert
  proof (rule on_fresh [OF assms(1) _ run_seq_op.simps(7)])
    fix a l xs assume "p = Ptr a" "list_at h a l xs"
    then show "case if ok then (LCode 0, insert_first (linkCompare l) d (map (dat h) xs), []) else (LCode 1, map (dat h) xs, []) of (r', ds', fr) \<Rightarrow>
      \<exists>h'. run_list_op (LInsert ok p d) h = Some (r', h') \<and> puts h h' a l ds' \<and> dealloc h' = dealloc h @ freed (linkDeallocator l) fr"
      using xmlListInsert_ok [of h a l xs d] puts_refl [of h a l xs] by (cases ok) (auto simp: code_result_def)
  qed (use assms(2) LInsert in \<open>auto simp: code_result_def xmlListInsert_def [of _ NULL]\<close>)
next
  case (LAppend ok p d)
  show ?thesis unfolding LAppend
  proof (rule on_fresh [OF assms(1) _ run_seq_op.simps(8)])
    fix a l xs assume "p = Ptr a" "list_at h a l xs"
    then show "case if ok then (LCode 0, insert_last (linkCompare l) d (map (dat h) xs), []) else (LCode 1, map (dat h) xs, []) of (r', ds', fr) \<Rightarrow>
      \<exists>h'. run_list_op (LAppend ok p d) h = Some (r', h') \<and> puts h h' a l ds' \<and> dealloc h' = dealloc h @ freed (linkDeallocator l) fr"
      using xmlListAppend_ok [of h a l xs d] puts_refl [of h a l xs] by (cases ok) (auto simp: code_result_def)
  qed (use assms(2) LAppend in \<open>auto simp: code_result_def xmlListAppend_def [of _ NULL]\<close>)
next
  case (LPushFront ok p d)
  show ?thesis unfolding LPushFront
  proof (rule on_fresh [OF assms(1) _ run_seq_op.simps(9)])
    fix a l xs assume "p = Ptr a" "list_at h a l xs"
    then show "case if ok then (LCode 1, d # map (dat h) xs, []) else (LCode 0, map (dat h) xs, []) of (r', ds', fr) \<Rightarrow>
      \<exists>h'. run_list_op (LPushFront ok p d) h = Some (r', h') \<and> puts h h' a l ds' \<and> dealloc h' = dealloc h @ freed (linkDeallocator l) fr"
      using pushes_ok(1,3) [of h a l xs d] puts_refl [of h a l xs] by (cases ok) (auto simp: code_result_def)
  qed (use assms(2) LPushFront in \<open>auto simp: code_result_def xmlListPushFront_def [of _ NULL]\<close>)
next
  case (LPushBack ok p d)
  show ?thesis unfolding LPushBack
  proof (rule on_fresh [OF assms(1) _ run_seq_op.simps(10)])
    fix a l xs assume "p = Ptr a" "list_at h a l xs"
    then show "case if ok then (LCode 1, map (dat h) xs @ [d], []) else (LCode 0, map (dat h) xs, []) of (r', ds', fr) \<Rightarrow>
      \<exists>h'. run_list_op (LPushBack ok p d) h = Some (r', h') \<and> puts h h' a l ds' \<and> dealloc h' = dealloc h @ freed (linkDeallocator l) fr"
      using pushes_ok(2,4) [of h a l xs d] puts_refl [of h a l xs] by (cases ok) (auto simp: code_result_def)
  qed (use assms(2) LPushBack in \<open>auto simp: code_result_def xmlListPushBack_def [of _ NULL]\<close>)
next
  case (LPopFront p)
  show ?thesis unfolding LPopFront
  proof (rule on_fresh [OF assms(1) _ run_seq_op.simps(11)])
    fix a l xs assume "p = Ptr a" "list_at h a l xs"
    then show "case (LDone, tl (map (dat h) xs), take 1 (map (dat h) xs)) of (r', ds', fr) \<Rightarrow>
      \<exists>h'. run_list_op (LPopFront p) h = Some (r', h') \<and> puts h h' a l ds' \<and> dealloc h' = dealloc h @ freed (linkDeallocator l) fr"
      using pops_ok(1) [of h a l xs] by (auto simp: plain_result_def freed_def)
  qed (use assms(2) LPopFront in \<open>auto simp: plain_result_def xmlListPopFront_def [of NULL] xmlListEmpty_def\<close>)
next
  case (LPopBack p)
  show ?thesis unfolding LPopBack
  proof (rule on_fresh [OF assms(1) _ run_seq_op.simps(12)])
    fix a l xs assume "p = Ptr a" "list_at h a l xs"
    then show "case (LDone, butlast (map (dat h) xs), take 1 (rev (map (dat h) xs))) of (r', ds', fr) \<Rightarrow>
      \<exists>h'. run_list_op (LPopBack p) h = Some (r', h') \<and> puts h h' a l ds' \<and> dealloc h' = dealloc h @ freed (linkDeallocator l) fr"
      using pops_ok(2) [of h a l xs] by (auto simp: plain_result_def freed_def)
  qed (use assms(2) LPopBack in \<open>auto simp: plain_result_def xmlListPopBack_def [of NULL] xmlListEmpty_def\<close>)
next
  case (LRemoveFirst p d)
  show ?thesis unfolding LRemoveFirst
  proof (rule on_fresh [OF assms(1) _ run_seq_op.simps(13)])
    fix a l xs assume "p = Ptr a" "list_at h a l xs"
    then show "case case find_first (linkCompare l) d (map (dat h) xs) of None \<Rightarrow> (LCode 0, map (dat h) xs, [])
        | Some x \<Rightarrow> (LCode 1, remove_first (linkCompare l) d (map (dat h) xs), [x]) of (r', ds', fr) \<Rightarrow>
      \<exists>h'. run_list_op (LRemoveFirst p d) h = Some (r', h') \<and> puts h h' a l ds' \<and> dealloc h' = dealloc h @ freed (linkDeallocator l) fr"
      using remove_first_ok [of h a l xs d]
      by (cases "find_first (linkCompare l) d (map (dat h) xs)") (auto simp: code_result_def freed_def remove_first_def)
  qed (use assms(2) LRemoveFirst in \<open>auto simp: code_result_def xmlListRemoveFirst_def [of NULL]\<close>)
next
  case (LRemoveLast p d)
  show ?thesis unfolding LRemoveLast
  proof (rule on_fresh [OF assms(1) _ run_seq_op.simps(14)])
    fix a l xs assume "p = Ptr a" "list_at h a l xs"
    then show "case case find_last (linkCompare l) d (map (dat h) xs) of None \<Rightarrow> (LCode 0, map (dat h) xs, [])
        | Some x \<Rightarrow> (LCode 1, remove_last (linkCompare l) d (map (dat h) xs), [x]) of (r', ds', fr) \<Rightarrow>
      \<exists>h'. run_list_op (LRemoveLast p d) h = Some (r', h') \<and> puts h h' a l ds' \<and> dealloc h' = dealloc h @ freed (linkDeallocator l) fr"
      using remove_last_ok [of h a l xs d]
      by (cases "find_last (linkCompare l) d (map (dat h) xs)") (auto simp: code_result_def freed_def remove_last_def)
  qed (use assms(2) LRemoveLast in \<open>auto simp: code_result_def xmlListRemoveLast_def [of NULL]\<close>)
next
  case (LReverse p)
  show ?thesis unfolding LReverse
  proof (rule on_fresh [OF assms(1) _ run_seq_op.simps(15)])
    fix a l xs assume "p = Ptr a" "list_at h a l xs"
    then show "case (LDone, rev (map (dat h) xs), []) of (r', ds', fr) \<Rightarrow>
      \<exists>h'. run_list_op (LReverse p) h = Some (r', h') \<and> puts h h' a l ds' \<and> dealloc h' = dealloc h @ freed (linkDeallocator l) fr"
      using reverse_ok [of h a l xs] by (auto simp: plain_result_def)
  qed (use assms(2) LReverse in \<open>auto simp: plain_result_def xmlListReverse_def [of NULL]\<close>)
next
  case (LWalk p w u)
  show ?thesis unfolding LWalk
    by (rule on_fresh [OF assms(1) _ run_seq_op.simps(16)])
      (use assms(2) LWalk in \<open>cases w; auto simp: xmlListWalk_def [of h NULL] xmlListWalk_def [of h _ NULL] walks_ok intro!: puts_refl\<close>)+
next
  case (LReverseWalk p w u)
  show ?thesis unfolding LReverseWalk
    by (rule on_fresh [OF assms(1) _ run_seq_op.simps(17)])
      (use assms(2) LReverseWalk in \<open>cases w; auto simp: xmlListReverseWalk_def [of h NULL] xmlListReverseWalk_def [of h _ NULL] walks_ok intro!: puts_refl\<close>)+
qed simp_all

lemma list_op_ok:
  fixes h :: "'d::linorder lheap" and op :: "('d, 'u) list_op"
  assumes "heap_ok h" "valid_handles (\<lambda>a. headers h a \<noteq> None) op"
  shows "fresh_run op h"
proof -
  have v: "\<forall>p \<in> set (handles op). live h p" "case handles op of [p, q] \<Rightarrow> p = q \<longrightarrow> p = NULL | _ \<Rightarrow> True"
    using assms(2) unfolding valid_live by blast+
  have n: "seqs h (brk h) = None" using heap_fresh [OF assms(1)] by (simp add: seqs_def)
  show ?thesis
  proof (cases "length (handles op) = 1 \<and> (\<forall>ok d p. op \<noteq> LDup ok d p \<and> op \<noteq> LSort ok d p)")
    case True
    then show ?thesis using one_op_ok [OF assms(1) v(1)] by blast
  next
    case False
    then consider ok f cp d where "op = LCreate ok f cp d" | ok p q where "op = LCopy ok p q" | ok p q where "op = LMerge ok p q"
      | ok d p where "op = LDup ok d p" | ok d p where "op = LSort ok d p" by (cases op) auto
    then show ?thesis
    proof cases
      case 1
      obtain n h' p where c: "seqs h n = None" "xmlListCreate ok f cp d h = (p, h')" "heap_ok h'" "(p, list_abs h') = seq_create n ok f cp (list_abs h)"
        by (rule create_yields [OF assms(1), of ok f cp d])
      show ?thesis using c(1-3) c(4) [symmetric] 1 by (intro fresh_run_def [THEN iffD2] exI [of _ n] exI [of _ h']) simp
    next
      case 2
      then show ?thesis using copy_yields [OF assms(1), of p q ok] v n by (auto simp: fresh_run_def code_result_def)
    next
      case 3
      then show ?thesis using merge_yields [OF assms(1), of p q ok] v n by (auto simp: fresh_run_def plain_result_def)
    next
      case 4
      then have "live h p" using v(1) by simp
      from dup_yields [OF assms(1) this, of ok d] 4 show ?thesis by (auto simp: fresh_run_def)
    next
      case 5
      then have "live h p" using v(1) by simp
      from sort_yields [OF assms(1) this, of ok d] 5 show ?thesis by (auto simp: fresh_run_def plain_result_def)
    qed
  qed
qed

interpretation xmllist: implementation
  "list_step :: ('d::linorder, 'u) list_op \<Rightarrow> 'd lheap \<Rightarrow> (('d, 'u) list_result \<times> 'd lheap) option" list_spec heap_ok list_abs "\<lambda>_. True"
proof
  fix h :: "'d::linorder lheap" and op :: "('d, 'u) list_op"
  assume w: "heap_ok h"
  have e: "fst (list_abs h) a \<noteq> None \<longleftrightarrow> headers h a \<noteq> None" for a by (simp add: list_abs_def seqs_def)
  show "\<exists>r s'. list_step op h = Some (r, s') \<and> heap_ok s' \<and> list_spec op (list_abs h) r (list_abs s')"
  proof (cases "valid_handles (\<lambda>a. headers h a \<noteq> None) op")
    case True
    then show ?thesis using list_op_ok [OF w True] unfolding fresh_run_def list_step_def list_spec_def e
      by (auto simp: list_abs_def simp del: run_seq_op.simps)
  next
    case False
    then show ?thesis using w unfolding list_step_def list_spec_def e by simp
  qed
qed

section \<open>The properties\<close>

text \<open>
  C19. Refinement.  Every sequence of operations on any number of lists runs without an access to a freed or
  unallocated link or header and without a walk that does not end, and behaves as on independent sequences of data:
  the result of each operation, the contents of all lists after it and the data handed to the deallocators are those
  of the specification, and an operation changes no list but those it is given.  Allocation failures are covered at
  every allocation.
\<close>

theorem lists_refine_sequences:
  "heap_ok h \<Longrightarrow> \<exists>rs h'. run_ops list_step ops h = Some (rs, h') \<and> heap_ok h' \<and>
    spec_ops list_spec ops (list_abs h) rs (list_abs h')"
  by (rule xmllist.run_refines) simp_all

definition no_lists :: "int lheap" where
  "no_lists = \<lparr>links = (\<lambda>_. None), headers = (\<lambda>_. None), brk = 1, dealloc = []\<rparr>"

lemma no_lists_ok: "heap_ok no_lists"
  by (simp add: no_lists_def heap_ok_def)

theorem lists_refine_sequences_witness:
  "\<exists>rs h'. run_ops list_step [LCreate (\<lambda>_. True) False NULL 0 :: (int, int) list_op, LInsert True (Ptr 1) 3, LPushBack True (Ptr 1) 5]
      no_lists = Some (rs, h') \<and> heap_ok h'"
  using lists_refine_sequences [OF no_lists_ok,
    of "[LCreate (\<lambda>_. True) False NULL 0 :: (int, int) list_op, LInsert True (Ptr 1) 3, LPushBack True (Ptr 1) 5]"] by blast


end
