(* ===== verification/OrderedLists.thy ===== *)
theory OrderedLists
  imports Sequences "HOL-Library.Multiset"
begin

text \<open>
  Lists ordered by a key: what the insertions, searches and removals compute, and that \<open>xmlListSort\<close> is a stable
  sort.  The properties that read a list are here as well.
\<close>

section \<open>Sorting and ordered lists\<close>

text \<open>The comparison orders the data by a key.\<close>

definition orders_by :: "('d \<Rightarrow> 'd \<Rightarrow> int) \<Rightarrow> ('d \<Rightarrow> 'k::linorder) \<Rightarrow> bool" where
  "orders_by c f \<longleftrightarrow> (\<forall>x y. (c x y < 0 \<longleftrightarrow> f x < f y) \<and> (c x y > 0 \<longleftrightarrow> f x > f y))"

lemma orders_by_eq: "orders_by c f \<Longrightarrow> c x y = 0 \<longleftrightarrow> f x = f y"
proof -
  assume o: "orders_by c f"
  have "c x y < 0 \<longleftrightarrow> f x < f y" "c x y > 0 \<longleftrightarrow> f x > f y" using o unfolding orders_by_def by blast+
  then show ?thesis using less_linear [of "f x" "f y"] less_linear [of "c x y" 0] by auto
qed

lemma orders_byD: "orders_by c f \<Longrightarrow> c x y < 0 \<longleftrightarrow> f x < f y" "orders_by c f \<Longrightarrow> c x y > 0 \<longleftrightarrow> f x > f y"
  by (simp_all add: orders_by_def)

lemma insert_first_insort:
  assumes "orders_by c f"
  shows "insert_first c d ds = insort_key f d ds"
  by (induction ds) (auto simp: insert_first_def orders_byD [OF assms])

lemma sorted_cut:
  assumes "sorted (map f ds)"
  shows "takeWhile (\<lambda>x. f x < k) ds = filter (\<lambda>x. f x < k) ds" "dropWhile (\<lambda>x. f x < k) ds = filter (\<lambda>x. k \<le> f x) ds"
proof -
  have "takeWhile (\<lambda>x. f x < k) ds = filter (\<lambda>x. f x < k) ds \<and> dropWhile (\<lambda>x. f x < k) ds = filter (\<lambda>x. k \<le> f x) ds"
    using assms
  proof (induction ds)
    case (Cons d ds)
    show ?case
    proof (cases "f d < k")
      case False
      then have "\<forall>x \<in> set ds. k \<le> f x" using Cons.prems by (auto simp: not_less intro: order.trans)
      then show ?thesis using False by (auto simp: filter_empty_conv filter_id_conv not_less)
    qed (use Cons in auto)
  qed simp
  then show "takeWhile (\<lambda>x. f x < k) ds = filter (\<lambda>x. f x < k) ds" "dropWhile (\<lambda>x. f x < k) ds = filter (\<lambda>x. k \<le> f x) ds" by blast+
qed

lemma sorted_cut_rev:
  assumes "sorted (map f ds)"
  shows "takeWhile (\<lambda>x. f x > k) (rev ds) = rev (filter (\<lambda>x. f x > k) ds)" "dropWhile (\<lambda>x. f x > k) (rev ds) = rev (filter (\<lambda>x. f x \<le> k) ds)"
proof -
  have "takeWhile (\<lambda>x. f x > k) (rev ds) = rev (filter (\<lambda>x. f x > k) ds) \<and> dropWhile (\<lambda>x. f x > k) (rev ds) = rev (filter (\<lambda>x. f x \<le> k) ds)"
    using assms
  proof (induction ds)
    case (Cons d ds)
    have IH: "takeWhile (\<lambda>x. f x > k) (rev ds) = rev (filter (\<lambda>x. f x > k) ds)" "dropWhile (\<lambda>x. f x > k) (rev ds) = rev (filter (\<lambda>x. f x \<le> k) ds)"
      using Cons by simp_all
    show ?case
    proof (cases "f d > k")
      case True
      then have a: "\<forall>x \<in> set ds. f x > k" using Cons.prems by auto
      then have "takeWhile (\<lambda>x. f x > k) (rev ds @ [d]) = rev ds @ [d]" "dropWhile (\<lambda>x. f x > k) (rev ds @ [d]) = []"
        using True by (simp_all add: takeWhile_eq_all_conv dropWhile_eq_Nil_conv)
      moreover have "filter (\<lambda>x. f x > k) ds = ds" "filter (\<lambda>x. f x \<le> k) ds = []" using a by (auto simp: filter_id_conv filter_empty_conv)
      ultimately show ?thesis using True by (simp add: not_le)
    next
      case False
      have t: "takeWhile P (xs @ [d]) = takeWhile P xs \<and> dropWhile P (xs @ [d]) = dropWhile P xs @ [d]" if "\<not> P d" for P xs
        using that by (induction xs) auto
      show ?thesis using t [of "\<lambda>x. f x > k" "rev ds"] IH False by simp
    qed
  qed simp
  then show "takeWhile (\<lambda>x. f x > k) (rev ds) = rev (filter (\<lambda>x. f x > k) ds)" "dropWhile (\<lambda>x. f x > k) (rev ds) = rev (filter (\<lambda>x. f x \<le> k) ds)"
    by blast+
qed

lemma copy_data_fold:
  "copy_data ok i c ds es = (True, fold (insert_first c) ds es) \<and> (\<forall>j < length ds. ok (i + j)) \<or>
   fst (copy_data ok i c ds es) = False \<and> (\<exists>j < length ds. \<not> ok (i + j))"
proof (induction ds arbitrary: i es)
  case (Cons d ds)
  have all: "(\<forall>j < length (d # ds). ok (i + j)) \<longleftrightarrow> ok i \<and> (\<forall>j < length ds. ok (Suc i + j))"
    by (auto simp: less_Suc_eq_0_disj)
  then have ex: "(\<exists>j < length (d # ds). \<not> ok (i + j)) \<longleftrightarrow> \<not> ok i \<or> (\<exists>j < length ds. \<not> ok (Suc i + j))" by blast
  show ?case using Cons.IH [of "Suc i" "insert_first c d es"] unfolding all ex by (cases "ok i") simp_all
qed simp

text \<open>Inserting at the front twice over: the two reversals cancel and the sort is stable.\<close>

lemma fold_insort: "fold (insort_key f) ds [] = sort_key f (rev ds)"
  by (simp add: sort_key_def foldr_conv_fold)

lemma sort_twice: "sort_key f (rev (sort_key f (rev ds))) = sort_key f ds"
proof (rule properties_for_sort_key [symmetric, THEN sym])
  show "mset (sort_key f ds) = mset (rev (sort_key f (rev ds)))" by simp
  show "sorted (map f (sort_key f ds))" by simp
  fix k
  have "filter (\<lambda>x. f k = f x) (sort_key f xs) = filter (\<lambda>x. f k = f x) xs" for xs :: "'a list" by (simp add: sort_key_stable eq_commute [of "f k"])
  then show "filter (\<lambda>x. f k = f x) (sort_key f ds) = filter (\<lambda>x. f k = f x) (rev (sort_key f (rev ds)))" by (simp add: rev_filter [symmetric])
qed

lemma seq_sort_cases:
  fixes c :: "'d::linorder \<Rightarrow> 'd \<Rightarrow> int"
  assumes c: "orders_by c f" and m: "m a = Some (b, c, ds)" "m n = None" "ds \<noteq> []"
  shows "\<not> (ok 0 0 \<and> ok 0 1 \<and> (\<forall>j < length ds. ok 1 j)) \<Longrightarrow> seq_sort n ok (Ptr a) (m, g) = (m, g)"
    "ok 0 0 \<and> ok 0 1 \<and> (\<forall>j < length ds. ok 1 j) \<Longrightarrow> \<forall>j < length ds. ok 2 j \<Longrightarrow>
      seq_sort n ok (Ptr a) (m, g) = (m(a \<mapsto> (b, c, sort_key f ds)), g @ freed b ds)"
    "ok 0 0 \<and> ok 0 1 \<and> (\<forall>j < length ds. ok 1 j) \<Longrightarrow> \<not> (\<forall>j < length ds. ok 2 j) \<Longrightarrow> fst (seq_sort n ok (Ptr a) (m, g)) = m(a := None)"
proof -
  have na: "n \<noteq> a" using m by auto
  have ins: "insert_first c = insort_key f" using insert_first_insort [OF c] by blast
  note cd1 = copy_data_fold [of "ok 1" 0 c ds "[]", unfolded ins fold_insort, simplified]
  let ?es = "sort_key f (rev ds)"
  note cd2 = copy_data_fold [of "ok 2" 0 c ?es "[]", unfolded ins fold_insort sort_twice, simplified]
  have gone: "m(n := None) = m" using m(2) by auto
  show "seq_sort n ok (Ptr a) (m, g) = (m, g)" if "\<not> (ok 0 0 \<and> ok 0 1 \<and> (\<forall>j < length ds. ok 1 j))"
  proof (cases "ok 0 0 \<and> ok 0 1")
    case True
    then have "fst (copy_data (ok 1) 0 c ds []) = False" using that cd1 by auto
    then show ?thesis using m na True gone by (cases "copy_data (ok 1) 0 c ds []") auto
  qed (use m in auto)
  assume ok: "ok 0 0 \<and> ok 0 1 \<and> (\<forall>j < length ds. ok 1 j)"
  then have "copy_data (ok 1) 0 c ds [] = (True, ?es)" using cd1 by auto
  then have dup: "seq_dup n ok (Ptr a) (m, g) = (Ptr n, m(n \<mapsto> (False, c, ?es)), g)" using ok m na by simp
  have s: "seq_sort n ok (Ptr a) (m, g) = seq_delete (Ptr n) (seq_merge (ok 2) (Ptr a) (Ptr n) (m(n \<mapsto> (False, c, ?es), a \<mapsto> (b, c, [])), g @ freed b ds))"
    using m na dup by (simp del: seq_dup.simps)
  show "seq_sort n ok (Ptr a) (m, g) = (m(a \<mapsto> (b, c, sort_key f ds)), g @ freed b ds)" if "\<forall>j < length ds. ok 2 j"
  proof -
    have "copy_data (ok 2) 0 c ?es [] = (True, sort_key f ds)" using that cd2 by auto
    then show ?thesis unfolding s using na m by (auto simp: seq_merge_def fun_eq_iff)
  qed
  show "fst (seq_sort n ok (Ptr a) (m, g)) = m(a := None)" if "\<not> (\<forall>j < length ds. ok 2 j)"
  proof -
    have "fst (copy_data (ok 2) 0 c ?es []) = False" using that cd2 by auto
    then show ?thesis unfolding s using na m by (cases "copy_data (ok 2) 0 c ?es []") (auto simp: seq_merge_def fun_eq_iff)
  qed
qed

lemma find_filter: "(\<And>x. P x \<Longrightarrow> Q x) \<Longrightarrow> find P (filter Q ds) = find P ds"
  by (induction ds) auto

lemma equal_head_find:
  assumes c: "orders_by c f" and s: "sorted (map f ds)" and le: "\<forall>x \<in> set ds. f d \<le> f x"
  shows "equal_head c d ds = find (\<lambda>x. f x = f d) ds"
proof (cases ds)
  case (Cons x xs)
  show ?thesis
  proof (cases "f x = f d")
    case False
    then have "f d < f x" using le Cons by auto
    then have "\<forall>y \<in> set xs. f y \<noteq> f d" using s Cons by auto
    then have "find (\<lambda>x. f x = f d) xs = None" by (simp add: find_None_iff)
    then show ?thesis using False Cons by (simp add: equal_head_def orders_by_eq [OF c])
  qed (simp add: Cons equal_head_def orders_by_eq [OF c])
qed (simp add: equal_head_def)

lemma equal_last_find:
  assumes c: "orders_by c f" and s: "sorted (map f ds)" and le: "\<forall>x \<in> set ds. f x \<le> f d"
  shows "equal_head c d (rev ds) = find (\<lambda>x. f x = f d) (rev ds)"
proof (cases ds rule: rev_cases)
  case (snoc xs x)
  show ?thesis
  proof (cases "f x = f d")
    case False
    then have "f x < f d" using le snoc by auto
    then have "\<forall>y \<in> set xs. f y \<noteq> f d" using s snoc by (auto simp: sorted_append)
    then have "find (\<lambda>x. f x = f d) (rev xs) = None" by (simp add: find_None_iff)
    then show ?thesis using False snoc by (simp add: equal_head_def orders_by_eq [OF c])
  qed (simp add: snoc equal_head_def orders_by_eq [OF c])
qed (simp add: equal_head_def)

lemma find_sorted:
  assumes "orders_by c f" "sorted (map f ds)"
  shows "find_first c d ds = find (\<lambda>x. f x = f d) ds" "find_last c d ds = find (\<lambda>x. f x = f d) (rev ds)"
proof -
  show "find_first c d ds = find (\<lambda>x. f x = f d) ds"
    unfolding find_first_def orders_byD [OF assms(1)] sorted_cut(2) [OF assms(2)]
    by (subst equal_head_find [OF assms(1)]) (auto simp: find_filter sorted_filter assms(2))
  show "find_last c d ds = find (\<lambda>x. f x = f d) (rev ds)"
    unfolding find_last_def orders_byD [OF assms(1)] sorted_cut_rev(2) [OF assms(2)]
    by (subst equal_last_find [OF assms(1)]) (auto simp: find_filter sorted_filter assms(2) rev_filter)
qed

lemma insert_last_sorted:
  assumes "orders_by c f" "sorted (map f ds)"
  shows "insert_last c d ds = filter (\<lambda>x. f x \<le> f d) ds @ d # filter (\<lambda>x. f x > f d) ds"
  unfolding insert_last_def orders_byD [OF assms(1)] sorted_cut_rev [OF assms(2)] by simp

lemma remove_first_sorted:
  assumes "orders_by c f" "sorted (map f ds)" "find_first c d ds = Some x"
  obtains us vs where "ds = us @ x # vs" "\<forall>y \<in> set us. f y \<noteq> f d" "f x = f d" "remove_first c d ds = us @ vs"
proof -
  let ?us = "takeWhile (\<lambda>y. c y d < 0) ds" let ?vs = "dropWhile (\<lambda>y. c y d < 0) ds"
  obtain vs where v: "?vs = x # vs" "c x d = 0" using assms(3) by (auto simp: find_first_def equal_head_def split: list.splits if_splits)
  have "ds = ?us @ x # vs" unfolding v(1) [symmetric] by simp
  moreover have "\<forall>y \<in> set ?us. f y \<noteq> f d" by (auto dest!: set_takeWhileD simp: orders_byD [OF assms(1)])
  ultimately show thesis using that v assms(3) orders_by_eq [OF assms(1)] by (simp add: remove_first_def)
qed

lemma remove_all_loop_ok:
  assumes "orders_by (linkCompare l) f" "sorted (map f (map (dat h) xs))" "list_at h a l xs"
    "int n + int (length (filter (\<lambda>x. f x = f d) (map (dat h) xs))) \<le> INT_MAX"
  shows "\<exists>h'. remove_all_loop (Ptr a) d (int n) h = Some (int n + int (length (filter (\<lambda>x. f x = f d) (map (dat h) xs))), h') \<and>
    puts h h' a l (filter (\<lambda>x. f x \<noteq> f d) (map (dat h) xs)) \<and>
    dealloc h' = dealloc h @ freed (linkDeallocator l) (filter (\<lambda>x. f x = f d) (map (dat h) xs))"
  using assms(2-)
proof (induction "length xs" arbitrary: xs h n rule: less_induct)
  case less
  let ?ds = "map (dat h) xs" let ?c = "linkCompare l"
  obtain h1 xs1 where h1: "xmlListRemoveFirst (Ptr a) d h = Some (if find_first ?c d ?ds = None then 0 else 1, h1)"
    "puts h h1 a l (remove_first ?c d ?ds)" "list_at h1 a l xs1" "map (dat h1) xs1 = remove_first ?c d ?ds"
    "dealloc h1 = dealloc h @ (case find_first ?c d ?ds of None \<Rightarrow> [] | Some x \<Rightarrow> if linkDeallocator l then [x] else [])"
    using remove_first_ok [OF less.prems(2), of d] by blast
  show ?case
  proof (cases "find_first ?c d ?ds")
    case None
    have "find (\<lambda>x. f x = f d) ?ds = None" unfolding find_sorted(1) [OF assms(1) less.prems(1), of d, symmetric] by (rule None)
    then have "\<forall>y \<in> set ?ds. f y \<noteq> f d" unfolding find_None_iff by blast
    then have "filter (\<lambda>x. f x = f d) ?ds = []" "filter (\<lambda>x. f x \<noteq> f d) ?ds = ?ds" by (simp_all only: filter_empty_conv filter_id_conv simp_thms)
    moreover have "remove_all_loop (Ptr a) d (int n) h = Some (int n, h1)" using h1(1) None by (simp add: remove_all_loop.simps)
    ultimately show ?thesis using h1(2,5) None by (simp add: remove_first_def)
  next
    case (Some x)
    obtain us vs where uv: "?ds = us @ x # vs" "\<forall>y \<in> set us. f y \<noteq> f d" "f x = f d" "remove_first ?c d ?ds = us @ vs"
      by (rule remove_first_sorted [OF assms(1) less.prems(1) Some])
    have ds1: "map (dat h1) xs1 = us @ vs" using h1(4) uv(4) by simp
    have e: "filter (\<lambda>x. f x = f d) ?ds = x # filter (\<lambda>x. f x = f d) (us @ vs)" "filter (\<lambda>x. f x \<noteq> f d) ?ds = filter (\<lambda>x. f x \<noteq> f d) (us @ vs)"
      unfolding uv(1) using uv(2,3) by (simp_all add: filter_empty_conv)
    have "length ?ds = Suc (length (map (dat h1) xs1))" unfolding uv(1) ds1 by simp
    then have len: "length xs1 < length xs" by simp
    have s: "sorted (map f (map (dat h1) xs1))" using less.prems(1) unfolding uv(1) ds1 by (auto simp: sorted_append)
    have n: "int (Suc n) + int (length (filter (\<lambda>x. f x = f d) (map (dat h1) xs1))) \<le> INT_MAX"
      using less.prems(3) unfolding e ds1 by simp
    obtain h' where h': "remove_all_loop (Ptr a) d (int (Suc n)) h1 = Some (int (Suc n) + int (length (filter (\<lambda>x. f x = f d) (us @ vs))), h')"
      "puts h1 h' a l (filter (\<lambda>x. f x \<noteq> f d) (us @ vs))" "dealloc h' = dealloc h1 @ freed (linkDeallocator l) (filter (\<lambda>x. f x = f d) (us @ vs))"
      using less.hyps [OF len s h1(3) n] unfolding ds1 by blast
    have "c_incr (int n) = Some (int (Suc n))" using less.prems(3) unfolding e by (simp add: c_incr_def)
    then have "remove_all_loop (Ptr a) d (int n) h = remove_all_loop (Ptr a) d (int (Suc n)) h1"
      using h1(1) Some by (subst remove_all_loop.simps) simp
    moreover have "dealloc h' = dealloc h @ freed (linkDeallocator l) (x # filter (\<lambda>x. f x = f d) (us @ vs))"
      using h'(3) h1(5) Some by (simp add: freed_def)
    ultimately show ?thesis using h'(1) puts_trans [OF h1(2) h'(2)] unfolding e by simp
  qed
qed

section \<open>The properties of ordered lists\<close>

text \<open>A list of the numbers 3 and 1.\<close>

definition two_header :: "int xmlList" where
  "two_header = \<lparr>sentinel = 2, linkDeallocator = True, linkCompare = (-)\<rparr>"

definition two_list :: "int lheap" where
  "two_list = \<lparr>
     links = [2 \<mapsto> \<lparr>lnext = 3, lprev = 4, ldata = 0\<rparr>, 3 \<mapsto> \<lparr>lnext = 4, lprev = 2, ldata = 3\<rparr>,
       4 \<mapsto> \<lparr>lnext = 2, lprev = 3, ldata = 1\<rparr>],
     headers = [1 \<mapsto> two_header], brk = 5, dealloc = []\<rparr>"

lemma two_list_ok: "heap_ok two_list" "seqs two_list 1 = Some (True, (-), [3, 1])" "orders_by (-) (\<lambda>x::int. x)"
proof -
  have r: "ring two_list 2 [3, 4]" by (simp add: ring_def two_list_def)
  show w: "heap_ok two_list"
    unfolding heap_ok_def
  proof (intro conjI)
    show "\<forall>a l. headers two_list a = Some l \<longrightarrow> (\<exists>xs. ring two_list (sentinel l) xs)"
      using r by (auto simp: two_list_def two_header_def)
  qed (auto simp: two_list_def split: if_splits)
  then have "list_at two_list 1 two_header [3, 4]" using r by (simp add: list_at_def two_list_def two_header_def)
  from at_seqs [OF this] show "seqs two_list 1 = Some (True, (-), [3, 1])" by (simp add: two_list_def two_header_def)
  show "orders_by (-) (\<lambda>x::int. x)" by (auto simp: orders_by_def)
qed

text \<open>
  C27. Functional.  When the comparison orders the data by a key, xmlListSort of a non-empty list, which inserts every
  element into a copy and then every element of the copy back, is the stable sort by that key.  The data is handed to
  the deallocator although it stays in the list.  When an allocation fails while copying, the list is unchanged; when
  one fails while inserting back, the list itself is freed.
\<close>

theorem xmlListSort_correct:
  fixes f :: "'d::linorder \<Rightarrow> 'k::linorder"
  assumes "heap_ok h" "seqs h a = Some (b, c, ds)" "orders_by c f" "ds \<noteq> []"
  shows "\<exists>h'. xmlListSort ok null (Ptr a) h = Some h' \<and> heap_ok h' \<and>
    (if \<not> (ok 0 0 \<and> ok 0 1 \<and> (\<forall>j < length ds. ok 1 j)) then seqs h' = seqs h \<and> dealloc h' = dealloc h
     else if \<forall>j < length ds. ok 2 j then seqs h' = (seqs h)(a \<mapsto> (b, c, sort_key f ds)) \<and> dealloc h' = dealloc h @ freed b ds
     else seqs h' = (seqs h)(a := None))"
proof -
  have "live h (Ptr a)" using assms(2) by (simp add: live_seqs)
  from sort_yields [OF assms(1) this, of ok null] obtain n h' where
    h': "seqs h n = None" "xmlListSort ok null (Ptr a) h = Some h'" "heap_ok h'" "(seqs h', dealloc h') = seq_sort n ok (Ptr a) (seqs h, dealloc h)"
    unfolding list_abs_def by blast
  note s = seq_sort_cases [OF assms(3,2) h'(1) assms(4), of ok "dealloc h"]
  have p: "seqs h' = fst (seq_sort n ok (Ptr a) (seqs h, dealloc h))" "dealloc h' = snd (seq_sort n ok (Ptr a) (seqs h, dealloc h))"
    unfolding h'(4) [symmetric] by simp_all
  let ?A = "ok 0 0 \<and> ok 0 1 \<and> (\<forall>j < length ds. ok 1 j)" let ?B = "\<forall>j < length ds. ok 2 j"
  consider "\<not> ?A" | "?A" "?B" | "?A" "\<not> ?B" by blast
  then have "if \<not> ?A then seqs h' = seqs h \<and> dealloc h' = dealloc h
     else if ?B then seqs h' = (seqs h)(a \<mapsto> (b, c, sort_key f ds)) \<and> dealloc h' = dealloc h @ freed b ds
     else seqs h' = (seqs h)(a := None)"
  proof cases
    case 1
    show ?thesis unfolding if_P [OF 1] p s(1) [OF 1] fst_conv snd_conv by (intro conjI refl)
  next
    case 2
    have "\<not> \<not> ?A" using 2(1) by blast
    then show ?thesis unfolding if_not_P [OF \<open>\<not> \<not> ?A\<close>] if_P [OF 2(2)] p s(2) [OF 2] fst_conv snd_conv by (intro conjI refl)
  next
    case 3
    have "\<not> \<not> ?A" using 3(1) by blast
    show ?thesis unfolding if_not_P [OF \<open>\<not> \<not> ?A\<close>] if_not_P [OF 3(2)] p(1) s(3) [OF 3] by (rule refl)
  qed
  then show ?thesis using h'(2,3) by blast
qed

theorem xmlListSort_correct_witness:
  "\<exists>h'. xmlListSort (\<lambda>_ _. True) 0 (Ptr 1) two_list = Some h' \<and> seqs h' 1 = Some (True, (-), [1, 3]) \<and> dealloc h' = [3, 1]"
proof -
  obtain h' where "xmlListSort (\<lambda>_ _. True) 0 (Ptr 1) two_list = Some h'"
    "seqs h' = (seqs two_list)(1 \<mapsto> (True, (-), sort_key (\<lambda>x. x) [3, 1]))" "dealloc h' = dealloc two_list @ freed True [3, 1]"
    using xmlListSort_correct [OF two_list_ok, of "\<lambda>_ _. True" 0] by auto
  then show ?thesis by (simp add: two_list_def)
qed

text \<open>
  C28. Functional.  A list that is ordered by a key stays ordered under xmlListInsert, which puts the datum before
  those with an equal key, and under xmlListAppend, which puts it after them; xmlListSearch and
  xmlListReverseSearch return the first and the last datum with an equal key exactly when there is one; and
  xmlListRemoveAll removes all of them and returns how many there were.
\<close>

theorem ordered_lists:
  fixes f :: "'d \<Rightarrow> 'k::linorder"
  assumes "heap_ok h" "seqs h a = Some (b, c, ds)" "orders_by c f" "sorted (map f ds)"
    "int (length (filter (\<lambda>x. f x = f d) ds)) \<le> INT_MAX"
  shows "(\<exists>h'. xmlListInsert True (Ptr a) d h = Some (0, h') \<and>
      seqs h' = (seqs h)(a \<mapsto> (b, c, filter (\<lambda>x. f x < f d) ds @ d # filter (\<lambda>x. f d \<le> f x) ds))) \<and>
    (\<exists>h'. xmlListAppend True (Ptr a) d h = Some (0, h') \<and>
      seqs h' = (seqs h)(a \<mapsto> (b, c, filter (\<lambda>x. f x \<le> f d) ds @ d # filter (\<lambda>x. f d < f x) ds))) \<and>
    xmlListSearch h (Ptr a) d = Some (ptr_of (find (\<lambda>x. f x = f d) ds)) \<and>
    xmlListReverseSearch h (Ptr a) d = Some (ptr_of (find (\<lambda>x. f x = f d) (rev ds))) \<and>
    (\<exists>h'. xmlListRemoveAll (Ptr a) d h = Some (int (length (filter (\<lambda>x. f x = f d) ds)), h') \<and>
      seqs h' = (seqs h)(a \<mapsto> (b, c, filter (\<lambda>x. f x \<noteq> f d) ds)) \<and>
      dealloc h' = dealloc h @ freed b (filter (\<lambda>x. f x = f d) ds))"
proof -
  obtain l xs where l: "list_at h a l xs" "linkDeallocator l = b" "linkCompare l = c" "map (dat h) xs = ds"
    by (rule seqs_at [OF assms(1,2)])
  have i: "insert_first c d ds = filter (\<lambda>x. f x < f d) ds @ d # filter (\<lambda>x. f d \<le> f x) ds"
    unfolding insert_first_def orders_byD [OF assms(3)] sorted_cut [OF assms(4)] ..
  have 1: "\<exists>h'. xmlListInsert True (Ptr a) d h = Some (0, h') \<and> seqs h' = (seqs h)(a \<mapsto> (b, c, insert_first c d ds))"
    using xmlListInsert_ok(2) [OF l(1), of d] unfolding l(2-4) puts_def by blast
  have 2: "\<exists>h'. xmlListAppend True (Ptr a) d h = Some (0, h') \<and> seqs h' = (seqs h)(a \<mapsto> (b, c, insert_last c d ds))"
    using xmlListAppend_ok(2) [OF l(1), of d] unfolding l(2-4) puts_def by blast
  have 3: "\<exists>h'. xmlListRemoveAll (Ptr a) d h = Some (int (length (filter (\<lambda>x. f x = f d) ds)), h') \<and>
      seqs h' = (seqs h)(a \<mapsto> (b, c, filter (\<lambda>x. f x \<noteq> f d) ds)) \<and> dealloc h' = dealloc h @ freed b (filter (\<lambda>x. f x = f d) ds)"
    using remove_all_loop_ok [of l f h xs a 0 d] assms(3-5) l unfolding puts_def by (auto simp: xmlListRemoveAll_def)
  show ?thesis
    using 1 2 3 search_ok [OF l(1), of d] unfolding l(3,4) find_sorted [OF assms(3,4)] i insert_last_sorted [OF assms(3,4)] by blast
qed

text \<open>The same list in order.\<close>

definition two_sorted :: "int lheap" where
  "two_sorted = \<lparr>
     links = [2 \<mapsto> \<lparr>lnext = 3, lprev = 4, ldata = 0\<rparr>, 3 \<mapsto> \<lparr>lnext = 4, lprev = 2, ldata = 1\<rparr>,
       4 \<mapsto> \<lparr>lnext = 2, lprev = 3, ldata = 3\<rparr>],
     headers = [1 \<mapsto> two_header], brk = 5, dealloc = []\<rparr>"

lemma two_sorted_ok: "heap_ok two_sorted" "seqs two_sorted 1 = Some (True, (-), [1, 3])"
proof -
  have r: "ring two_sorted 2 [3, 4]" by (simp add: ring_def two_sorted_def)
  show w: "heap_ok two_sorted"
    unfolding heap_ok_def
  proof (intro conjI)
    show "\<forall>a l. headers two_sorted a = Some l \<longrightarrow> (\<exists>xs. ring two_sorted (sentinel l) xs)"
      using r by (auto simp: two_sorted_def two_header_def)
  qed (auto simp: two_sorted_def split: if_splits)
  then have "list_at two_sorted 1 two_header [3, 4]" using r by (simp add: list_at_def two_sorted_def two_header_def)
  from at_seqs [OF this] show "seqs two_sorted 1 = Some (True, (-), [1, 3])" by (simp add: two_sorted_def two_header_def)
qed

theorem ordered_lists_witness:
  "xmlListSearch two_sorted (Ptr 1) 3 = Some (Ptr 3) \<and> (\<exists>h'. xmlListRemoveAll (Ptr 1) 3 two_sorted = Some (1, h'))"
  using ordered_lists [OF two_sorted_ok two_list_ok(3), of 3] by (auto simp: ptr_of_def)

text \<open>
  Functional.  The operations that read a list: the size, the ends, and the walks, which apply the walker to the
  data in order (or in reverse) until it returns 0.
\<close>

theorem list_reads:
  assumes "heap_ok h" "seqs h a = Some (b, c, ds)"
  shows "xmlListSize h (Ptr a) = (if int (length ds) \<le> INT_MAX then Some (int (length ds)) else None) \<and>
    xmlListWalk h (Ptr a) (Ptr walker) u = Some (walk_data walker ds u) \<and>
    xmlListReverseWalk h (Ptr a) (Ptr walker) u = Some (walk_data walker (rev ds) u) \<and>
    (ds = [] \<or> (\<exists>p q. xmlListFront h (Ptr a) = Some p \<and> xmlLinkGetData h p = Some (Ptr (hd ds)) \<and>
      xmlListEnd h (Ptr a) = Some q \<and> xmlLinkGetData h q = Some (Ptr (last ds))))"
proof -
  obtain l xs where l: "list_at h a l xs" "map (dat h) xs = ds" by (rule seqs_at [OF assms])
  have len: "length xs = length ds" using l(2) by auto
  have in_xs: "xmlLinkGetData h (Ptr x) = Some (Ptr (dat h x))" if "x \<in> set xs" for x
    using l(1) that by (auto simp: list_at_def ring_def xmlLinkGetData_def)
  have "ds \<noteq> [] \<Longrightarrow> xs \<noteq> [] \<and> hd ds = dat h (hd xs) \<and> last ds = dat h (last xs)" using l(2) by (auto simp: hd_map last_map)
  then have "ds \<noteq> [] \<Longrightarrow> \<exists>p q. xmlListFront h (Ptr a) = Some p \<and> xmlLinkGetData h p = Some (Ptr (hd ds)) \<and>
      xmlListEnd h (Ptr a) = Some q \<and> xmlLinkGetData h q = Some (Ptr (last ds))"
    using ends_ok [OF l(1)] in_xs by auto
  then show ?thesis using walks_ok [OF l(1), of walker u] unfolding size_ok [OF l(1)] len l(2) by blast
qed

theorem list_reads_witness:
  "xmlListSize two_list (Ptr 1) = Some 2 \<and>
   xmlListWalk two_list (Ptr 1) (Ptr (\<lambda>x u. (u + x, 1))) 0 = Some 4"
  using list_reads [OF two_list_ok(1,2), of "\<lambda>x u. (u + x, 1)" 0] by simp

end
