(* ===== verification/UriParser.thy ===== *)
theory UriParser
  imports Xmlstring
begin

text \<open>
  The parser of \<open>uri.c\<close>: character classes, the structure \<open>xmlURI\<close>, unescaping, and the functions of the RFC 3986
  grammar with their entry points.
\<close>

text \<open>
  \<open>uri.c\<close>: the RFC 3986 parser, saving, escaping and unescaping, path normalization and resolution.  A pointer
  into the string that is parsed is the rest of the string from there.  The functions that advance a pointer return
  their code, the URI structure and the new pointer.  The code is that of a build without
  \<open>LIBXML_WINPATH_ENABLED\<close>; the \<open>uri\<close> argument is a structure, as in every call in the library.
\<close>

section \<open>Character classes\<close>

definition IS_LOWALPHA :: "byte \<Rightarrow> bool" where
  "IS_LOWALPHA x \<longleftrightarrow> x \<ge> ch (CHR ''a'') \<and> x \<le> ch (CHR ''z'')"

definition IS_UPALPHA :: "byte \<Rightarrow> bool" where
  "IS_UPALPHA x \<longleftrightarrow> x \<ge> ch (CHR ''A'') \<and> x \<le> ch (CHR ''Z'')"

definition IS_ALPHA :: "byte \<Rightarrow> bool" where
  "IS_ALPHA x \<longleftrightarrow> IS_LOWALPHA x \<or> IS_UPALPHA x"

definition IS_DIGIT :: "byte \<Rightarrow> bool" where
  "IS_DIGIT x \<longleftrightarrow> x \<ge> ch (CHR ''0'') \<and> x \<le> ch (CHR ''9'')"

definition IS_ALPHANUM :: "byte \<Rightarrow> bool" where
  "IS_ALPHANUM x \<longleftrightarrow> IS_ALPHA x \<or> IS_DIGIT x"

definition IS_MARK :: "byte \<Rightarrow> bool" where
  "IS_MARK x \<longleftrightarrow> x \<in> set (asc ''-_.!~*'') \<or> x = ch (CHR 0x27) \<or> x \<in> set (asc ''()'')"

definition IS_UNWISE :: "byte \<Rightarrow> bool" where
  "IS_UNWISE p \<longleftrightarrow> p \<in> set (asc ''{}|'') \<or> p = ch (CHR 0x5C) \<or> p \<in> set (asc ''^[]'') \<or> p = ch (CHR 0x60)"

definition IS_RESERVED :: "byte \<Rightarrow> bool" where
  "IS_RESERVED x \<longleftrightarrow> x \<in> set (asc '';/?:@&=+$,[]'')"

definition IS_UNRESERVED :: "byte \<Rightarrow> bool" where
  "IS_UNRESERVED x \<longleftrightarrow> IS_ALPHANUM x \<or> IS_MARK x"

definition ISA_DIGIT :: "byte \<Rightarrow> bool" where
  "ISA_DIGIT p \<longleftrightarrow> p \<ge> ch (CHR ''0'') \<and> p \<le> ch (CHR ''9'')"

definition ISA_ALPHA :: "byte \<Rightarrow> bool" where
  "ISA_ALPHA p \<longleftrightarrow> (p \<ge> ch (CHR ''a'') \<and> p \<le> ch (CHR ''z'')) \<or> (p \<ge> ch (CHR ''A'') \<and> p \<le> ch (CHR ''Z''))"

definition ISA_HEXDIG :: "byte \<Rightarrow> bool" where
  "ISA_HEXDIG p \<longleftrightarrow> ISA_DIGIT p \<or> (p \<ge> ch (CHR ''a'') \<and> p \<le> ch (CHR ''f'')) \<or> (p \<ge> ch (CHR ''A'') \<and> p \<le> ch (CHR ''F''))"

definition ISA_SUB_DELIM :: "byte \<Rightarrow> bool" where
  "ISA_SUB_DELIM p \<longleftrightarrow> p \<in> set (asc ''!$&()*+,;='') \<or> p = ch (CHR 0x27)"

definition ISA_GEN_DELIM :: "byte \<Rightarrow> bool" where
  "ISA_GEN_DELIM p \<longleftrightarrow> p \<in> set (asc '':/?#[]@'')"

definition ISA_RESERVED :: "byte \<Rightarrow> bool" where
  "ISA_RESERVED p \<longleftrightarrow> ISA_GEN_DELIM p \<or> ISA_SUB_DELIM p"

definition ISA_STRICTLY_UNRESERVED :: "byte \<Rightarrow> bool" where
  "ISA_STRICTLY_UNRESERVED p \<longleftrightarrow> ISA_ALPHA p \<or> ISA_DIGIT p \<or> p \<in> set (asc ''-._~'')"

text \<open>On a signed \<open>char\<close> the first two tests hold for all bytes from 0x80 as well.\<close>

definition ISA_UCSCHAR :: "byte \<Rightarrow> bool" where
  "ISA_UCSCHAR p \<longleftrightarrow> p \<le> 0x20 \<or> p \<ge> 0x7F \<or> p \<in> set (asc ''<>'') \<or> p = ch (CHR 0x22) \<or> p \<in> set (asc ''{}|'') \<or>
     p = ch (CHR 0x5C) \<or> p = ch (CHR ''^'') \<or> p = ch (CHR 0x60)"

text \<open>The macros that read several bytes.  \<open>||\<close> evaluates its second operand when the first is false.\<close>

definition or_else :: "bool option \<Rightarrow> bool option \<Rightarrow> bool option" where
  "or_else a b = do { x \<leftarrow> a; if x then Some True else b }"

definition ISA_PCT_ENCODED :: "bytes \<Rightarrow> bool option" where
  "ISA_PCT_ENCODED p = do {
     c \<leftarrow> rd p 0;
     if c \<noteq> ch (CHR ''%'') then Some False
     else do {
       d \<leftarrow> rd p 1;
       if \<not> ISA_HEXDIG d then Some False
       else do { e \<leftarrow> rd p 2; Some (ISA_HEXDIG e) } } }"

definition test :: "(byte \<Rightarrow> bool) \<Rightarrow> bytes \<Rightarrow> bool option" where
  "test P p = do { c \<leftarrow> rd p 0; Some (P c) }"

section \<open>The structure\<close>

record xmlURI =
  scheme :: xmlString
  opaque :: xmlString
  authority :: xmlString
  server :: xmlString
  user :: xmlString
  port :: int
  path :: xmlString
  query :: xmlString
  fragment :: xmlString
  cleanup :: uint
  query_raw :: xmlString

abbreviation PORT_EMPTY :: int where "PORT_EMPTY \<equiv> 0"
abbreviation PORT_EMPTY_SERVER :: int where "PORT_EMPTY_SERVER \<equiv> - 1"
abbreviation XML_URI_ALLOW_UNWISE :: uint where "XML_URI_ALLOW_UNWISE \<equiv> 1"
abbreviation XML_URI_NO_UNESCAPE :: uint where "XML_URI_NO_UNESCAPE \<equiv> 2"
abbreviation XML_URI_ALLOW_UCSCHAR :: uint where "XML_URI_ALLOW_UCSCHAR \<equiv> 4"

definition xmlIsUnreserved :: "xmlURI \<Rightarrow> bytes \<Rightarrow> bool option" where
  "xmlIsUnreserved uri cur = do {
     c \<leftarrow> rd cur 0;
     Some (if ISA_STRICTLY_UNRESERVED c then True
           else if cleanup uri AND XML_URI_ALLOW_UNWISE \<noteq> 0 then IS_UNWISE c
           else if cleanup uri AND XML_URI_ALLOW_UCSCHAR \<noteq> 0 then ISA_UCSCHAR c
           else False) }"

definition ISA_PCHAR :: "xmlURI \<Rightarrow> bytes \<Rightarrow> bool option" where
  "ISA_PCHAR u p =
     or_else (xmlIsUnreserved u p) (or_else (ISA_PCT_ENCODED p)
       (test (\<lambda>c. ISA_SUB_DELIM c \<or> c = ch (CHR '':'') \<or> c = ch (CHR ''@'')) p))"

text \<open>\<open>NEXT\<close>, and the loops \<open>while (test) NEXT(cur)\<close> and \<open>while (test) cur++\<close>.\<close>

definition NEXT :: "bytes \<Rightarrow> bytes option" where
  "NEXT p = do { c \<leftarrow> rd p 0; Some (if c = ch (CHR ''%'') then drop 3 p else drop 1 p) }"

function skip_next :: "(bytes \<Rightarrow> bool option) \<Rightarrow> bytes \<Rightarrow> bytes option" where
  "skip_next P cur = do { b \<leftarrow> P cur; if b then do { cur' \<leftarrow> NEXT cur; skip_next P cur' } else Some cur }"
  by pat_completeness auto
termination
  by (relation "measure (length \<circ> snd)") (auto simp: NEXT_def rd_def split: if_splits bind_splits)

declare skip_next.simps [simp del]

fun skip_chars :: "(byte \<Rightarrow> bool) \<Rightarrow> bytes \<Rightarrow> bytes option" where
  "skip_chars P [] = None"
| "skip_chars P (c # cur) = (if P c then skip_chars P cur else Some (c # cur))"

text \<open>\<open>cur - str\<close>, passed as an \<open>int\<close>.\<close>

definition ptr_diff :: "bytes \<Rightarrow> bytes \<Rightarrow> int" where
  "ptr_diff cur str = c_int (int (length str) - int (length cur))"

section \<open>Unescaping\<close>

definition is_hex :: "byte \<Rightarrow> bool" where
  "is_hex c \<longleftrightarrow> (c \<ge> ch (CHR ''0'') \<and> c \<le> ch (CHR ''9'')) \<or> (c \<ge> ch (CHR ''a'') \<and> c \<le> ch (CHR ''f'')) \<or>
     (c \<ge> ch (CHR ''A'') \<and> c \<le> ch (CHR ''F''))"

definition hex_digit :: "byte \<Rightarrow> byte" where
  "hex_digit c =
     (if c \<ge> ch (CHR ''0'') \<and> c \<le> ch (CHR ''9'') then c - ch (CHR ''0'')
      else if c \<ge> ch (CHR ''a'') \<and> c \<le> ch (CHR ''f'') then c - ch (CHR ''a'') + 10
      else if c \<ge> ch (CHR ''A'') \<and> c \<le> ch (CHR ''F'') then c - ch (CHR ''A'') + 10
      else 0)"

text \<open>The bytes that the loop writes for \<open>len\<close> bytes of input.\<close>

function unescape_loop :: "nat \<Rightarrow> bytes \<Rightarrow> bytes option" where
  "unescape_loop len inp =
     (if len = 0 then Some []
      else do {
        c \<leftarrow> rd inp 0;
        esc \<leftarrow> (if len > 2 \<and> c = ch (CHR ''%'') then do {
                 d \<leftarrow> rd inp 1;
                 if is_hex d then do { e \<leftarrow> rd inp 2; Some (is_hex e) } else Some False }
               else Some False);
        if esc then do {
          d \<leftarrow> rd inp 1;
          e \<leftarrow> rd inp 2;
          out \<leftarrow> unescape_loop (len - 3) (drop 3 inp);
          Some ((hex_digit d * 16 + hex_digit e) # out) }
        else do { out \<leftarrow> unescape_loop (len - 1) (drop 1 inp); Some (c # out) } })"
  by pat_completeness auto
termination
  by (relation "measure fst") auto

declare unescape_loop.simps [simp del]

text \<open>
  \<open>target\<close> is NULL or a buffer of the caller.  A new block ends at the terminator: the bytes behind it are not
  initialised.
\<close>

definition xmlURIUnescapeString :: "allocator \<Rightarrow> xmlString \<Rightarrow> int \<Rightarrow> xmlString \<Rightarrow> xmlString option" where
  "xmlURIUnescapeString mem str len0 target =
     (case str of
        NULL \<Rightarrow> Some NULL
      | Ptr s \<Rightarrow> do {
          len \<leftarrow> (if len0 \<le> 0 then do { n \<leftarrow> strlen s; Some (c_int (int n)) } else Some len0);
          if len < 0 then Some NULL
          else case target of
            NULL \<Rightarrow>
              if \<not> mem (nat len + 1) then Some NULL
              else do {
                out \<leftarrow> unescape_loop (nat len) s;
                if length out \<le> nat len then Some (Ptr (out @ [0])) else None }
          | Ptr t \<Rightarrow> do {
              out \<leftarrow> unescape_loop (nat len) s;
              t' \<leftarrow> copy_out t 0 (out @ [0]);
              Some (Ptr t') } })"

section \<open>The parser\<close>

type_synonym parser_result = "(int \<times> xmlURI \<times> bytes) option"

text \<open>The value stored for the \<open>n\<close> bytes from \<open>str\<close>, as they are or unescaped.\<close>

definition component :: "allocator \<Rightarrow> xmlURI \<Rightarrow> bytes \<Rightarrow> bytes \<Rightarrow> xmlString option" where
  "component mem uri str cur =
     (if cleanup uri AND XML_URI_NO_UNESCAPE \<noteq> 0 then xmlStrndup mem (Ptr str) (ptr_diff cur str)
      else xmlURIUnescapeString mem (Ptr str) (ptr_diff cur str) NULL)"

definition xmlParse3986Scheme :: "allocator \<Rightarrow> xmlURI \<Rightarrow> bytes \<Rightarrow> parser_result" where
  "xmlParse3986Scheme mem uri str = do {
     c \<leftarrow> rd str 0;
     if \<not> ISA_ALPHA c then Some (1, uri, str)
     else do {
       cur \<leftarrow> skip_chars (\<lambda>c. ISA_ALPHA c \<or> ISA_DIGIT c \<or> c \<in> set (asc ''+-.'')) (drop 1 str);
       s \<leftarrow> xmlStrndup mem (Ptr str) (ptr_diff cur str);
       let uri1 = uri\<lparr>scheme := s\<rparr>;
       Some (if s = NULL then (- 1, uri1, str) else (0, uri1, cur)) } }"

definition xmlParse3986Fragment :: "allocator \<Rightarrow> xmlURI \<Rightarrow> bytes \<Rightarrow> parser_result" where
  "xmlParse3986Fragment mem uri str = do {
     cur \<leftarrow> skip_next (\<lambda>p. or_else (ISA_PCHAR uri p) (test (\<lambda>c. c \<in> set (asc ''/?[]'')) p)) str;
     s \<leftarrow> component mem uri str cur;
     let uri1 = uri\<lparr>fragment := s\<rparr>;
     Some (if s = NULL then (- 1, uri1, str) else (0, uri1, cur)) }"

definition xmlParse3986Query :: "allocator \<Rightarrow> xmlURI \<Rightarrow> bytes \<Rightarrow> parser_result" where
  "xmlParse3986Query mem uri str = do {
     cur \<leftarrow> skip_next (\<lambda>p. or_else (ISA_PCHAR uri p) (test (\<lambda>c. c \<in> set (asc ''/?'')) p)) str;
     s \<leftarrow> component mem uri str cur;
     let uri1 = uri\<lparr>query := s\<rparr>;
     if s = NULL then Some (- 1, uri1, str)
     else do {
       q \<leftarrow> xmlStrndup mem (Ptr str) (ptr_diff cur str);
       let uri2 = uri1\<lparr>query_raw := q\<rparr>;
       Some (if q = NULL then (- 1, uri2, str) else (0, uri2, cur)) } }"

text \<open>The digits of a port: NULL when the number is greater than \<open>INT_MAX\<close>.\<close>

fun port_loop :: "int \<Rightarrow> bytes \<Rightarrow> (int \<times> bytes) ptr option" where
  "port_loop n [] = None"
| "port_loop n (c # cur) =
     (if ISA_DIGIT c then
        let digit = uint (c - ch (CHR ''0''))
        in if n > INT_MAX div 10 then Some NULL
           else if n * 10 > INT_MAX - digit then Some NULL
           else port_loop (n * 10 + digit) cur
      else Some (Ptr (n, c # cur)))"

definition xmlParse3986Port :: "xmlURI \<Rightarrow> bytes \<Rightarrow> parser_result" where
  "xmlParse3986Port uri str = do {
     c \<leftarrow> rd str 0;
     if ISA_DIGIT c then do {
       r \<leftarrow> port_loop 0 str;
       Some (case r of NULL \<Rightarrow> (1, uri, str) | Ptr (n, cur) \<Rightarrow> (0, uri\<lparr>port := n\<rparr>, cur)) }
     else Some (1, uri, str) }"

definition xmlParse3986Userinfo :: "allocator \<Rightarrow> xmlURI \<Rightarrow> bytes \<Rightarrow> parser_result" where
  "xmlParse3986Userinfo mem uri str = do {
     cur \<leftarrow> skip_next (\<lambda>p. or_else (xmlIsUnreserved uri p) (or_else (ISA_PCT_ENCODED p)
       (test (\<lambda>c. ISA_SUB_DELIM c \<or> c = ch (CHR '':'')) p))) str;
     c \<leftarrow> rd cur 0;
     if c = ch (CHR ''@'') then do {
       s \<leftarrow> component mem uri str cur;
       let uri1 = uri\<lparr>user := s\<rparr>;
       Some (if s = NULL then (- 1, uri1, str) else (0, uri1, cur)) }
     else Some (1, uri, str) }"

text \<open>NULL for the return value 1, otherwise the rest behind the octet.\<close>

definition xmlParse3986DecOctet :: "bytes \<Rightarrow> bytes ptr option" where
  "xmlParse3986DecOctet cur = do {
     c0 \<leftarrow> rd cur 0;
     if \<not> ISA_DIGIT c0 then Some NULL
     else do {
       c1 \<leftarrow> rd cur 1;
       if \<not> ISA_DIGIT c1 then Some (Ptr (drop 1 cur))
       else do {
         c2 \<leftarrow> rd cur 2;
         Some (
           if c0 \<noteq> ch (CHR ''0'') \<and> \<not> ISA_DIGIT c2 then Ptr (drop 2 cur)
           else if c0 = ch (CHR ''1'') \<and> ISA_DIGIT c2 then Ptr (drop 3 cur)
           else if c0 = ch (CHR ''2'') \<and> c1 \<ge> ch (CHR ''0'') \<and> c1 \<le> ch (CHR ''4'') \<and> ISA_DIGIT c2 then Ptr (drop 3 cur)
           else if c0 = ch (CHR ''2'') \<and> c1 = ch (CHR ''5'') \<and> c2 \<ge> ch (CHR ''0'') \<and> c1 \<le> ch (CHR ''5'') then Ptr (drop 3 cur)
           else NULL) } } }"

text \<open>The branch for IPv4 addresses; NULL is \<open>goto not_ipv4\<close>.\<close>

definition octet_dot :: "bytes \<Rightarrow> bytes ptr option" where
  "octet_dot cur = do {
     o1 \<leftarrow> xmlParse3986DecOctet cur;
     case o1 of
       NULL \<Rightarrow> Some NULL
     | Ptr cur1 \<Rightarrow> do { c \<leftarrow> rd cur1 0; Some (if c \<noteq> ch (CHR ''.'') then NULL else Ptr cur1) } }"

definition ipv4 :: "bytes \<Rightarrow> bytes ptr option" where
  "ipv4 cur = do {
     p1 \<leftarrow> octet_dot cur;
     case p1 of NULL \<Rightarrow> Some NULL
     | Ptr cur1 \<Rightarrow> do {
       p2 \<leftarrow> octet_dot (drop 1 cur1);
       case p2 of NULL \<Rightarrow> Some NULL
       | Ptr cur2 \<Rightarrow> do {
         p3 \<leftarrow> octet_dot cur2;
         case p3 of NULL \<Rightarrow> Some NULL | Ptr cur3 \<Rightarrow> xmlParse3986DecOctet cur3 } } }"

definition reg_name :: "xmlURI \<Rightarrow> bytes \<Rightarrow> bytes option" where
  "reg_name uri cur = skip_next (\<lambda>p. or_else (xmlIsUnreserved uri p) (or_else (ISA_PCT_ENCODED p) (test ISA_SUB_DELIM p))) cur"

text \<open>The end of the host: NULL for a bracket that is not closed.\<close>

definition host_end :: "xmlURI \<Rightarrow> bytes \<Rightarrow> bytes ptr option" where
  "host_end uri cur = do {
     c \<leftarrow> rd cur 0;
     if c = ch (CHR ''['') then do {
       cur1 \<leftarrow> skip_chars (\<lambda>c. c \<noteq> ch (CHR '']'') \<and> c \<noteq> 0) (drop 1 cur);
       d \<leftarrow> rd cur1 0;
       Some (if d \<noteq> ch (CHR '']'') then NULL else Ptr (drop 1 cur1)) }
     else do {
       found \<leftarrow> (if ISA_DIGIT c then ipv4 cur else Some NULL);
       case found of
         Ptr cur1 \<Rightarrow> Some (Ptr cur1)
       | NULL \<Rightarrow> map_option Ptr (reg_name uri cur) } }"

definition xmlParse3986Host :: "allocator \<Rightarrow> xmlURI \<Rightarrow> bytes \<Rightarrow> parser_result" where
  "xmlParse3986Host mem uri str = do {
     e \<leftarrow> host_end uri str;
     case e of
       NULL \<Rightarrow> Some (1, uri, str)
     | Ptr cur \<Rightarrow>
         let uri1 = uri\<lparr>authority := NULL\<rparr>
         in if length cur \<noteq> length str then do {
              s \<leftarrow> component mem uri1 str cur;
              let uri2 = uri1\<lparr>server := s\<rparr>;
              Some (if s = NULL then (- 1, uri2, str) else (0, uri2, cur)) }
            else Some (0, uri1\<lparr>server := NULL\<rparr>, cur) }"

definition xmlParse3986Authority :: "allocator \<Rightarrow> xmlURI \<Rightarrow> bytes \<Rightarrow> parser_result" where
  "xmlParse3986Authority mem uri str = do {
     (ret, uri1, cur) \<leftarrow> xmlParse3986Userinfo mem uri str;
     if ret < 0 then Some (ret, uri1, str)
     else do {
       c \<leftarrow> (if ret \<noteq> 0 then Some 0 else rd cur 0);
       let cur1 = (if ret \<noteq> 0 \<or> c \<noteq> ch (CHR ''@'') then str else drop 1 cur);
       (ret2, uri2, cur2) \<leftarrow> xmlParse3986Host mem uri1 cur1;
       if ret2 \<noteq> 0 then Some (ret2, uri2, str)
       else do {
         d \<leftarrow> rd cur2 0;
         if d = ch (CHR '':'') then do {
           (ret3, uri3, cur3) \<leftarrow> xmlParse3986Port uri2 (drop 1 cur2);
           Some (if ret3 \<noteq> 0 then (ret3, uri3, str) else (0, uri3, cur3)) }
         else Some (0, uri2, cur2) } } }"

text \<open>The code and the new pointer; a segment does not change the structure.\<close>

definition xmlParse3986Segment :: "xmlURI \<Rightarrow> bytes \<Rightarrow> byte \<Rightarrow> bool \<Rightarrow> (int \<times> bytes) option" where
  "xmlParse3986Segment uri str forbid allow_empty = do {
     b \<leftarrow> ISA_PCHAR uri str;
     c \<leftarrow> rd str 0;
     if \<not> b \<or> c = forbid then Some (if allow_empty then 0 else 1, str)
     else do {
       cur \<leftarrow> NEXT str;
       cur' \<leftarrow> skip_next (\<lambda>p. do { b \<leftarrow> ISA_PCHAR uri p; if b then test (\<lambda>c. c \<noteq> forbid) p else Some False }) cur;
       Some (0, cur') } }"

text \<open>\<open>while (*cur == '/') { cur++; xmlParse3986Segment(uri, &cur, 0, 1); }\<close>\<close>

partial_function (option) segments :: "xmlURI \<Rightarrow> bytes \<Rightarrow> (int \<times> bytes) option" where
  "segments uri cur =
     Option.bind (rd cur 0) (\<lambda>c.
       if c = ch (CHR ''/'') then
         Option.bind (xmlParse3986Segment uri (drop 1 cur) 0 True) (\<lambda>(ret, cur').
           if ret \<noteq> 0 then Some (ret, cur') else segments uri cur')
       else Some (0, cur))"

declare segments.simps [code]

text \<open>The end of the four path functions: the path from \<open>str\<close> to \<open>cur\<close> is stored, NULL when it is empty.\<close>

definition store_path :: "allocator \<Rightarrow> xmlURI \<Rightarrow> bytes \<Rightarrow> bytes \<Rightarrow> parser_result" where
  "store_path mem uri str cur =
     (if length cur \<noteq> length str then do {
        s \<leftarrow> component mem uri str cur;
        let uri1 = uri\<lparr>path := s\<rparr>;
        Some (if s = NULL then (- 1, uri1, str) else (0, uri1, cur)) }
      else Some (0, uri\<lparr>path := NULL\<rparr>, cur))"

definition xmlParse3986PathAbEmpty :: "allocator \<Rightarrow> xmlURI \<Rightarrow> bytes \<Rightarrow> parser_result" where
  "xmlParse3986PathAbEmpty mem uri str = do {
     (ret, cur) \<leftarrow> segments uri str;
     if ret \<noteq> 0 then Some (ret, uri, str) else store_path mem uri str cur }"

definition xmlParse3986PathAbsolute :: "allocator \<Rightarrow> xmlURI \<Rightarrow> bytes \<Rightarrow> parser_result" where
  "xmlParse3986PathAbsolute mem uri str = do {
     c \<leftarrow> rd str 0;
     if c \<noteq> ch (CHR ''/'') then Some (1, uri, str)
     else do {
       (ret, cur) \<leftarrow> xmlParse3986Segment uri (drop 1 str) 0 False;
       (ret2, cur2) \<leftarrow> (if ret = 0 then segments uri cur else Some (0, cur));
       if ret2 \<noteq> 0 then Some (ret2, uri, str) else store_path mem uri str cur2 } }"

definition xmlParse3986PathRootless :: "allocator \<Rightarrow> xmlURI \<Rightarrow> bytes \<Rightarrow> parser_result" where
  "xmlParse3986PathRootless mem uri str = do {
     (ret, cur) \<leftarrow> xmlParse3986Segment uri str 0 False;
     if ret \<noteq> 0 then Some (ret, uri, str)
     else do {
       (ret2, cur2) \<leftarrow> segments uri cur;
       if ret2 \<noteq> 0 then Some (ret2, uri, str) else store_path mem uri str cur2 } }"

definition xmlParse3986PathNoScheme :: "allocator \<Rightarrow> xmlURI \<Rightarrow> bytes \<Rightarrow> parser_result" where
  "xmlParse3986PathNoScheme mem uri str = do {
     (ret, cur) \<leftarrow> xmlParse3986Segment uri str (ch (CHR '':'')) False;
     if ret \<noteq> 0 then Some (ret, uri, str)
     else do {
       (ret2, cur2) \<leftarrow> segments uri cur;
       if ret2 \<noteq> 0 then Some (ret2, uri, str) else store_path mem uri str cur2 } }"

definition two_slashes :: "bytes \<Rightarrow> bool option" where
  "two_slashes cur = do { c \<leftarrow> rd cur 0; if c = ch (CHR ''/'') then test (\<lambda>d. d = ch (CHR ''/'')) (drop 1 cur) else Some False }"

definition xmlParse3986HierPart :: "allocator \<Rightarrow> xmlURI \<Rightarrow> bytes \<Rightarrow> parser_result" where
  "xmlParse3986HierPart mem uri str = do {
     auth \<leftarrow> two_slashes str;
     if auth then do {
       (ret, uri1, cur) \<leftarrow> xmlParse3986Authority mem uri (drop 2 str);
       if ret \<noteq> 0 then Some (ret, uri1, str)
       else
         let uri2 = (if server uri1 = NULL \<and> port uri1 = PORT_EMPTY then uri1\<lparr>port := PORT_EMPTY_SERVER\<rparr> else uri1)
         in do {
           (ret2, uri3, cur2) \<leftarrow> xmlParse3986PathAbEmpty mem uri2 cur;
           Some (if ret2 \<noteq> 0 then (ret2, uri3, str) else (0, uri3, cur2)) } }
     else do {
       c \<leftarrow> rd str 0;
       if c = ch (CHR ''/'') then xmlParse3986PathAbsolute mem uri str
       else do {
         b \<leftarrow> ISA_PCHAR uri str;
         if b then xmlParse3986PathRootless mem uri str
         else Some (0, uri\<lparr>path := NULL\<rparr>, str) } } }"

definition xmlCleanURI :: "xmlURI \<Rightarrow> xmlURI" where
  "xmlCleanURI uri = uri\<lparr>scheme := NULL, server := NULL, user := NULL, path := NULL, fragment := NULL,
     opaque := NULL, authority := NULL, query := NULL, query_raw := NULL\<rparr>"

text \<open>The optional query and fragment and the end of the string, the tail of the two functions below.\<close>

definition uri_tail :: "allocator \<Rightarrow> xmlURI \<Rightarrow> bytes \<Rightarrow> (int \<times> xmlURI) option" where
  "uri_tail mem uri str = do {
     c \<leftarrow> rd str 0;
     (ret, uri1, str1) \<leftarrow> (if c = ch (CHR ''?'') then xmlParse3986Query mem uri (drop 1 str) else Some (0, uri, str));
     if ret \<noteq> 0 then Some (ret, uri1)
     else do {
       d \<leftarrow> rd str1 0;
       (ret2, uri2, str2) \<leftarrow> (if d = ch (CHR ''#'') then xmlParse3986Fragment mem uri1 (drop 1 str1) else Some (0, uri1, str1));
       if ret2 \<noteq> 0 then Some (ret2, uri2)
       else do {
         e \<leftarrow> rd str2 0;
         Some (if e \<noteq> 0 then (1, xmlCleanURI uri2) else (0, uri2)) } } }"

definition xmlParse3986RelativeRef :: "allocator \<Rightarrow> xmlURI \<Rightarrow> bytes \<Rightarrow> (int \<times> xmlURI) option" where
  "xmlParse3986RelativeRef mem uri str = do {
     auth \<leftarrow> two_slashes str;
     (ret, uri1, str1) \<leftarrow>
       (if auth then do {
          (ret, uri1, cur) \<leftarrow> xmlParse3986Authority mem uri (drop 2 str);
          if ret \<noteq> 0 then Some (ret, uri1, cur) else xmlParse3986PathAbEmpty mem uri1 cur }
        else do {
          c \<leftarrow> rd str 0;
          if c = ch (CHR ''/'') then xmlParse3986PathAbsolute mem uri str
          else do {
            b \<leftarrow> ISA_PCHAR uri str;
            if b then xmlParse3986PathNoScheme mem uri str else Some (0, uri\<lparr>path := NULL\<rparr>, str) } });
     if ret \<noteq> 0 then Some (ret, uri1) else uri_tail mem uri1 str1 }"

definition xmlParse3986URI :: "allocator \<Rightarrow> xmlURI \<Rightarrow> bytes \<Rightarrow> (int \<times> xmlURI) option" where
  "xmlParse3986URI mem uri str = do {
     (ret, uri1, str1) \<leftarrow> xmlParse3986Scheme mem uri str;
     if ret \<noteq> 0 then Some (ret, uri1)
     else do {
       c \<leftarrow> rd str1 0;
       if c \<noteq> ch (CHR '':'') then Some (1, uri1)
       else do {
         (ret2, uri2, str2) \<leftarrow> xmlParse3986HierPart mem uri1 (drop 1 str1);
         if ret2 \<noteq> 0 then Some (ret2, uri2) else uri_tail mem uri2 str2 } } }"

definition xmlParse3986URIReference :: "allocator \<Rightarrow> xmlURI \<Rightarrow> xmlString \<Rightarrow> (int \<times> xmlURI) option" where
  "xmlParse3986URIReference mem uri strp =
     (case strp of
        NULL \<Rightarrow> Some (- 1, uri)
      | Ptr str \<Rightarrow> do {
          (ret, uri1) \<leftarrow> xmlParse3986URI mem (xmlCleanURI uri) str;
          if ret < 0 then Some (ret, uri1)
          else if ret \<noteq> 0 then do {
            (ret2, uri2) \<leftarrow> xmlParse3986RelativeRef mem (xmlCleanURI uri1) str;
            Some (if ret2 \<noteq> 0 then (ret2, xmlCleanURI uri2) else (0, uri2)) }
          else Some (0, uri1) })"

definition empty_uri :: xmlURI where
  "empty_uri = \<lparr>scheme = NULL, opaque = NULL, authority = NULL, server = NULL, user = NULL, port = PORT_EMPTY,
     path = NULL, query = NULL, fragment = NULL, cleanup = 0, query_raw = NULL\<rparr>"

abbreviation SIZEOF_URI :: nat where "SIZEOF_URI \<equiv> 88"

definition xmlCreateURI :: "allocator \<Rightarrow> xmlURI ptr" where
  "xmlCreateURI mem = (if mem SIZEOF_URI then Ptr empty_uri else NULL)"

text \<open>The code and the value of \<open>*uriOut\<close>; \<open>have_out\<close> says that \<open>uriOut\<close> is not NULL.\<close>

definition xmlParseURISafe :: "allocator \<Rightarrow> bool \<Rightarrow> xmlString \<Rightarrow> (int \<times> xmlURI ptr) option" where
  "xmlParseURISafe mem have_out str =
     (if \<not> have_out then Some (1, NULL)
      else if str = NULL then Some (1, NULL)
      else case xmlCreateURI mem of
        NULL \<Rightarrow> Some (- 1, NULL)
      | Ptr uri \<Rightarrow> do {
          (ret, uri1) \<leftarrow> xmlParse3986URIReference mem uri str;
          Some (if ret \<noteq> 0 then (ret, NULL) else (0, Ptr uri1)) })"

definition xmlParseURI :: "allocator \<Rightarrow> xmlString \<Rightarrow> xmlURI ptr option" where
  "xmlParseURI mem str = map_option snd (xmlParseURISafe mem True str)"

definition xmlParseURIReference :: "allocator \<Rightarrow> xmlURI \<Rightarrow> xmlString \<Rightarrow> (int \<times> xmlURI) option" where
  "xmlParseURIReference mem uri str = xmlParse3986URIReference mem uri str"

definition xmlParseURIRaw :: "allocator \<Rightarrow> xmlString \<Rightarrow> bool \<Rightarrow> xmlURI ptr option" where
  "xmlParseURIRaw mem str raw =
     (if str = NULL then Some NULL
      else case xmlCreateURI mem of
        NULL \<Rightarrow> Some NULL
      | Ptr uri \<Rightarrow> do {
          let uri1 = (if raw then uri\<lparr>cleanup := cleanup uri OR XML_URI_NO_UNESCAPE\<rparr> else uri);
          (ret, uri2) \<leftarrow> xmlParseURIReference mem uri1 str;
          Some (if ret \<noteq> 0 then NULL else Ptr uri2) })"

end
