(* ===== verification/UriScan.thy ===== *)
theory UriScan
  imports UriParser
begin

text \<open>
  Percent-encoded strings: the longest encoded prefix, unescaping as a function of the text, and the scanning loops, the
  stored components and the component parsers against them.
\<close>

section \<open>Terminated strings\<close>

text \<open>\<open>first v\<close>: the byte at the beginning of the string \<open>v\<close> in memory, its terminator when it is empty.\<close>

definition first :: "bytes \<Rightarrow> byte" where
  "first v = (case v of [] \<Rightarrow> 0 | c # _ \<Rightarrow> c)"

lemma first_simps [simp]: "first [] = 0" "first (c # v) = c"
  by (simp_all add: first_def)

lemma first_append: "first (u @ v) = (if u = [] then first v else first u)"
  by (cases u) simp_all

lemma rd_first [simp]: "rd (v @ 0 # t) 0 = Some (first v)"
  by (cases v) simp_all

lemma first_eq: "c \<noteq> 0 \<Longrightarrow> first v = c \<longleftrightarrow> (\<exists>r. v = c # r)"
  by (cases v) auto

section \<open>Percent-encoding\<close>

abbreviation pct_sign :: byte where "pct_sign \<equiv> 37"

definition pct :: "bytes \<Rightarrow> bool" where
  "pct v \<longleftrightarrow> (\<exists>d e r. v = pct_sign # d # e # r \<and> ISA_HEXDIG d \<and> ISA_HEXDIG e)"

lemma hex_nz [simp]: "\<not> ISA_HEXDIG 0" "\<not> ISA_HEXDIG pct_sign"
  by (simp_all add: ISA_HEXDIG_def ISA_DIGIT_def)

lemma pct_simps [simp]: "\<not> pct []" "pct (c # v) \<longleftrightarrow> c = pct_sign \<and> (\<exists>d e r. v = d # e # r \<and> ISA_HEXDIG d \<and> ISA_HEXDIG e)"
  by (auto simp: pct_def)

lemma ISA_PCT_ENCODED_ok: "ISA_PCT_ENCODED (v @ 0 # t) = Some (pct v)"
proof (cases v)
  case (Cons c u)
  show ?thesis
  proof (cases "c = pct_sign")
    case True
    show ?thesis
    proof (cases u)
      case (Cons d w)
      then show ?thesis using True \<open>v = c # u\<close> by (cases w) (auto simp: ISA_PCT_ENCODED_def)
    qed (use True Cons in \<open>simp add: ISA_PCT_ENCODED_def\<close>)
  qed (use Cons in \<open>simp add: ISA_PCT_ENCODED_def\<close>)
qed (simp add: ISA_PCT_ENCODED_def)

text \<open>\<open>encoded Q v\<close>: \<open>v\<close> is a sequence of bytes that satisfy \<open>Q\<close> and of percent-encoded bytes.\<close>

function encoded :: "(byte \<Rightarrow> bool) \<Rightarrow> bytes \<Rightarrow> bool" where
  "encoded Q v = (case v of [] \<Rightarrow> True | c # r \<Rightarrow> if pct v then encoded Q (drop 3 v) else Q c \<and> encoded Q r)"
  by pat_completeness auto
termination
  by (relation "measure (length \<circ> snd)") auto

text \<open>The longest such prefix, and the rest.\<close>

function span_encoded :: "(byte \<Rightarrow> bool) \<Rightarrow> bytes \<Rightarrow> bytes \<times> bytes" where
  "span_encoded Q v =
     (case v of
        [] \<Rightarrow> ([], [])
      | c # r \<Rightarrow>
          if pct v then (case span_encoded Q (drop 3 v) of (a, b) \<Rightarrow> (take 3 v @ a, b))
          else if Q c then (case span_encoded Q r of (a, b) \<Rightarrow> (c # a, b))
          else ([], v))"
  by pat_completeness auto
termination
  by (relation "measure (length \<circ> snd)") auto

declare encoded.simps [simp del] span_encoded.simps [simp del]

lemma encoded_Nil [simp]: "encoded Q []"
  by (simp add: encoded.simps)

lemma encoded_Cons: "\<not> Q pct_sign \<Longrightarrow> encoded Q (c # v) \<longleftrightarrow>
    (if c = pct_sign then (\<exists>d e r. v = d # e # r \<and> ISA_HEXDIG d \<and> ISA_HEXDIG e \<and> encoded Q r) else Q c \<and> encoded Q v)"
  by (auto simp: encoded.simps [of Q "c # v"])

lemma encoded_induct [consumes 2, case_names Nil pct Cons]:
  assumes "encoded Q v" "\<not> Q pct_sign"
    and "P []"
    and "\<And>d e r. ISA_HEXDIG d \<Longrightarrow> ISA_HEXDIG e \<Longrightarrow> encoded Q r \<Longrightarrow> P r \<Longrightarrow> P (pct_sign # d # e # r)"
    and "\<And>c r. Q c \<Longrightarrow> c \<noteq> pct_sign \<Longrightarrow> encoded Q r \<Longrightarrow> P r \<Longrightarrow> P (c # r)"
  shows "P v"
  using assms(1)
proof (induction v rule: length_induct)
  case (1 v)
  show ?case
  proof (cases v)
    case (Cons c r)
    show ?thesis
    proof (cases "c = pct_sign")
      case True
      then obtain d e r' where "r = d # e # r'" "ISA_HEXDIG d" "ISA_HEXDIG e" "encoded Q r'"
        using "1.prems" Cons assms(2) by (auto simp: encoded_Cons)
      then show ?thesis using assms(4) 1 Cons True by simp
    next
      case False
      then show ?thesis using assms(2,5) 1 Cons by (simp add: encoded_Cons)
    qed
  qed (use assms(3) in simp)
qed

lemma span_pct: "ISA_HEXDIG d \<Longrightarrow> ISA_HEXDIG e \<Longrightarrow>
    span_encoded Q (pct_sign # d # e # r) = (pct_sign # d # e # fst (span_encoded Q r), snd (span_encoded Q r))"
  by (subst span_encoded.simps) (simp split: prod.split)

lemma span_Q: "\<not> pct (c # r) \<Longrightarrow> Q c \<Longrightarrow> span_encoded Q (c # r) = (c # fst (span_encoded Q r), snd (span_encoded Q r))"
  by (subst span_encoded.simps) (simp del: pct_simps split: prod.split)

definition stops :: "(byte \<Rightarrow> bool) \<Rightarrow> bytes \<Rightarrow> bool" where
  "stops Q v \<longleftrightarrow> \<not> pct v \<and> (v = [] \<or> \<not> Q (hd v))"

lemma span_stop: "stops Q v \<Longrightarrow> span_encoded Q v = ([], v)"
  by (cases v; subst span_encoded.simps) (simp_all only: stops_def list.case if_False list.sel list.distinct simp_thms)

lemma span_encoded_ok:
  assumes "\<not> Q pct_sign"
  shows "case span_encoded Q v of (a, b) \<Rightarrow> v = a @ b \<and> encoded Q a \<and> stops Q b"
proof (induction v rule: length_induct)
  case (1 v)
  show ?case
  proof (cases v)
    case Nil
    then show ?thesis by (simp add: span_stop stops_def)
  next
    case (Cons c r)
    consider (p) "pct v" | (q) "\<not> pct v" "Q c" | (s) "\<not> pct v" "\<not> Q c" by blast
    then show ?thesis
    proof cases
      case p
      then obtain d e r' where r: "v = pct_sign # d # e # r'" "ISA_HEXDIG d" "ISA_HEXDIG e" by (auto simp: pct_def)
      then have "case span_encoded Q r' of (a, b) \<Rightarrow> r' = a @ b \<and> encoded Q a \<and> stops Q b" using 1 by simp
      then show ?thesis using r p assms by (auto simp: span_pct encoded_Cons split: prod.splits)
    next
      case q
      have "case span_encoded Q r of (a, b) \<Rightarrow> r = a @ b \<and> encoded Q a \<and> stops Q b" using 1 Cons by simp
      moreover have "c \<noteq> pct_sign" using q(2) assms by auto
      ultimately show ?thesis using q Cons assms by (auto simp: span_Q encoded_Cons split: prod.splits)
    next
      case s
      then have "stops Q v" using Cons by (simp add: stops_def)
      then show ?thesis by (simp add: span_stop)
    qed
  qed
qed

lemma span_encoded_eq:
  assumes "encoded Q a" "\<not> Q pct_sign" "stops Q b"
  shows "span_encoded Q (a @ b) = (a, b)"
  using assms(1,2)
proof (induction rule: encoded_induct)
  case Nil
  then show ?case using assms(3) by (simp add: span_stop)
next
  case (pct d e r)
  then show ?case by (simp add: span_pct)
next
  case (Cons c r)
  then show ?case by (simp add: span_Q)
qed

section \<open>Scanning\<close>

text \<open>\<open>scans Q P\<close>: on terminated strings the loop condition \<open>P\<close> is that there is a byte in \<open>Q\<close> or an encoded byte.\<close>

definition scans :: "(byte \<Rightarrow> bool) \<Rightarrow> (bytes \<Rightarrow> bool option) \<Rightarrow> bool" where
  "scans Q P \<longleftrightarrow> \<not> Q 0 \<and> \<not> Q pct_sign \<and> (\<forall>v t. P (v @ 0 # t) = Some (Q (first v) \<or> pct v))"

lemma skip_next_ok:
  assumes "scans Q P"
  shows "skip_next P (v @ 0 # t) = Some (snd (span_encoded Q v) @ 0 # t)"
proof (induction v rule: length_induct)
  case (1 v)
  note P = assms [unfolded scans_def]
  show ?case
  proof (cases v)
    case Nil
    have "P (0 # t) = Some False" using P [THEN conjunct2, THEN conjunct2, rule_format, of "[]" t] P by simp
    then show ?thesis using Nil by (simp add: skip_next.simps [of P "0 # t"] span_stop stops_def)
  next
    case (Cons c r)
    consider (p) "pct v" | (q) "\<not> pct v" "Q c" | (s) "\<not> pct v" "\<not> Q c" by blast
    then show ?thesis
    proof cases
      case p
      then obtain d e r' where r: "v = pct_sign # d # e # r'" "ISA_HEXDIG d" "ISA_HEXDIG e" by (auto simp: pct_def)
      have "skip_next P (r' @ 0 # t) = Some (snd (span_encoded Q r') @ 0 # t)" using 1 r(1) by simp
      moreover have "NEXT (v @ 0 # t) = Some (r' @ 0 # t)" using r(1) by (simp add: NEXT_def)
      moreover have "P (v @ 0 # t) = Some True" using P p by simp
      ultimately have "skip_next P (v @ 0 # t) = Some (snd (span_encoded Q r') @ 0 # t)" by (subst skip_next.simps) simp
      then show ?thesis using r by (simp add: span_pct)
    next
      case q
      have c: "c \<noteq> pct_sign" using q(2) P by auto
      have "skip_next P (r @ 0 # t) = Some (snd (span_encoded Q r) @ 0 # t)" using 1 Cons by simp
      moreover have "NEXT (v @ 0 # t) = Some (r @ 0 # t)" using Cons c by (simp add: NEXT_def)
      moreover have "P (v @ 0 # t) = Some True" using P [THEN conjunct2, THEN conjunct2, rule_format, of v t] q Cons by simp
      ultimately have "skip_next P (v @ 0 # t) = Some (snd (span_encoded Q r) @ 0 # t)" by (subst skip_next.simps) simp
      then show ?thesis using q Cons by (simp add: span_Q)
    next
      case s
      then have "P (v @ 0 # t) = Some False" using P [THEN conjunct2, THEN conjunct2, rule_format, of v t] Cons by simp
      then have "skip_next P (v @ 0 # t) = Some (v @ 0 # t)" by (subst skip_next.simps) simp
      moreover have "stops Q v" using s Cons by (simp add: stops_def)
      ultimately show ?thesis by (simp add: span_stop)
    qed
  qed
qed

lemma skip_chars_ok: "\<not> P 0 \<Longrightarrow> skip_chars P (v @ 0 # t) = Some (dropWhile P v @ 0 # t)"
  by (induction v) simp_all

section \<open>Unescaping\<close>

function unescape :: "bytes \<Rightarrow> bytes" where
  "unescape v =
     (case v of
        [] \<Rightarrow> []
      | c # r \<Rightarrow> if pct v then (hex_digit (v ! 1) * 16 + hex_digit (v ! 2)) # unescape (drop 3 v) else c # unescape r)"
  by pat_completeness auto
termination
  by (relation "measure length") auto

declare unescape.simps [simp del]

lemma unescape_Nil [simp]: "unescape [] = []"
  by (simp add: unescape.simps)

lemma unescape_pct: "ISA_HEXDIG d \<Longrightarrow> ISA_HEXDIG e \<Longrightarrow> unescape (pct_sign # d # e # r) = (hex_digit d * 16 + hex_digit e) # unescape r"
  by (simp add: unescape.simps [of "pct_sign # _"])

lemma unescape_other: "\<not> pct (c # r) \<Longrightarrow> unescape (c # r) = c # unescape r"
  by (subst unescape.simps) (simp only: list.case if_False)

lemma is_hex_iff: "is_hex c \<longleftrightarrow> ISA_HEXDIG c"
  by (auto simp: is_hex_def ISA_HEXDIG_def ISA_DIGIT_def)

lemma length_unescape: "length (unescape v) \<le> length v"
proof (induction v rule: length_induct)
  case (1 v)
  show ?case
  proof (cases v)
    case (Cons c r)
    have l: "length (unescape r) \<le> length r" using 1 Cons by simp
    show ?thesis
    proof (cases "pct v")
      case True
      then obtain d e q where q: "v = pct_sign # d # e # q" "ISA_HEXDIG d" "ISA_HEXDIG e" by (auto simp: pct_def)
      then have "length (unescape q) \<le> length q" using 1 by simp
      then show ?thesis using q by (simp add: unescape_pct)
    next
      case False
      then have "unescape v = c # unescape r" using Cons by (simp add: unescape_other del: pct_simps)
      then show ?thesis using l Cons by simp
    qed
  qed simp
qed

lemma unescape_loop_step:
  "n > 0 \<Longrightarrow> \<not> pct (take n (c # r)) \<Longrightarrow> n \<le> Suc (length r) \<Longrightarrow> unescape_loop n (c # r) = map_option ((#) c) (unescape_loop (n - 1) r)"
proof -
  assume n: "n > 0" "\<not> pct (take n (c # r))" "n \<le> Suc (length r)"
  have m: "map_option ((#) c) x = Option.bind x (\<lambda>out. Some (c # out))" for x by (cases x) simp_all
  show ?thesis
  proof (cases "n > 2 \<and> c = pct_sign")
    case True
    then obtain d e q where r: "r = d # e # q" using n(3) by (cases r; cases "tl r") auto
    have "n = Suc (Suc (Suc (n - 3)))" using True by linarith
    then obtain k where k: "n = Suc (Suc (Suc k))" by blast
    have "\<not> (ISA_HEXDIG d \<and> ISA_HEXDIG e)" using n(2) r k True by auto
    then show ?thesis unfolding m using True r by (subst unescape_loop.simps) (auto simp: is_hex_iff)
  next
    case False
    then show ?thesis unfolding m using n(1) by (subst unescape_loop.simps) auto
  qed
qed

lemma unescape_loop_pct:
  "ISA_HEXDIG d \<Longrightarrow> ISA_HEXDIG e \<Longrightarrow> unescape_loop (Suc (Suc (Suc k))) (pct_sign # d # e # q) =
    map_option ((#) (hex_digit d * 16 + hex_digit e)) (unescape_loop k q)"
  by (subst unescape_loop.simps) (simp add: is_hex_iff map_option_case split: option.split)

lemma unescape_loop_ok:
  "n \<le> length s \<Longrightarrow> unescape_loop n s = Some (unescape (take n s))"
proof (induction n arbitrary: s rule: less_induct)
  case (less n)
  show ?case
  proof (cases "n = 0")
    case False
    then obtain c r where s: "s = c # r" using less.prems by (cases s) auto
    show ?thesis
    proof (cases "pct (take n s)")
      case True
      then obtain d e q where q: "take n s = pct_sign # d # e # q" "ISA_HEXDIG d" "ISA_HEXDIG e" by (auto simp: pct_def)
      have "length (take n s) \<ge> 3" using q(1) by simp
      then have "n \<ge> 3" by simp
      then have "n = Suc (Suc (Suc (n - 3)))" by linarith
      then obtain k where k: "n = Suc (Suc (Suc k))" by blast
      then obtain w where w: "s = pct_sign # d # e # w" "take k w = q" using q(1) s less.prems by (cases r; cases "tl r") auto
      then show ?thesis using less.IH [of k w] less.prems k q by (simp add: unescape_loop_pct unescape_pct)
    next
      case no: False
      obtain m where m: "n = Suc m" using False by (cases n) auto
      have "unescape_loop n s = map_option ((#) c) (unescape_loop m r)"
        using unescape_loop_step [of n c r] no s m less.prems by simp
      moreover have "unescape (take n s) = c # unescape (take m r)" using no unfolding s m take_Suc_Cons by (rule unescape_other)
      ultimately show ?thesis using less.IH [of m r] less.prems s m by simp
    qed
  qed (simp add: unescape_loop.simps)
qed

section \<open>Character classes of the grammar\<close>

definition pchar_byte :: "byte \<Rightarrow> bool" where
  "pchar_byte c \<longleftrightarrow> ISA_STRICTLY_UNRESERVED c \<or> ISA_SUB_DELIM c \<or> c = ch (CHR '':'') \<or> c = ch (CHR ''@'')"

definition nc_byte :: "byte \<Rightarrow> bool" where
  "nc_byte c \<longleftrightarrow> pchar_byte c \<and> c \<noteq> ch (CHR '':'')"

definition host_byte :: "byte \<Rightarrow> bool" where
  "host_byte c \<longleftrightarrow> ISA_STRICTLY_UNRESERVED c \<or> ISA_SUB_DELIM c"

definition user_byte :: "byte \<Rightarrow> bool" where
  "user_byte c \<longleftrightarrow> host_byte c \<or> c = ch (CHR '':'')"

definition path_byte :: "byte \<Rightarrow> bool" where
  "path_byte c \<longleftrightarrow> pchar_byte c \<or> c = ch (CHR ''/'')"

definition query_byte :: "byte \<Rightarrow> bool" where
  "query_byte c \<longleftrightarrow> pchar_byte c \<or> c \<in> set (asc ''/?'')"

definition fragment_byte :: "byte \<Rightarrow> bool" where
  "fragment_byte c \<longleftrightarrow> pchar_byte c \<or> c \<in> set (asc ''/?[]'')"

definition scheme_byte :: "byte \<Rightarrow> bool" where
  "scheme_byte c \<longleftrightarrow> ISA_ALPHA c \<or> ISA_DIGIT c \<or> c \<in> set (asc ''+-.'')"

lemmas uri_bytes = pchar_byte_def nc_byte_def host_byte_def user_byte_def path_byte_def query_byte_def fragment_byte_def scheme_byte_def
lemmas uri_atoms = ISA_STRICTLY_UNRESERVED_def ISA_SUB_DELIM_def ISA_ALPHA_def ISA_DIGIT_def

lemma zero_bytes [simp]: "\<not> pchar_byte 0" "\<not> nc_byte 0" "\<not> host_byte 0" "\<not> user_byte 0" "\<not> path_byte 0" "\<not> query_byte 0"
    "\<not> fragment_byte 0" "\<not> scheme_byte 0" "\<not> ISA_DIGIT 0" "\<not> ISA_ALPHA 0"
  by (simp_all add: uri_bytes uri_atoms)

lemma pct_bytes [simp]: "\<not> pchar_byte pct_sign" "\<not> nc_byte pct_sign" "\<not> host_byte pct_sign" "\<not> user_byte pct_sign"
    "\<not> path_byte pct_sign" "\<not> query_byte pct_sign" "\<not> fragment_byte pct_sign" "\<not> scheme_byte pct_sign"
  by (simp_all add: uri_bytes uri_atoms)

text \<open>The modes of \<open>xmlParseURI\<close>, \<open>xmlParseURIReference\<close> and \<open>xmlParseURIRaw\<close>: no additional characters.\<close>

definition strict :: "xmlURI \<Rightarrow> bool" where
  "strict uri \<longleftrightarrow> cleanup uri AND XML_URI_ALLOW_UNWISE = 0 \<and> cleanup uri AND XML_URI_ALLOW_UCSCHAR = 0"

lemma strict_upd [simp]:
  "strict (uri\<lparr>scheme := x\<rparr>) = strict uri" "strict (uri\<lparr>server := x\<rparr>) = strict uri" "strict (uri\<lparr>user := x\<rparr>) = strict uri"
  "strict (uri\<lparr>port := n\<rparr>) = strict uri" "strict (uri\<lparr>path := x\<rparr>) = strict uri" "strict (uri\<lparr>query := x\<rparr>) = strict uri"
  "strict (uri\<lparr>fragment := x\<rparr>) = strict uri" "strict (uri\<lparr>query_raw := x\<rparr>) = strict uri" "strict (uri\<lparr>authority := x\<rparr>) = strict uri"
  "strict (xmlCleanURI uri) = strict uri"
  by (simp_all add: strict_def xmlCleanURI_def)

lemma unreserved_ok: "strict uri \<Longrightarrow> xmlIsUnreserved uri (v @ 0 # t) = Some (ISA_STRICTLY_UNRESERVED (first v))"
  by (simp add: xmlIsUnreserved_def strict_def)

lemma test_ok: "test P (v @ 0 # t) = Some (P (first v))"
  by (simp add: test_def)

lemma or_else_ok: "or_else (Some a) (Some b) = Some (a \<or> b)"
  by (simp add: or_else_def)

lemmas scan_simps = unreserved_ok test_ok or_else_ok ISA_PCT_ENCODED_ok

lemma pchar_ok: "strict uri \<Longrightarrow> ISA_PCHAR uri (v @ 0 # t) = Some (pchar_byte (first v) \<or> pct v)"
  by (auto simp: ISA_PCHAR_def scan_simps pchar_byte_def)

lemma scans_query: "strict uri \<Longrightarrow> scans query_byte (\<lambda>p. or_else (ISA_PCHAR uri p) (test (\<lambda>c. c \<in> set (asc ''/?'')) p))"
  unfolding scans_def by (simp add: pchar_ok test_ok or_else_ok) (auto simp: query_byte_def)

lemma scans_fragment: "strict uri \<Longrightarrow> scans fragment_byte (\<lambda>p. or_else (ISA_PCHAR uri p) (test (\<lambda>c. c \<in> set (asc ''/?[]'')) p))"
  unfolding scans_def by (simp add: pchar_ok test_ok or_else_ok) (auto simp: fragment_byte_def)

lemma scans_user: "strict uri \<Longrightarrow> scans user_byte (\<lambda>p. or_else (xmlIsUnreserved uri p) (or_else (ISA_PCT_ENCODED p)
    (test (\<lambda>c. ISA_SUB_DELIM c \<or> c = ch (CHR '':'')) p)))"
  unfolding scans_def by (simp add: scan_simps) (auto simp: user_byte_def host_byte_def)

lemma scans_host: "strict uri \<Longrightarrow> scans host_byte (\<lambda>p. or_else (xmlIsUnreserved uri p) (or_else (ISA_PCT_ENCODED p) (test ISA_SUB_DELIM p)))"
  unfolding scans_def by (simp add: scan_simps) (auto simp: host_byte_def)

lemma pct_first: "pct v \<Longrightarrow> first v = pct_sign"
  by (auto simp: pct_def)

lemma scans_segment:
  assumes "strict uri" "forbid \<noteq> pct_sign"
  shows "scans (\<lambda>c. pchar_byte c \<and> c \<noteq> forbid) (\<lambda>p. do { b \<leftarrow> ISA_PCHAR uri p; if b then test (\<lambda>c. c \<noteq> forbid) p else Some False })"
  unfolding scans_def using assms by (auto simp: pchar_ok test_ok dest: pct_first)

section \<open>The stored components\<close>

definition raw :: "xmlURI \<Rightarrow> bool" where
  "raw uri \<longleftrightarrow> cleanup uri AND XML_URI_NO_UNESCAPE \<noteq> 0"

text \<open>
  What is stored for the component \<open>a\<close> that is followed by \<open>r\<close>.  An empty component is unescaped with length 0,
  which stands for the whole string: it gets the unescaped rest of the URI.
\<close>

definition stored :: "xmlURI \<Rightarrow> bytes \<Rightarrow> bytes \<Rightarrow> xmlString" where
  "stored uri a r = Ptr (cstr_of (if raw uri then a else unescape (if a = [] then r else a)))"

abbreviation sane :: "bytes \<Rightarrow> bool" where
  "sane v \<equiv> 0 \<notin> set v \<and> length v \<le> INT_MAX_nat"

lemma ptr_diff_ok: "sane (a @ r) \<Longrightarrow> ptr_diff (r @ 0 # t) (a @ r @ 0 # t) = int (length a)"
  by (simp add: ptr_diff_def)

lemma strndup_ok: "xmlStrndup mem (Ptr (a @ s)) (int (length a)) = Some (if mem (Suc (length a)) then Ptr (cstr_of a) else NULL)"
  by (simp add: xmlStrndup_def copy_in_def cstr_of_def)

definition alloc_size :: "xmlURI \<Rightarrow> bytes \<Rightarrow> bytes \<Rightarrow> nat" where
  "alloc_size uri a r = Suc (length (if raw uri \<or> a \<noteq> [] then a else r))"

lemma component_ok:
  assumes "sane (a @ r)"
  shows "component mem uri (a @ r @ 0 # t) (r @ 0 # t) = Some (if mem (alloc_size uri a r) then stored uri a r else NULL)"
proof (cases "raw uri")
  case True
  then show ?thesis using ptr_diff_ok [OF assms] strndup_ok [of mem a "r @ 0 # t"]
    by (simp add: component_def raw_def stored_def alloc_size_def)
next
  case False
  have cs: "cstring (r @ 0 # t)" "strval (r @ 0 # t) = r" using assms by (simp_all add: cstring_def strval_append)
  show ?thesis
  proof (cases "a = []")
    case True
    have "unescape_loop (length r) (r @ 0 # t) = Some (unescape r)" using unescape_loop_ok [of "length r" "r @ 0 # t"] by simp
    then show ?thesis using True False assms strlen_cstring [OF cs(1)] cs(2) ptr_diff_ok [of "[]" r t] length_unescape [of r]
      by (simp add: component_def raw_def xmlURIUnescapeString_def stored_def alloc_size_def cstr_of_def)
  next
    case no: False
    have "unescape_loop (length a) (a @ r @ 0 # t) = Some (unescape a)" using unescape_loop_ok [of "length a" "a @ r @ 0 # t"] by simp
    then show ?thesis using no False assms ptr_diff_ok [OF assms] length_unescape [of a]
      by (simp add: component_def raw_def xmlURIUnescapeString_def stored_def alloc_size_def cstr_of_def)
  qed
qed

text \<open>
  A parser result agrees with a reference: it is the reference, or an allocation failed and the code is -1.
\<close>

definition agrees :: "allocator \<Rightarrow> parser_result \<Rightarrow> int \<times> xmlURI \<times> bytes \<Rightarrow> bytes \<Rightarrow> bool" where
  "agrees mem x y t \<longleftrightarrow> (case y of (ret, uri, v) \<Rightarrow> x = Some (ret, uri, v @ 0 # t)) \<or>
     (\<exists>u s n. x = Some (- 1, u, s) \<and> \<not> mem n)"

lemma agrees_store:
  assumes "sane (a @ r)"
  shows "agrees mem (do { s \<leftarrow> component mem uri (a @ r @ 0 # t) (r @ 0 # t);
      let uri1 = f s; Some (if s = NULL then (- 1, uri1, str) else (0, uri1, r @ 0 # t)) }) (0, f (stored uri a r), r) t"
  unfolding component_ok [OF assms] agrees_def by (auto simp: stored_def)

section \<open>The reference parser\<close>

definition r_scheme :: "xmlURI \<Rightarrow> bytes \<Rightarrow> int \<times> xmlURI \<times> bytes" where
  "r_scheme uri v =
     (if ISA_ALPHA (first v)
      then (0, uri\<lparr>scheme := Ptr (cstr_of (first v # takeWhile scheme_byte (tl v)))\<rparr>, dropWhile scheme_byte (tl v))
      else (1, uri, v))"

definition r_query :: "xmlURI \<Rightarrow> bytes \<Rightarrow> int \<times> xmlURI \<times> bytes" where
  "r_query uri v = (case span_encoded query_byte v of (a, r) \<Rightarrow> (0, uri\<lparr>query := stored uri a r, query_raw := Ptr (cstr_of a)\<rparr>, r))"

definition r_fragment :: "xmlURI \<Rightarrow> bytes \<Rightarrow> int \<times> xmlURI \<times> bytes" where
  "r_fragment uri v = (case span_encoded fragment_byte v of (a, r) \<Rightarrow> (0, uri\<lparr>fragment := stored uri a r\<rparr>, r))"

definition r_user :: "xmlURI \<Rightarrow> bytes \<Rightarrow> int \<times> xmlURI \<times> bytes" where
  "r_user uri v = (case span_encoded user_byte v of (a, r) \<Rightarrow>
     if first r = ch (CHR ''@'') then (0, uri\<lparr>user := stored uri a r\<rparr>, r) else (1, uri, v))"

definition decimal :: "int \<Rightarrow> bytes \<Rightarrow> int" where
  "decimal n ds = foldl (\<lambda>n c. n * 10 + uint (c - ch (CHR ''0''))) n ds"

definition r_port :: "xmlURI \<Rightarrow> bytes \<Rightarrow> int \<times> xmlURI \<times> bytes" where
  "r_port uri v = (let ds = takeWhile ISA_DIGIT v in
     if ds \<noteq> [] \<and> decimal 0 ds \<le> INT_MAX then (0, uri\<lparr>port := decimal 0 ds\<rparr>, dropWhile ISA_DIGIT v) else (1, uri, v))"

text \<open>The host: a bracket up to its end, or a registered name.\<close>

definition host_split :: "bytes \<Rightarrow> (bytes \<times> bytes) option" where
  "host_split v =
     (if first v = ch (CHR ''['') then
        let w = dropWhile (\<lambda>c. c \<noteq> ch (CHR '']'')) v
        in if w = [] then None else Some (takeWhile (\<lambda>c. c \<noteq> ch (CHR '']'')) v @ [ch (CHR '']'')], tl w)
      else Some (span_encoded host_byte v))"

definition r_host :: "xmlURI \<Rightarrow> bytes \<Rightarrow> int \<times> xmlURI \<times> bytes" where
  "r_host uri v =
     (case host_split v of
        None \<Rightarrow> (1, uri, v)
      | Some (h, r) \<Rightarrow> (0, uri\<lparr>authority := NULL, server := (if h = [] then NULL else stored uri h r)\<rparr>, r))"

definition r_authority :: "xmlURI \<Rightarrow> bytes \<Rightarrow> int \<times> xmlURI \<times> bytes" where
  "r_authority uri v =
     (case r_user uri v of (ret, uri1, w) \<Rightarrow>
      case r_host uri1 (if ret = 0 then tl w else v) of (ret2, uri2, w2) \<Rightarrow>
        if ret2 \<noteq> 0 then (ret2, uri2, v)
        else if first w2 = ch (CHR '':'') then
          (case r_port uri2 (tl w2) of (ret3, uri3, w3) \<Rightarrow> if ret3 \<noteq> 0 then (ret3, uri3, v) else (0, uri3, w3))
        else (0, uri2, w2))"

definition r_path :: "xmlURI \<Rightarrow> bytes \<Rightarrow> bytes \<Rightarrow> int \<times> xmlURI \<times> bytes" where
  "r_path uri a r = (0, uri\<lparr>path := (if a = [] then NULL else stored uri a r)\<rparr>, r)"

definition r_abempty :: "xmlURI \<Rightarrow> bytes \<Rightarrow> int \<times> xmlURI \<times> bytes" where
  "r_abempty uri v = (if first v = ch (CHR ''/'') then case span_encoded path_byte v of (a, r) \<Rightarrow> r_path uri a r else r_path uri [] v)"

text \<open>The path without an authority; with \<open>colon\<close> the first segment may contain a colon.\<close>

definition path_split :: "bool \<Rightarrow> bytes \<Rightarrow> bytes \<times> bytes" where
  "path_split colon v =
     (if colon \<or> first v = ch (CHR ''/'') then span_encoded path_byte v
      else case span_encoded nc_byte v of (a, r) \<Rightarrow>
        if a \<noteq> [] \<and> first r = ch (CHR ''/'') then (case span_encoded path_byte r of (a2, r2) \<Rightarrow> (a @ a2, r2)) else (a, r))"

lemma digit_arith: "ISA_DIGIT c \<Longrightarrow> 0 \<le> uint (c - ch (CHR ''0'')) \<and> uint (c - ch (CHR ''0'')) \<le> 9"
proof -
  assume "ISA_DIGIT c"
  then have c: "48 \<le> c" "c \<le> 57" by (simp_all add: ISA_DIGIT_def)
  have "unat (c - 48) = unat c - 48" using unat_sub [OF c(1)] by simp
  moreover have "unat c \<le> 57" using c(2) by (simp add: word_le_nat_alt)
  ultimately have "unat (c - 48) \<le> 9" by simp
  moreover have "uint (c - 48) = int (unat (c - 48))" by (rule uint_nat)
  ultimately have "uint (c - 48) \<le> 9" by linarith
  then show ?thesis by simp
qed

section \<open>The parser follows the reference\<close>

lemma sane_append: "sane (a @ r) \<Longrightarrow> sane a \<and> sane r"
  by auto

lemma sane_Cons: "sane (c # v) \<Longrightarrow> sane v"
  by simp

lemma scheme_ok:
  assumes "sane v"
  shows "agrees mem (xmlParse3986Scheme mem uri (v @ 0 # t)) (r_scheme uri v) t"
proof (cases v)
  case (Cons c w)
  have e: "(\<lambda>c. ISA_ALPHA c \<or> ISA_DIGIT c \<or> c \<in> set (asc ''+-.'')) = scheme_byte" by (rule ext) (simp add: scheme_byte_def)
  let ?a = "c # takeWhile scheme_byte w" let ?r = "dropWhile scheme_byte w"
  have v: "v = ?a @ ?r" using Cons by simp
  then have "xmlStrndup mem (Ptr (v @ 0 # t)) (ptr_diff (?r @ 0 # t) (v @ 0 # t)) = Some (if mem (Suc (length ?a)) then Ptr (cstr_of ?a) else NULL)"
    using ptr_diff_ok [of ?a ?r t] strndup_ok [of mem ?a "?r @ 0 # t"] assms by (simp only: append_assoc) simp
  moreover have "skip_chars scheme_byte (w @ 0 # t) = Some (?r @ 0 # t)" by (rule skip_chars_ok) simp
  ultimately show ?thesis using Cons unfolding xmlParse3986Scheme_def e r_scheme_def agrees_def
    by (cases "ISA_ALPHA c"; cases "mem (Suc (length ?a))") auto
qed (simp add: xmlParse3986Scheme_def r_scheme_def agrees_def)

lemma query_ok:
  assumes "sane v" "strict uri"
  shows "agrees mem (xmlParse3986Query mem uri (v @ 0 # t)) (r_query uri v) t"
proof -
  obtain a r where s: "span_encoded query_byte v = (a, r)" by fastforce
  then have v: "v = a @ r" using span_encoded_ok [of query_byte v] by simp
  have sk: "skip_next (\<lambda>p. or_else (ISA_PCHAR uri p) (test (\<lambda>c. c \<in> set (asc ''/?'')) p)) (v @ 0 # t) = Some (r @ 0 # t)"
    using skip_next_ok [OF scans_query [OF assms(2)], of v t] s by simp
  note c = component_ok [of a r mem uri t]
  have d: "xmlStrndup mem (Ptr (v @ 0 # t)) (ptr_diff (r @ 0 # t) (v @ 0 # t)) = Some (if mem (Suc (length a)) then Ptr (cstr_of a) else NULL)"
    using ptr_diff_ok [of a r t] strndup_ok [of mem a "r @ 0 # t"] assms(1) v by simp
  show ?thesis using sk c d assms(1) v s unfolding xmlParse3986Query_def r_query_def agrees_def
    by (cases "mem (alloc_size uri a r)"; cases "mem (Suc (length a))") (auto simp: stored_def)
qed

lemma fragment_ok:
  assumes "sane v" "strict uri"
  shows "agrees mem (xmlParse3986Fragment mem uri (v @ 0 # t)) (r_fragment uri v) t"
proof -
  obtain a r where s: "span_encoded fragment_byte v = (a, r)" by fastforce
  then have v: "v = a @ r" using span_encoded_ok [of fragment_byte v] by simp
  have sk: "skip_next (\<lambda>p. or_else (ISA_PCHAR uri p) (test (\<lambda>c. c \<in> set (asc ''/?[]'')) p)) (v @ 0 # t) = Some (r @ 0 # t)"
    using skip_next_ok [OF scans_fragment [OF assms(2)], of v t] s by simp
  show ?thesis using agrees_store [of a r mem uri t "\<lambda>s. uri\<lparr>fragment := s\<rparr>" "v @ 0 # t"] sk assms(1) v s
    unfolding xmlParse3986Fragment_def r_fragment_def by simp
qed

lemma user_ok:
  assumes "sane v" "strict uri"
  shows "agrees mem (xmlParse3986Userinfo mem uri (v @ 0 # t)) (r_user uri v) t"
proof -
  obtain a r where s: "span_encoded user_byte v = (a, r)" by fastforce
  then have v: "v = a @ r" using span_encoded_ok [of user_byte v] by simp
  have sk: "skip_next (\<lambda>p. or_else (xmlIsUnreserved uri p) (or_else (ISA_PCT_ENCODED p)
       (test (\<lambda>c. ISA_SUB_DELIM c \<or> c = ch (CHR '':'')) p))) (v @ 0 # t) = Some (r @ 0 # t)"
    using skip_next_ok [OF scans_user [OF assms(2)], of v t] s by simp
  show ?thesis
  proof (cases "first r = ch (CHR ''@'')")
    case True
    then show ?thesis using agrees_store [of a r mem uri t "\<lambda>s. uri\<lparr>user := s\<rparr>" "v @ 0 # t"] sk assms(1) v s
      unfolding xmlParse3986Userinfo_def r_user_def by simp
  next
    case False
    then show ?thesis using sk s unfolding xmlParse3986Userinfo_def r_user_def agrees_def by simp
  qed
qed

lemma decimal_Cons: "decimal n (c # ds) = decimal (n * 10 + uint (c - ch (CHR ''0''))) ds"
  by (simp add: decimal_def)

lemma decimal_mono: "0 \<le> n \<Longrightarrow> \<forall>c \<in> set ds. ISA_DIGIT c \<Longrightarrow> n \<le> decimal n ds"
proof (induction ds arbitrary: n)
  case (Cons c ds)
  have d: "0 \<le> uint (c - ch (CHR ''0''))" using digit_arith [of c] Cons.prems by simp
  then have "n * 10 + uint (c - ch (CHR ''0'')) \<le> decimal (n * 10 + uint (c - ch (CHR ''0''))) ds" using Cons.prems by (intro Cons.IH) auto
  then show ?case using d Cons.prems(1) unfolding decimal_Cons by linarith
qed (simp add: decimal_def)

lemma port_loop_ok:
  assumes "0 \<le> n" "n \<le> INT_MAX"
  shows "port_loop n (v @ 0 # t) =
    Some (if decimal n (takeWhile ISA_DIGIT v) \<le> INT_MAX then Ptr (decimal n (takeWhile ISA_DIGIT v), dropWhile ISA_DIGIT v @ 0 # t) else NULL)"
  using assms
proof (induction v arbitrary: n)
  case (Cons c v)
  show ?case
  proof (cases "ISA_DIGIT c")
    case True
    let ?d = "uint (c - ch (CHR ''0''))"
    have d: "0 \<le> ?d" "?d \<le> 9" using digit_arith [OF True] by simp_all
    have m: "n * 10 + ?d \<le> decimal (n * 10 + ?d) (takeWhile ISA_DIGIT v)"
      using d Cons.prems by (intro decimal_mono) (auto dest: set_takeWhileD)
    consider (big) "n > INT_MAX div 10" | (over) "n \<le> INT_MAX div 10" "n * 10 > INT_MAX - ?d" | (fine) "n \<le> INT_MAX div 10" "n * 10 \<le> INT_MAX - ?d" by linarith
    then show ?thesis
    proof cases
      case big
      then have "\<not> decimal (n * 10 + ?d) (takeWhile ISA_DIGIT v) \<le> INT_MAX" using m d by linarith
      then show ?thesis using True big by (simp add: decimal_Cons Let_def)
    next
      case over
      then have "\<not> decimal (n * 10 + ?d) (takeWhile ISA_DIGIT v) \<le> INT_MAX" using m d by linarith
      then show ?thesis using True over by (simp add: decimal_Cons Let_def)
    next
      case fine
      then have "\<not> n > INT_MAX div 10" "\<not> n * 10 > INT_MAX - ?d" by linarith+
      moreover have "port_loop (n * 10 + ?d) (v @ 0 # t) = Some (if decimal (n * 10 + ?d) (takeWhile ISA_DIGIT v) \<le> INT_MAX
          then Ptr (decimal (n * 10 + ?d) (takeWhile ISA_DIGIT v), dropWhile ISA_DIGIT v @ 0 # t) else NULL)"
        using fine d Cons.prems by (intro Cons.IH) linarith+
      ultimately show ?thesis using True unfolding append_Cons port_loop.simps Let_def if_P [OF True] takeWhile.simps dropWhile.simps decimal_Cons
        by (simp only: if_False)
    qed
  next
    case False
    then show ?thesis using Cons.prems by (simp add: decimal_def)
  qed
qed (simp add: decimal_def)

lemma port_ok: "xmlParse3986Port uri (v @ 0 # t) = (case r_port uri v of (ret, u, w) \<Rightarrow> Some (ret, u, w @ 0 # t))"
proof (cases v)
  case (Cons c w)
  show ?thesis
    using port_loop_ok [of 0 v t] unfolding Cons by (cases "ISA_DIGIT c") (auto simp: xmlParse3986Port_def r_port_def Let_def)
qed (simp add: xmlParse3986Port_def r_port_def)

text \<open>
  The branch for IPv4 addresses never succeeds: the dot behind the second octet is tested but not skipped, and the
  third octet is looked for at the dot.
\<close>

lemma octet_ok: "\<exists>p. xmlParse3986DecOctet (v @ 0 # t) = Some p \<and> (\<forall>s. p = Ptr s \<longrightarrow> (\<exists>w. s = w @ 0 # t))"
proof -
  have nz: "ISA_DIGIT c \<Longrightarrow> c \<noteq> 0" for c by auto
  consider "\<not> ISA_DIGIT (first v)" | c where "v = [c]" "ISA_DIGIT c" | c d w where "v = c # d # w" "ISA_DIGIT c"
    by (cases v; cases "tl v") auto
  then show ?thesis
  proof cases
    case 1
    then show ?thesis by (auto simp: xmlParse3986DecOctet_def)
  next
    case 2
    then show ?thesis by (auto simp: xmlParse3986DecOctet_def intro: exI [of _ "[]"])
  next
    case 3
    have ge: "48 \<le> first w \<Longrightarrow> \<exists>e u. w = e # u" by (cases w) auto
    have w: "\<exists>u. drop 1 (w @ 0 # t) = u @ 0 # t" if "w \<noteq> []" using that by (cases w) auto
    have r: "rd (v @ 0 # t) 2 = Some (first w)" "rd (v @ 0 # t) 1 = Some d" "rd (v @ 0 # t) 0 = Some c"
      using 3(1) rd_first [of w t] by (simp_all add: numeral_2_eq_2)
    have dr: "drop 1 (v @ 0 # t) = (d # w) @ 0 # t" "drop 2 (v @ 0 # t) = w @ 0 # t" "drop 3 (v @ 0 # t) = drop 1 (w @ 0 # t)"
      using 3(1) by simp_all
    show ?thesis
      unfolding xmlParse3986DecOctet_def r bind.bind_lunit dr using 3(2) w ge
      by (cases "ISA_DIGIT d"; cases "w = []") (auto simp: ISA_DIGIT_def)
  qed
qed

lemma octet_dot_ok:
  "\<exists>p. octet_dot (v @ 0 # t) = Some p \<and> (\<forall>s. p = Ptr s \<longrightarrow> (\<exists>w. s = w @ 0 # t \<and> first w = ch (CHR ''.'')))"
proof -
  obtain p where p: "xmlParse3986DecOctet (v @ 0 # t) = Some p" "\<forall>s. p = Ptr s \<longrightarrow> (\<exists>w. s = w @ 0 # t)" using octet_ok by blast
  show ?thesis
  proof (cases p)
    case NULL
    then show ?thesis using p by (simp add: octet_dot_def)
  next
    case (Ptr s)
    then obtain w where "s = w @ 0 # t" using p by blast
    then show ?thesis using p Ptr by (auto simp: octet_dot_def)
  qed
qed

lemma ipv4_never: "ipv4 (v @ 0 # t) = Some NULL"
proof -
  obtain p where p: "octet_dot (v @ 0 # t) = Some p" "\<forall>s. p = Ptr s \<longrightarrow> (\<exists>w. s = w @ 0 # t \<and> first w = ch (CHR ''.''))"
    using octet_dot_ok by blast
  show ?thesis
  proof (cases p)
    case NULL
    then show ?thesis using p by (simp add: ipv4_def)
  next
    case (Ptr s)
    then obtain w where w: "s = w @ 0 # t" "first w = ch (CHR ''.'')" using p by blast
    then have d1: "drop 1 s = tl w @ 0 # t" by (cases w) auto
    obtain q where q: "octet_dot (tl w @ 0 # t) = Some q" "\<forall>s. q = Ptr s \<longrightarrow> (\<exists>w. s = w @ 0 # t \<and> first w = ch (CHR ''.''))"
      using octet_dot_ok by blast
    show ?thesis
    proof (cases q)
      case NULL
      then show ?thesis using p Ptr q d1 by (simp add: ipv4_def)
    next
      case (Ptr s2)
      then obtain w2 where w2: "s2 = w2 @ 0 # t" "first w2 = ch (CHR ''.'')" using q by blast
      then have "octet_dot s2 = Some NULL" by (simp add: octet_dot_def xmlParse3986DecOctet_def ISA_DIGIT_def)
      then show ?thesis using p \<open>p = Ptr s\<close> q Ptr d1 by (simp add: ipv4_def)
    qed
  qed
qed

end
