(* ===== verification/UriReference.thy ===== *)
theory UriReference
  imports UriScan
begin

text \<open>
  The parser functions of \<open>uri.c\<close> follow a reference parser on texts without terminators, up to failed allocations.
\<close>

lemma agrees_cases:
  assumes "agrees mem x (ret, u, w) t"
  obtains "x = Some (ret, u, w @ 0 # t)" | u' s n where "x = Some (- 1, u', s)" "\<not> mem n"
  using assms by (auto simp: agrees_def)

lemma agreesI: "x = Some (ret, u, w @ 0 # t) \<Longrightarrow> agrees mem x (ret, u, w) t"
  by (simp add: agrees_def)

lemma agrees_fail: "x = Some (- 1, u', s) \<Longrightarrow> \<not> mem n \<Longrightarrow> agrees mem x y t"
  unfolding agrees_def by blast

lemma agrees_seq:
  assumes "agrees mem x (ret, u, w) t"
    and "ret = 0 \<Longrightarrow> agrees mem (g u (w @ 0 # t)) y t"
    and "ret \<noteq> 0 \<Longrightarrow> y = (ret, u, v)"
  shows "agrees mem (do { (ret, u, c) \<leftarrow> x; if ret \<noteq> 0 then Some (ret, u, v @ 0 # t) else g u c }) y t"
  using assms(1)
proof (cases rule: agrees_cases)
  case 1
  then show ?thesis using assms(2,3) by (cases "ret = 0") (auto simp: agrees_def)
next
  case (2 u' s n)
  then show ?thesis by (intro agrees_fail [of _ u' "v @ 0 # t" mem n]) simp_all
qed

lemma host_end_ok:
  assumes "0 \<notin> set v" "strict uri"
  shows "host_end uri (v @ 0 # t) = Some (case host_split v of None \<Rightarrow> NULL | Some (h, r) \<Rightarrow> Ptr (r @ 0 # t))"
proof (cases "first v = ch (CHR ''['')")
  case True
  then obtain w where v: "v = ch (CHR ''['') # w" by (subst (asm) first_eq) auto
  let ?P = "\<lambda>c. c \<noteq> ch (CHR '']'')"
  have "dropWhile (\<lambda>c. c \<noteq> ch (CHR '']'') \<and> c \<noteq> 0) w = dropWhile ?P w"
    using assms(1) v by (intro dropWhile_cong) auto
  then have sk: "skip_chars (\<lambda>c. c \<noteq> ch (CHR '']'') \<and> c \<noteq> 0) (w @ 0 # t) = Some (dropWhile ?P w @ 0 # t)"
    using skip_chars_ok [of "\<lambda>c. c \<noteq> ch (CHR '']'') \<and> c \<noteq> 0" w t] by simp
  have dw: "dropWhile ?P v = dropWhile ?P w" using v by simp
  show ?thesis
  proof (cases "dropWhile ?P w")
    case Nil
    have "skip_chars (\<lambda>c. c \<noteq> ch (CHR '']'') \<and> c \<noteq> 0) (w @ 0 # t) = Some (0 # t)" using sk unfolding Nil by simp
    moreover have "host_split v = None" unfolding host_split_def dw Nil using True by simp
    ultimately show ?thesis using v by (simp add: host_end_def)
  next
    case (Cons c r)
    then have c: "c = ch (CHR '']'')" using hd_dropWhile [of ?P w] by simp
    have "skip_chars (\<lambda>c. c \<noteq> ch (CHR '']'') \<and> c \<noteq> 0) (w @ 0 # t) = Some ((ch (CHR '']'') # r) @ 0 # t)" using sk unfolding Cons c .
    moreover have "host_split v = Some (takeWhile ?P v @ [ch (CHR '']'')], r)" unfolding host_split_def dw Cons using True by simp
    ultimately show ?thesis using v by (simp add: host_end_def)
  qed
next
  case False
  have "reg_name uri (v @ 0 # t) = Some (snd (span_encoded host_byte v) @ 0 # t)"
    unfolding reg_name_def using skip_next_ok [OF scans_host [OF assms(2)]] by blast
  then show ?thesis using False ipv4_never [of v t] by (auto simp: host_end_def host_split_def split: prod.split)
qed

lemma host_split_append: "host_split v = Some (h, r) \<Longrightarrow> v = h @ r"
proof -
  assume h: "host_split v = Some (h, r)"
  show ?thesis
  proof (cases "first v = ch (CHR ''['')")
    case True
    let ?P = "\<lambda>c. c \<noteq> ch (CHR '']'')"
    obtain c w where w: "dropWhile ?P v = c # w" using h True by (cases "dropWhile ?P v") (auto simp: host_split_def Let_def)
    then have "c = ch (CHR '']'')" using hd_dropWhile [of ?P v] by simp
    then have "v = takeWhile ?P v @ ch (CHR '']'') # w" using w takeWhile_dropWhile_id [of ?P v] by metis
    moreover have "(h, r) = (takeWhile ?P v @ [ch (CHR '']'')], w)" using h unfolding host_split_def w Let_def if_P [OF True] by simp
    ultimately show ?thesis by simp
  next
    case False
    then show ?thesis using h span_encoded_ok [of host_byte v] by (auto simp: host_split_def)
  qed
qed

lemma stored_authority [simp]: "stored (uri\<lparr>authority := x\<rparr>) a r = stored uri a r"
  by (simp add: stored_def raw_def)

lemma host_ok:
  assumes "sane v" "strict uri"
  shows "agrees mem (xmlParse3986Host mem uri (v @ 0 # t)) (r_host uri v) t"
proof (cases "host_split v")
  case None
  then show ?thesis using host_end_ok [of v uri t] assms by (simp add: xmlParse3986Host_def r_host_def agrees_def)
next
  case (Some p)
  obtain h r where p: "p = (h, r)" by (cases p)
  then have v: "v = h @ r" using host_split_append Some by blast
  have e: "host_end uri (v @ 0 # t) = Some (Ptr (r @ 0 # t))" using host_end_ok [of v uri t] assms Some p by simp
  show ?thesis
  proof (cases "h = []")
    case True
    then show ?thesis using e Some p v by (simp add: xmlParse3986Host_def r_host_def agrees_def)
  next
    case False
    then show ?thesis using e Some p v assms(1)
        agrees_store [of h r mem "uri\<lparr>authority := NULL\<rparr>" t "\<lambda>s. uri\<lparr>authority := NULL, server := s\<rparr>" "h @ r @ 0 # t"]
      by (simp add: xmlParse3986Host_def r_host_def Let_def)
  qed
qed

text \<open>The rest of a component is not longer than the string.\<close>

definition suffix_of :: "bytes \<Rightarrow> bytes \<Rightarrow> bool" where
  "suffix_of r v \<longleftrightarrow> (\<exists>a. v = a @ r)"

lemma suffix_sane: "suffix_of r v \<Longrightarrow> sane v \<Longrightarrow> sane r"
  by (auto simp: suffix_of_def)

lemma suffix_refl [simp]: "suffix_of v v"
  by (auto simp: suffix_of_def intro: exI [of _ "[]"])

lemma suffix_trans: "suffix_of a b \<Longrightarrow> suffix_of b c \<Longrightarrow> suffix_of a c"
  unfolding suffix_of_def by (metis append.assoc)

lemma suffix_tl: "suffix_of (tl v) v"
  by (cases v) (auto simp: suffix_of_def)

lemma suffix_dropWhile: "suffix_of (dropWhile P v) v"
  unfolding suffix_of_def by (metis takeWhile_dropWhile_id)

lemma suffix_span: "\<not> Q pct_sign \<Longrightarrow> suffix_of (snd (span_encoded Q v)) v"
  using span_encoded_ok [of Q v] by (auto simp: suffix_of_def split: prod.splits)

lemma r_user_suffix: "case r_user uri v of (ret, u, w) \<Rightarrow> suffix_of w v \<and> strict u = strict uri"
  using suffix_span [of user_byte v] by (auto simp: r_user_def split: prod.split)

lemma r_host_suffix: "case r_host uri v of (ret, u, w) \<Rightarrow> suffix_of w v \<and> strict u = strict uri"
  using host_split_append [of v] by (auto simp: r_host_def suffix_of_def split: option.split)

lemma r_port_suffix: "case r_port uri v of (ret, u, w) \<Rightarrow> suffix_of w v \<and> strict u = strict uri"
  using suffix_dropWhile [of ISA_DIGIT v] by (simp add: r_port_def Let_def)

lemma r_authority_suffix: "case r_authority uri v of (ret, u, w) \<Rightarrow> suffix_of w v \<and> strict u = strict uri"
proof -
  obtain ret u1 w1 where 1: "r_user uri v = (ret, u1, w1)" by (cases "r_user uri v") auto
  obtain ret2 u2 w2 where 2: "r_host u1 (if ret = 0 then tl w1 else v) = (ret2, u2, w2)" by (cases "r_host u1 (if ret = 0 then tl w1 else v)") auto
  obtain ret3 u3 w3 where 3: "r_port u2 (tl w2) = (ret3, u3, w3)" by (cases "r_port u2 (tl w2)") auto
  have s1: "suffix_of w1 v" "strict u1 = strict uri" using r_user_suffix [of v uri] 1 by simp_all
  have "suffix_of (if ret = 0 then tl w1 else v) v" using suffix_trans [OF suffix_tl s1(1)] by simp
  then have s2: "suffix_of w2 v" "strict u2 = strict uri" using r_host_suffix [of "if ret = 0 then tl w1 else v" u1] 2 s1(2) suffix_trans by auto
  have s3: "suffix_of w3 v" "strict u3 = strict uri" using r_port_suffix [of "tl w2" u2] 3 s2 suffix_trans [OF _ suffix_trans [OF suffix_tl s2(1)]] by auto
  show ?thesis using 1 2 3 s2 s3 by (simp add: r_authority_def)
qed

lemma first_nz: "first v = c \<Longrightarrow> c \<noteq> 0 \<Longrightarrow> drop 1 (v @ 0 # t) = tl v @ 0 # t"
  by (cases v) auto

lemma authority_ok:
  assumes "sane v" "strict uri"
  shows "agrees mem (xmlParse3986Authority mem uri (v @ 0 # t)) (r_authority uri v) t"
proof -
  obtain ret u1 w1 where 1: "r_user uri v = (ret, u1, w1)" by (cases "r_user uri v") auto
  note a1 = user_ok [OF assms, of mem t, unfolded 1]
  have s1: "suffix_of w1 v" "strict u1" using r_user_suffix [of v uri] 1 assms(2) by simp_all
  let ?w = "if ret = 0 then tl w1 else v"
  have sw: "suffix_of ?w v" using suffix_trans [OF suffix_tl s1(1)] by simp
  note sn = suffix_sane [OF sw assms(1)]
  obtain ret2 u2 w2 where 2: "r_host u1 ?w = (ret2, u2, w2)" by (cases "r_host u1 ?w") auto
  have s2: "suffix_of w2 v" using r_host_suffix [of ?w u1] 2 suffix_trans [OF _ sw] by simp
  from a1 show ?thesis
  proof (cases rule: agrees_cases)
    case (2 u' s n)
    then show ?thesis by (intro agrees_fail [of _ u' "v @ 0 # t" mem n]) (simp_all add: xmlParse3986Authority_def)
  next
    case u: 1
    have at: "ret = 0 \<Longrightarrow> first w1 = ch (CHR ''@'')" and r01: "ret = 0 \<or> ret = 1"
      using 1 by (auto simp: r_user_def split: prod.splits if_splits)
    have "xmlParse3986Authority mem uri (v @ 0 # t) = do {
       (ret2, uri2, cur2) \<leftarrow> xmlParse3986Host mem u1 (?w @ 0 # t);
       if ret2 \<noteq> 0 then Some (ret2, uri2, v @ 0 # t)
       else do {
         d \<leftarrow> rd cur2 0;
         if d = ch (CHR '':'') then do {
           (ret3, uri3, cur3) \<leftarrow> xmlParse3986Port uri2 (drop 1 cur2);
           Some (if ret3 \<noteq> 0 then (ret3, uri3, v @ 0 # t) else (0, uri3, cur3)) }
         else Some (0, uri2, cur2) } }"
      using u r01 at first_nz [OF at, of t] by (auto simp: xmlParse3986Authority_def Let_def)
    moreover have "agrees mem \<dots> (r_authority uri v) t"
    proof (rule agrees_seq)
      show "agrees mem (xmlParse3986Host mem u1 (?w @ 0 # t)) (ret2, u2, w2) t" using host_ok [OF sn s1(2), of mem t] 2 by simp
      show "ret2 \<noteq> 0 \<Longrightarrow> r_authority uri v = (ret2, u2, v)" using 1 2 by (simp add: r_authority_def)
      assume "ret2 = 0"
      then show "agrees mem (do {
         d \<leftarrow> rd (w2 @ 0 # t) 0;
         if d = ch (CHR '':'') then do {
           (ret3, uri3, cur3) \<leftarrow> xmlParse3986Port u2 (drop 1 (w2 @ 0 # t));
           Some (if ret3 \<noteq> 0 then (ret3, uri3, v @ 0 # t) else (0, uri3, cur3)) }
         else Some (0, u2, w2 @ 0 # t) }) (r_authority uri v) t"
        using 1 2 first_nz [of w2 "ch (CHR '':'')" t] port_ok [of u2 "tl w2" t]
        by (auto simp: r_authority_def agrees_def split: prod.splits)
    qed
    ultimately show ?thesis by simp
  qed
qed

section \<open>Paths\<close>

lemma span_weaken:
  assumes "\<not> Q pct_sign" "\<not> Q' pct_sign" "\<And>c. Q c \<Longrightarrow> Q' c"
  shows "span_encoded Q' v = (case span_encoded Q v of (a, r) \<Rightarrow> case span_encoded Q' r of (b, r2) \<Rightarrow> (a @ b, r2))"
proof -
  obtain a r where s: "span_encoded Q v = (a, r)" by fastforce
  have v: "v = a @ r" "encoded Q a" using span_encoded_ok [of Q v] assms(1) s by simp_all
  have "span_encoded Q' (a @ r) = (a @ fst (span_encoded Q' r), snd (span_encoded Q' r))"
    using v(2) assms(1)
  proof (induction rule: encoded_induct)
    case (Cons c w)
    then have "Q' c" "\<not> pct (c # w @ r)" using assms(3) by auto
    then show ?case using Cons by (simp add: span_Q del: pct_simps)
  qed (simp_all add: span_pct)
  then show ?thesis using s v(1) by (simp split: prod.split)
qed

lemma pchar_path: "pchar_byte c \<Longrightarrow> path_byte c"
  by (simp add: path_byte_def)

lemma nc_pchar: "nc_byte c \<Longrightarrow> path_byte c"
  by (simp add: path_byte_def nc_byte_def)

lemma stops_first: "stops Q v \<longleftrightarrow> \<not> pct v \<and> (v = [] \<or> \<not> Q (first v))"
  by (cases v) (simp_all add: stops_def)

lemma stops_path: "stops pchar_byte r \<Longrightarrow> first r \<noteq> ch (CHR ''/'') \<Longrightarrow> stops path_byte r"
  by (simp add: stops_first path_byte_def)

lemma span_path_segment:
  "snd (span_encoded path_byte v) =
    (let r = snd (span_encoded pchar_byte v) in if first r = ch (CHR ''/'') then snd (span_encoded path_byte r) else r)"
proof -
  obtain a r where s: "span_encoded pchar_byte v = (a, r)" by fastforce
  then have "stops pchar_byte r" using span_encoded_ok [of pchar_byte v] by simp
  then show ?thesis using span_weaken [of pchar_byte path_byte v, OF _ _ pchar_path] s stops_path [of r]
    by (auto simp: span_stop split: prod.split)
qed

lemma span_slash: "first v = ch (CHR ''/'') \<Longrightarrow>
    span_encoded path_byte v = (ch (CHR ''/'') # fst (span_encoded path_byte (tl v)), snd (span_encoded path_byte (tl v)))"
  by (cases v) (auto simp: span_Q path_byte_def)

lemma segment_ok:
  assumes "strict uri" "forbid \<noteq> pct_sign"
  defines "Q \<equiv> \<lambda>c. pchar_byte c \<and> c \<noteq> forbid"
  shows "xmlParse3986Segment uri (v @ 0 # t) forbid allow_empty =
    Some (if stops Q v then (if allow_empty then 0 else 1, v @ 0 # t) else (0, snd (span_encoded Q v) @ 0 # t))"
proof -
  let ?P = "\<lambda>p. do { b \<leftarrow> ISA_PCHAR uri p; if b then test (\<lambda>c. c \<noteq> forbid) p else Some False }"
  have P: "scans Q ?P" unfolding Q_def using assms(1,2) by (rule scans_segment)
  have z: "stops Q v \<longleftrightarrow> \<not> ((pchar_byte (first v) \<or> pct v) \<and> first v \<noteq> forbid)"
    using assms(2) pct_first [of v] by (cases v) (auto simp: stops_first Q_def)
  show ?thesis
  proof (cases "stops Q v")
    case True
    then show ?thesis using z pchar_ok [OF assms(1), of v t] by (auto simp: xmlParse3986Segment_def)
  next
    case False
    have "?P (v @ 0 # t) = Some True" using False z pchar_ok [OF assms(1), of v t] by (simp add: test_ok)
    then have "skip_next ?P (v @ 0 # t) = do { cur \<leftarrow> NEXT (v @ 0 # t); skip_next ?P cur }" by (subst skip_next.simps) simp
    then have n: "do { cur \<leftarrow> NEXT (v @ 0 # t); skip_next ?P cur } = Some (snd (span_encoded Q v) @ 0 # t)"
      using skip_next_ok [OF P, of v t] by simp
    have "xmlParse3986Segment uri (v @ 0 # t) forbid allow_empty =
        do { cur' \<leftarrow> do { cur \<leftarrow> NEXT (v @ 0 # t); skip_next ?P cur }; Some (0, cur') }"
      using False z pchar_ok [OF assms(1), of v t] unfolding xmlParse3986Segment_def by simp
    then show ?thesis using n False by simp
  qed
qed

lemma seg_bytes: "(\<lambda>c. pchar_byte c \<and> c \<noteq> 0) = pchar_byte" "(\<lambda>c. pchar_byte c \<and> c \<noteq> ch (CHR '':'')) = nc_byte"
  by (auto simp: fun_eq_iff nc_byte_def)

lemmas segment_any = segment_ok [of _ 0, unfolded seg_bytes, simplified]
lemmas segment_nc = segment_ok [of _ "ch (CHR '':'')", unfolded seg_bytes, simplified]

definition after_segments :: "bytes \<Rightarrow> bytes" where
  "after_segments v = (if first v = ch (CHR ''/'') then snd (span_encoded path_byte v) else v)"

lemma snd_span_stop: "stops Q v \<Longrightarrow> snd (span_encoded Q v) = v"
  by (simp add: span_stop)

lemma after_segment: "after_segments (snd (span_encoded pchar_byte v)) = snd (span_encoded path_byte v)"
  by (simp add: after_segments_def span_path_segment [of v] Let_def)

lemma length_span: "\<not> Q pct_sign \<Longrightarrow> length (snd (span_encoded Q v)) \<le> length v"
proof -
  assume "\<not> Q pct_sign"
  then have "v = fst (span_encoded Q v) @ snd (span_encoded Q v)" using span_encoded_ok [of Q v] by (simp split: prod.splits)
  then have "length v = length (fst (span_encoded Q v)) + length (snd (span_encoded Q v))" by (metis length_append)
  then show ?thesis by simp
qed

lemma segments_ok: "strict uri \<Longrightarrow> segments uri (v @ 0 # t) = Some (0, after_segments v @ 0 # t)"
proof (induction v rule: length_induct)
  case (1 v)
  show ?case
  proof (cases "first v = ch (CHR ''/'')")
    case True
    then obtain w where w: "v = ch (CHR ''/'') # w" by (subst (asm) first_eq) auto
    let ?r = "snd (span_encoded pchar_byte w)"
    have "xmlParse3986Segment uri (w @ 0 # t) 0 True = Some (0, ?r @ 0 # t)"
      using segment_any [OF "1.prems", of w t True] by (auto simp: snd_span_stop)
    moreover have "segments uri (?r @ 0 # t) = Some (0, after_segments ?r @ 0 # t)"
      using 1 w length_span [of pchar_byte w] by (auto simp: less_Suc_eq_le)
    moreover have "after_segments v = snd (span_encoded path_byte w)" using True w by (simp add: after_segments_def span_slash)
    ultimately show ?thesis using w by (subst segments.simps) (simp add: after_segment)
  next
    case False
    then show ?thesis by (subst segments.simps) (simp add: after_segments_def)
  qed
qed

lemma store_path_ok:
  assumes "sane (a @ r)"
  shows "agrees mem (store_path mem uri (a @ r @ 0 # t) (r @ 0 # t)) (r_path uri a r) t"
proof (cases "a = []")
  case True
  then show ?thesis by (simp add: store_path_def r_path_def agrees_def)
next
  case False
  then show ?thesis using agrees_store [OF assms, of mem uri t "\<lambda>s. uri\<lparr>path := s\<rparr>" "a @ r @ 0 # t"]
    by (simp add: store_path_def r_path_def)
qed

lemma span_append: "\<not> Q pct_sign \<Longrightarrow> v = fst (span_encoded Q v) @ snd (span_encoded Q v)"
  using span_encoded_ok [of Q v] by (simp split: prod.splits)

lemma store_span:
  assumes "sane v" "v = a @ r"
  shows "agrees mem (store_path mem uri (v @ 0 # t) (r @ 0 # t)) (r_path uri a r) t"
  using store_path_ok [of a r mem uri t] assms by simp

lemma abempty_ok:
  assumes "sane v" "strict uri"
  shows "agrees mem (xmlParse3986PathAbEmpty mem uri (v @ 0 # t)) (r_abempty uri v) t"
  using segments_ok [OF assms(2), of v t] store_span [OF assms(1) span_append [of path_byte v], of mem uri t]
    store_span [of v "[]" v mem uri t] assms(1)
  by (simp add: xmlParse3986PathAbEmpty_def r_abempty_def after_segments_def case_prod_beta)

lemma absolute_ok:
  assumes "sane v" "strict uri" "first v = ch (CHR ''/'')" "first (tl v) \<noteq> ch (CHR ''/'')"
  shows "agrees mem (xmlParse3986PathAbsolute mem uri (v @ 0 # t)) (case path_split colon v of (a, r) \<Rightarrow> r_path uri a r) t"
proof -
  have v: "v = ch (CHR ''/'') # tl v" using assms(3) by (cases v) auto
  have d: "drop 1 (v @ 0 # t) = tl v @ 0 # t" by (subst v) simp
  let ?r = "snd (span_encoded path_byte v)"
  have r: "?r = snd (span_encoded path_byte (tl v))" using span_slash [OF assms(3)] by simp
  have st: "stops pchar_byte (tl v) \<Longrightarrow> ?r = tl v" using stops_path [OF _ assms(4)] by (simp add: r snd_span_stop)
  have "xmlParse3986PathAbsolute mem uri (v @ 0 # t) = store_path mem uri (v @ 0 # t) (?r @ 0 # t)"
    unfolding xmlParse3986PathAbsolute_def using assms(3) d segment_any [OF assms(2), of "tl v" t False]
      segments_ok [OF assms(2)] st
    by (cases "stops pchar_byte (tl v)") (simp_all add: after_segment r)
  then show ?thesis using store_span [OF assms(1) span_append [of path_byte v], of mem uri t] assms(3)
    by (simp add: path_split_def case_prod_beta)
qed

lemma rootless_ok:
  assumes "sane v" "strict uri" "\<not> stops pchar_byte v"
  shows "agrees mem (xmlParse3986PathRootless mem uri (v @ 0 # t)) (case path_split True v of (a, r) \<Rightarrow> r_path uri a r) t"
  using segment_any [OF assms(2), of v t False] segments_ok [OF assms(2)] assms(3)
    store_span [OF assms(1) span_append [of path_byte v], of mem uri t]
  by (simp add: xmlParse3986PathRootless_def path_split_def after_segment case_prod_beta)

lemma noscheme_ok:
  assumes "sane v" "strict uri" "first v \<noteq> ch (CHR ''/'')" "\<not> stops pchar_byte v"
  shows "agrees mem (xmlParse3986PathNoScheme mem uri (v @ 0 # t))
    (if first v = ch (CHR '':'') then (1, uri, v) else case path_split False v of (a, r) \<Rightarrow> r_path uri a r) t"
proof -
  have s: "stops nc_byte v \<longleftrightarrow> first v = ch (CHR '':'')"
    using assms(4) pct_first [of v] by (cases v) (auto simp: stops_first nc_byte_def)
  let ?a = "fst (span_encoded nc_byte v)" let ?r = "snd (span_encoded nc_byte v)"
  have v: "v = ?a @ ?r" by (rule span_append) simp
  have a: "?a \<noteq> []" if "\<not> stops nc_byte v"
    using that span_encoded_ok [of nc_byte v] v by (auto split: prod.splits)
  have e: "case path_split False v of (a, r) \<Rightarrow> v = a @ r \<and> r = after_segments ?r" if "\<not> stops nc_byte v"
    using assms(3) a [OF that] v span_append [of path_byte ?r]
    by (auto simp: path_split_def after_segments_def split: prod.splits)
  show ?thesis
  proof (cases "stops nc_byte v")
    case True
    then show ?thesis using s segment_nc [OF assms(2), of v t False] by (simp add: xmlParse3986PathNoScheme_def agrees_def)
  next
    case False
    obtain a r where p: "path_split False v = (a, r)" by fastforce
    note ep = e [OF False, unfolded p prod.case]
    note ar = ep [THEN conjunct1] ep [THEN conjunct2, symmetric]
    have "xmlParse3986PathNoScheme mem uri (v @ 0 # t) = store_path mem uri (v @ 0 # t) (r @ 0 # t)"
      using False s segment_nc [OF assms(2), of v t False] segments_ok [OF assms(2), of ?r t] ar(2)
      by (simp add: xmlParse3986PathNoScheme_def)
    then show ?thesis using False s p store_span [OF assms(1) ar(1), of mem uri t] by simp
  qed
qed

section \<open>References\<close>

abbreviation slashes :: bytes where
  "slashes \<equiv> asc ''//''"

definition no_server :: "xmlURI \<Rightarrow> xmlURI" where
  "no_server uri = (if server uri = NULL \<and> port uri = PORT_EMPTY then uri\<lparr>port := PORT_EMPTY_SERVER\<rparr> else uri)"

definition r_hier :: "xmlURI \<Rightarrow> bytes \<Rightarrow> int \<times> xmlURI \<times> bytes" where
  "r_hier uri v =
     (if take 2 v = slashes then
        case r_authority uri (drop 2 v) of (ret, uri1, w) \<Rightarrow> if ret \<noteq> 0 then (ret, uri1, v) else r_abempty (no_server uri1) w
      else case path_split True v of (a, r) \<Rightarrow> r_path uri a r)"

definition r_relative :: "xmlURI \<Rightarrow> bytes \<Rightarrow> int \<times> xmlURI \<times> bytes" where
  "r_relative uri v =
     (if take 2 v = slashes then
        case r_authority uri (drop 2 v) of (ret, uri1, w) \<Rightarrow> if ret \<noteq> 0 then (ret, uri1, drop 2 v) else r_abempty uri1 w
      else if first v = ch (CHR '':'') then (1, uri, v)
      else case path_split False v of (a, r) \<Rightarrow> r_path uri a r)"

definition r_tail :: "xmlURI \<Rightarrow> bytes \<Rightarrow> int \<times> xmlURI" where
  "r_tail uri v =
     (case (if first v = ch (CHR ''?'') then r_query uri (tl v) else (0, uri, v)) of (ret, uri1, w) \<Rightarrow>
      case (if first w = ch (CHR ''#'') then r_fragment uri1 (tl w) else (0, uri1, w)) of (ret2, uri2, w2) \<Rightarrow>
        if w2 \<noteq> [] then (1, xmlCleanURI uri2) else (0, uri2))"

definition r_URI :: "xmlURI \<Rightarrow> bytes \<Rightarrow> int \<times> xmlURI" where
  "r_URI uri v =
     (case r_scheme uri v of (ret, uri1, w) \<Rightarrow>
        if ret \<noteq> 0 then (ret, uri1)
        else if first w \<noteq> ch (CHR '':'') then (1, uri1)
        else case r_hier uri1 (tl w) of (ret2, uri2, w2) \<Rightarrow> if ret2 \<noteq> 0 then (ret2, uri2) else r_tail uri2 w2)"

definition r_RelativeRef :: "xmlURI \<Rightarrow> bytes \<Rightarrow> int \<times> xmlURI" where
  "r_RelativeRef uri v = (case r_relative uri v of (ret, uri1, w) \<Rightarrow> if ret \<noteq> 0 then (ret, uri1) else r_tail uri1 w)"

definition r_reference :: "xmlURI \<Rightarrow> bytes \<Rightarrow> int \<times> xmlURI" where
  "r_reference uri v =
     (case r_URI (xmlCleanURI uri) v of (ret, uri1) \<Rightarrow>
        if ret = 0 then (0, uri1)
        else case r_RelativeRef (xmlCleanURI uri1) v of (ret2, uri2) \<Rightarrow> if ret2 \<noteq> 0 then (ret2, xmlCleanURI uri2) else (0, uri2))"

lemma two_slashes_ok: "two_slashes (v @ 0 # t) = Some (take 2 v = slashes)"
proof (cases v)
  case (Cons c w)
  have "take 2 v = c # take 1 w" using Cons by (simp add: numeral_2_eq_2)
  moreover have "take 1 w = [d] \<longleftrightarrow> first w = d" if "d \<noteq> 0" for d using that by (cases w) auto
  ultimately show ?thesis using Cons by (simp add: two_slashes_def test_ok)
qed (simp add: two_slashes_def)

lemma agrees_then:
  assumes "agrees mem x (ret, u, w) t"
    and "ret = 0 \<Longrightarrow> agrees mem (g u (w @ 0 # t)) y t"
    and "ret \<noteq> 0 \<Longrightarrow> y = (ret, u, k w)" and "ret \<noteq> 0 \<Longrightarrow> s (w @ 0 # t) = k w @ 0 # t"
  shows "agrees mem (do { (ret, u, c) \<leftarrow> x; if ret \<noteq> 0 then Some (ret, u, s c) else g u c }) y t"
  using assms(1)
proof (cases rule: agrees_cases)
  case 1
  then show ?thesis using assms(2,3,4) by (cases "ret = 0") (auto simp: agrees_def)
next
  case (2 u' c n)
  then show ?thesis by (intro agrees_fail [of _ u' "s c" mem n]) simp_all
qed

lemma agrees_pass:
  assumes "agrees mem x y t"
  shows "agrees mem (do { (ret, u, c) \<leftarrow> x; Some (if ret \<noteq> 0 then (ret, u, v @ 0 # t) else (0, u, c)) })
    (case y of (ret, u, w) \<Rightarrow> if ret \<noteq> 0 then (ret, u, v) else y) t"
  using assms unfolding agrees_def by (auto split: prod.splits)

lemma strict_no_server [simp]: "strict (no_server uri) = strict uri"
  by (simp add: no_server_def)

lemma r_path_simps: "r_path uri a r = (0, uri\<lparr>path := (if a = [] then NULL else stored uri a r)\<rparr>, r)"
  by (simp add: r_path_def)

lemma fst_abempty: "fst (r_abempty uri v) = 0"
  by (simp add: r_abempty_def r_path_def split: prod.split)

lemma suffix_drop: "suffix_of (drop n v) v"
  by (auto simp: suffix_of_def intro: exI [of _ "take n v"])

lemma slashes_first: "first v = ch (CHR ''/'') \<Longrightarrow> take 2 v \<noteq> slashes \<Longrightarrow> first (tl v) \<noteq> ch (CHR ''/'')"
  by (cases v; cases "tl v") auto

lemma slashes_drop: "take 2 v = slashes \<Longrightarrow> drop 2 (v @ 0 # t) = drop 2 v @ 0 # t"
  by (cases v; cases "tl v") auto

lemma path_split_stops: "stops pchar_byte v \<Longrightarrow> first v \<noteq> ch (CHR ''/'') \<Longrightarrow> path_split colon v = ([], v)"
proof -
  assume a: "stops pchar_byte v" "first v \<noteq> ch (CHR ''/'')"
  then have "stops path_byte v" "stops nc_byte v" by (simp_all add: stops_path) (auto simp: stops_first nc_byte_def)
  then show ?thesis using a(2) by (simp add: path_split_def span_stop)
qed

lemma hier_ok:
  assumes "sane v" "strict uri"
  shows "agrees mem (xmlParse3986HierPart mem uri (v @ 0 # t)) (r_hier uri v) t"
proof (cases "take 2 v = slashes")
  case True
  obtain ret u w where a: "r_authority uri (drop 2 v) = (ret, u, w)" by (cases "r_authority uri (drop 2 v)") auto
  have sd: "sane (drop 2 v)" by (rule suffix_sane [OF suffix_drop assms(1)])
  have s: "suffix_of w (drop 2 v)" "strict u" using r_authority_suffix [of "drop 2 v" uri] a assms(2) by simp_all
  have sw: "sane w" by (rule suffix_sane [OF s(1) sd])
  have ag: "agrees mem (xmlParse3986Authority mem uri (drop 2 v @ 0 # t)) (ret, u, w) t" using authority_ok [OF sd assms(2), of mem t] a by simp
  have "agrees mem (do { (ret, uri1, cur) \<leftarrow> xmlParse3986Authority mem uri (drop 2 v @ 0 # t);
     if ret \<noteq> 0 then Some (ret, uri1, v @ 0 # t)
     else do { (ret2, uri3, cur2) \<leftarrow> xmlParse3986PathAbEmpty mem (no_server uri1) cur;
               Some (if ret2 \<noteq> 0 then (ret2, uri3, v @ 0 # t) else (0, uri3, cur2)) } }) (r_hier uri v) t"
  proof (rule agrees_seq [OF ag])
    show "ret \<noteq> 0 \<Longrightarrow> r_hier uri v = (ret, u, v)" using True a by (simp add: r_hier_def)
    assume "ret = 0"
    then have h: "r_hier uri v = r_abempty (no_server u) w" using True a by (simp add: r_hier_def)
    have "strict (no_server u)" using s(2) by simp
    from agrees_pass [OF abempty_ok [OF sw this, of mem t], of v]
    show "agrees mem (do { (ret2, uri3, cur2) \<leftarrow> xmlParse3986PathAbEmpty mem (no_server u) (w @ 0 # t);
               Some (if ret2 \<noteq> 0 then (ret2, uri3, v @ 0 # t) else (0, uri3, cur2)) }) (r_hier uri v) t"
      using fst_abempty [of "no_server u" w] unfolding h by (auto split: prod.splits)
  qed
  then show ?thesis using True slashes_drop [OF True, of t] unfolding xmlParse3986HierPart_def no_server_def Let_def
    by (simp add: two_slashes_ok)
next
  case False
  then show ?thesis
  proof (cases "first v = ch (CHR ''/'')")
    case True
    then show ?thesis using False absolute_ok [OF assms True slashes_first [OF True False], of mem t True]
      by (simp add: xmlParse3986HierPart_def r_hier_def two_slashes_ok)
  next
    case no: False
    have b: "ISA_PCHAR uri (v @ 0 # t) = Some (\<not> stops pchar_byte v)"
      using pchar_ok [OF assms(2), of v t] by (cases v) (auto simp: stops_first)
    show ?thesis
    proof (cases "stops pchar_byte v")
      case True
      then show ?thesis using no False b path_split_stops [OF True no, of True]
        by (simp add: xmlParse3986HierPart_def r_hier_def two_slashes_ok r_path_def agrees_def)
    next
      case go: False
      then show ?thesis using no False b rootless_ok [OF assms go, of mem t]
        by (simp add: xmlParse3986HierPart_def r_hier_def two_slashes_ok)
    qed
  qed
qed

lemma relative_ok:
  assumes "sane v" "strict uri"
  shows "agrees mem
    (do {
       auth \<leftarrow> two_slashes (v @ 0 # t);
       if auth then do {
          (ret, uri1, cur) \<leftarrow> xmlParse3986Authority mem uri (drop 2 (v @ 0 # t));
          if ret \<noteq> 0 then Some (ret, uri1, cur) else xmlParse3986PathAbEmpty mem uri1 cur }
       else do {
          c \<leftarrow> rd (v @ 0 # t) 0;
          if c = ch (CHR ''/'') then xmlParse3986PathAbsolute mem uri (v @ 0 # t)
          else do {
            b \<leftarrow> ISA_PCHAR uri (v @ 0 # t);
            if b then xmlParse3986PathNoScheme mem uri (v @ 0 # t) else Some (0, uri\<lparr>path := NULL\<rparr>, v @ 0 # t) } } })
    (r_relative uri v) t"
proof (cases "take 2 v = slashes")
  case True
  obtain ret u w where a: "r_authority uri (drop 2 v) = (ret, u, w)" by (cases "r_authority uri (drop 2 v)") auto
  have sd: "sane (drop 2 v)" by (rule suffix_sane [OF suffix_drop assms(1)])
  have s: "suffix_of w (drop 2 v)" "strict u" using r_authority_suffix [of "drop 2 v" uri] a assms(2) by simp_all
  have sw: "sane w" by (rule suffix_sane [OF s(1) sd])
  have ag: "agrees mem (xmlParse3986Authority mem uri (drop 2 v @ 0 # t)) (ret, u, w) t" using authority_ok [OF sd assms(2), of mem t] a by simp
  have "ret \<noteq> 0 \<Longrightarrow> w = drop 2 v" using a by (auto simp: r_authority_def split: prod.splits if_splits)
  then have "agrees mem (do { (ret, uri1, cur) \<leftarrow> xmlParse3986Authority mem uri (drop 2 v @ 0 # t);
     if ret \<noteq> 0 then Some (ret, uri1, cur) else xmlParse3986PathAbEmpty mem uri1 cur }) (r_relative uri v) t"
    using True a abempty_ok [OF sw s(2), of mem t]
    by (intro agrees_then [OF ag, where k = "\<lambda>w. w" and s = "\<lambda>w. w"]) (simp_all add: r_relative_def)
  then show ?thesis using True slashes_drop [OF True, of t] by (simp add: two_slashes_ok)
next
  case False
  then show ?thesis
  proof (cases "first v = ch (CHR ''/'')")
    case True
    then show ?thesis using False absolute_ok [OF assms True slashes_first [OF True False], of mem t False]
      by (simp add: r_relative_def two_slashes_ok)
  next
    case no: False
    have b: "ISA_PCHAR uri (v @ 0 # t) = Some (\<not> stops pchar_byte v)"
      using pchar_ok [OF assms(2), of v t] by (cases v) (auto simp: stops_first)
    show ?thesis
    proof (cases "stops pchar_byte v")
      case True
      moreover have "first v \<noteq> ch (CHR '':'')" using True by (cases v) (auto simp: stops_first pchar_byte_def)
      ultimately show ?thesis using no False b path_split_stops [OF True no, of False]
        by (simp add: r_relative_def two_slashes_ok r_path_def agrees_def)
    next
      case go: False
      then show ?thesis using no False b noscheme_ok [OF assms no go, of mem t]
        by (simp add: r_relative_def two_slashes_ok)
    qed
  qed
qed


section \<open>The whole reference\<close>

definition settles :: "allocator \<Rightarrow> (int \<times> xmlURI) option \<Rightarrow> int \<times> xmlURI \<Rightarrow> bool" where
  "settles mem x y \<longleftrightarrow> x = Some y \<or> (\<exists>u n. x = Some (- 1, u) \<and> \<not> mem n)"

lemma settlesI: "x = Some y \<Longrightarrow> settles mem x y"
  by (simp add: settles_def)

lemma settles_fail: "x = Some (- 1, u) \<Longrightarrow> \<not> mem n \<Longrightarrow> settles mem x y"
  unfolding settles_def by blast

lemma settles_seq:
  assumes "agrees mem x (ret, u, w) t"
    and "ret = 0 \<Longrightarrow> settles mem (g u (w @ 0 # t)) y"
    and "ret \<noteq> 0 \<Longrightarrow> y = (ret, u)"
  shows "settles mem (do { (ret, u, c) \<leftarrow> x; if ret \<noteq> 0 then Some (ret, u) else g u c }) y"
  using assms(1)
proof (cases rule: agrees_cases)
  case 1
  then show ?thesis using assms(2,3) by (cases "ret = 0") (auto simp: settles_def)
next
  case (2 u' s n)
  then show ?thesis by (intro settles_fail [of _ u' mem n]) simp_all
qed

lemma r_query_suffix: "case r_query uri v of (ret, u, w) \<Rightarrow> ret = 0 \<and> suffix_of w v \<and> strict u = strict uri"
  using suffix_span [of query_byte v] by (auto simp: r_query_def split: prod.split)

lemma r_fragment_suffix: "case r_fragment uri v of (ret, u, w) \<Rightarrow> ret = 0 \<and> suffix_of w v \<and> strict u = strict uri"
  using suffix_span [of fragment_byte v] by (auto simp: r_fragment_def split: prod.split)

lemma tail_ok:
  assumes "sane v" "strict uri"
  shows "settles mem (uri_tail mem uri (v @ 0 # t)) (r_tail uri v)"
proof -
  let ?q = "if first v = ch (CHR ''?'') then r_query uri (tl v) else (0, uri, v)"
  obtain ret u w where q: "?q = (ret, u, w)" by (cases ?q) auto
  have st: "sane (tl v)" by (rule suffix_sane [OF suffix_tl assms(1)])
  have s: "ret = 0" "suffix_of w v" "strict u"
    using r_query_suffix [of "tl v" uri] q assms(2) suffix_trans [OF _ suffix_tl] by (auto split: if_splits)
  have sw: "sane w" by (rule suffix_sane [OF s(2) assms(1)])
  let ?f = "if first w = ch (CHR ''#'') then r_fragment u (tl w) else (0, u, w)"
  obtain ret2 u2 w2 where f: "?f = (ret2, u2, w2)" by (cases ?f) auto
  have s2: "ret2 = 0" "suffix_of w2 w" 
    using r_fragment_suffix [of "tl w" u] f suffix_trans [OF _ suffix_tl] by (auto split: if_splits)
  have sw2: "sane w2" by (rule suffix_sane [OF s2(2) sw])
  have aq: "agrees mem (if first v = ch (CHR ''?'') then xmlParse3986Query mem uri (drop 1 (v @ 0 # t)) else Some (0, uri, v @ 0 # t)) (ret, u, w) t"
    using query_ok [OF st assms(2), of mem t] q first_nz [of v "ch (CHR ''?'')" t] by (auto simp: agrees_def)
  have stw: "sane (tl w)" by (rule suffix_sane [OF suffix_tl sw])
  have af: "agrees mem (if first w = ch (CHR ''#'') then xmlParse3986Fragment mem u (drop 1 (w @ 0 # t)) else Some (0, u, w @ 0 # t)) (ret2, u2, w2) t"
    using fragment_ok [OF stw s(3), of mem t] f first_nz [of w "ch (CHR ''#'')" t] by (auto simp: agrees_def)
  have e: "first w2 = 0 \<longleftrightarrow> w2 = []" using sw2 by (cases w2) auto
  have "r_tail uri v = (if w2 \<noteq> [] then (1, xmlCleanURI u2) else (0, u2))" unfolding r_tail_def q prod.case f ..
  then show ?thesis unfolding uri_tail_def rd_first bind.bind_lunit
    by (intro settles_seq [OF aq], unfold rd_first bind.bind_lunit, intro settles_seq [OF af]) (simp_all add: s s2 settles_def e)
qed

lemma no_server_cong: "strict (no_server uri) = strict uri"
  by simp

lemma r_abempty_suffix: "case r_abempty uri v of (ret, u, w) \<Rightarrow> suffix_of w v \<and> strict u = strict uri"
  using suffix_span [of path_byte v] by (auto simp: r_abempty_def r_path_def split: prod.split)

lemma path_split_suffix: "suffix_of (snd (path_split colon v)) v"
proof -
  have a: "suffix_of (snd (span_encoded path_byte w)) w" for w by (rule suffix_span) simp
  have b: "suffix_of (snd (span_encoded nc_byte v)) v" by (rule suffix_span) simp
  show ?thesis using a b suffix_trans [OF a b] by (simp add: path_split_def case_prod_beta)
qed

lemma r_relative_suffix: "case r_relative uri v of (ret, u, w) \<Rightarrow> suffix_of w v \<and> strict u = strict uri"
proof (cases "take 2 v = slashes")
  case True
  obtain ret u w where a: "r_authority uri (drop 2 v) = (ret, u, w)" by (cases "r_authority uri (drop 2 v)") auto
  have d: "suffix_of (drop 2 v) v" by (rule suffix_drop)
  have s: "suffix_of w (drop 2 v)" "strict u = strict uri" using r_authority_suffix [of "drop 2 v" uri] a by simp_all
  obtain ret2 u2 w2 where b: "r_abempty (u) w = (ret2, u2, w2)" by (cases "r_abempty (u) w") auto
  have s2: "suffix_of w2 w" "strict u2 = strict uri" using r_abempty_suffix [of w "u"] b s(2) by simp_all
  have "suffix_of w2 v" by (rule suffix_trans [OF s2(1) suffix_trans [OF s(1) d]])
  then show ?thesis using True a b s(2) s2(2) d by (simp add: r_relative_def)
next
  case False
  then show ?thesis using path_split_suffix [of False v] by (simp add: r_relative_def r_path_def case_prod_beta)
qed

lemma r_hier_suffix: "case r_hier uri v of (ret, u, w) \<Rightarrow> suffix_of w v \<and> strict u = strict uri"
proof (cases "take 2 v = slashes")
  case True
  obtain ret u w where a: "r_authority uri (drop 2 v) = (ret, u, w)" by (cases "r_authority uri (drop 2 v)") auto
  have d: "suffix_of (drop 2 v) v" by (rule suffix_drop)
  have s: "suffix_of w (drop 2 v)" "strict u = strict uri" using r_authority_suffix [of "drop 2 v" uri] a by simp_all
  obtain ret2 u2 w2 where b: "r_abempty (no_server u) w = (ret2, u2, w2)" by (cases "r_abempty (no_server u) w") auto
  have s2: "suffix_of w2 w" "strict u2 = strict uri" using r_abempty_suffix [of w "no_server u"] b s(2) by simp_all
  have "suffix_of w2 v" by (rule suffix_trans [OF s2(1) suffix_trans [OF s(1) d]])
  then show ?thesis using True a b s(2) s2(2) d by (simp add: r_hier_def)
next
  case False
  then show ?thesis using path_split_suffix [of True v] by (simp add: r_hier_def r_path_def case_prod_beta)
qed

lemma RelativeRef_ok:
  assumes "sane v" "strict uri"
  shows "settles mem (xmlParse3986RelativeRef mem uri (v @ 0 # t)) (r_RelativeRef uri v)"
proof -
  obtain ret u w where a: "r_relative uri v = (ret, u, w)" by (cases "r_relative uri v") auto
  have s: "suffix_of w v" "strict u" using r_relative_suffix [of v uri] a assms(2) by simp_all
  note ag = relative_ok [OF assms, of mem t, unfolded a]
  show ?thesis
    unfolding xmlParse3986RelativeRef_def
    using settles_seq [OF ag, of "uri_tail mem" "r_RelativeRef uri v"] tail_ok [OF suffix_sane [OF s(1) assms(1)] s(2), of mem t] a
    by (simp add: r_RelativeRef_def two_slashes_ok)
qed

lemma r_scheme_suffix: "case r_scheme uri v of (ret, u, w) \<Rightarrow> suffix_of w v \<and> strict u = strict uri"
  using suffix_trans [OF suffix_dropWhile [of scheme_byte "tl v"] suffix_tl [of v]] by (simp add: r_scheme_def)

lemma URI_ok:
  assumes "sane v" "strict uri"
  shows "settles mem (xmlParse3986URI mem uri (v @ 0 # t)) (r_URI uri v)"
proof -
  obtain ret u w where a: "r_scheme uri v = (ret, u, w)" by (cases "r_scheme uri v") auto
  have s: "suffix_of w v" "strict u" using r_scheme_suffix [of v uri] a assms(2) by simp_all
  have st: "suffix_of (tl w) v" by (rule suffix_trans [OF suffix_tl s(1)])
  obtain ret2 u2 w2 where b: "r_hier u (tl w) = (ret2, u2, w2)" by (cases "r_hier u (tl w)") auto
  have s2: "suffix_of w2 (tl w)" "strict u2" using r_hier_suffix [of "tl w" u] b s(2) by simp_all
  have s3: "suffix_of w2 v" by (rule suffix_trans [OF s2(1) st])
  note ag = scheme_ok [OF assms(1), of mem uri t, unfolded a]
  note ag2 = hier_ok [OF suffix_sane [OF st assms(1)] s(2), of mem t, unfolded b]
  show ?thesis
    unfolding xmlParse3986URI_def
  proof (rule settles_seq [OF ag])
    show "ret \<noteq> 0 \<Longrightarrow> r_URI uri v = (ret, u)" using a by (simp add: r_URI_def)
    assume r: "ret = 0"
    show "settles mem (do { c \<leftarrow> rd (w @ 0 # t) 0;
        if c \<noteq> ch (CHR '':'') then Some (1, u)
        else do { (ret2, uri2, str2) \<leftarrow> xmlParse3986HierPart mem u (drop 1 (w @ 0 # t));
                  if ret2 \<noteq> 0 then Some (ret2, uri2) else uri_tail mem uri2 str2 } }) (r_URI uri v)"
    proof (cases "first w = ch (CHR '':'')")
      case True
      have "settles mem (do { (ret2, uri2, str2) \<leftarrow> xmlParse3986HierPart mem u (tl w @ 0 # t);
                  if ret2 \<noteq> 0 then Some (ret2, uri2) else uri_tail mem uri2 str2 }) (r_URI uri v)"
        using tail_ok [OF suffix_sane [OF s3 assms(1)] s2(2), of mem t] a b r True
        by (intro settles_seq [OF ag2]) (simp_all add: r_URI_def)
      then show ?thesis using True first_nz [OF True, of t] by simp
    next
      case False
      then show ?thesis using a r by (simp add: r_URI_def settles_def)
    qed
  qed
qed

text \<open>A failed allocation ends the parse with the code -1, except that the code of a relative reference follows a failed URI.\<close>

lemma strict_r_tail: "r_tail uri v = (ret, u) \<Longrightarrow> strict u = strict uri"
  using r_query_suffix [of "tl v" uri] r_fragment_suffix
  by (fastforce simp: r_tail_def split: prod.splits if_splits)

lemma strict_r_URI: "r_URI uri v = (ret, u) \<Longrightarrow> strict u = strict uri"
  using r_scheme_suffix [of v uri] r_hier_suffix strict_r_tail
  by (fastforce simp: r_URI_def split: prod.splits if_splits)

lemma r_codes:
  "fst (r_tail uri v) \<in> {0, 1}" "fst (r_authority uri v) \<in> {0, 1}" "fst (r_hier uri v) \<in> {0, 1}" "fst (r_URI uri v) \<in> {0, 1}"
proof -
  show t: "fst (r_tail uri v) \<in> {0, 1}" for uri v by (auto simp: r_tail_def split: prod.split)
  show a: "fst (r_authority uri v) \<in> {0, 1}" for uri v
    by (auto simp: r_authority_def r_host_def r_port_def Let_def split: prod.split option.split if_splits)
  show h: "fst (r_hier uri v) \<in> {0, 1}" for uri v
    using a [of uri "drop 2 v"] fst_abempty by (auto simp: r_hier_def r_path_def split: prod.split)
  show "fst (r_URI uri v) \<in> {0, 1}"
    using h t by (auto simp: r_URI_def r_scheme_def split: prod.split) (metis fst_conv insertE singletonD)+
qed

lemma URIReference_ok:
  assumes "sane v" "strict uri"
  shows "settles mem (xmlParse3986URIReference mem uri (Ptr (v @ 0 # t))) (r_reference uri v)"
proof -
  have st: "strict (xmlCleanURI uri)" using assms(2) by simp
  obtain ret u where a: "r_URI (xmlCleanURI uri) v = (ret, u)" by fastforce
  have su: "strict u" using strict_r_URI [OF a] st by simp
  have rn: "ret \<ge> 0" using r_codes(4) [of "xmlCleanURI uri" v] a by auto
  obtain ret2 u2 where b: "r_RelativeRef (xmlCleanURI u) v = (ret2, u2)" by fastforce
  from URI_ok [OF assms(1) st, of mem t] show ?thesis
    unfolding settles_def [of mem _ "r_URI _ _"]
  proof (elim disjE exE conjE)
    assume x: "xmlParse3986URI mem (xmlCleanURI uri) (v @ 0 # t) = Some (r_URI (xmlCleanURI uri) v)"
    have "strict (xmlCleanURI u)" using su by simp
    from RelativeRef_ok [OF assms(1) this, of mem t] show ?thesis using x a b rn
      by (auto simp: settles_def xmlParse3986URIReference_def r_reference_def)
  next
    fix u' n
    assume "xmlParse3986URI mem (xmlCleanURI uri) (v @ 0 # t) = Some (- 1, u')" "\<not> mem n"
    then show ?thesis by (intro settles_fail [of _ u' mem n]) (simp_all add: xmlParse3986URIReference_def)
  qed
qed

end
