(* ===== verification/UriGrammar.thy ===== *)
theory UriGrammar
  imports UriReference
begin

text \<open>
  The grammar of the parser as valid components and their composition: the reference parser accepts exactly the composed
  strings, and the entry points of the parser are correct.  The grammar is compared with the one of RFC 3986, and what is stored
  with the decoded components.
\<close>

section \<open>The grammar\<close>

text \<open>The components of a reference as they stand in the string; an authority is a user part, a host and a port.\<close>

type_synonym authority_parts = "bytes option \<times> bytes \<times> bytes option"

record parts =
  the_scheme :: "bytes option"
  the_authority :: "authority_parts option"
  the_path :: bytes
  the_query :: "bytes option"
  the_fragment :: "bytes option"

definition before :: "byte \<Rightarrow> bytes option \<Rightarrow> bytes" where
  "before c x = (case x of None \<Rightarrow> [] | Some v \<Rightarrow> c # v)"

definition behind :: "byte \<Rightarrow> bytes option \<Rightarrow> bytes" where
  "behind c x = (case x of None \<Rightarrow> [] | Some v \<Rightarrow> v @ [c])"

definition authority_text :: "authority_parts \<Rightarrow> bytes" where
  "authority_text a = (case a of (u, h, n) \<Rightarrow> behind (ch (CHR ''@'')) u @ h @ before (ch (CHR '':'')) n)"

definition tail_text :: "bytes option \<Rightarrow> bytes option \<Rightarrow> bytes" where
  "tail_text q f = before (ch (CHR ''?'')) q @ before (ch (CHR ''#'')) f"

definition hier_text :: "authority_parts option \<Rightarrow> bytes \<Rightarrow> bytes" where
  "hier_text a p = (case a of None \<Rightarrow> [] | Some a \<Rightarrow> slashes @ authority_text a) @ p"

text \<open>Section 5.3 of RFC 3986.\<close>

definition recompose :: "parts \<Rightarrow> bytes" where
  "recompose p = behind (ch (CHR '':'')) (the_scheme p) @ hier_text (the_authority p) (the_path p) @ tail_text (the_query p) (the_fragment p)"

definition valid_scheme :: "bytes \<Rightarrow> bool" where
  "valid_scheme s \<longleftrightarrow> ISA_ALPHA (first s) \<and> list_all scheme_byte (tl s)"

text \<open>Hosts and ports as the code takes them; \<open>rfc_host\<close> and \<open>rfc_authority\<close> below are those of the RFC.\<close>

definition valid_host :: "bytes \<Rightarrow> bool" where
  "valid_host h \<longleftrightarrow> encoded host_byte h \<or> (\<exists>x. h = ch (CHR ''['') # x @ [ch (CHR '']'')] \<and> ch (CHR '']'') \<notin> set x)"

definition valid_port :: "bytes \<Rightarrow> bool" where
  "valid_port n \<longleftrightarrow> n \<noteq> [] \<and> list_all ISA_DIGIT n \<and> decimal 0 n \<le> INT_MAX"

definition valid_authority :: "authority_parts \<Rightarrow> bool" where
  "valid_authority a \<longleftrightarrow> (case a of (u, h, n) \<Rightarrow> pred_option (encoded user_byte) u \<and> valid_host h \<and> pred_option valid_port n)"

definition valid_path :: "parts \<Rightarrow> bool" where
  "valid_path p \<longleftrightarrow> encoded path_byte (the_path p) \<and>
     (if the_authority p \<noteq> None then the_path p = [] \<or> first (the_path p) = ch (CHR ''/'')
      else take 2 (the_path p) \<noteq> slashes \<and>
        (the_scheme p = None \<longrightarrow> ch (CHR '':'') \<notin> set (takeWhile (\<lambda>c. c \<noteq> ch (CHR ''/'')) (the_path p))))"

definition valid_parts :: "parts \<Rightarrow> bool" where
  "valid_parts p \<longleftrightarrow> pred_option valid_scheme (the_scheme p) \<and> pred_option valid_authority (the_authority p) \<and> valid_path p \<and>
     pred_option (encoded query_byte) (the_query p) \<and> pred_option (encoded fragment_byte) (the_fragment p)"

text \<open>The structure for the components.\<close>

definition opt_text :: "bytes option \<Rightarrow> xmlString" where
  "opt_text x = (case x of None \<Rightarrow> NULL | Some v \<Rightarrow> Ptr (cstr_of v))"

definition tail_fields :: "xmlURI \<Rightarrow> bytes option \<Rightarrow> bytes option \<Rightarrow> xmlURI" where
  "tail_fields uri q f = uri
     \<lparr>query := (case q of None \<Rightarrow> query uri | Some v \<Rightarrow> stored uri v (before (ch (CHR ''#'')) f)),
      query_raw := (case q of None \<Rightarrow> query_raw uri | Some v \<Rightarrow> Ptr (cstr_of v)),
      fragment := (case f of None \<Rightarrow> fragment uri | Some v \<Rightarrow> stored uri v [])\<rparr>"

definition authority_fields :: "xmlURI \<Rightarrow> authority_parts \<Rightarrow> bytes \<Rightarrow> xmlURI" where
  "authority_fields uri a rest = (case a of (u, h, n) \<Rightarrow> uri
     \<lparr>authority := NULL,
      user := (case u of None \<Rightarrow> user uri | Some v \<Rightarrow> stored uri v (ch (CHR ''@'') # h @ before (ch (CHR '':'')) n @ rest)),
      server := (if h = [] then NULL else stored uri h (before (ch (CHR '':'')) n @ rest)),
      port := (case n of None \<Rightarrow> port uri | Some ds \<Rightarrow> decimal 0 ds)\<rparr>)"

definition path_field :: "xmlURI \<Rightarrow> bytes \<Rightarrow> bytes \<Rightarrow> xmlURI" where
  "path_field uri a rest = uri\<lparr>path := (if a = [] then NULL else stored uri a rest)\<rparr>"

definition fields :: "xmlURI \<Rightarrow> parts \<Rightarrow> xmlURI" where
  "fields uri p =
     (let rest = tail_text (the_query p) (the_fragment p);
          uri1 = (xmlCleanURI uri)\<lparr>scheme := opt_text (the_scheme p)\<rparr>;
          uri2 = (case the_authority p of
                    None \<Rightarrow> uri1
                  | Some a \<Rightarrow>
                      let uri2 = authority_fields uri1 a (the_path p @ rest)
                      in if the_scheme p = None then uri2 else no_server uri2)
      in tail_fields (path_field uri2 (the_path p) rest) (the_query p) (the_fragment p))"

section \<open>Classes of bytes in encoded strings\<close>

lemma encoded_set:
  assumes "encoded Q v" "\<not> Q pct_sign"
  shows "\<forall>c \<in> set v. Q c \<or> c = pct_sign \<or> ISA_HEXDIG c"
  using assms by (induction rule: encoded_induct) auto

lemma encoded_append:
  assumes "encoded Q a" "\<not> Q pct_sign" "encoded Q b"
  shows "encoded Q (a @ b)"
  using assms(1,2)
proof (induction rule: encoded_induct)
  case Nil
  then show ?case using assms(3) by simp
qed (use assms(2) in \<open>simp_all add: encoded_Cons\<close>)

lemma encoded_mono:
  assumes "encoded Q v" "\<not> Q pct_sign" "\<not> Q' pct_sign" "\<And>c. Q c \<Longrightarrow> Q' c"
  shows "encoded Q' v"
  using assms(1,2) by (induction rule: encoded_induct) (simp_all add: encoded_Cons assms(3,4))

lemma encoded_plain: "list_all Q v \<Longrightarrow> \<not> Q pct_sign \<Longrightarrow> encoded Q v"
  by (induction v) (auto simp: encoded_Cons)

lemma first_in: "v \<noteq> [] \<Longrightarrow> first v \<in> set v"
  by (cases v) auto

text \<open>What follows a path: the end, a query or a fragment.  What follows an authority may be a path as well.\<close>

definition ends :: "bytes \<Rightarrow> bool" where
  "ends w \<longleftrightarrow> first w \<in> {0, ch (CHR ''?''), ch (CHR ''#'')} \<and> (first w = 0 \<longrightarrow> w = [])"

definition closes :: "bytes \<Rightarrow> bool" where
  "closes w \<longleftrightarrow> ends w \<or> first w = ch (CHR ''/'')"

lemma ends_tail [simp]: "ends (tail_text q f)"
  by (auto simp: ends_def tail_text_def before_def split: option.split)

lemma stops_by: "first w \<in> S \<Longrightarrow> (\<forall>c \<in> S. \<not> Q c \<and> c \<noteq> pct_sign) \<Longrightarrow> stops Q w"
  using pct_first [of w] by (auto simp: stops_first)

lemma stops_ends: "ends w \<Longrightarrow> stops path_byte w \<and> stops nc_byte w"
  unfolding ends_def by (intro conjI stops_by [of w "{0, ch (CHR ''?''), ch (CHR ''#'')}"]) (auto simp: uri_bytes uri_atoms)

lemma stops_closes: "closes w \<Longrightarrow> stops host_byte w \<and> stops user_byte w \<and> first w \<noteq> ch (CHR ''@'') \<and> first w \<noteq> ch (CHR '':'') \<and> \<not> ISA_DIGIT (first w)"
  unfolding closes_def ends_def
  by (intro conjI stops_by [of w "{0, ch (CHR ''?''), ch (CHR ''#''), ch (CHR ''/'')}"]) (auto simp: uri_bytes uri_atoms)

section \<open>Parsing a composed reference\<close>

lemma tail_complete:
  assumes "pred_option (encoded query_byte) q" "pred_option (encoded fragment_byte) f"
  shows "r_tail uri (tail_text q f) = (0, tail_fields uri q f)"
proof -
  have sf: "stops query_byte (before (ch (CHR ''#'')) f)"
    by (intro stops_by [of _ "{0, ch (CHR ''#'')}"]) (auto simp: before_def uri_bytes uri_atoms split: option.split)
  have q: "r_query uri (v @ before (ch (CHR ''#'')) f) = (0, uri\<lparr>query := stored uri v (before (ch (CHR ''#'')) f), query_raw := Ptr (cstr_of v)\<rparr>, before (ch (CHR ''#'')) f)"
    if "encoded query_byte v" for v using span_encoded_eq [OF that _ sf] by (simp add: r_query_def)
  have f: "r_fragment u v = (0, u\<lparr>fragment := stored u v []\<rparr>, [])" if "encoded fragment_byte v" for u v
    using span_encoded_eq [OF that, of "[]"] by (simp add: r_fragment_def stops_first)
  show ?thesis
    using assms q f unfolding r_tail_def tail_text_def tail_fields_def
    by (cases q; cases f) (simp_all add: before_def stored_def raw_def)
qed

lemma host_split_complete:
  assumes "valid_host h" "stops host_byte r" "first r \<noteq> ch (CHR ''['')"
  shows "host_split (h @ r) = Some (h, r)"
proof (cases "encoded host_byte h")
  case True
  have "h \<noteq> [] \<Longrightarrow> host_byte (first h) \<or> first h = pct_sign \<or> ISA_HEXDIG (first h)" using encoded_set [OF True] first_in by simp
  then have "first (h @ r) \<noteq> ch (CHR ''['')" using assms(3) by (auto simp: first_append uri_bytes uri_atoms ISA_HEXDIG_def)
  then show ?thesis using span_encoded_eq [OF True _ assms(2)] by (simp add: host_split_def)
next
  case False
  then obtain x where x: "h = ch (CHR ''['') # x @ [ch (CHR '']'')]" "ch (CHR '']'') \<notin> set x" using assms(1) by (auto simp: valid_host_def)
  have "dropWhile (\<lambda>c. c \<noteq> ch (CHR '']'')) (h @ r) = ch (CHR '']'') # r" "takeWhile (\<lambda>c. c \<noteq> ch (CHR '']'')) (h @ r) = ch (CHR ''['') # x"
    using x by (auto simp: dropWhile_append takeWhile_append)
  then show ?thesis using x by (simp add: host_split_def)
qed

lemma host_complete:
  assumes "valid_host h" "stops host_byte r" "first r \<noteq> ch (CHR ''['')"
  shows "r_host uri (h @ r) = (0, uri\<lparr>authority := NULL, server := (if h = [] then NULL else stored uri h r)\<rparr>, r)"
  using host_split_complete [OF assms] by (simp add: r_host_def)

lemma port_complete:
  assumes "valid_port n" "\<not> ISA_DIGIT (first w)"
  shows "r_port uri (n @ w) = (0, uri\<lparr>port := decimal 0 n\<rparr>, w)"
proof -
  have n: "\<forall>c \<in> set n. ISA_DIGIT c" using assms(1) by (simp add: valid_port_def list_all_iff)
  have "takeWhile ISA_DIGIT w = []" "dropWhile ISA_DIGIT w = w" using assms(2) by (cases w; simp)+
  then have "takeWhile ISA_DIGIT (n @ w) = n" "dropWhile ISA_DIGIT (n @ w) = w" using n by (simp_all add: takeWhile_append2 dropWhile_append2)
  then show ?thesis using assms(1) by (simp add: r_port_def valid_port_def)
qed

lemma user_complete:
  assumes "encoded user_byte u"
  shows "r_user uri (u @ ch (CHR ''@'') # w) = (0, uri\<lparr>user := stored uri u (ch (CHR ''@'') # w)\<rparr>, ch (CHR ''@'') # w)"
proof -
  have "stops user_byte (ch (CHR ''@'') # w)" by (intro stops_by [of _ "{ch (CHR ''@'')}"]) (auto simp: uri_bytes uri_atoms)
  then show ?thesis using span_encoded_eq [OF assms] by (simp add: r_user_def)
qed

lemma no_user_complete:
  assumes "valid_host h" "pred_option valid_port n" "closes w"
  shows "r_user uri (h @ before (ch (CHR '':'')) n @ w) = (1, uri, h @ before (ch (CHR '':'')) n @ w)"
proof (cases "encoded host_byte h")
  case True
  have "encoded user_byte (before (ch (CHR '':'')) n)"
  proof (cases n)
    case (Some ds)
    then have "list_all ISA_DIGIT ds" using assms(2) by (simp add: valid_port_def)
    then have "list_all user_byte (ch (CHR '':'') # ds)" by (auto simp: list_all_iff user_byte_def host_byte_def ISA_STRICTLY_UNRESERVED_def)
    then show ?thesis using Some encoded_plain by (simp add: before_def)
  qed (simp add: before_def)
  moreover have "encoded user_byte h" using True by (rule encoded_mono) (simp_all add: user_byte_def [of "_ :: byte"])
  ultimately have "encoded user_byte (h @ before (ch (CHR '':'')) n)" by (intro encoded_append) simp_all
  from span_encoded_eq [OF this, of w] show ?thesis using stops_closes [OF assms(3)] by (simp add: r_user_def)
next
  case False
  then obtain x where "h = ch (CHR ''['') # x" using assms(1) by (auto simp: valid_host_def)
  moreover from this have "stops user_byte (h @ before (ch (CHR '':'')) n @ w)"
    by (intro stops_by [of _ "{ch (CHR ''['')}"]) (auto simp: uri_bytes uri_atoms)
  ultimately show ?thesis by (simp add: r_user_def span_stop)
qed

lemma authority_complete:
  assumes "valid_authority a" "closes w"
  shows "r_authority uri (authority_text a @ w) = (0, authority_fields uri a w, w)"
proof -
  obtain u h n where a: "a = (u, h, n)" by (cases a) auto
  have v: "pred_option (encoded user_byte) u" "valid_host h" "pred_option valid_port n" using assms(1) a by (simp_all add: valid_authority_def)
  let ?r = "before (ch (CHR '':'')) n @ w"
  have cw: "stops host_byte w" "first w \<noteq> ch (CHR '':'')" "\<not> ISA_DIGIT (first w)" using stops_closes [OF assms(2)] by simp_all
  have "first w \<noteq> ch (CHR ''['')" using assms(2) by (auto simp: closes_def ends_def)
  then have r: "first ?r \<noteq> ch (CHR ''['')" by (cases n) (simp_all add: before_def)
  have "stops host_byte (ch (CHR '':'') # x)" for x by (intro stops_by [of _ "{ch (CHR '':'')}"]) (auto simp: uri_bytes uri_atoms)
  then have s: "stops host_byte ?r" using cw(1) by (cases n) (simp_all add: before_def)
  have h: "r_host uri1 (h @ ?r) = (0, uri1\<lparr>authority := NULL, server := (if h = [] then NULL else stored uri1 h ?r)\<rparr>, ?r)" for uri1
    by (rule host_complete [OF v(2) s r])
  have us: "stored (uri\<lparr>user := x\<rparr>) = stored uri" for x by (simp add: fun_eq_iff stored_def raw_def)
  show ?thesis
  proof (cases u)
    case None
    then show ?thesis
      using no_user_complete [OF v(2,3) assms(2), of uri] h [of uri] cw port_complete [OF _ cw(3)] v(3) a
      by (cases n) (simp_all add: r_authority_def authority_text_def authority_fields_def behind_def before_def)
  next
    case (Some x)
    then have "r_user uri (x @ ch (CHR ''@'') # h @ ?r) = (0, uri\<lparr>user := stored uri x (ch (CHR ''@'') # h @ ?r)\<rparr>, ch (CHR ''@'') # h @ ?r)"
      using v(1) user_complete by simp
    then show ?thesis
      using Some h cw port_complete [OF _ cw(3)] v(3) a
      by (cases n) (simp_all add: r_authority_def authority_text_def authority_fields_def behind_def before_def us)
  qed
qed

lemma path_complete:
  assumes "encoded path_byte p" "ends w"
  shows "path_split True (p @ w) = (p, w)"
  using span_encoded_eq [OF assms(1), of w] stops_ends [OF assms(2)] by (simp add: path_split_def)

lemma abempty_complete:
  assumes "encoded path_byte p" "p = [] \<or> first p = ch (CHR ''/'')" "ends w"
  shows "r_abempty uri (p @ w) = (0, path_field uri p w, w)"
proof -
  have "first w \<noteq> ch (CHR ''/'')" using assms(3) by (auto simp: ends_def)
  then show ?thesis using span_encoded_eq [OF assms(1), of w] stops_ends [OF assms(3)] assms(2)
    by (cases "p = []") (auto simp: r_abempty_def r_path_def path_field_def first_append)
qed

lemma nc_set: "encoded nc_byte a \<Longrightarrow> c \<in> set a \<Longrightarrow> c \<noteq> ch (CHR ''/'') \<and> c \<noteq> ch (CHR '':'') \<and> c \<noteq> ch (CHR ''?'') \<and> c \<noteq> ch (CHR ''#'')"
  using encoded_set [of nc_byte a] by (auto simp: uri_bytes uri_atoms ISA_HEXDIG_def)

text \<open>The first segment of \<open>p\<close> has no colon: no colon follows the bytes of \<open>p @ w\<close> without colons and slashes.\<close>

lemma no_colon:
  assumes "ch (CHR '':'') \<notin> set (takeWhile (\<lambda>c. c \<noteq> ch (CHR ''/'')) p)" "ends w"
    and "p @ w = a @ r" "\<And>c. c \<in> set a \<Longrightarrow> c \<noteq> ch (CHR ''/'') \<and> c \<noteq> ch (CHR ''?'') \<and> c \<noteq> ch (CHR ''#'')"
  shows "first r \<noteq> ch (CHR '':'')"
proof
  assume f: "first r = ch (CHR '':'')"
  then obtain r' where r: "r = ch (CHR '':'') # r'" by (subst (asm) first_eq) auto
  from assms(3) consider us where "p @ us = a" "w = us @ r" | us where "p = a @ us" "us @ w = r"
    by (auto simp: append_eq_append_conv2)
  then show False
  proof cases
    case 1
    then have "first w \<in> set a \<or> first w = ch (CHR '':'')" using f first_in [of us] by (cases us) (auto simp: r)
    then show ?thesis using assms(2) assms(4) 1 r by (auto simp: ends_def)
  next
    case 2
    have "us \<noteq> []" using 2 f assms(2) by (auto simp: ends_def)
    then obtain us' where "us = ch (CHR '':'') # us'" using 2 r by (cases us) auto
    then have "ch (CHR '':'') \<in> set (takeWhile (\<lambda>c. c \<noteq> ch (CHR ''/'')) p)" using 2 assms(4) by (simp add: takeWhile_append2)
    then show ?thesis using assms(1) by simp
  qed
qed

lemma noscheme_complete:
  assumes "encoded path_byte p" "ch (CHR '':'') \<notin> set (takeWhile (\<lambda>c. c \<noteq> ch (CHR ''/'')) p)" "ends w"
  shows "path_split False (p @ w) = (p, w)"
proof -
  obtain a r where s: "span_encoded nc_byte (p @ w) = (a, r)" by fastforce
  then have ar: "p @ w = a @ r" "encoded nc_byte a" "stops nc_byte r" using span_encoded_ok [of nc_byte "p @ w"] by simp_all
  have nc: "first r \<noteq> ch (CHR '':'')" by (rule no_colon [OF assms(2,3) ar(1)]) (use nc_set [OF ar(2)] in blast)
  have whole: "span_encoded path_byte (p @ w) = (p, w)" using span_encoded_eq [OF assms(1)] stops_ends [OF assms(3)] by simp
  have two: "span_encoded path_byte (p @ w) = (case span_encoded path_byte r of (b, r2) \<Rightarrow> (a @ b, r2))"
    using span_weaken [of nc_byte path_byte "p @ w", OF _ _ nc_pchar] s by simp
  show ?thesis
  proof (cases "first r = ch (CHR ''/'')")
    case True
    then have "a = [] \<Longrightarrow> first (p @ w) = ch (CHR ''/'')" using ar(1) by simp
    then show ?thesis using s True two whole by (auto simp: path_split_def split: prod.splits)
  next
    case False
    then have "stops path_byte r" using ar(3) nc by (auto simp: stops_first path_byte_def nc_byte_def)
    then show ?thesis using two whole s False by (auto simp: path_split_def span_stop)
  qed
qed

lemma closes_path: "p = [] \<or> first p = ch (CHR ''/'') \<Longrightarrow> ends w \<Longrightarrow> closes (p @ w)"
  by (cases p) (auto simp: closes_def)

lemma take_slashes: "ends w \<Longrightarrow> take 2 (p @ w) = slashes \<longleftrightarrow> take 2 p = slashes"
proof -
  assume "ends w"
  then have f: "first w \<noteq> ch (CHR ''/'')" by (auto simp: ends_def)
  show ?thesis
  proof (cases p)
    case Nil
    then show ?thesis using f by (cases w) auto
  next
    case (Cons c q)
    then show ?thesis using f by (cases q; cases w) auto
  qed
qed

definition valid_hier :: "bool \<Rightarrow> authority_parts option \<Rightarrow> bytes \<Rightarrow> bool" where
  "valid_hier colon a p \<longleftrightarrow> pred_option valid_authority a \<and> encoded path_byte p \<and>
     (if a \<noteq> None then p = [] \<or> first p = ch (CHR ''/'')
      else take 2 p \<noteq> slashes \<and> (\<not> colon \<longrightarrow> ch (CHR '':'') \<notin> set (takeWhile (\<lambda>c. c \<noteq> ch (CHR ''/'')) p)))"

lemma valid_parts_iff: "valid_parts p \<longleftrightarrow>
    pred_option valid_scheme (the_scheme p) \<and> valid_hier (the_scheme p \<noteq> None) (the_authority p) (the_path p) \<and>
    pred_option (encoded query_byte) (the_query p) \<and> pred_option (encoded fragment_byte) (the_fragment p)"
  by (auto simp: valid_parts_def valid_path_def valid_hier_def)

definition hier_fields :: "bool \<Rightarrow> xmlURI \<Rightarrow> authority_parts option \<Rightarrow> bytes \<Rightarrow> bytes \<Rightarrow> xmlURI" where
  "hier_fields colon uri a p rest =
     path_field (case a of None \<Rightarrow> uri | Some a \<Rightarrow> (let u = authority_fields uri a (p @ rest) in if colon then no_server u else u)) p rest"

lemma fields_eq: "fields uri p =
    tail_fields (hier_fields (the_scheme p \<noteq> None) ((xmlCleanURI uri)\<lparr>scheme := opt_text (the_scheme p)\<rparr>)
      (the_authority p) (the_path p) (tail_text (the_query p) (the_fragment p))) (the_query p) (the_fragment p)"
  by (cases "the_scheme p"; cases "the_authority p") (simp_all add: fields_def hier_fields_def Let_def)

lemma hier_complete:
  assumes "valid_hier True a p" "ends w"
  shows "r_hier uri (hier_text a p @ w) = (0, hier_fields True uri a p w, w)"
proof (cases a)
  case None
  then have t: "take 2 (p @ w) \<noteq> slashes" using assms take_slashes [of w p] by (simp add: valid_hier_def)
  show ?thesis using None t assms path_complete [of p w]
    by (simp add: r_hier_def hier_text_def valid_hier_def hier_fields_def path_field_def r_path_def del: take_append)
next
  case (Some au)
  then show ?thesis using assms authority_complete [OF _ closes_path, of au p w uri] abempty_complete [of p w]
    by (simp add: r_hier_def hier_text_def valid_hier_def hier_fields_def)
qed

lemma relative_complete:
  assumes "valid_hier False a p" "ends w"
  shows "r_relative uri (hier_text a p @ w) = (0, hier_fields False uri a p w, w)"
proof (cases a)
  case None
  have "first (p @ w) \<noteq> ch (CHR '':'')"
    using assms None by (intro no_colon [of p w "[]"]) (simp_all add: valid_hier_def)
  moreover have t: "take 2 (p @ w) \<noteq> slashes" using None assms take_slashes [of w p] by (simp add: valid_hier_def)
  ultimately show ?thesis using assms None noscheme_complete [of p w]
    by (simp add: r_relative_def hier_text_def valid_hier_def hier_fields_def path_field_def r_path_def del: take_append)
next
  case (Some au)
  then show ?thesis using assms authority_complete [OF _ closes_path, of au p w uri] abempty_complete [of p w]
    by (simp add: r_relative_def hier_text_def valid_hier_def hier_fields_def)
qed

lemma scheme_complete:
  assumes "valid_scheme s"
  shows "r_scheme uri (s @ ch (CHR '':'') # w) = (0, uri\<lparr>scheme := Ptr (cstr_of s)\<rparr>, ch (CHR '':'') # w)"
proof -
  obtain c q where s: "s = c # q" using assms by (cases s) (auto simp: valid_scheme_def)
  have q: "\<forall>x \<in> set q. scheme_byte x" using assms s by (simp add: valid_scheme_def list_all_iff)
  have "\<not> scheme_byte (ch (CHR '':''))" by (simp add: uri_bytes uri_atoms)
  then have "takeWhile scheme_byte (q @ ch (CHR '':'') # w) = q" "dropWhile scheme_byte (q @ ch (CHR '':'') # w) = ch (CHR '':'') # w"
    using q by (simp_all add: takeWhile_append2 dropWhile_append2)
  then show ?thesis using assms s by (simp add: r_scheme_def valid_scheme_def)
qed

lemma URI_complete:
  assumes "valid_parts p" "the_scheme p = Some s"
  shows "r_URI (xmlCleanURI uri) (recompose p) = (0, fields uri p)"
proof -
  let ?w = "tail_text (the_query p) (the_fragment p)"
  have v: "valid_scheme s" "valid_hier True (the_authority p) (the_path p)"
    "pred_option (encoded query_byte) (the_query p)" "pred_option (encoded fragment_byte) (the_fragment p)"
    using assms by (simp_all add: valid_parts_iff)
  show ?thesis
    using scheme_complete [OF v(1)] hier_complete [OF v(2), of ?w] tail_complete [OF v(3,4)] assms(2)
    by (simp add: r_URI_def recompose_def behind_def fields_eq opt_text_def)
qed

lemma not_scheme_slash: "\<not> scheme_byte (ch (CHR ''/''))" "\<not> scheme_byte (ch (CHR ''?''))" "\<not> scheme_byte (ch (CHR ''#''))" "\<not> scheme_byte (ch (CHR '':''))"
  by (simp_all add: uri_bytes uri_atoms)

lemma alpha_scheme: "ISA_ALPHA c \<Longrightarrow> scheme_byte c"
  by (simp add: scheme_byte_def)

lemma not_URI:
  assumes "valid_hier False a p" "ends w"
  shows "\<exists>x. r_URI uri (hier_text a p @ w) = (1, uri\<lparr>scheme := x\<rparr>)"
proof (cases "ISA_ALPHA (first (hier_text a p @ w))")
  case False
  then show ?thesis by (auto simp: r_URI_def r_scheme_def intro: exI [of _ "scheme uri"])
next
  case True
  have none: "a = None" using True by (cases a) (auto simp: hier_text_def ISA_ALPHA_def)
  let ?v = "p @ w"
  obtain c q where v: "?v = c # q" using True none by (cases ?v) (auto simp: hier_text_def)
  have c: "ISA_ALPHA c" using True none v by (simp add: hier_text_def)
  have d: "?v = (c # takeWhile scheme_byte q) @ dropWhile scheme_byte q" using v by simp
  have "first (dropWhile scheme_byte q) \<noteq> ch (CHR '':'')"
  proof (rule no_colon [OF _ assms(2) d])
    show "ch (CHR '':'') \<notin> set (takeWhile (\<lambda>c. c \<noteq> ch (CHR ''/'')) p)" using assms(1) none by (simp add: valid_hier_def)
    fix x assume "x \<in> set (c # takeWhile scheme_byte q)"
    then have "scheme_byte x" using alpha_scheme [OF c] by (auto dest: set_takeWhileD)
    then show "x \<noteq> ch (CHR ''/'') \<and> x \<noteq> ch (CHR ''?'') \<and> x \<noteq> ch (CHR ''#'')" using not_scheme_slash by metis
  qed
  then show ?thesis using v c none by (auto simp: r_URI_def r_scheme_def hier_text_def)
qed

lemma clean_scheme [simp]: "xmlCleanURI (uri\<lparr>scheme := x\<rparr>) = xmlCleanURI uri" "xmlCleanURI (xmlCleanURI uri) = xmlCleanURI uri"
  by (simp_all add: xmlCleanURI_def)

lemma reference_complete:
  assumes "valid_parts p"
  shows "r_reference uri (recompose p) = (0, fields uri p)"
proof (cases "the_scheme p")
  case None
  let ?w = "tail_text (the_query p) (the_fragment p)"
  have v: "valid_hier False (the_authority p) (the_path p)"
    "pred_option (encoded query_byte) (the_query p)" "pred_option (encoded fragment_byte) (the_fragment p)"
    using assms None by (simp_all add: valid_parts_iff)
  have r: "recompose p = hier_text (the_authority p) (the_path p) @ ?w" using None by (simp add: recompose_def behind_def)
  obtain x where x: "r_URI (xmlCleanURI uri) (recompose p) = (1, (xmlCleanURI uri)\<lparr>scheme := x\<rparr>)"
    using not_URI [OF v(1) ends_tail] unfolding r by blast
  have sc: "(xmlCleanURI uri)\<lparr>scheme := NULL\<rparr> = xmlCleanURI uri" by (simp add: xmlCleanURI_def)
  have "r_RelativeRef (xmlCleanURI uri) (recompose p) = (0, fields uri p)"
    unfolding r using relative_complete [OF v(1), of ?w] tail_complete [OF v(2,3)] None
    by (simp add: r_RelativeRef_def fields_eq opt_text_def sc)
  then show ?thesis using x by (simp add: r_reference_def)
next
  case (Some s)
  then show ?thesis using URI_complete [OF assms Some] by (simp add: r_reference_def)
qed

section \<open>Every parsed string is composed of valid components\<close>

lemma tail_sound:
  assumes "fst (r_tail uri v) = 0"
  shows "\<exists>q f. v = tail_text q f \<and> pred_option (encoded query_byte) q \<and> pred_option (encoded fragment_byte) f"
proof -
  let ?q = "if first v = ch (CHR ''?'') then r_query uri (tl v) else (0, uri, v)"
  obtain ret u w where q: "?q = (ret, u, w)" by (cases ?q) auto
  let ?f = "if first w = ch (CHR ''#'') then r_fragment u (tl w) else (0, u, w)"
  obtain ret2 u2 w2 where f: "?f = (ret2, u2, w2)" by (cases ?f) auto
  have w2: "w2 = []" using assms unfolding r_tail_def q prod.case f by (simp split: if_splits)
  have "\<exists>q. v = before (ch (CHR ''?'')) q @ w \<and> pred_option (encoded query_byte) q"
  proof (cases "first v = ch (CHR ''?'')")
    case True
    then have "span_encoded query_byte (tl v) = (fst (span_encoded query_byte (tl v)), w)" using q by (simp add: r_query_def split: prod.splits)
    then have "tl v = fst (span_encoded query_byte (tl v)) @ w \<and> encoded query_byte (fst (span_encoded query_byte (tl v)))"
      using span_encoded_ok [of query_byte "tl v"] by (simp split: prod.splits)
    moreover have "v = ch (CHR ''?'') # tl v" using True by (cases v) auto
    ultimately show ?thesis by (intro exI [of _ "Some (fst (span_encoded query_byte (tl v)))"]) (simp add: before_def)
  next
    case False
    then show ?thesis using q by (intro exI [of _ None]) (simp add: before_def)
  qed
  moreover have "\<exists>f. w = before (ch (CHR ''#'')) f \<and> pred_option (encoded fragment_byte) f"
  proof (cases "first w = ch (CHR ''#'')")
    case True
    then have "span_encoded fragment_byte (tl w) = (tl w, [])" 
      using f w2 span_encoded_ok [of fragment_byte "tl w"] by (simp add: r_fragment_def split: prod.splits)
    then have "encoded fragment_byte (tl w)" using span_encoded_ok [of fragment_byte "tl w"] by simp
    moreover have "w = ch (CHR ''#'') # tl w" using True by (cases w) auto
    ultimately show ?thesis by (intro exI [of _ "Some (tl w)"]) (simp add: before_def)
  next
    case False
    then show ?thesis using f w2 by (intro exI [of _ None]) (simp add: before_def)
  qed
  ultimately show ?thesis unfolding tail_text_def by blast
qed

lemma host_sound: "host_split v = Some (h, r) \<Longrightarrow> valid_host h"
proof -
  assume h: "host_split v = Some (h, r)"
  show ?thesis
  proof (cases "first v = ch (CHR ''['')")
    case True
    let ?P = "\<lambda>c. c \<noteq> ch (CHR '']'')"
    obtain w where w: "v = ch (CHR ''['') # w" using True by (subst (asm) first_eq) auto
    have "(h, r) = (takeWhile ?P v @ [ch (CHR '']'')], tl (dropWhile ?P v))"
      using h True unfolding host_split_def Let_def if_P [OF True] by (auto split: if_splits)
    then have "h = ch (CHR ''['') # takeWhile ?P w @ [ch (CHR '']'')]" using w by simp
    moreover have "ch (CHR '']'') \<notin> set (takeWhile ?P w)" by (auto dest: set_takeWhileD)
    ultimately show ?thesis unfolding valid_host_def by blast
  next
    case False
    then show ?thesis using h span_encoded_ok [of host_byte v] by (auto simp: host_split_def valid_host_def)
  qed
qed

lemma port_sound: "r_port uri v = (0, u, w) \<Longrightarrow> \<exists>n. v = n @ w \<and> valid_port n"
  by (auto simp: r_port_def valid_port_def list_all_iff Let_def dest: set_takeWhileD split: if_splits
      intro!: exI [of _ "takeWhile ISA_DIGIT v"])

lemma user_sound: "r_user uri v = (ret, u, w) \<Longrightarrow> \<exists>x. v = behind (ch (CHR ''@'')) x @ (if ret = 0 then tl w else v) \<and> pred_option (encoded user_byte) x"
proof (cases "ret = 0")
  case True
  assume r: "r_user uri v = (ret, u, w)"
  obtain a where s: "span_encoded user_byte v = (a, w)" "first w = ch (CHR ''@'')"
    using r True by (auto simp: r_user_def split: prod.splits if_splits)
  then have "v = a @ w" "encoded user_byte a" using span_encoded_ok [of user_byte v] by simp_all
  moreover have "w = ch (CHR ''@'') # tl w" using s(2) by (cases w) auto
  ultimately show ?thesis using True by (intro exI [of _ "Some a"]) (simp add: behind_def)
qed (auto simp: behind_def intro!: exI [of _ None])

lemma authority_sound:
  assumes "r_authority uri v = (0, u, w)"
  shows "\<exists>a. v = authority_text a @ w \<and> valid_authority a"
proof -
  obtain ret u1 w1 where 1: "r_user uri v = (ret, u1, w1)" by (cases "r_user uri v") auto
  let ?v = "if ret = 0 then tl w1 else v"
  obtain ret2 u2 w2 where 2: "r_host u1 ?v = (ret2, u2, w2)" by (cases "r_host u1 ?v") auto
  obtain ret3 u3 w3 where 3: "r_port u2 (tl w2) = (ret3, u3, w3)" by (cases "r_port u2 (tl w2)") auto
  have r2: "ret2 = 0" using assms 1 2 by (auto simp: r_authority_def split: if_splits)
  obtain x where x: "v = behind (ch (CHR ''@'')) x @ ?v" "pred_option (encoded user_byte) x" using user_sound [OF 1] by blast
  obtain h where h: "host_split ?v = Some (h, w2)" using 2 r2 by (auto simp: r_host_def split: option.splits)
  have hv: "?v = h @ w2" "valid_host h" using host_split_append [OF h] host_sound [OF h] by simp_all
  have "\<exists>n. w2 = before (ch (CHR '':'')) n @ w \<and> pred_option valid_port n"
  proof (cases "first w2 = ch (CHR '':'')")
    case True
    then have "ret3 = 0" "w3 = w" using assms 1 2 3 r2 by (auto simp: r_authority_def split: if_splits)
    then obtain n where "tl w2 = n @ w" "valid_port n" using port_sound 3 by blast
    moreover have "w2 = ch (CHR '':'') # tl w2" using True by (cases w2) auto
    ultimately show ?thesis by (intro exI [of _ "Some n"]) (simp add: before_def)
  next
    case False
    then show ?thesis using assms 1 2 r2 by (intro exI [of _ None]) (simp add: r_authority_def before_def)
  qed
  then obtain n where n: "w2 = before (ch (CHR '':'')) n @ w" "pred_option valid_port n" by blast
  have "v = behind (ch (CHR ''@'')) x @ h @ before (ch (CHR '':'')) n @ w" using x(1) unfolding hv(1) n(1) .
  then show ?thesis using x(2) hv(2) n(2) by (intro exI [of _ "(x, h, n)"]) (simp add: authority_text_def valid_authority_def)
qed

lemma abempty_sound: "r_abempty uri v = (ret, u, w) \<Longrightarrow> \<exists>p. v = p @ w \<and> encoded path_byte p \<and> (p = [] \<or> first p = ch (CHR ''/''))"
proof (cases "first v = ch (CHR ''/'')")
  case True
  assume r: "r_abempty uri v = (ret, u, w)"
  obtain p where "span_encoded path_byte v = (p, w)" using r True by (auto simp: r_abempty_def r_path_def split: prod.splits)
  then have "v = p @ w \<and> encoded path_byte p" using span_encoded_ok [of path_byte v] by simp
  then show ?thesis using True by (cases p) auto
qed (auto simp: r_abempty_def r_path_def intro!: exI [of _ "[]"])

lemma take_slashes_append: "take 2 (p @ w) \<noteq> slashes \<Longrightarrow> take 2 p \<noteq> slashes"
  by (cases p; cases "tl p") auto

lemma takeWhile_slash: "\<forall>c \<in> set a. c \<noteq> ch (CHR ''/'') \<Longrightarrow> b = [] \<or> first b = ch (CHR ''/'') \<Longrightarrow>
    takeWhile (\<lambda>c. c \<noteq> ch (CHR ''/'')) (a @ b) = a"
  by (cases b) (simp_all add: takeWhile_append2)

lemma path_split_sound:
  assumes "path_split colon v = (p, w)"
  shows "v = p @ w \<and> encoded path_byte p \<and>
    (\<not> colon \<longrightarrow> ch (CHR '':'') \<notin> set (takeWhile (\<lambda>c. c \<noteq> ch (CHR ''/'')) p))"
proof (cases "colon \<or> first v = ch (CHR ''/'')")
  case True
  then have "span_encoded path_byte v = (p, w)" using assms by (simp add: path_split_def)
  then have s: "v = p @ w" "encoded path_byte p" "stops path_byte w" using span_encoded_ok [of path_byte v] by simp_all
  have "\<not> colon \<Longrightarrow> takeWhile (\<lambda>c. c \<noteq> ch (CHR ''/'')) p = []"
  proof -
    assume "\<not> colon"
    then have f: "first (p @ w) = ch (CHR ''/'')" using True s(1) by simp
    show ?thesis
    proof (cases p)
      case (Cons c q)
      then show ?thesis using f by simp
    qed simp
  qed
  then show ?thesis using s by auto
next
  case False
  obtain a r where n: "span_encoded nc_byte v = (a, r)" by fastforce
  then have a: "v = a @ r" "encoded nc_byte a" using span_encoded_ok [of nc_byte v] by simp_all
  have ap: "encoded path_byte a" by (rule encoded_mono [OF a(2)]) (simp_all add: nc_pchar)
  have c: "\<forall>c \<in> set a. c \<noteq> ch (CHR ''/'')" "ch (CHR '':'') \<notin> set a" using nc_set [OF a(2)] by blast+
  obtain b r2 where b: "span_encoded path_byte r = (b, r2)" by fastforce
  then have br: "r = b @ r2" "encoded path_byte b" using span_encoded_ok [of path_byte r] by simp_all
  have fb: "first r = ch (CHR ''/'') \<Longrightarrow> first b = ch (CHR ''/'')" using span_slash [of r] b by auto
  show ?thesis
  proof (cases "a \<noteq> [] \<and> first r = ch (CHR ''/'')")
    case True
    then have "p = a @ b" "w = r2" using assms False n b by (auto simp: path_split_def)
    then show ?thesis using a br ap c fb True takeWhile_slash [of a b] by (simp add: encoded_append)
  next
    case no: False
    then have "p = a" "w = r" using assms False n by (auto simp: path_split_def)
    then show ?thesis using a ap c by (auto dest: set_takeWhileD)
  qed
qed

lemma slashes_append: "take 2 v = slashes \<Longrightarrow> v = slashes @ drop 2 v"
  by (metis append_take_drop_id)

lemma hier_sound_authority:
  assumes "take 2 v = slashes" "r_authority uri (drop 2 v) = (0, u, w)" "r_abempty u2 w = (ret, u3, w3)"
  shows "\<exists>a p. v = hier_text a p @ w3 \<and> valid_hier colon a p"
proof -
  obtain a where a: "drop 2 v = authority_text a @ w" "valid_authority a" using authority_sound [OF assms(2)] by blast
  obtain p where p: "w = p @ w3" "encoded path_byte p" "p = [] \<or> first p = ch (CHR ''/'')" using abempty_sound [OF assms(3)] by blast
  have "v = hier_text (Some a) p @ w3" using slashes_append [OF assms(1)] a(1) p(1) by (simp add: hier_text_def)
  moreover have "valid_hier colon (Some a) p" using a(2) p(2,3) by (simp add: valid_hier_def)
  ultimately show ?thesis by blast
qed

lemma hier_sound_path:
  assumes "take 2 v \<noteq> slashes" "path_split colon v = (p, w)"
  shows "\<exists>a p. v = hier_text a p @ w \<and> valid_hier colon a p"
proof -
  have p: "v = p @ w" "encoded path_byte p" "\<not> colon \<longrightarrow> ch (CHR '':'') \<notin> set (takeWhile (\<lambda>c. c \<noteq> ch (CHR ''/'')) p)"
    using path_split_sound [OF assms(2)] by simp_all
  have "valid_hier colon None p" using p(2,3) take_slashes_append [of p w] assms(1) unfolding p(1) by (simp add: valid_hier_def del: take_append)
  then show ?thesis using p(1) by (intro exI [of _ None] exI [of _ p]) (simp add: hier_text_def)
qed

lemma hier_sound: "r_hier uri v = (0, u, w) \<Longrightarrow> \<exists>a p. v = hier_text a p @ w \<and> valid_hier True a p"
proof (cases "take 2 v = slashes")
  case True
  assume r: "r_hier uri v = (0, u, w)"
  obtain ret u1 w1 where 1: "r_authority uri (drop 2 v) = (ret, u1, w1)" by (cases "r_authority uri (drop 2 v)") auto
  then have "ret = 0" using r True by (auto simp: r_hier_def split: if_splits)
  then show ?thesis using hier_sound_authority [OF True, of uri u1 w1 "no_server u1" 0 u w] 1 r True by (simp add: r_hier_def)
next
  case False
  assume r: "r_hier uri v = (0, u, w)"
  obtain p r1 where "path_split True v = (p, r1)" by fastforce
  then show ?thesis using hier_sound_path [OF False, of True p r1] r False by (simp add: r_hier_def r_path_def)
qed

lemma relative_sound: "r_relative uri v = (0, u, w) \<Longrightarrow> \<exists>a p. v = hier_text a p @ w \<and> valid_hier False a p"
proof (cases "take 2 v = slashes")
  case True
  assume r: "r_relative uri v = (0, u, w)"
  obtain ret u1 w1 where 1: "r_authority uri (drop 2 v) = (ret, u1, w1)" by (cases "r_authority uri (drop 2 v)") auto
  then have "ret = 0" using r True by (auto simp: r_relative_def split: if_splits)
  then show ?thesis using hier_sound_authority [OF True, of uri u1 w1 u1 0 u w] 1 r True by (simp add: r_relative_def)
next
  case False
  assume r: "r_relative uri v = (0, u, w)"
  obtain p r1 where "path_split False v = (p, r1)" by fastforce
  moreover from this have "r1 = w" using r False by (simp add: r_relative_def r_path_def split: if_splits)
  ultimately show ?thesis using hier_sound_path [OF False, of False p w] by simp
qed

lemma scheme_sound: "r_scheme uri v = (0, u, w) \<Longrightarrow> \<exists>s. v = s @ w \<and> valid_scheme s"
proof -
  assume r: "r_scheme uri v = (0, u, w)"
  then obtain c q where v: "v = c # q" "ISA_ALPHA c" by (cases v) (auto simp: r_scheme_def split: if_splits)
  then have w: "w = dropWhile scheme_byte q" using r by (simp add: r_scheme_def)
  have "valid_scheme (c # takeWhile scheme_byte q)" using v by (auto simp: valid_scheme_def list_all_iff dest: set_takeWhileD)
  then show ?thesis using v w by (intro exI [of _ "c # takeWhile scheme_byte q"]) simp
qed

lemma URI_sound:
  assumes "r_URI uri v = (0, u)"
  shows "\<exists>p. valid_parts p \<and> v = recompose p"
proof -
  obtain ret u1 w1 where 1: "r_scheme uri v = (ret, u1, w1)" by (cases "r_scheme uri v") auto
  obtain ret2 u2 w2 where 2: "r_hier u1 (tl w1) = (ret2, u2, w2)" by (cases "r_hier u1 (tl w1)") auto
  have r: "ret = 0" "first w1 = ch (CHR '':'')" "ret2 = 0" "fst (r_tail u2 w2) = 0"
    using assms 1 2 by (auto simp: r_URI_def split: if_splits)
  obtain s where s: "v = s @ w1" "valid_scheme s" using scheme_sound 1 r(1) by blast
  obtain a p where h: "tl w1 = hier_text a p @ w2" "valid_hier True a p" using hier_sound 2 r(3) by blast
  obtain q f where t: "w2 = tail_text q f" "pred_option (encoded query_byte) q" "pred_option (encoded fragment_byte) f"
    using tail_sound [OF r(4)] by blast
  have "w1 = ch (CHR '':'') # tl w1" using r(2) by (cases w1) auto
  then have "v = s @ ch (CHR '':'') # hier_text a p @ tail_text q f" using s(1) h(1) t(1) by simp
  then show ?thesis using s(2) h(2) t(2,3)
    by (intro exI [of _ "\<lparr>the_scheme = Some s, the_authority = a, the_path = p, the_query = q, the_fragment = f\<rparr>"])
      (simp add: valid_parts_iff recompose_def behind_def)
qed

lemma RelativeRef_sound:
  assumes "r_RelativeRef uri v = (0, u)"
  shows "\<exists>p. valid_parts p \<and> v = recompose p"
proof -
  obtain ret u1 w1 where 1: "r_relative uri v = (ret, u1, w1)" by (cases "r_relative uri v") auto
  have r: "ret = 0" "fst (r_tail u1 w1) = 0" using assms 1 by (auto simp: r_RelativeRef_def split: if_splits)
  obtain a p where h: "v = hier_text a p @ w1" "valid_hier False a p" using relative_sound 1 r(1) by blast
  obtain q f where t: "w1 = tail_text q f" "pred_option (encoded query_byte) q" "pred_option (encoded fragment_byte) f"
    using tail_sound [OF r(2)] by blast
  show ?thesis using h t
    by (intro exI [of _ "\<lparr>the_scheme = None, the_authority = a, the_path = p, the_query = q, the_fragment = f\<rparr>"])
      (simp add: valid_parts_iff recompose_def behind_def)
qed

lemma reference_sound: "r_reference uri v = (0, u) \<Longrightarrow> \<exists>p. valid_parts p \<and> v = recompose p"
  using URI_sound [of "xmlCleanURI uri" v] RelativeRef_sound by (fastforce simp: r_reference_def split: prod.splits if_splits)

lemma reference_code: "fst (r_reference uri v) \<in> {0, 1}"
proof -
  have "fst (r_relative u v) \<in> {0, 1}" for u
    using r_codes(2) [of u "drop 2 v"] fst_abempty by (auto simp: r_relative_def r_path_def split: prod.split)
  then have "fst (r_RelativeRef u v) \<in> {0, 1}" for u
    using r_codes(1) by (auto simp: r_RelativeRef_def split: prod.split) (metis fst_conv insertE singletonD)+
  then show ?thesis by (auto simp: r_reference_def split: prod.split) (metis fst_conv insertE singletonD)+
qed

text \<open>The composed strings are the accepted ones, and the components are determined by the string up to the structure.\<close>

lemma reference_iff: "r_reference uri v = (0, u) \<longleftrightarrow> (\<exists>p. valid_parts p \<and> v = recompose p \<and> u = fields uri p)"
  using reference_sound [of uri v u] reference_complete [of _ uri] by fastforce

section \<open>The parser\<close>

lemma strict_empty [simp]: "strict empty_uri" "strict (empty_uri\<lparr>cleanup := XML_URI_NO_UNESCAPE\<rparr>)"
  by (simp_all add: strict_def empty_uri_def)

lemma r_reference_cases:
  obtains (parsed) p where "valid_parts p" "v = recompose p" "r_reference uri v = (0, fields uri p)"
  | (rejected) u where "\<nexists>p. valid_parts p \<and> v = recompose p" "r_reference uri v = (1, u)"
proof (cases "fst (r_reference uri v) = 0")
  case True
  then obtain u where u: "r_reference uri v = (0, u)" by (cases "r_reference uri v") auto
  then show ?thesis using parsed u reference_iff [of uri v u] by auto
next
  case False
  then obtain u where u: "r_reference uri v = (1, u)" using reference_code [of uri v] by (cases "r_reference uri v") auto
  then show ?thesis using rejected reference_complete [of _ uri] by fastforce
qed

text \<open>The fields of the structure.\<close>

lemma stored_cong: "cleanup u = cleanup uri \<Longrightarrow> stored u = stored uri"
  by (simp add: fun_eq_iff stored_def raw_def)

lemma no_server_sel [simp]:
  "scheme (no_server u) = scheme u" "opaque (no_server u) = opaque u" "authority (no_server u) = authority u"
  "server (no_server u) = server u" "user (no_server u) = user u" "path (no_server u) = path u" "query (no_server u) = query u"
  "fragment (no_server u) = fragment u" "query_raw (no_server u) = query_raw u" "cleanup (no_server u) = cleanup u"
  by (simp_all add: no_server_def)

lemma clean_sel [simp]:
  "scheme (xmlCleanURI u) = NULL" "opaque (xmlCleanURI u) = NULL" "authority (xmlCleanURI u) = NULL" "server (xmlCleanURI u) = NULL"
  "user (xmlCleanURI u) = NULL" "path (xmlCleanURI u) = NULL" "query (xmlCleanURI u) = NULL" "fragment (xmlCleanURI u) = NULL"
  "query_raw (xmlCleanURI u) = NULL" "cleanup (xmlCleanURI u) = cleanup u" "port (xmlCleanURI u) = port u"
  by (simp_all add: xmlCleanURI_def)

definition with_authority :: "xmlURI \<Rightarrow> parts \<Rightarrow> xmlURI" where
  "with_authority uri p = (case the_authority p of
     None \<Rightarrow> (xmlCleanURI uri)\<lparr>scheme := opt_text (the_scheme p)\<rparr>
   | Some a \<Rightarrow>
       let u = authority_fields ((xmlCleanURI uri)\<lparr>scheme := opt_text (the_scheme p)\<rparr>) a (the_path p @ tail_text (the_query p) (the_fragment p))
       in if the_scheme p = None then u else no_server u)"

lemma fields_with: "fields uri p =
    tail_fields (path_field (with_authority uri p) (the_path p) (tail_text (the_query p) (the_fragment p))) (the_query p) (the_fragment p)"
  by (simp add: fields_def with_authority_def Let_def)

lemma with_sel:
  "scheme (with_authority uri p) = opt_text (the_scheme p)" "opaque (with_authority uri p) = NULL" "authority (with_authority uri p) = NULL"
  "path (with_authority uri p) = NULL" "query (with_authority uri p) = NULL" "query_raw (with_authority uri p) = NULL"
  "fragment (with_authority uri p) = NULL" "cleanup (with_authority uri p) = cleanup uri"
  by (simp_all add: with_authority_def authority_fields_def Let_def split: option.split prod.split)

lemma fields_sel:
  "scheme (fields uri p) = opt_text (the_scheme p)" "opaque (fields uri p) = NULL" "authority (fields uri p) = NULL"
  "server (fields uri p) = server (with_authority uri p)" "user (fields uri p) = user (with_authority uri p)"
  "port (fields uri p) = port (with_authority uri p)" "cleanup (fields uri p) = cleanup uri"
  "path (fields uri p) = (if the_path p = [] then NULL else stored uri (the_path p) (tail_text (the_query p) (the_fragment p)))"
  "query (fields uri p) = (case the_query p of None \<Rightarrow> NULL | Some v \<Rightarrow> stored uri v (before (ch (CHR ''#'')) (the_fragment p)))"
  "query_raw (fields uri p) = opt_text (the_query p)"
  "fragment (fields uri p) = (case the_fragment p of None \<Rightarrow> NULL | Some v \<Rightarrow> stored uri v [])"
  unfolding fields_with tail_fields_def path_field_def
  by (simp_all add: with_sel opt_text_def stored_def raw_def split: option.split)

lemma authority_sel:
  assumes "the_authority p = Some (u, h, n)"
  defines "rest \<equiv> the_path p @ tail_text (the_query p) (the_fragment p)"
  shows "user (with_authority uri p) = (case u of None \<Rightarrow> NULL | Some v \<Rightarrow> stored uri v (ch (CHR ''@'') # h @ before (ch (CHR '':'')) n @ rest))"
    and "server (with_authority uri p) = (if h = [] then NULL else stored uri h (before (ch (CHR '':'')) n @ rest))"
    and "port (with_authority uri p) =
      (let k = (case n of None \<Rightarrow> port uri | Some ds \<Rightarrow> decimal 0 ds)
       in if the_scheme p \<noteq> None \<and> h = [] \<and> k = 0 then - 1 else k)"
  unfolding with_authority_def assms(1) rest_def
  by (simp_all add: authority_fields_def no_server_def stored_def raw_def Let_def split: option.split)

lemma no_authority_sel:
  assumes "the_authority p = None"
  shows "user (with_authority uri p) = NULL" "server (with_authority uri p) = NULL" "port (with_authority uri p) = port uri"
  by (simp_all add: with_authority_def assms)

section \<open>The grammar of RFC 3986\<close>

text \<open>
  Hosts and ports as RFC 3986 has them, section 3.2.2 and appendix A: groups of at most four hexadecimal digits, the last two
  of which can be an IPv4 address, and \<open>::\<close> for one group of zeros or more.  An IPv4 address is a registered name as well.
\<close>

fun colons :: "bytes list \<Rightarrow> bytes" where
  "colons [] = []"
| "colons [g] = g"
| "colons (g # gs) = g @ ch (CHR '':'') # colons gs"

definition h16 :: "bytes \<Rightarrow> bool" where
  "h16 g \<longleftrightarrow> g \<noteq> [] \<and> length g \<le> 4 \<and> list_all ISA_HEXDIG g"

definition dec_octet :: "bytes \<Rightarrow> bool" where
  "dec_octet n \<longleftrightarrow> n \<noteq> [] \<and> list_all ISA_DIGIT n \<and> (length n = 1 \<or> first n \<noteq> ch (CHR ''0'')) \<and> decimal 0 n \<le> 255"

definition ipv4_address :: "bytes \<Rightarrow> bool" where
  "ipv4_address x \<longleftrightarrow> (\<exists>a b c d. list_all dec_octet [a, b, c, d] \<and>
     x = a @ ch (CHR ''.'') # b @ ch (CHR ''.'') # c @ ch (CHR ''.'') # d)"

text \<open>\<open>n\<close> groups, the last two possibly as an IPv4 address.\<close>

definition groups :: "nat \<Rightarrow> bytes \<Rightarrow> bool" where
  "groups n x \<longleftrightarrow> (\<exists>gs. list_all h16 gs \<and>
     (length gs = n \<and> x = colons gs \<or> (\<exists>q. ipv4_address q \<and> length gs + 2 = n \<and> x = colons (gs @ [q]))))"

definition ipv6_address :: "bytes \<Rightarrow> bool" where
  "ipv6_address x \<longleftrightarrow> groups 8 x \<or>
     (\<exists>gs n b. list_all h16 gs \<and> groups n b \<and> length gs + n \<le> 7 \<and> x = colons gs @ asc ''::'' @ b)"

definition ipv_future :: "bytes \<Rightarrow> bool" where
  "ipv_future x \<longleftrightarrow> (\<exists>c a b. c \<in> set (asc ''vV'') \<and> a \<noteq> [] \<and> list_all ISA_HEXDIG a \<and> b \<noteq> [] \<and> list_all user_byte b \<and>
     x = c # a @ ch (CHR ''.'') # b)"

definition rfc_host :: "bytes \<Rightarrow> bool" where
  "rfc_host h \<longleftrightarrow> encoded host_byte h \<or> (\<exists>x. (ipv6_address x \<or> ipv_future x) \<and> h = ch (CHR ''['') # x @ [ch (CHR '']'')])"

definition rfc_authority :: "authority_parts \<Rightarrow> bool" where
  "rfc_authority a \<longleftrightarrow> (case a of (u, h, n) \<Rightarrow> pred_option (encoded user_byte) u \<and> rfc_host h \<and> pred_option (list_all ISA_DIGIT) n)"

text \<open>A query and a fragment have the same class of bytes.\<close>

definition rfc_parts :: "parts \<Rightarrow> bool" where
  "rfc_parts p \<longleftrightarrow> pred_option valid_scheme (the_scheme p) \<and> pred_option rfc_authority (the_authority p) \<and> valid_path p \<and>
     pred_option (encoded query_byte) (the_query p) \<and> pred_option (encoded query_byte) (the_fragment p)"

text \<open>
  Where \<open>valid_parts\<close>, the grammar that the code accepts, differs: a port is not empty and at most \<open>INT_MAX\<close>; anything can stand
  in the brackets of a host, and brackets can stand in a fragment.
\<close>

definition usable_port :: "parts \<Rightarrow> bool" where
  "usable_port p \<longleftrightarrow> (case the_authority p of Some (_, _, Some n) \<Rightarrow> n \<noteq> [] \<and> decimal 0 n \<le> INT_MAX | _ \<Rightarrow> True)"

definition bracketed :: "parts \<Rightarrow> bool" where
  "bracketed p \<longleftrightarrow> (case the_authority p of Some (_, h, _) \<Rightarrow> first h = ch (CHR ''['') | None \<Rightarrow> False) \<or>
     (case the_fragment p of Some f \<Rightarrow> set f \<inter> set (asc ''[]'') \<noteq> {} | None \<Rightarrow> False)"

lemma colons_set: "set (colons gs) \<subseteq> insert (ch (CHR '':'')) (\<Union> (set ` set gs))"
  by (induction gs rule: colons.induct) auto

definition address_byte :: "byte \<Rightarrow> bool" where
  "address_byte c \<longleftrightarrow> ISA_HEXDIG c \<or> c = ch (CHR '':'') \<or> c = ch (CHR ''.'')"

lemma colons_bytes: "(\<And>g. g \<in> set gs \<Longrightarrow> list_all address_byte g) \<Longrightarrow> list_all address_byte (colons gs)"
  by (induction gs rule: colons.induct) (auto simp: address_byte_def)

lemma h16_bytes: "h16 g \<Longrightarrow> list_all address_byte g"
  by (auto simp: h16_def address_byte_def list_all_iff)

lemma ipv4_bytes: "ipv4_address x \<Longrightarrow> list_all address_byte x"
  by (auto simp: ipv4_address_def dec_octet_def list_all_iff address_byte_def ISA_HEXDIG_def)

lemma groups_bytes: "groups n x \<Longrightarrow> list_all address_byte x"
  unfolding groups_def using h16_bytes ipv4_bytes by (auto intro!: colons_bytes simp: list_all_iff [of h16])

lemma ipv6_bytes: "ipv6_address x \<Longrightarrow> list_all address_byte x"
proof -
  have "list_all address_byte (colons gs)" if "list_all h16 gs" for gs using that h16_bytes by (auto intro!: colons_bytes simp: list_all_iff [of h16])
  then show "ipv6_address x \<Longrightarrow> list_all address_byte x"
    unfolding ipv6_address_def using groups_bytes by (auto simp: address_byte_def asc_def)
qed

lemma no_bracket: "\<not> address_byte (ch (CHR '']''))" "\<not> user_byte (ch (CHR '']''))" "\<not> ISA_HEXDIG (ch (CHR '']''))"
  by (simp_all add: address_byte_def ISA_HEXDIG_def uri_bytes uri_atoms)

lemma rfc_host_valid: "rfc_host h \<Longrightarrow> valid_host h"
proof -
  have "ch (CHR '']'') \<notin> set x" if "ipv6_address x" for x using ipv6_bytes [OF that] no_bracket by (auto simp: list_all_iff)
  moreover have "ch (CHR '']'') \<notin> set x" if "ipv_future x" for x
    using that no_bracket by (auto simp: ipv_future_def list_all_iff)
  ultimately show "rfc_host h \<Longrightarrow> valid_host h" unfolding rfc_host_def valid_host_def by blast
qed

lemma fragment_query: "encoded query_byte f \<Longrightarrow> encoded fragment_byte f"
  by (erule encoded_mono) (simp_all add: uri_bytes uri_atoms, blast)

lemma query_fragment:
  assumes "encoded fragment_byte f" "set f \<inter> set (asc ''[]'') = {}"
  shows "encoded query_byte f"
proof -
  have "\<not> fragment_byte pct_sign" by (simp add: uri_bytes uri_atoms)
  with assms(1) show ?thesis using assms(2)
    by (induction rule: encoded_induct) (auto simp: encoded_Cons query_byte_def fragment_byte_def)
qed

lemma rfc_accepted: "rfc_parts p \<Longrightarrow> usable_port p \<Longrightarrow> valid_parts p"
  using rfc_host_valid fragment_query
  by (cases "the_authority p"; cases "the_fragment p")
    (auto simp: rfc_parts_def valid_parts_def rfc_authority_def valid_authority_def usable_port_def valid_port_def split: option.splits)

lemma valid_port_digits: "pred_option valid_port n \<Longrightarrow> pred_option (list_all ISA_DIGIT) n"
  by (cases n) (simp_all add: valid_port_def)

lemma accepted_rfc: "valid_parts p \<Longrightarrow> rfc_parts p \<or> bracketed p"
  using query_fragment valid_port_digits
  by (cases "the_authority p"; cases "the_fragment p")
    (auto simp: rfc_parts_def valid_parts_def rfc_authority_def valid_authority_def valid_host_def rfc_host_def bracketed_def
      split: option.splits)

section \<open>The contents of the structure\<close>

text \<open>
  A structure with the decoded components.  The code stores it unless a component that is there is empty and something
  follows it: an empty user part is followed by the at sign, an empty query can be followed by a fragment (\<open>spills\<close>).
\<close>

definition decoded :: "bytes option \<Rightarrow> xmlString" where
  "decoded x = (case x of None \<Rightarrow> NULL | Some v \<Rightarrow> Ptr (cstr_of (unescape v)))"

definition some_text :: "bytes \<Rightarrow> bytes option" where
  "some_text v = (if v = [] then None else Some v)"

definition contents :: "parts \<Rightarrow> xmlURI" where
  "contents p = \<lparr>scheme = opt_text (the_scheme p), opaque = NULL, authority = NULL,
     server = (case the_authority p of None \<Rightarrow> NULL | Some (u, h, n) \<Rightarrow> decoded (some_text h)),
     user = (case the_authority p of None \<Rightarrow> NULL | Some (u, h, n) \<Rightarrow> decoded u),
     port = (case the_authority p of
               None \<Rightarrow> PORT_EMPTY
             | Some (u, h, n) \<Rightarrow>
                 let k = (case n of None \<Rightarrow> 0 | Some ds \<Rightarrow> decimal 0 ds)
                 in if the_scheme p \<noteq> None \<and> h = [] \<and> k = 0 then PORT_EMPTY_SERVER else k),
     path = decoded (some_text (the_path p)), query = decoded (the_query p), fragment = decoded (the_fragment p), cleanup = 0,
     query_raw = opt_text (the_query p)\<rparr>"

definition spills :: "parts \<Rightarrow> bool" where
  "spills p \<longleftrightarrow> (\<exists>h n. the_authority p = Some (Some [], h, n)) \<or> the_query p = Some [] \<and> the_fragment p \<noteq> None"

lemma stored_empty_uri: "stored empty_uri v r = Ptr (cstr_of (unescape (if v = [] then r else v)))"
  by (simp add: stored_def raw_def empty_uri_def)

lemma fields_contents:
  assumes "\<not> spills p"
  shows "fields empty_uri p = contents p"
proof -
  let ?f = "fields empty_uri p" and ?c = "contents p"
  have a: "user ?f = user ?c \<and> server ?f = server ?c \<and> port ?f = port ?c"
  proof (cases "the_authority p")
    case None
    then show ?thesis by (simp add: fields_sel no_authority_sel contents_def empty_uri_def)
  next
    case (Some a)
    obtain u h n where "a = (u, h, n)" by (cases a) auto
    then have uhn: "the_authority p = Some (u, h, n)" using Some by simp
    moreover have "u \<noteq> Some []" using assms uhn by (auto simp: spills_def)
    moreover have "port empty_uri = 0" by (simp add: empty_uri_def)
    ultimately show ?thesis
      by (cases u; cases n) (auto simp: fields_sel authority_sel contents_def decoded_def some_text_def stored_empty_uri Let_def)
  qed
  have q: "query ?f = query ?c" "fragment ?f = fragment ?c" "path ?f = path ?c"
    using assms by (cases "the_query p"; cases "the_fragment p"; auto simp: fields_sel contents_def decoded_def some_text_def stored_empty_uri spills_def before_def)+
  have "scheme ?f = scheme ?c" "opaque ?f = opaque ?c" "authority ?f = authority ?c" "cleanup ?f = cleanup ?c" "query_raw ?f = query_raw ?c"
    by (simp_all add: fields_sel contents_def) (simp add: empty_uri_def)
  then show ?thesis using a q by (intro xmlURI.equality) simp_all
qed

section \<open>The entry points\<close>

text \<open>
  C2.  \<open>xmlParseURISafe\<close> reads no byte behind the terminator.  It returns 0 exactly when the string is the composition of
  components of its grammar (and the allocations succeed); these are components of RFC 3986, or a host or a fragment has
  brackets that the RFC does not allow, and the structure holds the components, decoded, unless an empty user part or an empty
  query is followed by something, which is then stored for it.  Otherwise it returns 1, and then the string is no reference of
  RFC 3986 with a port that is not empty and at most \<open>INT_MAX\<close>; or -1 when an allocation failed.
\<close>

theorem xmlParseURISafe_correct:
  assumes "sane v"
  shows "\<exists>res. xmlParseURISafe mem True (Ptr (v @ 0 # t)) = Some res \<and>
    ((\<exists>p. valid_parts p \<and> (rfc_parts p \<or> bracketed p) \<and> v = recompose p \<and> res = (0, Ptr (fields empty_uri p)) \<and>
        (spills p \<or> fields empty_uri p = contents p)) \<or>
     (\<nexists>p. valid_parts p \<and> v = recompose p) \<and> (\<nexists>p. rfc_parts p \<and> usable_port p \<and> v = recompose p) \<and> res = (1, NULL) \<or>
     (\<exists>n. \<not> mem n) \<and> res = (- 1, NULL))"
proof (cases "mem SIZEOF_URI")
  case True
  have x: "xmlParseURISafe mem True (Ptr (v @ 0 # t)) =
      do { (ret, uri1) \<leftarrow> xmlParse3986URIReference mem empty_uri (Ptr (v @ 0 # t)); Some (if ret \<noteq> 0 then (ret, NULL) else (0, Ptr uri1)) }"
    using True by (simp add: xmlParseURISafe_def xmlCreateURI_def)
  from URIReference_ok [OF assms strict_empty(1), of mem t] show ?thesis
    unfolding settles_def
  proof (elim disjE exE conjE)
    assume r: "xmlParse3986URIReference mem empty_uri (Ptr (v @ 0 # t)) = Some (r_reference empty_uri v)"
    show ?thesis
    proof (cases rule: r_reference_cases [of v empty_uri])
      case (parsed p)
      have "xmlParseURISafe mem True (Ptr (v @ 0 # t)) = Some (0, Ptr (fields empty_uri p))" using parsed(3) by (simp add: x r)
      then show ?thesis using parsed(1,2) accepted_rfc fields_contents by blast
    next
      case (rejected u)
      have "xmlParseURISafe mem True (Ptr (v @ 0 # t)) = Some (1, NULL)" using rejected(2) by (simp add: x r)
      then show ?thesis using rejected(1) rfc_accepted by blast
    qed
  next
    fix u n assume "xmlParse3986URIReference mem empty_uri (Ptr (v @ 0 # t)) = Some (- 1, u)" "\<not> mem n"
    then show ?thesis unfolding x by auto
  qed
next
  case False
  then show ?thesis by (auto simp: xmlParseURISafe_def xmlCreateURI_def)
qed

definition literal_parts :: parts where
  "literal_parts = \<lparr>the_scheme = Some (asc ''http''), the_authority = Some (Some (asc ''me''), asc ''[::1]'', Some (asc ''80'')),
     the_path = asc ''/p%20q'', the_query = Some (asc ''x=1''), the_fragment = None\<rparr>"

definition example_parts :: parts where
  "example_parts = \<lparr>the_scheme = Some (asc ''http''), the_authority = Some (Some (asc ''me''), asc ''a.org'', Some (asc ''80'')),
     the_path = asc ''/p%20q'', the_query = Some (asc ''x=1''), the_fragment = None\<rparr>"

lemma example_rfc: "rfc_parts literal_parts" "usable_port literal_parts" "\<not> spills literal_parts"
proof -
  have "groups 1 (asc ''1'')" unfolding groups_def by (rule exI [of _ "[asc ''1'']"]) (simp add: h16_def ISA_HEXDIG_def ISA_DIGIT_def asc_def)
  then have "ipv6_address (asc ''::1'')"
    unfolding ipv6_address_def by (intro disjI2 exI [of _ "[]"] exI [of _ "1::nat"] exI [of _ "asc ''1''"]) (simp add: asc_def)
  then have "rfc_host (asc ''[::1]'')" unfolding rfc_host_def by (intro disjI2 exI [of _ "asc ''::1''"]) (simp add: asc_def)
  then show "rfc_parts literal_parts"
    by (simp add: rfc_parts_def literal_parts_def rfc_authority_def valid_scheme_def valid_path_def asc_def encoded_Cons uri_bytes uri_atoms
        ISA_HEXDIG_def pct_def)
  show "usable_port literal_parts" "\<not> spills literal_parts"
    by (simp_all add: usable_port_def spills_def literal_parts_def asc_def decimal_def)
qed

lemma xmlParseURISafe_correct_witness:
  "let s = asc ''http://me@[::1]:80/p%20q?x=1'' in sane s \<and>
    xmlParseURISafe (\<lambda>n. True) True (Ptr (s @ 0 # [])) = Some (0, Ptr (contents literal_parts))"
proof -
  let ?s = "asc ''http://me@[::1]:80/p%20q?x=1''"
  have s: "sane ?s" by simp
  have e: "?s = recompose literal_parts"
    by (simp add: recompose_def behind_def hier_text_def authority_text_def tail_text_def before_def literal_parts_def asc_def)
  have v: "valid_parts literal_parts" using example_rfc(1,2) by (rule rfc_accepted)
  have "fields empty_uri p = contents literal_parts" if "valid_parts p" "?s = recompose p" for p
    using reference_complete [OF that(1), of empty_uri] reference_complete [OF v, of empty_uri] that(2) e fields_contents [OF example_rfc(3)] by simp
  then show ?thesis unfolding Let_def using s v e xmlParseURISafe_correct [OF s, of "\<lambda>n. True" "[]"] by fastforce
qed

lemma raw_port:
  "port (fields (empty_uri\<lparr>cleanup := XML_URI_NO_UNESCAPE\<rparr>) p) = (case the_authority p of
        None \<Rightarrow> PORT_EMPTY
      | Some (_, h, n) \<Rightarrow>
          let k = (case n of None \<Rightarrow> PORT_EMPTY | Some ds \<Rightarrow> decimal 0 ds)
          in if the_scheme p \<noteq> None \<and> h = [] \<and> k = PORT_EMPTY then PORT_EMPTY_SERVER else k)"
proof -
  have "port (empty_uri\<lparr>cleanup := XML_URI_NO_UNESCAPE\<rparr>) = PORT_EMPTY" by (simp add: empty_uri_def)
  then show ?thesis by (cases "the_authority p") (auto simp: fields_sel no_authority_sel authority_sel Let_def split: option.splits)
qed

text \<open>
  C14.  With \<open>raw\<close> no component is unescaped: the structure that \<open>xmlParseURIRaw\<close> returns holds the pieces of the string and
  the value of the port, which is -1 for an authority without host and port behind a scheme.
\<close>

theorem xmlParseURIRaw_pieces:
  assumes "sane (recompose p)" "valid_parts p" "\<And>n. mem n"
  shows "\<exists>u. xmlParseURIRaw mem (Ptr (recompose p @ 0 # t)) True = Some (Ptr u) \<and>
    scheme u = opt_text (the_scheme p) \<and> user u = opt_text (Option.bind (the_authority p) fst) \<and>
    server u = (case the_authority p of None \<Rightarrow> NULL | Some (_, h, _) \<Rightarrow> if h = [] then NULL else Ptr (cstr_of h)) \<and>
    path u = (if the_path p = [] then NULL else Ptr (cstr_of (the_path p))) \<and>
    query u = opt_text (the_query p) \<and> query_raw u = opt_text (the_query p) \<and> fragment u = opt_text (the_fragment p) \<and>
    port u = (case the_authority p of
        None \<Rightarrow> PORT_EMPTY
      | Some (_, h, n) \<Rightarrow>
          let k = (case n of None \<Rightarrow> PORT_EMPTY | Some ds \<Rightarrow> decimal 0 ds)
          in if the_scheme p \<noteq> None \<and> h = [] \<and> k = PORT_EMPTY then PORT_EMPTY_SERVER else k)"
proof -
  let ?base = "empty_uri\<lparr>cleanup := XML_URI_NO_UNESCAPE\<rparr>"
  have "xmlParse3986URIReference mem ?base (Ptr (recompose p @ 0 # t)) = Some (0, fields ?base p)"
    using URIReference_ok [OF assms(1) strict_empty(2), of mem t] assms(3) reference_complete [OF assms(2), of ?base]
    by (simp add: settles_def)
  then have "xmlParseURIRaw mem (Ptr (recompose p @ 0 # t)) True = Some (Ptr (fields ?base p))"
    using assms(3) by (simp add: xmlParseURIRaw_def xmlCreateURI_def xmlParseURIReference_def empty_uri_def Let_def)
  moreover have st: "stored ?base a r = Ptr (cstr_of a)" for a r by (simp add: stored_def raw_def)
  moreover have "user (fields ?base p) = opt_text (Option.bind (the_authority p) fst)"
    by (cases "the_authority p") (auto simp: fields_sel no_authority_sel authority_sel st opt_text_def split: option.split)
  moreover have "server (fields ?base p) = (case the_authority p of None \<Rightarrow> NULL | Some (_, h, _) \<Rightarrow> if h = [] then NULL else Ptr (cstr_of h))"
    by (cases "the_authority p") (auto simp: fields_sel no_authority_sel authority_sel st)
  moreover note raw_port [of p]
  ultimately show ?thesis
    by (intro exI [of _ "fields ?base p"]) (simp add: fields_sel opt_text_def split: option.split)
qed


lemma example_bytes:
  "list_all scheme_byte (asc ''ttp'')" "list_all user_byte (asc ''me'')" "list_all host_byte (asc ''a.org'')" "list_all ISA_DIGIT (asc ''80'')"
  "list_all path_byte (asc ''/p'')" "path_byte (ch (CHR ''q''))" "list_all query_byte (asc ''x=1'')"
  "ISA_HEXDIG (ch (CHR ''2''))" "ISA_HEXDIG (ch (CHR ''0''))" "ISA_ALPHA (ch (CHR ''h''))"
  by (simp_all add: uri_bytes uri_atoms ISA_HEXDIG_def)

lemma valid_example: "valid_parts example_parts"
proof -
  have "encoded path_byte (asc ''/p%20q'')" using example_bytes(5,6,8,9) by (simp add: encoded_Cons)
  moreover have "encoded user_byte (asc ''me'')" "encoded host_byte (asc ''a.org'')" "encoded query_byte (asc ''x=1'')"
    by (rule encoded_plain [OF example_bytes(2)], simp, rule encoded_plain [OF example_bytes(3)], simp, rule encoded_plain [OF example_bytes(7)], simp)
  moreover have "decimal 0 (asc ''80'') \<le> INT_MAX" by (simp add: decimal_def)
  ultimately show ?thesis using example_bytes(1,4,10)
    by (simp add: valid_parts_iff valid_hier_def example_parts_def valid_authority_def valid_host_def valid_port_def valid_scheme_def)
qed

lemma recompose_example: "recompose example_parts = asc ''http://me@a.org:80/p%20q?x=1''"
  by (simp add: recompose_def example_parts_def behind_def before_def hier_text_def authority_text_def tail_text_def)

lemma xmlParseURIRaw_pieces_witness:
  "\<exists>u. xmlParseURIRaw (\<lambda>n. True) (Ptr (asc ''http://me@a.org:80/p%20q?x=1'' @ 0 # [])) True = Some (Ptr u) \<and>
    user u = Ptr (cstr_of (asc ''me'')) \<and> server u = Ptr (cstr_of (asc ''a.org'')) \<and> path u = Ptr (cstr_of (asc ''/p%20q''))"
proof -
  have "sane (recompose example_parts)" unfolding recompose_example by simp
  from xmlParseURIRaw_pieces [OF this valid_example, of "\<lambda>n. True" "[]"] show ?thesis
    unfolding recompose_example by (auto simp: example_parts_def opt_text_def)
qed

end
