(* ===== verification/UriSave.thy ===== *)
theory UriSave
  imports UriParser
begin

text \<open>
  \<open>uri.c\<close>: the text of a structure (\<open>xmlSaveUri\<close> with its growing buffer), the escaping functions, and \<open>xmlCanonicPath\<close>.
\<close>

section \<open>Saving\<close>

definition xmlGrowCapacity :: "int \<Rightarrow> int \<Rightarrow> int \<Rightarrow> int \<Rightarrow> int" where
  "xmlGrowCapacity capacity elemSize lo hi =
     (if capacity \<le> 0 then lo
      else if capacity \<ge> hi \<or> capacity > (2 ^ 64 - 1) div 2 div elemSize then - 1
      else let extra = (capacity + 1) div 2 in if capacity > hi - extra then hi else capacity + extra)"

abbreviation MAX_URI_LENGTH :: int where "MAX_URI_LENGTH \<equiv> 1048576"
abbreviation XML_MAX_ITEMS :: int where "XML_MAX_ITEMS \<equiv> 1000000000"

text \<open>
  The buffer \<open>ret\<close> with the bytes written so far, whose number is \<open>len\<close>, and \<open>max\<close>; the allocation has \<open>max + 1\<close>
  bytes.  A step of the function returns NULL for \<open>goto mem_error\<close>.
\<close>

type_synonym save_buf = "bytes \<times> nat"
type_synonym saver = "save_buf \<Rightarrow> save_buf ptr option"

definition and_then :: "saver \<Rightarrow> saver \<Rightarrow> saver" where
  "and_then f g b = do { r \<leftarrow> f b; case r of NULL \<Rightarrow> Some NULL | Ptr b' \<Rightarrow> g b' }"

definition no_op :: saver where
  "no_op b = Some (Ptr b)"

definition put :: "byte \<Rightarrow> saver" where
  "put c b = (case b of (ret, mx) \<Rightarrow> if length ret \<le> mx then Some (Ptr (ret @ [c], mx)) else None)"

definition xmlSaveUriRealloc :: "allocator \<Rightarrow> saver" where
  "xmlSaveUriRealloc mem b = (case b of (ret, mx) \<Rightarrow>
     let newSize = xmlGrowCapacity (int mx) 1 80 MAX_URI_LENGTH
     in Some (if newSize < 0 then NULL
              else if \<not> mem (nat newSize + 1) then NULL
              else Ptr (ret, nat newSize)))"

text \<open>\<open>if (len + k >= max) { ret = xmlSaveUriRealloc(ret, &max); \<dots> }\<close>\<close>

definition ensure :: "allocator \<Rightarrow> nat \<Rightarrow> saver" where
  "ensure mem k b = (case b of (ret, mx) \<Rightarrow> if length ret + k \<ge> mx then xmlSaveUriRealloc mem b else Some (Ptr b))"

definition hex_upper :: "byte \<Rightarrow> byte" where
  "hex_upper d = d + (if d > 9 then ch (CHR ''A'') - 10 else ch (CHR ''0''))"

definition put_escaped :: "byte \<Rightarrow> saver" where
  "put_escaped c = and_then (put (ch (CHR ''%''))) (and_then (put (hex_upper (c div 0x10))) (put (hex_upper (c mod 0x10))))"

text \<open>\<open>while (*p != 0)\<close>: a byte that satisfies \<open>P\<close> is copied, another is escaped; \<open>k\<close> is the room that is asked for.\<close>

fun save_chars :: "allocator \<Rightarrow> nat \<Rightarrow> (byte \<Rightarrow> bool) \<Rightarrow> bytes \<Rightarrow> saver" where
  "save_chars mem k P [] b = None"
| "save_chars mem k P (c # p) b =
     (if c = 0 then Some (Ptr b)
      else and_then (ensure mem k) (and_then (if P c then put c else put_escaped c) (save_chars mem k P p)) b)"

text \<open>The decimal digits of \<open>%d\<close> for a positive number.\<close>

function digits :: "nat \<Rightarrow> bytes" where
  "digits n = (if n < 10 then [ch (CHR ''0'') + word_of_nat n] else digits (n div 10) @ [ch (CHR ''0'') + word_of_nat (n mod 10)])"
  by pat_completeness auto
termination
  by (relation "measure id") auto

declare digits.simps [simp del]

text \<open>
  \<open>len += snprintf(&ret[len], max - len, ":%d", port)\<close>: with too little room the last byte written is the
  terminator, but \<open>len\<close> still grows by the full length.  A room smaller than the full length would leave
  uninitialised bytes.
\<close>

definition save_port :: "nat \<Rightarrow> saver" where
  "save_port n b = (case b of (ret, mx) \<Rightarrow>
     let full = ch (CHR '':'') # digits n; room = mx - length ret
     in if length full < room then Some (Ptr (ret @ full, mx))
        else if length full = room then Some (Ptr (ret @ butlast full @ [0], mx))
        else None)"

definition user_chars :: "byte \<Rightarrow> bool" where
  "user_chars c \<longleftrightarrow> IS_UNRESERVED c \<or> c \<in> set (asc '';:&=+$,'')"

definition authority_chars :: "byte \<Rightarrow> bool" where
  "authority_chars c \<longleftrightarrow> IS_UNRESERVED c \<or> c \<in> set (asc ''$,;:@&=+'')"

definition path_chars :: "byte \<Rightarrow> bool" where
  "path_chars c \<longleftrightarrow> IS_UNRESERVED c \<or> c \<in> set (asc ''/;@&=+$,'')"

definition uric_chars :: "byte \<Rightarrow> bool" where
  "uric_chars c \<longleftrightarrow> IS_UNRESERVED c \<or> IS_RESERVED c"

text \<open>\<open>optional p f\<close>: \<open>if (p != NULL) \<dots>\<close>\<close>

definition optional :: "xmlString \<Rightarrow> (bytes \<Rightarrow> saver) \<Rightarrow> saver" where
  "optional p f = (case p of NULL \<Rightarrow> no_op | Ptr s \<Rightarrow> f s)"

definition save_scheme :: "allocator \<Rightarrow> bytes \<Rightarrow> saver" where
  "save_scheme mem s = and_then (save_chars mem 0 (\<lambda>_. True) s) (and_then (ensure mem 0) (put (ch (CHR '':''))))"

definition save_authority :: "allocator \<Rightarrow> xmlURI \<Rightarrow> saver" where
  "save_authority mem uri =
     (if server uri \<noteq> NULL \<or> port uri \<noteq> PORT_EMPTY then
        and_then (ensure mem 3) (and_then (put (ch (CHR ''/''))) (and_then (put (ch (CHR ''/'')))
       (and_then (optional (user uri) (\<lambda>s.
          and_then (save_chars mem 3 user_chars s) (and_then (ensure mem 3) (put (ch (CHR ''@''))))))
       (and_then (optional (server uri) (save_chars mem 0 (\<lambda>_. True)))
          (if port uri > 0 then and_then (ensure mem 10) (save_port (nat (port uri))) else no_op)))))
      else case authority uri of
        Ptr s \<Rightarrow> and_then (ensure mem 3) (and_then (put (ch (CHR ''/''))) (and_then (put (ch (CHR ''/'')))
          (save_chars mem 3 authority_chars s)))
      | NULL \<Rightarrow> (if scheme uri \<noteq> NULL then ensure mem 3 else no_op))"

text \<open>Does the path begin with a slash, a drive letter and a colon, in a file URI?\<close>

definition drive_path :: "xmlURI \<Rightarrow> bytes \<Rightarrow> bool option" where
  "drive_path uri p =
     (if scheme uri = NULL then Some False
      else do {
        c0 \<leftarrow> rd p 0;
        if c0 \<noteq> ch (CHR ''/'') then Some False
        else do {
          c1 \<leftarrow> rd p 1;
          if \<not> ISA_ALPHA c1 then Some False
          else do {
            c2 \<leftarrow> rd p 2;
            if c2 \<noteq> ch (CHR '':'') then Some False
            else xmlStrEqual False (scheme uri) (Ptr (cstr_of (asc ''file''))) } } })"

definition save_path :: "allocator \<Rightarrow> xmlURI \<Rightarrow> bytes \<Rightarrow> saver" where
  "save_path mem uri p b = do {
     drive \<leftarrow> drive_path uri p;
     if drive then do {
       c0 \<leftarrow> rd p 0; c1 \<leftarrow> rd p 1; c2 \<leftarrow> rd p 2;
       and_then (ensure mem 3) (and_then (put c0) (and_then (put c1) (and_then (put c2)
         (save_chars mem 3 path_chars (drop 3 p))))) b }
     else save_chars mem 3 path_chars p b }"

definition save_query :: "allocator \<Rightarrow> xmlURI \<Rightarrow> saver" where
  "save_query mem uri =
     (case query_raw uri of
        Ptr s \<Rightarrow> and_then (ensure mem 1) (and_then (put (ch (CHR ''?''))) (save_chars mem 1 (\<lambda>_. True) s))
      | NULL \<Rightarrow> optional (query uri) (\<lambda>s.
          and_then (ensure mem 3) (and_then (put (ch (CHR ''?''))) (save_chars mem 3 uric_chars s))))"

definition save_fragment :: "allocator \<Rightarrow> bytes \<Rightarrow> saver" where
  "save_fragment mem s = and_then (ensure mem 3) (and_then (put (ch (CHR ''#''))) (save_chars mem 3 uric_chars s))"

definition save_parts :: "allocator \<Rightarrow> xmlURI \<Rightarrow> saver" where
  "save_parts mem uri =
     and_then (optional (scheme uri) (save_scheme mem))
    (and_then (case opaque uri of
        Ptr s \<Rightarrow> save_chars mem 3 uric_chars s
      | NULL \<Rightarrow> and_then (save_authority mem uri)
                (and_then (optional (path uri) (save_path mem uri)) (save_query mem uri)))
    (and_then (optional (fragment uri) (save_fragment mem))
    (and_then (ensure mem 0) (put 0))))"

definition xmlSaveUri :: "allocator \<Rightarrow> xmlURI ptr \<Rightarrow> xmlString option" where
  "xmlSaveUri mem urip =
     (case urip of
        NULL \<Rightarrow> Some NULL
      | Ptr uri \<Rightarrow>
          if \<not> mem 81 then Some NULL
          else do {
            r \<leftarrow> save_parts mem uri ([], 80);
            Some (case r of NULL \<Rightarrow> NULL | Ptr (ret, mx) \<Rightarrow> Ptr ret) })"

section \<open>Escaping\<close>

definition put_hex :: "byte \<Rightarrow> byte" where
  "put_hex val = (if val \<le> 9 then ch (CHR ''0'') + val else ch (CHR ''A'') + val - 0xA)"

text \<open>The buffer with the bytes written so far and its size.\<close>

definition escape_room :: "allocator \<Rightarrow> nat \<times> nat \<Rightarrow> nat ptr" where
  "escape_room mem b = (case b of (out, len) \<Rightarrow>
     if len - out \<le> 3 then
       let newSize = xmlGrowCapacity (int len) 1 1 XML_MAX_ITEMS
       in if newSize < 0 then NULL else if \<not> mem (nat newSize) then NULL else Ptr (nat newSize)
     else Ptr len)"

fun escape_loop :: "allocator \<Rightarrow> xmlString \<Rightarrow> bytes \<Rightarrow> bytes \<Rightarrow> nat \<Rightarrow> xmlString option" where
  "escape_loop mem exc [] ret len = None"
| "escape_loop mem exc (c # inp) ret len =
     (if c = 0 then if length ret < len then Some (Ptr (ret @ [0])) else None
      else case escape_room mem (length ret, len) of
        NULL \<Rightarrow> Some NULL
      | Ptr len' \<Rightarrow> do {
          keep \<leftarrow> (if c \<noteq> ch (CHR ''@'') \<and> \<not> IS_UNRESERVED c then do { p \<leftarrow> xmlStrchr exc c; Some (p \<noteq> NULL) } else Some True);
          let new = (if keep then [c] else [ch (CHR ''%''), put_hex (drop_bit 4 c), put_hex (c AND 0xF)]);
          if length ret + length new \<le> len' then escape_loop mem exc inp (ret @ new) len' else None })"

definition xmlURIEscapeStr :: "allocator \<Rightarrow> xmlString \<Rightarrow> xmlString \<Rightarrow> xmlString option" where
  "xmlURIEscapeStr mem str exc =
     (case str of
        NULL \<Rightarrow> Some NULL
      | Ptr s \<Rightarrow> do {
          c \<leftarrow> rd s 0;
          if c = 0 then xmlStrdup mem str
          else do {
            n \<leftarrow> xmlStrlen str;
            if n > INT_MAX - 20 then None
            else
              let len = n + 20
              in if \<not> mem (nat len) then Some NULL else escape_loop mem exc s [] (nat len) } })"

text \<open>
  The state of \<open>xmlURIEscape\<close> between two components is \<open>ret\<close>; NULL stands for the return after a failed
  \<open>xmlURIEscapeStr\<close>.  \<open>append_component pre s exc suf\<close>: the component \<open>s\<close> is escaped and appended between \<open>pre\<close> and \<open>suf\<close>.
\<close>

definition cat_lit :: "allocator \<Rightarrow> string \<Rightarrow> xmlString \<Rightarrow> xmlString option" where
  "cat_lit mem lit ret = (if lit = [] then Some ret else xmlStrcat mem ret (Ptr (cstr_of (asc lit))))"

definition append_component :: "allocator \<Rightarrow> string \<Rightarrow> xmlString \<Rightarrow> string \<Rightarrow> string \<Rightarrow> xmlString \<Rightarrow> xmlString ptr option" where
  "append_component mem pre s exc suf ret =
     (case s of
        NULL \<Rightarrow> Some (Ptr ret)
      | Ptr _ \<Rightarrow> do {
          segment \<leftarrow> xmlURIEscapeStr mem s (Ptr (cstr_of (asc exc)));
          if segment = NULL then Some NULL
          else do {
            ret1 \<leftarrow> cat_lit mem pre ret;
            ret2 \<leftarrow> xmlStrcat mem ret1 segment;
            ret3 \<leftarrow> cat_lit mem suf ret2;
            Some (Ptr ret3) } })"

definition then_append :: "xmlString ptr option \<Rightarrow> (xmlString \<Rightarrow> xmlString ptr option) \<Rightarrow> xmlString ptr option" where
  "then_append a f = do { r \<leftarrow> a; case r of NULL \<Rightarrow> Some NULL | Ptr ret \<Rightarrow> f ret }"

definition escape_port :: "allocator \<Rightarrow> xmlURI \<Rightarrow> xmlString \<Rightarrow> xmlString ptr option" where
  "escape_port mem uri ret =
     (if port uri > 0 then do {
        ret1 \<leftarrow> cat_lit mem '':'' ret;
        ret2 \<leftarrow> xmlStrcat mem ret1 (Ptr (cstr_of (digits (nat (port uri)))));
        Some (Ptr ret2) }
      else Some (Ptr ret))"

definition escape_query :: "allocator \<Rightarrow> xmlURI \<Rightarrow> xmlString \<Rightarrow> xmlString ptr option" where
  "escape_query mem uri ret =
     (if query_raw uri \<noteq> NULL then do {
        ret1 \<leftarrow> cat_lit mem ''?'' ret;
        ret2 \<leftarrow> xmlStrcat mem ret1 (query_raw uri);
        Some (Ptr ret2) }
      else append_component mem ''?'' (query uri) '';/?:@&=+,$'' '''' ret)"

definition xmlURIEscape :: "allocator \<Rightarrow> xmlString \<Rightarrow> xmlString option" where
  "xmlURIEscape mem str =
     (if str = NULL then Some NULL
      else case xmlCreateURI mem of
        NULL \<Rightarrow> Some NULL
      | Ptr uri0 \<Rightarrow> do {
          (ret2, uri) \<leftarrow> xmlParseURIReference mem (uri0\<lparr>cleanup := XML_URI_ALLOW_UNWISE\<rparr>) str;
          if ret2 \<noteq> 0 then Some NULL
          else do {
            r \<leftarrow> then_append (append_component mem '''' (scheme uri) ''+-.'' '':'' NULL)
              (\<lambda>r. then_append (append_component mem ''//'' (authority uri) ''/?;:@'' '''' r)
              (\<lambda>r. then_append (append_component mem ''//'' (user uri) '';:&=+$,'' ''@'' r)
              (\<lambda>r. then_append (append_component mem (if user uri = NULL then ''//'' else '''') (server uri) ''/?;:@'' '''' r)
              (\<lambda>r. then_append (escape_port mem uri r)
              (\<lambda>r. then_append (append_component mem '''' (path uri) '':@&=+$,/?;'' '''' r)
              (\<lambda>r. then_append (escape_query mem uri r)
              (\<lambda>r. then_append (append_component mem '''' (opaque uri) '''' '''' r)
              (\<lambda>r. append_component mem ''#'' (fragment uri) ''#'' '''' r))))))));
            Some (case r of NULL \<Rightarrow> NULL | Ptr ret \<Rightarrow> ret) } })"

definition xmlCanonicPath :: "allocator \<Rightarrow> xmlString \<Rightarrow> xmlString option" where
  "xmlCanonicPath mem p =
     (if p = NULL then Some NULL
      else do {
        abs \<leftarrow> xmlStrstr p (Ptr (cstr_of (asc ''://'')));
        if abs \<noteq> NULL then xmlURIEscapeStr mem p (Ptr (cstr_of (asc '':/?#[]@!$&()*+,;='' @ [ch (CHR 0x27), ch (CHR ''%'')])))
        else xmlStrdup mem p })"

definition xmlPathToURI :: "allocator \<Rightarrow> xmlString \<Rightarrow> xmlString option" where
  "xmlPathToURI mem p = xmlCanonicPath mem p"

end
