(* ===== verification/UriText.thy ===== *)
theory UriText
  imports UriGrammar UriSave
begin

text \<open>
  The text of a structure: \<open>xmlSaveUri\<close> writes it within its buffer, escaping and unescaping are inverse, and a
  canonical reference is parsed and saved unchanged.
\<close>

section \<open>The text of a structure\<close>

definition escape_byte :: "(byte \<Rightarrow> bool) \<Rightarrow> byte \<Rightarrow> bytes" where
  "escape_byte P c = (if P c then [c] else [pct_sign, hex_upper (c div 0x10), hex_upper (c mod 0x10)])"

definition escaped :: "(byte \<Rightarrow> bool) \<Rightarrow> bytes \<Rightarrow> bytes" where
  "escaped P v = concat (map (escape_byte P) v)"

abbreviation plain :: "byte \<Rightarrow> bool" where "plain \<equiv> \<lambda>_. True"

definition field_text :: "xmlString \<Rightarrow> (bytes \<Rightarrow> bytes) \<Rightarrow> bytes" where
  "field_text x f = (case x of NULL \<Rightarrow> [] | Ptr s \<Rightarrow> f (strval s))"

definition authority_out :: "xmlURI \<Rightarrow> bytes" where
  "authority_out uri =
     (if server uri \<noteq> NULL \<or> port uri \<noteq> PORT_EMPTY then
        slashes @ field_text (user uri) (\<lambda>v. escaped user_chars v @ asc ''@'') @ field_text (server uri) (\<lambda>v. v) @
        (if port uri > 0 then asc '':'' @ digits (nat (port uri)) else [])
      else field_text (authority uri) (\<lambda>v. slashes @ escaped authority_chars v))"

definition drive :: "xmlURI \<Rightarrow> bytes \<Rightarrow> bool" where
  "drive uri v \<longleftrightarrow> field_text (scheme uri) (\<lambda>s. s) = asc ''file'' \<and> first v = ch (CHR ''/'') \<and> ISA_ALPHA (first (tl v)) \<and> first (drop 2 v) = ch (CHR '':'')"

definition path_out :: "xmlURI \<Rightarrow> bytes" where
  "path_out uri = field_text (path uri) (\<lambda>v. if drive uri v then take 3 v @ escaped path_chars (drop 3 v) else escaped path_chars v)"

definition query_out :: "xmlURI \<Rightarrow> bytes" where
  "query_out uri = (if query_raw uri \<noteq> NULL then field_text (query_raw uri) (\<lambda>v. asc ''?'' @ v)
     else field_text (query uri) (\<lambda>v. asc ''?'' @ escaped uric_chars v))"

definition saved_text :: "xmlURI \<Rightarrow> bytes" where
  "saved_text uri =
     field_text (scheme uri) (\<lambda>v. v @ asc '':'') @
     (if opaque uri \<noteq> NULL then field_text (opaque uri) (escaped uric_chars)
      else authority_out uri @ path_out uri @ query_out uri) @
     field_text (fragment uri) (\<lambda>v. asc ''#'' @ escaped uric_chars v)"

text \<open>The strings of a structure are terminated.\<close>

definition terminated :: "xmlString \<Rightarrow> bool" where
  "terminated x \<longleftrightarrow> (case x of NULL \<Rightarrow> True | Ptr s \<Rightarrow> cstring s)"

definition proper :: "xmlURI \<Rightarrow> bool" where
  "proper uri \<longleftrightarrow> list_all terminated [scheme uri, opaque uri, authority uri, server uri, user uri, path uri, query uri, fragment uri, query_raw uri]"

section \<open>The buffer\<close>

definition sizes :: "nat list" where
  "sizes = [80, 120, 180, 270, 405, 608, 912, 1368, 2052, 3078, 4617, 6926, 10389, 15584, 23376, 35064, 52596, 78894, 118341,
     177512, 266268, 399402, 599103, 898655, 1048576]"

lemma sizes_grow:
  assumes "m \<in> set sizes"
  shows "m = 1048576 \<and> xmlGrowCapacity (int m) 1 80 MAX_URI_LENGTH = - 1 \<or>
    m < 1048576 \<and> xmlGrowCapacity (int m) 1 80 MAX_URI_LENGTH \<ge> int m + 40 \<and> nat (xmlGrowCapacity (int m) 1 80 MAX_URI_LENGTH) \<in> set sizes"
  using assms unfolding sizes_def by (simp add: xmlGrowCapacity_def Let_def) (elim disjE; simp)

definition saves :: "allocator \<Rightarrow> saver \<Rightarrow> bytes \<Rightarrow> bool" where
  "saves mem f v \<longleftrightarrow> (\<forall>ret mx. length ret \<le> mx \<and> mx \<in> set sizes \<longrightarrow>
     (\<exists>mx'. mx' \<in> set sizes \<and> length (ret @ v) \<le> mx' \<and> f (ret, mx) = Some (Ptr (ret @ v, mx'))) \<or>
     f (ret, mx) = Some NULL \<and> ((\<exists>n. \<not> mem n) \<or> length ret + length v + 11 \<ge> 1048576))"

lemma saves_no_op: "saves mem no_op []"
  by (simp add: saves_def no_op_def)

lemma saves_then:
  assumes "saves mem f v" "saves mem g w"
  shows "saves mem (and_then f g) (v @ w)"
  unfolding saves_def
proof (intro allI impI)
  fix ret :: bytes and mx assume b: "length ret \<le> mx \<and> mx \<in> set sizes"
  from assms(1) [unfolded saves_def, rule_format, OF b]
  show "(\<exists>mx'. mx' \<in> set sizes \<and> length (ret @ v @ w) \<le> mx' \<and> and_then f g (ret, mx) = Some (Ptr (ret @ v @ w, mx'))) \<or>
     and_then f g (ret, mx) = Some NULL \<and> ((\<exists>n. \<not> mem n) \<or> length ret + length (v @ w) + 11 \<ge> 1048576)"
  proof (elim disjE exE conjE)
    fix mx' assume m: "mx' \<in> set sizes" "length (ret @ v) \<le> mx'" and f: "f (ret, mx) = Some (Ptr (ret @ v, mx'))"
    from assms(2) [unfolded saves_def, rule_format, of "ret @ v" mx'] m show ?thesis by (auto simp: and_then_def f)
  qed (auto simp: and_then_def)
qed

lemma ensure_room:
  fixes ret :: bytes
  assumes "k \<le> 10" "length ret \<le> mx" "mx \<in> set sizes"
  shows "(\<exists>mx'. mx' \<in> set sizes \<and> length ret + k < mx' \<and> ensure mem k (ret, mx) = Some (Ptr (ret, mx'))) \<or>
     ensure mem k (ret, mx) = Some NULL \<and> ((\<exists>n. \<not> mem n) \<or> length ret + 11 \<ge> 1048576)"
proof (cases "length ret + k \<ge> mx")
  case True
  from sizes_grow [OF assms(3)] show ?thesis
  proof (elim disjE conjE)
    assume "mx = 1048576" "xmlGrowCapacity (int mx) 1 80 MAX_URI_LENGTH = - 1"
    then show ?thesis using True assms(1) by (simp add: ensure_def xmlSaveUriRealloc_def)
  next
    let ?n = "xmlGrowCapacity (int mx) 1 80 MAX_URI_LENGTH"
    assume n: "?n \<ge> int mx + 40" "nat ?n \<in> set sizes"
    then have "\<not> ?n < 0" "length ret + k < nat ?n" using assms(1,2) by linarith+
    then show ?thesis using True n by (cases "mem (nat ?n + 1)") (auto simp: ensure_def xmlSaveUriRealloc_def Let_def)
  qed
next
  case False
  then show ?thesis using assms by (simp add: ensure_def)
qed

lemma saves_ensure:
  assumes "k \<le> 10" "length v \<le> Suc k" "\<And>ret mx. length ret + k < mx \<Longrightarrow> g (ret, mx) = Some (Ptr (ret @ v, mx))"
  shows "saves mem (and_then (ensure mem k) g) v"
  unfolding saves_def
proof (intro allI impI)
  fix ret :: bytes and mx assume b: "length ret \<le> mx \<and> mx \<in> set sizes"
  from ensure_room [OF assms(1), of ret mx mem] b
  show "(\<exists>mx'. mx' \<in> set sizes \<and> length (ret @ v) \<le> mx' \<and> and_then (ensure mem k) g (ret, mx) = Some (Ptr (ret @ v, mx'))) \<or>
     and_then (ensure mem k) g (ret, mx) = Some NULL \<and> ((\<exists>n. \<not> mem n) \<or> length ret + length v + 11 \<ge> 1048576)"
    using assms(2,3) by (fastforce simp: and_then_def)
qed

lemma and_then_assoc: "and_then (and_then f g) h = and_then f (and_then g h)"
  by (rule ext) (auto simp: and_then_def split: ptr.splits bind_splits)

lemma saves_ensure_then:
  assumes "saves mem (and_then (ensure mem k) g) v" "saves mem h w"
  shows "saves mem (and_then (ensure mem k) (and_then g h)) (v @ w)"
  using saves_then [OF assms] by (simp add: and_then_assoc)

lemma put_ok [simp]: "length ret \<le> mx \<Longrightarrow> put c (ret, mx) = Some (Ptr (ret @ [c], mx))"
  by (simp add: put_def)

lemma saves_put: "k \<le> 10 \<Longrightarrow> saves mem (and_then (ensure mem k) (put c)) [c]"
  by (rule saves_ensure) simp_all

lemma saves_put2: "1 \<le> k \<Longrightarrow> k \<le> 10 \<Longrightarrow> saves mem (and_then (ensure mem k) (and_then (put c) (put d))) [c, d]"
  by (rule saves_ensure) (simp_all add: and_then_def)

lemma saves_put3: "2 \<le> k \<Longrightarrow> k \<le> 10 \<Longrightarrow> saves mem (and_then (ensure mem k) (and_then (put c) (and_then (put d) (put e)))) [c, d, e]"
  by (rule saves_ensure) (simp_all add: and_then_def)

lemma saves_byte:
  assumes "k \<le> 10" "P c \<or> 2 \<le> k"
  shows "saves mem (and_then (ensure mem k) (if P c then put c else put_escaped c)) (escape_byte P c)"
proof (cases "P c")
  case True
  then show ?thesis using assms(1) saves_put by (simp add: escape_byte_def)
next
  case False
  then have "2 \<le> k" using assms(2) by simp
  from saves_put3 [OF this assms(1)] False show ?thesis by (simp add: escape_byte_def put_escaped_def)
qed

lemma saves_chars:
  assumes "0 \<notin> set v" "k \<le> 10" "(\<forall>c. P c) \<or> 2 \<le> k"
  shows "saves mem (save_chars mem k P (v @ 0 # r)) (escaped P v)"
  using assms(1)
proof (induction v)
  case Nil
  then show ?case by (simp add: saves_def escaped_def)
next
  case (Cons c v)
  have "saves mem (and_then (ensure mem k) (if P c then put c else put_escaped c)) (escape_byte P c)"
    using assms(2,3) by (intro saves_byte) auto
  from saves_then [OF this Cons.IH] Cons.prems show ?case by (simp add: and_then_assoc escaped_def saves_def)
qed

lemma saves_string:
  assumes "cstring s" "k \<le> 10" "(\<forall>c. P c) \<or> 2 \<le> k"
  shows "saves mem (save_chars mem k P s) (escaped P (strval s))"
proof -
  obtain r where "s = strval s @ 0 # r" using assms(1) cstring_split by blast
  then show ?thesis using saves_chars [OF strval_no_zero assms(2,3)] by metis
qed

lemma escaped_plain [simp]: "escaped plain v = v"
  by (induction v) (simp_all add: escaped_def escape_byte_def)

lemma saves_optional:
  assumes "terminated x" "\<And>s. x = Ptr s \<Longrightarrow> cstring s \<Longrightarrow> saves mem (g s) (f (strval s))"
  shows "saves mem (optional x g) (field_text x f)"
  using assms saves_no_op by (cases x) (simp_all add: optional_def field_text_def terminated_def)

lemma saves_assoc2: "saves mem (and_then f (and_then g h)) v \<Longrightarrow> saves mem (and_then (and_then f g) h) v"
  by (simp add: and_then_assoc)

lemma length_digits: "n < 10 ^ Suc k \<Longrightarrow> length (digits n) \<le> Suc k"
proof (induction k arbitrary: n)
  case 0
  then show ?case by (subst digits.simps) simp
next
  case (Suc k)
  then have "n div 10 < 10 ^ Suc k" by auto
  then have "length (digits (n div 10)) \<le> Suc k" by (rule Suc.IH)
  then show ?case by (subst digits.simps) simp
qed

lemma saves_port:
  assumes "0 < n" "n \<le> 999999999"
  shows "saves mem (and_then (ensure mem 10) (save_port (nat n))) (asc '':'' @ digits (nat n))"
proof -
  have "nat n < 10 ^ Suc 8" using assms by simp
  then have l: "length (digits (nat n)) \<le> 9" using length_digits [of "nat n" 8] by simp
  show ?thesis
  proof (rule saves_ensure)
    fix ret :: bytes and mx assume "length ret + 10 < mx"
    then have "Suc (length (digits (nat n))) < mx - length ret" using l by linarith
    then show "save_port (nat n) (ret, mx) = Some (Ptr (ret @ asc '':'' @ digits (nat n), mx))" by (simp add: save_port_def Let_def)
  qed (use l in simp_all)
qed

lemma saves_scheme: "cstring s \<Longrightarrow> saves mem (save_scheme mem s) (strval s @ asc '':'')"
  unfolding save_scheme_def using saves_then [OF saves_string [of s 0 plain mem] saves_put [of 0 mem "ch (CHR '':'')"]] by simp

lemma saves_user: "cstring s \<Longrightarrow> saves mem (and_then (save_chars mem 3 user_chars s) (and_then (ensure mem 3) (put (ch (CHR ''@'')))))
    (escaped user_chars (strval s) @ asc ''@'')"
  using saves_then [OF saves_string [of s 3 user_chars mem] saves_put [of 3 mem "ch (CHR ''@'')"]] by simp

lemma saves_slashes:
  assumes "saves mem g v"
  shows "saves mem (and_then (ensure mem 3) (and_then (put (ch (CHR ''/''))) (and_then (put (ch (CHR ''/''))) g))) (slashes @ v)"
  using saves_ensure_then [OF saves_put2 [of 3 mem "ch (CHR ''/'')" "ch (CHR ''/'')"] assms] by (simp add: and_then_assoc)

lemma saves_authority:
  assumes "proper uri" "port uri \<le> 999999999"
  shows "saves mem (save_authority mem uri) (authority_out uri)"
proof (cases "server uri \<noteq> NULL \<or> port uri \<noteq> PORT_EMPTY")
  case True
  have t: "terminated (user uri)" "terminated (server uri)" using assms(1) by (simp_all add: proper_def)
  have p: "saves mem (if port uri > 0 then and_then (ensure mem 10) (save_port (nat (port uri))) else no_op)
      (if port uri > 0 then asc '':'' @ digits (nat (port uri)) else [])"
    using saves_port [of "port uri" mem] saves_no_op assms(2) by simp
  have s: "saves mem (optional (server uri) (save_chars mem 0 plain)) (field_text (server uri) (\<lambda>v. v))"
    using t(2) saves_string [of _ 0 plain mem] by (intro saves_optional) simp_all
  have u: "saves mem (optional (user uri) (\<lambda>s. and_then (save_chars mem 3 user_chars s) (and_then (ensure mem 3) (put (ch (CHR ''@''))))))
      (field_text (user uri) (\<lambda>v. escaped user_chars v @ asc ''@''))"
    by (rule saves_optional [OF t(1)]) (rule saves_user)
  from saves_slashes [OF saves_then [OF u saves_then [OF s p]]] show ?thesis
    unfolding save_authority_def authority_out_def if_P [OF True] .
next
  case False
  show ?thesis
  proof (cases "authority uri")
    case NULL
    have "saves mem (and_then (ensure mem 3) no_op) []" by (rule saves_ensure) (simp_all add: no_op_def)
    moreover have "and_then f no_op = f" for f by (rule ext) (auto simp: and_then_def no_op_def split: bind_splits ptr.splits)
    ultimately have "saves mem (ensure mem 3) []" by simp
    then show ?thesis using NULL False saves_no_op by (simp add: save_authority_def authority_out_def field_text_def)
  next
    case (Ptr s)
    have "cstring s" using assms(1) Ptr by (simp add: proper_def terminated_def)
    from saves_slashes [OF saves_string [OF this, of 3 authority_chars mem]] show ?thesis
      using False Ptr by (simp add: save_authority_def authority_out_def field_text_def)
  qed
qed

lemma drive_path_ok:
  assumes "terminated (scheme uri)" "cstring p"
  shows "drive_path uri p = Some (drive uri (strval p))"
proof -
  obtain r where p: "p = strval p @ 0 # r" using assms(2) cstring_split by blast
  let ?v = "strval p"
  have r0: "rd p 0 = Some (first ?v)" by (subst p) simp
  show ?thesis
  proof (cases "scheme uri = NULL \<or> first ?v \<noteq> ch (CHR ''/'')")
    case True
    then show ?thesis using r0 by (auto simp: drive_path_def drive_def field_text_def)
  next
    case False
    then obtain v1 where v1: "?v = ch (CHR ''/'') # v1" using first_eq [of "ch (CHR ''/'')" ?v] by auto
    have r1: "rd p 1 = Some (first v1)" by (subst p, subst v1) simp
    show ?thesis
    proof (cases "ISA_ALPHA (first v1)")
      case no: False
      then show ?thesis using r0 r1 False v1 by (simp add: drive_path_def drive_def)
    next
      case True
      then obtain c v2 where v2: "v1 = c # v2" by (cases v1) auto
      have r2: "rd p 2 = Some (first v2)" by (subst p, subst v1, subst v2) (simp add: numeral_2_eq_2)
      obtain s where s: "scheme uri = Ptr s" "cstring s" using False assms(1) by (cases "scheme uri") (auto simp: terminated_def)
      have "xmlStrEqual False (Ptr s) (Ptr (cstr_of (asc ''file''))) = Some (strval s = asc ''file'')"
        using s(2) by (simp add: xmlStrEqual_def strequal_loop_cstring)
      then show ?thesis using r0 r1 r2 False v1 v2 s True by (simp add: drive_path_def drive_def field_text_def numeral_2_eq_2)
    qed
  qed
qed

lemma saves_path:
  assumes "terminated (scheme uri)" "cstring p"
  shows "saves mem (save_path mem uri p) (if drive uri (strval p) then take 3 (strval p) @ escaped path_chars (drop 3 (strval p)) else escaped path_chars (strval p))"
proof (cases "drive uri (strval p)")
  case False
  then show ?thesis using saves_string [OF assms(2), of 3 path_chars mem] drive_path_ok [OF assms] by (simp add: save_path_def saves_def)
next
  case True
  obtain r where p: "p = strval p @ 0 # r" using assms(2) cstring_split by blast
  obtain c d e v where v: "strval p = c # d # e # v"
    using True by (cases "strval p"; cases "tl (strval p)"; cases "tl (tl (strval p))") (auto simp: drive_def)
  have r: "rd p 0 = Some c" "rd p 1 = Some d" "rd p 2 = Some e" by (subst p, subst v, simp add: numeral_2_eq_2)+
  have l: "3 \<le> length (strval p)" using v by simp
  have "cstring (drop 3 p)" "strval (drop 3 p) = v" using cstring_drop [OF assms(2) l] strval_drop [OF assms(2) l] v by simp_all
  from saves_ensure_then [OF saves_put3 [of 3 mem c d e] saves_string [OF this(1), of 3 path_chars mem]] this(2)
  have "saves mem (and_then (ensure mem 3) (and_then (put c) (and_then (put d) (and_then (put e) (save_chars mem 3 path_chars (drop 3 p))))))
      ([c, d, e] @ escaped path_chars v)" by (simp add: and_then_assoc)
  then show ?thesis using True drive_path_ok [OF assms] r v by (simp add: save_path_def saves_def)
qed

lemma saves_query:
  assumes "proper uri"
  shows "saves mem (save_query mem uri) (query_out uri)"
proof (cases "query_raw uri")
  case NULL
  have t: "terminated (query uri)" using assms by (simp add: proper_def)
  have "saves mem (and_then (ensure mem 3) (and_then (put (ch (CHR ''?''))) (save_chars mem 3 uric_chars s))) (asc ''?'' @ escaped uric_chars (strval s))"
    if "cstring s" for s
    using saves_ensure_then [OF saves_put saves_string [OF that, of 3 uric_chars mem], of 3 "ch (CHR ''?'')"] by simp
  then show ?thesis using NULL t saves_optional by (simp add: save_query_def query_out_def)
next
  case (Ptr s)
  then have "cstring s" using assms by (simp add: proper_def terminated_def)
  from saves_ensure_then [OF saves_put saves_string [OF this, of 1 plain mem], of 1 "ch (CHR ''?'')"] show ?thesis
    using Ptr by (simp add: save_query_def query_out_def field_text_def)
qed

lemma saves_fragment: "cstring s \<Longrightarrow> saves mem (save_fragment mem s) (asc ''#'' @ escaped uric_chars (strval s))"
  unfolding save_fragment_def
  using saves_ensure_then [OF saves_put saves_string [of s 3 uric_chars mem], of 3 "ch (CHR ''#'')"] by simp

lemma saves_end: "saves mem (and_then (ensure mem 0) (put 0)) [0]"
  by (rule saves_put) simp

lemma saves_parts:
  assumes "proper uri" "port uri \<le> 999999999"
  shows "saves mem (save_parts mem uri) (saved_text uri @ [0])"
proof -
  have t: "terminated (scheme uri)" "terminated (path uri)" "terminated (fragment uri)" using assms(1) by (simp_all add: proper_def)
  have sc: "saves mem (optional (scheme uri) (save_scheme mem)) (field_text (scheme uri) (\<lambda>v. v @ asc '':''))"
    by (rule saves_optional [OF t(1)]) (rule saves_scheme)
  have fr: "saves mem (optional (fragment uri) (save_fragment mem)) (field_text (fragment uri) (\<lambda>v. asc ''#'' @ escaped uric_chars v))"
    by (rule saves_optional [OF t(3)]) (rule saves_fragment)
  have pa: "saves mem (optional (path uri) (save_path mem uri)) (path_out uri)"
    unfolding path_out_def by (rule saves_optional [OF t(2)]) (rule saves_path [OF t(1)])
  have mid: "saves mem (case opaque uri of Ptr s \<Rightarrow> save_chars mem 3 uric_chars s
      | NULL \<Rightarrow> and_then (save_authority mem uri) (and_then (optional (path uri) (save_path mem uri)) (save_query mem uri)))
     (if opaque uri \<noteq> NULL then field_text (opaque uri) (escaped uric_chars) else authority_out uri @ path_out uri @ query_out uri)"
  proof (cases "opaque uri")
    case NULL
    from saves_then [OF saves_authority [OF assms] saves_then [OF pa saves_query [OF assms(1)]]] NULL show ?thesis by simp
  next
    case (Ptr s)
    then have "cstring s" using assms(1) by (simp add: proper_def terminated_def)
    from saves_string [OF this, of 3 uric_chars mem] Ptr show ?thesis by (simp add: field_text_def)
  qed
  from saves_then [OF sc saves_then [OF mid saves_then [OF fr saves_end]]] show ?thesis
    unfolding save_parts_def saved_text_def by (simp only: append_assoc)
qed

lemma xmlSaveUri_text:
  assumes "proper uri" "port uri \<le> 999999999"
  shows "xmlSaveUri mem (Ptr uri) = Some (Ptr (cstr_of (saved_text uri))) \<or>
    xmlSaveUri mem (Ptr uri) = Some NULL \<and> ((\<exists>n. \<not> mem n) \<or> int (length (saved_text uri)) + 12 \<ge> MAX_URI_LENGTH)"
proof -
  have b: "length ([] :: bytes) \<le> 80 \<and> 80 \<in> set sizes" by (simp add: sizes_def)
  from saves_parts [OF assms, of mem, unfolded saves_def, rule_format, OF b] show ?thesis
    by (cases "mem 81") (auto simp: xmlSaveUri_def cstr_of_def)
qed

text \<open>
  C12.  Saving a structure whose strings are terminated and whose port has at most nine digits stays within the buffer
  and gives the text of its components, those bytes escaped that may not stand there; NULL only when an allocation
  fails or when the text comes close to the limit of \<open>MAX_URI_LENGTH\<close>.
\<close>

theorem xmlSaveUri_correct:
  assumes "proper uri" "port uri \<le> 999999999"
  shows "xmlSaveUri mem (Ptr uri) = Some (Ptr (cstr_of (saved_text uri))) \<or>
    xmlSaveUri mem (Ptr uri) = Some NULL \<and> ((\<exists>n. \<not> mem n) \<or> int (length (saved_text uri)) + 12 \<ge> MAX_URI_LENGTH)"
  using assms by (rule xmlSaveUri_text)

lemma xmlSaveUri_correct_witness:
  "let uri = empty_uri\<lparr>scheme := Ptr (cstr_of (asc ''a'')), server := Ptr (cstr_of (asc ''b'')), path := Ptr (cstr_of (asc ''/c d''))\<rparr> in
    saved_text uri = asc ''a://b/c%20d'' \<and> xmlSaveUri (\<lambda>n. True) (Ptr uri) = Some (Ptr (cstr_of (asc ''a://b/c%20d'')))"
proof -
  let ?uri = "empty_uri\<lparr>scheme := Ptr (cstr_of (asc ''a'')), server := Ptr (cstr_of (asc ''b'')), path := Ptr (cstr_of (asc ''/c d''))\<rparr>"
  have t: "saved_text ?uri = asc ''a://b/c%20d''"
    by (simp add: saved_text_def authority_out_def path_out_def query_out_def drive_def field_text_def empty_uri_def escaped_def escape_byte_def
        path_chars_def IS_UNRESERVED_def IS_ALPHANUM_def IS_ALPHA_def IS_LOWALPHA_def IS_UPALPHA_def IS_DIGIT_def IS_MARK_def hex_upper_def)
  have p: "proper ?uri" "port ?uri \<le> 999999999" by (simp_all add: proper_def terminated_def empty_uri_def)
  from xmlSaveUri_correct [OF p, of "\<lambda>n. True"] t show ?thesis unfolding Let_def t by simp
qed

section \<open>Escaping and unescaping\<close>

lemma hex_upper_ok:
  fixes x :: byte
  assumes "x < 16"
  shows "ISA_HEXDIG (hex_upper x) \<and> hex_digit (hex_upper x) = x"
proof -
  have "unat x < 16" using assms by (simp add: word_less_nat_alt)
  then have "unat x \<in> set [0..<16]" by simp
  moreover have "x = word_of_nat (unat x)" by simp
  ultimately have "x \<in> set (map word_of_nat [0..<16])" unfolding set_map by (rule rev_image_eqI)
  then have "x \<in> {0, 1, 2, 3, 4, 5, 6, 7, 8, 9, 10, 11, 12, 13, 14, 15}" by (simp add: upt_rec)
  then show ?thesis by (elim insertE emptyE; simp add: hex_upper_def hex_digit_def ISA_HEXDIG_def ISA_DIGIT_def)
qed

lemma halves: "(c :: byte) div 16 < 16" "c mod 16 < 16" "c div 16 * 16 + c mod 16 = c"
proof -
  have "unat (c div 16) < 16" using unsigned_less [of c, where ?'a = nat] by (simp add: unat_div)
  then show "c div 16 < 16" by (simp add: word_less_nat_alt)
  show "c mod 16 < 16" by (simp add: word_less_nat_alt unat_mod)
  show "c div 16 * 16 + c mod 16 = c" by (rule div_mult_mod_eq)
qed

lemma escaped_Nil [simp]: "escaped P [] = []"
  by (simp add: escaped_def)

lemma escaped_Cons: "escaped P (c # v) = escape_byte P c @ escaped P v"
  by (simp add: escaped_def)

lemma unescape_escaped:
  assumes "\<not> P pct_sign"
  shows "unescape (escaped P v) = v"
proof (induction v)
  case (Cons c v)
  show ?case
  proof (cases "P c")
    case True
    then have "\<not> pct (c # escaped P v)" using assms by auto
    then show ?thesis using True Cons by (simp add: escaped_Cons escape_byte_def unescape_other del: pct_simps)
  next
    case False
    then show ?thesis using Cons hex_upper_ok halves [of c] by (simp add: escaped_Cons escape_byte_def unescape_pct)
  qed
qed simp

lemma encoded_escaped:
  assumes "\<not> Q pct_sign" "\<not> P pct_sign" "\<And>c. P c \<Longrightarrow> Q c"
  shows "encoded Q (escaped P v)"
proof (induction v)
  case (Cons c v)
  show ?case
  proof (cases "P c")
    case True
    then have "c \<noteq> pct_sign" using assms(2) by auto
    then show ?thesis using True Cons assms(1,3) by (simp add: escaped_Cons escape_byte_def encoded_Cons)
  next
    case False
    then show ?thesis using Cons assms(1) hex_upper_ok halves [of c] by (simp add: escaped_Cons escape_byte_def encoded_Cons)
  qed
qed simp

lemma unescape_same: "pct_sign \<notin> set v \<Longrightarrow> unescape v = v"
  by (induction v) (auto simp: unescape_other)

section \<open>Parsing and saving\<close>

text \<open>The component is written the way \<open>xmlSaveUri\<close> writes it.\<close>

definition shown :: "(byte \<Rightarrow> bool) \<Rightarrow> bytes \<Rightarrow> bool" where
  "shown P x \<longleftrightarrow> 0 \<notin> set (unescape x) \<and> escaped P (unescape x) = x"

definition canonical :: "parts \<Rightarrow> bool" where
  "canonical p \<longleftrightarrow>
     (case the_authority p of
        None \<Rightarrow> True
      | Some (u, h, n) \<Rightarrow>
          pred_option (\<lambda>u. u \<noteq> [] \<and> shown user_chars u) u \<and> pct_sign \<notin> set h \<and>
          pred_option (\<lambda>ds. ds = digits (nat (decimal 0 ds)) \<and> 0 < decimal 0 ds \<and> decimal 0 ds \<le> 999999999) n \<and>
          (h \<noteq> [] \<or> n \<noteq> None \<or> the_scheme p \<noteq> None)) \<and>
     shown path_chars (the_path p) \<and>
     (the_scheme p = Some (asc ''file'') \<longrightarrow> ch (CHR '':'') \<notin> set (unescape (the_path p))) \<and>
     pred_option (\<lambda>f. f \<noteq> [] \<and> shown uric_chars f) (the_fragment p)"

lemma not_raw [simp]: "\<not> raw empty_uri"
  by (simp add: raw_def empty_uri_def)

lemma stored_shown: "cleanup uri = 0 \<Longrightarrow> x \<noteq> [] \<Longrightarrow> stored uri x r = Ptr (cstr_of (unescape x))"
  by (simp add: stored_def raw_def)

lemma shown_simps: "shown P x \<Longrightarrow> strval (cstr_of (unescape x)) = unescape x" "shown P x \<Longrightarrow> escaped P (unescape x) = x"
    "shown P x \<Longrightarrow> escaped P (strval (cstr_of (unescape x))) = x"
  by (simp_all add: shown_def)

lemma field_text_simps [simp]: "field_text NULL f = []" "field_text (Ptr s) f = f (strval s)"
  by (simp_all add: field_text_def)

lemma proper_fields: "proper (fields uri p)"
proof -
  have t: "terminated NULL" "terminated (stored u a r)" "terminated (opt_text x)" for u a r x
    by (simp_all add: terminated_def stored_def opt_text_def split: option.split)
  have "terminated (user (with_authority uri p))" "terminated (server (with_authority uri p))"
    by (cases "the_authority p"; auto simp: no_authority_sel authority_sel t split: option.split)+
  then show ?thesis by (simp add: proper_def fields_sel t split: option.split)
qed

lemma no_drive: "ch (CHR '':'') \<notin> set v \<Longrightarrow> first (drop 2 v) \<noteq> ch (CHR '':'')"
  using first_in [of "drop 2 v"] in_set_dropD [of _ 2 v] by (cases "drop 2 v = []") auto

lemma shown_nonempty: "shown P x \<Longrightarrow> (unescape x = [] \<longleftrightarrow> x = [])"
  by (auto simp: shown_def)

lemma saved_authority:
  assumes "canonical p" "0 \<notin> set (recompose p)"
  shows "authority_out (fields empty_uri p) = (case the_authority p of None \<Rightarrow> [] | Some a \<Rightarrow> slashes @ authority_text a)"
proof (cases "the_authority p")
  case None
  then show ?thesis by (simp add: authority_out_def fields_sel no_authority_sel empty_uri_def)
next
  case (Some a)
  obtain u h n where a: "a = (u, h, n)" by (cases a) auto
  note au = Some [unfolded a]
  have c: "pred_option (\<lambda>u. u \<noteq> [] \<and> shown user_chars u) u" "pct_sign \<notin> set h"
      "pred_option (\<lambda>ds. ds = digits (nat (decimal 0 ds)) \<and> 0 < decimal 0 ds \<and> decimal 0 ds \<le> 999999999) n"
      "h \<noteq> [] \<or> n \<noteq> None \<or> the_scheme p \<noteq> None"
    using assms(1) au by (simp_all add: canonical_def)
  have hz: "0 \<notin> set h" using assms(2) au by (auto simp: recompose_def hier_text_def authority_text_def)
  let ?F = "fields empty_uri p"
  have us: "field_text (user ?F) (\<lambda>v. escaped user_chars v @ asc ''@'') = behind (ch (CHR ''@'')) u"
    using c(1) by (cases u) (simp_all add: fields_sel authority_sel [OF au] behind_def stored_empty_uri shown_simps)
  have se: "field_text (server ?F) (\<lambda>v. v) = h"
    using c(2) hz by (simp add: fields_sel authority_sel [OF au] stored_empty_uri unescape_same)
  have po: "port ?F = (case n of None \<Rightarrow> if the_scheme p \<noteq> None \<and> h = [] then - 1 else 0 | Some ds \<Rightarrow> decimal 0 ds)"
    using c(3) by (auto simp: fields_sel authority_sel [OF au] empty_uri_def Let_def split: option.split)
  have pt: "(if port ?F > 0 then asc '':'' @ digits (nat (port ?F)) else []) = before (ch (CHR '':'')) n"
    unfolding po using c(3) by (cases n) (simp_all add: before_def)
  have k: "server ?F \<noteq> NULL \<or> port ?F \<noteq> PORT_EMPTY"
    unfolding po using c(3,4) by (cases n) (auto simp: fields_sel authority_sel [OF au] stored_empty_uri)
  have "authority_out ?F = slashes @ behind (ch (CHR ''@'')) u @ h @ before (ch (CHR '':'')) n"
    unfolding authority_out_def if_P [OF k] us se pt ..
  then show ?thesis using au by (simp add: authority_text_def)
qed

lemma saved_fields:
  assumes "canonical p" "0 \<notin> set (recompose p)"
  shows "saved_text (fields empty_uri p) = recompose p"
proof -
  let ?F = "fields empty_uri p"
  have z: "the_scheme p = Some s \<Longrightarrow> 0 \<notin> set s" "the_query p = Some q \<Longrightarrow> 0 \<notin> set q" for s q
    using assms(2) by (auto simp: recompose_def behind_def before_def tail_text_def)
  have sc: "field_text (scheme ?F) (\<lambda>v. v @ asc '':'') = behind (ch (CHR '':'')) (the_scheme p)"
    using z(1) by (cases "the_scheme p") (simp_all add: fields_sel opt_text_def behind_def)
  have qu: "query_out ?F = before (ch (CHR ''?'')) (the_query p)"
    using z(2) by (cases "the_query p") (simp_all add: query_out_def fields_sel opt_text_def before_def)
  have fr: "field_text (fragment ?F) (\<lambda>v. asc ''#'' @ escaped uric_chars v) = before (ch (CHR ''#'')) (the_fragment p)"
    using assms(1) by (cases "the_fragment p") (simp_all add: canonical_def fields_sel before_def stored_empty_uri shown_simps)
  have sh: "shown path_chars (the_path p)" using assms(1) by (simp add: canonical_def)
  have nd: "\<not> drive ?F (unescape (the_path p))"
  proof
    assume d: "drive ?F (unescape (the_path p))"
    then have "the_scheme p = Some (asc ''file'')"
      using z(1) by (cases "the_scheme p") (simp_all add: drive_def fields_sel opt_text_def)
    then have "ch (CHR '':'') \<notin> set (unescape (the_path p))" using assms(1) by (simp add: canonical_def)
    from no_drive [OF this] d show False by (simp add: drive_def)
  qed
  have pa: "path_out ?F = the_path p"
    using sh nd shown_simps [OF sh] by (simp add: path_out_def fields_sel stored_empty_uri)
  show ?thesis
    using sc qu fr pa saved_authority [OF assms]
    by (simp add: saved_text_def recompose_def tail_text_def hier_text_def fields_sel split: option.split)
qed

lemma canonical_port: "canonical p \<Longrightarrow> port (fields empty_uri p) \<le> 999999999"
  by (cases "the_authority p")
    (auto simp: canonical_def fields_sel no_authority_sel authority_sel empty_uri_def Let_def split: option.splits)

text \<open>
  C3.  A reference whose components are written canonically (escaped where \<open>xmlSaveUri\<close> escapes, with upper-case
  digits, no component empty, a host without escapes, a port of at most nine digits without leading zeros) is parsed and saved unchanged.
\<close>

theorem parse_save_roundtrip:
  assumes "valid_parts p" "canonical p" "0 \<notin> set (recompose p)" "int (length (recompose p)) + 12 < MAX_URI_LENGTH" "\<And>n. mem n"
  shows "do { (ret, uri) \<leftarrow> xmlParseURISafe mem True (Ptr (recompose p @ 0 # t)); xmlSaveUri mem uri } = Some (Ptr (cstr_of (recompose p)))"
proof -
  have sane: "sane (recompose p)" using assms(3,4) by simp
  have r: "xmlParse3986URIReference mem empty_uri (Ptr (recompose p @ 0 # t)) = Some (0, fields empty_uri p)"
    using URIReference_ok [OF sane strict_empty(1), of mem t] assms(5) reference_complete [OF assms(1), of empty_uri]
    by (simp add: settles_def)
  have "xmlSaveUri mem (Ptr (fields empty_uri p)) = Some (Ptr (cstr_of (recompose p)))"
    using xmlSaveUri_text [OF proper_fields canonical_port [OF assms(2)], of mem] assms(4,5) saved_fields [OF assms(2,3)] by simp
  then show ?thesis using r assms(5) by (simp add: xmlParseURISafe_def xmlCreateURI_def)
qed

lemma canonical_example: "canonical example_parts"
proof -
  have m: "user_chars (ch (CHR ''m''))" "user_chars (ch (CHR ''e''))" "path_chars (ch (CHR ''/''))" "path_chars (ch (CHR ''p''))"
     "\<not> path_chars 32" "path_chars (ch (CHR ''q''))" "ISA_HEXDIG 50" "ISA_HEXDIG 48"
    by (simp_all add: user_chars_def path_chars_def IS_UNRESERVED_def IS_ALPHANUM_def IS_ALPHA_def IS_LOWALPHA_def IS_UPALPHA_def
        IS_DIGIT_def IS_MARK_def ISA_HEXDIG_def ISA_DIGIT_def)
  have u: "unescape (asc ''/p%20q'') = asc ''/p q''" using m(7,8) by (simp add: unescape_other unescape_pct hex_digit_def)
  have "shown user_chars (asc ''me'')" using m(1,2) by (simp add: shown_def unescape_other escaped_Cons escape_byte_def)
  moreover have "shown path_chars (asc ''/p%20q'')" unfolding shown_def u using m by (simp add: escaped_Cons escape_byte_def hex_upper_def)
  moreover have "decimal 0 (asc ''80'') = 80" by (simp add: decimal_def)
  moreover have "digits 80 = asc ''80''" by (simp add: digits.simps)
  ultimately show ?thesis by (simp add: canonical_def example_parts_def)
qed

lemma parse_save_roundtrip_witness:
  "do { (ret, uri) \<leftarrow> xmlParseURISafe (\<lambda>n. True) True (Ptr (recompose example_parts @ 0 # [])); xmlSaveUri (\<lambda>n. True) uri } =
    Some (Ptr (cstr_of (asc ''http://me@a.org:80/p%20q?x=1'')))"
  using parse_save_roundtrip [OF valid_example canonical_example, of "\<lambda>n. True" "[]"] by (simp add: recompose_example)

section \<open>Escaping with an exception list\<close>

lemma strchr_loop_ok: "cstring s \<Longrightarrow> c \<noteq> 0 \<Longrightarrow> \<exists>p. strchr_loop s c = Some p \<and> (p \<noteq> NULL \<longleftrightarrow> c \<in> set (strval s))"
  by (induction s) auto

definition kept :: "xmlString \<Rightarrow> byte \<Rightarrow> bool" where
  "kept exc c \<longleftrightarrow> c = ch (CHR ''@'') \<or> IS_UNRESERVED c \<or> c \<in> set (field_text exc (\<lambda>v. v))"

lemma kept_ok:
  assumes "terminated exc" "c \<noteq> 0"
  shows "(if c \<noteq> ch (CHR ''@'') \<and> \<not> IS_UNRESERVED c then do { p \<leftarrow> xmlStrchr exc c; Some (p \<noteq> NULL) } else Some True) = Some (kept exc c)"
proof (cases exc)
  case NULL
  then show ?thesis by (simp add: xmlStrchr_def kept_def)
next
  case (Ptr s)
  then obtain p where "strchr_loop s c = Some p" "p \<noteq> NULL \<longleftrightarrow> c \<in> set (strval s)"
    using strchr_loop_ok [of s c] assms by (auto simp: terminated_def)
  then show ?thesis using Ptr by (simp add: xmlStrchr_def kept_def)
qed

lemma put_hex_ok: "put_hex (drop_bit 4 c) = hex_upper (c div 0x10)" "put_hex (c AND 0xF) = hex_upper (c mod 0x10)"
proof -
  have p: "put_hex x = hex_upper x" for x by (simp add: put_hex_def hex_upper_def linorder_not_less [symmetric])
  have "drop_bit 4 c = c div 16" by (simp add: drop_bit_eq_div)
  moreover have "c AND 0xF = c mod 16" using take_bit_eq_mask [of 4 c] take_bit_eq_mod [of 4 c] by (simp add: mask_eq_exp_minus_1)
  ultimately show "put_hex (drop_bit 4 c) = hex_upper (c div 0x10)" "put_hex (c AND 0xF) = hex_upper (c mod 0x10)" by (simp_all add: p)
qed

lemma escape_room_ok:
  assumes "n < len" "20 \<le> len" "n \<le> 999999980"
  shows "escape_room mem (n, len) = NULL \<and> (\<exists>n. \<not> mem n) \<or> (\<exists>len'. escape_room mem (n, len) = Ptr len' \<and> 20 \<le> len' \<and> n + 3 < len')"
proof (cases "len - n \<le> 3")
  case True
  let ?g = "xmlGrowCapacity (int len) 1 1 XML_MAX_ITEMS"
  have l: "len \<le> 999999983" using True assms(3) by linarith
  then have "?g = (if int len > XML_MAX_ITEMS - (int len + 1) div 2 then XML_MAX_ITEMS else int len + (int len + 1) div 2)"
    using assms(2) by (simp add: xmlGrowCapacity_def Let_def)
  moreover have "(int len + 1) div 2 \<ge> 10" using assms(2) by linarith
  ultimately have g: "?g \<ge> int len + 10" using l by (simp split: if_splits)
  then have "\<not> ?g < 0" "20 \<le> nat ?g" "n + 3 < nat ?g" using assms(1,2) by linarith+
  then show ?thesis using True by (cases "mem (nat ?g)") (auto simp: escape_room_def Let_def)
next
  case False
  then show ?thesis using assms by (simp add: escape_room_def)
qed

lemma length_escape_byte: "length (escape_byte P c) \<le> 3"
  by (simp add: escape_byte_def)

lemma escape_loop_ok:
  assumes "0 \<notin> set v" "length ret < len" "20 \<le> len" "length ret + 3 * length v \<le> 999999980" "terminated exc"
  shows "escape_loop mem exc (v @ 0 # t) ret len = Some (Ptr (cstr_of (ret @ escaped (kept exc) v))) \<or>
    escape_loop mem exc (v @ 0 # t) ret len = Some NULL \<and> (\<exists>n. \<not> mem n)"
  using assms(1,2,3,4)
proof (induction v arbitrary: ret len)
  case Nil
  then show ?case by (simp add: cstr_of_def)
next
  case (Cons c v)
  have c: "c \<noteq> 0" using Cons.prems(1) by auto
  let ?new = "escape_byte (kept exc) c"
  have new: "(if kept exc c then [c] else [ch (CHR ''%''), put_hex (drop_bit 4 c), put_hex (c AND 0xF)]) = ?new"
    by (simp add: escape_byte_def put_hex_ok)
  have n: "length ret \<le> 999999980" using Cons.prems(4) by simp
  from escape_room_ok [OF Cons.prems(2,3) n, of mem] show ?case
  proof (elim disjE exE conjE)
    fix k assume "escape_room mem (length ret, len) = NULL" "\<not> mem k"
    then show ?thesis using c by auto
  next
    fix len' assume r: "escape_room mem (length ret, len) = Ptr len'" "20 \<le> len'" "length ret + 3 < len'"
    have l: "length (ret @ ?new) < len'" "length (ret @ ?new) + 3 * length v \<le> 999999980"
      using length_escape_byte [of "kept exc" c] r(3) Cons.prems(4) by simp_all
    have "escape_loop mem exc ((c # v) @ 0 # t) ret len = escape_loop mem exc (v @ 0 # t) (ret @ ?new) len'"
      using c r(1) l(1) kept_ok [OF assms(5) c] new by (simp add: Let_def)
    then show ?thesis using Cons.IH [of "ret @ ?new" len'] l r(2) Cons.prems(1) by (simp add: escaped_Cons)
  qed
qed

lemma escape_str:
  assumes "cstring s" "3 * length (strval s) \<le> 999999980" "terminated exc"
  shows "xmlURIEscapeStr mem (Ptr s) exc = Some (Ptr (cstr_of (escaped (kept exc) (strval s)))) \<or>
    xmlURIEscapeStr mem (Ptr s) exc = Some NULL \<and> (\<exists>n. \<not> mem n)"
proof -
  obtain t where s: "s = strval s @ 0 # t" using assms(1) cstring_split by blast
  have r: "rd s 0 = Some (first (strval s))" using rd_first [of "strval s" t] s by metis
  show ?thesis
  proof (cases "strval s = []")
    case True
    then show ?thesis using r xmlStrdup_cstring [OF assms(1), of mem] assms(2)
      by (cases "mem (Suc 0)") (auto simp: xmlURIEscapeStr_def)
  next
    case False
    then have f: "first (strval s) \<noteq> 0" using first_in strval_nz by blast
    have n: "xmlStrlen (Ptr s) = Some (int (length (strval s)))" using assms(1,2) by (simp add: xmlStrlen_cstring)
    have "escape_loop mem exc (strval s @ 0 # t) [] (length (strval s) + 20) = Some (Ptr (cstr_of ([] @ escaped (kept exc) (strval s)))) \<or>
      escape_loop mem exc (strval s @ 0 # t) [] (length (strval s) + 20) = Some NULL \<and> (\<exists>n. \<not> mem n)"
      using assms(2,3) strval_no_zero by (intro escape_loop_ok) simp_all
    moreover have "nat (int (length (strval s)) + 20) = length (strval s) + 20" by simp
    ultimately show ?thesis using r f n assms(2) s by (cases "mem (length (strval s) + 20)") (auto simp: xmlURIEscapeStr_def Let_def)
  qed
qed

lemma length_escaped: "length (escaped P v) \<le> 3 * length v"
proof (induction v)
  case (Cons c v)
  then show ?case using length_escape_byte [of P c] by (simp add: escaped_Cons)
qed simp

lemma escaped_nz: "0 \<notin> set v \<Longrightarrow> 0 \<notin> set (escaped P v)"
proof (induction v)
  case (Cons c v)
  have "hex_upper (c div 16) \<noteq> 0" "hex_upper (c mod 16) \<noteq> 0" using hex_upper_ok halves [of c] by (metis hex_nz(1))+
  then show ?case using Cons by (auto simp: escaped_Cons escape_byte_def)
qed simp

text \<open>
  C13.  Unescaping what \<open>xmlURIEscapeStr\<close> returns gives the string back, whatever its bytes, when the exception list does
  not hold the percent sign.
\<close>

theorem escape_unescape_roundtrip:
  assumes "cstring s" "3 * length (strval s) \<le> 999999980" "terminated exc" "\<not> kept exc pct_sign" "\<And>n. mem n"
  shows "do { e \<leftarrow> xmlURIEscapeStr mem (Ptr s) exc; xmlURIUnescapeString mem e 0 NULL } = Some (Ptr (cstr_of (strval s)))"
proof -
  let ?e = "escaped (kept exc) (strval s)"
  have e: "xmlURIEscapeStr mem (Ptr s) exc = Some (Ptr (cstr_of ?e))" using escape_str [OF assms(1,2,3), of mem] assms(5) by blast
  note u = unescape_escaped [where P = "kept exc" and v = "strval s", OF assms(4)]
  have z: "0 \<notin> set ?e" by (rule escaped_nz [OF strval_no_zero])
  have l: "length ?e \<le> INT_MAX_nat" using length_escaped [of "kept exc" "strval s"] assms(2) by simp
  have "unescape_loop (length ?e) (cstr_of ?e) = Some (strval s)"
    using unescape_loop_ok [of "length ?e" "cstr_of ?e"] u by (simp add: cstr_of_def)
  moreover have "length (strval s) \<le> length ?e"
    using length_unescape [of ?e] u by simp
  ultimately show ?thesis using z l assms(5) by (simp add: e xmlURIUnescapeString_def strlen_cstring cstr_of_def [of "strval s"])
qed

lemma escape_unescape_roundtrip_witness:
  "do { e \<leftarrow> xmlURIEscapeStr (\<lambda>n. True) (Ptr (cstr_of (asc ''a b%''))) NULL; xmlURIUnescapeString (\<lambda>n. True) e 0 NULL } =
    Some (Ptr (cstr_of (asc ''a b%'')))"
  using escape_unescape_roundtrip [of "cstr_of (asc ''a b%'')" NULL "\<lambda>n. True"]
  by (simp add: terminated_def kept_def IS_UNRESERVED_def IS_ALPHANUM_def IS_ALPHA_def IS_LOWALPHA_def IS_UPALPHA_def IS_DIGIT_def IS_MARK_def)

end
