(* ===== verification/UriResolve.thy ===== *)
theory UriResolve
  imports UriSave
begin

text \<open>
  \<open>uri.c\<close>: in-place normalization of paths, resolution of references and relative references.
\<close>

section \<open>Normalizing paths\<close>

definition xmlIsPathSeparator :: "byte \<Rightarrow> bool \<Rightarrow> bool" where
  "xmlIsPathSeparator c isFile \<longleftrightarrow> c = ch (CHR ''/'')"

text \<open>The loops of \<open>xmlNormalizePath\<close>; \<open>cur\<close> and \<open>out\<close> are offsets in the block \<open>p\<close>.\<close>

function skip_separators :: "bytes \<Rightarrow> bool \<Rightarrow> nat \<Rightarrow> nat option" where
  "skip_separators p isFile cur = do {
     c \<leftarrow> rd p cur;
     if xmlIsPathSeparator c isFile then skip_separators p isFile (cur + 1) else Some cur }"
  by pat_completeness auto
termination
  by (relation "measure (\<lambda>(p, _, cur). length p - cur)") (auto simp: rd_def split: if_splits)

declare skip_separators.simps [simp del]

fun remove_segment :: "bytes \<Rightarrow> bool \<Rightarrow> nat \<Rightarrow> nat option" where
  "remove_segment p isFile 0 = None"
| "remove_segment p isFile (Suc out) =
     (if out = 0 then Some 0
      else do { c \<leftarrow> rd p (out - 1); if xmlIsPathSeparator c isFile then Some out else remove_segment p isFile out })"

function copy_segment :: "bytes \<Rightarrow> bool \<Rightarrow> nat \<Rightarrow> nat \<Rightarrow> (bytes \<times> nat \<times> nat) option" where
  "copy_segment p isFile cur out = do {
     c \<leftarrow> rd p cur;
     if c \<noteq> 0 \<and> \<not> xmlIsPathSeparator c isFile then do {
       p' \<leftarrow> wr p out c;
       copy_segment p' isFile (cur + 1) (out + 1) }
     else Some (p, cur, out) }"
  by pat_completeness auto
termination
  by (relation "measure (\<lambda>(p, _, cur, _). length p - cur)") (auto simp: rd_def wr_def split: if_splits)

declare copy_segment.simps [simp del]

text \<open>What the dots at \<open>cur\<close> are: \<open>NoDots\<close> for any other segment.\<close>

datatype dots = NoDots | DotEnd | DotSlash | DotDot bool

definition read_dots :: "bytes \<Rightarrow> bool \<Rightarrow> nat \<Rightarrow> dots option" where
  "read_dots p isFile cur = do {
     c \<leftarrow> rd p cur;
     if c \<noteq> ch (CHR ''.'') then Some NoDots
     else do {
       c1 \<leftarrow> rd p (cur + 1);
       if c1 = 0 then Some DotEnd
       else if xmlIsPathSeparator c1 isFile then Some DotSlash
       else if c1 \<noteq> ch (CHR ''.'') then Some NoDots
       else do {
         c2 \<leftarrow> rd p (cur + 2);
         Some (if c2 = 0 then DotDot True else if xmlIsPathSeparator c2 isFile then DotDot False else NoDots) } } }"

text \<open>The end of an iteration: the segment and a separator are copied.  It returns \<open>p\<close>, \<open>cur\<close>, \<open>out\<close> and \<open>numSeg\<close>.\<close>

definition keep_segment :: "bytes \<Rightarrow> bool \<Rightarrow> nat \<Rightarrow> nat \<Rightarrow> int \<Rightarrow> (bytes \<times> nat \<times> nat \<times> int) option" where
  "keep_segment p isFile cur out numSeg = do {
     (p1, cur1, out1) \<leftarrow> copy_segment p isFile cur out;
     c \<leftarrow> rd p1 cur1;
     if c \<noteq> 0 then do {
       p2 \<leftarrow> wr p1 out1 (ch (CHR ''/''));
       Some (p2, cur1 + 1, out1 + 1, numSeg + 1) }
     else Some (p1, cur1, out1, numSeg + 1) }"

text \<open>
  \<open>while (*cur != 0)\<close>; the result is \<open>p\<close> and \<open>out\<close>.  \<open>numSeg\<close> counts segments in a C \<open>int\<close>: the model leaves it
  unbounded, which is the same for every path of less than 4 GB.
\<close>

partial_function (option) normalize_loop :: "bytes \<Rightarrow> bool \<Rightarrow> nat \<Rightarrow> nat \<Rightarrow> int \<Rightarrow> (bytes \<times> nat) option" where
  "normalize_loop p isFile cur0 out numSeg =
     Option.bind (rd p cur0) (\<lambda>c0.
     if c0 = 0 then Some (p, out)
     else
       Option.bind (skip_separators p isFile cur0) (\<lambda>cur.
       Option.bind (read_dots p isFile cur) (\<lambda>d.
       case d of
         DotEnd \<Rightarrow> Some (p, out)
       | DotSlash \<Rightarrow> normalize_loop p isFile (cur + 2) out numSeg
       | NoDots \<Rightarrow> Option.bind (keep_segment p isFile cur out numSeg) (\<lambda>(p', cur', out', n). normalize_loop p' isFile cur' out' n)
       | DotDot end_of_path \<Rightarrow>
           if numSeg > 0 then
             Option.bind (remove_segment p isFile out) (\<lambda>out'.
               if end_of_path then Some (p, out') else normalize_loop p isFile (cur + 3) out' (numSeg - 1))
           else
             Option.bind (rd p out) (\<lambda>o0.
               if o0 = ch (CHR ''/'') then
                 if end_of_path then Some (p, out) else normalize_loop p isFile (cur + 3) out numSeg
               else Option.bind (keep_segment p isFile cur out (numSeg - 1))
                      (\<lambda>(p', cur', out', n). normalize_loop p' isFile cur' out' n)))))"

declare normalize_loop.simps [code]

text \<open>The code and the new contents of the block.\<close>

definition xmlNormalizePath :: "xmlString \<Rightarrow> bool \<Rightarrow> (int \<times> xmlString) option" where
  "xmlNormalizePath pathp isFile =
     (case pathp of
        NULL \<Rightarrow> Some (- 1, NULL)
      | Ptr p \<Rightarrow> do {
          c \<leftarrow> rd p 0;
          if c = 0 then Some (0, Ptr p)
          else do {
            (p1, start) \<leftarrow> (if xmlIsPathSeparator c isFile then do { p' \<leftarrow> wr p 0 (ch (CHR ''/'')); Some (p', 1) } else Some (p, 0));
            (p2, out) \<leftarrow> normalize_loop p1 isFile start start 0;
            (p3, out3) \<leftarrow> (if isFile \<and> out = 0 then do { p' \<leftarrow> wr p2 out (ch (CHR ''.'')); Some (p', out + 1) } else Some (p2, out));
            p4 \<leftarrow> wr p3 out3 0;
            Some (0, Ptr p4) } })"

definition xmlNormalizeURIPath :: "xmlString \<Rightarrow> (int \<times> xmlString) option" where
  "xmlNormalizeURIPath p = xmlNormalizePath p False"

section \<open>Resolving\<close>

definition xmlIsAbsolutePath :: "bytes \<Rightarrow> bool option" where
  "xmlIsAbsolutePath p = do { c \<leftarrow> rd p 0; Some (xmlIsPathSeparator c True) }"

definition is_empty_str :: "xmlString \<Rightarrow> bool option" where
  "is_empty_str s = (case s of NULL \<Rightarrow> Some True | Ptr p \<Rightarrow> test (\<lambda>c. c = 0) p)"

text \<open>The length of \<open>base\<close> up to its last separator.\<close>

fun last_separator :: "bytes \<Rightarrow> nat \<Rightarrow> nat option" where
  "last_separator base 0 = Some 0"
| "last_separator base (Suc i) = do { c \<leftarrow> rd base i; if xmlIsPathSeparator c True then Some (Suc i) else last_separator base i }"

text \<open>\<open>base\<close> up to its last separator and \<open>ref\<close>, normalized; NULL when \<open>base\<close> has no separator, Ptr NULL when the allocation fails.\<close>

definition join_paths :: "allocator \<Rightarrow> bytes \<Rightarrow> bytes \<Rightarrow> xmlString ptr option" where
  "join_paths mem base ref = do {
     n \<leftarrow> xmlStrlen (Ptr base);
     i \<leftarrow> last_separator base (nat n);
     if i = 0 then Some NULL
     else do {
       refLen \<leftarrow> xmlStrlen (Ptr ref);
       if int i + refLen + 1 > INT_MAX then None
       else if \<not> mem (i + nat refLen + 1) then Some (Ptr NULL)
       else do {
         b \<leftarrow> copy_in i base;
         r \<leftarrow> copy_in (nat refLen + 1) ref;
         (_, result) \<leftarrow> xmlNormalizePath (Ptr (b @ r)) True;
         Some (Ptr result) } } }"

text \<open>The code and \<open>*out\<close>.\<close>

definition xmlResolvePath :: "allocator \<Rightarrow> xmlString \<Rightarrow> xmlString \<Rightarrow> (int \<times> xmlString) option" where
  "xmlResolvePath mem escRef base = do {
     e \<leftarrow> is_empty_str escRef;
     eb \<leftarrow> is_empty_str base;
     if e then
       if eb then Some (1, NULL)
       else do { ref \<leftarrow> xmlStrdup mem base; Some (if ref = NULL then (- 1, NULL) else (0, ref)) }
     else do {
       frag \<leftarrow> xmlStrchr escRef (ch (CHR ''#''));
       escRef1 \<leftarrow> (case (escRef, frag) of
          (Ptr s, Ptr f) \<Rightarrow> xmlStrndup mem escRef (ptr_diff f s)
        | _ \<Rightarrow> Some escRef);
       if escRef1 = NULL then Some (- 1, NULL)
       else do {
         ref \<leftarrow> xmlURIUnescapeString mem escRef1 (- 1) NULL;
         case ref of
           NULL \<Rightarrow> Some (- 1, NULL)
         | Ptr r \<Rightarrow> do {
             abs \<leftarrow> xmlIsAbsolutePath r;
             joined \<leftarrow> (case base of
                NULL \<Rightarrow> Some NULL
              | Ptr b \<Rightarrow> if eb \<or> abs then Some NULL else join_paths mem b r);
             if joined = Ptr NULL then Some (- 1, NULL)
             else
               let result = (case joined of NULL \<Rightarrow> ref | Ptr j \<Rightarrow> j)
               in if frag \<noteq> NULL then do {
                    result1 \<leftarrow> xmlStrcat mem result frag;
                    Some (if result1 = NULL then (- 1, NULL) else (0, result1)) }
                  else Some (0, result) } } } }"

text \<open>\<open>set s upd res\<close>: a field of \<open>res\<close> is set to a copy of \<open>s\<close> when \<open>s\<close> is not NULL; NULL when the copy fails.\<close>

definition set_field :: "allocator \<Rightarrow> xmlString \<Rightarrow> (xmlString \<Rightarrow> xmlURI \<Rightarrow> xmlURI) \<Rightarrow> xmlURI \<Rightarrow> xmlURI ptr option" where
  "set_field mem s upd res =
     (case s of
        NULL \<Rightarrow> Some (Ptr res)
      | Ptr _ \<Rightarrow> do { t \<leftarrow> xmlStrdup mem s; Some (if t = NULL then NULL else Ptr (upd t res)) })"

definition seq_fields :: "(xmlURI \<Rightarrow> xmlURI ptr option) \<Rightarrow> (xmlURI \<Rightarrow> xmlURI ptr option) \<Rightarrow> xmlURI \<Rightarrow> xmlURI ptr option" where
  "seq_fields f g res = do { r \<leftarrow> f res; case r of NULL \<Rightarrow> Some NULL | Ptr res' \<Rightarrow> g res' }"

abbreviation keep_res :: "xmlURI \<Rightarrow> xmlURI ptr option" where "keep_res res \<equiv> Some (Ptr res)"

definition set_scheme :: "allocator \<Rightarrow> xmlURI \<Rightarrow> xmlURI \<Rightarrow> xmlURI ptr option" where
  "set_scheme mem u = set_field mem (scheme u) (\<lambda>t r. r\<lparr>scheme := t\<rparr>)"

definition set_path :: "allocator \<Rightarrow> xmlURI \<Rightarrow> xmlURI \<Rightarrow> xmlURI ptr option" where
  "set_path mem u = set_field mem (path u) (\<lambda>t r. r\<lparr>path := t\<rparr>)"

definition set_fragment :: "allocator \<Rightarrow> xmlURI \<Rightarrow> xmlURI \<Rightarrow> xmlURI ptr option" where
  "set_fragment mem u = set_field mem (fragment u) (\<lambda>t r. r\<lparr>fragment := t\<rparr>)"

text \<open>The query of \<open>u\<close>, raw if there is one; \<open>f\<close> when there is none.\<close>

definition set_query :: "allocator \<Rightarrow> xmlURI \<Rightarrow> (xmlURI \<Rightarrow> xmlURI ptr option) \<Rightarrow> xmlURI \<Rightarrow> xmlURI ptr option" where
  "set_query mem u f =
     (if query_raw u \<noteq> NULL then set_field mem (query_raw u) (\<lambda>t r. r\<lparr>query_raw := t\<rparr>)
      else if query u \<noteq> NULL then set_field mem (query u) (\<lambda>t r. r\<lparr>query := t\<rparr>)
      else f)"

definition set_server :: "allocator \<Rightarrow> xmlURI \<Rightarrow> xmlURI \<Rightarrow> xmlURI ptr option" where
  "set_server mem u =
     seq_fields (set_field mem (server u) (\<lambda>t r. r\<lparr>server := t\<rparr>))
    (seq_fields (set_field mem (user u) (\<lambda>t r. r\<lparr>user := t\<rparr>)) (\<lambda>r. Some (Ptr (r\<lparr>port := port u\<rparr>))))"

definition set_authority :: "allocator \<Rightarrow> xmlURI \<Rightarrow> (xmlURI \<Rightarrow> xmlURI ptr option) \<Rightarrow> xmlURI \<Rightarrow> xmlURI ptr option" where
  "set_authority mem u f =
     (if authority u \<noteq> NULL then set_field mem (authority u) (\<lambda>t r. r\<lparr>authority := t\<rparr>) else f)"

definition has_authority :: "xmlURI \<Rightarrow> bool" where
  "has_authority u \<longleftrightarrow> authority u \<noteq> NULL \<or> server u \<noteq> NULL \<or> port u \<noteq> PORT_EMPTY"

text \<open>The base path up to its last slash.\<close>

fun base_dir :: "bytes \<Rightarrow> bytes \<Rightarrow> bytes \<Rightarrow> bytes option" where
  "base_dir [] pending dir = None"
| "base_dir (c # p) pending dir =
     (if c = 0 then Some dir
      else if c = ch (CHR ''/'') then base_dir p [] (dir @ pending @ [c])
      else base_dir p (pending @ [c]) dir)"

text \<open>Step 6: the merged path, normalized; NULL when the allocation fails.\<close>

definition merge_paths :: "allocator \<Rightarrow> xmlURI \<Rightarrow> xmlURI \<Rightarrow> xmlString option" where
  "merge_paths mem ref bas = do {
     lr \<leftarrow> (case path ref of NULL \<Rightarrow> Some 0 | Ptr p \<Rightarrow> strlen p);
     lb \<leftarrow> (case path bas of NULL \<Rightarrow> Some 0 | Ptr p \<Rightarrow> strlen p);
     let len = 2 + lr + lb;
     if int len > INT_MAX then None
     else if \<not> mem len then Some NULL
     else do {
       dir \<leftarrow> (case path bas of NULL \<Rightarrow> Some [] | Ptr p \<Rightarrow> base_dir p [] []);
       rel \<leftarrow> (case path ref of NULL \<Rightarrow> Some [] | Ptr p \<Rightarrow> copy_in lr p);
       let slash = (if rel \<noteq> [] \<and> dir = [] \<and> (server bas \<noteq> NULL \<or> port bas \<noteq> PORT_EMPTY) then [ch (CHR ''/'')] else []);
       let p = dir @ slash @ rel @ [0];
       if length p \<le> len then map_option snd (xmlNormalizeURIPath (Ptr p)) else None } }"

text \<open>
  Steps 2 to 6: the structure of the result, NULL when an allocation fails.  Step 3 has no effect: a reference with
  a scheme was returned before.
\<close>

definition resolve_fields :: "allocator \<Rightarrow> xmlURI \<Rightarrow> xmlURI \<Rightarrow> xmlURI \<Rightarrow> xmlURI ptr option" where
  "resolve_fields mem ref bas res =
     (if scheme ref = NULL \<and> path ref = NULL \<and> \<not> has_authority ref then
        seq_fields (set_scheme mem bas)
       (seq_fields (set_authority mem bas (set_server mem bas))
       (seq_fields (set_path mem bas)
       (seq_fields (set_query mem ref (set_query mem bas keep_res))
          (set_fragment mem ref)))) res
      else
        seq_fields (set_scheme mem bas)
       (seq_fields (set_query mem ref keep_res)
       (seq_fields (set_fragment mem ref)
          (if has_authority ref then
             seq_fields (set_authority mem ref (set_server mem ref)) (set_path mem ref)
           else
             seq_fields (set_authority mem bas
               (if server bas \<noteq> NULL \<or> port bas \<noteq> PORT_EMPTY then set_server mem bas else keep_res))
             (\<lambda>r. do {
                absolute \<leftarrow> (case path ref of NULL \<Rightarrow> Some False | Ptr p \<Rightarrow> test (\<lambda>c. c = ch (CHR ''/'')) p);
                if absolute then set_path mem ref r
                else do {
                  p \<leftarrow> merge_paths mem ref bas;
                  Some (if p = NULL then NULL else Ptr (r\<lparr>path := p\<rparr>)) } })))) res)"

text \<open>The code and \<open>*valPtr\<close>; \<open>have_val\<close> says that \<open>valPtr\<close> is not NULL.\<close>

definition saved :: "xmlString option \<Rightarrow> (int \<times> xmlString) option" where
  "saved v = map_option (\<lambda>val. (if val = NULL then - 1 else 0, val)) v"

definition xmlBuildURISafe :: "allocator \<Rightarrow> bool \<Rightarrow> xmlString \<Rightarrow> xmlString \<Rightarrow> (int \<times> xmlString) option" where
  "xmlBuildURISafe mem have_val URI base =
     (if \<not> have_val then Some (1, NULL)
      else if URI = NULL then Some (1, NULL)
      else if base = NULL then saved (xmlStrdup mem URI)
      else do {
        e \<leftarrow> is_empty_str URI;
        (ret, ref) \<leftarrow> (if e then Some (0, NULL) else xmlParseURISafe mem True URI);
        if ret \<noteq> 0 then Some (ret, NULL)
        else if (case ref of NULL \<Rightarrow> False | Ptr r \<Rightarrow> scheme r \<noteq> NULL) then saved (xmlStrdup mem URI)
        else do {
          net \<leftarrow> xmlStrstr base (Ptr (cstr_of (asc ''://'')));
          if net = NULL then xmlResolvePath mem URI base
          else do {
            (ret2, basp) \<leftarrow> xmlParseURISafe mem True base;
            if ret2 < 0 then Some (ret2, NULL)
            else if ret2 \<noteq> 0 then
              (case ref of NULL \<Rightarrow> Some (ret2, NULL) | Ptr r \<Rightarrow> saved (xmlSaveUri mem ref))
            else case basp of
              NULL \<Rightarrow> None
            | Ptr bas \<Rightarrow>
                (case ref of
                   NULL \<Rightarrow> saved (xmlSaveUri mem (Ptr (bas\<lparr>fragment := NULL\<rparr>)))
                 | Ptr r \<Rightarrow>
                     (case xmlCreateURI mem of
                        NULL \<Rightarrow> Some (- 1, NULL)
                      | Ptr res \<Rightarrow> do {
                          r' \<leftarrow> resolve_fields mem r bas res;
                          case r' of NULL \<Rightarrow> Some (- 1, NULL) | Ptr res' \<Rightarrow> saved (xmlSaveUri mem (Ptr res')) })) } } })"

definition xmlBuildURI :: "allocator \<Rightarrow> xmlString \<Rightarrow> xmlString \<Rightarrow> xmlString option" where
  "xmlBuildURI mem URI base = map_option snd (xmlBuildURISafe mem True URI base)"

section \<open>Relative references\<close>

text \<open>The code and \<open>*out\<close>.\<close>

definition xmlParseUriOrPath :: "allocator \<Rightarrow> bytes \<Rightarrow> (int \<times> xmlURI ptr) option" where
  "xmlParseUriOrPath mem str =
     (case xmlCreateURI mem of
        NULL \<Rightarrow> Some (- 1, NULL)
      | Ptr uri \<Rightarrow> do {
          net \<leftarrow> xmlStrstr (Ptr str) (Ptr (cstr_of (asc ''://'')));
          if net = NULL then do {
            buf \<leftarrow> xmlStrdup mem (Ptr str);
            if buf = NULL then Some (- 1, NULL)
            else do {
              (_, buf') \<leftarrow> xmlNormalizePath buf True;
              case buf' of
                NULL \<Rightarrow> None
              | Ptr p \<Rightarrow> do {
                  n \<leftarrow> strlen p;
                  if \<not> mem (n + 1) then Some (- 1, NULL)
                  else do { q \<leftarrow> copy_in (n + 1) p; Some (0, Ptr (uri\<lparr>path := Ptr q\<rparr>)) } } } }
          else do {
            (ret, uri1) \<leftarrow> xmlParseURIReference mem uri (Ptr str);
            if ret \<noteq> 0 then Some (ret, NULL)
            else do {
              (_, p) \<leftarrow> xmlNormalizePath (path uri1) False;
              Some (0, Ptr (uri1\<lparr>path := p\<rparr>)) } } })"

fun common_prefix :: "bytes \<Rightarrow> bytes \<Rightarrow> nat option" where
  "common_prefix (a # bptr) (b # rptr) =
     (if a = b \<and> a \<noteq> 0 then map_option Suc (common_prefix bptr rptr) else Some 0)"
| "common_prefix _ _ = None"

fun back_to_slash :: "bytes \<Rightarrow> nat \<Rightarrow> nat option" where
  "back_to_slash rptr 0 = Some 0"
| "back_to_slash rptr (Suc ix) = do { c \<leftarrow> rd rptr ix; if c = ch (CHR ''/'') then Some (Suc ix) else back_to_slash rptr ix }"

fun count_slashes :: "bytes \<Rightarrow> nat option" where
  "count_slashes [] = None"
| "count_slashes (c # p) = (if c = 0 then Some 0 else map_option (\<lambda>n. if c = ch (CHR ''/'') then Suc n else n) (count_slashes p))"

definition EXC :: xmlString where
  "EXC = Ptr (cstr_of (asc ''/;&=+$,''))"

text \<open>
  The relative path for the two paths; \<open>Ptr (code, val)\<close> is returned, NULL means that the URI itself is saved.
\<close>

definition relative_path :: "allocator \<Rightarrow> bytes \<Rightarrow> bytes \<Rightarrow> (int \<times> xmlString) ptr option" where
  "relative_path mem bptr rptr = do {
     b0 \<leftarrow> rd bptr 0;
     r0 \<leftarrow> rd rptr 0;
     if (b0 = ch (CHR ''/'')) \<noteq> (r0 = ch (CHR ''/'')) then Some NULL
     else do {
       pos \<leftarrow> common_prefix bptr rptr;
       b \<leftarrow> rd bptr pos;
       r \<leftarrow> rd rptr pos;
       if b = r then map_option Ptr (saved (xmlStrdup mem (Ptr [0])))
       else do {
         ix \<leftarrow> back_to_slash rptr pos;
         let uptr = drop ix rptr;
         nbslash \<leftarrow> count_slashes (drop ix bptr);
         u0 \<leftarrow> rd uptr 0;
         if nbslash = 0 \<and> u0 = 0 then map_option Ptr (saved (xmlStrdup mem (Ptr (cstr_of (asc ''./'')))))
         else if nbslash = 0 then map_option Ptr (saved (xmlURIEscapeStr mem (Ptr uptr) EXC))
         else do {
           n \<leftarrow> xmlStrlen (Ptr uptr);
           let len = n + 1;
           if int nbslash > INT_MAX div 3 \<or> len + 3 * int nbslash > INT_MAX then None
           else if \<not> mem (nat len + 3 * nbslash) then Some (Ptr (- 1, NULL))
           else do {
             rest \<leftarrow> (if u0 = ch (CHR ''/'') then copy_in (nat len - 1) (drop 1 uptr) else copy_in (nat len) uptr);
             let v = concat (replicate nbslash (asc ''../'')) @ butlast rest @ [0];
             map_option Ptr (saved (xmlURIEscapeStr mem (Ptr v) EXC)) } } } } }"

definition same_string :: "xmlString \<Rightarrow> xmlString \<Rightarrow> bool option" where
  "same_string a b = do { r \<leftarrow> xmlStrcmp False a b; Some (r = 0) }"

definition xmlBuildRelativeURISafe :: "allocator \<Rightarrow> bool \<Rightarrow> xmlString \<Rightarrow> xmlString \<Rightarrow> (int \<times> xmlString) option" where
  "xmlBuildRelativeURISafe mem have_val URI base =
     (if \<not> have_val then Some (1, NULL)
      else do {
        e \<leftarrow> is_empty_str URI;
        case URI of
          NULL \<Rightarrow> Some (1, NULL)
        | Ptr u \<Rightarrow>
            if e then Some (1, NULL)
            else do {
              (ret, refp) \<leftarrow> xmlParseUriOrPath mem u;
              if ret < 0 then Some (ret, NULL)
              else if ret \<noteq> 0 then saved (xmlStrdup mem URI)
              else do {
                eb \<leftarrow> is_empty_str base;
                case (base, refp) of
                  (_, NULL) \<Rightarrow> None
                | (NULL, Ptr ref) \<Rightarrow> saved (xmlSaveUri mem refp)
                | (Ptr b, Ptr ref) \<Rightarrow>
                    if eb then saved (xmlSaveUri mem refp)
                    else do {
                      (ret2, basp) \<leftarrow> xmlParseUriOrPath mem b;
                      if ret2 < 0 then Some (ret2, NULL)
                      else if ret2 \<noteq> 0 then saved (xmlSaveUri mem refp)
                      else case basp of
                        NULL \<Rightarrow> None
                      | Ptr bas \<Rightarrow> do {
                          s1 \<leftarrow> same_string (scheme bas) (scheme ref);
                          s2 \<leftarrow> (if s1 then same_string (server bas) (server ref) else Some False);
                          if \<not> s1 \<or> \<not> s2 \<or> port bas \<noteq> port ref then saved (xmlSaveUri mem refp)
                          else do {
                            eq \<leftarrow> xmlStrEqual False (path bas) (path ref);
                            if eq then saved (xmlStrdup mem (Ptr [0]))
                            else case path bas of
                              NULL \<Rightarrow> do {
                                val \<leftarrow> xmlStrdup mem (path ref);
                                if val = NULL then Some (- 1, NULL) else saved (xmlURIEscapeStr mem val EXC) }
                            | Ptr bp \<Rightarrow>
                                let ref' = (if path ref = NULL then ref\<lparr>path := Ptr (cstr_of (asc ''/''))\<rparr> else ref)
                                in case path ref' of
                                  NULL \<Rightarrow> None
                                | Ptr rp \<Rightarrow> do {
                                    v \<leftarrow> relative_path mem bp rp;
                                    case v of NULL \<Rightarrow> saved (xmlSaveUri mem (Ptr ref')) | Ptr r \<Rightarrow> Some r } } } } } } })"

definition xmlBuildRelativeURI :: "allocator \<Rightarrow> xmlString \<Rightarrow> xmlString \<Rightarrow> xmlString option" where
  "xmlBuildRelativeURI mem URI base = map_option snd (xmlBuildRelativeURISafe mem True URI base)"

end
