(* ===== verification/UriPaths.thy ===== *)
theory UriPaths
  imports UriScan UriResolve
begin

text \<open>
  Paths as lists of segments: \<open>xmlNormalizePath\<close>, which works in place, against a function on the segments.
\<close>

section \<open>Paths as lists of segments\<close>

abbreviation slash :: byte where "slash \<equiv> ch (CHR ''/'')"

function segs :: "bytes \<Rightarrow> bytes list" where
  "segs r = takeWhile (\<lambda>c. c \<noteq> slash) r # (case dropWhile (\<lambda>c. c \<noteq> slash) r of [] \<Rightarrow> [] | _ # r' \<Rightarrow> segs r')"
  by pat_completeness auto
termination
  by (relation "measure length") (auto, metis length_Cons length_dropWhile_le not_less_eq_eq not_le)

declare segs.simps [simp del]

text \<open>One segment of the path: the stack of the segments that are kept is changed; None for a \<open>..\<close> that leaves it.\<close>

definition push :: "bytes list \<Rightarrow> bytes \<Rightarrow> bytes list option" where
  "push st s =
     (if s = [] \<or> s = asc ''.'' then Some st
      else if s = asc ''..'' then (case st of [] \<Rightarrow> None | _ # st' \<Rightarrow> Some st')
      else Some (s # st))"

definition dirs :: "bytes list \<Rightarrow> bytes" where
  "dirs st = concat (map (\<lambda>s. s @ [slash]) (rev st))"

fun norm_segments :: "bytes list \<Rightarrow> bytes list \<Rightarrow> bytes option" where
  "norm_segments st [] = None"
| "norm_segments st [s] =
     (if s \<in> {[], asc ''.'', asc ''..''} then map_option dirs (push st s) else Some (dirs st @ s))"
| "norm_segments st (s # ss) = do { st' \<leftarrow> push st s; norm_segments st' ss }"

definition norm_path :: "bytes \<Rightarrow> bytes option" where
  "norm_path v = (if first v = slash then map_option ((#) slash) (norm_segments [] (segs (tl v))) else norm_segments [] (segs v))"

section \<open>The loop\<close>

lemma segs_not_Nil: "segs r \<noteq> []"
  by (subst segs.simps) simp

lemma segs_whole: "slash \<notin> set s \<Longrightarrow> segs s = [s]"
proof -
  assume "slash \<notin> set s"
  then have "takeWhile (\<lambda>c. c \<noteq> slash) s = s" "dropWhile (\<lambda>c. c \<noteq> slash) s = []" by (auto simp: takeWhile_eq_all_conv)
  then show ?thesis by (subst segs.simps) (simp only: list.case)
qed

lemma segs_slash: "slash \<notin> set s \<Longrightarrow> segs (s @ slash # r) = s # segs r"
proof -
  assume "slash \<notin> set s"
  then have "takeWhile (\<lambda>c. c \<noteq> slash) (s @ slash # r) = s" "dropWhile (\<lambda>c. c \<noteq> slash) (s @ slash # r) = slash # r"
    by (auto simp: takeWhile_append dropWhile_append)
  then show ?thesis by (subst segs.simps) (simp only: list.case)
qed

lemma norm_step: "ss \<noteq> [] \<Longrightarrow> norm_segments st (s # ss) = do { st' \<leftarrow> push st s; norm_segments st' ss }"
  by (cases ss) simp_all

lemma norm_slash: "norm_segments st (segs (slash # r)) = norm_segments st (segs r)"
  using segs_slash [of "[]" r] segs_not_Nil [of r] by (simp add: norm_step push_def)

lemma norm_skip: "norm_segments st (segs (dropWhile (\<lambda>c. c = slash) r)) = norm_segments st (segs r)"
  by (induction r) (auto simp: norm_slash [simplified])

lemma dirs_Cons [simp]: "dirs (s # st) = dirs st @ s @ [slash]" "dirs [] = []"
  by (simp_all add: dirs_def)

lemma rd_at: "rd (a @ c # r) (length a) = Some c" "n = length a \<Longrightarrow> rd (a @ c # r) n = Some c"
  by (simp_all add: rd_def nth_append)

lemma shift_ok: "\<exists>J'. wr (O' @ J @ c # r) (length O') c = Some (O' @ [c] @ J' @ r) \<and> length J' = length J"
proof (cases J)
  case Nil
  then show ?thesis by (simp add: wr_def)
next
  case (Cons j J2)
  then show ?thesis by (intro exI [of _ "J2 @ [c]"]) (simp add: wr_def)
qed

lemma skip_separators_ok:
  assumes "0 \<notin> set r"
  shows "skip_separators (a @ r @ 0 # t) f (length a) = Some (length a + length (takeWhile (\<lambda>c. c = slash) r))"
  using assms
proof (induction r arbitrary: a)
  case Nil
  then show ?case by (subst skip_separators.simps) (simp add: rd_at xmlIsPathSeparator_def)
next
  case (Cons c r)
  from Cons.IH [of "a @ [c]"] Cons.prems show ?case
    by (cases "c = slash"; subst skip_separators.simps) (simp_all add: rd_at xmlIsPathSeparator_def)
qed

lemma copy_segment_ok:
  assumes "0 \<notin> set s" "slash \<notin> set s" "first r \<in> {0, slash}"
  shows "\<exists>J'. copy_segment (O' @ J @ s @ r @ 0 # t) f (length O' + length J) (length O') =
    Some ((O' @ s) @ J' @ r @ 0 # t, length O' + length J + length s, length O' + length s) \<and> length J' = length J"
  using assms(1,2)
proof (induction s arbitrary: O' J)
  case Nil
  have "rd ((O' @ J) @ r @ 0 # t) (length (O' @ J)) = Some (first r)" by (cases r) (simp_all only: append.simps rd_at first_simps)
  then have "copy_segment (O' @ J @ r @ 0 # t) f (length O' + length J) (length O') = Some (O' @ J @ r @ 0 # t, length O' + length J, length O')"
    using assms(3) by (subst copy_segment.simps) (auto simp: xmlIsPathSeparator_def)
  then show ?case by auto
next
  case (Cons c s)
  have r: "rd (O' @ J @ (c # s) @ r @ 0 # t) (length O' + length J) = Some c" using rd_at(2) [of "length O' + length J" "O' @ J" c] by simp
  obtain J1 where J1: "wr (O' @ J @ c # s @ r @ 0 # t) (length O') c = Some (O' @ [c] @ J1 @ s @ r @ 0 # t)" "length J1 = length J"
    using shift_ok [of O' J c "s @ r @ 0 # t"] by auto
  obtain J2 where J2: "copy_segment ((O' @ [c]) @ J1 @ s @ r @ 0 # t) f (length (O' @ [c]) + length J1) (length (O' @ [c])) =
    Some (((O' @ [c]) @ s) @ J2 @ r @ 0 # t, length (O' @ [c]) + length J1 + length s, length (O' @ [c]) + length s)" "length J2 = length J1"
    using Cons.IH [of "O' @ [c]" J1] Cons.prems by auto
  show ?case
    using Cons.prems r J1 J2 by (intro exI [of _ J2]; subst copy_segment.simps) (simp add: xmlIsPathSeparator_def)
qed

lemma keep_segment_ok:
  assumes "0 \<notin> set s" "slash \<notin> set s"
  shows "r = [] \<Longrightarrow> \<exists>J'. keep_segment (O' @ J @ s @ 0 # t) f (length O' + length J) (length O') n =
      Some ((O' @ s) @ J' @ 0 # t, length (O' @ s) + length J', length (O' @ s), n + 1) \<and> length J' = length J"
    and "r = slash # r' \<Longrightarrow> \<exists>J'. keep_segment (O' @ J @ s @ r @ 0 # t) f (length O' + length J) (length O') n =
      Some ((O' @ s @ [slash]) @ J' @ r' @ 0 # t, length (O' @ s @ [slash]) + length J', length (O' @ s @ [slash]), n + 1) \<and> length J' = length J"
proof -
  obtain J1 where J1: "copy_segment (O' @ J @ s @ [] @ 0 # t) f (length O' + length J) (length O') =
    Some ((O' @ s) @ J1 @ [] @ 0 # t, length O' + length J + length s, length O' + length s)" "length J1 = length J"
    using copy_segment_ok [OF assms, where r = "[]" and O' = O' and J = J and f = f and t = t] by (auto simp only: first_simps)
  have "rd ((O' @ s @ J1) @ 0 # t) (length O' + length J + length s) = Some 0" by (rule rd_at) (simp add: J1)
  then show "\<exists>J'. keep_segment (O' @ J @ s @ 0 # t) f (length O' + length J) (length O') n =
      Some ((O' @ s) @ J' @ 0 # t, length (O' @ s) + length J', length (O' @ s), n + 1) \<and> length J' = length J"
    using J1 by (intro exI [of _ J1]) (simp add: keep_segment_def)
  assume r: "r = slash # r'"
  obtain J2 where J2: "copy_segment (O' @ J @ s @ r @ 0 # t) f (length O' + length J) (length O') =
    Some ((O' @ s) @ J2 @ r @ 0 # t, length O' + length J + length s, length O' + length s)" "length J2 = length J"
    using copy_segment_ok [OF assms, where r = r and O' = O' and J = J and f = f and t = t] r by auto
  obtain J3 where J3: "wr ((O' @ s) @ J2 @ slash # r' @ 0 # t) (length (O' @ s)) slash = Some ((O' @ s) @ [slash] @ J3 @ r' @ 0 # t)" "length J3 = length J2"
    using shift_ok [of "O' @ s" J2 slash "r' @ 0 # t"] by auto
  have "rd ((O' @ s @ J2) @ slash # r' @ 0 # t) (length O' + length J + length s) = Some slash" by (rule rd_at) (simp add: J2)
  then show "\<exists>J'. keep_segment (O' @ J @ s @ r @ 0 # t) f (length O' + length J) (length O') n =
      Some ((O' @ s @ [slash]) @ J' @ r' @ 0 # t, length (O' @ s @ [slash]) + length J', length (O' @ s @ [slash]), n + 1) \<and> length J' = length J"
    using J2 J3 r by (intro exI [of _ J3]) (simp add: keep_segment_def)
qed

lemma remove_segment_ok:
  assumes "slash \<notin> set s" "B = [] \<or> last B = slash" "s \<noteq> []"
  shows "remove_segment (B @ s @ [slash] @ r) f (length (B @ s @ [slash])) = Some (length B)"
proof -
  have g: "remove_segment (B @ s @ u) f (Suc (length B + k)) = Some (length B)" if "k < length s \<or> k = length s \<and> s \<noteq> []" for k u
    using that assms(1)
  proof (induction k)
    case 0
    show ?case
    proof (cases "B = []")
      case False
      then obtain B' where B: "B = B' @ [slash]" using assms(2) by (cases B rule: rev_cases) auto
      have "rd (B' @ slash # s @ u) (length B') = Some slash" by (rule rd_at)
      then show ?thesis by (simp add: B xmlIsPathSeparator_def)
    qed simp
  next
    case (Suc k)
    have "rd (B @ s @ u) (length B + k) = Some (s ! k)" using Suc.prems by (auto simp: rd_def nth_append)
    moreover have "s ! k \<noteq> slash" using Suc.prems nth_mem [of k s] by (metis Suc_lessD lessI)
    ultimately show ?case using Suc by (auto simp: xmlIsPathSeparator_def)
  qed
  from g [of "length s" "[slash] @ r"] show ?thesis using assms(3) by simp
qed

lemma rd_next: "n = length a + k \<Longrightarrow> rd (a @ r) n = rd r k"
  by (simp add: rd_def nth_append)

lemma segment_split:
  obtains s r2 where "r = s @ r2" "slash \<notin> set s" "r2 = [] \<or> (\<exists>r3. r2 = slash # r3)"
proof -
  have "slash \<notin> set (takeWhile (\<lambda>c. c \<noteq> slash) r)" by (auto dest: set_takeWhileD)
  moreover have "dropWhile (\<lambda>c. c \<noteq> slash) r = [] \<or> (\<exists>r3. dropWhile (\<lambda>c. c \<noteq> slash) r = slash # r3)"
  proof (cases "dropWhile (\<lambda>c. c \<noteq> slash) r")
    case (Cons c q)
    then show ?thesis using hd_dropWhile [of "\<lambda>c. c \<noteq> slash" r] by simp
  qed simp
  ultimately show ?thesis using that takeWhile_dropWhile_id [of "\<lambda>c. c \<noteq> slash" r] by metis
qed

definition dots_of :: "bytes \<Rightarrow> bytes \<Rightarrow> dots" where
  "dots_of s r2 = (if s = asc ''.'' then (if r2 = [] then DotEnd else DotSlash) else if s = asc ''..'' then DotDot (r2 = []) else NoDots)"

lemma read_dots_ok:
  assumes "0 \<notin> set s" "slash \<notin> set s" "r2 = [] \<or> (\<exists>r3. r2 = slash # r3)"
  shows "read_dots (a @ (s @ r2) @ 0 # t) f (length a) = Some (dots_of s r2)"
proof -
  have r: "rd (a @ q) (length a) = rd q 0" "rd (a @ q) (length a + 1) = rd q 1" "rd (a @ q) (length a + 2) = rd q 2" for q
    by (simp_all add: rd_def nth_append)
  have f: "rd ((s @ r2) @ 0 # t) 0 = Some (first (s @ r2))" by (rule rd_first)
  show ?thesis
  proof (cases "first s = ch (CHR ''.'')")
    case False
    moreover from this have "first (s @ r2) \<noteq> ch (CHR ''.'')" using assms(3) by (cases s) auto
    moreover have "dots_of s r2 = NoDots" using False by (auto simp: dots_of_def)
    ultimately show ?thesis unfolding read_dots_def r f by simp
  next
    case True
    then obtain s1 where s1: "s = ch (CHR ''.'') # s1" by (cases s) auto
    have f1: "rd ((s @ r2) @ 0 # t) 1 = Some (first (s1 @ r2))" unfolding s1 using rd_first [of "s1 @ r2" t] by simp
    show ?thesis
    proof (cases s1)
      case Nil
      then show ?thesis unfolding read_dots_def r f f1 using s1 assms(3) by (auto simp: dots_of_def xmlIsPathSeparator_def)
    next
      case (Cons d s2)
      then have d: "d \<noteq> 0" "d \<noteq> slash" using assms(1,2) s1 by auto
      have f2: "rd ((s @ r2) @ 0 # t) 2 = Some (first (s2 @ r2))" unfolding s1 Cons using rd_first [of "s2 @ r2" t] by (simp add: numeral_2_eq_2)
      have s2: "s2 \<noteq> [] \<Longrightarrow> first (s2 @ r2) \<noteq> 0 \<and> first (s2 @ r2) \<noteq> slash" using assms(1,2) s1 Cons by (cases s2) auto
      show ?thesis unfolding read_dots_def r f f1 f2 using s1 Cons d s2 assms(3)
        by (cases "s2 = []") (auto simp: dots_of_def xmlIsPathSeparator_def)
    qed
  qed
qed

lemma loop_end: "rd p cur = Some 0 \<Longrightarrow> normalize_loop p f cur out n = Some (p, out)"
  by (subst normalize_loop.simps) simp

definition finishes :: "(bytes \<times> nat) option \<Rightarrow> nat \<Rightarrow> nat \<Rightarrow> bytes \<Rightarrow> bytes option \<Rightarrow> bool" where
  "finishes res n m B spec \<longleftrightarrow> (\<exists>O' X. res = Some (O' @ X, length O') \<and> 0 \<notin> set O' \<and> length O' \<le> m \<and> length (O' @ X) = n \<and>
     (\<forall>w. spec = Some w \<longrightarrow> O' = B @ w))"

lemma finishesI: "res = Some (p, length O') \<Longrightarrow> p = O' @ X \<Longrightarrow> 0 \<notin> set O' \<Longrightarrow> length O' \<le> m \<Longrightarrow> length p = n \<Longrightarrow>
    (\<And>w. spec = Some w \<Longrightarrow> O' = B @ w) \<Longrightarrow> finishes res n m B spec"
  unfolding finishes_def by blast

lemma finishes_None: "finishes res n m B' spec' \<Longrightarrow> finishes res n m B None"
  unfolding finishes_def by blast

definition good_stack :: "bytes list \<Rightarrow> bool" where
  "good_stack st \<longleftrightarrow> (\<forall>s \<in> set st. s \<noteq> [] \<and> slash \<notin> set s \<and> 0 \<notin> set s)"

lemma dirs_nz: "good_stack st \<Longrightarrow> 0 \<notin> set (dirs st)"
  by (auto simp: good_stack_def dirs_def)

lemma last_dirs: "B = [] \<or> last B = slash \<Longrightarrow> B @ dirs st = [] \<or> last (B @ dirs st) = slash"
  by (cases st) auto

lemma loop_ok:
  assumes "0 \<notin> set r" "0 \<notin> set B" "B = [] \<or> last B = slash" "good_stack st"
  shows "finishes (normalize_loop ((B @ dirs st) @ J @ r @ 0 # t) f (length (B @ dirs st) + length J) (length (B @ dirs st)) (int (length st)))
    (length (B @ dirs st) + length J + length r + Suc (length t)) (length (B @ dirs st) + length J + length r) B (norm_segments st (segs r))"
  using assms
proof (induction "length r" arbitrary: r B st J rule: less_induct)
  case less
  let ?D = "B @ dirs st"
  let ?p = "?D @ J @ r @ 0 # t"
  have Dz: "0 \<notin> set ?D" using less.prems(2) dirs_nz [OF less.prems(4)] by simp
  show ?case
  proof (cases "r = []")
    case True
    have "rd ((?D @ J) @ 0 # t) (length ?D + length J) = Some 0" by (rule rd_at) simp
    then have "normalize_loop ?p f (length ?D + length J) (length ?D) (int (length st)) = Some (?p, length ?D)" using True by (intro loop_end) simp
    then show ?thesis using True Dz by (intro finishesI [of _ ?p ?D "J @ r @ 0 # t"]) (simp_all add: segs_whole push_def)
  next
    case False
    let ?k = "takeWhile (\<lambda>c. c = slash) r" and ?r1 = "dropWhile (\<lambda>c. c = slash) r"
    obtain s r2 where s: "?r1 = s @ r2" "slash \<notin> set s" "r2 = [] \<or> (\<exists>r3. r2 = slash # r3)" by (rule segment_split [of ?r1]) blast
    have r: "r = ?k @ s @ r2" using s(1) takeWhile_dropWhile_id [of "\<lambda>c. c = slash" r] by simp
    define K where "K = J @ ?k"
    have p: "?p = ?D @ K @ s @ r2 @ 0 # t" unfolding K_def by (subst r) simp
    have len: "length J + length r = length K + length s + length r2" using arg_cong [OF r, of length] by (simp add: K_def)
    have sz: "0 \<notin> set s" "0 \<notin> set r2" using less.prems(1) r by (metis Un_iff set_append)+
    have spec: "norm_segments st (segs r) = norm_segments st (segs (s @ r2))" using norm_skip [of st r] s(1) by simp
    have c0: "rd ?p (length ?D + length J) = Some (first r)" "first r \<noteq> 0"
      using rd_next [of "length ?D + length J" "?D @ J" 0 "r @ 0 # t"] rd_first [of r t] False less.prems(1) by (simp, cases r, auto)
    have sk: "skip_separators ?p f (length ?D + length J) = Some (length ?D + length K)"
      using skip_separators_ok [OF less.prems(1), of "?D @ J" t f] by (simp add: K_def add.assoc)
    have rdots: "read_dots ?p f (length ?D + length K) = Some (dots_of s r2)"
      using read_dots_ok [OF sz(1) s(2,3), of "?D @ K" t f] unfolding p by (simp add: add.assoc)
    have shorter: "r2 = slash # r3 \<Longrightarrow> length r3 < length r" for r3 by (subst r) simp
    have loop: "normalize_loop ?p f (length ?D + length J) (length ?D) (int (length st)) =
      (case dots_of s r2 of
         DotEnd \<Rightarrow> Some (?p, length ?D)
       | DotSlash \<Rightarrow> normalize_loop ?p f (length ?D + length K + 2) (length ?D) (int (length st))
       | NoDots \<Rightarrow> Option.bind (keep_segment ?p f (length ?D + length K) (length ?D) (int (length st)))
           (\<lambda>(p', cur', out', n). normalize_loop p' f cur' out' n)
       | DotDot end_of_path \<Rightarrow>
           if int (length st) > 0 then
             Option.bind (remove_segment ?p f (length ?D)) (\<lambda>out'.
               if end_of_path then Some (?p, out') else normalize_loop ?p f (length ?D + length K + 3) out' (int (length st) - 1))
           else
             Option.bind (rd ?p (length ?D)) (\<lambda>o0.
               if o0 = slash then
                 if end_of_path then Some (?p, length ?D) else normalize_loop ?p f (length ?D + length K + 3) (length ?D) (int (length st))
               else Option.bind (keep_segment ?p f (length ?D + length K) (length ?D) (int (length st) - 1))
                      (\<lambda>(p', cur', out', n). normalize_loop p' f cur' out' n)))"
      by (subst normalize_loop.simps) (simp only: c0 sk rdots bind.bind_lunit if_False)
    let ?N = "length ?D + length J + length r + Suc (length t)" and ?M = "length ?D + length J + length r"
    have IH: "finishes (normalize_loop (D' @ J' @ r' @ 0 # t) f cur (length D') n) ?N ?M B' (norm_segments st' (segs r'))"
      if "length r' < length r" "0 \<notin> set r'" "0 \<notin> set B'" "B' = [] \<or> last B' = slash" "good_stack st'" "D' = B' @ dirs st'"
        "length D' + length J' + length r' = length ?D + length J + length r" "cur = length D' + length J'" "n = int (length st')"
      for r' B' st' D' J' cur n
      using less.hyps [OF that(1,2,3,4,5), of J'] unfolding that(6) [symmetric] that(8,9) that(7) .
    let ?keep = "\<lambda>n. Option.bind (keep_segment ?p f (length ?D + length K) (length ?D) n) (\<lambda>(p', cur', out', n). normalize_loop p' f cur' out' n)"
    have keep_end: "finishes (?keep n) ?N ?M B (Some (dirs st @ s))" if "r2 = []" for n
    proof -
      obtain J' where J': "keep_segment (?D @ K @ s @ 0 # t) f (length ?D + length K) (length ?D) n =
          Some ((?D @ s) @ J' @ 0 # t, length (?D @ s) + length J', length (?D @ s), n + 1)" "length J' = length K"
        using keep_segment_ok(1) [OF sz(1) s(2), of "[]" ?D K t f n] by auto
      have "rd ((?D @ s @ J') @ 0 # t) (length (?D @ s) + length J') = Some 0" by (rule rd_at) simp
      then have "?keep n = Some ((?D @ s) @ J' @ 0 # t, length (?D @ s))" unfolding p using J'(1) that by (simp add: loop_end)
      then show ?thesis by (intro finishesI [of _ "(?D @ s) @ J' @ 0 # t" "?D @ s" "J' @ 0 # t"]) (use Dz sz(1) J'(2) len that in simp_all)
    qed
    have keep_more: "\<exists>J'. ?keep n = normalize_loop ((?D @ s @ [slash]) @ J' @ r3 @ 0 # t) f (length (?D @ s @ [slash]) + length J') (length (?D @ s @ [slash])) (n + 1)
        \<and> length J' = length K" if "r2 = slash # r3" for r3 n
    proof -
      from keep_segment_ok(2) [OF sz(1) s(2) that, of ?D K t f n] obtain J' where
        "keep_segment (?D @ K @ s @ r2 @ 0 # t) f (length ?D + length K) (length ?D) n =
          Some ((?D @ s @ [slash]) @ J' @ r3 @ 0 # t, length (?D @ s @ [slash]) + length J', length (?D @ s @ [slash]), n + 1)" "length J' = length K" by blast
      then show ?thesis unfolding p by (intro exI [of _ J']) simp
    qed
    have keep_none: "finishes (?keep (- 1)) ?N ?M B None"
    proof (cases "r2 = []")
      case True
      show ?thesis by (rule finishes_None [OF keep_end [OF True]])
    next
      case False
      then obtain r3 where r3: "r2 = slash # r3" using s(3) by blast
      obtain J' where J': "?keep (- 1) = normalize_loop ((?D @ s @ [slash]) @ J' @ r3 @ 0 # t) f (length (?D @ s @ [slash]) + length J') (length (?D @ s @ [slash])) 0"
        "length J' = length K" using keep_more [OF r3, of "- 1"] by auto
      have "finishes (?keep (- 1)) ?N ?M (?D @ s @ [slash]) (norm_segments [] (segs r3))"
        unfolding J'(1) by (rule IH) (use shorter [OF r3] Dz sz r3 J'(2) len in \<open>simp_all add: good_stack_def\<close>)
      then show ?thesis by (rule finishes_None)
    qed
    show ?thesis
    proof (cases "dots_of s r2")
      case DotEnd
      then have "s = asc ''.''" "r2 = []" by (auto simp: dots_of_def split: if_splits)
      then have "norm_segments st (segs r) = Some (dirs st)" using spec s(2) by (simp add: segs_whole push_def)
      then show ?thesis unfolding loop DotEnd using Dz by (intro finishesI [of _ ?p ?D "J @ r @ 0 # t"]) simp_all
    next
      case DotSlash
      then obtain r3 where d: "s = asc ''.''" "r2 = slash # r3" using s(3) by (auto simp: dots_of_def split: if_splits)
      have "norm_segments st (segs r) = norm_segments st (segs r3)"
        using spec s(2) d segs_slash [of "asc ''.''" r3] by (simp add: norm_step segs_not_Nil push_def)
      moreover have "?p = ?D @ (K @ asc ''./'') @ r3 @ 0 # t" unfolding p d by simp
      ultimately show ?thesis unfolding loop DotSlash dots.case
        by (simp only:) (rule IH, use shorter [OF d(2)] less.prems sz(2) d len in simp_all)
    next
      case (DotDot e)
      then have d: "s = asc ''..''" "e = (r2 = [])" by (auto simp: dots_of_def split: if_splits)
      have sr: "segs (s @ r2) = (if r2 = [] then [s] else s # segs (tl r2))" using s(2,3) segs_slash segs_whole by auto
      show ?thesis
      proof (cases st)
        case Nil
        have none: "norm_segments st (segs r) = None" using spec sr d(1) Nil by (simp add: push_def norm_step segs_not_Nil)
        obtain c0 x where o: "rd ?p (length ?D) = Some c0"
          using rd_next [of "length ?D" ?D 0 "J @ r @ 0 # t"] by (cases "J @ r @ 0 # t") auto
        show ?thesis
        proof (cases "c0 = slash")
          case True
          show ?thesis
          proof (cases "r2 = []")
            case True
            then show ?thesis unfolding none loop DotDot using o \<open>c0 = slash\<close> Nil d Dz
              by (intro finishesI [of _ ?p ?D "J @ r @ 0 # t"]) simp_all
          next
            case False
            then obtain r3 where r3: "r2 = slash # r3" using s(3) by blast
            have "normalize_loop ?p f (length ?D + length J) (length ?D) (int (length st)) =
                normalize_loop ?p f (length ?D + length K + 3) (length ?D) (int (length st))"
              unfolding loop DotDot using o \<open>c0 = slash\<close> Nil d False by simp
            moreover have "?p = ?D @ (K @ asc ''../'') @ r3 @ 0 # t" unfolding p d r3 by simp
            ultimately show ?thesis unfolding none
              by (simp only:) (rule finishes_None, rule IH, use shorter [OF r3] less.prems sz(2) r3 d len in simp_all)
          qed
        next
          case no: False
          have "normalize_loop ?p f (length ?D + length J) (length ?D) (int (length st)) =
              Option.bind (keep_segment ?p f (length ?D + length K) (length ?D) (int (length st) - 1)) (\<lambda>(p', cur', out', n). normalize_loop p' f cur' out' n)"
            unfolding loop DotDot using o no Nil by simp
          then show ?thesis unfolding none using keep_none Nil by simp
        qed
      next
        case (Cons s0 st')
        let ?B = "B @ dirs st'"
        have D: "?D = ?B @ s0 @ [slash]" using Cons by simp
        have s0: "slash \<notin> set s0" "s0 \<noteq> []" and st': "good_stack st'" using less.prems(4) Cons by (simp_all add: good_stack_def)
        have Bl: "?B = [] \<or> last ?B = slash" using last_dirs [OF less.prems(3)] .
        have rm: "remove_segment ?p f (length ?D) = Some (length ?B)"
          using remove_segment_ok [OF s0(1) Bl s0(2), of "J @ r @ 0 # t" f] unfolding D by simp
        have Bz: "0 \<notin> set ?B" using less.prems(2) dirs_nz [OF st'] by simp
        show ?thesis
        proof (cases "r2 = []")
          case True
          have "norm_segments st (segs r) = Some (dirs st')" using spec sr d(1) Cons True by (simp add: push_def)
          then show ?thesis unfolding loop DotDot using rm d True Cons Bz
            by (intro finishesI [of _ ?p ?B "s0 @ [slash] @ J @ r @ 0 # t"]) simp_all
        next
          case False
          then obtain r3 where r3: "r2 = slash # r3" using s(3) by blast
          have sp: "norm_segments st (segs r) = norm_segments st' (segs r3)"
            using spec sr d(1) Cons r3 by (simp add: push_def norm_step segs_not_Nil)
          have lp: "normalize_loop ?p f (length ?D + length J) (length ?D) (int (length st)) =
              normalize_loop ?p f (length ?D + length K + 3) (length ?B) (int (length st'))"
            unfolding loop DotDot using rm d Cons False by simp
          have "?p = ?B @ (s0 @ [slash] @ K @ asc ''../'') @ r3 @ 0 # t" unfolding p unfolding D d r3 by simp
          then show ?thesis unfolding sp lp
            by (simp only:) (rule IH, use shorter [OF r3] less.prems st' sz(2) r3 d len D in simp_all)
        qed
      qed
    next
      case NoDots
      then have nd: "s \<noteq> asc ''.''" "s \<noteq> asc ''..''" by (auto simp: dots_of_def split: if_splits)
      have lp: "normalize_loop ?p f (length ?D + length J) (length ?D) (int (length st)) = ?keep (int (length st))"
        unfolding loop NoDots by simp
      show ?thesis
      proof (cases "r2 = []")
        case True
        have "norm_segments st (segs r) = Some (dirs st @ s)" using spec s(2) True nd by (simp add: segs_whole push_def)
        then show ?thesis unfolding lp using keep_end [OF True] by simp
      next
        case False
        then obtain r3 where r3: "r2 = slash # r3" using s(3) by blast
        have "s \<noteq> []" using s(1) r3 hd_dropWhile [of "\<lambda>c. c = slash" r] by (cases s) auto
        then have g: "good_stack (s # st)" using less.prems(4) s(2) sz(1) by (simp add: good_stack_def)
        have sp: "norm_segments st (segs r) = norm_segments (s # st) (segs r3)"
          using spec s(2) r3 nd \<open>s \<noteq> []\<close> segs_slash [of s r3] by (simp add: norm_step segs_not_Nil push_def)
        obtain J' where J': "?keep (int (length st)) = normalize_loop ((?D @ s @ [slash]) @ J' @ r3 @ 0 # t) f
            (length (?D @ s @ [slash]) + length J') (length (?D @ s @ [slash])) (int (length st) + 1)" "length J' = length K"
          using keep_more [OF r3, of "int (length st)"] by auto
        show ?thesis unfolding lp sp J'(1)
          by (rule IH) (use shorter [OF r3] less.prems g sz(2) r3 J'(2) len in simp_all)
      qed
    qed
  qed
qed

lemma finish_path:
  assumes "finishes (normalize_loop p f c (length B) 0) (Suc (length v + length t)) (length v) B spec" "v \<noteq> []" "B \<noteq> [] \<longrightarrow> B = [slash]"
  shows "\<exists>w t'. do {
      (p2, out) \<leftarrow> normalize_loop p f c (length B) 0;
      (p3, out3) \<leftarrow> (if f \<and> out = 0 then do { p' \<leftarrow> wr p2 out (ch (CHR ''.'')); Some (p', out + 1) } else Some (p2, out));
      p4 \<leftarrow> wr p3 out3 0;
      Some (0 :: int, Ptr p4) } = Some (0, Ptr (w @ 0 # t')) \<and> 0 \<notin> set w \<and> length w \<le> length v \<and> length (w @ 0 # t') = length (v @ 0 # t) \<and>
    (\<forall>u. spec = Some u \<longrightarrow> w = (if f \<and> B @ u = [] then asc ''.'' else B @ u))"
proof -
  obtain O' X where r: "normalize_loop p f c (length B) 0 = Some (O' @ X, length O')" "0 \<notin> set O'" "length O' \<le> length v"
      "length (O' @ X) = Suc (length v + length t)" "\<forall>w. spec = Some w \<longrightarrow> O' = B @ w"
    using assms(1) unfolding finishes_def by blast
  then obtain x X' where X: "X = x # X'" by (cases X) auto
  show ?thesis
  proof (cases "f \<and> O' = []")
    case True
    then have "X' \<noteq> []" using r(4) X assms(2) by (cases X'; cases v) auto
    then obtain y X2 where X2: "X' = y # X2" by (cases X') auto
    have "length (v @ 0 # t) = length X" using r(4) True by simp
    then show ?thesis using True r X X2 assms(2) by (intro exI [of _ "asc ''.''"] exI [of _ X2]) (auto simp: wr_def Suc_le_eq)
  next
    case False
    then show ?thesis using r X by (intro exI [of _ O'] exI [of _ X']) (auto simp: wr_def)
  qed
qed

lemma normalize_path:
  assumes "0 \<notin> set v" "v \<noteq> []"
  shows "\<exists>w t'. xmlNormalizePath (Ptr (v @ 0 # t)) isFile = Some (0, Ptr (w @ 0 # t')) \<and>
    0 \<notin> set w \<and> length w \<le> length v \<and> length (w @ 0 # t') = length (v @ 0 # t) \<and>
    (\<forall>u. norm_path v = Some u \<longrightarrow> w = (if isFile \<and> u = [] then asc ''.'' else u))"
proof -
  obtain c r where v: "v = c # r" using assms(2) by (cases v) auto
  then have c: "c \<noteq> 0" using assms(1) by auto
  show ?thesis
  proof (cases "c = slash")
    case True
    have "finishes (normalize_loop ([slash] @ r @ 0 # t) isFile 1 (length [slash]) 0) (Suc (length v + length t)) (length v) [slash] (norm_segments [] (segs r))"
      using loop_ok [of r "[slash]" "[]" "[]" t isFile] assms(1) v True by (simp add: good_stack_def)
    from finish_path [OF this assms(2)] show ?thesis
      using v True unfolding xmlNormalizePath_def by (auto simp: wr_def xmlIsPathSeparator_def norm_path_def)
  next
    case False
    have "finishes (normalize_loop (v @ 0 # t) isFile 0 (length []) 0) (Suc (length v + length t)) (length v) [] (norm_segments [] (segs v))"
      using loop_ok [of v "[]" "[]" "[]" t isFile] assms(1) by (simp add: good_stack_def)
    from finish_path [OF this assms(2)] show ?thesis
      using v c False unfolding xmlNormalizePath_def by (auto simp: xmlIsPathSeparator_def norm_path_def cong: if_cong)
  qed
qed

text \<open>
  C11.  \<open>xmlNormalizePath\<close> ends on every path, never leaves the block and returns 0 with a path that is not longer.  For
  a path that no \<open>..\<close> leaves, the result is the path without its empty segments, its \<open>.\<close> segments and the
  segments that a \<open>..\<close> removes (\<open>.\<close> for an empty file path).
\<close>

theorem xmlNormalizePath_correct:
  assumes "0 \<notin> set v" "v \<noteq> []"
  shows "\<exists>w t'. xmlNormalizePath (Ptr (v @ 0 # t)) isFile = Some (0, Ptr (w @ 0 # t')) \<and>
    0 \<notin> set w \<and> length w \<le> length v \<and> length (w @ 0 # t') = length (v @ 0 # t) \<and>
    (\<forall>u. norm_path v = Some u \<longrightarrow> w = (if isFile \<and> u = [] then asc ''.'' else u))"
  using assms by (rule normalize_path)

lemma xmlNormalizePath_correct_witness:
  "norm_path (asc ''/a/./b//../c'') = Some (asc ''/a/c'') \<and>
   (\<exists>w t'. xmlNormalizePath (Ptr (asc ''/a/./b//../c'' @ 0 # [])) True = Some (0, Ptr (w @ 0 # t')) \<and> w = asc ''/a/c'')"
proof -
  have n: "norm_path (asc ''/a/./b//../c'') = Some (asc ''/a/c'')"
    by (simp add: norm_path_def segs.simps push_def dirs_def)
  then show ?thesis using xmlNormalizePath_correct [of "asc ''/a/./b//../c''" "[]" True] by auto
qed

end
