(* ===== verification/UriMerge.thy ===== *)
theory UriMerge
  imports UriText UriPaths
begin

text \<open>
  Resolution of references: what \<open>xmlBuildURISafe\<close> makes of the components of the reference and of the base, and the
  steps of RFC 2396, section 5.2, with which it agrees but for the references that \<open>departs\<close> lists.
\<close>

section \<open>Resolving a reference\<close>

definition dup :: "xmlString \<Rightarrow> xmlString" where
  "dup x = (case x of NULL \<Rightarrow> NULL | Ptr s \<Rightarrow> Ptr (cstr_of (strval s)))"

abbreviation text_of :: "xmlString \<Rightarrow> bytes" where
  "text_of x \<equiv> field_text x (\<lambda>v. v)"



definition with_query :: "xmlURI \<Rightarrow> xmlURI \<Rightarrow> xmlURI" where
  "with_query u r = (if query_raw u \<noteq> NULL then r\<lparr>query_raw := dup (query_raw u)\<rparr>
     else if query u \<noteq> NULL then r\<lparr>query := dup (query u)\<rparr> else r)"



lemma terminated_dup [simp]: "terminated (dup x)"
  by (simp add: terminated_def dup_def split: ptr.split)

lemma field_text_dup [simp]: "field_text (dup x) f = field_text x f"
  by (simp add: dup_def field_text_def split: ptr.split)

lemma dup_NULL [simp]: "dup x = NULL \<longleftrightarrow> x = NULL"
  by (simp add: dup_def split: ptr.split)



lemma seq_fields_ok: "f res = Some (Ptr res') \<Longrightarrow> seq_fields f g res = g res'"
  by (simp add: seq_fields_def)


























section \<open>Section 5.2 of RFC 2396\<close>





definition alike :: "xmlString \<Rightarrow> xmlString \<Rightarrow> bool" where
  "alike x y \<longleftrightarrow> (x = NULL \<longleftrightarrow> y = NULL) \<and> text_of x = text_of y"

lemma alike_simps [simp]: "alike x x" "alike (dup x) x" "alike x (dup x)"
  by (simp_all add: alike_def)



lemma append_one: "(@) [c] = (#) c"
  by (simp add: fun_eq_iff)


lemma query_out_upd [simp]:
  "query_out (u\<lparr>scheme := x\<rparr>) = query_out u" "query_out (u\<lparr>server := x\<rparr>) = query_out u" "query_out (u\<lparr>user := x\<rparr>) = query_out u"
  "query_out (u\<lparr>port := k\<rparr>) = query_out u" "query_out (u\<lparr>path := x\<rparr>) = query_out u" "query_out (u\<lparr>fragment := x\<rparr>) = query_out u"
  by (simp_all add: query_out_def append_one)

lemma with_query_sel [simp]:
  "scheme (with_query u r) = scheme r" "opaque (with_query u r) = opaque r" "authority (with_query u r) = authority r"
  "server (with_query u r) = server r" "user (with_query u r) = user r" "port (with_query u r) = port r" "path (with_query u r) = path r"
  "fragment (with_query u r) = fragment r"
  by (simp_all add: with_query_def)













end
