(* ===== verification/XmlTree.thy ===== *)
theory XmlTree
  imports Xmlstring
begin

text \<open>
  The nodes of \<open>tree.c\<close> on a heap, with the parts of \<open>valid.c\<close> and \<open>entities.c\<close> that a move to another document calls.  An
  operation has the result None when it reads or frees a node that is not there, follows NULL, or does not end.  Strings are values
  with the place where they stand, a dictionary is a number, and a symbol table is a map.
\<close>

section \<open>Nodes\<close>

type_synonym addr = nat

datatype xmlElementType =
  XML_ELEMENT_NODE | XML_ATTRIBUTE_NODE | XML_TEXT_NODE | XML_CDATA_SECTION_NODE | XML_ENTITY_REF_NODE | XML_ENTITY_NODE
| XML_PI_NODE | XML_COMMENT_NODE | XML_DOCUMENT_NODE | XML_DOCUMENT_TYPE_NODE | XML_DOCUMENT_FRAG_NODE | XML_NOTATION_NODE
| XML_HTML_DOCUMENT_NODE | XML_DTD_NODE | XML_ELEMENT_DECL | XML_ATTRIBUTE_DECL | XML_ENTITY_DECL | XML_NAMESPACE_DECL
| XML_XINCLUDE_START | XML_XINCLUDE_END

datatype xmlEntityType =
  XML_INTERNAL_GENERAL_ENTITY | XML_EXTERNAL_GENERAL_PARSED_ENTITY | XML_EXTERNAL_GENERAL_UNPARSED_ENTITY
| XML_INTERNAL_PARAMETER_ENTITY | XML_EXTERNAL_PARAMETER_ENTITY | XML_INTERNAL_PREDEFINED_ENTITY

text \<open>
  Where the bytes of a string stand: in a static array, in a block of their own, inside the node, or in the pool of a
  dictionary.  Static strings and strings of one dictionary are equal as pointers when their bytes are.
\<close>

datatype place = Static | Malloced | Inline | Interned nat

type_synonym str = "place \<times> bytes"

text \<open>
  One record for the structures that share the common part of a node; the last fields belong to attributes,
  documents, DTDs and entities.  \<open>ns\<close> is NULL or gives \<open>ns->href\<close>; \<open>attr_id\<close> is NULL or gives
  \<open>id->value\<close>.  The symbol tables are maps: \<open>ids\<close> gives the attribute of the identifier, \<open>entities\<close> and
  \<open>pentities\<close> the entity.  \<open>dict\<close> lists a dictionary and those below it; no dictionary is the empty list.
\<close>

record xmlNode =
  ntype :: xmlElementType
  name :: "str ptr"
  children :: "addr ptr"
  lastChild :: "addr ptr"
  parent :: "addr ptr"
  nextSib :: "addr ptr"
  prevSib :: "addr ptr"
  ndoc :: "addr ptr"
  ns :: "xmlString ptr"
  content :: "str ptr"
  properties :: "addr ptr"
  attr_id :: "bytes ptr"
  standalone :: int
  intSubset :: "addr ptr"
  extSubset :: "addr ptr"
  ids :: "(bytes \<rightharpoonup> addr ptr) ptr"
  ndict :: "nat list"
  entities :: "(bytes \<rightharpoonup> addr) ptr"
  pentities :: "(bytes \<rightharpoonup> addr) ptr"
  etype :: xmlEntityType

text \<open>The heap of nodes; freed nodes are not in its domain.\<close>

type_synonym nheap = "addr \<Rightarrow> xmlNode option"

definition upd :: "addr \<Rightarrow> (xmlNode \<Rightarrow> xmlNode) \<Rightarrow> nheap \<Rightarrow> nheap option" where
  "upd a f h = do { n \<leftarrow> h a; Some (h(a \<mapsto> f n)) }"

text \<open>\<open>if (p != NULL) p->field = \<dots>\<close>\<close>

definition upd_if :: "addr ptr \<Rightarrow> (xmlNode \<Rightarrow> xmlNode) \<Rightarrow> nheap \<Rightarrow> nheap option" where
  "upd_if p f h = (case p of NULL \<Rightarrow> Some h | Ptr a \<Rightarrow> upd a f h)"

text \<open>
  What the tree takes from its environment: the allocator, and which dictionary of a list holds the string that
  \<open>xmlDictLookup\<close> returns, NULL when it can not be added.
\<close>

record env =
  mem :: allocator
  interns :: "nat list \<Rightarrow> bytes \<Rightarrow> nat ptr"

definition raw_str :: "str ptr \<Rightarrow> xmlString" where
  "raw_str s = (case s of NULL \<Rightarrow> NULL | Ptr (_, v) \<Rightarrow> Ptr v)"

definition malloced :: "xmlString \<Rightarrow> str ptr" where
  "malloced s = (case s of NULL \<Rightarrow> NULL | Ptr v \<Rightarrow> Ptr (Malloced, v))"

definition owns :: "nat list \<Rightarrow> str ptr \<Rightarrow> bool" where
  "owns d s \<longleftrightarrow> (case s of Ptr (Interned i, _) \<Rightarrow> i \<in> set d | _ \<Rightarrow> False)"

definition intern :: "env \<Rightarrow> nat list \<Rightarrow> str ptr \<Rightarrow> str ptr" where
  "intern e d s = (case s of NULL \<Rightarrow> NULL | Ptr (_, v) \<Rightarrow> (case interns e d v of NULL \<Rightarrow> NULL | Ptr i \<Rightarrow> Ptr (Interned i, v)))"

definition dup_str :: "env \<Rightarrow> str ptr \<Rightarrow> str ptr option" where
  "dup_str e s = map_option malloced (xmlStrdup (mem e) (raw_str s))"

section \<open>Unlinking\<close>

text \<open>The parent without \<open>cur\<close>, an attribute or not, between \<open>prev\<close> and \<open>next'\<close>.\<close>

definition skip_in :: "bool \<Rightarrow> addr \<Rightarrow> addr ptr \<Rightarrow> addr ptr \<Rightarrow> xmlNode \<Rightarrow> xmlNode" where
  "skip_in att cur prev next' m =
     (if att then (if properties m = Ptr cur then m\<lparr>properties := next'\<rparr> else m)
      else m\<lparr>children := (if children m = Ptr cur then next' else children m),
             lastChild := (if lastChild m = Ptr cur then prev else lastChild m)\<rparr>)"

definition xmlUnlinkNodeInternal :: "addr \<Rightarrow> nheap \<Rightarrow> nheap option" where
  "xmlUnlinkNodeInternal cur h = do {
     n \<leftarrow> h cur;
     h1 \<leftarrow> (case parent n of
              NULL \<Rightarrow> Some h
            | Ptr p \<Rightarrow> do {
                h1 \<leftarrow> upd p (skip_in (ntype n = XML_ATTRIBUTE_NODE) cur (prevSib n) (nextSib n)) h;
                upd cur (\<lambda>m. m\<lparr>parent := NULL\<rparr>) h1 });
     n1 \<leftarrow> h1 cur;
     h2 \<leftarrow> upd_if (nextSib n1) (\<lambda>m. m\<lparr>prevSib := prevSib n1\<rparr>) h1;
     n2 \<leftarrow> h2 cur;
     h3 \<leftarrow> upd_if (prevSib n2) (\<lambda>m. m\<lparr>nextSib := nextSib n2\<rparr>) h2;
     upd cur (\<lambda>m. m\<lparr>nextSib := NULL, prevSib := NULL\<rparr>) h3 }"

text \<open>The symbol tables, by the value of the name; a lookup in no table or of no name finds nothing.\<close>

definition table_lookup :: "(bytes \<rightharpoonup> addr) ptr \<Rightarrow> str ptr \<Rightarrow> addr ptr" where
  "table_lookup t nm = (case (t, nm) of (Ptr t, Ptr (_, v)) \<Rightarrow> (case t (strval v) of None \<Rightarrow> NULL | Some a \<Rightarrow> Ptr a) | _ \<Rightarrow> NULL)"

definition table_remove :: "(bytes \<rightharpoonup> addr) ptr \<Rightarrow> str ptr \<Rightarrow> (bytes \<rightharpoonup> addr) ptr" where
  "table_remove t nm = (case (t, nm) of (Ptr t, Ptr (_, v)) \<Rightarrow> Ptr (t(strval v := None)) | _ \<Rightarrow> t)"

definition is_general :: "xmlEntityType \<Rightarrow> bool" where
  "is_general t \<longleftrightarrow> t \<in> {XML_INTERNAL_GENERAL_ENTITY, XML_EXTERNAL_GENERAL_PARSED_ENTITY, XML_EXTERNAL_GENERAL_UNPARSED_ENTITY}"

definition is_parameter :: "xmlEntityType \<Rightarrow> bool" where
  "is_parameter t \<longleftrightarrow> t \<in> {XML_INTERNAL_PARAMETER_ENTITY, XML_EXTERNAL_PARAMETER_ENTITY}"

text \<open>One subset: a parameter entity is looked up in \<open>pentities\<close>, but removed from \<open>entities\<close> as well.\<close>

definition remove_from :: "addr ptr \<Rightarrow> addr \<Rightarrow> xmlNode \<Rightarrow> nheap \<Rightarrow> nheap option" where
  "remove_from sub a ent h =
     (case sub of
        NULL \<Rightarrow> Some h
      | Ptr s \<Rightarrow> do {
          dtd \<leftarrow> h s;
          let found = table_lookup (if is_general (etype ent) then entities dtd else pentities dtd) (name ent);
          if found = Ptr a then upd s (\<lambda>m. m\<lparr>entities := table_remove (entities m) (name ent)\<rparr>) h else Some h })"

definition xmlRemoveEntity :: "addr \<Rightarrow> nheap \<Rightarrow> nheap option" where
  "xmlRemoveEntity a h = do {
     ent \<leftarrow> h a;
     case ndoc ent of
       NULL \<Rightarrow> Some h
     | Ptr d \<Rightarrow> do {
         doc \<leftarrow> h d;
         if is_general (etype ent) \<or> is_parameter (etype ent) then do {
           h1 \<leftarrow> remove_from (intSubset doc) a ent h;
           remove_from (extSubset doc) a ent h1 }
         else Some h } }"

text \<open>\<open>if (doc->intSubset == dtd) doc->intSubset = NULL;\<close> and the same for \<open>extSubset\<close>\<close>

definition clear_subsets :: "addr \<Rightarrow> xmlNode \<Rightarrow> xmlNode" where
  "clear_subsets dtd m = m
     \<lparr>intSubset := (if intSubset m = Ptr dtd then NULL else intSubset m),
      extSubset := (if extSubset m = Ptr dtd then NULL else extSubset m)\<rparr>"

definition xmlUnlinkNode :: "addr ptr \<Rightarrow> nheap \<Rightarrow> nheap option" where
  "xmlUnlinkNode curp h =
     (case curp of
        NULL \<Rightarrow> Some h
      | Ptr cur \<Rightarrow> do {
          n \<leftarrow> h cur;
          if ntype n = XML_NAMESPACE_DECL then Some h
          else do {
            h1 \<leftarrow> (if ntype n = XML_DTD_NODE then upd_if (ndoc n) (clear_subsets cur) h else Some h);
            h2 \<leftarrow> (if ntype n = XML_ENTITY_DECL then xmlRemoveEntity cur h1 else Some h1);
            xmlUnlinkNodeInternal cur h2 } })"

section \<open>Moving to another document\<close>

text \<open>The code and the heap; \<open>xmlFreeID\<close> clears the identifier of the attribute that the entry names.\<close>

definition xmlRemoveID :: "addr ptr \<Rightarrow> addr \<Rightarrow> nheap \<Rightarrow> (int \<times> nheap) option" where
  "xmlRemoveID docp attr h =
     (case docp of
        NULL \<Rightarrow> Some (- 1, h)
      | Ptr d \<Rightarrow> do {
          a \<leftarrow> h attr;
          case attr_id a of
            NULL \<Rightarrow> Some (- 1, h)
          | Ptr v \<Rightarrow> do {
              doc \<leftarrow> h d;
              case ids doc of
                NULL \<Rightarrow> Some (- 1, h)
              | Ptr t \<Rightarrow>
                  (case t v of
                     None \<Rightarrow> Some (- 1, h)
                   | Some holder \<Rightarrow> do {
                       h1 \<leftarrow> upd d (\<lambda>m. m\<lparr>ids := Ptr (t(v := None))\<rparr>) h;
                       h2 \<leftarrow> upd_if holder (\<lambda>m. m\<lparr>attr_id := NULL\<rparr>) h1;
                       Some (0, h2) }) } })"

text \<open>The predefined entities are static nodes.\<close>

definition xmlEntityLt :: addr where "xmlEntityLt = 0"
definition xmlEntityGt :: addr where "xmlEntityGt = 1"
definition xmlEntityAmp :: addr where "xmlEntityAmp = 2"
definition xmlEntityApos :: addr where "xmlEntityApos = 3"
definition xmlEntityQuot :: addr where "xmlEntityQuot = 4"

definition xmlGetPredefinedEntity :: "str ptr \<Rightarrow> addr ptr" where
  "xmlGetPredefinedEntity nm =
     (case nm of
        NULL \<Rightarrow> NULL
      | Ptr (_, v) \<Rightarrow>
          (if strval v = asc ''lt'' then Ptr xmlEntityLt
           else if strval v = asc ''gt'' then Ptr xmlEntityGt
           else if strval v = asc ''amp'' then Ptr xmlEntityAmp
           else if strval v = asc ''apos'' then Ptr xmlEntityApos
           else if strval v = asc ''quot'' then Ptr xmlEntityQuot
           else NULL))"

definition subset_entity :: "addr ptr \<Rightarrow> str ptr \<Rightarrow> nheap \<Rightarrow> addr ptr option" where
  "subset_entity sub nm h = (case sub of NULL \<Rightarrow> Some NULL | Ptr s \<Rightarrow> do { dtd \<leftarrow> h s; Some (table_lookup (entities dtd) nm) })"

definition xmlGetDocEntity :: "addr ptr \<Rightarrow> str ptr \<Rightarrow> nheap \<Rightarrow> addr ptr option" where
  "xmlGetDocEntity docp nm h =
     (case docp of
        NULL \<Rightarrow> Some (xmlGetPredefinedEntity nm)
      | Ptr d \<Rightarrow> do {
          doc \<leftarrow> h d;
          cur \<leftarrow> subset_entity (intSubset doc) nm h;
          if cur \<noteq> NULL then Some cur
          else do {
            cur2 \<leftarrow> (if standalone doc \<noteq> 1 then subset_entity (extSubset doc) nm h else Some NULL);
            Some (if cur2 \<noteq> NULL then cur2 else xmlGetPredefinedEntity nm) } })"

definition doc_dict :: "addr ptr \<Rightarrow> nheap \<Rightarrow> nat list option" where
  "doc_dict docp h = (case docp of NULL \<Rightarrow> Some [] | Ptr d \<Rightarrow> map_option ndict (h d))"

text \<open>The strings of the node leave the old dictionary; the flag says that one of them was lost.\<close>

definition move_strings :: "env \<Rightarrow> nat list \<Rightarrow> nat list \<Rightarrow> xmlNode \<Rightarrow> (bool \<times> xmlNode) option" where
  "move_strings e oldDict newDict node =
     (if oldDict \<noteq> [] \<and> oldDict \<noteq> newDict then do {
        nm \<leftarrow> (if name node \<noteq> NULL \<and> ntype node \<in> {XML_ELEMENT_NODE, XML_ATTRIBUTE_NODE, XML_PI_NODE, XML_ENTITY_REF_NODE} \<and>
                 owns oldDict (name node)
               then (if newDict \<noteq> [] then Some (intern e newDict (name node)) else dup_str e (name node))
               else Some (name node));
        ct \<leftarrow> (if content node \<noteq> NULL \<and> ntype node \<in> {XML_TEXT_NODE, XML_CDATA_SECTION_NODE} \<and> owns oldDict (content node)
               then dup_str e (content node) else Some (content node));
        Some (name node \<noteq> NULL \<and> nm = NULL \<or> content node \<noteq> NULL \<and> ct = NULL, node\<lparr>name := nm, content := ct\<rparr>) }
      else Some (False, node))"

definition refer_entity :: "addr ptr \<Rightarrow> addr \<Rightarrow> nheap \<Rightarrow> nheap option" where
  "refer_entity docp a h0 = do {
     h \<leftarrow> upd a (\<lambda>m. m\<lparr>children := NULL, lastChild := NULL, content := NULL\<rparr>) h0;
     case docp of
       NULL \<Rightarrow> Some h
     | Ptr d \<Rightarrow> do {
         doc \<leftarrow> h d;
         n \<leftarrow> h a;
         if intSubset doc = NULL \<and> extSubset doc = NULL then Some h
         else do {
           entp \<leftarrow> xmlGetDocEntity docp (name n) h;
           case entp of
             NULL \<Rightarrow> Some h
           | Ptr ent \<Rightarrow> do {
               en \<leftarrow> h ent;
               upd a (\<lambda>m. m\<lparr>children := entp, lastChild := entp, content := content en\<rparr>) h } } } }"

text \<open>The flag is true when the code is -1.\<close>

definition xmlNodeSetDoc :: "env \<Rightarrow> addr \<Rightarrow> addr ptr \<Rightarrow> nheap \<Rightarrow> (bool \<times> nheap) option" where
  "xmlNodeSetDoc e a doc h = do {
     node \<leftarrow> h a;
     let oldDoc = ndoc node;
     oldDict \<leftarrow> doc_dict oldDoc h;
     newDict \<leftarrow> doc_dict doc h;
     (lost, node1) \<leftarrow> move_strings e oldDict newDict node;
     let h1 = h(a \<mapsto> node1);
     h2 \<leftarrow> (case ntype node of
              XML_ATTRIBUTE_NODE \<Rightarrow> (if attr_id node \<noteq> NULL then map_option snd (xmlRemoveID oldDoc a h1) else Some h1)
            | XML_ENTITY_REF_NODE \<Rightarrow> refer_entity doc a h1
            | XML_DTD_NODE \<Rightarrow> upd_if oldDoc (clear_subsets a) h1
            | XML_ENTITY_DECL \<Rightarrow> xmlRemoveEntity a h1
            | _ \<Rightarrow> Some h1);
     h3 \<leftarrow> upd a (\<lambda>m. m\<lparr>ndoc := doc\<rparr>) h2;
     Some (lost, h3) }"

text \<open>
  \<open>xmlSetTreeDoc\<close> and \<open>xmlSetListDoc\<close>: the tree of a node, a list of trees, the list of the attributes of an element.  The
  flag of the result says that a string was lost.
\<close>

datatype walk = Tree addr | Trees "addr ptr" | Attrs "addr ptr"

definition is_nsdecl :: "addr ptr \<Rightarrow> nheap \<Rightarrow> bool option" where
  "is_nsdecl p h = (case p of NULL \<Rightarrow> Some False | Ptr a \<Rightarrow> map_option (\<lambda>n. ntype n = XML_NAMESPACE_DECL) (h a))"

partial_function (option) set_doc :: "env \<Rightarrow> addr ptr \<Rightarrow> walk \<Rightarrow> bool \<times> nheap \<Rightarrow> (bool \<times> nheap) option" where
  "set_doc e doc w s =
     (case w of
        Tree a \<Rightarrow> Option.bind (snd s a) (\<lambda>n.
          if ntype n = XML_NAMESPACE_DECL \<or> ndoc n = doc then Some s
          else
            Option.bind (if ntype n = XML_ELEMENT_NODE then set_doc e doc (Attrs (properties n)) s else Some s) (\<lambda>s1.
            Option.bind (snd s1 a) (\<lambda>n1.
            Option.bind (if ntype n1 = XML_ENTITY_REF_NODE then Some True else is_nsdecl (children n1) (snd s1)) (\<lambda>skip.
            Option.bind (if \<not> skip then set_doc e doc (Trees (children n1)) s1 else Some s1) (\<lambda>s2.
            map_option (apfst (\<lambda>lost. fst s2 \<or> lost)) (xmlNodeSetDoc e a doc (snd s2)))))))
      | Trees p \<Rightarrow>
          (case p of
             NULL \<Rightarrow> Some s
           | Ptr a \<Rightarrow> Option.bind (snd s a) (\<lambda>n.
               Option.bind (if ndoc n \<noteq> doc then set_doc e doc (Tree a) s else Some s) (\<lambda>s1.
               Option.bind (snd s1 a) (\<lambda>n1. set_doc e doc (Trees (nextSib n1)) s1))))
      | Attrs p \<Rightarrow>
          (case p of
             NULL \<Rightarrow> Some s
           | Ptr a \<Rightarrow> Option.bind (snd s a) (\<lambda>n.
               Option.bind (is_nsdecl (children n) (snd s)) (\<lambda>skip.
               Option.bind (if \<not> skip then set_doc e doc (Trees (children n)) s else Some s) (\<lambda>s1.
               Option.bind (map_option (apfst (\<lambda>lost. fst s1 \<or> lost)) (xmlNodeSetDoc e a doc (snd s1))) (\<lambda>s2.
               Option.bind (snd s2 a) (\<lambda>n2. set_doc e doc (Attrs (nextSib n2)) s2)))))))"

definition xmlSetTreeDoc :: "env \<Rightarrow> addr ptr \<Rightarrow> addr ptr \<Rightarrow> nheap \<Rightarrow> (int \<times> nheap) option" where
  "xmlSetTreeDoc e tree doc h =
     (case tree of
        NULL \<Rightarrow> Some (0, h)
      | Ptr a \<Rightarrow> map_option (apfst (\<lambda>lost. if lost then - 1 else 0)) (set_doc e doc (Tree a) (False, h)))"

definition xmlSetListDoc :: "env \<Rightarrow> addr ptr \<Rightarrow> addr ptr \<Rightarrow> nheap \<Rightarrow> (int \<times> nheap) option" where
  "xmlSetListDoc e list doc h = do {
     skip \<leftarrow> is_nsdecl list h;
     if skip then Some (0, h)
     else map_option (apfst (\<lambda>lost. if lost then - 1 else 0)) (set_doc e doc (Trees list) (False, h)) }"

section \<open>Freeing\<close>

text \<open>
  \<open>xmlFreeNodeList\<close> with its depth, \<open>xmlFreePropList\<close> and \<open>xmlFreeProp\<close>.  A list that contains a document is
  None: \<open>xmlFreeDoc\<close> is not modelled.
\<close>

datatype garbage = Nodes addr nat | PropList "addr ptr" | Prop addr

definition has_props :: "xmlElementType \<Rightarrow> bool" where
  "has_props t \<longleftrightarrow> t \<in> {XML_ELEMENT_NODE, XML_XINCLUDE_START, XML_XINCLUDE_END}"

definition is_document :: "xmlElementType \<Rightarrow> bool" where
  "is_document t \<longleftrightarrow> t \<in> {XML_DOCUMENT_NODE, XML_HTML_DOCUMENT_NODE}"

definition release :: "addr \<Rightarrow> nheap \<Rightarrow> nheap option" where
  "release a h = do { _ \<leftarrow> h a; Some (h(a := None)) }"

partial_function (option) free_garbage :: "garbage \<Rightarrow> nheap \<Rightarrow> nheap option" where
  "free_garbage g h =
     (case g of
        Nodes cur depth \<Rightarrow> Option.bind (h cur) (\<lambda>n.
          case (if is_document (ntype n) \<or> ntype n \<in> {XML_DTD_NODE, XML_ENTITY_REF_NODE} then NULL else children n) of
            Ptr c \<Rightarrow> free_garbage (Nodes c (depth + 1)) h
          | NULL \<Rightarrow>
              Option.bind
                (if is_document (ntype n) then None
                 else if ntype n = XML_DTD_NODE then upd cur (\<lambda>m. m\<lparr>prevSib := NULL, nextSib := NULL\<rparr>) h
                 else Option.bind (if has_props (ntype n) then free_garbage (PropList (properties n)) h else Some h) (release cur)) (\<lambda>h1.
              case nextSib n of
                Ptr c \<Rightarrow> free_garbage (Nodes c depth) h1
              | NULL \<Rightarrow>
                  if depth = 0 then Some h1
                  else (case parent n of
                          NULL \<Rightarrow> Some h1
                        | Ptr p \<Rightarrow> Option.bind (upd p (\<lambda>m. m\<lparr>children := NULL\<rparr>) h1) (free_garbage (Nodes p (depth - 1))))))
      | PropList q \<Rightarrow>
          (case q of
             NULL \<Rightarrow> Some h
           | Ptr a \<Rightarrow> Option.bind (h a) (\<lambda>n. Option.bind (free_garbage (Prop a) h) (free_garbage (PropList (nextSib n)))))
      | Prop cur \<Rightarrow> Option.bind (h cur) (\<lambda>n.
          Option.bind (if ndoc n \<noteq> NULL \<and> attr_id n \<noteq> NULL then map_option snd (xmlRemoveID (ndoc n) cur h) else Some h) (\<lambda>h1.
          Option.bind (case children n of NULL \<Rightarrow> Some h1 | Ptr c \<Rightarrow> free_garbage (Nodes c 0) h1) (release cur))))"

definition xmlFreeNodeList :: "addr ptr \<Rightarrow> nheap \<Rightarrow> nheap option" where
  "xmlFreeNodeList p h =
     (case p of
        NULL \<Rightarrow> Some h
      | Ptr a \<Rightarrow> do { n \<leftarrow> h a; if ntype n = XML_NAMESPACE_DECL then None else free_garbage (Nodes a 0) h })"

definition xmlFreeProp :: "addr \<Rightarrow> nheap \<Rightarrow> nheap option" where
  "xmlFreeProp a = free_garbage (Prop a)"

definition xmlFreePropList :: "addr ptr \<Rightarrow> nheap \<Rightarrow> nheap option" where
  "xmlFreePropList p = free_garbage (PropList p)"

text \<open>DTDs, namespace and entity declarations, which have their own functions, are None.\<close>

definition xmlFreeNode :: "addr \<Rightarrow> nheap \<Rightarrow> nheap option" where
  "xmlFreeNode cur h = do {
     n \<leftarrow> h cur;
     if ntype n \<in> {XML_DTD_NODE, XML_NAMESPACE_DECL, XML_ENTITY_DECL} then None
     else if ntype n = XML_ATTRIBUTE_NODE then xmlFreeProp cur h
     else do {
       h1 \<leftarrow> (if ntype n \<noteq> XML_ENTITY_REF_NODE then xmlFreeNodeList (children n) h else Some h);
       h2 \<leftarrow> (if has_props (ntype n) then xmlFreePropList (properties n) h1 else Some h1);
       release cur h2 } }"

section \<open>Attributes and text\<close>

text \<open>The search of \<open>xmlGetPropNodeInternal\<close> among the attributes (\<open>useDTD\<close> is 0).\<close>

partial_function (option) prop_loop :: "nheap \<Rightarrow> xmlString \<Rightarrow> xmlString \<Rightarrow> addr ptr \<Rightarrow> addr ptr option" where
  "prop_loop h nm nsName p =
     (case p of
        NULL \<Rightarrow> Some NULL
      | Ptr a \<Rightarrow> Option.bind (h a) (\<lambda>prop.
          Option.bind
            (case ns prop of
               NULL \<Rightarrow> if nsName = NULL then xmlStrEqual False (raw_str (name prop)) nm else Some False
             | Ptr href \<Rightarrow>
                 if nsName = NULL then Some False
                 else Option.bind (xmlStrEqual False (raw_str (name prop)) nm) (\<lambda>same.
                   if same then xmlStrEqual False href nsName else Some False)) (\<lambda>found.
          if found then Some p else prop_loop h nm nsName (nextSib prop))))"

definition xmlGetPropNodeInternal :: "addr ptr \<Rightarrow> xmlString \<Rightarrow> xmlString \<Rightarrow> nheap \<Rightarrow> addr ptr option" where
  "xmlGetPropNodeInternal nodep nm nsName h =
     (case nodep of
        NULL \<Rightarrow> Some NULL
      | Ptr a \<Rightarrow> do {
          node \<leftarrow> h a;
          if ntype node \<noteq> XML_ELEMENT_NODE \<or> nm = NULL then Some NULL
          else prop_loop h nm nsName (properties node) })"

text \<open>\<open>while (tmp != NULL) { if (tmp->next == cur) \<dots>; tmp = tmp->next; }\<close>: the attribute before \<open>cur\<close>.\<close>

partial_function (option) find_before :: "nheap \<Rightarrow> addr \<Rightarrow> addr ptr \<Rightarrow> addr ptr option" where
  "find_before h cur tmp =
     (case tmp of
        NULL \<Rightarrow> Some NULL
      | Ptr t \<Rightarrow> Option.bind (h t) (\<lambda>n. if nextSib n = Ptr cur then Some tmp else find_before h cur (nextSib n)))"

definition xmlRemoveProp :: "addr ptr \<Rightarrow> nheap \<Rightarrow> (int \<times> nheap) option" where
  "xmlRemoveProp curp h =
     (case curp of
        NULL \<Rightarrow> Some (- 1, h)
      | Ptr cur \<Rightarrow> do {
          n \<leftarrow> h cur;
          case parent n of
            NULL \<Rightarrow> Some (- 1, h)
          | Ptr p \<Rightarrow> do {
              m \<leftarrow> h p;
              if properties m = Ptr cur then do {
                h1 \<leftarrow> upd p (\<lambda>m. m\<lparr>properties := nextSib n\<rparr>) h;
                h2 \<leftarrow> upd_if (nextSib n) (\<lambda>m. m\<lparr>prevSib := NULL\<rparr>) h1;
                h3 \<leftarrow> xmlFreeProp cur h2;
                Some (0, h3) }
              else do {
                tmp \<leftarrow> find_before h cur (properties m);
                case tmp of
                  NULL \<Rightarrow> Some (- 1, h)
                | Ptr t \<Rightarrow> do {
                    h1 \<leftarrow> upd t (\<lambda>m. m\<lparr>nextSib := nextSib n\<rparr>) h;
                    tn \<leftarrow> h1 t;
                    h2 \<leftarrow> upd_if (nextSib tn) (\<lambda>m. m\<lparr>prevSib := tmp\<rparr>) h1;
                    h3 \<leftarrow> xmlFreeProp cur h2;
                    Some (0, h3) } } } })"

definition xmlTextSetContent :: "addr \<Rightarrow> str ptr \<Rightarrow> nheap \<Rightarrow> nheap option" where
  "xmlTextSetContent t c = upd t (\<lambda>m. m\<lparr>content := c, properties := NULL\<rparr>)"

definition xmlTextAddContent :: "env \<Rightarrow> addr \<Rightarrow> str ptr \<Rightarrow> int \<Rightarrow> nheap \<Rightarrow> (int \<times> nheap) option" where
  "xmlTextAddContent e t c len h =
     (if c = NULL then Some (0, h)
      else do {
        n \<leftarrow> h t;
        merged \<leftarrow> xmlStrncatNew (mem e) (raw_str (content n)) (raw_str c) len;
        if merged = NULL then Some (- 1, h)
        else do { h1 \<leftarrow> xmlTextSetContent t (malloced merged) h; Some (0, h1) } })"

definition xmlTextConcat :: "env \<Rightarrow> addr ptr \<Rightarrow> str ptr \<Rightarrow> int \<Rightarrow> nheap \<Rightarrow> (int \<times> nheap) option" where
  "xmlTextConcat e nodep c len h =
     (case nodep of
        NULL \<Rightarrow> Some (- 1, h)
      | Ptr a \<Rightarrow> do {
          n \<leftarrow> h a;
          if ntype n \<notin> {XML_TEXT_NODE, XML_CDATA_SECTION_NODE, XML_COMMENT_NODE, XML_PI_NODE} then Some (- 1, h)
          else xmlTextAddContent e a c len h })"

section \<open>Inserting\<close>

definition type_of :: "addr ptr \<Rightarrow> nheap \<Rightarrow> xmlElementType ptr option" where
  "type_of p h = (case p of NULL \<Rightarrow> Some NULL | Ptr a \<Rightarrow> map_option (\<lambda>n. Ptr (ntype n)) (h a))"

text \<open>The three assignments to \<open>cur\<close>, and those to its neighbours.\<close>

definition place_node :: "addr \<Rightarrow> addr ptr \<Rightarrow> addr ptr \<Rightarrow> addr ptr \<Rightarrow> nheap \<Rightarrow> nheap option" where
  "place_node cur parentp prev next' = upd cur (\<lambda>m. m\<lparr>parent := parentp, prevSib := prev, nextSib := next'\<rparr>)"

text \<open>The new node, NULL on failure, and the heap.\<close>

definition xmlInsertProp :: "env \<Rightarrow> addr ptr \<Rightarrow> addr \<Rightarrow> addr ptr \<Rightarrow> addr ptr \<Rightarrow> addr ptr \<Rightarrow> nheap \<Rightarrow> (addr ptr \<times> nheap) option" where
  "xmlInsertProp e doc cur parentp prev next' h = do {
     tp \<leftarrow> type_of prev h;
     tn \<leftarrow> type_of next' h;
     if tp \<notin> {NULL, Ptr XML_ATTRIBUTE_NODE} \<or> tn \<notin> {NULL, Ptr XML_ATTRIBUTE_NODE} then Some (NULL, h)
     else do {
       c \<leftarrow> h cur;
       attr \<leftarrow> xmlGetPropNodeInternal parentp (raw_str (name c)) (case ns c of NULL \<Rightarrow> NULL | Ptr href \<Rightarrow> href) h;
       h1 \<leftarrow> xmlUnlinkNodeInternal cur h;
       c1 \<leftarrow> h1 cur;
       (code, h2) \<leftarrow> (if ndoc c1 \<noteq> doc then xmlSetTreeDoc e (Ptr cur) doc h1 else Some (0, h1));
       if code < 0 then Some (NULL, h2)
       else do {
         h3 \<leftarrow> place_node cur parentp prev next' h2;
         h4 \<leftarrow> (case prev of
                  NULL \<Rightarrow> upd_if parentp (\<lambda>m. m\<lparr>properties := Ptr cur\<rparr>) h3
                | Ptr p \<Rightarrow> upd p (\<lambda>m. m\<lparr>nextSib := Ptr cur\<rparr>) h3);
         h5 \<leftarrow> upd_if next' (\<lambda>m. m\<lparr>prevSib := Ptr cur\<rparr>) h4;
         h6 \<leftarrow> (if attr \<noteq> NULL \<and> attr \<noteq> Ptr cur then map_option snd (xmlRemoveProp attr h5) else Some h5);
         Some (Ptr cur, h6) } } }"

text \<open>
  A text node next to which \<open>cur\<close> is inserted takes over its content: NULL when \<open>cur\<close> is not merged, otherwise the result of
  the insertion.  The names are compared as pointers: a string in a block of its own or inside a node is equal to no string of
  another node.
\<close>

definition same_pointer :: "str ptr \<Rightarrow> str ptr \<Rightarrow> bool" where
  "same_pointer s t \<longleftrightarrow>
     (case (s, t) of
        (NULL, NULL) \<Rightarrow> True
      | (Ptr (Static, u), Ptr (Static, v)) \<Rightarrow> u = v
      | (Ptr (Interned i, u), Ptr (Interned j, v)) \<Rightarrow> i = j \<and> u = v
      | _ \<Rightarrow> False)"

definition mergeable :: "addr ptr \<Rightarrow> addr \<Rightarrow> xmlNode \<Rightarrow> nheap \<Rightarrow> bool option" where
  "mergeable p cur c h =
     (case p of
        NULL \<Rightarrow> Some False
      | Ptr a \<Rightarrow> map_option (\<lambda>n. ntype n = XML_TEXT_NODE \<and> (a = cur \<or> same_pointer (name n) (name c))) (h a))"

definition drop_node :: "addr \<Rightarrow> nheap \<Rightarrow> nheap option" where
  "drop_node cur h = do { h1 \<leftarrow> xmlUnlinkNodeInternal cur h; xmlFreeNode cur h1 }"

definition coalesce_prev :: "env \<Rightarrow> addr \<Rightarrow> addr ptr \<Rightarrow> nheap \<Rightarrow> (addr ptr \<times> nheap) ptr option" where
  "coalesce_prev e cur prev h = do {
     c \<leftarrow> h cur;
     m \<leftarrow> mergeable prev cur c h;
     case prev of
       NULL \<Rightarrow> Some NULL
     | Ptr p \<Rightarrow>
         if \<not> m then Some NULL
         else do {
           (code, h1) \<leftarrow> xmlTextAddContent e p (content c) (- 1) h;
           if code < 0 then Some (Ptr (NULL, h1))
           else do { h2 \<leftarrow> drop_node cur h1; Some (Ptr (prev, h2)) } } }"

definition coalesce_next :: "env \<Rightarrow> addr \<Rightarrow> addr ptr \<Rightarrow> nheap \<Rightarrow> (addr ptr \<times> nheap) ptr option" where
  "coalesce_next e cur next' h = do {
     c \<leftarrow> h cur;
     m \<leftarrow> mergeable next' cur c h;
     case next' of
       NULL \<Rightarrow> Some NULL
     | Ptr x \<Rightarrow>
         if \<not> m then Some NULL
         else if content c = NULL then do { h2 \<leftarrow> drop_node cur h; Some (Ptr (next', h2)) }
         else do {
           n \<leftarrow> h x;
           merged \<leftarrow> xmlStrncatNew (mem e) (raw_str (content c)) (raw_str (content n)) (- 1);
           if merged = NULL then Some (Ptr (NULL, h))
           else do {
             h1 \<leftarrow> xmlTextSetContent x (malloced merged) h;
             h2 \<leftarrow> drop_node cur h1;
             Some (Ptr (next', h2)) } } }"

text \<open>The part of \<open>xmlInsertNode\<close> behind the merging of text.\<close>

definition link_node :: "env \<Rightarrow> addr ptr \<Rightarrow> addr \<Rightarrow> addr ptr \<Rightarrow> addr ptr \<Rightarrow> addr ptr \<Rightarrow> nheap \<Rightarrow> (addr ptr \<times> nheap) option" where
  "link_node e doc cur parentp prev next' h = do {
     c \<leftarrow> h cur;
     h1 \<leftarrow> upd_if (parent c) (skip_in False cur (prevSib c) (nextSib c)) h;
     c1 \<leftarrow> h1 cur;
     h2 \<leftarrow> upd_if (nextSib c1) (\<lambda>m. m\<lparr>prevSib := prevSib c1\<rparr>) h1;
     c2 \<leftarrow> h2 cur;
     h3 \<leftarrow> upd_if (prevSib c2) (\<lambda>m. m\<lparr>nextSib := nextSib c2\<rparr>) h2;
     c3 \<leftarrow> h3 cur;
     (code, h4) \<leftarrow> (if ndoc c3 \<noteq> doc then xmlSetTreeDoc e (Ptr cur) doc h3 else Some (0, h3));
     if code < 0 then do { h5 \<leftarrow> place_node cur NULL NULL NULL h4; Some (NULL, h5) }
     else do {
       h5 \<leftarrow> place_node cur parentp prev next' h4;
       h6 \<leftarrow> (case prev of
                NULL \<Rightarrow> upd_if parentp (\<lambda>m. m\<lparr>children := Ptr cur\<rparr>) h5
              | Ptr p \<Rightarrow> upd p (\<lambda>m. m\<lparr>nextSib := Ptr cur\<rparr>) h5);
       h7 \<leftarrow> (case next' of
                NULL \<Rightarrow> upd_if parentp (\<lambda>m. m\<lparr>lastChild := Ptr cur\<rparr>) h6
              | Ptr x \<Rightarrow> upd x (\<lambda>m. m\<lparr>prevSib := Ptr cur\<rparr>) h6);
       Some (Ptr cur, h7) } }"

definition xmlInsertNode :: "env \<Rightarrow> addr ptr \<Rightarrow> addr \<Rightarrow> addr ptr \<Rightarrow> addr ptr \<Rightarrow> addr ptr \<Rightarrow> bool \<Rightarrow> nheap \<Rightarrow> (addr ptr \<times> nheap) option" where
  "xmlInsertNode e doc cur parentp prev next' coalesce h = do {
     c \<leftarrow> h cur;
     if ntype c = XML_ATTRIBUTE_NODE then xmlInsertProp e doc cur parentp prev next' h
     else do {
       r1 \<leftarrow> (if coalesce \<and> ntype c = XML_TEXT_NODE then coalesce_prev e cur prev h else Some NULL);
       case r1 of
         Ptr r \<Rightarrow> Some r
       | NULL \<Rightarrow> do {
           r2 \<leftarrow> (if coalesce \<and> ntype c = XML_TEXT_NODE then coalesce_next e cur next' h else Some NULL);
           case r2 of
             Ptr r \<Rightarrow> Some r
           | NULL \<Rightarrow> link_node e doc cur parentp prev next' h } } }"

text \<open>The first test of the public functions.\<close>

definition unusable :: "addr ptr \<Rightarrow> nheap \<Rightarrow> bool option" where
  "unusable p h = (case p of NULL \<Rightarrow> Some True | Ptr a \<Rightarrow> map_option (\<lambda>n. ntype n = XML_NAMESPACE_DECL) (h a))"

definition xmlAddNextSibling :: "env \<Rightarrow> addr ptr \<Rightarrow> addr ptr \<Rightarrow> nheap \<Rightarrow> (addr ptr \<times> nheap) option" where
  "xmlAddNextSibling e prev curp h = do {
     u1 \<leftarrow> unusable prev h;
     u2 \<leftarrow> (if u1 then Some True else unusable curp h);
     case (prev, curp) of
       (Ptr p, Ptr cur) \<Rightarrow>
         if u2 \<or> cur = p then Some (NULL, h)
         else do {
           n \<leftarrow> h p;
           if nextSib n = curp then Some (curp, h)
           else xmlInsertNode e (ndoc n) cur (parent n) prev (nextSib n) False h }
     | _ \<Rightarrow> Some (NULL, h) }"

definition xmlAddPrevSibling :: "env \<Rightarrow> addr ptr \<Rightarrow> addr ptr \<Rightarrow> nheap \<Rightarrow> (addr ptr \<times> nheap) option" where
  "xmlAddPrevSibling e next' curp h = do {
     u1 \<leftarrow> unusable next' h;
     u2 \<leftarrow> (if u1 then Some True else unusable curp h);
     case (next', curp) of
       (Ptr x, Ptr cur) \<Rightarrow>
         if u2 \<or> cur = x then Some (NULL, h)
         else do {
           n \<leftarrow> h x;
           if prevSib n = curp then Some (curp, h)
           else xmlInsertNode e (ndoc n) cur (parent n) (prevSib n) next' False h }
     | _ \<Rightarrow> Some (NULL, h) }"

text \<open>\<open>while (node->next != NULL) node = node->next;\<close>\<close>

partial_function (option) last_sibling :: "nheap \<Rightarrow> addr \<Rightarrow> addr option" where
  "last_sibling h a = Option.bind (h a) (\<lambda>n. case nextSib n of NULL \<Rightarrow> Some a | Ptr b \<Rightarrow> last_sibling h b)"

definition xmlAddSibling :: "env \<Rightarrow> addr ptr \<Rightarrow> addr ptr \<Rightarrow> nheap \<Rightarrow> (addr ptr \<times> nheap) option" where
  "xmlAddSibling e nodep curp h = do {
     u1 \<leftarrow> unusable nodep h;
     u2 \<leftarrow> (if u1 then Some True else unusable curp h);
     case (nodep, curp) of
       (Ptr a, Ptr cur) \<Rightarrow>
         if u2 \<or> cur = a then Some (NULL, h)
         else do {
           n \<leftarrow> h a;
           b \<leftarrow> (case parent n of
                   Ptr p \<Rightarrow>
                     if ntype n \<noteq> XML_ATTRIBUTE_NODE then do {
                       m \<leftarrow> h p;
                       Some (case lastChild m of NULL \<Rightarrow> a | Ptr l \<Rightarrow> l) }
                     else last_sibling h a
                 | NULL \<Rightarrow> last_sibling h a);
           if cur = b then Some (curp, h)
           else do { k \<leftarrow> h b; xmlInsertNode e (ndoc k) cur (parent k) (Ptr b) NULL True h } }
     | _ \<Rightarrow> Some (NULL, h) }"

definition xmlAddChild :: "env \<Rightarrow> addr ptr \<Rightarrow> addr ptr \<Rightarrow> nheap \<Rightarrow> (addr ptr \<times> nheap) option" where
  "xmlAddChild e parentp curp h = do {
     u1 \<leftarrow> unusable parentp h;
     u2 \<leftarrow> (if u1 then Some True else unusable curp h);
     case (parentp, curp) of
       (Ptr p, Ptr cur) \<Rightarrow>
         if u2 \<or> p = cur then Some (NULL, h)
         else do {
           n \<leftarrow> h p;
           c \<leftarrow> h cur;
           if ntype n = XML_TEXT_NODE then do {
             (code, h1) \<leftarrow> xmlTextAddContent e p (content c) (- 1) h;
             if code < 0 then Some (NULL, h1)
             else do { h2 \<leftarrow> xmlFreeNode cur h1; Some (parentp, h2) } }
           else do {
             prev \<leftarrow> (if ntype c = XML_ATTRIBUTE_NODE then
                        (case properties n of NULL \<Rightarrow> Some NULL | Ptr a \<Rightarrow> map_option Ptr (last_sibling h a))
                      else Some (lastChild n));
             if curp = prev then Some (curp, h)
             else xmlInsertNode e (ndoc n) cur parentp prev NULL True h } }
     | _ \<Rightarrow> Some (NULL, h) }"

text \<open>The last assignments of \<open>xmlAddChildList\<close>: the parent of every node of the list; its last node.\<close>

partial_function (option) adopt_list :: "addr \<Rightarrow> addr \<Rightarrow> nheap \<Rightarrow> (addr \<times> nheap) option" where
  "adopt_list p a h = Option.bind (upd a (\<lambda>m. m\<lparr>parent := Ptr p\<rparr>) h) (\<lambda>h1.
     Option.bind (h1 a) (\<lambda>n. case nextSib n of NULL \<Rightarrow> Some (a, h1) | Ptr b \<Rightarrow> adopt_list p b h1))"

partial_function (option) move_list :: "env \<Rightarrow> addr ptr \<Rightarrow> addr ptr \<Rightarrow> bool \<times> nheap \<Rightarrow> (bool \<times> nheap) option" where
  "move_list e doc iter s =
     (case iter of
        NULL \<Rightarrow> Some s
      | Ptr a \<Rightarrow> Option.bind (snd s a) (\<lambda>n.
          Option.bind (if ndoc n \<noteq> doc then set_doc e doc (Tree a) s else Some s) (\<lambda>s1.
          Option.bind (snd s1 a) (\<lambda>n1. move_list e doc (nextSib n1) s1))))"

definition append_list :: "addr \<Rightarrow> addr \<Rightarrow> nheap \<Rightarrow> (addr ptr \<times> nheap) option" where
  "append_list p cur h = do {
     (l, h1) \<leftarrow> adopt_list p cur h;
     h2 \<leftarrow> upd p (\<lambda>m. m\<lparr>lastChild := Ptr l\<rparr>) h1;
     Some (Ptr l, h2) }"

definition xmlAddChildList :: "env \<Rightarrow> addr ptr \<Rightarrow> addr ptr \<Rightarrow> nheap \<Rightarrow> (addr ptr \<times> nheap) option" where
  "xmlAddChildList e parentp curp h = do {
     u1 \<leftarrow> unusable parentp h;
     u2 \<leftarrow> (if u1 then Some True else unusable curp h);
     case (parentp, curp) of
       (Ptr p, Ptr cur) \<Rightarrow>
         if u2 then Some (NULL, h)
         else do {
           n \<leftarrow> h p;
           (oom, h1) \<leftarrow> move_list e (ndoc n) curp (False, h);
           if oom then Some (NULL, h1)
           else do {
             n1 \<leftarrow> h1 p;
             c \<leftarrow> h1 cur;
             case children n1 of
               NULL \<Rightarrow> do { h2 \<leftarrow> upd p (\<lambda>m. m\<lparr>children := curp\<rparr>) h1; append_list p cur h2 }
             | Ptr _ \<Rightarrow>
                 (case lastChild n1 of
                    NULL \<Rightarrow> None
                  | Ptr prev \<Rightarrow> do {
                      m \<leftarrow> (if ntype c = XML_TEXT_NODE then mergeable (Ptr prev) cur c h1 else Some False);
                      if m then do {
                        (code, h2) \<leftarrow> xmlTextAddContent e prev (content c) (- 1) h1;
                        if code < 0 then Some (NULL, h2)
                        else do {
                          c2 \<leftarrow> h2 cur;
                          h3 \<leftarrow> xmlFreeNode cur h2;
                          case nextSib c2 of
                            NULL \<Rightarrow> Some (Ptr prev, h3)
                          | Ptr b \<Rightarrow> do {
                              h4 \<leftarrow> upd prev (\<lambda>m. m\<lparr>nextSib := Ptr b\<rparr>) h3;
                              h5 \<leftarrow> upd b (\<lambda>m. m\<lparr>prevSib := Ptr prev\<rparr>) h4;
                              append_list p b h5 } } }
                      else do {
                        h4 \<leftarrow> upd prev (\<lambda>m. m\<lparr>nextSib := curp\<rparr>) h1;
                        h5 \<leftarrow> upd cur (\<lambda>m. m\<lparr>prevSib := Ptr prev\<rparr>) h4;
                        append_list p cur h5 } }) } }
     | _ \<Rightarrow> Some (NULL, h) }"

definition xmlReplaceNode :: "env \<Rightarrow> addr ptr \<Rightarrow> addr ptr \<Rightarrow> nheap \<Rightarrow> (addr ptr \<times> nheap) option" where
  "xmlReplaceNode e oldp curp h =
     (if oldp = curp then Some (NULL, h)
      else do {
        u1 \<leftarrow> unusable oldp h;
        case oldp of
          NULL \<Rightarrow> Some (NULL, h)
        | Ptr old \<Rightarrow> do {
            o0 \<leftarrow> h old;
            if u1 \<or> parent o0 = NULL then Some (NULL, h)
            else do {
              u2 \<leftarrow> unusable curp h;
              if u2 then do { h1 \<leftarrow> xmlUnlinkNode oldp h; Some (oldp, h1) }
              else case curp of
                NULL \<Rightarrow> None
              | Ptr cur \<Rightarrow> do {
                  c0 \<leftarrow> h cur;
                  if (ntype o0 = XML_ATTRIBUTE_NODE) \<noteq> (ntype c0 = XML_ATTRIBUTE_NODE) then Some (oldp, h)
                  else do {
                    h1 \<leftarrow> xmlUnlinkNodeInternal cur h;
                    o1 \<leftarrow> h1 old;
                    (code, h2) \<leftarrow> xmlSetTreeDoc e curp (ndoc o1) h1;
                    if code < 0 then Some (NULL, h2)
                    else do {
                      o2 \<leftarrow> h2 old;
                      h3 \<leftarrow> upd cur (\<lambda>m. m\<lparr>parent := parent o2, nextSib := nextSib o2\<rparr>) h2;
                      h4 \<leftarrow> upd_if (nextSib o2) (\<lambda>m. m\<lparr>prevSib := curp\<rparr>) h3;
                      o4 \<leftarrow> h4 old;
                      h5 \<leftarrow> upd cur (\<lambda>m. m\<lparr>prevSib := prevSib o4\<rparr>) h4;
                      h6 \<leftarrow> upd_if (prevSib o4) (\<lambda>m. m\<lparr>nextSib := curp\<rparr>) h5;
                      c6 \<leftarrow> h6 cur;
                      h7 \<leftarrow> upd_if (parent c6) (\<lambda>m.
                               if ntype c6 = XML_ATTRIBUTE_NODE then
                                 (if properties m = oldp then m\<lparr>properties := curp\<rparr> else m)
                               else m\<lparr>children := (if children m = oldp then curp else children m),
                                      lastChild := (if lastChild m = oldp then curp else lastChild m)\<rparr>) h6;
                      h8 \<leftarrow> upd old (\<lambda>m. m\<lparr>nextSib := NULL, prevSib := NULL, parent := NULL\<rparr>) h7;
                      Some (oldp, h8) } } } } } })"

definition xmlTextMerge :: "env \<Rightarrow> addr ptr \<Rightarrow> addr ptr \<Rightarrow> nheap \<Rightarrow> (addr ptr \<times> nheap) option" where
  "xmlTextMerge e firstp secondp h =
     (case (firstp, secondp) of
        (NULL, _) \<Rightarrow> Some (secondp, h)
      | (_, NULL) \<Rightarrow> Some (firstp, h)
      | (Ptr a, Ptr b) \<Rightarrow> do {
          f \<leftarrow> h a;
          s \<leftarrow> h b;
          if ntype f \<noteq> XML_TEXT_NODE \<or> ntype s \<noteq> XML_TEXT_NODE \<or> a = b \<or> name f \<noteq> name s then Some (NULL, h)
          else do {
            (code, h1) \<leftarrow> xmlTextAddContent e a (content s) (- 1) h;
            if code < 0 then Some (NULL, h1)
            else do { h2 \<leftarrow> drop_node b h1; Some (firstp, h2) } } })"

section \<open>Searching\<close>

definition is_element :: "xmlNode \<Rightarrow> bool" where
  "is_element n \<longleftrightarrow> ntype n = XML_ELEMENT_NODE"

partial_function (option) next_element :: "nheap \<Rightarrow> addr ptr \<Rightarrow> addr ptr option" where
  "next_element h p =
     (case p of
        NULL \<Rightarrow> Some NULL
      | Ptr a \<Rightarrow> Option.bind (h a) (\<lambda>n. if is_element n then Some p else next_element h (nextSib n)))"

partial_function (option) prev_element :: "nheap \<Rightarrow> addr ptr \<Rightarrow> addr ptr option" where
  "prev_element h p =
     (case p of
        NULL \<Rightarrow> Some NULL
      | Ptr a \<Rightarrow> Option.bind (h a) (\<lambda>n. if is_element n then Some p else prev_element h (prevSib n)))"

partial_function (option) count_elements :: "nheap \<Rightarrow> addr ptr \<Rightarrow> nat \<Rightarrow> nat option" where
  "count_elements h p k =
     (case p of
        NULL \<Rightarrow> Some k
      | Ptr a \<Rightarrow> Option.bind (h a) (\<lambda>n. count_elements h (nextSib n) (if is_element n then k + 1 else k)))"

definition with_children :: "xmlElementType set" where
  "with_children = {XML_ELEMENT_NODE, XML_DOCUMENT_NODE, XML_DOCUMENT_FRAG_NODE, XML_HTML_DOCUMENT_NODE, XML_ENTITY_DECL}"

definition xmlGetLastChild :: "addr ptr \<Rightarrow> nheap \<Rightarrow> addr ptr option" where
  "xmlGetLastChild p h = do {
     u \<leftarrow> unusable p h;
     case p of NULL \<Rightarrow> Some NULL | Ptr a \<Rightarrow> if u then Some NULL else map_option lastChild (h a) }"

definition xmlChildElementCount :: "addr ptr \<Rightarrow> nheap \<Rightarrow> nat option" where
  "xmlChildElementCount p h =
     (case p of
        NULL \<Rightarrow> Some 0
      | Ptr a \<Rightarrow> do { n \<leftarrow> h a; if ntype n \<in> with_children then count_elements h (children n) 0 else Some 0 })"

definition xmlFirstElementChild :: "addr ptr \<Rightarrow> nheap \<Rightarrow> addr ptr option" where
  "xmlFirstElementChild p h =
     (case p of
        NULL \<Rightarrow> Some NULL
      | Ptr a \<Rightarrow> do { n \<leftarrow> h a; if ntype n \<in> with_children then next_element h (children n) else Some NULL })"

definition xmlLastElementChild :: "addr ptr \<Rightarrow> nheap \<Rightarrow> addr ptr option" where
  "xmlLastElementChild p h =
     (case p of
        NULL \<Rightarrow> Some NULL
      | Ptr a \<Rightarrow> do { n \<leftarrow> h a; if ntype n \<in> with_children then prev_element h (lastChild n) else Some NULL })"

definition siblings_allowed :: "xmlElementType set" where
  "siblings_allowed = {XML_ELEMENT_NODE, XML_TEXT_NODE, XML_CDATA_SECTION_NODE, XML_ENTITY_REF_NODE, XML_PI_NODE, XML_COMMENT_NODE,
     XML_XINCLUDE_START, XML_XINCLUDE_END}"

definition xmlPreviousElementSibling :: "addr ptr \<Rightarrow> nheap \<Rightarrow> addr ptr option" where
  "xmlPreviousElementSibling p h =
     (case p of
        NULL \<Rightarrow> Some NULL
      | Ptr a \<Rightarrow> do { n \<leftarrow> h a; if ntype n \<in> siblings_allowed then prev_element h (prevSib n) else Some NULL })"

definition xmlNextElementSibling :: "addr ptr \<Rightarrow> nheap \<Rightarrow> addr ptr option" where
  "xmlNextElementSibling p h =
     (case p of
        NULL \<Rightarrow> Some NULL
      | Ptr a \<Rightarrow> do {
          n \<leftarrow> h a;
          if ntype n \<in> insert XML_DTD_NODE siblings_allowed then next_element h (nextSib n) else Some NULL })"

definition xmlDocGetRootElement :: "addr ptr \<Rightarrow> nheap \<Rightarrow> addr ptr option" where
  "xmlDocGetRootElement docp h = (case docp of NULL \<Rightarrow> Some NULL | Ptr d \<Rightarrow> do { doc \<leftarrow> h d; next_element h (children doc) })"

definition xmlDocSetRootElement :: "env \<Rightarrow> addr ptr \<Rightarrow> addr ptr \<Rightarrow> nheap \<Rightarrow> (addr ptr \<times> nheap) option" where
  "xmlDocSetRootElement e docp rootp h =
     (case docp of
        NULL \<Rightarrow> Some (NULL, h)
      | Ptr d \<Rightarrow> do {
          u \<leftarrow> unusable rootp h;
          case rootp of
            NULL \<Rightarrow> Some (NULL, h)
          | Ptr root \<Rightarrow>
              if u then Some (NULL, h)
              else do {
                doc \<leftarrow> h d;
                old \<leftarrow> next_element h (children doc);
                if old = rootp then Some (old, h)
                else do {
                  h1 \<leftarrow> xmlUnlinkNodeInternal root h;
                  (code, h2) \<leftarrow> xmlSetTreeDoc e rootp docp h1;
                  if code < 0 then Some (NULL, h2)
                  else do {
                    h3 \<leftarrow> upd root (\<lambda>m. m\<lparr>parent := docp\<rparr>) h2;
                    doc3 \<leftarrow> h3 d;
                    h4 \<leftarrow> (if old = NULL then
                             (if children doc3 = NULL then upd d (\<lambda>m. m\<lparr>children := rootp, lastChild := rootp\<rparr>) h3
                              else map_option snd (xmlAddSibling e (children doc3) rootp h3))
                           else map_option snd (xmlReplaceNode e old rootp h3));
                    Some (old, h4) } } } })"

end
