(* ===== verification/Forests.thy ===== *)
theory Forests
  imports XmlTree
begin

text \<open>
  What the links of the nodes mean: a forest gives the children and the attributes of every node and the lists without an owner.
  Unlinking a node and linking it again are proved to be the removal from a list and the insertion into a list.
\<close>

section \<open>Neighbours in a list\<close>

definition headp :: "'a list \<Rightarrow> 'a ptr" where
  "headp xs = (case xs of [] \<Rightarrow> NULL | x # _ \<Rightarrow> Ptr x)"

definition lastp :: "'a list \<Rightarrow> 'a ptr" where
  "lastp xs = (if xs = [] then NULL else Ptr (last xs))"

fun nxt :: "'a list \<Rightarrow> 'a \<Rightarrow> 'a ptr" where
  "nxt [] a = NULL"
| "nxt (x # xs) a = (if a = x then headp xs else nxt xs a)"

definition prv :: "'a list \<Rightarrow> 'a \<Rightarrow> 'a ptr" where
  "prv xs a = nxt (rev xs) a"

lemma headp_simps [simp]: "headp [] = NULL" "headp (x # xs) = Ptr x" "lastp [] = NULL" "lastp (xs @ [x]) = Ptr x"
  by (simp_all add: headp_def lastp_def)

lemma lastp_Cons [simp]: "lastp (x # xs) = (if xs = [] then Ptr x else lastp xs)"
  by (simp add: lastp_def)

lemma headp_append: "headp (xs @ ys) = (if xs = [] then headp ys else headp xs)"
  by (cases xs) simp_all

lemma lastp_append: "lastp (xs @ ys) = (if ys = [] then lastp xs else lastp ys)"
  by (simp add: lastp_def)

lemma headp_rev [simp]: "headp (rev xs) = lastp xs" "lastp (rev xs) = headp xs"
  by (cases xs rule: rev_cases; simp add: lastp_def) (cases xs; simp add: lastp_def)

lemma headp_Ptr: "headp xs = Ptr a \<Longrightarrow> a \<in> set xs" "lastp xs = Ptr a \<Longrightarrow> a \<in> set xs"
  by (auto simp: headp_def lastp_def split: list.splits if_splits)

lemma headp_NULL [simp]: "headp xs = NULL \<longleftrightarrow> xs = []" "lastp xs = NULL \<longleftrightarrow> xs = []"
  by (auto simp: headp_def lastp_def split: list.splits)

lemma nxt_append: "nxt (xs @ ys) a = (if a \<in> set xs then (if nxt xs a = NULL then headp ys else nxt xs a) else nxt ys a)"
proof (induction xs)
  case (Cons x xs)
  then show ?case by (auto simp: headp_append)
qed simp

lemma nxt_outside [simp]: "a \<notin> set xs \<Longrightarrow> nxt xs a = NULL"
  by (induction xs) auto

lemma nxt_last: "distinct xs \<Longrightarrow> a \<in> set xs \<Longrightarrow> nxt xs a = NULL \<longleftrightarrow> lastp xs = Ptr a"
  by (induction xs) (auto simp: lastp_def)

lemma nxt_in: "nxt xs a = Ptr b \<Longrightarrow> b \<in> set xs"
  by (induction xs) (auto split: if_splits dest: headp_Ptr)

lemma prv_in: "prv xs a = Ptr b \<Longrightarrow> b \<in> set xs"
  unfolding prv_def by (drule nxt_in) simp

lemma prv_outside [simp]: "a \<notin> set xs \<Longrightarrow> prv xs a = NULL"
  by (simp add: prv_def)

lemma nxt_split: "x \<notin> set as \<Longrightarrow> nxt (as @ x # bs) x = headp bs"
  by (simp add: nxt_append)

lemma prv_split: "x \<notin> set bs \<Longrightarrow> prv (as @ x # bs) x = lastp as"
  by (simp add: prv_def nxt_append)

text \<open>The neighbours of the other elements, with and without \<open>x\<close>.\<close>

lemma nxt_remove:
  assumes "distinct (as @ x # bs)" "y \<noteq> x"
  shows "nxt (as @ bs) y = (if lastp as = Ptr y then headp bs else nxt (as @ x # bs) y)"
    and "nxt (as @ x # bs) y = (if lastp as = Ptr y then Ptr x else nxt (as @ bs) y)"
  using assms nxt_last [of as y] by (auto simp: nxt_append dest: headp_Ptr)

lemma prv_remove:
  assumes "distinct (as @ x # bs)" "y \<noteq> x"
  shows "prv (as @ bs) y = (if headp bs = Ptr y then lastp as else prv (as @ x # bs) y)"
    and "prv (as @ x # bs) y = (if headp bs = Ptr y then Ptr x else prv (as @ bs) y)"
proof -
  have "distinct (rev bs @ x # rev as)" using assms(1) by auto
  note r = nxt_remove [OF this assms(2)]
  show "prv (as @ bs) y = (if headp bs = Ptr y then lastp as else prv (as @ x # bs) y)" using r(1) by (simp add: prv_def)
  show "prv (as @ x # bs) y = (if headp bs = Ptr y then Ptr x else prv (as @ bs) y)" using r(2) by (simp add: prv_def)
qed

section \<open>Groups of siblings\<close>

text \<open>
  The siblings of a document: the children of a node, its attributes, or nodes without a parent.  A forest says which
  nodes each group has, in order.
\<close>

datatype group = Kids addr | Props addr | Loose nat

type_synonym forest = "group \<Rightarrow> addr list"

fun owner :: "group \<Rightarrow> addr ptr" where
  "owner (Kids a) = Ptr a"
| "owner (Props a) = Ptr a"
| "owner (Loose k) = NULL"

definition disjoint_groups :: "forest \<Rightarrow> bool" where
  "disjoint_groups G \<longleftrightarrow> (\<forall>k. distinct (G k)) \<and> (\<forall>k k' x. x \<in> set (G k) \<longrightarrow> x \<in> set (G k') \<longrightarrow> k = k')"

definition home :: "forest \<Rightarrow> addr \<Rightarrow> group" where
  "home G x = (THE k. x \<in> set (G k))"

lemma home_eq: "disjoint_groups G \<Longrightarrow> x \<in> set (G k) \<Longrightarrow> home G x = k"
  unfolding home_def disjoint_groups_def by blast

text \<open>
  The links of a node in a forest.  The children of an entity reference are not its own, and only elements and markers have
  attributes.
\<close>

definition relink :: "forest \<Rightarrow> addr \<Rightarrow> xmlNode \<Rightarrow> xmlNode" where
  "relink G x n = n
     \<lparr>parent := owner (home G x), prevSib := prv (G (home G x)) x, nextSib := nxt (G (home G x)) x,
      children := (if ntype n = XML_ENTITY_REF_NODE then children n else headp (G (Kids x))),
      lastChild := (if ntype n = XML_ENTITY_REF_NODE then lastChild n else lastp (G (Kids x))),
      properties := (if has_props (ntype n) then headp (G (Props x)) else properties n)\<rparr>"

definition tidy :: "forest \<Rightarrow> nheap \<Rightarrow> nheap" where
  "tidy G h x = map_option (relink G x) (h x)"

text \<open>The nodes of the groups are the nodes of the heap, and a group belongs to a node that can have one.\<close>

definition groups_ok :: "forest \<Rightarrow> nheap \<Rightarrow> bool" where
  "groups_ok G h \<longleftrightarrow> disjoint_groups G \<and> (\<forall>x. h x \<noteq> None \<longleftrightarrow> (\<exists>k. x \<in> set (G k))) \<and>
     (\<forall>a. G (Kids a) \<noteq> [] \<longrightarrow> (\<exists>n. h a = Some n \<and> ntype n \<noteq> XML_ENTITY_REF_NODE)) \<and>
     (\<forall>a. G (Props a) \<noteq> [] \<longrightarrow> (\<exists>n. h a = Some n \<and> has_props (ntype n)))"

definition linked :: "forest \<Rightarrow> nheap \<Rightarrow> bool" where
  "linked G h \<longleftrightarrow> groups_ok G h \<and> tidy G h = h"

lemma relink_idem [simp]: "relink G x (relink G' x n) = relink G x n"
  by (simp add: relink_def)

lemma relink_type [simp]: "ntype (relink G x n) = ntype n"
  by (simp add: relink_def)

lemma tidy_tidy [simp]: "tidy G (tidy G' h) = tidy G h"
  by (rule ext) (simp add: tidy_def option.map_comp comp_def)

lemma groups_tidy [simp]: "groups_ok G (tidy G' h) \<longleftrightarrow> groups_ok G h"
proof -
  have 1: "(\<exists>n. tidy G' h a = Some n \<and> P (ntype n)) \<longleftrightarrow> (\<exists>n. h a = Some n \<and> P (ntype n))" for a P
    by (auto simp: tidy_def)
  have 2: "tidy G' h x \<noteq> None \<longleftrightarrow> h x \<noteq> None" for x by (simp add: tidy_def)
  show ?thesis unfolding groups_ok_def 2 1 [where P = "\<lambda>t. t \<noteq> XML_ENTITY_REF_NODE"] 1 [where P = has_props] ..
qed

lemma linked_tidy [simp]: "linked G (tidy G' h) \<longleftrightarrow> groups_ok G h \<and> tidy G h = tidy G' h"
  by (simp add: linked_def)

lemma linked_node:
  assumes "linked G h" "x \<in> set (G k)"
  obtains n where "h x = Some n" "parent n = owner k" "prevSib n = prv (G k) x" "nextSib n = nxt (G k) x"
    "ntype n \<noteq> XML_ENTITY_REF_NODE \<Longrightarrow> children n = headp (G (Kids x)) \<and> lastChild n = lastp (G (Kids x))"
    "has_props (ntype n) \<Longrightarrow> properties n = headp (G (Props x))"
proof -
  have k: "home G x = k" using assms home_eq by (simp add: linked_def groups_ok_def)
  obtain n where n: "h x = Some n" using assms unfolding linked_def groups_ok_def by blast
  have "tidy G h x = h x" using assms(1) by (simp add: linked_def)
  then have r: "relink G x n = n" using n by (simp add: tidy_def)
  have f: "f n = f (relink G x n)" for f :: "xmlNode \<Rightarrow> 'b" using r by simp
  show ?thesis
  proof (rule that [OF n])
    show "parent n = owner k" "prevSib n = prv (G k) x" "nextSib n = nxt (G k) x"
      using f [of parent] f [of prevSib] f [of nextSib] by (simp_all add: relink_def k)
    show "children n = headp (G (Kids x)) \<and> lastChild n = lastp (G (Kids x))" if "ntype n \<noteq> XML_ENTITY_REF_NODE"
      using f [of children] f [of lastChild] that by (simp add: relink_def)
    show "properties n = headp (G (Props x))" if "has_props (ntype n)"
      using f [of properties] that by (simp add: relink_def)
  qed
qed

lemma tidy_eqI: "(\<And>x n. h x = Some n \<Longrightarrow> h' x = Some (relink G x n)) \<Longrightarrow> (\<And>x. h x = None \<Longrightarrow> h' x = None) \<Longrightarrow> h' = tidy G h"
  by (rule ext) (auto simp: tidy_def split: option.split, metis not_None_eq option.map(1,2))

section \<open>Updates of present nodes\<close>

definition adj :: "addr ptr \<Rightarrow> (xmlNode \<Rightarrow> xmlNode) \<Rightarrow> nheap \<Rightarrow> nheap" where
  "adj p f h x = (if p = Ptr x then map_option f (h x) else h x)"

lemma adj_None [simp]: "adj p f h x = None \<longleftrightarrow> h x = None"
  by (simp add: adj_def)

lemma adj_NULL [simp]: "adj NULL f h = h"
  by (rule ext) (simp add: adj_def)

lemma upd_adj: "h a \<noteq> None \<Longrightarrow> upd a f h = Some (adj (Ptr a) f h)"
  by (auto simp: upd_def adj_def fun_eq_iff)

lemma upd_if_adj: "(\<And>a. p = Ptr a \<Longrightarrow> h a \<noteq> None) \<Longrightarrow> upd_if p f h = Some (adj p f h)"
  by (cases p) (auto simp: upd_if_def upd_adj fun_eq_iff adj_def)

section \<open>Taking a node out of its group\<close>

definition detach :: "group \<Rightarrow> addr \<Rightarrow> nat \<Rightarrow> forest \<Rightarrow> forest" where
  "detach k cur r G = (\<lambda>j. if j = Loose r then [cur] else if j = k then remove1 cur (G k) else G j)"

text \<open>A node is not in its own group; attributes are in groups of attributes.\<close>

definition sound_group :: "forest \<Rightarrow> nheap \<Rightarrow> group \<Rightarrow> bool" where
  "sound_group G h k \<longleftrightarrow> (\<forall>x \<in> set (G k). owner k \<noteq> Ptr x) \<and>
     (\<forall>x n. x \<in> set (G k) \<longrightarrow> h x = Some n \<longrightarrow>
        (case k of Kids _ \<Rightarrow> ntype n \<noteq> XML_ATTRIBUTE_NODE | Props _ \<Rightarrow> ntype n = XML_ATTRIBUTE_NODE | Loose _ \<Rightarrow> True))"

lemma detach_disjoint:
  assumes "disjoint_groups G" "cur \<in> set (G k)" "G (Loose r) = []"
  shows "disjoint_groups (detach k cur r G)"
proof -
  have d: "distinct (G j)" for j using assms(1) by (simp add: disjoint_groups_def)
  have u: "x \<in> set (G i) \<Longrightarrow> x \<in> set (G j) \<Longrightarrow> i = j" for x i j using assms(1) unfolding disjoint_groups_def by blast
  have k: "cur \<in> set (G j) \<longleftrightarrow> j = k" for j using u assms(2) by blast
  have s: "x \<in> set (detach k cur r G j) \<longleftrightarrow> (if x = cur then j = Loose r else x \<in> set (G j))" for x j
    using d [of k] k [of j] assms(3) by (auto simp: detach_def)
  show ?thesis unfolding disjoint_groups_def s using u d by (auto simp: detach_def distinct_remove1)
qed

lemma detach_groups:
  assumes "groups_ok G h" "cur \<in> set (G k)" "G (Loose r) = []"
  shows "groups_ok (detach k cur r G) h"
proof -
  have g: "disjoint_groups G" using assms(1) by (simp add: groups_ok_def)
  have d: "distinct (G j)" for j using g by (simp add: disjoint_groups_def)
  have k: "cur \<in> set (G j) \<longleftrightarrow> j = k" for j using g assms(2) unfolding disjoint_groups_def by blast
  have s: "x \<in> set (detach k cur r G j) \<longleftrightarrow> (if x = cur then j = Loose r else x \<in> set (G j))" for x j
    using d [of k] k [of j] assms(3) by (auto simp: detach_def)
  have "(\<exists>j. x \<in> set (detach k cur r G j)) \<longleftrightarrow> (\<exists>j. x \<in> set (G j))" for x
    unfolding s using k by auto
  moreover have "detach k cur r G (Kids a) \<noteq> [] \<Longrightarrow> G (Kids a) \<noteq> []" "detach k cur r G (Props a) \<noteq> [] \<Longrightarrow> G (Props a) \<noteq> []" for a
    by (auto simp: detach_def split: if_splits)
  ultimately show ?thesis using assms(1) detach_disjoint [OF g assms(2,3)] unfolding groups_ok_def by blast
qed

lemma home_detach:
  assumes "disjoint_groups G" "cur \<in> set (G k)" "G (Loose r) = []" "x \<in> set (G j)"
  shows "home (detach k cur r G) x = (if x = cur then Loose r else j)"
proof (rule home_eq [OF detach_disjoint [OF assms(1-3)]])
  have "distinct (G k)" "x = cur \<Longrightarrow> j = k" using assms unfolding disjoint_groups_def by blast+
  then show "x \<in> set (detach k cur r G (if x = cur then Loose r else j))" using assms(3,4) by (auto simp: detach_def)
qed

lemma group_owner:
  assumes "groups_ok G h" "x \<in> set (G k)" "owner k = Ptr a"
  obtains n where "h a = Some n" "k = Kids a \<Longrightarrow> ntype n \<noteq> XML_ENTITY_REF_NODE" "k = Props a \<Longrightarrow> has_props (ntype n)"
proof (cases k)
  case (Kids b)
  then have "k = Kids a" "G (Kids a) \<noteq> []" using assms(2,3) by auto
  then show ?thesis using assms(1) that unfolding groups_ok_def by blast
next
  case (Props b)
  then have "k = Props a" "G (Props a) \<noteq> []" using assms(2,3) by auto
  then show ?thesis using assms(1) that unfolding groups_ok_def by blast
next
  case (Loose r)
  then show ?thesis using assms(3) by simp
qed

abbreviation clear_links :: "xmlNode \<Rightarrow> xmlNode" where
  "clear_links m \<equiv> m\<lparr>parent := NULL, nextSib := NULL, prevSib := NULL\<rparr>"

text \<open>The owner and the neighbours of \<open>cur\<close> without it.\<close>

definition unhook :: "bool \<Rightarrow> addr \<Rightarrow> addr ptr \<Rightarrow> addr ptr \<Rightarrow> addr ptr \<Rightarrow> nheap \<Rightarrow> nheap" where
  "unhook att cur par prev next' h =
     adj prev (\<lambda>m. m\<lparr>nextSib := next'\<rparr>) (adj next' (\<lambda>m. m\<lparr>prevSib := prev\<rparr>) (adj par (skip_in att cur prev next') h))"

lemma unhook_None [simp]: "unhook att cur par prev next' h x = None \<longleftrightarrow> h x = None"
  by (simp add: unhook_def)

lemma unhook_ok:
  assumes "linked G h" "G k = as @ cur # bs" "G (Loose r) = []" "sound_group G h k"
    and "h cur = Some n" "att \<longleftrightarrow> ntype n = XML_ATTRIBUTE_NODE"
  shows "adj (Ptr cur) clear_links (unhook att cur (owner k) (lastp as) (headp bs) h) = tidy (detach k cur r G) h"
    (is "?h = tidy ?G h")
proof (rule tidy_eqI)
  fix x m assume m: "h x = Some m"
  have g: "groups_ok G h" "disjoint_groups G" using assms(1) by (simp_all add: linked_def groups_ok_def)
  have ck: "cur \<in> set (G k)" using assms(2) by simp
  have dist: "distinct (as @ cur # bs)" using g(2) assms(2) unfolding disjoint_groups_def by metis
  then have o: "cur \<notin> set as" "cur \<notin> set bs" by auto
  have rm: "remove1 cur (G k) = as @ bs" using assms(2) o by (simp add: remove1_append)
  have ne: "headp bs \<noteq> Ptr cur" "lastp as \<noteq> Ptr cur" "owner k \<noteq> Ptr cur"
    using o ck assms(4) by (auto simp: sound_group_def dest: headp_Ptr)
  obtain j where j: "x \<in> set (G j)" using g(1) m unfolding groups_ok_def by blast
  have hm: "home ?G x = (if x = cur then Loose r else j)" by (rule home_detach [OF g(2) ck assms(3) j])
  have jr: "j \<noteq> Loose r" using j assms(3) by auto
  have Gj: "?G j = (if j = k then as @ bs else G j)" and Gr: "?G (Loose r) = [cur]"
    and GK: "?G (Kids x) = (if Kids x = k then as @ bs else G (Kids x))"
    and GP: "?G (Props x) = (if Props x = k then as @ bs else G (Props x))"
    using jr rm by (auto simp: detach_def)
  obtain m' where m': "h x = Some m'" "parent m' = owner j" "prevSib m' = prv (G j) x" "nextSib m' = nxt (G j) x"
    "ntype m' \<noteq> XML_ENTITY_REF_NODE \<Longrightarrow> children m' = headp (G (Kids x)) \<and> lastChild m' = lastp (G (Kids x))"
    "has_props (ntype m') \<Longrightarrow> properties m' = headp (G (Props x))"
    using linked_node [OF assms(1) j] by metis
  then have mm: "m' = m" using m by simp
  note f = m' [unfolded mm]
  have ends: "(headp bs = Ptr x \<or> lastp as = Ptr x) \<Longrightarrow> j = k"
    using j assms(2) g(2) unfolding disjoint_groups_def by (metis Un_iff headp_Ptr list.set_intros(2) set_append)
  have hk: "headp (as @ cur # bs) = Ptr cur \<longleftrightarrow> as = []" using o by (cases as) auto
  have lk: "lastp (as @ cur # bs) = Ptr cur \<longleftrightarrow> bs = []" using o by (cases bs rule: rev_cases) (auto simp: lastp_def)
  show "?h x = Some (relink ?G x m)"
  proof (cases "x = cur")
    case True
    then have jk: "j = k" using j ck g(2) unfolding disjoint_groups_def by blast
    then have K: "Kids x \<noteq> k" "Props x \<noteq> k" using True ne(3) by auto
    have "?h x = Some (clear_links m)" using True m ne by (simp add: adj_def unhook_def)
    also have "clear_links m = relink ?G x m"
      unfolding relink_def hm GK GP using True K Gr f(5,6) by (intro xmlNode.equality) (simp_all add: prv_def)
    finally show ?thesis .
  next
    case False
    have nx: "nxt (as @ bs) x = (if lastp as = Ptr x then headp bs else nxt (G k) x)"
      "prv (as @ bs) x = (if headp bs = Ptr x then lastp as else prv (G k) x)"
      using nxt_remove(1) [OF dist False] prv_remove(1) [OF dist False] unfolding assms(2) by simp_all
    have "?h x = Some (let m1 = (if owner k = Ptr x then skip_in att cur (lastp as) (headp bs) m else m);
        m2 = (if headp bs = Ptr x then m1\<lparr>prevSib := lastp as\<rparr> else m1)
      in if lastp as = Ptr x then m2\<lparr>nextSib := headp bs\<rparr> else m2)"
      using False m by (simp add: adj_def unhook_def)
    also have "\<dots> = Some (relink ?G x m)"
    proof (cases "owner k = Ptr x")
      case True
      then have nk: "x \<notin> set (G k)" using assms(4) by (auto simp: sound_group_def)
      then have jk: "j \<noteq> k" using j by auto
      then have e: "headp bs \<noteq> Ptr x" "lastp as \<noteq> Ptr x" using ends by auto
      consider (kids) "k = Kids x" "\<not> att" | (props) "k = Props x" "att"
        using True ck assms(4-6) by (cases k) (auto simp: sound_group_def)
      then have "skip_in att cur (lastp as) (headp bs) m = relink ?G x m"
      proof cases
        case kids
        have "ntype m \<noteq> XML_ENTITY_REF_NODE" by (rule group_owner [OF g(1) ck True]) (use m kids in simp)
        note er = this f(5) [OF this]
        show ?thesis
          unfolding relink_def hm GK GP skip_in_def using Gj kids False jk f(2-4,6) assms(2) hk lk er
          by (intro xmlNode.equality) (simp_all add: headp_append lastp_append)
      next
        case props
        have "has_props (ntype m)" by (rule group_owner [OF g(1) ck True]) (use m props in simp)
        note er = this f(6) [OF this]
        show ?thesis
          unfolding relink_def hm GK GP skip_in_def using Gj props False jk f(2-5) assms(2) hk lk er
          by (intro xmlNode.equality) (simp_all add: headp_append)
      qed
      then show ?thesis using True e by simp
    next
      case own: False
      then have K: "Kids x \<noteq> k" "Props x \<noteq> k" by auto
      then show ?thesis
        unfolding Let_def relink_def hm GK GP using Gj own False f(2-6) nx ends
        by (intro arg_cong [where f = Some] xmlNode.equality) auto
    qed
    finally show ?thesis .
  qed
next
  fix x assume "h x = None"
  then show "?h x = None" by simp
qed

text \<open>What the code finds at \<open>cur\<close>, and that the nodes it writes to are there.\<close>

lemma unhook_facts:
  assumes "linked G h" "G k = as @ cur # bs" "sound_group G h k"
  obtains n where "h cur = Some n" "parent n = owner k" "prevSib n = lastp as" "nextSib n = headp bs"
    "headp bs \<noteq> Ptr cur" "lastp as \<noteq> Ptr cur" "owner k \<noteq> Ptr cur"
    "\<And>a. owner k = Ptr a \<Longrightarrow> h a \<noteq> None" "\<And>a. headp bs = Ptr a \<Longrightarrow> h a \<noteq> None" "\<And>a. lastp as = Ptr a \<Longrightarrow> h a \<noteq> None"
proof -
  have g: "groups_ok G h" "disjoint_groups G" using assms(1) by (simp_all add: linked_def groups_ok_def)
  have ck: "cur \<in> set (G k)" using assms(2) by simp
  have dist: "distinct (as @ cur # bs)" using g(2) assms(2) unfolding disjoint_groups_def by metis
  then have o: "cur \<notin> set as" "cur \<notin> set bs" by auto
  obtain n where n: "h cur = Some n" "parent n = owner k" "prevSib n = prv (G k) cur" "nextSib n = nxt (G k) cur"
    using linked_node [OF assms(1) ck] by metis
  have all: "x \<in> set (G j) \<Longrightarrow> h x \<noteq> None" for x j using g(1) unfolding groups_ok_def by blast
  show ?thesis
  proof (rule that [OF n(1,2)])
    show "prevSib n = lastp as" "nextSib n = headp bs" using n(3,4) o unfolding assms(2) by (simp_all add: nxt_split prv_split)
    show "headp bs \<noteq> Ptr cur" "lastp as \<noteq> Ptr cur" "owner k \<noteq> Ptr cur"
      using o ck assms(3) by (auto simp: sound_group_def dest: headp_Ptr)
    show "h a \<noteq> None" if "owner k = Ptr a" for a by (rule group_owner [OF g(1) ck that]) simp
    show "h a \<noteq> None" if "headp bs = Ptr a" for a using headp_Ptr(1) [OF that] all [of a k] assms(2) by auto
    show "h a \<noteq> None" if "lastp as = Ptr a" for a using headp_Ptr(2) [OF that] all [of a k] assms(2) by auto
  qed
qed

lemma unlink_ok:
  assumes "linked G h" "cur \<in> set (G k)" "G (Loose r) = []" "sound_group G h k"
  shows "xmlUnlinkNodeInternal cur h = Some (tidy (detach k cur r G) h)"
proof -
  obtain as bs where sp: "G k = as @ cur # bs" using split_list [OF assms(2)] by blast
  obtain n where n: "h cur = Some n" "parent n = owner k" "prevSib n = lastp as" "nextSib n = headp bs"
    and ne: "headp bs \<noteq> Ptr cur" "lastp as \<noteq> Ptr cur" "owner k \<noteq> Ptr cur"
    and ex: "\<And>a. owner k = Ptr a \<Longrightarrow> h a \<noteq> None" "\<And>a. headp bs = Ptr a \<Longrightarrow> h a \<noteq> None" "\<And>a. lastp as = Ptr a \<Longrightarrow> h a \<noteq> None"
    by (rule unhook_facts [OF assms(1) sp assms(4)]) blast
  let ?att = "ntype n = XML_ATTRIBUTE_NODE"
  let ?F = "skip_in ?att cur (lastp as) (headp bs)"
  let ?h1 = "adj (Ptr cur) (\<lambda>m. m\<lparr>parent := NULL\<rparr>) (adj (owner k) ?F h)"
  have 1: "(case parent n of NULL \<Rightarrow> Some h | Ptr p \<Rightarrow> do { h1 \<leftarrow> upd p ?F h; upd cur (\<lambda>m. m\<lparr>parent := NULL\<rparr>) h1 }) = Some ?h1"
  proof (cases "owner k")
    case NULL
    then have "?h1 = h" using n(1,2) by (auto simp: adj_def fun_eq_iff)
    then show ?thesis using NULL n(2) by simp
  next
    case (Ptr p)
    then show ?thesis using ex(1) [OF Ptr] n(1,2) by (simp add: upd_adj)
  qed
  let ?h2 = "adj (headp bs) (\<lambda>m. m\<lparr>prevSib := lastp as\<rparr>) ?h1"
  let ?h3 = "adj (lastp as) (\<lambda>m. m\<lparr>nextSib := headp bs\<rparr>) ?h2"
  let ?h4 = "adj (Ptr cur) (\<lambda>m. m\<lparr>nextSib := NULL, prevSib := NULL\<rparr>) ?h3"
  have c1: "?h1 cur = Some (n\<lparr>parent := NULL\<rparr>)" using n(1) ne by (simp add: adj_def)
  have c2: "?h2 cur = Some (n\<lparr>parent := NULL\<rparr>)" using c1 ne by (simp add: adj_def)
  have 2: "upd_if (headp bs) (\<lambda>m. m\<lparr>prevSib := lastp as\<rparr>) ?h1 = Some ?h2" using ex(2) by (intro upd_if_adj) simp
  have 3: "upd_if (lastp as) (\<lambda>m. m\<lparr>nextSib := headp bs\<rparr>) ?h2 = Some ?h3" using ex(3) by (intro upd_if_adj) simp
  have 4: "upd cur (\<lambda>m. m\<lparr>nextSib := NULL, prevSib := NULL\<rparr>) ?h3 = Some ?h4" using n(1) by (intro upd_adj) simp
  have "xmlUnlinkNodeInternal cur h = Some ?h4"
    unfolding xmlUnlinkNodeInternal_def n(1) bind.bind_lunit n(3,4) 1 c1
    using 2 3 4 c2 by (simp add: n(3,4))
  moreover have "?h4 = adj (Ptr cur) clear_links (unhook ?att cur (owner k) (lastp as) (headp bs) h)"
    using ne by (auto simp: fun_eq_iff adj_def unhook_def option.map_comp comp_def)
  ultimately show ?thesis using unhook_ok [OF assms(1) sp assms(3,4) n(1), of ?att] by simp
qed

section \<open>Putting a node into a group\<close>

text \<open>\<open>cur\<close> is alone in its group, but its own links are those of another place.\<close>

definition loose_in :: "forest \<Rightarrow> addr \<Rightarrow> nat \<Rightarrow> nheap \<Rightarrow> bool" where
  "loose_in G cur r h \<longleftrightarrow> groups_ok G h \<and> G (Loose r) = [cur] \<and> adj (Ptr cur) clear_links h = tidy G h"

definition attach :: "group \<Rightarrow> addr list \<Rightarrow> addr \<Rightarrow> addr list \<Rightarrow> nat \<Rightarrow> forest \<Rightarrow> forest" where
  "attach k as cur bs r G = G(Loose r := [], k := as @ cur # bs)"

text \<open>The owner of the new group can have it.\<close>

definition room_in :: "nheap \<Rightarrow> group \<Rightarrow> bool" where
  "room_in h k \<longleftrightarrow>
     (case k of
        Kids a \<Rightarrow> (\<exists>n. h a = Some n \<and> ntype n \<noteq> XML_ENTITY_REF_NODE)
      | Props a \<Rightarrow> (\<exists>n. h a = Some n \<and> has_props (ntype n))
      | Loose _ \<Rightarrow> True)"

lemma attach_sets:
  assumes "disjoint_groups G" "G (Loose r) = [cur]" "G k = as @ bs" "k \<noteq> Loose r"
  shows "x \<in> set (attach k as cur bs r G j) \<longleftrightarrow> (if x = cur then j = k else x \<in> set (G j))"
proof -
  have "cur \<in> set (G (Loose r))" using assms(2) by simp
  then have "cur \<notin> set (G j)" if "j \<noteq> Loose r" for j using assms(1) that unfolding disjoint_groups_def by blast
  then show ?thesis using assms(2-4) by (auto simp: attach_def)
qed

lemma attach_groups:
  assumes "groups_ok G h" "G (Loose r) = [cur]" "G k = as @ bs" "k \<noteq> Loose r" "room_in h k"
  shows "groups_ok (attach k as cur bs r G) h"
proof -
  have g: "disjoint_groups G" using assms(1) by (simp add: groups_ok_def)
  note s = attach_sets [OF g assms(2-4)]
  have cur: "cur \<notin> set (G k)" using g assms(2,4) unfolding disjoint_groups_def by (metis list.set_intros(1))
  have d: "distinct (G j)" for j using g by (simp add: disjoint_groups_def)
  have "distinct (attach k as cur bs r G j)" for j
    using d [of j] d [of k] cur assms(3,4) by (auto simp: attach_def)
  moreover have "x \<in> set (G i) \<Longrightarrow> x \<in> set (G j) \<Longrightarrow> i = j" for x i j using g unfolding disjoint_groups_def by blast
  ultimately have "disjoint_groups (attach k as cur bs r G)" unfolding disjoint_groups_def s by auto
  moreover have "(\<exists>j. x \<in> set (attach k as cur bs r G j)) \<longleftrightarrow> (\<exists>j. x \<in> set (G j))" for x
    unfolding s using assms(2) by (metis list.set_intros(1))
  moreover have "\<exists>n. h a = Some n \<and> ntype n \<noteq> XML_ENTITY_REF_NODE" if "attach k as cur bs r G (Kids a) \<noteq> []" for a
    using that assms(1,5) by (cases "k = Kids a") (auto simp: attach_def room_in_def groups_ok_def)
  moreover have "\<exists>n. h a = Some n \<and> has_props (ntype n)" if "attach k as cur bs r G (Props a) \<noteq> []" for a
    using that assms(1,5) by (cases "k = Props a") (auto simp: attach_def room_in_def groups_ok_def)
  ultimately show ?thesis using assms(1) unfolding groups_ok_def by simp
qed

lemma loose_node:
  assumes "loose_in G cur r h" "x \<in> set (G k)" "h x = Some n"
  shows "x \<noteq> cur \<Longrightarrow> parent n = owner k \<and> prevSib n = prv (G k) x \<and> nextSib n = nxt (G k) x"
    "ntype n \<noteq> XML_ENTITY_REF_NODE \<Longrightarrow> children n = headp (G (Kids x)) \<and> lastChild n = lastp (G (Kids x))"
    "has_props (ntype n) \<Longrightarrow> properties n = headp (G (Props x))"
proof -
  have k: "home G x = k" using assms home_eq by (simp add: loose_in_def groups_ok_def)
  have "adj (Ptr cur) clear_links h x = tidy G h x" using assms(1) by (simp add: loose_in_def)
  then have r: "relink G x n = (if x = cur then clear_links n else n)" using assms(3) by (simp add: tidy_def adj_def split: if_splits)
  have f: "f (if x = cur then clear_links n else n) = f (relink G x n)" for f :: "xmlNode \<Rightarrow> 'b" using r by simp
  show "x \<noteq> cur \<Longrightarrow> parent n = owner k \<and> prevSib n = prv (G k) x \<and> nextSib n = nxt (G k) x"
    using f [of parent] f [of prevSib] f [of nextSib] by (simp add: relink_def k)
  show "children n = headp (G (Kids x)) \<and> lastChild n = lastp (G (Kids x))" if "ntype n \<noteq> XML_ENTITY_REF_NODE"
    using f [of children] f [of lastChild] that by (simp add: relink_def split: if_splits)
  show "properties n = headp (G (Props x))" if "has_props (ntype n)"
    using f [of properties] that by (simp add: relink_def split: if_splits)
qed

text \<open>The links of the neighbours, and of the owner for an attribute (\<open>pr\<close>) or another node.\<close>

definition hook_prev :: "bool \<Rightarrow> addr \<Rightarrow> addr ptr \<Rightarrow> addr ptr \<Rightarrow> nheap \<Rightarrow> nheap" where
  "hook_prev pr cur par prev = (case prev of
      NULL \<Rightarrow> adj par (\<lambda>m. if pr then m\<lparr>properties := Ptr cur\<rparr> else m\<lparr>children := Ptr cur\<rparr>)
    | Ptr p \<Rightarrow> adj (Ptr p) (\<lambda>m. m\<lparr>nextSib := Ptr cur\<rparr>))"

definition hook_next :: "bool \<Rightarrow> addr \<Rightarrow> addr ptr \<Rightarrow> addr ptr \<Rightarrow> nheap \<Rightarrow> nheap" where
  "hook_next pr cur par next' = (case next' of
      NULL \<Rightarrow> if pr then (\<lambda>h. h) else adj par (\<lambda>m. m\<lparr>lastChild := Ptr cur\<rparr>)
    | Ptr p \<Rightarrow> adj (Ptr p) (\<lambda>m. m\<lparr>prevSib := Ptr cur\<rparr>))"

lemma attach_ok:
  assumes "loose_in G cur r h" "G k = as @ bs" "k \<noteq> Loose r" "room_in h k" "owner k \<noteq> Ptr cur" "\<forall>x \<in> set (G k). owner k \<noteq> Ptr x"
    and "owner k = NULL \<or> (pr \<longleftrightarrow> k = Props (case owner k of Ptr a \<Rightarrow> a))"
  shows "hook_next pr cur (owner k) (headp bs) (hook_prev pr cur (owner k) (lastp as)
      (adj (Ptr cur) (\<lambda>m. m\<lparr>parent := owner k, prevSib := lastp as, nextSib := headp bs\<rparr>) h)) = tidy (attach k as cur bs r G) h"
    (is "?h = tidy ?G h")
proof (rule tidy_eqI)
  fix x m assume m: "h x = Some m"
  have gr: "groups_ok G h" "G (Loose r) = [cur]" using assms(1) by (simp_all add: loose_in_def)
  have g: "disjoint_groups G" using gr by (simp add: groups_ok_def)
  note s = attach_sets [OF g gr(2) assms(2,3)]
  have dg: "disjoint_groups ?G" using attach_groups [OF gr assms(2,3,4)] by (simp add: groups_ok_def)
  obtain j where j: "x \<in> set (G j)" using gr(1) m unfolding groups_ok_def by blast
  have ck: "cur \<notin> set (G k)" using g gr(2) assms(3) unfolding disjoint_groups_def by (metis list.set_intros(1))
  then have dist: "distinct (as @ cur # bs)" using g assms(2) unfolding disjoint_groups_def by (metis distinct_append distinct.simps(2) Un_iff set_append disjoint_insert(1) list.simps(15))
  have hm: "home ?G x = (if x = cur then k else j)" by (rule home_eq [OF dg]) (use s j in auto)
  have Gk: "?G k = as @ cur # bs" and GK: "?G (Kids x) = (if Kids x = k then as @ cur # bs else G (Kids x))"
    and GP: "?G (Props x) = (if Props x = k then as @ cur # bs else G (Props x))"
    by (auto simp: attach_def)
  have Gj: "?G j = (if j = k then as @ cur # bs else G j)" if "x \<noteq> cur"
    using that j gr(2) by (auto simp: attach_def)
  note f = loose_node [OF assms(1) j m]
  have ends: "headp bs = Ptr x \<or> lastp as = Ptr x \<Longrightarrow> j = k"
    using j assms(2) g unfolding disjoint_groups_def by (metis Un_iff headp_Ptr set_append)
  have ne: "headp bs \<noteq> Ptr cur" "lastp as \<noteq> Ptr cur" using ck assms(2) by (auto dest: headp_Ptr)
  show "?h x = Some (relink ?G x m)"
  proof (cases "x = cur")
    case True
    have nb: "nxt (as @ cur # bs) cur = headp bs" "prv (as @ cur # bs) cur = lastp as"
      using dist by (simp_all add: nxt_split prv_split)
    have K: "Kids x \<noteq> k" "Props x \<noteq> k" using True assms(5) by auto
    have "?h x = Some (m\<lparr>parent := owner k, prevSib := lastp as, nextSib := headp bs\<rparr>)"
      using True m ne assms(5) by (auto simp: adj_def hook_prev_def hook_next_def split: ptr.split)
    also have "m\<lparr>parent := owner k, prevSib := lastp as, nextSib := headp bs\<rparr> = relink ?G x m"
      unfolding relink_def hm GK GP using True K Gk f(2,3) nb by (intro xmlNode.equality) simp_all
    finally show ?thesis .
  next
    case False
    have nx: "nxt (as @ cur # bs) x = (if lastp as = Ptr x then Ptr cur else nxt (G k) x)"
      "prv (as @ cur # bs) x = (if headp bs = Ptr x then Ptr cur else prv (G k) x)"
      using nxt_remove(2) [OF dist False] prv_remove(2) [OF dist False] unfolding assms(2) by simp_all
    have "?h x = Some (let m1 = (if lastp as = NULL then (if owner k = Ptr x then (if pr then m\<lparr>properties := Ptr cur\<rparr> else m\<lparr>children := Ptr cur\<rparr>) else m)
            else if lastp as = Ptr x then m\<lparr>nextSib := Ptr cur\<rparr> else m)
        in (if headp bs = NULL then (if owner k = Ptr x \<and> \<not> pr then m1\<lparr>lastChild := Ptr cur\<rparr> else m1)
            else if headp bs = Ptr x then m1\<lparr>prevSib := Ptr cur\<rparr> else m1))"
      using False m by (simp add: adj_def hook_prev_def hook_next_def split: ptr.split)
    also have "\<dots> = Some (relink ?G x m)"
    proof (cases "owner k = Ptr x")
      case True
      then have nk: "x \<notin> set (G k)" using assms(6) by auto
      then have jk: "j \<noteq> k" using j by auto
      then have e: "headp bs \<noteq> Ptr x" "lastp as \<noteq> Ptr x" using ends by auto
      consider (kids) "k = Kids x" "\<not> pr" "ntype m \<noteq> XML_ENTITY_REF_NODE" | (props) "k = Props x" "pr" "has_props (ntype m)"
        using True assms(4,7) m by (cases k) (auto simp: room_in_def)
      then show ?thesis
      proof cases
        case kids
        then show ?thesis
          unfolding relink_def hm GK GP Let_def using Gj False jk True e f kids assms(2)
          by (intro arg_cong [where f = Some] xmlNode.equality) (simp_all add: headp_append lastp_append)
      next
        case props
        then show ?thesis
          unfolding relink_def hm GK GP Let_def using Gj False jk True e f props assms(2)
          by (intro arg_cong [where f = Some] xmlNode.equality) (simp_all add: headp_append lastp_append)
      qed
    next
      case own: False
      then have K: "Kids x \<noteq> k" "Props x \<noteq> k" by auto
      then show ?thesis
        unfolding Let_def relink_def hm GK GP using Gj own False f nx ends
        by (intro arg_cong [where f = Some] xmlNode.equality) auto
    qed
    finally show ?thesis .
  qed
next
  fix x assume "h x = None"
  then show "?h x = None" by (simp add: hook_prev_def hook_next_def split: ptr.split)
qed

end
