(* ===== verification/TreeMoves.thy ===== *)
theory TreeMoves
  imports Forests
begin

text \<open>
  Moving a tree to another document: the pointers that may be followed, the change of one node, and the walk over attributes and
  children, which reaches exactly the subtree.
\<close>

section \<open>Pointers that may be followed\<close>

definition terminated_str :: "str ptr \<Rightarrow> bool" where
  "terminated_str s \<longleftrightarrow> (case s of NULL \<Rightarrow> True | Ptr (_, v) \<Rightarrow> cstring v)"

definition present :: "addr ptr \<Rightarrow> nheap \<Rightarrow> bool" where
  "present p h \<longleftrightarrow> (case p of NULL \<Rightarrow> True | Ptr a \<Rightarrow> h a \<noteq> None)"

definition safe_node :: "nheap \<Rightarrow> xmlNode \<Rightarrow> bool" where
  "safe_node h n \<longleftrightarrow> ntype n \<noteq> XML_NAMESPACE_DECL \<and> terminated_str (name n) \<and> terminated_str (content n) \<and>
     present (ndoc n) h \<and> present (intSubset n) h \<and> present (extSubset n) h \<and>
     (case ids n of NULL \<Rightarrow> True | Ptr t \<Rightarrow> \<forall>p \<in> ran t. present p h) \<and>
     (case entities n of NULL \<Rightarrow> True | Ptr t \<Rightarrow> \<forall>a \<in> ran t. h a \<noteq> None)"

definition safe :: "nheap \<Rightarrow> bool" where
  "safe h \<longleftrightarrow> (\<forall>a n. h a = Some n \<longrightarrow> safe_node h n) \<and>
     (\<forall>a \<in> {xmlEntityLt, xmlEntityGt, xmlEntityAmp, xmlEntityApos, xmlEntityQuot}. h a \<noteq> None)"

lemma safe_node_cong: "(\<And>x. h x = None \<longleftrightarrow> h' x = None) \<Longrightarrow> safe_node h n \<longleftrightarrow> safe_node h' n"
  unfolding safe_node_def present_def by (simp cong: ptr.case_cong)

text \<open>An update of one node that leaves it safe.\<close>

lemma safe_adj:
  assumes "safe h" "\<And>a n. p = Ptr a \<Longrightarrow> h a = Some n \<Longrightarrow> safe_node h (f n)"
  shows "safe (adj p f h)"
proof -
  have c: "safe_node (adj p f h) n = safe_node h n" for n by (rule safe_node_cong) simp
  have "safe_node h n" if "adj p f h a = Some n" for a n
  proof (cases "p = Ptr a")
    case True
    then obtain m where "h a = Some m" "n = f m" using \<open>adj p f h a = Some n\<close> by (auto simp: adj_def)
    then show ?thesis using assms(2) True by blast
  next
    case False
    then show ?thesis using \<open>adj p f h a = Some n\<close> assms(1) by (simp add: adj_def safe_def)
  qed
  then show ?thesis using assms(1) by (simp add: safe_def c)
qed

lemma safe_nodeD: "safe h \<Longrightarrow> h a = Some n \<Longrightarrow> safe_node h n"
  by (simp add: safe_def)

lemma present_D: "present (Ptr a) h \<Longrightarrow> h a \<noteq> None"
  by (simp add: present_def)

section \<open>Moving one node\<close>

text \<open>What no move changes.\<close>

definition keeps :: "xmlNode \<Rightarrow> xmlNode \<Rightarrow> bool" where
  "keeps n m \<longleftrightarrow> ntype m = ntype n \<and> ndict m = ndict n \<and> parent m = parent n \<and> nextSib m = nextSib n \<and> prevSib m = prevSib n \<and> properties m = properties n \<and>
     (ntype n \<noteq> XML_ENTITY_REF_NODE \<longrightarrow> children m = children n \<and> lastChild m = lastChild n)"

text \<open>The nodes of \<open>D\<close>, and only these, change the document and their strings.\<close>

definition moves :: "addr ptr \<Rightarrow> addr set \<Rightarrow> nheap \<Rightarrow> nheap \<Rightarrow> bool" where
  "moves doc D h h' \<longleftrightarrow> (\<forall>x. (h x = None \<longleftrightarrow> h' x = None) \<and>
     (\<forall>n m. h x = Some n \<longrightarrow> h' x = Some m \<longrightarrow> keeps n m \<and>
        (if x \<in> D then ndoc m = doc else ndoc m = ndoc n \<and> name m = name n \<and> content m = content n)))"

lemma keeps_trans: "keeps n m \<Longrightarrow> keeps m l \<Longrightarrow> keeps n l"
  by (simp add: keeps_def)

lemma moves_refl [simp]: "moves doc {} h h"
  by (simp add: moves_def keeps_def)

lemma moves_trans:
  assumes "moves doc D h h1" "moves doc D' h1 h2"
  shows "moves doc (D \<union> D') h h2"
  unfolding moves_def
proof (intro allI conjI impI)
  fix x
  show "h x = None \<longleftrightarrow> h2 x = None" using assms by (simp add: moves_def)
  fix n l assume n: "h x = Some n" and l: "h2 x = Some l"
  then obtain m where m: "h1 x = Some m" using assms unfolding moves_def by (metis not_None_eq)
  have a: "keeps n m" "if x \<in> D then ndoc m = doc else ndoc m = ndoc n \<and> name m = name n \<and> content m = content n"
    using assms(1) n m unfolding moves_def by blast+
  have b: "keeps m l" "if x \<in> D' then ndoc l = doc else ndoc l = ndoc m \<and> name l = name m \<and> content l = content m"
    using assms(2) m l unfolding moves_def by blast+
  show "keeps n l" using a(1) b(1) by (rule keeps_trans)
  show "if x \<in> D \<union> D' then ndoc l = doc else ndoc l = ndoc n \<and> name l = name n \<and> content l = content n"
    using a(2) b(2) by (auto split: if_splits)
qed

text \<open>An update that touches only what \<open>keeps\<close> does not mention, of a node in \<open>D\<close> or of none of its strings.\<close>

definition quiet :: "(xmlNode \<Rightarrow> xmlNode) \<Rightarrow> bool" where
  "quiet f \<longleftrightarrow> (\<forall>n. keeps n (f n) \<and> ndoc (f n) = ndoc n \<and> name (f n) = name n \<and> content (f n) = content n)"

lemma moves_quiet: "quiet f \<Longrightarrow> moves doc {} h (adj p f h)"
  by (auto simp: moves_def adj_def quiet_def keeps_def split: if_splits)

lemma moves_quiet_trans: "moves doc D h h1 \<Longrightarrow> quiet f \<Longrightarrow> moves doc D h (adj p f h1)"
  using moves_trans [OF _ moves_quiet, of doc D h h1 f p] by simp

lemma quiet_simps: "quiet (clear_subsets a)" "quiet (\<lambda>m. m\<lparr>ids := t\<rparr>)" "quiet (\<lambda>m. m\<lparr>attr_id := i\<rparr>)" "quiet (\<lambda>m. m\<lparr>entities := table_remove (entities m) nm\<rparr>)"
  by (simp_all add: quiet_def keeps_def clear_subsets_def)

text \<open>A step that keeps the heap safe and only makes quiet updates.\<close>

definition quiet_step :: "nheap \<Rightarrow> nheap \<Rightarrow> bool" where
  "quiet_step h h' \<longleftrightarrow> safe h' \<and> (\<forall>doc. moves doc {} h h')"

lemma quiet_refl: "safe h \<Longrightarrow> quiet_step h h"
  by (simp add: quiet_step_def)

lemma quiet_trans: "quiet_step h h1 \<Longrightarrow> quiet_step h1 h2 \<Longrightarrow> quiet_step h h2"
  unfolding quiet_step_def using moves_trans [of _ "{}" h h1 "{}" h2] by simp

lemma quiet_adj: "safe h \<Longrightarrow> quiet f \<Longrightarrow> (\<And>a n. p = Ptr a \<Longrightarrow> h a = Some n \<Longrightarrow> safe_node h (f n)) \<Longrightarrow> quiet_step h (adj p f h)"
  by (simp add: quiet_step_def safe_adj moves_quiet)

lemma present_moves: "moves doc D h h' \<Longrightarrow> present p h' \<longleftrightarrow> present p h"
  by (simp add: present_def moves_def split: ptr.split)

lemma xmlRemoveID_ok:
  assumes "safe h" "h a = Some n" "present docp h"
  shows "\<exists>c h'. xmlRemoveID docp a h = Some (c, h') \<and> quiet_step h h'"
proof (cases docp)
  case (Ptr d)
  then obtain doc where d: "h d = Some doc" using assms(3) by (auto simp: present_def)
  note sd = safe_nodeD [OF assms(1) d]
  show ?thesis
  proof (cases "attr_id n = NULL \<or> ids doc = NULL \<or> (\<exists>v t. attr_id n = Ptr v \<and> ids doc = Ptr t \<and> t v = None)")
    case True
    then show ?thesis using Ptr assms d quiet_refl by (auto simp: xmlRemoveID_def split: ptr.split)
  next
    case False
    then obtain v t p where p: "attr_id n = Ptr v" "ids doc = Ptr t" "t v = Some p" by (cases "attr_id n"; cases "ids doc") auto
    let ?h1 = "adj (Ptr d) (\<lambda>m. m\<lparr>ids := Ptr (t(v := None))\<rparr>) h"
    let ?h2 = "adj p (\<lambda>m. m\<lparr>attr_id := NULL\<rparr>) ?h1"
    have "p \<in> ran t" using p(3) by (rule ranI)
    then have pp: "present p h" using sd p(2) by (simp add: safe_node_def)
    have "safe_node h (m\<lparr>ids := Ptr (t(v := None))\<rparr>)" if "h d = Some m" for m
      using that d sd p(2) by (auto simp: safe_node_def ran_def split: if_splits)
    then have q1: "quiet_step h ?h1" by (intro quiet_adj [OF assms(1)]) (auto simp: quiet_simps)
    then have s1: "safe ?h1" by (simp add: quiet_step_def)
    have "quiet_step ?h1 ?h2"
      by (rule quiet_adj [OF s1]) (auto simp: quiet_simps dest!: safe_nodeD [OF s1] simp: safe_node_def)
    then have "quiet_step h ?h2" using q1 quiet_trans by blast
    moreover have "xmlRemoveID docp a h = Some (0, ?h2)"
    proof -
      have "upd_if p (\<lambda>m. m\<lparr>attr_id := NULL\<rparr>) ?h1 = Some ?h2" using pp by (intro upd_if_adj) (auto simp: present_def)
      then show ?thesis using Ptr assms(2) d p by (simp add: xmlRemoveID_def upd_adj)
    qed
    ultimately show ?thesis by blast
  qed
qed (use assms quiet_refl in \<open>auto simp: xmlRemoveID_def\<close>)

lemma xmlStrdup_terminated:
  assumes "cstring v"
  shows "\<exists>r. xmlStrdup m (Ptr v) = Some r \<and> (\<forall>w. r = Ptr w \<longrightarrow> cstring w)"
proof -
  let ?n = "c_int (int (length (strval v)))"
  have "?n \<le> int (length (strval v))" by (simp add: c_int_def signed_take_bit_int_less_eq_self_iff)
  then have "nat ?n \<le> length v" using length_strval_less [OF assms] by simp
  then show ?thesis using assms by (auto simp: xmlStrdup_def strlen_cstring xmlStrndup_def copy_in_def cstring_def)
qed

lemma dup_str_ok: "terminated_str s \<Longrightarrow> \<exists>r. dup_str e s = Some r \<and> terminated_str r"
proof (cases s)
  case (Ptr q)
  moreover assume "terminated_str s"
  ultimately have "cstring (snd q)" by (auto simp: terminated_str_def split: prod.splits)
  from xmlStrdup_terminated [OF this, of "mem e"] obtain r where r: "xmlStrdup (mem e) (Ptr (snd q)) = Some r" "\<forall>w. r = Ptr w \<longrightarrow> cstring w"
    by blast
  have "dup_str e s = Some (malloced r)" using Ptr r by (cases q) (simp add: dup_str_def raw_str_def)
  moreover have "terminated_str (malloced r)" using r(2) by (simp add: malloced_def terminated_str_def split: ptr.split)
  ultimately show ?thesis by blast
qed (simp add: dup_str_def raw_str_def xmlStrdup_def malloced_def terminated_str_def)

lemma intern_ok: "terminated_str s \<Longrightarrow> terminated_str (intern e d s)"
  by (auto simp: terminated_str_def intern_def split: ptr.splits)

lemma remove_from_ok:
  assumes "safe h" "present sub h"
  shows "\<exists>h'. remove_from sub a n h = Some h' \<and> quiet_step h h'"
proof (cases sub)
  case (Ptr s)
  then obtain dtd where d: "h s = Some dtd" using assms(2) by (auto simp: present_def)
  let ?f = "\<lambda>m. m\<lparr>entities := table_remove (entities m) (name n)\<rparr>"
  have t: "case table_remove t nm of NULL \<Rightarrow> True | Ptr t \<Rightarrow> \<forall>a \<in> ran t. h a \<noteq> None"
    if "case t of NULL \<Rightarrow> True | Ptr t \<Rightarrow> \<forall>a \<in> ran t. h a \<noteq> None" for t nm
  proof -
    have sub: "ran (f(v := None)) \<subseteq> ran f" for f :: "bytes \<rightharpoonup> addr" and v by (auto simp: ran_def split: if_splits)
    show ?thesis
    proof (cases t)
      case (Ptr f)
      then show ?thesis using that sub by (cases nm; simp add: table_remove_def split: prod.split; blast)
    qed (simp add: table_remove_def)
  qed
  have "safe_node h (?f dtd)"
    using safe_nodeD [OF assms(1) d] t unfolding safe_node_def by simp
  then have "quiet_step h (adj (Ptr s) ?f h)" using d by (intro quiet_adj [OF assms(1)]) (auto simp: quiet_simps)
  then show ?thesis using Ptr d quiet_refl [OF assms(1)] by (simp add: remove_from_def upd_adj Let_def)
qed (use assms quiet_refl in \<open>simp add: remove_from_def\<close>)

lemma quiet_present: "quiet_step h h' \<Longrightarrow> present p h' \<longleftrightarrow> present p h"
  unfolding quiet_step_def using present_moves by blast

lemma xmlRemoveEntity_ok:
  assumes "safe h" "h a = Some n"
  shows "\<exists>h'. xmlRemoveEntity a h = Some h' \<and> quiet_step h h'"
proof (cases "ndoc n")
  case (Ptr d)
  have sn: "safe_node h n" by (rule safe_nodeD [OF assms])
  then obtain doc where d: "h d = Some doc" using Ptr by (auto simp: safe_node_def present_def)
  then have p: "present (intSubset doc) h" "present (extSubset doc) h" using safe_nodeD [OF assms(1) d] by (simp_all add: safe_node_def)
  obtain h1 where h1: "remove_from (intSubset doc) a n h = Some h1" "quiet_step h h1" using remove_from_ok [OF assms(1) p(1)] by blast
  have s1: "safe h1" using h1(2) by (simp add: quiet_step_def)
  have "present (extSubset doc) h1" using p(2) quiet_present [OF h1(2)] by blast
  then obtain h2 where "remove_from (extSubset doc) a n h1 = Some h2" "quiet_step h1 h2" using remove_from_ok [OF s1] by blast
  then show ?thesis using Ptr assms d h1 quiet_trans [OF h1(2)] quiet_refl [OF assms(1)]
    by (cases "is_general (etype n) \<or> is_parameter (etype n)") (simp_all add: xmlRemoveEntity_def)
qed (use assms quiet_refl in \<open>simp add: xmlRemoveEntity_def\<close>)

lemma table_lookup_ok:
  "case t of NULL \<Rightarrow> True | Ptr t \<Rightarrow> \<forall>a \<in> ran t. h a \<noteq> None \<Longrightarrow> present (table_lookup t nm) h"
  by (auto simp: table_lookup_def present_def ran_def split: ptr.splits option.splits prod.splits)

lemma predefined_ok: "safe h \<Longrightarrow> present (xmlGetPredefinedEntity nm) h"
  by (auto simp: xmlGetPredefinedEntity_def present_def safe_def split: ptr.split)

lemma subset_entity_ok:
  assumes "safe h" "present sub h"
  shows "\<exists>r. subset_entity sub nm h = Some r \<and> present r h"
proof (cases sub)
  case (Ptr s)
  then obtain dtd where d: "h s = Some dtd" using assms(2) by (auto simp: present_def)
  have "present (table_lookup (entities dtd) nm) h"
    by (rule table_lookup_ok) (use safe_nodeD [OF assms(1) d] in \<open>simp add: safe_node_def\<close>)
  then show ?thesis using Ptr d by (simp add: subset_entity_def)
qed (simp add: subset_entity_def present_def)

lemma xmlGetDocEntity_ok:
  assumes "safe h" "present docp h"
  shows "\<exists>r. xmlGetDocEntity docp nm h = Some r \<and> present r h"
proof (cases docp)
  case (Ptr d)
  then obtain doc where d: "h d = Some doc" using assms(2) by (auto simp: present_def)
  then have p: "present (intSubset doc) h" "present (extSubset doc) h" using safe_nodeD [OF assms(1) d] by (simp_all add: safe_node_def)
  obtain r1 where r1: "subset_entity (intSubset doc) nm h = Some r1" "present r1 h" using subset_entity_ok [OF assms(1) p(1)] by blast
  obtain r2 where r2: "subset_entity (extSubset doc) nm h = Some r2" "present r2 h" using subset_entity_ok [OF assms(1) p(2)] by blast
  show ?thesis using Ptr d r1 r2 predefined_ok [OF assms(1), of nm] by (auto simp: xmlGetDocEntity_def)
qed (use predefined_ok [OF assms(1)] in \<open>simp add: xmlGetDocEntity_def\<close>)

text \<open>One node moves: its links stay, and nothing is read or written outside the nodes that are there.\<close>

definition moved_ok :: "addr ptr \<Rightarrow> addr set \<Rightarrow> nheap \<Rightarrow> nheap \<Rightarrow> bool" where
  "moved_ok doc D h h' \<longleftrightarrow> safe h' \<and> moves doc D h h'"

lemma moved_quiet: "moved_ok doc D h h1 \<Longrightarrow> quiet_step h1 h2 \<Longrightarrow> moved_ok doc D h h2"
  unfolding moved_ok_def quiet_step_def using moves_trans [of doc D h h1 "{}" h2] by simp

lemma moved_trans: "moved_ok doc D h h1 \<Longrightarrow> moved_ok doc D' h1 h2 \<Longrightarrow> moved_ok doc (D \<union> D') h h2"
  unfolding moved_ok_def using moves_trans by blast

lemma moved_refl: "safe h \<Longrightarrow> moved_ok doc {} h h"
  by (simp add: moved_ok_def)

text \<open>
  When a node can lose a string on the way from the dictionary \<open>d\<close> to \<open>d'\<close>: its name is in \<open>d\<close> and can not be added
  to \<open>d'\<close>, or there is no memory for a copy of the name or of the text, which is in \<open>d\<close>.
\<close>

definition uncopied :: "env \<Rightarrow> str ptr \<Rightarrow> bool" where
  "uncopied e s \<longleftrightarrow> (case s of NULL \<Rightarrow> False
     | Ptr (_, v) \<Rightarrow> \<not> mem e (length (strval v) + 1) \<or> INT_MAX_nat < length (strval v))"

definition loses :: "env \<Rightarrow> nat list \<Rightarrow> nat list \<Rightarrow> xmlNode \<Rightarrow> bool" where
  "loses e d d' n \<longleftrightarrow> d \<noteq> [] \<and> d \<noteq> d' \<and>
     (ntype n \<in> {XML_ELEMENT_NODE, XML_ATTRIBUTE_NODE, XML_PI_NODE, XML_ENTITY_REF_NODE} \<and> owns d (name n) \<and>
        (if d' = [] then uncopied e (name n) else intern e d' (name n) = NULL) \<or>
      ntype n \<in> {XML_TEXT_NODE, XML_CDATA_SECTION_NODE} \<and> owns d (content n) \<and> uncopied e (content n))"

text \<open>Some node of \<open>D\<close> loses a string when it moves to the document \<open>doc\<close>.\<close>

definition losing :: "env \<Rightarrow> addr ptr \<Rightarrow> addr set \<Rightarrow> nheap \<Rightarrow> bool" where
  "losing e doc D h \<longleftrightarrow> (\<exists>x \<in> D. \<exists>n d d'. h x = Some n \<and> doc_dict (ndoc n) h = Some d \<and> doc_dict doc h = Some d' \<and> loses e d d' n)"

lemma losing_mono: "losing e doc D h \<Longrightarrow> D \<subseteq> E \<Longrightarrow> losing e doc E h"
  unfolding losing_def by blast

lemma doc_dict_moves: "moves doc D h h' \<Longrightarrow> doc_dict p h' = doc_dict p h"
proof (cases p)
  case (Ptr a)
  assume m: "moves doc D h h'"
  note ma = m [unfolded moves_def, THEN spec, of a]
  have "map_option ndict (h' a) = map_option ndict (h a)"
  proof (cases "h a")
    case None
    then show ?thesis using ma by simp
  next
    case (Some n)
    then obtain m where m: "h' a = Some m" using ma by (cases "h' a") auto
    then have "keeps n m" using ma Some by blast
    then show ?thesis using Some m by (simp add: keeps_def)
  qed
  then show ?thesis using Ptr by (simp add: doc_dict_def)
qed (simp add: doc_dict_def)

lemma losing_moves:
  assumes "moves doc' D h h'" "losing e doc E h'" "E \<inter> D = {}"
  shows "losing e doc E h"
proof -
  obtain x m d d' where x: "x \<in> E" "h' x = Some m" "doc_dict (ndoc m) h' = Some d" "doc_dict doc h' = Some d'" "loses e d d' m"
    using assms(2) unfolding losing_def by blast
  have nx: "x \<notin> D" using assms(3) x(1) by blast
  obtain n where n: "h x = Some n" using assms(1) x(2) unfolding moves_def by (metis not_None_eq)
  then have k: "keeps n m" "ndoc m = ndoc n" "name m = name n" "content m = content n"
    using assms(1) x(2) nx unfolding moves_def by metis+
  then have "ntype m = ntype n" by (simp add: keeps_def)
  then have "loses e d d' n" using x(5) unfolding loses_def k(3,4) by simp
  moreover have "doc_dict (ndoc n) h = Some d" "doc_dict doc h = Some d'"
    using x(3,4) k(2) doc_dict_moves [OF assms(1)] by simp_all
  ultimately show ?thesis using x(1) n unfolding losing_def by blast
qed

lemma losing_quiet: "losing e doc D h' \<Longrightarrow> quiet_step h h' \<Longrightarrow> losing e doc D h"
  unfolding quiet_step_def using losing_moves [of _ "{}"] by blast

lemma dup_str_uncopied: "dup_str e s = Some NULL \<Longrightarrow> s \<noteq> NULL \<Longrightarrow> terminated_str s \<Longrightarrow> uncopied e s"
proof (cases s)
  case (Ptr q)
  moreover obtain p v where q: "q = (p, v)" by (cases q)
  moreover assume "dup_str e s = Some NULL" "terminated_str s"
  ultimately obtain r where "xmlStrdup (mem e) (Ptr v) = Some r" "malloced r = NULL" "cstring v"
    by (auto simp: terminated_str_def dup_str_def raw_str_def)
  then have v: "cstring v" "xmlStrdup (mem e) (Ptr v) = Some NULL" by (cases r; simp add: malloced_def)+
  have "length (strval v) < length v" by (rule length_strval_less [OF v(1)])
  moreover have "c_int (int (length (strval v))) = int (length (strval v))" if "\<not> INT_MAX_nat < length (strval v)"
    using that by simp
  ultimately show ?thesis using v Ptr q
    by (cases "INT_MAX_nat < length (strval v)")
      (auto simp: uncopied_def xmlStrdup_def strlen_cstring xmlStrndup_def copy_in_def split: if_splits)
qed simp

lemma move_strings_ok:
  assumes "safe_node h node"
  shows "\<exists>lost nm ct. move_strings e d d' node = Some (lost, node\<lparr>name := nm, content := ct\<rparr>) \<and> terminated_str nm \<and> terminated_str ct \<and>
    (lost \<longrightarrow> loses e d d' node)"
proof -
  have t: "terminated_str (name node)" "terminated_str (content node)" using assms by (simp_all add: safe_node_def)
  obtain r where r: "dup_str e (name node) = Some r" "terminated_str r" using dup_str_ok [OF t(1)] by blast
  obtain q where q: "dup_str e (content node) = Some q" "terminated_str q" using dup_str_ok [OF t(2)] by blast
  let ?a = "name node \<noteq> NULL \<and> ntype node \<in> {XML_ELEMENT_NODE, XML_ATTRIBUTE_NODE, XML_PI_NODE, XML_ENTITY_REF_NODE} \<and> owns d (name node)"
  let ?b = "content node \<noteq> NULL \<and> ntype node \<in> {XML_TEXT_NODE, XML_CDATA_SECTION_NODE} \<and> owns d (content node)"
  define nm where "nm = (if ?a then (if d' \<noteq> [] then intern e d' (name node) else r) else name node)"
  define ct where "ct = (if ?b then q else content node)"
  show ?thesis
  proof (cases "d \<noteq> [] \<and> d \<noteq> d'")
    case True
    have 1: "(if ?a then (if d' \<noteq> [] then Some (intern e d' (name node)) else dup_str e (name node)) else Some (name node)) = Some nm"
      unfolding nm_def r(1) by simp
    have 2: "(if ?b then dup_str e (content node) else Some (content node)) = Some ct" unfolding ct_def q(1) by simp
    have "move_strings e d d' node = Some (name node \<noteq> NULL \<and> nm = NULL \<or> content node \<noteq> NULL \<and> ct = NULL, node\<lparr>name := nm, content := ct\<rparr>)"
      unfolding move_strings_def if_P [OF True] 1 2 by simp
    moreover have "terminated_str nm" "terminated_str ct" using t r q intern_ok [OF t(1)] by (simp_all add: nm_def ct_def)
    moreover have "loses e d d' node" if "name node \<noteq> NULL \<and> nm = NULL \<or> content node \<noteq> NULL \<and> ct = NULL"
    proof -
      have n: "uncopied e (name node)" if "name node \<noteq> NULL" "r = NULL" using dup_str_uncopied r(1) t(1) that by blast
      have c: "uncopied e (content node)" if "content node \<noteq> NULL" "q = NULL" using dup_str_uncopied q(1) t(2) that by blast
      show ?thesis
        using that True n c unfolding loses_def nm_def ct_def by (cases "d' = []") (simp_all split: if_splits, blast+)
    qed
    ultimately show ?thesis by blast
  next
    case False
    show ?thesis unfolding move_strings_def if_not_P [OF False]
      by (rule exI [of _ False], rule exI [of _ "name node"], rule exI [of _ "content node"]) (use t in simp)
  qed
qed

text \<open>The node \<open>a\<close> may get new strings.\<close>

definition touches :: "addr \<Rightarrow> nheap \<Rightarrow> nheap \<Rightarrow> bool" where
  "touches a h h' \<longleftrightarrow> safe h' \<and> (\<forall>x. (h x = None \<longleftrightarrow> h' x = None) \<and>
     (\<forall>n m. h x = Some n \<longrightarrow> h' x = Some m \<longrightarrow> keeps n m \<and> ndoc m = ndoc n \<and> (x \<noteq> a \<longrightarrow> name m = name n \<and> content m = content n)))"

lemma touches_quiet: "quiet_step h h' \<Longrightarrow> touches a h h'"
  unfolding quiet_step_def touches_def moves_def by simp

lemma touches_trans:
  assumes "touches a h h1" "touches a h1 h2"
  shows "touches a h h2"
  unfolding touches_def
proof (intro conjI allI impI)
  fix x
  show "h x = None \<longleftrightarrow> h2 x = None" using assms by (simp add: touches_def)
  fix n l assume n: "h x = Some n" and l: "h2 x = Some l"
  then obtain m where m: "h1 x = Some m" using assms unfolding touches_def by (metis not_None_eq)
  have a: "keeps n m" "ndoc m = ndoc n" "x \<noteq> a \<Longrightarrow> name m = name n \<and> content m = content n"
    using assms(1) n m unfolding touches_def by blast+
  have b: "keeps m l" "ndoc l = ndoc m" "x \<noteq> a \<Longrightarrow> name l = name m \<and> content l = content m"
    using assms(2) m l unfolding touches_def by blast+
  show "keeps n l" using a(1) b(1) by (rule keeps_trans)
  show "ndoc l = ndoc n" "x \<noteq> a \<Longrightarrow> name l = name n" "x \<noteq> a \<Longrightarrow> content l = content n" using a b by simp_all
qed (use assms in \<open>simp add: touches_def\<close>)

lemma touches_moved:
  assumes "touches a h h'" "present doc h"
  shows "moved_ok doc {a} h (adj (Ptr a) (\<lambda>m. m\<lparr>ndoc := doc\<rparr>) h')"
proof -
  have s: "safe h'" using assms(1) by (simp add: touches_def)
  have p: "present doc h'" using assms by (cases doc) (simp_all add: touches_def present_def)
  have "safe (adj (Ptr a) (\<lambda>m. m\<lparr>ndoc := doc\<rparr>) h')"
    by (rule safe_adj [OF s]) (use safe_nodeD [OF s] p in \<open>auto simp: safe_node_def\<close>)
  moreover have "moves doc {a} h (adj (Ptr a) (\<lambda>m. m\<lparr>ndoc := doc\<rparr>) h')"
    unfolding moves_def
  proof (intro allI conjI impI)
    fix x
    show "h x = None \<longleftrightarrow> adj (Ptr a) (\<lambda>m. m\<lparr>ndoc := doc\<rparr>) h' x = None" using assms(1) by (simp add: touches_def)
    fix n m assume n: "h x = Some n" and m: "adj (Ptr a) (\<lambda>m. m\<lparr>ndoc := doc\<rparr>) h' x = Some m"
    then obtain l where l: "h' x = Some l" "m = (if x = a then l\<lparr>ndoc := doc\<rparr> else l)" by (auto simp: adj_def split: if_splits)
    have t: "keeps n l" "ndoc l = ndoc n" "x \<noteq> a \<Longrightarrow> name l = name n \<and> content l = content n"
      using assms(1) n l(1) unfolding touches_def by blast+
    show "keeps n m" using t(1) l(2) by (simp add: keeps_def)
    show "if x \<in> {a} then ndoc m = doc else ndoc m = ndoc n \<and> name m = name n \<and> content m = content n" using t(2,3) l(2) by simp
  qed
  ultimately show ?thesis by (simp add: moved_ok_def)
qed

lemma refer_entity_ok:
  assumes "safe h" "h a = Some n" "ntype n = XML_ENTITY_REF_NODE" "present docp h"
  shows "\<exists>h'. refer_entity docp a h = Some h' \<and> touches a h h'"
proof -
  let ?f = "\<lambda>m. m\<lparr>children := NULL, lastChild := NULL, content := NULL\<rparr>"
  let ?h = "adj (Ptr a) ?f h"
  have s: "safe ?h" by (rule safe_adj [OF assms(1)]) (use safe_nodeD [OF assms(1)] in \<open>auto simp: safe_node_def terminated_str_def\<close>)
  have k: "touches a h (adj (Ptr a) g ?h)"
    if "\<And>m. ntype m = XML_ENTITY_REF_NODE \<Longrightarrow> keeps m (g m) \<and> ndoc (g m) = ndoc m" "safe (adj (Ptr a) g ?h)" for g
    using that assms(2,3) by (auto simp: touches_def adj_def keeps_def split: if_splits)
  have u: "upd a ?f h = Some ?h" using assms(2) by (simp add: upd_adj)
  have id: "adj (Ptr a) (\<lambda>m. m) ?h = ?h" by (rule ext) (simp add: adj_def option.map_ident)
  have stop: ?thesis if "refer_entity docp a h = Some ?h"
    using that s k [of "\<lambda>m. m"] unfolding id by (intro exI [of _ ?h]) (simp add: keeps_def)
  show ?thesis
  proof (cases docp)
    case NULL
    then show ?thesis using stop u by (simp add: refer_entity_def)
  next
    case (Ptr d)
    then obtain doc where d: "?h d = Some doc" using assms(4) by (cases "?h d") (auto simp: present_def)
    obtain n' where n': "?h a = Some n'" using assms(2) by (simp add: adj_def)
    have pd: "present docp ?h" using Ptr d by (simp add: present_def)
    obtain r where r: "xmlGetDocEntity docp (name n') ?h = Some r" "present r ?h" using xmlGetDocEntity_ok [OF s pd] by blast
    show ?thesis
    proof (cases "intSubset doc = NULL \<and> extSubset doc = NULL \<or> r = NULL")
      case True
      then show ?thesis using stop u d n' r Ptr by (auto simp: refer_entity_def)
    next
      case False
      then obtain en where en: "r = Ptr en" by (cases r) auto
      then obtain m where m: "?h en = Some m" using r(2) by (cases "?h en") (simp_all add: present_def)
      let ?g = "\<lambda>k. k\<lparr>children := r, lastChild := r, content := content m\<rparr>"
      have "refer_entity docp a h = Some (adj (Ptr a) ?g ?h)"
        using Ptr u d n' r(1) en m False by (auto simp: refer_entity_def upd_adj)
      moreover have "safe (adj (Ptr a) ?g ?h)"
        by (rule safe_adj [OF s]) (use safe_nodeD [OF s] m in \<open>auto simp: safe_node_def\<close>)
      ultimately show ?thesis using k [of ?g] by (intro exI [of _ "adj (Ptr a) ?g ?h"]) (simp add: keeps_def)
    qed
  qed
qed

lemma doc_dict_ok: "present p h \<Longrightarrow> \<exists>d. doc_dict p h = Some d"
  by (auto simp: doc_dict_def present_def split: ptr.split)

lemma xmlNodeSetDoc_ok:
  assumes "safe h" "h a = Some n" "present doc h"
  shows "\<exists>lost h'. xmlNodeSetDoc e a doc h = Some (lost, h') \<and> moved_ok doc {a} h h' \<and> (lost \<longrightarrow> losing e doc {a} h)"
proof -
  have sn: "safe_node h n" by (rule safe_nodeD [OF assms(1,2)])
  then have po: "present (ndoc n) h" by (simp add: safe_node_def)
  obtain d1 d2 where d: "doc_dict (ndoc n) h = Some d1" "doc_dict doc h = Some d2"
    using doc_dict_ok [OF po] doc_dict_ok [OF assms(3)] by blast
  obtain lost nm ct where ms: "move_strings e d1 d2 n = Some (lost, n\<lparr>name := nm, content := ct\<rparr>)" "terminated_str nm" "terminated_str ct"
      and ls: "lost \<longrightarrow> loses e d1 d2 n"
    using move_strings_ok [OF sn] by metis
  have "lost \<longrightarrow> losing e doc {a} h" using ls d assms(2) by (auto simp: losing_def)
  let ?n1 = "n\<lparr>name := nm, content := ct\<rparr>"
  let ?h1 = "h(a \<mapsto> ?n1)"
  have h1: "?h1 = adj (Ptr a) (\<lambda>_. ?n1) h" using assms(2) by (auto simp: adj_def fun_eq_iff)
  have "safe ?h1" unfolding h1 by (rule safe_adj [OF assms(1)]) (use sn ms(2,3) in \<open>simp add: safe_node_def\<close>)
  then have t1: "touches a h ?h1" using assms(2) by (auto simp: touches_def keeps_def)
  have n1: "?h1 a = Some ?n1" by simp
  have p1: "present p h \<Longrightarrow> present p ?h1" for p by (cases p) (simp_all add: present_def)
  let ?step = "case ntype n of
              XML_ATTRIBUTE_NODE \<Rightarrow> (if attr_id n \<noteq> NULL then map_option snd (xmlRemoveID (ndoc n) a ?h1) else Some ?h1)
            | XML_ENTITY_REF_NODE \<Rightarrow> refer_entity doc a ?h1
            | XML_DTD_NODE \<Rightarrow> upd_if (ndoc n) (clear_subsets a) ?h1
            | XML_ENTITY_DECL \<Rightarrow> xmlRemoveEntity a ?h1
            | _ \<Rightarrow> Some ?h1"
  have "\<exists>h2. ?step = Some h2 \<and> touches a ?h1 h2"
  proof -
    note s1 = \<open>safe ?h1\<close>
    have 0: "touches a ?h1 ?h1" by (rule touches_quiet [OF quiet_refl [OF s1]])
    have 1: "\<exists>h2. map_option snd (xmlRemoveID (ndoc n) a ?h1) = Some h2 \<and> touches a ?h1 h2"
      using xmlRemoveID_ok [OF s1 n1 p1 [OF po]] touches_quiet by fastforce
    have 2: "\<exists>h2. refer_entity doc a ?h1 = Some h2 \<and> touches a ?h1 h2" if "ntype n = XML_ENTITY_REF_NODE"
      by (rule refer_entity_ok [OF s1 n1 _ p1 [OF assms(3)]]) (use that in simp)
    have 3: "\<exists>h2. upd_if (ndoc n) (clear_subsets a) ?h1 = Some h2 \<and> touches a ?h1 h2"
    proof -
      have "upd_if (ndoc n) (clear_subsets a) ?h1 = Some (adj (ndoc n) (clear_subsets a) ?h1)"
        using p1 [OF po] by (intro upd_if_adj) (auto simp: present_def)
      moreover have "quiet_step ?h1 (adj (ndoc n) (clear_subsets a) ?h1)"
        by (rule quiet_adj [OF s1]) (use safe_nodeD [OF s1] in \<open>auto simp: quiet_simps safe_node_def clear_subsets_def present_def\<close>)
      ultimately show ?thesis using touches_quiet by blast
    qed
    have 4: "\<exists>h2. xmlRemoveEntity a ?h1 = Some h2 \<and> touches a ?h1 h2" using xmlRemoveEntity_ok [OF s1 n1] touches_quiet by blast
    show ?thesis using 0 1 2 3 4 by (cases "ntype n") simp_all
  qed
  then obtain h2 where h2: "?step = Some h2" "touches a ?h1 h2" by blast
  have "touches a h h2" using touches_trans [OF t1 h2(2)] .
  moreover note \<open>lost \<longrightarrow> losing e doc {a} h\<close>
  moreover have "h2 a \<noteq> None" using h2(2) n1 unfolding touches_def by (metis option.distinct(1))
  ultimately show ?thesis using touches_moved [OF _ assms(3)] d ms(1) h2(1) assms(2)
    by (simp add: xmlNodeSetDoc_def Let_def upd_adj)
qed

section \<open>Subtrees\<close>

definition below :: "forest \<Rightarrow> (addr \<times> addr) set" where
  "below G = {(x, a). x \<in> set (G (Kids a)) \<or> x \<in> set (G (Props a))}"

definition subtree :: "forest \<Rightarrow> addr \<Rightarrow> addr set" where
  "subtree G a = {x. (x, a) \<in> (below G)\<^sup>*}"

lemma below_group: "(x, a) \<in> below G \<longleftrightarrow> (\<exists>k. x \<in> set (G k) \<and> owner k = Ptr a)"
  unfolding below_def by (auto elim: owner.elims)

lemma below_single: "disjoint_groups G \<Longrightarrow> single_valued (below G)"
  unfolding single_valued_def below_group disjoint_groups_def by (metis ptr.inject)

lemma subtree_self [simp]: "a \<in> subtree G a"
  by (simp add: subtree_def)

lemma subtree_child: "(c, a) \<in> below G \<Longrightarrow> subtree G c \<subseteq> subtree G a"
  by (auto simp: subtree_def intro: rtrancl_into_rtrancl)

lemma subtree_unfold: "subtree G a = insert a (\<Union>c \<in> set (G (Kids a)) \<union> set (G (Props a)). subtree G c)"
  unfolding subtree_def by (auto simp: below_def elim: rtranclE intro: rtrancl_into_rtrancl)

lemma subtree_parent: "x \<in> subtree G a \<Longrightarrow> (y, x) \<in> below G \<Longrightarrow> y \<in> subtree G a"
  by (auto simp: subtree_def intro: converse_rtrancl_into_rtrancl)

lemma not_below_self: "wf (below G) \<Longrightarrow> (c, a) \<in> below G \<Longrightarrow> a \<notin> subtree G c"
  unfolding subtree_def by (metis mem_Collect_eq rtrancl_into_trancl1 wf_acyclic acyclic_def)

lemma siblings_apart:
  assumes "disjoint_groups G" "wf (below G)" "(c, a) \<in> below G" "(d, a) \<in> below G" "c \<noteq> d"
  shows "subtree G c \<inter> subtree G d = {}"
proof -
  have no: "(c, d) \<notin> (below G)\<^sup>*" if "(c, a) \<in> below G" "(d, a) \<in> below G" "c \<noteq> d" for c d
  proof
    assume "(c, d) \<in> (below G)\<^sup>*"
    then obtain b where b: "(c, b) \<in> below G" "(b, d) \<in> (below G)\<^sup>*" using \<open>c \<noteq> d\<close> by (auto elim: converse_rtranclE)
    then have "b = a" using below_single [OF assms(1)] that(1) unfolding single_valued_def by blast
    then have "(a, a) \<in> (below G)\<^sup>+" using b(2) that(2) by (metis rtrancl_into_trancl1)
    then show False using wf_acyclic [OF assms(2)] unfolding acyclic_def by blast
  qed
  have "x \<notin> subtree G d" if x: "x \<in> subtree G c" for x
  proof
    assume "x \<in> subtree G d"
    then have "(c, d) \<in> (below G)\<^sup>* \<or> (d, c) \<in> (below G)\<^sup>*"
      using single_valued_confluent [OF below_single [OF assms(1)]] x by (auto simp: subtree_def)
    then show False using no [OF assms(3,4,5)] no [OF assms(4,3)] assms(5) by blast
  qed
  then show ?thesis by blast
qed

section \<open>Moving a tree\<close>

text \<open>The links that the walk over the subtree of \<open>x\<close> follows at \<open>x\<close>.\<close>

definition chain_at :: "forest \<Rightarrow> nheap \<Rightarrow> addr \<Rightarrow> bool" where
  "chain_at G h x \<longleftrightarrow> (\<exists>n. h x = Some n \<and>
     (if ntype n = XML_ENTITY_REF_NODE then G (Kids x) = [] else children n = headp (G (Kids x))) \<and>
     (if ntype n = XML_ELEMENT_NODE then properties n = headp (G (Props x)) else G (Props x) = []) \<and>
     (\<forall>k. owner k = Ptr x \<longrightarrow> (\<forall>y \<in> set (G k). \<exists>m. h y = Some m \<and> nextSib m = nxt (G k) y \<and>
        (k = Props x \<longrightarrow> ntype m = XML_ATTRIBUTE_NODE))))"

lemma chain_next:
  assumes "chain_at G h a" "owner k = Ptr a" "y \<in> set (G k)"
  obtains m where "h y = Some m" "nextSib m = nxt (G k) y" "k = Props a \<Longrightarrow> ntype m = XML_ATTRIBUTE_NODE"
  using assms unfolding chain_at_def by blast

definition elsewhere :: "addr ptr \<Rightarrow> nheap \<Rightarrow> addr \<Rightarrow> bool" where
  "elsewhere doc h x \<longleftrightarrow> (\<forall>n. h x = Some n \<longrightarrow> ndoc n \<noteq> doc)"

lemma moves_node: "moves doc D h h' \<Longrightarrow> h x = Some n \<Longrightarrow> \<exists>m. h' x = Some m \<and> keeps n m \<and> (x \<notin> D \<longrightarrow> ndoc m = ndoc n)"
  unfolding moves_def by (metis not_None_eq)

lemma chain_moves:
  assumes "moves doc D h h'" "chain_at G h x"
  shows "chain_at G h' x"
proof -
  obtain n where n: "h x = Some n" "if ntype n = XML_ENTITY_REF_NODE then G (Kids x) = [] else children n = headp (G (Kids x))"
     "if ntype n = XML_ELEMENT_NODE then properties n = headp (G (Props x)) else G (Props x) = []"
     "\<And>k y. owner k = Ptr x \<Longrightarrow> y \<in> set (G k) \<Longrightarrow> \<exists>m. h y = Some m \<and> nextSib m = nxt (G k) y \<and> (k = Props x \<longrightarrow> ntype m = XML_ATTRIBUTE_NODE)"
    using assms(2) unfolding chain_at_def by blast
  obtain m where m: "h' x = Some m" "keeps n m" using moves_node [OF assms(1) n(1)] by blast
  have "\<exists>m. h' y = Some m \<and> nextSib m = nxt (G k) y \<and> (k = Props x \<longrightarrow> ntype m = XML_ATTRIBUTE_NODE)"
    if k: "owner k = Ptr x" "y \<in> set (G k)" for k y
  proof -
    obtain l where l: "h y = Some l" "nextSib l = nxt (G k) y" "k = Props x \<longrightarrow> ntype l = XML_ATTRIBUTE_NODE" using n(4) [OF k] by blast
    then show ?thesis using moves_node [OF assms(1) l(1)] by (auto simp: keeps_def)
  qed
  then show ?thesis using m n(2,3) unfolding chain_at_def by (auto simp: keeps_def split: if_splits)
qed

lemma elsewhere_moves: "moves doc D h h' \<Longrightarrow> x \<notin> D \<Longrightarrow> elsewhere doc h x \<Longrightarrow> elsewhere doc h' x"
  unfolding elsewhere_def moves_def by (metis not_None_eq)

definition ready :: "forest \<Rightarrow> addr ptr \<Rightarrow> addr set \<Rightarrow> nheap \<Rightarrow> bool" where
  "ready G doc D h \<longleftrightarrow> safe h \<and> present doc h \<and> (\<forall>x \<in> D. chain_at G h x \<and> elsewhere doc h x)"

lemma ready_moved: "ready G doc D h \<Longrightarrow> moved_ok doc D' h h' \<Longrightarrow> E \<subseteq> D \<Longrightarrow> E \<inter> D' = {} \<Longrightarrow> ready G doc E h'"
  unfolding ready_def moved_ok_def using chain_moves elsewhere_moves present_moves by blast

lemma ready_subset: "ready G doc D h \<Longrightarrow> E \<subseteq> D \<Longrightarrow> ready G doc E h"
  unfolding ready_def by blast

definition tree_moves :: "forest \<Rightarrow> env \<Rightarrow> addr ptr \<Rightarrow> addr \<Rightarrow> bool" where
  "tree_moves G e doc a \<longleftrightarrow> (\<forall>lost h. ready G doc (subtree G a) h \<longrightarrow>
     (\<exists>lost' h'. set_doc e doc (Tree a) (lost, h) = Some (lost', h') \<and> moved_ok doc (subtree G a) h h' \<and>
        (lost' \<longrightarrow> lost \<or> losing e doc (subtree G a) h)))"

lemma no_nsdecl: "safe h \<Longrightarrow> present p h \<Longrightarrow> is_nsdecl p h = Some False"
  by (auto simp: is_nsdecl_def present_def safe_def safe_node_def split: ptr.split)

lemma headp_present: "(\<And>y. y \<in> set xs \<Longrightarrow> h y \<noteq> None) \<Longrightarrow> present (headp xs) h"
  by (cases xs) (auto simp: present_def)

lemma trees_move:
  assumes "disjoint_groups G" "wf (below G)" "owner k = Ptr a" "\<And>c. c \<in> set (G k) \<Longrightarrow> tree_moves G e doc c"
  shows "G k = pre @ cs \<Longrightarrow> ready G doc (\<Union>c \<in> set cs. subtree G c) h \<Longrightarrow> chain_at G h a \<Longrightarrow>
    \<exists>lost' h'. set_doc e doc (Trees (headp cs)) (lost, h) = Some (lost', h') \<and> moved_ok doc (\<Union>c \<in> set cs. subtree G c) h h' \<and>
      (lost' \<longrightarrow> lost \<or> losing e doc (\<Union>c \<in> set cs. subtree G c) h)"
proof (induction cs arbitrary: pre h lost)
  case Nil
  then show ?case by (subst set_doc.simps) (simp add: ready_def moved_refl)
next
  case (Cons c cs)
  have ck: "c \<in> set (G k)" using Cons.prems(1) by simp
  have b: "(x, a) \<in> below G" if "x \<in> set (G k)" for x using that assms(3) unfolding below_group by blast
  have dist: "distinct (G k)" using assms(1) by (simp add: disjoint_groups_def)
  obtain n where n: "h c = Some n" "ndoc n \<noteq> doc"
    using Cons.prems(2) unfolding ready_def chain_at_def elsewhere_def by force
  have "ready G doc (subtree G c) h" by (rule ready_subset [OF Cons.prems(2)]) auto
  then obtain l1 h1 where h1: "set_doc e doc (Tree c) (lost, h) = Some (l1, h1)" "moved_ok doc (subtree G c) h h1"
      "l1 \<longrightarrow> lost \<or> losing e doc (subtree G c) h"
    using assms(4) [OF ck] unfolding tree_moves_def by blast
  have ap: "(\<Union>d \<in> set cs. subtree G d) \<inter> subtree G c = {}"
    using siblings_apart [OF assms(1,2) b [OF ck] b] dist Cons.prems(1) by fastforce
  have r1: "ready G doc (\<Union>d \<in> set cs. subtree G d) h1" by (rule ready_moved [OF Cons.prems(2) h1(2) _ ap]) auto
  have c1: "chain_at G h1 a" using h1(2) Cons.prems(3) chain_moves by (auto simp: moved_ok_def)
  then obtain n1 where n1: "h1 c = Some n1" "nextSib n1 = nxt (G k) c" using assms(3) ck unfolding chain_at_def by blast
  have nx: "nextSib n1 = headp cs" using n1(2) dist unfolding Cons.prems(1) by (simp add: nxt_split)
  obtain l2 h2 where h2: "set_doc e doc (Trees (headp cs)) (l1, h1) = Some (l2, h2)" "moved_ok doc (\<Union>d \<in> set cs. subtree G d) h1 h2"
      "l2 \<longrightarrow> l1 \<or> losing e doc (\<Union>d \<in> set cs. subtree G d) h1"
    using Cons.IH [of "pre @ [c]" h1 l1] Cons.prems(1) r1 c1 by auto
  have "set_doc e doc (Trees (headp (c # cs))) (lost, h) = Some (l2, h2)"
    by (subst set_doc.simps) (simp add: n h1(1) n1(1) nx h2(1))
  moreover have "l2 \<longrightarrow> lost \<or> losing e doc (\<Union>d \<in> set (c # cs). subtree G d) h"
  proof -
    have "losing e doc (\<Union>d \<in> set cs. subtree G d) h1 \<Longrightarrow> losing e doc (\<Union>d \<in> set cs. subtree G d) h"
      using losing_moves [OF _ _ ap] h1(2) unfolding moved_ok_def by blast
    then show ?thesis using h1(3) h2(3) losing_mono [of e doc _ h "\<Union>d \<in> set (c # cs). subtree G d"]
      by (metis UN_upper UN_mono list.set_intros(1) set_subset_Cons subset_refl)
  qed
  ultimately show ?case using moved_trans [OF h1(2) h2(2)] by simp
qed

text \<open>An attribute and its children.\<close>

lemma attrs_move:
  assumes "disjoint_groups G" "wf (below G)" "k = Props a"
    "\<And>c d. c \<in> set (G k) \<Longrightarrow> d \<in> set (G (Kids c)) \<Longrightarrow> tree_moves G e doc d"
    "\<And>c. c \<in> set (G k) \<Longrightarrow> G (Props c) = []"
  shows "G k = pre @ cs \<Longrightarrow> ready G doc (\<Union>c \<in> set cs. subtree G c) h \<Longrightarrow> chain_at G h a \<Longrightarrow>
    \<exists>lost' h'. set_doc e doc (Attrs (headp cs)) (lost, h) = Some (lost', h') \<and> moved_ok doc (\<Union>c \<in> set cs. subtree G c) h h' \<and>
      (lost' \<longrightarrow> lost \<or> losing e doc (\<Union>c \<in> set cs. subtree G c) h)"
proof (induction cs arbitrary: pre h lost)
  case Nil
  then show ?case by (subst set_doc.simps) (simp add: ready_def moved_refl)
next
  case (Cons c cs)
  have ck: "c \<in> set (G k)" using Cons.prems(1) by simp
  have b: "(x, a) \<in> below G" if "x \<in> set (G k)" for x using that assms(3) unfolding below_def by simp
  have dist: "distinct (G k)" using assms(1) by (simp add: disjoint_groups_def)
  obtain n where n: "h c = Some n" "ntype n = XML_ATTRIBUTE_NODE"
    using chain_next [OF Cons.prems(3) _ ck] assms(3) by auto
  have rc: "ready G doc (subtree G c) h" by (rule ready_subset [OF Cons.prems(2)]) auto
  then have cc: "chain_at G h c" by (simp add: ready_def)
  have ch: "children n = headp (G (Kids c))" using cc n by (simp add: chain_at_def)
  have sc: "subtree G c = insert c (\<Union>d \<in> set (G (Kids c)). subtree G d)"
    using subtree_unfold [of G c] assms(5) [OF ck] by simp
  let ?D = "\<Union>d \<in> set (G (Kids c)). subtree G d"
  have "ready G doc ?D h" by (rule ready_subset [OF rc]) (use sc in auto)
  then obtain l1 h1 where h1: "set_doc e doc (Trees (headp (G (Kids c)))) (lost, h) = Some (l1, h1)" "moved_ok doc ?D h h1"
      "l1 \<longrightarrow> lost \<or> losing e doc ?D h"
    using trees_move [OF assms(1,2), of "Kids c" c e doc "[]" "G (Kids c)" h lost] assms(4) [OF ck] cc by auto
  have skip: "is_nsdecl (children n) h = Some False"
  proof (rule no_nsdecl)
    show "safe h" using rc by (simp add: ready_def)
    have "owner (Kids c) = Ptr c" by simp
    then have "y \<in> set (G (Kids c)) \<Longrightarrow> h y \<noteq> None" for y using cc unfolding chain_at_def by (metis option.distinct(1))
    then show "present (children n) h" unfolding ch by (rule headp_present)
  qed
  obtain n1 where n1: "h1 c = Some n1" using h1(2) n(1) moves_node unfolding moved_ok_def by blast
  have s1: "safe h1" "present doc h1" using h1(2) rc present_moves unfolding moved_ok_def ready_def by blast+
  obtain l2 h2 where h2: "xmlNodeSetDoc e c doc h1 = Some (l2, h2)" "moved_ok doc {c} h1 h2"
      "l2 \<longrightarrow> losing e doc {c} h1"
    using xmlNodeSetDoc_ok [OF s1(1) n1 s1(2)] by blast
  have m2: "moved_ok doc (subtree G c) h h2" using moved_trans [OF h1(2) h2(2)] unfolding sc by simp
  have ap: "(\<Union>d \<in> set cs. subtree G d) \<inter> subtree G c = {}"
    using siblings_apart [OF assms(1,2) b [OF ck] b] dist Cons.prems(1) by fastforce
  have r2: "ready G doc (\<Union>d \<in> set cs. subtree G d) h2" by (rule ready_moved [OF Cons.prems(2) m2 _ ap]) auto
  have c2: "chain_at G h2 a" using m2 Cons.prems(3) chain_moves by (auto simp: moved_ok_def)
  then obtain n2 where n2: "h2 c = Some n2" "nextSib n2 = nxt (G k) c" using assms(3) ck unfolding chain_at_def by force
  have nx: "nextSib n2 = headp cs" using n2(2) dist unfolding Cons.prems(1) by (simp add: nxt_split)
  obtain l3 h3 where h3: "set_doc e doc (Attrs (headp cs)) (l1 \<or> l2, h2) = Some (l3, h3)" "moved_ok doc (\<Union>d \<in> set cs. subtree G d) h2 h3"
      "l3 \<longrightarrow> l1 \<or> l2 \<or> losing e doc (\<Union>d \<in> set cs. subtree G d) h2"
    using Cons.IH [of "pre @ [c]" h2 "l1 \<or> l2"] Cons.prems(1) r2 c2 by auto
  have "set_doc e doc (Attrs (headp (c # cs))) (lost, h) = Some (l3, h3)"
    by (subst set_doc.simps) (simp add: n(1) skip ch h1(1) h2(1) n2(1) nx h3(1) skip [unfolded ch])
  moreover have "l3 \<longrightarrow> lost \<or> losing e doc (\<Union>d \<in> set (c # cs). subtree G d) h"
  proof -
    let ?U = "\<Union>d \<in> set (c # cs). subtree G d"
    have cD: "{c} \<inter> ?D = {}" using not_below_self [OF assms(2), of _ c] by (auto simp: below_def)
    have 1: "losing e doc ?U h" if "losing e doc ?D h" by (rule losing_mono [OF that]) (use sc in auto)
    have 2: "losing e doc ?U h" if "losing e doc {c} h1"
      by (rule losing_mono [OF losing_moves [OF _ that cD]]) (use h1(2) sc in \<open>auto simp: moved_ok_def\<close>)
    have 3: "losing e doc ?U h" if "losing e doc (\<Union>d \<in> set cs. subtree G d) h2"
      by (rule losing_mono [OF losing_moves [OF _ that ap]]) (use m2 in \<open>auto simp: moved_ok_def\<close>)
    show ?thesis using 1 2 3 h1(3) h2(3) h3(3) by blast
  qed
  ultimately show ?case using moved_trans [OF m2 h3(2)] by simp
qed

lemma tree_moves_all:
  assumes "disjoint_groups G" "wf (below G)"
  shows "tree_moves G e doc a"
  using wf_trancl [OF assms(2)]
proof (induction a rule: wf_induct_rule)
  case (less a)
  show ?case
    unfolding tree_moves_def
  proof (intro allI impI)
    fix lost h assume r: "ready G doc (subtree G a) h"
    let ?P = "\<Union>c \<in> set (G (Props a)). subtree G c" and ?K = "\<Union>c \<in> set (G (Kids a)). subtree G c"
    have sa: "subtree G a = insert a (?K \<union> ?P)" using subtree_unfold [of G a] by auto
    have ca: "chain_at G h a" using r by (simp add: ready_def)
    then obtain n where n: "h a = Some n" "if ntype n = XML_ENTITY_REF_NODE then G (Kids a) = [] else children n = headp (G (Kids a))"
      "if ntype n = XML_ELEMENT_NODE then properties n = headp (G (Props a)) else G (Props a) = []"
      unfolding chain_at_def by blast
    have nd: "ndoc n \<noteq> doc" using r n(1) subtree_self unfolding ready_def elsewhere_def by blast
    have b: "x \<in> set (G (Kids a)) \<or> x \<in> set (G (Props a)) \<Longrightarrow> (x, a) \<in> below G" for x by (auto simp: below_def)
    have IH: "tree_moves G e doc c" if "(c, a) \<in> (below G)\<^sup>+" for c using less that by blast
    have own: "c \<noteq> a" "a \<notin> subtree G c" if "(c, a) \<in> below G" for c
      using not_below_self [OF assms(2) that] by auto
    have noprops: "G (Props c) = []" if pc: "c \<in> set (G (Props a))" for c
    proof -
      have "c \<in> subtree G a" using subtree_parent [OF subtree_self] b that by blast
      then have "chain_at G h c" using r by (simp add: ready_def)
      moreover obtain m where "h c = Some m" "ntype m = XML_ATTRIBUTE_NODE" using chain_next [OF ca _ pc] by auto
      ultimately show ?thesis by (auto simp: chain_at_def)
    qed
    have "\<exists>l1 h1. (if ntype n = XML_ELEMENT_NODE then set_doc e doc (Attrs (properties n)) (lost, h) else Some (lost, h)) = Some (l1, h1) \<and>
        moved_ok doc ?P h h1 \<and> (l1 \<longrightarrow> lost \<or> losing e doc ?P h)"
    proof (cases "ntype n = XML_ELEMENT_NODE")
      case True
      have "ready G doc ?P h" by (rule ready_subset [OF r]) (use sa in auto)
      moreover have "tree_moves G e doc d" if "c \<in> set (G (Props a))" "d \<in> set (G (Kids c))" for c d
      proof (rule IH)
        have "(d, c) \<in> below G" using that by (simp add: below_def)
        then show "(d, a) \<in> (below G)\<^sup>+" using b that by (meson trancl.simps)
      qed
      ultimately show ?thesis
        using attrs_move [OF assms, of "Props a" a e doc "[]" "G (Props a)" h lost] noprops ca n(3) True by auto
    next
      case False
      then show ?thesis using n(3) r by (simp add: ready_def moved_refl)
    qed
    then obtain l1 h1 where h1: "(if ntype n = XML_ELEMENT_NODE then set_doc e doc (Attrs (properties n)) (lost, h) else Some (lost, h)) = Some (l1, h1)"
        "moved_ok doc ?P h h1" "l1 \<longrightarrow> lost \<or> losing e doc ?P h" by blast
    have apart: "?K \<inter> ?P = {}"
    proof -
      have "c \<noteq> d" if "c \<in> set (G (Kids a))" "d \<in> set (G (Props a))" for c d
        using assms(1) that unfolding disjoint_groups_def by (metis group.distinct(1))
      then show ?thesis using siblings_apart [OF assms b b] by fastforce
    qed
    have r1: "ready G doc ?K h1" by (rule ready_moved [OF r h1(2) _ apart]) (use sa in auto)
    have c1: "chain_at G h1 a" using h1(2) ca chain_moves by (auto simp: moved_ok_def)
    obtain n1 where n1: "h1 a = Some n1" "keeps n n1" using h1(2) n(1) moves_node unfolding moved_ok_def by blast
    have ch: "if ntype n1 = XML_ENTITY_REF_NODE then G (Kids a) = [] else children n1 = headp (G (Kids a))"
      using c1 n1(1) by (simp add: chain_at_def)
    have s1: "safe h1" using h1(2) by (simp add: moved_ok_def)
    have "\<exists>l2 h2. (if ntype n1 \<noteq> XML_ENTITY_REF_NODE then set_doc e doc (Trees (children n1)) (l1, h1) else Some (l1, h1)) = Some (l2, h2) \<and>
        moved_ok doc ?K h1 h2 \<and> (l2 \<longrightarrow> l1 \<or> losing e doc ?K h1)"
    proof (cases "ntype n1 = XML_ENTITY_REF_NODE")
      case True
      then show ?thesis using ch s1 by (simp add: moved_refl)
    next
      case False
      have "tree_moves G e doc c" if "c \<in> set (G (Kids a))" for c using IH b that by blast
      then show ?thesis using trees_move [OF assms, of "Kids a" a e doc "[]" "G (Kids a)" h1 l1] r1 c1 ch False by auto
    qed
    then obtain l2 h2 where h2: "(if ntype n1 \<noteq> XML_ENTITY_REF_NODE then set_doc e doc (Trees (children n1)) (l1, h1) else Some (l1, h1)) = Some (l2, h2)"
        "moved_ok doc ?K h1 h2" "l2 \<longrightarrow> l1 \<or> losing e doc ?K h1" by blast
    have skip: "is_nsdecl (children n1) h1 = Some False" if "ntype n1 \<noteq> XML_ENTITY_REF_NODE"
    proof (rule no_nsdecl [OF s1])
      have "owner (Kids a) = Ptr a" by simp
      then have "y \<in> set (G (Kids a)) \<Longrightarrow> h1 y \<noteq> None" for y using c1 unfolding chain_at_def by (metis option.distinct(1))
      then show "present (children n1) h1" using ch that headp_present by simp
    qed
    have m2: "moved_ok doc (?P \<union> ?K) h h2" by (rule moved_trans [OF h1(2) h2(2)])
    obtain n2 where n2: "h2 a = Some n2" using m2 n(1) moves_node unfolding moved_ok_def by blast
    have s2: "safe h2" "present doc h2" using m2 r present_moves unfolding moved_ok_def ready_def by blast+
    obtain l3 h3 where h3: "xmlNodeSetDoc e a doc h2 = Some (l3, h3)" "moved_ok doc {a} h2 h3" "l3 \<longrightarrow> losing e doc {a} h2"
      using xmlNodeSetDoc_ok [OF s2(1) n2 s2(2)] by blast
    have "ntype n \<noteq> XML_NAMESPACE_DECL" using r n(1) by (auto simp: ready_def safe_def safe_node_def)
    then have "set_doc e doc (Tree a) (lost, h) = Some (l2 \<or> l3, h3)"
      using n(1) nd h1(1) n1(1) h2(1) h3(1) skip by (subst set_doc.simps) (auto split: if_splits)
    moreover have "moved_ok doc (subtree G a) h h3" using moved_trans [OF m2 h3(2)] unfolding sa by (simp add: Un_commute)
    moreover have "l2 \<or> l3 \<longrightarrow> lost \<or> losing e doc (subtree G a) h"
    proof -
      have aP: "{a} \<inter> (?P \<union> ?K) = {}" using own(2) b by blast
      have 1: "losing e doc (subtree G a) h" if "losing e doc ?P h" by (rule losing_mono [OF that]) (use sa in auto)
      have 2: "losing e doc (subtree G a) h" if "losing e doc ?K h1"
        by (rule losing_mono [OF losing_moves [OF _ that apart]]) (use h1(2) sa in \<open>auto simp: moved_ok_def\<close>)
      have 3: "losing e doc (subtree G a) h" if "losing e doc {a} h2"
        by (rule losing_mono [OF losing_moves [OF _ that aP]]) (use m2 sa in \<open>auto simp: moved_ok_def\<close>)
      show ?thesis using 1 2 3 h1(3) h2(3) h3(3) by blast
    qed
    ultimately show "\<exists>lost' h'. set_doc e doc (Tree a) (lost, h) = Some (lost', h') \<and> moved_ok doc (subtree G a) h h' \<and>
        (lost' \<longrightarrow> lost \<or> losing e doc (subtree G a) h)" by blast
  qed
qed

end
