(* ===== verification/TreeForms.thy ===== *)
theory TreeForms
  imports TreeMoves
begin

text \<open>
  Well-formed documents: right links, no cycle, no dangling pointer and well-typed groups; \<open>link_node\<close>, the common part of all
  insertions, keeps them.
\<close>

section \<open>Well-formed documents\<close>

text \<open>
  The types of the nodes: attributes are in groups of attributes, which belong to elements; a node has the document of its
  parent; a document is its own document.
\<close>

definition kind_ok :: "group \<Rightarrow> xmlElementType \<Rightarrow> bool" where
  "kind_ok k t \<longleftrightarrow>
     (case k of Kids a \<Rightarrow> t \<noteq> XML_ATTRIBUTE_NODE \<and> \<not> is_document t | Props a \<Rightarrow> t = XML_ATTRIBUTE_NODE | Loose _ \<Rightarrow> True)"

definition heir_ok :: "group \<Rightarrow> xmlNode \<Rightarrow> xmlNode \<Rightarrow> bool" where
  "heir_ok k n m \<longleftrightarrow> ndoc n = ndoc m \<and> (\<forall>a. k = Props a \<longrightarrow> ntype m = XML_ELEMENT_NODE)"

definition typed :: "forest \<Rightarrow> nheap \<Rightarrow> bool" where
  "typed G h \<longleftrightarrow>
     (\<forall>k x n. x \<in> set (G k) \<longrightarrow> h x = Some n \<longrightarrow>
        kind_ok k (ntype n) \<and> (\<forall>a m. owner k = Ptr a \<longrightarrow> h a = Some m \<longrightarrow> heir_ok k n m)) \<and>
     (\<forall>x n. h x = Some n \<longrightarrow> is_document (ntype n) \<longrightarrow> ndoc n = Ptr x)"

lemma typedD:
  assumes "typed G h" "x \<in> set (G k)" "h x = Some n"
  shows "kind_ok k (ntype n)" "\<And>a m. owner k = Ptr a \<Longrightarrow> h a = Some m \<Longrightarrow> heir_ok k n m"
  using assms unfolding typed_def by blast+

lemma typed_same:
  assumes "\<And>x n'. h' x = Some n' \<Longrightarrow> \<exists>n. h x = Some n \<and> ntype n' = ntype n \<and> ndoc n' = ndoc n" "typed G h"
  shows "typed G h'"
  unfolding typed_def
proof (intro conjI allI impI)
  fix k x n assume x: "x \<in> set (G k)" and n: "h' x = Some n"
  obtain l where l: "h x = Some l" "ntype n = ntype l" "ndoc n = ndoc l" using assms(1) [OF n] by blast
  show "kind_ok k (ntype n)" using typedD(1) [OF assms(2) x l(1)] l(2) by simp
  fix a m assume a: "owner k = Ptr a" and m: "h' a = Some m"
  obtain q where q: "h a = Some q" "ntype m = ntype q" "ndoc m = ndoc q" using assms(1) [OF m] by blast
  show "heir_ok k n m" using typedD(2) [OF assms(2) x l(1) a q(1)] l q by (simp add: heir_ok_def)
next
  fix x n assume n: "h' x = Some n" and d: "is_document (ntype n)"
  show "ndoc n = Ptr x" using assms(1) [OF n] assms(2) d unfolding typed_def by auto
qed

definition well_formed :: "forest \<Rightarrow> nheap \<Rightarrow> bool" where
  "well_formed G h \<longleftrightarrow> linked G h \<and> wf (below G) \<and> safe h \<and> typed G h"

lemma tidy_Some: "tidy G h x = Some m \<longleftrightarrow> (\<exists>n. h x = Some n \<and> m = relink G x n)"
  by (auto simp: tidy_def)

lemma relink_sel [simp]: "ndoc (relink G x n) = ndoc n" "name (relink G x n) = name n" "content (relink G x n) = content n"
  "attr_id (relink G x n) = attr_id n" "ids (relink G x n) = ids n" "ns (relink G x n) = ns n"
  by (simp_all add: relink_def)

lemma safe_tidy [simp]: "safe (tidy G h) \<longleftrightarrow> safe h"
proof -
  have c: "safe_node (tidy G h) n = safe_node h n" for n by (rule safe_node_cong) (simp add: tidy_def)
  have r: "safe_node h (relink G x n) = safe_node h n" for x n by (simp add: safe_node_def relink_def)
  have "(\<forall>a n. tidy G h a = Some n \<longrightarrow> safe_node h n) \<longleftrightarrow> (\<forall>a n. h a = Some n \<longrightarrow> safe_node h n)"
    unfolding tidy_Some using r by metis
  moreover have "tidy G h a = None \<longleftrightarrow> h a = None" for a by (simp add: tidy_def)
  ultimately show ?thesis unfolding safe_def c by simp
qed

lemma typed_tidy [simp]: "typed G (tidy G' h) \<longleftrightarrow> typed G h"
proof
  show "typed G (tidy G' h) \<Longrightarrow> typed G h"
    by (rule typed_same [of h "tidy G' h"]) (auto simp: tidy_Some)
  show "typed G h \<Longrightarrow> typed G (tidy G' h)"
    by (rule typed_same [of "tidy G' h" h]) (auto simp: tidy_Some)
qed

lemma well_formed_tidy: "groups_ok G h \<Longrightarrow> wf (below G) \<Longrightarrow> safe h \<Longrightarrow> typed G h \<Longrightarrow> well_formed G (tidy G h)"
  by (simp add: well_formed_def)

lemma well_formedD:
  assumes "well_formed G h"
  shows "linked G h" "groups_ok G h" "disjoint_groups G" "wf (below G)" "safe h" "typed G h"
  using assms by (simp_all add: well_formed_def linked_def groups_ok_def)

lemma typed_sound: "wf (below G) \<Longrightarrow> typed G h \<Longrightarrow> sound_group G h k"
  unfolding sound_group_def
proof (intro conjI ballI allI impI)
  fix x assume "wf (below G)" "x \<in> set (G k)"
  then show "owner k \<noteq> Ptr x" using not_below_self [of G x x] below_group [of x x G] by auto
next
  fix x n assume "typed G h" "x \<in> set (G k)" "h x = Some n"
  then show "case k of Kids _ \<Rightarrow> ntype n \<noteq> XML_ATTRIBUTE_NODE | Props _ \<Rightarrow> ntype n = XML_ATTRIBUTE_NODE | Loose _ \<Rightarrow> True"
    using typedD(1) by (cases k) (fastforce simp: kind_ok_def)+
qed

text \<open>Every node has a group, and only finitely many links are needed to know it.\<close>

lemma in_group: "well_formed G h \<Longrightarrow> h x = Some n \<Longrightarrow> \<exists>k. x \<in> set (G k)"
  unfolding well_formed_def linked_def groups_ok_def by blast

lemma group_node: "well_formed G h \<Longrightarrow> x \<in> set (G k) \<Longrightarrow> \<exists>n. h x = Some n"
  unfolding well_formed_def linked_def groups_ok_def by blast

section \<open>The document of a subtree\<close>

lemma subtree_present:
  assumes "well_formed G h" "h a = Some n" "x \<in> subtree G a"
  shows "\<exists>m. h x = Some m \<and> ndoc m = ndoc n"
proof -
  have "(x, a) \<in> (below G)\<^sup>*" using assms(3) by (simp add: subtree_def)
  then show ?thesis
  proof (induction rule: converse_rtrancl_induct)
    case (step y z)
    then obtain k where k: "y \<in> set (G k)" "owner k = Ptr z" unfolding below_group by blast
    obtain m where m: "h y = Some m" using group_node [OF assms(1) k(1)] by blast
    obtain l where l: "h z = Some l" "ndoc l = ndoc n" using step by blast
    have "ndoc m = ndoc l" using typedD(2) [OF well_formedD(6) [OF assms(1)] k(1) m k(2) l(1)] by (simp add: heir_ok_def)
    then show ?case using m l(2) by simp
  qed (use assms(2) in simp)
qed

lemma well_formed_chain:
  assumes "well_formed G h" "h x = Some n"
  shows "chain_at G h x"
proof -
  note w = well_formedD [OF assms(1)]
  obtain k where k: "x \<in> set (G k)" using in_group [OF assms] by blast
  obtain n' where "h x = Some n'" and n': "ntype n' \<noteq> XML_ENTITY_REF_NODE \<Longrightarrow> children n' = headp (G (Kids x)) \<and> lastChild n' = lastp (G (Kids x))"
    "has_props (ntype n') \<Longrightarrow> properties n' = headp (G (Props x))" using linked_node [OF w(1) k] by metis
  then have e: "n' = n" using assms(2) by simp
  have "if ntype n = XML_ENTITY_REF_NODE then G (Kids x) = [] else children n = headp (G (Kids x))"
    using n'(1) w(2) assms(2) unfolding e groups_ok_def by fastforce
  moreover have "if ntype n = XML_ELEMENT_NODE then properties n = headp (G (Props x)) else G (Props x) = []"
  proof (cases "ntype n = XML_ELEMENT_NODE")
    case True
    then show ?thesis using n'(2) unfolding e by (simp add: has_props_def)
  next
    case False
    have "y \<notin> set (G (Props x))" for y
    proof
      assume y: "y \<in> set (G (Props x))"
      obtain m where m: "h y = Some m" using group_node [OF assms(1) y] by blast
      show False using typedD(2) [OF w(6) y m _ assms(2)] False by (simp add: heir_ok_def)
    qed
    then show ?thesis using False by (metis empty_iff list.set(1) last_in_set)
  qed
  moreover have "\<exists>m. h y = Some m \<and> nextSib m = nxt (G k) y \<and> (k = Props x \<longrightarrow> ntype m = XML_ATTRIBUTE_NODE)"
    if y: "owner k = Ptr x" "y \<in> set (G k)" for k y
  proof -
    obtain m where m: "h y = Some m" "nextSib m = nxt (G k) y" using linked_node [OF w(1) y(2)] by metis
    moreover have "k = Props x \<Longrightarrow> ntype m = XML_ATTRIBUTE_NODE" using typedD(1) [OF w(6) y(2) m(1)] by (simp add: kind_ok_def)
    ultimately show ?thesis by blast
  qed
  ultimately show ?thesis using assms(2) unfolding chain_at_def by blast
qed

lemma well_formed_ready:
  assumes "well_formed G h" "h a = Some n" "ndoc n \<noteq> doc" "present doc h"
  shows "ready G doc (subtree G a) h"
  unfolding ready_def
proof (intro conjI ballI)
  fix x assume x: "x \<in> subtree G a"
  then obtain m where m: "h x = Some m" "ndoc m = ndoc n" using subtree_present [OF assms(1,2)] by blast
  show "chain_at G h x" using well_formed_chain [OF assms(1) m(1)] .
  show "elsewhere doc h x" using m assms(3) by (simp add: elsewhere_def)
qed (use assms well_formedD in auto)

lemma moves_back: "moves doc D h h' \<Longrightarrow> h' x = Some m \<Longrightarrow> \<exists>n. h x = Some n \<and> keeps n m \<and> (if x \<in> D then ndoc m = doc else ndoc m = ndoc n \<and> name m = name n \<and> content m = content n)"
  unfolding moves_def by (metis not_None_eq)

lemma groups_moves:
  assumes "moves doc D h h'" "groups_ok G h"
  shows "groups_ok G h'"
proof -
  have t: "\<exists>m. h' a = Some m \<and> P (ntype m)" if "\<exists>n. h a = Some n \<and> P (ntype n)" for a P
    using that moves_node [OF assms(1)] unfolding keeps_def by metis
  have "h x \<noteq> None \<longleftrightarrow> h' x \<noteq> None" for x using assms(1) by (simp add: moves_def)
  then show ?thesis using assms(2) t [of _ "\<lambda>t. t \<noteq> XML_ENTITY_REF_NODE"] t [of _ has_props] unfolding groups_ok_def by auto
qed

lemma linked_moves:
  assumes "moves doc D h h'" "linked G h"
  shows "linked G h'"
proof -
  have g: "groups_ok G h'" using groups_moves [OF assms(1)] assms(2) by (simp add: linked_def)
  have "tidy G h' x = h' x" for x
  proof (cases "h' x")
    case (Some m)
    then obtain n where n: "h x = Some n" "keeps n m" using moves_back [OF assms(1)] by blast
    have "tidy G h x = h x" using assms(2) by (simp add: linked_def)
    then have r: "relink G x n = n" using n(1) by (simp add: tidy_def)
    have f: "f n = f (relink G x n)" for f :: "xmlNode \<Rightarrow> 'b" using r by simp
    have "relink G x m = m"
      using n(2) f [of parent] f [of prevSib] f [of nextSib] f [of children] f [of lastChild] f [of properties]
      by (intro xmlNode.equality) (auto simp: relink_def keeps_def split: if_splits)
    then show ?thesis using Some by (simp add: tidy_def)
  qed (simp add: tidy_def)
  then show ?thesis using g by (simp add: linked_def fun_eq_iff)
qed

lemma well_formed_moves:
  assumes "well_formed G h" "moved_ok doc (subtree G cur) h h'" "G (Loose r) = [cur]" "\<And>n. h cur = Some n \<Longrightarrow> \<not> is_document (ntype n)"
  shows "well_formed G h'"
proof -
  note w = well_formedD [OF assms(1)]
  have mv: "moves doc (subtree G cur) h h'" and s: "safe h'" using assms(2) by (simp_all add: moved_ok_def)
  have cur: "cur \<notin> set (G k)" if "owner k = Ptr a" for k a
  proof
    assume "cur \<in> set (G k)"
    moreover have "cur \<in> set (G (Loose r))" using assms(3) by simp
    ultimately have "k = Loose r" using w(3) unfolding disjoint_groups_def by blast
    then show False using that by simp
  qed
  have kind: "kind_ok k (ntype m)" if "x \<in> set (G k)" "h' x = Some m" for k x m
    using moves_back [OF mv that(2)] typedD(1) [OF w(6) that(1)] unfolding keeps_def by metis
  have "typed G h'"
    unfolding typed_def
  proof (intro conjI allI impI)
    fix k x m assume x: "x \<in> set (G k)" and m: "h' x = Some m"
    show "kind_ok k (ntype m)" using kind [OF x m] .
    fix a l assume a: "owner k = Ptr a" and l: "h' a = Some l"
    have b: "(x, a) \<in> below G" using x a unfolding below_group by blast
    have iff: "x \<in> subtree G cur \<longleftrightarrow> a \<in> subtree G cur"
    proof
      assume "x \<in> subtree G cur"
      moreover have "x \<noteq> cur" using cur [OF a] x by auto
      ultimately obtain b' where "(x, b') \<in> below G" "b' \<in> subtree G cur" unfolding subtree_def by (auto elim: converse_rtranclE)
      then show "a \<in> subtree G cur" using below_single [OF w(3)] b unfolding single_valued_def by blast
    qed (rule subtree_parent [OF _ b])
    obtain n where n: "h x = Some n" "if x \<in> subtree G cur then ndoc m = doc else ndoc m = ndoc n" using moves_back [OF mv m] by metis
    obtain q where q: "h a = Some q" "keeps q l" "if a \<in> subtree G cur then ndoc l = doc else ndoc l = ndoc q" using moves_back [OF mv l] by metis
    have "heir_ok k n q" using typedD(2) [OF w(6) x n(1) a q(1)] .
    then show "heir_ok k m l" using n(2) q(2,3) iff by (auto simp: heir_ok_def keeps_def split: if_splits)
  next
    fix x m assume m: "h' x = Some m" and d: "is_document (ntype m)"
    obtain n where n: "h x = Some n" "keeps n m" "if x \<in> subtree G cur then ndoc m = doc else ndoc m = ndoc n" using moves_back [OF mv m] by metis
    have dn: "is_document (ntype n)" using n(2) d by (simp add: keeps_def)
    have "x \<notin> subtree G cur"
    proof
      assume "x \<in> subtree G cur"
      moreover have "x \<noteq> cur" using assms(4) n(1) dn by auto
      ultimately obtain b where "(x, b) \<in> below G" unfolding subtree_def by (auto elim: converse_rtranclE)
      then obtain k where k: "x \<in> set (G k)" "owner k = Ptr b" unfolding below_group by blast
      then show False using typedD(1) [OF w(6) k(1) n(1)] dn by (cases k) (auto simp: kind_ok_def is_document_def)
    qed
    then show "ndoc m = Ptr x" using n(1,3) dn w(6) unfolding typed_def by auto
  qed
  then show ?thesis using linked_moves [OF mv w(1)] w(4) s by (simp add: well_formed_def)
qed

section \<open>A node between two places\<close>

text \<open>\<open>cur\<close> has left its group; its own links are not up to date.\<close>

definition almost :: "forest \<Rightarrow> addr \<Rightarrow> nat \<Rightarrow> nheap \<Rightarrow> bool" where
  "almost G cur r h \<longleftrightarrow> well_formed G (adj (Ptr cur) clear_links h) \<and> G (Loose r) = [cur]"

lemma tidy_clear [simp]: "tidy G (adj p clear_links h) = tidy G h"
proof
  fix x
  have "relink G x (clear_links n) = relink G x n" for n by (rule xmlNode.equality) (simp_all add: relink_def)
  then show "tidy G (adj p clear_links h) x = tidy G h x" by (simp add: tidy_def adj_def option.map_comp comp_def)
qed

lemma groups_clear [simp]: "groups_ok G (adj p clear_links h) = groups_ok G h"
  using groups_tidy [of G G h] groups_tidy [of G G "adj p clear_links h"] by simp

lemma safe_clear [simp]: "safe (adj p clear_links h) = safe h"
  using safe_tidy [of undefined h] safe_tidy [of undefined "adj p clear_links h"] by simp

lemma typed_clear [simp]: "typed G (adj p clear_links h) = typed G h"
  using typed_tidy [of G undefined h] typed_tidy [of G undefined "adj p clear_links h"] by simp

lemma almostD:
  assumes "almost G cur r h"
  shows "loose_in G cur r h" "wf (below G)" "safe h" "typed G h" "disjoint_groups G" "groups_ok G h" "G (Loose r) = [cur]"
proof -
  have w: "well_formed G (adj (Ptr cur) clear_links h)" and r: "G (Loose r) = [cur]" using assms by (simp_all add: almost_def)
  note d = well_formedD [OF w]
  show "loose_in G cur r h" using d(1,2) r by (simp add: loose_in_def linked_def)
  show "wf (below G)" "safe h" "typed G h" "disjoint_groups G" "groups_ok G h" "G (Loose r) = [cur]" using d r by simp_all
qed

lemma clear_node: "adj p clear_links h x = Some n \<Longrightarrow> \<exists>m. h x = Some m \<and> (n = m \<or> n = clear_links m) \<and> (p \<noteq> Ptr x \<longrightarrow> n = m)"
  by (auto simp: adj_def split: if_splits)

lemma moves_clear: "moves doc D h h' \<Longrightarrow> moves doc D (adj p clear_links h) (adj p clear_links h')"
  unfolding moves_def
proof (intro allI conjI impI)
  fix x
  assume m: "\<forall>x. (h x = None \<longleftrightarrow> h' x = None) \<and> (\<forall>n m. h x = Some n \<longrightarrow> h' x = Some m \<longrightarrow> keeps n m \<and>
    (if x \<in> D then ndoc m = doc else ndoc m = ndoc n \<and> name m = name n \<and> content m = content n))"
  show "adj p clear_links h x = None \<longleftrightarrow> adj p clear_links h' x = None" using m by simp
  fix n' m' assume n: "adj p clear_links h x = Some n'" and m': "adj p clear_links h' x = Some m'"
  obtain n l where nl: "h x = Some n" "h' x = Some l" "n' = (if p = Ptr x then clear_links n else n)" "m' = (if p = Ptr x then clear_links l else l)"
    using n m' by (auto simp: adj_def split: if_splits)
  have k: "keeps n l" "if x \<in> D then ndoc l = doc else ndoc l = ndoc n \<and> name l = name n \<and> content l = content n" using m nl(1,2) by blast+
  show "keeps n' m'" using k(1) nl(3,4) by (simp add: keeps_def)
  show "if x \<in> D then ndoc m' = doc else ndoc m' = ndoc n' \<and> name m' = name n' \<and> content m' = content n'" using k(2) nl(3,4) by simp
qed

lemma almost_moves:
  assumes "almost G cur r h" "moved_ok doc (subtree G cur) h h'" "\<And>n. h cur = Some n \<Longrightarrow> \<not> is_document (ntype n)"
  shows "almost G cur r h'"
  unfolding almost_def
proof
  show "well_formed G (adj (Ptr cur) clear_links h')"
  proof (rule well_formed_moves)
    show "well_formed G (adj (Ptr cur) clear_links h)" "G (Loose r) = [cur]" using assms(1) by (simp_all add: almost_def)
    show "moved_ok doc (subtree G cur) (adj (Ptr cur) clear_links h) (adj (Ptr cur) clear_links h')"
      using assms(2) moves_clear by (simp add: moved_ok_def)
    show "\<not> is_document (ntype n)" if "adj (Ptr cur) clear_links h cur = Some n" for n
      using clear_node [OF that] assms(3) by auto
  qed
qed (use assms(1) in \<open>simp add: almost_def\<close>)

lemma almost_ready:
  assumes "almost G cur r h" "h cur = Some c" "ndoc c \<noteq> doc" "present doc h"
  shows "ready G doc (subtree G cur) h"
proof -
  let ?w = "adj (Ptr cur) clear_links h"
  have w: "well_formed G ?w" using assms(1) by (simp add: almost_def)
  have c: "?w cur = Some (clear_links c)" using assms(2) by (simp add: adj_def)
  have r: "ready G doc (subtree G cur) ?w"
    by (rule well_formed_ready [OF w c]) (use assms(3,4) in \<open>auto simp: present_def split: ptr.split\<close>)
  show ?thesis
    unfolding ready_def
  proof (intro conjI ballI)
    fix x assume x: "x \<in> subtree G cur"
    have ch: "chain_at G ?w x" and el: "elsewhere doc ?w x" using r x by (simp_all add: ready_def)
    obtain n where n: "?w x = Some n" "if ntype n = XML_ENTITY_REF_NODE then G (Kids x) = [] else children n = headp (G (Kids x))"
      "if ntype n = XML_ELEMENT_NODE then properties n = headp (G (Props x)) else G (Props x) = []" using ch unfolding chain_at_def by blast
    obtain m where m: "h x = Some m" "n = m \<or> n = clear_links m" using clear_node [OF n(1)] by blast
    have "\<exists>l. h y = Some l \<and> nextSib l = nxt (G k) y \<and> (k = Props x \<longrightarrow> ntype l = XML_ATTRIBUTE_NODE)"
      if y: "owner k = Ptr x" "y \<in> set (G k)" for k y
    proof -
      obtain l where l: "?w y = Some l" "nextSib l = nxt (G k) y" "k = Props x \<Longrightarrow> ntype l = XML_ATTRIBUTE_NODE"
        by (rule chain_next [OF ch y]) blast
      have "(y, x) \<in> below G" using y unfolding below_group by blast
      then have "y \<noteq> cur" using not_below_self [OF almostD(2) [OF assms(1)]] x
        by (metis (mono_tags) mem_Collect_eq rtrancl_into_trancl2 subtree_def wf_acyclic acyclic_def almostD(2) assms(1))
      then show ?thesis using l by (auto simp: adj_def)
    qed
    then show "chain_at G h x" using m n(2,3) unfolding chain_at_def by auto
    show "elsewhere doc h x" using el m n(1) by (auto simp: elsewhere_def)
  qed (use almostD(3) [OF assms(1)] assms(4) in auto)
qed

lemma losing_tidy [simp]: "losing e doc D (tidy G h) \<longleftrightarrow> losing e doc D h"
proof -
  have d: "doc_dict p (tidy G h) = doc_dict p h" for p
    by (cases p) (simp_all add: doc_dict_def tidy_def relink_def option.map_comp comp_def)
  have l: "loses e d d' (relink G x n) = loses e d d' n" "ndoc (relink G x n) = ndoc n" for d d' x n
    by (simp_all add: loses_def relink_def)
  have "(\<exists>n d d'. tidy G h x = Some n \<and> doc_dict (ndoc n) h = Some d \<and> doc_dict doc h = Some d' \<and> loses e d d' n) \<longleftrightarrow>
      (\<exists>n d d'. h x = Some n \<and> doc_dict (ndoc n) h = Some d \<and> doc_dict doc h = Some d' \<and> loses e d d' n)" for x
    by (cases "h x") (simp_all add: tidy_def l)
  then show ?thesis unfolding losing_def d by simp
qed

text \<open>The tests and the call of \<open>xmlSetTreeDoc\<close> before a node is linked.\<close>

lemma set_step:
  assumes "almost G cur r h" "h cur = Some c" "\<not> is_document (ntype c)" "present doc h"
  shows "\<exists>code h'. (if ndoc c \<noteq> doc then xmlSetTreeDoc e (Ptr cur) doc h else Some (0, h)) = Some (code, h') \<and>
    (code = 0 \<or> code = - 1) \<and> (ndoc c = doc \<longrightarrow> code = 0) \<and> moved_ok doc (subtree G cur) h h' \<and> almost G cur r h' \<and>
    (code < 0 \<longrightarrow> losing e doc (subtree G cur) h)"
proof -
  have "\<exists>code h'. (if ndoc c \<noteq> doc then xmlSetTreeDoc e (Ptr cur) doc h else Some (0, h)) = Some (code, h') \<and>
    (code = 0 \<or> code = - 1) \<and> (ndoc c = doc \<longrightarrow> code = 0) \<and> moved_ok doc (subtree G cur) h h' \<and>
    (code < 0 \<longrightarrow> losing e doc (subtree G cur) h)"
  proof (cases "ndoc c = doc")
    case True
    let ?w = "adj (Ptr cur) clear_links h"
    have w: "well_formed G ?w" using assms(1) by (simp add: almost_def)
    have cc: "?w cur = Some (clear_links c)" using assms(2) by (simp add: adj_def)
    have "ndoc n = doc" if x: "x \<in> subtree G cur" "h x = Some n" for x n
      using subtree_present [OF w cc x(1)] x(2) True by (auto simp: adj_def split: if_splits)
    then have "moves doc (subtree G cur) h h" by (auto simp: moves_def keeps_def)
    then show ?thesis using True almostD(3) [OF assms(1)] by (simp add: moved_ok_def)
  next
    case False
    have "tree_moves G e doc cur" using tree_moves_all [OF almostD(5,2)] assms(1) by blast
    then obtain l h' where "set_doc e doc (Tree cur) (False, h) = Some (l, h')" "moved_ok doc (subtree G cur) h h'"
      "l \<longrightarrow> losing e doc (subtree G cur) h"
      using almost_ready [OF assms(1,2) False assms(4)] unfolding tree_moves_def by blast
    then show ?thesis using False by (simp add: xmlSetTreeDoc_def)
  qed
  then show ?thesis using almost_moves [OF assms(1)] assms(2,3) by fastforce
qed

section \<open>Inserting a node\<close>

lemma detach_in:
  assumes "disjoint_groups G" "cur \<in> set (G k)" "G (Loose r) = []"
  shows "x \<in> set (detach k cur r G j) \<longleftrightarrow> (if x = cur then j = Loose r else x \<in> set (G j))"
proof -
  have "distinct (G k)" using assms(1) by (simp add: disjoint_groups_def)
  moreover have "cur \<in> set (G j) \<longleftrightarrow> j = k" using assms(1,2) unfolding disjoint_groups_def by blast
  ultimately show ?thesis using assms(3) by (auto simp: detach_def)
qed

lemma below_detach:
  assumes "disjoint_groups G" "cur \<in> set (G k)" "G (Loose r) = []"
  shows "below (detach k cur r G) = {(x, a) \<in> below G. x \<noteq> cur}"
proof -
  have "(x, a) \<in> below (detach k cur r G) \<longleftrightarrow> (x, a) \<in> below G \<and> x \<noteq> cur" for x a
    unfolding below_group detach_in [OF assms] by auto
  then show ?thesis by auto
qed

lemma subtree_detach:
  assumes "disjoint_groups G" "cur \<in> set (G k)" "G (Loose r) = []" "wf (below G)"
  shows "subtree (detach k cur r G) cur = subtree G cur"
proof
  let ?R = "below (detach k cur r G)"
  note b = below_detach [OF assms(1-3)]
  show "subtree (detach k cur r G) cur \<subseteq> subtree G cur"
    unfolding subtree_def using rtrancl_mono [of ?R "below G"] b by auto
  have "(x, cur) \<in> ?R\<^sup>*" if "(x, cur) \<in> (below G)\<^sup>*" for x
    using that
  proof (induction rule: converse_rtrancl_induct)
    case (step y z)
    have "y \<noteq> cur"
    proof
      assume "y = cur"
      then have "(cur, cur) \<in> (below G)\<^sup>+" using step(1,2) by (metis rtrancl_into_trancl2)
      then show False using wf_acyclic [OF assms(4)] unfolding acyclic_def by blast
    qed
    then have "(y, z) \<in> ?R" using step(1) b by simp
    then show ?case using step(3) by (rule converse_rtrancl_into_rtrancl)
  qed simp
  then show "subtree G cur \<subseteq> subtree (detach k cur r G) cur" by (auto simp: subtree_def)
qed

lemma well_formed_detach:
  assumes "well_formed G h" "cur \<in> set (G k)" "G (Loose r) = []"
  shows "well_formed (detach k cur r G) (tidy (detach k cur r G) h)"
proof (rule well_formed_tidy)
  note w = well_formedD [OF assms(1)]
  show "groups_ok (detach k cur r G) h" by (rule detach_groups [OF w(2) assms(2,3)])
  show "wf (below (detach k cur r G))"
    by (rule wf_subset [OF w(4)]) (auto simp: below_detach [OF w(3) assms(2,3)])
  show "safe h" by (rule w(5))
  show "typed (detach k cur r G) h"
    using w(6) unfolding typed_def detach_in [OF w(3) assms(2,3)] by (auto simp: kind_ok_def split: if_splits)
qed

lemma unhook_almost:
  assumes "well_formed G h" "G k = as @ cur # bs" "G (Loose r) = []" "h cur = Some n" "att \<longleftrightarrow> ntype n = XML_ATTRIBUTE_NODE"
  shows "almost (detach k cur r G) cur r (unhook att cur (owner k) (lastp as) (headp bs) h)"
    and "tidy G' (unhook att cur (owner k) (lastp as) (headp bs) h) = tidy G' h"
proof -
  note w = well_formedD [OF assms(1)]
  have s: "sound_group G h k" by (rule typed_sound [OF w(4,6)])
  note u = unhook_ok [OF w(1) assms(2,3) s assms(4,5)]
  have c: "cur \<in> set (G k)" using assms(2) by simp
  show "almost (detach k cur r G) cur r (unhook att cur (owner k) (lastp as) (headp bs) h)"
    unfolding almost_def u using well_formed_detach [OF assms(1) c assms(3)] by (simp add: detach_def)
  have "tidy G' (unhook att cur (owner k) (lastp as) (headp bs) h) = tidy G' (adj (Ptr cur) clear_links (unhook att cur (owner k) (lastp as) (headp bs) h))"
    by simp
  then show "tidy G' (unhook att cur (owner k) (lastp as) (headp bs) h) = tidy G' h" unfolding u by simp
qed

text \<open>The place for \<open>cur\<close> is not below it, and what belongs there is of its type and document.\<close>

definition fits_in :: "forest \<Rightarrow> nheap \<Rightarrow> group \<Rightarrow> addr \<Rightarrow> bool" where
  "fits_in G h k cur \<longleftrightarrow> room_in h k \<and>
     (\<forall>c. h cur = Some c \<longrightarrow> kind_ok k (ntype c) \<and>
        (\<forall>p. owner k = Ptr p \<longrightarrow> p \<notin> subtree G cur \<and> (\<forall>m. h p = Some m \<longrightarrow> heir_ok k c m)))"

lemma attach_well_formed:
  assumes "almost G cur r h" "G k = as @ bs" "k \<noteq> Loose r" "fits_in G h k cur"
  shows "well_formed (attach k as cur bs r G) (tidy (attach k as cur bs r G) h)"
proof (rule well_formed_tidy)
  note a = almostD [OF assms(1)]
  let ?G = "attach k as cur bs r G"
  have rm: "room_in h k" using assms(4) by (simp add: fits_in_def)
  note s = attach_sets [OF a(5,7) assms(2,3)]
  show "groups_ok ?G h" by (rule attach_groups [OF a(6,7) assms(2,3) rm])
  have "cur \<in> set (G (Loose r))" using a(7) by simp
  then obtain c where c: "h cur = Some c" using a(6) unfolding groups_ok_def by blast
  have up: "p \<notin> subtree G cur" if "owner k = Ptr p" for p using assms(4) c that by (simp add: fits_in_def)
  have b: "(x, q) \<in> below ?G \<longleftrightarrow> (x = cur \<and> owner k = Ptr q) \<or> (x \<noteq> cur \<and> (x, q) \<in> below G)" for x q
    unfolding below_group s by auto
  show "wf (below ?G)"
  proof (cases "owner k")
    case NULL
    then have "below ?G \<subseteq> below G" using b by auto
    then show ?thesis by (rule wf_subset [OF a(2)])
  next
    case (Ptr p)
    have "wf (insert (cur, p) (below G))" using a(2) up [OF Ptr] by (simp add: wf_insert subtree_def)
    then show ?thesis by (rule wf_subset) (use b Ptr in auto)
  qed
  show "safe h" by (rule a(3))
  show "typed ?G h"
    unfolding typed_def s
  proof (intro conjI allI impI)
    fix j x n assume x: "if x = cur then j = k else x \<in> set (G j)" and n: "h x = Some n"
    show "kind_ok j (ntype n)" using x n assms(4) typedD(1) [OF a(4)] by (auto simp: fits_in_def split: if_splits)
    fix q m assume q: "owner j = Ptr q" "h q = Some m"
    show "heir_ok j n m" using x n q assms(4) typedD(2) [OF a(4)] by (auto simp: fits_in_def split: if_splits)
  next
    show "is_document (ntype n) \<Longrightarrow> h x = Some n \<Longrightarrow> ndoc n = Ptr x" for x n using a(4) unfolding typed_def by blast
  qed
qed

lemma moves_tidy: "moves doc D h h' \<Longrightarrow> moves doc D (tidy G h) (tidy G h')"
  unfolding moves_def
proof (intro allI conjI impI)
  fix x
  assume m: "\<forall>x. (h x = None \<longleftrightarrow> h' x = None) \<and> (\<forall>n m. h x = Some n \<longrightarrow> h' x = Some m \<longrightarrow> keeps n m \<and>
    (if x \<in> D then ndoc m = doc else ndoc m = ndoc n \<and> name m = name n \<and> content m = content n))"
  show "tidy G h x = None \<longleftrightarrow> tidy G h' x = None" using m by (simp add: tidy_def)
  fix n' m' assume n: "tidy G h x = Some n'" and m': "tidy G h' x = Some m'"
  obtain n l where nl: "h x = Some n" "h' x = Some l" "n' = relink G x n" "m' = relink G x l"
    using n m' by (auto simp: tidy_Some)
  have k: "keeps n l" "if x \<in> D then ndoc l = doc else ndoc l = ndoc n \<and> name l = name n \<and> content l = content n" using m nl(1,2) by blast+
  show "keeps n' m'" using k(1) nl(3,4) by (simp add: keeps_def relink_def)
  show "if x \<in> D then ndoc m' = doc else ndoc m' = ndoc n' \<and> name m' = name n' \<and> content m' = content n'" using k(2) nl(3,4) by simp
qed

lemma room_moves: "moves doc D h h' \<Longrightarrow> room_in h k \<Longrightarrow> room_in h' k"
proof (cases k)
  case (Kids a)
  assume "moves doc D h h'" "room_in h k"
  moreover from this Kids obtain n where "h a = Some n" "ntype n \<noteq> XML_ENTITY_REF_NODE" by (auto simp: room_in_def)
  ultimately show ?thesis using Kids moves_node [of doc D h h' a n] by (auto simp: room_in_def keeps_def)
next
  case (Props a)
  assume "moves doc D h h'" "room_in h k"
  moreover from this Props obtain n where "h a = Some n" "has_props (ntype n)" by (auto simp: room_in_def)
  ultimately show ?thesis using Props moves_node [of doc D h h' a n] by (auto simp: room_in_def keeps_def)
qed (simp add: room_in_def)

text \<open>\<open>cur\<close> may be moved there from the document that it has now.\<close>

definition can_hold :: "forest \<Rightarrow> nheap \<Rightarrow> addr ptr \<Rightarrow> group \<Rightarrow> addr \<Rightarrow> bool" where
  "can_hold G h doc k cur \<longleftrightarrow> present doc h \<and> room_in h k \<and>
     (\<forall>c. h cur = Some c \<longrightarrow> kind_ok k (ntype c) \<and> \<not> is_document (ntype c)) \<and>
     (\<forall>p. owner k = Ptr p \<longrightarrow> p \<notin> subtree G cur \<and>
        (\<forall>m. h p = Some m \<longrightarrow> ndoc m = doc \<and> (\<forall>a. k = Props a \<longrightarrow> ntype m = XML_ELEMENT_NODE)))"

lemma can_hold_fits:
  assumes "moves doc (subtree G cur) h h'" "can_hold G h doc k cur"
  shows "fits_in G h' k cur"
  unfolding fits_in_def
proof (intro conjI allI impI)
  show "room_in h' k" using room_moves [OF assms(1)] assms(2) by (simp add: can_hold_def)
  fix c' assume c': "h' cur = Some c'"
  obtain c where c: "h cur = Some c" "keeps c c'" "ndoc c' = doc" using moves_back [OF assms(1) c'] by auto
  show "kind_ok k (ntype c')" using assms(2) c(1,2) by (simp add: can_hold_def keeps_def)
  fix p assume p: "owner k = Ptr p"
  show up: "p \<notin> subtree G cur" using assms(2) p by (simp add: can_hold_def)
  fix m' assume m': "h' p = Some m'"
  obtain m where m: "h p = Some m" "keeps m m'" "ndoc m' = ndoc m" using moves_back [OF assms(1) m'] up by auto
  show "heir_ok k c' m'" using c(3) m assms(2) p by (auto simp: heir_ok_def keeps_def can_hold_def)
qed

lemma tidy_same: "tidy G h' = tidy G h \<Longrightarrow> h' x = Some n' \<Longrightarrow> \<exists>n. h x = Some n \<and> ntype n' = ntype n \<and> ndoc n' = ndoc n"
proof -
  assume e: "tidy G h' = tidy G h" and n: "h' x = Some n'"
  have "tidy G h x = Some (relink G x n')" using n unfolding e [symmetric] by (simp add: tidy_def)
  then obtain n where n2: "h x = Some n" "relink G x n' = relink G x n" unfolding tidy_Some by blast
  then have "ntype (relink G x n') = ntype (relink G x n)" "ndoc (relink G x n') = ndoc (relink G x n)" by simp_all
  then show ?thesis using n2(1) by auto
qed

lemma can_hold_same:
  assumes "tidy G' h' = tidy G' h" "subtree G1 cur = subtree G cur" "can_hold G h doc k cur"
  shows "can_hold G1 h' doc k cur"
proof -
  note t = tidy_same [OF assms(1)]
  note t' = tidy_same [OF assms(1) [symmetric]]
  have "room_in h' k" using assms(3) t' unfolding can_hold_def room_in_def by (cases k) (fastforce, fastforce, simp)
  moreover have "present doc h'" using assms(3) t' by (auto simp: can_hold_def present_def split: ptr.splits) blast
  ultimately show ?thesis using assms(2,3) t unfolding can_hold_def by metis
qed

lemma hook_None [simp]: "hook_prev pr cur par prev h x = None \<longleftrightarrow> h x = None" "hook_next pr cur par next' h x = None \<longleftrightarrow> h x = None"
  by (simp_all add: hook_prev_def hook_next_def split: ptr.split)

text \<open>The assignments that link \<open>cur\<close>.\<close>

lemma hook_steps:
  assumes "h cur \<noteq> None" "\<And>a. par = Ptr a \<Longrightarrow> h a \<noteq> None" "\<And>a. prev = Ptr a \<Longrightarrow> h a \<noteq> None" "\<And>a. next' = Ptr a \<Longrightarrow> h a \<noteq> None"
  shows "do {
       h5 \<leftarrow> place_node cur par prev next' h;
       h6 \<leftarrow> (case prev of
                NULL \<Rightarrow> upd_if par (\<lambda>m. m\<lparr>children := Ptr cur\<rparr>) h5
              | Ptr p \<Rightarrow> upd p (\<lambda>m. m\<lparr>nextSib := Ptr cur\<rparr>) h5);
       h7 \<leftarrow> (case next' of
                NULL \<Rightarrow> upd_if par (\<lambda>m. m\<lparr>lastChild := Ptr cur\<rparr>) h6
              | Ptr x \<Rightarrow> upd x (\<lambda>m. m\<lparr>prevSib := Ptr cur\<rparr>) h6);
       Some (Ptr cur, h7) } =
     Some (Ptr cur, hook_next False cur par next' (hook_prev False cur par prev
       (adj (Ptr cur) (\<lambda>m. m\<lparr>parent := par, prevSib := prev, nextSib := next'\<rparr>) h)))"
proof -
  let ?h5 = "adj (Ptr cur) (\<lambda>m. m\<lparr>parent := par, prevSib := prev, nextSib := next'\<rparr>) h"
  have 5: "place_node cur par prev next' h = Some ?h5" using assms(1) by (simp add: place_node_def upd_adj)
  have 6: "(case prev of NULL \<Rightarrow> upd_if par (\<lambda>m. m\<lparr>children := Ptr cur\<rparr>) ?h5 | Ptr p \<Rightarrow> upd p (\<lambda>m. m\<lparr>nextSib := Ptr cur\<rparr>) ?h5) =
      Some (hook_prev False cur par prev ?h5)"
    using assms(2,3) by (cases prev) (auto simp: hook_prev_def upd_adj upd_if_adj)
  have 7: "(case next' of NULL \<Rightarrow> upd_if par (\<lambda>m. m\<lparr>lastChild := Ptr cur\<rparr>) (hook_prev False cur par prev ?h5)
      | Ptr x \<Rightarrow> upd x (\<lambda>m. m\<lparr>prevSib := Ptr cur\<rparr>) (hook_prev False cur par prev ?h5)) =
      Some (hook_next False cur par next' (hook_prev False cur par prev ?h5))"
  proof -
    have "upd_if par f (hook_prev False cur par prev ?h5) = Some (adj par f (hook_prev False cur par prev ?h5))" for f
      by (rule upd_if_adj) (simp add: assms(2))
    moreover have "upd a f (hook_prev False cur par prev ?h5) = Some (adj (Ptr a) f (hook_prev False cur par prev ?h5))"
      if "next' = Ptr a" for a f by (rule upd_adj) (simp add: assms(4) [OF that])
    ultimately show ?thesis by (cases next') (simp_all add: hook_next_def)
  qed
  show ?thesis unfolding 5 bind.bind_lunit 6 7 ..
qed

lemma almost_present:
  assumes "almost G cur r h" "G k = as @ bs" "room_in h k"
  shows "h cur \<noteq> None" "\<And>a. owner k = Ptr a \<Longrightarrow> h a \<noteq> None" "\<And>a. lastp as = Ptr a \<Longrightarrow> h a \<noteq> None" "\<And>a. headp bs = Ptr a \<Longrightarrow> h a \<noteq> None"
proof -
  note a = almostD [OF assms(1)]
  have g: "x \<in> set (G j) \<Longrightarrow> h x \<noteq> None" for x j using a(6) unfolding groups_ok_def by blast
  show "h cur \<noteq> None" using g [of cur "Loose r"] a(7) by simp
  show "h a \<noteq> None" if "owner k = Ptr a" for a using that assms(3) by (cases k) (auto simp: room_in_def)
  show "h a \<noteq> None" if "lastp as = Ptr a" for a using headp_Ptr(2) [OF that] g [of a k] assms(2) by simp
  show "h a \<noteq> None" if "headp bs = Ptr a" for a using headp_Ptr(1) [OF that] g [of a k] assms(2) by simp
qed

lemma link_node_ok:
  assumes "well_formed G h" "cur \<in> set (G k0)" "G (Loose r) = []" "h cur = Some c" "ntype c \<noteq> XML_ATTRIBUTE_NODE"
    and "detach k0 cur r G k = as @ bs" "k \<noteq> Loose r" "can_hold G h doc k cur"
  shows "\<exists>h'. (link_node e doc cur (owner k) (lastp as) (headp bs) h = Some (Ptr cur, h') \<and>
       well_formed (attach k as cur bs r (detach k0 cur r G)) h' \<and>
       moves doc (subtree G cur) (tidy (attach k as cur bs r (detach k0 cur r G)) h) h') \<or>
     (link_node e doc cur (owner k) (lastp as) (headp bs) h = Some (NULL, h') \<and> ndoc c \<noteq> doc \<and> losing e doc (subtree G cur) h \<and>
       well_formed (detach k0 cur r G) h' \<and> moves doc (subtree G cur) (tidy (detach k0 cur r G) h) h')"
proof -
  note w = well_formedD [OF assms(1)]
  let ?D = "detach k0 cur r G" and ?A = "attach k as cur bs r (detach k0 cur r G)"
  obtain as0 bs0 where sp: "G k0 = as0 @ cur # bs0" using split_list [OF assms(2)] by blast
  obtain n where n: "h cur = Some n" "parent n = owner k0" "prevSib n = lastp as0" "nextSib n = headp bs0"
    and ne: "headp bs0 \<noteq> Ptr cur" "lastp as0 \<noteq> Ptr cur" "owner k0 \<noteq> Ptr cur"
    and ex: "\<And>a. owner k0 = Ptr a \<Longrightarrow> h a \<noteq> None" "\<And>a. headp bs0 = Ptr a \<Longrightarrow> h a \<noteq> None" "\<And>a. lastp as0 = Ptr a \<Longrightarrow> h a \<noteq> None"
    by (rule unhook_facts [OF w(1) sp typed_sound [OF w(4,6)]]) blast
  have nc: "n = c" using n(1) assms(4) by simp
  note n = n [unfolded nc]
  let ?h1 = "adj (owner k0) (skip_in False cur (lastp as0) (headp bs0)) h"
  let ?h2 = "adj (headp bs0) (\<lambda>m. m\<lparr>prevSib := lastp as0\<rparr>) ?h1"
  let ?h3 = "adj (lastp as0) (\<lambda>m. m\<lparr>nextSib := headp bs0\<rparr>) ?h2"
  have u: "unhook False cur (owner k0) (lastp as0) (headp bs0) h = ?h3" by (simp add: unhook_def)
  have 1: "upd_if (owner k0) (skip_in False cur (lastp as0) (headp bs0)) h = Some ?h1" using ex(1) by (intro upd_if_adj)
  have 2: "upd_if (headp bs0) (\<lambda>m. m\<lparr>prevSib := lastp as0\<rparr>) ?h1 = Some ?h2" using ex(2) by (intro upd_if_adj) simp
  have 3: "upd_if (lastp as0) (\<lambda>m. m\<lparr>nextSib := headp bs0\<rparr>) ?h2 = Some ?h3" using ex(3) by (intro upd_if_adj) simp
  have c: "?h1 cur = Some c" "?h2 cur = Some c" "?h3 cur = Some c" using n(1) ne by (simp_all add: adj_def)
  have al: "almost ?D cur r ?h3" and ti: "\<And>G'. tidy G' ?h3 = tidy G' h"
    using unhook_almost [OF assms(1) sp assms(3,4), of False] assms(5) unfolding u by simp_all
  have sub: "subtree ?D cur = subtree G cur" by (rule subtree_detach [OF w(3) assms(2,3) w(4)])
  have ch: "can_hold ?D ?h3 doc k cur" by (rule can_hold_same [OF ti [of ?D] sub assms(8)])
  have nd: "\<not> is_document (ntype c)" "present doc ?h3" using ch c(3) by (simp_all add: can_hold_def)
  obtain code h4 where h4: "(if ndoc c \<noteq> doc then xmlSetTreeDoc e (Ptr cur) doc ?h3 else Some (0, ?h3)) = Some (code, h4)"
    "code = 0 \<or> code = - 1" "ndoc c = doc \<longrightarrow> code = 0" "moved_ok doc (subtree G cur) ?h3 h4" "almost ?D cur r h4"
      and ls: "code < 0 \<longrightarrow> losing e doc (subtree G cur) ?h3"
    using set_step [OF al c(3) nd] unfolding sub by blast
  have mv: "moves doc (subtree G cur) ?h3 h4" using h4(4) by (simp add: moved_ok_def)
  have head: "link_node e doc cur (owner k) (lastp as) (headp bs) h =
    (if code < 0 then do { h5 \<leftarrow> place_node cur NULL NULL NULL h4; Some (NULL, h5) }
     else do {
       h5 \<leftarrow> place_node cur (owner k) (lastp as) (headp bs) h4;
       h6 \<leftarrow> (case lastp as of
                NULL \<Rightarrow> upd_if (owner k) (\<lambda>m. m\<lparr>children := Ptr cur\<rparr>) h5
              | Ptr p \<Rightarrow> upd p (\<lambda>m. m\<lparr>nextSib := Ptr cur\<rparr>) h5);
       h7 \<leftarrow> (case headp bs of
                NULL \<Rightarrow> upd_if (owner k) (\<lambda>m. m\<lparr>lastChild := Ptr cur\<rparr>) h6
              | Ptr x \<Rightarrow> upd x (\<lambda>m. m\<lparr>prevSib := Ptr cur\<rparr>) h6);
       Some (Ptr cur, h7) })"
    unfolding link_node_def assms(4) bind.bind_lunit n(2-4) 1 c 2 3 h4(1) by simp
  have cm: "moves doc (subtree ?D cur) ?h3 h4" using mv sub by simp
  show ?thesis
  proof (cases "code < 0")
    case True
    let ?h5 = "adj (Ptr cur) (\<lambda>m. m\<lparr>parent := NULL, prevSib := NULL, nextSib := NULL\<rparr>) h4"
    have "h4 cur \<noteq> None" using moves_node [OF mv c(3)] by auto
    then have "link_node e doc cur (owner k) (lastp as) (headp bs) h = Some (NULL, ?h5)"
      unfolding head if_P [OF True] by (simp add: place_node_def upd_adj)
    moreover have e: "?h5 = adj (Ptr cur) clear_links h4" 
    proof -
      have "m\<lparr>parent := NULL, prevSib := NULL, nextSib := NULL\<rparr> = clear_links m" for m by (rule xmlNode.equality) simp_all
      then show ?thesis by (intro arg_cong [where f = "\<lambda>f. adj (Ptr cur) f h4"] ext)
    qed
    moreover have "well_formed ?D (adj (Ptr cur) clear_links h4)" using h4(5) by (simp add: almost_def)
    moreover from this have "adj (Ptr cur) clear_links h4 = tidy ?D h4" using well_formedD(1) linked_def by fastforce
    moreover have "losing e doc (subtree G cur) h"
      using ls True losing_tidy [of e doc _ ?D ?h3] losing_tidy [of e doc _ ?D h] ti [of ?D] by simp
    ultimately show ?thesis using True h4(3) moves_tidy [OF mv, of ?D] ti [of ?D] by auto
  next
    case False
    have room: "fits_in ?D h4 k cur" by (rule can_hold_fits [OF cm ch])
    have lo: "loose_in ?D cur r h4" by (rule almostD(1) [OF h4(5)])
    have up: "owner k \<noteq> Ptr cur" using assms(8) subtree_self by (auto simp: can_hold_def)
    have out: "\<forall>x \<in> set (?D k). owner k \<noteq> Ptr x"
      using typed_sound [OF almostD(2) [OF al] almostD(4) [OF al], of k] by (simp add: sound_group_def)
    have pr: "owner k = NULL \<or> (False \<longleftrightarrow> k = Props (case owner k of Ptr a \<Rightarrow> a))"
      using assms(4,5,8) by (cases k) (auto simp: can_hold_def kind_ok_def)
    have rm: "room_in h4 k" using room by (simp add: fits_in_def)
    note ch4 = almost_present [OF h4(5) assms(6) rm]
    have "link_node e doc cur (owner k) (lastp as) (headp bs) h = Some (Ptr cur, tidy ?A h4)"
      unfolding head if_not_P [OF False] attach_ok [OF lo assms(6,7) rm up out pr, symmetric]
      by (rule hook_steps [where h = h4 and cur = cur and par = "owner k" and prev = "lastp as" and next' = "headp bs", OF ch4])
    moreover have "well_formed ?A (tidy ?A h4)" by (rule attach_well_formed [OF h4(5) assms(6,7) room])
    moreover have "moves doc (subtree G cur) (tidy ?A h) (tidy ?A h4)" using moves_tidy [OF mv, of ?A] unfolding ti [of ?A] .
    ultimately show ?thesis by blast
  qed
qed

end
