(* ===== verification/TreeInsert.thy ===== *)
theory TreeInsert
  imports TreeForms
begin

text \<open>
  The insertion next to a sibling, the walks over elements and \<open>xmlUnlinkNode\<close>.
\<close>

section \<open>The public functions\<close>

text \<open>
  The two results of an insertion that returns \<open>a\<close>: \<open>cur\<close> is in its place (forest \<open>A\<close>), its subtree has the document \<open>doc\<close>; or a string
  in the dictionary of its document can not be added to the one of \<open>doc\<close>, or there is no memory for a copy of it
  (\<open>losing\<close>); then NULL is returned and \<open>cur\<close> is alone (forest \<open>D\<close>).
\<close>

definition inserted_for :: "env \<Rightarrow> addr \<Rightarrow> forest \<Rightarrow> nheap \<Rightarrow> addr ptr \<Rightarrow> addr \<Rightarrow> forest \<Rightarrow> forest \<Rightarrow> (addr ptr \<times> nheap) option \<Rightarrow> bool" where
  "inserted_for e a G h doc cur D A res \<longleftrightarrow>
     (\<exists>h'. res = Some (Ptr a, h') \<and> well_formed A h' \<and> moves doc (subtree G cur) (tidy A h) h') \<or>
     (\<exists>c h'. h cur = Some c \<and> ndoc c \<noteq> doc \<and> losing e doc (subtree G cur) h \<and> res = Some (NULL, h') \<and> well_formed D h' \<and> moves doc (subtree G cur) (tidy D h) h')"

abbreviation inserted :: "env \<Rightarrow> forest \<Rightarrow> nheap \<Rightarrow> addr ptr \<Rightarrow> addr \<Rightarrow> forest \<Rightarrow> forest \<Rightarrow> (addr ptr \<times> nheap) option \<Rightarrow> bool" where
  "inserted e G h doc cur \<equiv> inserted_for e cur G h doc cur"

lemma link_inserted:
  assumes "well_formed G h" "cur \<in> set (G k0)" "G (Loose r) = []" "h cur = Some c" "ntype c \<noteq> XML_ATTRIBUTE_NODE"
    and "detach k0 cur r G k = as @ bs" "k \<noteq> Loose r" "can_hold G h doc k cur"
  shows "inserted e G h doc cur (detach k0 cur r G) (attach k as cur bs r (detach k0 cur r G))
    (link_node e doc cur (owner k) (lastp as) (headp bs) h)"
  using link_node_ok [OF assms, of e] assms(4) unfolding inserted_for_def by blast

text \<open>The list after \<open>c\<close> is inserted behind \<open>p\<close> or before it.\<close>

fun insert_after :: "'a \<Rightarrow> 'a \<Rightarrow> 'a list \<Rightarrow> 'a list" where
  "insert_after p c [] = []"
| "insert_after p c (x # xs) = (if x = p then x # c # xs else x # insert_after p c xs)"

fun insert_before :: "'a \<Rightarrow> 'a \<Rightarrow> 'a list \<Rightarrow> 'a list" where
  "insert_before p c [] = []"
| "insert_before p c (x # xs) = (if x = p then c # x # xs else x # insert_before p c xs)"

lemma insert_after_split: "p \<notin> set us \<Longrightarrow> insert_after p c (us @ p # vs) = (us @ [p]) @ c # vs"
  by (induction us) auto

lemma insert_before_split: "p \<notin> set us \<Longrightarrow> insert_before p c (us @ p # vs) = us @ c # p # vs"
  by (induction us) auto

text \<open>\<open>cur\<close> moves from its group to the group \<open>k\<close>, where \<open>f\<close> puts it into the list of the others.\<close>

definition relocate :: "group \<Rightarrow> addr \<Rightarrow> group \<Rightarrow> (addr list \<Rightarrow> addr list) \<Rightarrow> forest \<Rightarrow> forest" where
  "relocate k0 cur k f G = (let G1 = G(k0 := remove1 cur (G k0)) in G1(k := f (G1 k)))"

lemma attach_relocate:
  assumes "G (Loose r) = []" "detach k0 cur r G k = as @ bs" "k \<noteq> Loose r" "k0 \<noteq> Loose r" "f (as @ bs) = as @ cur # bs"
  shows "attach k as cur bs r (detach k0 cur r G) = relocate k0 cur k f G"
  using assms by (auto simp: attach_def detach_def relocate_def Let_def fun_eq_iff)

lemma unusable_node: "h a = Some n \<Longrightarrow> safe h \<Longrightarrow> unusable (Ptr a) h = Some False"
  by (auto simp: unusable_def dest: safe_nodeD simp: safe_node_def)

lemma insert_plain:
  assumes "h cur = Some c" "ntype c \<noteq> XML_ATTRIBUTE_NODE"
  shows "xmlInsertNode e doc cur par prev next' False h = link_node e doc cur par prev next' h"
  using assms by (simp add: xmlInsertNode_def)

lemma remaining:
  assumes "distinct (G k)" "G k = us @ p # vs" "p \<noteq> cur" "k0 \<noteq> Loose r" "k \<noteq> Loose r" "k = k0 \<or> cur \<notin> set (G k)"
  shows "detach k0 cur r G k = remove1 cur us @ p # remove1 cur vs"
    and "headp vs \<noteq> Ptr cur \<Longrightarrow> headp (remove1 cur vs) = headp vs" and "lastp us \<noteq> Ptr cur \<Longrightarrow> lastp (remove1 cur us) = lastp us"
proof -
  have d: "distinct us" "distinct vs" using assms(1,2) by auto
  show "detach k0 cur r G k = remove1 cur us @ p # remove1 cur vs"
  proof (cases "cur \<in> set (G k)")
    case True
    then have k: "k = k0" using assms(6) by blast
    have "remove1 cur (G k) = remove1 cur us @ p # remove1 cur vs"
    proof (cases "cur \<in> set us")
      case True
      then have "cur \<notin> set vs" using assms(1,2) by auto
      then show ?thesis using True assms(2) by (simp add: remove1_append remove1_idem)
    next
      case False
      then show ?thesis using assms(2,3) by (simp add: remove1_append remove1_idem)
    qed
    then show ?thesis using k assms(5) by (simp add: detach_def)
  next
    case False
    then have "remove1 cur us = us" "remove1 cur vs = vs" "remove1 cur (G k) = G k" using assms(2) by (simp_all add: remove1_idem)
    then show ?thesis using assms(2,5) by (auto simp: detach_def)
  qed
  show "headp (remove1 cur vs) = headp vs" if "headp vs \<noteq> Ptr cur" using that by (cases vs) auto
  show "lastp (remove1 cur us) = lastp us" if "lastp us \<noteq> Ptr cur"
    using that by (cases us rule: rev_cases) (auto simp: remove1_append)
qed

lemma next_sibling_inserted:
  assumes "well_formed G h" "cur \<in> set (G k0)" "p \<in> set (G k)" "p \<noteq> cur" "h cur = Some c" "h p = Some n"
    and "ntype c \<noteq> XML_ATTRIBUTE_NODE" "can_hold G h (ndoc n) k cur" "G (Loose r) = []"
  shows "if nxt (G k) p = Ptr cur then xmlAddNextSibling e (Ptr p) (Ptr cur) h = Some (Ptr cur, h)
    else inserted e G h (ndoc n) cur (detach k0 cur r G) (relocate k0 cur k (insert_after p cur) G) (xmlAddNextSibling e (Ptr p) (Ptr cur) h)"
proof -
  note w = well_formedD [OF assms(1)]
  obtain us vs where sp: "G k = us @ p # vs" using split_list [OF assms(3)] by blast
  have dist: "distinct (G k)" using w(3) by (simp add: disjoint_groups_def)
  have nr: "k \<noteq> Loose r" "k0 \<noteq> Loose r" using assms(2,3,9) by auto
  have kk: "k = k0 \<or> cur \<notin> set (G k)" using w(3) assms(2) unfolding disjoint_groups_def by blast
  obtain n' where "h p = Some n'" "parent n' = owner k" "nextSib n' = nxt (G k) p" using linked_node [OF w(1) assms(3)] by metis
  then have f: "parent n = owner k" "nextSib n = nxt (G k) p" using assms(6) by simp_all
  have nx: "nxt (G k) p = headp vs" using dist unfolding sp by (simp add: nxt_split)
  note rem = remaining [where cur = cur and ?k0.0 = k0 and r = r and G = G and k = k, OF dist sp assms(4) nr(2,1) kk]
  have us: "p \<notin> set (remove1 cur us)" using dist sp by (auto dest: notin_set_remove1)
  have op: "xmlAddNextSibling e (Ptr p) (Ptr cur) h =
    (if headp vs = Ptr cur then Some (Ptr cur, h) else link_node e (ndoc n) cur (owner k) (Ptr p) (headp vs) h)"
    using assms(4) by (simp add: xmlAddNextSibling_def unusable_node [OF assms(5) w(5)] unusable_node [OF assms(6) w(5)] assms(6) f nx
        insert_plain [where h = h and cur = cur and c = c, OF assms(5,7)])
  show ?thesis
  proof (cases "headp vs = Ptr cur")
    case True
    then show ?thesis using op nx by simp
  next
    case False
    let ?as = "remove1 cur us @ [p]" and ?bs = "remove1 cur vs"
    have D: "detach k0 cur r G k = ?as @ ?bs" using rem(1) by simp
    have "attach k ?as cur ?bs r (detach k0 cur r G) = relocate k0 cur k (insert_after p cur) G"
      by (rule attach_relocate [OF assms(9) D nr]) (use insert_after_split [OF us] in simp)
    then show ?thesis
      using link_inserted [OF assms(1,2,9,5,7) D nr(1) assms(8), of e] op rem(2) [OF False] False nx by simp
  qed
qed

lemma prev_sibling_inserted:
  assumes "well_formed G h" "cur \<in> set (G k0)" "p \<in> set (G k)" "p \<noteq> cur" "h cur = Some c" "h p = Some n"
    and "ntype c \<noteq> XML_ATTRIBUTE_NODE" "can_hold G h (ndoc n) k cur" "G (Loose r) = []"
  shows "if prv (G k) p = Ptr cur then xmlAddPrevSibling e (Ptr p) (Ptr cur) h = Some (Ptr cur, h)
    else inserted e G h (ndoc n) cur (detach k0 cur r G) (relocate k0 cur k (insert_before p cur) G) (xmlAddPrevSibling e (Ptr p) (Ptr cur) h)"
proof -
  note w = well_formedD [OF assms(1)]
  obtain us vs where sp: "G k = us @ p # vs" using split_list [OF assms(3)] by blast
  have dist: "distinct (G k)" using w(3) by (simp add: disjoint_groups_def)
  have nr: "k \<noteq> Loose r" "k0 \<noteq> Loose r" using assms(2,3,9) by auto
  have kk: "k = k0 \<or> cur \<notin> set (G k)" using w(3) assms(2) unfolding disjoint_groups_def by blast
  obtain n' where "h p = Some n'" "parent n' = owner k" "prevSib n' = prv (G k) p" using linked_node [OF w(1) assms(3)] by metis
  then have f: "parent n = owner k" "prevSib n = prv (G k) p" using assms(6) by simp_all
  have nx: "prv (G k) p = lastp us" using dist unfolding sp by (simp add: prv_split)
  note rem = remaining [where cur = cur and ?k0.0 = k0 and r = r and G = G and k = k, OF dist sp assms(4) nr(2,1) kk]
  have us: "p \<notin> set (remove1 cur us)" using dist sp by (auto dest: notin_set_remove1)
  have op: "xmlAddPrevSibling e (Ptr p) (Ptr cur) h =
    (if lastp us = Ptr cur then Some (Ptr cur, h) else link_node e (ndoc n) cur (owner k) (lastp us) (Ptr p) h)"
    using assms(4) by (simp add: xmlAddPrevSibling_def unusable_node [OF assms(5) w(5)] unusable_node [OF assms(6) w(5)] assms(6) f nx
        insert_plain [where h = h and cur = cur and c = c, OF assms(5,7)])
  show ?thesis
  proof (cases "lastp us = Ptr cur")
    case True
    then show ?thesis using op nx by simp
  next
    case False
    let ?as = "remove1 cur us" and ?bs = "p # remove1 cur vs"
    have D: "detach k0 cur r G k = ?as @ ?bs" using rem(1) by simp
    have "attach k ?as cur ?bs r (detach k0 cur r G) = relocate k0 cur k (insert_before p cur) G"
      by (rule attach_relocate [OF assms(9) D nr]) (use insert_before_split [OF us] in simp)
    then show ?thesis
      using link_inserted [OF assms(1,2,9,5,7) D nr(1) assms(8), of e] op rem(3) [OF False] False nx by simp
  qed
qed

section \<open>Walking over siblings\<close>

definition element_at :: "nheap \<Rightarrow> addr \<Rightarrow> bool" where
  "element_at h x = (case h x of None \<Rightarrow> False | Some n \<Rightarrow> is_element n)"

lemma element_at_Some: "h x = Some n \<Longrightarrow> element_at h x = is_element n"
  by (simp add: element_at_def)

lemma linked_split:
  assumes "linked G h" "G k = us @ x # vs"
  obtains n where "h x = Some n" "parent n = owner k" "prevSib n = lastp us" "nextSib n = headp vs"
proof -
  have x: "x \<in> set (G k)" using assms(2) by simp
  have "distinct (G k)" using assms(1) by (simp add: linked_def groups_ok_def disjoint_groups_def)
  then have d: "x \<notin> set us" "x \<notin> set vs" unfolding assms(2) by auto
  obtain n where n: "h x = Some n" "parent n = owner k" "prevSib n = prv (G k) x" "nextSib n = nxt (G k) x"
    using linked_node [OF assms(1) x] by metis
  show ?thesis by (rule that [OF n(1,2)]) (use n(3,4) d in \<open>simp_all add: assms(2) prv_split nxt_split\<close>)
qed

lemma next_element_list:
  assumes "linked G h"
  shows "G k = us @ vs \<Longrightarrow> next_element h (headp vs) = Some (headp (filter (element_at h) vs))"
proof (induction vs arbitrary: us)
  case Nil
  then show ?case by (subst next_element.simps) simp
next
  case (Cons x vs)
  obtain n where n: "h x = Some n" "nextSib n = headp vs" by (rule linked_split [OF assms Cons.prems])
  have "next_element h (headp vs) = Some (headp (filter (element_at h) vs))" using Cons.IH [of "us @ [x]"] Cons.prems by simp
  then show ?case using n by (subst next_element.simps) (simp add: element_at_Some)
qed

lemma prev_element_list:
  assumes "linked G h"
  shows "G k = us @ vs \<Longrightarrow> prev_element h (lastp us) = Some (lastp (filter (element_at h) us))"
proof (induction us arbitrary: vs rule: rev_induct)
  case Nil
  then show ?case by (subst prev_element.simps) simp
next
  case (snoc x us)
  have sp: "G k = us @ x # vs" using snoc.prems by simp
  obtain n where n: "h x = Some n" "prevSib n = lastp us" by (rule linked_split [OF assms sp])
  have "prev_element h (lastp us) = Some (lastp (filter (element_at h) us))" using snoc.IH [of "x # vs"] snoc.prems by simp
  then show ?case using n by (subst prev_element.simps) (simp add: element_at_Some)
qed

lemma count_elements_list:
  assumes "linked G h"
  shows "G k = us @ vs \<Longrightarrow> count_elements h (headp vs) c = Some (c + length (filter (element_at h) vs))"
proof (induction vs arbitrary: us c)
  case Nil
  then show ?case by (subst count_elements.simps) simp
next
  case (Cons x vs)
  obtain n where n: "h x = Some n" "nextSib n = headp vs" by (rule linked_split [OF assms Cons.prems])
  show ?case using Cons.IH [of "us @ [x]"] Cons.prems n by (subst count_elements.simps) (simp add: element_at_Some)
qed

lemma with_children_own: "t \<in> with_children \<Longrightarrow> t \<noteq> XML_ENTITY_REF_NODE"
  by (auto simp: with_children_def)

lemma element_children:
  assumes "well_formed G h" "h p = Some n" "ntype n \<in> with_children"
  shows "xmlFirstElementChild (Ptr p) h = Some (headp (filter (element_at h) (G (Kids p)))) \<and>
    xmlLastElementChild (Ptr p) h = Some (lastp (filter (element_at h) (G (Kids p)))) \<and>
    xmlChildElementCount (Ptr p) h = Some (length (filter (element_at h) (G (Kids p))))"
proof -
  note w = well_formedD [OF assms(1)]
  obtain k where k: "p \<in> set (G k)" using in_group [OF assms(1,2)] by blast
  obtain n' where "h p = Some n'" "ntype n' \<noteq> XML_ENTITY_REF_NODE \<Longrightarrow> children n' = headp (G (Kids p)) \<and> lastChild n' = lastp (G (Kids p))"
    using linked_node [OF w(1) k] by metis
  then have f: "children n = headp (G (Kids p))" "lastChild n = lastp (G (Kids p))" using assms(2) with_children_own [OF assms(3)] by simp_all
  show ?thesis
    using next_element_list [OF w(1), of "Kids p" "[]" "G (Kids p)"] prev_element_list [OF w(1), of "Kids p" "G (Kids p)" "[]"]
      count_elements_list [OF w(1), of "Kids p" "[]" "G (Kids p)" 0] assms(2,3) f
    by (simp add: xmlFirstElementChild_def xmlLastElementChild_def xmlChildElementCount_def)
qed

lemma element_siblings:
  assumes "well_formed G h" "G k = us @ x # vs" "h x = Some n" "ntype n \<in> siblings_allowed"
  shows "xmlNextElementSibling (Ptr x) h = Some (headp (filter (element_at h) vs)) \<and>
    xmlPreviousElementSibling (Ptr x) h = Some (lastp (filter (element_at h) us))"
proof -
  note w = well_formedD [OF assms(1)]
  obtain n' where "h x = Some n'" "prevSib n' = lastp us" "nextSib n' = headp vs" by (rule linked_split [OF w(1) assms(2)])
  then have f: "prevSib n = lastp us" "nextSib n = headp vs" using assms(3) by simp_all
  show ?thesis
    using next_element_list [OF w(1), of k "us @ [x]" vs] prev_element_list [OF w(1), of k us "x # vs"] assms f
    by (simp add: xmlNextElementSibling_def xmlPreviousElementSibling_def)
qed

lemma document_root:
  assumes "well_formed G h" "h d = Some doc" "is_document (ntype doc)"
  shows "xmlDocGetRootElement (Ptr d) h = Some (headp (filter (element_at h) (G (Kids d))))"
proof -
  have "ntype doc \<in> with_children" using assms(3) by (auto simp: is_document_def with_children_def)
  then show ?thesis using element_children [OF assms(1,2)] assms(2) by (simp add: xmlFirstElementChild_def xmlDocGetRootElement_def)
qed

section \<open>Unlinking\<close>

lemma well_formed_quiet:
  assumes "well_formed G h" "quiet_step h h'"
  shows "well_formed G h'"
proof -
  note w = well_formedD [OF assms(1)]
  have mv: "moves NULL {} h h'" and s: "safe h'" using assms(2) by (simp_all add: quiet_step_def)
  have "typed G h'"
    by (rule typed_same [OF _ w(6)]) (use moves_back [OF mv] in \<open>fastforce simp: keeps_def\<close>)
  then show ?thesis using linked_moves [OF mv w(1)] w(4) s by (simp add: well_formed_def)
qed

text \<open>
  What unlinking does to the tables of the document.  A DTD is no longer a subset of its document.  An
  entity that a subset lists under its name leaves the table of general entities of that subset, also
  when it is a parameter entity.
\<close>

definition unregister :: "addr \<Rightarrow> xmlNode \<Rightarrow> xmlNode \<Rightarrow> xmlNode" where
  "unregister a ent m =
     (if table_lookup (if is_general (etype ent) then entities m else pentities m) (name ent) = Ptr a
      then m\<lparr>entities := table_remove (entities m) (name ent)\<rparr> else m)"

definition subsets :: "addr ptr \<Rightarrow> nheap \<Rightarrow> addr set" where
  "subsets docp h =
     {s. \<exists>d doc. docp = Ptr d \<and> h d = Some doc \<and> (intSubset doc = Ptr s \<or> extSubset doc = Ptr s)}"

definition delisted :: "addr \<Rightarrow> xmlNode \<Rightarrow> nheap \<Rightarrow> nheap" where
  "delisted a n h =
     (if ntype n = XML_DTD_NODE then adj (ndoc n) (clear_subsets a) h
      else if ntype n = XML_ENTITY_DECL \<and> (is_general (etype n) \<or> is_parameter (etype n))
      then (\<lambda>x. if x \<in> subsets (ndoc n) h then map_option (unregister a n) (h x) else h x)
      else h)"

lemma unregister_idem [simp]: "unregister a n (unregister a n m) = unregister a n m"
  by (auto simp: unregister_def table_lookup_def table_remove_def fun_eq_iff split: ptr.splits option.splits prod.splits if_splits)

lemma remove_from_eq:
  assumes "present sub h"
  shows "remove_from sub a n h = Some (adj sub (unregister a n) h)"
proof (cases sub)
  case (Ptr s)
  then obtain dtd where "h s = Some dtd" using assms by (auto simp: present_def)
  then show ?thesis using Ptr by (auto simp: remove_from_def unregister_def adj_def upd_def fun_eq_iff Let_def)
qed (simp add: remove_from_def)

lemma xmlRemoveEntity_eq:
  assumes "safe h" "h a = Some n" "ntype n = XML_ENTITY_DECL"
  shows "xmlRemoveEntity a h = Some (delisted a n h)"
proof (cases "ndoc n")
  case (Ptr d)
  have "safe_node h n" by (rule safe_nodeD [OF assms(1,2)])
  then obtain doc where d: "h d = Some doc" using Ptr by (auto simp: safe_node_def present_def)
  then have p: "present (intSubset doc) h" "present (extSubset doc) h" using safe_nodeD [OF assms(1) d] by (simp_all add: safe_node_def)
  let ?h1 = "adj (intSubset doc) (unregister a n) h"
  have "present (extSubset doc) ?h1" using p(2) by (simp add: present_def split: ptr.splits)
  from remove_from_eq [OF p(1)] remove_from_eq [OF this]
  have "xmlRemoveEntity a h = Some (if is_general (etype n) \<or> is_parameter (etype n) then adj (extSubset doc) (unregister a n) ?h1 else h)"
    using Ptr assms(2) d by (simp add: xmlRemoveEntity_def)
  moreover have "adj (extSubset doc) (unregister a n) ?h1 =
      (\<lambda>x. if x \<in> subsets (ndoc n) h then map_option (unregister a n) (h x) else h x)"
    using Ptr d by (auto simp: adj_def subsets_def fun_eq_iff option.map_comp comp_def)
  ultimately show ?thesis using assms(3) by (simp add: delisted_def)
next
  case NULL
  then show ?thesis using assms(2,3) by (auto simp: xmlRemoveEntity_def delisted_def subsets_def)
qed

lemma clear_subsets_ok: "safe h \<Longrightarrow> present p h \<Longrightarrow>
  upd_if p (clear_subsets a) h = Some (adj p (clear_subsets a) h) \<and> quiet_step h (adj p (clear_subsets a) h)"
proof -
  assume s: "safe h" and p: "present p h"
  have "upd_if p (clear_subsets a) h = Some (adj p (clear_subsets a) h)" using p by (intro upd_if_adj) (auto simp: present_def)
  moreover have "quiet_step h (adj p (clear_subsets a) h)"
    by (rule quiet_adj [OF s quiet_simps(1)]) (use safe_nodeD [OF s] in \<open>auto simp: safe_node_def clear_subsets_def present_def\<close>)
  ultimately show ?thesis by blast
qed

lemma node_unlinked:
  assumes "well_formed G h" "cur \<in> set (G k)" "h cur = Some c" "G (Loose r) = []"
  defines "h1 \<equiv> delisted cur c h"
  shows "quiet_step h h1 \<and> xmlUnlinkNode (Ptr cur) h = Some (tidy (detach k cur r G) h1) \<and>
    well_formed (detach k cur r G) (tidy (detach k cur r G) h1)"
proof -
  note w = well_formedD [OF assms(1)]
  have sc: "safe_node h c" by (rule safe_nodeD [OF w(5) assms(3)])
  have "(do { h1 \<leftarrow> (if ntype c = XML_DTD_NODE then upd_if (ndoc c) (clear_subsets cur) h else Some h);
      if ntype c = XML_ENTITY_DECL then xmlRemoveEntity cur h1 else Some h1 }) = Some h1 \<and> quiet_step h h1"
  proof -
    consider "ntype c = XML_DTD_NODE" | "ntype c = XML_ENTITY_DECL" | "ntype c \<noteq> XML_DTD_NODE" "ntype c \<noteq> XML_ENTITY_DECL" by blast
    then show ?thesis
    proof cases
      case 1
      then show ?thesis using clear_subsets_ok [OF w(5), of "ndoc c" cur] sc by (simp add: safe_node_def h1_def delisted_def)
    next
      case 2
      obtain h' where "xmlRemoveEntity cur h = Some h'" "quiet_step h h'" using xmlRemoveEntity_ok [OF w(5) assms(3)] by blast
      then show ?thesis using 2 xmlRemoveEntity_eq [OF w(5) assms(3) 2] by (simp add: h1_def)
    next
      case 3
      then show ?thesis using quiet_refl [OF w(5)] by (simp add: h1_def delisted_def)
    qed
  qed
  then have h1: "(do { h1 \<leftarrow> (if ntype c = XML_DTD_NODE then upd_if (ndoc c) (clear_subsets cur) h else Some h);
      if ntype c = XML_ENTITY_DECL then xmlRemoveEntity cur h1 else Some h1 }) = Some h1" and q: "quiet_step h h1" by simp_all
  have wf1: "well_formed G h1" by (rule well_formed_quiet [OF assms(1) q])
  note w1 = well_formedD [OF wf1]
  have "xmlUnlinkNodeInternal cur h1 = Some (tidy (detach k cur r G) h1)"
    by (rule unlink_ok [OF w1(1) assms(2,4) typed_sound [OF w1(4,6)]])
  moreover have "ntype c \<noteq> XML_NAMESPACE_DECL" using sc by (simp add: safe_node_def)
  ultimately have "xmlUnlinkNode (Ptr cur) h = Some (tidy (detach k cur r G) h1)"
    using assms(3) h1 by (cases "ntype c = XML_DTD_NODE") (auto simp: xmlUnlinkNode_def Option.bind_eq_Some_conv)
  then show ?thesis using q well_formed_detach [OF wf1 assms(2,4)] by simp
qed

text \<open>What is left of a DTD or an entity in the tables.\<close>

lemma delisted_other: "ntype n \<notin> {XML_DTD_NODE, XML_ENTITY_DECL} \<Longrightarrow> delisted a n h = h"
  by (simp add: delisted_def)

lemma delisted_dtd:
  "ntype n = XML_DTD_NODE \<Longrightarrow> ndoc n = Ptr d \<Longrightarrow> h d = Some doc \<Longrightarrow>
    delisted a n h = h(d \<mapsto> doc\<lparr>intSubset := (if intSubset doc = Ptr a then NULL else intSubset doc),
      extSubset := (if extSubset doc = Ptr a then NULL else extSubset doc)\<rparr>)"
  by (auto simp: delisted_def adj_def clear_subsets_def fun_eq_iff)

lemma delisted_general:
  assumes "ntype n = XML_ENTITY_DECL" "is_general (etype n)" "s \<in> subsets (ndoc n) h" "h s = Some m"
  shows "\<exists>t. delisted a n h s = Some (m\<lparr>entities := t\<rparr>) \<and>
    (\<forall>p v. table_lookup t (Ptr (p, v)) =
      (if (\<exists>q w. name n = Ptr (q, w) \<and> strval w = strval v) \<and> table_lookup (entities m) (Ptr (p, v)) = Ptr a
       then NULL else table_lookup (entities m) (Ptr (p, v))))"
proof -
  have "delisted a n h s = Some (unregister a n m)" using assms by (simp add: delisted_def)
  moreover have "unregister a n m = m\<lparr>entities := entities (unregister a n m)\<rparr>" by (simp add: unregister_def)
  moreover have "table_lookup (entities (unregister a n m)) (Ptr (p, v)) =
      (if (\<exists>q w. name n = Ptr (q, w) \<and> strval w = strval v) \<and> table_lookup (entities m) (Ptr (p, v)) = Ptr a
       then NULL else table_lookup (entities m) (Ptr (p, v)))" for p v
    using assms(2) by (auto simp: unregister_def table_lookup_def table_remove_def split: ptr.splits option.splits prod.splits)
  ultimately show ?thesis by metis
qed

lemma delisted_rest:
  assumes "ntype n = XML_ENTITY_DECL"
  shows "x \<notin> subsets (ndoc n) h \<Longrightarrow> delisted a n h x = h x"
    and "map_option pentities (delisted a n h x) = map_option pentities (h x)"
  using assms by (auto simp: delisted_def unregister_def option.map_comp comp_def intro!: option.map_cong)

end
