(* ===== verification/TreeFree.thy ===== *)
theory TreeFree
  imports TreeInsert
begin

text \<open>
  Freeing: attributes with their identifiers, the loop of \<open>xmlFreeNodeList\<close>, and \<open>xmlFreeNode\<close> on a tree without parent.
\<close>

section \<open>Freed nodes\<close>

text \<open>The table of identifiers of a document names attributes that have this identifier.\<close>

definition ids_ok :: "nheap \<Rightarrow> bool" where
  "ids_ok h \<longleftrightarrow> (\<forall>d doc t v a. h d = Some doc \<longrightarrow> ids doc = Ptr t \<longrightarrow> t v = Some (Ptr a) \<longrightarrow>
     (\<exists>n. h a = Some n \<and> ntype n = XML_ATTRIBUTE_NODE \<and> attr_id n = Ptr v \<and> ndoc n = Ptr d))"

definition unlisted :: "addr \<Rightarrow> nheap \<Rightarrow> bool" where
  "unlisted a h \<longleftrightarrow> (\<forall>d doc t v. h d = Some doc \<longrightarrow> ids doc = Ptr t \<longrightarrow> t v \<noteq> Some (Ptr a))"

text \<open>Only identifiers are lost.\<close>

definition faded :: "xmlNode \<Rightarrow> xmlNode \<Rightarrow> bool" where
  "faded n m \<longleftrightarrow> m = n\<lparr>ids := ids m, attr_id := attr_id m\<rparr> \<and>
     (\<forall>t'. ids m = Ptr t' \<longrightarrow> (\<exists>t. ids n = Ptr t \<and> t' \<subseteq>\<^sub>m t))"

text \<open>The nodes of \<open>S\<close>, and only these, are freed.\<close>

definition frees :: "addr set \<Rightarrow> nheap \<Rightarrow> nheap \<Rightarrow> bool" where
  "frees S h h' \<longleftrightarrow> (\<forall>x \<in> S. h' x = None) \<and>
     (\<forall>x. x \<notin> S \<longrightarrow> (h x = None \<longleftrightarrow> h' x = None) \<and> (\<forall>n m. h x = Some n \<longrightarrow> h' x = Some m \<longrightarrow> faded n m))"

lemma faded_refl [simp]: "faded n n"
  by (simp add: faded_def)

lemma faded_sel:
  assumes "faded n m"
  shows "ntype m = ntype n" "name m = name n" "children m = children n" "lastChild m = lastChild n" "parent m = parent n"
    "nextSib m = nextSib n" "prevSib m = prevSib n" "ndoc m = ndoc n" "content m = content n" "properties m = properties n"
    "intSubset m = intSubset n" "extSubset m = extSubset n" "entities m = entities n"
proof -
  obtain i j where "m = n\<lparr>ids := i, attr_id := j\<rparr>" using assms unfolding faded_def by blast
  then show "ntype m = ntype n" "name m = name n" "children m = children n" "lastChild m = lastChild n" "parent m = parent n"
    "nextSib m = nextSib n" "prevSib m = prevSib n" "ndoc m = ndoc n" "content m = content n" "properties m = properties n"
    "intSubset m = intSubset n" "extSubset m = extSubset n" "entities m = entities n" by simp_all
qed

lemma faded_ids: "faded n m \<Longrightarrow> ids m = Ptr t' \<Longrightarrow> t' v = Some p \<Longrightarrow> \<exists>t. ids n = Ptr t \<and> t v = Some p"
  unfolding faded_def map_le_def by (metis domI)

lemma faded_trans: "faded n m \<Longrightarrow> faded m l \<Longrightarrow> faded n l"
proof -
  assume a: "faded n m" and b: "faded m l"
  have "l = m\<lparr>ids := ids l, attr_id := attr_id l\<rparr>" "m = n\<lparr>ids := ids m, attr_id := attr_id m\<rparr>"
    using a b unfolding faded_def by blast+
  then have "l = (n\<lparr>ids := ids m, attr_id := attr_id m\<rparr>)\<lparr>ids := ids l, attr_id := attr_id l\<rparr>" by metis
  then have "l = n\<lparr>ids := ids l, attr_id := attr_id l\<rparr>" by simp
  then show ?thesis using a b unfolding faded_def by (metis map_le_trans)
qed

lemma faded_relink: "faded n m \<Longrightarrow> relink G x n = n \<Longrightarrow> relink G x m = m"
proof -
  assume a: "faded n m" and r: "relink G x n = n"
  have c: "relink G x (n\<lparr>ids := i, attr_id := j\<rparr>) = (relink G x n)\<lparr>ids := i, attr_id := j\<rparr>" for i j
    by (simp add: relink_def)
  have "m = n\<lparr>ids := ids m, attr_id := attr_id m\<rparr>" using a unfolding faded_def by blast
  then show ?thesis using c [where i = "ids m" and j = "attr_id m"] r by metis
qed

lemma frees_refl [simp]: "frees {} h h"
  by (auto simp: frees_def)

lemma frees_node: "frees S h h' \<Longrightarrow> x \<notin> S \<Longrightarrow> h x = Some n \<Longrightarrow> \<exists>m. h' x = Some m \<and> faded n m"
  unfolding frees_def by (metis not_None_eq)

lemma frees_back: "frees S h h' \<Longrightarrow> h' x = Some m \<Longrightarrow> \<exists>n. h x = Some n \<and> faded n m \<and> x \<notin> S"
  unfolding frees_def by (metis not_None_eq)

lemma frees_None: "frees S h h' \<Longrightarrow> h x = None \<Longrightarrow> h' x = None"
  unfolding frees_def by metis

lemma frees_in: "frees S h h' \<Longrightarrow> x \<in> S \<Longrightarrow> h' x = None"
  unfolding frees_def by metis

lemma frees_trans:
  assumes "frees S h h1" "frees S' h1 h2"
  shows "frees (S \<union> S') h h2"
  unfolding frees_def
proof (intro conjI ballI allI impI)
  fix x assume "x \<in> S \<union> S'"
  then show "h2 x = None" using frees_in [OF assms(1)] frees_in [OF assms(2)] frees_None [OF assms(2)] by blast
next
  fix x assume x: "x \<notin> S \<union> S'"
  then show "h x = None \<longleftrightarrow> h2 x = None" using assms unfolding frees_def by (metis UnCI)
  fix n l assume n: "h x = Some n" and l: "h2 x = Some l"
  obtain m where m: "h1 x = Some m" "faded n m" using frees_node [OF assms(1) _ n] x by auto
  have "faded m l" using frees_node [OF assms(2) _ m(1)] x l by auto
  then show "faded n l" using m(2) faded_trans by blast
qed

text \<open>A node that is freed later may be changed before.\<close>

lemma frees_adj:
  assumes "frees S h h1" "frees S' (adj (Ptr a) f h1) h2" "a \<in> S'"
  shows "frees (S \<union> S') h h2"
proof -
  have "frees S' h1 h2"
    unfolding frees_def
  proof (intro conjI ballI allI impI)
    fix x assume "x \<notin> S'"
    then have "x \<noteq> a" using assms(3) by blast
    then have e: "adj (Ptr a) f h1 x = h1 x" by (simp add: adj_def)
    then show "h1 x = None \<longleftrightarrow> h2 x = None" using assms(2) \<open>x \<notin> S'\<close> unfolding frees_def by metis
    fix n m assume "h1 x = Some n" "h2 x = Some m"
    then show "faded n m" using assms(2) e \<open>x \<notin> S'\<close> unfolding frees_def by metis
  qed (rule frees_in [OF assms(2)])
  then show ?thesis by (rule frees_trans [OF assms(1)])
qed

lemma unlisted_frees: "unlisted a h \<Longrightarrow> frees S h h' \<Longrightarrow> unlisted a h'"
  unfolding unlisted_def by (metis frees_back faded_ids)

lemma ids_ok_other: "ids_ok h \<Longrightarrow> h a = Some n \<Longrightarrow> ntype n \<noteq> XML_ATTRIBUTE_NODE \<or> attr_id n = NULL \<or> ndoc n = NULL \<Longrightarrow> unlisted a h"
  unfolding ids_ok_def unlisted_def by (metis option.inject ptr.distinct(1))

lemma release_ok: "h a = Some n \<Longrightarrow> ids_ok h \<Longrightarrow> unlisted a h \<Longrightarrow> release a h = Some (h(a := None)) \<and> frees {a} h (h(a := None)) \<and> ids_ok (h(a := None))"
  by (auto simp: release_def frees_def ids_ok_def unlisted_def)

lemma ids_ok_adj:
  assumes "ids_ok h" "\<And>n. ids (f n) = ids n \<and> ntype (f n) = ntype n \<and> attr_id (f n) = attr_id n \<and> ndoc (f n) = ndoc n"
  shows "ids_ok (adj p f h)"
proof -
  have 1: "\<exists>m. h x = Some m \<and> ids n = ids m" if "adj p f h x = Some n" for x n
    using that assms(2) by (auto simp: adj_def split: if_splits)
  have 2: "\<exists>m. adj p f h x = Some m \<and> ntype m = ntype n \<and> attr_id m = attr_id n \<and> ndoc m = ndoc n" if "h x = Some n" for x n
    using that assms(2) by (simp add: adj_def)
  show ?thesis
    unfolding ids_ok_def
  proof (intro allI impI)
    fix d doc t v a assume d: "adj p f h d = Some doc" "ids doc = Ptr t" "t v = Some (Ptr a)"
    obtain m where m: "h d = Some m" "ids m = Ptr t" using 1 [OF d(1)] d(2) by auto
    obtain n where "h a = Some n" "ntype n = XML_ATTRIBUTE_NODE" "attr_id n = Ptr v" "ndoc n = Ptr d"
      using assms(1) m d(3) unfolding ids_ok_def by blast
    then show "\<exists>n. adj p f h a = Some n \<and> ntype n = XML_ATTRIBUTE_NODE \<and> attr_id n = Ptr v \<and> ndoc n = Ptr d" using 2 by metis
  qed
qed

text \<open>The identifier of an attribute that is freed.\<close>

lemma drop_id:
  assumes "ids_ok h" "h a = Some n" "present (ndoc n) h"
  shows "\<exists>h1. (if ndoc n \<noteq> NULL \<and> attr_id n \<noteq> NULL then map_option snd (xmlRemoveID (ndoc n) a h) else Some h) = Some h1 \<and>
    frees {} h h1 \<and> ids_ok h1 \<and> unlisted a h1"
proof (cases "ndoc n \<noteq> NULL \<and> attr_id n \<noteq> NULL")
  case False
  then show ?thesis using assms(1) ids_ok_other [OF assms(1,2)] by auto
next
  case True
  then obtain d v where dv: "ndoc n = Ptr d" "attr_id n = Ptr v" by (cases "ndoc n"; cases "attr_id n") auto
  then obtain doc where doc: "h d = Some doc" using assms(3) by (auto simp: present_def)
  have only: "w = v \<and> x = d" if "h x = Some m" "ids m = Ptr t" "t w = Some (Ptr a)" for x m t w
    using assms(1,2) dv that unfolding ids_ok_def by fastforce
  show ?thesis
  proof (cases "\<exists>t p. ids doc = Ptr t \<and> t v = Some p")
    case no: False
    then have "unlisted a h" using only doc unfolding unlisted_def by (metis option.inject)
    moreover have "map_option snd (xmlRemoveID (ndoc n) a h) = Some h"
      using dv doc assms(2) no by (auto simp: xmlRemoveID_def split: ptr.split option.split)
    ultimately show ?thesis using True assms(1) by auto
  next
    case yes: True
    then obtain t p where t: "ids doc = Ptr t" "t v = Some p" by blast
    have pp: "present p h"
    proof (cases p)
      case (Ptr b)
      then obtain l where "h b = Some l" using assms(1) doc t unfolding ids_ok_def by blast
      then show ?thesis using Ptr by (simp add: present_def)
    qed (simp add: present_def)
    let ?h1 = "adj (Ptr d) (\<lambda>m. m\<lparr>ids := Ptr (t(v := None))\<rparr>) h"
    let ?h2 = "adj p (\<lambda>m. m\<lparr>attr_id := NULL\<rparr>) ?h1"
    have "upd_if p (\<lambda>m. m\<lparr>attr_id := NULL\<rparr>) ?h1 = Some ?h2" using pp by (intro upd_if_adj) (auto simp: present_def)
    then have op: "map_option snd (xmlRemoveID (ndoc n) a h) = Some ?h2"
      using dv assms(2) doc t by (simp add: xmlRemoveID_def upd_adj)
    have tab: "\<exists>m. h x = Some m \<and> (\<exists>t0. ids m = Ptr t0 \<and> t0 w = Some q) \<and> (x = d \<longrightarrow> w \<noteq> v)"
      if "?h2 x = Some m'" "ids m' = Ptr t'" "t' w = Some q" for x m' t' w q
      using that doc t by (auto simp: adj_def split: if_splits)
    have kp: "\<exists>m'. ?h2 x = Some m' \<and> ntype m' = ntype m \<and> ndoc m' = ndoc m \<and> attr_id m' = (if p = Ptr x then NULL else attr_id m)"
      if "h x = Some m" for x m
      using that by (auto simp: adj_def)
    have "frees {} h ?h2"
      using doc t(1) unfolding frees_def faded_def by (auto simp: adj_def map_le_def)
    moreover have "ids_ok ?h2"
      unfolding ids_ok_def
    proof (intro allI impI)
      fix x m' t' w b assume e: "?h2 x = Some m'" "ids m' = Ptr t'" "t' w = Some (Ptr b)"
      obtain m t0 where m: "h x = Some m" "ids m = Ptr t0" "t0 w = Some (Ptr b)" "x = d \<longrightarrow> w \<noteq> v" using tab [OF e] by blast
      obtain l where l: "h b = Some l" "ntype l = XML_ATTRIBUTE_NODE" "attr_id l = Ptr w" "ndoc l = Ptr x"
        using assms(1) m(1-3) unfolding ids_ok_def by blast
      have "p \<noteq> Ptr b"
      proof
        assume "p = Ptr b"
        then obtain l' where "h b = Some l'" "attr_id l' = Ptr v" "ndoc l' = Ptr d" using assms(1) doc t unfolding ids_ok_def by blast
        then show False using l m(4) by auto
      qed
      then show "\<exists>n. ?h2 b = Some n \<and> ntype n = XML_ATTRIBUTE_NODE \<and> attr_id n = Ptr w \<and> ndoc n = Ptr x" using kp [OF l(1)] l by auto
    qed
    moreover have "unlisted a ?h2"
      unfolding unlisted_def
    proof (intro allI impI notI)
      fix x m' t' w assume e: "?h2 x = Some m'" "ids m' = Ptr t'" "t' w = Some (Ptr a)"
      then show False using tab [OF e] only by blast
    qed
    ultimately show ?thesis using op True by auto
  qed
qed

section \<open>The loop of \<open>xmlFreeNodeList\<close>\<close>

text \<open>A node that has not been visited.\<close>

definition fresh_node :: "forest \<Rightarrow> addr ptr \<Rightarrow> addr \<Rightarrow> xmlNode \<Rightarrow> bool" where
  "fresh_node G doc x n \<longleftrightarrow> relink G x n = n \<and> ndoc n = doc \<and> \<not> is_document (ntype n) \<and> ntype n \<noteq> XML_DTD_NODE \<and>
     (ntype n = XML_ENTITY_REF_NODE \<longrightarrow> G (Kids x) = []) \<and> (\<not> has_props (ntype n) \<longrightarrow> G (Props x) = []) \<and>
     (\<forall>y. x \<in> set (G (Props y)) \<longrightarrow> ntype n = XML_ATTRIBUTE_NODE) \<and> (\<forall>y. x \<in> set (G (Kids y)) \<longrightarrow> ntype n \<noteq> XML_ATTRIBUTE_NODE)"

definition fit :: "forest \<Rightarrow> addr ptr \<Rightarrow> addr set \<Rightarrow> nheap \<Rightarrow> bool" where
  "fit G doc S h \<longleftrightarrow> ids_ok h \<and> present doc h \<and> (\<forall>d. doc = Ptr d \<longrightarrow> d \<notin> S) \<and> (\<forall>x \<in> S. \<exists>n. h x = Some n \<and> fresh_node G doc x n)"

lemma fit_node:
  assumes "fit G doc S h" "x \<in> S"
  obtains n where "h x = Some n" "fresh_node G doc x n"
  using assms unfolding fit_def by blast

lemma fresh_faded: "faded n m \<Longrightarrow> fresh_node G doc x n \<Longrightarrow> fresh_node G doc x m"
  using faded_relink [of n m G x] by (simp add: fresh_node_def faded_sel(1,8) [of n m])

lemma fit_frees:
  assumes "fit G doc S h" "frees S1 h h1" "ids_ok h1" "S1 \<subseteq> S" "S' \<subseteq> S" "S' \<inter> S1 = {}"
  shows "fit G doc S' h1"
  unfolding fit_def
proof (intro conjI ballI allI impI)
  show "present doc h1"
  proof (cases doc)
    case (Ptr d)
    then have "d \<notin> S1" "h d \<noteq> None" using assms(1,4) by (auto simp: fit_def present_def)
    then show ?thesis using assms(2) Ptr by (auto simp: present_def frees_def)
  qed (simp add: present_def)
  show "d \<notin> S'" if "doc = Ptr d" for d using assms(1,5) that by (auto simp: fit_def)
  fix x assume x: "x \<in> S'"
  then obtain n where n: "h x = Some n" "fresh_node G doc x n" using fit_node [OF assms(1)] assms(5) by blast
  then show "\<exists>n. h1 x = Some n \<and> fresh_node G doc x n" using frees_node [OF assms(2) _ n(1)] x assms(6) fresh_faded by blast
qed (rule assms(3))

lemma fit_subset: "fit G doc S h \<Longrightarrow> S' \<subseteq> S \<Longrightarrow> fit G doc S' h"
  unfolding fit_def by blast

lemma fresh_links:
  assumes "disjoint_groups G" "fresh_node G doc x n"
  shows "G k = us @ x # vs \<Longrightarrow> parent n = owner k \<and> nextSib n = headp vs"
    and "ntype n \<noteq> XML_ENTITY_REF_NODE \<Longrightarrow> children n = headp (G (Kids x))"
    and "has_props (ntype n) \<Longrightarrow> properties n = headp (G (Props x))"
proof -
  have r: "relink G x n = n" using assms(2) by (simp add: fresh_node_def)
  have f: "f n = f (relink G x n)" for f :: "xmlNode \<Rightarrow> 'b" using r by simp
  show "children n = headp (G (Kids x))" if "ntype n \<noteq> XML_ENTITY_REF_NODE" using f [of children] that by (simp add: relink_def)
  show "properties n = headp (G (Props x))" if "has_props (ntype n)" using f [of properties] that by (simp add: relink_def)
  show "parent n = owner k \<and> nextSib n = headp vs" if k: "G k = us @ x # vs"
  proof -
    have "home G x = k" by (rule home_eq [OF assms(1)]) (simp add: k)
    moreover have "distinct (G k)" using assms(1) by (simp add: disjoint_groups_def)
    ultimately show ?thesis using f [of parent] f [of nextSib] k by (simp add: relink_def nxt_split)
  qed
qed

text \<open>What the loop does when \<open>n\<close> has been freed.\<close>

definition go_on :: "xmlNode \<Rightarrow> nat \<Rightarrow> nheap \<Rightarrow> nheap option" where
  "go_on n depth h =
     (case nextSib n of
        Ptr c \<Rightarrow> free_garbage (Nodes c depth) h
      | NULL \<Rightarrow>
          if depth = 0 then Some h
          else (case parent n of
                  NULL \<Rightarrow> Some h
                | Ptr p \<Rightarrow> Option.bind (upd p (\<lambda>m. m\<lparr>children := NULL\<rparr>) h) (free_garbage (Nodes p (depth - 1)))))"

definition node_freed :: "forest \<Rightarrow> addr ptr \<Rightarrow> addr \<Rightarrow> bool" where
  "node_freed G doc a \<longleftrightarrow> (\<forall>h n depth. fit G doc (subtree G a) h \<longrightarrow> h a = Some n \<longrightarrow> ntype n \<noteq> XML_ATTRIBUTE_NODE \<longrightarrow>
     (\<exists>h'. free_garbage (Nodes a depth) h = go_on n depth h' \<and> frees (subtree G a) h h' \<and> ids_ok h'))"

lemma list_freed:
  assumes "disjoint_groups G" "wf (below G)" "\<And>c. c \<in> set (G (Kids p)) \<Longrightarrow> node_freed G doc c"
  shows "G (Kids p) = us @ c # cs \<Longrightarrow> fit G doc (\<Union>x \<in> set (c # cs). subtree G x) h \<Longrightarrow>
    \<exists>h'. frees (\<Union>x \<in> set (c # cs). subtree G x) h h' \<and> ids_ok h' \<and> free_garbage (Nodes c depth) h =
      (if depth = 0 then Some h' else Option.bind (upd p (\<lambda>m. m\<lparr>children := NULL\<rparr>) h') (free_garbage (Nodes p (depth - 1))))"
proof (induction cs arbitrary: us c h)
  case Nil
  have fc: "fit G doc (subtree G c) h" using Nil.prems(2) by simp
  then obtain n where n: "h c = Some n" "fresh_node G doc c n" using fit_node subtree_self by metis
  have t: "ntype n \<noteq> XML_ATTRIBUTE_NODE" using n(2) Nil.prems(1) unfolding fresh_node_def by (metis in_set_conv_decomp)
  have l: "parent n = Ptr p" "nextSib n = NULL" using fresh_links(1) [OF assms(1) n(2) Nil.prems(1)] by simp_all
  obtain h' where h': "free_garbage (Nodes c depth) h = go_on n depth h'" "frees (subtree G c) h h'" "ids_ok h'"
    using assms(3) [of c] Nil.prems(1) fc n(1) t unfolding node_freed_def by force
  show ?case by (rule exI [of _ h']) (use h' l in \<open>simp add: go_on_def\<close>)
next
  case (Cons d cs)
  let ?S = "\<Union>x \<in> set (d # cs). subtree G x"
  have fc: "fit G doc (subtree G c) h" by (rule fit_subset [OF Cons.prems(2)]) auto
  then obtain n where n: "h c = Some n" "fresh_node G doc c n" using fit_node subtree_self by metis
  have t: "ntype n \<noteq> XML_ATTRIBUTE_NODE" using n(2) Cons.prems(1) unfolding fresh_node_def by (metis in_set_conv_decomp)
  have l: "nextSib n = Ptr d" using fresh_links(1) [OF assms(1) n(2) Cons.prems(1)] by simp
  obtain h1 where h1: "free_garbage (Nodes c depth) h = go_on n depth h1" "frees (subtree G c) h h1" "ids_ok h1"
    using assms(3) [of c] Cons.prems(1) fc n(1) t unfolding node_freed_def by force
  have b: "(x, p) \<in> below G" if "x \<in> set (G (Kids p))" for x using that by (simp add: below_def)
  have "distinct (G (Kids p))" using assms(1) by (simp add: disjoint_groups_def)
  then have o: "c \<notin> set (d # cs)" unfolding Cons.prems(1) by auto
  have "subtree G x \<inter> subtree G c = {}" if x: "x \<in> set (d # cs)" for x
  proof (rule siblings_apart [OF assms(1,2) b b])
    show "x \<in> set (G (Kids p))" "c \<in> set (G (Kids p))" using x unfolding Cons.prems(1) by auto
    show "x \<noteq> c" using x o by blast
  qed
  then have ap: "?S \<inter> subtree G c = {}" by blast
  have "fit G doc ?S h1" by (rule fit_frees [OF Cons.prems(2) h1(2,3) _ _ ap]) auto
  then obtain h' where h': "frees ?S h1 h'" "ids_ok h'" "free_garbage (Nodes d depth) h1 =
      (if depth = 0 then Some h' else Option.bind (upd p (\<lambda>m. m\<lparr>children := NULL\<rparr>) h') (free_garbage (Nodes p (depth - 1))))"
    using Cons.IH [of "us @ [c]" d h1] Cons.prems(1) by auto
  have "frees (\<Union>x \<in> set (c # d # cs). subtree G x) h h'" using frees_trans [OF h1(2) h'(1)] by simp
  moreover have "free_garbage (Nodes c depth) h =
      (if depth = 0 then Some h' else Option.bind (upd p (\<lambda>m. m\<lparr>children := NULL\<rparr>) h') (free_garbage (Nodes p (depth - 1))))"
    unfolding h1(1) h'(3) [symmetric] by (simp add: go_on_def l)
  ultimately show ?case using h'(2) by blast
qed

text \<open>All children of a node at once.\<close>

lemma kids_freed:
  assumes "disjoint_groups G" "wf (below G)" "\<And>c. c \<in> set (G (Kids p)) \<Longrightarrow> node_freed G doc c"
    and "fit G doc (\<Union>x \<in> set (G (Kids p)). subtree G x) h"
  shows "\<exists>h'. frees (\<Union>x \<in> set (G (Kids p)). subtree G x) h h' \<and> ids_ok h' \<and>
    (case headp (G (Kids p)) of NULL \<Rightarrow> Some h | Ptr c \<Rightarrow> free_garbage (Nodes c 0) h) = Some h'"
proof (cases "G (Kids p)")
  case Nil
  then show ?thesis using assms(4) by (simp add: fit_def)
next
  case (Cons c cs)
  have "\<exists>h'. frees (\<Union>x \<in> set (c # cs). subtree G x) h h' \<and> ids_ok h' \<and> free_garbage (Nodes c 0) h =
      (if 0 = (0 :: nat) then Some h' else Option.bind (upd p (\<lambda>m. m\<lparr>children := NULL\<rparr>) h') (free_garbage (Nodes p (0 - 1))))"
    by (rule list_freed [where us = "[]", OF assms(1-3)]) (use Cons assms(4) in simp_all)
  then show ?thesis unfolding Cons by simp
qed

lemma prop_freed:
  assumes "disjoint_groups G" "wf (below G)" "\<And>d. d \<in> set (G (Kids c)) \<Longrightarrow> node_freed G doc d" "G (Props c) = []"
    and "fit G doc (subtree G c) h" "h c = Some n" "ntype n = XML_ATTRIBUTE_NODE"
  shows "\<exists>h'. free_garbage (Prop c) h = Some h' \<and> frees (subtree G c) h h' \<and> ids_ok h'"
proof -
  let ?K = "\<Union>x \<in> set (G (Kids c)). subtree G x"
  have sc: "subtree G c = insert c ?K" using subtree_unfold [of G c] assms(4) by simp
  obtain n' where "h c = Some n'" "fresh_node G doc c n'" using fit_node [OF assms(5) subtree_self] by blast
  then have fr: "fresh_node G doc c n" using assms(6) by simp
  have ch: "children n = headp (G (Kids c))" using fresh_links(2) [OF assms(1) fr] assms(7) by simp
  have ck: "c \<notin> ?K" using not_below_self [OF assms(2)] by (auto simp: below_def)
  have pr: "present (ndoc n) h" "ids_ok h" using fr assms(5) by (auto simp: fit_def fresh_node_def)
  obtain h1 where h1: "(if ndoc n \<noteq> NULL \<and> attr_id n \<noteq> NULL then map_option snd (xmlRemoveID (ndoc n) c h) else Some h) = Some h1"
    "frees {} h h1" "ids_ok h1" "unlisted c h1" using drop_id [OF pr(2) assms(6) pr(1)] by blast
  have "fit G doc ?K h1" by (rule fit_frees [OF assms(5) h1(2,3)]) (auto simp: sc)
  from kids_freed [OF assms(1-3) this] obtain h2 where h2: "frees ?K h1 h2" "ids_ok h2"
    "(case children n of NULL \<Rightarrow> Some h1 | Ptr c \<Rightarrow> free_garbage (Nodes c 0) h1) = Some h2" unfolding ch by blast
  have fk: "frees ?K h h2" using frees_trans [OF h1(2) h2(1)] by simp
  obtain n2 where n2: "h2 c = Some n2" using frees_node [OF fk ck assms(6)] by blast
  have u: "unlisted c h2" by (rule unlisted_frees [OF h1(4) h2(1)])
  note r = release_ok [OF n2 h2(2) u]
  have "free_garbage (Prop c) h = Some (h2(c := None))"
    using r by (subst free_garbage.simps) (simp add: assms(6) h1(1) h2(3))
  moreover have "frees (subtree G c) h (h2(c := None))" using frees_trans [OF fk conjunct1 [OF conjunct2 [OF r]]] unfolding sc by simp
  ultimately show ?thesis using r by blast
qed

lemma props_freed:
  assumes "disjoint_groups G" "wf (below G)" "\<And>c d. c \<in> set (G (Props a)) \<Longrightarrow> d \<in> set (G (Kids c)) \<Longrightarrow> node_freed G doc d"
  shows "G (Props a) = us @ cs \<Longrightarrow> fit G doc (\<Union>x \<in> set cs. subtree G x) h \<Longrightarrow>
    \<exists>h'. free_garbage (PropList (headp cs)) h = Some h' \<and> frees (\<Union>x \<in> set cs. subtree G x) h h' \<and> ids_ok h'"
proof (induction cs arbitrary: us h)
  case Nil
  then show ?case by (subst free_garbage.simps) (simp add: fit_def)
next
  case (Cons c cs)
  let ?S = "\<Union>x \<in> set cs. subtree G x"
  have ca: "c \<in> set (G (Props a))" using Cons.prems(1) by simp
  have fc: "fit G doc (subtree G c) h" by (rule fit_subset [OF Cons.prems(2)]) auto
  then obtain n where n: "h c = Some n" "fresh_node G doc c n" using fit_node subtree_self by metis
  have t: "ntype n = XML_ATTRIBUTE_NODE" using n(2) ca unfolding fresh_node_def by blast
  then have np: "G (Props c) = []" using n(2) by (simp add: fresh_node_def has_props_def)
  have l: "nextSib n = headp cs" using fresh_links(1) [OF assms(1) n(2) Cons.prems(1)] by simp
  obtain h1 where h1: "free_garbage (Prop c) h = Some h1" "frees (subtree G c) h h1" "ids_ok h1"
    using prop_freed [OF assms(1,2) assms(3) [OF ca] np fc n(1) t] by blast
  have b: "(x, a) \<in> below G" if "x \<in> set (G (Props a))" for x using that by (simp add: below_def)
  have "distinct (G (Props a))" using assms(1) by (simp add: disjoint_groups_def)
  then have o: "c \<notin> set (cs)" unfolding Cons.prems(1) by auto
  have "subtree G x \<inter> subtree G c = {}" if x: "x \<in> set (cs)" for x
  proof (rule siblings_apart [OF assms(1,2) b b])
    show "x \<in> set (G (Props a))" "c \<in> set (G (Props a))" using x unfolding Cons.prems(1) by auto
    show "x \<noteq> c" using x o by blast
  qed
  then have ap: "?S \<inter> subtree G c = {}" by blast
  have "fit G doc ?S h1" by (rule fit_frees [OF Cons.prems(2) h1(2,3) _ _ ap]) auto
  then obtain h' where h': "free_garbage (PropList (headp cs)) h1 = Some h'" "frees ?S h1 h'" "ids_ok h'"
    using Cons.IH [of "us @ [c]" h1] Cons.prems(1) by auto
  have "free_garbage (PropList (headp (c # cs))) h = Some h'"
    by (subst free_garbage.simps) (simp add: n(1) h1(1) l h'(1))
  then show ?case using frees_trans [OF h1(2) h'(2)] h'(3) by auto
qed

text \<open>A node without children, or whose children have been freed.\<close>

lemma leaf_freed:
  assumes "disjoint_groups G" "wf (below G)" "\<And>c d. c \<in> set (G (Props a)) \<Longrightarrow> d \<in> set (G (Kids c)) \<Longrightarrow> node_freed G doc d"
    and "h a = Some n" "ids_ok h" "fit G doc (\<Union>x \<in> set (G (Props a)). subtree G x) h"
    and "ntype n = XML_ENTITY_REF_NODE \<or> children n = NULL" "\<not> is_document (ntype n)" "ntype n \<noteq> XML_DTD_NODE" "ntype n \<noteq> XML_ATTRIBUTE_NODE"
    and "if has_props (ntype n) then properties n = headp (G (Props a)) else G (Props a) = []"
  shows "\<exists>h'. free_garbage (Nodes a depth) h = go_on n depth h' \<and> frees (insert a (\<Union>x \<in> set (G (Props a)). subtree G x)) h h' \<and> ids_ok h'"
proof -
  let ?P = "\<Union>x \<in> set (G (Props a)). subtree G x"
  have "\<exists>h1. (if has_props (ntype n) then free_garbage (PropList (properties n)) h else Some h) = Some h1 \<and> frees ?P h h1 \<and> ids_ok h1"
    using props_freed [where us = "[]" and cs = "G (Props a)", OF assms(1-3)] assms(5,6,11) by (cases "has_props (ntype n)") simp_all
  then obtain h1 where h1: "(if has_props (ntype n) then free_garbage (PropList (properties n)) h else Some h) = Some h1" "frees ?P h h1" "ids_ok h1"
    by blast
  have "a \<notin> ?P" using not_below_self [OF assms(2)] by (auto simp: below_def)
  then obtain n1 where n1: "h1 a = Some n1" "faded n n1" using frees_node [OF h1(2) _ assms(4)] by blast
  have "unlisted a h1" by (rule ids_ok_other [OF h1(3) n1(1)]) (use faded_sel(1) [OF n1(2)] assms(10) in simp)
  note r = release_ok [OF n1(1) h1(3) this]
  have e: "(if is_document (ntype n) \<or> ntype n \<in> {XML_DTD_NODE, XML_ENTITY_REF_NODE} then NULL else children n) = NULL"
    using assms(7) by auto
  have "free_garbage (Nodes a depth) h = go_on n depth (h1(a := None))"
    by (subst free_garbage.simps, simp only: garbage.case assms(4) bind.bind_lunit e ptr.case)
      (simp add: assms(8,9) h1(1) conjunct1 [OF r] go_on_def)
  moreover have "frees (insert a ?P) h (h1(a := None))" using frees_trans [OF h1(2) conjunct1 [OF conjunct2 [OF r]]] by simp
  ultimately show ?thesis using r by blast
qed

lemma go_on_cong: "nextSib m = nextSib n \<Longrightarrow> parent m = parent n \<Longrightarrow> go_on m = go_on n"
proof -
  assume a: "nextSib m = nextSib n" and b: "parent m = parent n"
  show ?thesis unfolding go_on_def a b ..
qed

lemma node_freed_all:
  assumes "disjoint_groups G" "wf (below G)"
  shows "node_freed G doc a"
  using wf_trancl [OF assms(2)]
proof (induction a rule: wf_induct_rule)
  case (less a)
  let ?K = "\<Union>x \<in> set (G (Kids a)). subtree G x" and ?P = "\<Union>x \<in> set (G (Props a)). subtree G x"
  have sa: "subtree G a = insert a (?K \<union> ?P)" using subtree_unfold [of G a] by auto
  have b: "x \<in> set (G (Kids a)) \<or> x \<in> set (G (Props a)) \<Longrightarrow> (x, a) \<in> below G" for x by (auto simp: below_def)
  have ik: "node_freed G doc c" if "c \<in> set (G (Kids a))" for c using less b that by blast
  have ip: "node_freed G doc d" if "c \<in> set (G (Props a))" "d \<in> set (G (Kids c))" for c d
  proof (rule less)
    have "(d, c) \<in> below G" using that by (simp add: below_def)
    then show "(d, a) \<in> (below G)\<^sup>+" using b that by (meson trancl.simps)
  qed
  have own: "a \<notin> ?K" "a \<notin> ?P" using not_below_self [OF assms(2)] b by auto
  have apart: "subtree G c \<inter> subtree G d = {}" if c: "c \<in> set (G (Kids a))" "d \<in> set (G (Props a))" for c d
  proof (rule siblings_apart [OF assms b b])
    show "c \<noteq> d" using assms(1) c unfolding disjoint_groups_def by (metis group.distinct(1))
  qed (use c in auto)
  show ?case
    unfolding node_freed_def
  proof (intro allI impI)
    fix h n depth assume f: "fit G doc (subtree G a) h" and n: "h a = Some n" and t: "ntype n \<noteq> XML_ATTRIBUTE_NODE"
    obtain n' where "h a = Some n'" "fresh_node G doc a n'" using fit_node [OF f subtree_self] by blast
    then have fr: "fresh_node G doc a n" using n by simp
    have ty: "\<not> is_document (ntype n)" "ntype n \<noteq> XML_DTD_NODE" using fr by (simp_all add: fresh_node_def)
    have pr: "if has_props (ntype n) then properties n = headp (G (Props a)) else G (Props a) = []"
      using fresh_links(3) [OF assms(1) fr] fr by (simp add: fresh_node_def)
    have id: "ids_ok h" using f by (simp add: fit_def)
    have fP: "fit G doc ?P h" by (rule fit_subset [OF f]) (use sa in auto)
    show "\<exists>h'. free_garbage (Nodes a depth) h = go_on n depth h' \<and> frees (subtree G a) h h' \<and> ids_ok h'"
    proof (cases "G (Kids a)")
      case Nil
      then have "ntype n = XML_ENTITY_REF_NODE \<or> children n = NULL" using fresh_links(2) [OF assms(1) fr] by auto
      from leaf_freed [where depth = depth, OF assms ip n id fP this ty t pr] show ?thesis using Nil sa by simp
    next
      case (Cons c cs)
      have ne: "ntype n \<noteq> XML_ENTITY_REF_NODE" using fr Cons by (auto simp: fresh_node_def)
      then have ch: "children n = Ptr c" using fresh_links(2) [OF assms(1) fr] Cons by simp
      have fK: "fit G doc ?K h" by (rule fit_subset [OF f]) (use sa in auto)
      have "\<exists>h'. frees (\<Union>x \<in> set (c # cs). subtree G x) h h' \<and> ids_ok h' \<and> free_garbage (Nodes c (Suc depth)) h =
          (if Suc depth = 0 then Some h' else Option.bind (upd a (\<lambda>m. m\<lparr>children := NULL\<rparr>) h') (free_garbage (Nodes a (Suc depth - 1))))"
        by (rule list_freed [where us = "[]", OF assms ik]) (use Cons fK in simp_all)
      then obtain h1 where h1: "frees ?K h h1" "ids_ok h1"
        "free_garbage (Nodes c (Suc depth)) h = Option.bind (upd a (\<lambda>m. m\<lparr>children := NULL\<rparr>) h1) (free_garbage (Nodes a depth))"
        unfolding Cons by auto
      obtain n1 where n1: "h1 a = Some n1" "faded n n1" using frees_node [OF h1(1) own(1) n] by blast
      note s = faded_sel [OF n1(2)]
      let ?h2 = "adj (Ptr a) (\<lambda>m. m\<lparr>children := NULL\<rparr>) h1"
      have h2: "?h2 a = Some (n1\<lparr>children := NULL\<rparr>)" using n1(1) by (simp add: adj_def)
      have id2: "ids_ok ?h2" by (rule ids_ok_adj [OF h1(2)]) simp
      have fP1: "fit G doc ?P h1"
        by (rule fit_frees [OF f h1(1,2)]) (use sa apart in auto)
      have fP2: "fit G doc ?P ?h2"
        unfolding fit_def
      proof (intro conjI ballI allI impI)
        show "present doc ?h2" using fP1 by (simp add: fit_def present_def split: ptr.splits)
        show "d \<notin> ?P" if "doc = Ptr d" for d using fP1 that by (simp add: fit_def)
        fix x assume x: "x \<in> ?P"
        then obtain m where "h1 x = Some m" "fresh_node G doc x m" using fit_node [OF fP1] by blast
        moreover have "x \<noteq> a" using x own(2) by blast
        ultimately show "\<exists>m. ?h2 x = Some m \<and> fresh_node G doc x m" by (simp add: adj_def)
      qed (rule id2)
      have "\<exists>h'. free_garbage (Nodes a depth) ?h2 = go_on (n1\<lparr>children := NULL\<rparr>) depth h' \<and> frees (insert a ?P) ?h2 h' \<and> ids_ok h'"
        by (rule leaf_freed [OF assms ip h2 id2 fP2]) (use s ty t pr in simp_all)
      then obtain h' where h': "free_garbage (Nodes a depth) ?h2 = go_on (n1\<lparr>children := NULL\<rparr>) depth h'" "frees (insert a ?P) ?h2 h'" "ids_ok h'"
        by blast
      have "free_garbage (Nodes a depth) h = free_garbage (Nodes c (Suc depth)) h"
        using ty ne by (subst free_garbage.simps) (simp add: n ch)
      also have "\<dots> = free_garbage (Nodes a depth) ?h2" unfolding h1(3) using n1(1) by (simp add: upd_adj)
      also have "\<dots> = go_on n depth h'" unfolding h'(1) by (subst go_on_cong [of "n1\<lparr>children := NULL\<rparr>" n]) (use s in simp_all)
      finally show ?thesis using frees_adj [OF h1(1) h'(2)] h'(3) unfolding sa by (auto simp: Un_assoc)
    qed
  qed
qed

section \<open>Freeing a tree\<close>

text \<open>A forest without the nodes of \<open>S\<close>.\<close>

definition prune :: "addr set \<Rightarrow> forest \<Rightarrow> forest" where
  "prune S G k = filter (\<lambda>x. x \<notin> S) (G k)"

text \<open>No pointer other than a link, and no document, leads into \<open>S\<close>.\<close>

definition unreferenced :: "addr set \<Rightarrow> nheap \<Rightarrow> bool" where
  "unreferenced S h \<longleftrightarrow> {xmlEntityLt, xmlEntityGt, xmlEntityAmp, xmlEntityApos, xmlEntityQuot} \<inter> S = {} \<and>
     (\<forall>x n. h x = Some n \<longrightarrow>
        (\<forall>a \<in> S. ndoc n \<noteq> Ptr a \<and> intSubset n \<noteq> Ptr a \<and> extSubset n \<noteq> Ptr a) \<and> (\<forall>t. entities n = Ptr t \<longrightarrow> ran t \<inter> S = {}))"

lemma relink_cong: "home G x = home G' x \<Longrightarrow> G (home G x) = G' (home G x) \<Longrightarrow> G (Kids x) = G' (Kids x) \<Longrightarrow> G (Props x) = G' (Props x) \<Longrightarrow>
  relink G x n = relink G' x n"
  by (simp add: relink_def)

lemma present_frees: "present p h \<Longrightarrow> frees S h h' \<Longrightarrow> (\<And>a. p = Ptr a \<Longrightarrow> a \<notin> S) \<Longrightarrow> present p h'"
  by (cases p) (auto simp: present_def frees_def)

lemma subtree_step: "x \<in> subtree G a \<Longrightarrow> x \<noteq> a \<Longrightarrow> \<exists>b. (x, b) \<in> below G \<and> b \<in> subtree G a"
  unfolding subtree_def by (auto elim: converse_rtranclE)

text \<open>A tree without parent is freed.\<close>

lemma well_formed_prune:
  assumes "well_formed G h" "G (Loose r) = [cur]" "frees (subtree G cur) h h'" "ids_ok h'" "unreferenced (subtree G cur) h"
  shows "well_formed (prune (subtree G cur) G) h'"
proof -
  note w = well_formedD [OF assms(1)]
  let ?S = "subtree G cur" and ?G = "prune (subtree G cur) G"
  have cl: "cur \<in> set (G (Loose r))" using assms(2) by simp
  have sets: "x \<in> set (?G k) \<longleftrightarrow> x \<in> set (G k) \<and> x \<notin> ?S" for x k by (auto simp: prune_def)
  have up: "a \<in> ?S" if "x \<in> ?S" "x \<in> set (G k)" "owner k = Ptr a" for x k a
  proof -
    have xa: "(x, a) \<in> below G" using that(2,3) unfolding below_group by blast
    have "x \<noteq> cur" using cl that(2,3) w(3) unfolding disjoint_groups_def by (metis owner.simps(3) ptr.distinct(1))
    from subtree_step [OF \<open>x \<in> ?S\<close> this] obtain b where "(x, b) \<in> below G" "b \<in> ?S" by blast
    then show ?thesis using below_single [OF w(3)] xa unfolding single_valued_def by blast
  qed
  have same: "?G k = G k" if k: "k \<noteq> Loose r" "\<And>a. owner k = Ptr a \<Longrightarrow> a \<notin> ?S" for k
  proof -
    have "x \<notin> ?S" if x: "x \<in> set (G k)" for x
    proof
      assume xS: "x \<in> ?S"
      show False
      proof (cases "owner k")
        case NULL
        have "x = cur"
        proof (rule ccontr)
          assume "x \<noteq> cur"
          from subtree_step [OF xS this] obtain b where "(x, b) \<in> below G" by blast
          then obtain j where "x \<in> set (G j)" "owner j = Ptr b" unfolding below_group by blast
          then show False using x NULL w(3) unfolding disjoint_groups_def by (metis ptr.distinct(1))
        qed
        then show False using x cl k(1) w(3) unfolding disjoint_groups_def by blast
      qed (use k(2) up [OF xS x] in blast)
    qed
    then show ?thesis by (simp add: prune_def)
  qed
  have dg: "disjoint_groups ?G" using w(3) unfolding disjoint_groups_def sets by (auto simp: prune_def)
  have ex: "h' x \<noteq> None \<longleftrightarrow> (\<exists>k. x \<in> set (?G k))" for x
    using assms(3) w(2) unfolding sets frees_def groups_ok_def by metis
  have nodes: "\<exists>n. h x = Some n \<and> faded n m \<and> x \<notin> ?S" if "h' x = Some m" for x m by (rule frees_back [OF assms(3) that])
  have own: "\<exists>m. h' a = Some m \<and> P (ntype m)" if "?G k \<noteq> []" "owner k = Ptr a" "\<exists>n. h a = Some n \<and> P (ntype n)" for k a P
  proof -
    obtain x where "x \<in> set (?G k)" using \<open>?G k \<noteq> []\<close> by (meson last_in_set)
    then have x: "x \<in> set (G k)" "x \<notin> ?S" using sets by auto
    then have "a \<notin> ?S" using subtree_parent [of a G cur x] \<open>owner k = Ptr a\<close> unfolding below_group by blast
    then show ?thesis using that(3) frees_node [OF assms(3)] faded_sel(1) by metis
  qed
  have "groups_ok ?G h'"
    unfolding groups_ok_def
  proof (intro conjI allI impI)
    fix a
    have ne: "?G k \<noteq> [] \<Longrightarrow> G k \<noteq> []" for k by (auto simp: prune_def)
    show "\<exists>n. h' a = Some n \<and> ntype n \<noteq> XML_ENTITY_REF_NODE" if "?G (Kids a) \<noteq> []"
      using own [OF that, of a "\<lambda>t. t \<noteq> XML_ENTITY_REF_NODE"] ne [OF that] w(2) unfolding groups_ok_def by simp
    show "\<exists>n. h' a = Some n \<and> has_props (ntype n)" if "?G (Props a) \<noteq> []"
      using own [OF that, of a has_props] ne [OF that] w(2) unfolding groups_ok_def by simp
  qed (use dg ex in auto)
  moreover have "tidy ?G h' x = h' x" for x
  proof (cases "h' x")
    case (Some m)
    then obtain n where n: "h x = Some n" "faded n m" "x \<notin> ?S" using nodes by blast
    have "tidy G h x = h x" using w(1) by (simp add: linked_def)
    then have r: "relink G x m = m" using n(1,2) faded_relink by (simp add: tidy_def)
    obtain k where k: "x \<in> set (G k)" using in_group [OF assms(1) n(1)] by blast
    have hm: "home G x = k" "home ?G x = k" by (rule home_eq [OF w(3) k]) (rule home_eq [OF dg], use sets k n(3) in simp)
    have "k \<noteq> Loose r" using k n(3) assms(2) by auto
    moreover have "a \<notin> ?S" if "owner k = Ptr a" for a
      using subtree_parent [of a G cur x] n(3) k that unfolding below_group by blast
    ultimately have "?G k = G k" by (rule same)
    moreover have "?G (Kids x) = G (Kids x)" "?G (Props x) = G (Props x)" using n(3) by (auto intro: same)
    ultimately have "relink ?G x m = m" using relink_cong [of ?G x G m] hm r by simp
    then show ?thesis using Some by (simp add: tidy_def)
  qed (simp add: tidy_def)
  ultimately have lk: "linked ?G h'" by (simp add: linked_def fun_eq_iff)
  have sf: "safe h'"
    unfolding safe_def
  proof (intro conjI allI impI ballI)
    fix x m assume m: "h' x = Some m"
    then obtain n where n: "h x = Some n" "faded n m" using nodes by blast
    note s = faded_sel [OF n(2)]
    have sn: "safe_node h n" by (rule safe_nodeD [OF w(5) n(1)])
    have un: "\<forall>a \<in> ?S. ndoc n \<noteq> Ptr a \<and> intSubset n \<noteq> Ptr a \<and> extSubset n \<noteq> Ptr a" "\<forall>t. entities n = Ptr t \<longrightarrow> ran t \<inter> ?S = {}"
      using assms(5) n(1) unfolding unreferenced_def by blast+
    have "present (ndoc n) h'" "present (intSubset n) h'" "present (extSubset n) h'"
      using present_frees [OF _ assms(3)] sn un(1) unfolding safe_node_def by blast+
    moreover have "present p h'" if "ids m = Ptr t" "p \<in> ran t" for t p
    proof (cases p)
      case (Ptr a)
      have "\<exists>v. t v = Some (Ptr a)" using that(2) Ptr by (auto simp: ran_def)
      then show ?thesis using assms(4) m that(1) Ptr unfolding ids_ok_def present_def by fastforce
    qed (simp add: present_def)
    moreover have "h' a \<noteq> None" if "entities n = Ptr t" "a \<in> ran t" for t a
    proof -
      have "h a \<noteq> None" using sn that by (auto simp: safe_node_def)
      moreover have "a \<notin> ?S" using un(2) that by blast
      ultimately show ?thesis using assms(3) unfolding frees_def by metis
    qed
    ultimately show "safe_node h' m" using sn unfolding safe_node_def s by (auto split: ptr.split)
  next
    fix a assume a: "a \<in> {xmlEntityLt, xmlEntityGt, xmlEntityAmp, xmlEntityApos, xmlEntityQuot}"
    then have "a \<notin> ?S" using assms(5) unfolding unreferenced_def by blast
    moreover have "h a \<noteq> None" using w(5) a unfolding safe_def by blast
    ultimately show "h' a \<noteq> None" using assms(3) unfolding frees_def by metis
  qed
  have "typed G h'"
  proof (rule typed_same [OF _ w(6)])
    fix x m assume "h' x = Some m"
    then show "\<exists>n. h x = Some n \<and> ntype m = ntype n \<and> ndoc m = ndoc n" using nodes faded_sel(1,8) by metis
  qed
  then have "typed ?G h'" unfolding typed_def sets by blast
  moreover have "wf (below ?G)" by (rule wf_subset [OF w(4)]) (auto simp: below_def sets)
  ultimately show ?thesis using lk sf by (simp add: well_formed_def)
qed

text \<open>What \<open>xmlFreeNode\<close> can free without its own functions for documents, DTDs and declarations.\<close>

definition plain_tree :: "addr set \<Rightarrow> nheap \<Rightarrow> bool" where
  "plain_tree S h \<longleftrightarrow> (\<forall>x \<in> S. \<forall>n. h x = Some n \<longrightarrow> \<not> is_document (ntype n) \<and> ntype n \<notin> {XML_DTD_NODE, XML_ENTITY_DECL})"

lemma well_formed_fit:
  assumes "well_formed G h" "ids_ok h" "h cur = Some c" "plain_tree (subtree G cur) h" "unreferenced (subtree G cur) h"
  shows "fit G (ndoc c) (subtree G cur) h"
  unfolding fit_def
proof (intro conjI ballI allI impI)
  note w = well_formedD [OF assms(1)]
  show "present (ndoc c) h" using safe_nodeD [OF w(5) assms(3)] by (simp add: safe_node_def)
  show "d \<notin> subtree G cur" if "ndoc c = Ptr d" for d using assms(3,5) that unfolding unreferenced_def by blast
  fix x assume x: "x \<in> subtree G cur"
  obtain n where n: "h x = Some n" "ndoc n = ndoc c" using subtree_present [OF assms(1,3) x] by blast
  have "tidy G h x = h x" using w(1) by (simp add: linked_def)
  then have "relink G x n = n" using n(1) by (simp add: tidy_def)
  moreover have "\<not> is_document (ntype n)" "ntype n \<noteq> XML_DTD_NODE" using assms(4) x n(1) by (auto simp: plain_tree_def)
  moreover have "ntype n = XML_ENTITY_REF_NODE \<longrightarrow> G (Kids x) = []" "\<not> has_props (ntype n) \<longrightarrow> G (Props x) = []"
    using w(2) n(1) unfolding groups_ok_def by fastforce+
  moreover have "x \<in> set (G (Props y)) \<Longrightarrow> ntype n = XML_ATTRIBUTE_NODE" "x \<in> set (G (Kids y)) \<Longrightarrow> ntype n \<noteq> XML_ATTRIBUTE_NODE" for y
    using typedD(1) [OF w(6) _ n(1)] by (fastforce simp: kind_ok_def)+
  ultimately show "\<exists>n. h x = Some n \<and> fresh_node G (ndoc c) x n" using n unfolding fresh_node_def by blast
qed (rule assms(2))

lemma xmlFreeNode_ok:
  assumes "well_formed G h" "ids_ok h" "G (Loose r) = [cur]" "plain_tree (subtree G cur) h" "unreferenced (subtree G cur) h"
  shows "\<exists>h'. xmlFreeNode cur h = Some h' \<and> frees (subtree G cur) h h' \<and> ids_ok h' \<and> well_formed (prune (subtree G cur) G) h'"
proof -
  note w = well_formedD [OF assms(1)]
  have "cur \<in> set (G (Loose r))" using assms(3) by simp
  then obtain c where c: "h cur = Some c" using group_node [OF assms(1)] by blast
  have f: "fit G (ndoc c) (subtree G cur) h" by (rule well_formed_fit [OF assms(1,2) c assms(4,5)])
  obtain c' where "h cur = Some c'" "fresh_node G (ndoc c) cur c'" using fit_node [OF f subtree_self] by blast
  then have fr: "fresh_node G (ndoc c) cur c" using c by simp
  note nf = node_freed_all [OF w(3,4), of "ndoc c"]
  let ?K = "\<Union>x \<in> set (G (Kids cur)). subtree G x" and ?P = "\<Union>x \<in> set (G (Props cur)). subtree G x"
  have sa: "subtree G cur = insert cur (?K \<union> ?P)" using subtree_unfold [of G cur] by auto
  have b: "x \<in> set (G (Kids cur)) \<or> x \<in> set (G (Props cur)) \<Longrightarrow> (x, cur) \<in> below G" for x by (auto simp: below_def)
  have own: "cur \<notin> ?K" "cur \<notin> ?P" using not_below_self [OF w(4)] b by auto
  have ty: "ntype c \<notin> {XML_DTD_NODE, XML_NAMESPACE_DECL, XML_ENTITY_DECL}"
    using assms(4) c subtree_self safe_nodeD [OF w(5) c] unfolding plain_tree_def safe_node_def by blast
  have "\<exists>h'. xmlFreeNode cur h = Some h' \<and> frees (subtree G cur) h h' \<and> ids_ok h'"
  proof (cases "ntype c = XML_ATTRIBUTE_NODE")
    case True
    then have "G (Props cur) = []" using fr by (simp add: fresh_node_def has_props_def)
    from prop_freed [OF w(3,4) nf this f c True] show ?thesis using True c ty by (simp add: xmlFreeNode_def xmlFreeProp_def)
  next
    case False
    have "\<exists>h1. (if ntype c \<noteq> XML_ENTITY_REF_NODE then xmlFreeNodeList (children c) h else Some h) = Some h1 \<and> frees ?K h h1 \<and> ids_ok h1"
    proof (cases "ntype c = XML_ENTITY_REF_NODE")
      case True
      then show ?thesis using fr assms(2) by (simp add: fresh_node_def)
    next
      case ne: False
      have ch: "children c = headp (G (Kids cur))" by (rule fresh_links(2) [OF w(3) fr ne])
      have "fit G (ndoc c) ?K h" by (rule fit_subset [OF f]) (use sa in auto)
      from kids_freed [OF w(3,4) nf this] obtain h1 where h1: "frees ?K h h1" "ids_ok h1"
        "(case headp (G (Kids cur)) of NULL \<Rightarrow> Some h | Ptr c \<Rightarrow> free_garbage (Nodes c 0) h) = Some h1" by blast
      have "xmlFreeNodeList (children c) h = Some h1"
      proof (cases "G (Kids cur)")
        case (Cons d ds)
        then obtain m where m: "h d = Some m" using group_node [OF assms(1), of d "Kids cur"] by auto
        then have "ntype m \<noteq> XML_NAMESPACE_DECL" using safe_nodeD [OF w(5) m] by (simp add: safe_node_def)
        then show ?thesis using h1(3) m ch Cons by (simp add: xmlFreeNodeList_def)
      qed (use h1(3) ch in \<open>simp add: xmlFreeNodeList_def\<close>)
      then show ?thesis using h1 ne by simp
    qed
    then obtain h1 where h1: "(if ntype c \<noteq> XML_ENTITY_REF_NODE then xmlFreeNodeList (children c) h else Some h) = Some h1" "frees ?K h h1" "ids_ok h1"
      by blast
    have "subtree G x \<inter> subtree G d = {}" if x: "x \<in> set (G (Kids cur))" "d \<in> set (G (Props cur))" for x d
    proof (rule siblings_apart [OF w(3,4) b b])
      show "x \<noteq> d" using w(3) x unfolding disjoint_groups_def by (metis group.distinct(1))
    qed (use x in auto)
    then have "?P \<inter> ?K = {}" by blast
    then have fP: "fit G (ndoc c) ?P h1" by (rule fit_frees [OF f h1(2,3), rotated 2]) (use sa in auto)
    have "\<exists>h2. (if has_props (ntype c) then xmlFreePropList (properties c) h1 else Some h1) = Some h2 \<and> frees ?P h1 h2 \<and> ids_ok h2"
    proof (cases "has_props (ntype c)")
      case True
      have "properties c = headp (G (Props cur))" by (rule fresh_links(3) [OF w(3) fr True])
      then show ?thesis
        using props_freed [where us = "[]" and cs = "G (Props cur)" and a = cur, OF w(3,4) nf _ fP] True by (simp add: xmlFreePropList_def)
    next
      case False
      then show ?thesis using fr h1(3) by (simp add: fresh_node_def)
    qed
    then obtain h2 where h2: "(if has_props (ntype c) then xmlFreePropList (properties c) h1 else Some h1) = Some h2" "frees ?P h1 h2" "ids_ok h2"
      by blast
    have kp: "frees (?K \<union> ?P) h h2" by (rule frees_trans [OF h1(2) h2(2)])
    obtain c2 where c2: "h2 cur = Some c2" "faded c c2" using frees_node [OF kp _ c] own by auto
    have "unlisted cur h2" by (rule ids_ok_other [OF h2(3) c2(1)]) (use faded_sel(1) [OF c2(2)] False in simp)
    note r = release_ok [OF c2(1) h2(3) this]
    have "xmlFreeNode cur h = Some (h2(cur := None))"
      unfolding xmlFreeNode_def c bind.bind_lunit if_not_P [OF ty] if_not_P [OF False] h1(1) h2(1) using r by simp
    moreover have "frees (subtree G cur) h (h2(cur := None))"
      using frees_trans [OF kp conjunct1 [OF conjunct2 [OF r]]] unfolding sa by simp
    ultimately show ?thesis using r by blast
  qed
  then show ?thesis using well_formed_prune [OF assms(1,3) _ _ assms(5)] by blast
qed

end
