(* ===== verification/TreeText.thy ===== *)
theory TreeText
  imports TreeFree
begin

text \<open>
  Appending a child, and the merging of adjacent texts, which frees the node that is appended.
\<close>

section \<open>Merging text\<close>

definition str_text :: "str ptr \<Rightarrow> bytes" where
  "str_text s = (case s of NULL \<Rightarrow> [] | Ptr (_, v) \<Rightarrow> strval v)"

text \<open>A length that \<open>xmlStrlen\<close> can return.\<close>

definition counted :: "str ptr \<Rightarrow> bool" where
  "counted s \<longleftrightarrow> length (str_text s) \<le> INT_MAX_nat"

lemma cstring_snoc: "0 \<notin> set v \<Longrightarrow> cstring (v @ [0]) \<and> strval (v @ [0]) = v"
  by (simp add: strval_append cstring_def)

text \<open>No room for \<open>n\<close> bytes and a terminator.\<close>

definition refused :: "allocator \<Rightarrow> nat \<Rightarrow> bool" where
  "refused m n \<longleftrightarrow> \<not> m (n + 1) \<or> INT_MAX_nat < n"

lemma xmlStrncatNew_text:
  assumes "terminated_str s" "terminated_str t" "counted s" "counted t" "t \<noteq> NULL"
  shows "\<exists>r. xmlStrncatNew m (raw_str s) (raw_str t) (- 1) = Some r \<and>
    (r = NULL \<and> refused m (length (str_text s @ str_text t)) \<or> (\<exists>w. r = Ptr w \<and> cstring w \<and> strval w = str_text s @ str_text t))"
proof -
  obtain pl b where t: "t = Ptr (pl, b)" using assms(5) by (cases t) auto
  have b: "cstring b" "length (strval b) \<le> INT_MAX_nat" using assms(2,4) by (simp_all add: t terminated_str_def counted_def str_text_def)
  note len = xmlStrlen_cstring [OF b]
  have nz: "0 \<notin> set (strval v)" for v by (rule strval_no_zero)
  show ?thesis
  proof (cases s)
    case NULL
    have "cstring (strval b @ [0])" "strval (strval b @ [0]) = strval b" using cstring_snoc [OF nz] by blast+
    then show ?thesis using copy_in_strval [OF b(1)] by (auto simp: xmlStrncatNew_def raw_str_def t NULL len xmlStrndup_def str_text_def refused_def)
  next
    case (Ptr q)
    obtain pl' a where q: "q = (pl', a)" by (cases q)
    have a: "cstring a" "length (strval a) \<le> INT_MAX_nat"
      using assms(1,3) by (simp_all add: Ptr q terminated_str_def counted_def str_text_def)
    have "0 \<notin> set (strval a @ strval b)" using nz by auto
    from cstring_snoc [OF this] have w: "cstring (strval a @ strval b @ [0])" "strval (strval a @ strval b @ [0]) = strval a @ strval b" by simp_all
    have w0: "cstring (cstr_of (strval a))" "strval (cstr_of (strval a)) = strval a" using cstring_snoc [OF nz [of a]] by (simp_all add: cstr_of_def)
    show ?thesis
    proof (cases "strval b = []")
      case True
      then show ?thesis using len w0 xmlStrdup_cstring [OF a] by (auto simp: xmlStrncatNew_def raw_str_def t Ptr q str_text_def refused_def)
    next
      case False
      then show ?thesis using len xmlStrlen_cstring [OF a] w copy_in_strval [OF a(1)] copy_in_strval [OF b(1)]
        by (auto simp: xmlStrncatNew_def raw_str_def t Ptr q str_text_def refused_def nat_add_distrib)
    qed
  qed
qed

text \<open>The content of a node changes.\<close>

definition retext :: "str ptr \<Rightarrow> addr ptr \<Rightarrow> xmlNode \<Rightarrow> xmlNode" where
  "retext s p m = m\<lparr>content := s, properties := p\<rparr>"

lemma xmlTextAddContent_ok:
  assumes "h a = Some m" "terminated_str (content m)" "terminated_str t" "counted (content m)" "counted t"
  shows "xmlTextAddContent e a t (- 1) h = Some (- 1, h) \<and> refused (mem e) (length (str_text (content m) @ str_text t)) \<or>
    (\<exists>s p. xmlTextAddContent e a t (- 1) h = Some (0, adj (Ptr a) (retext s p) h) \<and> terminated_str s \<and> str_text s = str_text (content m) @ str_text t)"
proof (cases "t = NULL")
  case True
  have "m\<lparr>content := content m, properties := properties m\<rparr> = m" by simp
  then have "adj (Ptr a) (retext (content m) (properties m)) h = h" using assms(1) by (auto simp: adj_def fun_eq_iff retext_def)
  then have "xmlTextAddContent e a t (- 1) h = Some (0, adj (Ptr a) (retext (content m) (properties m)) h)" using True by (simp add: xmlTextAddContent_def)
  moreover have "str_text (content m) = str_text (content m) @ str_text t" using True by (simp add: str_text_def)
  ultimately show ?thesis using assms(2) by blast
next
  case False
  obtain r where r: "xmlStrncatNew (mem e) (raw_str (content m)) (raw_str t) (- 1) = Some r"
    "r = NULL \<and> refused (mem e) (length (str_text (content m) @ str_text t)) \<or> (\<exists>w. r = Ptr w \<and> cstring w \<and> strval w = str_text (content m) @ str_text t)"
    using xmlStrncatNew_text [OF assms(2-5) False] by blast
  show ?thesis
  proof (cases r)
    case NULL
    then show ?thesis using False assms(1) r by (simp add: xmlTextAddContent_def)
  next
    case (Ptr w)
    then have w: "cstring w" "strval w = str_text (content m) @ str_text t" using r(2) by auto
    have "xmlTextAddContent e a t (- 1) h = Some (0, adj (Ptr a) (retext (Ptr (Malloced, w)) NULL) h)"
      using False assms(1) r(1) Ptr by (simp add: xmlTextAddContent_def xmlTextSetContent_def malloced_def upd_adj retext_def [abs_def])
    moreover have "terminated_str (Ptr (Malloced, w))" "str_text (Ptr (Malloced, w)) = str_text (content m) @ str_text t"
      using w by (simp_all add: terminated_str_def str_text_def)
    ultimately show ?thesis by blast
  qed
qed

lemma well_formed_retext:
  assumes "well_formed G h" "h a = Some m" "\<not> has_props (ntype m)" "terminated_str s"
  shows "well_formed G (adj (Ptr a) (retext s p) h)" (is "well_formed G ?h")
proof -
  note w = well_formedD [OF assms(1)]
  have nd: "\<exists>n. h x = Some n \<and> ntype n' = ntype n \<and> ndoc n' = ndoc n" if "?h x = Some n'" for x n'
    using that by (auto simp: adj_def retext_def split: if_splits)
  have nd': "\<exists>n'. ?h x = Some n' \<and> ntype n' = ntype n" if "h x = Some n" for x n
    using that by (simp add: adj_def retext_def)
  have "tidy G ?h x = ?h x" for x
  proof (cases "?h x")
    case (Some n')
    have t: "tidy G h x = h x" using w(1) by (simp add: linked_def)
    show ?thesis
    proof (cases "x = a")
      case True
      have r: "relink G a m = m" using t assms(2) True by (simp add: tidy_def)
      have "relink G a (retext s p m) = (relink G a m)\<lparr>content := s, properties := p\<rparr>"
        using assms(3) by (simp add: relink_def retext_def)
      then have "relink G a (retext s p m) = retext s p m" unfolding r by (simp add: retext_def)
      then show ?thesis using assms(2) True by (simp add: tidy_def adj_def)
    next
      case False
      then show ?thesis using t by (simp add: tidy_def adj_def)
    qed
  next
    case None
    then show ?thesis by (simp only: tidy_def option.map)
  qed
  moreover have "groups_ok G ?h"
  proof -
    have t: "\<exists>n'. ?h x = Some n' \<and> P (ntype n')" if "\<exists>n. h x = Some n \<and> P (ntype n)" for x P using that nd' by metis
    have "\<forall>x. ?h x \<noteq> None \<longleftrightarrow> h x \<noteq> None" by simp
    then show ?thesis using w(2) t [of _ "\<lambda>t. t \<noteq> XML_ENTITY_REF_NODE"] t [of _ has_props] unfolding groups_ok_def by presburger
  qed
  ultimately have "linked G ?h" by (simp add: linked_def fun_eq_iff)
  moreover have "typed G ?h" by (rule typed_same [OF nd w(6)])
  moreover have "safe ?h"
    by (rule safe_adj [OF w(5)]) (use safe_nodeD [OF w(5) assms(2)] assms(2,4) in \<open>auto simp: safe_node_def retext_def\<close>)
  ultimately show ?thesis using w(4) by (simp add: well_formed_def)
qed

text \<open>Unlinking and freeing.\<close>

lemma prune_detach: "cur \<in> S \<Longrightarrow> G (Loose r) = [] \<Longrightarrow> prune S (detach k cur r G) = prune S G"
proof -
  assume c: "cur \<in> S" and r: "G (Loose r) = []"
  have f: "filter (\<lambda>x. x \<notin> S) (remove1 cur xs) = filter (\<lambda>x. x \<notin> S) xs" for xs using c by (induction xs) auto
  show ?thesis
  proof
    fix j show "prune S (detach k cur r G) j = prune S G j"
      using c r f [of "G k"] by (simp add: prune_def detach_def)
  qed
qed

lemma ids_ok_tidy: "ids_ok h \<Longrightarrow> ids_ok (tidy G h)"
  unfolding ids_ok_def
proof (intro allI impI)
  assume i: "\<forall>d doc t v a. h d = Some doc \<longrightarrow> ids doc = Ptr t \<longrightarrow> t v = Some (Ptr a) \<longrightarrow>
    (\<exists>n. h a = Some n \<and> ntype n = XML_ATTRIBUTE_NODE \<and> attr_id n = Ptr v \<and> ndoc n = Ptr d)"
  fix d doc t v a assume d: "tidy G h d = Some doc" "ids doc = Ptr t" "t v = Some (Ptr a)"
  obtain n where n: "h d = Some n" "ids n = Ptr t" using d(1,2) by (auto simp: tidy_Some)
  obtain m where "h a = Some m" "ntype m = XML_ATTRIBUTE_NODE" "attr_id m = Ptr v" "ndoc m = Ptr d" using i n d(3) by blast
  then show "\<exists>n. tidy G h a = Some n \<and> ntype n = XML_ATTRIBUTE_NODE \<and> attr_id n = Ptr v \<and> ndoc n = Ptr d" by (simp add: tidy_def)
qed

lemma relink_refs [simp]: "intSubset (relink G x n) = intSubset n" "extSubset (relink G x n) = extSubset n" "entities (relink G x n) = entities n"
  by (simp_all add: relink_def)

lemma drop_node_ok:
  assumes "well_formed G h" "ids_ok h" "cur \<in> set (G k)" "G (Loose r) = []" "plain_tree (subtree G cur) h" "unreferenced (subtree G cur) h"
  shows "\<exists>h'. drop_node cur h = Some h' \<and> frees (subtree G cur) (tidy (detach k cur r G) h) h' \<and> ids_ok h' \<and>
    well_formed (prune (subtree G cur) G) h'"
proof -
  note w = well_formedD [OF assms(1)]
  let ?D = "detach k cur r G"
  have s: "subtree ?D cur = subtree G cur" by (rule subtree_detach [OF w(3) assms(3,4) w(4)])
  have 1: "xmlUnlinkNodeInternal cur h = Some (tidy ?D h)" by (rule unlink_ok [OF w(1) assms(3,4) typed_sound [OF w(4,6)]])
  have "plain_tree (subtree ?D cur) (tidy ?D h)" using assms(5) unfolding s plain_tree_def tidy_Some by auto
  moreover have "unreferenced (subtree ?D cur) (tidy ?D h)"
    unfolding s unreferenced_def
  proof (intro conjI allI impI)
    fix x n assume "tidy ?D h x = Some n"
    then obtain m where m: "h x = Some m" "n = relink ?D x m" by (auto simp: tidy_Some)
    have u: "\<forall>a \<in> subtree G cur. ndoc m \<noteq> Ptr a \<and> intSubset m \<noteq> Ptr a \<and> extSubset m \<noteq> Ptr a"
      "\<forall>t. entities m = Ptr t \<longrightarrow> ran t \<inter> subtree G cur = {}" using assms(6) m(1) unfolding unreferenced_def by blast+
    then show "\<forall>a \<in> subtree G cur. ndoc n \<noteq> Ptr a \<and> intSubset n \<noteq> Ptr a \<and> extSubset n \<noteq> Ptr a" using m(2) by simp
    show "ran t \<inter> subtree G cur = {}" if "entities n = Ptr t" for t using u(2) m(2) that by simp
  qed (use assms(6) in \<open>simp add: unreferenced_def\<close>)
  moreover have "?D (Loose r) = [cur]" by (simp add: detach_def)
  ultimately obtain h' where h': "xmlFreeNode cur (tidy ?D h) = Some h'" "frees (subtree ?D cur) (tidy ?D h) h'" "ids_ok h'"
    "well_formed (prune (subtree ?D cur) ?D) h'"
    using xmlFreeNode_ok [OF well_formed_detach [OF assms(1,3,4)] ids_ok_tidy [OF assms(2)]] by blast
  then show ?thesis unfolding s using 1 prune_detach [where cur = cur and S = "subtree G cur" and G = G and r = r and k = k, OF subtree_self assms(4)] by (simp add: drop_node_def)
qed

section \<open>Appending a child\<close>

text \<open>\<open>cur\<close> is merged into the text node before its new place.\<close>

definition joins :: "nheap \<Rightarrow> xmlNode \<Rightarrow> addr ptr \<Rightarrow> bool" where
  "joins h c p \<longleftrightarrow> ntype c = XML_TEXT_NODE \<and> (\<exists>a m. p = Ptr a \<and> h a = Some m \<and> ntype m = XML_TEXT_NODE \<and> same_pointer (name m) (name c))"

lemma mergeable_joins: "present p h \<Longrightarrow> p \<noteq> Ptr cur \<Longrightarrow> ntype c = XML_TEXT_NODE \<Longrightarrow> mergeable p cur c h = Some (joins h c p)"
  by (auto simp: mergeable_def joins_def present_def split: ptr.splits)

lemma coalesce_next_NULL: "h cur = Some c \<Longrightarrow> coalesce_next e cur NULL h = Some NULL"
  by (simp add: coalesce_next_def mergeable_def)

lemma insert_apart:
  assumes "h cur = Some c" "ntype c \<noteq> XML_ATTRIBUTE_NODE" "present prev h" "prev \<noteq> Ptr cur" "\<not> joins h c prev"
  shows "xmlInsertNode e doc cur par prev NULL True h = link_node e doc cur par prev NULL h"
proof -
  have "coalesce_prev e cur prev h = Some NULL" if "ntype c = XML_TEXT_NODE"
    using mergeable_joins [OF assms(3,4) that] assms(1,5) by (simp add: coalesce_prev_def split: ptr.split)
  then show ?thesis using assms(1,2) by (simp add: xmlInsertNode_def coalesce_next_NULL)
qed

text \<open>The last child.\<close>

lemma last_child:
  assumes "well_formed G h" "h p = Some n" "ntype n \<noteq> XML_ENTITY_REF_NODE"
  shows "lastChild n = lastp (G (Kids p))" "present (lastp (G (Kids p))) h"
proof -
  obtain k where k: "p \<in> set (G k)" using in_group [OF assms(1,2)] by blast
  obtain n' where "h p = Some n'" "ntype n' \<noteq> XML_ENTITY_REF_NODE \<Longrightarrow> children n' = headp (G (Kids p)) \<and> lastChild n' = lastp (G (Kids p))"
    using linked_node [OF well_formedD(1) [OF assms(1)] k] by metis
  then show "lastChild n = lastp (G (Kids p))" using assms(2,3) by simp
  show "present (lastp (G (Kids p))) h"
  proof (cases "lastp (G (Kids p))")
    case (Ptr l)
    then show ?thesis using group_node [OF assms(1) headp_Ptr(2) [OF Ptr]] by (auto simp: present_def)
  qed (simp add: present_def)
qed

lemma add_child_step:
  assumes "well_formed G h" "h p = Some n" "h cur = Some c" "p \<noteq> cur" "ntype n \<notin> {XML_TEXT_NODE, XML_ENTITY_REF_NODE}" "ntype c \<noteq> XML_ATTRIBUTE_NODE"
  shows "xmlAddChild e (Ptr p) (Ptr cur) h =
    (if lastp (G (Kids p)) = Ptr cur then Some (Ptr cur, h) else xmlInsertNode e (ndoc n) cur (Ptr p) (lastp (G (Kids p))) NULL True h)"
proof -
  note s = well_formedD(5) [OF assms(1)]
  show ?thesis
    using assms(2-6) last_child(1) [OF assms(1,2)]
    by (auto simp: xmlAddChild_def unusable_node [OF assms(2) s] unusable_node [OF assms(3) s])
qed

lemma child_appended:
  assumes "well_formed G h" "cur \<in> set (G k0)" "h p = Some n" "h cur = Some c" "ntype n \<noteq> XML_TEXT_NODE" "ntype c \<noteq> XML_ATTRIBUTE_NODE"
    and "can_hold G h (ndoc n) (Kids p) cur" "G (Loose r) = []" "\<not> joins h c (lastp (G (Kids p)))"
  shows "if lastp (G (Kids p)) = Ptr cur then xmlAddChild e (Ptr p) (Ptr cur) h = Some (Ptr cur, h)
    else inserted e G h (ndoc n) cur (detach k0 cur r G) (relocate k0 cur (Kids p) (\<lambda>xs. xs @ [cur]) G) (xmlAddChild e (Ptr p) (Ptr cur) h)"
proof -
  note w = well_formedD [OF assms(1)]
  have ne: "p \<noteq> cur" "ntype n \<noteq> XML_ENTITY_REF_NODE"
    using assms(3,7) subtree_self [of cur G] by (auto simp: can_hold_def room_in_def)
  have step: "xmlAddChild e (Ptr p) (Ptr cur) h = (if lastp (G (Kids p)) = Ptr cur then Some (Ptr cur, h)
      else xmlInsertNode e (ndoc n) cur (Ptr p) (lastp (G (Kids p))) NULL True h)"
    by (rule add_child_step [OF assms(1,3,4) ne(1) _ assms(6)]) (use ne assms(5) in simp)
  show ?thesis
  proof (cases "lastp (G (Kids p)) = Ptr cur")
    case False
    let ?as = "detach k0 cur r G (Kids p)"
    have nr: "k0 \<noteq> Loose r" using assms(2,8) by auto
    have as: "?as = (if k0 = Kids p then remove1 cur (G (Kids p)) else G (Kids p))" by (simp add: detach_def)
    have l: "lastp ?as = lastp (G (Kids p))"
    proof (cases "G (Kids p)" rule: rev_cases)
      case (snoc xs x)
      then show ?thesis using False unfolding as by (auto simp: remove1_append)
    qed (simp add: as)
    have D: "detach k0 cur r G (Kids p) = ?as @ []" by simp
    have A: "attach (Kids p) ?as cur [] r (detach k0 cur r G) = relocate k0 cur (Kids p) (\<lambda>xs. xs @ [cur]) G"
      by (rule attach_relocate [OF assms(8) D _ nr]) simp_all
    have "inserted e G h (ndoc n) cur (detach k0 cur r G) (attach (Kids p) ?as cur [] r (detach k0 cur r G))
      (link_node e (ndoc n) cur (owner (Kids p)) (lastp ?as) (headp []) h)"
      by (rule link_inserted [OF assms(1,2,8,4,6) D _ assms(7)]) simp
    then show ?thesis
      using insert_apart [OF assms(4,6) last_child(2) [OF assms(1,3) ne(2)] False assms(9)] step False unfolding A l by simp
  qed (simp add: step)
qed

text \<open>The contents of nodes that are left.\<close>

definition same_data :: "xmlNode \<Rightarrow> xmlNode \<Rightarrow> bool" where
  "same_data n m \<longleftrightarrow> ntype m = ntype n \<and> name m = name n \<and> ndoc m = ndoc n \<and> content m = content n"

lemma faded_data: "faded n m \<Longrightarrow> same_data n m"
  by (simp add: same_data_def faded_sel)

text \<open>
  C15. A text node that is appended behind a text node with the same name pointer is merged: the text before it has both contents, the
  node is unlinked and freed, and no other node changes its contents.  NULL, with nothing changed, only when the merged string can
  not be allocated.
\<close>

theorem xmlAddChild_text:
  assumes "well_formed G h" "ids_ok h" "cur \<in> set (G k0)" "h p = Some n" "h cur = Some c" "p \<noteq> cur"
    and "ntype n \<notin> {XML_TEXT_NODE, XML_ENTITY_REF_NODE}" "lastp (G (Kids p)) = Ptr l" "l \<noteq> cur" "h l = Some m" "joins h c (Ptr l)"
    and "l \<notin> subtree G cur" "plain_tree (subtree G cur) h" "unreferenced (subtree G cur) h" "counted (content m)" "counted (content c)" "G (Loose r) = []"
  shows "xmlAddChild e (Ptr p) (Ptr cur) h = Some (NULL, h) \<and> refused (mem e) (length (str_text (content m) @ str_text (content c))) \<or>
    (\<exists>h' m'. xmlAddChild e (Ptr p) (Ptr cur) h = Some (Ptr l, h') \<and> well_formed (prune (subtree G cur) G) h' \<and> ids_ok h' \<and>
       (\<forall>x \<in> subtree G cur. h' x = None) \<and> h' l = Some m' \<and> str_text (content m') = str_text (content m) @ str_text (content c) \<and>
       (\<forall>x. x \<notin> subtree G cur \<longrightarrow> x \<noteq> l \<longrightarrow> rel_option same_data (h x) (h' x)))"
proof -
  note w = well_formedD [OF assms(1)]
  have ty: "ntype c = XML_TEXT_NODE" "ntype m = XML_TEXT_NODE" using assms(10,11) by (auto simp: joins_def)
  have step: "xmlAddChild e (Ptr p) (Ptr cur) h = xmlInsertNode e (ndoc n) cur (Ptr p) (Ptr l) NULL True h"
    using add_child_step [OF assms(1,4,5,6,7), of e] ty(1) assms(8,9) by simp
  have mg: "mergeable (Ptr l) cur c h = Some True"
    using mergeable_joins [of "Ptr l" h cur c] ty(1) assms(9,10,11) by (simp add: present_def)
  have ts: "terminated_str (content m)" "terminated_str (content c)"
    using safe_nodeD [OF w(5) assms(10)] safe_nodeD [OF w(5) assms(5)] by (simp_all add: safe_node_def)
  from xmlTextAddContent_ok [where h = h and a = l and m = m and t = "content c" and e = e, OF assms(10) ts assms(15,16)] show ?thesis
  proof
    assume f: "xmlTextAddContent e l (content c) (- 1) h = Some (- 1, h) \<and> refused (mem e) (length (str_text (content m) @ str_text (content c)))"
    then have "coalesce_prev e cur (Ptr l) h = Some (Ptr (NULL, h))" using assms(5) mg by (simp add: coalesce_prev_def)
    then show ?thesis using assms(5) ty(1) step f by (simp add: xmlInsertNode_def)
  next
    assume "\<exists>s q. xmlTextAddContent e l (content c) (- 1) h = Some (0, adj (Ptr l) (retext s q) h) \<and> terminated_str s \<and>
      str_text s = str_text (content m) @ str_text (content c)"
    then obtain s q where s: "xmlTextAddContent e l (content c) (- 1) h = Some (0, adj (Ptr l) (retext s q) h)" "terminated_str s"
      "str_text s = str_text (content m) @ str_text (content c)" by blast
    let ?h1 = "adj (Ptr l) (retext s q) h" and ?D = "detach k0 cur r G"
    have w1: "well_formed G ?h1" by (rule well_formed_retext [OF assms(1,10) _ s(2)]) (simp add: ty(2) has_props_def)
    have i1: "ids_ok ?h1" by (rule ids_ok_adj [OF assms(2)]) (simp add: retext_def)
    have p1: "plain_tree (subtree G cur) ?h1" using assms(13) by (auto simp: plain_tree_def adj_def retext_def split: if_splits)
    have u1: "unreferenced (subtree G cur) ?h1"
      unfolding unreferenced_def
    proof (intro conjI allI impI)
      fix x n assume "?h1 x = Some n"
      then have "\<exists>k. h x = Some k \<and> ndoc n = ndoc k \<and> intSubset n = intSubset k \<and> extSubset n = extSubset k \<and> entities n = entities k"
        by (auto simp: adj_def retext_def split: if_splits)
      then show "\<forall>a \<in> subtree G cur. ndoc n \<noteq> Ptr a \<and> intSubset n \<noteq> Ptr a \<and> extSubset n \<noteq> Ptr a"
        and "\<And>t. entities n = Ptr t \<Longrightarrow> ran t \<inter> subtree G cur = {}" using assms(14) unfolding unreferenced_def by metis+
    qed (use assms(14) in \<open>simp add: unreferenced_def\<close>)
    obtain h' where h': "drop_node cur ?h1 = Some h'" "frees (subtree G cur) (tidy ?D ?h1) h'" "ids_ok h'" "well_formed (prune (subtree G cur) G) h'"
      using drop_node_ok [OF w1 i1 assms(3,17) p1 u1] by blast
    have "xmlAddChild e (Ptr p) (Ptr cur) h = Some (Ptr l, h')"
      using assms(5) ty(1) mg s(1) h'(1) unfolding step by (simp add: xmlInsertNode_def coalesce_prev_def)
    moreover have "\<forall>x \<in> subtree G cur. h' x = None" using frees_in [OF h'(2)] by blast
    moreover have "tidy ?D ?h1 l = Some (relink ?D l (retext s q m))" using assms(10) by (simp add: tidy_def adj_def)
    then obtain m' where m': "h' l = Some m'" "faded (relink ?D l (retext s q m)) m'" using frees_node [OF h'(2) assms(12)] by blast
    moreover have "content m' = s" using faded_sel(9) [OF m'(2)] by (simp add: retext_def)
    moreover have "rel_option same_data (h x) (h' x)" if nx: "x \<notin> subtree G cur" "x \<noteq> l" for x
    proof (cases "h x")
      case None
      then have "tidy ?D ?h1 x = None" by (simp add: tidy_def)
      then show ?thesis using None frees_None [OF h'(2)] by simp
    next
      case (Some k)
      then have t: "tidy ?D ?h1 x = Some (relink ?D x k)" using nx(2) by (simp add: tidy_def adj_def)
      obtain k' where k': "h' x = Some k'" "faded (relink ?D x k) k'" using frees_node [OF h'(2) nx(1) t] by blast
      have "same_data (relink ?D x k) k'" by (rule faded_data [OF k'(2)])
      then show ?thesis using Some k'(1) by (simp add: same_data_def)
    qed
    ultimately show ?thesis using s(3) h'(3,4) by blast
  qed
qed

end
