(* ===== verification/TreeReplace.thy ===== *)
theory TreeReplace
  imports TreeText
begin

text \<open>
  \<open>xmlReplaceNode\<close>: its assignments have the effect of an insertion before the old node that is followed by an unlinking.
\<close>

section \<open>Replacing a node\<close>

text \<open>\<open>cur\<close> takes the place of \<open>old\<close> in its group.\<close>

definition swap_in :: "group \<Rightarrow> addr list \<Rightarrow> addr \<Rightarrow> addr \<Rightarrow> addr list \<Rightarrow> nat \<Rightarrow> forest \<Rightarrow> forest" where
  "swap_in k as old cur bs r G = G(Loose r := [old], k := as @ cur # bs)"

definition swap_children :: "addr \<Rightarrow> addr \<Rightarrow> xmlNode \<Rightarrow> xmlNode" where
  "swap_children old cur m = m\<lparr>children := (if children m = Ptr old then Ptr cur else children m),
     lastChild := (if lastChild m = Ptr old then Ptr cur else lastChild m)\<rparr>"

lemma swap_heap:
  assumes "well_formed G h" "G (Loose r) = [cur]" "G (Kids p) = as @ old # bs" "h cur = Some c" "ntype c \<noteq> XML_ATTRIBUTE_NODE" "\<not> is_document (ntype c)"
    and "h p = Some n" "p \<notin> subtree G cur" "ndoc n = ndoc c"
  shows "well_formed (swap_in (Kids p) as old cur bs r G) (tidy (swap_in (Kids p) as old cur bs r G) h)"
    and "adj (Ptr old) clear_links (adj (Ptr p) (swap_children old cur) (adj (lastp as) (\<lambda>m. m\<lparr>nextSib := Ptr cur\<rparr>)
      (adj (Ptr cur) (\<lambda>m. m\<lparr>prevSib := lastp as\<rparr>) (adj (headp bs) (\<lambda>m. m\<lparr>prevSib := Ptr cur\<rparr>)
      (adj (Ptr cur) (\<lambda>m. m\<lparr>parent := Ptr p, nextSib := headp bs\<rparr>) h))))) = tidy (swap_in (Kids p) as old cur bs r G) h"
    (is "?h = _")
proof -
  note w = well_formedD [OF assms(1)]
  let ?k = "Kids p" and ?A = "attach (Kids p) as cur (old # bs) r G"
  have k: "?k \<noteq> Loose r" by simp
  have ok: "old \<in> set (G ?k)" using assms(3) by simp
  have room: "room_in h ?k" using w(2) assms(3) unfolding groups_ok_def room_in_def by fastforce
  have fits: "fits_in G h ?k cur"
    using room assms(4-9) by (auto simp: fits_in_def kind_ok_def heir_ok_def)
  have cl: "adj (Ptr cur) clear_links h = h"
  proof -
    have "cur \<in> set (G (Loose r))" using assms(2) by simp
    from linked_node [OF w(1) this] obtain c' where "h cur = Some c'" "parent c' = NULL" "prevSib c' = prv [cur] cur" "nextSib c' = nxt [cur] cur"
      using assms(2) by auto
    then have "clear_links c = c" using assms(4) by (simp add: prv_def)
    then show ?thesis using assms(4) by (auto simp: adj_def fun_eq_iff)
  qed
  have al: "almost G cur r h" using assms(1,2) cl by (simp add: almost_def)
  have lo: "loose_in G cur r h" by (rule almostD(1) [OF al])
  have sg: "sound_group G h j" for j by (rule typed_sound [OF w(4,6)])
  have up: "owner ?k \<noteq> Ptr cur" using assms(8) subtree_self by auto
  have out: "\<forall>x \<in> set (G ?k). owner ?k \<noteq> Ptr x" using sg [of ?k] by (simp add: sound_group_def)
  have hA: "hook_next False cur (owner ?k) (headp (old # bs)) (hook_prev False cur (owner ?k) (lastp as)
      (adj (Ptr cur) (\<lambda>m. m\<lparr>parent := owner ?k, prevSib := lastp as, nextSib := headp (old # bs)\<rparr>) h)) = tidy ?A h"
    by (rule attach_ok [OF lo assms(3) k room up out]) simp
  have wA: "well_formed ?A (tidy ?A h)" by (rule attach_well_formed [OF al assms(3) k fits])
  note a = well_formedD [OF wA]
  have kA: "?A ?k = (as @ [cur]) @ old # bs" by (simp add: attach_def)
  have oA: "old \<in> set (?A ?k)" unfolding kA by simp
  have rA: "?A (Loose r) = []" by (simp add: attach_def)
  have dist: "distinct (as @ cur # old # bs)" using a(3) kA unfolding disjoint_groups_def by (metis append.assoc append_Cons append_Nil)
  have R: "detach ?k old r ?A = swap_in ?k as old cur bs r G"
    using dist by (auto simp: detach_def attach_def swap_in_def fun_eq_iff remove1_append)
  show "well_formed (swap_in ?k as old cur bs r G) (tidy (swap_in ?k as old cur bs r G) h)"
    using well_formed_detach [OF wA oA rA] unfolding R by simp
  obtain m where m: "h old = Some m" using group_node [OF assms(1) ok] by blast
  have ko: "ntype m \<noteq> XML_ATTRIBUTE_NODE" using typedD(1) [OF w(6) ok m] by (simp add: kind_ok_def)
  have mA: "tidy ?A h old = Some (relink ?A old m)" using m by (simp add: tidy_def)
  have un: "adj (Ptr old) clear_links (unhook False old (owner ?k) (lastp (as @ [cur])) (headp bs) (tidy ?A h)) = tidy (detach ?k old r ?A) (tidy ?A h)"
    by (rule unhook_ok [OF a(1) kA rA typed_sound [OF a(4,6)] mA]) (simp add: ko)
  have "ntype n \<noteq> XML_ENTITY_REF_NODE" using room assms(7) by (simp add: room_in_def)
  moreover obtain j where "p \<in> set (G j)" using in_group [OF assms(1,7)] by blast
  from linked_node [OF w(1) this] obtain n' where "h p = Some n'"
    "ntype n' \<noteq> XML_ENTITY_REF_NODE \<Longrightarrow> children n' = headp (G ?k) \<and> lastChild n' = lastp (G ?k)" by metis
  ultimately have cn: "children n = headp (as @ old # bs)" "lastChild n = lastp (old # bs)"
    using assms(3,7) by (simp_all add: lastp_append)
  have ne: "old \<noteq> cur" "p \<noteq> cur" "p \<noteq> old" "headp bs \<noteq> Ptr cur" "headp bs \<noteq> Ptr old" "lastp as \<noteq> Ptr cur" "lastp as \<noteq> Ptr old"
    "headp bs \<noteq> Ptr p" "lastp as \<noteq> Ptr p"
    using dist up out assms(3) by (auto dest: headp_Ptr)
  have nb: "lastp as \<noteq> headp bs" if "headp bs = Ptr b" for b using that dist by (auto dest: headp_Ptr)
  have "?h x = adj (Ptr old) clear_links (unhook False old (owner ?k) (lastp (as @ [cur])) (headp bs) (tidy ?A h)) x" for x
  proof -
    consider "x = cur" | "x = old" | "x = p" | "lastp as = Ptr x" | "headp bs = Ptr x"
      | "x \<noteq> cur" "x \<noteq> old" "x \<noteq> p" "lastp as \<noteq> Ptr x" "headp bs \<noteq> Ptr x" by blast
    then show ?thesis
    proof cases
      case 1
      show ?thesis using 1 ne assms(4) unfolding hA [symmetric] unhook_def
        by (cases "lastp as") (auto simp: adj_def hook_prev_def hook_next_def)
    next
      case 2
      show ?thesis using 2 ne m unfolding hA [symmetric] unhook_def
        by (cases "lastp as") (auto simp: adj_def hook_prev_def hook_next_def)
    next
      case 3
      have e1: "headp (as @ old # bs) = Ptr old \<longleftrightarrow> as = []" using dist by (cases as) auto
      have e2: "lastp (old # bs) = Ptr old \<longleftrightarrow> bs = []" using dist by (auto dest: headp_Ptr)
      show ?thesis using 3 ne assms(7) cn e1 e2 unfolding hA [symmetric] unhook_def
        by (cases "lastp as") (auto simp: adj_def hook_prev_def hook_next_def swap_children_def skip_in_def headp_append)
    next
      case 4
      show ?thesis using 4 ne nb unfolding hA [symmetric] unhook_def
        by (auto simp: adj_def hook_prev_def hook_next_def option.map_comp comp_def)
    next
      case 5
      show ?thesis using 5 ne nb [OF 5] unfolding hA [symmetric] unhook_def
        by (cases "lastp as") (auto simp: adj_def hook_prev_def hook_next_def option.map_comp comp_def)
    next
      case 6
      show ?thesis using 6 unfolding hA [symmetric] unhook_def
        by (cases "lastp as") (auto simp: adj_def hook_prev_def hook_next_def)
    qed
  qed
  then have "?h = adj (Ptr old) clear_links (unhook False old (owner ?k) (lastp (as @ [cur])) (headp bs) (tidy ?A h))" by (rule ext)
  then show "?h = tidy (swap_in ?k as old cur bs r G) h" using un unfolding R by simp
qed

text \<open>The forest with \<open>cur\<close> in the place of \<open>old\<close>, which is alone.\<close>

definition replaced :: "group \<Rightarrow> addr \<Rightarrow> addr \<Rightarrow> nat \<Rightarrow> forest \<Rightarrow> forest" where
  "replaced k old cur r G = G(Loose r := [old], k := map (\<lambda>x. if x = old then cur else x) (G k))"

lemma set_tree_same: "h cur = Some c \<Longrightarrow> ndoc c = doc \<Longrightarrow> xmlSetTreeDoc e (Ptr cur) doc h = Some (0, h)"
proof -
  assume "h cur = Some c" "ndoc c = doc"
  then have "set_doc e doc (Tree cur) (False, h) = Some (False, h)" by (subst set_doc.simps) simp
  then show ?thesis by (simp add: xmlSetTreeDoc_def)
qed

text \<open>The assignments of \<open>xmlReplaceNode\<close> behind the change of the document.\<close>

lemma swap_steps:
  assumes "h old = Some o2" "parent o2 = Ptr p" "prevSib o2 = pv" "nextSib o2 = nx" "h cur = Some c" "ntype c \<noteq> XML_ATTRIBUTE_NODE" "h p = Some n"
    and "\<And>a. pv = Ptr a \<Longrightarrow> h a \<noteq> None" "\<And>a. nx = Ptr a \<Longrightarrow> h a \<noteq> None" "nx \<noteq> Ptr old" "pv \<noteq> Ptr old" "cur \<noteq> old" "nx \<noteq> Ptr cur" "pv \<noteq> Ptr cur"
  shows "do {
      o2 \<leftarrow> h old;
      h3 \<leftarrow> upd cur (\<lambda>m. m\<lparr>parent := parent o2, nextSib := nextSib o2\<rparr>) h;
      h4 \<leftarrow> upd_if (nextSib o2) (\<lambda>m. m\<lparr>prevSib := Ptr cur\<rparr>) h3;
      o4 \<leftarrow> h4 old;
      h5 \<leftarrow> upd cur (\<lambda>m. m\<lparr>prevSib := prevSib o4\<rparr>) h4;
      h6 \<leftarrow> upd_if (prevSib o4) (\<lambda>m. m\<lparr>nextSib := Ptr cur\<rparr>) h5;
      c6 \<leftarrow> h6 cur;
      h7 \<leftarrow> upd_if (parent c6) (\<lambda>m.
               if ntype c6 = XML_ATTRIBUTE_NODE then (if properties m = Ptr old then m\<lparr>properties := Ptr cur\<rparr> else m)
               else m\<lparr>children := (if children m = Ptr old then Ptr cur else children m),
                      lastChild := (if lastChild m = Ptr old then Ptr cur else lastChild m)\<rparr>) h6;
      h8 \<leftarrow> upd old (\<lambda>m. m\<lparr>nextSib := NULL, prevSib := NULL, parent := NULL\<rparr>) h7;
      Some (Ptr old, h8) } =
    Some (Ptr old, adj (Ptr old) clear_links (adj (Ptr p) (swap_children old cur) (adj pv (\<lambda>m. m\<lparr>nextSib := Ptr cur\<rparr>)
      (adj (Ptr cur) (\<lambda>m. m\<lparr>prevSib := pv\<rparr>) (adj nx (\<lambda>m. m\<lparr>prevSib := Ptr cur\<rparr>)
      (adj (Ptr cur) (\<lambda>m. m\<lparr>parent := Ptr p, nextSib := nx\<rparr>) h))))))"
proof -
  let ?h3 = "adj (Ptr cur) (\<lambda>m. m\<lparr>parent := Ptr p, nextSib := nx\<rparr>) h"
  let ?h4 = "adj nx (\<lambda>m. m\<lparr>prevSib := Ptr cur\<rparr>) ?h3"
  let ?h5 = "adj (Ptr cur) (\<lambda>m. m\<lparr>prevSib := pv\<rparr>) ?h4"
  let ?h6 = "adj pv (\<lambda>m. m\<lparr>nextSib := Ptr cur\<rparr>) ?h5"
  let ?h7 = "adj (Ptr p) (swap_children old cur) ?h6"
  have 3: "upd cur (\<lambda>m. m\<lparr>parent := parent o2, nextSib := nextSib o2\<rparr>) h = Some ?h3" using assms(2,4,5) by (simp add: upd_adj)
  have 4: "upd_if (nextSib o2) (\<lambda>m. m\<lparr>prevSib := Ptr cur\<rparr>) ?h3 = Some ?h4" unfolding assms(4) by (rule upd_if_adj) (simp add: assms(9))
  have o4: "?h4 old = Some o2" using assms(1,10,12) by (simp add: adj_def)
  have 5: "upd cur (\<lambda>m. m\<lparr>prevSib := prevSib o2\<rparr>) ?h4 = Some ?h5" unfolding assms(3) by (rule upd_adj) (simp add: assms(5))
  have 6: "upd_if (prevSib o2) (\<lambda>m. m\<lparr>nextSib := Ptr cur\<rparr>) ?h5 = Some ?h6" unfolding assms(3) by (rule upd_if_adj) (simp add: assms(8))
  have c6: "?h6 cur = Some (c\<lparr>parent := Ptr p, nextSib := nx, prevSib := pv\<rparr>)" (is "_ = Some ?c") using assms(5,13,14) by (simp add: adj_def)
  have 7: "upd_if (parent ?c) (\<lambda>m.
               if ntype ?c = XML_ATTRIBUTE_NODE then (if properties m = Ptr old then m\<lparr>properties := Ptr cur\<rparr> else m)
               else m\<lparr>children := (if children m = Ptr old then Ptr cur else children m),
                      lastChild := (if lastChild m = Ptr old then Ptr cur else lastChild m)\<rparr>) ?h6 = Some ?h7"
  proof -
    have "upd_if (Ptr p) (swap_children old cur) ?h6 = Some ?h7" by (rule upd_if_adj) (simp add: assms(7))
    then show ?thesis using assms(6) unfolding swap_children_def [abs_def] by simp
  qed
  have e: "(\<lambda>m. m\<lparr>nextSib := NULL, prevSib := NULL, parent := NULL\<rparr>) = (\<lambda>m. clear_links m)" by (rule ext, rule xmlNode.equality) simp_all
  have 8: "upd old (\<lambda>m. m\<lparr>nextSib := NULL, prevSib := NULL, parent := NULL\<rparr>) ?h7 = Some (adj (Ptr old) clear_links ?h7)"
    unfolding e by (rule upd_adj) (simp add: assms(1))
  show ?thesis unfolding assms(1) bind.bind_lunit 3 4 o4 5 6 c6 7 8 ..
qed

lemma node_replaced:
  assumes "well_formed G h" "cur \<in> set (G k0)" "old \<in> set (G (Kids p))" "cur \<noteq> old" "h cur = Some c" "h old = Some o1"
    and "ntype c \<noteq> XML_ATTRIBUTE_NODE" "can_hold G h (ndoc o1) (Kids p) cur" "G (Loose r) = []"
  shows "inserted_for e old G h (ndoc o1) cur (detach k0 cur r G) (replaced (Kids p) old cur r (detach k0 cur r G))
    (xmlReplaceNode e (Ptr old) (Ptr cur) h)"
proof -
  define D where "D = detach k0 cur r G"
  define R where "R = replaced (Kids p) old cur r D"
  note w = well_formedD [OF assms(1)]
  let ?doc = "ndoc o1" and ?S = "subtree G cur"
  have ko: "ntype o1 \<noteq> XML_ATTRIBUTE_NODE" using typedD(1) [OF w(6) assms(3,6)] by (simp add: kind_ok_def)
  obtain o1' where "h old = Some o1'" "parent o1' = owner (Kids p)" using linked_node [OF w(1) assms(3)] by metis
  then have po: "parent o1 \<noteq> NULL" using assms(6) by auto
  have oD: "old \<in> set (D (Kids p))" unfolding D_def detach_in [OF w(3) assms(2,9)] using assms(3,4) by simp
  have 1: "xmlUnlinkNodeInternal cur h = Some (tidy D h)"
    unfolding D_def by (rule unlink_ok [OF w(1) assms(2,9) typed_sound [OF w(4,6)]])
  have wD: "well_formed D (tidy D h)" unfolding D_def by (rule well_formed_detach [OF assms(1,2,9)])
  have lD: "D (Loose r) = [cur]" by (simp add: D_def detach_def)
  have s: "subtree D cur = ?S" unfolding D_def by (rule subtree_detach [OF w(3) assms(2,9) w(4)])
  have al: "almost D cur r (tidy D h)"
  proof -
    have "adj (Ptr cur) clear_links (tidy D h) = tidy D (adj (Ptr cur) clear_links (tidy D h))"
    proof
      fix x
      have "home D cur = Loose r" by (rule home_eq) (use well_formedD(3) [OF wD] lD in auto)
      then have "clear_links (relink D cur m) = relink D cur m" for m
        by (intro xmlNode.equality) (simp_all add: relink_def lD prv_def)
      then show "adj (Ptr cur) clear_links (tidy D h) x = tidy D (adj (Ptr cur) clear_links (tidy D h)) x"
        by (auto simp: adj_def tidy_def option.map_comp comp_def)
    qed
    then show ?thesis using wD lD by (simp add: almost_def)
  qed
  have ch: "can_hold D (tidy D h) ?doc (Kids p) cur" by (rule can_hold_same [OF _ s assms(8)]) simp
  have cD: "tidy D h cur = Some (relink D cur c)" using assms(5) by (simp add: tidy_def)
  have nd: "\<not> is_document (ntype (relink D cur c))" "present ?doc (tidy D h)" using ch cD by (simp_all add: can_hold_def)
  obtain code h2 where st: "(if ndoc (relink D cur c) \<noteq> ?doc then xmlSetTreeDoc e (Ptr cur) ?doc (tidy D h) else Some (0, tidy D h)) = Some (code, h2)"
    "code = 0 \<or> code = - 1" "ndoc (relink D cur c) = ?doc \<longrightarrow> code = 0" "moved_ok ?doc (subtree D cur) (tidy D h) h2" "almost D cur r h2"
      and ls: "code < 0 \<longrightarrow> losing e ?doc (subtree D cur) (tidy D h)"
    using set_step [OF al cD nd] by blast
  have set: "xmlSetTreeDoc e (Ptr cur) ?doc (tidy D h) = Some (code, h2)"
    using st(1) set_tree_same [where h = "tidy D h" and cur = cur and c = "relink D cur c" and e = e, OF cD] by (cases "ndoc c = ?doc") simp_all
  have w2: "well_formed D h2" by (rule well_formed_moves [OF wD st(4) lD]) (use nd(1) cD in simp)
  have mv: "moves ?doc ?S (tidy D h) h2" using st(4) unfolding s moved_ok_def by blast
  have oh: "tidy D h old = Some (relink D old o1)" using assms(6) by (simp add: tidy_def)
  obtain rest where head: "xmlReplaceNode e (Ptr old) (Ptr cur) h = (if code < 0 then Some (NULL, h2) else rest)" and rest:
    "rest = do {
      o2 \<leftarrow> h2 old;
      h3 \<leftarrow> upd cur (\<lambda>m. m\<lparr>parent := parent o2, nextSib := nextSib o2\<rparr>) h2;
      h4 \<leftarrow> upd_if (nextSib o2) (\<lambda>m. m\<lparr>prevSib := Ptr cur\<rparr>) h3;
      o4 \<leftarrow> h4 old;
      h5 \<leftarrow> upd cur (\<lambda>m. m\<lparr>prevSib := prevSib o4\<rparr>) h4;
      h6 \<leftarrow> upd_if (prevSib o4) (\<lambda>m. m\<lparr>nextSib := Ptr cur\<rparr>) h5;
      c6 \<leftarrow> h6 cur;
      h7 \<leftarrow> upd_if (parent c6) (\<lambda>m.
               if ntype c6 = XML_ATTRIBUTE_NODE then (if properties m = Ptr old then m\<lparr>properties := Ptr cur\<rparr> else m)
               else m\<lparr>children := (if children m = Ptr old then Ptr cur else children m),
                      lastChild := (if lastChild m = Ptr old then Ptr cur else lastChild m)\<rparr>) h6;
      h8 \<leftarrow> upd old (\<lambda>m. m\<lparr>nextSib := NULL, prevSib := NULL, parent := NULL\<rparr>) h7;
      Some (Ptr old, h8) }"
    using assms(4-7) po ko 1 set oh
    by (simp add: xmlReplaceNode_def unusable_node [OF assms(5) w(5)] unusable_node [OF assms(6) w(5)])
  have "inserted_for e old G h ?doc cur D R (xmlReplaceNode e (Ptr old) (Ptr cur) h)"
  proof (cases "code < 0")
    case True
    then show ?thesis using head st(3) w2 mv assms(5) ls unfolding s by (auto simp: inserted_for_def)
  next
    case False
    obtain as bs where sp: "D (Kids p) = as @ old # bs" using split_list [OF oD] by blast
    note wd = well_formedD [OF w2]
    obtain o2 where o2: "h2 old = Some o2" "parent o2 = owner (Kids p)" "prevSib o2 = lastp as" "nextSib o2 = headp bs"
      and ne: "headp bs \<noteq> Ptr old" "lastp as \<noteq> Ptr old" "owner (Kids p) \<noteq> Ptr old"
      and ex: "\<And>a. owner (Kids p) = Ptr a \<Longrightarrow> h2 a \<noteq> None" "\<And>a. headp bs = Ptr a \<Longrightarrow> h2 a \<noteq> None" "\<And>a. lastp as = Ptr a \<Longrightarrow> h2 a \<noteq> None"
      by (rule unhook_facts [OF wd(1) sp typed_sound [OF wd(4,6)]]) blast
    obtain c2 where c2: "h2 cur = Some c2" "keeps (relink D cur c) c2" using moves_node [OF mv cD] by blast
    have kc: "ntype c2 = ntype c" "ndoc c2 = ?doc"
      using c2 moves_back [OF mv c2(1)] by (auto simp: keeps_def)
    obtain n2 where n2: "h2 p = Some n2" using ex(1) by auto
    have pS: "p \<notin> ?S" using assms(8) by (simp add: can_hold_def)
    obtain n where n: "h p = Some n" "ndoc n2 = ndoc n" using moves_back [OF mv n2] pS by (auto simp: tidy_Some)
    have dn: "ndoc n2 = ndoc c2" using n assms(8) kc(2) by (simp add: can_hold_def)
    have cu: "cur \<notin> set (D (Kids p))" unfolding D_def detach_in [OF w(3) assms(2,9)] by simp
    have nc: "headp bs \<noteq> Ptr cur" "lastp as \<noteq> Ptr cur" using cu sp by (auto dest: headp_Ptr)
    have nt: "ntype c2 \<noteq> XML_ATTRIBUTE_NODE" "\<not> is_document (ntype c2)" using kc(1) assms(7) nd(1) by simp_all
    have fin: "rest = Some (Ptr old, adj (Ptr old) clear_links (adj (Ptr p) (swap_children old cur) (adj (lastp as) (\<lambda>m. m\<lparr>nextSib := Ptr cur\<rparr>)
      (adj (Ptr cur) (\<lambda>m. m\<lparr>prevSib := lastp as\<rparr>) (adj (headp bs) (\<lambda>m. m\<lparr>prevSib := Ptr cur\<rparr>)
      (adj (Ptr cur) (\<lambda>m. m\<lparr>parent := Ptr p, nextSib := headp bs\<rparr>) h2))))))"
      unfolding rest by (rule swap_steps [OF o2(1) _ o2(3,4) c2(1) nt(1) n2 ex(3,2) ne(1,2) assms(4) nc]) (simp_all add: o2(2))
    have Req: "R = swap_in (Kids p) as old cur bs r D"
    proof -
      have "distinct (D (Kids p))" using wd(3) by (simp add: disjoint_groups_def)
      then have "old \<notin> set as" "old \<notin> set bs" unfolding sp by auto
      then have "map (\<lambda>x. if x = old then cur else x) as = as" "map (\<lambda>x. if x = old then cur else x) bs = bs" by (auto intro!: map_idI)
      then show ?thesis unfolding R_def replaced_def swap_in_def sp by simp
    qed
    have pD: "p \<notin> subtree D cur" using pS s by simp
    note sw = swap_heap [OF w2 lD sp c2(1) nt n2 pD dn, folded Req]
    have "moves ?doc ?S (tidy R h) (tidy R h2)" using moves_tidy [OF mv, of R] by simp
    moreover have "xmlReplaceNode e (Ptr old) (Ptr cur) h = Some (Ptr old, tidy R h2)" using head False fin sw(2) by simp
    ultimately show ?thesis using sw(1) unfolding inserted_for_def by blast
  qed
  then show ?thesis unfolding R_def D_def .
qed

end
