(* ===== verification/DocumentTree.thy ===== *)
theory DocumentTree
  imports TreeReplace
begin

text \<open>
  A sample document, and the properties of the operations of the document tree, applied to it.
\<close>

section \<open>A sample document\<close>

text \<open>
  Node 30 is a document with the root element 20, which has an attribute 18, whose value is the text 17, and the
  children 15, an element, and 14, a text.  Element 12 with the attribute 11, an identifier, and text 7 are not
  linked.  A child has a smaller address than its parent.
\<close>

definition sample_forest :: forest where
  "sample_forest k = (case k of
      Kids a \<Rightarrow> if a = 30 then [20] else if a = 20 then [15, 14] else if a = 18 then [17] else if a = 12 then [9, 8] else if a = 11 then [10] else []
    | Props a \<Rightarrow> if a = 20 then [18] else if a = 12 then [11] else []
    | Loose r \<Rightarrow> if r \<in> {0, 1, 2, 3, 4, 7, 12, 30} then [r] else [])"

definition sample_home :: "addr \<Rightarrow> group" where
  "sample_home x = (if x = 20 then Kids 30 else if x \<in> {15, 14} then Kids 20 else if x = 17 then Kids 18 else if x \<in> {9, 8} then Kids 12
     else if x = 10 then Kids 11 else if x = 18 then Props 20 else if x = 11 then Props 12 else Loose x)"

definition sample_type :: "addr \<Rightarrow> xmlElementType" where
  "sample_type x = (if x = 30 then XML_DOCUMENT_NODE else if x \<in> {20, 15, 12, 8} then XML_ELEMENT_NODE
     else if x \<in> {18, 11} then XML_ATTRIBUTE_NODE else if x < 5 then XML_ENTITY_DECL else XML_TEXT_NODE)"

definition sample_name :: "addr \<Rightarrow> str ptr" where
  "sample_name x = (if sample_type x = XML_TEXT_NODE then Ptr (Static, cstr_of (asc ''text'')) else Ptr (Interned 0, cstr_of (asc ''x'')))"

definition sample_node :: "addr \<Rightarrow> xmlNode" where
  "sample_node x = \<lparr>ntype = sample_type x, name = sample_name x,
     children = headp (sample_forest (Kids x)), lastChild = lastp (sample_forest (Kids x)),
     parent = owner (sample_home x), nextSib = nxt (sample_forest (sample_home x)) x, prevSib = prv (sample_forest (sample_home x)) x,
     ndoc = (if x < 5 then NULL else Ptr 30), ns = NULL, content = (if sample_type x = XML_TEXT_NODE then Ptr (Malloced, cstr_of (asc ''ab'')) else NULL),
     properties = headp (sample_forest (Props x)), attr_id = (if x = 11 then Ptr (asc ''k'') else NULL), standalone = 0,
     intSubset = NULL, extSubset = NULL, ids = (if x = 30 then Ptr [asc ''k'' \<mapsto> Ptr 11] else NULL), ndict = (if x = 30 then [0] else []),
     entities = NULL, pentities = NULL, etype = XML_INTERNAL_PREDEFINED_ENTITY\<rparr>"

definition sample_heap :: nheap where
  "sample_heap x = (if x \<in> {0, 1, 2, 3, 4, 7, 8, 9, 10, 11, 12, 14, 15, 17, 18, 20, 30} then Some (sample_node x) else None)"

definition sample_env :: env where
  "sample_env = \<lparr>mem = \<lambda>_. True, interns = \<lambda>_ _. Ptr 0\<rparr>"

lemma sample_in: "x \<in> set (sample_forest k) \<longleftrightarrow> k = sample_home x \<and> sample_heap x \<noteq> None"
  by (cases k) (auto simp: sample_forest_def sample_home_def sample_heap_def split: if_splits)

lemma sample_distinct: "distinct (sample_forest k)"
  by (cases k) (simp_all add: sample_forest_def)

lemma sample_disjoint: "disjoint_groups sample_forest"
  unfolding disjoint_groups_def by (simp add: sample_in sample_distinct)

lemma sample_Some: "sample_heap x = Some n \<Longrightarrow> n = sample_node x"
  by (simp add: sample_heap_def split: if_splits)

lemma sample_sel [simp]: "ntype (sample_node x) = sample_type x" "ndoc (sample_node x) = (if x < 5 then NULL else Ptr 30)"
  "entities (sample_node x) = NULL" "intSubset (sample_node x) = NULL" "extSubset (sample_node x) = NULL"
  by (simp_all add: sample_node_def)

lemma sample_linked: "linked sample_forest sample_heap"
proof -
  have "groups_ok sample_forest sample_heap"
    unfolding groups_ok_def
  proof (intro conjI allI impI)
    fix a
    show "\<exists>n. sample_heap a = Some n \<and> ntype n \<noteq> XML_ENTITY_REF_NODE" if "sample_forest (Kids a) \<noteq> []"
      using that by (auto simp: sample_forest_def sample_heap_def sample_type_def split: if_splits)
    show "\<exists>n. sample_heap a = Some n \<and> has_props (ntype n)" if "sample_forest (Props a) \<noteq> []"
      using that by (auto simp: sample_forest_def sample_heap_def sample_type_def has_props_def split: if_splits)
  qed (auto simp: sample_disjoint sample_in)
  moreover have "tidy sample_forest sample_heap x = sample_heap x" for x
  proof (cases "sample_heap x")
    case (Some n)
    have "home sample_forest x = sample_home x" by (rule home_eq [OF sample_disjoint]) (simp add: sample_in Some)
    moreover have "sample_type x \<noteq> XML_ENTITY_REF_NODE" by (simp add: sample_type_def)
    ultimately have "relink sample_forest x n = n" unfolding sample_Some [OF Some] relink_def by (simp add: sample_node_def)
    then show ?thesis using Some by (simp add: tidy_def)
  qed (simp add: tidy_def)
  ultimately show ?thesis by (simp add: linked_def fun_eq_iff)
qed

lemma sample_below: "(x, a) \<in> below sample_forest \<Longrightarrow> x < a"
  unfolding below_def by (auto simp: sample_forest_def split: if_splits)

lemma sample_well_formed: "well_formed sample_forest sample_heap"
  unfolding well_formed_def
proof (intro conjI)
  show "linked sample_forest sample_heap" by (rule sample_linked)
  show "wf (below sample_forest)" by (rule wf_subset [OF wf_less]) (auto dest: sample_below)
  have "safe_node sample_heap (sample_node x)" for x
    by (auto simp: safe_node_def sample_node_def sample_type_def sample_name_def terminated_str_def present_def sample_heap_def)
  then show "safe sample_heap"
    by (auto simp: safe_def dest: sample_Some) (auto simp: sample_heap_def xmlEntityLt_def xmlEntityGt_def xmlEntityAmp_def xmlEntityApos_def xmlEntityQuot_def)
  show "typed sample_forest sample_heap"
    unfolding typed_def sample_in
  proof (intro conjI allI impI)
    fix k x n assume k: "k = sample_home x \<and> sample_heap x \<noteq> None" and n: "sample_heap x = Some n"
    have x: "x \<in> {0, 1, 2, 3, 4, 7, 8, 9, 10, 11, 12, 14, 15, 17, 18, 20, 30}" using n by (simp add: sample_heap_def split: if_splits)
    show "kind_ok k (ntype n)"
      unfolding sample_Some [OF n] using k x by (auto simp: kind_ok_def sample_home_def sample_type_def is_document_def)
    fix a m assume a: "owner k = Ptr a" and m: "sample_heap a = Some m"
    have "owner (sample_home x) = Ptr a" using a k by simp
    then have "5 \<le> x \<and> 5 \<le> a" by (simp add: sample_home_def split: if_splits) auto
    moreover have "b = 20 \<or> b = 12" if "sample_home x = Props b" for b using that by (simp add: sample_home_def split: if_splits)
    then have "sample_type a = XML_ELEMENT_NODE" if "k = Props b" for b using that a k by (auto simp: sample_type_def)
    ultimately show "heir_ok k n m" unfolding sample_Some [OF n] sample_Some [OF m] by (simp add: heir_ok_def)
  next
    fix x n assume "sample_heap x = Some n" "is_document (ntype n)"
    then show "ndoc n = Ptr x" using sample_Some [of x n] by (auto simp: is_document_def sample_type_def split: if_splits)
  qed
qed

lemma sample_ids: "ids_ok sample_heap"
  unfolding ids_ok_def
proof (intro allI impI)
  fix d doc t v a assume "sample_heap d = Some doc" "ids doc = Ptr t" "t v = Some (Ptr a)"
  then have "a = 11 \<and> d = 30 \<and> v = asc ''k''" using sample_Some [of d doc] by (auto simp: sample_node_def split: if_splits)
  then show "\<exists>n. sample_heap a = Some n \<and> ntype n = XML_ATTRIBUTE_NODE \<and> attr_id n = Ptr v \<and> ndoc n = Ptr d"
    by (simp add: sample_heap_def sample_type_def) (simp add: sample_node_def)
qed

text \<open>A subtree is in every set that is closed below and contains its root.\<close>

lemma subtree_bound: "a \<in> S \<Longrightarrow> (\<And>x y. (x, y) \<in> below G \<Longrightarrow> y \<in> S \<Longrightarrow> x \<in> S) \<Longrightarrow> subtree G a \<subseteq> S"
proof
  fix x assume a: "a \<in> S" and c: "\<And>x y. (x, y) \<in> below G \<Longrightarrow> y \<in> S \<Longrightarrow> x \<in> S" and "x \<in> subtree G a"
  then have "(x, a) \<in> (below G)\<^sup>*" by (simp add: subtree_def)
  then show "x \<in> S" by (induction rule: converse_rtrancl_induct) (auto intro: a c)
qed

lemma sample_subtrees: "subtree sample_forest 12 \<subseteq> {8, 9, 10, 11, 12}" "subtree sample_forest 7 \<subseteq> {7}" "subtree sample_forest 20 \<subseteq> {14, 15, 17, 18, 20}"
  by (rule subtree_bound; auto simp: below_def sample_forest_def split: if_splits)+

lemma plain_tree_mono: "S \<subseteq> T \<Longrightarrow> plain_tree T h \<Longrightarrow> plain_tree S h"
  unfolding plain_tree_def by blast

lemma unreferenced_mono: "S \<subseteq> T \<Longrightarrow> unreferenced T h \<Longrightarrow> unreferenced S h"
  unfolding unreferenced_def by fast

lemma sample_plain: "S \<subseteq> {7, 8, 9, 10, 11, 12, 14, 15, 17, 18, 20} \<Longrightarrow> plain_tree S sample_heap"
  by (rule plain_tree_mono, assumption) (auto simp: plain_tree_def sample_heap_def sample_type_def is_document_def split: if_splits)

lemma sample_unreferenced: "S \<subseteq> {7, 8, 9, 10, 11, 12, 14, 15, 17, 18, 20} \<Longrightarrow> unreferenced S sample_heap"
  by (rule unreferenced_mono, assumption)
    (auto simp: unreferenced_def xmlEntityLt_def xmlEntityGt_def xmlEntityAmp_def xmlEntityApos_def xmlEntityQuot_def dest!: sample_Some split: if_splits)

section \<open>Properties\<close>

lemma sample_at: "sample_heap 7 = Some (sample_node 7)" "sample_heap 12 = Some (sample_node 12)" "sample_heap 14 = Some (sample_node 14)"
  "sample_heap 15 = Some (sample_node 15)" "sample_heap 20 = Some (sample_node 20)" "sample_heap 30 = Some (sample_node 30)"
  by (simp_all add: sample_heap_def)

lemma sample_lists: "sample_forest (Kids 20) = [15, 14]" "sample_forest (Props 20) = [18]" "sample_forest (Kids 30) = [20]" "sample_forest (Loose 12) = [12]"
  "sample_forest (Loose 7) = [7]" "sample_forest (Loose 5) = []" "sample_forest (Kids 7) = []"
  by (simp_all add: sample_forest_def)

lemma sample_types: "sample_type 7 = XML_TEXT_NODE" "sample_type 12 = XML_ELEMENT_NODE" "sample_type 14 = XML_TEXT_NODE"
  "sample_type 15 = XML_ELEMENT_NODE" "sample_type 20 = XML_ELEMENT_NODE" "sample_type 30 = XML_DOCUMENT_NODE"
  by (simp_all add: sample_type_def)

lemma sample_hold: "can_hold sample_forest sample_heap (Ptr 30) (Kids 20) 12"
  using sample_subtrees(1) by (auto simp: can_hold_def present_def room_in_def sample_at sample_types kind_ok_def is_document_def)

text \<open>
  C16. Unlinking keeps a document well-formed: the node is alone afterwards, and its siblings and its parent are linked as if it
  had never been there (\<open>tidy\<close>).  Before that only the tables of its document may change (from \<open>h\<close> to \<open>h1\<close>).  A DTD is no
  longer the internal or external subset of the document.  A general entity is no longer listed under its name by a subset that
  listed it, and all other entries stay.  The table of parameter entities never changes: an unlinked parameter entity stays in
  it.  For every other node nothing changes but the links.
\<close>

theorem xmlUnlinkNode_ok:
  assumes "well_formed G h" "cur \<in> set (G k)" "h cur = Some c" "G (Loose r) = []"
  shows "\<exists>h1. quiet_step h h1 \<and>
    xmlUnlinkNode (Ptr cur) h = Some (tidy (detach k cur r G) h1) \<and> well_formed (detach k cur r G) (tidy (detach k cur r G) h1) \<and>
    (ntype c \<notin> {XML_DTD_NODE, XML_ENTITY_DECL} \<longrightarrow> h1 = h) \<and>
    (\<forall>d doc. ntype c = XML_DTD_NODE \<and> ndoc c = Ptr d \<and> h d = Some doc \<longrightarrow>
       h1 = h(d \<mapsto> doc\<lparr>intSubset := (if intSubset doc = Ptr cur then NULL else intSubset doc),
                      extSubset := (if extSubset doc = Ptr cur then NULL else extSubset doc)\<rparr>)) \<and>
    (ntype c = XML_ENTITY_DECL \<longrightarrow>
       (\<forall>x. x \<notin> subsets (ndoc c) h \<longrightarrow> h1 x = h x) \<and> (\<forall>x. map_option pentities (h1 x) = map_option pentities (h x))) \<and>
    (\<forall>s m. ntype c = XML_ENTITY_DECL \<and> is_general (etype c) \<and> s \<in> subsets (ndoc c) h \<and> h s = Some m \<longrightarrow>
       (\<exists>t. h1 s = Some (m\<lparr>entities := t\<rparr>) \<and>
         (\<forall>p v. table_lookup t (Ptr (p, v)) =
           (if (\<exists>q w. name c = Ptr (q, w) \<and> strval w = strval v) \<and> table_lookup (entities m) (Ptr (p, v)) = Ptr cur
            then NULL else table_lookup (entities m) (Ptr (p, v))))))"
proof (rule exI [of _ "delisted cur c h"], intro conjI)
  note u = node_unlinked [where G = G and h = h and cur = cur and k = k and c = c and r = r, OF assms]
  show "quiet_step h (delisted cur c h)" "xmlUnlinkNode (Ptr cur) h = Some (tidy (detach k cur r G) (delisted cur c h))"
    "well_formed (detach k cur r G) (tidy (detach k cur r G) (delisted cur c h))" using u by simp_all
  show "ntype c \<notin> {XML_DTD_NODE, XML_ENTITY_DECL} \<longrightarrow> delisted cur c h = h"
    using delisted_other [of c cur h] by blast
  show "\<forall>d doc. ntype c = XML_DTD_NODE \<and> ndoc c = Ptr d \<and> h d = Some doc \<longrightarrow>
       delisted cur c h = h(d \<mapsto> doc\<lparr>intSubset := (if intSubset doc = Ptr cur then NULL else intSubset doc),
                      extSubset := (if extSubset doc = Ptr cur then NULL else extSubset doc)\<rparr>)"
    using delisted_dtd by (intro allI impI) (elim conjE)
  show "ntype c = XML_ENTITY_DECL \<longrightarrow>
       (\<forall>x. x \<notin> subsets (ndoc c) h \<longrightarrow> delisted cur c h x = h x) \<and>
       (\<forall>x. map_option pentities (delisted cur c h x) = map_option pentities (h x))"
    using delisted_rest [of c] by (intro allI impI conjI) assumption+
  show "\<forall>s m. ntype c = XML_ENTITY_DECL \<and> is_general (etype c) \<and> s \<in> subsets (ndoc c) h \<and> h s = Some m \<longrightarrow>
       (\<exists>t. delisted cur c h s = Some (m\<lparr>entities := t\<rparr>) \<and>
         (\<forall>p v. table_lookup t (Ptr (p, v)) =
           (if (\<exists>q w. name c = Ptr (q, w) \<and> strval w = strval v) \<and> table_lookup (entities m) (Ptr (p, v)) = Ptr cur
            then NULL else table_lookup (entities m) (Ptr (p, v)))))"
    by (intro allI impI) (elim conjE, rule delisted_general)
qed

theorem xmlUnlinkNode_ok_witness:
  "\<exists>h1. quiet_step sample_heap h1 \<and> h1 = sample_heap \<and> xmlUnlinkNode (Ptr 15) sample_heap = Some (tidy (detach (Kids 20) 15 5 sample_forest) h1) \<and>
    well_formed (detach (Kids 20) 15 5 sample_forest) (tidy (detach (Kids 20) 15 5 sample_forest) h1)"
  using xmlUnlinkNode_ok [of sample_forest sample_heap 15 "Kids 20" "sample_node 15" 5]
  by (simp add: sample_well_formed sample_lists sample_at sample_types)

text \<open>
  C6. In a well-formed document, inserting a node behind \<open>p\<close> takes it out of its group, puts it behind \<open>p\<close> and gives its
  whole subtree the document of \<open>p\<close>; every link is right afterwards and no freed node is read.  NULL means that the node comes
  from another document and a string of its subtree could not be copied (\<open>losing\<close>: the other dictionary refuses a name or a
  request for memory fails); then the node is alone and the rest is well-formed.  The node is no attribute, and \<open>p\<close> is no
  attribute, no document and not below the node (\<open>can_hold\<close>).
\<close>

theorem xmlAddNextSibling_ok:
  assumes "well_formed G h" "cur \<in> set (G k0)" "p \<in> set (G k)" "p \<noteq> cur" "h cur = Some c" "h p = Some n"
    and "ntype c \<noteq> XML_ATTRIBUTE_NODE" "can_hold G h (ndoc n) k cur" "G (Loose r) = []"
  shows "if nxt (G k) p = Ptr cur then xmlAddNextSibling e (Ptr p) (Ptr cur) h = Some (Ptr cur, h)
    else inserted e G h (ndoc n) cur (detach k0 cur r G) (relocate k0 cur k (insert_after p cur) G) (xmlAddNextSibling e (Ptr p) (Ptr cur) h)"
  by (rule next_sibling_inserted [where G = G and h = h and cur = cur and ?k0.0 = k0 and p = p and k = k and c = c and n = n and r = r and e = e, OF assms])

theorem xmlAddNextSibling_ok_witness:
  "\<exists>h'. xmlAddNextSibling sample_env (Ptr 15) (Ptr 12) sample_heap = Some (Ptr 12, h') \<and>
    well_formed (relocate (Loose 12) 12 (Kids 20) (insert_after 15 12) sample_forest) h'"
  using xmlAddNextSibling_ok [of sample_forest sample_heap 12 "Loose 12" 15 "Kids 20" "sample_node 12" "sample_node 15" 5 sample_env]
  by (auto simp: sample_well_formed sample_lists sample_at sample_types sample_hold inserted_for_def)

text \<open>
  C9. Appending: \<open>xmlAddChild\<close> takes the node out of its group and makes it the last child of the parent; all other lists are as
  they were, its whole subtree gets the document of the parent, and every link is right.  A node that is already the last child
  stays where it is and nothing changes.  NULL means that a string of a node from another document could not be copied
  (\<open>losing\<close>); then the node is alone.  The branches for attributes and for texts that are merged are not part of it: the node
  is no attribute and no document, the parent is no text, no entity reference and not below the node (\<open>can_hold\<close>), and
  the node is no text that joins the last child (\<open>joins\<close>).
\<close>

theorem xmlAddChild_ok:
  assumes "well_formed G h" "cur \<in> set (G k0)" "h p = Some n" "h cur = Some c" "ntype n \<noteq> XML_TEXT_NODE" "ntype c \<noteq> XML_ATTRIBUTE_NODE"
    and "can_hold G h (ndoc n) (Kids p) cur" "G (Loose r) = []" "\<not> joins h c (lastp (G (Kids p)))"
  shows "if lastp (G (Kids p)) = Ptr cur then xmlAddChild e (Ptr p) (Ptr cur) h = Some (Ptr cur, h)
    else inserted e G h (ndoc n) cur (detach k0 cur r G) (relocate k0 cur (Kids p) (\<lambda>xs. xs @ [cur]) G) (xmlAddChild e (Ptr p) (Ptr cur) h)"
  by (rule child_appended [where G = G and h = h and cur = cur and ?k0.0 = k0 and p = p and c = c and n = n and r = r and e = e, OF assms])

theorem xmlAddChild_ok_witness:
  "\<exists>h'. xmlAddChild sample_env (Ptr 20) (Ptr 12) sample_heap = Some (Ptr 12, h') \<and>
    well_formed (relocate (Loose 12) 12 (Kids 20) (\<lambda>xs. xs @ [12]) sample_forest) h'"
  using xmlAddChild_ok [of sample_forest sample_heap 12 "Loose 12" 20 "sample_node 20" "sample_node 12" 5 sample_env]
  by (auto simp: sample_well_formed sample_lists sample_at sample_types sample_hold joins_def inserted_for_def)

theorem xmlAddChild_text_witness:
  "\<exists>h' m'. xmlAddChild sample_env (Ptr 20) (Ptr 7) sample_heap = Some (Ptr 14, h') \<and> h' 7 = None \<and> h' 14 = Some m' \<and>
    str_text (content m') = asc ''abab''"
proof -
  have c: "content (sample_node x) = Ptr (Malloced, cstr_of (asc ''ab''))" "name (sample_node x) = Ptr (Static, cstr_of (asc ''text''))"
    if "sample_type x = XML_TEXT_NODE" for x using that by (simp_all add: sample_node_def sample_name_def)
  have j: "joins sample_heap (sample_node 7) (Ptr 14)" by (simp add: joins_def same_pointer_def sample_at sample_types c)
  have t: "str_text (content (sample_node x)) = asc ''ab''" if "sample_type x = XML_TEXT_NODE" for x
    using c [OF that] by (simp add: str_text_def cstr_of_def asc_def ch_def)
  have n: "14 \<notin> subtree sample_forest 7" using sample_subtrees(2) by auto
  have s: "subtree sample_forest 7 \<subseteq> {7, 8, 9, 10, 11, 12, 14, 15, 17, 18, 20}" using sample_subtrees(2) by auto
  have "lastp (sample_forest (Kids 20)) = Ptr 14" by (simp add: sample_lists)
  note r = xmlAddChild_text [of sample_forest sample_heap 7 "Loose 7" 20 "sample_node 20" "sample_node 7" 14 "sample_node 14" 5 sample_env,
    OF sample_well_formed sample_ids _ _ _ _ _ this _ _ j n sample_plain [OF s] sample_unreferenced [OF s]]
  have "asc ''ab'' @ asc ''ab'' = asc ''abab''" by (simp add: asc_def)
  moreover have "counted (content (sample_node x))" if "sample_type x = XML_TEXT_NODE" for x using t [OF that] by (simp add: counted_def asc_def)
  moreover have "\<not> refused (mem sample_env) (length (asc ''abab''))" by (simp add: refused_def sample_env_def asc_def)
  ultimately show ?thesis using r by (auto simp: sample_at sample_types sample_lists t)
qed

text \<open>
  C7. \<open>xmlReplaceNode\<close> puts \<open>cur\<close>, from any place, into the place of the child \<open>old\<close>, which is alone afterwards, and gives its
  subtree the document of \<open>old\<close>.  NULL is returned only when \<open>cur\<close> comes from another document and a string of its subtree
  could not be copied (\<open>losing\<close>: the dictionary of the document refuses a name, or a request for memory fails); then \<open>old\<close> is
  still in its place and \<open>cur\<close> is alone.  Neither node is an attribute, \<open>cur\<close> is no document and \<open>old\<close> is not below it
  (\<open>can_hold\<close>).
\<close>

theorem xmlReplaceNode_ok:
  assumes "well_formed G h" "cur \<in> set (G k0)" "old \<in> set (G (Kids p))" "cur \<noteq> old" "h cur = Some c" "h old = Some o1"
    and "ntype c \<noteq> XML_ATTRIBUTE_NODE" "can_hold G h (ndoc o1) (Kids p) cur" "G (Loose r) = []"
  shows "inserted_for e old G h (ndoc o1) cur (detach k0 cur r G) (replaced (Kids p) old cur r (detach k0 cur r G))
    (xmlReplaceNode e (Ptr old) (Ptr cur) h)"
  by (rule node_replaced [where G = G and h = h and cur = cur and ?k0.0 = k0 and old = old and p = p and c = c and ?o1.0 = o1 and r = r and e = e, OF assms])

theorem xmlReplaceNode_ok_witness:
  "\<exists>h'. xmlReplaceNode sample_env (Ptr 15) (Ptr 12) sample_heap = Some (Ptr 15, h') \<and>
    well_formed (replaced (Kids 20) 15 12 5 (detach (Loose 12) 12 5 sample_forest)) h'"
  using xmlReplaceNode_ok [of sample_forest sample_heap 12 "Loose 12" 15 20 "sample_node 12" "sample_node 15" 5 sample_env]
  by (auto simp: sample_well_formed sample_lists sample_at sample_types sample_hold inserted_for_def)

text \<open>
  C4. \<open>xmlUnlinkNode\<close> and \<open>xmlFreeNode\<close> free exactly the subtree of a node: the loop of \<open>xmlFreeNodeList\<close>, which walks without
  recursion and overwrites \<open>children\<close>, ends and reads and frees no freed node; the identifiers of the freed attributes leave the
  table of the document, and what is left is well-formed.
\<close>

theorem unlink_and_free:
  assumes "well_formed G h" "ids_ok h" "cur \<in> set (G k)" "G (Loose r) = []" "plain_tree (subtree G cur) h" "unreferenced (subtree G cur) h"
  shows "\<exists>h1 h'. xmlUnlinkNode (Ptr cur) h = Some h1 \<and> h1 = tidy (detach k cur r G) h \<and> xmlFreeNode cur h1 = Some h' \<and>
    frees (subtree G cur) h1 h' \<and> ids_ok h' \<and> well_formed (prune (subtree G cur) G) h'"
proof -
  obtain h' where h': "drop_node cur h = Some h'" "frees (subtree G cur) (tidy (detach k cur r G) h) h'" "ids_ok h'"
    "well_formed (prune (subtree G cur) G) h'" using drop_node_ok [OF assms] by blast
  note w = well_formedD [OF assms(1)]
  obtain c where c: "h cur = Some c" using group_node [OF assms(1,3)] by blast
  have "xmlUnlinkNodeInternal cur h = Some (tidy (detach k cur r G) h)" by (rule unlink_ok [OF w(1) assms(3,4) typed_sound [OF w(4,6)]])
  moreover have "ntype c \<notin> {XML_DTD_NODE, XML_ENTITY_DECL, XML_NAMESPACE_DECL}"
    using assms(5) c subtree_self safe_nodeD [OF w(5) c] unfolding plain_tree_def safe_node_def by blast
  ultimately show ?thesis using h' c by (simp add: xmlUnlinkNode_def drop_node_def)
qed

theorem unlink_and_free_witness:
  "\<exists>h1 h'. xmlUnlinkNode (Ptr 20) sample_heap = Some h1 \<and> xmlFreeNode 20 h1 = Some h' \<and> h' 20 = None \<and> h' 30 \<noteq> None \<and>
    well_formed (prune (subtree sample_forest 20) sample_forest) h'"
proof -
  have s: "subtree sample_forest 20 \<subseteq> {7, 8, 9, 10, 11, 12, 14, 15, 17, 18, 20}" using sample_subtrees(3) by auto
  obtain h1 h' where h: "xmlUnlinkNode (Ptr 20) sample_heap = Some h1" "h1 = tidy (detach (Kids 30) 20 5 sample_forest) sample_heap"
    "xmlFreeNode 20 h1 = Some h'" "frees (subtree sample_forest 20) h1 h'" "well_formed (prune (subtree sample_forest 20) sample_forest) h'"
    using unlink_and_free [of sample_forest sample_heap 20 "Kids 30" 5, OF sample_well_formed sample_ids _ _ sample_plain [OF s] sample_unreferenced [OF s]]
    by (auto simp: sample_lists)
  have "30 \<notin> subtree sample_forest 20" using s by auto
  then show ?thesis using h by (auto simp: frees_def tidy_def sample_at)
qed

text \<open>
  Only the attributes of an element are moved.  An XInclude node keeps its attributes in the old document: nothing but the
  node itself is written.
\<close>

lemma xinclude_attributes_stay:
  assumes "h a = Some n" "ntype n = XML_XINCLUDE_START \<or> ntype n = XML_XINCLUDE_END" "children n = NULL"
    and "xmlSetTreeDoc e (Ptr a) doc h = Some (code, h')" "x \<noteq> a"
  shows "h' x = h x"
proof -
  have s: "set_doc e doc (Tree a) (False, h) = (if ndoc n = doc then Some (False, h) else xmlNodeSetDoc e a doc h)"
  proof -
    have t: "set_doc e doc (Trees NULL) s = Some s" for s by (subst set_doc.simps) simp
    have m: "map_option (\<lambda>(l, y). (l, y)) r = r" for r :: "(bool \<times> nheap) option" by (cases r) auto
    show ?thesis using assms(1-3) by (subst set_doc.simps) (auto simp: is_nsdecl_def t apfst_def map_prod_def option.map_ident m option.map_id)
  qed
  then obtain l where "(if ndoc n = doc then Some (False, h) else xmlNodeSetDoc e a doc h) = Some (l, h')"
    using assms(4) by (auto simp: xmlSetTreeDoc_def split: if_splits)
  then show ?thesis using assms(1,2,5)
    by (auto simp: xmlNodeSetDoc_def upd_def Let_def Option.bind_eq_Some_conv split: if_splits)
qed

text \<open>
  C8. \<open>xmlSetTreeDoc\<close> ends for every node of a well-formed document, follows no dangling pointer, gives the document to exactly
  the subtree of the node, attributes and their values included, and keeps every link.  It returns -1 only when a string of
  the subtree could not be copied (\<open>losing\<close>).  In a well-formed document only elements have attributes: the code does not
  move the attributes of an XInclude node, see \<open>xinclude_attributes_stay\<close>.
\<close>

theorem xmlSetTreeDoc_ok:
  assumes "well_formed G h" "h a = Some n" "present doc h"
  shows "\<exists>code h'. xmlSetTreeDoc e (Ptr a) doc h = Some (code, h') \<and> (code = 0 \<or> code = - 1) \<and>
    safe h' \<and> linked G h' \<and> moves doc (subtree G a) h h' \<and> (code = - 1 \<longrightarrow> losing e doc (subtree G a) h)"
proof -
  note w = well_formedD [OF assms(1)]
  show ?thesis
  proof (cases "ndoc n = doc")
    case True
    then have "moves doc (subtree G a) h h" using subtree_present [OF assms(1,2)] by (fastforce simp: moves_def keeps_def)
    then show ?thesis using set_tree_same [where h = h and cur = a and c = n and doc = doc and e = e, OF assms(2) True] w
      by (intro exI [of _ 0] exI [of _ h]) simp
  next
    case False
    have "tree_moves G e doc a" by (rule tree_moves_all [OF w(3,4)])
    then obtain l h' where h': "set_doc e doc (Tree a) (False, h) = Some (l, h')" "moved_ok doc (subtree G a) h h'"
      "l \<longrightarrow> losing e doc (subtree G a) h"
      using well_formed_ready [OF assms(1,2) False assms(3)] unfolding tree_moves_def by blast
    then have "linked G h'" using linked_moves [OF _ w(1)] by (auto simp: moved_ok_def)
    then show ?thesis using h' by (auto simp: xmlSetTreeDoc_def moved_ok_def)
  qed
qed

theorem xmlSetTreeDoc_ok_witness:
  "\<exists>code h' m. xmlSetTreeDoc sample_env (Ptr 12) NULL sample_heap = Some (code, h') \<and> linked sample_forest h' \<and> h' 12 = Some m \<and> ndoc m = NULL"
proof -
  obtain code h' where h: "xmlSetTreeDoc sample_env (Ptr 12) NULL sample_heap = Some (code, h')" "linked sample_forest h'"
    "moves NULL (subtree sample_forest 12) sample_heap h'"
    using xmlSetTreeDoc_ok [of sample_forest sample_heap 12 "sample_node 12" NULL sample_env]
    by (auto simp: sample_well_formed sample_at present_def)
  obtain m where m: "h' 12 = Some m" using moves_node [OF h(3) sample_at(2)] by blast
  have "ndoc m = NULL" using moves_back [OF h(3) m] by auto
  then show ?thesis using h(1,2) m by blast
qed

text \<open>
  C17. The walks over elements are right on every well-formed document: the first, the last and the number of the element
  children, the next and the previous element among the siblings, the root element.
\<close>

theorem element_walks:
  assumes "well_formed G h"
  shows "(\<forall>p n. h p = Some n \<longrightarrow> ntype n \<in> with_children \<longrightarrow>
      xmlFirstElementChild (Ptr p) h = Some (headp (filter (element_at h) (G (Kids p)))) \<and>
      xmlLastElementChild (Ptr p) h = Some (lastp (filter (element_at h) (G (Kids p)))) \<and>
      xmlChildElementCount (Ptr p) h = Some (length (filter (element_at h) (G (Kids p))))) \<and>
    (\<forall>k us x vs n. G k = us @ x # vs \<longrightarrow> h x = Some n \<longrightarrow> ntype n \<in> siblings_allowed \<longrightarrow>
      xmlNextElementSibling (Ptr x) h = Some (headp (filter (element_at h) vs)) \<and>
      xmlPreviousElementSibling (Ptr x) h = Some (lastp (filter (element_at h) us))) \<and>
    (\<forall>d n. h d = Some n \<longrightarrow> is_document (ntype n) \<longrightarrow> xmlDocGetRootElement (Ptr d) h = Some (headp (filter (element_at h) (G (Kids d)))))"
  using element_children [OF assms] element_siblings [OF assms] document_root [OF assms] by blast

theorem element_walks_witness:
  "xmlFirstElementChild (Ptr 20) sample_heap = Some (Ptr 15) \<and> xmlDocGetRootElement (Ptr 30) sample_heap = Some (Ptr 20)"
proof -
  have "filter (element_at sample_heap) [15, 14] = [15]" "filter (element_at sample_heap) [20] = [20]"
    by (simp_all add: element_at_def sample_at is_element_def sample_types)
  then show ?thesis
    using element_walks [OF sample_well_formed] sample_at(5,6) sample_types sample_lists by (simp add: with_children_def is_document_def)
qed

end
