(* ===== verification/TreeEdits.thy ===== *)
theory TreeEdits
  imports DocumentTree
begin

text \<open>
  Sequences of operations, for a caller who knows only pointers: as long as no node is moved below itself, every operation
  returns and the document stays valid.
\<close>

section \<open>Editing a document\<close>

text \<open>
  A valid document has some forest with right links, in which all but finitely many lists without an owner are empty.
  Nothing below speaks of forests: what the caller must respect is said with pointers.
\<close>

definition few_loose :: "forest \<Rightarrow> bool" where
  "few_loose G \<longleftrightarrow> (\<exists>b. \<forall>r \<ge> b. G (Loose r) = [])"

definition valid :: "nheap \<Rightarrow> bool" where
  "valid h \<longleftrightarrow> (\<exists>G. well_formed G h \<and> few_loose G)"

definition parents :: "nheap \<Rightarrow> (addr \<times> addr) set" where
  "parents h = {(x, a). \<exists>n. h x = Some n \<and> parent n = Ptr a}"

datatype edit = Unlink addr | AddNext addr addr | AddPrev addr addr | AddLast addr addr | Replace addr addr

fun run_edit :: "env \<Rightarrow> edit \<Rightarrow> nheap \<Rightarrow> (addr ptr \<times> nheap) option" where
  "run_edit e (Unlink cur) h = map_option (Pair (Ptr cur)) (xmlUnlinkNode (Ptr cur) h)"
| "run_edit e (AddNext p cur) h = xmlAddNextSibling e (Ptr p) (Ptr cur) h"
| "run_edit e (AddPrev p cur) h = xmlAddPrevSibling e (Ptr p) (Ptr cur) h"
| "run_edit e (AddLast p cur) h = xmlAddChild e (Ptr p) (Ptr cur) h"
| "run_edit e (Replace old cur) h = xmlReplaceNode e (Ptr old) (Ptr cur) h"

text \<open>Neither an attribute nor a document.\<close>

definition movable :: "nheap \<Rightarrow> addr \<Rightarrow> bool" where
  "movable h x \<longleftrightarrow> (\<exists>n. h x = Some n \<and> ntype n \<noteq> XML_ATTRIBUTE_NODE \<and> \<not> is_document (ntype n))"

text \<open>
  The target is not below the node that is moved.  A node is appended to no text, for which \<open>xmlAddChild\<close> frees it without
  unlinking it, to no entity reference and behind no text that it would be merged with.
\<close>

fun allowed :: "edit \<Rightarrow> nheap \<Rightarrow> bool" where
  "allowed (Unlink cur) h \<longleftrightarrow> h cur \<noteq> None"
| "allowed (AddNext p cur) h \<longleftrightarrow> movable h cur \<and> movable h p \<and> (p, cur) \<notin> (parents h)\<^sup>*"
| "allowed (AddPrev p cur) h \<longleftrightarrow> movable h cur \<and> movable h p \<and> (p, cur) \<notin> (parents h)\<^sup>*"
| "allowed (AddLast p cur) h \<longleftrightarrow> movable h cur \<and> (p, cur) \<notin> (parents h)\<^sup>* \<and>
     (\<exists>n c. h p = Some n \<and> h cur = Some c \<and> ntype n \<notin> {XML_TEXT_NODE, XML_ENTITY_REF_NODE} \<and> \<not> joins h c (lastChild n))"
| "allowed (Replace old cur) h \<longleftrightarrow> movable h cur \<and> movable h old \<and> (old, cur) \<notin> (parents h)\<^sup>* \<and>
     (\<exists>n. h old = Some n \<and> parent n \<noteq> NULL)"

lemma parents_below: "well_formed G h \<Longrightarrow> parents h = below G"
proof -
  assume w: "well_formed G h"
  note l = well_formedD(1) [OF w]
  have "(x, a) \<in> parents h \<longleftrightarrow> (x, a) \<in> below G" for x a
  proof
    assume "(x, a) \<in> parents h"
    then obtain n where n: "h x = Some n" "parent n = Ptr a" by (auto simp: parents_def)
    obtain k where k: "x \<in> set (G k)" using in_group [OF w n(1)] by blast
    from linked_node [OF l k] obtain m where "h x = Some m" "parent m = owner k" by metis
    then have "owner k = Ptr a" using n by simp
    then show "(x, a) \<in> below G" using k below_group by blast
  next
    assume "(x, a) \<in> below G"
    then obtain k where k: "x \<in> set (G k)" "owner k = Ptr a" using below_group by blast
    from linked_node [OF l k(1)] obtain m where "h x = Some m" "parent m = owner k" by metis
    then show "(x, a) \<in> parents h" using k(2) by (auto simp: parents_def)
  qed
  then show ?thesis by auto
qed

lemma below_subtree: "well_formed G h \<Longrightarrow> (p, cur) \<notin> (parents h)\<^sup>* \<longleftrightarrow> p \<notin> subtree G cur"
  by (simp add: parents_below subtree_def)

lemma few_looseD: "few_loose G \<Longrightarrow> \<exists>r. G (Loose r) = []"
  unfolding few_loose_def by blast

lemma few_loose_change:
  assumes "few_loose G" "\<And>j. j \<noteq> Loose r \<Longrightarrow> j \<noteq> k \<Longrightarrow> j \<noteq> k0 \<Longrightarrow> G' j = G j"
  shows "few_loose G'"
proof -
  obtain b where b: "\<forall>s \<ge> b. G (Loose s) = []" using assms(1) by (auto simp: few_loose_def)
  obtain i j where ij: "\<And>s. k = Loose s \<Longrightarrow> s = i" "\<And>s. k0 = Loose s \<Longrightarrow> s = j" by (metis group.inject(3))
  have "G' (Loose s) = []" if s: "s \<ge> Suc (b + r + i + j)" for s
  proof -
    have "Loose s \<noteq> Loose r" "Loose s \<noteq> k" "Loose s \<noteq> k0" using s ij by fastforce+
    then show ?thesis using assms(2) b s by simp
  qed
  then show ?thesis unfolding few_loose_def by blast
qed

lemma few_loose_detach: "few_loose G \<Longrightarrow> few_loose (detach k cur r G)"
  by (rule few_loose_change [of G r k k]) (simp_all add: detach_def)

lemma few_loose_relocate: "few_loose G \<Longrightarrow> few_loose (relocate k0 cur k f G)"
  by (rule few_loose_change [of G 0 k k0]) (simp_all add: relocate_def Let_def)

lemma few_loose_replaced: "few_loose G \<Longrightarrow> few_loose (replaced k old cur r G)"
  by (rule few_loose_change [of G r k k]) (simp_all add: replaced_def)

lemma inserted_valid:
  assumes "inserted_for e a G h doc cur D A res" "few_loose D" "few_loose A"
  shows "\<exists>r h'. res = Some (r, h') \<and> valid h'"
  using assms unfolding inserted_for_def valid_def by blast

text \<open>A group with a movable member can hold another movable node.\<close>

lemma group_can_hold:
  assumes "well_formed G h" "p \<in> set (G k)" "h p = Some n" "movable h p" "movable h cur" "p \<notin> subtree G cur"
  shows "can_hold G h (ndoc n) k cur"
proof -
  note w = well_formedD [OF assms(1)]
  have np: "k \<noteq> Props a" for a
    using typedD(1) [OF w(6) assms(2,3)] assms(3,4) by (auto simp: kind_ok_def movable_def)
  have room: "room_in h k"
  proof (cases k)
    case (Kids a)
    then have "owner k = Ptr a" by simp
    from group_owner [OF w(2) assms(2) this] obtain m where "h a = Some m" "k = Kids a \<Longrightarrow> ntype m \<noteq> XML_ENTITY_REF_NODE" by blast
    then show ?thesis using Kids by (simp add: room_in_def)
  qed (use np in \<open>simp_all add: room_in_def\<close>)
  have pd: "present (ndoc n) h" using safe_nodeD [OF w(5) assms(3)] by (simp add: safe_node_def)
  have own: "a \<notin> subtree G cur \<and> (\<forall>m. h a = Some m \<longrightarrow> ndoc m = ndoc n)" if a: "owner k = Ptr a" for a
  proof (intro conjI allI impI)
    have "(p, a) \<in> below G" using assms(2) a below_group by blast
    then show "a \<notin> subtree G cur" using subtree_parent assms(6) by blast
    show "ndoc m = ndoc n" if "h a = Some m" for m
      using typedD(2) [OF w(6) assms(2,3) a that] by (simp add: heir_ok_def)
  qed
  have kd: "kind_ok k (ntype c) \<and> \<not> is_document (ntype c)" if "h cur = Some c" for c
    using assms(5) that np by (cases k) (auto simp: movable_def kind_ok_def)
  show ?thesis unfolding can_hold_def using room pd own np kd by blast
qed

lemma edit_ok:
  assumes "valid h" "allowed op h"
  shows "\<exists>r h'. run_edit e op h = Some (r, h') \<and> valid h'"
proof -
  obtain G where G: "well_formed G h" "few_loose G" using assms(1) by (auto simp: valid_def)
  obtain r where r: "G (Loose r) = []" using few_looseD [OF G(2)] by blast
  note fl = few_loose_detach [OF G(2)] few_loose_relocate [OF G(2)]
  note sub = below_subtree [OF G(1)]
  show ?thesis
  proof (cases op)
    case (Unlink cur)
    then obtain c where c: "h cur = Some c" using assms(2) by auto
    obtain k where k: "cur \<in> set (G k)" using in_group [OF G(1) c] by blast
    from node_unlinked [OF G(1) k c r] obtain h1 where "xmlUnlinkNode (Ptr cur) h = Some (tidy (detach k cur r G) h1)"
      "well_formed (detach k cur r G) (tidy (detach k cur r G) h1)" by blast
    then show ?thesis using fl(1) Unlink by (auto simp: valid_def)
  next
    case (AddNext p cur)
    then have a: "movable h cur" "movable h p" "p \<notin> subtree G cur" using assms(2) sub by auto
    then obtain c n where c: "h cur = Some c" "ntype c \<noteq> XML_ATTRIBUTE_NODE" and n: "h p = Some n" by (auto simp: movable_def)
    obtain k0 k where k: "cur \<in> set (G k0)" "p \<in> set (G k)" using in_group [OF G(1) c(1)] in_group [OF G(1) n] by blast
    have pc: "p \<noteq> cur" using a(3) by auto
    have ch: "can_hold G h (ndoc n) k cur" by (rule group_can_hold [OF G(1) k(2) n a(2,1,3)])
    note s = next_sibling_inserted [where e = e, OF G(1) k pc c(1) n c(2) ch r]
    show ?thesis
    proof (cases "nxt (G k) p = Ptr cur")
      case True
      then show ?thesis using s assms(1) AddNext by simp
    next
      case False
      then show ?thesis using s inserted_valid [OF _ fl] AddNext by simp
    qed
  next
    case (AddPrev p cur)
    then have a: "movable h cur" "movable h p" "p \<notin> subtree G cur" using assms(2) sub by auto
    then obtain c n where c: "h cur = Some c" "ntype c \<noteq> XML_ATTRIBUTE_NODE" and n: "h p = Some n" by (auto simp: movable_def)
    obtain k0 k where k: "cur \<in> set (G k0)" "p \<in> set (G k)" using in_group [OF G(1) c(1)] in_group [OF G(1) n] by blast
    have pc: "p \<noteq> cur" using a(3) by auto
    have ch: "can_hold G h (ndoc n) k cur" by (rule group_can_hold [OF G(1) k(2) n a(2,1,3)])
    note s = prev_sibling_inserted [where e = e, OF G(1) k pc c(1) n c(2) ch r]
    show ?thesis
    proof (cases "prv (G k) p = Ptr cur")
      case True
      then show ?thesis using s assms(1) AddPrev by simp
    next
      case False
      then show ?thesis using s inserted_valid [OF _ fl] AddPrev by simp
    qed
  next
    case (AddLast p cur)
    then obtain n c where n: "h p = Some n" "ntype n \<noteq> XML_TEXT_NODE" "ntype n \<noteq> XML_ENTITY_REF_NODE" and j: "\<not> joins h c (lastChild n)"
      and a: "movable h cur" "p \<notin> subtree G cur" and c: "h cur = Some c" using assms(2) sub by auto
    have ca: "ntype c \<noteq> XML_ATTRIBUTE_NODE" "\<not> is_document (ntype c)" using a(1) c by (auto simp: movable_def)
    obtain k0 where k0: "cur \<in> set (G k0)" using in_group [OF G(1) c] by blast
    have pd: "present (ndoc n) h" using safe_nodeD [OF well_formedD(5) [OF G(1)] n(1)] by (simp add: safe_node_def)
    have ch: "can_hold G h (ndoc n) (Kids p) cur"
      using n a(2) c ca pd by (auto simp: can_hold_def room_in_def kind_ok_def)
    have j': "\<not> joins h c (lastp (G (Kids p)))" using j last_child(1) [OF G(1) n(1,3)] by simp
    note s = child_appended [where e = e, OF G(1) k0 n(1) c n(2) ca(1) ch r j']
    show ?thesis
    proof (cases "lastp (G (Kids p)) = Ptr cur")
      case True
      then show ?thesis using s assms(1) AddLast by simp
    next
      case False
      then show ?thesis using s inserted_valid [OF _ fl] AddLast by simp
    qed
  next
    case (Replace old cur)
    then have a: "movable h cur" "movable h old" "old \<notin> subtree G cur" using assms(2) sub by auto
    then obtain c where c: "h cur = Some c" "ntype c \<noteq> XML_ATTRIBUTE_NODE" by (auto simp: movable_def)
    obtain n where n: "h old = Some n" "parent n \<noteq> NULL" using assms(2) Replace by auto
    obtain k0 k where k: "cur \<in> set (G k0)" "old \<in> set (G k)" using in_group [OF G(1) c(1)] in_group [OF G(1) n(1)] by blast
    have ch: "can_hold G h (ndoc n) k cur" by (rule group_can_hold [OF G(1) k(2) n(1) a(2,1,3)])
    obtain n' where "h old = Some n'" "parent n' = owner k" using linked_node [OF well_formedD(1) [OF G(1)] k(2)] by metis
    then have "owner k \<noteq> NULL" using n by auto
    moreover have "k \<noteq> Props b" for b
      using typedD(1) [OF well_formedD(6) [OF G(1)] k(2) n(1)] a(2) n(1) by (auto simp: kind_ok_def movable_def)
    ultimately obtain p where p: "k = Kids p" by (cases k) auto
    have pc: "cur \<noteq> old" using a(3) by auto
    have "inserted_for e old G h (ndoc n) cur (detach k0 cur r G) (replaced (Kids p) old cur r (detach k0 cur r G)) (run_edit e op h)"
      using node_replaced [where e = e, OF G(1) k(1) k(2) [unfolded p] pc c(1) n(1) c(2) ch [unfolded p] r] Replace by simp
    then show ?thesis by (rule inserted_valid) (intro fl(1) few_loose_replaced)+
  qed
qed

text \<open>The documents that allowed edits lead to.\<close>

inductive edits :: "env \<Rightarrow> nheap \<Rightarrow> nheap \<Rightarrow> bool" for e where
  none: "edits e h h"
| some: "edits e h h1 \<Longrightarrow> allowed op h1 \<Longrightarrow> run_edit e op h1 = Some (r, h2) \<Longrightarrow> edits e h h2"

lemma edits_valid: "edits e h h' \<Longrightarrow> valid h \<Longrightarrow> valid h'"
proof (induction rule: edits.induct)
  case (some h h1 op r h2)
  then have "valid h1" by blast
  then obtain r' h' where "run_edit e op h1 = Some (r', h')" "valid h'" using edit_ok some.hyps(2) by blast
  then show ?case using some.hyps(3) by simp
qed

text \<open>
  C5. After any sequence of unlinkings, insertions and replacements, in one or several documents, with allocations failing anywhere,
  the next one reads no freed node, ends and leaves a valid document.  Its conditions (\<open>allowed\<close>) are those of the calls before
  it.  A node that is unlinked exists.  Otherwise the node that is moved is neither an attribute nor a document, and the target is
  not below it; a sibling target and a node that is replaced are neither attributes nor documents either, and the latter
  has a parent; the parent of an appended node is no text and no entity reference, and the node is no text that joins its last child.
\<close>

theorem edits_safe:
  assumes "valid h" "edits e h h1" "allowed op h1"
  shows "\<exists>r h2. run_edit e op h1 = Some (r, h2) \<and> valid h2 \<and> edits e h h2"
proof -
  have "valid h1" using edits_valid assms(1,2) by blast
  then obtain r h2 where "run_edit e op h1 = Some (r, h2)" "valid h2" using edit_ok assms(3) by blast
  then show ?thesis using edits.some [OF assms(2,3)] by blast
qed

lemma sample_valid: "valid sample_heap"
proof -
  have "few_loose sample_forest" unfolding few_loose_def by (rule exI [of _ 31]) (simp add: sample_forest_def)
  then show ?thesis using sample_well_formed by (auto simp: valid_def)
qed

theorem edits_safe_witness: "\<exists>r h2. run_edit sample_env (AddNext 15 12) sample_heap = Some (r, h2) \<and> valid h2"
proof -
  have "15 \<notin> subtree sample_forest 12" using sample_subtrees(1) by auto
  then have "(15, 12) \<notin> (parents sample_heap)\<^sup>*" using below_subtree [OF sample_well_formed] by simp
  then have "allowed (AddNext 15 12) sample_heap" by (simp add: movable_def sample_heap_def sample_type_def is_document_def)
  then show ?thesis using edits_safe [OF sample_valid edits.none] by blast
qed

end
