(* ===== verification/Spec2Isabelle.thy ===== *)
theory Spec2Isabelle
  imports Chvalid Xmlstring Utf8 HashMap Interning Transcode Buffers OrderedLists UriMerge TreeEdits
begin

text \<open>
  \<^bold>\<open>A verification development for libxml2.\<close>

  libxml2 is layered.  At the bottom are components that know nothing of XML documents: character
  classes (\<open>chvalid.c\<close>), zero-terminated byte strings and UTF-8 strings (\<open>xmlstring.c\<close>), hash
  tables (\<open>hash.c\<close>), string dictionaries (\<open>dict.c\<close>), character converters (\<open>encoding.c\<close>),
  memory buffers (\<open>buf.c\<close>), linked lists (\<open>list.c\<close>) and URIs (\<open>uri.c\<close>).  The parsers, the tree, the validators and the XPath, XPointer,
  XInclude, RELAX NG, XML Schema, Schematron, reader and writer modules are built on them and on the document tree (\<open>tree.c\<close>), a
  graph of nodes that are linked to their parent, children, siblings, attributes and document: every name of a
  document is interned in a dictionary, every symbol table is a hash table keyed by such names, every input and
  output goes through a buffer and a converter, and every character is classified by the tables.  This
  development models the bottom layer, file by file, and the links of the document tree.

  \<^bold>\<open>Conventions\<close> (\<open>Prelude\<close>, \<open>Words\<close>).  A C pointer is NULL or a pointer to the bytes (or the
  object) that may be accessed through it; every read, write, \<open>memcpy\<close> and \<open>memmove\<close> is checked, and None
  is an access outside the allocation.  So ``the model returns Some'' says that the C code has no
  out-of-bounds access.  Error codes are ordinary values.  Integers that can wrap around are 8-, 32- and 64-bit
  words; \<open>int\<close> lengths are mathematical integers with the conversions from wider types written out
  (\<open>c_int\<close>).  An allocator is an argument of the definitions: a predicate that says which requests
  succeed, or, in \<open>Buf\<close>, a function that also gives the arbitrary bytes of the fresh block; the theorems hold
  for all of them, so every out-of-memory path is covered.  Loops are structural recursion, \<open>function\<close> with a
  termination proof, or recursion on fuel; running out of fuel is None as well, so the theorems that state
  Some prove that the fuel suffices.

  \<^bold>\<open>Theories.\<close>
  \<^item> \<open>Chvalid\<close>: the range tables of \<open>codegen/ranges.inc\<close>, \<open>xmlCharInRange\<close> and the class tests and
    macros of \<open>chvalid.c\<close> and \<open>chvalid.h\<close>.  Binary search equals membership in a range, for at most
    \<open>2 ^ 30\<close> ranges (the midpoint is computed in a C \<open>int\<close>); every class test is the production that
    \<open>codegen/ranges.def\<close> lists, on all 32-bit arguments.
  \<^item> \<open>Xmlstring\<close>: the functions of \<open>xmlstring.c\<close> on byte strings.  Comparisons are lexicographic,
    searches find the first occurrence, copies and concatenations are exact.
  \<^item> \<open>Utf8\<close>: the UTF-8 functions of \<open>xmlstring.c\<close> and \<open>xmlCopyChar\<close> of \<open>parserInternals.c\<close>,
    against a definition of UTF-8 on Unicode scalar values.
  \<^item> \<open>RobinHood\<close>: the probing, shifting, growing and removal loops that \<open>hash.c\<close> and \<open>dict.c\<close> share,
    over an arbitrary entry type, with the Robin Hood invariant.  Fuel is the table size plus one: an
    entry is never displaced by the whole table, because the table is never full.
  \<^item> \<open>KeyedTable\<close>: the locale \<open>keyed_table\<close>, a Robin Hood table whose entries are found by a key; \<open>Hash\<close>
    and \<open>HashMap\<close>: the definitions of \<open>hash.c\<close> and their proofs; \<open>Dict\<close> and \<open>Interning\<close>: those of
    \<open>dict.c\<close>.  Both interpret \<open>keyed_table\<close> on their entries.
  \<^item> \<open>Refinement\<close>: the locale \<open>implementation\<close>, which lifts the refinement of single operations to arbitrary
    sequences of operations.  It is interpreted on the hash tables (finite maps), the dictionaries
    (injective maps from strings to addresses that only grow), both kinds of buffers (byte strings) and the lists
    (independent sequences).
  \<^item> \<open>Encoding\<close> and \<open>Transcode\<close>: the converters of \<open>encoding.c\<close>.  The locales \<open>transcoder\<close> and
    \<open>strict_transcoder\<close> state what a loop body must do on one character; the theorems on whole calls follow
    once, with the result of a call for every rest of the input: SPACE, INPUT, or the bytes written when the input ends or is
    cut off in a character.  They are interpreted on Latin 1, on the 8-bit tables and, through the locale \<open>byte_order\<close>, on
    UTF-16 in both byte orders.  Fuel is the length of the input: every step consumes a byte.
  \<^item> \<open>Buf\<close> and \<open>Buffers\<close>: the two buffer structures of \<open>buf.c\<close>, with all their operations.
  \<^item> \<open>Xmllist\<close>, \<open>ListRings\<close>, \<open>Sequences\<close> and \<open>OrderedLists\<close>: the lists of \<open>list.c\<close> in a heap of links and
    headers, the invariant (disjoint doubly linked rings), the refinement to sequences, and sorting.  The walks
    are partial functions, for which None also stands for a walk that never ends.
  \<^item> \<open>UriParser\<close>, \<open>UriSave\<close> and \<open>UriResolve\<close>: the definitions of \<open>uri.c\<close>.  \<open>UriScan\<close>, \<open>UriReference\<close> and
    \<open>UriGrammar\<close>: the parser against a reference parser, and that against a grammar, which is compared with the one of RFC 3986: the
    code also takes anything in the brackets of a host and brackets in a fragment, and refuses an empty port and ports over
    \<open>INT_MAX\<close>.  \<open>UriText\<close>:
    \<open>xmlSaveUri\<close>, escaping and the round trips.  \<open>UriPaths\<close>: the in-place normalization of paths against a
    function on lists of segments.  \<open>UriMerge\<close>: the resolution of references, against section 5.2 of RFC 2396 where the code follows
    it (\<open>departs\<close> lists where it does not).
  \<^item> \<open>XmlTree\<close>: the operations of \<open>tree.c\<close> on the links of nodes, on a heap of nodes, with \<open>xmlRemoveID\<close> of \<open>valid.c\<close>
    and the lookup of entities of \<open>entities.c\<close>.  The recursion over a tree and the walks are partial functions, for which None
    is a read of a freed node or a walk that never ends.  \<open>Forests\<close>: the abstraction, a forest, which lists the children and the attributes of every node;
    the links of a node are a function of the forest.  \<open>TreeMoves\<close>: the change of the document of a tree.  A move to another document copies strings; it fails only when one can not be copied
    (\<open>losing\<close>).  \<open>TreeForms\<close>:
    well-formed documents, in which only elements have attributes: the code moves those of no other node.  \<open>TreeInsert\<close>, \<open>TreeText\<close> and \<open>TreeReplace\<close>: insertion, merging of text and replacement; \<open>TreeFree\<close>:
    unlinked trees are freed completely and nothing else is.  \<open>DocumentTree\<close>: a sample document and the properties of the
    operations; \<open>TreeEdits\<close>: sequences of operations, as an inductive relation between heaps, under conditions on pointers (\<open>allowed\<close>).

  \<^bold>\<open>Properties.\<close>  Refinement of abstract data types by every sequence of operations (hash tables, dictionaries,
  both buffers), the behaviour of the single operations on every branch with the conditions under which they
  can fail, interning (equal strings have equal addresses and conversely), round trips (UTF-8 and UTF-16,
  Latin 1, \<open>xmlCopyChar\<close> and \<open>xmlGetUTF8Char\<close>, wrapping and unwrapping of buffers, parsing and saving, escaping and
  unescaping of URIs), the URI parser as a decision of its grammar and its relation to RFC 3986, the resolution of references, the operations of the document tree as operations
  on lists that keep every link right, free exactly one subtree and never touch a freed node, soundness of the
  converters on arbitrary input, equivalence of the table searches and the combined-name lookups with their
  specifications, termination of the sizing loop, and where the code departs from its documentation
  the departure itself.

  \<^bold>\<open>Outside the model.\<close>  \<open>xmlStrPrintf\<close> and its variants forward to the C library.  The code for Windows paths,
  \<open>xmlPrintURI\<close> and \<open>xmlFreeURI\<close> of \<open>uri.c\<close> are left out, as are the scanning functions of \<open>hash.c\<close>, whose callbacks may
  change the table, the encoding handlers with iconv and ICU, the locks and the entropy sources of \<open>dict.c\<close>.
  In the tree a string is a value with the place where it stands, so the deallocation of strings is not in the model, and neither is the read of
  the dictionary of a document that decides which strings a freed node releases; a
  dictionary is a number, with the strings that it can add as a parameter, and the tables of identifiers and
  entities are finite maps, which the theorems on \<open>hash.c\<close> justify.  Namespace declarations, \<open>xmlFreeDoc\<close>, \<open>xmlFreeDtd\<close> and
  \<open>xmlFreeEntity\<close> are not modelled and have the result None; the callbacks for new and freed nodes are taken to be unset.  The creation and the copying of
  nodes, the parsers, the serializers, the validators, XPath and the other document-level modules are not modelled: they work through
  the input layer and the callbacks of the application, and they are an order of magnitude larger.  Source strings are separate objects: an argument that points into the buffer being
  changed is not considered.  The segments of a path are counted without the bound of a C \<open>int\<close>, which takes a path of 4 GB.
  \<open>xmlSaveUri\<close>, and with it resolution and the round trip, is specified for ports of at most nine digits: at the edge of the
  buffer it cuts longer ones.  Interning and the lookups by prefix and name are specified for prefixes that are not the empty string, which
  \<open>xmlStrQEqual\<close> never matches.
\<close>

end
